(* ===== verification/Prelude.thy ===== *)
theory Prelude
  imports Main "HOL-Library.Word"
begin

unbundle bit_operations_syntax

text \<open>
  Shared vocabulary of the development: machine integers and byte strings, the
  outcome type of fallible Rust code (a value, an error or a panic), checked
  arithmetic, big- and little-endian integer encodings with their round trips,
  the numbering of the bits of a byte string, most significant bit first, and the
  limits on account data.
\<close>

section \<open>Collections of rewrite rules\<close>

named_theorems bytes_simps \<open>lengths and projections of byte encodings\<close>
named_theorems slice_simps \<open>fields of the slices the bit operations return\<close>
named_theorems inv_intros \<open>preservation of the well-formedness invariants\<close>

section \<open>Types\<close>

type_synonym byte = "8 word"
type_synonym u3 = "3 word"
type_synonym hash = "byte list"

text \<open>
  The result of a Rust computation: \<open>Ok\<close> and \<open>Err\<close> are the
  constructors of \<open>Result\<close>, \<open>Panic\<close> is an \<open>unwrap\<close> on an
  error, a failed \<open>assert!\<close> or an \<open>unreachable!()\<close> that is reached.
\<close>

datatype ('e, 'a) outcome = Ok (ok_val: 'a) | Err (err_val: 'e) | Panic

definition bind_outcome ::
  "('e, 'a) outcome \<Rightarrow> ('a \<Rightarrow> ('e, 'b) outcome) \<Rightarrow> ('e, 'b) outcome" where
  "bind_outcome m f = (case m of Ok a \<Rightarrow> f a | Err e \<Rightarrow> Err e | Panic \<Rightarrow> Panic)"

lemma bind_outcome_simps [simp]:
  "bind_outcome (Ok a) f = f a"
  "bind_outcome (Err e) f = Err e"
  "bind_outcome Panic f = Panic"
  by (simp_all add: bind_outcome_def)

lemma bind_outcome_cong [fundef_cong]:
  assumes "m = m'" and "\<And>a. m' = Ok a \<Longrightarrow> f a = g a"
  shows "bind_outcome m f = bind_outcome m' g"
  using assms by (cases m') auto

lemma bind_outcome_Ok:
  "bind_outcome m f = Ok b \<longleftrightarrow> (\<exists>a. m = Ok a \<and> f a = Ok b)"
  by (cases m) auto

text \<open>\<open>opt.ok_or(e)\<close> and \<open>opt.unwrap()\<close>.\<close>

definition ok_or :: "'e \<Rightarrow> 'a option \<Rightarrow> ('e, 'a) outcome" where
  "ok_or e x = (case x of Some a \<Rightarrow> Ok a | None \<Rightarrow> Err e)"

definition unwrap_option :: "'a option \<Rightarrow> ('e, 'a) outcome" where
  "unwrap_option x = (case x of Some a \<Rightarrow> Ok a | None \<Rightarrow> Panic)"

lemma ok_or_simps [simp]: "ok_or e (Some a) = Ok a" "ok_or e None = Err e"
  by (simp_all add: ok_or_def)

lemma unwrap_option_simps [simp]: "unwrap_option (Some a) = Ok a" "unwrap_option None = Panic"
  by (simp_all add: unwrap_option_def)

lemma ok_or_Ok: "ok_or e x = Ok a \<longleftrightarrow> x = Some a"
  by (cases x) auto

text \<open>\<open>res.map_err(f)\<close>\<close>

definition map_error :: "('e \<Rightarrow> 'f) \<Rightarrow> ('e, 'a) outcome \<Rightarrow> ('f, 'a) outcome" where
  "map_error f r = (case r of Ok a \<Rightarrow> Ok a | Err e \<Rightarrow> Err (f e) | Panic \<Rightarrow> Panic)"

lemma map_error_simps [simp]:
  "map_error f (Ok a) = Ok a" "map_error f (Err e) = Err (f e)" "map_error f Panic = Panic"
  by (simp_all add: map_error_def)

section \<open>Limits of the Solana runtime\<close>

text \<open>How much an account can grow in one instruction, and how large it can get.\<close>

definition MAX_PERMITTED_DATA_INCREASE :: nat where
  "MAX_PERMITTED_DATA_INCREASE = 1024 * 10"

definition MAX_PERMITTED_DATA_LENGTH :: nat where
  "MAX_PERMITTED_DATA_LENGTH = 10 * 1024 * 1024"

section \<open>Checked arithmetic\<close>

text \<open>
  Unsigned integers whose overflow the code checks are natural numbers below
  \<open>2 ^ w\<close>; the check is written out.
\<close>

definition checked_add :: "nat \<Rightarrow> nat \<Rightarrow> nat \<Rightarrow> nat option" where
  "checked_add w a b = (if a + b < 2 ^ w then Some (a + b) else None)"

definition checked_sub :: "nat \<Rightarrow> nat \<Rightarrow> nat option" where
  "checked_sub a b = (if b \<le> a then Some (a - b) else None)"

lemma checked_add_Some: "checked_add w a b = Some c \<longleftrightarrow> c = a + b \<and> a + b < 2 ^ w"
  by (auto simp: checked_add_def)

lemma checked_sub_Some: "checked_sub a b = Some c \<longleftrightarrow> b \<le> a \<and> c = a - b"
  by (auto simp: checked_sub_def)

lemma checked_sub_None: "checked_sub a b = None \<longleftrightarrow> a < b"
  by (auto simp: checked_sub_def)

section \<open>Integers as byte strings\<close>

text \<open>\<open>to_le n v\<close> is the \<open>n\<close>-byte little-endian encoding of \<open>v\<close>.\<close>

fun to_le :: "nat \<Rightarrow> nat \<Rightarrow> byte list" where
  "to_le 0 v = []"
| "to_le (Suc n) v = word_of_nat (v mod 256) # to_le n (v div 256)"

fun from_le :: "byte list \<Rightarrow> nat" where
  "from_le [] = 0"
| "from_le (b # bs) = unat b + 256 * from_le bs"

definition to_be :: "nat \<Rightarrow> nat \<Rightarrow> byte list" where
  "to_be n v = rev (to_le n v)"

definition from_be :: "byte list \<Rightarrow> nat" where
  "from_be bs = from_le (rev bs)"

lemma length_to_le [simp, bytes_simps]: "length (to_le n v) = n"
  by (induction n arbitrary: v) auto

lemma length_to_be [simp, bytes_simps]: "length (to_be n v) = n"
  by (simp add: to_be_def)

lemma unat_byte_less: "unat (b :: byte) < 256"
  using unsigned_less[of b] by simp

lemma unat_byte_of_nat: "unat (word_of_nat v :: byte) = v mod 256"
  by (simp add: unat_of_nat)

lemma from_le_to_le_mod: "from_le (to_le n v) = v mod 256 ^ n"
proof (induction n arbitrary: v)
  case (Suc n)
  have "v mod 256 + 256 * (v div 256 mod 256 ^ n) = v mod (256 * 256 ^ n)"
    by (simp add: mod_mult2_eq)
  with Suc show ?case by (simp add: unat_byte_of_nat)
qed simp

lemma from_le_to_le [simp]: "v < 256 ^ n \<Longrightarrow> from_le (to_le n v) = v"
  by (simp add: from_le_to_le_mod)

lemma from_be_to_be [simp]: "v < 256 ^ n \<Longrightarrow> from_be (to_be n v) = v"
  by (simp add: from_be_def to_be_def)

lemma from_le_bound: "from_le bs < 256 ^ length bs"
proof (induction bs)
  case (Cons b bs)
  have "unat b < 256" by (rule unat_byte_less)
  with Cons show ?case by simp
qed simp

lemma from_be_bound: "from_be bs < 256 ^ length bs"
  using from_le_bound[of "rev bs"] by (simp add: from_be_def)

lemma to_le_from_le [simp]: "length bs = n \<Longrightarrow> to_le n (from_le bs) = bs"
proof (induction bs arbitrary: n)
  case (Cons b bs)
  have b: "unat b < 256" by (rule unat_byte_less)
  then have "(unat b + 256 * from_le bs) div 256 = from_le bs"
    and "(unat b + 256 * from_le bs) mod 256 = unat b"
    by simp_all
  with Cons show ?case by auto
qed simp

lemma to_be_from_be [simp]: "length bs = n \<Longrightarrow> to_be n (from_be bs) = bs"
  by (simp add: to_be_def from_be_def)

lemma from_le_append: "from_le (xs @ ys) = from_le xs + 256 ^ length xs * from_le ys"
  by (induction xs) (simp_all add: algebra_simps)

lemma take_to_le: "k \<le> n \<Longrightarrow> take k (to_le n v) = to_le k v"
proof (induction k arbitrary: n v)
  case (Suc k)
  then show ?case by (cases n) auto
qed simp

lemma to_le_inject:
  "v < 256 ^ n \<Longrightarrow> w < 256 ^ n \<Longrightarrow> to_le n v = to_le n w \<longleftrightarrow> v = w"
  by (metis from_le_to_le)

lemma to_be_inject:
  "v < 256 ^ n \<Longrightarrow> w < 256 ^ n \<Longrightarrow> to_be n v = to_be n w \<longleftrightarrow> v = w"
  by (metis from_be_to_be)

section \<open>Bits of a byte string\<close>

text \<open>Bit \<open>k\<close> of a byte string, counting from the most significant bit of the first byte.\<close>

definition bit_at :: "byte list \<Rightarrow> nat \<Rightarrow> bool" where
  "bit_at bs k = bit (bs ! (k div 8)) (7 - k mod 8)"

lemma bit_at_drop: "n \<le> length bs \<Longrightarrow> bit_at (drop n bs) k = bit_at bs (8 * n + k)"
  by (simp add: bit_at_def)

lemma bit_at_take: "k < 8 * n \<Longrightarrow> bit_at (take n bs) k = bit_at bs k"
  by (simp add: bit_at_def less_mult_imp_div_less mult.commute)

lemma bit_at_append:
  "bit_at (xs @ ys) k = (if k < 8 * length xs then bit_at xs k else bit_at ys (k - 8 * length xs))"
proof (cases "k < 8 * length xs")
  case True
  then have "k div 8 < length xs" by (simp add: less_mult_imp_div_less mult.commute)
  with True show ?thesis by (simp add: bit_at_def nth_append)
next
  case False
  then obtain j where j: "k = 8 * length xs + j"
    by (metis le_add_diff_inverse not_less)
  with False show ?thesis by (simp add: bit_at_def nth_append)
qed

lemma byte_eqI: "(\<And>i. i < 8 \<Longrightarrow> bit a i = bit b i) \<Longrightarrow> a = (b :: byte)"
  by (rule bit_word_eqI) auto

lemma byte_list_eqI:
  assumes "length xs = length ys"
    and "\<And>k. k < 8 * length xs \<Longrightarrow> bit_at xs k = bit_at ys k"
  shows "xs = (ys :: byte list)"
proof (rule nth_equalityI)
  fix i assume i: "i < length xs"
  show "xs ! i = ys ! i"
  proof (rule byte_eqI)
    fix j :: nat assume j: "j < 8"
    define k where "k = 7 - j"
    have k: "k < 8" "7 - k = j" using j by (simp_all add: k_def)
    have "bit_at xs (8 * i + k) = bit_at ys (8 * i + k)"
      using i k(1) by (intro assms(2)) simp
    with k show "bit (xs ! i) j = bit (ys ! i) j" by (simp add: bit_at_def)
  qed
qed (rule assms(1))

section \<open>Lists\<close>

lemma map_upt_shift: "map f [a..<a + n] = map (\<lambda>i. f (a + i)) [0..<n]"
  by (rule nth_equalityI) auto

lemma take_map_upt: "n \<le> m \<Longrightarrow> take n (map f [0..<m]) = map f [0..<n]"
  by (simp add: take_map)

lemma drop_map_upt: "n \<le> m \<Longrightarrow> drop n (map f [0..<m]) = map (\<lambda>i. f (n + i)) [0..<m - n]"
  by (rule nth_equalityI) auto

end
