(* ===== verification/U3.thy ===== *)
theory U3
  imports Prelude
begin

text \<open>
  The three-bit unsigned integer of \<^verbatim>\<open>common/lib/src/u3.rs\<close> (bit offsets within
  a byte) and the slice splitting helpers of \<^verbatim>\<open>common/stdx/src/lib.rs\<close>. The eight
  variants of the enumeration are the eight values of a three-bit word; the
  operations are translated with the truncation to \<open>u8\<close> that the code does
  before it reduces modulo eight, and the lemmas show that the truncation does not
  change the result.
\<close>

section \<open>The enumeration and its conversions\<close>

definition U3_MIN :: u3 where "U3_MIN = 0"

definition U3_MAX :: u3 where "U3_MAX = 7"

definition into_integer :: "u3 \<Rightarrow> byte" where
  "into_integer x = word_of_nat (unat x)"

definition from_integer :: "byte \<Rightarrow> u3 option" where
  "from_integer b = (if b \<le> 7 then Some (word_of_nat (unat b)) else None)"

text \<open>The \<open>Unsigned\<close> trait: \<open>as_u8\<close> keeps the low eight bits of any unsigned integer.\<close>

definition as_u8 :: "nat \<Rightarrow> byte" where
  "as_u8 v = word_of_nat v"

definition u3_try_from :: "nat \<Rightarrow> u3 option" where
  "u3_try_from v = (if v < 256 then from_integer (word_of_nat v) else None)"

section \<open>Modular arithmetic\<close>

definition u3_wrap :: "nat \<Rightarrow> u3" where
  "u3_wrap v = the (from_integer (as_u8 v mod 8))"

definition u3_divmod :: "nat \<Rightarrow> nat \<times> u3" where
  "u3_divmod v = (v div 8, u3_wrap v)"

definition wrapping_add :: "u3 \<Rightarrow> nat \<Rightarrow> u3" where
  "wrapping_add x rhs = u3_wrap (unat (into_integer x + as_u8 rhs))"

definition wrapping_inc :: "u3 \<Rightarrow> u3" where
  "wrapping_inc x = wrapping_add x 1"

definition wrapping_sub :: "u3 \<Rightarrow> nat \<Rightarrow> u3" where
  "wrapping_sub x rhs = u3_wrap (unat (into_integer x - as_u8 rhs))"

definition wrapping_dec :: "u3 \<Rightarrow> u3" where
  "wrapping_dec x = wrapping_add x 7"

definition checked_inc :: "u3 \<Rightarrow> u3 option" where
  "checked_inc x = from_integer (into_integer x + 1)"

definition checked_dec :: "u3 \<Rightarrow> u3 option" where
  "checked_dec x =
     (case checked_sub (unat (into_integer x)) 1 of
        None \<Rightarrow> None | Some d \<Rightarrow> from_integer (word_of_nat d))"

definition u3_neg :: "u3 \<Rightarrow> u3" where
  "u3_neg x = wrapping_sub 0 (unat (into_integer x))"

section \<open>Facts\<close>

lemma u3_less [simp]: "unat (x :: u3) < 8"
  using unsigned_less[of x] by simp

lemma unat_u3_of_nat [simp]: "unat (word_of_nat v :: u3) = v mod 8"
  by (simp add: unat_of_nat)

lemma u3_eq_iff: "(x :: u3) = y \<longleftrightarrow> unat x = unat y"
  by (simp add: word_unat_eq_iff)

lemma u3_eq_0: "(x :: u3) = 0 \<longleftrightarrow> unat x = 0"
  by (simp add: u3_eq_iff)

lemma u3_of_unat [simp]: "word_of_nat (unat x) = (x :: u3)"
  by simp

lemma unat_into_integer [simp]: "unat (into_integer x) = unat x"
proof -
  have "unat x < 256" using u3_less[of x] by linarith
  then show ?thesis unfolding into_integer_def unat_of_nat by simp
qed

lemma byte_le_7: "(b :: byte) \<le> 7 \<longleftrightarrow> unat b \<le> 7"
  by (simp add: word_le_nat_alt)

lemma from_into_integer: "from_integer (into_integer x) = Some x"
  using u3_less[of x] by (simp add: from_integer_def byte_le_7 less_Suc_eq_le del: u3_less)

lemma u3_wrap_mod: "u3_wrap v = word_of_nat v"
proof -
  have b: "unat (as_u8 v mod 8) = v mod 8"
    by (simp add: as_u8_def unat_mod_distrib unat_of_nat mod_mod_cancel)
  then have "as_u8 v mod 8 \<le> 7" unfolding byte_le_7 by simp
  then have "u3_wrap v = word_of_nat (v mod 8)"
    using b by (simp add: u3_wrap_def from_integer_def)
  then show ?thesis by (simp add: u3_eq_iff)
qed

lemma unat_wrapping_add [simp]: "unat (wrapping_add x n) = (unat x + n) mod 8"
proof -
  have "(unat x + n) mod 256 mod 8 = (unat x + n) mod 8"
    by (simp add: mod_mod_cancel)
  then show ?thesis
    by (simp add: wrapping_add_def u3_wrap_mod unat_word_ariths as_u8_def unat_of_nat mod_simps)
qed

lemma unat_wrapping_inc [simp]: "unat (wrapping_inc x) = (unat x + 1) mod 8"
  by (simp add: wrapping_inc_def)

lemma unat_wrapping_dec [simp]: "unat (wrapping_dec x) = (unat x + 7) mod 8"
  by (simp add: wrapping_dec_def)

lemma diff_256_mod_8:
  assumes "m < 256" shows "(256 - m) mod 8 = (8 - m mod 8) mod (8 :: nat)"
proof -
  have q: "m div 8 \<le> 31" using assms by linarith
  have "m = 8 * (m div 8) + m mod 8" by simp
  then have "256 - m = (8 - m mod 8) + 8 * (31 - m div 8)"
    using q mod_less_divisor[of 8 m] by linarith
  then show ?thesis by (metis mod_mult_self2)
qed

lemma unat_byte_sub: "unat (a - b :: byte) mod 8 = (unat a + (256 - unat b)) mod 8"
proof (cases "unat b \<le> unat a")
  case True
  then have "unat a + (256 - unat b) = (unat a - unat b) + 8 * 32"
    using unat_byte_less[of b] by simp
  then have "(unat a + (256 - unat b)) mod 8 = (unat a - unat b) mod 8"
    by (metis mod_mult_self2)
  moreover have "unat (a - b) = unat a - unat b"
    using True by (simp add: unat_sub_if' word_le_nat_alt)
  ultimately show ?thesis by simp
next
  case False
  have "unat (a - b) = unat a + (256 - unat b)"
    using False unat_byte_less[of b] by (simp add: unat_sub_if' word_le_nat_alt)
  then show ?thesis by simp
qed

lemma unat_wrapping_sub: "unat (wrapping_sub x n) = (unat x + (8 - n mod 8)) mod 8"
proof -
  have "(256 - n mod 256) mod 8 = (8 - n mod 8) mod 8"
    using diff_256_mod_8[of "n mod 256"] by (simp add: mod_mod_cancel)
  then have "(unat x + (256 - n mod 256)) mod 8 = (unat x + (8 - n mod 8)) mod 8"
    by (metis mod_add_right_eq)
  moreover have "unat (wrapping_sub x n) = (unat x + (256 - n mod 256)) mod 8"
    unfolding wrapping_sub_def u3_wrap_mod unat_u3_of_nat unat_byte_sub
    by (simp add: as_u8_def unat_of_nat)
  ultimately show ?thesis by simp
qed

lemma unat_u3_neg: "unat (u3_neg x) = (8 - unat x) mod 8"
  using u3_less[of x] by (simp add: u3_neg_def unat_wrapping_sub)

lemma wrapping_add_0 [simp]: "wrapping_add x 0 = x"
  by (simp add: u3_eq_iff)

lemma wrapping_add_add: "wrapping_add (wrapping_add x m) n = wrapping_add x (m + n)"
  by (simp add: u3_eq_iff mod_simps add.assoc)

section \<open>Splitting slices\<close>

text \<open>
  \<open>split_array_ref\<close>, \<open>split_at\<close> and their \<open>mut\<close> variants differ in
  borrowing only; the array lengths are checked at compile time.
\<close>

definition split_array :: "nat \<Rightarrow> 'a list \<Rightarrow> 'a list \<times> 'a list" where
  "split_array l xs = (take l xs, drop l xs)"

definition split_at_checked :: "'a list \<Rightarrow> nat \<Rightarrow> ('a list \<times> 'a list) option" where
  "split_at_checked xs mid = (if mid \<le> length xs then Some (take mid xs, drop mid xs) else None)"

definition stdx_split_at :: "nat \<Rightarrow> 'a list \<Rightarrow> ('a list \<times> 'a list) option" where
  "stdx_split_at l xs = split_at_checked xs l"

definition rsplit_at :: "nat \<Rightarrow> 'a list \<Rightarrow> ('a list \<times> 'a list) option" where
  "rsplit_at r xs =
     (case checked_sub (length xs) r of
        None \<Rightarrow> None | Some mid \<Rightarrow> Some (take mid xs, drop mid xs))"

fun chunk_list :: "nat \<Rightarrow> nat \<Rightarrow> 'a list \<Rightarrow> 'a list list" where
  "chunk_list n 0 xs = []"
| "chunk_list n (Suc k) xs = take n xs # chunk_list n k (drop n xs)"

definition as_chunks :: "nat \<Rightarrow> 'a list \<Rightarrow> 'a list list \<times> 'a list" where
  "as_chunks n xs =
     (let len = length xs div n
      in (chunk_list n len (take (len * n) xs), drop (len * n) xs))"

lemma length_chunk_list [simp]: "length (chunk_list n k xs) = k"
  by (induction n k xs rule: chunk_list.induct) auto

lemma concat_chunk_list: "k * n \<le> length xs \<Longrightarrow> concat (chunk_list n k xs) = take (k * n) xs"
  by (induction n k xs rule: chunk_list.induct) (auto simp: take_add)

lemma chunk_list_lengths: "k * n \<le> length xs \<Longrightarrow> c \<in> set (chunk_list n k xs) \<Longrightarrow> length c = n"
  by (induction n k xs rule: chunk_list.induct) auto

lemma as_chunks_concat: "as_chunks n xs = (cs, r) \<Longrightarrow> concat cs @ r = xs"
  by (auto simp: as_chunks_def Let_def concat_chunk_list min_def div_times_less_eq_dividend)

end
