(* ===== verification/Bits.thy ===== *)
theory Bits
  imports U3
begin

unbundle bit_operations_syntax

text \<open>
  Bit slices, \<^verbatim>\<open>common/sealable-trie/src/bits.rs\<close>. A \<open>Slice\<close> is a pointer with
  a bit offset into the first byte and a length in bits; the pointer is modelled by
  the bytes that follow it in the underlying buffer, so reading \<open>n\<close> bytes is
  \<open>take n\<close> and advancing the pointer is \<open>drop\<close>. Methods that take
  \<open>&mut self\<close> return the new slice. The meaning of a slice is its offset
  together with the list of its bits, \<open>slice_bits\<close>; the lemmas give each
  operation in these terms.
\<close>

section \<open>Slices and their construction\<close>

record slice =
  sl_offset :: u3
  sl_length :: nat
  sl_ptr :: "byte list"

definition bytes_len :: "u3 \<Rightarrow> nat \<Rightarrow> nat" where
  "bytes_len offset len = (if len = 0 then 0 else (unat offset + len + 7) div 8)"

definition slice_bytes_len :: "slice \<Rightarrow> nat" where
  "slice_bytes_len s = bytes_len (sl_offset s) (sl_length s)"

definition slice_bytes :: "slice \<Rightarrow> byte list" where
  "slice_bytes s = take (slice_bytes_len s) (sl_ptr s)"

definition slice_new :: "byte list \<Rightarrow> u3 \<Rightarrow> nat \<Rightarrow> slice option" where
  "slice_new bytes offset len =
     (if bytes_len offset len \<le> length bytes
      then Some \<lparr>sl_offset = offset, sl_length = len, sl_ptr = bytes\<rparr> else None)"

definition slice_from_bytes :: "byte list \<Rightarrow> slice option" where
  "slice_from_bytes bytes =
     (if length bytes * 8 < 2 ^ 16
      then Some \<lparr>sl_offset = 0, sl_length = length bytes * 8, sl_ptr = bytes\<rparr> else None)"

definition masks :: "u3 \<Rightarrow> nat \<Rightarrow> byte \<times> byte" where
  "masks offset len =
     (let tail = u3_neg (wrapping_add offset len)
      in (drop_bit (unat offset) 0xFF, push_bit (unat tail) 0xFF))"

definition first_or_default :: "byte list \<Rightarrow> byte" where
  "first_or_default bs = (case bs of [] \<Rightarrow> 0 | b # _ \<Rightarrow> b)"

definition last_or_default :: "byte list \<Rightarrow> byte" where
  "last_or_default bs = (if bs = [] then 0 else last bs)"

definition new_check_zeros :: "byte list \<Rightarrow> u3 \<Rightarrow> nat \<Rightarrow> slice option" where
  "new_check_zeros bytes offset len =
     (case slice_new bytes offset len of
        None \<Rightarrow> None
      | Some sl \<Rightarrow>
          (let (front, back) = masks offset len;
               used = slice_bytes sl;
               fst_b = first_or_default used;
               last_b = last_or_default used
           in if (fst_b AND NOT front) = 0 \<and> (last_b AND NOT back) = 0 \<and>
                 list_all (\<lambda>b. b = 0) (drop (length used) bytes)
              then Some sl else None))"

definition slice_is_empty :: "slice \<Rightarrow> bool" where
  "slice_is_empty s \<longleftrightarrow> sl_length s = 0"

section \<open>Taking bits off either end\<close>

definition pop_front :: "slice \<Rightarrow> (bool \<times> slice) option" where
  "pop_front s =
     (case checked_sub (sl_length s) 1 of
        None \<Rightarrow> None
      | Some len \<Rightarrow>
          (let first = sl_ptr s ! 0;
               rest = drop 1 (sl_ptr s);
               b = (first AND drop_bit (unat (sl_offset s)) 0x80) \<noteq> 0;
               off = wrapping_inc (sl_offset s)
           in Some (b, \<lparr>sl_offset = off, sl_length = len,
                        sl_ptr = (if off = 0 then rest else sl_ptr s)\<rparr>)))"

definition pop_back :: "slice \<Rightarrow> (bool \<times> slice) option" where
  "pop_back s =
     (case checked_sub (sl_length s) 1 of
        None \<Rightarrow> None
      | Some len \<Rightarrow>
          (let total_bits = unat (sl_offset s) + len;
               b = sl_ptr s ! (total_bits div 8);
               mask = drop_bit (total_bits mod 8) 0x80
           in Some ((b AND mask) \<noteq> 0, s\<lparr>sl_length := len\<rparr>)))"

definition split_at :: "slice \<Rightarrow> nat \<Rightarrow> (slice \<times> slice) option" where
  "split_at s len =
     (case checked_sub (sl_length s) len of
        None \<Rightarrow> None
      | Some remaining \<Rightarrow>
          Some (s\<lparr>sl_length := len\<rparr>,
                \<lparr>sl_offset = wrapping_add (sl_offset s) len, sl_length = remaining,
                 sl_ptr = drop ((unat (sl_offset s) + len) div 8) (sl_ptr s)\<rparr>))"

text \<open>The results are pairs of the returned slice and the new value of \<open>self\<close>.\<close>

definition pop_front_slice :: "slice \<Rightarrow> nat \<Rightarrow> (slice \<times> slice) option" where
  "pop_front_slice s len =
     (case split_at s len of None \<Rightarrow> None | Some (head, tail) \<Rightarrow> Some (head, tail))"

definition pop_back_slice :: "slice \<Rightarrow> nat \<Rightarrow> (slice \<times> slice) option" where
  "pop_back_slice s len =
     (case checked_sub (sl_length s) len of
        None \<Rightarrow> None
      | Some n \<Rightarrow>
          (case split_at s n of None \<Rightarrow> None | Some (head, tail) \<Rightarrow> Some (tail, head)))"

section \<open>Comparison and prefixes\<close>

definition slice_eq :: "slice \<Rightarrow> slice \<Rightarrow> bool" where
  "slice_eq s t =
     (if sl_offset s \<noteq> sl_offset t \<or> sl_length s \<noteq> sl_length t then False
      else if sl_length s = 0 then True
      else
        (let (front, back) = masks (sl_offset s) (sl_length s);
             lhs = slice_bytes s; rhs = slice_bytes t; len = length lhs
         in if len = 1 then ((lhs ! 0 XOR rhs ! 0) AND front AND back) = 0
            else ((lhs ! 0 XOR rhs ! 0) AND front) = 0 \<and>
                 ((lhs ! (len - 1) XOR rhs ! (len - 1)) AND back) = 0 \<and>
                 take (len - 2) (drop 1 lhs) = take (len - 2) (drop 1 rhs)))"

definition starts_with :: "slice \<Rightarrow> slice \<Rightarrow> bool" where
  "starts_with s pre =
     (if sl_offset s \<noteq> sl_offset pre then False
      else case split_at s (sl_length pre) of
             Some (head, _) \<Rightarrow> slice_eq head pre
           | None \<Rightarrow> False)"

text \<open>\<open>strip_prefix\<close> returns the new \<open>self\<close> with \<open>true\<close>, or leaves it with \<open>false\<close>.\<close>

definition strip_prefix :: "slice \<Rightarrow> slice \<Rightarrow> bool \<times> slice" where
  "strip_prefix s pre =
     (if sl_offset s = sl_offset pre then
        (case split_at s (sl_length pre) of
           Some (head, tail) \<Rightarrow> if slice_eq head pre then (True, tail) else (False, s)
         | None \<Rightarrow> (False, s))
      else (False, s))"

definition slice_default :: slice where
  "slice_default = \<lparr>sl_offset = 0, sl_length = 0, sl_ptr = [0]\<rparr>"

section \<open>Extension keys and common prefixes\<close>

text \<open>
  An \<open>ExtKey\<close> wraps a slice that passed the checks of \<open>try_from\<close>
  (\<^verbatim>\<open>bits/ext_key.rs\<close>); it is represented by that slice.
\<close>

definition MAX_EXTENSION_KEY_SIZE :: nat where
  "MAX_EXTENSION_KEY_SIZE = 34"

datatype ext_key_error = ExtKeyEmpty | ExtKeyTooLong

definition ext_key_try_from :: "slice \<Rightarrow> (ext_key_error, slice) outcome" where
  "ext_key_try_from s =
     (if slice_is_empty s then Err ExtKeyEmpty
      else if slice_bytes_len s > MAX_EXTENSION_KEY_SIZE then Err ExtKeyTooLong
      else Ok s)"

definition outcome_ok :: "('e, 'a) outcome \<Rightarrow> 'a option" where
  "outcome_ok r = (case r of Ok a \<Rightarrow> Some a | _ \<Rightarrow> None)"

definition leading_zeros :: "byte \<Rightarrow> nat" where
  "leading_zeros b = length (takeWhile Not (map (\<lambda>i. bit b (7 - i)) [0..<8]))"

definition position :: "('a \<Rightarrow> bool) \<Rightarrow> 'a list \<Rightarrow> nat option" where
  "position P xs =
     (let n = length (takeWhile (\<lambda>x. \<not> P x) xs) in if n < length xs then Some n else None)"

text \<open>
  The length of the common prefix; \<open>None\<close> is the panic of \<open>split_at\<close>
  past the end of the bytes of a slice.
\<close>

definition common_prefix_length :: "slice \<Rightarrow> slice \<Rightarrow> nat option" where
  "common_prefix_length s t =
     (let offset = sl_offset s in
      if offset \<noteq> sl_offset t then Some 0
      else
        (let len = min (sl_length s) (sl_length t) + unat offset;
             n = (len + 7) div 8
         in case (split_at_checked (slice_bytes s) n, split_at_checked (slice_bytes t) n) of
              (Some (lhs, _), Some (rhs, _)) \<Rightarrow>
                (case (lhs, rhs) of
                   (l # lhs, r # rhs) \<Rightarrow>
                     (let fst_b = (l XOR r) AND drop_bit (unat offset) 0xFF;
                          total_bits_matched =
                            min (if fst_b \<noteq> 0 then leading_zeros fst_b
                                 else case position (\<lambda>(a, b). a \<noteq> b) (zip lhs rhs) of
                                        Some n \<Rightarrow> 8 + n * 8 + leading_zeros (lhs ! n XOR rhs ! n)
                                      | None \<Rightarrow> 8 + length lhs * 8) len
                      in Some (total_bits_matched - unat offset))
                 | _ \<Rightarrow> Some 0)
            | _ \<Rightarrow> None))"

text \<open>The result is \<open>(prefix, remaining other, new self)\<close>.\<close>

definition forward_common_prefix ::
  "slice \<Rightarrow> slice \<Rightarrow> (slice option \<times> slice option \<times> slice) option" where
  "forward_common_prefix s other =
     (case common_prefix_length s other of
        None \<Rightarrow> None
      | Some len \<Rightarrow>
          if len = 0 then Some (None, Some other, s)
          else
            (case pop_front_slice other len of
               None \<Rightarrow> None
             | Some (_, suffix) \<Rightarrow>
                 (case pop_front_slice s len of
                    None \<Rightarrow> None
                  | Some (pre, s') \<Rightarrow>
                      Some (outcome_ok (ext_key_try_from pre),
                            outcome_ok (ext_key_try_from suffix), s'))))"

section \<open>The meaning of a slice\<close>

definition slice_inv :: "slice \<Rightarrow> bool" where
  "slice_inv s \<longleftrightarrow> sl_length s < 2 ^ 16 \<and> slice_bytes_len s \<le> length (sl_ptr s)"

definition slice_bits :: "slice \<Rightarrow> bool list" where
  "slice_bits s = map (\<lambda>i. bit_at (sl_ptr s) (unat (sl_offset s) + i)) [0..<sl_length s]"

lemma length_slice_bits [simp, slice_simps]: "length (slice_bits s) = sl_length s"
  by (simp add: slice_bits_def)

lemma nth_slice_bits:
  "i < sl_length s \<Longrightarrow> slice_bits s ! i = bit_at (sl_ptr s) (unat (sl_offset s) + i)"
  by (simp add: slice_bits_def)

lemma slice_bits_eq_Nil [simp]: "slice_bits s = [] \<longleftrightarrow> sl_length s = 0"
  by (simp add: slice_bits_def)

lemma slice_bits_empty [simp]: "sl_length s = 0 \<Longrightarrow> slice_bits s = []"
  by simp

text \<open>Every bit of a well-formed slice lies within its bytes: no read is out of bounds.\<close>

lemma slice_inv_in_bounds:
  assumes "slice_inv s" and "i < sl_length s"
  shows "(unat (sl_offset s) + i) div 8 < length (sl_ptr s)"
proof -
  have "(unat (sl_offset s) + i) div 8 < (unat (sl_offset s) + sl_length s + 7) div 8"
    using assms(2) by linarith
  with assms show ?thesis
    by (auto simp: slice_inv_def slice_bytes_len_def bytes_len_def split: if_splits)
qed

lemma length_slice_bytes: "slice_inv s \<Longrightarrow> length (slice_bytes s) = slice_bytes_len s"
  by (simp add: slice_inv_def slice_bytes_def)

lemma bit_255_nat [simp]: "bit (255 :: nat) k \<longleftrightarrow> k < 8"
proof -
  have "(255 :: nat) = mask 8" by (simp add: mask_eq_exp_minus_1)
  then show ?thesis by (simp only: bit_mask_iff) (simp add: possible_bit_def)
qed

lemma bit_255_int [simp]: "bit (255 :: int) k \<longleftrightarrow> k < 8"
proof -
  have "(255 :: int) = mask 8" by (simp add: mask_eq_exp_minus_1)
  then show ?thesis by (simp only: bit_mask_iff) (simp add: possible_bit_def)
qed

lemma bit_front_mask: "bit (fst (masks offset len)) j \<longleftrightarrow> unat offset + j < 8"
  by (auto simp: masks_def Let_def bit_drop_bit_eq)

lemma unat_tail: "unat (u3_neg (wrapping_add offset len)) = (8 - (unat offset + len) mod 8) mod 8"
  by (simp add: unat_u3_neg)

lemma bit_back_mask:
  "j < 8 \<Longrightarrow> bit (snd (masks offset len)) j \<longleftrightarrow> (8 - (unat offset + len) mod 8) mod 8 \<le> j"
  by (auto simp: masks_def Let_def bit_push_bit_iff unat_tail)

lemma drop_bit_0x80: "k < 8 \<Longrightarrow> drop_bit k (0x80 :: byte) = 2 ^ (7 - k)"
proof -
  assume "k < 8"
  then have "k = 0 \<or> k = 1 \<or> k = 2 \<or> k = 3 \<or> k = 4 \<or> k = 5 \<or> k = 6 \<or> k = 7" by linarith
  then show ?thesis by (elim disjE) simp_all
qed

lemma bit_select: "k < 8 \<Longrightarrow> (b AND drop_bit k 0x80 :: byte) = 0 \<longleftrightarrow> \<not> bit b (7 - k)"
  by (simp only: drop_bit_0x80 and_exp_eq_0_iff_not_bit)

lemma xor_masked_eq_0:
  "((a XOR b) AND m :: byte) = 0 \<longleftrightarrow> (\<forall>j<8. bit m j \<longrightarrow> bit a j = bit b j)"
  by (auto simp: bit_eq_iff bit_and_iff bit_xor_iff)

section \<open>Operations in terms of bits\<close>

lemma slice_inv_bytes_len [inv_intros]:
  "slice_inv s \<Longrightarrow> slice_bytes_len s \<le> length (sl_ptr s)"
  by (simp add: slice_inv_def)

lemma bytes_len_0 [simp]: "bytes_len off 0 = 0"
  by (simp add: bytes_len_def)

lemma slice_new_Some:
  assumes "slice_new bytes off len = Some s" and "len < 2 ^ 16"
  shows "slice_inv s" "sl_offset s = off" "sl_length s = len"
    "slice_bits s = map (\<lambda>i. bit_at bytes (unat off + i)) [0..<len]"
  using assms
  by (auto simp: slice_new_def slice_inv_def slice_bytes_len_def slice_bits_def split: if_splits)

lemma slice_from_bytes_Some:
  assumes "slice_from_bytes bytes = Some s"
  shows "slice_inv s" "sl_offset s = 0" "sl_length s = 8 * length bytes"
    "slice_bits s = map (bit_at bytes) [0..<8 * length bytes]"
  using assms
  by (auto simp: slice_from_bytes_def slice_inv_def slice_bytes_len_def slice_bits_def bytes_len_def
      mult.commute split: if_splits)

lemma split_at_Some:
  assumes "slice_inv s" and "split_at s n = Some (h, t)"
  shows "slice_inv h" "slice_inv t" "sl_offset h = sl_offset s"
    "sl_offset t = wrapping_add (sl_offset s) n"
    "slice_bits h = take n (slice_bits s)" "slice_bits t = drop n (slice_bits s)"
    "sl_length h = n" "sl_length t = sl_length s - n" "n \<le> sl_length s"
    "sl_ptr h = sl_ptr s"
proof -
  define o' where "o' = unat (sl_offset s)"
  define k where "k = (o' + n) div 8"
  from assms(2) have n: "n \<le> sl_length s" and h: "h = s\<lparr>sl_length := n\<rparr>"
    and t: "t = \<lparr>sl_offset = wrapping_add (sl_offset s) n, sl_length = sl_length s - n,
                 sl_ptr = drop k (sl_ptr s)\<rparr>"
    by (auto simp: split_at_def checked_sub_def k_def o'_def split: if_splits)
  show "sl_offset h = sl_offset s" "sl_offset t = wrapping_add (sl_offset s) n" "sl_length h = n"
    "sl_length t = sl_length s - n" "n \<le> sl_length s" "sl_ptr h = sl_ptr s"
    using n by (simp_all add: h t)
  show "slice_bits h = take n (slice_bits s)"
    using n by (simp add: h slice_bits_def take_map_upt)
  have o8: "o' < 8" by (simp add: o'_def)
  have len: "sl_length s < 2 ^ 16" and bl: "bytes_len (sl_offset s) (sl_length s) \<le> length (sl_ptr s)"
    using assms(1) by (simp_all add: slice_inv_def slice_bytes_len_def)
  have "bytes_len (sl_offset s) n \<le> bytes_len (sl_offset s) (sl_length s)"
    using n by (auto simp: bytes_len_def div_le_mono)
  then show "slice_inv h" using n len bl by (simp add: h slice_inv_def slice_bytes_len_def)
  have kr: "o' + n = 8 * k + (o' + n) mod 8" by (simp add: k_def)
  show "slice_inv t"
  proof (cases "sl_length s = n")
    case True then show ?thesis by (simp add: t slice_inv_def slice_bytes_len_def)
  next
    case False
    then have pos: "n < sl_length s" using n by simp
    then have b: "(o' + sl_length s + 7) div 8 \<le> length (sl_ptr s)"
      using bl by (simp add: bytes_len_def o'_def)
    have "o' + sl_length s + 7 = (o' + n) mod 8 + (sl_length s - n) + 7 + 8 * k"
      using kr pos by linarith
    then have "(o' + sl_length s + 7) div 8 = ((o' + n) mod 8 + (sl_length s - n) + 7) div 8 + k"
      by simp
    then have "((o' + n) mod 8 + (sl_length s - n) + 7) div 8 \<le> length (sl_ptr s) - k"
      using b by linarith
    moreover obtain m where "sl_length s = n + m" using n le_Suc_ex by blast
    ultimately show ?thesis
      using len by (simp add: t slice_inv_def slice_bytes_len_def bytes_len_def o'_def)
  qed
  show "slice_bits t = drop n (slice_bits s)"
  proof (cases "sl_length s = n")
    case True then show ?thesis by (simp add: t slice_bits_def)
  next
    case False
    then have pos: "0 < sl_length s - n" using n by simp
    have "k \<le> length (sl_ptr s)"
      using slice_inv_in_bounds[OF assms(1), of n] pos by (simp add: k_def o'_def)
    then have "bit_at (drop k (sl_ptr s)) ((o' + n) mod 8 + i) = bit_at (sl_ptr s) (o' + (n + i))" for i
      using kr by (metis add.assoc bit_at_drop)
    then show ?thesis using n by (simp add: t slice_bits_def drop_map_upt o'_def)
  qed
qed

lemma split_at_None: "split_at s n = None \<longleftrightarrow> sl_length s < n"
  by (auto simp: split_at_def checked_sub_def)

lemma split_at_ex: "n \<le> sl_length s \<Longrightarrow> \<exists>h t. split_at s n = Some (h, t)"
  by (auto simp: split_at_def checked_sub_def)

lemma pop_front_slice_eq: "pop_front_slice s n = split_at s n"
  by (auto simp: pop_front_slice_def split: option.splits)

lemma pop_back_slice_Some:
  assumes "slice_inv s" and "pop_back_slice s n = Some (r, s')"
  shows "slice_inv r" "slice_inv s'" "n \<le> sl_length s" "sl_offset s' = sl_offset s"
    "slice_bits s' = take (sl_length s - n) (slice_bits s)"
    "slice_bits r = drop (sl_length s - n) (slice_bits s)"
    "sl_offset r = wrapping_add (sl_offset s) (sl_length s - n)"
proof -
  from assms(2) have n: "n \<le> sl_length s" and sp: "split_at s (sl_length s - n) = Some (s', r)"
    by (auto simp: pop_back_slice_def checked_sub_def split: if_splits option.splits)
  show "slice_inv r" "slice_inv s'" "n \<le> sl_length s" "sl_offset s' = sl_offset s"
    "slice_bits s' = take (sl_length s - n) (slice_bits s)"
    "slice_bits r = drop (sl_length s - n) (slice_bits s)"
    "sl_offset r = wrapping_add (sl_offset s) (sl_length s - n)"
    using n split_at_Some[OF assms(1) sp] by simp_all
qed

lemma Suc_div_8: "n < 8 \<Longrightarrow> Suc n div 8 = (if Suc n mod 8 = 0 then 1 else 0)"
  by (cases "n = 7") auto

lemma pop_front_Some:
  assumes "slice_inv s" and "pop_front s = Some (b, s')"
  shows "slice_inv s'" "slice_bits s = b # slice_bits s'" "sl_length s = Suc (sl_length s')"
    "sl_offset s' = wrapping_add (sl_offset s) 1"
proof -
  let ?o = "unat (sl_offset s)"
  from assms(2) have len: "0 < sl_length s"
    by (auto simp: pop_front_def checked_sub_def split: if_splits)
  obtain h t where sp: "split_at s 1 = Some (h, t)" using split_at_ex[of 1 s] len by auto
  have o8: "?o < 8" by simp
  note adv = Suc_div_8[OF o8]
  have "t = s'" and b: "b \<longleftrightarrow> bit (sl_ptr s ! 0) (7 - ?o)"
    using assms(2) sp len bit_select[OF o8, of "sl_ptr s ! 0"] adv
    by (auto simp: pop_front_def split_at_def checked_sub_def Let_def wrapping_inc_def u3_eq_0
        split: if_splits)
  note st = split_at_Some[OF assms(1) sp, unfolded \<open>t = s'\<close>]
  show "slice_inv s'" "sl_length s = Suc (sl_length s')" "sl_offset s' = wrapping_add (sl_offset s) 1"
    using st len by auto
  have "slice_bits s ! 0 = b" using len o8 b by (simp add: nth_slice_bits bit_at_def)
  then show "slice_bits s = b # slice_bits s'"
    using st(6) len Cons_nth_drop_Suc[of 0 "slice_bits s"] by simp
qed

lemma pop_front_None: "pop_front s = None \<longleftrightarrow> sl_length s = 0"
  by (auto simp: pop_front_def checked_sub_def Let_def)

lemma pop_back_Some:
  assumes "slice_inv s" and "pop_back s = Some (b, s')"
  shows "slice_inv s'" "slice_bits s = slice_bits s' @ [b]" "sl_offset s' = sl_offset s"
proof -
  from assms(2) have len: "0 < sl_length s" and s': "s' = s\<lparr>sl_length := sl_length s - 1\<rparr>"
    by (auto simp: pop_back_def checked_sub_def Let_def split: if_splits)
  obtain h t where sp: "split_at s (sl_length s - 1) = Some (h, t)"
    using split_at_ex[of "sl_length s - 1" s] by auto
  then have "h = s'" by (auto simp: split_at_def checked_sub_def s' split: if_splits)
  note st = split_at_Some[OF assms(1) sp, unfolded this]
  show "slice_inv s'" "sl_offset s' = sl_offset s" using st by auto
  let ?n = "sl_length s - 1"
  have "(unat (sl_offset s) + ?n) mod 8 < 8" by simp
  from bit_select[OF this] have "b = slice_bits s ! ?n"
    using assms(2) len by (auto simp: nth_slice_bits bit_at_def pop_back_def checked_sub_def Let_def
        split: if_splits)
  moreover have "slice_bits s = take ?n (slice_bits s) @ [slice_bits s ! ?n]"
    using len take_Suc_conv_app_nth[of ?n "slice_bits s"] by simp
  ultimately show "slice_bits s = slice_bits s' @ [b]" using st(5) by simp
qed

section \<open>Equality and prefixes\<close>

lemma bytes_len_pos: "0 < len \<Longrightarrow> bytes_len off len = (unat off + len + 7) div 8"
  by (simp add: bytes_len_def)

lemma all_bits_by_byte:
  "(\<forall>k<8 * n. P k) \<longleftrightarrow> (\<forall>i<n. \<forall>r<8. P (8 * i + (r :: nat)))"
proof (intro iffI allI impI)
  fix k assume H: "\<forall>i<n. \<forall>r<8. P (8 * i + r)" and k: "k < 8 * n"
  have "k div 8 < n" using k by (simp add: less_mult_imp_div_less mult.commute)
  then have "P (8 * (k div 8) + k mod 8)" by (rule H[rule_format]) simp
  then show "P k" by (simp only: mult_div_mod_eq)
qed auto

text \<open>The mask that \<open>eq\<close> applies to byte \<open>i\<close> of \<open>n\<close>.\<close>

definition byte_mask :: "u3 \<Rightarrow> nat \<Rightarrow> nat \<Rightarrow> nat \<Rightarrow> byte" where
  "byte_mask off len n i =
     (if i = 0 then fst (masks off len) else - 1) AND
     (if i = n - 1 then snd (masks off len) else - 1)"

lemma bit_byte_mask:
  assumes "r < 8" and "i < n" and "n = (unat off + len + 7) div 8" and "0 < len"
  shows "bit (byte_mask off len n i) (7 - r) \<longleftrightarrow> unat off \<le> 8 * i + r \<and> 8 * i + r < unat off + len"
proof -
  define e where "e = unat off + len"
  have o8: "unat off < 8" by simp
  have n: "8 * (n - 1) < e" "e \<le> 8 * n" using assms(3,4) unfolding e_def by linarith+
  have front: "(if i = 0 then bit (fst (masks off len)) (7 - r) else True) \<longleftrightarrow> unat off \<le> 8 * i + r"
    using assms(1) o8 unfolding bit_front_mask by (auto simp del: u3_less)
  have tail: "(8 - e mod 8) mod 8 = 8 * n - e" if "e \<le> 8 * n" "8 * (n - 1) < e"
  proof -
    have "8 * n - e < 8" using that by linarith
    moreover have "e mod 8 = (if e = 8 * n then 0 else 8 - (8 * n - e))"
    proof (cases "e = 8 * n")
      case False
      then have "e = (8 - (8 * n - e)) + 8 * (n - 1)" using that by linarith
      then have "e mod 8 = (8 - (8 * n - e)) mod 8" by (metis mod_mult_self2)
      then show ?thesis using False that by simp
    qed simp
    ultimately show ?thesis using that by auto
  qed
  have rear: "(if i = n - 1 then bit (snd (masks off len)) (7 - r) else True) \<longleftrightarrow> 8 * i + r < e"
  proof (cases "i = n - 1")
    case True
    have "7 - r < 8" by simp
    from bit_back_mask[OF this, of off len] tail[OF n(2,1)]
    have "bit (snd (masks off len)) (7 - r) \<longleftrightarrow> 8 * n - e \<le> 7 - r" by (simp add: e_def)
    also have "\<dots> \<longleftrightarrow> 8 * i + r < e" using True n assms(1,2) by linarith
    finally show ?thesis using True by simp
  next
    case False then show ?thesis using n assms(1,2) by simp
  qed
  have "7 - r < 8" by simp
  then have "bit (byte_mask off len n i) (7 - r) \<longleftrightarrow>
      (if i = 0 then bit (fst (masks off len)) (7 - r) else True) \<and>
      (if i = n - 1 then bit (snd (masks off len)) (7 - r) else True)"
    by (auto simp: byte_mask_def bit_and_iff)
  with front rear show ?thesis unfolding e_def by simp
qed

lemma ex_7_minus: "(\<forall>j<8. P j) \<longleftrightarrow> (\<forall>r<8. P (7 - (r :: nat)))"
proof (intro iffI allI impI)
  fix j :: nat assume "\<forall>r<8. P (7 - r)" and "j < 8"
  moreover have "7 - j < 8" "7 - (7 - j) = j" using \<open>j < 8\<close> by simp_all
  ultimately show "P j" by metis
qed auto

lemma masked_bytes_eq:
  assumes "n = (unat off + len + 7) div 8" and "0 < len"
  shows "(\<forall>i<n. ((l ! i XOR r ! i) AND byte_mask off len n i) = 0) \<longleftrightarrow>
         (\<forall>i<len. bit_at l (unat off + i) = bit_at r (unat off + i))"
proof -
  let ?P = "\<lambda>k. unat off \<le> k \<and> k < unat off + len \<longrightarrow> bit_at l k = bit_at r k"
  have "(\<forall>i<n. ((l ! i XOR r ! i) AND byte_mask off len n i) = 0) \<longleftrightarrow>
        (\<forall>i<n. \<forall>q<8. ?P (8 * i + q))"
    unfolding xor_masked_eq_0 ex_7_minus[where P = "\<lambda>j. bit (byte_mask _ _ _ _) j \<longrightarrow> _ j"]
    by (auto simp: bit_byte_mask[OF _ _ assms] bit_at_def)
  also have "\<dots> \<longleftrightarrow> (\<forall>k<8 * n. ?P k)" by (rule all_bits_by_byte[symmetric])
  also have "\<dots> \<longleftrightarrow> (\<forall>i<len. bit_at l (unat off + i) = bit_at r (unat off + i))"
  proof (rule iffI; intro allI impI)
    fix i assume H: "\<forall>k<8 * n. ?P k" and i: "i < len"
    then have "unat off + i < 8 * n" using assms(1) by linarith
    with H i show "bit_at l (unat off + i) = bit_at r (unat off + i)" by simp
  next
    fix k assume H: "\<forall>i<len. bit_at l (unat off + i) = bit_at r (unat off + i)"
      and "k < 8 * n" and k: "unat off \<le> k \<and> k < unat off + len"
    then obtain i where "k = unat off + i" using le_Suc_ex by blast
    with H k show "bit_at l k = bit_at r k" by simp
  qed
  finally show ?thesis .
qed

lemma all_split_ends:
  assumes "2 \<le> n"
  shows "(\<forall>i<n. Q i) \<longleftrightarrow> Q 0 \<and> Q (n - 1) \<and> (\<forall>i<n - 2. Q (Suc i))"
proof
  assume *: "Q 0 \<and> Q (n - 1) \<and> (\<forall>i<n - 2. Q (Suc i))"
  show "\<forall>i<n. Q i"
  proof (intro allI impI)
    fix i assume "i < n"
    then consider "i = 0" | "i = n - 1" | "0 < i" "i - 1 < n - 2" using assms by linarith
    then show "Q i"
    proof cases
      case 3
      then have "Q (Suc (i - 1))" using * by blast
      with 3 show ?thesis by simp
    qed (use * in auto)
  qed
qed (use assms in auto)

lemma byte_mask_middle: "0 < i \<Longrightarrow> i < n - 1 \<Longrightarrow> byte_mask off len n i = - 1"
  by (simp add: byte_mask_def)

lemma xor_eq_0: "(a XOR b :: byte) = 0 \<longleftrightarrow> a = b"
  by (auto simp: bit_eq_iff bit_xor_iff)

lemma take_drop_eq_nth:
  assumes "length l = n" "length r = n" "2 \<le> n"
  shows "take (n - 2) (drop 1 l) = take (n - 2) (drop 1 r) \<longleftrightarrow> (\<forall>i<n - 2. l ! Suc i = r ! Suc i)"
  using assms by (auto simp: list_eq_iff_nth_eq)

text \<open>\<open>PartialEq::eq\<close> holds exactly when offsets and bits agree.\<close>

lemma slice_eq_iff:
  assumes "slice_inv s" and "slice_inv t"
  shows "slice_eq s t \<longleftrightarrow> sl_offset s = sl_offset t \<and> slice_bits s = slice_bits t"
proof (cases "sl_offset s = sl_offset t \<and> sl_length s = sl_length t \<and> 0 < sl_length s")
  case False
  have len: "slice_bits s = slice_bits t \<Longrightarrow> sl_length s = sl_length t"
    by (metis length_slice_bits)
  show ?thesis
  proof (cases "sl_offset s = sl_offset t \<and> sl_length s = sl_length t")
    case True
    with False have "sl_length s = 0" "sl_length t = 0" by auto
    then show ?thesis using True by (simp add: slice_eq_def slice_bits_def)
  next
    case False
    then show ?thesis using len by (auto simp: slice_eq_def)
  qed
next
  case True
  define off where "off = sl_offset s"
  define len where "len = sl_length s"
  define n where "n = (unat off + len + 7) div 8"
  let ?l = "slice_bytes s" and ?r = "slice_bytes t"
  have so: "sl_offset t = off" "sl_length t = len" "0 < len" "sl_offset s = off" "sl_length s = len"
    using True by (auto simp: off_def len_def)
  have L: "length ?l = n" "length ?r = n"
    using assms so by (simp_all add: length_slice_bytes slice_bytes_len_def bytes_len_pos n_def)
  have n1: "1 \<le> n" using so(3) by (simp add: n_def)
  have lhs: "slice_eq s t \<longleftrightarrow> (\<forall>i<n. ((?l ! i XOR ?r ! i) AND byte_mask off len n i) = 0)"
  proof (cases "n = 1")
    case True
    then show ?thesis
      using so L by (simp add: slice_eq_def byte_mask_def Let_def case_prod_unfold and.assoc)
  next
    case False
    then have n2: "2 \<le> n" using n1 by simp
    have "(\<forall>i<n - 2. ((?l ! Suc i XOR ?r ! Suc i) AND byte_mask off len n (Suc i)) = 0) \<longleftrightarrow>
        (\<forall>i<n - 2. ?l ! Suc i = ?r ! Suc i)"
      by (simp add: byte_mask_middle xor_eq_0)
    moreover have "byte_mask off len n 0 = fst (masks off len)"
      "byte_mask off len n (n - 1) = snd (masks off len)"
      using n2 by (simp_all add: byte_mask_def)
    ultimately show ?thesis
      unfolding all_split_ends[OF n2] using so L n2 take_drop_eq_nth[OF L n2]
      by (auto simp: slice_eq_def Let_def case_prod_unfold)
  qed
  have in_n: "unat off + i < 8 * n" if "i < len" for i
    using that unfolding n_def by linarith
  have sb: "slice_bits s = map (\<lambda>i. bit_at ?l (unat off + i)) [0..<len]"
    "slice_bits t = map (\<lambda>i. bit_at ?r (unat off + i)) [0..<len]"
    using so by (auto simp: slice_bits_def slice_bytes_def slice_bytes_len_def bytes_len_pos
        bit_at_take in_n n_def[symmetric])
  show ?thesis
    unfolding lhs masked_bytes_eq[OF n_def so(3)] using so by (auto simp: sb)
qed

lemma starts_with_iff:
  assumes "slice_inv s" and "slice_inv p"
  shows "starts_with s p \<longleftrightarrow>
    sl_offset s = sl_offset p \<and> (\<exists>rest. slice_bits s = slice_bits p @ rest)"
proof (cases "sl_length p \<le> sl_length s")
  case True
  then obtain h t where sp: "split_at s (sl_length p) = Some (h, t)"
    using split_at_ex by blast
  note st = split_at_Some[OF assms(1) sp]
  have "slice_bits h = slice_bits p \<longleftrightarrow> (\<exists>rest. slice_bits s = slice_bits p @ rest)"
    unfolding st(5) by (metis append_eq_conv_conj append_take_drop_id length_slice_bits)
  then show ?thesis using sp st slice_eq_iff[OF st(1) assms(2)] by (auto simp: starts_with_def)
next
  case False
  then have "split_at s (sl_length p) = None" by (simp add: split_at_None)
  moreover have "\<nexists>rest. slice_bits s = slice_bits p @ rest"
    using False by (metis length_append length_slice_bits le_add1)
  ultimately show ?thesis by (simp add: starts_with_def)
qed

lemma strip_prefix_True:
  assumes "slice_inv s" and "slice_inv p" and "strip_prefix s p = (True, s')"
  shows "sl_offset s = sl_offset p" "slice_bits s = slice_bits p @ slice_bits s'" "slice_inv s'"
    "sl_offset s' = wrapping_add (sl_offset s) (sl_length p)"
    "sl_length s = sl_length p + sl_length s'"
proof -
  from assms(3) obtain h where sp: "split_at s (sl_length p) = Some (h, s')"
    and off: "sl_offset s = sl_offset p" and eq: "slice_eq h p"
    by (auto simp: strip_prefix_def split: if_splits option.splits)
  note st = split_at_Some[OF assms(1) sp]
  show "sl_offset s = sl_offset p" by (rule off)
  show "slice_inv s'" "sl_offset s' = wrapping_add (sl_offset s) (sl_length p)"
    "sl_length s = sl_length p + sl_length s'"
    using st by auto
  have "slice_bits p = take (sl_length p) (slice_bits s)"
    using eq st slice_eq_iff[OF st(1) assms(2)] by simp
  then show "slice_bits s = slice_bits p @ slice_bits s'" using st(6) by simp
qed

lemma strip_prefix_False:
  assumes "slice_inv s" and "slice_inv p" and "strip_prefix s p = (False, s')"
  shows "s' = s" "\<not> starts_with s p"
  using assms by (auto simp: strip_prefix_def starts_with_def split: if_splits option.splits)

section \<open>The longest common prefix\<close>

definition lcp_length :: "'a list \<Rightarrow> 'a list \<Rightarrow> nat" where
  "lcp_length xs ys = length (takeWhile (\<lambda>(a, b). a = b) (zip xs ys))"

lemma lcp_length_eqI:
  assumes "n \<le> length xs" "n \<le> length ys" "\<And>i. i < n \<Longrightarrow> xs ! i = ys ! i"
    and "n < length xs \<Longrightarrow> n < length ys \<Longrightarrow> xs ! n \<noteq> ys ! n"
  shows "lcp_length xs ys = n"
proof -
  have "takeWhile (\<lambda>(a, b). a = b) (zip xs ys) = take n (zip xs ys)"
    by (rule takeWhile_eq_take_P_nth) (use assms in auto)
  then show ?thesis using assms(1,2) by (simp add: lcp_length_def)
qed

lemma lcp_length_le: "lcp_length xs ys \<le> length xs" "lcp_length xs ys \<le> length ys"
  using length_takeWhile_le[of "\<lambda>(a, b). a = b" "zip xs ys"] by (auto simp: lcp_length_def)

lemma lcp_length_nth:
  assumes "i < lcp_length xs ys" shows "xs ! i = ys ! i"
proof -
  have "i < length (zip xs ys)"
    using assms length_takeWhile_le[of "\<lambda>(a, b). a = b" "zip xs ys"] by (simp add: lcp_length_def)
  moreover have "(zip xs ys) ! i \<in> set (takeWhile (\<lambda>(a, b). a = b) (zip xs ys))"
    using assms unfolding lcp_length_def by (metis nth_mem takeWhile_nth)
  ultimately show ?thesis using set_takeWhileD by fastforce
qed

lemma lcp_length_differ:
  assumes "lcp_length xs ys < length xs" "lcp_length xs ys < length ys"
  shows "xs ! lcp_length xs ys \<noteq> ys ! lcp_length xs ys"
  using nth_length_takeWhile[of "\<lambda>(a, b). a = b" "zip xs ys"] assms by (auto simp: lcp_length_def)

lemma lcp_take: "take (lcp_length xs ys) xs = take (lcp_length xs ys) ys"
  by (rule nth_equalityI) (use lcp_length_le[of xs ys] lcp_length_nth[of _ xs ys] in auto)

lemma leading_zeros_le: "leading_zeros b \<le> 8"
  using length_takeWhile_le[of Not "map (\<lambda>i. bit b (7 - i)) [0..<8]"] by (simp add: leading_zeros_def)

lemma leading_zeros_zero:
  assumes "i < leading_zeros b" shows "\<not> bit b (7 - i)"
proof -
  let ?xs = "map (\<lambda>i. bit b (7 - i)) [0..<8]"
  have i8: "i < 8" using assms leading_zeros_le[of b] by linarith
  have "?xs ! i \<in> set (takeWhile Not ?xs)"
    using assms unfolding leading_zeros_def by (metis nth_mem takeWhile_nth)
  then have "\<not> ?xs ! i" using set_takeWhileD by fastforce
  with i8 show ?thesis by simp
qed

lemma leading_zeros_one: "leading_zeros b < 8 \<Longrightarrow> bit b (7 - leading_zeros b)"
  using nth_length_takeWhile[of Not "map (\<lambda>i. bit b (7 - i)) [0..<8]"]
  by (simp add: leading_zeros_def del: upt_rec_numeral)

lemma leading_zeros_nonzero:
  assumes "b \<noteq> (0 :: byte)" shows "leading_zeros b < 8"
proof (rule ccontr)
  assume *: "\<not> leading_zeros b < 8"
  have "b = 0"
  proof (rule byte_eqI)
    fix i :: nat assume "i < 8"
    then have "7 - i < leading_zeros b" "7 - (7 - i) = i" using * by auto
    then show "bit b i = bit 0 i" using leading_zeros_zero by fastforce
  qed
  with assms show False by simp
qed

lemma bit_at_decomp: "i < 8 \<Longrightarrow> bit_at bs (8 * q + i) = bit (bs ! q) (7 - i)"
  by (simp add: bit_at_def)

lemma position_Some:
  "position P xs = Some n \<Longrightarrow> n < length xs \<and> P (xs ! n) \<and> (\<forall>i<n. \<not> P (xs ! i))"
  unfolding position_def Let_def
  by (auto split: if_splits dest: nth_length_takeWhile)
    (metis nth_mem set_takeWhileD takeWhile_nth)

lemma position_None: "position P xs = None \<Longrightarrow> i < length xs \<Longrightarrow> \<not> P (xs ! i)"
  unfolding position_def Let_def
  by (metis (mono_tags, lifting) length_takeWhile_le linorder_not_le nle_le nth_mem option.distinct(1)
      set_takeWhileD takeWhile_nth)

text \<open>The first bit from \<open>off\<close> on in which two byte strings differ.\<close>

definition first_diff :: "nat \<Rightarrow> byte list \<Rightarrow> byte list \<Rightarrow> nat \<Rightarrow> bool" where
  "first_diff off l r T \<longleftrightarrow>
     (\<forall>k<T. off \<le> k \<and> k < 8 * length l \<longrightarrow> bit_at l k = bit_at r k) \<and>
     (T < 8 * length l \<longrightarrow> off \<le> T \<and> bit_at l T \<noteq> bit_at r T)"

lemma total_bits_matched:
  fixes l r :: byte
  assumes len: "length ls = length rs" and off: "off < 8"
  defines "f \<equiv> (l XOR r) AND drop_bit off (0xFF :: byte)"
  shows "first_diff off (l # ls) (r # rs)
    (if f \<noteq> 0 then leading_zeros f
     else case position (\<lambda>(a, b). a \<noteq> b) (zip ls rs) of
            Some n \<Rightarrow> 8 + n * 8 + leading_zeros (ls ! n XOR rs ! n)
          | None \<Rightarrow> 8 + length ls * 8)"
proof (cases "f = 0")
  case False
  have bf: "bit f (7 - i) \<longleftrightarrow> bit l (7 - i) \<noteq> bit r (7 - i) \<and> off \<le> i" if "i < 8" for i
    using that off unfolding f_def by (auto simp: bit_and_iff bit_xor_iff bit_drop_bit_eq)
  have T: "leading_zeros f < 8" using False by (rule leading_zeros_nonzero)
  from bf[OF T] leading_zeros_one[OF T] have "off \<le> leading_zeros f"
    "bit l (7 - leading_zeros f) \<noteq> bit r (7 - leading_zeros f)" by auto
  moreover have "bit l (7 - k) = bit r (7 - k)" if "k < leading_zeros f" "off \<le> k" for k
    using leading_zeros_zero[OF that(1)] bf[of k] that T by auto
  ultimately show ?thesis using False T by (auto simp: first_diff_def bit_at_def)
next
  case True
  have first: "bit_at (l # ls) k = bit_at (r # rs) k" if "off \<le> k" "k < 8" for k
  proof -
    have "\<not> bit f (7 - k)" using True by simp
    then show ?thesis using that off unfolding f_def
      by (auto simp: bit_and_iff bit_xor_iff bit_drop_bit_eq bit_at_def)
  qed
  have later: "bit_at (l # ls) k = bit_at (r # rs) k"
    if "off \<le> k" "\<forall>j<n. ls ! j = rs ! j" "k < 8 + n * 8" for k n
  proof (cases "k < 8")
    case False
    then obtain j where j: "k = 8 + j" by (metis le_Suc_ex not_less)
    define q where "q = j div 8"
    have "q < n" using that(3) j by (simp add: q_def less_mult_imp_div_less)
    then have "bit_at (l # ls) (8 * Suc q + j mod 8) = bit_at (r # rs) (8 * Suc q + j mod 8)"
      using that(2) by (simp only: bit_at_decomp mod_less_divisor zero_less_numeral nth_Cons_Suc)
    moreover have "8 * Suc q + j mod 8 = k" using j by (simp add: q_def)
    ultimately show ?thesis by simp
  qed (use first that in blast)
  show ?thesis
  proof (cases "position (\<lambda>(a, b). a \<noteq> b) (zip ls rs)")
    case None
    then have "\<forall>j<length ls. ls ! j = rs ! j" using position_None[OF None] len by auto
    from later[OF _ this] show ?thesis using True None by (auto simp: first_diff_def)
  next
    case (Some n)
    define z where "z = leading_zeros (ls ! n XOR rs ! n)"
    from position_Some[OF Some] len have n: "n < length ls" "ls ! n \<noteq> rs ! n"
      and eq: "\<forall>j<n. ls ! j = rs ! j" by auto
    have z: "z < 8" unfolding z_def by (rule leading_zeros_nonzero) (simp add: xor_eq_0 n(2))
    have at: "bit_at (b # bs) (8 + n * 8 + i) = bit (bs ! n) (7 - i)" if "i < 8" for b bs i
      using bit_at_decomp[OF that, of "b # bs" "Suc n"] by (simp add: algebra_simps)
    have dz: "bit (ls ! n) (7 - z) \<noteq> bit (rs ! n) (7 - z)"
      using leading_zeros_one[of "ls ! n XOR rs ! n"] z unfolding z_def by (simp add: bit_xor_iff)
    have ez: "bit (ls ! n) (7 - i) = bit (rs ! n) (7 - i)" if "i < z" for i
      using leading_zeros_zero[of i "ls ! n XOR rs ! n"] that unfolding z_def by (simp add: bit_xor_iff)
    have "bit_at (l # ls) k = bit_at (r # rs) k" if ok: "off \<le> k" and kz: "k < 8 + n * 8 + z" for k
    proof (cases "k < 8 + n * 8")
      case False
      then obtain i where "k = 8 + n * 8 + i" "i < z" using kz by (metis le_Suc_ex nat_add_left_cancel_less not_less)
      then show ?thesis using at[of i] ez z by simp
    qed (use later[OF ok eq] in blast)
    then show ?thesis using True Some at[OF z] dz off by (auto simp: first_diff_def z_def[symmetric])
  qed
qed

lemma split_at_checked_take:
  "n \<le> length xs \<Longrightarrow> split_at_checked xs n = Some (take n xs, drop n xs)"
  by (simp add: split_at_checked_def)

lemma slice_bytes_len_mono:
  "0 < m \<Longrightarrow> m \<le> sl_length s \<Longrightarrow> (m + unat (sl_offset s) + 7) div 8 \<le> slice_bytes_len s"
  by (auto simp: slice_bytes_len_def bytes_len_def intro!: div_le_mono)

lemma take_eq_Cons:
  assumes "n \<le> length xs" and "0 < n"
  shows "\<exists>y ys. take n xs = y # ys \<and> length ys = n - 1"
proof -
  have "length (take n xs) = Suc (n - 1)" using assms by simp
  then show ?thesis unfolding length_Suc_conv by blast
qed

text \<open>
  On non-empty slices the computed length is that of the longest common prefix, and no
  access is out of bounds.
\<close>

lemma common_prefix_length_eq:
  assumes s: "slice_inv s" and t: "slice_inv t" and pos: "0 < sl_length s" "0 < sl_length t"
    and off: "sl_offset s = sl_offset t"
  shows "common_prefix_length s t = Some (lcp_length (slice_bits s) (slice_bits t))"
proof -
  define o' where "o' = unat (sl_offset s)"
  define m where "m = min (sl_length s) (sl_length t)"
  define n where "n = (m + o' + 7) div 8"
  have o8: "o' < 8" and m: "0 < m" "m \<le> sl_length s" "m \<le> sl_length t"
    using pos by (auto simp: o'_def m_def)
  have n1: "0 < n" "m + o' \<le> 8 * n" using m(1) unfolding n_def by linarith+
  have bl: "n \<le> slice_bytes_len s" "n \<le> slice_bytes_len t"
    using slice_bytes_len_mono[OF m(1,2)] slice_bytes_len_mono[OF m(1,3)] off
    by (simp_all add: n_def o'_def)
  have nb: "n \<le> length (slice_bytes s)" "n \<le> length (slice_bytes t)"
    using bl s t by (simp_all add: length_slice_bytes)
  obtain l ls where l: "take n (slice_bytes s) = l # ls" "length ls = n - 1"
    using take_eq_Cons[OF nb(1) n1(1)] by blast
  obtain r rs where r: "take n (slice_bytes t) = r # rs" "length rs = n - 1"
    using take_eq_Cons[OF nb(2) n1(1)] by blast
  define f where "f = (l XOR r) AND drop_bit o' (0xFF :: byte)"
  define T where "T = (if f \<noteq> 0 then leading_zeros f
     else case position (\<lambda>(a, b). a \<noteq> b) (zip ls rs) of
            Some n \<Rightarrow> 8 + n * 8 + leading_zeros (ls ! n XOR rs ! n)
          | None \<Rightarrow> 8 + length ls * 8)"
  have T: "first_diff o' (l # ls) (r # rs) T"
    unfolding T_def f_def by (rule total_bits_matched[OF _ o8]) (simp add: l r)
  have len: "length (l # ls) = n" using l n1 by simp
  have lbit: "bit_at (l # ls) (o' + i) = slice_bits s ! i" if "i < m" for i
    using that m n1 bl unfolding l(1)[symmetric] slice_bytes_def
    by (simp add: nth_slice_bits bit_at_take o'_def min_absorb1)
  have rbit: "bit_at (r # rs) (o' + i) = slice_bits t ! i" if "i < m" for i
    using that m n1 bl unfolding r(1)[symmetric] slice_bytes_def
    by (simp add: nth_slice_bits bit_at_take o'_def off min_absorb1)
  have "lcp_length (slice_bits s) (slice_bits t) = min T (m + o') - o'"
  proof (rule lcp_length_eqI)
    show "min T (m + o') - o' \<le> length (slice_bits s)" "min T (m + o') - o' \<le> length (slice_bits t)"
      using m by simp_all
    fix i assume "i < min T (m + o') - o'"
    then have i: "o' + i < T" "i < m" by auto
    with T n1 len have "bit_at (l # ls) (o' + i) = bit_at (r # rs) (o' + i)"
      unfolding first_diff_def by auto
    then show "slice_bits s ! i = slice_bits t ! i" using lbit rbit i by simp
  next
    assume a: "min T (m + o') - o' < length (slice_bits s)"
      "min T (m + o') - o' < length (slice_bits t)"
    then have "T < m + o'" using m unfolding m_def by auto
    with T n1 len have d: "o' \<le> T" "bit_at (l # ls) T \<noteq> bit_at (r # rs) T"
      unfolding first_diff_def by auto
    define i where "i = T - o'"
    have "T = o' + i" "i < m" using d \<open>T < m + o'\<close> by (auto simp: i_def)
    then show "slice_bits s ! (min T (m + o') - o') \<noteq> slice_bits t ! (min T (m + o') - o')"
      using d lbit[of i] rbit[of i] by simp
  qed
  then show ?thesis
    using off nb unfolding common_prefix_length_def Let_def o'_def[symmetric] m_def[symmetric]
      n_def[symmetric]
    by (simp add: split_at_checked_take l r T_def f_def)
qed

lemma common_prefix_length_offset:
  "sl_offset s \<noteq> sl_offset t \<Longrightarrow> common_prefix_length s t = Some 0"
  by (simp add: common_prefix_length_def)

lemma ext_key_try_from_Ok:
  "ext_key_try_from s = Ok k \<longleftrightarrow>
     k = s \<and> 0 < sl_length s \<and> slice_bytes_len s \<le> MAX_EXTENSION_KEY_SIZE"
  by (auto simp: ext_key_try_from_def slice_is_empty_def)

definition ext_key_inv :: "slice \<Rightarrow> bool" where
  "ext_key_inv k \<longleftrightarrow> slice_inv k \<and> 0 < sl_length k \<and> slice_bytes_len k \<le> MAX_EXTENSION_KEY_SIZE"

lemma outcome_ok_ext_key:
  "outcome_ok (ext_key_try_from s) =
     (if 0 < sl_length s \<and> slice_bytes_len s \<le> MAX_EXTENSION_KEY_SIZE then Some s else None)"
  by (auto simp: outcome_ok_def ext_key_try_from_def slice_is_empty_def)

lemma split_at_bytes_len:
  assumes "split_at s n = Some (h, t)"
  shows "slice_bytes_len h \<le> slice_bytes_len s" "slice_bytes_len t \<le> slice_bytes_len s"
proof -
  from assms have n: "n \<le> sl_length s" and h: "h = s\<lparr>sl_length := n\<rparr>"
    and t: "sl_offset t = wrapping_add (sl_offset s) n" "sl_length t = sl_length s - n"
    by (auto simp: split_at_def checked_sub_def split: if_splits)
  show "slice_bytes_len h \<le> slice_bytes_len s"
    using n by (auto simp: h slice_bytes_len_def bytes_len_def intro!: div_le_mono)
  have "(unat (sl_offset s) + n) mod 8 + (sl_length s - n) + 7 \<le> unat (sl_offset s) + sl_length s + 7"
    using n mod_less_eq_dividend[of "unat (sl_offset s) + n" 8] by linarith
  then show "slice_bytes_len t \<le> slice_bytes_len s"
    using n by (auto simp: t slice_bytes_len_def bytes_len_def intro!: div_le_mono)
qed

lemma pop_front_bytes_len:
  assumes "slice_inv s" "pop_front s = Some (b, s')" shows "slice_bytes_len s' \<le> slice_bytes_len s"
proof -
  note f = pop_front_Some[OF assms]
  have "(unat (sl_offset s) + 1) mod 8 + sl_length s' + 7 \<le> unat (sl_offset s) + sl_length s + 7"
    using f(3) mod_less_eq_dividend[of "unat (sl_offset s) + 1" 8] by linarith
  then show ?thesis
    using f(3) by (auto simp: f(4) slice_bytes_len_def bytes_len_def intro!: div_le_mono)
qed

lemmas forward_defs = forward_common_prefix_def pop_front_slice_eq outcome_ok_ext_key

text \<open>
  \<open>forward_common_prefix\<close> splits both arguments at the longest common prefix. The
  common prefix and the rest of \<open>other\<close> are \<open>None\<close> exactly when empty.
\<close>

lemma forward_common_prefix_eq:
  assumes s: "slice_inv s" and k: "ext_key_inv k" and pos: "0 < sl_length s"
    and off: "sl_offset s = sl_offset k"
  defines "n \<equiv> lcp_length (slice_bits s) (slice_bits k)"
  obtains p q s' where
    "forward_common_prefix s k = Some (p, q, s')" "slice_inv s'"
    "slice_bits s' = drop n (slice_bits s)" "sl_offset s' = wrapping_add (sl_offset s) n"
    "(p = None \<and> n = 0) \<or>
     (\<exists>p'. p = Some p' \<and> 0 < n \<and> ext_key_inv p' \<and> slice_bits p' = take n (slice_bits s) \<and>
        sl_offset p' = sl_offset s)"
    "(q = None \<and> n = sl_length k) \<or>
     (\<exists>q'. q = Some q' \<and> n < sl_length k \<and> ext_key_inv q' \<and>
        slice_bits q' = drop n (slice_bits k) \<and> sl_offset q' = wrapping_add (sl_offset k) n)"
proof -
  have ki: "slice_inv k" "0 < sl_length k" "slice_bytes_len k \<le> MAX_EXTENSION_KEY_SIZE"
    using k by (auto simp: ext_key_inv_def)
  have cp: "common_prefix_length s k = Some n"
    unfolding n_def by (rule common_prefix_length_eq) (use s ki pos off in auto)
  have le: "n \<le> sl_length s" "n \<le> sl_length k"
    using lcp_length_le[of "slice_bits s" "slice_bits k"] by (auto simp: n_def)
  show thesis
  proof (cases "n = 0")
    case True
    show thesis
      by (rule that[of None "Some k" s]) (use True cp s k ki off in \<open>auto simp: forward_defs\<close>)
  next
    case False
    obtain hk tk where spk: "split_at k n = Some (hk, tk)" using split_at_ex le by blast
    obtain hs ts where sps: "split_at s n = Some (hs, ts)" using split_at_ex le by blast
    note K = split_at_Some[OF ki(1) spk] split_at_bytes_len[OF spk]
    note S = split_at_Some[OF s sps] split_at_bytes_len[OF sps]
    have "slice_bytes_len hs = slice_bytes_len hk"
      using K(3,7) S(3,7) off by (simp add: slice_bytes_len_def)
    then have hs: "slice_bytes_len hs \<le> MAX_EXTENSION_KEY_SIZE" using K(11) ki(3) by simp
    have tk: "slice_bytes_len tk \<le> MAX_EXTENSION_KEY_SIZE" using K(12) ki(3) by simp
    have fc: "forward_common_prefix s k = Some (Some hs, if sl_length k = n then None else Some tk, ts)"
      using False cp spk sps hs tk K(8,9) S(7) by (auto simp: forward_defs)
    show thesis
      by (rule that[OF fc]) (use False K S hs tk le in \<open>auto simp: ext_key_inv_def\<close>)
  qed
qed

section \<open>Properties\<close>

text \<open>
  C34: \<open>Slice::forward_common_prefix\<close> splits a non-empty slice and an extension key
  at the end of their longest common prefix (which is empty when they start at different
  bit offsets): \<open>self\<close> is left with what follows the prefix, the prefix and the rest
  of the key are returned unless they are empty, and no access is out of bounds.
\<close>

theorem forward_common_prefix_correct:
  assumes "slice_inv s" "ext_key_inv k" "0 < sl_length s"
    and "n = (if sl_offset s = sl_offset k then lcp_length (slice_bits s) (slice_bits k) else 0)"
  shows "\<exists>p q s'. forward_common_prefix s k = Some (p, q, s') \<and> slice_inv s' \<and>
    slice_bits s' = drop n (slice_bits s) \<and>
    map_option slice_bits p = (if n = 0 then None else Some (take n (slice_bits s))) \<and>
    map_option slice_bits q = (if n = sl_length k then None else Some (drop n (slice_bits k)))"
proof (cases "sl_offset s = sl_offset k")
  case True
  have n: "n = lcp_length (slice_bits s) (slice_bits k)" using assms(4) True by simp
  show ?thesis
    by (rule forward_common_prefix_eq[OF assms(1-3) True]) (auto simp: n)
next
  case False
  then have "forward_common_prefix s k = Some (None, Some k, s)"
    by (simp add: forward_common_prefix_def common_prefix_length_offset)
  then show ?thesis using False assms by (auto simp: ext_key_inv_def)
qed

theorem forward_common_prefix_correct_witness:
  "\<exists>p q s'. forward_common_prefix \<lparr>sl_offset = 0, sl_length = 8, sl_ptr = [0xF0]\<rparr>
      \<lparr>sl_offset = 0, sl_length = 6, sl_ptr = [0xFF]\<rparr> = Some (p, q, s') \<and>
    map_option slice_bits p = Some [True, True, True, True] \<and> map_option slice_bits q = Some [True, True]"
proof -
  let ?s = "\<lparr>sl_offset = 0, sl_length = 8, sl_ptr = [0xF0]\<rparr> :: slice"
  let ?k = "\<lparr>sl_offset = 0, sl_length = 6, sl_ptr = [0xFF]\<rparr> :: slice"
  have "slice_inv ?s" "ext_key_inv ?k"
    by (simp_all add: slice_inv_def ext_key_inv_def slice_bytes_len_def bytes_len_def MAX_EXTENSION_KEY_SIZE_def)
  moreover have "slice_bits ?s = [True, True, True, True, False, False, False, False]"
    "slice_bits ?k = [True, True, True, True, True, True]" by code_simp+
  moreover have "lcp_length [True, True, True, True, False, False, False, False] [True, True, True, True, True, True] = 4"
    by (simp add: lcp_length_def)
  ultimately show ?thesis using forward_common_prefix_correct[of ?s ?k 4] by fastforce
qed

text \<open>
  equality of slices, which compares whole bytes under masks, holds exactly when
  the two slices start at the same bit offset and have the same bits.
\<close>

lemma slice_eq_correct:
  "slice_inv s \<Longrightarrow> slice_inv t \<Longrightarrow>
     slice_eq s t \<longleftrightarrow> sl_offset s = sl_offset t \<and> slice_bits s = slice_bits t"
  by (rule slice_eq_iff)

end
