(* ===== verification/Concat.thy ===== *)
theory Concat
  imports Bits
begin

unbundle bit_operations_syntax

text \<open>
  Owned bit slices, the \<open>Owned\<close> type of \<^verbatim>\<open>bits.rs\<close>, and the concatenation of
  slices of \<^verbatim>\<open>bits/concat.rs\<close>. The lemmas give every operation in terms of the
  list of bits and show that it keeps the representation invariant: the vector
  holds exactly the bytes the slice covers.
\<close>

section \<open>Owned slices\<close>

record owned =
  ow_bytes :: "byte list"
  ow_offset :: u3
  ow_length :: nat

definition as_slice :: "owned \<Rightarrow> slice" where
  "as_slice w = \<lparr>sl_offset = ow_offset w, sl_length = ow_length w, sl_ptr = ow_bytes w\<rparr>"

definition owned_from_slice :: "slice \<Rightarrow> owned" where
  "owned_from_slice s =
     \<lparr>ow_bytes = slice_bytes s, ow_offset = sl_offset s, ow_length = sl_length s\<rparr>"

definition owned_bit :: "bool \<Rightarrow> u3 \<Rightarrow> owned" where
  "owned_bit b offset = \<lparr>ow_bytes = [255 * of_bool b], ow_offset = offset, ow_length = 1\<rparr>"

datatype concat_error = SliceTooLong | Misaligned

definition check_length :: "nat \<Rightarrow> nat \<Rightarrow> (concat_error, nat) outcome" where
  "check_length pre_len suf_len = ok_or SliceTooLong (checked_add 16 pre_len suf_len)"

definition check_alignment :: "u3 \<Rightarrow> nat \<Rightarrow> u3 \<Rightarrow> (concat_error, unit) outcome" where
  "check_alignment pre_off pre_len suf_off =
     (if wrapping_add (u3_wrap pre_len) (unat pre_off) \<noteq> suf_off then Err Misaligned else Ok ())"

definition check_alignment_and_length ::
  "u3 \<Rightarrow> nat \<Rightarrow> u3 \<Rightarrow> nat \<Rightarrow> (concat_error, nat) outcome" where
  "check_alignment_and_length pre_off pre_len suf_off suf_len =
     bind_outcome (check_alignment pre_off pre_len suf_off) (\<lambda>_. check_length pre_len suf_len)"

text \<open>\<open>*bytes.last_mut() = f(last)\<close> on a non-empty vector.\<close>

definition update_last :: "byte list \<Rightarrow> (byte \<Rightarrow> byte) \<Rightarrow> byte list" where
  "update_last bs f = bs[length bs - 1 := f (last bs)]"

definition push_back :: "owned \<Rightarrow> bool \<Rightarrow> (concat_error, owned) outcome" where
  "push_back w b =
     bind_outcome (check_length (ow_length w) 1) (\<lambda>_.
       let off = wrapping_add (ow_offset w) (ow_length w);
           m = drop_bit (unat off) 0x80;
           bytes = (if ow_bytes w \<noteq> [] \<and> off \<noteq> 0
                    then update_last (ow_bytes w) (\<lambda>byte. (byte AND NOT m) OR (m * of_bool b))
                    else ow_bytes w @ [m * of_bool b])
       in Ok (w\<lparr>ow_bytes := bytes, ow_length := ow_length w + 1\<rparr>))"

text \<open>
  \<open>pop_back\<close> unwraps the last byte; the outer \<open>None\<close> is \<open>Panic\<close>
  there, the inner one the \<open>None\<close> the method returns on an empty slice.
\<close>

definition owned_pop_back :: "owned \<Rightarrow> (unit, (bool \<times> owned) option) outcome" where
  "owned_pop_back w =
     (case checked_sub (ow_length w) 1 of
        None \<Rightarrow> Ok None
      | Some len \<Rightarrow>
          if ow_bytes w = [] then Panic
          else
            (let off = wrapping_add (ow_offset w) len;
                 b = last (ow_bytes w) AND drop_bit (unat off) 0x80;
                 bytes = (if off = 0 \<or> len = 0 then butlast (ow_bytes w) else ow_bytes w)
             in Ok (Some (b \<noteq> 0, w\<lparr>ow_bytes := bytes, ow_length := len\<rparr>))))"

definition truncate :: "owned \<Rightarrow> nat \<Rightarrow> owned" where
  "truncate w len =
     (if len < ow_length w
      then w\<lparr>ow_length := len, ow_bytes := take (bytes_len (ow_offset w) len) (ow_bytes w)\<rparr>
      else w)"

definition set_last :: "owned \<Rightarrow> bool \<Rightarrow> (unit, owned) outcome" where
  "set_last w b =
     (let shft = wrapping_dec (wrapping_add (ow_offset w) (ow_length w));
          m = drop_bit (unat shft) 0x80
      in if ow_bytes w = [] then Panic
         else Ok (w\<lparr>ow_bytes :=
                     update_last (ow_bytes w) (\<lambda>last. (last AND NOT m) OR (m * of_bool b))\<rparr>))"

section \<open>Concatenation\<close>

definition extend_impl :: "owned \<Rightarrow> slice \<Rightarrow> (concat_error, owned) outcome" where
  "extend_impl w suffix =
     bind_outcome
       (check_alignment_and_length (ow_offset w) (ow_length w) (sl_offset suffix) (sl_length suffix))
       (\<lambda>_.
         let (this_bytes, bytes) =
               (case slice_bytes suffix of
                  fst_b # rest \<Rightarrow>
                    if ow_bytes w \<noteq> [] \<and> sl_offset suffix \<noteq> 0
                    then (let m = drop_bit (unat (sl_offset suffix)) 255
                          in (update_last (ow_bytes w) (\<lambda>last. (last AND NOT m) OR (fst_b AND m)), rest))
                    else (ow_bytes w, fst_b # rest)
                | [] \<Rightarrow> (ow_bytes w, []))
         in Ok (w\<lparr>ow_bytes := this_bytes @ bytes, ow_length := ow_length w + sl_length suffix\<rparr>))"

definition concat_bool :: "bool \<Rightarrow> slice \<Rightarrow> (concat_error, owned) outcome" where
  "concat_bool b suffix =
     (let offset = wrapping_dec (sl_offset suffix) in
      bind_outcome (check_length 1 (sl_length suffix)) (\<lambda>len.
        let bytes =
              (if slice_is_empty suffix then [255 * of_bool b]
               else if offset = U3_MAX then of_bool b # slice_bytes suffix
               else
                 (let bs = slice_bytes suffix;
                      b0 = (bs ! 0 AND drop_bit (unat offset) 0x7F) OR
                           drop_bit (unat offset) (0x80 * of_bool b)
                  in bs[0 := b0]))
        in Ok \<lparr>ow_bytes = bytes, ow_offset = offset, ow_length = len\<rparr>))"

definition concat_slices :: "slice \<Rightarrow> slice \<Rightarrow> (concat_error, owned) outcome" where
  "concat_slices pre suffix =
     bind_outcome
       (check_alignment_and_length (sl_offset pre) (sl_length pre) (sl_offset suffix) (sl_length suffix))
       (\<lambda>_. extend_impl
               \<lparr>ow_bytes = slice_bytes pre, ow_offset = sl_offset pre, ow_length = sl_length pre\<rparr> suffix)"

text \<open>\<open>TryFrom<Slice>\<close> and \<open>TryFrom<Owned>\<close> for byte vectors.\<close>

definition bytes_try_from_slice :: "slice \<Rightarrow> (concat_error, byte list) outcome" where
  "bytes_try_from_slice s =
     (if sl_offset s = 0 \<and> sl_length s mod 8 = 0 then Ok (slice_bytes s) else Err Misaligned)"

definition bytes_try_from_owned :: "owned \<Rightarrow> (concat_error, byte list) outcome" where
  "bytes_try_from_owned w =
     (if ow_offset w = 0 \<and> ow_length w mod 8 = 0 then Ok (ow_bytes w) else Err Misaligned)"

section \<open>Meaning and invariant\<close>

definition owned_inv :: "owned \<Rightarrow> bool" where
  "owned_inv w \<longleftrightarrow>
     ow_length w < 2 ^ 16 \<and> length (ow_bytes w) = bytes_len (ow_offset w) (ow_length w)"

definition owned_bits :: "owned \<Rightarrow> bool list" where
  "owned_bits w = slice_bits (as_slice w)"

lemma as_slice_simps [simp, slice_simps]:
  "sl_offset (as_slice w) = ow_offset w" "sl_length (as_slice w) = ow_length w"
  "sl_ptr (as_slice w) = ow_bytes w"
  by (simp_all add: as_slice_def)

lemma length_owned_bits [simp]: "length (owned_bits w) = ow_length w"
  by (simp add: owned_bits_def)

lemma nth_owned_bits:
  "i < ow_length w \<Longrightarrow> owned_bits w ! i = bit_at (ow_bytes w) (unat (ow_offset w) + i)"
  by (simp add: owned_bits_def nth_slice_bits)

lemma as_slice_inv: "owned_inv w \<Longrightarrow> slice_inv (as_slice w)"
  by (simp add: owned_inv_def slice_inv_def slice_bytes_len_def)

lemma owned_bitsI:
  assumes "ow_length w = length bs"
    and "\<And>i. i < length bs \<Longrightarrow> bit_at (ow_bytes w) (unat (ow_offset w) + i) = bs ! i"
  shows "owned_bits w = bs"
  by (rule nth_equalityI) (use assms in \<open>auto simp: nth_owned_bits\<close>)

lemma bit_at_slice_bytes:
  assumes "i < sl_length s"
  shows "bit_at (slice_bytes s) (unat (sl_offset s) + i) = slice_bits s ! i"
proof -
  have "unat (sl_offset s) + i < 8 * ((unat (sl_offset s) + sl_length s + 7) div 8)"
    using assms by linarith
  then show ?thesis using assms
    by (simp add: slice_bytes_def slice_bytes_len_def bytes_len_def bit_at_take nth_slice_bits)
qed

lemma owned_from_slice:
  assumes "slice_inv s"
  shows "owned_inv (owned_from_slice s)" "owned_bits (owned_from_slice s) = slice_bits s"
    "ow_offset (owned_from_slice s) = sl_offset s"
  using assms
  by (auto simp: owned_from_slice_def owned_inv_def slice_inv_def length_slice_bytes
      slice_bytes_len_def bit_at_slice_bytes intro!: owned_bitsI)

lemma bit_at_update:
  "i < length bs \<Longrightarrow> bit_at (bs[i := v]) k = (if k div 8 = i then bit v (7 - k mod 8) else bit_at bs k)"
  by (simp add: bit_at_def)

lemma bytes_len_Suc: "bytes_len off (Suc len) = (unat off + len) div 8 + 1"
  by (simp add: bytes_len_def)

lemma bytes_len_aligned:
  "(unat off + len) mod 8 = 0 \<Longrightarrow> 0 < len \<Longrightarrow> bytes_len off len = (unat off + len) div 8"
  by (auto simp: bytes_len_def elim!: dvdE)

lemma bytes_len_unaligned:
  assumes "(unat off + len) mod 8 \<noteq> 0" "0 < len"
  shows "bytes_len off len = (unat off + len) div 8 + 1"
proof -
  define e where "e = unat off + len"
  have "e + 7 = 8 * (e div 8 + 1) + (e mod 8 - 1)" "e mod 8 - 1 < 8"
    using assms(1) unfolding e_def[symmetric] by (simp_all add: less_imp_diff_less)
  then have "(e + 7) div 8 = e div 8 + 1" by (metis div_less div_mult_self4 add.right_neutral zero_neq_numeral)
  then show ?thesis using assms(2) by (simp add: bytes_len_def e_def)
qed

lemma bit_0x80_shift: "f < 8 \<Longrightarrow> r < 8 \<Longrightarrow> bit (drop_bit f (0x80 :: byte)) (7 - r) \<longleftrightarrow> r = f"
  by (auto simp: drop_bit_0x80 bit_exp_iff)

lemma bit_replace:
  assumes "f < 8" "r < 8"
  shows "bit ((x AND NOT (drop_bit f 0x80)) OR (drop_bit f 0x80 * of_bool b) :: byte) (7 - r) =
         (if r = f then b else bit x (7 - r))"
  using assms by (cases b) (auto simp: bit_or_iff bit_and_iff bit_not_iff bit_0x80_shift)

lemma bit_shifted_flag:
  "f < 8 \<Longrightarrow> r < 8 \<Longrightarrow> bit (drop_bit f 0x80 * of_bool b :: byte) (7 - r) \<longleftrightarrow> b \<and> r = f"
  by (cases b) (auto simp: bit_0x80_shift)

lemma same_byte: "k div 8 = e div 8 \<Longrightarrow> k mod 8 = e mod 8 \<Longrightarrow> k = (e :: nat)"
  by (metis div_mult_mod_eq)

lemma owned_length_bytes: "owned_inv w \<Longrightarrow> length (ow_bytes w) = bytes_len (ow_offset w) (ow_length w)"
  by (simp add: owned_inv_def)

lemma bit_at_update_last:
  "bs \<noteq> [] \<Longrightarrow> bit_at (update_last bs g) k =
     (if k div 8 = length bs - 1 then bit (g (last bs)) (7 - k mod 8) else bit_at bs k)"
  by (simp add: update_last_def bit_at_update)

lemma bit_at_snoc: "length bs = e div 8 \<Longrightarrow> bit_at (bs @ [y]) e = bit y (7 - e mod 8)"
  unfolding bit_at_def by (metis nth_append_length)

lemma length_update_last [simp]: "length (update_last bs g) = length bs"
  by (simp add: update_last_def)

lemma bit_at_last:
  "bs \<noteq> [] \<Longrightarrow> k div 8 = length bs - 1 \<Longrightarrow> bit_at bs k = bit (last bs) (7 - k mod 8)"
  by (simp add: bit_at_def last_conv_nth)

lemma set_bit_in_last:
  assumes "bs \<noteq> []" and "length bs = e div 8 + 1"
    and "\<And>r. r < 8 \<Longrightarrow> bit (g (last bs)) (7 - r) = (if r = e mod 8 then b else bit (last bs) (7 - r))"
  shows "bit_at (update_last bs g) k = (if k = e then b else bit_at bs k)"
  using assms same_byte[of k e] by (auto simp: bit_at_update_last bit_at_last)

lemma set_masked_bit:
  assumes "bs \<noteq> []" and "length bs = e div 8 + 1"
  shows "bit_at (update_last bs (\<lambda>x. (x AND NOT (drop_bit (e mod 8) 0x80)) OR
                                    (drop_bit (e mod 8) 0x80 * of_bool b))) k =
         (if k = e then b else bit_at bs k)"
  by (rule set_bit_in_last[OF assms]) (rule bit_replace, simp)

text \<open>\<open>push_back\<close> appends one bit, or fails exactly when the length would overflow.\<close>

lemma push_back_spec:
  assumes "owned_inv w"
  shows "push_back w b =
      (if ow_length w + 1 < 2 ^ 16 then Ok (ok_val (push_back w b)) else Err SliceTooLong)"
    and "push_back w b = Ok w' \<Longrightarrow>
      owned_inv w' \<and> owned_bits w' = owned_bits w @ [b] \<and> ow_offset w' = ow_offset w"
proof -
  show "push_back w b =
      (if ow_length w + 1 < 2 ^ 16 then Ok (ok_val (push_back w b)) else Err SliceTooLong)"
    by (auto simp: push_back_def check_length_def checked_add_def Let_def)
  assume ok: "push_back w b = Ok w'"
  define e where "e = unat (ow_offset w) + ow_length w"
  let ?m = "drop_bit (e mod 8) (0x80 :: byte)"
  have eo: "unat (wrapping_add (ow_offset w) (ow_length w)) = e mod 8" by (simp add: e_def)
  have "w' = w\<lparr>ow_bytes := (if ow_bytes w \<noteq> [] \<and> e mod 8 \<noteq> 0
        then update_last (ow_bytes w) (\<lambda>byte. (byte AND NOT ?m) OR (?m * of_bool b))
        else ow_bytes w @ [?m * of_bool b]), ow_length := ow_length w + 1\<rparr>"
    and len: "ow_length w + 1 < 2 ^ 16"
    using ok eo by (auto simp: push_back_def check_length_def checked_add_def Let_def u3_eq_0
        split: if_splits)
  then have off: "ow_offset w' = ow_offset w" and lw: "ow_length w' = Suc (ow_length w)"
    and bs: "ow_bytes w' = (if ow_bytes w \<noteq> [] \<and> e mod 8 \<noteq> 0
        then update_last (ow_bytes w) (\<lambda>byte. (byte AND NOT ?m) OR (?m * of_bool b))
        else ow_bytes w @ [?m * of_bool b])"
    by auto
  note wl = owned_length_bytes[OF assms]
  have "length (ow_bytes w') = e div 8 + 1 \<and>
    (\<forall>k\<le>e. unat (ow_offset w) \<le> k \<longrightarrow>
       bit_at (ow_bytes w') k = (if k = e then b else bit_at (ow_bytes w) k))"
  proof (cases "ow_bytes w \<noteq> [] \<and> e mod 8 \<noteq> 0")
    case True
    then have "length (ow_bytes w) = e div 8 + 1"
      using wl bytes_len_unaligned[of "ow_offset w" "ow_length w"]
      by (cases "ow_length w = 0") (auto simp: e_def)
    with True set_masked_bit[of "ow_bytes w" e b] show ?thesis by (simp add: bs)
  next
    case False
    have n: "length (ow_bytes w) = e div 8"
    proof (cases "ow_length w = 0")
      case True
      then show ?thesis using wl by (simp add: e_def)
    next
      case pos: False
      then have "ow_bytes w \<noteq> []" using wl by (auto simp: bytes_len_def)
      with False pos show ?thesis using wl bytes_len_aligned[of "ow_offset w" "ow_length w"]
        by (simp add: e_def)
    qed
    have "bit_at (ow_bytes w') k = (if k = e then b else bit_at (ow_bytes w) k)"
      if k: "k \<le> e" "unat (ow_offset w) \<le> k" for k
    proof (cases "k < 8 * (e div 8)")
      case True
      moreover have "8 * (e div 8) \<le> e" by simp
      ultimately show ?thesis using False n by (auto simp: bs bit_at_append)
    next
      case ge: False
      have "k = e"
      proof (cases "e mod 8 = 0")
        case True
        then have "8 * (e div 8) = e" by auto
        with ge k(1) show ?thesis by simp
      next
        case odd: False
        with False have "ow_length w = 0" using wl by (cases "ow_length w") (auto simp: bytes_len_Suc)
        with k show ?thesis by (simp add: e_def)
      qed
      moreover have "ow_bytes w' = ow_bytes w @ [?m * of_bool b]"
        unfolding bs using False by (simp only: if_False)
      moreover have "bit (?m * of_bool b) (7 - e mod 8) = b" by (subst bit_shifted_flag) simp_all
      ultimately show ?thesis using bit_at_snoc[OF n] by (simp only: simp_thms if_True)
    qed
    then show ?thesis using False n by (simp add: bs)
  qed
  then show "owned_inv w' \<and> owned_bits w' = owned_bits w @ [b] \<and> ow_offset w' = ow_offset w"
    using off lw len
    by (auto simp: owned_inv_def bytes_len_Suc e_def nth_append nth_owned_bits less_Suc_eq
        intro!: owned_bitsI)
qed

lemma owned_bit_spec:
  "owned_inv (owned_bit b off)" "owned_bits (owned_bit b off) = [b]" "ow_offset (owned_bit b off) = off"
proof -
  have "(unat off + 1 + 7) div 8 = 1" using u3_less[of off] by (simp del: u3_less)
  then show "owned_inv (owned_bit b off)"
    by (simp add: owned_inv_def owned_bit_def bytes_len_def)
  have "7 - unat off < 8" by simp
  then show "owned_bits (owned_bit b off) = [b]"
    by (cases b) (auto simp: owned_bit_def bit_at_def intro!: owned_bitsI)
  show "ow_offset (owned_bit b off) = off" by (simp add: owned_bit_def)
qed

lemma owned_bits_Suc:
  "ow_length w = Suc n \<Longrightarrow>
     owned_bits w = take n (owned_bits w) @ [bit_at (ow_bytes w) (unat (ow_offset w) + n)]"
  using take_Suc_conv_app_nth[of n "owned_bits w"] by (simp add: nth_owned_bits)

text \<open>\<open>set_last\<close> replaces the last bit and only that bit.\<close>

lemma set_last_spec:
  assumes "owned_inv w" and len: "ow_length w = Suc n"
  obtains w' where "set_last w b = Ok w'" "owned_inv w'" "ow_offset w' = ow_offset w"
    "owned_bits w' = take n (owned_bits w) @ [b]"
proof -
  define e where "e = unat (ow_offset w) + n"
  have "unat (wrapping_dec (wrapping_add (ow_offset w) (ow_length w))) = (e + 8) mod 8"
    by (simp add: e_def len mod_simps)
  then have sh: "unat (wrapping_dec (wrapping_add (ow_offset w) (ow_length w))) = e mod 8" by simp
  have n: "length (ow_bytes w) = e div 8 + 1"
    using owned_length_bytes[OF assms(1)] by (simp add: len bytes_len_Suc e_def)
  then have ne: "ow_bytes w \<noteq> []" by auto
  define bs where "bs = update_last (ow_bytes w) (\<lambda>x. (x AND NOT (drop_bit (e mod 8) 0x80)) OR
                                    (drop_bit (e mod 8) 0x80 * of_bool b))"
  have ok: "set_last w b = Ok (w\<lparr>ow_bytes := bs\<rparr>)"
    using ne by (simp add: set_last_def sh bs_def Let_def del: unat_wrapping_dec)
  have "bit_at bs k = (if k = e then b else bit_at (ow_bytes w) k)" for k
    unfolding bs_def by (rule set_masked_bit[OF ne n])
  then have "owned_bits (w\<lparr>ow_bytes := bs\<rparr>) = take n (owned_bits w) @ [b]"
    by (intro owned_bitsI) (auto simp: len nth_append e_def nth_owned_bits less_Suc_eq)
  moreover have "owned_inv (w\<lparr>ow_bytes := bs\<rparr>)"
    using assms(1) by (simp add: owned_inv_def bs_def)
  ultimately show thesis using that[OF ok] by simp
qed

text \<open>\<open>pop_back\<close> removes and returns the last bit; the \<open>unwrap\<close> in it never fails.\<close>

lemma owned_pop_back_spec:
  assumes "owned_inv w" and len: "ow_length w = Suc n"
  obtains w' where "owned_pop_back w = Ok (Some (last (owned_bits w), w'))" "owned_inv w'"
    "ow_offset w' = ow_offset w" "owned_bits w' = take n (owned_bits w)"
proof -
  define e where "e = unat (ow_offset w) + n"
  have n: "length (ow_bytes w) = e div 8 + 1"
    using owned_length_bytes[OF assms(1)] by (simp add: len bytes_len_Suc e_def)
  then have ne: "ow_bytes w \<noteq> []" by auto
  define bs where "bs = (if e mod 8 = 0 \<or> n = 0 then butlast (ow_bytes w) else ow_bytes w)"
  have "e mod 8 < 8" by simp
  from bit_select[OF this, of "last (ow_bytes w)"]
  have b: "(last (ow_bytes w) AND drop_bit (e mod 8) 0x80) \<noteq> 0 \<longleftrightarrow> last (owned_bits w)"
    using bit_at_last[OF ne, of e] n arg_cong[OF owned_bits_Suc[OF len], of last] by (simp add: e_def)
  have ok: "owned_pop_back w = Ok (Some (last (owned_bits w), w\<lparr>ow_bytes := bs, ow_length := n\<rparr>))"
    using ne b by (simp add: owned_pop_back_def checked_sub_def len u3_eq_0 Let_def bs_def e_def)
  have "length bs = bytes_len (ow_offset w) n"
    using n bytes_len_aligned[of "ow_offset w" n] bytes_len_unaligned[of "ow_offset w" n]
    by (cases "n = 0") (auto simp: bs_def e_def)
  then have inv: "owned_inv (w\<lparr>ow_bytes := bs, ow_length := n\<rparr>)"
    using assms by (simp add: owned_inv_def)
  have "bit_at bs (unat (ow_offset w) + i) = bit_at (ow_bytes w) (unat (ow_offset w) + i)" if "i < n" for i
  proof (cases "e mod 8 = 0")
    case True
    have "8 * (e div 8) = e" using True by auto
    then have "unat (ow_offset w) + i < 8 * (e div 8)" using that by (simp add: e_def)
    then have "bit_at (take (e div 8) (ow_bytes w)) (unat (ow_offset w) + i) =
        bit_at (ow_bytes w) (unat (ow_offset w) + i)" by (rule bit_at_take)
    then show ?thesis using True n that by (simp add: bs_def butlast_conv_take)
  qed (use that in \<open>simp add: bs_def\<close>)
  then have "owned_bits (w\<lparr>ow_bytes := bs, ow_length := n\<rparr>) = take n (owned_bits w)"
    by (intro owned_bitsI) (simp_all add: len nth_owned_bits)
  then show thesis using that[OF ok inv] by simp
qed

lemma owned_pop_back_empty: "ow_length w = 0 \<Longrightarrow> owned_pop_back w = Ok None"
  by (simp add: owned_pop_back_def checked_sub_def)

lemma truncate_spec:
  assumes "owned_inv w"
  shows "owned_inv (truncate w n)" "owned_bits (truncate w n) = take n (owned_bits w)"
    "ow_offset (truncate w n) = ow_offset w"
proof -
  have le: "bytes_len (ow_offset w) n \<le> bytes_len (ow_offset w) (ow_length w)" if "n < ow_length w"
    using that by (auto simp: bytes_len_def intro!: div_le_mono)
  show "owned_inv (truncate w n)"
    using assms le by (auto simp: truncate_def owned_inv_def)
  show "ow_offset (truncate w n) = ow_offset w" by (simp add: truncate_def)
  have "unat (ow_offset w) + i < 8 * bytes_len (ow_offset w) n" if "i < n" for i
    using that unfolding bytes_len_def by simp
  then show "owned_bits (truncate w n) = take n (owned_bits w)"
    by (intro owned_bitsI) (auto simp: truncate_def nth_owned_bits bit_at_take)
qed

section \<open>Concatenation in terms of bits\<close>

lemma check_alignment_and_length_Ok:
  "check_alignment_and_length po pl so sl = Ok n \<longleftrightarrow>
     unat so = (unat po + pl) mod 8 \<and> pl + sl < 2 ^ 16 \<and> n = pl + sl"
  by (auto simp: check_alignment_and_length_def check_alignment_def check_length_def checked_add_def
      bind_outcome_Ok u3_eq_iff u3_wrap_mod mod_simps add.commute)

lemma check_alignment_and_length_cases:
  "check_alignment_and_length po pl so sl =
     (if unat so \<noteq> (unat po + pl) mod 8 then Err Misaligned
      else if pl + sl < 2 ^ 16 then Ok (pl + sl) else Err SliceTooLong)"
  by (auto simp: check_alignment_and_length_def check_alignment_def check_length_def checked_add_def
      u3_eq_iff u3_wrap_mod mod_simps add.commute)

lemma bit_at_Cons: "8 \<le> k \<Longrightarrow> bit_at (b # bs) k = bit_at bs (k - 8)"
  using bit_at_append[of "[b]" bs k] by simp

lemma bit_merge:
  "f < 8 \<Longrightarrow> r < 8 \<Longrightarrow> bit ((x AND NOT (drop_bit f 255)) OR (y AND drop_bit f 255) :: byte) (7 - r) =
     (if f \<le> r then bit y (7 - r) else bit x (7 - r))"
  by (auto simp: bit_or_iff bit_and_iff bit_not_iff bit_drop_bit_eq)

text \<open>
  Two byte strings that meet at bit \<open>e\<close>: when \<open>e\<close> is inside a byte the
  two bytes are merged.
\<close>

lemma meet_in_byte:
  fixes y :: byte and ys :: "byte list"
  assumes "xs \<noteq> []" and "length xs = e div 8 + 1"
  defines "m \<equiv> drop_bit (e mod 8) (255 :: byte)"
  defines "zs \<equiv> update_last xs (\<lambda>x. (x AND NOT m) OR (y AND m)) @ ys"
  shows "k < e \<Longrightarrow> bit_at zs k = bit_at xs k"
    and "bit_at zs (e + i) = bit_at (y # ys) (e mod 8 + i)"
proof -
  let ?g = "\<lambda>x. (x AND NOT m) OR (y AND m)"
  have e: "e = 8 * (e div 8) + e mod 8" "e mod 8 < 8" by simp_all
  have z: "bit_at zs k = (if k < 8 * length xs
      then if k div 8 = e div 8 then bit (?g (last xs)) (7 - k mod 8) else bit_at xs k
      else bit_at ys (k - 8 * length xs))" for k
    unfolding zs_def using assms(1,2) by (simp add: bit_at_append bit_at_update_last)
  have g: "bit (?g x) (7 - k mod 8) =
      (if e mod 8 \<le> k mod 8 then bit y (7 - k mod 8) else bit x (7 - k mod 8))" for k x
    unfolding m_def by (rule bit_merge) simp_all
  { assume k: "k < e"
    have "k < 8 * length xs" using k assms(2) e by linarith
    moreover have "\<not> e mod 8 \<le> k mod 8" if "k div 8 = e div 8"
      using k that e by (metis div_mult_mod_eq nat_add_left_cancel_le not_less)
    ultimately show "bit_at zs k = bit_at xs k"
      using assms(1,2) unfolding z g by (auto simp: bit_at_last) }
  show "bit_at zs (e + i) = bit_at (y # ys) (e mod 8 + i)"
  proof (cases "e mod 8 + i < 8")
    case True
    have r: "e + i = 8 * (e div 8) + (e mod 8 + i)" by simp
    then have "(e + i) div 8 = e div 8" "(e + i) mod 8 = e mod 8 + i"
      using True by (metis div_less div_mult_self4 add.right_neutral zero_neq_numeral,
        metis mod_less mod_mult_self4)
    moreover have "e + i < 8 * length xs" using True assms(2) e(1) by linarith
    ultimately show ?thesis unfolding z g using True by (simp add: bit_at_def)
  next
    case False
    have "\<not> e + i < 8 * length xs" "e + i - 8 * length xs = e mod 8 + i - 8"
      using False assms(2) e(1) by linarith+
    then show ?thesis unfolding z using False by (simp add: bit_at_Cons)
  qed
qed

lemma bytes_len_add:
  assumes "unat so = (unat off + pl) mod 8" and "0 < sl"
  shows "bytes_len off (pl + sl) = (unat off + pl) div 8 + bytes_len so sl"
proof -
  define e where "e = unat off + pl"
  have "e + sl + 7 = 8 * (e div 8) + (e mod 8 + sl + 7)" by simp
  then have "(e + sl + 7) div 8 = e div 8 + (e mod 8 + sl + 7) div 8"
    by (metis div_mult_self4 zero_neq_numeral)
  then show ?thesis using assms by (simp add: bytes_len_def e_def add.assoc)
qed

lemma bytes_len_end:
  assumes "unat so = (unat off + len) mod 8"
  shows "bytes_len off len = (if len = 0 then 0 else (unat off + len) div 8 + of_bool (so \<noteq> 0))"
  using assms bytes_len_aligned[of off len] bytes_len_unaligned[of off len]
  by (cases "so = 0") (auto simp: u3_eq_0 word_unat_eq_iff)

lemma extend_impl_eq:
  "extend_impl w s =
     bind_outcome (check_alignment_and_length (ow_offset w) (ow_length w) (sl_offset s) (sl_length s))
       (\<lambda>_. Ok (w\<lparr>ow_bytes :=
          (if slice_bytes s \<noteq> [] \<and> ow_bytes w \<noteq> [] \<and> sl_offset s \<noteq> 0
           then (let m = drop_bit (unat (sl_offset s)) 255
                 in update_last (ow_bytes w) (\<lambda>x. (x AND NOT m) OR (hd (slice_bytes s) AND m)) @
                    tl (slice_bytes s))
           else ow_bytes w @ slice_bytes s), ow_length := ow_length w + sl_length s\<rparr>))"
  by (cases "slice_bytes s") (simp_all add: extend_impl_def Let_def)

text \<open>The bytes \<open>extend_impl\<close> builds, whether or not the slices meet inside a byte.\<close>

lemma extend_bytes:
  assumes w: "owned_inv w" and s: "slice_inv s" and e: "e = unat (ow_offset w) + ow_length w"
    and so: "unat (sl_offset s) = e mod 8" and pos: "0 < sl_length s"
  defines "bs \<equiv> (if slice_bytes s \<noteq> [] \<and> ow_bytes w \<noteq> [] \<and> sl_offset s \<noteq> 0
           then (let m = drop_bit (unat (sl_offset s)) 255
                 in update_last (ow_bytes w) (\<lambda>x. (x AND NOT m) OR (hd (slice_bytes s) AND m)) @
                    tl (slice_bytes s))
           else ow_bytes w @ slice_bytes s)"
  shows "length bs = bytes_len (ow_offset w) (ow_length w + sl_length s)"
    and "k < e \<Longrightarrow> unat (ow_offset w) \<le> k \<Longrightarrow> bit_at bs k = bit_at (ow_bytes w) k"
    and "bit_at bs (e + i) = bit_at (slice_bytes s) (unat (sl_offset s) + i)"
proof -
  have wl: "length (ow_bytes w) =
      (if ow_length w = 0 then 0 else e div 8 + of_bool (sl_offset s \<noteq> 0))"
    using owned_length_bytes[OF w] bytes_len_end[of "sl_offset s" "ow_offset w" "ow_length w"] so e
    by simp
  have sl: "length (slice_bytes s) = bytes_len (sl_offset s) (sl_length s)"
    using s by (simp add: length_slice_bytes slice_bytes_len_def)
  then have ne: "slice_bytes s \<noteq> []" using pos by (auto simp: bytes_len_def)
  have new: "bytes_len (ow_offset w) (ow_length w + sl_length s) = e div 8 + length (slice_bytes s)"
    using bytes_len_add[OF _ pos, of "sl_offset s" "ow_offset w" "ow_length w"] so e sl by simp
  have all: "length bs = bytes_len (ow_offset w) (ow_length w + sl_length s) \<and>
     (\<forall>k. k < e \<longrightarrow> unat (ow_offset w) \<le> k \<longrightarrow> bit_at bs k = bit_at (ow_bytes w) k) \<and>
     (\<forall>i. bit_at bs (e + i) = bit_at (slice_bytes s) (unat (sl_offset s) + i))"
  proof (cases "ow_bytes w \<noteq> [] \<and> sl_offset s \<noteq> 0")
    case True
    then have l: "length (ow_bytes w) = e div 8 + 1" using wl by (cases "ow_length w = 0") auto
    have hd: "hd (slice_bytes s) # tl (slice_bytes s) = slice_bytes s" using ne by simp
    have bs: "bs = update_last (ow_bytes w)
        (\<lambda>x. (x AND NOT (drop_bit (e mod 8) 255)) OR (hd (slice_bytes s) AND drop_bit (e mod 8) 255)) @
        tl (slice_bytes s)"
      using True ne unfolding bs_def so by (simp add: Let_def)
    have "length bs = bytes_len (ow_offset w) (ow_length w + sl_length s)"
      using ne l by (simp add: bs new)
    then show ?thesis
      using True meet_in_byte[OF _ l, where y = "hd (slice_bytes s)" and ys = "tl (slice_bytes s)"]
      unfolding bs hd so by blast
  next
    case False
    then have bs: "bs = ow_bytes w @ slice_bytes s" by (auto simp: bs_def)
    have l: "length (ow_bytes w) = e div 8"
    proof (cases "ow_length w = 0")
      case True then show ?thesis using wl e by simp
    next
      case pl: False
      have "length (ow_bytes w) = e div 8 + of_bool (sl_offset s \<noteq> 0)" using wl pl by simp
      then show ?thesis using False by auto
    qed
    have lo: "k < 8 * (e div 8)" if "k < e" "unat (ow_offset w) \<le> k" for k
    proof (cases "ow_length w = 0")
      case True then show ?thesis using that e by simp
    next
      case pl: False
      then have "length (ow_bytes w) = e div 8 + of_bool (sl_offset s \<noteq> 0)" using wl by simp
      then have "sl_offset s = 0" using l by auto
      then have "8 * (e div 8) = e" using so by auto
      with that show ?thesis by simp
    qed
    have hi: "bit_at bs (e + i) = bit_at (slice_bytes s) (e mod 8 + i)" for i
    proof -
      have "e + i - 8 * (e div 8) = e mod 8 + i" "\<not> e + i < 8 * (e div 8)"
        using mult_div_mod_eq[of 8 e] by linarith+
      then show ?thesis by (simp add: bs bit_at_append l)
    qed
    show ?thesis using lo hi so l by (auto simp: bs new bit_at_append)
  qed
  then show "length bs = bytes_len (ow_offset w) (ow_length w + sl_length s)"
    and "k < e \<Longrightarrow> unat (ow_offset w) \<le> k \<Longrightarrow> bit_at bs k = bit_at (ow_bytes w) k"
    and "bit_at bs (e + i) = bit_at (slice_bytes s) (unat (sl_offset s) + i)" by blast+
qed

text \<open>\<open>extend_impl\<close> appends the bits of the suffix, or reports the error of the two checks.\<close>

lemma extend_impl_spec:
  assumes w: "owned_inv w" and s: "slice_inv s"
  shows "extend_impl w s =
      (if unat (sl_offset s) \<noteq> (unat (ow_offset w) + ow_length w) mod 8 then Err Misaligned
       else if ow_length w + sl_length s < 2 ^ 16 then Ok (ok_val (extend_impl w s))
       else Err SliceTooLong)"
    and "extend_impl w s = Ok w' \<Longrightarrow>
      owned_inv w' \<and> ow_offset w' = ow_offset w \<and> owned_bits w' = owned_bits w @ slice_bits s"
proof -
  show "extend_impl w s =
      (if unat (sl_offset s) \<noteq> (unat (ow_offset w) + ow_length w) mod 8 then Err Misaligned
       else if ow_length w + sl_length s < 2 ^ 16 then Ok (ok_val (extend_impl w s))
       else Err SliceTooLong)"
    by (simp add: extend_impl_eq check_alignment_and_length_cases)
  define e where "e = unat (ow_offset w) + ow_length w"
  assume ok: "extend_impl w s = Ok w'"
  then have so: "unat (sl_offset s) = e mod 8" and fits: "ow_length w + sl_length s < 2 ^ 16"
    by (auto simp: extend_impl_eq bind_outcome_Ok check_alignment_and_length_Ok e_def)
  show "owned_inv w' \<and> ow_offset w' = ow_offset w \<and> owned_bits w' = owned_bits w @ slice_bits s"
  proof (cases "sl_length s = 0")
    case True
    then have "slice_bytes s = []" "slice_bits s = []"
      by (auto simp: slice_bytes_def slice_bytes_len_def)
    then have "w' = w" using ok True by (auto simp: extend_impl_eq bind_outcome_Ok)
    then show ?thesis using w \<open>slice_bits s = []\<close> by simp
  next
    case False
    note eb = extend_bytes[OF w s e_def so] and w' = ok[unfolded extend_impl_eq bind_outcome_Ok]
    have f: "ow_offset w' = ow_offset w" "ow_length w' = ow_length w + sl_length s" using w' by auto
    have b1: "bit_at (ow_bytes w') (unat (ow_offset w) + i) = owned_bits w ! i" if "i < ow_length w" for i
      using w' eb(2)[of "unat (ow_offset w) + i"] that False by (auto simp: e_def nth_owned_bits)
    have b2: "bit_at (ow_bytes w') (unat (ow_offset w) + (ow_length w + i)) = slice_bits s ! i"
      if "i < sl_length s" for i
      using w' eb(3)[of i] that by (auto simp: e_def bit_at_slice_bytes add.assoc)
    have "owned_bits w' = owned_bits w @ slice_bits s"
    proof (rule owned_bitsI)
      fix i assume "i < length (owned_bits w @ slice_bits s)"
      then show "bit_at (ow_bytes w') (unat (ow_offset w') + i) = (owned_bits w @ slice_bits s) ! i"
        using b1[of i] b2[of "i - ow_length w"] f by (auto simp: nth_append)
    qed (simp add: f)
    moreover have "owned_inv w'" using w' eb(1) False fits f by (auto simp: owned_inv_def)
    ultimately show ?thesis using f by simp
  qed
qed

lemma concat_slices_spec:
  assumes "slice_inv p" and "slice_inv s"
  shows "concat_slices p s =
      (if unat (sl_offset s) \<noteq> (unat (sl_offset p) + sl_length p) mod 8 then Err Misaligned
       else if sl_length p + sl_length s < 2 ^ 16 then Ok (ok_val (concat_slices p s))
       else Err SliceTooLong)"
    and "concat_slices p s = Ok w \<Longrightarrow>
      owned_inv w \<and> ow_offset w = sl_offset p \<and> owned_bits w = slice_bits p @ slice_bits s"
proof -
  note p = owned_from_slice[OF assms(1)]
  have eq: "concat_slices p s = extend_impl (owned_from_slice p) s"
    by (auto simp: concat_slices_def owned_from_slice_def extend_impl_eq
        check_alignment_and_length_cases)
  have f: "ow_length (owned_from_slice p) = sl_length p" by (simp add: owned_from_slice_def)
  note ext = extend_impl_spec[OF p(1) assms(2), unfolded p f, folded eq]
  show "concat_slices p s =
      (if unat (sl_offset s) \<noteq> (unat (sl_offset p) + sl_length p) mod 8 then Err Misaligned
       else if sl_length p + sl_length s < 2 ^ 16 then Ok (ok_val (concat_slices p s))
       else Err SliceTooLong)"
    by (rule ext(1))
  show "concat_slices p s = Ok w \<Longrightarrow>
      owned_inv w \<and> ow_offset w = sl_offset p \<and> owned_bits w = slice_bits p @ slice_bits s"
    by (rule ext(2))
qed

lemma drop_bit_0x7F: "f < 8 \<Longrightarrow> drop_bit f (0x7F :: byte) = mask (7 - f)"
proof -
  assume "f < 8"
  then have "f = 0 \<or> f = 1 \<or> f = 2 \<or> f = 3 \<or> f = 4 \<or> f = 5 \<or> f = 6 \<or> f = 7" by linarith
  then show ?thesis by (elim disjE) (simp_all add: mask_eq_exp_minus_1)
qed

lemma bit_prepend:
  assumes "f < 7" "r < 8"
  shows "bit ((x AND drop_bit f 0x7F) OR drop_bit f (0x80 * of_bool b) :: byte) (7 - r) =
     (if r = f then b else f < r \<and> bit x (7 - r))"
proof -
  have "bit (drop_bit f 0x7F :: byte) (7 - r) \<longleftrightarrow> f < r"
    using assms by (simp add: drop_bit_0x7F bit_mask_iff) linarith
  moreover have "bit (drop_bit f (0x80 * of_bool b) :: byte) (7 - r) \<longleftrightarrow> b \<and> r = f"
    using bit_0x80_shift[of f r] assms by (cases b) auto
  ultimately show ?thesis by (simp only: bit_or_iff bit_and_iff) (auto split: if_splits)
qed

lemma unat_wrapping_dec_if: "unat (wrapping_dec x) = (if unat x = 0 then 7 else unat x - 1)"
proof (cases "unat x")
  case (Suc m)
  then have "m < 8" using u3_less[of x] by linarith
  with Suc show ?thesis by simp
qed simp

lemma concat_bool_bytes:
  assumes s: "slice_inv s" and fits: "1 + sl_length s < 2 ^ 16"
  obtains bs where "concat_bool b s =
      Ok \<lparr>ow_bytes = bs, ow_offset = wrapping_dec (sl_offset s), ow_length = Suc (sl_length s)\<rparr>"
    "length bs = bytes_len (wrapping_dec (sl_offset s)) (Suc (sl_length s))"
    "bit_at bs (unat (wrapping_dec (sl_offset s))) = b"
    "\<And>i. i < sl_length s \<Longrightarrow> bit_at bs (unat (wrapping_dec (sl_offset s)) + Suc i) = slice_bits s ! i"
proof -
  define f where "f = unat (wrapping_dec (sl_offset s))"
  have f: "f < 8" "f = (if unat (sl_offset s) = 0 then 7 else unat (sl_offset s) - 1)"
    using unat_wrapping_dec_if[of "sl_offset s"] u3_less[of "wrapping_dec (sl_offset s)"]
    unfolding f_def by (simp_all only:)
  have len: "length (slice_bytes s) = bytes_len (sl_offset s) (sl_length s)"
    using s by (simp add: length_slice_bytes slice_bytes_len_def)
  have nb: "bytes_len (wrapping_dec (sl_offset s)) (Suc (sl_length s)) = (f + sl_length s) div 8 + 1"
    by (simp only: bytes_len_Suc f_def)
  have chk: "check_length 1 (sl_length s) = Ok (Suc (sl_length s))"
    using fits by (simp add: check_length_def checked_add_def)
  have max: "wrapping_dec (sl_offset s) = U3_MAX \<longleftrightarrow> f = 7" by (simp add: u3_eq_iff U3_MAX_def f_def)
  consider (empty) "sl_length s = 0" | (new) "0 < sl_length s" "f = 7" | (same) "0 < sl_length s" "f < 7"
    using f(1) by linarith
  then show thesis
  proof cases
    case empty
    have "concat_bool b s = Ok \<lparr>ow_bytes = [255 * of_bool b], ow_offset = wrapping_dec (sl_offset s),
        ow_length = Suc (sl_length s)\<rparr>"
      using chk empty by (simp add: concat_bool_def slice_is_empty_def Let_def)
    then show thesis
      by (rule that) (use empty nb f(1) in \<open>cases b; simp add: f_def[symmetric] bit_at_def\<close>)+
  next
    case new
    then have o0: "unat (sl_offset s) = 0" using f(2) u3_less[of "sl_offset s"]
      by (auto split: if_splits simp del: u3_less)
    have "concat_bool b s = Ok \<lparr>ow_bytes = of_bool b # slice_bytes s,
        ow_offset = wrapping_dec (sl_offset s), ow_length = Suc (sl_length s)\<rparr>"
      using chk new max by (simp add: concat_bool_def slice_is_empty_def Let_def)
    then show thesis
    proof (rule that)
      show "length (of_bool b # slice_bytes s) = bytes_len (wrapping_dec (sl_offset s)) (Suc (sl_length s))"
        using new o0 by (simp add: len nb bytes_len_def add.commute)
      show "bit_at (of_bool b # slice_bytes s) (unat (wrapping_dec (sl_offset s))) = b"
        using new unfolding f_def[symmetric] by (cases b) (simp_all add: bit_at_def)
      fix i assume "i < sl_length s"
      then show "bit_at (of_bool b # slice_bytes s) (unat (wrapping_dec (sl_offset s)) + Suc i) =
          slice_bits s ! i"
        using new o0 bit_at_slice_bytes[of i s] unfolding f_def[symmetric] by (simp add: bit_at_Cons)
    qed
  next
    case same
    let ?y = "(slice_bytes s ! 0 AND drop_bit f 0x7F) OR drop_bit f (0x80 * of_bool b)"
    have o1: "unat (sl_offset s) = Suc f" using f(2) same by (auto split: if_splits)
    have n: "length (slice_bytes s) = (f + sl_length s) div 8 + 1"
      using same o1 by (cases "sl_length s") (simp_all add: len bytes_len_Suc)
    have ok: "concat_bool b s = Ok \<lparr>ow_bytes = (slice_bytes s)[0 := ?y],
        ow_offset = wrapping_dec (sl_offset s), ow_length = Suc (sl_length s)\<rparr>"
      using chk same max
      by (simp add: concat_bool_def slice_is_empty_def Let_def f_def[symmetric] del: unat_wrapping_dec)
    have y: "bit ?y (7 - r) = (if r = f then b else f < r \<and> bit (slice_bytes s ! 0) (7 - r))" if "r < 8" for r
      by (rule bit_prepend[OF same(2) that])
    have at: "bit_at ((slice_bytes s)[0 := ?y]) k =
        (if k = f then b else bit_at (slice_bytes s) k)" if "f \<le> k" for k
    proof (cases "k < 8")
      case True
      then show ?thesis using y[of k] n that by (simp add: bit_at_def)
    qed (use n that same in \<open>simp add: bit_at_update div_eq_0_iff\<close>)
    show thesis
      by (rule that[OF ok])
        (use at n nb bit_at_slice_bytes[of _ s] o1 in \<open>simp_all add: f_def[symmetric] del: unat_wrapping_dec\<close>)
  qed
qed

text \<open>Prepending a bit: the offset moves back by one, modulo eight.\<close>

lemma concat_bool_spec:
  assumes "slice_inv s"
  shows "1 + sl_length s < 2 ^ 16 \<Longrightarrow> \<exists>w. concat_bool b s = Ok w \<and> owned_inv w \<and>
      ow_offset w = wrapping_dec (sl_offset s) \<and> owned_bits w = b # slice_bits s"
    and "\<not> 1 + sl_length s < 2 ^ 16 \<Longrightarrow> concat_bool b s = Err SliceTooLong"
proof -
  show "\<not> 1 + sl_length s < 2 ^ 16 \<Longrightarrow> concat_bool b s = Err SliceTooLong"
    by (simp add: concat_bool_def check_length_def checked_add_def Let_def)
  assume fits: "1 + sl_length s < 2 ^ 16"
  from concat_bool_bytes[OF assms this, of b] obtain bs where
    ok: "concat_bool b s = Ok \<lparr>ow_bytes = bs, ow_offset = wrapping_dec (sl_offset s),
           ow_length = Suc (sl_length s)\<rparr>"
    and len: "length bs = bytes_len (wrapping_dec (sl_offset s)) (Suc (sl_length s))"
    and b0: "bit_at bs (unat (wrapping_dec (sl_offset s))) = b"
    and bi: "\<And>i. i < sl_length s \<Longrightarrow>
      bit_at bs (unat (wrapping_dec (sl_offset s)) + Suc i) = slice_bits s ! i" by blast
  let ?w = "\<lparr>ow_bytes = bs, ow_offset = wrapping_dec (sl_offset s), ow_length = Suc (sl_length s)\<rparr>"
  have "owned_bits ?w = b # slice_bits s"
    by (rule owned_bitsI) (use b0 bi in \<open>auto simp: nth_Cons split: nat.splits simp del: unat_wrapping_dec\<close>)
  moreover have "owned_inv ?w" using len fits by (simp add: owned_inv_def)
  ultimately show "\<exists>w. concat_bool b s = Ok w \<and> owned_inv w \<and>
      ow_offset w = wrapping_dec (sl_offset s) \<and> owned_bits w = b # slice_bits s"
    using ok by auto
qed

lemma bytes_try_from_slice_from_bytes:
  assumes "slice_from_bytes bs = Some s"
  shows "bytes_try_from_slice s = Ok bs"
  using assms
  by (auto simp: slice_from_bytes_def bytes_try_from_slice_def slice_bytes_def slice_bytes_len_def
      bytes_len_def split: if_splits)

section \<open>Properties\<close>

text \<open>
  Concatenation of two slices fails with \<open>Misaligned\<close> exactly when the second
  does not start at the bit where the first ends, and with \<open>SliceTooLong\<close> exactly
  when the total length does not fit 16 bits; otherwise the result is well formed,
  starts where the first starts and has the bits of both.
\<close>

lemma concat_slices_correct:
  assumes "slice_inv p" "slice_inv s"
  shows "if unat (sl_offset s) \<noteq> (unat (sl_offset p) + sl_length p) mod 8 then concat_slices p s = Err Misaligned
    else if sl_length p + sl_length s \<ge> 2 ^ 16 then concat_slices p s = Err SliceTooLong
    else \<exists>w. concat_slices p s = Ok w \<and> owned_inv w \<and> ow_offset w = sl_offset p \<and>
           owned_bits w = slice_bits p @ slice_bits s"
  using concat_slices_spec[OF assms] by (metis not_le)

text \<open>
  \<open>Owned::push_back\<close> appends one bit and \<open>Owned::pop_back\<close> takes it off
  again: the popped bit is the pushed one and the remaining slice has the original bits.
\<close>

lemma push_pop_back:
  assumes "owned_inv w" "push_back w b = Ok w'"
  shows "owned_bits w' = owned_bits w @ [b] \<and> owned_inv w' \<and>
    (\<exists>w''. owned_pop_back w' = Ok (Some (b, w'')) \<and> owned_inv w'' \<and>
       ow_offset w'' = ow_offset w \<and> owned_bits w'' = owned_bits w)"
proof -
  have w': "owned_inv w'" "owned_bits w' = owned_bits w @ [b]" "ow_offset w' = ow_offset w"
    using push_back_spec(2)[OF assms(1), of b w'] assms(2) by auto
  then have len: "ow_length w' = Suc (length (owned_bits w))"
    by (metis length_append_singleton length_owned_bits)
  show ?thesis by (rule owned_pop_back_spec[OF w'(1) len]) (use w' in auto)
qed

end
