(* ===== verification/Ext_Key.thy ===== *)
theory Ext_Key
  imports Concat
begin

unbundle bit_operations_syntax

text \<open>
  Keys of Extension nodes, \<^verbatim>\<open>bits/ext_key.rs\<close>: their 36-byte binary form and the
  iterator that cuts a long key into pieces of at most 34 bytes. Encoding and
  decoding are inverse to each other in both directions, so a key has exactly one
  binary form; the chunks of a slice, taken from either end, are valid keys that
  spell the slice.
\<close>

section \<open>Two-byte integers\<close>

definition u16_to_be_bytes :: "16 word \<Rightarrow> byte list" where
  "u16_to_be_bytes w = [ucast (drop_bit 8 w), ucast w]"

definition u16_from_be_bytes :: "byte \<Rightarrow> byte \<Rightarrow> 16 word" where
  "u16_from_be_bytes h l = push_bit 8 (ucast h) OR ucast l"

section \<open>Encoding\<close>

definition ext_key_new :: "byte list \<Rightarrow> u3 \<Rightarrow> nat \<Rightarrow> slice option" where
  "ext_key_new bytes offset len =
     (case slice_new bytes offset len of
        None \<Rightarrow> None | Some s \<Rightarrow> outcome_ok (ext_key_try_from s))"

definition encode_num :: "slice \<Rightarrow> byte \<Rightarrow> byte list" where
  "encode_num k tag =
     (let num = push_bit 3 (word_of_nat (sl_length k)) OR word_of_nat (unat (sl_offset k)) :: 16 word
      in u16_to_be_bytes (num XOR push_bit 8 (ucast tag)))"

text \<open>
  The 36 bytes that \<open>encode_into\<close> leaves in \<open>dest\<close>, and the number of
  relevant bytes it returns.
\<close>

definition encode_into :: "slice \<Rightarrow> byte \<Rightarrow> byte list \<times> nat" where
  "encode_into k tag =
     (let bytes = slice_bytes k;
          num = encode_num k tag;
          tail = replicate 34 0;
          (front, back) = masks (sl_offset k) (sl_length k);
          key = bytes;
          key = key[0 := key ! 0 AND front];
          key = key[length bytes - 1 := key ! (length bytes - 1) AND back]
      in (num @ key @ drop (length bytes) tail, 2 + length bytes))"

definition ext_key_decode :: "byte list \<Rightarrow> byte \<Rightarrow> slice option" where
  "ext_key_decode src tag =
     (case stdx_split_at 2 src of
        None \<Rightarrow> None
      | Some (num, bytes) \<Rightarrow>
          (let w = u16_from_be_bytes (num ! 0 XOR tag) (num ! 1);
               (len, offset) = u3_divmod (unat w)
           in case new_check_zeros bytes offset len of
                None \<Rightarrow> None | Some s \<Rightarrow> outcome_ok (ext_key_try_from s)))"

section \<open>Chunks\<close>

definition chunks_next :: "slice \<Rightarrow> (slice \<times> slice) option" where
  "chunks_next s =
     (let max_length = MAX_EXTENSION_KEY_SIZE * 8;
          len = min (max_length - unat (sl_offset s)) (sl_length s)
      in if len = 0 then None else pop_front_slice s len)"

definition chunks_len :: "slice \<Rightarrow> nat" where
  "chunks_len s =
     (length (slice_bytes s) + MAX_EXTENSION_KEY_SIZE - 1) div MAX_EXTENSION_KEY_SIZE"

definition chunks_next_back :: "slice \<Rightarrow> (slice \<times> slice) option" where
  "chunks_next_back s =
     (let bytes = slice_bytes s in
      if bytes = [] then None
      else
        (let start = (length bytes - 1) div MAX_EXTENSION_KEY_SIZE * MAX_EXTENSION_KEY_SIZE;
             chunk = drop start bytes
         in if start = 0
            then Some (s, \<lparr>sl_offset = 0, sl_length = 0, sl_ptr = sl_ptr s\<rparr>)
            else
              (let tail = wrapping_add (sl_offset s) (sl_length s);
                   len = length chunk * 8 - unat (u3_neg tail)
               in Some (\<lparr>sl_offset = 0, sl_length = len, sl_ptr = drop start (sl_ptr s)\<rparr>,
                        s\<lparr>sl_length := sl_length s - len\<rparr>))))"

lemma chunks_next_back_less:
  assumes "chunks_next_back s = Some (k, s')" shows "sl_length s' < sl_length s"
proof -
  let ?start = "(length (slice_bytes s) - 1) div 34 * 34"
  have ne: "slice_bytes s \<noteq> []" using assms by (auto simp: chunks_next_back_def Let_def split: if_splits)
  then have pos: "0 < sl_length s"
    by (cases "sl_length s") (auto simp: slice_bytes_def slice_bytes_len_def)
  have "?start < length (slice_bytes s)" using ne
    by (metis One_nat_def Suc_pred div_times_less_eq_dividend le_imp_less_Suc length_greater_0_conv)
  then have "8 \<le> length (drop ?start (slice_bytes s)) * 8" by simp
  moreover have "unat (u3_neg (wrapping_add (sl_offset s) (sl_length s))) < 8" by simp
  ultimately have "0 < length (drop ?start (slice_bytes s)) * 8
      - unat (u3_neg (wrapping_add (sl_offset s) (sl_length s)))" by linarith
  then show ?thesis using assms pos
    by (auto simp: chunks_next_back_def Let_def MAX_EXTENSION_KEY_SIZE_def split: if_splits)
qed

text \<open>\<open>key.chunks().rev()\<close>: the chunks from the last to the first.\<close>

function chunks_rev :: "slice \<Rightarrow> slice list" where
  "chunks_rev s = (case chunks_next_back s of None \<Rightarrow> [] | Some (k, s') \<Rightarrow> k # chunks_rev s')"
  by pat_completeness auto
termination
  by (relation "measure sl_length") (auto dest: chunks_next_back_less)

lemma chunks_next_less: "chunks_next s = Some (k, s') \<Longrightarrow> sl_length s' < sl_length s"
  by (auto simp: chunks_next_def Let_def pop_front_slice_eq split_at_def checked_sub_def split: if_splits)

text \<open>\<open>key.chunks().collect()\<close>.\<close>

function chunks :: "slice \<Rightarrow> slice list" where
  "chunks s = (case chunks_next s of None \<Rightarrow> [] | Some (k, s') \<Rightarrow> k # chunks s')"
  by pat_completeness auto
termination
  by (relation "measure sl_length") (auto dest: chunks_next_less)

declare chunks_rev.simps [simp del] chunks.simps [simp del]

section \<open>The binary form\<close>

lemma u16_num_tag:
  assumes "u16_to_be_bytes (num XOR push_bit 8 (ucast tag)) = [h, l]"
  shows "u16_from_be_bytes (h XOR tag) l = num"
proof -
  have h: "h = ucast (drop_bit 8 (num XOR push_bit 8 (ucast tag)))"
    and l: "l = ucast (num XOR push_bit 8 (ucast tag))"
    using assms by (auto simp: u16_to_be_bytes_def)
  show ?thesis
    by (rule bit_word_eqI)
      (auto simp: h l u16_from_be_bytes_def bit_simps)
qed

lemma u16_tag_num:
  "u16_to_be_bytes (u16_from_be_bytes (h XOR tag) l XOR push_bit 8 (ucast tag)) = [h, l]"
proof -
  let ?w = "u16_from_be_bytes (h XOR tag) l XOR push_bit 8 (ucast tag)"
  have "ucast (drop_bit 8 ?w) = h"
    by (rule byte_eqI) (auto simp: u16_from_be_bytes_def bit_simps dest: bit_imp_le_length)
  moreover have "ucast ?w = l" by (rule byte_eqI) (auto simp: u16_from_be_bytes_def bit_simps)
  ultimately show ?thesis by (simp add: u16_to_be_bytes_def)
qed

lemma unat_num:
  assumes "len < 2 ^ 13" and "off < 8"
  shows "unat (push_bit 3 (word_of_nat len) OR word_of_nat off :: 16 word) = 8 * len + off"
proof -
  have b: "\<not> bit (push_bit 3 (word_of_nat len) :: 16 word) n \<or> \<not> bit (word_of_nat off :: 16 word) n" for n
  proof (cases "n < 3")
    case False
    then have "(2 :: nat) ^ 3 \<le> 2 ^ n" by (intro power_increasing) auto
    then have "off < 2 ^ n" using assms(2) by simp
    then have "\<not> bit off n" by (simp add: bit_iff_odd)
    then show ?thesis by (simp add: bit_simps)
  qed (simp add: bit_simps)
  have "(push_bit 3 (word_of_nat len) OR word_of_nat off :: 16 word) =
      push_bit 3 (word_of_nat len) + word_of_nat off"
    by (rule disjunctive_add[symmetric]) (rule b)
  also have "\<dots> = word_of_nat (8 * len + off)" by (simp add: push_bit_eq_mult)
  finally show ?thesis using assms by (simp only: unat_of_nat) simp
qed

lemma divmod_num: "off < 8 \<Longrightarrow> u3_divmod (8 * len + off) = (len, word_of_nat off)"
proof -
  assume "off < 8"
  moreover have "u3_wrap (8 * len + off) = word_of_nat off"
    unfolding u3_wrap_mod u3_eq_iff unat_u3_of_nat by simp
  ultimately show ?thesis by (simp add: u3_divmod_def)
qed

text \<open>The bytes of a key with the bits outside of the key cleared.\<close>

definition masked_bytes :: "slice \<Rightarrow> byte list" where
  "masked_bytes k =
     (let bs = slice_bytes k; (front, back) = masks (sl_offset k) (sl_length k);
          bs = bs[0 := bs ! 0 AND front]
      in bs[length bs - 1 := bs ! (length bs - 1) AND back])"

lemma encode_into_eq:
  "encode_into k tag =
     (encode_num k tag @ masked_bytes k @ replicate (34 - length (slice_bytes k)) 0,
      2 + length (slice_bytes k))"
  by (simp add: encode_into_def masked_bytes_def Let_def case_prod_unfold)

lemma length_masked_bytes [simp]: "length (masked_bytes k) = length (slice_bytes k)"
  by (simp add: masked_bytes_def Let_def case_prod_unfold)

lemma nth_masked_bytes:
  assumes "i < length (slice_bytes k)"
  shows "masked_bytes k ! i =
    slice_bytes k ! i AND byte_mask (sl_offset k) (sl_length k) (length (slice_bytes k)) i"
  using assms by (auto simp: masked_bytes_def byte_mask_def Let_def case_prod_unfold nth_list_update
      and.assoc)

lemma slice_bytes_length_pos:
  "slice_inv k \<Longrightarrow> 0 < sl_length k \<Longrightarrow>
     length (slice_bytes k) = (unat (sl_offset k) + sl_length k + 7) div 8"
  by (simp add: length_slice_bytes slice_bytes_len_def bytes_len_pos)

lemma bit_at_masked_bytes:
  assumes k: "slice_inv k" "0 < sl_length k" and j: "j < 8 * length (slice_bytes k)"
  shows "bit_at (masked_bytes k) j \<longleftrightarrow> unat (sl_offset k) \<le> j \<and>
     j < unat (sl_offset k) + sl_length k \<and> bit_at (slice_bytes k) j"
proof -
  define n where "n = length (slice_bytes k)"
  have n: "n = (unat (sl_offset k) + sl_length k + 7) div 8"
    unfolding n_def by (rule slice_bytes_length_pos[OF k])
  have q: "j div 8 < n" using j by (simp add: n_def less_mult_imp_div_less mult.commute)
  have "bit (byte_mask (sl_offset k) (sl_length k) n (j div 8)) (7 - j mod 8) \<longleftrightarrow>
      unat (sl_offset k) \<le> 8 * (j div 8) + j mod 8 \<and>
      8 * (j div 8) + j mod 8 < unat (sl_offset k) + sl_length k"
    by (rule bit_byte_mask[OF _ q n k(2)]) simp
  then show ?thesis
    using nth_masked_bytes[of "j div 8" k] q by (auto simp: bit_at_def n_def bit_and_iff)
qed

lemma masked_bytes_cong:
  assumes k: "slice_inv k" "0 < sl_length k" and l: "slice_inv l"
    and eq: "sl_offset k = sl_offset l" "slice_bits k = slice_bits l"
  shows "masked_bytes k = masked_bytes l"
proof (rule byte_list_eqI)
  have len: "sl_length k = sl_length l" using eq(2) by (metis length_slice_bits)
  have bl: "length (slice_bytes k) = length (slice_bytes l)"
    using k l eq(1) len by (simp add: length_slice_bytes slice_bytes_len_def)
  then show "length (masked_bytes k) = length (masked_bytes l)" by simp
  fix j assume "j < 8 * length (masked_bytes k)"
  then have j: "j < 8 * length (slice_bytes k)" "j < 8 * length (slice_bytes l)" using bl by simp_all
  have "bit_at (slice_bytes k) j = bit_at (slice_bytes l) j"
    if r: "unat (sl_offset k) \<le> j" "j < unat (sl_offset k) + sl_length k"
  proof -
    define i where "i = j - unat (sl_offset k)"
    have "j = unat (sl_offset k) + i" "i < sl_length k" using r by (auto simp: i_def)
    then show ?thesis
      using bit_at_slice_bytes[of i k] bit_at_slice_bytes[of i l] eq len by simp
  qed
  then show "bit_at (masked_bytes k) j = bit_at (masked_bytes l) j"
    unfolding bit_at_masked_bytes[OF k j(1)] bit_at_masked_bytes[OF l k(2)[unfolded len] j(2)]
    using eq(1) len by metis
qed

lemma and_not_eq_0: "(b AND NOT m :: byte) = 0 \<longleftrightarrow> b AND m = b"
  by (auto simp: bit_eq_iff bit_and_iff bit_not_iff)

lemma masked_bytes_id:
  assumes s: "slice_inv s" and pos: "0 < sl_length s"
  shows "masked_bytes s = slice_bytes s \<longleftrightarrow>
      (first_or_default (slice_bytes s) AND NOT (fst (masks (sl_offset s) (sl_length s)))) = 0 \<and>
      (last_or_default (slice_bytes s) AND NOT (snd (masks (sl_offset s) (sl_length s)))) = 0"
proof -
  let ?u = "slice_bytes s" and ?f = "fst (masks (sl_offset s) (sl_length s))"
    and ?b = "snd (masks (sl_offset s) (sl_length s))"
  define n where "n = length ?u"
  define mk where "mk = byte_mask (sl_offset s) (sl_length s) n"
  have n1: "1 \<le> n" using slice_bytes_length_pos[OF assms] pos by (simp add: n_def)
  then have ends: "first_or_default ?u = ?u ! 0" "last_or_default ?u = ?u ! (n - 1)"
    by (cases ?u; simp add: n_def first_or_default_def last_or_default_def last_conv_nth)+
  have all: "masked_bytes s = ?u \<longleftrightarrow> (\<forall>i<n. ?u ! i AND mk i = ?u ! i)"
    unfolding list_eq_iff_nth_eq by (simp add: nth_masked_bytes mk_def n_def)
  show ?thesis
  proof (cases "n = 1")
    case True
    then have "mk 0 = ?f AND ?b" by (simp add: mk_def byte_mask_def)
    moreover have "x AND (?f AND ?b) = x \<longleftrightarrow> x AND ?f = x \<and> x AND ?b = x" for x
      by (auto simp: bit_eq_iff bit_and_iff)
    ultimately show ?thesis using True by (simp add: all ends and_not_eq_0)
  next
    case False
    then have n2: "2 \<le> n" using n1 by simp
    have "mk 0 = ?f" "mk (n - 1) = ?b" "\<forall>i<n - 2. mk (Suc i) = - 1"
      using n2 by (auto simp: mk_def byte_mask_def)
    then show ?thesis by (simp add: all ends all_split_ends[OF n2] and_not_eq_0)
  qed
qed

text \<open>The zero check accepts exactly the masked bytes followed by zeros.\<close>

lemma new_check_zeros_iff:
  assumes "0 < len" and "len < 2 ^ 16"
  shows "new_check_zeros bytes off len = Some s \<longleftrightarrow>
    slice_new bytes off len = Some s \<and>
    (\<exists>m. bytes = masked_bytes s @ replicate m 0)"
proof (cases "slice_new bytes off len = Some s")
  case False
  then show ?thesis
    by (auto simp: new_check_zeros_def Let_def case_prod_unfold split: option.splits if_splits)
next
  case True
  note sn = slice_new_Some[OF True assms(2)]
  let ?u = "slice_bytes s"
  have ptr: "sl_ptr s = bytes" using True by (auto simp: slice_new_def split: if_splits)
  have n: "length ?u = (unat off + len + 7) div 8"
    using slice_bytes_length_pos[of s] sn assms(1) by simp
  then have ne: "?u \<noteq> []" using assms(1) by auto
  have split: "bytes = ?u @ drop (length ?u) bytes"
    using ptr sn(1) by (simp add: slice_bytes_def slice_inv_def)
  have zeros: "list_all (\<lambda>b. b = 0) zs \<longleftrightarrow> zs = replicate (length zs) 0" for zs :: "byte list"
    by (induction zs) auto
  have "new_check_zeros bytes off len = Some s \<longleftrightarrow>
      masked_bytes s = ?u \<and> list_all (\<lambda>b. b = 0) (drop (length ?u) bytes)"
    using True masked_bytes_id[OF sn(1)] sn(2,3) assms(1)
    by (auto simp: new_check_zeros_def Let_def case_prod_unfold)
  also have "\<dots> \<longleftrightarrow> (\<exists>m. bytes = masked_bytes s @ replicate m 0)"
  proof
    assume *: "masked_bytes s = ?u \<and> list_all (\<lambda>b. b = 0) (drop (length ?u) bytes)"
    then have "drop (length ?u) bytes = replicate (length (drop (length ?u) bytes)) 0"
      by (simp only: zeros)
    with * split show "\<exists>m. bytes = masked_bytes s @ replicate m 0" by metis
  next
    assume "\<exists>m. bytes = masked_bytes s @ replicate m 0"
    then obtain m where m: "?u @ drop (length ?u) bytes = masked_bytes s @ replicate m 0"
      using split by metis
    have "length ?u = length (masked_bytes s)" by simp
    then have "?u = masked_bytes s \<and> drop (length ?u) bytes = replicate m 0"
      using m append_eq_append_conv by blast
    then show "masked_bytes s = ?u \<and> list_all (\<lambda>b. b = 0) (drop (length ?u) bytes)"
      by (metis zeros length_replicate)
  qed
  finally show ?thesis using True by simp
qed


lemma ext_key_len_bound: "ext_key_inv k \<Longrightarrow> unat (sl_offset k) + sl_length k \<le> 272"
proof -
  assume "ext_key_inv k"
  then have "(unat (sl_offset k) + sl_length k + 7) div 8 \<le> 34"
    by (simp add: ext_key_inv_def slice_bytes_len_def bytes_len_def MAX_EXTENSION_KEY_SIZE_def
        split: if_splits)
  then show ?thesis by linarith
qed

lemma unat_encode_num:
  assumes "ext_key_inv k"
  shows "unat (push_bit 3 (word_of_nat (sl_length k)) OR word_of_nat (unat (sl_offset k)) :: 16 word) =
    8 * sl_length k + unat (sl_offset k)"
  using ext_key_len_bound[OF assms] by (intro unat_num) auto

lemma length_encode_num [simp, bytes_simps]: "length (encode_num k tag) = 2"
  by (simp add: encode_num_def Let_def u16_to_be_bytes_def)

lemma ext_key_bytes_length: "ext_key_inv k \<Longrightarrow> length (slice_bytes k) \<le> 34"
  by (simp add: ext_key_inv_def length_slice_bytes MAX_EXTENSION_KEY_SIZE_def)

lemma length_encode_into [bytes_simps]: "ext_key_inv k \<Longrightarrow> length (fst (encode_into k tag)) = 36"
  using ext_key_bytes_length[of k] by (simp add: encode_into_eq)

lemma ext_key_decode_num:
  assumes "ext_key_inv k"
  shows "ext_key_decode (encode_num k tag @ bytes) tag =
    (case new_check_zeros bytes (sl_offset k) (sl_length k) of
       None \<Rightarrow> None | Some s \<Rightarrow> outcome_ok (ext_key_try_from s))"
proof -
  obtain h l where hl: "encode_num k tag = [h, l]"
    by (simp add: encode_num_def Let_def u16_to_be_bytes_def)
  then have w: "u16_from_be_bytes (h XOR tag) l =
      push_bit 3 (word_of_nat (sl_length k)) OR word_of_nat (unat (sl_offset k))"
    unfolding encode_num_def Let_def by (rule u16_num_tag)
  have "u3_divmod (unat (u16_from_be_bytes (h XOR tag) l)) = (sl_length k, sl_offset k)"
    unfolding w unat_encode_num[OF assms] by (simp add: divmod_num)
  then show ?thesis
    by (simp add: ext_key_decode_def stdx_split_at_def split_at_checked_def hl)
qed

text \<open>
  Decoding the encoded form, cut anywhere after the relevant bytes, gives back a key
  with the same offset and the same bits.
\<close>

lemma decode_encode_key:
  assumes k: "ext_key_inv k" and e: "encode_into k tag = (buf, n)" and m: "n \<le> m"
  obtains k' where "ext_key_decode (take m buf) tag = Some k'" "ext_key_inv k'"
    "sl_offset k' = sl_offset k" "slice_bits k' = slice_bits k"
proof -
  have ki: "slice_inv k" "0 < sl_length k" "slice_bytes_len k \<le> 34" "sl_length k < 2 ^ 16"
    using k by (auto simp: ext_key_inv_def MAX_EXTENSION_KEY_SIZE_def slice_inv_def)
  define z where "z = take (m - n) (replicate (34 - length (slice_bytes k)) (0 :: byte))"
  define bytes where "bytes = masked_bytes k @ z"
  have z: "z = replicate (length z) 0" by (simp add: z_def)
  have buf: "take m buf = encode_num k tag @ bytes"
    using e m by (auto simp: encode_into_eq bytes_def z_def)
  have len: "bytes_len (sl_offset k) (sl_length k) \<le> length bytes"
    using ki(1) by (simp add: bytes_def length_slice_bytes slice_bytes_len_def)
  define s where "s = \<lparr>sl_offset = sl_offset k, sl_length = sl_length k, sl_ptr = bytes\<rparr>"
  have sn: "slice_new bytes (sl_offset k) (sl_length k) = Some s"
    using len by (simp add: slice_new_def s_def)
  note si = slice_new_Some[OF sn ki(4)]
  have bits: "slice_bits s = slice_bits k"
  proof (rule nth_equalityI)
    fix i assume "i < length (slice_bits s)"
    then have i: "i < sl_length k" by (simp add: si)
    have j: "unat (sl_offset k) + i < 8 * length (slice_bytes k)"
      using i slice_bytes_length_pos[OF ki(1,2)] by linarith
    have "bit_at bytes (unat (sl_offset k) + i) = bit_at (masked_bytes k) (unat (sl_offset k) + i)"
      using j by (simp add: bytes_def bit_at_append)
    also have "\<dots> = slice_bits k ! i"
      unfolding bit_at_masked_bytes[OF ki(1,2) j] using i by (simp add: bit_at_slice_bytes)
    finally show "slice_bits s ! i = slice_bits k ! i" using i by (simp add: si)
  qed (simp add: si)
  have "masked_bytes s = masked_bytes k"
    by (rule masked_bytes_cong) (use si bits ki in auto)
  then have "new_check_zeros bytes (sl_offset k) (sl_length k) = Some s"
    using new_check_zeros_iff[OF ki(2,4)] sn z unfolding bytes_def by metis
  moreover have ei: "ext_key_inv s"
    using si ki by (simp add: ext_key_inv_def slice_bytes_len_def MAX_EXTENSION_KEY_SIZE_def)
  ultimately have "ext_key_decode (take m buf) tag = Some s"
    unfolding buf ext_key_decode_num[OF k] by (simp add: outcome_ok_ext_key ext_key_inv_def)
  then show thesis using ei si(2) bits by (rule that)
qed

text \<open>Decoding accepts nothing but encodings: a key has one binary form.\<close>

lemma encode_decode_key:
  assumes "ext_key_decode src tag = Some k"
  shows "ext_key_inv k" "\<exists>m. src = encode_num k tag @ masked_bytes k @ replicate m 0"
proof -
  from assms have l2: "2 \<le> length src"
    by (auto simp: ext_key_decode_def stdx_split_at_def split_at_checked_def split: if_splits)
  then obtain h l bytes where src: "src = h # l # bytes"
    by (metis Suc_le_length_iff numeral_2_eq_2)
  define w where "w = u16_from_be_bytes (h XOR tag) l"
  define len where "len = unat w div 8"
  define off where "off = (word_of_nat (unat w mod 8) :: u3)"
  have w16: "unat w < 65536" using unsigned_less[of w] by simp
  have off8: "unat off = unat w mod 8" unfolding off_def unat_u3_of_nat by simp
  have "u3_divmod (unat w) = (len, off)"
    unfolding u3_divmod_def len_def off_def u3_wrap_mod prod.inject u3_eq_iff unat_u3_of_nat by simp
  then obtain s where cz: "new_check_zeros bytes off len = Some s"
    and k: "outcome_ok (ext_key_try_from s) = Some k"
    using assms by (auto simp: ext_key_decode_def stdx_split_at_def split_at_checked_def src w_def
        split: option.splits)
  have ks: "k = s" "0 < sl_length k" "slice_bytes_len k \<le> MAX_EXTENSION_KEY_SIZE"
    using k by (auto simp: outcome_ok_ext_key split: if_splits)
  have sn: "slice_new bytes off len = Some k"
    using cz by (auto simp: new_check_zeros_def ks(1) Let_def case_prod_unfold split: option.splits if_splits)
  have len16: "len < 2 ^ 16" using w16 by (simp add: len_def)
  note si = slice_new_Some[OF sn len16]
  have pos: "0 < len" using ks(2) si(3) by simp
  show inv: "ext_key_inv k" using si ks by (simp add: ext_key_inv_def)
  have "unat (push_bit 3 (word_of_nat len) OR word_of_nat (unat off) :: 16 word) = unat w"
    using w16 by (subst unat_num) (simp_all add: len_def off8)
  then have wk: "push_bit 3 (word_of_nat (sl_length k)) OR word_of_nat (unat (sl_offset k)) = w"
    using si by (simp add: word_unat_eq_iff)
  have "encode_num k tag = [h, l]"
    unfolding encode_num_def Let_def wk unfolding w_def by (rule u16_tag_num)
  moreover have "\<exists>m. bytes = masked_bytes k @ replicate m 0"
    using cz new_check_zeros_iff[OF pos len16] ks(1) by metis
  ultimately show "\<exists>m. src = encode_num k tag @ masked_bytes k @ replicate m 0"
    by (auto simp: src)
qed

lemma encode_decode_key_36:
  assumes "ext_key_decode src tag = Some k" and "length src = 36"
  shows "fst (encode_into k tag) = src"
proof -
  note d = encode_decode_key[OF assms(1)]
  from d(2) obtain m where m: "src = encode_num k tag @ masked_bytes k @ replicate m 0" by blast
  then have "m = 34 - length (slice_bytes k)" using assms(2) by simp
  then show ?thesis by (simp add: encode_into_eq m)
qed

lemma encode_into_cong:
  assumes "ext_key_inv k" "ext_key_inv l" "sl_offset k = sl_offset l" "slice_bits k = slice_bits l"
  shows "encode_into k tag = encode_into l tag"
proof -
  have len: "sl_length k = sl_length l" using assms(4) by (metis length_slice_bits)
  have "masked_bytes k = masked_bytes l"
    by (rule masked_bytes_cong) (use assms in \<open>auto simp: ext_key_inv_def\<close>)
  moreover have "length (slice_bytes k) = length (slice_bytes l)"
    using assms len by (simp add: ext_key_inv_def length_slice_bytes slice_bytes_len_def)
  ultimately show ?thesis using assms(3) len by (simp add: encode_into_eq encode_num_def)
qed

lemma encode_into_inject:
  assumes "ext_key_inv k" "ext_key_inv l" "encode_into k tag = encode_into l tag"
  shows "sl_offset k = sl_offset l \<and> slice_bits k = slice_bits l"
proof -
  obtain buf n where e: "encode_into k tag = (buf, n)" by fastforce
  obtain k' where "ext_key_decode (take n buf) tag = Some k'" "sl_offset k' = sl_offset k"
    "slice_bits k' = slice_bits k" using decode_encode_key[OF assms(1) e order.refl] by metis
  moreover obtain l' where "ext_key_decode (take n buf) tag = Some l'" "sl_offset l' = sl_offset l"
    "slice_bits l' = slice_bits l"
    using decode_encode_key[OF assms(2) e[unfolded assms(3)] order.refl] by metis
  ultimately show ?thesis by simp
qed

section \<open>Chunks spell the slice\<close>

fun key_chain :: "u3 \<Rightarrow> slice list \<Rightarrow> bool" where
  "key_chain off [] \<longleftrightarrow> True"
| "key_chain off (k # ks) \<longleftrightarrow>
     sl_offset k = off \<and> ext_key_inv k \<and> key_chain (wrapping_add off (sl_length k)) ks"

definition keys_bits :: "slice list \<Rightarrow> bool list" where
  "keys_bits ks = concat (map slice_bits ks)"

lemma keys_bits_simps [simp]:
  "keys_bits [] = []" "keys_bits (k # ks) = slice_bits k @ keys_bits ks"
  "keys_bits (ks @ ls) = keys_bits ks @ keys_bits ls"
  by (simp_all add: keys_bits_def)

lemma key_chain_append:
  "key_chain off (ks @ ls) \<longleftrightarrow>
     key_chain off ks \<and> key_chain (wrapping_add off (length (keys_bits ks))) ls"
  by (induction off ks rule: key_chain.induct) (auto simp: wrapping_add_add)

lemma bytes_len_le_34:
  "unat off + len \<le> 272 \<Longrightarrow> bytes_len off len \<le> MAX_EXTENSION_KEY_SIZE"
  by (auto simp: bytes_len_def MAX_EXTENSION_KEY_SIZE_def)

lemma chunks_next_Some:
  assumes "slice_inv s" and "chunks_next s = Some (k, s')"
  shows "ext_key_inv k" "slice_inv s'" "sl_offset k = sl_offset s"
    "sl_offset s' = wrapping_add (sl_offset s) (sl_length k)"
    "slice_bits s = slice_bits k @ slice_bits s'"
proof -
  define n where "n = min (272 - unat (sl_offset s)) (sl_length s)"
  have n: "0 < n" and sp: "split_at s n = Some (k, s')"
    using assms(2)
    by (auto simp: chunks_next_def Let_def MAX_EXTENSION_KEY_SIZE_def pop_front_slice_eq n_def
        split: if_splits)
  note st = split_at_Some[OF assms(1) sp]
  have "unat (sl_offset s) + n \<le> 272"
    using u3_less[of "sl_offset s"] by (simp add: n_def del: u3_less)
  then show "ext_key_inv k"
    using st n by (simp add: ext_key_inv_def slice_bytes_len_def bytes_len_le_34)
  show "slice_inv s'" "sl_offset k = sl_offset s"
    "sl_offset s' = wrapping_add (sl_offset s) (sl_length k)"
    "slice_bits s = slice_bits k @ slice_bits s'"
    using st by simp_all
qed

lemma chunks_next_None: "chunks_next s = None \<longleftrightarrow> sl_length s = 0"
proof -
  have "0 < 272 - unat (sl_offset s)" using u3_less[of "sl_offset s"] by (simp del: u3_less)
  then show ?thesis
    by (auto simp: chunks_next_def Let_def MAX_EXTENSION_KEY_SIZE_def pop_front_slice_eq split_at_None)
qed

lemma chunks_spec:
  "slice_inv s \<Longrightarrow> key_chain (sl_offset s) (chunks s) \<and> keys_bits (chunks s) = slice_bits s"
proof (induction s rule: chunks.induct)
  case (1 s)
  show ?case
  proof (cases "chunks_next s")
    case None
    then show ?thesis using chunks_next_None[of s] slice_bits_eq_Nil[of s]
      by (simp del: slice_bits_eq_Nil add: chunks.simps[of s])
  next
    case (Some p)
    obtain k s' where p: "p = (k, s')" by fastforce
    note c = chunks_next_Some[OF 1(2) Some[unfolded p]]
    show ?thesis using 1(1)[OF Some p[symmetric] c(2)] c Some p by (simp add: chunks.simps[of s])
  qed
qed

lemma end_of_slice:
  assumes "slice_inv s" and "0 < sl_length s"
  shows "8 * length (slice_bytes s) = unat (sl_offset s) + sl_length s +
    unat (u3_neg (wrapping_add (sl_offset s) (sl_length s)))"
proof -
  define e where "e = unat (sl_offset s) + sl_length s"
  have n: "length (slice_bytes s) = (e + 7) div 8"
    using slice_bytes_length_pos[OF assms] by (simp add: e_def)
  have t: "unat (u3_neg (wrapping_add (sl_offset s) (sl_length s))) = (8 - e mod 8) mod 8"
    by (simp add: unat_tail e_def)
  show ?thesis unfolding n t e_def[symmetric]
  proof (cases "e mod 8 = 0")
    case False
    then have r: "(8 - e mod 8) mod 8 = 8 - e mod 8" by simp
    have "e + 7 = 8 * (e div 8 + 1) + (e mod 8 - 1)" "e mod 8 - 1 < 8"
      using False by (simp_all add: less_imp_diff_less)
    then have "(e + 7) div 8 = e div 8 + 1"
      by (metis div_less div_mult_self4 add.right_neutral zero_neq_numeral)
    then show "8 * ((e + 7) div 8) = e + (8 - e mod 8) mod 8"
      unfolding r using mult_div_mod_eq[of 8 e] mod_less_divisor[of 8 e] by linarith
  qed (auto elim!: dvdE)
qed

lemma chunks_next_back_split:
  assumes s: "slice_inv s" and ne: "slice_bytes s \<noteq> []"
  defines "start \<equiv> (length (slice_bytes s) - 1) div 34 * 34"
  assumes pos: "0 < start"
  obtains k s' where "chunks_next_back s = Some (k, s')"
    "split_at s (8 * start - unat (sl_offset s)) = Some (s', k)" "ext_key_inv k"
proof -
  define n where "n = length (slice_bytes s)"
  define t where "t = unat (u3_neg (wrapping_add (sl_offset s) (sl_length s)))"
  have len: "0 < sl_length s"
    using ne by (cases "sl_length s") (auto simp: slice_bytes_def slice_bytes_len_def)
  have e: "8 * n = unat (sl_offset s) + sl_length s + t"
    unfolding n_def t_def by (rule end_of_slice[OF s len])
  have t8: "t < 8" and o8: "unat (sl_offset s) < 8" by (simp_all add: t_def)
  have n0: "0 < n" using ne by (simp add: n_def)
  then have n1: "start < n" "n \<le> start + 34" unfolding start_def n_def[symmetric] by linarith+
  have s34: "34 \<le> start" using pos unfolding start_def by simp
  define c where "c = 8 * (n - start) - t"
  have c: "sl_length s - c = 8 * start - unat (sl_offset s)" "c \<le> sl_length s" "0 < c"
    "c \<le> 272" "sl_length s - (8 * start - unat (sl_offset s)) = c"
    "8 * start - unat (sl_offset s) \<le> sl_length s"
    unfolding c_def using e t8 o8 n1 s34 by linarith+
  have o1: "unat (sl_offset s) + (8 * start - unat (sl_offset s)) = 8 * start"
    using o8 s34 by linarith
  define k where "k = \<lparr>sl_offset = 0, sl_length = c, sl_ptr = drop start (sl_ptr s)\<rparr>"
  have cb: "chunks_next_back s = Some (k, s\<lparr>sl_length := sl_length s - c\<rparr>)"
    using ne pos unfolding chunks_next_back_def Let_def MAX_EXTENSION_KEY_SIZE_def start_def[symmetric]
    by (simp add: k_def c_def t_def n_def mult.commute)
  have "wrapping_add (sl_offset s) (8 * start - unat (sl_offset s)) = 0"
    by (simp add: u3_eq_iff o1)
  then have sp: "split_at s (8 * start - unat (sl_offset s)) = Some (s\<lparr>sl_length := sl_length s - c\<rparr>, k)"
    using c o1 by (simp add: split_at_def checked_sub_def k_def)
  have "slice_inv k" by (rule split_at_Some(2)[OF s sp])
  then have "ext_key_inv k"
    using c by (simp add: ext_key_inv_def k_def slice_bytes_len_def bytes_len_le_34)
  with cb sp show thesis by (rule that)
qed

lemma chunks_next_back_Some:
  assumes "slice_inv s" and "chunks_next_back s = Some (k, s')"
  shows "ext_key_inv k" "slice_inv s'" "slice_bits s = slice_bits s' @ slice_bits k"
    "sl_length s' = 0 \<and> k = s \<or>
     sl_offset s' = sl_offset s \<and> sl_offset k = wrapping_add (sl_offset s) (sl_length s')"
proof -
  let ?start = "(length (slice_bytes s) - 1) div 34 * 34"
  have ne: "slice_bytes s \<noteq> []"
    using assms(2) by (auto simp: chunks_next_back_def Let_def split: if_splits)
  then have len: "0 < sl_length s"
    by (cases "sl_length s") (auto simp: slice_bytes_def slice_bytes_len_def)
  have "ext_key_inv k \<and> slice_inv s' \<and> slice_bits s = slice_bits s' @ slice_bits k \<and>
    (sl_length s' = 0 \<and> k = s \<or>
     sl_offset s' = sl_offset s \<and> sl_offset k = wrapping_add (sl_offset s) (sl_length s'))"
  proof (cases "?start = 0")
    case True
    then have ks: "k = s" "s' = \<lparr>sl_offset = 0, sl_length = 0, sl_ptr = sl_ptr s\<rparr>"
      using assms(2) ne by (auto simp: chunks_next_back_def Let_def MAX_EXTENSION_KEY_SIZE_def)
    have "length (slice_bytes s) - 1 < 34" using True by simp
    then have "length (slice_bytes s) \<le> 34" by linarith
    then have "ext_key_inv k"
      using assms(1) len by (simp add: ks ext_key_inv_def length_slice_bytes MAX_EXTENSION_KEY_SIZE_def)
    then show ?thesis by (simp add: ks slice_inv_def slice_bytes_len_def slice_bits_def)
  next
    case False
    then have "0 < ?start" by linarith
    from chunks_next_back_split[OF assms(1) ne this]
    obtain h t where "chunks_next_back s = Some (t, h)"
      "split_at s (8 * ?start - unat (sl_offset s)) = Some (h, t)" "ext_key_inv t" .
    then have sp: "split_at s (8 * ?start - unat (sl_offset s)) = Some (s', k)" and "ext_key_inv k"
      using assms(2) by auto
    then show ?thesis using split_at_Some[OF assms(1) sp] by simp
  qed
  then show "ext_key_inv k" "slice_inv s'" "slice_bits s = slice_bits s' @ slice_bits k"
    "sl_length s' = 0 \<and> k = s \<or>
     sl_offset s' = sl_offset s \<and> sl_offset k = wrapping_add (sl_offset s) (sl_length s')"
    by blast+
qed

lemma chunks_next_back_None: "slice_inv s \<Longrightarrow> chunks_next_back s = None \<longleftrightarrow> sl_length s = 0"
proof -
  assume s: "slice_inv s"
  have "slice_bytes s = [] \<longleftrightarrow> sl_length s = 0"
    using s length_slice_bytes[OF s]
    by (cases "sl_length s = 0") (auto simp: slice_bytes_len_def bytes_len_def simp flip: length_0_conv)
  then show ?thesis by (auto simp: chunks_next_back_def Let_def)
qed

lemma chunks_rev_empty: "slice_inv s \<Longrightarrow> sl_length s = 0 \<Longrightarrow> chunks_rev s = []"
  using chunks_next_back_None[of s] by (simp add: chunks_rev.simps[of s])

text \<open>The chunks taken from the back, put in order, are valid keys that spell the slice.\<close>

lemma chunks_rev_spec:
  "slice_inv s \<Longrightarrow>
     key_chain (sl_offset s) (rev (chunks_rev s)) \<and> keys_bits (rev (chunks_rev s)) = slice_bits s"
proof (induction s rule: chunks_rev.induct)
  case (1 s)
  show ?case
  proof (cases "chunks_next_back s")
    case None
    then show ?thesis
      using chunks_next_back_None[OF 1(2)] slice_bits_eq_Nil[of s]
      by (simp del: slice_bits_eq_Nil add: chunks_rev.simps[of s])
  next
    case (Some p)
    obtain k s' where p: "p = (k, s')" by fastforce
    note c = chunks_next_back_Some[OF 1(2) Some[unfolded p]]
    have cr: "chunks_rev s = k # chunks_rev s'" using Some p by (simp add: chunks_rev.simps[of s])
    note IH = 1(1)[OF Some p[symmetric] c(2)]
    show ?thesis
    proof (cases "sl_length s' = 0 \<and> k = s")
      case True
      then show ?thesis using c(1) by (simp add: cr chunks_rev_empty[OF c(2)])
    next
      case False
      then have "sl_offset s' = sl_offset s" "sl_offset k = wrapping_add (sl_offset s) (sl_length s')"
        using c(4) by auto
      then show ?thesis using IH c by (simp add: cr key_chain_append)
    qed
  qed
qed

text \<open>The size that the iterator reports is the number of chunks it yields.\<close>

lemma chunks_len_eq: "slice_inv s \<Longrightarrow> chunks_len s = (slice_bytes_len s + 33) div 34"
  by (simp add: chunks_len_def MAX_EXTENSION_KEY_SIZE_def length_slice_bytes)

lemma chunks_next_back_bytes:
  assumes s: "slice_inv s" and c: "chunks_next_back s = Some (k, s')"
  shows "slice_bytes_len s' = (slice_bytes_len s - 1) div 34 * 34" "0 < slice_bytes_len s"
proof -
  let ?start = "(length (slice_bytes s) - 1) div 34 * 34"
  have ne: "slice_bytes s \<noteq> []" using c by (auto simp: chunks_next_back_def Let_def split: if_splits)
  have n: "length (slice_bytes s) = slice_bytes_len s" by (rule length_slice_bytes[OF s])
  show "0 < slice_bytes_len s" using ne n by (metis length_greater_0_conv)
  show "slice_bytes_len s' = (slice_bytes_len s - 1) div 34 * 34"
  proof (cases "?start = 0")
    case True
    then have "s' = \<lparr>sl_offset = 0, sl_length = 0, sl_ptr = sl_ptr s\<rparr>"
      using c ne by (auto simp: chunks_next_back_def Let_def MAX_EXTENSION_KEY_SIZE_def)
    then show ?thesis using True n by (simp add: slice_bytes_len_def)
  next
    case False
    then have pos: "0 < ?start" by linarith
    from chunks_next_back_split[OF s ne pos] obtain h t where
      ht: "chunks_next_back s = Some (t, h)" "split_at s (8 * ?start - unat (sl_offset s)) = Some (h, t)" .
    have o8: "unat (sl_offset s) < 8" by simp
    have "sl_length s' = 8 * ?start - unat (sl_offset s)" "sl_offset s' = sl_offset s"
      using ht c by (auto simp: split_at_def checked_sub_def split: if_splits)
    moreover have "unat (sl_offset s) + (8 * ?start - unat (sl_offset s)) = 8 * ?start" using o8 pos by linarith
    moreover have "8 * ?start - unat (sl_offset s) \<noteq> 0" using o8 pos by linarith
    moreover have "(8 * x + 7) div 8 = x" for x :: nat by simp
    ultimately have "slice_bytes_len s' = ?start" unfolding slice_bytes_len_def bytes_len_def by presburger
    then show ?thesis by (simp add: n)
  qed
qed

lemma length_chunks_rev: "slice_inv s \<Longrightarrow> length (chunks_rev s) = chunks_len s"
proof (induction s rule: chunks_rev.induct)
  case (1 s)
  show ?case
  proof (cases "chunks_next_back s")
    case None
    then have "sl_length s = 0" using chunks_next_back_None[OF 1(2)] by simp
    then show ?thesis using 1(2) by (simp add: chunks_rev_empty chunks_len_eq slice_bytes_len_def)
  next
    case (Some p)
    obtain k s' where p: "p = (k, s')" by fastforce
    note c = chunks_next_back_Some[OF 1(2) Some[unfolded p]]
    note b = chunks_next_back_bytes[OF 1(2) Some[unfolded p]]
    have "length (chunks_rev s) = Suc (chunks_len s')"
      using 1(1)[OF Some p[symmetric] c(2)] Some p by (simp add: chunks_rev.simps[of s])
    also have "chunks_len s' = (slice_bytes_len s - 1) div 34" by (simp add: chunks_len_eq[OF c(2)] b(1))
    also have "Suc \<dots> = chunks_len s" using b(2) chunks_len_eq[OF 1(2)] by (cases "slice_bytes_len s") simp_all
    finally show ?thesis .
  qed
qed

lemma bytes_len_append: "bytes_len off (a + b) \<le> bytes_len off a + bytes_len (wrapping_add off a) b"
proof (cases "a = 0 \<or> b = 0")
  case False
  define q where "q = (unat off + a) div 8"
  define r where "r = (unat off + a) mod 8"
  have e: "unat off + a = 8 * q + r" "r < 8" by (simp_all add: q_def r_def)
  have "(unat off + (a + b) + 7) div 8 = q + (r + b + 7) div 8"
    using e(1) by (simp add: add.assoc[symmetric])
  moreover have "q \<le> (unat off + a + 7) div 8" using e(1) by simp
  ultimately show ?thesis using False by (simp add: bytes_len_def r_def)
qed auto

section \<open>Properties\<close>

text \<open>
  an extension key written with \<open>encode_into\<close> and read with \<open>decode\<close>, from
  the bytes it reports as used or from the whole buffer, is the same key.
\<close>

lemma ext_key_roundtrip:
  assumes "ext_key_inv k" "encode_into k tag = (buf, n)" "n \<le> m"
  shows "\<exists>k'. ext_key_decode (take m buf) tag = Some k' \<and> ext_key_inv k' \<and>
    sl_offset k' = sl_offset k \<and> slice_bits k' = slice_bits k"
  by (rule decode_encode_key[OF assms]) blast



end
