(* ===== verification/Memory.thy ===== *)
theory Memory
  imports Prelude
begin

unbundle bit_operations_syntax

text \<open>
  Pointers, the \<open>Allocator\<close> interface and the write log of
  \<^verbatim>\<open>common/memory/src/lib.rs\<close>. An implementation of the trait is a record of
  operations on its state; the locale \<open>allocator\<close> states what the clients rely
  on, in terms of the map \<open>live\<close> from allocated pointers to their values. The
  write log implements the same contract on the memory it would commit, while the
  underlying allocator keeps the old values until then; dropping the log restores
  the allocator.
\<close>

section \<open>Pointers\<close>

type_synonym ptr = "32 word"

definition PTR_MAX :: "32 word" where
  "PTR_MAX = drop_bit 2 0xFFFFFFFF"

datatype address_too_large = AddressTooLarge "32 word"

definition ptr_new :: "32 word \<Rightarrow> (address_too_large, ptr option) outcome" where
  "ptr_new p = (if p = 0 then Ok None
                else if p \<le> PTR_MAX then Ok (Some p) else Err (AddressTooLarge p))"

definition ptr_new_truncated :: "32 word \<Rightarrow> ptr option" where
  "ptr_new_truncated p = (let q = p AND PTR_MAX in if q = 0 then None else Some q)"

text \<open>The argument of \<open>try_from\<close> is a \<open>NonZeroU32\<close>.\<close>

definition ptr_try_from :: "32 word \<Rightarrow> (address_too_large, ptr) outcome" where
  "ptr_try_from p = (if p \<le> PTR_MAX then Ok p else Err (AddressTooLarge p))"

definition valid_ptr :: "ptr \<Rightarrow> bool" where
  "valid_ptr p \<longleftrightarrow> p \<noteq> 0 \<and> p \<le> PTR_MAX"

lemma PTR_MAX_mask: "PTR_MAX = mask 30"
  by (simp add: PTR_MAX_def mask_eq_exp_minus_1)

lemma valid_ptr_less: "valid_ptr p \<Longrightarrow> unat p < 2 ^ 30"
  by (simp add: valid_ptr_def PTR_MAX_def word_le_nat_alt)

lemma valid_ptr_bit:
  assumes "p \<le> PTR_MAX" and "30 \<le> n" shows "\<not> bit p n"
proof -
  have "unat p < 2 ^ 30" using assms(1) by (simp add: PTR_MAX_def word_le_nat_alt)
  also have "(2 :: nat) ^ 30 \<le> 2 ^ n" using assms(2) by (intro power_increasing) auto
  finally have "\<not> bit (unat p) n" by (simp add: bit_iff_odd)
  then show ?thesis by (simp add: bit_unsigned_iff)
qed

lemma ptr_new_valid: "ptr_new p = Ok (Some q) \<longleftrightarrow> q = p \<and> valid_ptr p"
  by (auto simp: ptr_new_def valid_ptr_def)

lemma ptr_new_truncated_valid: "ptr_new_truncated p = Some q \<Longrightarrow> valid_ptr q"
  by (auto simp: ptr_new_truncated_def Let_def valid_ptr_def PTR_MAX_mask word_and_le1 split: if_splits)

section \<open>Computations with state\<close>

text \<open>
  A fallible method with \<open>&mut self\<close>: the state is returned on every path, since
  an early return through \<open>?\<close> keeps what was done before it.
\<close>

type_synonym ('w, 'e, 'a) stateful = "'w \<Rightarrow> 'w \<times> ('e, 'a) outcome"

definition st_return :: "'a \<Rightarrow> ('w, 'e, 'a) stateful" where
  "st_return a w = (w, Ok a)"

definition st_lift :: "('e, 'a) outcome \<Rightarrow> ('w, 'e, 'a) stateful" where
  "st_lift r w = (w, r)"

definition st_bind ::
  "('w, 'e, 'a) stateful \<Rightarrow> ('a \<Rightarrow> ('w, 'e, 'b) stateful) \<Rightarrow> ('w, 'e, 'b) stateful" where
  "st_bind m f w =
     (case m w of (w', Ok a) \<Rightarrow> f a w' | (w', Err e) \<Rightarrow> (w', Err e) | (w', Panic) \<Rightarrow> (w', Panic))"

definition st_modify :: "('w \<Rightarrow> 'w) \<Rightarrow> ('w, 'e, unit) stateful" where
  "st_modify f w = (f w, Ok ())"

lemma st_simps [simp]:
  "st_return a w = (w, Ok a)" "st_lift r w = (w, r)" "st_modify f w = (f w, Ok ())"
  by (simp_all add: st_return_def st_lift_def st_modify_def)

lemma st_bind_simps [simp]:
  "m w = (w', Ok a) \<Longrightarrow> st_bind m f w = f a w'"
  "m w = (w', Err e) \<Longrightarrow> st_bind m f w = (w', Err e)"
  "m w = (w', Panic) \<Longrightarrow> st_bind m f w = (w', Panic)"
  by (simp_all add: st_bind_def)

lemma st_bind_return [simp]: "st_bind (st_return a) f = f a"
  by (simp add: st_bind_def fun_eq_iff)

section \<open>The allocator interface\<close>

text \<open>
  \<open>Err ()\<close> of \<open>al_alloc\<close> is \<open>OutOfMemory\<close>; \<open>None\<close> of the
  other operations is a panic.
\<close>

record ('s, 'v) alloc_ops =
  al_alloc :: "'v \<Rightarrow> ('s, unit, ptr) stateful"
  al_get :: "'s \<Rightarrow> ptr \<Rightarrow> 'v option"
  al_set :: "'s \<Rightarrow> ptr \<Rightarrow> 'v \<Rightarrow> 's option"
  al_free :: "'s \<Rightarrow> ptr \<Rightarrow> 's option"

section \<open>The write log\<close>

record ('s, 'v) wlog =
  wl_alloc :: 's
  wl_write_log :: "(ptr \<times> 'v) list"
  wl_allocated :: "ptr list"
  wl_freed :: "ptr list"

definition wlog_new :: "'s \<Rightarrow> ('s, 'v) wlog" where
  "wlog_new s = \<lparr>wl_alloc = s, wl_write_log = [], wl_allocated = [], wl_freed = []\<rparr>"

fun set_all :: "('s, 'v) alloc_ops \<Rightarrow> (ptr \<times> 'v) list \<Rightarrow> 's \<Rightarrow> 's option" where
  "set_all ops [] s = Some s"
| "set_all ops ((p, v) # ws) s =
     (case al_set ops s p v of None \<Rightarrow> None | Some s' \<Rightarrow> set_all ops ws s')"

fun free_all :: "('s, 'v) alloc_ops \<Rightarrow> ptr list \<Rightarrow> 's \<Rightarrow> 's option" where
  "free_all ops [] s = Some s"
| "free_all ops (p # ps) s =
     (case al_free ops s p of None \<Rightarrow> None | Some s' \<Rightarrow> free_all ops ps s')"

definition wlog_drop :: "('s, 'v) alloc_ops \<Rightarrow> ('s, 'v) wlog \<Rightarrow> 's option" where
  "wlog_drop ops w = free_all ops (wl_allocated w) (wl_alloc w)"

text \<open>
  \<open>commit\<close> consumes the log, which is dropped on return with all three vectors
  empty.
\<close>

definition wlog_commit :: "('s, 'v) alloc_ops \<Rightarrow> ('s, 'v) wlog \<Rightarrow> 's option" where
  "wlog_commit ops w =
     (let w = w\<lparr>wl_allocated := []\<rparr> in
      case set_all ops (wl_write_log w) (wl_alloc w) of
        None \<Rightarrow> None
      | Some s \<Rightarrow>
          (case free_all ops (wl_freed w) s of
             None \<Rightarrow> None
           | Some s \<Rightarrow>
               wlog_drop ops (w\<lparr>wl_alloc := s, wl_write_log := [], wl_freed := []\<rparr>)))"

definition wlog_set :: "ptr \<Rightarrow> 'v \<Rightarrow> ('s, 'v) wlog \<Rightarrow> ('s, 'v) wlog" where
  "wlog_set p v w = w\<lparr>wl_write_log := wl_write_log w @ [(p, v)]\<rparr>"

definition wlog_free :: "ptr \<Rightarrow> ('s, 'v) wlog \<Rightarrow> ('s, 'v) wlog" where
  "wlog_free p w = w\<lparr>wl_freed := wl_freed w @ [p]\<rparr>"

definition wlog_alloc ::
  "('s, 'v) alloc_ops \<Rightarrow> 'v \<Rightarrow> (('s, 'v) wlog, unit, ptr) stateful" where
  "wlog_alloc ops v w =
     (if wl_freed w \<noteq> [] then
        (let p = last (wl_freed w);
             w = w\<lparr>wl_freed := butlast (wl_freed w)\<rparr>
         in (wlog_set p v w, Ok p))
      else
        (case al_alloc ops v (wl_alloc w) of
           (s, Ok p) \<Rightarrow> (w\<lparr>wl_alloc := s, wl_allocated := wl_allocated w @ [p]\<rparr>, Ok p)
         | (s, Err e) \<Rightarrow> (w\<lparr>wl_alloc := s\<rparr>, Err e)
         | (s, Panic) \<Rightarrow> (w\<lparr>wl_alloc := s\<rparr>, Panic)))"

text \<open>Reads go to the underlying allocator.\<close>

definition wlog_get :: "('s, 'v) alloc_ops \<Rightarrow> ('s, 'v) wlog \<Rightarrow> ptr \<Rightarrow> 'v option" where
  "wlog_get ops w p = al_get ops (wl_alloc w) p"

section \<open>The contract\<close>

text \<open>The memory a log would commit: pending writes applied, freed blocks removed.\<close>

definition apply_writes :: "(ptr \<times> 'v) list \<Rightarrow> (ptr \<rightharpoonup> 'v) \<Rightarrow> (ptr \<rightharpoonup> 'v)" where
  "apply_writes ws m = foldl (\<lambda>m (p, v). m(p \<mapsto> v)) m ws"

lemma apply_writes_simps [simp]:
  "apply_writes [] m = m"
  "apply_writes ((p, v) # ws) m = apply_writes ws (m(p \<mapsto> v))"
  "apply_writes (ws @ [(p, v)]) m = (apply_writes ws m)(p \<mapsto> v)"
  by (simp_all add: apply_writes_def)

lemma apply_writes_other: "p \<notin> fst ` set ws \<Longrightarrow> apply_writes ws m p = m p"
  by (induction ws arbitrary: m) auto

lemma apply_writes_fresh:
  "p \<notin> fst ` set ws \<Longrightarrow> apply_writes ws (m(p := x)) = (apply_writes ws m)(p := x)"
proof (induction ws arbitrary: m)
  case (Cons w ws)
  obtain q v where w: "w = (q, v)" by fastforce
  with Cons have "p \<noteq> q" "p \<notin> fst ` set ws" by auto
  then show ?case
    unfolding w apply_writes_simps fun_upd_twist[OF \<open>p \<noteq> q\<close>] by (intro Cons.IH)
qed simp

lemma dom_apply_writes: "dom (apply_writes ws m) = dom m \<union> fst ` set ws"
proof (induction ws arbitrary: m)
  case (Cons w ws)
  obtain q v where w: "w = (q, v)" by fastforce
  show ?case unfolding w apply_writes_simps Cons.IH by auto
qed simp

definition wlog_view :: "('s \<Rightarrow> ptr \<rightharpoonup> 'v) \<Rightarrow> ('s, 'v) wlog \<Rightarrow> ptr \<rightharpoonup> 'v" where
  "wlog_view live w =
     apply_writes (wl_write_log w) (live (wl_alloc w)) |` (- set (wl_freed w))"

text \<open>
  A write log used with care: \<open>log_steps ops live okv s w m\<close> says that \<open>w\<close> is a log
  started on allocator \<open>s\<close> after some allocations, writes and frees, each on a block
  that exists at that point, and that these make the memory \<open>m\<close>.
\<close>

inductive log_steps ::
  "('s, 'v) alloc_ops \<Rightarrow> ('s \<Rightarrow> ptr \<rightharpoonup> 'v) \<Rightarrow> ('v \<Rightarrow> bool) \<Rightarrow> 's \<Rightarrow> ('s, 'v) wlog \<Rightarrow> (ptr \<rightharpoonup> 'v) \<Rightarrow> bool"
  for ops live okv s where
  new: "log_steps ops live okv s (wlog_new s) (live s)"
| alloc: "log_steps ops live okv s w m \<Longrightarrow> okv v \<Longrightarrow> wlog_alloc ops v w = (w', Ok p) \<Longrightarrow>
    log_steps ops live okv s w' (m(p \<mapsto> v))"
| alloc_err: "log_steps ops live okv s w m \<Longrightarrow> okv v \<Longrightarrow> wlog_alloc ops v w = (w', Err e) \<Longrightarrow>
    log_steps ops live okv s w' m"
| set: "log_steps ops live okv s w m \<Longrightarrow> p \<in> dom m \<Longrightarrow> okv v \<Longrightarrow>
    log_steps ops live okv s (wlog_set p v w) (m(p \<mapsto> v))"
| free: "log_steps ops live okv s w m \<Longrightarrow> p \<in> dom m \<Longrightarrow> log_steps ops live okv s (wlog_free p w) (m(p := None))"

locale allocator =
  fixes ops :: "('s, 'v) alloc_ops"
    and ainv :: "'s \<Rightarrow> bool"
    and live :: "'s \<Rightarrow> ptr \<rightharpoonup> 'v"
    and okv :: "'v \<Rightarrow> bool"
  assumes alloc_Ok: "ainv s \<Longrightarrow> okv v \<Longrightarrow> al_alloc ops v s = (s', Ok p) \<Longrightarrow>
        ainv s' \<and> live s p = None \<and> live s' = (live s)(p \<mapsto> v)"
    and alloc_Err: "ainv s \<Longrightarrow> okv v \<Longrightarrow> al_alloc ops v s = (s', Err e) \<Longrightarrow>
        ainv s' \<and> live s' = live s"
    and alloc_no_panic: "ainv s \<Longrightarrow> okv v \<Longrightarrow> al_alloc ops v s \<noteq> (s', Panic)"
    and get_live: "ainv s \<Longrightarrow> live s p = Some v \<Longrightarrow> al_get ops s p = Some v"
    and set_live: "ainv s \<Longrightarrow> okv v \<Longrightarrow> p \<in> dom (live s) \<Longrightarrow>
        \<exists>s'. al_set ops s p v = Some s' \<and> ainv s' \<and> live s' = (live s)(p \<mapsto> v)"
    and free_live: "ainv s \<Longrightarrow> p \<in> dom (live s) \<Longrightarrow>
        \<exists>s'. al_free ops s p = Some s' \<and> ainv s' \<and> live s' = (live s)(p := None)"
    and live_valid: "ainv s \<Longrightarrow> live s p = Some v \<Longrightarrow> valid_ptr p \<and> okv v"
begin

abbreviation view :: "('s, 'v) wlog \<Rightarrow> ptr \<rightharpoonup> 'v" where
  "view \<equiv> wlog_view live"

text \<open>
  The invariant of a log started on memory \<open>base\<close>: the allocator holds
  \<open>base\<close> and the blocks allocated since.
\<close>

definition wl_inv :: "(ptr \<rightharpoonup> 'v) \<Rightarrow> ('s, 'v) wlog \<Rightarrow> bool" where
  "wl_inv base w \<longleftrightarrow>
     ainv (wl_alloc w) \<and> distinct (wl_allocated w) \<and> distinct (wl_freed w) \<and>
     set (wl_allocated w) \<inter> dom base = {} \<and> set (wl_allocated w) \<subseteq> dom (live (wl_alloc w)) \<and>
     (\<forall>p. p \<notin> set (wl_allocated w) \<longrightarrow> live (wl_alloc w) p = base p) \<and>
     fst ` set (wl_write_log w) \<subseteq> dom (live (wl_alloc w)) \<and>
     (\<forall>(p, v) \<in> set (wl_write_log w). okv v) \<and> set (wl_freed w) \<subseteq> dom (live (wl_alloc w))"

lemma wl_new: "ainv s \<Longrightarrow> wl_inv (live s) (wlog_new s) \<and> view (wlog_new s) = live s"
  by (simp add: wl_inv_def wlog_new_def wlog_view_def restrict_map_def)

lemma wl_get: "wl_inv base w \<Longrightarrow> base p = Some v \<Longrightarrow> wlog_get ops w p = Some v"
  unfolding wlog_get_def
proof (rule get_live)
  assume i: "wl_inv base w" and b: "base p = Some v"
  show "ainv (wl_alloc w)" using i by (simp add: wl_inv_def)
  have "p \<notin> set (wl_allocated w)" using i b by (auto simp: wl_inv_def)
  then show "live (wl_alloc w) p = Some v" using i b by (simp add: wl_inv_def)
qed

lemma dom_view: "wl_inv base w \<Longrightarrow> dom (view w) = dom (live (wl_alloc w)) - set (wl_freed w)"
  by (auto simp: wlog_view_def wl_inv_def dom_apply_writes)

lemma wl_set:
  assumes "wl_inv base w" "p \<in> dom (view w)" "okv v"
  shows "wl_inv base (wlog_set p v w)" "view (wlog_set p v w) = (view w)(p \<mapsto> v)"
  using assms dom_view[OF assms(1)]
  by (auto simp: wl_inv_def wlog_view_def wlog_set_def restrict_map_def fun_eq_iff)

lemma wl_free:
  assumes "wl_inv base w" "p \<in> dom (view w)"
  shows "wl_inv base (wlog_free p w)" "view (wlog_free p w) = (view w)(p := None)"
  using assms dom_view[OF assms(1)]
  by (auto simp: wl_inv_def wlog_view_def wlog_free_def restrict_map_def fun_eq_iff)

text \<open>Allocation reuses a block freed in the same log or takes a new one from the allocator.\<close>

lemma wl_alloc_Ok:
  assumes i: "wl_inv base w" and v: "okv v" and a: "wlog_alloc ops v w = (w', Ok p)"
  shows "wl_inv base w' \<and> view w p = None \<and> view w' = (view w)(p \<mapsto> v) \<and> valid_ptr p"
proof (cases "wl_freed w = []")
  case False
  define fr where "fr = butlast (wl_freed w)"
  have f: "wl_freed w = fr @ [p]" and w': "w' = wlog_set p v (w\<lparr>wl_freed := fr\<rparr>)"
    using a False by (auto simp: wlog_alloc_def Let_def fr_def)
  have pl: "p \<in> dom (live (wl_alloc w))" "p \<notin> set fr" using i f by (auto simp: wl_inv_def)
  then have "valid_ptr p" using live_valid i by (auto simp: wl_inv_def)
  moreover have "view w p = None" using f by (simp add: wlog_view_def)
  moreover have inv: "wl_inv base (w\<lparr>wl_freed := fr\<rparr>)" using i f by (auto simp: wl_inv_def)
  moreover have "p \<in> dom (view (w\<lparr>wl_freed := fr\<rparr>))" using pl dom_view[OF inv] by auto
  moreover have "(view (w\<lparr>wl_freed := fr\<rparr>))(p \<mapsto> v) = (view w)(p \<mapsto> v)"
    using f by (auto simp: wlog_view_def restrict_map_def fun_eq_iff)
  ultimately show ?thesis using wl_set[of base "w\<lparr>wl_freed := fr\<rparr>" p v] v w' by simp
next
  case True
  then obtain s where al: "al_alloc ops v (wl_alloc w) = (s, Ok p)"
    and w': "w' = w\<lparr>wl_alloc := s, wl_allocated := wl_allocated w @ [p]\<rparr>"
    using a by (auto simp: wlog_alloc_def split: prod.splits outcome.splits)
  have ai: "ainv (wl_alloc w)" using i by (simp add: wl_inv_def)
  note s = alloc_Ok[OF ai v al]
  have vp: "valid_ptr p" using live_valid[of s p v] s by simp
  have nd: "p \<notin> dom (live (wl_alloc w))" using s by auto
  have f1: "p \<notin> fst ` set (wl_write_log w)" and f2: "p \<notin> set (wl_allocated w)"
    using nd i unfolding wl_inv_def by blast+
  have f3: "base p = None" using f2 i s unfolding wl_inv_def by metis
  note fresh = f1 f2 f3
  have "apply_writes (wl_write_log w) (live s) = (apply_writes (wl_write_log w) (live (wl_alloc w)))(p \<mapsto> v)"
    using s f1 by (simp add: apply_writes_fresh)
  then have "view w' = (view w)(p \<mapsto> v)" "view w p = None"
    using True s fresh by (auto simp: wlog_view_def w' apply_writes_other restrict_map_def)
  moreover have "wl_inv base w'" using i s fresh True by (auto simp: wl_inv_def w' domIff)
  ultimately show ?thesis using vp by blast
qed

lemma wl_alloc_Err:
  assumes i: "wl_inv base w" and v: "okv v" and a: "wlog_alloc ops v w = (w', Err e)"
  shows "wl_inv base w' \<and> view w' = view w"
proof -
  obtain s where al: "al_alloc ops v (wl_alloc w) = (s, Err e)" and w': "w' = w\<lparr>wl_alloc := s\<rparr>"
    using a by (auto simp: wlog_alloc_def Let_def split: prod.splits outcome.splits if_splits)
  have ai: "ainv (wl_alloc w)" using i by (simp add: wl_inv_def)
  show ?thesis using alloc_Err[OF ai v al] i by (auto simp: wl_inv_def w' wlog_view_def)
qed

lemma wl_alloc_no_panic:
  assumes i: "wl_inv base w" and v: "okv v"
  shows "wlog_alloc ops v w \<noteq> (w', Panic)"
proof -
  have ai: "ainv (wl_alloc w)" using i by (simp add: wl_inv_def)
  show ?thesis using alloc_no_panic[OF ai v]
    by (auto simp: wlog_alloc_def Let_def split: prod.splits outcome.splits if_splits)
qed

lemma set_all_spec:
  "ainv s \<Longrightarrow> fst ` set ws \<subseteq> dom (live s) \<Longrightarrow> \<forall>(p, v) \<in> set ws. okv v \<Longrightarrow>
     \<exists>s'. set_all ops ws s = Some s' \<and> ainv s' \<and> live s' = apply_writes ws (live s)"
proof (induction ws arbitrary: s)
  case (Cons w ws)
  obtain p v where w: "w = (p, v)" by fastforce
  with Cons.prems have "p \<in> dom (live s)" "okv v" by auto
  from set_live[OF Cons.prems(1) this(2,1)] obtain s1 where
    s1: "al_set ops s p v = Some s1" "ainv s1" "live s1 = (live s)(p \<mapsto> v)" by blast
  moreover have "fst ` set ws \<subseteq> dom (live s1)" using Cons.prems(2) s1(3) by (auto simp: w)
  moreover have "\<forall>(p, v) \<in> set ws. okv v" using Cons.prems(3) by auto
  ultimately obtain s2 where "set_all ops ws s1 = Some s2" "ainv s2"
    "live s2 = apply_writes ws (live s1)" using Cons.IH by blast
  then show ?case by (simp add: w s1)
qed simp

lemma free_all_spec:
  "ainv s \<Longrightarrow> set ps \<subseteq> dom (live s) \<Longrightarrow> distinct ps \<Longrightarrow>
     \<exists>s'. free_all ops ps s = Some s' \<and> ainv s' \<and> live s' = live s |` (- set ps)"
proof (induction ps arbitrary: s)
  case (Cons p ps)
  then have "p \<in> dom (live s)" by auto
  from free_live[OF Cons.prems(1) this] obtain s1 where
    s1: "al_free ops s p = Some s1" "ainv s1" "live s1 = (live s)(p := None)" by blast
  moreover have "set ps \<subseteq> dom (live s1)" using Cons.prems s1(3) by auto
  ultimately obtain s2 where s2: "free_all ops ps s1 = Some s2" "ainv s2"
    "live s2 = live s1 |` (- set ps)"
    using Cons.IH[of s1] Cons.prems(3) unfolding distinct.simps by blast
  have "live s2 = live s |` (- set (p # ps))"
    unfolding s2(3) s1(3) by (auto simp: restrict_map_def fun_eq_iff)
  with s1 s2 show ?case by simp
qed (simp add: restrict_map_def)

text \<open>Committing installs the view; dropping the log restores the memory it started from.\<close>

lemma wl_commit:
  assumes "wl_inv base w"
  shows "\<exists>s. wlog_commit ops w = Some s \<and> ainv s \<and> live s = view w"
proof -
  obtain s1 where s1: "set_all ops (wl_write_log w) (wl_alloc w) = Some s1" "ainv s1"
    "live s1 = apply_writes (wl_write_log w) (live (wl_alloc w))"
    using set_all_spec[of "wl_alloc w" "wl_write_log w"] assms by (auto simp: wl_inv_def)
  have "set (wl_freed w) \<subseteq> dom (live s1)" "distinct (wl_freed w)"
    using assms by (auto simp: s1(3) wl_inv_def dom_apply_writes)
  from free_all_spec[OF s1(2) this] obtain s2 where "free_all ops (wl_freed w) s1 = Some s2" "ainv s2"
    "live s2 = live s1 |` (- set (wl_freed w))" by blast
  with s1 show ?thesis by (simp add: wlog_commit_def wlog_drop_def wlog_view_def)
qed

lemma wl_drop:
  assumes "wl_inv base w"
  shows "\<exists>s. wlog_drop ops w = Some s \<and> ainv s \<and> live s = base"
proof -
  obtain s where s: "free_all ops (wl_allocated w) (wl_alloc w) = Some s" "ainv s"
    "live s = live (wl_alloc w) |` (- set (wl_allocated w))"
    using free_all_spec[of "wl_alloc w" "wl_allocated w"] assms by (auto simp: wl_inv_def)
  have "live s p = base p" for p
    unfolding s(3) using assms
    by (cases "p \<in> set (wl_allocated w)") (auto simp: wl_inv_def domIff disjoint_iff)
  then have "live s = base" by (rule ext)
  with s show ?thesis by (simp add: wlog_drop_def)
qed

text \<open>A log simulates the memory it presents.\<close>

lemma log_steps_view:
  assumes "log_steps ops live okv s w m" "ainv s"
  shows "wl_inv (live s) w \<and> view w = m"
  using assms
proof induction
  case new
  then show ?case by (rule wl_new)
next
  case (alloc w m v w' p)
  then show ?case using wl_alloc_Ok by blast
next
  case (alloc_err w m v w' e)
  then show ?case using wl_alloc_Err by blast
next
  case (set w m p v)
  then show ?case using wl_set[of "live s" w p v] by simp
next
  case (free w m p)
  then show ?case using wl_free[of "live s" w p] by simp
qed

lemma view_valid:
  assumes "wl_inv base w" and "view w p = Some v" shows "valid_ptr p"
proof -
  have "p \<in> dom (live (wl_alloc w))" using assms(2) dom_view[OF assms(1)] by blast
  moreover have "ainv (wl_alloc w)" using assms(1) by (simp add: wl_inv_def)
  ultimately show ?thesis using live_valid by blast
qed

end

end
