(* ===== verification/Nodes.thy ===== *)
theory Nodes
  imports Ext_Key Memory
begin

unbundle bit_operations_syntax

text \<open>
  Trie nodes, \<^verbatim>\<open>common/sealable-trie/src/nodes.rs\<close>: references, nodes, their 72-byte
  raw form and their hash. The type parameters are those of the source: how a
  pointer and how the seal of a value are represented (\<open>Option<Ptr>\<close> and
  \<open>bool\<close> in storage, unit in proofs). SHA-256 is the parameter
  \<open>digest\<close>.
\<close>

section \<open>References and nodes\<close>

datatype ('p, 's) reference = RefNode (ref_ptr: 'p) (ref_hash: hash) | RefValue 's (ref_hash: hash)

datatype ('p, 's) node =
  Branch "('p, 's) reference" "('p, 's) reference"
| Extension slice "('p, 's) reference"

type_synonym mem_ref = "(ptr option, bool) reference"
type_synonym mem_node = "(ptr option, bool) node"
type_synonym raw_node = "byte list"

datatype decode_error = BadExtensionKey | BadNodeRef | BadValueRef

section \<open>The hash of a node\<close>

definition hash_parts :: "('p, 's) reference \<Rightarrow> bool \<times> hash" where
  "hash_parts r = (case r of RefNode _ h \<Rightarrow> (False, h) | RefValue _ h \<Rightarrow> (True, h))"

text \<open>The bytes that are hashed: \<open>&buf[..len]\<close>.\<close>

definition hash_preimage :: "('p, 's) node \<Rightarrow> byte list" where
  "hash_preimage n =
     (case n of
        Branch left right \<Rightarrow>
          (let (lv, lh) = hash_parts left; (rv, rh) = hash_parts right
           in (push_bit 1 (of_bool lv) OR of_bool rv) # lh @ rh)
      | Extension key child \<Rightarrow>
          (let (cv, ch) = hash_parts child;
               tag = 0x80 OR push_bit 4 (of_bool cv);
               (key_buf, len) = encode_into key tag
           in take len key_buf @ ch))"

definition node_hash :: "(byte list \<Rightarrow> hash) \<Rightarrow> ('p, 's) node \<Rightarrow> hash" where
  "node_hash digest n = digest (hash_preimage n)"

section \<open>Raw references\<close>

definition u32_to_be_bytes :: "32 word \<Rightarrow> byte list" where
  "u32_to_be_bytes w =
     [ucast (drop_bit 24 w), ucast (drop_bit 16 w), ucast (drop_bit 8 w), ucast w]"

definition u32_from_be_bytes :: "byte list \<Rightarrow> 32 word" where
  "u32_from_be_bytes bs =
     push_bit 24 (ucast (bs ! 0)) OR push_bit 16 (ucast (bs ! 1)) OR
     push_bit 8 (ucast (bs ! 2)) OR ucast (bs ! 3)"

definition is_sealed :: "mem_ref \<Rightarrow> bool" where
  "is_sealed r = (case r of RefNode p _ \<Rightarrow> p = None | RefValue s _ \<Rightarrow> s)"

definition ref_into_parts :: "byte list \<Rightarrow> 32 word \<times> hash" where
  "ref_into_parts bytes =
     (let (p, h) = split_array 4 bytes in (u32_from_be_bytes p, h))"

definition ref_from_raw :: "byte list \<Rightarrow> (decode_error, mem_ref) outcome" where
  "ref_from_raw bytes =
     (let (p, h) = ref_into_parts bytes in
      if p AND 0x40000000 = 0 then
        (case ptr_new p of
           Ok p \<Rightarrow> Ok (RefNode p h)
         | _ \<Rightarrow> Err BadNodeRef)
      else if p AND NOT 0x20000000 \<noteq> 0x40000000 then Err BadValueRef
      else Ok (RefValue (p AND 0x20000000 \<noteq> 0) h))"

definition ref_encode :: "mem_ref \<Rightarrow> byte list" where
  "ref_encode r =
     (let (num, h) =
        (case r of
           RefNode p h \<Rightarrow> (case p of None \<Rightarrow> 0 | Some p \<Rightarrow> p, h)
         | RefValue s h \<Rightarrow> (0x40000000 OR push_bit 29 (of_bool s), h))
      in u32_to_be_bytes num @ h)"

section \<open>Raw nodes\<close>

definition RAW_NODE_SIZE :: nat where
  "RAW_NODE_SIZE = 72"

definition raw_branch :: "mem_ref \<Rightarrow> mem_ref \<Rightarrow> raw_node" where
  "raw_branch left right = ref_encode left @ ref_encode right"

definition raw_extension :: "slice \<Rightarrow> mem_ref \<Rightarrow> raw_node" where
  "raw_extension key child = fst (encode_into key 0x80) @ ref_encode child"

definition node_encode :: "mem_node \<Rightarrow> raw_node" where
  "node_encode n =
     (case n of Branch left right \<Rightarrow> raw_branch left right
      | Extension key child \<Rightarrow> raw_extension key child)"

definition raw_decode :: "raw_node \<Rightarrow> (decode_error, mem_node) outcome" where
  "raw_decode raw =
     (let (left, right) = split_array 36 raw in
      bind_outcome (ref_from_raw right) (\<lambda>right.
        if left ! 0 AND 0x80 = 0
        then bind_outcome (ref_from_raw left) (\<lambda>left. Ok (Branch left right))
        else bind_outcome (ok_or BadExtensionKey (ext_key_decode left 0x80))
               (\<lambda>key. Ok (Extension key right))))"

section \<open>Well-formed references and nodes\<close>

definition ref_inv :: "mem_ref \<Rightarrow> bool" where
  "ref_inv r \<longleftrightarrow> length (ref_hash r) = 32 \<and>
     (case r of RefNode (Some p) _ \<Rightarrow> valid_ptr p | _ \<Rightarrow> True)"

fun node_inv :: "mem_node \<Rightarrow> bool" where
  "node_inv (Branch l r) \<longleftrightarrow> ref_inv l \<and> ref_inv r"
| "node_inv (Extension k c) \<longleftrightarrow> ext_key_inv k \<and> ref_inv c"

text \<open>Nodes that differ in the memory behind the key only.\<close>

fun same_node :: "('p, 's) node \<Rightarrow> ('p, 's) node \<Rightarrow> bool" where
  "same_node (Branch l r) (Branch l' r') \<longleftrightarrow> l = l' \<and> r = r'"
| "same_node (Extension k c) (Extension k' c') \<longleftrightarrow>
     sl_offset k = sl_offset k' \<and> slice_bits k = slice_bits k' \<and> c = c'"
| "same_node _ _ \<longleftrightarrow> False"

lemma byte_bit_high [simp]:
  "\<not> bit (b :: byte) (8 + i)" "\<not> bit (b :: byte) (16 + i)" "\<not> bit (b :: byte) (24 + i)"
  by (auto dest: bit_imp_le_length)

lemma u32_from_to_be_bytes [simp]: "u32_from_be_bytes (u32_to_be_bytes w @ h) = w"
proof (rule bit_word_eqI)
  fix n assume "n < LENGTH(32)"
  then consider "n < 8" | "8 \<le> n" "n < 16" | "16 \<le> n" "n < 24" | "24 \<le> n" "n < 32"
    by (simp, linarith)
  then show "bit (u32_from_be_bytes (u32_to_be_bytes w @ h)) n = bit w n"
    by cases (auto simp: u32_from_be_bytes_def u32_to_be_bytes_def bit_simps)
qed

lemma length_u32_to_be_bytes [simp, bytes_simps]: "length (u32_to_be_bytes w) = 4"
  by (simp add: u32_to_be_bytes_def)

lemma length_ref_encode [bytes_simps]: "ref_inv r \<Longrightarrow> length (ref_encode r) = 36"
  by (auto simp: ref_encode_def ref_inv_def split: reference.splits option.splits)

lemma u32_from_be_bytes_4:
  "length bs = 4 \<Longrightarrow> u32_to_be_bytes (u32_from_be_bytes bs) = bs"
proof -
  assume "length bs = 4"
  then obtain a b c d where bs: "bs = [a, b, c, d]"
    by (auto simp: numeral_eq_Suc length_Suc_conv)
  show ?thesis
    by (auto simp: bs u32_to_be_bytes_def u32_from_be_bytes_def bit_simps intro!: byte_eqI
        dest: bit_imp_le_length)
qed

lemma and_0x40000000: "(p AND 0x40000000 = (0 :: 32 word)) \<longleftrightarrow> \<not> bit p 30"
  using and_exp_eq_0_iff_not_bit[of p 30] by simp

lemma and_0x20000000: "(p AND 0x20000000 = (0 :: 32 word)) \<longleftrightarrow> \<not> bit p 29"
  using and_exp_eq_0_iff_not_bit[of p 29] by simp

lemma ref_into_parts_append [simp]: "ref_into_parts (u32_to_be_bytes w @ h) = (w, h)"
  using u32_from_to_be_bytes[of w "[]"] by (simp add: ref_into_parts_def split_array_def)

lemma ref_from_raw_encode: "ref_inv r \<Longrightarrow> ref_from_raw (ref_encode r) = Ok r"
proof (cases r)
  case (RefNode p h)
  assume i: "ref_inv r"
  show ?thesis
  proof (cases p)
    case None
    then show ?thesis by (simp add: RefNode ref_encode_def ref_from_raw_def ptr_new_def)
  next
    case (Some q)
    then have "valid_ptr q" using i RefNode by (simp add: ref_inv_def)
    then show ?thesis using valid_ptr_bit[of q 30] Some RefNode
      by (simp add: ref_encode_def ref_from_raw_def and_0x40000000 ptr_new_def valid_ptr_def)
  qed
next
  case (RefValue s h)
  show ?thesis by (cases s) (simp_all add: RefValue ref_encode_def ref_from_raw_def)
qed

lemma value_word:
  assumes "p AND NOT 0x20000000 = (0x40000000 :: 32 word)"
  shows "p = 0x40000000 OR push_bit 29 (of_bool (bit p 29))"
proof (rule bit_word_eqI)
  fix n assume n: "n < LENGTH(32)"
  have e: "(0x20000000 :: 32 word) = 2 ^ 29" "(0x40000000 :: 32 word) = 2 ^ 30" by simp_all
  have a: "bit (p AND NOT (2 ^ 29)) n = bit (2 ^ 30 :: 32 word) n" using assms unfolding e by (rule arg_cong)
  have "bit p n \<and> n \<noteq> 29 \<longleftrightarrow> n = 30"
    using a n by (simp only: bit_and_iff bit_not_iff bit_exp_iff possible_bit_word) auto
  moreover have "bit (0x40000000 OR push_bit 29 (of_bool (bit p 29)) :: 32 word) n \<longleftrightarrow>
      n = 30 \<or> n = 29 \<and> bit p 29"
    unfolding e using n
    by (simp only: bit_or_iff bit_exp_iff bit_push_bit_iff bit_of_bool_iff possible_bit_word) auto
  ultimately show "bit p n = bit (0x40000000 OR push_bit 29 (of_bool (bit p 29)) :: 32 word) n"
    by auto
qed

lemma ref_from_raw_Ok:
  assumes "ref_from_raw bytes = Ok r" and len: "length bytes = 36"
  shows "ref_inv r" "ref_encode r = bytes"
proof -
  define p where "p = u32_from_be_bytes (take 4 bytes)"
  define h where "h = drop 4 bytes"
  have ph: "bytes = u32_to_be_bytes p @ h" "length h = 32"
    using u32_from_be_bytes_4[of "take 4 bytes"] len by (simp_all add: p_def h_def)
  have "ref_inv r \<and> ref_encode r = bytes"
  proof (cases "p AND 0x40000000 = 0")
    case True
    then obtain q where q: "ptr_new p = Ok q" "r = RefNode q h"
      using assms(1) by (auto simp: ref_from_raw_def ph split: outcome.splits)
    then show ?thesis
      by (auto simp: ptr_new_def ref_inv_def ref_encode_def ph valid_ptr_def split: if_splits)
  next
    case False
    then have pn: "p AND NOT 0x20000000 = 0x40000000" and r: "r = RefValue (bit p 29) h"
      using assms(1) by (auto simp: ref_from_raw_def ph and_0x20000000 split: if_splits)
    show ?thesis using value_word[OF pn] by (simp add: r ref_inv_def ref_encode_def ph)
  qed
  then show "ref_inv r" "ref_encode r = bytes" by auto
qed

lemma and_0x80: "(b AND 0x80 = (0 :: byte)) \<longleftrightarrow> \<not> bit b 7"
  using and_exp_eq_0_iff_not_bit[of b 7] by simp

lemma ref_encode_first:
  assumes "ref_inv r" shows "ref_encode r ! 0 AND 0x80 = 0"
proof -
  obtain num where num: "ref_encode r = u32_to_be_bytes num @ ref_hash r" and b: "\<not> bit num 31"
  proof (cases r)
    case (RefNode p h)
    then show thesis using assms valid_ptr_bit[of _ 31]
      by (intro that[of "case p of None \<Rightarrow> 0 | Some p \<Rightarrow> p"])
        (auto simp: ref_encode_def ref_inv_def valid_ptr_def split: option.splits)
  next
    case (RefValue s h)
    show thesis
      by (rule that[of "0x40000000 OR push_bit 29 (of_bool s)"]; cases s)
        (simp_all add: RefValue ref_encode_def bit_numeral_word_iff)
  qed
  have "\<not> bit (ref_encode r ! 0) 7"
    using b by (simp add: num u32_to_be_bytes_def bit_simps)
  then show ?thesis by (simp only: and_0x80 not_False_eq_True)
qed

lemma encode_into_first:
  assumes "ext_key_inv k" shows "fst (encode_into k 0x80) ! 0 AND 0x80 \<noteq> 0"
proof -
  define num where "num = (push_bit 3 (word_of_nat (sl_length k)) OR word_of_nat (unat (sl_offset k)) :: 16 word)"
  have "unat num < 2 ^ 15"
    unfolding num_def unat_encode_num[OF assms] using ext_key_len_bound[OF assms] by simp
  then have "\<not> bit (unat num) 15" by (simp add: bit_iff_odd)
  then have n15: "\<not> bit num 15" by (simp add: bit_unsigned_iff)
  have "encode_num k 0x80 ! 0 = ucast (drop_bit 8 (num XOR push_bit 8 (ucast (0x80 :: byte))))"
    by (simp only: encode_num_def num_def Let_def u16_to_be_bytes_def nth_Cons_0)
  then have "bit (encode_num k 0x80 ! 0) 7" using n15 by (simp add: bit_simps)
  moreover have "fst (encode_into k 0x80) ! 0 = encode_num k 0x80 ! 0"
    by (simp add: encode_into_eq nth_append)
  ultimately show ?thesis by (simp only: and_0x80 not_not)
qed

text \<open>Every well-formed node is read back as it was written.\<close>

lemma raw_decode_encode:
  assumes "node_inv n"
  obtains n' where "raw_decode (node_encode n) = Ok n'" "node_inv n'" "same_node n n'"
proof (cases n)
  case (Branch l r)
  with assms have "ref_inv l" "ref_inv r" by auto
  then have "raw_decode (node_encode n) = Ok n"
    using ref_encode_first[of l]
    by (simp add: Branch node_encode_def raw_branch_def raw_decode_def split_array_def
        length_ref_encode ref_from_raw_encode nth_append)
  then show thesis using assms Branch by (intro that[of n]) auto
next
  case (Extension k c)
  with assms have k: "ext_key_inv k" and c: "ref_inv c" by auto
  obtain buf m where e: "encode_into k 0x80 = (buf, m)" by fastforce
  have buf: "length buf = 36" "m \<le> 36"
    using length_encode_into[OF k, where tag = "0x80"] ext_key_bytes_length[OF k] e by (auto simp: encode_into_eq)
  obtain k' where k': "ext_key_decode (take 36 buf) 0x80 = Some k'" "ext_key_inv k'"
    "sl_offset k' = sl_offset k" "slice_bits k' = slice_bits k"
    using decode_encode_key[OF k e buf(2)] by metis
  have "raw_decode (node_encode n) = Ok (Extension k' c)"
    using encode_into_first[OF k] k'(1) buf c e
    by (simp add: Extension node_encode_def raw_extension_def raw_decode_def split_array_def
        length_ref_encode ref_from_raw_encode nth_append)
  then show thesis using k' c Extension by (intro that) auto
qed

text \<open>Every raw node that decodes is the encoding of the result: raw nodes are canonical.\<close>

lemma raw_decode_Ok:
  assumes "raw_decode raw = Ok n" and len: "length raw = 72"
  shows "node_inv n" "node_encode n = raw"
proof -
  let ?l = "take 36 raw" and ?r = "drop 36 raw"
  have l36: "length ?l = 36" "length ?r = 36" using len by simp_all
  obtain right where right: "ref_from_raw ?r = Ok right"
    using assms(1) by (auto simp: raw_decode_def split_array_def bind_outcome_Ok)
  note R = ref_from_raw_Ok[OF right l36(2)]
  have "node_inv n \<and> node_encode n = ?l @ ?r"
  proof (cases "?l ! 0 AND 0x80 = 0")
    case True
    then obtain left where left: "ref_from_raw ?l = Ok left" "n = Branch left right"
      using assms(1) right by (auto simp: raw_decode_def split_array_def bind_outcome_Ok)
    then show ?thesis using R ref_from_raw_Ok[OF left(1) l36(1)]
      by (simp add: node_encode_def raw_branch_def)
  next
    case False
    then obtain key where key: "ext_key_decode ?l 0x80 = Some key" "n = Extension key right"
      using assms(1) right by (auto simp: raw_decode_def split_array_def bind_outcome_Ok ok_or_Ok)
    then show ?thesis
      using R encode_decode_key(1)[OF key(1)] encode_decode_key_36[OF key(1) l36(1)]
      by (simp add: node_encode_def raw_extension_def)
  qed
  then show "node_inv n" "node_encode n = raw" by auto
qed

lemma hash_preimage_cong:
  "same_node n n' \<Longrightarrow> node_inv n \<Longrightarrow> node_inv n' \<Longrightarrow> hash_preimage n = hash_preimage n'"
proof (induction n n' rule: same_node.induct)
  case (2 k c k' c')
  then have "encode_into k tag = encode_into k' tag" for tag by (intro encode_into_cong) auto
  with 2 show ?case by (simp add: hash_preimage_def)
qed (auto simp: hash_preimage_def)

lemma node_hash_cong:
  "same_node n n' \<Longrightarrow> node_inv n \<Longrightarrow> node_inv n' \<Longrightarrow> node_hash d n = node_hash d n'"
  by (simp add: node_hash_def hash_preimage_cong)

lemma length_raw [bytes_simps]: "node_inv n \<Longrightarrow> length (node_encode n) = 72"
  by (cases n) (simp_all add: node_encode_def raw_branch_def raw_extension_def length_ref_encode
      length_encode_into)

text \<open>The last 32 bytes are the hash in the right child of a branch, or the child of an extension.\<close>

fun last_ref :: "('p, 's) node \<Rightarrow> ('p, 's) reference" where
  "last_ref (Branch l r) = r"
| "last_ref (Extension k c) = c"

lemma raw_last_bytes: "node_inv n \<Longrightarrow> drop 40 (node_encode n) = ref_hash (last_ref n)"
  by (cases n) (auto simp: node_encode_def raw_branch_def raw_extension_def length_ref_encode
      length_encode_into ref_encode_def ref_inv_def split: reference.splits)

section \<open>Properties\<close>

text \<open>
  A node written as a raw node of 72 bytes and decoded is the same node, whose hash
  it keeps.
\<close>

lemma node_roundtrip:
  assumes "node_inv n"
  shows "length (node_encode n) = RAW_NODE_SIZE \<and>
    (\<exists>n'. raw_decode (node_encode n) = Ok n' \<and> same_node n n' \<and> node_hash d n' = node_hash d n)"
proof -
  obtain n' where n': "raw_decode (node_encode n) = Ok n'" "node_inv n'" "same_node n n'"
    by (rule raw_decode_encode[OF assms])
  then show ?thesis
    using length_raw[OF assms] node_hash_cong[OF n'(3) assms n'(2), of d] by (auto simp: RAW_NODE_SIZE_def)
qed

text \<open>
  C36: raw nodes are canonical: 72 bytes that decode without an error are the encoding of
  the node they decode to.
\<close>

theorem raw_node_canonical:
  assumes "length raw = RAW_NODE_SIZE" "raw_decode raw = Ok n"
  shows "node_inv n \<and> node_encode n = raw"
  using raw_decode_Ok[OF assms(2)] assms(1) by (simp add: RAW_NODE_SIZE_def)

theorem raw_node_canonical_witness:
  "node_inv (Branch (RefNode None (replicate 32 0)) (RefNode None (replicate 32 0)))"
proof -
  have "raw_decode (replicate 72 0) = Ok (Branch (RefNode None (replicate 32 0)) (RefNode None (replicate 32 0)))"
    by code_simp
  then show ?thesis using raw_node_canonical[of "replicate 72 0"] by (simp add: RAW_NODE_SIZE_def)
qed

end
