(* ===== verification/Proofs.thy ===== *)
theory Proofs
  imports Nodes
begin

unbundle bit_operations_syntax

text \<open>
  Proofs of membership and non-membership, \<^verbatim>\<open>common/sealable-trie/src/proof.rs\<close>: the
  proof objects, the builder used while a key is looked up and the verification.
  The specification is a Merkle tree without memory, \<open>mtree\<close>, with the lookup
  of a bit string in it. Verification is sound with respect to it as long as
  \<open>digest\<close> has no collision among the byte strings hashed in the tree and
  during the verification, and every path of the tree has a proof that verifies.
\<close>

section \<open>Proof objects\<close>

record owned_ref =
  or_is_value :: bool
  or_hash :: hash

datatype proof_item = ItemBranch owned_ref | ItemExtension nat

datatype actual =
  ActualBranch owned_ref owned_ref
| ActualExtension nat "byte list" owned_ref
| LookupKeyLeft nat hash

datatype trie_proof =
  Positive "proof_item list"
| Negative "actual option" "proof_item list"

definition EMPTY_TRIE_ROOT :: hash where
  "EMPTY_TRIE_ROOT = replicate 32 0"

definition owned_ref_node :: "hash \<Rightarrow> owned_ref" where
  "owned_ref_node h = \<lparr>or_is_value = False, or_hash = h\<rparr>"

definition owned_ref_value :: "hash \<Rightarrow> owned_ref" where
  "owned_ref_value h = \<lparr>or_is_value = True, or_hash = h\<rparr>"

definition owned_ref_to :: "(byte list \<Rightarrow> hash) \<Rightarrow> ('p, 's) node \<Rightarrow> owned_ref" where
  "owned_ref_to digest n = owned_ref_node (node_hash digest n)"

definition owned_ref_from :: "('p, 's) reference \<Rightarrow> owned_ref" where
  "owned_ref_from r =
     (case r of RefNode _ h \<Rightarrow> \<lparr>or_is_value = False, or_hash = h\<rparr>
      | RefValue _ h \<Rightarrow> \<lparr>or_is_value = True, or_hash = h\<rparr>)"

definition ref_from_owned :: "owned_ref \<Rightarrow> (unit, unit) reference" where
  "ref_from_owned r = (if or_is_value r then RefValue () (or_hash r) else RefNode () (or_hash r))"

section \<open>Building proofs\<close>

definition item_branch :: "bool \<Rightarrow> ('p, 's) reference \<Rightarrow> ('p, 's) reference \<Rightarrow> proof_item" where
  "item_branch us left right = ItemBranch (owned_ref_from (if us then left else right))"

definition item_extension :: "nat \<Rightarrow> proof_item option" where
  "item_extension len = (if len = 0 then None else Some (ItemExtension len))"

definition empty_trie_proof :: trie_proof where
  "empty_trie_proof = Negative None []"

text \<open>The builder is the list of items, in the order they are pushed.\<close>

type_synonym builder = "proof_item list"

definition builder_push :: "builder \<Rightarrow> proof_item \<Rightarrow> builder" where
  "builder_push b item = b @ [item]"

definition builder_reversed :: "builder \<Rightarrow> builder" where
  "builder_reversed b = rev b"

definition builder_build :: "builder \<Rightarrow> trie_proof" where
  "builder_build b = Positive b"

definition builder_negative :: "builder \<Rightarrow> actual \<Rightarrow> trie_proof" where
  "builder_negative b a = Negative (Some a) b"

definition reached_branch ::
  "builder \<Rightarrow> ('p, 's) reference \<Rightarrow> ('p, 's) reference \<Rightarrow> trie_proof" where
  "reached_branch b lft rht =
     builder_negative b (ActualBranch (owned_ref_from lft) (owned_ref_from rht))"

definition reached_extension :: "builder \<Rightarrow> nat \<Rightarrow> slice \<Rightarrow> ('p, 's) reference \<Rightarrow> trie_proof" where
  "reached_extension b left key child =
     (let (buf, len) = encode_into key 0
      in builder_negative b (ActualExtension left (take len buf) (owned_ref_from child)))"

definition lookup_key_left :: "builder \<Rightarrow> nat \<Rightarrow> hash \<Rightarrow> trie_proof" where
  "lookup_key_left b left value_hash = builder_negative b (LookupKeyLeft left value_hash)"

section \<open>Verification\<close>

definition item_node :: "slice \<Rightarrow> owned_ref \<Rightarrow> proof_item \<Rightarrow> (slice \<times> (unit, unit) node) option" where
  "item_node key want item =
     (case item of
        ItemBranch child \<Rightarrow>
          (let us = ref_from_owned want; them = ref_from_owned child in
           case pop_back key of
             None \<Rightarrow> None
           | Some (b, key) \<Rightarrow> Some (key, if b then Branch them us else Branch us them))
      | ItemExtension len \<Rightarrow>
          (case pop_back_slice key len of
             None \<Rightarrow> None
           | Some (suffix, key) \<Rightarrow>
               (case outcome_ok (ext_key_try_from suffix) of
                  None \<Rightarrow> None
                | Some k \<Rightarrow> Some (key, Extension k (ref_from_owned want)))))"

fun verify_impl ::
  "(byte list \<Rightarrow> hash) \<Rightarrow> hash \<Rightarrow> slice \<Rightarrow> owned_ref \<Rightarrow> proof_item list \<Rightarrow> unit option" where
  "verify_impl digest root_hash key want [] =
     (if slice_is_empty key \<and> \<not> or_is_value want \<and> root_hash = or_hash want
      then Some () else None)"
| "verify_impl digest root_hash key want (item # items) =
     (case item_node key want item of
        None \<Rightarrow> None
      | Some (key, n) \<Rightarrow> verify_impl digest root_hash key (owned_ref_to digest n) items)"

definition membership_verify ::
  "(byte list \<Rightarrow> hash) \<Rightarrow> proof_item list \<Rightarrow> hash \<Rightarrow> byte list \<Rightarrow> hash \<Rightarrow> bool" where
  "membership_verify digest items root_hash key value_hash =
     (if root_hash = EMPTY_TRIE_ROOT then False
      else case slice_from_bytes key of
             Some key \<Rightarrow> verify_impl digest root_hash key (owned_ref_value value_hash) items \<noteq> None
           | None \<Rightarrow> False)"

definition get_reference ::
  "(byte list \<Rightarrow> hash) \<Rightarrow> actual option \<Rightarrow> byte list \<Rightarrow> (slice \<times> owned_ref) option" where
  "get_reference digest act key =
     (case slice_from_bytes key of
        None \<Rightarrow> None
      | Some key \<Rightarrow>
          (case act of
             None \<Rightarrow> None
           | Some (ActualBranch lft rht) \<Rightarrow>
               Some (key, owned_ref_to digest (Branch (ref_from_owned lft) (ref_from_owned rht)))
           | Some (ActualExtension left key_buf child) \<Rightarrow>
               (case pop_back_slice key left of
                  None \<Rightarrow> None
                | Some (suffix, key) \<Rightarrow>
                    (case ext_key_decode key_buf 0 of
                       None \<Rightarrow> None
                     | Some ext_key \<Rightarrow>
                         if starts_with suffix ext_key then None
                         else Some (key, owned_ref_to digest
                                           (Extension ext_key (ref_from_owned child)))))
           | Some (LookupKeyLeft len h) \<Rightarrow>
               (case pop_back_slice key len of
                  None \<Rightarrow> None
                | Some (_, key) \<Rightarrow> Some (key, owned_ref_value h))))"

definition non_membership_verify ::
  "(byte list \<Rightarrow> hash) \<Rightarrow> actual option \<Rightarrow> proof_item list \<Rightarrow> hash \<Rightarrow> byte list \<Rightarrow> bool" where
  "non_membership_verify digest act items root_hash key =
     (if root_hash = EMPTY_TRIE_ROOT then True
      else case get_reference digest act key of
             Some (key, want) \<Rightarrow> verify_impl digest root_hash key want items \<noteq> None
           | None \<Rightarrow> False)"

definition proof_verify ::
  "(byte list \<Rightarrow> hash) \<Rightarrow> trie_proof \<Rightarrow> hash \<Rightarrow> byte list \<Rightarrow> hash option \<Rightarrow> bool" where
  "proof_verify digest prf root_hash key value_hash =
     (case (prf, value_hash) of
        (Positive items, Some h) \<Rightarrow> membership_verify digest items root_hash key h
      | (Negative act items, None) \<Rightarrow> non_membership_verify digest act items root_hash key
      | _ \<Rightarrow> False)"

section \<open>Merkle trees\<close>

datatype mtree = MValue hash | MBranch mtree mtree | MExt slice mtree

fun mref :: "(byte list \<Rightarrow> hash) \<Rightarrow> mtree \<Rightarrow> (unit, unit) reference" where
  "mref d (MValue h) = RefValue () h"
| "mref d (MBranch l r) = RefNode () (node_hash d (Branch (mref d l) (mref d r)))"
| "mref d (MExt k t) = RefNode () (node_hash d (Extension k (mref d t)))"

text \<open>The byte strings hashed in a tree.\<close>

fun mpreimages :: "(byte list \<Rightarrow> hash) \<Rightarrow> mtree \<Rightarrow> byte list set" where
  "mpreimages d (MValue h) = {}"
| "mpreimages d (MBranch l r) =
     insert (hash_preimage (Branch (mref d l) (mref d r))) (mpreimages d l \<union> mpreimages d r)"
| "mpreimages d (MExt k t) = insert (hash_preimage (Extension k (mref d t))) (mpreimages d t)"

fun mtree_inv :: "u3 \<Rightarrow> mtree \<Rightarrow> bool" where
  "mtree_inv off (MValue h) \<longleftrightarrow> length h = 32"
| "mtree_inv off (MBranch l r) \<longleftrightarrow>
     mtree_inv (wrapping_add off 1) l \<and> mtree_inv (wrapping_add off 1) r"
| "mtree_inv off (MExt k t) \<longleftrightarrow>
     sl_offset k = off \<and> ext_key_inv k \<and> mtree_inv (wrapping_add off (sl_length k)) t"

fun mlookup :: "mtree \<Rightarrow> bool list \<Rightarrow> hash option" where
  "mlookup (MValue h) key = (if key = [] then Some h else None)"
| "mlookup (MBranch l r) key =
     (case key of [] \<Rightarrow> None | b # key \<Rightarrow> mlookup (if b then r else l) key)"
| "mlookup (MExt k t) key =
     (if take (sl_length k) key = slice_bits k then mlookup t (drop (sl_length k) key) else None)"

text \<open>\<open>msub t key\<close> is the subtree reached by following \<open>key\<close> to its end.\<close>

fun msub :: "mtree \<Rightarrow> bool list \<Rightarrow> mtree \<Rightarrow> bool" where
  "msub (MValue h) key s \<longleftrightarrow> key = [] \<and> s = MValue h"
| "msub (MBranch l r) key s \<longleftrightarrow>
     (case key of [] \<Rightarrow> s = MBranch l r | b # key \<Rightarrow> msub (if b then r else l) key s)"
| "msub (MExt k t) key s \<longleftrightarrow>
     (if key = [] then s = MExt k t
      else take (sl_length k) key = slice_bits k \<and> msub t (drop (sl_length k) key) s)"

lemma msub_Nil [simp]: "msub t [] s \<longleftrightarrow> s = t"
  by (cases t) auto

lemma msub_trans: "msub t a s \<Longrightarrow> msub s b u \<Longrightarrow> msub t (a @ b) u"
proof (induction t a s rule: msub.induct)
  case (3 k t key s)
  show ?case
  proof (cases "key = []")
    case False
    with 3 have t: "take (sl_length k) key = slice_bits k" "msub t (drop (sl_length k) key) s" by auto
    then have len: "sl_length k \<le> length key" by (metis length_slice_bits length_take min_def nat_le_linear)
    with 3(1)[OF False] t 3(3) False show ?thesis by simp
  qed (use 3 in auto)
qed (auto split: list.splits if_splits)

lemma msub_lookup: "msub t a s \<Longrightarrow> mlookup t (a @ b) = mlookup s b"
proof (induction t a s rule: msub.induct)
  case (3 k t key s)
  show ?case
  proof (cases "key = []")
    case False
    with 3 have t: "take (sl_length k) key = slice_bits k" "msub t (drop (sl_length k) key) s" by auto
    then have len: "sl_length k \<le> length key" by (metis length_slice_bits length_take min_def nat_le_linear)
    with 3(1)[OF False] t show ?thesis by simp
  qed (use 3 in auto)
qed (auto split: list.splits if_splits)

lemma msub_inv: "msub t a s \<Longrightarrow> mtree_inv off t \<Longrightarrow> mtree_inv (wrapping_add off (length a)) s"
proof (induction t a s arbitrary: off rule: msub.induct)
  case (2 l r key s)
  show ?case
  proof (cases key)
    case (Cons b ks)
    with 2 have "mtree_inv (wrapping_add (wrapping_add off 1) (length ks)) s"
      by (cases b) auto
    then show ?thesis by (simp add: Cons wrapping_add_add)
  qed (use 2 in auto)
next
  case (3 k t key s)
  show ?case
  proof (cases "key = []")
    case False
    with 3 have t: "take (sl_length k) key = slice_bits k" "msub t (drop (sl_length k) key) s" by auto
    then have len: "sl_length k \<le> length key" by (metis length_slice_bits length_take min_def nat_le_linear)
    have "mtree_inv (wrapping_add (wrapping_add off (sl_length k)) (length key - sl_length k)) s"
      using 3(1)[OF False t(2)] 3(3) by simp
    then show ?thesis using len by (simp add: wrapping_add_add)
  qed (use 3 in auto)
qed auto

lemma msub_preimages: "msub t a s \<Longrightarrow> mpreimages d s \<subseteq> mpreimages d t"
  by (induction t a s rule: msub.induct) (auto split: list.splits if_splits)

lemma msub_branch: "msub t a (MBranch l r) \<Longrightarrow> msub t (a @ [b]) (if b then r else l)"
  by (rule msub_trans) auto

lemma msub_ext:
  "msub t a (MExt k c) \<Longrightarrow> 0 < sl_length k \<Longrightarrow> msub t (a @ slice_bits k) c"
  by (rule msub_trans) (auto simp: slice_bits_def)

section \<open>The hashed bytes determine the node\<close>

fun unode_inv :: "(unit, unit) node \<Rightarrow> bool" where
  "unode_inv (Branch l r) \<longleftrightarrow> length (ref_hash l) = 32 \<and> length (ref_hash r) = 32"
| "unode_inv (Extension k c) \<longleftrightarrow> ext_key_inv k \<and> length (ref_hash c) = 32"

definition ref_is_value :: "('p, 's) reference \<Rightarrow> bool" where
  "ref_is_value r = (case r of RefNode _ _ \<Rightarrow> False | RefValue _ _ \<Rightarrow> True)"

lemma ref_is_value_simps [simp]: "\<not> ref_is_value (RefNode p h)" "ref_is_value (RefValue s h)"
  by (simp_all add: ref_is_value_def)

lemma hash_parts_eq: "hash_parts r = (ref_is_value r, ref_hash r)"
  by (simp add: hash_parts_def split: reference.splits)

lemma uref_eqI: "ref_is_value r = ref_is_value s \<Longrightarrow> ref_hash r = ref_hash s \<Longrightarrow> r = (s :: (unit, unit) reference)"
  by (cases r; cases s) auto

lemma hash_preimage_branch:
  "hash_preimage (Branch l r) =
     (push_bit 1 (of_bool (ref_is_value l)) OR of_bool (ref_is_value r)) # ref_hash l @ ref_hash r"
  by (simp add: hash_preimage_def hash_parts_eq)

lemma hash_preimage_ext:
  "hash_preimage (Extension k c) =
     encode_num k (0x80 OR push_bit 4 (of_bool (ref_is_value c))) @ masked_bytes k @ ref_hash c"
  by (simp add: hash_preimage_def hash_parts_eq encode_into_eq Let_def)

lemma encode_num_high:
  assumes "ext_key_inv k" "12 \<le> n" "n < 16"
  shows "bit (encode_num k tag ! 0) (n - 8) = bit tag (n - 8)"
proof -
  define num where "num = (push_bit 3 (word_of_nat (sl_length k)) OR word_of_nat (unat (sl_offset k)) :: 16 word)"
  have "unat num < 2 ^ 12"
    unfolding num_def unat_encode_num[OF assms(1)] using ext_key_len_bound[OF assms(1)] by simp
  also have "(2 :: nat) ^ 12 \<le> 2 ^ n" using assms(2) by (intro power_increasing) auto
  finally have "\<not> bit (unat num) n" by (simp add: bit_iff_odd)
  then have nn: "\<not> bit num n" by (simp add: bit_unsigned_iff)
  have "encode_num k tag ! 0 = ucast (drop_bit 8 (num XOR push_bit 8 (ucast tag)))"
    by (simp only: encode_num_def num_def Let_def u16_to_be_bytes_def nth_Cons_0)
  then show ?thesis using nn assms(2,3) by (auto simp: bit_simps)
qed

lemma ext_tag_bits:
  assumes "ext_key_inv k"
  shows "bit (encode_num k (0x80 OR push_bit 4 (of_bool v)) ! 0) 7"
    "bit (encode_num k (0x80 OR push_bit 4 (of_bool v)) ! 0) 4 = v"
  using encode_num_high[OF assms, of 15] encode_num_high[OF assms, of 12] by (cases v; simp)+

lemma hash_preimage_inject:
  assumes "unode_inv n" "unode_inv n'" "hash_preimage n = hash_preimage n'"
  shows "same_node n n'"
proof (cases n; cases n')
  fix l r l' r' assume n: "n = Branch l r" and n': "n' = Branch l' r'"
  have tag: "(push_bit 1 (of_bool a) OR of_bool b :: byte) = push_bit 1 (of_bool c) OR of_bool d \<longleftrightarrow>
      a = c \<and> b = d" for a b c d
    by (cases a; cases b; cases c; cases d) simp_all
  have "ref_is_value l = ref_is_value l' \<and> ref_is_value r = ref_is_value r'"
    "ref_hash l @ ref_hash r = ref_hash l' @ ref_hash r'"
    using assms(3) unfolding n n' hash_preimage_branch list.inject tag by auto
  then show ?thesis using assms(1,2) by (auto simp: n n' intro: uref_eqI)
next
  fix k c k' c' assume n: "n = Extension k c" and n': "n' = Extension k' c'"
  define tag where "tag x = (0x80 OR push_bit 4 (of_bool (ref_is_value x)) :: byte)"
    for x :: "(unit, unit) reference"
  have k: "ext_key_inv k" "ext_key_inv k'" and h: "length (ref_hash c) = 32" "length (ref_hash c') = 32"
    using assms by (auto simp: n n')
  have eq: "(encode_num k (tag c) @ masked_bytes k) @ ref_hash c =
      (encode_num k' (tag c') @ masked_bytes k') @ ref_hash c'"
    using assms(3) by (simp add: n n' hash_preimage_ext tag_def)
  then have e: "encode_num k (tag c) = encode_num k' (tag c')" "masked_bytes k = masked_bytes k'"
    "ref_hash c = ref_hash c'"
    using h by (auto simp: append_eq_append_conv)
  have "ref_is_value c = ref_is_value c'"
    using ext_tag_bits(2)[OF k(1), of "ref_is_value c"] ext_tag_bits(2)[OF k(2), of "ref_is_value c'"] e(1)
    by (simp add: tag_def)
  then have "c = c'" using e(3) by (intro uref_eqI)
  moreover have "length (slice_bytes k) = length (slice_bytes k')"
    using arg_cong[OF e(2), of length] by simp
  then have "encode_into k (tag c) = encode_into k' (tag c)"
    using e(1,2) \<open>c = c'\<close> by (simp add: encode_into_eq)
  ultimately show ?thesis using encode_into_inject[OF k] by (simp add: n n')
next
  fix l r k c assume n: "n = Branch l r" and n': "n' = Extension k c"
  have "bit (hash_preimage n' ! 0) 7"
    using ext_tag_bits(1)[of k] assms by (simp add: n' hash_preimage_ext nth_append)
  moreover have "\<not> bit (hash_preimage n ! 0) 7"
    by (cases "ref_is_value l"; cases "ref_is_value r") (simp_all add: n hash_preimage_branch)
  ultimately show ?thesis using assms(3) by simp
next
  fix l r k c assume n': "n' = Branch l r" and n: "n = Extension k c"
  have "bit (hash_preimage n ! 0) 7"
    using ext_tag_bits(1)[of k] assms(1) by (simp add: n hash_preimage_ext nth_append)
  moreover have "\<not> bit (hash_preimage n' ! 0) 7"
    by (cases "ref_is_value l"; cases "ref_is_value r") (simp_all add: n' hash_preimage_branch)
  ultimately show ?thesis using assms(3) by simp
qed

section \<open>Soundness\<close>

definition owned_ref_inv :: "owned_ref \<Rightarrow> bool" where
  "owned_ref_inv r \<longleftrightarrow> length (or_hash r) = 32"

text \<open>The types of the source: hashes have 32 bytes, lengths in items are not zero.\<close>

fun item_inv :: "proof_item \<Rightarrow> bool" where
  "item_inv (ItemBranch r) \<longleftrightarrow> owned_ref_inv r"
| "item_inv (ItemExtension n) \<longleftrightarrow> 0 < n"

definition digest_inv :: "(byte list \<Rightarrow> hash) \<Rightarrow> bool" where
  "digest_inv d \<longleftrightarrow> (\<forall>x. length (d x) = 32)"

text \<open>The byte strings hashed while a proof is verified.\<close>

fun verify_preimages ::
  "(byte list \<Rightarrow> hash) \<Rightarrow> slice \<Rightarrow> owned_ref \<Rightarrow> proof_item list \<Rightarrow> byte list set" where
  "verify_preimages d key want [] = {}"
| "verify_preimages d key want (item # items) =
     (case item_node key want item of
        None \<Rightarrow> {}
      | Some (key, n) \<Rightarrow>
          insert (hash_preimage n) (verify_preimages d key (owned_ref_to d n) items))"

fun mroot :: "(byte list \<Rightarrow> hash) \<Rightarrow> mtree \<Rightarrow> (unit, unit) node \<Rightarrow> bool" where
  "mroot d (MValue h) n \<longleftrightarrow> False"
| "mroot d (MBranch l r) n \<longleftrightarrow> n = Branch (mref d l) (mref d r)"
| "mroot d (MExt k t) n \<longleftrightarrow> n = Extension k (mref d t)"

lemma mref_hash_length: "digest_inv d \<Longrightarrow> mtree_inv off t \<Longrightarrow> length (ref_hash (mref d t)) = 32"
  by (cases t) (auto simp: digest_inv_def node_hash_def)

lemma mroot_inv:
  "digest_inv d \<Longrightarrow> mtree_inv off t \<Longrightarrow> mroot d t n \<Longrightarrow> unode_inv n \<and> hash_preimage n \<in> mpreimages d t"
  by (cases t) (auto simp: mref_hash_length)

lemma mref_RefNode:
  "mref d t = RefNode () h \<longleftrightarrow> (\<exists>n. mroot d t n \<and> node_hash d n = h)"
  by (cases t) auto

lemma ref_from_owned_hash [simp]: "ref_hash (ref_from_owned r) = or_hash r"
  by (simp add: ref_from_owned_def)

lemma ref_from_owned_inject [simp]: "ref_from_owned r = ref_from_owned s \<longleftrightarrow> r = s"
  by (auto simp: ref_from_owned_def split: if_splits)

lemma ref_from_owned_to [simp]: "ref_from_owned (owned_ref_to d n) = RefNode () (node_hash d n)"
  by (simp add: ref_from_owned_def owned_ref_to_def owned_ref_node_def)

lemma item_node_Some:
  assumes "slice_inv key" "owned_ref_inv want" "item_inv item" "item_node key want item = Some (key', n)"
  shows "slice_inv key'" "unode_inv n" "sl_offset key' = sl_offset key"
    "(\<exists>b them. slice_bits key = slice_bits key' @ [b] \<and>
        n = (if b then Branch them (ref_from_owned want) else Branch (ref_from_owned want) them)) \<or>
     (\<exists>k. slice_bits key = slice_bits key' @ slice_bits k \<and> ext_key_inv k \<and>
        n = Extension k (ref_from_owned want))"
proof -
  have "slice_inv key' \<and> unode_inv n \<and> sl_offset key' = sl_offset key \<and>
    ((\<exists>b them. slice_bits key = slice_bits key' @ [b] \<and>
        n = (if b then Branch them (ref_from_owned want) else Branch (ref_from_owned want) them)) \<or>
     (\<exists>k. slice_bits key = slice_bits key' @ slice_bits k \<and> ext_key_inv k \<and>
        n = Extension k (ref_from_owned want)))"
  proof (cases item)
    case (ItemBranch child)
    then obtain b where pb: "pop_back key = Some (b, key')" and
      n: "n = (if b then Branch (ref_from_owned child) (ref_from_owned want)
              else Branch (ref_from_owned want) (ref_from_owned child))"
      using assms(4) by (auto simp: item_node_def Let_def split: option.splits)
    have "unode_inv n" using assms(2,3) ItemBranch by (simp add: n owned_ref_inv_def)
    with pop_back_Some[OF assms(1) pb] n show ?thesis by blast
  next
    case (ItemExtension len)
    then obtain k where pb: "pop_back_slice key len = Some (k, key')" and
      k: "0 < sl_length k" "slice_bytes_len k \<le> MAX_EXTENSION_KEY_SIZE"
      and n: "n = Extension k (ref_from_owned want)"
      using assms(4) by (auto simp: item_node_def outcome_ok_ext_key split: option.splits if_splits)
    note p = pop_back_slice_Some[OF assms(1) pb]
    have "ext_key_inv k" using p(1) k by (simp add: ext_key_inv_def)
    moreover have "slice_bits key = slice_bits key' @ slice_bits k" using p(5,6) by simp
    ultimately show ?thesis using p assms(2) n by (auto simp: owned_ref_inv_def)
  qed
  then show "slice_inv key'" "unode_inv n" "sl_offset key' = sl_offset key"
    "(\<exists>b them. slice_bits key = slice_bits key' @ [b] \<and>
        n = (if b then Branch them (ref_from_owned want) else Branch (ref_from_owned want) them)) \<or>
     (\<exists>k. slice_bits key = slice_bits key' @ slice_bits k \<and> ext_key_inv k \<and>
        n = Extension k (ref_from_owned want))" by blast+
qed

text \<open>
  A successful verification walks down the tree: along the key there is a subtree whose
  reference is the one that was claimed.
\<close>

lemma verify_impl_sound:
  assumes d: "digest_inv d" and t: "mtree_inv off t" and r: "mref d t = RefNode () root"
  shows "verify_impl d root key want items = Some () \<Longrightarrow> slice_inv key \<Longrightarrow> owned_ref_inv want \<Longrightarrow>
    list_all item_inv items \<Longrightarrow>
    inj_on d (mpreimages d t \<union> verify_preimages d key want items) \<Longrightarrow>
    \<exists>s. msub t (slice_bits key) s \<and> mref d s = ref_from_owned want"
proof (induction items arbitrary: key want)
  case Nil
  then have "slice_bits key = []" "want = owned_ref_node root"
    by (auto simp: slice_is_empty_def owned_ref_node_def split: if_splits)
  then show ?case using r by (simp add: ref_from_owned_def owned_ref_node_def)
next
  case (Cons item items)
  obtain key' n where nd: "item_node key want item = Some (key', n)"
    and v: "verify_impl d root key' (owned_ref_to d n) items = Some ()"
    using Cons.prems(1) by (auto split: option.splits)
  note i = item_node_Some[OF Cons.prems(2,3) _ nd]
  have ni: "slice_inv key'" "unode_inv n" using i Cons.prems(4) by auto
  have inj: "inj_on d (mpreimages d t \<union> verify_preimages d key want (item # items))"
    by (rule Cons.prems(5))
  have "owned_ref_inv (owned_ref_to d n)"
    using d by (simp add: owned_ref_inv_def owned_ref_to_def owned_ref_node_def node_hash_def digest_inv_def)
  moreover have "inj_on d (mpreimages d t \<union> verify_preimages d key' (owned_ref_to d n) items)"
    by (rule inj_on_subset[OF inj]) (auto simp: nd)
  ultimately obtain s where s: "msub t (slice_bits key') s" "mref d s = RefNode () (node_hash d n)"
    using Cons.IH[OF v ni(1)] Cons.prems(4) by auto
  then obtain m where m: "mroot d s m" "node_hash d m = node_hash d n" unfolding mref_RefNode by blast
  have minv: "unode_inv m" "hash_preimage m \<in> mpreimages d t"
    using mroot_inv[OF d msub_inv[OF s(1) t] m(1)] msub_preimages[OF s(1)] by auto
  have "hash_preimage m = hash_preimage n"
    by (rule inj_onD[OF inj]) (use m(2) minv(2) in \<open>auto simp: node_hash_def nd\<close>)
  then have same: "same_node m n" using hash_preimage_inject[OF minv(1) ni(2)] by simp
  have "(\<exists>b them. slice_bits key = slice_bits key' @ [b] \<and>
        n = (if b then Branch them (ref_from_owned want) else Branch (ref_from_owned want) them)) \<or>
     (\<exists>k. slice_bits key = slice_bits key' @ slice_bits k \<and> ext_key_inv k \<and>
        n = Extension k (ref_from_owned want))" using i(4) Cons.prems(4) by simp
  then show ?case
  proof (elim disjE exE conjE)
    fix b them assume key: "slice_bits key = slice_bits key' @ [b]"
      and n: "n = (if b then Branch them (ref_from_owned want) else Branch (ref_from_owned want) them)"
    then obtain l r' where sb: "s = MBranch l r'" using same m(1) by (cases s; cases b) auto
    then have "mref d (if b then r' else l) = ref_from_owned want"
      using same m(1) n by (cases b) auto
    then show ?thesis using msub_branch[of t "slice_bits key'" l r' b] s(1) key sb by metis
  next
    fix k assume key: "slice_bits key = slice_bits key' @ slice_bits k" and k: "ext_key_inv k"
      and n: "n = Extension k (ref_from_owned want)"
    then obtain k' c where se: "s = MExt k' c" using same m(1) by (cases s) auto
    then have kk: "slice_bits k' = slice_bits k" "mref d c = ref_from_owned want"
      using same m(1) n by auto
    have "sl_length k' = sl_length k" using kk(1) by (metis length_slice_bits)
    then have "msub t (slice_bits key' @ slice_bits k') c"
      using msub_ext[of t "slice_bits key'" k' c] s(1) se k by (simp add: ext_key_inv_def)
    then show ?thesis using kk key by metis
  qed
qed

definition key_bits :: "byte list \<Rightarrow> bool list" where
  "key_bits key = map (bit_at key) [0..<8 * length key]"

lemma slice_from_bytes_key:
  assumes "slice_from_bytes key = Some k"
  shows "slice_inv k" "sl_offset k = 0" "slice_bits k = key_bits key"
  using slice_from_bytes_Some[OF assms] by (simp_all add: key_bits_def)

lemma membership_sound:
  assumes d: "digest_inv d" and t: "mtree_inv 0 t" and r: "mref d t = RefNode () root"
    and items: "list_all item_inv items" and vh: "length vh = 32"
    and v: "membership_verify d items root key vh" and k: "slice_from_bytes key = Some k"
    and inj: "inj_on d (mpreimages d t \<union> verify_preimages d k (owned_ref_value vh) items)"
  shows "mlookup t (key_bits key) = Some vh"
proof -
  note ki = slice_from_bytes_key[OF k]
  have vi: "verify_impl d root k (owned_ref_value vh) items = Some ()"
    using v k by (auto simp: membership_verify_def split: if_splits)
  have "owned_ref_inv (owned_ref_value vh)" using vh by (simp add: owned_ref_inv_def owned_ref_value_def)
  from verify_impl_sound[OF d t r vi ki(1) this items inj] obtain s where
    s: "msub t (key_bits key) s" "mref d s = RefValue () vh"
    using ki(3) by (auto simp: ref_from_owned_def owned_ref_value_def)
  then have "s = MValue vh" by (cases s) auto
  then show ?thesis using msub_lookup[OF s(1), of "[]"] by simp
qed

fun actual_inv :: "actual \<Rightarrow> bool" where
  "actual_inv (ActualBranch l r) \<longleftrightarrow> owned_ref_inv l \<and> owned_ref_inv r"
| "actual_inv (ActualExtension n buf c) \<longleftrightarrow> owned_ref_inv c"
| "actual_inv (LookupKeyLeft n h) \<longleftrightarrow> 0 < n \<and> length h = 32"

text \<open>The byte strings hashed by \<open>get_reference\<close>.\<close>

fun actual_preimages :: "actual \<Rightarrow> byte list set" where
  "actual_preimages (ActualBranch l r) =
     {hash_preimage (Branch (ref_from_owned l) (ref_from_owned r))}"
| "actual_preimages (ActualExtension n buf c) =
     (case ext_key_decode buf 0 of
        None \<Rightarrow> {} | Some k \<Rightarrow> {hash_preimage (Extension k (ref_from_owned c))})"
| "actual_preimages (LookupKeyLeft n h) = {}"

lemma mlookup_node_Nil: "mref d s = RefNode () h \<Longrightarrow> mtree_inv off s \<Longrightarrow> mlookup s [] = None"
  by (cases s) (auto simp: ext_key_inv_def dest: arg_cong[of _ _ length])

lemma get_reference_inv:
  assumes d: "digest_inv d" and a: "actual_inv act" and k0: "slice_from_bytes key = Some k0"
    and g: "get_reference d (Some act) key = Some (k, want)"
  shows "slice_inv k" "owned_ref_inv want"
proof -
  note ki = slice_from_bytes_key[OF k0]
  have to: "owned_ref_inv (owned_ref_to d n)" for n :: "(unit, unit) node"
    using d by (simp add: owned_ref_inv_def owned_ref_to_def owned_ref_node_def node_hash_def digest_inv_def)
  have "slice_inv k \<and> owned_ref_inv want"
    using g k0 a ki(1) to pop_back_slice_Some(2)[OF ki(1)]
    by (cases act) (auto simp: get_reference_def owned_ref_inv_def owned_ref_value_def
        split: option.splits if_splits)
  then show "slice_inv k" "owned_ref_inv want" by auto
qed

lemma not_prefix_lookup:
  assumes "mtree_inv (sl_offset suffix) (MExt k' c)" "slice_inv suffix" "ext_key_inv k"
    and "sl_offset k' = sl_offset k" "slice_bits k' = slice_bits k" "\<not> starts_with suffix k"
  shows "mlookup (MExt k' c) (slice_bits suffix) = None"
proof -
  have len: "sl_length k' = sl_length k" using assms(5) by (metis length_slice_bits)
  have "\<nexists>rest. slice_bits suffix = slice_bits k @ rest"
    using assms starts_with_iff[of suffix k] by (auto simp: ext_key_inv_def)
  then have "take (sl_length k') (slice_bits suffix) \<noteq> slice_bits k'"
    unfolding len assms(5) by (metis append_take_drop_id)
  then show ?thesis by simp
qed

lemma non_membership_sound:
  assumes d: "digest_inv d" and t: "mtree_inv 0 t" and r: "mref d t = RefNode () root"
    and ne: "root \<noteq> EMPTY_TRIE_ROOT"
    and items: "list_all item_inv items" and a: "actual_inv act"
    and v: "non_membership_verify d (Some act) items root key"
    and g: "get_reference d (Some act) key = Some (k, want)"
    and inj: "inj_on d (mpreimages d t \<union> actual_preimages act \<union> verify_preimages d k want items)"
  shows "mlookup t (key_bits key) = None"
proof -
  obtain k0 where k0: "slice_from_bytes key = Some k0"
    using g by (auto simp: get_reference_def split: option.splits)
  note ki = slice_from_bytes_key[OF k0] and gi = get_reference_inv[OF d a k0 g]
  have vi: "verify_impl d root k want items = Some ()"
    using v g ne by (auto simp: non_membership_verify_def split: if_splits)
  have inj1: "inj_on d (mpreimages d t \<union> verify_preimages d k want items)"
    by (rule inj_on_subset[OF inj]) auto
  from verify_impl_sound[OF d t r vi gi items inj1] obtain s where
    s: "msub t (slice_bits k) s" "mref d s = ref_from_owned want" by blast
  have sinv: "mtree_inv (wrapping_add 0 (sl_length k)) s" using msub_inv[OF s(1) t] by simp
  show ?thesis
  proof (cases act)
    case (ActualBranch l r)
    then have "k = k0" "mref d s = RefNode () (or_hash want)"
      using g k0 s(2) by (auto simp: get_reference_def owned_ref_to_def owned_ref_node_def ref_from_owned_def)
    then show ?thesis
      using msub_lookup[OF s(1), of "[]"] mlookup_node_Nil[OF _ sinv] ki(3) by simp
  next
    case (LookupKeyLeft len h)
    then obtain suf where pb: "pop_back_slice k0 len = Some (suf, k)" and w: "want = owned_ref_value h"
      using g k0 by (auto simp: get_reference_def split: option.splits)
    note p = pop_back_slice_Some[OF ki(1) pb]
    have "s = MValue h" using s(2) w by (cases s) (auto simp: ref_from_owned_def owned_ref_value_def)
    moreover have "slice_bits suf \<noteq> []"
      using p(3,6) a LookupKeyLeft by (metis actual_inv.simps(3) diff_diff_cancel length_0_conv length_drop length_slice_bits less_irrefl)
    moreover have "key_bits key = slice_bits k @ slice_bits suf" using p(5,6) ki(3) by simp
    ultimately show ?thesis using msub_lookup[OF s(1), of "slice_bits suf"] by simp
  next
    case (ActualExtension len buf child)
    then obtain suf e where pb: "pop_back_slice k0 len = Some (suf, k)" and e: "ext_key_decode buf 0 = Some e"
      and ns: "\<not> starts_with suf e" and w: "want = owned_ref_to d (Extension e (ref_from_owned child))"
      using g k0 by (auto simp: get_reference_def split: option.splits if_splits)
    note p = pop_back_slice_Some[OF ki(1) pb]
    have ei: "ext_key_inv e" by (rule encode_decode_key(1)[OF e])
    let ?n = "Extension e (ref_from_owned child)"
    obtain m where m: "mroot d s m" "node_hash d m = node_hash d ?n"
      using s(2) w by (auto simp: mref_RefNode)
    note mi = mroot_inv[OF d sinv m(1)]
    have "hash_preimage m = hash_preimage ?n"
      by (rule inj_onD[OF inj])
        (use m(2) mi msub_preimages[OF s(1)] ActualExtension e in \<open>auto simp: node_hash_def\<close>)
    then have "same_node m ?n"
      using hash_preimage_inject[of m ?n] mi a ActualExtension ei by (auto simp: owned_ref_inv_def)
    then obtain k' c where se: "s = MExt k' c" "sl_offset k' = sl_offset e" "slice_bits k' = slice_bits e"
      using m(1) by (cases s) auto
    have off: "sl_offset suf = wrapping_add 0 (sl_length k)"
      using p(7) ki(2) arg_cong[OF p(5), of length] by simp
    have "mlookup (MExt k' c) (slice_bits suf) = None"
      by (rule not_prefix_lookup[OF _ p(1) ei se(2,3) ns]) (use sinv se(1) off in simp)
    moreover have "key_bits key = slice_bits k @ slice_bits suf" using p(5,6) ki(3) by simp
    ultimately show ?thesis using msub_lookup[OF s(1), of "slice_bits suf"] se(1) by simp
  qed
qed

section \<open>Completeness\<close>

text \<open>
  \<open>mpath d t key items s\<close>: following \<open>key\<close> from \<open>t\<close> leads to
  \<open>s\<close> and the lookup pushes \<open>items\<close> on the way.
\<close>

inductive mpath ::
  "(byte list \<Rightarrow> hash) \<Rightarrow> mtree \<Rightarrow> bool list \<Rightarrow> proof_item list \<Rightarrow> mtree \<Rightarrow> bool" for d where
  here: "mpath d t [] [] t"
| branch: "mpath d (if b then r else l) key items s \<Longrightarrow>
    mpath d (MBranch l r) (b # key) (item_branch b (mref d l) (mref d r) # items) s"
| ext: "mpath d c key items s \<Longrightarrow>
    mpath d (MExt k c) (slice_bits k @ key) (ItemExtension (sl_length k) # items) s"

lemma mpath_msub: "mpath d t key items s \<Longrightarrow> mtree_inv off t \<Longrightarrow> msub t key s"
  by (induction arbitrary: off rule: mpath.induct) (auto simp: ext_key_inv_def split: if_splits)

lemma mpath_inv:
  "mpath d t key items s \<Longrightarrow> mtree_inv off t \<Longrightarrow> mtree_inv (wrapping_add off (length key)) s"
  using msub_inv mpath_msub by blast

lemma ref_from_owned_from [simp]: "ref_from_owned (owned_ref_from r) = r"
  for r :: "(unit, unit) reference"
  by (cases r) (auto simp: ref_from_owned_def owned_ref_from_def)

lemma pop_back_snoc:
  assumes "slice_inv K" "slice_bits K = pre @ [b]"
  obtains K' where "pop_back K = Some (b, K')" "slice_inv K'" "slice_bits K' = pre" "sl_offset K' = sl_offset K"
proof -
  have "0 < sl_length K" using arg_cong[OF assms(2), of length] by simp
  then obtain b' K' where pb: "pop_back K = Some (b', K')"
    by (auto simp: pop_back_def checked_sub_def Let_def)
  from pop_back_Some[OF assms(1) pb] assms(2) show thesis by (intro that[of K']) (auto simp: pb)
qed

lemma pop_back_slice_append:
  assumes "slice_inv K" "slice_bits K = pre @ bs"
  obtains suf K' where "pop_back_slice K (length bs) = Some (suf, K')" "slice_inv suf" "slice_inv K'"
    "slice_bits suf = bs" "slice_bits K' = pre" "sl_offset K' = sl_offset K"
    "sl_offset suf = wrapping_add (sl_offset K) (length pre)"
proof -
  have len: "sl_length K = length pre + length bs" using arg_cong[OF assms(2), of length] by simp
  then obtain suf K' where pb: "pop_back_slice K (length bs) = Some (suf, K')"
    using split_at_ex[of "length pre" K] by (auto simp: pop_back_slice_def checked_sub_def)
  note p = pop_back_slice_Some[OF assms(1) pb]
  show thesis by (rule that[OF pb]) (use p len assms(2) in auto)
qed

lemma ext_key_same_try_from:
  assumes "ext_key_inv k" "sl_offset suf = sl_offset k" "slice_bits suf = slice_bits k" "slice_inv suf"
  shows "outcome_ok (ext_key_try_from suf) = Some suf" "ext_key_inv suf"
proof -
  have "sl_length suf = sl_length k" using assms(3) by (metis length_slice_bits)
  then show "outcome_ok (ext_key_try_from suf) = Some suf" "ext_key_inv suf"
    using assms by (auto simp: outcome_ok_ext_key ext_key_inv_def slice_bytes_len_def)
qed

lemma uhash_cong:
  "same_node n n' \<Longrightarrow> unode_inv n \<Longrightarrow> unode_inv n' \<Longrightarrow> node_hash d n = node_hash d n'"
proof (induction n n' rule: same_node.induct)
  case (2 k c k' c')
  then have "encode_into k tag = encode_into k' tag" for tag by (intro encode_into_cong) auto
  with 2 show ?case by (simp add: node_hash_def hash_preimage_def)
qed (auto simp: node_hash_def hash_preimage_def)

lemma owned_ref_from_node: "owned_ref_from (RefNode p (node_hash d n)) = owned_ref_to d n"
  by (simp add: owned_ref_from_def owned_ref_to_def owned_ref_node_def)

text \<open>Verifying the items of a path, last first, leads back to the start of the path.\<close>

lemma mpath_verify:
  assumes d: "digest_inv d"
  shows "mpath d t key items s \<Longrightarrow> mtree_inv off t \<Longrightarrow> slice_inv K \<Longrightarrow> slice_bits K = pre @ key \<Longrightarrow>
    wrapping_add (sl_offset K) (length pre) = off \<Longrightarrow>
    \<exists>K'. slice_inv K' \<and> slice_bits K' = pre \<and> sl_offset K' = sl_offset K \<and>
      verify_impl d root K (owned_ref_from (mref d s)) (rev items @ rest) =
      verify_impl d root K' (owned_ref_from (mref d t)) rest"
proof (induction arbitrary: off K pre rest rule: mpath.induct)
  case (here t)
  then show ?case by auto
next
  case (branch b r l key items s)
  define it where "it = item_branch b (mref d l) (mref d r)"
  have inv: "mtree_inv (wrapping_add off 1) (if b then r else l)" using branch.prems(1) by (cases b) auto
  have "wrapping_add (sl_offset K) (length (pre @ [b])) = wrapping_add off 1"
    using branch.prems(4) wrapping_add_add[of "sl_offset K" "length pre" 1] by simp
  then obtain K1 where K1: "slice_inv K1" "slice_bits K1 = pre @ [b]" "sl_offset K1 = sl_offset K"
    "verify_impl d root K (owned_ref_from (mref d s)) (rev items @ it # rest) =
     verify_impl d root K1 (owned_ref_from (mref d (if b then r else l))) (it # rest)"
    using branch.IH[OF inv branch.prems(2), of "pre @ [b]" "it # rest"] branch.prems(3) by auto
  obtain K' where K': "pop_back K1 = Some (b, K')" "slice_inv K'" "slice_bits K' = pre"
    "sl_offset K' = sl_offset K1"
    by (rule pop_back_snoc[OF K1(1,2)])
  have "verify_impl d root K1 (owned_ref_from (mref d (if b then r else l))) (it # rest) =
      verify_impl d root K' (owned_ref_from (mref d (MBranch l r))) rest"
    by (cases b) (simp_all add: it_def item_branch_def item_node_def K'(1) Let_def owned_ref_from_node)
  then show ?case using K1 K' by (auto simp: it_def)
next
  case (ext c key items s k)
  define it where "it = ItemExtension (sl_length k)"
  have ki: "ext_key_inv k" "sl_offset k = off" and ci: "mtree_inv (wrapping_add off (sl_length k)) c"
    using ext.prems(1) by auto
  have "wrapping_add (sl_offset K) (length (pre @ slice_bits k)) = wrapping_add off (sl_length k)"
    using ext.prems(4) by (simp flip: wrapping_add_add)
  then obtain K1 where K1: "slice_inv K1" "slice_bits K1 = pre @ slice_bits k" "sl_offset K1 = sl_offset K"
    "verify_impl d root K (owned_ref_from (mref d s)) (rev items @ it # rest) =
     verify_impl d root K1 (owned_ref_from (mref d c)) (it # rest)"
    using ext.IH[OF ci ext.prems(2), of "pre @ slice_bits k" "it # rest"] ext.prems(3) by auto
  obtain suf K' where K': "pop_back_slice K1 (length (slice_bits k)) = Some (suf, K')" "slice_inv suf"
    "slice_inv K'" "slice_bits suf = slice_bits k" "slice_bits K' = pre"
    "sl_offset suf = wrapping_add (sl_offset K1) (length pre)" "sl_offset K' = sl_offset K1"
    by (rule pop_back_slice_append[OF K1(1,2)])
  have so: "sl_offset suf = sl_offset k" using K'(6) K1(3) ext.prems(4) ki(2) by simp
  note tf = ext_key_same_try_from[OF ki(1) so K'(4,2)]
  have "node_hash d (Extension suf (mref d c)) = node_hash d (Extension k (mref d c))"
    by (rule uhash_cong) (use so K'(4) tf(2) ki(1) mref_hash_length[OF d ci] in auto)
  then have "verify_impl d root K1 (owned_ref_from (mref d c)) (it # rest) =
      verify_impl d root K' (owned_ref_from (mref d (MExt k c))) rest"
    using K'(1) tf(1) by (simp add: it_def item_node_def owned_ref_from_node owned_ref_to_def)
  then show ?case using K1 K' by (auto simp: it_def)
qed

lemma mpath_verified:
  assumes d: "digest_inv d" and p: "mpath d t key items s" and t: "mtree_inv (sl_offset K) t"
    and r: "mref d t = RefNode () root" and K: "slice_inv K" "slice_bits K = key"
  shows "verify_impl d root K (owned_ref_from (mref d s)) (rev items) = Some ()"
proof -
  have "wrapping_add (sl_offset K) (length []) = sl_offset K" by simp
  from mpath_verify[OF d p t K(1), of "[]" root "[]"] K(2) this obtain K' where
    K': "slice_bits K' = []" "verify_impl d root K (owned_ref_from (mref d s)) (rev items) =
      verify_impl d root K' (owned_ref_from (mref d t)) []" by auto
  from K'(1) have "slice_is_empty K'" unfolding slice_is_empty_def using slice_bits_eq_Nil by blast
  then show ?thesis using K'(2) r by (simp add: owned_ref_from_def)
qed

text \<open>What a lookup reports when it stops at subtree \<open>s\<close> with \<open>rest\<close> left of the key.\<close>

fun refutes :: "(byte list \<Rightarrow> hash) \<Rightarrow> mtree \<Rightarrow> bool list \<Rightarrow> actual \<Rightarrow> bool" where
  "refutes d (MBranch l r) rest act \<longleftrightarrow>
     rest = [] \<and> act = ActualBranch (owned_ref_from (mref d l)) (owned_ref_from (mref d r))"
| "refutes d (MExt k c) rest act \<longleftrightarrow>
     take (sl_length k) rest \<noteq> slice_bits k \<and>
     act = ActualExtension (length rest) (take (snd (encode_into k 0)) (fst (encode_into k 0)))
             (owned_ref_from (mref d c))"
| "refutes d (MValue h) rest act \<longleftrightarrow> rest \<noteq> [] \<and> act = LookupKeyLeft (length rest) h"

lemma refutes_lookup: "refutes d s rest act \<Longrightarrow> mlookup s rest = None"
  by (cases s) auto

lemma non_membership_complete:
  assumes d: "digest_inv d" and t: "mtree_inv 0 t" and r: "mref d t = RefNode () root"
    and p: "mpath d t pre items s" and rf: "refutes d s rest act"
    and k: "slice_from_bytes key = Some K" and kb: "slice_bits K = pre @ rest"
  shows "non_membership_verify d (Some act) (rev items) root key"
proof -
  note ki = slice_from_bytes_key[OF k]
  obtain suf K' where K': "pop_back_slice K (length rest) = Some (suf, K')" "slice_inv suf" "slice_inv K'"
    "slice_bits suf = rest" "slice_bits K' = pre" "sl_offset K' = sl_offset K"
    "sl_offset suf = wrapping_add (sl_offset K) (length pre)"
    by (rule pop_back_slice_append[OF ki(1) kb])
  have sinv: "mtree_inv (wrapping_add 0 (length pre)) s" by (rule mpath_inv[OF p t])
  have ver: "verify_impl d root L (owned_ref_from (mref d s)) (rev items) = Some ()"
    if "slice_inv L" "slice_bits L = pre" "sl_offset L = 0" for L
    by (rule mpath_verified[OF d p _ r]) (use that t in auto)
  show ?thesis
  proof (cases s)
    case (MBranch l r')
    then have g: "get_reference d (Some act) key = Some (K, owned_ref_from (mref d s))"
      using rf k by (simp add: get_reference_def owned_ref_from_node)
    show ?thesis using ver[of K] ki kb rf MBranch g by (simp add: non_membership_verify_def)
  next
    case (MValue h)
    then have g: "get_reference d (Some act) key = Some (K', owned_ref_from (mref d s))"
      using rf k K'(1) by (simp add: get_reference_def owned_ref_from_def owned_ref_value_def)
    then show ?thesis using ver[of K'] K' ki by (simp add: non_membership_verify_def)
  next
    case (MExt e c)
    obtain buf n where en: "encode_into e 0 = (buf, n)" by fastforce
    have ei: "ext_key_inv e" "sl_offset e = wrapping_add 0 (length pre)"
      and ci: "mtree_inv (wrapping_add (wrapping_add 0 (length pre)) (sl_length e)) c"
      using sinv MExt by auto
    obtain e' where e': "ext_key_decode (take n buf) 0 = Some e'" "ext_key_inv e'"
      "sl_offset e' = sl_offset e" "slice_bits e' = slice_bits e"
      using decode_encode_key[OF ei(1) en order.refl] by metis
    have "\<not> starts_with suf e'"
      using rf MExt starts_with_iff[OF K'(2), of e'] e' K'(4) by (auto simp: ext_key_inv_def)
    moreover have "node_hash d (Extension e' (mref d c)) = node_hash d (Extension e (mref d c))"
      by (rule uhash_cong) (use e' ei mref_hash_length[OF d ci] in auto)
    ultimately have g: "get_reference d (Some act) key = Some (K', owned_ref_from (mref d s))"
      using rf k K'(1) e'(1) MExt en
      by (simp add: get_reference_def owned_ref_from_node owned_ref_to_def)
    then show ?thesis using ver[of K'] K' ki by (simp add: non_membership_verify_def)
  qed
qed

lemma membership_complete:
  assumes d: "digest_inv d" and t: "mtree_inv 0 t" and r: "mref d t = RefNode () root"
    and ne: "root \<noteq> EMPTY_TRIE_ROOT" and p: "mpath d t (key_bits key) items (MValue h)"
    and k: "slice_from_bytes key = Some K"
  shows "membership_verify d (rev items) root key h"
proof -
  note ki = slice_from_bytes_key[OF k]
  have "verify_impl d root K (owned_ref_from (mref d (MValue h))) (rev items) = Some ()"
    by (rule mpath_verified[OF d p _ r ki(1,3)]) (use t ki in simp)
  then show ?thesis using ne k by (simp add: membership_verify_def owned_ref_from_def owned_ref_value_def)
qed

section \<open>Properties\<close>

text \<open>
  C25: soundness of membership proofs. If a proof verifies for a key and a value against
  the root hash of a tree, and the digest has no collision among the byte strings hashed
  in the tree and in the verification, then the tree holds that value at that key.
\<close>

theorem membership_proof_sound:
  assumes "digest_inv d" "mtree_inv 0 t" "mref d t = RefNode () root"
    and "list_all item_inv items" "length vh = 32"
    and "slice_from_bytes key = Some k"
    and "inj_on d (mpreimages d t \<union> verify_preimages d k (owned_ref_value vh) items)"
    and "membership_verify d items root key vh"
  shows "mlookup t (key_bits key) = Some vh"
  by (rule membership_sound[OF assms(1-5,8,6,7)])

theorem membership_proof_sound_witness:
  "mlookup (MExt \<lparr>sl_offset = 0, sl_length = 8, sl_ptr = [0xF0]\<rparr> (MValue (replicate 32 1))) (key_bits [0xF0]) =
     Some (replicate 32 1)"
proof -
  let ?k = "\<lparr>sl_offset = 0, sl_length = 8, sl_ptr = [0xF0]\<rparr> :: slice"
  let ?d = "\<lambda>_ :: byte list. replicate 32 (2 :: byte)"
  let ?t = "MExt ?k (MValue (replicate 32 1))"
  have k: "slice_from_bytes [0xF0] = Some ?k" by (simp add: slice_from_bytes_def)
  have i: "item_node ?k (owned_ref_value (replicate 32 1)) (ItemExtension 8) =
      Some (\<lparr>sl_offset = 0, sl_length = 0, sl_ptr = [0xF0]\<rparr>, Extension ?k (RefValue () (replicate 32 1)))"
    by code_simp
  have inj: "inj_on ?d (mpreimages ?d ?t \<union> verify_preimages ?d ?k (owned_ref_value (replicate 32 1)) [ItemExtension 8])"
    using i by simp
  have "membership_verify ?d [ItemExtension 8] (replicate 32 2) [0xF0] (replicate 32 1)"
    using k i by (simp add: membership_verify_def EMPTY_TRIE_ROOT_def owned_ref_to_def owned_ref_node_def
        node_hash_def slice_is_empty_def)
  then show ?thesis
    by (rule membership_proof_sound[OF _ _ _ _ _ k inj, rotated 5])
      (simp_all add: digest_inv_def ext_key_inv_def slice_inv_def slice_bytes_len_def bytes_len_def
        MAX_EXTENSION_KEY_SIZE_def node_hash_def)
qed

text \<open>
  C26: soundness of non-membership proofs. If a proof of absence verifies for a key
  against the root hash of a tree, and the digest has no collision among the byte strings
  hashed in the tree and in the verification, then the tree holds no value at that key.
\<close>

theorem non_membership_proof_sound:
  assumes "digest_inv d" "mtree_inv 0 t" "mref d t = RefNode () root" "root \<noteq> EMPTY_TRIE_ROOT"
    and "list_all item_inv items" "actual_inv act"
    and "get_reference d (Some act) key = Some (k, want)"
    and "inj_on d (mpreimages d t \<union> actual_preimages act \<union> verify_preimages d k want items)"
    and "non_membership_verify d (Some act) items root key"
  shows "mlookup t (key_bits key) = None"
  by (rule non_membership_sound[OF assms(1-6,9,7,8)])

theorem non_membership_proof_sound_witness:
  "mlookup (MExt \<lparr>sl_offset = 0, sl_length = 8, sl_ptr = [0xF0]\<rparr> (MValue (replicate 32 1))) (key_bits [0xF0, 0x00]) = None"
proof -
  let ?k = "\<lparr>sl_offset = 0, sl_length = 8, sl_ptr = [0xF0]\<rparr> :: slice"
  let ?k' = "\<lparr>sl_offset = 0, sl_length = 8, sl_ptr = [0xF0, 0]\<rparr> :: slice"
  let ?d = "\<lambda>_ :: byte list. replicate 32 (2 :: byte)"
  let ?t = "MExt ?k (MValue (replicate 32 1))"
  let ?act = "LookupKeyLeft 8 (replicate 32 1)"
  have g: "get_reference ?d (Some ?act) [0xF0, 0x00] = Some (?k', owned_ref_value (replicate 32 1))"
    by (simp add: get_reference_def slice_from_bytes_def pop_back_slice_def split_at_def checked_sub_def)
  have i: "item_node ?k' (owned_ref_value (replicate 32 1)) (ItemExtension 8) =
      Some (\<lparr>sl_offset = 0, sl_length = 0, sl_ptr = [0xF0, 0]\<rparr>, Extension ?k' (RefValue () (replicate 32 1)))"
    by code_simp
  have p: "hash_preimage (Extension ?k' (RefValue () (replicate 32 1)) :: (unit, unit) node) =
      hash_preimage (Extension ?k (RefValue () (replicate 32 1)) :: (unit, unit) node)" by code_simp
  have inj: "inj_on ?d (mpreimages ?d ?t \<union> actual_preimages ?act \<union>
      verify_preimages ?d ?k' (owned_ref_value (replicate 32 1)) [ItemExtension 8])"
    using i p by simp
  have "non_membership_verify ?d (Some ?act) [ItemExtension 8] (replicate 32 2) [0xF0, 0x00]"
    using g i by (simp add: non_membership_verify_def owned_ref_to_def owned_ref_node_def
        node_hash_def slice_is_empty_def)
  then show ?thesis
    by (rule non_membership_proof_sound[OF _ _ _ _ _ _ g inj, rotated 6])
      (simp_all add: digest_inv_def ext_key_inv_def slice_inv_def slice_bytes_len_def bytes_len_def
        MAX_EXTENSION_KEY_SIZE_def node_hash_def EMPTY_TRIE_ROOT_def)
qed

end
