(* ===== verification/Trie_Get.thy ===== *)
theory Trie_Get
  imports Proofs
begin

unbundle bit_operations_syntax

text \<open>
  The trie object and its lookups, \<^verbatim>\<open>common/sealable-trie/src/trie.rs\<close>. What the
  blocks of the allocator hold is described by a \<open>tree\<close> with the pointers of
  the nodes in it; a sealed node is a leaf that carries its hash only. Looking up a
  key in memory agrees with the lookup in the tree, and the proof that is returned
  with the result verifies against the root hash.
\<close>

section \<open>The trie\<close>

datatype trie_error =
  EmptyKey | KeyTooLong | Sealed | BadKeyPrefix | NotFound | OutOfMemory | BadRawNode decode_error

record 's trie =
  tr_root_ptr :: "ptr option"
  tr_root_hash :: hash
  tr_alloc :: 's

definition trie_new :: "'s \<Rightarrow> 's trie" where
  "trie_new a = \<lparr>tr_root_ptr = None, tr_root_hash = EMPTY_TRIE_ROOT, tr_alloc = a\<rparr>"

definition trie_is_empty :: "'s trie \<Rightarrow> bool" where
  "trie_is_empty t \<longleftrightarrow> tr_root_hash t = EMPTY_TRIE_ROOT"

definition trie_into_parts :: "'s trie \<Rightarrow> 's \<times> ptr option \<times> hash" where
  "trie_into_parts t = (tr_alloc t, tr_root_ptr t, tr_root_hash t)"

definition trie_from_parts :: "'s \<Rightarrow> ptr option \<Rightarrow> hash \<Rightarrow> 's trie" where
  "trie_from_parts a p h = \<lparr>tr_root_ptr = p, tr_root_hash = h, tr_alloc = a\<rparr>"

section \<open>Lookup\<close>

lemma ext_key_decode_pos: "ext_key_decode src tag = Some k \<Longrightarrow> 0 < sl_length k"
  by (auto simp: ext_key_decode_def outcome_ok_ext_key Let_def case_prod_unfold
      split: option.splits if_splits)

lemma raw_decode_ext_pos: "raw_decode raw = Ok (Extension k c) \<Longrightarrow> 0 < sl_length k"
  by (auto simp: raw_decode_def split_array_def bind_outcome_Ok ok_or_Ok split: if_splits
      dest: ext_key_decode_pos)

lemma pop_front_less: "pop_front s = Some (b, s') \<Longrightarrow> sl_length s' < sl_length s"
  by (auto simp: pop_front_def checked_sub_def Let_def split: if_splits)

lemma strip_prefix_less:
  "strip_prefix s k = (True, s') \<Longrightarrow> 0 < sl_length k \<Longrightarrow> sl_length s' < sl_length s"
  by (auto simp: strip_prefix_def split_at_def checked_sub_def split: if_splits option.splits)

text \<open>
  The loop of \<open>get_impl\<close>; \<open>getf\<close> is \<open>self.alloc.get\<close>, with
  \<open>None\<close> for a panic. The hash of the node is only used in a debug assertion.
\<close>

definition get_child ::
  "(ptr option \<Rightarrow> (trie_error, hash option \<times> trie_proof option) outcome) \<Rightarrow>
   mem_ref \<Rightarrow> slice \<Rightarrow> builder option \<Rightarrow> (trie_error, hash option \<times> trie_proof option) outcome" where
  "get_child continue child key prf =
     (case child of
        RefNode p _ \<Rightarrow> continue p
      | RefValue sealed h \<Rightarrow>
          if sealed then Err Sealed
          else if sl_length key \<noteq> 0
          then Ok (None, map_option (\<lambda>b. lookup_key_left (builder_reversed b) (sl_length key) h) prf)
          else Ok (Some h, map_option (\<lambda>b. builder_build (builder_reversed b)) prf))"

lemma get_child_cong [fundef_cong]:
  assumes "c = c'" "k = k'" "b = b'" and "\<And>p. f p = g p"
  shows "get_child f c k b = get_child g c' k' b'"
  using assms by (simp add: get_child_def split: reference.splits)

function get_loop ::
  "(ptr \<Rightarrow> raw_node option) \<Rightarrow> slice \<Rightarrow> ptr option \<Rightarrow> builder option \<Rightarrow>
   (trie_error, hash option \<times> trie_proof option) outcome" where
  "get_loop getf key node_ptr prf =
     (case node_ptr of
        None \<Rightarrow> Err Sealed
      | Some p \<Rightarrow>
          (case getf p of
             None \<Rightarrow> Panic
           | Some raw \<Rightarrow>
               (case raw_decode raw of
                  Err e \<Rightarrow> Err (BadRawNode e)
                | Panic \<Rightarrow> Panic
                | Ok (Branch left right) \<Rightarrow>
                    (case pop_front key of
                       Some (us, key) \<Rightarrow>
                         (let prf = map_option (\<lambda>b. builder_push b (item_branch us left right)) prf
                          in get_child (\<lambda>p. get_loop getf key p prf)
                               (if us then right else left) key prf)
                     | None \<Rightarrow>
                         Ok (None, map_option (\<lambda>b.
                               reached_branch (builder_reversed b) left right) prf))
                | Ok (Extension ext_key child) \<Rightarrow>
                    (case strip_prefix key ext_key of
                       (True, key) \<Rightarrow>
                         (let prf = map_option (\<lambda>b.
                                builder_push b (the (item_extension (sl_length ext_key)))) prf
                          in get_child (\<lambda>p. get_loop getf key p prf) child key prf)
                     | (False, key) \<Rightarrow>
                         Ok (None, map_option (\<lambda>b.
                               reached_extension (builder_reversed b) (sl_length key) ext_key child)
                               prf)))))"
  by pat_completeness auto
termination
  by (relation "measure (\<lambda>(getf, key, p, prf). sl_length key)")
    (auto dest!: pop_front_less dest: strip_prefix_less[OF sym raw_decode_ext_pos])

declare get_loop.simps [simp del]

definition get_impl ::
  "(ptr \<Rightarrow> raw_node option) \<Rightarrow> ptr option \<Rightarrow> hash \<Rightarrow> byte list \<Rightarrow> bool \<Rightarrow>
   (trie_error, hash option \<times> trie_proof option) outcome" where
  "get_impl getf root_ptr root_hash key include_proof =
     bind_outcome (ok_or KeyTooLong (slice_from_bytes key)) (\<lambda>key.
       if root_hash = EMPTY_TRIE_ROOT
       then Ok (None, if include_proof then Some empty_trie_proof else None)
       else get_loop getf key root_ptr (if include_proof then Some [] else None))"

definition trie_get ::
  "('s, raw_node) alloc_ops \<Rightarrow> 's trie \<Rightarrow> byte list \<Rightarrow> (trie_error, hash option) outcome" where
  "trie_get ops t key =
     bind_outcome
       (get_impl (al_get ops (tr_alloc t)) (tr_root_ptr t) (tr_root_hash t) key False)
       (\<lambda>(v, _). Ok v)"

definition trie_prove ::
  "('s, raw_node) alloc_ops \<Rightarrow> 's trie \<Rightarrow> byte list \<Rightarrow>
   (trie_error, hash option \<times> trie_proof) outcome" where
  "trie_prove ops t key =
     bind_outcome
       (get_impl (al_get ops (tr_alloc t)) (tr_root_ptr t) (tr_root_hash t) key True)
       (\<lambda>(v, prf). bind_outcome (unwrap_option prf) (\<lambda>prf. Ok (v, prf)))"

section \<open>Trees in memory\<close>

datatype tree =
  TValue bool hash
| TSealed hash
| TBranch ptr tree tree
| TExt ptr slice tree

fun tref :: "(byte list \<Rightarrow> hash) \<Rightarrow> tree \<Rightarrow> mem_ref" where
  "tref d (TValue s h) = RefValue s h"
| "tref d (TSealed h) = RefNode None h"
| "tref d (TBranch p l r) = RefNode (Some p) (node_hash d (Branch (tref d l) (tref d r)))"
| "tref d (TExt p k t) = RefNode (Some p) (node_hash d (Extension k (tref d t)))"

fun tptrs :: "tree \<Rightarrow> ptr list" where
  "tptrs (TValue s h) = []"
| "tptrs (TSealed h) = []"
| "tptrs (TBranch p l r) = p # tptrs l @ tptrs r"
| "tptrs (TExt p k t) = p # tptrs t"

definition hash_inv :: "hash \<Rightarrow> bool" where
  "hash_inv h \<longleftrightarrow> length h = 32 \<and> h \<noteq> EMPTY_TRIE_ROOT"

text \<open>
  A sealed node keeps only its hash, which is the hash of the node that was sealed:
  that of some Merkle tree.
\<close>

definition sealed_inv :: "(byte list \<Rightarrow> hash) \<Rightarrow> u3 \<Rightarrow> hash \<Rightarrow> bool" where
  "sealed_inv d off h \<longleftrightarrow> hash_inv h \<and> (\<exists>m. mtree_inv off m \<and> mref d m = RefNode () h)"

fun tree_inv :: "(byte list \<Rightarrow> hash) \<Rightarrow> u3 \<Rightarrow> tree \<Rightarrow> bool" where
  "tree_inv d off (TValue s h) \<longleftrightarrow> hash_inv h"
| "tree_inv d off (TSealed h) \<longleftrightarrow> sealed_inv d off h"
| "tree_inv d off (TBranch p l r) \<longleftrightarrow>
     valid_ptr p \<and> tree_inv d (wrapping_add off 1) l \<and> tree_inv d (wrapping_add off 1) r"
| "tree_inv d off (TExt p k t) \<longleftrightarrow>
     valid_ptr p \<and> sl_offset k = off \<and> ext_key_inv k \<and> tree_inv d (wrapping_add off (sl_length k)) t"

text \<open>Memory \<open>m\<close> holds the nodes of a tree.\<close>

fun holds :: "(byte list \<Rightarrow> hash) \<Rightarrow> (ptr \<rightharpoonup> raw_node) \<Rightarrow> tree \<Rightarrow> bool" where
  "holds d m (TValue s h) \<longleftrightarrow> True"
| "holds d m (TSealed h) \<longleftrightarrow> True"
| "holds d m (TBranch p l r) \<longleftrightarrow>
     m p = Some (raw_branch (tref d l) (tref d r)) \<and> holds d m l \<and> holds d m r"
| "holds d m (TExt p k t) \<longleftrightarrow> m p = Some (raw_extension k (tref d t)) \<and> holds d m t"

text \<open>
  What the code assumes of SHA-256: 32 bytes, never all zero
  (see the comment on \<open>RawNode\<close> and \<open>EMPTY_TRIE_ROOT\<close>).
\<close>

definition digest_ok :: "(byte list \<Rightarrow> hash) \<Rightarrow> bool" where
  "digest_ok d \<longleftrightarrow> (\<forall>x. hash_inv (d x))"

lemma digest_ok_inv: "digest_ok d \<Longrightarrow> digest_inv d"
  by (simp add: digest_ok_def digest_inv_def hash_inv_def)

lemma tref_hash_inv: "digest_ok d \<Longrightarrow> tree_inv d off t \<Longrightarrow> hash_inv (ref_hash (tref d t))"
  by (cases t) (auto simp: digest_ok_def node_hash_def sealed_inv_def)

lemma tref_inv: "digest_ok d \<Longrightarrow> tree_inv d off t \<Longrightarrow> ref_inv (tref d t)"
  using tref_hash_inv[of d off t] by (cases t) (auto simp: ref_inv_def hash_inv_def)

text \<open>A read function that agrees with the memory.\<close>

definition reads :: "(ptr \<Rightarrow> 'v option) \<Rightarrow> (ptr \<rightharpoonup> 'v) \<Rightarrow> bool" where
  "reads getf m \<longleftrightarrow> (\<forall>p v. m p = Some v \<longrightarrow> getf p = Some v)"

lemma holds_cong: "(\<And>p. p \<in> set (tptrs t) \<Longrightarrow> m p = m' p) \<Longrightarrow> holds d m t = holds d m' t"
  by (induction t) auto

lemma holds_dom: "holds d m t \<Longrightarrow> set (tptrs t) \<subseteq> dom m"
  by (induction t) auto

lemma decode_branch:
  assumes "ref_inv l" "ref_inv r"
  shows "raw_decode (raw_branch l r) = Ok (Branch l r)"
proof -
  have "node_inv (Branch l r)" using assms by simp
  from raw_decode_encode[OF this] obtain n where
    "raw_decode (node_encode (Branch l r)) = Ok n" "same_node (Branch l r) n" by blast
  then show ?thesis by (cases n) (auto simp: node_encode_def)
qed

lemma decode_extension:
  assumes "ext_key_inv k" "ref_inv c"
  obtains k' where "raw_decode (raw_extension k c) = Ok (Extension k' c)" "ext_key_inv k'"
    "sl_offset k' = sl_offset k" "slice_bits k' = slice_bits k" "sl_length k' = sl_length k"
proof -
  have "node_inv (Extension k c)" using assms by simp
  from raw_decode_encode[OF this] obtain n where
    n: "raw_decode (node_encode (Extension k c)) = Ok n" "node_inv n" "same_node (Extension k c) n" by blast
  then obtain k' where k': "n = Extension k' c" "sl_offset k' = sl_offset k" "slice_bits k' = slice_bits k"
    by (cases n) auto
  moreover have "sl_length k' = sl_length k" using k'(3) by (metis length_slice_bits)
  ultimately show thesis using n by (intro that[of k']) (auto simp: node_encode_def)
qed

section \<open>Lookup in a tree\<close>

fun tget :: "tree \<Rightarrow> bool list \<Rightarrow> (trie_error, hash option) outcome" where
  "tget (TValue s h) key = (if s then Err Sealed else if key \<noteq> [] then Ok None else Ok (Some h))"
| "tget (TSealed h) key = Err Sealed"
| "tget (TBranch p l r) key =
     (case key of [] \<Rightarrow> Ok None | b # key \<Rightarrow> tget (if b then r else l) key)"
| "tget (TExt p k t) key =
     (if take (sl_length k) key = slice_bits k then tget t (drop (sl_length k) key) else Ok None)"

text \<open>
  \<open>expands d t m\<close>: the Merkle tree \<open>m\<close> is \<open>t\<close> with every sealed
  node replaced by a tree of the same hash.
\<close>

fun expands :: "(byte list \<Rightarrow> hash) \<Rightarrow> tree \<Rightarrow> mtree \<Rightarrow> bool" where
  "expands d (TValue s h) m \<longleftrightarrow> m = MValue h"
| "expands d (TSealed h) m \<longleftrightarrow> mref d m = RefNode () h"
| "expands d (TBranch p l r) m \<longleftrightarrow> (\<exists>l' r'. m = MBranch l' r' \<and> expands d l l' \<and> expands d r r')"
| "expands d (TExt p k t) m \<longleftrightarrow> (\<exists>t'. m = MExt k t' \<and> expands d t t')"

definition strip_ref :: "('p, 's) reference \<Rightarrow> (unit, unit) reference" where
  "strip_ref r = (case r of RefNode _ h \<Rightarrow> RefNode () h | RefValue _ h \<Rightarrow> RefValue () h)"

lemma owned_ref_from_strip [simp]: "owned_ref_from (strip_ref r) = owned_ref_from r"
  by (simp add: strip_ref_def owned_ref_from_def split: reference.splits)

lemma hash_preimage_strip:
  "hash_preimage (Branch (strip_ref l) (strip_ref r)) = hash_preimage (Branch l r)"
  "hash_preimage (Extension k (strip_ref c)) = hash_preimage (Extension k c)"
  by (auto simp: strip_ref_def hash_preimage_def hash_parts_def split: reference.splits)

lemma expands_mref: "expands d t m \<Longrightarrow> mref d m = strip_ref (tref d t)"
  by (induction t arbitrary: m)
    (auto simp: node_hash_def hash_preimage_strip, auto simp: strip_ref_def)

lemma pop_front_bits:
  assumes "slice_inv key"
  shows "pop_front key = None \<and> slice_bits key = [] \<or>
    (\<exists>b key'. pop_front key = Some (b, key') \<and> slice_inv key' \<and> slice_bits key = b # slice_bits key' \<and>
       sl_offset key' = wrapping_add (sl_offset key) 1)"
proof (cases "pop_front key")
  case None
  then show ?thesis by (simp add: pop_front_None)
next
  case (Some x)
  then show ?thesis using pop_front_Some[OF assms] by (cases x) blast
qed

lemma strip_prefix_bits:
  assumes "slice_inv key" "ext_key_inv k" "sl_offset k = sl_offset key"
  shows "(take (sl_length k) (slice_bits key) \<noteq> slice_bits k \<and> strip_prefix key k = (False, key)) \<or>
    (\<exists>key'. take (sl_length k) (slice_bits key) = slice_bits k \<and> strip_prefix key k = (True, key') \<and>
       slice_inv key' \<and> slice_bits key' = drop (sl_length k) (slice_bits key) \<and>
       sl_offset key' = wrapping_add (sl_offset key) (sl_length k))"
proof -
  have k: "slice_inv k" using assms(2) by (simp add: ext_key_inv_def)
  obtain b key' where sp: "strip_prefix key k = (b, key')" by fastforce
  show ?thesis
  proof (cases b)
    case True
    then have sp': "strip_prefix key k = (True, key')" using sp by simp
    note st = strip_prefix_True[OF assms(1) k sp']
    have "slice_bits key' = drop (sl_length k) (slice_bits key)" using st(2) by simp
    moreover have "take (sl_length k) (slice_bits key) = slice_bits k" using st(2) by simp
    ultimately show ?thesis using sp' st(3,4) by blast
  next
    case False
    with strip_prefix_False[OF assms(1) k] sp have "key' = key" "\<not> starts_with key k" by auto
    moreover have "take (sl_length k) (slice_bits key) \<noteq> slice_bits k"
      using calculation(2) assms(3) starts_with_iff[OF assms(1) k] by (metis append_take_drop_id)
    ultimately show ?thesis using sp False by simp
  qed
qed

text \<open>The proof that belongs to outcome \<open>v\<close> of a lookup when \<open>bd\<close> was pushed before.\<close>

definition proof_for ::
  "(byte list \<Rightarrow> hash) \<Rightarrow> mtree \<Rightarrow> bool list \<Rightarrow> hash option \<Rightarrow> builder \<Rightarrow> trie_proof \<Rightarrow> bool" where
  "proof_for d m key v bd pr \<longleftrightarrow>
     (case v of
        Some h \<Rightarrow> \<exists>items. mpath d m key items (MValue h) \<and> pr = Positive (rev (bd @ items))
      | None \<Rightarrow> \<exists>pre items s rest act. key = pre @ rest \<and> mpath d m pre items s \<and>
          refutes d s rest act \<and> pr = Negative (Some act) (rev (bd @ items)))"

definition get_result ::
  "(byte list \<Rightarrow> hash) \<Rightarrow> tree \<Rightarrow> bool list \<Rightarrow> builder option \<Rightarrow>
   (trie_error, hash option \<times> trie_proof option) outcome \<Rightarrow> bool" where
  "get_result d t key prf res \<longleftrightarrow>
     (case tget t key of
        Err e \<Rightarrow> res = Err e
      | Panic \<Rightarrow> False
      | Ok v \<Rightarrow>
          (case prf of
             None \<Rightarrow> res = Ok (v, None)
           | Some b \<Rightarrow> \<exists>pr. res = Ok (v, Some pr) \<and> (\<forall>m. expands d t m \<longrightarrow> proof_for d m key v b pr)))"

lemma proof_for_NoneI:
  "mpath d m pre items s \<Longrightarrow> refutes d s rest act \<Longrightarrow>
   proof_for d m (pre @ rest) None bd (Negative (Some act) (rev (bd @ items)))"
  unfolding proof_for_def by auto

lemma proof_for_here: "refutes d m key act \<Longrightarrow> proof_for d m key None bd (Negative (Some act) (rev bd))"
  using proof_for_NoneI[OF mpath.here, of d m key act bd] by simp

lemma proof_for_value: "proof_for d (MValue h) [] (Some h) bd (Positive (rev bd))"
  unfolding proof_for_def by (auto intro!: exI[of _ "[]"] mpath.here)

lemma proof_for_branch:
  assumes "proof_for d (if b then r else l) key v (bd @ [item_branch b (mref d l) (mref d r)]) pr"
  shows "proof_for d (MBranch l r) (b # key) v bd pr"
proof (cases v)
  case None
  with assms obtain pre items s rest act where "key = pre @ rest" "mpath d (if b then r else l) pre items s"
    "refutes d s rest act" "pr = Negative (Some act) (rev (bd @ item_branch b (mref d l) (mref d r) # items))"
    by (auto simp: proof_for_def)
  then show ?thesis using mpath.branch[of d b r l pre items s] None
      proof_for_NoneI[of d "MBranch l r" "b # pre" _ s rest act bd] by fastforce
next
  case (Some h)
  with assms obtain items where "mpath d (if b then r else l) key items (MValue h)"
    "pr = Positive (rev (bd @ item_branch b (mref d l) (mref d r) # items))"
    by (auto simp: proof_for_def)
  then show ?thesis using mpath.branch[of d b r l key items "MValue h"] Some
    by (auto simp: proof_for_def)
qed

lemma proof_for_ext:
  assumes "proof_for d t key v (bd @ [ItemExtension (sl_length k)]) pr"
  shows "proof_for d (MExt k t) (slice_bits k @ key) v bd pr"
proof (cases v)
  case None
  with assms obtain pre items s rest act where "key = pre @ rest" "mpath d t pre items s"
    "refutes d s rest act" "pr = Negative (Some act) (rev (bd @ ItemExtension (sl_length k) # items))"
    by (auto simp: proof_for_def)
  then show ?thesis using mpath.ext[of d t pre items s k] None
      proof_for_NoneI[of d "MExt k t" "slice_bits k @ pre" _ s rest act bd] by fastforce
next
  case (Some h)
  with assms obtain items where "mpath d t key items (MValue h)"
    "pr = Positive (rev (bd @ ItemExtension (sl_length k) # items))"
    by (auto simp: proof_for_def)
  then show ?thesis using mpath.ext[of d t key items "MValue h" k] Some
    by (auto simp: proof_for_def)
qed

lemma get_result_value:
  "get_result d (TValue s h) (slice_bits key) prf
     (get_child (\<lambda>p. get_loop getf key p prf) (RefValue s h) key prf)"
proof (cases "sl_length key = 0")
  case True
  then show ?thesis
    using proof_for_value by (auto simp: get_result_def get_child_def builder_build_def builder_reversed_def
        split: option.splits)
next
  case False
  then have "slice_bits key \<noteq> []" by simp
  then have "refutes d (MValue h) (slice_bits key) (LookupKeyLeft (sl_length key) h)" by simp
  note proof_for_here[OF this]
  with False show ?thesis
    by (auto simp: get_result_def get_child_def lookup_key_left_def builder_negative_def
        builder_reversed_def split: option.splits)
qed

lemma get_result_branch:
  assumes "get_result d (if b then r else l) key
      (map_option (\<lambda>bd. builder_push bd (item_branch b (tref d l) (tref d r))) prf) res"
  shows "get_result d (TBranch p l r) (b # key) prf res"
proof -
  have "proof_for d m (b # key) v bd pr"
    if "\<forall>m. expands d (if b then r else l) m \<longrightarrow>
          proof_for d m key v (bd @ [item_branch b (tref d l) (tref d r)]) pr"
      "expands d (TBranch p l r) m" for v bd pr m
  proof -
    from that(2) obtain l' r' where m': "m = MBranch l' r'" and e: "expands d l l'" "expands d r r'" by auto
    have it: "item_branch b (mref d l') (mref d r') = item_branch b (tref d l) (tref d r)"
      using expands_mref[OF e(1)] expands_mref[OF e(2)] by (simp add: item_branch_def)
    have "expands d (if b then r else l) (if b then r' else l')" using e by simp
    then show ?thesis unfolding m' using that(1) it by (intro proof_for_branch) auto
  qed
  then show ?thesis using assms
    by (cases "tget (if b then r else l) key") (auto simp: get_result_def builder_push_def split: option.splits)
qed

lemma get_result_ext:
  assumes "get_result d t key (map_option (\<lambda>bd. builder_push bd (ItemExtension (sl_length k))) prf) res"
  shows "get_result d (TExt p k t) (slice_bits k @ key) prf res"
proof -
  have "proof_for d m (slice_bits k @ key) v bd pr"
    if "\<forall>m. expands d t m \<longrightarrow> proof_for d m key v (bd @ [ItemExtension (sl_length k)]) pr"
      "expands d (TExt p k t) m" for v bd pr m
    using that by (auto intro: proof_for_ext)
  then show ?thesis using assms
    by (cases "tget t key") (auto simp: get_result_def builder_push_def split: option.splits)
qed

lemma get_result_reached:
  assumes "tget t key = Ok None" and "\<And>m. expands d t m \<Longrightarrow> refutes d m key act"
    and "\<And>b. f b = Negative (Some act) (rev b)"
  shows "get_result d t key prf (Ok (None, map_option f prf))"
  using assms proof_for_here by (auto simp: get_result_def split: option.splits)

text \<open>The loop computes the lookup in the tree and the matching proof.\<close>

lemma get_child_spec:
  assumes d: "digest_ok d" and getf: "reads getf m"
  shows "holds d m t \<Longrightarrow> tree_inv d (sl_offset key) t \<Longrightarrow> slice_inv key \<Longrightarrow>
    get_result d t (slice_bits key) bo
      (get_child (\<lambda>p. get_loop getf key p bo) (tref d t) key bo)"
proof (induction t arbitrary: key bo)
  case (TValue s h)
  then show ?case using get_result_value by simp
next
  case (TSealed h)
  then show ?case by (simp add: get_result_def get_child_def get_loop.simps)
next
  case (TBranch p l r)
  let ?f = "\<lambda>key bo. get_child (\<lambda>p. get_loop getf key p bo)"
  have inv: "ref_inv (tref d l)" "ref_inv (tref d r)" using TBranch.prems tref_inv[OF d] by auto
  have raw: "getf p = Some (raw_branch (tref d l) (tref d r))" using TBranch.prems(1) getf by (simp add: reads_def)
  consider (none) "pop_front key = None" "slice_bits key = []" |
    (some) b key' where "pop_front key = Some (b, key')" "slice_inv key'"
      "slice_bits key = b # slice_bits key'" "sl_offset key' = wrapping_add (sl_offset key) 1"
    using pop_front_bits[OF TBranch.prems(3)] by metis
  then show ?case
  proof cases
    case none
    have eq: "?f key bo (tref d (TBranch p l r)) key bo =
        Ok (None, map_option (\<lambda>b. reached_branch (builder_reversed b) (tref d l) (tref d r)) bo)"
      by (simp add: get_child_def get_loop.simps[of getf key "Some p"] raw decode_branch[OF inv] none)
    show ?thesis unfolding eq
      by (rule get_result_reached[where act = "ActualBranch (owned_ref_from (tref d l)) (owned_ref_from (tref d r))"])
        (use none in \<open>auto simp: reached_branch_def builder_negative_def builder_reversed_def
           expands_mref\<close>)
  next
    case some
    define bo' where "bo' = map_option (\<lambda>bd. builder_push bd (item_branch b (tref d l) (tref d r))) bo"
    have eq: "?f key bo (tref d (TBranch p l r)) key bo = ?f key' bo' (tref d (if b then r else l)) key' bo'"
      by (simp add: get_child_def[of _ "RefNode _ _"] get_loop.simps[of getf key "Some p"] raw
          decode_branch[OF inv] some(1) bo'_def Let_def if_distrib[of "tref d"])
    have "get_result d (if b then r else l) (slice_bits key') bo'
        (?f key' bo' (tref d (if b then r else l)) key' bo')"
      using TBranch.IH(1)[of key' bo'] TBranch.IH(2)[of key' bo'] TBranch.prems some by (cases b) auto
    then show ?thesis unfolding eq some(3) bo'_def by (rule get_result_branch)
  qed
next
  case (TExt p k t)
  let ?f = "\<lambda>key bo. get_child (\<lambda>p. get_loop getf key p bo)"
  have ki: "ext_key_inv k" "sl_offset k = sl_offset key" and ci: "ref_inv (tref d t)"
    using TExt.prems tref_inv[OF d] by auto
  have raw: "getf p = Some (raw_extension k (tref d t))" using TExt.prems(1) getf by (simp add: reads_def)
  obtain k' where k': "raw_decode (raw_extension k (tref d t)) = Ok (Extension k' (tref d t))"
    "ext_key_inv k'" "sl_offset k' = sl_offset k" "slice_bits k' = slice_bits k" "sl_length k' = sl_length k"
    by (rule decode_extension[OF ki(1) ci])
  have en: "encode_into k' 0 = encode_into k 0" by (rule encode_into_cong) (use k' ki in auto)
  have k0: "0 < sl_length k" using ki(1) by (simp add: ext_key_inv_def)
  consider (no) "take (sl_length k) (slice_bits key) \<noteq> slice_bits k" "strip_prefix key k' = (False, key)" |
    (yes) key' where "take (sl_length k) (slice_bits key) = slice_bits k"
      "strip_prefix key k' = (True, key')" "slice_inv key'"
      "slice_bits key' = drop (sl_length k) (slice_bits key)"
      "sl_offset key' = wrapping_add (sl_offset key) (sl_length k)"
    using strip_prefix_bits[OF TExt.prems(3) k'(2)] k' ki by auto
  then show ?case
  proof cases
    case no
    have eq: "?f key bo (tref d (TExt p k t)) key bo =
        Ok (None, map_option (\<lambda>b. reached_extension (builder_reversed b) (sl_length key) k' (tref d t)) bo)"
      by (simp add: get_child_def get_loop.simps[of getf key "Some p"] raw k'(1) no)
    show ?thesis unfolding eq
      by (rule get_result_reached[where act = "ActualExtension (sl_length key)
            (take (snd (encode_into k 0)) (fst (encode_into k 0))) (owned_ref_from (tref d t))"])
        (use no in \<open>auto simp: reached_extension_def builder_negative_def builder_reversed_def en
           case_prod_unfold Let_def expands_mref\<close>)
  next
    case yes
    define bo' where "bo' = map_option (\<lambda>bd. builder_push bd (ItemExtension (sl_length k))) bo"
    have eq: "?f key bo (tref d (TExt p k t)) key bo = ?f key' bo' (tref d t) key' bo'"
      using k0 by (simp add: get_child_def[of _ "RefNode _ _"] get_loop.simps[of getf key "Some p"] raw
          k'(1,5) yes(2) bo'_def Let_def item_extension_def)
    have "get_result d t (slice_bits key') bo' (?f key' bo' (tref d t) key' bo')"
      by (rule TExt.IH) (use TExt.prems yes in auto)
    moreover have "slice_bits key = slice_bits k @ slice_bits key'"
      using yes(1,4) by (metis append_take_drop_id)
    ultimately show ?thesis unfolding eq bo'_def by (simp only: get_result_ext)
  qed
qed

section \<open>The trie as a whole\<close>

text \<open>The content of a trie: nothing, or a tree whose root is a node.\<close>

definition trie_content ::
  "(byte list \<Rightarrow> hash) \<Rightarrow> (ptr \<rightharpoonup> raw_node) \<Rightarrow> ptr option \<Rightarrow> hash \<Rightarrow> tree option \<Rightarrow> bool" where
  "trie_content d m p h c \<longleftrightarrow>
     (case c of
        None \<Rightarrow> p = None \<and> h = EMPTY_TRIE_ROOT
      | Some t \<Rightarrow> tref d t = RefNode p h \<and> tree_inv d 0 t \<and> holds d m t \<and> distinct (tptrs t))"

definition content_get :: "tree option \<Rightarrow> bool list \<Rightarrow> (trie_error, hash option) outcome" where
  "content_get c key = (case c of None \<Rightarrow> Ok None | Some t \<Rightarrow> tget t key)"

lemma trie_content_hash:
  "digest_ok d \<Longrightarrow> trie_content d m p h c \<Longrightarrow> h = EMPTY_TRIE_ROOT \<longleftrightarrow> c = None"
  using tref_hash_inv[of d 0] by (force simp: trie_content_def hash_inv_def split: option.splits)

lemma get_impl_spec:
  assumes d: "digest_ok d" and getf: "reads getf m"
    and c: "trie_content d m p h (Some t)" and k: "slice_from_bytes key = Some K"
  shows "get_result d t (key_bits key) (if prove then Some [] else None) (get_impl getf p h key prove)"
proof -
  note ki = slice_from_bytes_key[OF k]
  have ne: "h \<noteq> EMPTY_TRIE_ROOT" using trie_content_hash[OF d c] by simp
  have t: "tref d t = RefNode p h" "tree_inv d (sl_offset K) t" "holds d m t"
    using c ki(2) by (auto simp: trie_content_def)
  have eq: "get_impl getf p h key prove =
      get_child (\<lambda>p. get_loop getf K p (if prove then Some [] else None)) (tref d t) K
        (if prove then Some [] else None)"
    using k ne by (simp add: get_impl_def get_child_def t(1))
  show ?thesis unfolding eq ki(3)[symmetric] by (rule get_child_spec[OF d getf t(3,2) ki(1)])
qed

lemma key_too_long: "slice_from_bytes key = None \<Longrightarrow> get_impl getf p h key b = Err KeyTooLong"
  by (simp add: get_impl_def)

lemma get_impl_empty:
  "slice_from_bytes key = Some K \<Longrightarrow>
     get_impl getf p EMPTY_TRIE_ROOT key b = Ok (None, if b then Some empty_trie_proof else None)"
  by (simp add: get_impl_def)

lemma get_impl_no_proof:
  assumes "digest_ok d" and "reads getf m"
    and "trie_content d m p h c" and "slice_from_bytes key = Some K"
  shows "bind_outcome (get_impl getf p h key False) (\<lambda>(v, _). Ok v) = content_get c (key_bits key)"
proof (cases c)
  case None
  then show ?thesis using assms get_impl_empty
    by (simp add: trie_content_def content_get_def)
next
  case (Some t)
  then show ?thesis using get_impl_spec[OF assms(1,2) assms(3)[unfolded Some] assms(4), where prove = False]
    by (cases "tget t (key_bits key)") (auto simp: get_result_def content_get_def)
qed

text \<open>A Merkle tree for the content, of which sealing hides parts.\<close>

definition content_expands :: "(byte list \<Rightarrow> hash) \<Rightarrow> tree option \<Rightarrow> mtree option \<Rightarrow> bool" where
  "content_expands d c m \<longleftrightarrow>
     (case (c, m) of (None, None) \<Rightarrow> True
      | (Some t, Some m) \<Rightarrow> expands d t m \<and> mtree_inv 0 m | _ \<Rightarrow> False)"

lemma tree_inv_expands: "tree_inv d off t \<Longrightarrow> \<exists>m. expands d t m \<and> mtree_inv off m"
proof (induction t arbitrary: off)
  case (TBranch p l r)
  then show ?case by fastforce
next
  case (TExt p k t)
  then show ?case by fastforce
qed (auto simp: sealed_inv_def hash_inv_def)

lemma content_expands_ex: "trie_content d m p h c \<Longrightarrow> \<exists>e. content_expands d c e"
proof (cases c)
  case None
  then show ?thesis by (auto simp: content_expands_def intro!: exI[of _ None])
next
  case (Some t)
  assume "trie_content d m p h c"
  then obtain e where "expands d t e \<and> mtree_inv 0 e" using tree_inv_expands[of d 0 t] Some by (auto simp: trie_content_def)
  then show ?thesis using Some by (auto simp: content_expands_def intro!: exI[of _ "Some e"])
qed

lemma expands_lookup: "expands d t m \<Longrightarrow> tget t key = Ok v \<Longrightarrow> mlookup m key = v"
proof (induction t arbitrary: m key)
  case (TBranch p l r)
  then show ?case by (cases key) (auto split: if_splits)
qed (auto split: if_splits)

lemma proof_for_verify:
  assumes d: "digest_ok d" and m: "mtree_inv 0 m" "mref d m = RefNode () root" "root \<noteq> EMPTY_TRIE_ROOT"
    and k: "slice_from_bytes key = Some K" and p: "proof_for d m (key_bits key) v [] pr"
  shows "proof_verify d pr root key v"
proof (cases v)
  case None
  with p obtain pre items s rest act where pr: "key_bits key = pre @ rest" "mpath d m pre items s"
    "refutes d s rest act" "pr = Negative (Some act) (rev items)" by (auto simp: proof_for_def)
  have "non_membership_verify d (Some act) (rev items) root key"
    by (rule non_membership_complete[OF digest_ok_inv[OF d] m(1,2) pr(2,3) k])
      (use slice_from_bytes_key(3)[OF k] pr(1) in simp)
  then show ?thesis by (simp add: proof_verify_def None pr)
next
  case (Some h)
  with p obtain items where pr: "mpath d m (key_bits key) items (MValue h)" "pr = Positive (rev items)"
    by (auto simp: proof_for_def)
  then show ?thesis using membership_complete[OF digest_ok_inv[OF d] m pr(1) k] by (simp add: proof_verify_def Some)
qed

lemma get_impl_proof:
  assumes d: "digest_ok d" and getf: "reads getf mem"
    and c: "trie_content d mem p h c" and k: "slice_from_bytes key = Some K"
    and e: "content_expands d c m" and g: "get_impl getf p h key True = Ok (v, pr)"
  shows "\<exists>pr'. pr = Some pr' \<and> proof_verify d pr' h key v"
proof (cases c)
  case None
  then show ?thesis using c g get_impl_empty[OF k]
    by (auto simp: trie_content_def proof_verify_def empty_trie_proof_def non_membership_verify_def)
next
  case (Some t)
  then obtain m' where m': "m = Some m'" "expands d t m'" "mtree_inv 0 m'"
    using e by (auto simp: content_expands_def split: option.splits)
  have r: "mref d m' = RefNode () h"
    using expands_mref[OF m'(2)] c Some by (simp add: trie_content_def strip_ref_def)
  have "get_result d t (key_bits key) (Some []) (Ok (v, pr))"
    using get_impl_spec[OF d getf c[unfolded Some] k, where prove = True] g by simp
  then obtain pr' where "pr = Some pr'" "proof_for d m' (key_bits key) v [] pr'"
    using m' by (auto simp: get_result_def split: outcome.splits)
  then show ?thesis
    using proof_for_verify[OF d m'(3) r _ k] trie_content_hash[OF d c] Some by auto
qed

end
