(* ===== verification/Trie_Set.thy ===== *)
theory Trie_Set
  imports Trie_Get
begin

unbundle bit_operations_syntax

text \<open>
  Insertion into the trie, \<^verbatim>\<open>trie/set.rs\<close>. The methods of the context thread the
  write log; the key is an argument, since it is only ever shortened on the way
  down. The recursion is written with the recursive call as an argument of the
  handlers, in the order of the source, and ends because every step takes bits off
  the key. The lemmas show that the operation replaces the lookup result of
  exactly one key, keeps the representation invariant, touches no block outside of
  the trie and leaks none, and that it fails exactly where the tree says so, or
  when the allocator is out of memory.
\<close>

section \<open>The operation\<close>

datatype set_ref = SetNode ptr hash | SetValue hash

definition set_to_ref :: "set_ref \<Rightarrow> mem_ref" where
  "set_to_ref r = (case r of SetNode p h \<Rightarrow> RefNode (Some p) h | SetValue h \<Rightarrow> RefValue False h)"

definition set_node ::
  "(byte list \<Rightarrow> hash) \<Rightarrow> ptr \<Rightarrow> raw_node \<Rightarrow>
   (('s, raw_node) wlog, trie_error, ptr \<times> hash) stateful" where
  "set_node d p node w =
     (case raw_decode node of
        Ok n \<Rightarrow> (wlog_set p node w, Ok (p, node_hash d n))
      | _ \<Rightarrow> (w, Panic))"

definition alloc_node ::
  "(byte list \<Rightarrow> hash) \<Rightarrow> ('s, raw_node) alloc_ops \<Rightarrow> raw_node \<Rightarrow>
   (('s, raw_node) wlog, trie_error, ptr \<times> hash) stateful" where
  "alloc_node d ops node w =
     (case raw_decode node of
        Ok n \<Rightarrow>
          (case wlog_alloc ops node w of
             (w', Ok p) \<Rightarrow> (w', Ok (p, node_hash d n))
           | (w', Err _) \<Rightarrow> (w', Err OutOfMemory)
           | (w', Panic) \<Rightarrow> (w', Panic))
      | Err e \<Rightarrow> (w, Err (BadRawNode e))
      | Panic \<Rightarrow> (w, Panic))"

definition alloc_extension_node ::
  "(byte list \<Rightarrow> hash) \<Rightarrow> ('s, raw_node) alloc_ops \<Rightarrow> slice \<Rightarrow> mem_ref \<Rightarrow>
   (('s, raw_node) wlog, trie_error, ptr \<times> hash) stateful" where
  "alloc_extension_node d ops key child = alloc_node d ops (raw_extension key child)"

fun insert_chunks ::
  "(byte list \<Rightarrow> hash) \<Rightarrow> ('s, raw_node) alloc_ops \<Rightarrow> slice list \<Rightarrow> ptr option \<Rightarrow> hash \<Rightarrow>
   (('s, raw_node) wlog, trie_error, ptr option \<times> hash) stateful" where
  "insert_chunks d ops [] p h w = (w, Ok (p, h))"
| "insert_chunks d ops (chunk # rest) p h w =
     (let child = (case p of None \<Rightarrow> RefValue False h | Some _ \<Rightarrow> RefNode p h)
      in st_bind (alloc_node d ops (raw_extension chunk child))
           (\<lambda>(p, h). insert_chunks d ops rest (Some p) h) w)"

definition insert_value ::
  "(byte list \<Rightarrow> hash) \<Rightarrow> ('s, raw_node) alloc_ops \<Rightarrow> hash \<Rightarrow> slice \<Rightarrow>
   (('s, raw_node) wlog, trie_error, set_ref) stateful" where
  "insert_value d ops value_hash key =
     st_bind (insert_chunks d ops (chunks_rev key) None value_hash)
       (\<lambda>(p, h). st_return (case p of Some p \<Rightarrow> SetNode p h | None \<Rightarrow> SetValue h))"

definition set_handle_reference ::
  "(ptr option \<Rightarrow> (('s, raw_node) wlog, trie_error, ptr \<times> hash) stateful) \<Rightarrow> hash \<Rightarrow> slice \<Rightarrow> mem_ref \<Rightarrow>
   (('s, raw_node) wlog, trie_error, set_ref) stateful" where
  "set_handle_reference handle value_hash key child =
     (case child of
        RefNode p _ \<Rightarrow> st_bind (handle p) (\<lambda>(p, h). st_return (SetNode p h))
      | RefValue sealed _ \<Rightarrow>
          if \<not> slice_is_empty key then st_lift (Err BadKeyPrefix)
          else if sealed then st_lift (Err Sealed)
          else st_return (SetValue value_hash))"

definition set_handle_branch ::
  "(byte list \<Rightarrow> hash) \<Rightarrow>
   (slice \<Rightarrow> mem_ref \<Rightarrow> (('s, raw_node) wlog, trie_error, set_ref) stateful) \<Rightarrow>
   slice \<Rightarrow> ptr \<Rightarrow> mem_ref \<Rightarrow> mem_ref \<Rightarrow> (('s, raw_node) wlog, trie_error, ptr \<times> hash) stateful" where
  "set_handle_branch d handle_reference key nptr left right =
     (case pop_front key of
        None \<Rightarrow> st_lift (Err BadKeyPrefix)
      | Some (b, key) \<Rightarrow>
          st_bind (handle_reference key (if b then right else left)) (\<lambda>owned.
            let child = set_to_ref owned;
                (c0, c1) = (if b then (left, child) else (child, right))
            in set_node d nptr (raw_branch c0 c1)))"

definition set_split ::
  "(byte list \<Rightarrow> hash) \<Rightarrow> ('s, raw_node) alloc_ops \<Rightarrow> hash \<Rightarrow> bool \<Rightarrow> slice \<Rightarrow> slice \<Rightarrow> slice option \<Rightarrow>
   ptr \<Rightarrow> mem_ref \<Rightarrow> (('s, raw_node) wlog, trie_error, ptr \<times> hash) stateful" where
  "set_split d ops value_hash our key suffix prefix nptr child =
     st_bind (insert_value d ops value_hash key) (\<lambda>our_ref.
     st_bind
       (case ext_key_try_from suffix of
          Ok suffix \<Rightarrow>
            st_bind (alloc_extension_node d ops suffix child)
              (\<lambda>(p, h). st_return (RefNode (Some p) h))
        | Err ExtKeyEmpty \<Rightarrow> st_return child
        | _ \<Rightarrow> st_lift Panic) (\<lambda>their_ref.
       let (c0, c1) = (if our then (their_ref, set_to_ref our_ref)
                       else (set_to_ref our_ref, their_ref))
       in st_bind (set_node d nptr (raw_branch c0 c1)) (\<lambda>(p, h).
          case prefix of
            Some prefix \<Rightarrow> alloc_extension_node d ops prefix (RefNode (Some p) h)
          | None \<Rightarrow> st_return (p, h))))"

definition set_handle_extension ::
  "(byte list \<Rightarrow> hash) \<Rightarrow> ('s, raw_node) alloc_ops \<Rightarrow> hash \<Rightarrow>
   (slice \<Rightarrow> mem_ref \<Rightarrow> (('s, raw_node) wlog, trie_error, set_ref) stateful) \<Rightarrow>
   slice \<Rightarrow> ptr \<Rightarrow> slice \<Rightarrow> mem_ref \<Rightarrow> (('s, raw_node) wlog, trie_error, ptr \<times> hash) stateful" where
  "set_handle_extension d ops value_hash handle_reference key nptr ext_key child =
     (if slice_is_empty key then st_lift (Err BadKeyPrefix)
      else case forward_common_prefix key ext_key of
        None \<Rightarrow> st_lift Panic
      | Some (prefix, suffix, key) \<Rightarrow>
          (case suffix of
             None \<Rightarrow>
               st_bind (handle_reference key child) (\<lambda>owned.
                 set_node d nptr (raw_extension ext_key (set_to_ref owned)))
           | Some suffix \<Rightarrow>
               (case pop_front key of
                  None \<Rightarrow> st_lift (Err BadKeyPrefix)
                | Some (our, key) \<Rightarrow>
                    (case pop_front suffix of
                       None \<Rightarrow> st_lift Panic
                     | Some (theirs, suffix) \<Rightarrow>
                         if our = theirs then st_lift Panic
                         else
                           set_split d ops value_hash our key suffix prefix nptr child))))"

lemma set_handle_reference_cong [fundef_cong]:
  assumes "v = v'" "k = k'" "c = c'" "w = w'" and "\<And>p w. f p w = g p w"
  shows "set_handle_reference f v k c w = set_handle_reference g v' k' c' w'"
  using assms by (simp add: set_handle_reference_def st_bind_def split: reference.splits)

lemma set_handle_branch_cong [fundef_cong]:
  assumes "d = d'" "k = k'" "p = p'" "l = l'" "r = r'" "w = w'"
    and "\<And>key c w. sl_length key < sl_length k' \<Longrightarrow> f key c w = g key c w"
  shows "set_handle_branch d f k p l r w = set_handle_branch d' g k' p' l' r' w'"
  using assms
  by (auto simp: set_handle_branch_def st_bind_def dest!: pop_front_less split: option.splits)

lemma forward_common_prefix_less:
  "forward_common_prefix s k = Some (p, None, s') \<Longrightarrow> sl_length s' < sl_length s"
  by (auto simp: forward_common_prefix_def pop_front_slice_eq split_at_def checked_sub_def
      split: option.splits if_splits)

lemma set_handle_extension_cong [fundef_cong]:
  assumes "d = d'" "ops = ops'" "v = v'" "k = k'" "p = p'" "e = e'" "c = c'" "w = w'"
    and "\<And>key c w. sl_length key < sl_length k' \<Longrightarrow> f key c w = g key c w"
  shows "set_handle_extension d ops v f k p e c w = set_handle_extension d' ops' v' g k' p' e' c' w'"
  using assms
  by (auto simp: set_handle_extension_def st_bind_def[of "f _ _"] st_bind_def[of "g _ _"]
      dest!: forward_common_prefix_less split: option.splits)

function set_handle ::
  "(byte list \<Rightarrow> hash) \<Rightarrow> ('s, raw_node) alloc_ops \<Rightarrow> hash \<Rightarrow> slice \<Rightarrow> ptr option \<Rightarrow>
   (('s, raw_node) wlog, trie_error, ptr \<times> hash) stateful" where
  "set_handle d ops value_hash key nref w =
     (case nref of
        None \<Rightarrow> (w, Err Sealed)
      | Some nptr \<Rightarrow>
          (case wlog_get ops w nptr of
             None \<Rightarrow> (w, Panic)
           | Some raw \<Rightarrow>
               (case raw_decode raw of
                  Err e \<Rightarrow> (w, Err (BadRawNode e))
                | Panic \<Rightarrow> (w, Panic)
                | Ok (Branch left right) \<Rightarrow>
                    set_handle_branch d
                      (\<lambda>key child. set_handle_reference (\<lambda>p. set_handle d ops value_hash key p)
                         value_hash key child)
                      key nptr left right w
                | Ok (Extension ext_key child) \<Rightarrow>
                    set_handle_extension d ops value_hash
                      (\<lambda>key child. set_handle_reference (\<lambda>p. set_handle d ops value_hash key p)
                         value_hash key child)
                      key nptr ext_key child w)))"
  by pat_completeness auto
termination
  by (relation "measure (\<lambda>(d, ops, v, key, p, w). sl_length key)") auto

declare set_handle.simps [simp del]

text \<open>
  \<open>Context::set\<close>: the log is committed on success; on failure it is dropped,
  which rolls the allocations back. The allocator is returned with the result.
\<close>

definition set_context ::
  "(byte list \<Rightarrow> hash) \<Rightarrow> ('s, raw_node) alloc_ops \<Rightarrow> hash \<Rightarrow> slice \<Rightarrow> ptr option \<Rightarrow> hash \<Rightarrow>
   ('s, trie_error, ptr \<times> hash) stateful" where
  "set_context d ops value_hash key root_ptr root_hash s =
     (let (w, res) =
        (case root_ptr of
           Some p \<Rightarrow> set_handle d ops value_hash key (Some p) (wlog_new s)
         | None \<Rightarrow>
             if root_hash \<noteq> EMPTY_TRIE_ROOT then (wlog_new s, Err Sealed)
             else st_bind (insert_value d ops value_hash key)
                    (\<lambda>r. case r of SetNode p h \<Rightarrow> st_return (p, h) | SetValue _ \<Rightarrow> st_lift (Err EmptyKey))
                    (wlog_new s))
      in case res of
           Ok r \<Rightarrow> (case wlog_commit ops w of None \<Rightarrow> (wl_alloc w, Panic) | Some s \<Rightarrow> (s, Ok r))
         | Err e \<Rightarrow> (case wlog_drop ops w of None \<Rightarrow> (wl_alloc w, Panic) | Some s \<Rightarrow> (s, Err e))
         | Panic \<Rightarrow> (wl_alloc w, Panic))"

definition trie_set_impl ::
  "(byte list \<Rightarrow> hash) \<Rightarrow> ('s, raw_node) alloc_ops \<Rightarrow> slice \<Rightarrow> hash \<Rightarrow>
   ('s trie, trie_error, unit) stateful" where
  "trie_set_impl d ops key value_hash t =
     (case set_context d ops value_hash key (tr_root_ptr t) (tr_root_hash t) (tr_alloc t) of
        (s, Ok (p, h)) \<Rightarrow> (\<lparr>tr_root_ptr = Some p, tr_root_hash = h, tr_alloc = s\<rparr>, Ok ())
      | (s, Err e) \<Rightarrow> (t\<lparr>tr_alloc := s\<rparr>, Err e)
      | (s, Panic) \<Rightarrow> (t\<lparr>tr_alloc := s\<rparr>, Panic))"

definition trie_set ::
  "(byte list \<Rightarrow> hash) \<Rightarrow> ('s, raw_node) alloc_ops \<Rightarrow> byte list \<Rightarrow> hash \<Rightarrow>
   ('s trie, trie_error, unit) stateful" where
  "trie_set d ops key value_hash =
     st_bind (st_lift (ok_or KeyTooLong (slice_from_bytes key)))
       (\<lambda>key. trie_set_impl d ops key value_hash)"

section \<open>What insertion does to a tree\<close>

text \<open>The error insertion reports for a tree, if any, apart from running out of memory.\<close>

fun tset_err :: "tree \<Rightarrow> bool list \<Rightarrow> trie_error option" where
  "tset_err (TValue s h) key = (if key \<noteq> [] then Some BadKeyPrefix else if s then Some Sealed else None)"
| "tset_err (TSealed h) key = Some Sealed"
| "tset_err (TBranch p l r) key =
     (case key of [] \<Rightarrow> Some BadKeyPrefix | b # key \<Rightarrow> tset_err (if b then r else l) key)"
| "tset_err (TExt p k t) key =
     (if take (sl_length k) key = slice_bits k then tset_err t (drop (sl_length k) key)
      else if take (length key) (slice_bits k) = key then Some BadKeyPrefix else None)"

text \<open>Tree \<open>t'\<close> is \<open>t\<close> with the lookup of one key replaced.\<close>

definition tset_rel :: "tree \<Rightarrow> bool list \<Rightarrow> hash \<Rightarrow> tree \<Rightarrow> bool" where
  "tset_rel t key v t' \<longleftrightarrow>
     tget t' key = Ok (Some v) \<and> (\<forall>k. k \<noteq> key \<longrightarrow> tget t' k = tget t k)"

text \<open>A tree with exactly one value.\<close>

definition single :: "bool list \<Rightarrow> hash \<Rightarrow> tree \<Rightarrow> bool" where
  "single key v t \<longleftrightarrow> (\<forall>k. tget t k = Ok (if k = key then Some v else None))"

lemma single_value: "single [] v (TValue False v)"
  by (simp add: single_def)

lemma single_ext: "single key v t \<Longrightarrow> single (slice_bits k @ key) v (TExt p k t)"
  unfolding single_def
proof (intro allI)
  fix x assume s: "\<forall>k. tget t k = Ok (if k = key then Some v else None)"
  show "tget (TExt p k t) x = Ok (if x = slice_bits k @ key then Some v else None)"
  proof (cases "take (sl_length k) x = slice_bits k")
    case True
    then have "x = slice_bits k @ drop (sl_length k) x" by (metis append_take_drop_id)
    then have "drop (sl_length k) x = key \<longleftrightarrow> x = slice_bits k @ key" by (metis same_append_eq)
    then show ?thesis using True s by simp
  next
    case False
    then have "x \<noteq> slice_bits k @ key" by auto
    then show ?thesis using False by simp
  qed
qed

lemma tset_rel_branch:
  "tset_rel (if b then r else l) key v t' \<Longrightarrow>
     tset_rel (TBranch p l r) (b # key) v (if b then TBranch p l t' else TBranch p t' r)"
  unfolding tset_rel_def by (auto split: list.splits if_splits)

lemma tset_rel_ext:
  assumes "tset_rel t key v t'"
  shows "tset_rel (TExt p k t) (slice_bits k @ key) v (TExt p k t')"
proof -
  have "drop (sl_length k) x \<noteq> key" if "x \<noteq> slice_bits k @ key" "take (sl_length k) x = slice_bits k" for x
    using that by (metis append_take_drop_id)
  then show ?thesis using assms by (auto simp: tset_rel_def)
qed

text \<open>
  Splitting an extension at the common prefix \<open>pre\<close>: below it a branch leads to
  the new value on one side and to the rest of the extension on the other.
\<close>

definition text_lookup :: "bool list \<Rightarrow> tree \<Rightarrow> bool list \<Rightarrow> (trie_error, hash option) outcome" where
  "text_lookup bs t key = (if take (length bs) key = bs then tget t (drop (length bs) key) else Ok None)"

lemma text_lookup_append:
  "text_lookup (xs @ ys) t key =
     (if take (length xs) key = xs then text_lookup ys t (drop (length xs) key) else Ok None)"
proof -
  have "take (length (xs @ ys)) key = xs @ ys \<longleftrightarrow>
      take (length xs) key = xs \<and> take (length ys) (drop (length xs) key) = ys"
  proof
    assume eq: "take (length (xs @ ys)) key = xs @ ys"
    have "take (length xs) key = xs" using arg_cong[OF eq, of "take (length xs)"] by simp
    moreover have "take (length ys) (drop (length xs) key) = ys"
      using arg_cong[OF eq, of "drop (length xs)"] by (simp add: drop_take)
    ultimately show "take (length xs) key = xs \<and> take (length ys) (drop (length xs) key) = ys" by simp
  qed (simp add: take_add)
  then show ?thesis by (auto simp: text_lookup_def drop_drop add.commute)
qed

lemma tget_ext_text: "tget (TExt p k t) = text_lookup (slice_bits k) t"
  by (auto simp: text_lookup_def fun_eq_iff)

lemma text_lookup_Nil [simp]: "text_lookup [] t = tget t"
  by (simp add: text_lookup_def fun_eq_iff)

lemma tset_rel_split:
  assumes old: "\<And>k. tget t k = text_lookup (pre @ (\<not> b) # suf) c k"
    and ours: "single key v t1" and theirs: "\<And>k. tget t2 k = text_lookup suf c k"
    and new: "\<And>k. tget t' k = text_lookup pre (if b then TBranch p t2 t1 else TBranch p t1 t2) k"
  shows "tset_rel t (pre @ b # key) v t'"
proof -
  let ?br = "if b then TBranch p t2 t1 else TBranch p t1 t2"
  have br: "tget ?br (x # k) = (if x = b then tget t1 k else text_lookup suf c k)" "tget ?br [] = Ok None"
    for x k using theirs by auto
  have cons: "text_lookup ((\<not> b) # suf) c k =
      (case k of [] \<Rightarrow> Ok None | x # k \<Rightarrow> if x = b then Ok None else text_lookup suf c k)" for k
    by (auto simp: text_lookup_def split: list.splits)
  have "tget t' k = tget t k" if ne: "k \<noteq> pre @ b # key" for k
  proof (cases "take (length pre) k = pre")
    case True
    then have k: "k = pre @ drop (length pre) k" by (metis append_take_drop_id)
    have "tget t' k = tget ?br (drop (length pre) k)" using new True by (simp add: text_lookup_def)
    also have "\<dots> = text_lookup ((\<not> b) # suf) c (drop (length pre) k)"
    proof (cases "drop (length pre) k")
      case Nil then show ?thesis using br cons by simp
    next
      case (Cons x rest)
      show ?thesis
      proof (cases "x = b")
        case True
        then have "rest \<noteq> key" using ne k Cons by auto
        then show ?thesis using True Cons br cons ours by (simp add: single_def)
      next
        case False
        then show ?thesis using Cons br cons by simp
      qed
    qed
    also have "\<dots> = tget t k" using old[of k] True by (simp add: text_lookup_append)
    finally show ?thesis .
  next
    case False
    then show ?thesis using old[of k] new[of k] by (simp add: text_lookup_append) (simp add: text_lookup_def)
  qed
  moreover have "tget t' (pre @ b # key) = Ok (Some v)"
    using new[of "pre @ b # key"] br(1)[of b key] ours by (simp add: text_lookup_def single_def)
  ultimately show ?thesis by (auto simp: tset_rel_def)
qed

section \<open>Footprints\<close>

text \<open>
  \<open>frame m A m' B\<close>: memory \<open>m\<close> outside of \<open>A\<close> is memory
  \<open>m'\<close> outside of \<open>B\<close>. Nothing else changed and nothing leaked.
\<close>

definition frame :: "(ptr \<rightharpoonup> 'v) \<Rightarrow> ptr set \<Rightarrow> (ptr \<rightharpoonup> 'v) \<Rightarrow> ptr set \<Rightarrow> bool" where
  "frame m A m' B \<longleftrightarrow> (\<forall>q. (if q \<in> A then None else m q) = (if q \<in> B then None else m' q))"

lemma frame_refl [simp]: "frame m A m A"
  by (simp add: frame_def)

lemma frame_trans: "frame m A m' B \<Longrightarrow> frame m' B m'' C \<Longrightarrow> frame m A m'' C"
  by (simp add: frame_def)

lemma frame_extend: "frame m A m' B \<Longrightarrow> frame m (A \<union> X) m' (B \<union> X)"
  unfolding frame_def by (metis Un_iff)

lemma frame_upd: "frame m A m' B \<Longrightarrow> p \<in> B \<Longrightarrow> frame m A (m'(p := v)) B"
  unfolding frame_def by simp

lemma frame_alloc: "m p = None \<Longrightarrow> frame m A (m(p := v)) (insert p A)"
  unfolding frame_def by simp

lemma frame_keep:
  assumes "frame m A m' B" "q \<in> dom m" "q \<notin> A" shows "q \<notin> B" "m' q = m q"
proof -
  have eq: "m q = (if q \<in> B then None else m' q)" 
    using spec[OF assms(1)[unfolded frame_def], of q] assms(3) by simp
  show nb: "q \<notin> B" using assms(2) eq by (cases "q \<in> B") (simp_all add: domIff)
  show "m' q = m q" using eq nb by simp
qed

definition rep :: "(byte list \<Rightarrow> hash) \<Rightarrow> (ptr \<rightharpoonup> raw_node) \<Rightarrow> u3 \<Rightarrow> tree \<Rightarrow> bool" where
  "rep d m off t \<longleftrightarrow> holds d m t \<and> tree_inv d off t \<and> distinct (tptrs t)"

lemma rep_cong: "(\<And>p. p \<in> set (tptrs t) \<Longrightarrow> m p = m' p) \<Longrightarrow> rep d m off t = rep d m' off t"
  using holds_cong[of t m m' d] by (simp add: rep_def)

lemma rep_dom: "rep d m off t \<Longrightarrow> set (tptrs t) \<subseteq> dom m"
  using holds_dom[of d m t] by (simp add: rep_def)

lemma rep_frame:
  assumes "frame m A m' B" "rep d m off t" "set (tptrs t) \<inter> A = {}"
  shows "rep d m' off t" "set (tptrs t) \<inter> B = {}"
proof -
  have *: "q \<notin> B \<and> m' q = m q" if "q \<in> set (tptrs t)" for q
    using frame_keep[OF assms(1)] rep_dom[OF assms(2)] assms(3) that by blast
  then show "set (tptrs t) \<inter> B = {}" by auto
  show "rep d m' off t" using assms(2) rep_cong[of t m m'] * by simp
qed

lemma holds_upd: "p \<notin> set (tptrs t) \<Longrightarrow> holds d (m(p := v)) t = holds d m t"
  by (rule holds_cong) auto

lemma rep_upd: "p \<notin> set (tptrs t) \<Longrightarrow> rep d (m(p := v)) off t = rep d m off t"
  by (rule rep_cong) auto

definition raw_ok :: "raw_node \<Rightarrow> bool" where
  "raw_ok v \<longleftrightarrow> length v = RAW_NODE_SIZE \<and> drop 40 v \<noteq> replicate 32 0"

lemma raw_ok_encode: "node_inv n \<Longrightarrow> hash_inv (ref_hash (last_ref n)) \<Longrightarrow> raw_ok (node_encode n)"
  by (simp add: raw_ok_def RAW_NODE_SIZE_def length_raw raw_last_bytes hash_inv_def EMPTY_TRIE_ROOT_def)

lemma decode_hash:
  assumes "node_inv n"
  obtains n' where "raw_decode (node_encode n) = Ok n'" "node_hash d n' = node_hash d n"
  using raw_decode_encode[OF assms] node_hash_cong[OF _ assms] by metis

lemma raw_ok_ext:
  "digest_ok d \<Longrightarrow> ext_key_inv k \<Longrightarrow> tree_inv d off t \<Longrightarrow> raw_ok (raw_extension k (tref d t))"
  using raw_ok_encode[of "Extension k (tref d t)"] tref_inv[of d off t] tref_hash_inv[of d off t]
  by (simp add: node_encode_def)

lemma raw_ok_branch:
  "digest_ok d \<Longrightarrow> tree_inv d off l \<Longrightarrow> tree_inv d off r \<Longrightarrow> raw_ok (raw_branch (tref d l) (tref d r))"
  using raw_ok_encode[of "Branch (tref d l) (tref d r)"] tref_inv[of d off] tref_hash_inv[of d off r]
  by (simp add: node_encode_def)

locale raw_allocator = allocator ops ainv live okv
  for ops :: "('s, raw_node) alloc_ops" and ainv live okv +
  assumes raw_okv: "raw_ok v \<Longrightarrow> okv v"
begin

lemma alloc_node_spec:
  assumes d: "digest_ok d" and w: "wl_inv base w" and k: "ext_key_inv k"
    and t: "rep d (view w) (wrapping_add (sl_offset k) (sl_length k)) t"
    and a: "alloc_node d ops (raw_extension k (tref d t)) w = (w', res)"
  shows "wl_inv base w' \<and> (res = Err OutOfMemory \<or>
    (\<exists>p h. res = Ok (p, h) \<and> tref d (TExt p k t) = RefNode (Some p) h \<and>
       rep d (view w') (sl_offset k) (TExt p k t) \<and>
       frame (view w) (set (tptrs t)) (view w') (insert p (set (tptrs t))) \<and>
       view w p = None \<and> view w' = (view w)(p \<mapsto> raw_extension k (tref d t))))"
proof -
  let ?n = "Extension k (tref d t)" and ?raw = "raw_extension k (tref d t)"
  have ti: "tree_inv d (wrapping_add (sl_offset k) (sl_length k)) t" using t by (simp add: rep_def)
  have ok: "okv ?raw" by (intro raw_okv raw_ok_ext[OF d k ti])
  have "node_inv ?n" using k tref_inv[OF d ti] by simp
  from decode_hash[OF this, of d] obtain n' where
    n': "raw_decode ?raw = Ok n'" "node_hash d n' = node_hash d ?n" by (auto simp: node_encode_def)
  obtain w1 r1 where al: "wlog_alloc ops ?raw w = (w1, r1)" by fastforce
  show ?thesis
  proof (cases r1)
    case (Ok p)
    note A = wl_alloc_Ok[OF w ok al[unfolded Ok]]
    have "p \<notin> set (tptrs t)" using rep_dom[OF t] A by auto
    then have "rep d (view w1) (sl_offset k) (TExt p k t)"
      using t k A by (simp add: rep_def holds_upd)
    moreover have "frame (view w) (set (tptrs t)) (view w1) (insert p (set (tptrs t)))"
      using A frame_alloc[of "view w" p] by simp
    moreover have "w' = w1" "res = Ok (p, node_hash d ?n)" using a n' al Ok by (simp_all add: alloc_node_def)
    ultimately show ?thesis using A by auto
  next
    case (Err e)
    then show ?thesis using a n' al wl_alloc_Err[OF w ok, of w1 e] by (auto simp: alloc_node_def)
  next
    case Panic
    then show ?thesis using wl_alloc_no_panic[OF w ok] al by auto
  qed
qed

lemma set_node_spec:
  assumes w: "wl_inv base w" and p: "p \<in> dom (view w)" and n: "node_inv n" "raw_ok (node_encode n)"
  obtains w' where "set_node d p (node_encode n) w = (w', Ok (p, node_hash d n))" "wl_inv base w'"
    "view w' = (view w)(p \<mapsto> node_encode n)"
proof -
  obtain n' where n': "raw_decode (node_encode n) = Ok n'" "node_hash d n' = node_hash d n"
    by (rule decode_hash[OF n(1)])
  have "set_node d p (node_encode n) w = (wlog_set p (node_encode n) w, Ok (p, node_hash d n))"
    by (simp add: set_node_def n')
  then show thesis using wl_set[OF w p raw_okv[OF n(2)]] by (rule that)
qed

lemma set_branch_spec:
  assumes d: "digest_ok d" and w: "wl_inv base w" and p: "p \<in> dom (view w)" "valid_ptr p"
    "p \<notin> set (tptrs l)" "p \<notin> set (tptrs r)" "set (tptrs l) \<inter> set (tptrs r) = {}"
    and l: "rep d (view w) (wrapping_add off 1) l" and r: "rep d (view w) (wrapping_add off 1) r"
  obtains w' h where "set_node d p (raw_branch (tref d l) (tref d r)) w = (w', Ok (p, h))"
    "wl_inv base w'" "view w' = (view w)(p \<mapsto> raw_branch (tref d l) (tref d r))"
    "tref d (TBranch p l r) = RefNode (Some p) h" "rep d (view w') off (TBranch p l r)"
proof -
  let ?n = "Branch (tref d l) (tref d r)"
  have ti: "tree_inv d (wrapping_add off 1) l" "tree_inv d (wrapping_add off 1) r"
    using l r by (auto simp: rep_def)
  have ni: "node_inv ?n" "raw_ok (node_encode ?n)"
    using tref_inv[OF d] ti raw_ok_branch[OF d ti] by (auto simp: node_encode_def)
  obtain w' where w': "set_node d p (node_encode ?n) w = (w', Ok (p, node_hash d ?n))" "wl_inv base w'"
    "view w' = (view w)(p \<mapsto> node_encode ?n)" by (rule set_node_spec[OF w p(1) ni])
  have "rep d (view w') off (TBranch p l r)"
    using l r p by (simp add: rep_def w'(3) node_encode_def holds_upd)
  then show thesis using w' by (intro that[of w' "node_hash d ?n"]) (simp_all add: node_encode_def)
qed

lemma set_extension_spec:
  assumes d: "digest_ok d" and w: "wl_inv base w" and p: "p \<in> dom (view w)" "valid_ptr p"
    "p \<notin> set (tptrs t)" and k: "ext_key_inv k"
    and t: "rep d (view w) (wrapping_add (sl_offset k) (sl_length k)) t"
  obtains w' h where "set_node d p (raw_extension k (tref d t)) w = (w', Ok (p, h))"
    "wl_inv base w'" "view w' = (view w)(p \<mapsto> raw_extension k (tref d t))"
    "tref d (TExt p k t) = RefNode (Some p) h" "rep d (view w') (sl_offset k) (TExt p k t)"
proof -
  let ?n = "Extension k (tref d t)"
  have ti: "tree_inv d (wrapping_add (sl_offset k) (sl_length k)) t" using t by (auto simp: rep_def)
  have ni: "node_inv ?n" "raw_ok (node_encode ?n)"
    using tref_inv[OF d] ti k raw_ok_ext[OF d k ti] by (auto simp: node_encode_def)
  obtain w' where w': "set_node d p (node_encode ?n) w = (w', Ok (p, node_hash d ?n))" "wl_inv base w'"
    "view w' = (view w)(p \<mapsto> node_encode ?n)" by (rule set_node_spec[OF w p(1) ni])
  have "rep d (view w') (sl_offset k) (TExt p k t)"
    using t p k by (simp add: rep_def w'(3) node_encode_def holds_upd)
  then show thesis using w' by (intro that[of w' "node_hash d ?n"]) (simp_all add: node_encode_def)
qed

lemma insert_chunks_spec:
  assumes d: "digest_ok d"
  shows "wl_inv base w \<Longrightarrow> key_chain off (rev cs) \<Longrightarrow>
    rep d (view w) (wrapping_add off (length (keys_bits (rev cs)))) t \<Longrightarrow>
    tref d t = (case p of None \<Rightarrow> RefValue False h | Some _ \<Rightarrow> RefNode p h) \<Longrightarrow> single acc v t \<Longrightarrow>
    insert_chunks d ops cs p h w = (w', res) \<Longrightarrow>
    wl_inv base w' \<and> (res = Err OutOfMemory \<or>
      (\<exists>p' h' t'. res = Ok (p', h') \<and>
         tref d t' = (case p' of None \<Rightarrow> RefValue False h' | Some _ \<Rightarrow> RefNode p' h') \<and>
         rep d (view w') off t' \<and> frame (view w) (set (tptrs t)) (view w') (set (tptrs t')) \<and>
         single (keys_bits (rev cs) @ acc) v t'))"
proof (induction cs arbitrary: w t p h acc)
  case Nil
  then have "w' = w" "res = Ok (p, h)" by simp_all
  with Nil show ?case by auto
next
  case (Cons c cs)
  have c: "ext_key_inv c" "sl_offset c = wrapping_add off (length (keys_bits (rev cs)))"
    "key_chain off (rev cs)"
    using Cons.prems(2) by (auto simp: key_chain_append)
  have t: "rep d (view w) (wrapping_add (sl_offset c) (sl_length c)) t"
    using Cons.prems(3) c(2) by (simp add: wrapping_add_add)
  obtain w1 r1 where al: "alloc_node d ops (raw_extension c (tref d t)) w = (w1, r1)" by fastforce
  have step: "insert_chunks d ops (c # cs) p h w =
      (case r1 of Ok (p, h) \<Rightarrow> insert_chunks d ops cs (Some p) h w1 | Err e \<Rightarrow> (w1, Err e) | Panic \<Rightarrow> (w1, Panic))"
    using al Cons.prems(4) by (simp add: st_bind_def split: outcome.splits)
  note A = alloc_node_spec[OF d Cons.prems(1) c(1) t al]
  show ?case
  proof (cases "r1 = Err OutOfMemory")
    case True
    then show ?thesis using A step Cons.prems(6) by auto
  next
    case False
    then obtain q g where r1: "r1 = Ok (q, g)" and tq: "tref d (TExt q c t) = RefNode (Some q) g"
      and rq: "rep d (view w1) (sl_offset c) (TExt q c t)" and w1: "wl_inv base w1"
      and fq: "frame (view w) (set (tptrs t)) (view w1) (set (tptrs (TExt q c t)))"
      using A by auto
    have "insert_chunks d ops cs (Some q) g w1 = (w', res)" using step r1 Cons.prems(6) by simp
    then have "wl_inv base w' \<and> (res = Err OutOfMemory \<or>
      (\<exists>p' h' t'. res = Ok (p', h') \<and>
         tref d t' = (case p' of None \<Rightarrow> RefValue False h' | Some _ \<Rightarrow> RefNode p' h') \<and>
         rep d (view w') off t' \<and>
         frame (view w1) (set (tptrs (TExt q c t))) (view w') (set (tptrs t')) \<and>
         single (keys_bits (rev cs) @ (slice_bits c @ acc)) v t'))"
      using Cons.IH[OF w1 c(3), where t = "TExt q c t" and p = "Some q" and h = g and acc = "slice_bits c @ acc"] rq tq c(2)
        single_ext[OF Cons.prems(5), of c q] by simp
    moreover have "keys_bits (rev (c # cs)) @ acc = keys_bits (rev cs) @ (slice_bits c @ acc)" by simp
    ultimately show ?thesis using frame_trans[OF fq] by metis
  qed
qed

lemma insert_value_spec:
  assumes d: "digest_ok d" and w: "wl_inv base w" and k: "slice_inv key" and v: "hash_inv v"
    and a: "insert_value d ops v key w = (w', res)"
  shows "wl_inv base w' \<and> (res = Err OutOfMemory \<or>
    (\<exists>r t. res = Ok r \<and> set_to_ref r = tref d t \<and> rep d (view w') (sl_offset key) t \<and>
       frame (view w) {} (view w') (set (tptrs t)) \<and> single (slice_bits key) v t))"
proof -
  obtain w1 r1 where ic: "insert_chunks d ops (chunks_rev key) None v w = (w1, r1)" by fastforce
  note ch = chunks_rev_spec[OF k]
  have "rep d (view w) (wrapping_add (sl_offset key) (length (keys_bits (rev (chunks_rev key))))) (TValue False v)"
    using v by (simp add: rep_def)
  from insert_chunks_spec[OF d w conjunct1[OF ch] this _ single_value ic]
  have I: "wl_inv base w1 \<and> (r1 = Err OutOfMemory \<or>
      (\<exists>p' h' t'. r1 = Ok (p', h') \<and>
         tref d t' = (case p' of None \<Rightarrow> RefValue False h' | Some _ \<Rightarrow> RefNode p' h') \<and>
         rep d (view w1) (sl_offset key) t' \<and> frame (view w) {} (view w1) (set (tptrs t')) \<and>
         single (slice_bits key) v t'))"
    using ch by simp
  have "insert_value d ops v key w = (w1, case r1 of
      Ok (p, h) \<Rightarrow> Ok (case p of Some p \<Rightarrow> SetNode p h | None \<Rightarrow> SetValue h) | Err e \<Rightarrow> Err e | Panic \<Rightarrow> Panic)"
    using ic by (simp add: insert_value_def st_bind_def split: outcome.splits)
  then have w': "w' = w1" and r: "res = (case r1 of
      Ok (p, h) \<Rightarrow> Ok (case p of Some p \<Rightarrow> SetNode p h | None \<Rightarrow> SetValue h) | Err e \<Rightarrow> Err e | Panic \<Rightarrow> Panic)"
    using a by simp_all
  show ?thesis
  proof (cases "r1 = Err OutOfMemory")
    case True
    then show ?thesis using I w' r by simp
  next
    case False
    then obtain p h t where r1: "r1 = Ok (p, h)"
      and t: "tref d t = (case p of None \<Rightarrow> RefValue False h | Some _ \<Rightarrow> RefNode p h)"
        "rep d (view w1) (sl_offset key) t" "frame (view w) {} (view w1) (set (tptrs t))"
        "single (slice_bits key) v t" using I by blast
    have "set_to_ref (case p of Some p \<Rightarrow> SetNode p h | None \<Rightarrow> SetValue h) = tref d t"
      unfolding t(1) by (cases p) (simp_all add: set_to_ref_def)
    moreover have "res = Ok (case p of Some p \<Rightarrow> SetNode p h | None \<Rightarrow> SetValue h)"
      unfolding r r1 by simp
    ultimately show ?thesis using conjunct1[OF I] t(2-4) unfolding w' by blast
  qed
qed

text \<open>The contract of the handlers, for the tree \<open>t\<close> at the reference they get.\<close>

definition set_post ::
  "(byte list \<Rightarrow> hash) \<Rightarrow> (ptr \<rightharpoonup> raw_node) \<Rightarrow> ('s, raw_node) wlog \<Rightarrow> u3 \<Rightarrow> tree \<Rightarrow> bool list \<Rightarrow> hash \<Rightarrow>
   ('r \<Rightarrow> mem_ref) \<Rightarrow> ('s, raw_node) wlog \<times> (trie_error, 'r) outcome \<Rightarrow> bool" where
  "set_post d base w off t key v f wr \<longleftrightarrow>
     (case wr of (w', res) \<Rightarrow> wl_inv base w' \<and>
       (case res of
          Panic \<Rightarrow> False
        | Err e \<Rightarrow> tset_err t key = Some e \<or> tset_err t key = None \<and> e = OutOfMemory
        | Ok r \<Rightarrow> tset_err t key = None \<and>
            (\<exists>t'. f r = tref d t' \<and> rep d (view w') off t' \<and>
               frame (view w) (set (tptrs t)) (view w') (set (tptrs t')) \<and> tset_rel t key v t')))"

abbreviation node_ref :: "ptr \<times> hash \<Rightarrow> mem_ref" where
  "node_ref \<equiv> \<lambda>(p, h). RefNode (Some p) h"

lemma set_post_err:
  "wl_inv base w \<Longrightarrow> tset_err t key = Some e \<Longrightarrow> set_post d base w off t key v f (w, Err e)"
  by (simp add: set_post_def)

lemma set_post_OkI:
  assumes "f r = tref d t'" "wl_inv base w'" "tset_err t key = None" "rep d (view w') off t'"
    "frame (view w) (set (tptrs t)) (view w') (set (tptrs t'))" "tset_rel t key v t'"
  shows "set_post d base w off t key v f (w', Ok r)"
  unfolding set_post_def using assms by (simp, blast)

lemma set_post_node:
  assumes "set_post d base w off t key v node_ref (m w)"
  shows "set_post d base w off t key v set_to_ref (st_bind m (\<lambda>(p, h). st_return (SetNode p h)) w)"
  using assms by (cases "m w"; cases "snd (m w)") (auto simp: set_post_def st_bind_def set_to_ref_def)

lemma set_branch_case:
  assumes d: "digest_ok d" and w: "wl_inv base w" and rp: "rep d base off (TBranch p l r)"
    and same: "\<forall>q \<in> set (tptrs (TBranch p l r)). view w q = base q"
    and pf: "pop_front key = Some (b, key')" "slice_bits key = b # bits"
    and child: "set_post d base w (wrapping_add off 1) (if b then r else l) bits v set_to_ref
      (hr key' (tref d (if b then r else l)) w)"
  shows "set_post d base w off (TBranch p l r) (slice_bits key) v node_ref
    (set_handle_branch d hr key p (tref d l) (tref d r) w)"
proof -
  define c where "c = (if b then r else l)"
  define sib where "sib = (if b then l else r)"
  obtain w1 r1 where hr: "hr key' (tref d c) w = (w1, r1)" by fastforce
  have cr: "(if b then tref d r else tref d l) = tref d c" by (simp add: c_def)
  have te: "tset_err (TBranch p l r) (slice_bits key) = tset_err c bits" by (simp add: pf c_def)
  have P: "set_post d base w (wrapping_add off 1) c bits v set_to_ref (w1, r1)"
    using child hr by (simp add: c_def)
  show ?thesis
  proof (cases r1)
    case (Ok o1)
    from P Ok obtain c' where w1: "wl_inv base w1" and te0: "tset_err c bits = None"
      and c': "set_to_ref o1 = tref d c'" "rep d (view w1) (wrapping_add off 1) c'"
        "frame (view w) (set (tptrs c)) (view w1) (set (tptrs c'))" "tset_rel c bits v c'"
      by (auto simp: set_post_def)
    have dist: "p \<notin> set (tptrs c)" "p \<notin> set (tptrs sib)" "set (tptrs sib) \<inter> set (tptrs c) = {}" "valid_ptr p"
      and sr: "rep d base (wrapping_add off 1) sib" and pb: "p \<in> dom base"
      using rp by (auto simp: rep_def c_def sib_def)
    have "rep d (view w) (wrapping_add off 1) sib"
      using sr same rep_cong[of sib "view w" base] by (auto simp: sib_def split: if_splits)
    note S = rep_frame[OF c'(3) this dist(3)]
    have pw: "p \<in> dom (view w)" using same pb by (simp add: domIff)
    note K = frame_keep[OF c'(3) pw dist(1)]
    have pw1: "p \<in> dom (view w1)" using K(2) pw by (simp add: domIff)
    define l' where "l' = (if b then l else c')"
    define r' where "r' = (if b then c' else r)"
    have trees: "p \<notin> set (tptrs l')" "p \<notin> set (tptrs r')" "set (tptrs l') \<inter> set (tptrs r') = {}"
      "rep d (view w1) (wrapping_add off 1) l'" "rep d (view w1) (wrapping_add off 1) r'"
      using K(1) dist S c'(2) by (auto simp: l'_def r'_def sib_def split: if_splits)
    obtain w2 h where sn: "set_node d p (raw_branch (tref d l') (tref d r')) w1 = (w2, Ok (p, h))"
      "wl_inv base w2" "view w2 = (view w1)(p \<mapsto> raw_branch (tref d l') (tref d r'))"
      "tref d (TBranch p l' r') = RefNode (Some p) h" "rep d (view w2) off (TBranch p l' r')"
      by (rule set_branch_spec[OF d w1 pw1 dist(4) trees])
    have res: "set_handle_branch d hr key p (tref d l) (tref d r) w = (w2, Ok (p, h))"
      using hr Ok c'(1) sn(1)
      by (cases b) (simp_all add: set_handle_branch_def pf st_bind_def c_def l'_def r'_def)
    have sets: "set (tptrs (TBranch p l r)) = set (tptrs c) \<union> insert p (set (tptrs sib))"
      "set (tptrs (TBranch p l' r')) = set (tptrs c') \<union> insert p (set (tptrs sib))"
      by (auto simp: c_def sib_def l'_def r'_def)
    have "frame (view w) (set (tptrs (TBranch p l r))) (view w2) (set (tptrs (TBranch p l' r')))"
      unfolding sets sn(3) by (intro frame_upd frame_extend c'(3)) simp
    moreover have "tset_rel (TBranch p l r) (slice_bits key) v (TBranch p l' r')"
      using tset_rel_branch[of b r l bits v c' p] c'(4) by (cases b) (simp_all add: pf c_def l'_def r'_def)
    ultimately show ?thesis unfolding res using te te0 sn(4)
      by (intro set_post_OkI[OF _ sn(2) _ sn(5)]) simp_all
  next
    case (Err e)
    then have "set_handle_branch d hr key p (tref d l) (tref d r) w = (w1, Err e)"
      using hr cr by (simp add: set_handle_branch_def pf st_bind_def)
    then show ?thesis using P Err te by (simp add: set_post_def)
  qed (use P in \<open>simp add: set_post_def\<close>)
qed

lemma set_ext_match_case:
  assumes d: "digest_ok d" and w: "wl_inv base w" and rp: "rep d base off (TExt p k t)"
    and same: "\<forall>q \<in> set (tptrs (TExt p k t)). view w q = base q"
    and k': "ext_key_inv k'" "sl_offset k' = sl_offset k" "slice_bits k' = slice_bits k"
    and key: "bits = slice_bits k @ rest"
    and child: "set_post d base w (wrapping_add off (sl_length k)) t rest v set_to_ref (m w)"
  shows "set_post d base w off (TExt p k t) bits v node_ref
    (st_bind m (\<lambda>owned. set_node d p (raw_extension k' (set_to_ref owned))) w)"
proof -
  obtain w1 r1 where m: "m w = (w1, r1)" by fastforce
  have te: "tset_err (TExt p k t) bits = tset_err t rest" by (simp add: key)
  have lk: "sl_length k' = sl_length k" using k'(3) by (metis length_slice_bits)
  show ?thesis
  proof (cases r1)
    case (Ok o1)
    from child m Ok obtain c' where w1: "wl_inv base w1" and te0: "tset_err t rest = None"
      and c': "set_to_ref o1 = tref d c'" "rep d (view w1) (wrapping_add off (sl_length k)) c'"
        "frame (view w) (set (tptrs t)) (view w1) (set (tptrs c'))" "tset_rel t rest v c'"
      by (auto simp: set_post_def)
    have dist: "p \<notin> set (tptrs t)" "valid_ptr p" and pb: "p \<in> dom base" and ko: "sl_offset k = off"
      and ki: "ext_key_inv k"
      using rp by (auto simp: rep_def)
    have pw: "p \<in> dom (view w)" using same pb by (simp add: domIff)
    note K = frame_keep[OF c'(3) pw dist(1)]
    have pw1: "p \<in> dom (view w1)" using K(2) pw by (simp add: domIff)
    have raw: "raw_extension k' (tref d c') = raw_extension k (tref d c')"
      using encode_into_cong[OF k'(1) ki k'(2,3), where tag = "0x80"] by (simp add: raw_extension_def)
    have rc: "rep d (view w1) (wrapping_add (sl_offset k) (sl_length k)) c'" using c'(2) ko by simp
    obtain w2 h where sn: "set_node d p (raw_extension k (tref d c')) w1 = (w2, Ok (p, h))"
      "wl_inv base w2" "view w2 = (view w1)(p \<mapsto> raw_extension k (tref d c'))"
      "tref d (TExt p k c') = RefNode (Some p) h" "rep d (view w2) (sl_offset k) (TExt p k c')"
      by (rule set_extension_spec[OF d w1 pw1 dist(2) K(1) ki rc])
    have res: "st_bind m (\<lambda>owned. set_node d p (raw_extension k' (set_to_ref owned))) w = (w2, Ok (p, h))"
      using m Ok c'(1) sn(1) raw by simp
    have "frame (view w) (set (tptrs t) \<union> {p}) (view w2) (set (tptrs c') \<union> {p})"
      unfolding sn(3) by (intro frame_upd frame_extend c'(3)) simp
    then have "frame (view w) (set (tptrs (TExt p k t))) (view w2) (set (tptrs (TExt p k c')))" by simp
    moreover have "tset_rel (TExt p k t) bits v (TExt p k c')"
      unfolding key by (rule tset_rel_ext[OF c'(4)])
    ultimately show ?thesis unfolding res using te te0 sn(4,5) ko
      by (intro set_post_OkI[OF _ sn(2)]) simp_all
  next
    case (Err e)
    then show ?thesis using child m te by (simp add: set_post_def)
  qed (use child m in \<open>simp add: set_post_def\<close>)
qed

text \<open>
  Splitting an extension. The rest of the key goes into chunks of its own, the
  rest of the extension below the branch becomes an extension unless it is empty,
  the branch takes the block of the old node and the common prefix goes above it.
\<close>

lemma split_suffix:
  assumes d: "digest_ok d" and w: "wl_inv base w" and s: "slice_inv s" "slice_bytes_len s \<le> MAX_EXTENSION_KEY_SIZE"
    and t: "rep d (view w) (wrapping_add (sl_offset s) (sl_length s)) t"
    and a: "(case ext_key_try_from s of
        Ok s \<Rightarrow> st_bind (alloc_extension_node d ops s (tref d t)) (\<lambda>(p, h). st_return (RefNode (Some p) h))
      | Err ExtKeyEmpty \<Rightarrow> st_return (tref d t) | _ \<Rightarrow> st_lift Panic) w = (w', res)"
  shows "wl_inv base w' \<and> (res = Err OutOfMemory \<or>
    (\<exists>t2. res = Ok (tref d t2) \<and> rep d (view w') (sl_offset s) t2 \<and>
       frame (view w) (set (tptrs t)) (view w') (set (tptrs t2)) \<and>
       (\<forall>k. tget t2 k = text_lookup (slice_bits s) t k)))"
proof (cases "sl_length s = 0")
  case True
  then have "w' = w" "res = Ok (tref d t)" using a by (auto simp: ext_key_try_from_def slice_is_empty_def)
  moreover have "slice_bits s = []" using True by simp
  moreover have "rep d (view w) (sl_offset s) t" using t True by simp
  ultimately show ?thesis using w by auto
next
  case False
  have e: "ext_key_try_from s = Ok s" and k: "ext_key_inv s"
    using False s by (auto simp: ext_key_try_from_def slice_is_empty_def ext_key_inv_def)
  obtain w1 r1 where al: "alloc_node d ops (raw_extension s (tref d t)) w = (w1, r1)" by fastforce
  note A = alloc_node_spec[OF d w k t al]
  show ?thesis
  proof (cases "r1 = Err OutOfMemory")
    case True
    then show ?thesis using A a e al by (auto simp: alloc_extension_node_def)
  next
    case False
    then obtain p h where r1: "r1 = Ok (p, h)" and r: "tref d (TExt p s t) = RefNode (Some p) h"
      "rep d (view w1) (sl_offset s) (TExt p s t)"
      "frame (view w) (set (tptrs t)) (view w1) (set (tptrs (TExt p s t)))" using A by auto
    have "w' = w1" "res = Ok (tref d (TExt p s t))"
      using a e al r1 r(1) by (auto simp: alloc_extension_node_def simp del: tref.simps)
    moreover have "\<forall>k. tget (TExt p s t) k = text_lookup (slice_bits s) t k" by (simp only: tget_ext_text simp_thms)
    ultimately show ?thesis using A r(2,3) by blast
  qed
qed

lemma split_prefix:
  assumes d: "digest_ok d" and w: "wl_inv base w" and t: "rep d (view w) (wrapping_add off n) t"
    and ref: "tref d t = RefNode (Some p) h"
    and pre: "(pre = None \<and> n = 0) \<or>
      (\<exists>k. pre = Some k \<and> ext_key_inv k \<and> slice_bits k = bits \<and> sl_offset k = off)"
    and n: "length bits = n"
    and a: "(case pre of Some k \<Rightarrow> alloc_extension_node d ops k (RefNode (Some p) h)
      | None \<Rightarrow> st_return (p, h)) w = (w', res)"
  shows "wl_inv base w' \<and> (res = Err OutOfMemory \<or>
    (\<exists>r t2. res = Ok r \<and> node_ref r = tref d t2 \<and> rep d (view w') off t2 \<and>
       frame (view w) (set (tptrs t)) (view w') (set (tptrs t2)) \<and>
       (\<forall>k. tget t2 k = text_lookup bits t k)))"
  using pre
proof
  assume p: "pre = None \<and> n = 0"
  then have "w' = w" "res = Ok (p, h)" "bits = []" using a n by simp_all
  moreover have "rep d (view w) off t" using t p by simp
  ultimately show ?thesis using w ref by (auto intro!: exI[of _ t])
next
  assume "\<exists>k. pre = Some k \<and> ext_key_inv k \<and> slice_bits k = bits \<and> sl_offset k = off"
  then obtain k where k: "pre = Some k" "ext_key_inv k" "slice_bits k = bits" "sl_offset k = off" by blast
  have "sl_length k = n" using k(3) n by auto
  then have t': "rep d (view w) (wrapping_add (sl_offset k) (sl_length k)) t" using t k(4) by simp
  have al: "alloc_node d ops (raw_extension k (tref d t)) w = (w', res)"
    using a k(1) ref by (simp add: alloc_extension_node_def)
  note A = alloc_node_spec[OF d w k(2) t' al]
  show ?thesis
  proof (cases "res = Err OutOfMemory")
    case False
    then obtain p h where r: "res = Ok (p, h)" "tref d (TExt p k t) = RefNode (Some p) h"
      "rep d (view w') off (TExt p k t)"
      "frame (view w) (set (tptrs t)) (view w') (set (tptrs (TExt p k t)))" using A k(4) by auto
    moreover have "\<forall>x. tget (TExt p k t) x = text_lookup bits t x" by (simp only: tget_ext_text k(3) simp_thms)
    moreover have "node_ref (p, h) = tref d (TExt p k t)" using r(2) by simp
    ultimately show ?thesis using A by blast
  qed (use A in blast)
qed

lemma set_post_oom:
  "wl_inv base w' \<Longrightarrow> tset_err t key = None \<Longrightarrow> set_post d base w off t key v f (w', Err OutOfMemory)"
  by (simp add: set_post_def)

lemma tset_err_split:
  assumes "slice_bits k = pre @ (\<not> b) # suf"
  shows "tset_err (TExt p k t) (pre @ b # key) = None"
proof -
  have len: "sl_length k = length pre + Suc (length suf)" using arg_cong[OF assms, of length] by simp
  have "take (sl_length k) (pre @ b # key) \<noteq> slice_bits k" unfolding assms len by simp
  moreover have "take (length (pre @ b # key)) (slice_bits k) \<noteq> pre @ b # key" unfolding assms by simp
  ultimately show ?thesis by simp
qed

lemma set_split_case:
  assumes d: "digest_ok d" and w: "wl_inv base w" and v: "hash_inv v" and rp: "rep d base off (TExt p k t)"
    and same: "\<forall>q \<in> set (tptrs (TExt p k t)). view w q = base q"
    and bits: "slice_bits k = bs @ (\<not> b) # slice_bits suf" and n: "length bs = n"
    and suf: "slice_inv suf" "slice_bytes_len suf \<le> MAX_EXTENSION_KEY_SIZE" "sl_offset suf = wrapping_add off (n + 1)"
    and key: "slice_inv key" "sl_offset key = wrapping_add off (n + 1)"
    and pre: "(pre = None \<and> n = 0) \<or>
      (\<exists>k. pre = Some k \<and> ext_key_inv k \<and> slice_bits k = bs \<and> sl_offset k = off)"
  shows "set_post d base w off (TExt p k t) (bs @ b # slice_bits key) v node_ref
    (set_split d ops v b key suf pre p (tref d t) w)"
proof -
  let ?o = "wrapping_add off (n + 1)" and ?T = "set (tptrs t)"
  note te = tset_err_split[OF bits, of p t "slice_bits key"]
  have lk: "sl_length k = n + 1 + sl_length suf" using arg_cong[OF bits, of length] n by simp
  have dist: "p \<notin> ?T" "valid_ptr p" and pb: "p \<in> dom base" and ko: "sl_offset k = off"
    and tb: "rep d base (wrapping_add (sl_offset suf) (sl_length suf)) t"
    using rp lk suf(3) by (auto simp: rep_def wrapping_add_add add.assoc)
  have tw: "rep d (view w) (wrapping_add (sl_offset suf) (sl_length suf)) t"
    using tb same rep_cong[of t "view w" base] by simp
  have pw: "p \<in> dom (view w)" using same pb by (simp add: domIff)
  obtain w1 r1 where iv: "insert_value d ops v key w = (w1, r1)" by fastforce
  note I = insert_value_spec[OF d w key(1) v iv]
  show ?thesis
  proof (cases "r1 = Err OutOfMemory")
    case True
    then show ?thesis using I iv te by (simp add: set_split_def set_post_oom)
  next
    case False
    then obtain r t1 where r1: "r1 = Ok r" "set_to_ref r = tref d t1" "rep d (view w1) ?o t1"
      "frame (view w) {} (view w1) (set (tptrs t1))" "single (slice_bits key) v t1"
      and w1: "wl_inv base w1" using I key(2) by auto
    have t1: "rep d (view w1) (wrapping_add (sl_offset suf) (sl_length suf)) t" "?T \<inter> set (tptrs t1) = {}"
      using rep_frame[OF r1(4) tw] by auto
    note p1 = frame_keep[OF r1(4) pw]
    obtain w2 r2 where sx: "(case ext_key_try_from suf of
        Ok s \<Rightarrow> st_bind (alloc_extension_node d ops s (tref d t)) (\<lambda>(p, h). st_return (RefNode (Some p) h))
      | Err ExtKeyEmpty \<Rightarrow> st_return (tref d t) | _ \<Rightarrow> st_lift Panic) w1 = (w2, r2)" by fastforce
    note S = split_suffix[OF d w1 suf(1,2) t1(1) sx]
    show ?thesis
    proof (cases "r2 = Err OutOfMemory")
      case True
      then show ?thesis using S iv sx r1(1) te by (simp add: set_split_def set_post_oom)
    next
      case False
      then obtain t2 where r2: "r2 = Ok (tref d t2)" "rep d (view w2) ?o t2"
        "frame (view w1) ?T (view w2) (set (tptrs t2))" "\<forall>k. tget t2 k = text_lookup (slice_bits suf) t k"
        and w2: "wl_inv base w2" using S suf(3) by auto
      have t12: "rep d (view w2) ?o t1" "set (tptrs t1) \<inter> set (tptrs t2) = {}"
        using rep_frame[OF r2(3) r1(3)] t1(2) by auto
      have p1d: "p \<in> dom (view w1)" using p1 pw by (simp add: domIff)
      note p2 = frame_keep[OF r2(3) p1d dist(1)]
      have p2d: "p \<in> dom (view w2)" using p2 p1d by (simp add: domIff)
      define l where "l = (if b then t2 else t1)"
      define rr where "rr = (if b then t1 else t2)"
      have trees: "p \<notin> set (tptrs l)" "p \<notin> set (tptrs rr)" "set (tptrs l) \<inter> set (tptrs rr) = {}"
        "rep d (view w2) (wrapping_add (wrapping_add off n) 1) l" "rep d (view w2) (wrapping_add (wrapping_add off n) 1) rr"
        using p1 p2 t12 r2(2) by (auto simp: l_def rr_def wrapping_add_add)
      obtain w3 h where sn: "set_node d p (raw_branch (tref d l) (tref d rr)) w2 = (w3, Ok (p, h))"
        "wl_inv base w3" "view w3 = (view w2)(p \<mapsto> raw_branch (tref d l) (tref d rr))"
        "tref d (TBranch p l rr) = RefNode (Some p) h" "rep d (view w3) (wrapping_add off n) (TBranch p l rr)"
        by (rule set_branch_spec[OF d w2 p2d dist(2) trees])
      have f1: "frame (view w) (set (tptrs (TExt p k t))) (view w1) (set (tptrs t1) \<union> (?T \<union> {p}))"
        using frame_extend[OF r1(4), of "?T \<union> {p}"] by simp
      have f2: "frame (view w1) (set (tptrs t1) \<union> (?T \<union> {p})) (view w2) (set (tptrs (TBranch p l rr)))"
        using frame_extend[OF r2(3), of "set (tptrs t1) \<union> {p}"] by (simp add: l_def rr_def ac_simps)
      have f3: "frame (view w) (set (tptrs (TExt p k t))) (view w3) (set (tptrs (TBranch p l rr)))"
        unfolding sn(3) by (intro frame_upd frame_trans[OF f1 f2]) simp
      obtain w4 r4 where px: "(case pre of Some k \<Rightarrow> alloc_extension_node d ops k (RefNode (Some p) h)
          | None \<Rightarrow> st_return (p, h)) w3 = (w4, r4)" by fastforce
      note P = split_prefix[OF d sn(2,5,4) pre n px]
      have prog: "set_split d ops v b key suf pre p (tref d t) w = (w4, r4)"
        using iv r1(1,2) sx r2(1) sn(1) px
        by (cases b) (simp_all add: set_split_def l_def rr_def)
      show ?thesis
      proof (cases "r4 = Err OutOfMemory")
        case True
        then show ?thesis unfolding prog using P te by (simp add: set_post_oom)
      next
        case False
        then obtain r t' where r4: "r4 = Ok r" "node_ref r = tref d t'" "rep d (view w4) off t'"
          "frame (view w3) (set (tptrs (TBranch p l rr))) (view w4) (set (tptrs t'))"
          "\<forall>k. tget t' k = text_lookup bs (TBranch p l rr) k" and w4: "wl_inv base w4"
          using P by blast
        have "tset_rel (TExt p k t) (bs @ b # slice_bits key) v t'"
        proof (rule tset_rel_split[where c = t and suf = "slice_bits suf" and ?t1.0 = t1 and ?t2.0 = t2 and p = p])
          show "tget (TExt p k t) x = text_lookup (bs @ (\<not> b) # slice_bits suf) t x" for x
            unfolding tget_ext_text bits ..
          have "TBranch p l rr = (if b then TBranch p t2 t1 else TBranch p t1 t2)"
            by (simp add: l_def rr_def)
          then show "tget t' x = text_lookup bs (if b then TBranch p t2 t1 else TBranch p t1 t2) x" for x
            using r4(5) by metis
        qed (use r1(5) r2(4) in auto)
        then show ?thesis unfolding prog r4(1)
          by (rule set_post_OkI[where f = node_ref and r = r, OF r4(2) w4 te r4(3) frame_trans[OF f3 r4(4)]])
      qed
    qed
  qed
qed

lemma set_extension_case:
  assumes d: "digest_ok d" and w: "wl_inv base w" and v: "hash_inv v" and rp: "rep d base (sl_offset key) (TExt p k t)"
    and same: "\<forall>q \<in> set (tptrs (TExt p k t)). view w q = base q" and ks: "slice_inv key"
    and k': "ext_key_inv k'" "sl_offset k' = sl_offset k" "slice_bits k' = slice_bits k"
    and child: "\<And>key'. slice_inv key' \<Longrightarrow> sl_offset key' = wrapping_add (sl_offset key) (sl_length k) \<Longrightarrow>
      set_post d base w (sl_offset key') t (slice_bits key') v set_to_ref (hr key' (tref d t) w)"
  shows "set_post d base w (sl_offset key) (TExt p k t) (slice_bits key) v node_ref
    (set_handle_extension d ops v hr key p k' (tref d t) w)"
proof (cases "sl_length key = 0")
  case True
  have "sl_length k \<noteq> 0" using rp by (auto simp: rep_def ext_key_inv_def)
  then have "[] \<noteq> slice_bits k" by (metis length_slice_bits list.size(3))
  then show ?thesis using True w
    by (auto simp: set_handle_extension_def slice_is_empty_def intro!: set_post_err)
next
  case False
  have ki: "ext_key_inv k" "sl_offset k = sl_offset key" using rp by (auto simp: rep_def)
  have lk: "sl_length k' = sl_length k" using k'(3) by (metis length_slice_bits)
  define n where "n = lcp_length (slice_bits key) (slice_bits k')"
  obtain pre suf key1 where fc: "forward_common_prefix key k' = Some (pre, suf, key1)" and k1: "slice_inv key1"
    "slice_bits key1 = drop n (slice_bits key)" "sl_offset key1 = wrapping_add (sl_offset key) n"
    and pre: "(pre = None \<and> n = 0) \<or> (\<exists>p'. pre = Some p' \<and> 0 < n \<and> ext_key_inv p' \<and>
       slice_bits p' = take n (slice_bits key) \<and> sl_offset p' = sl_offset key)"
    and suf: "(suf = None \<and> n = sl_length k') \<or> (\<exists>q'. suf = Some q' \<and> n < sl_length k' \<and> ext_key_inv q' \<and>
       slice_bits q' = drop n (slice_bits k') \<and> sl_offset q' = wrapping_add (sl_offset k') n)"
    unfolding n_def by (rule forward_common_prefix_eq[OF ks k'(1)]) (use False k'(2) ki(2) in auto)
  have le: "n \<le> sl_length key" "n \<le> sl_length k"
    and tk: "take n (slice_bits key) = take n (slice_bits k)"
    using lcp_length_le[of "slice_bits key" "slice_bits k'"] lcp_take[of "slice_bits key" "slice_bits k'"] k'(3)
    by (auto simp: n_def)
  have split: "slice_bits key = take n (slice_bits key) @ slice_bits key1" by (simp add: k1(2))
  have he: "set_handle_extension d ops v hr key p k' (tref d t) w =
      (case suf of
         None \<Rightarrow> st_bind (hr key1 (tref d t)) (\<lambda>owned. set_node d p (raw_extension k' (set_to_ref owned))) w
       | Some suf \<Rightarrow> (case pop_front key1 of
           None \<Rightarrow> (w, Err BadKeyPrefix)
         | Some (our, key) \<Rightarrow> (case pop_front suf of
             None \<Rightarrow> (w, Panic)
           | Some (theirs, suf) \<Rightarrow>
               if our = theirs then (w, Panic) else set_split d ops v our key suf pre p (tref d t) w)))"
    using False by (auto simp: set_handle_extension_def slice_is_empty_def fc split: option.splits)
  show ?thesis
  proof (cases suf)
    case None
    then have n: "n = sl_length k" using suf lk by auto
    have kb: "slice_bits key = slice_bits k @ slice_bits key1" using split tk n by simp
    have "set_post d base w (wrapping_add (sl_offset key) (sl_length k)) t (slice_bits key1) v set_to_ref (hr key1 (tref d t) w)"
      using child[OF k1(1)] k1(3) n by simp
    from set_ext_match_case[where m = "hr key1 (tref d t)", OF d w rp same k' kb this] show ?thesis by (simp add: he None)
  next
    case (Some q)
    then have q: "n < sl_length k" "ext_key_inv q" "slice_bits q = drop n (slice_bits k)"
      "sl_offset q = wrapping_add (sl_offset key) n" using suf lk k' ki by auto
    show ?thesis
    proof (cases "sl_length key1 = 0")
      case True
      then have kt: "slice_bits key = take n (slice_bits k)" using split tk by simp
      have "take (length (slice_bits key)) (slice_bits k) = slice_bits key"
        using kt by (metis take_all_iff take_take length_take min.absorb_iff2 min.cobounded2)
      moreover have "take (sl_length k) (slice_bits key) \<noteq> slice_bits k"
        using kt q(1) le by (metis length_slice_bits length_take min.absorb4 nat_less_le take_all_iff)
      ultimately have "tset_err (TExt p k t) (slice_bits key) = Some BadKeyPrefix" by simp
      moreover have "pop_front key1 = None" using True by (simp add: pop_front_None)
      ultimately show ?thesis using w by (simp add: he Some set_post_err)
    next
      case False
      then obtain b key2 where k2: "pop_front key1 = Some (b, key2)" "slice_inv key2"
        "slice_bits key1 = b # slice_bits key2" "sl_offset key2 = wrapping_add (sl_offset key1) 1"
        using pop_front_bits[OF k1(1)] by (metis length_slice_bits list.size(3))
      have qi: "slice_inv q" "0 < sl_length q" "slice_bytes_len q \<le> MAX_EXTENSION_KEY_SIZE"
        using q(2) by (auto simp: ext_key_inv_def)
      then obtain c suf2 where s2: "pop_front q = Some (c, suf2)" "slice_inv suf2"
        "slice_bits q = c # slice_bits suf2" "sl_offset suf2 = wrapping_add (sl_offset q) 1"
        using pop_front_bits[OF qi(1)] by (metis length_slice_bits list.size(3) less_irrefl)
      have ln: "n < length (slice_bits key)" using False arg_cong[OF k1(2), of length] by simp
      have "slice_bits key ! n = slice_bits key1 ! 0" "slice_bits k ! n = slice_bits q ! 0"
        unfolding k1(2) q(3) using ln q(1) by simp_all
      then have kn: "slice_bits key ! n = b" "slice_bits k ! n = c" by (simp_all add: k2(3) s2(3))
      have ne: "b \<noteq> c"
        using lcp_length_differ[of "slice_bits key" "slice_bits k'"] ln q(1) kn k'(3) by (auto simp: n_def)
      have kb: "slice_bits key = take n (slice_bits key) @ b # slice_bits key2" using split k2(3) by simp
      have "slice_bits k = take n (slice_bits k) @ slice_bits q" using q(3) by simp
      then have bits: "slice_bits k = take n (slice_bits key) @ (\<not> b) # slice_bits suf2" 
        using tk s2(3) ne by (cases b; cases c) simp_all
      have len: "length (take n (slice_bits key)) = n" using ln by simp
      have "slice_bytes_len suf2 \<le> MAX_EXTENSION_KEY_SIZE"
        using pop_front_bytes_len[OF qi(1) s2(1)] qi(3) by simp
      moreover have "sl_offset suf2 = wrapping_add (sl_offset key) (n + 1)" "sl_offset key2 = wrapping_add (sl_offset key) (n + 1)"
        using s2(4) q(4) k2(4) k1(3) by (simp_all add: wrapping_add_add)
      moreover have "(pre = None \<and> n = 0) \<or> (\<exists>k. pre = Some k \<and> ext_key_inv k \<and>
          slice_bits k = take n (slice_bits key) \<and> sl_offset k = sl_offset key)" using pre by blast
      ultimately have "set_post d base w (sl_offset key) (TExt p k t) (take n (slice_bits key) @ b # slice_bits key2) v node_ref
          (set_split d ops v b key2 suf2 pre p (tref d t) w)"
        by (intro set_split_case[OF d w v rp same bits len s2(2) _ _ k2(2)])
      then show ?thesis using kb ne by (simp add: he Some k2(1) s2(1))
    qed
  qed
qed

lemma set_reference_spec:
  assumes d: "digest_ok d" and v: "hash_inv v" and w: "wl_inv base w"
  shows "rep d base (sl_offset key) t \<Longrightarrow> \<forall>q \<in> set (tptrs t). view w q = base q \<Longrightarrow> slice_inv key \<Longrightarrow>
    set_post d base w (sl_offset key) t (slice_bits key) v set_to_ref
      (set_handle_reference (\<lambda>p. set_handle d ops v key p) v key (tref d t) w)"
proof (induction t arbitrary: key)
  case (TValue s h)
  have "tset_rel (TValue False h) [] v (TValue False v)" by (auto simp: tset_rel_def)
  moreover have "slice_bits key = [] \<longleftrightarrow> slice_is_empty key" by (simp add: slice_is_empty_def)
  ultimately show ?case using w v
    by (auto simp: set_handle_reference_def set_post_def set_to_ref_def rep_def intro!: exI[of _ "TValue False v"])
next
  case (TSealed h)
  then show ?case using w by (simp add: set_handle_reference_def set_handle.simps set_post_err)
next
  case (TBranch p l r)
  let ?hr = "\<lambda>key child. set_handle_reference (\<lambda>p. set_handle d ops v key p) v key child"
  have inv: "ref_inv (tref d l)" "ref_inv (tref d r)" using TBranch.prems tref_inv[OF d] by (auto simp: rep_def)
  have get: "wlog_get ops w p = Some (raw_branch (tref d l) (tref d r))"
    using TBranch.prems(1) by (intro wl_get[OF w]) (simp add: rep_def)
  have eq: "set_handle d ops v key (Some p) w = set_handle_branch d ?hr key p (tref d l) (tref d r) w"
    by (simp add: set_handle.simps[of d ops v key "Some p"] get decode_branch[OF inv])
  have "set_post d base w (sl_offset key) (TBranch p l r) (slice_bits key) v node_ref
      (set_handle d ops v key (Some p) w)" unfolding eq
  proof (cases "pop_front key")
    case None
    then show "set_post d base w (sl_offset key) (TBranch p l r) (slice_bits key) v node_ref
      (set_handle_branch d ?hr key p (tref d l) (tref d r) w)"
      using w pop_front_bits[OF TBranch.prems(3)] by (auto simp: set_handle_branch_def intro!: set_post_err)
  next
    case (Some x)
    then obtain b key' where pf: "pop_front key = Some (b, key')" "slice_inv key'"
      "slice_bits key = b # slice_bits key'" "sl_offset key' = wrapping_add (sl_offset key) 1"
      using pop_front_bits[OF TBranch.prems(3)] by auto
    have "set_post d base w (sl_offset key') (if b then r else l) (slice_bits key') v set_to_ref
        (?hr key' (tref d (if b then r else l)) w)"
      using TBranch.IH(1)[of key'] TBranch.IH(2)[of key'] TBranch.prems pf by (cases b) (auto simp: rep_def)
    then show "set_post d base w (sl_offset key) (TBranch p l r) (slice_bits key) v node_ref
      (set_handle_branch d ?hr key p (tref d l) (tref d r) w)"
      unfolding pf(4) by (rule set_branch_case[OF d w TBranch.prems(1,2) pf(1,3)])
  qed
  then show ?case using set_post_node[where m = "set_handle d ops v key (Some p)"]
    by (simp add: set_handle_reference_def)
next
  case (TExt p k t)
  let ?hr = "\<lambda>key child. set_handle_reference (\<lambda>p. set_handle d ops v key p) v key child"
  have ki: "ext_key_inv k" and ci: "ref_inv (tref d t)" using TExt.prems tref_inv[OF d] by (auto simp: rep_def)
  obtain k' where k': "raw_decode (raw_extension k (tref d t)) = Ok (Extension k' (tref d t))"
    "ext_key_inv k'" "sl_offset k' = sl_offset k" "slice_bits k' = slice_bits k" "sl_length k' = sl_length k"
    by (rule decode_extension[OF ki ci])
  have get: "wlog_get ops w p = Some (raw_extension k (tref d t))"
    using TExt.prems(1) by (intro wl_get[OF w]) (simp add: rep_def)
  have eq: "set_handle d ops v key (Some p) w = set_handle_extension d ops v ?hr key p k' (tref d t) w"
    by (simp add: set_handle.simps[of d ops v key "Some p"] get k'(1))
  have "set_post d base w (sl_offset key) (TExt p k t) (slice_bits key) v node_ref
      (set_handle d ops v key (Some p) w)" unfolding eq
  proof (rule set_extension_case[OF d w v TExt.prems k'(2-4)])
    fix key' assume "slice_inv key'" "sl_offset key' = wrapping_add (sl_offset key) (sl_length k)"
    then show "set_post d base w (sl_offset key') t (slice_bits key') v set_to_ref (?hr key' (tref d t) w)"
      using TExt.prems by (intro TExt.IH) (auto simp: rep_def)
  qed
  then show ?case using set_post_node[where m = "set_handle d ops v key (Some p)"]
    by (simp add: set_handle_reference_def)
qed

end

section \<open>Insertion into a trie\<close>

definition content_set_err :: "tree option \<Rightarrow> bool list \<Rightarrow> trie_error option" where
  "content_set_err c key =
     (case c of None \<Rightarrow> if key = [] then Some EmptyKey else None | Some t \<Rightarrow> tset_err t key)"

definition content_ptrs :: "tree option \<Rightarrow> ptr set" where
  "content_ptrs c = (case c of None \<Rightarrow> {} | Some t \<Rightarrow> set (tptrs t))"

definition content_set_rel :: "tree option \<Rightarrow> bool list \<Rightarrow> hash \<Rightarrow> tree option \<Rightarrow> bool" where
  "content_set_rel c key v c' \<longleftrightarrow>
     content_get c' key = Ok (Some v) \<and> (\<forall>k. k \<noteq> key \<longrightarrow> content_get c' k = content_get c k)"

text \<open>A trie held by an allocator with live blocks \<open>m\<close>.\<close>

definition trie_rep ::
  "(byte list \<Rightarrow> hash) \<Rightarrow> ('s \<Rightarrow> bool) \<Rightarrow> ('s \<Rightarrow> ptr \<rightharpoonup> raw_node) \<Rightarrow> 's trie \<Rightarrow> tree option \<Rightarrow> bool" where
  "trie_rep d ainv live t c \<longleftrightarrow>
     ainv (tr_alloc t) \<and> trie_content d (live (tr_alloc t)) (tr_root_ptr t) (tr_root_hash t) c"

definition trie_set_post ::
  "(byte list \<Rightarrow> hash) \<Rightarrow> ('s \<Rightarrow> bool) \<Rightarrow> ('s \<Rightarrow> ptr \<rightharpoonup> raw_node) \<Rightarrow> 's trie \<Rightarrow> tree option \<Rightarrow> bool list \<Rightarrow> hash \<Rightarrow>
   's trie \<Rightarrow> (trie_error, unit) outcome \<Rightarrow> bool" where
  "trie_set_post d ainv live t c key v t' res \<longleftrightarrow>
     (case res of
        Panic \<Rightarrow> False
      | Err e \<Rightarrow>
          (content_set_err c key = Some e \<or> content_set_err c key = None \<and> e = OutOfMemory) \<and>
          trie_rep d ainv live t' c \<and> live (tr_alloc t') = live (tr_alloc t) \<and>
          tr_root_ptr t' = tr_root_ptr t \<and> tr_root_hash t' = tr_root_hash t
      | Ok _ \<Rightarrow> content_set_err c key = None \<and>
          (\<exists>c'. trie_rep d ainv live t' c' \<and> content_set_rel c key v c' \<and>
             frame (live (tr_alloc t)) (content_ptrs c) (live (tr_alloc t')) (content_ptrs c')))"

context raw_allocator
begin

definition context_post ::
  "(byte list \<Rightarrow> hash) \<Rightarrow> 's \<Rightarrow> tree option \<Rightarrow> bool list \<Rightarrow> hash \<Rightarrow>
   ('s, raw_node) wlog \<times> (trie_error, ptr \<times> hash) outcome \<Rightarrow> bool" where
  "context_post d s c key v wr \<longleftrightarrow>
     (case wr of (w, res) \<Rightarrow> wl_inv (live s) w \<and>
       (case res of
          Panic \<Rightarrow> False
        | Err e \<Rightarrow> content_set_err c key = Some e \<or> content_set_err c key = None \<and> e = OutOfMemory
        | Ok (p, h) \<Rightarrow> content_set_err c key = None \<and>
            (\<exists>t'. tref d t' = RefNode (Some p) h \<and> rep d (view w) 0 t' \<and>
               frame (live s) (content_ptrs c) (view w) (set (tptrs t')) \<and> content_set_rel c key v (Some t'))))"

lemma set_empty_case:
  assumes d: "digest_ok d" and v: "hash_inv v" and s: "ainv s" and key: "slice_inv key" "sl_offset key = 0"
  shows "context_post d s None (slice_bits key) v
    (st_bind (insert_value d ops v key)
       (\<lambda>r. case r of SetNode p h \<Rightarrow> st_return (p, h) | SetValue _ \<Rightarrow> st_lift (Err EmptyKey)) (wlog_new s))"
proof -
  note new = wl_new[OF s]
  obtain w1 r1 where iv: "insert_value d ops v key (wlog_new s) = (w1, r1)" by fastforce
  note I = insert_value_spec[OF d conjunct1[OF new] key(1) v iv]
  have ne: "slice_bits key = [] \<Longrightarrow> insert_value d ops v key (wlog_new s) = (wlog_new s, Ok (SetValue v))"
    using chunks_rev_empty[OF key(1)] by (auto simp: insert_value_def)
  show ?thesis
  proof (cases "slice_bits key = []")
    case True
    then show ?thesis using ne new by (simp add: context_post_def content_set_err_def)
  next
    case nempty: False
    show ?thesis
    proof (cases "r1 = Err OutOfMemory")
      case True
      then show ?thesis using I iv nempty by (simp add: context_post_def content_set_err_def)
    next
      case False
      then obtain r t where r: "r1 = Ok r" "set_to_ref r = tref d t" "rep d (view w1) 0 t"
        "frame (live s) {} (view w1) (set (tptrs t))" "single (slice_bits key) v t"
        and w1: "wl_inv (live s) w1" using I key(2) new by auto
      have "t \<noteq> TValue b h" for b h
        using r(5) nempty by (auto simp: single_def dest: spec[of _ "[]"] split: if_splits)
      then obtain p h where ref: "r = SetNode p h"
        using r(2) by (cases r; cases t) (auto simp: set_to_ref_def)
      have "content_set_rel None (slice_bits key) v (Some t)"
        using r(5) by (auto simp: content_set_rel_def content_get_def single_def)
      then show ?thesis using iv r ref w1 nempty
        by (auto simp: context_post_def content_set_err_def content_ptrs_def set_to_ref_def intro!: exI[of _ t])
    qed
  qed
qed

lemma set_root_case:
  assumes d: "digest_ok d" and v: "hash_inv v" and s: "ainv s" and key: "slice_inv key" "sl_offset key = 0"
    and c: "trie_content d (live s) (Some p) h (Some t)"
  shows "context_post d s (Some t) (slice_bits key) v (set_handle d ops v key (Some p) (wlog_new s))"
proof -
  note new = wl_new[OF s]
  have rp: "rep d (live s) (sl_offset key) t" and tr: "tref d t = RefNode (Some p) h"
    using c key(2) by (auto simp: trie_content_def rep_def)
  obtain w r where sh: "set_handle d ops v key (Some p) (wlog_new s) = (w, r)" by fastforce
  have "set_post d (live s) (wlog_new s) (sl_offset key) t (slice_bits key) v set_to_ref
      (set_handle_reference (\<lambda>p. set_handle d ops v key p) v key (tref d t) (wlog_new s))"
    by (rule set_reference_spec[OF d v conjunct1[OF new] rp _ key(1)]) (simp add: new)
  then have P: "set_post d (live s) (wlog_new s) 0 t (slice_bits key) v set_to_ref
      (w, case r of Ok (p, h) \<Rightarrow> Ok (SetNode p h) | Err e \<Rightarrow> Err e | Panic \<Rightarrow> Panic)"
    using sh key(2) by (auto simp add: tr set_handle_reference_def st_bind_def split: outcome.splits)
  show ?thesis
  proof (cases r)
    case (Ok x)
    then show ?thesis using P new by (cases x)
      (auto simp: sh set_post_def context_post_def content_set_err_def set_to_ref_def content_ptrs_def
        content_set_rel_def tset_rel_def content_get_def)
  qed (use P in \<open>auto simp: sh set_post_def context_post_def content_set_err_def\<close>)
qed

lemma set_context_spec:
  assumes d: "digest_ok d" and v: "hash_inv v" and s: "ainv s" and key: "slice_inv key" "sl_offset key = 0"
    and c: "trie_content d (live s) p h c" and r: "set_context d ops v key p h s = (s', res)"
  shows "ainv s' \<and>
    (case res of
       Panic \<Rightarrow> False
     | Err e \<Rightarrow> live s' = live s \<and>
         (content_set_err c (slice_bits key) = Some e \<or> content_set_err c (slice_bits key) = None \<and> e = OutOfMemory)
     | Ok (p', h') \<Rightarrow> content_set_err c (slice_bits key) = None \<and>
         (\<exists>t'. trie_content d (live s') (Some p') h' (Some t') \<and> content_set_rel c (slice_bits key) v (Some t') \<and>
            frame (live s) (content_ptrs c) (live s') (set (tptrs t'))))"
proof -
  define wr where "wr = (case p of
      Some p \<Rightarrow> set_handle d ops v key (Some p) (wlog_new s)
    | None \<Rightarrow> if h \<noteq> EMPTY_TRIE_ROOT then (wlog_new s, Err Sealed)
        else st_bind (insert_value d ops v key)
          (\<lambda>r. case r of SetNode p h \<Rightarrow> st_return (p, h) | SetValue _ \<Rightarrow> st_lift (Err EmptyKey)) (wlog_new s))"
  have P: "context_post d s c (slice_bits key) v wr"
  proof (cases c)
    case None
    then show ?thesis using set_empty_case[OF d v s key] c by (simp add: wr_def trie_content_def)
  next
    case (Some t)
    note ne = trie_content_hash[OF d c]
    show ?thesis
    proof (cases p)
      case None
      then have "t = TSealed h" using c Some by (cases t) (auto simp: trie_content_def)
      then show ?thesis using Some None ne wl_new[OF s]
        by (simp add: wr_def context_post_def content_set_err_def)
    next
      case sp: (Some q)
      then show ?thesis using set_root_case[OF d v s key] c Some by (simp add: wr_def)
    qed
  qed
  obtain w r1 where wr: "wr = (w, r1)" by fastforce
  have w: "wl_inv (live s) w" using P by (simp add: wr context_post_def)
  have r': "(case r1 of
      Ok r \<Rightarrow> (case wlog_commit ops w of None \<Rightarrow> (wl_alloc w, Panic) | Some s \<Rightarrow> (s, Ok r))
    | Err e \<Rightarrow> (case wlog_drop ops w of None \<Rightarrow> (wl_alloc w, Panic) | Some s \<Rightarrow> (s, Err e))
    | Panic \<Rightarrow> (wl_alloc w, Panic)) = (s', res)"
    using r by (simp only: set_context_def Let_def wr_def[symmetric] wr prod.case)
  show ?thesis
  proof (cases r1)
    case (Ok x)
    obtain p' h' where x: "x = (p', h')" by fastforce
    obtain s1 where s1: "wlog_commit ops w = Some s1" "ainv s1" "live s1 = view w"
      using wl_commit[OF w] by blast
    have res: "s' = s1" "res = Ok (p', h')" using r' Ok x s1(1) by simp_all
    from P Ok x obtain t' where ce: "content_set_err c (slice_bits key) = None" and
      t': "tref d t' = RefNode (Some p') h'" "rep d (view w) 0 t'"
        "frame (live s) (content_ptrs c) (view w) (set (tptrs t'))" "content_set_rel c (slice_bits key) v (Some t')"
      by (auto simp: wr context_post_def)
    have "trie_content d (live s1) (Some p') h' (Some t')"
      using t'(1,2) by (simp add: trie_content_def rep_def s1(3))
    then show ?thesis using ce t'(3,4) s1(2) unfolding res s1(3) by auto
  next
    case (Err e)
    then show ?thesis using P wl_drop[OF w] r' by (auto simp: wr context_post_def)
  next
    case Panic
    then show ?thesis using P by (simp add: wr context_post_def)
  qed
qed

lemma trie_set_spec:
  assumes d: "digest_ok d" and v: "hash_inv v" and t: "trie_rep d ainv live t c"
    and k: "slice_from_bytes key = Some K" and r: "trie_set d ops key v t = (t', res)"
  shows "trie_set_post d ainv live t c (key_bits key) v t' res"
proof -
  note ki = slice_from_bytes_key[OF k]
  obtain s' r1 where sc: "set_context d ops v K (tr_root_ptr t) (tr_root_hash t) (tr_alloc t) = (s', r1)" by fastforce
  have a: "ainv (tr_alloc t)" and c: "trie_content d (live (tr_alloc t)) (tr_root_ptr t) (tr_root_hash t) c"
    using t by (auto simp: trie_rep_def)
  note S = set_context_spec[OF d v a ki(1,2) c sc, unfolded ki(3)]
  have tr: "trie_set d ops key v t = (case (s', r1) of
      (s, Ok (p, h)) \<Rightarrow> (\<lparr>tr_root_ptr = Some p, tr_root_hash = h, tr_alloc = s\<rparr>, Ok ())
    | (s, Err e) \<Rightarrow> (t\<lparr>tr_alloc := s\<rparr>, Err e) | (s, Panic) \<Rightarrow> (t\<lparr>tr_alloc := s\<rparr>, Panic))"
    by (simp add: trie_set_def k trie_set_impl_def sc)
  show ?thesis
  proof (cases r1)
    case (Ok x)
    then obtain p h where x: "x = (p, h)" by (cases x)
    with Ok S obtain u where u: "content_set_err c (key_bits key) = None" "ainv s'"
      "trie_content d (live s') (Some p) h (Some u)" "content_set_rel c (key_bits key) v (Some u)"
      "frame (live (tr_alloc t)) (content_ptrs c) (live s') (content_ptrs (Some u))"
      by (auto simp: content_ptrs_def)
    have "t' = \<lparr>tr_root_ptr = Some p, tr_root_hash = h, tr_alloc = s'\<rparr>" "res = Ok ()"
      using r tr Ok x by simp_all
    then show ?thesis using u by (auto simp: trie_set_post_def trie_rep_def intro!: exI[of _ "Some u"])
  next
    case (Err e)
    then have "t' = t\<lparr>tr_alloc := s'\<rparr>" "res = Err e" using r tr by simp_all
    then show ?thesis using S Err c by (simp add: trie_set_post_def trie_rep_def)
  next
    case Panic
    then show ?thesis using S by simp
  qed
qed

end

end
