(* ===== verification/Trie_Seal.thy ===== *)
theory Trie_Seal
  imports Trie_Set
begin

unbundle bit_operations_syntax

text \<open>
  Sealing, \<^verbatim>\<open>trie/seal.rs\<close>. The operation works on the allocator itself: every
  check happens on the way down, and nodes are replaced or freed on the way back
  up, so an error leaves the allocator as it was. The lemmas show that the memory
  holds the sealed tree afterwards, that freed nodes are the only blocks given
  back, that the root hash and all proofs stay valid and that no other value is
  lost.
\<close>

section \<open>The operation\<close>

datatype seal_result = SealFree | SealReplace raw_node | SealDone

definition st_opt :: "('s \<Rightarrow> 's option) \<Rightarrow> ('s, 'e, unit) stateful" where
  "st_opt f s = (case f s of None \<Rightarrow> (s, Panic) | Some s \<Rightarrow> (s, Ok ()))"

definition seal_child ::
  "(ptr option \<Rightarrow> ('s, trie_error, bool) stateful) \<Rightarrow> slice \<Rightarrow> mem_ref \<Rightarrow>
   ('s, trie_error, mem_ref option) stateful" where
  "seal_child seal key child =
     (case child of
        RefNode p h \<Rightarrow> st_bind (seal p) (\<lambda>b. st_return (if b then Some (RefNode None h) else None))
      | RefValue sealed h \<Rightarrow>
          if sealed then st_lift (Err Sealed)
          else if slice_is_empty key then st_return (Some (RefValue True h))
          else st_lift (Err NotFound))"

definition seal_branch ::
  "(slice \<Rightarrow> mem_ref \<Rightarrow> ('s, trie_error, mem_ref option) stateful) \<Rightarrow> slice \<Rightarrow> mem_ref \<Rightarrow> mem_ref \<Rightarrow>
   ('s, trie_error, seal_result) stateful" where
  "seal_branch child key left right =
     (case pop_front key of
        None \<Rightarrow> st_lift (Err NotFound)
      | Some (side, key) \<Rightarrow>
          st_bind (child key (if side then right else left)) (\<lambda>r. st_return
            (case r of
               None \<Rightarrow> SealDone
             | Some c \<Rightarrow>
                 if is_sealed (if side then left else right) then SealFree
                 else SealReplace (if side then raw_branch left c else raw_branch c right))))"

definition seal_extension ::
  "(slice \<Rightarrow> mem_ref \<Rightarrow> ('s, trie_error, mem_ref option) stateful) \<Rightarrow> slice \<Rightarrow> slice \<Rightarrow> mem_ref \<Rightarrow>
   ('s, trie_error, seal_result) stateful" where
  "seal_extension child key ext_key c =
     (case strip_prefix key ext_key of
        (False, _) \<Rightarrow> st_lift (Err NotFound)
      | (True, key) \<Rightarrow>
          st_bind (child key c) (\<lambda>r. st_return
            (case r of Some c \<Rightarrow> SealReplace (raw_extension ext_key c) | None \<Rightarrow> SealDone)))"

definition seal_finish ::
  "('s, raw_node) alloc_ops \<Rightarrow> ptr \<Rightarrow> seal_result \<Rightarrow> ('s, trie_error, bool) stateful" where
  "seal_finish ops p result =
     (case result of
        SealReplace node \<Rightarrow> st_bind (st_opt (\<lambda>s. al_set ops s p node)) (\<lambda>_. st_return False)
      | SealFree \<Rightarrow> st_bind (st_opt (\<lambda>s. al_free ops s p)) (\<lambda>_. st_return True)
      | SealDone \<Rightarrow> st_return False)"

lemma seal_child_cong [fundef_cong]:
  assumes "k = k'" "c = c'" "s = s'" and "\<And>p s. f p s = g p s"
  shows "seal_child f k c s = seal_child g k' c' s'"
  using assms by (simp add: seal_child_def st_bind_def split: reference.splits)

lemma seal_branch_cong [fundef_cong]:
  assumes "k = k'" "l = l'" "r = r'" "s = s'"
    and "\<And>key c s. sl_length key < sl_length k' \<Longrightarrow> f key c s = g key c s"
  shows "seal_branch f k l r s = seal_branch g k' l' r' s'"
  using assms by (auto simp: seal_branch_def st_bind_def dest!: pop_front_less split: option.splits)

lemma seal_extension_cong [fundef_cong]:
  assumes "k = k'" "e = e'" "c = c'" "s = s'"
    and "\<And>key c s. strip_prefix k' e' = (True, key) \<Longrightarrow> f key c s = g key c s"
  shows "seal_extension f k e c s = seal_extension g k' e' c' s'"
  using assms by (auto simp: seal_extension_def st_bind_def split: prod.splits bool.splits)

lemma st_bind_cong [fundef_cong]:
  assumes "w = w'" "m w' = m' w'" and "\<And>a v. m' w' = (v, Ok a) \<Longrightarrow> f a v = g a v"
  shows "st_bind m f w = st_bind m' g w'"
  using assms by (auto simp: st_bind_def split: prod.splits outcome.splits)

function seal :: "('s, raw_node) alloc_ops \<Rightarrow> slice \<Rightarrow> ptr option \<Rightarrow> ('s, trie_error, bool) stateful" where
  "seal ops key nref s =
     (case nref of
        None \<Rightarrow> (s, Err Sealed)
      | Some p \<Rightarrow>
          (case al_get ops s p of
             None \<Rightarrow> (s, Panic)
           | Some raw \<Rightarrow>
               (case raw_decode raw of
                  Err e \<Rightarrow> (s, Err (BadRawNode e))
                | Panic \<Rightarrow> (s, Panic)
                | Ok (Branch left right) \<Rightarrow>
                    st_bind (\<lambda>s. seal_branch (\<lambda>key c s. seal_child (\<lambda>p s. seal ops key p s) key c s) key left right s)
                      (seal_finish ops p) s
                | Ok (Extension ext_key child) \<Rightarrow>
                    st_bind (\<lambda>s. seal_extension (\<lambda>key c s. seal_child (\<lambda>p s. seal ops key p s) key c s) key ext_key child s)
                      (seal_finish ops p) s)))"
  by pat_completeness auto
termination
  by (relation "measure (\<lambda>(ops, key, p, s). sl_length key)")
    (auto dest: strip_prefix_less[OF _ raw_decode_ext_pos])

declare seal.simps [simp del]

definition trie_seal_impl ::
  "('s, raw_node) alloc_ops \<Rightarrow> slice \<Rightarrow> ('s trie, trie_error, unit) stateful" where
  "trie_seal_impl ops key t =
     (case seal ops key (tr_root_ptr t) (tr_alloc t) of
        (s, Ok removed) \<Rightarrow>
          (if removed then t\<lparr>tr_alloc := s, tr_root_ptr := None\<rparr> else t\<lparr>tr_alloc := s\<rparr>, Ok ())
      | (s, Err e) \<Rightarrow> (t\<lparr>tr_alloc := s\<rparr>, Err e)
      | (s, Panic) \<Rightarrow> (t\<lparr>tr_alloc := s\<rparr>, Panic))"

definition trie_seal :: "('s, raw_node) alloc_ops \<Rightarrow> byte list \<Rightarrow> ('s trie, trie_error, unit) stateful" where
  "trie_seal ops key t =
     (if tr_root_hash t = EMPTY_TRIE_ROOT then (t, Err NotFound)
      else st_bind (st_lift (ok_or KeyTooLong (slice_from_bytes key))) (trie_seal_impl ops) t)"

definition trie_set_and_seal ::
  "(byte list \<Rightarrow> hash) \<Rightarrow> ('s, raw_node) alloc_ops \<Rightarrow> byte list \<Rightarrow> hash \<Rightarrow>
   ('s trie, trie_error, unit) stateful" where
  "trie_set_and_seal d ops key value_hash =
     st_bind (st_lift (ok_or KeyTooLong (slice_from_bytes key))) (\<lambda>key.
     st_bind (trie_set_impl d ops key value_hash) (\<lambda>_.
     trie_seal_impl ops key))"

section \<open>What sealing does to a tree\<close>

fun tsealed :: "tree \<Rightarrow> bool" where
  "tsealed (TValue s h) \<longleftrightarrow> s"
| "tsealed (TSealed h) \<longleftrightarrow> True"
| "tsealed _ \<longleftrightarrow> False"

definition seal_node :: "(byte list \<Rightarrow> hash) \<Rightarrow> ptr \<Rightarrow> tree \<Rightarrow> tree \<Rightarrow> tree" where
  "seal_node d p l r =
     (if tsealed l \<and> tsealed r then TSealed (ref_hash (tref d (TBranch p l r))) else TBranch p l r)"

fun tseal :: "(byte list \<Rightarrow> hash) \<Rightarrow> tree \<Rightarrow> bool list \<Rightarrow> (trie_error, tree) outcome" where
  "tseal d (TValue s h) key =
     (if s then Err Sealed else if key = [] then Ok (TValue True h) else Err NotFound)"
| "tseal d (TSealed h) key = Err Sealed"
| "tseal d (TBranch p l r) key =
     (case key of
        [] \<Rightarrow> Err NotFound
      | b # key \<Rightarrow>
          bind_outcome (tseal d (if b then r else l) key) (\<lambda>c.
            Ok (if b then seal_node d p l c else seal_node d p c r)))"
| "tseal d (TExt p k t) key =
     (if take (sl_length k) key = slice_bits k
      then bind_outcome (tseal d t (drop (sl_length k) key)) (\<lambda>c. Ok (TExt p k c))
      else Err NotFound)"

lemma is_sealed_tref [simp]: "is_sealed (tref d t) = tsealed t"
  by (cases t) (simp_all add: is_sealed_def)

lemma node_hash_strip:
  "strip_ref l = strip_ref l' \<Longrightarrow> strip_ref r = strip_ref r' \<Longrightarrow>
     node_hash d (Branch l r) = node_hash d (Branch l' r')"
  "strip_ref c = strip_ref c' \<Longrightarrow> node_hash d (Extension k c) = node_hash d (Extension k c')"
  unfolding node_hash_def using hash_preimage_strip by metis+

lemma strip_seal_node:
  assumes "strip_ref (tref d l) = strip_ref (tref d l')" "strip_ref (tref d r) = strip_ref (tref d r')"
  shows "strip_ref (tref d (seal_node d p l' r')) = strip_ref (tref d (TBranch p l r))"
  using node_hash_strip(1)[OF assms, of d] by (simp add: seal_node_def strip_ref_def)

text \<open>Sealing keeps the hash of every node on the path.\<close>

lemma tseal_strip: "tseal d t key = Ok t' \<Longrightarrow> strip_ref (tref d t') = strip_ref (tref d t)"
proof (induction t arbitrary: key t')
  case (TBranch p l r)
  then show ?case
    by (auto simp: bind_outcome_Ok split: list.splits if_splits simp del: tref.simps intro!: strip_seal_node)
next
  case (TExt p k t)
  then obtain c where c: "tseal d t (drop (sl_length k) key) = Ok c" "t' = TExt p k c"
    by (auto simp: bind_outcome_Ok split: if_splits)
  show ?case using node_hash_strip(2)[OF TExt.IH[OF c(1)]] by (simp add: c(2) strip_ref_def[of "RefNode _ _"])
qed (auto simp: strip_ref_def split: if_splits)

lemma seal_node_ref:
  "strip_ref (tref d (seal_node d p l r)) = RefNode () h \<Longrightarrow>
     tref d (seal_node d p l r) = RefNode (if tsealed (seal_node d p l r) then None else Some p) h"
  by (auto simp: seal_node_def strip_ref_def)

text \<open>A node may be sealed: its hash is that of the tree it was the root of.\<close>

lemma sealed_inv_root:
  assumes d: "digest_ok d" and t: "tree_inv d off t" and r: "tref d t = RefNode p h"
  shows "sealed_inv d off h"
proof -
  obtain m where "expands d t m" "mtree_inv off m" using tree_inv_expands[OF t] by blast
  moreover have "hash_inv h" using tref_hash_inv[OF d t] r by simp
  ultimately show ?thesis
    using expands_mref[of d t m] r by (auto simp: sealed_inv_def strip_ref_def)
qed

lemma tseal_ref:
  assumes "tseal d t key = Ok t'"
  shows "tref d t' = (if tsealed t' then (case tref d t of RefNode p h \<Rightarrow> RefNode None h | RefValue s h \<Rightarrow> RefValue True h)
                      else tref d t) \<and> \<not> tsealed t"
  using assms tseal_strip[OF assms]
proof (cases t)
  case (TBranch p l r)
  then obtain l' r' where t': "t' = seal_node d p l' r'" using assms
    by (auto simp: bind_outcome_Ok split: list.splits if_splits)
  have "strip_ref (tref d t') = RefNode () (node_hash d (Branch (tref d l) (tref d r)))"
    using tseal_strip[OF assms] TBranch by (simp add: strip_ref_def)
  from seal_node_ref[OF this[unfolded t']] show ?thesis unfolding t' by (simp add: TBranch)
next
  case (TExt p k c)
  then show ?thesis using assms tseal_strip[OF assms]
    by (auto simp: bind_outcome_Ok strip_ref_def[of "RefNode _ _"] split: if_splits)
qed (auto split: if_splits)

lemma tseal_no_panic: "tseal d t key \<noteq> Panic"
proof (induction t arbitrary: key)
  case (TBranch p l r)
  then show ?case by (cases key) (auto simp: bind_outcome_def split: outcome.splits)
next
  case (TExt p k t)
  then show ?case by (auto simp: bind_outcome_def split: outcome.splits)
qed auto

text \<open>The sealed key cannot be read any more; every other value can.\<close>

lemma tsealed_get: "tsealed t \<Longrightarrow> tget t k = Err Sealed"
  by (cases t) auto

lemma seal_node_get: "tget (seal_node d p l r) (b # k) = tget (if b then r else l) k"
  "tget (seal_node d p l r) [] = Ok None \<or> tget (seal_node d p l r) [] = Err Sealed"
  using tsealed_get by (auto simp: seal_node_def)

definition only_sealed :: "tree \<Rightarrow> bool list \<Rightarrow> tree \<Rightarrow> bool" where
  "only_sealed t key t' \<longleftrightarrow>
     (\<forall>x. tget t' (key @ x) = Err Sealed) \<and>
     (\<forall>k. k \<noteq> key \<longrightarrow> tget t' k = tget t k \<or> tget t k = Ok None \<and> tget t' k = Err Sealed)"

lemma tseal_get: "tseal d t key = Ok t' \<Longrightarrow> only_sealed t key t'"
proof (induction t arbitrary: key t')
  case (TBranch p l r)
  then obtain b k0 c where k: "key = b # k0" "tseal d (if b then r else l) k0 = Ok c"
    "t' = (if b then seal_node d p l c else seal_node d p c r)"
    by (auto simp: bind_outcome_Ok split: list.splits)
  have IH: "only_sealed (if b then r else l) k0 c" using TBranch.IH k(2) by (cases b) simp_all
  have eq: "tget t' (x # k) = (if x = b then tget c k else tget (if x then r else l) k)" for x k
    unfolding k(3) by (cases b; cases x) (simp_all add: seal_node_get(1))
  have nil: "tget t' [] = Ok None \<or> tget t' [] = Err Sealed"
    unfolding k(3) using seal_node_get(2) by (cases b) auto
  show ?case unfolding only_sealed_def
  proof (intro conjI allI impI)
    fix x show "tget t' (key @ x) = Err Sealed" using IH by (simp add: k(1) eq only_sealed_def)
  next
    fix x assume "x \<noteq> key"
    then show "tget t' x = tget (TBranch p l r) x \<or> tget (TBranch p l r) x = Ok None \<and> tget t' x = Err Sealed"
      using IH nil by (cases x) (auto simp: k(1) eq only_sealed_def split: if_splits)
  qed
next
  case (TExt p k t)
  then obtain c where c: "take (sl_length k) key = slice_bits k" "tseal d t (drop (sl_length k) key) = Ok c"
    "t' = TExt p k c" by (auto simp: bind_outcome_Ok split: if_splits)
  have key: "key = slice_bits k @ drop (sl_length k) key" using c(1) by (metis append_take_drop_id)
  have IH: "only_sealed t (drop (sl_length k) key) c" by (rule TExt.IH[OF c(2)])
  show ?case unfolding only_sealed_def
  proof (intro conjI allI impI)
    fix x show "tget t' (key @ x) = Err Sealed"
      using IH by (subst key) (simp add: c(3) only_sealed_def)
  next
    fix x assume x: "x \<noteq> key"
    have "drop (sl_length k) x \<noteq> drop (sl_length k) key" if "take (sl_length k) x = slice_bits k"
      using that x key by (metis append_take_drop_id)
    then show "tget t' x = tget (TExt p k t) x \<or> tget (TExt p k t) x = Ok None \<and> tget t' x = Err Sealed"
      using IH by (auto simp: c(3) only_sealed_def)
  qed
qed (auto simp: only_sealed_def split: if_splits)

lemma tseal_expands: "tseal d t key = Ok t' \<Longrightarrow> expands d t m \<Longrightarrow> expands d t' m"
proof (induction t arbitrary: key t' m)
  case (TBranch p l r)
  then obtain b k c where k: "key = b # k" "tseal d (if b then r else l) k = Ok c"
    "t' = (if b then seal_node d p l c else seal_node d p c r)"
    by (auto simp: bind_outcome_Ok split: list.splits)
  obtain l' r' where m: "m = MBranch l' r'" "expands d l l'" "expands d r r'" using TBranch.prems(2) by auto
  have "expands d (if b then l else c) l'" "expands d (if b then c else r) r'"
    using TBranch.IH k(2) m by (auto split: if_splits)
  then have e: "expands d (if b then TBranch p l c else TBranch p c r) m" by (cases b) (simp_all add: m(1))
  then have "mref d m = strip_ref (tref d (if b then TBranch p l c else TBranch p c r))" by (rule expands_mref)
  then show ?case using e unfolding k(3) by (cases b) (simp_all add: seal_node_def strip_ref_def)
qed (auto simp: bind_outcome_Ok split: if_splits)

section \<open>Sealing in memory\<close>

lemma frame_free: "frame m A m' (insert p B) \<Longrightarrow> p \<notin> B \<Longrightarrow> frame m A (m'(p := None)) B"
  unfolding frame_def by (metis fun_upd_other fun_upd_same insert_iff)

lemma tsealed_ptrs: "tsealed t \<Longrightarrow> tptrs t = []"
  by (cases t) auto

context raw_allocator
begin

definition seal_post ::
  "(byte list \<Rightarrow> hash) \<Rightarrow> 's \<Rightarrow> u3 \<Rightarrow> tree \<Rightarrow> bool list \<Rightarrow> (tree \<Rightarrow> 'r) \<Rightarrow> 's \<times> (trie_error, 'r) outcome \<Rightarrow> bool" where
  "seal_post d s off t key f r \<longleftrightarrow>
     (case tseal d t key of
        Err e \<Rightarrow> r = (s, Err e)
      | Panic \<Rightarrow> False
      | Ok t' \<Rightarrow> \<exists>s'. r = (s', Ok (f t')) \<and> ainv s' \<and> rep d (live s') off t' \<and>
          frame (live s) (set (tptrs t)) (live s') (set (tptrs t')))"

lemma finish_set:
  assumes "ainv s" "p \<in> dom (live s)" "raw_ok node"
  obtains s' where "seal_finish ops p (SealReplace node) s = (s', Ok False)" "ainv s'" "live s' = (live s)(p \<mapsto> node)"
proof -
  obtain s' where "al_set ops s p node = Some s'" "ainv s'" "live s' = (live s)(p \<mapsto> node)"
    using set_live[OF assms(1) raw_okv[OF assms(3)] assms(2)] by blast
  then show thesis by (intro that[of s']) (simp_all add: seal_finish_def st_opt_def)
qed

lemma finish_free:
  assumes "ainv s" "p \<in> dom (live s)"
  obtains s' where "seal_finish ops p SealFree s = (s', Ok True)" "ainv s'" "live s' = (live s)(p := None)"
proof -
  obtain s' where "al_free ops s p = Some s'" "ainv s'" "live s' = (live s)(p := None)"
    using free_live[OF assms] by blast
  then show thesis by (intro that[of s']) (simp_all add: seal_finish_def st_opt_def)
qed

lemma seal_branch_finish:
  assumes d: "digest_ok d" and rp: "rep d (live s) off (TBranch p l r)" and s1: "ainv s1"
    and ref: "\<not> tsealed c' \<Longrightarrow> tref d c' = tref d (if b then r else l)"
    and c': "rep d (live s1) (wrapping_add off 1) c'"
      "frame (live s) (set (tptrs (if b then r else l))) (live s1) (set (tptrs c'))"
  defines "l' \<equiv> (if b then l else c')" and "r' \<equiv> (if b then c' else r)"
  shows "\<exists>s2. seal_finish ops p (if tsealed c' then if tsealed (if b then l else r) then SealFree
        else SealReplace (raw_branch (tref d l') (tref d r')) else SealDone) s1 = (s2, Ok (tsealed (seal_node d p l' r'))) \<and>
      ainv s2 \<and> rep d (live s2) off (seal_node d p l' r') \<and>
      frame (live s) (set (tptrs (TBranch p l r))) (live s2) (set (tptrs (seal_node d p l' r')))"
proof -
  define c where "c = (if b then r else l)"
  define sib where "sib = (if b then l else r)"
  have dist: "p \<notin> set (tptrs c)" "p \<notin> set (tptrs sib)" "set (tptrs sib) \<inter> set (tptrs c) = {}" "valid_ptr p"
    and sr: "rep d (live s) (wrapping_add off 1) sib" and pd: "p \<in> dom (live s)"
    and raw: "live s p = Some (raw_branch (tref d l) (tref d r))"
    using rp by (auto simp: rep_def c_def sib_def)
  note fr = c'(2)[folded c_def]
  note S = rep_frame[OF fr sr dist(3)] and K = frame_keep[OF fr pd dist(1)]
  have pd1: "p \<in> dom (live s1)" using K(2) pd by (simp add: domIff)
  have sets: "set (tptrs (TBranch p l r)) = set (tptrs c) \<union> insert p (set (tptrs sib))"
    "set (tptrs (TBranch p l' r')) = set (tptrs c') \<union> insert p (set (tptrs sib))"
    by (auto simp: c_def sib_def l'_def r'_def)
  have f1: "frame (live s) (set (tptrs (TBranch p l r))) (live s1) (set (tptrs (TBranch p l' r')))"
    unfolding sets by (rule frame_extend[OF fr])
  have trees: "rep d (live s1) (wrapping_add off 1) l'" "rep d (live s1) (wrapping_add off 1) r'"
    "p \<notin> set (tptrs l')" "p \<notin> set (tptrs r')" "set (tptrs l') \<inter> set (tptrs r') = {}"
    using K(1) dist S c'(1) by (auto simp: l'_def r'_def sib_def split: if_splits)
  have ti: "tree_inv d (wrapping_add off 1) l'" "tree_inv d (wrapping_add off 1) r'"
    using trees(1,2) by (auto simp: rep_def)
  have seald: "tsealed l' \<and> tsealed r' \<longleftrightarrow> tsealed c' \<and> tsealed sib" by (auto simp: l'_def r'_def sib_def)
  consider (keep) "\<not> tsealed c'" | (free) "tsealed c'" "tsealed sib" | (set) "tsealed c'" "\<not> tsealed sib" by blast
  then show ?thesis
  proof cases
    case keep
    then have sn: "seal_node d p l' r' = TBranch p l' r'" using seald by (auto simp: seal_node_def)
    have "tref d l' = tref d l" "tref d r' = tref d r" using ref[OF keep] by (auto simp: l'_def r'_def)
    then have "rep d (live s1) off (TBranch p l' r')" using trees raw K(2) dist(4) by (simp add: rep_def)
    then show ?thesis unfolding sn using keep f1 s1 by (simp add: seal_finish_def)
  next
    case free
    then have sn: "seal_node d p l' r' = TSealed (ref_hash (tref d (TBranch p l' r')))"
      using seald by (auto simp: seal_node_def)
    obtain s2 where s2: "seal_finish ops p SealFree s1 = (s2, Ok True)" "ainv s2" "live s2 = (live s1)(p := None)"
      by (rule finish_free[OF s1 pd1])
    have "frame (live s) (set (tptrs (TBranch p l r))) (live s1) (insert p {})"
      using f1 free seald tsealed_ptrs by auto
    then have "frame (live s) (set (tptrs (TBranch p l r))) (live s2) {}" unfolding s2(3) by (rule frame_free) simp
    moreover have "rep d (live s2) off (seal_node d p l' r')"
      using sealed_inv_root[OF d, of off "TBranch p l' r'"] ti dist(4) by (simp add: sn rep_def)
    ultimately show ?thesis using s2 free by (auto simp: sn sib_def)
  next
    case set
    then have sn: "seal_node d p l' r' = TBranch p l' r'" using seald by (auto simp: seal_node_def)
    obtain s2 where s2: "seal_finish ops p (SealReplace (raw_branch (tref d l') (tref d r'))) s1 = (s2, Ok False)"
      "ainv s2" "live s2 = (live s1)(p \<mapsto> raw_branch (tref d l') (tref d r'))"
      by (rule finish_set[OF s1 pd1 raw_ok_branch[OF d ti]])
    have "rep d (live s2) off (TBranch p l' r')" using trees dist(4) by (simp add: rep_def s2(3) holds_upd)
    moreover have "frame (live s) (set (tptrs (TBranch p l r))) (live s2) (set (tptrs (TBranch p l' r')))"
      unfolding s2(3) by (rule frame_upd[OF f1]) simp
    ultimately show ?thesis unfolding sn using s2(1,2) set by (auto simp: sib_def)
  qed
qed

lemma seal_ext_finish:
  assumes d: "digest_ok d" and rp: "rep d (live s) off (TExt p k t)" and s1: "ainv s1"
    and k': "ext_key_inv k'" "sl_offset k' = sl_offset k" "slice_bits k' = slice_bits k"
    and ref: "\<not> tsealed c' \<Longrightarrow> tref d c' = tref d t"
    and c': "rep d (live s1) (wrapping_add off (sl_length k)) c'"
      "frame (live s) (set (tptrs t)) (live s1) (set (tptrs c'))"
  shows "\<exists>s2. seal_finish ops p (if tsealed c' then SealReplace (raw_extension k' (tref d c')) else SealDone) s1 =
        (s2, Ok False) \<and> ainv s2 \<and> rep d (live s2) off (TExt p k c') \<and>
      frame (live s) (set (tptrs (TExt p k t))) (live s2) (set (tptrs (TExt p k c')))"
proof -
  have dist: "p \<notin> set (tptrs t)" "valid_ptr p" and pd: "p \<in> dom (live s)" and ki: "ext_key_inv k" "sl_offset k = off"
    and raw: "live s p = Some (raw_extension k (tref d t))" using rp by (auto simp: rep_def)
  note K = frame_keep[OF c'(2) pd dist(1)]
  have pd1: "p \<in> dom (live s1)" using K(2) pd by (simp add: domIff)
  have f1: "frame (live s) (set (tptrs (TExt p k t))) (live s1) (set (tptrs (TExt p k c')))"
    using frame_extend[OF c'(2), of "{p}"] by simp
  have ti: "tree_inv d (wrapping_add off (sl_length k)) c'" using c'(1) by (simp add: rep_def)
  have re: "raw_extension k' (tref d c') = raw_extension k (tref d c')"
    using encode_into_cong[OF k'(1) ki(1) k'(2,3), where tag = "0x80"] by (simp add: raw_extension_def)
  show ?thesis
  proof (cases "tsealed c'")
    case False
    then have "rep d (live s1) off (TExt p k c')" using c'(1) ref K raw ki dist(2) by (simp add: rep_def)
    then show ?thesis using False f1 s1 by (simp add: seal_finish_def)
  next
    case True
    obtain s2 where s2: "seal_finish ops p (SealReplace (raw_extension k (tref d c'))) s1 = (s2, Ok False)"
      "ainv s2" "live s2 = (live s1)(p \<mapsto> raw_extension k (tref d c'))"
      by (rule finish_set[OF s1 pd1 raw_ok_ext[OF d ki(1) ti]])
    have "rep d (live s2) off (TExt p k c')" using c'(1) K(1) ki dist(2) by (simp add: rep_def s2(3) holds_upd)
    moreover have "frame (live s) (set (tptrs (TExt p k t))) (live s2) (set (tptrs (TExt p k c')))"
      unfolding s2(3) by (rule frame_upd[OF f1]) simp
    ultimately show ?thesis using s2(1,2) True re by auto
  qed
qed

abbreviation seal_ref :: "(byte list \<Rightarrow> hash) \<Rightarrow> tree \<Rightarrow> mem_ref option" where
  "seal_ref d t \<equiv> (if tsealed t then Some (tref d t) else None)"

lemma seal_post_child:
  assumes "seal_post d s off t key tsealed (m s)" and "tref d t = RefNode p h"
  shows "seal_post d s off t key (seal_ref d)
    (st_bind m (\<lambda>b. st_return (if b then Some (RefNode None h) else None)) s)"
proof (cases "tseal d t key")
  case (Ok t')
  then obtain s' where s': "m s = (s', Ok (tsealed t'))" "ainv s'" "rep d (live s') off t'"
    "frame (live s) (set (tptrs t)) (live s') (set (tptrs t'))" using assms(1) by (auto simp: seal_post_def)
  have "tref d t' = RefNode None h" if "tsealed t'" using tseal_ref[OF Ok] that assms(2) by simp
  then have "st_bind m (\<lambda>b. st_return (if b then Some (RefNode None h) else None)) s = (s', Ok (seal_ref d t'))"
    using s'(1) by (cases "tsealed t'") simp_all
  then show ?thesis using Ok s'(2-4) by (simp add: seal_post_def)
qed (use assms(1) in \<open>simp_all add: seal_post_def\<close>)

lemma seal_child_spec:
  assumes d: "digest_ok d" and s: "ainv s"
  shows "rep d (live s) (sl_offset key) t \<Longrightarrow> slice_inv key \<Longrightarrow>
    seal_post d s (sl_offset key) t (slice_bits key) (seal_ref d)
      (seal_child (\<lambda>p s. seal ops key p s) key (tref d t) s)"
proof (induction t arbitrary: key)
  case (TValue x h)
  then show ?case using s by (auto simp: seal_post_def seal_child_def slice_is_empty_def rep_def)
next
  case (TSealed h)
  then show ?case by (simp add: seal_post_def seal_child_def seal.simps)
next
  case (TBranch p l r)
  have inv: "ref_inv (tref d l)" "ref_inv (tref d r)" using TBranch.prems tref_inv[OF d] by (auto simp: rep_def)
  have get: "al_get ops s p = Some (raw_branch (tref d l) (tref d r))"
    using TBranch.prems(1) by (intro get_live[OF s]) (simp add: rep_def)
  let ?hc = "\<lambda>key c s. seal_child (\<lambda>p s. seal ops key p s) key c s"
  have eq: "seal ops key (Some p) s =
      st_bind (\<lambda>s. seal_branch ?hc key (tref d l) (tref d r) s) (seal_finish ops p) s"
    by (simp add: seal.simps[of ops key "Some p"] get decode_branch[OF inv])
  have "seal_post d s (sl_offset key) (TBranch p l r) (slice_bits key) tsealed (seal ops key (Some p) s)"
  proof (cases "pop_front key")
    case None
    then have "slice_bits key = []" using pop_front_bits[OF TBranch.prems(2)] by auto
    then show ?thesis using None by (simp add: eq seal_branch_def seal_post_def)
  next
    case (Some x)
    then obtain b key' where pf: "pop_front key = Some (b, key')" "slice_inv key'"
      "slice_bits key = b # slice_bits key'" "sl_offset key' = wrapping_add (sl_offset key) 1"
      using pop_front_bits[OF TBranch.prems(2)] by auto
    let ?c = "if b then r else l"
    have "rep d (live s) (sl_offset key') ?c" using TBranch.prems(1) by (auto simp: rep_def pf(4))
    then have IH: "seal_post d s (sl_offset key') ?c (slice_bits key') (seal_ref d) (?hc key' (tref d ?c) s)"
      using TBranch.IH pf(2) by (cases b) simp_all
    have sb: "seal_branch ?hc key (tref d l) (tref d r) s =
        st_bind (?hc key' (tref d ?c)) (\<lambda>r'. st_return
          (case r' of None \<Rightarrow> SealDone | Some c \<Rightarrow> if is_sealed (if b then tref d l else tref d r) then SealFree
             else SealReplace (if b then raw_branch (tref d l) c else raw_branch c (tref d r)))) s"
      by (simp add: seal_branch_def pf(1) if_distrib[of "tref d"])
    show ?thesis
    proof (cases "tseal d ?c (slice_bits key')")
      case (Err e)
      then have "?hc key' (tref d ?c) s = (s, Err e)" using IH by (simp add: seal_post_def)
      then have "seal ops key (Some p) s = (s, Err e)" unfolding eq by (simp add: sb)
      then show ?thesis using Err by (simp add: seal_post_def pf(3))
    next
      case (Ok c')
      then obtain s1 where s1: "?hc key' (tref d ?c) s = (s1, Ok (seal_ref d c'))" "ainv s1"
        "rep d (live s1) (wrapping_add (sl_offset key) 1) c'"
        "frame (live s) (set (tptrs ?c)) (live s1) (set (tptrs c'))"
        using IH by (auto simp: seal_post_def pf(4))
      let ?l = "if b then l else c'" and ?r = "if b then c' else r"
      have ref: "\<not> tsealed c' \<Longrightarrow> tref d c' = tref d ?c" using tseal_ref[OF Ok] by simp
      from seal_branch_finish[OF d TBranch.prems(1) s1(2) ref s1(3,4)] obtain s2 where
        s2: "seal_finish ops p (if tsealed c' then if tsealed (if b then l else r) then SealFree
          else SealReplace (raw_branch (tref d ?l) (tref d ?r)) else SealDone) s1 = (s2, Ok (tsealed (seal_node d p ?l ?r)))"
        "ainv s2" "rep d (live s2) (sl_offset key) (seal_node d p ?l ?r)"
        "frame (live s) (set (tptrs (TBranch p l r))) (live s2) (set (tptrs (seal_node d p ?l ?r)))" by blast
      have "seal_branch ?hc key (tref d l) (tref d r) s = (s1, Ok (if tsealed c' then if tsealed (if b then l else r) then SealFree
          else SealReplace (raw_branch (tref d ?l) (tref d ?r)) else SealDone))"
        unfolding sb using s1(1) by (cases b) simp_all
      then have "seal ops key (Some p) s = (s2, Ok (tsealed (seal_node d p ?l ?r)))"
        unfolding eq using s2(1) by simp
      moreover have "tseal d (TBranch p l r) (slice_bits key) = Ok (seal_node d p ?l ?r)"
        using Ok by (cases b) (simp_all add: pf(3))
      ultimately show ?thesis using s2(2-4) unfolding seal_post_def by auto
    qed (use tseal_no_panic in auto)
  qed
  then show ?case using seal_post_child[where m = "seal ops key (Some p)"] by (simp add: seal_child_def)
next
  case (TExt p k t)
  have ki: "ext_key_inv k" "sl_offset k = sl_offset key" and ci: "ref_inv (tref d t)"
    using TExt.prems tref_inv[OF d] by (auto simp: rep_def)
  obtain k' where k': "raw_decode (raw_extension k (tref d t)) = Ok (Extension k' (tref d t))"
    "ext_key_inv k'" "sl_offset k' = sl_offset k" "slice_bits k' = slice_bits k" "sl_length k' = sl_length k"
    by (rule decode_extension[OF ki(1) ci])
  have get: "al_get ops s p = Some (raw_extension k (tref d t))"
    using TExt.prems(1) by (intro get_live[OF s]) (simp add: rep_def)
  let ?hc = "\<lambda>key c s. seal_child (\<lambda>p s. seal ops key p s) key c s"
  have eq: "seal ops key (Some p) s =
      st_bind (\<lambda>s. seal_extension ?hc key k' (tref d t) s) (seal_finish ops p) s"
    by (simp add: seal.simps[of ops key "Some p"] get k'(1))
  have "seal_post d s (sl_offset key) (TExt p k t) (slice_bits key) tsealed (seal ops key (Some p) s)"
  proof (cases "take (sl_length k) (slice_bits key) = slice_bits k")
    case False
    then have "strip_prefix key k' = (False, key)"
      using strip_prefix_bits[OF TExt.prems(2) k'(2)] k' ki by auto
    then have "seal ops key (Some p) s = (s, Err NotFound)" unfolding eq by (simp add: seal_extension_def)
    then show ?thesis using False by (simp add: seal_post_def)
  next
    case True
    then obtain key' where sp: "strip_prefix key k' = (True, key')" "slice_inv key'"
      "slice_bits key' = drop (sl_length k) (slice_bits key)"
      "sl_offset key' = wrapping_add (sl_offset key) (sl_length k)"
      using strip_prefix_bits[OF TExt.prems(2) k'(2)] k' ki by auto
    have "rep d (live s) (sl_offset key') t" using TExt.prems(1) by (auto simp: rep_def sp(4))
    then have IH: "seal_post d s (sl_offset key') t (slice_bits key') (seal_ref d) (?hc key' (tref d t) s)"
      by (rule TExt.IH[OF _ sp(2)])
    have sb: "seal_extension ?hc key k' (tref d t) s = st_bind (?hc key' (tref d t)) (\<lambda>r. st_return
            (case r of Some c \<Rightarrow> SealReplace (raw_extension k' c) | None \<Rightarrow> SealDone)) s"
      by (simp add: seal_extension_def sp(1))
    show ?thesis
    proof (cases "tseal d t (slice_bits key')")
      case (Err e)
      then have "?hc key' (tref d t) s = (s, Err e)" using IH by (simp add: seal_post_def)
      then have "seal ops key (Some p) s = (s, Err e)" unfolding eq by (simp add: sb)
      then show ?thesis using Err True by (simp add: seal_post_def sp(3))
    next
      case (Ok c')
      then obtain s1 where s1: "?hc key' (tref d t) s = (s1, Ok (seal_ref d c'))" "ainv s1"
        "rep d (live s1) (wrapping_add (sl_offset key) (sl_length k)) c'"
        "frame (live s) (set (tptrs t)) (live s1) (set (tptrs c'))"
        using IH by (auto simp: seal_post_def sp(4))
      have ref: "\<not> tsealed c' \<Longrightarrow> tref d c' = tref d t" using tseal_ref[OF Ok] by simp
      from seal_ext_finish[OF d TExt.prems(1) s1(2) k'(2-4) ref s1(3,4)] obtain s2 where
        s2: "seal_finish ops p (if tsealed c' then SealReplace (raw_extension k' (tref d c')) else SealDone) s1 = (s2, Ok False)"
        "ainv s2" "rep d (live s2) (sl_offset key) (TExt p k c')"
        "frame (live s) (set (tptrs (TExt p k t))) (live s2) (set (tptrs (TExt p k c')))" by blast
      have "seal_extension ?hc key k' (tref d t) s =
          (s1, Ok (if tsealed c' then SealReplace (raw_extension k' (tref d c')) else SealDone))"
        unfolding sb using s1(1) by simp
      then have "seal ops key (Some p) s = (s2, Ok False)" unfolding eq using s2(1) by simp
      moreover have "tseal d (TExt p k t) (slice_bits key) = Ok (TExt p k c')" using Ok True by (simp add: sp(3))
      ultimately show ?thesis using s2(2-4) unfolding seal_post_def by auto
    qed (use tseal_no_panic in auto)
  qed
  then show ?case using seal_post_child[where m = "seal ops key (Some p)"] by (simp add: seal_child_def)
qed

end

section \<open>Sealing in a trie\<close>

definition content_seal :: "(byte list \<Rightarrow> hash) \<Rightarrow> tree option \<Rightarrow> bool list \<Rightarrow> (trie_error, tree option) outcome" where
  "content_seal d c key =
     (case c of None \<Rightarrow> Err NotFound | Some t \<Rightarrow> bind_outcome (tseal d t key) (\<lambda>t. Ok (Some t)))"

lemma tseal_found: "tget t key = Ok (Some v) \<Longrightarrow> \<exists>t'. tseal d t key = Ok t'"
proof (induction t arbitrary: key)
  case (TBranch p l r)
  then show ?case by (cases key) (auto simp: bind_outcome_Ok split: if_splits)
next
  case (TExt p k t)
  then show ?case by (auto simp: bind_outcome_Ok split: if_splits)
qed (auto split: if_splits)

definition trie_seal_post ::
  "(byte list \<Rightarrow> hash) \<Rightarrow> ('s \<Rightarrow> bool) \<Rightarrow> ('s \<Rightarrow> ptr \<rightharpoonup> raw_node) \<Rightarrow> 's trie \<Rightarrow> tree option \<Rightarrow> bool list \<Rightarrow>
   's trie \<Rightarrow> (trie_error, unit) outcome \<Rightarrow> bool" where
  "trie_seal_post d ainv live t c key t' res \<longleftrightarrow>
     (case content_seal d c key of
        Err e \<Rightarrow> res = Err e \<and> t' = t
      | Panic \<Rightarrow> False
      | Ok c' \<Rightarrow> res = Ok () \<and> trie_rep d ainv live t' c' \<and> tr_root_hash t' = tr_root_hash t \<and>
          frame (live (tr_alloc t)) (content_ptrs c) (live (tr_alloc t')) (content_ptrs c'))"

lemma trie_update_id: "t\<lparr>tr_alloc := tr_alloc t\<rparr> = (t :: 's trie)"
  by simp

context raw_allocator
begin

lemma trie_seal_impl_spec:
  assumes d: "digest_ok d" and t: "trie_rep d ainv live t (Some u)" and k: "slice_inv K" "sl_offset K = 0"
    and r: "trie_seal_impl ops K t = (t', res)"
  shows "trie_seal_post d ainv live t (Some u) (slice_bits K) t' res"
proof -
  let ?s = "tr_alloc t"
  have s: "ainv ?s" and ref: "tref d u = RefNode (tr_root_ptr t) (tr_root_hash t)" and rp: "rep d (live ?s) (sl_offset K) u"
    using t k(2) by (auto simp: trie_rep_def trie_content_def rep_def)
  note P = seal_child_spec[OF d s rp k(1)]
  show ?thesis
  proof (cases "tseal d u (slice_bits K)")
    case (Err e)
    then have "st_bind (seal ops K (tr_root_ptr t)) (\<lambda>b. st_return (if b then Some (RefNode None (tr_root_hash t) :: mem_ref) else None)) ?s = (?s, Err e)"
      using P by (simp add: seal_post_def seal_child_def ref)
    then have "seal ops K (tr_root_ptr t) ?s = (?s, Err e)"
      by (auto simp: st_bind_def split: prod.splits outcome.splits)
    then show ?thesis using r Err by (simp add: trie_seal_impl_def trie_seal_post_def content_seal_def)
  next
    case (Ok u')
    from P obtain s' where s': "st_bind (seal ops K (tr_root_ptr t)) (\<lambda>b. st_return (if b then Some (RefNode None (tr_root_hash t) :: mem_ref) else None)) ?s = (s', Ok (seal_ref d u'))"
      "ainv s'" "rep d (live s') 0 u'" "frame (live ?s) (set (tptrs u)) (live s') (set (tptrs u'))"
      using k(2) by (auto simp: seal_post_def seal_child_def ref Ok)
    have sl: "seal ops K (tr_root_ptr t) ?s = (s', Ok (tsealed u'))"
      using s'(1) by (auto simp: st_bind_def split: prod.splits outcome.splits if_splits)
    have ref': "tref d u' = RefNode (if tsealed u' then None else tr_root_ptr t) (tr_root_hash t)"
      using tseal_ref[OF Ok] by (simp add: ref)
    have "t' = (if tsealed u' then t\<lparr>tr_alloc := s', tr_root_ptr := None\<rparr> else t\<lparr>tr_alloc := s'\<rparr>)" "res = Ok ()"
      using r sl by (auto simp: trie_seal_impl_def)
    then show ?thesis using s'(2-4) ref'
      by (simp add: trie_seal_post_def content_seal_def Ok trie_rep_def trie_content_def rep_def content_ptrs_def)
  qed (use tseal_no_panic in auto)
qed

lemma trie_seal_spec:
  assumes d: "digest_ok d" and t: "trie_rep d ainv live t c" and k: "slice_from_bytes key = Some K"
    and r: "trie_seal ops key t = (t', res)"
  shows "trie_seal_post d ainv live t c (key_bits key) t' res"
proof -
  have c: "trie_content d (live (tr_alloc t)) (tr_root_ptr t) (tr_root_hash t) c"
    using t by (simp add: trie_rep_def)
  note ne = trie_content_hash[OF d c] and ki = slice_from_bytes_key[OF k]
  show ?thesis
  proof (cases c)
    case None
    then show ?thesis using r ne by (simp add: trie_seal_def trie_seal_post_def content_seal_def)
  next
    case (Some u)
    then have "trie_seal_impl ops K t = (t', res)" using r ne k by (simp add: trie_seal_def)
    from trie_seal_impl_spec[OF d t[unfolded Some] ki(1,2) this] show ?thesis by (simp add: Some ki(3))
  qed
qed

text \<open>Setting and sealing: afterwards the key is sealed and no other value is lost.\<close>

lemma trie_set_and_seal_spec:
  assumes d: "digest_ok d" and v: "hash_inv v" and t: "trie_rep d ainv live t c" and k: "slice_from_bytes key = Some K"
    and r: "trie_set_and_seal d ops key v t = (t', res)"
  shows "(\<exists>e. res = Err e \<and> trie_set_post d ainv live t c (key_bits key) v t' (Err e)) \<or>
    res = Ok () \<and> content_set_err c (key_bits key) = None \<and>
    (\<exists>u1 u2. content_set_rel c (key_bits key) v (Some u1) \<and> tseal d u1 (key_bits key) = Ok u2 \<and>
       trie_rep d ainv live t' (Some u2) \<and>
       frame (live (tr_alloc t)) (content_ptrs c) (live (tr_alloc t')) (set (tptrs u2)))"
proof -
  note ki = slice_from_bytes_key[OF k]
  obtain t1 r1 where s: "trie_set d ops key v t = (t1, r1)" by fastforce
  note P = trie_set_spec[OF d v t k s]
  have s': "trie_set_impl d ops K v t = (t1, r1)" using s k by (simp add: trie_set_def)
  show ?thesis
  proof (cases r1)
    case (Err e)
    then have "res = Err e" "t' = t1" using r s' k by (simp_all add: trie_set_and_seal_def)
    then show ?thesis using P Err by auto
  next
    case Panic
    then show ?thesis using P by (simp add: trie_set_post_def)
  next
    case (Ok x)
    with P obtain c1 where c1: "content_set_err c (key_bits key) = None" "trie_rep d ainv live t1 c1"
      "content_set_rel c (key_bits key) v c1"
      "frame (live (tr_alloc t)) (content_ptrs c) (live (tr_alloc t1)) (content_ptrs c1)"
      by (auto simp: trie_set_post_def)
    then obtain u1 where u1: "c1 = Some u1" "tget u1 (key_bits key) = Ok (Some v)"
      by (auto simp: content_set_rel_def content_get_def split: option.splits)
    obtain u2 where u2: "tseal d u1 (key_bits key) = Ok u2" using tseal_found[OF u1(2)] by blast
    have "trie_seal_impl ops K t1 = (t', res)" using r s' k Ok by (simp add: trie_set_and_seal_def)
    from trie_seal_impl_spec[OF d c1(2)[unfolded u1(1)] ki(1,2) this]
    have "res = Ok ()" "trie_rep d ainv live t' (Some u2)"
      "frame (live (tr_alloc t1)) (set (tptrs u1)) (live (tr_alloc t')) (set (tptrs u2))"
      by (auto simp: trie_seal_post_def content_seal_def ki(3) u2 content_ptrs_def)
    moreover have "frame (live (tr_alloc t)) (content_ptrs c) (live (tr_alloc t1)) (set (tptrs u1))"
      using c1(4) by (simp add: u1(1) content_ptrs_def)
    ultimately show ?thesis using c1(1,3) u1(1) u2 frame_trans by blast
  qed
qed

end

end
