(* ===== verification/Trie_Del.thy ===== *)
theory Trie_Del
  imports Trie_Seal
begin

unbundle bit_operations_syntax

text \<open>
  Deletion, \<^verbatim>\<open>trie/del.rs\<close>. Removing a value collapses the branch above it, and
  the extensions that become adjacent are merged and cut into chunks again. All
  changes go through the write log. The lemmas show that exactly one key loses its
  value, that nodes are neither leaked nor shared, and that none of the
  \<open>unwrap\<close>s on concatenated keys fails in a trie whose keys fit the length
  limit.
\<close>

section \<open>The operation\<close>

text \<open>
  \<open>OwnedRef\<close> of this module carries the same data as \<open>Reference\<close>, so
  \<open>mem_ref\<close> stands for both and the conversions between them disappear.
\<close>

datatype action = ActDrop | ActExt owned mem_ref | ActRef mem_ref

definition del_set_node ::
  "(byte list \<Rightarrow> hash) \<Rightarrow> ptr \<Rightarrow> raw_node \<Rightarrow> (('s, raw_node) wlog, trie_error, mem_ref) stateful" where
  "del_set_node d p node w =
     (case raw_decode node of
        Ok n \<Rightarrow> (wlog_set p node w, Ok (RefNode (Some p) (node_hash d n)))
      | Err e \<Rightarrow> (w, Err (BadRawNode e))
      | Panic \<Rightarrow> (w, Panic))"

definition del_alloc ::
  "(byte list \<Rightarrow> hash) \<Rightarrow> ('s, raw_node) alloc_ops \<Rightarrow> slice \<Rightarrow> mem_ref \<Rightarrow>
   (('s, raw_node) wlog, trie_error, mem_ref) stateful" where
  "del_alloc d ops chunk child w =
     (let node = raw_extension chunk child in
      case wlog_alloc ops node w of
        (w, Err _) \<Rightarrow> (w, Err OutOfMemory)
      | (w, Panic) \<Rightarrow> (w, Panic)
      | (w, Ok p) \<Rightarrow>
          (case raw_decode node of
             Ok n \<Rightarrow> (w, Ok (RefNode (Some p) (node_hash d n)))
           | Err e \<Rightarrow> (w, Err (BadRawNode e))
           | Panic \<Rightarrow> (w, Panic)))"

fun del_chunks ::
  "(byte list \<Rightarrow> hash) \<Rightarrow> ('s, raw_node) alloc_ops \<Rightarrow> slice list \<Rightarrow> mem_ref \<Rightarrow>
   (('s, raw_node) wlog, trie_error, mem_ref) stateful" where
  "del_chunks d ops [] child w = (w, Ok child)"
| "del_chunks d ops (chunk # rest) child w =
     st_bind (del_alloc d ops chunk child) (\<lambda>child. del_chunks d ops rest child) w"

definition ref_from_action ::
  "(byte list \<Rightarrow> hash) \<Rightarrow> ('s, raw_node) alloc_ops \<Rightarrow> action \<Rightarrow>
   (('s, raw_node) wlog, trie_error, mem_ref option) stateful" where
  "ref_from_action d ops action =
     (case action of
        ActRef owned \<Rightarrow> st_return (Some owned)
      | ActDrop \<Rightarrow> st_return None
      | ActExt key child \<Rightarrow>
          st_bind (del_chunks d ops (chunks_rev (as_slice key)) child) (\<lambda>child. st_return (Some child)))"

definition maybe_pop_extension ::
  "('s, raw_node) alloc_ops \<Rightarrow> mem_ref \<Rightarrow> (slice \<Rightarrow> owned option) \<Rightarrow>
   (('s, raw_node) wlog, trie_error, action option) stateful" where
  "maybe_pop_extension ops child make_key w =
     (case child of
        RefNode (Some p) _ \<Rightarrow>
          (case wlog_get ops w p of
             None \<Rightarrow> (w, Panic)
           | Some raw \<Rightarrow>
               (case raw_decode raw of
                  Err e \<Rightarrow> (w, Err (BadRawNode e))
                | Panic \<Rightarrow> (w, Panic)
                | Ok (Extension key child) \<Rightarrow>
                    (let w = wlog_free p w in
                     case make_key key of
                       None \<Rightarrow> (w, Panic)
                     | Some key \<Rightarrow> (w, Ok (Some (ActExt key child))))
                | Ok (Branch _ _) \<Rightarrow> (w, Ok None)))
      | _ \<Rightarrow> (w, Ok None))"

definition del_handle_reference ::
  "(ptr option \<Rightarrow> (('s, raw_node) wlog, trie_error, action) stateful) \<Rightarrow> slice \<Rightarrow> mem_ref \<Rightarrow>
   (('s, raw_node) wlog, trie_error, action) stateful" where
  "del_handle_reference handle key child =
     (case child of
        RefValue sealed _ \<Rightarrow>
          if sealed then st_lift (Err Sealed)
          else if slice_is_empty key then st_return ActDrop
          else st_lift (Err NotFound)
      | RefNode p _ \<Rightarrow> handle p)"

definition del_handle_branch ::
  "(byte list \<Rightarrow> hash) \<Rightarrow> ('s, raw_node) alloc_ops \<Rightarrow>
   (slice \<Rightarrow> mem_ref \<Rightarrow> (('s, raw_node) wlog, trie_error, action) stateful) \<Rightarrow>
   slice \<Rightarrow> ptr \<Rightarrow> mem_ref \<Rightarrow> mem_ref \<Rightarrow> (('s, raw_node) wlog, trie_error, action) stateful" where
  "del_handle_branch d ops handle_reference key p left right =
     (let key_offset = sl_offset key in
      case pop_front key of
        None \<Rightarrow> st_lift (Err NotFound)
      | Some (side, key) \<Rightarrow>
          st_bind (handle_reference key (if side then right else left)) (\<lambda>action.
          st_bind (ref_from_action d ops action) (\<lambda>child.
            case child of
              Some child \<Rightarrow>
                (let (left, right) = (if side then (left, child) else (child, right))
                 in st_bind (del_set_node d p (raw_branch left right)) (\<lambda>r. st_return (ActRef r)))
            | None \<Rightarrow>
                st_bind (st_modify (wlog_free p)) (\<lambda>_.
                let child = (if side then left else right) in
                st_bind (maybe_pop_extension ops child
                           (\<lambda>key. case concat_bool (\<not> side) key of Ok k \<Rightarrow> Some k | _ \<Rightarrow> None)) (\<lambda>r.
                st_return (case r of
                    Some action \<Rightarrow> action
                  | None \<Rightarrow> ActExt (owned_bit (\<not> side) key_offset) child))))))"

definition del_handle_extension ::
  "(slice \<Rightarrow> mem_ref \<Rightarrow> (('s, raw_node) wlog, trie_error, action) stateful) \<Rightarrow>
   slice \<Rightarrow> ptr \<Rightarrow> slice \<Rightarrow> mem_ref \<Rightarrow> (('s, raw_node) wlog, trie_error, action) stateful" where
  "del_handle_extension handle_reference key p ext_key child =
     (case strip_prefix key ext_key of
        (False, _) \<Rightarrow> st_lift (Err NotFound)
      | (True, key) \<Rightarrow>
          st_bind (st_modify (wlog_free p)) (\<lambda>_.
          st_bind (handle_reference key child) (\<lambda>action.
            case action of
              ActDrop \<Rightarrow> st_return ActDrop
            | ActRef child \<Rightarrow> st_return (ActExt (owned_from_slice ext_key) child)
            | ActExt suffix child \<Rightarrow>
                (case concat_slices ext_key (as_slice suffix) of
                   Ok key \<Rightarrow> st_return (ActExt key child)
                 | _ \<Rightarrow> st_lift Panic))))"

lemma del_handle_reference_cong [fundef_cong]:
  assumes "k = k'" "c = c'" "w = w'" and "\<And>p w. f p w = g p w"
  shows "del_handle_reference f k c w = del_handle_reference g k' c' w'"
  using assms by (simp add: del_handle_reference_def split: reference.splits)

lemma del_handle_branch_cong [fundef_cong]:
  assumes "d = d'" "ops = ops'" "k = k'" "p = p'" "l = l'" "r = r'" "w = w'"
    and "\<And>key c w. sl_length key < sl_length k' \<Longrightarrow> f key c w = g key c w"
  shows "del_handle_branch d ops f k p l r w = del_handle_branch d' ops' g k' p' l' r' w'"
  using assms
  by (auto simp: del_handle_branch_def st_bind_def[of "f _ _"] st_bind_def[of "g _ _"] Let_def
      dest!: pop_front_less split: option.splits)

lemma del_handle_extension_cong [fundef_cong]:
  assumes "k = k'" "p = p'" "e = e'" "c = c'" "w = w'"
    and "\<And>key c w. strip_prefix k' e' = (True, key) \<Longrightarrow> f key c w = g key c w"
  shows "del_handle_extension f k p e c w = del_handle_extension g k' p' e' c' w'"
  using assms
  by (auto simp: del_handle_extension_def st_bind_def[of "f _ _"] st_bind_def[of "g _ _"] st_bind_def[of "st_modify _"]
      split: prod.splits bool.splits)

function del_handle ::
  "(byte list \<Rightarrow> hash) \<Rightarrow> ('s, raw_node) alloc_ops \<Rightarrow> slice \<Rightarrow> ptr option \<Rightarrow>
   (('s, raw_node) wlog, trie_error, action) stateful" where
  "del_handle d ops key nref w =
     (case nref of
        None \<Rightarrow> (w, Err Sealed)
      | Some p \<Rightarrow>
          (case wlog_get ops w p of
             None \<Rightarrow> (w, Panic)
           | Some raw \<Rightarrow>
               (case raw_decode raw of
                  Err e \<Rightarrow> (w, Err (BadRawNode e))
                | Panic \<Rightarrow> (w, Panic)
                | Ok (Branch left right) \<Rightarrow>
                    del_handle_branch d ops
                      (\<lambda>key child. del_handle_reference (\<lambda>p. del_handle d ops key p) key child)
                      key p left right w
                | Ok (Extension ext_key child) \<Rightarrow>
                    del_handle_extension
                      (\<lambda>key child. del_handle_reference (\<lambda>p. del_handle d ops key p) key child)
                      key p ext_key child w)))"
  by pat_completeness auto
termination
  by (relation "measure (\<lambda>(d, ops, key, p, w). sl_length key)")
    (auto dest: strip_prefix_less[OF _ raw_decode_ext_pos])

declare del_handle.simps [simp del]

definition del_context ::
  "(byte list \<Rightarrow> hash) \<Rightarrow> ('s, raw_node) alloc_ops \<Rightarrow> slice \<Rightarrow> ptr option \<Rightarrow> hash \<Rightarrow>
   ('s, trie_error, (ptr option \<times> hash) option) stateful" where
  "del_context d ops key root_ptr root_hash s =
     (let (w, res) =
        (if root_hash = EMPTY_TRIE_ROOT then (wlog_new s, Err NotFound)
         else
           st_bind (del_handle d ops key root_ptr) (\<lambda>action.
           st_bind (ref_from_action d ops action) (\<lambda>child.
             case child of
               None \<Rightarrow> st_return None
             | Some (RefNode p h) \<Rightarrow> st_return (Some (p, h))
             | Some (RefValue _ _) \<Rightarrow> st_lift Panic)) (wlog_new s))
      in case res of
           Ok r \<Rightarrow> (case wlog_commit ops w of None \<Rightarrow> (wl_alloc w, Panic) | Some s \<Rightarrow> (s, Ok r))
         | Err e \<Rightarrow> (case wlog_drop ops w of None \<Rightarrow> (wl_alloc w, Panic) | Some s \<Rightarrow> (s, Err e))
         | Panic \<Rightarrow> (wl_alloc w, Panic))"

definition trie_del ::
  "(byte list \<Rightarrow> hash) \<Rightarrow> ('s, raw_node) alloc_ops \<Rightarrow> byte list \<Rightarrow> ('s trie, trie_error, bool) stateful" where
  "trie_del d ops key t =
     (case slice_from_bytes key of
        None \<Rightarrow> (t, Err KeyTooLong)
      | Some key \<Rightarrow>
          (case del_context d ops key (tr_root_ptr t) (tr_root_hash t) (tr_alloc t) of
             (s, Ok res) \<Rightarrow>
               (let (p, h) = (case res of None \<Rightarrow> (None, EMPTY_TRIE_ROOT) | Some r \<Rightarrow> r)
                in (\<lparr>tr_root_ptr = p, tr_root_hash = h, tr_alloc = s\<rparr>, Ok True))
           | (s, Err NotFound) \<Rightarrow> (t\<lparr>tr_alloc := s\<rparr>, Ok False)
           | (s, Err e) \<Rightarrow> (t\<lparr>tr_alloc := s\<rparr>, Err e)
           | (s, Panic) \<Rightarrow> (t\<lparr>tr_alloc := s\<rparr>, Panic)))"

section \<open>What deletion does to a tree\<close>

fun tdel_err :: "tree \<Rightarrow> bool list \<Rightarrow> trie_error option" where
  "tdel_err (TValue s h) key = (if s then Some Sealed else if key = [] then None else Some NotFound)"
| "tdel_err (TSealed h) key = Some Sealed"
| "tdel_err (TBranch p l r) key =
     (case key of [] \<Rightarrow> Some NotFound | b # key \<Rightarrow> tdel_err (if b then r else l) key)"
| "tdel_err (TExt p k t) key =
     (if take (sl_length k) key = slice_bits k then tdel_err t (drop (sl_length k) key) else Some NotFound)"

text \<open>The number of bits on the longest path to a leaf.\<close>

fun tdepth :: "tree \<Rightarrow> nat" where
  "tdepth (TValue s h) = 0"
| "tdepth (TSealed h) = 0"
| "tdepth (TBranch p l r) = Suc (max (tdepth l) (tdepth r))"
| "tdepth (TExt p k t) = sl_length k + tdepth t"

definition del_rel ::
  "(bool list \<Rightarrow> (trie_error, hash option) outcome) \<Rightarrow> bool list \<Rightarrow>
   (bool list \<Rightarrow> (trie_error, hash option) outcome) \<Rightarrow> bool" where
  "del_rel f key g \<longleftrightarrow> g key = Ok None \<and> (\<forall>k. k \<noteq> key \<longrightarrow> f k = g k)"

lemma del_rel_branch:
  "del_rel (tget (if b then r else l)) key (tget c) \<Longrightarrow>
     del_rel (tget (TBranch p l r)) (b # key) (tget (if b then TBranch p l c else TBranch p c r))"
  unfolding del_rel_def by (auto split: list.splits if_splits)

lemma del_rel_collapse:
  "del_rel (tget (if b then r else l)) key (\<lambda>_. Ok None) \<Longrightarrow>
     del_rel (tget (TBranch p l r)) (b # key) (text_lookup [\<not> b] (if b then l else r))"
  unfolding del_rel_def text_lookup_def by (auto split: list.splits if_splits)

lemma prefix_split_eq:
  assumes "take (length bs) x = bs" shows "drop (length bs) x = key \<longleftrightarrow> x = bs @ key"
  using assms by (metis append_take_drop_id same_append_eq)

lemma del_rel_ext:
  assumes "del_rel (tget t) key g" and h: "\<And>x. h x = (if take (sl_length k) x = slice_bits k then g (drop (sl_length k) x) else Ok None)"
  shows "del_rel (tget (TExt p k t)) (slice_bits k @ key) h"
  unfolding del_rel_def
proof (intro conjI allI impI)
  show "h (slice_bits k @ key) = Ok None" using assms by (simp add: del_rel_def)
  fix x assume "x \<noteq> slice_bits k @ key"
  then show "tget (TExt p k t) x = h x"
    using assms prefix_split_eq[of "slice_bits k" x key] by (auto simp: del_rel_def)
qed

lemma tdel_err_found: "tdel_err t key = None \<Longrightarrow> \<exists>v. tget t key = Ok (Some v)"
proof (induction t arbitrary: key)
  case (TBranch p l r)
  then show ?case by (cases key) (auto split: if_splits)
qed (auto split: if_splits)

section \<open>Deletion in memory\<close>

definition act_ok ::
  "(byte list \<Rightarrow> hash) \<Rightarrow> u3 \<Rightarrow> tree \<Rightarrow> bool list \<Rightarrow> (ptr \<rightharpoonup> raw_node) \<Rightarrow> (ptr \<rightharpoonup> raw_node) \<Rightarrow> action \<Rightarrow> bool" where
  "act_ok d off t key m m' a \<longleftrightarrow>
     (case a of
        ActDrop \<Rightarrow> frame m (set (tptrs t)) m' {} \<and> del_rel (tget t) key (\<lambda>_. Ok None)
      | ActRef r \<Rightarrow> \<exists>t' p h. r = tref d t' \<and> r = RefNode (Some p) h \<and> rep d m' off t' \<and>
          frame m (set (tptrs t)) m' (set (tptrs t')) \<and> del_rel (tget t) key (tget t') \<and> tdepth t' \<le> tdepth t
      | ActExt k r \<Rightarrow> \<exists>t'. r = tref d t' \<and> owned_inv k \<and> ow_offset k = off \<and> 0 < ow_length k \<and>
          rep d m' (wrapping_add off (ow_length k)) t' \<and> frame m (set (tptrs t)) m' (set (tptrs t')) \<and>
          del_rel (tget t) key (text_lookup (owned_bits k) t') \<and> ow_length k + tdepth t' \<le> tdepth t)"

definition ref_ok ::
  "(byte list \<Rightarrow> hash) \<Rightarrow> u3 \<Rightarrow> tree \<Rightarrow> bool list \<Rightarrow> (ptr \<rightharpoonup> raw_node) \<Rightarrow> (ptr \<rightharpoonup> raw_node) \<Rightarrow> mem_ref option \<Rightarrow> bool" where
  "ref_ok d off t key m m' r \<longleftrightarrow> act_ok d off t key m m' (case r of None \<Rightarrow> ActDrop | Some r \<Rightarrow> ActRef r)"

text \<open>The number of blocks that turning an action into a reference takes.\<close>

definition act_need :: "action \<Rightarrow> nat" where
  "act_need a = (case a of ActExt k _ \<Rightarrow> chunks_len (as_slice k) | _ \<Rightarrow> 0)"

lemma act_need_simps [simp]: "act_need ActDrop = 0" "act_need (ActRef r) = 0"
  by (simp_all add: act_need_def)

lemma act_need_ext: "owned_inv k \<Longrightarrow> act_need (ActExt k r) = (bytes_len (ow_offset k) (ow_length k) + 33) div 34"
  by (simp add: act_need_def chunks_len_eq as_slice_inv slice_bytes_len_def)

lemma act_need_key:
  assumes "owned_inv k" "bytes_len (ow_offset k) (ow_length k) \<le> 34" shows "act_need (ActExt k r) \<le> 1"
  using assms by (simp add: act_need_ext)

text \<open>A key of at most 34 bytes in front needs at most one block more.\<close>

lemma act_need_append:
  assumes k: "owned_inv k" and suf: "owned_inv suf" and n: "ow_length k = n + ow_length suf"
    and off: "ow_offset suf = wrapping_add (ow_offset k) n" and b: "bytes_len (ow_offset k) n \<le> 34"
  shows "act_need (ActExt k r) \<le> Suc (act_need (ActExt suf r'))"
proof -
  have "bytes_len (ow_offset k) (ow_length k) \<le> 34 + bytes_len (ow_offset suf) (ow_length suf)"
    using bytes_len_append[of "ow_offset k" n "ow_length suf"] b by (simp add: n off)
  then have "(bytes_len (ow_offset k) (ow_length k) + 33) div 34 \<le> (34 + bytes_len (ow_offset suf) (ow_length suf) + 33) div 34"
    by (intro div_le_mono) simp
  also have "\<dots> = Suc ((bytes_len (ow_offset suf) (ow_length suf) + 33) div 34)" by simp
  finally show ?thesis by (simp add: act_need_ext k suf)
qed

lemma wlog_alloc_freed:
  assumes "wl_freed w \<noteq> []"
  shows "wlog_alloc ops v w =
    (wlog_set (last (wl_freed w)) v (w\<lparr>wl_freed := butlast (wl_freed w)\<rparr>), Ok (last (wl_freed w)))"
  using assms by (simp add: wlog_alloc_def Let_def)

lemma freed_simps [simp]: "wl_freed (wlog_set p v w) = wl_freed w" "wl_freed (wlog_free p w) = wl_freed w @ [p]"
  by (simp_all add: wlog_set_def wlog_free_def)

lemma wrapping_add_8: "wrapping_add off 8 = off"
  by (rule unsigned_word_eqI[where 'a = nat]) simp

lemma act_ok_ActRefI:
  assumes "tref d t' = RefNode (Some p) h" "rep d m' off t'" "frame m (set (tptrs t)) m' (set (tptrs t'))"
    "del_rel (tget t) key (tget t')" "tdepth t' \<le> tdepth t"
  shows "act_ok d off t key m m' (ActRef (RefNode (Some p) h))"
  unfolding act_ok_def using assms by (simp, metis)

lemma act_ok_ActExtI:
  assumes "owned_inv k" "ow_offset k = off" "0 < ow_length k"
    "rep d m' (wrapping_add off (ow_length k)) t'" "frame m (set (tptrs t)) m' (set (tptrs t'))"
    "del_rel (tget t) key (text_lookup (owned_bits k) t')" "ow_length k + tdepth t' \<le> tdepth t"
  shows "act_ok d off t key m m' (ActExt k (tref d t'))"
  unfolding act_ok_def using assms by (simp, blast)

context raw_allocator
begin

lemma del_alloc_spec:
  assumes d: "digest_ok d" and w: "wl_inv base w" and k: "ext_key_inv k"
    and t: "rep d (view w) (wrapping_add (sl_offset k) (sl_length k)) t" and f: "wl_freed w \<noteq> []"
  obtains w' p where "del_alloc d ops k (tref d t) w = (w', Ok (tref d (TExt p k t)))" "wl_inv base w'"
    "rep d (view w') (sl_offset k) (TExt p k t)" "frame (view w) (set (tptrs t)) (view w') (set (tptrs (TExt p k t)))"
    "length (wl_freed w) = Suc (length (wl_freed w'))"
proof -
  let ?raw = "raw_extension k (tref d t)" and ?p = "last (wl_freed w)"
  define w1 where "w1 = wlog_set ?p ?raw (w\<lparr>wl_freed := butlast (wl_freed w)\<rparr>)"
  have ti: "tree_inv d (wrapping_add (sl_offset k) (sl_length k)) t" using t by (simp add: rep_def)
  obtain n where n: "raw_decode ?raw = Ok n" "node_hash d n = node_hash d (Extension k (tref d t))"
    using decode_hash[of "Extension k (tref d t)" d] k tref_inv[OF d ti] by (auto simp: node_encode_def)
  have al: "alloc_node d ops ?raw w = (w1, Ok (?p, node_hash d n))"
    by (simp add: alloc_node_def n(1) wlog_alloc_freed[OF f] w1_def)
  have "del_alloc d ops k (tref d t) w = (w1, Ok (tref d (TExt ?p k t)))"
    by (simp add: del_alloc_def n wlog_alloc_freed[OF f] w1_def)
  moreover have "length (wl_freed w) = Suc (length (wl_freed w1))" using f by (simp add: w1_def)
  ultimately show thesis using alloc_node_spec[OF d w k t al] by (intro that[of w1 ?p]) auto
qed

lemma del_chunks_spec:
  assumes d: "digest_ok d"
  shows "wl_inv base w \<Longrightarrow> key_chain off (rev cs) \<Longrightarrow>
    rep d (view w) (wrapping_add off (length (keys_bits (rev cs)))) t \<Longrightarrow> length cs \<le> length (wl_freed w) \<Longrightarrow>
    \<exists>w' t'. del_chunks d ops cs (tref d t) w = (w', Ok (tref d t')) \<and> wl_inv base w' \<and> rep d (view w') off t' \<and>
         frame (view w) (set (tptrs t)) (view w') (set (tptrs t')) \<and>
         tget t' = text_lookup (keys_bits (rev cs)) t \<and> tdepth t' = length (keys_bits (rev cs)) + tdepth t \<and>
         (cs \<noteq> [] \<longrightarrow> (\<exists>p h. tref d t' = RefNode (Some p) h)) \<and>
         length (wl_freed w) = length (wl_freed w') + length cs"
proof (induction cs arbitrary: w t)
  case Nil
  then show ?case by auto
next
  case (Cons c cs)
  have c: "ext_key_inv c" "sl_offset c = wrapping_add off (length (keys_bits (rev cs)))"
    "key_chain off (rev cs)" using Cons.prems(2) by (auto simp: key_chain_append)
  have t: "rep d (view w) (wrapping_add (sl_offset c) (sl_length c)) t"
    using Cons.prems(3) c(2) by (simp add: wrapping_add_add)
  have f: "wl_freed w \<noteq> []" using Cons.prems(4) by auto
  obtain w1 q where w1: "del_alloc d ops c (tref d t) w = (w1, Ok (tref d (TExt q c t)))" "wl_inv base w1"
    "rep d (view w1) (sl_offset c) (TExt q c t)" "frame (view w) (set (tptrs t)) (view w1) (set (tptrs (TExt q c t)))"
    "length (wl_freed w) = Suc (length (wl_freed w1))" by (rule del_alloc_spec[OF d Cons.prems(1) c(1) t f])
  have "length cs \<le> length (wl_freed w1)" using Cons.prems(4) w1(5) by simp
  from Cons.IH[OF w1(2) c(3) w1(3)[unfolded c(2)] this] obtain w' t' where
    t': "del_chunks d ops cs (tref d (TExt q c t)) w1 = (w', Ok (tref d t'))" "wl_inv base w'" "rep d (view w') off t'"
      "frame (view w1) (set (tptrs (TExt q c t))) (view w') (set (tptrs t'))"
      "tget t' = text_lookup (keys_bits (rev cs)) (TExt q c t)"
      "tdepth t' = length (keys_bits (rev cs)) + tdepth (TExt q c t)"
      "cs \<noteq> [] \<longrightarrow> (\<exists>p h. tref d t' = RefNode (Some p) h)"
      "length (wl_freed w1) = length (wl_freed w') + length cs" by blast
  have "tget t' = text_lookup (keys_bits (rev (c # cs))) t"
    unfolding t'(5) by (simp add: fun_eq_iff text_lookup_append) (simp add: text_lookup_def)
  moreover have "tdepth t' = length (keys_bits (rev (c # cs))) + tdepth t" using t'(6) by simp
  moreover have "\<exists>p h. tref d t' = RefNode (Some p) h" using t'(1,7) by (cases cs) (auto dest: sym)
  moreover have "del_chunks d ops (c # cs) (tref d t) w = (w', Ok (tref d t'))" using w1(1) t'(1) by simp
  moreover have "length (wl_freed w) = length (wl_freed w') + length (c # cs)" using w1(5) t'(8) by simp
  ultimately show ?case using t'(2,3) frame_trans[OF w1(4) t'(4)] by blast
qed

lemma ref_from_action_spec:
  assumes d: "digest_ok d" and w: "wl_inv base w" and a: "act_ok d off t key m (view w) a"
    and f: "act_need a \<le> length (wl_freed w)"
  shows "\<exists>w' r. ref_from_action d ops a w = (w', Ok r) \<and> wl_inv base w' \<and> ref_ok d off t key m (view w') r \<and>
    length (wl_freed w) = length (wl_freed w') + act_need a"
proof (cases a)
  case (ActExt k c)
  with a obtain u where u: "c = tref d u" "owned_inv k" "ow_offset k = off" "0 < ow_length k"
    "rep d (view w) (wrapping_add off (ow_length k)) u" "frame m (set (tptrs t)) (view w) (set (tptrs u))"
    "del_rel (tget t) key (text_lookup (owned_bits k) u)" "ow_length k + tdepth u \<le> tdepth t"
    by (auto simp: act_ok_def)
  note ch = chunks_rev_spec[OF as_slice_inv[OF u(2)]]
  let ?cs = "chunks_rev (as_slice k)"
  have kb: "keys_bits (rev ?cs) = owned_bits k" using ch by (simp add: owned_bits_def)
  have ne: "?cs \<noteq> []" using kb u(4) by (metis keys_bits_simps(1) length_owned_bits less_irrefl list.size(3) rev.simps(1))
  have kc: "key_chain off (rev ?cs)" and ru: "rep d (view w) (wrapping_add off (length (keys_bits (rev ?cs)))) u"
    using ch u(3,5) kb by simp_all
  have len: "length ?cs = act_need a" using length_chunks_rev[OF as_slice_inv[OF u(2)]] by (simp add: ActExt act_need_def)
  from del_chunks_spec[OF d w kc ru] f len obtain w' t' where
    t': "del_chunks d ops ?cs (tref d u) w = (w', Ok (tref d t'))" "wl_inv base w'" "rep d (view w') off t'"
      "frame (view w) (set (tptrs u)) (view w') (set (tptrs t'))" "tget t' = text_lookup (keys_bits (rev ?cs)) u"
      "tdepth t' = length (keys_bits (rev ?cs)) + tdepth u"
      "?cs \<noteq> [] \<longrightarrow> (\<exists>p h. tref d t' = RefNode (Some p) h)"
      "length (wl_freed w) = length (wl_freed w') + length ?cs" by metis
  then obtain p h where ref: "tref d t' = RefNode (Some p) h" using ne by blast
  have "act_ok d off t key m (view w') (ActRef (RefNode (Some p) h))"
    by (rule act_ok_ActRefI[OF ref t'(3) frame_trans[OF u(6) t'(4)]])
      (use t'(5,6) u(7,8) kb in simp_all)
  moreover have "ref_from_action d ops a w = (w', Ok (Some (tref d t')))"
    using t'(1) by (simp add: ref_from_action_def ActExt u(1))
  ultimately show ?thesis using t'(2,8) len by (auto simp: ref_ok_def ref)
qed (use w a in \<open>auto simp: ref_from_action_def ref_ok_def\<close>)

text \<open>The contract of the handlers, for the tree \<open>t\<close> at the reference they get.\<close>

definition act_post ::
  "(byte list \<Rightarrow> hash) \<Rightarrow> (ptr \<rightharpoonup> raw_node) \<Rightarrow> ('s, raw_node) wlog \<Rightarrow> u3 \<Rightarrow> tree \<Rightarrow> bool list \<Rightarrow>
   ('s, raw_node) wlog \<times> (trie_error, action) outcome \<Rightarrow> bool" where
  "act_post d base w off t key wr \<longleftrightarrow>
     (case wr of (w', res) \<Rightarrow> wl_inv base w' \<and>
       (case res of
          Panic \<Rightarrow> False
        | Err e \<Rightarrow> tdel_err t key = Some e
        | Ok a \<Rightarrow> tdel_err t key = None \<and> act_ok d off t key (view w) (view w') a \<and>
            length (wl_freed w) + act_need a \<le> length (wl_freed w')))"

lemma act_post_OkI:
  "wl_inv base w' \<Longrightarrow> tdel_err t key = None \<Longrightarrow> act_ok d off t key (view w) (view w') a \<Longrightarrow>
     length (wl_freed w) + act_need a \<le> length (wl_freed w') \<Longrightarrow> act_post d base w off t key (w', Ok a)"
  by (simp add: act_post_def)

lemma act_post_err: "wl_inv base w' \<Longrightarrow> tdel_err t key = Some e \<Longrightarrow> act_post d base w off t key (w', Err e)"
  by (simp add: act_post_def)

lemma del_set_node_eq:
  "set_node d p node w = (w', Ok (p, h)) \<Longrightarrow> del_set_node d p node w = (w', Ok (RefNode (Some p) h))"
  by (auto simp: set_node_def del_set_node_def split: outcome.splits)

lemma set_node_freed: "set_node d p node w = (w', Ok r) \<Longrightarrow> wl_freed w' = wl_freed w"
  by (auto simp: set_node_def split: outcome.splits)

text \<open>The branch keeps both children.\<close>

lemma del_branch_keep:
  assumes d: "digest_ok d" and w: "wl_inv base w" and rp: "rep d base off (TBranch p l r)"
    and same: "\<forall>q \<in> set (tptrs (TBranch p l r)). view w q = base q"
    and w2: "wl_inv base w2" and te: "tdel_err (if b then r else l) bits = None"
    and ok: "ref_ok d (wrapping_add off 1) (if b then r else l) bits (view w) (view w2) (Some cr)"
    and fw: "length (wl_freed w) \<le> length (wl_freed w2)"
  shows "act_post d base w off (TBranch p l r) (b # bits)
    (st_bind (del_set_node d p (if b then raw_branch (tref d l) cr else raw_branch cr (tref d r)))
       (\<lambda>r. st_return (ActRef r)) w2)"
proof -
  define c where "c = (if b then r else l)"
  define sib where "sib = (if b then l else r)"
  obtain c' where c': "cr = tref d c'" "rep d (view w2) (wrapping_add off 1) c'"
    "frame (view w) (set (tptrs c)) (view w2) (set (tptrs c'))" "del_rel (tget c) bits (tget c')" "tdepth c' \<le> tdepth c"
    using ok by (auto simp: ref_ok_def act_ok_def c_def)
  have dist: "p \<notin> set (tptrs c)" "p \<notin> set (tptrs sib)" "set (tptrs sib) \<inter> set (tptrs c) = {}" "valid_ptr p"
    and sr: "rep d base (wrapping_add off 1) sib" and pb: "p \<in> dom base"
    using rp by (auto simp: rep_def c_def sib_def)
  have "rep d (view w) (wrapping_add off 1) sib"
    using sr same rep_cong[of sib "view w" base] by (auto simp: sib_def split: if_splits)
  note S = rep_frame[OF c'(3) this dist(3)]
  have pw: "p \<in> dom (view w)" using same pb by (simp add: domIff)
  note K = frame_keep[OF c'(3) pw dist(1)]
  have pw2: "p \<in> dom (view w2)" using K(2) pw by (simp add: domIff)
  define l' where "l' = (if b then l else c')"
  define r' where "r' = (if b then c' else r)"
  have trees: "p \<notin> set (tptrs l')" "p \<notin> set (tptrs r')" "set (tptrs l') \<inter> set (tptrs r') = {}"
    "rep d (view w2) (wrapping_add off 1) l'" "rep d (view w2) (wrapping_add off 1) r'"
    using K(1) dist S c'(2) by (auto simp: l'_def r'_def sib_def split: if_splits)
  obtain w3 h where sn: "set_node d p (raw_branch (tref d l') (tref d r')) w2 = (w3, Ok (p, h))"
    "wl_inv base w3" "view w3 = (view w2)(p \<mapsto> raw_branch (tref d l') (tref d r'))"
    "tref d (TBranch p l' r') = RefNode (Some p) h" "rep d (view w3) off (TBranch p l' r')"
    by (rule set_branch_spec[OF d w2 pw2 dist(4) trees])
  have res: "st_bind (del_set_node d p (if b then raw_branch (tref d l) cr else raw_branch cr (tref d r)))
       (\<lambda>r. st_return (ActRef r)) w2 = (w3, Ok (ActRef (RefNode (Some p) h)))"
    using del_set_node_eq[OF sn(1)] c'(1) by (cases b) (simp_all add: l'_def r'_def)
  have sets: "set (tptrs (TBranch p l r)) = set (tptrs c) \<union> insert p (set (tptrs sib))"
    "set (tptrs (TBranch p l' r')) = set (tptrs c') \<union> insert p (set (tptrs sib))"
    by (auto simp: c_def sib_def l'_def r'_def)
  have "frame (view w) (set (tptrs (TBranch p l r))) (view w3) (set (tptrs (TBranch p l' r')))"
    unfolding sets sn(3) by (intro frame_upd frame_extend c'(3)) simp
  moreover have "del_rel (tget (TBranch p l r)) (b # bits) (tget (TBranch p l' r'))"
    using del_rel_branch[of b r l bits c' p] c'(4) by (cases b) (simp_all add: c_def l'_def r'_def)
  moreover have "tdepth (TBranch p l' r') \<le> tdepth (TBranch p l r)"
    using c'(5) by (cases b) (simp_all add: c_def l'_def r'_def)
  ultimately have "act_ok d off (TBranch p l r) (b # bits) (view w) (view w3) (ActRef (RefNode (Some p) h))"
    by (intro act_ok_ActRefI[OF sn(4,5)])
  then show ?thesis unfolding res using te fw set_node_freed[OF sn(1)] by (intro act_post_OkI[OF sn(2)]) simp_all
qed

text \<open>The branch collapses into an extension, which absorbs an extension below it.\<close>

lemma del_branch_collapse:
  assumes d: "digest_ok d" and w: "wl_inv base w" and rp: "rep d base off (TBranch p l r)"
    and same: "\<forall>q \<in> set (tptrs (TBranch p l r)). view w q = base q"
    and w2: "wl_inv base w2" and te: "tdel_err (if b then r else l) bits = None"
    and ok: "ref_ok d (wrapping_add off 1) (if b then r else l) bits (view w) (view w2) None"
    and fw: "length (wl_freed w) \<le> length (wl_freed w2)"
  shows "act_post d base w off (TBranch p l r) (b # bits)
    (st_bind (maybe_pop_extension ops (tref d (if b then l else r))
        (\<lambda>key. case concat_bool (\<not> b) key of Ok k \<Rightarrow> Some k | _ \<Rightarrow> None)) (\<lambda>a.
      st_return (case a of Some a \<Rightarrow> a
        | None \<Rightarrow> ActExt (owned_bit (\<not> b) off) (tref d (if b then l else r)))) (wlog_free p w2))"
proof -
  define c where "c = (if b then r else l)"
  define sib where "sib = (if b then l else r)"
  have c': "frame (view w) (set (tptrs c)) (view w2) {}" "del_rel (tget c) bits (\<lambda>_. Ok None)"
    using ok by (auto simp: ref_ok_def act_ok_def c_def)
  have dist: "p \<notin> set (tptrs c)" "p \<notin> set (tptrs sib)" "set (tptrs sib) \<inter> set (tptrs c) = {}" "valid_ptr p"
    and sr: "rep d base (wrapping_add off 1) sib" and pb: "p \<in> dom base"
    using rp by (auto simp: rep_def c_def sib_def)
  have "rep d (view w) (wrapping_add off 1) sib"
    using sr same rep_cong[of sib "view w" base] by (auto simp: sib_def split: if_splits)
  note S = rep_frame[OF c'(1) this dist(3)]
  have pw: "p \<in> dom (view w)" using same pb by (simp add: domIff)
  have pw2: "p \<in> dom (view w2)" using frame_keep[OF c'(1) pw dist(1)] pw by (simp add: domIff)
  define w3 where "w3 = wlog_free p w2"
  have w3: "wl_inv base w3" "view w3 = (view w2)(p := None)" using wl_free[OF w2 pw2] by (simp_all add: w3_def)
  have sets: "set (tptrs (TBranch p l r)) = set (tptrs c) \<union> insert p (set (tptrs sib))"
    by (auto simp: c_def sib_def)
  have "frame (view w) (set (tptrs (TBranch p l r))) (view w2) (insert p (set (tptrs sib)))"
    unfolding sets using frame_extend[OF c'(1), of "insert p (set (tptrs sib))"] by simp
  then have f3: "frame (view w) (set (tptrs (TBranch p l r))) (view w3) (set (tptrs sib))"
    unfolding w3(2) by (rule frame_free[OF _ dist(2)])
  have s3: "rep d (view w3) (wrapping_add off 1) sib" unfolding w3(2) using S(1) rep_upd[OF dist(2)] by simp
  have dr: "del_rel (tget (TBranch p l r)) (b # bits) (text_lookup [\<not> b] sib)"
    using del_rel_collapse[of b r l bits p] c'(2) by (simp add: c_def sib_def)
  have dep: "Suc (tdepth sib) \<le> tdepth (TBranch p l r)" by (simp add: sib_def)
  have tt: "tdel_err (TBranch p l r) (b # bits) = None" using te by simp
  let ?mk = "\<lambda>key. case concat_bool (\<not> b) key of Ok k \<Rightarrow> Some k | _ \<Rightarrow> None"
  show ?thesis
  proof (cases "\<exists>q k u. sib = TExt q k u")
    case True
    then obtain q k u where sib: "sib = TExt q k u" by blast
    have ki: "ext_key_inv k" "sl_offset k = wrapping_add off 1" and ci: "ref_inv (tref d u)" and qb: "q \<notin> set (tptrs u)"
      using sr tref_inv[OF d] by (auto simp: sib rep_def)
    obtain k' where k': "raw_decode (raw_extension k (tref d u)) = Ok (Extension k' (tref d u))"
      "ext_key_inv k'" "sl_offset k' = sl_offset k" "slice_bits k' = slice_bits k" "sl_length k' = sl_length k"
      by (rule decode_extension[OF ki(1) ci])
    have get: "wlog_get ops w3 q = Some (raw_extension k (tref d u))"
      using sr by (intro wl_get[OF w3(1)]) (simp add: sib rep_def)
    have k'i: "slice_inv k'" "slice_bytes_len k' \<le> 34" "0 < sl_length k'"
      using k'(2) by (simp_all add: ext_key_inv_def MAX_EXTENSION_KEY_SIZE_def)
    have "1 + sl_length k' < 2 ^ 16" using k'i(2,3) by (auto simp: slice_bytes_len_def bytes_len_def)
    from concat_bool_spec(1)[OF k'i(1) this, of "\<not> b"] obtain ok where
      okk: "concat_bool (\<not> b) k' = Ok ok" "owned_inv ok" "ow_offset ok = wrapping_dec (sl_offset k')"
        "owned_bits ok = (\<not> b) # slice_bits k'" by blast
    have off: "ow_offset ok = off" using okk(3) k'(3) ki(2) by (simp add: wrapping_dec_def wrapping_add_add wrapping_add_8)
    have len: "ow_length ok = Suc (sl_length k)" using arg_cong[OF okk(4), of length] k'(5) by simp
    have qd: "q \<in> dom (view w3)" using s3 by (auto simp: sib rep_def)
    have w4: "wl_inv base (wlog_free q w3)" "view (wlog_free q w3) = (view w3)(q := None)"
      using wl_free[OF w3(1) qd] by simp_all
    have mp: "maybe_pop_extension ops (tref d sib) ?mk w3 = (wlog_free q w3, Ok (Some (ActExt ok (tref d u))))"
      by (simp add: maybe_pop_extension_def sib get k'(1) okk(1))
    have "act_ok d off (TBranch p l r) (b # bits) (view w) (view (wlog_free q w3)) (ActExt ok (tref d u))"
    proof (rule act_ok_ActExtI[OF okk(2) off])
      show "rep d (view (wlog_free q w3)) (wrapping_add off (ow_length ok)) u"
        unfolding w4(2) rep_upd[OF qb] using s3 ki(2) by (simp add: sib rep_def len wrapping_add_add)
      show "frame (view w) (set (tptrs (TBranch p l r))) (view (wlog_free q w3)) (set (tptrs u))"
        unfolding w4(2) using f3 by (intro frame_free[OF _ qb]) (simp add: sib)
      have "text_lookup (owned_bits ok) u = text_lookup [\<not> b] sib"
        unfolding okk(4) k'(4) sib using text_lookup_append[of "[\<not> b]" "slice_bits k" u]
        by (simp add: fun_eq_iff) (simp add: text_lookup_def)
      then show "del_rel (tget (TBranch p l r)) (b # bits) (text_lookup (owned_bits ok) u)" using dr by simp
      show "ow_length ok + tdepth u \<le> tdepth (TBranch p l r)" using dep by (simp add: len sib)
    qed (simp add: len)
    moreover have "act_need (ActExt ok (tref d u)) \<le> Suc (act_need (ActExt (owned_from_slice k') (tref d u)))"
    proof (rule act_need_append[OF okk(2) owned_from_slice(1)[OF k'i(1)], of 1])
      show "bytes_len (ow_offset ok) 1 \<le> 34" using u3_less[of "ow_offset ok"] by (simp add: bytes_len_def del: u3_less)
    qed (simp_all add: len owned_from_slice_def k'(3,5) off ki(2))
    moreover have "act_need (ActExt (owned_from_slice k') (tref d u)) \<le> 1"
      using k'i by (intro act_need_key owned_from_slice(1)) (simp_all add: owned_from_slice_def slice_bytes_len_def)
    ultimately have "length (wl_freed w) + act_need (ActExt ok (tref d u)) \<le> length (wl_freed (wlog_free q w3))"
      "act_ok d off (TBranch p l r) (b # bits) (view w) (view (wlog_free q w3)) (ActExt ok (tref d u))"
      using fw by (simp_all add: w3_def)
    then show ?thesis unfolding sib_def[symmetric] w3_def[symmetric] using mp
      by (simp add: act_post_OkI[OF w4(1) tt])
  next
    case False
    have "maybe_pop_extension ops (tref d sib) ?mk w3 = (w3, Ok None)"
    proof (cases sib)
      case (TBranch q x y)
      have "ref_inv (tref d x)" "ref_inv (tref d y)" using sr tref_inv[OF d] by (auto simp: TBranch rep_def)
      moreover have "wlog_get ops w3 q = Some (raw_branch (tref d x) (tref d y))"
        using sr by (intro wl_get[OF w3(1)]) (simp add: TBranch rep_def)
      ultimately show ?thesis by (simp add: maybe_pop_extension_def TBranch decode_branch)
    qed (use False in \<open>auto simp: maybe_pop_extension_def\<close>)
    moreover have "act_ok d off (TBranch p l r) (b # bits) (view w) (view w3) (ActExt (owned_bit (\<not> b) off) (tref d sib))"
      by (rule act_ok_ActExtI[OF owned_bit_spec(1) owned_bit_spec(3)])
        (use s3 f3 dr dep in \<open>simp_all add: owned_bit_spec(2), simp_all add: owned_bit_def\<close>)
    moreover have "act_need (ActExt (owned_bit (\<not> b) off) (tref d sib)) \<le> 1"
      using u3_less[of off] by (intro act_need_key owned_bit_spec(1)) (simp add: owned_bit_def bytes_len_def del: u3_less)
    then have "length (wl_freed w) + act_need (ActExt (owned_bit (\<not> b) off) (tref d sib)) \<le> length (wl_freed w3)"
      using fw by (simp add: w3_def)
    ultimately show ?thesis unfolding sib_def[symmetric] w3_def[symmetric]
      by (simp add: act_post_OkI[OF w3(1) tt])
  qed
qed

lemma frame_freed: "frame (m(p := None)) A m' B \<Longrightarrow> frame m (insert p A) m' B"
  unfolding frame_def by (metis fun_upd_apply insert_iff)

lemma del_ext_case:
  assumes d: "digest_ok d" and w: "wl_inv base w" and rp: "rep d base off (TExt p k t)"
    and same: "\<forall>q \<in> set (tptrs (TExt p k t)). view w q = base q"
    and k': "ext_key_inv k'" "sl_offset k' = sl_offset k" "slice_bits k' = slice_bits k" "sl_length k' = sl_length k"
    and dep: "tdepth (TExt p k t) < 2 ^ 16"
    and child: "act_post d base (wlog_free p w) (wrapping_add off (sl_length k)) t rest (m (wlog_free p w))"
  shows "act_post d base w off (TExt p k t) (slice_bits k @ rest)
    (st_bind m (\<lambda>action.
       case action of
         ActDrop \<Rightarrow> st_return ActDrop
       | ActRef child \<Rightarrow> st_return (ActExt (owned_from_slice k') child)
       | ActExt suffix child \<Rightarrow>
           (case concat_slices k' (as_slice suffix) of
              Ok key \<Rightarrow> st_return (ActExt key child) | _ \<Rightarrow> st_lift Panic)) (wlog_free p w))"
proof -
  let ?w1 = "wlog_free p w" and ?T = "TExt p k t"
  have pb: "p \<in> dom base" and ki: "ext_key_inv k" "sl_offset k = off" using rp by (auto simp: rep_def)
  then have pw: "p \<in> dom (view w)" using same by (simp add: domIff)
  have v1: "view ?w1 = (view w)(p := None)" using wl_free[OF w pw] by simp
  have k'i: "slice_inv k'" "0 < sl_length k'" using k'(1) by (auto simp: ext_key_inv_def)
  have fr: "frame (view w) (set (tptrs ?T)) m' B" if "frame (view ?w1) (set (tptrs t)) m' B" for m' B
    using frame_freed[of "view w" p] that by (simp add: v1)
  have te: "tdel_err ?T (slice_bits k @ rest) = tdel_err t rest" by simp
  obtain w2 r2 where m: "m ?w1 = (w2, r2)" by fastforce
  have P: "wl_inv base w2" using child by (simp add: act_post_def m)
  show ?thesis
  proof (cases r2)
    case (Err e)
    then show ?thesis using child m te by (simp add: act_post_def)
  next
    case Panic
    then show ?thesis using child m by (simp add: act_post_def)
  next
    case (Ok a)
    then have tn: "tdel_err ?T (slice_bits k @ rest) = None"
      and ok: "act_ok d (wrapping_add off (sl_length k)) t rest (view ?w1) (view w2) a"
      and fw: "Suc (length (wl_freed w)) + act_need a \<le> length (wl_freed w2)"
      using child m te by (simp_all add: act_post_def)
    show ?thesis
    proof (cases a)
      case ActDrop
      then have c: "frame (view ?w1) (set (tptrs t)) (view w2) {}" "del_rel (tget t) rest (\<lambda>_. Ok None)"
        using ok by (simp_all add: act_ok_def)
      have "del_rel (tget ?T) (slice_bits k @ rest) (\<lambda>_. Ok None)" by (rule del_rel_ext[OF c(2)]) simp
      then have "act_ok d off ?T (slice_bits k @ rest) (view w) (view w2) ActDrop"
        using fr[OF c(1)] by (simp add: act_ok_def)
      then show ?thesis using m Ok ActDrop fw by (simp add: act_post_OkI[OF P tn])
    next
      case (ActRef r)
      then obtain u where u: "r = tref d u" "rep d (view w2) (wrapping_add off (sl_length k)) u"
        "frame (view ?w1) (set (tptrs t)) (view w2) (set (tptrs u))" "del_rel (tget t) rest (tget u)" "tdepth u \<le> tdepth t"
        using ok by (auto simp: act_ok_def)
      note ow = owned_from_slice[OF k'i(1)]
      have len: "ow_length (owned_from_slice k') = sl_length k" using k'(4) by (simp add: owned_from_slice_def)
      have "del_rel (tget ?T) (slice_bits k @ rest) (text_lookup (slice_bits k) u)"
        by (rule del_rel_ext[OF u(4)]) (simp add: text_lookup_def)
      then have "act_ok d off ?T (slice_bits k @ rest) (view w) (view w2) (ActExt (owned_from_slice k') (tref d u))"
        by (intro act_ok_ActExtI[OF ow(1) _ _ _ fr[OF u(3)]]) (use ow k' ki k'i u in \<open>simp_all add: len\<close>)
      moreover have "act_need (ActExt (owned_from_slice k') (tref d u)) \<le> 1"
        using k'(1) by (intro act_need_key ow(1))
          (simp add: owned_from_slice_def ext_key_inv_def slice_bytes_len_def MAX_EXTENSION_KEY_SIZE_def)
      ultimately show ?thesis using m Ok ActRef u(1) fw by (simp add: act_post_OkI[OF P tn])
    next
      case (ActExt suf r)
      then obtain u where u: "r = tref d u" "owned_inv suf" "ow_offset suf = wrapping_add off (sl_length k)" "0 < ow_length suf"
        "rep d (view w2) (wrapping_add (wrapping_add off (sl_length k)) (ow_length suf)) u"
        "frame (view ?w1) (set (tptrs t)) (view w2) (set (tptrs u))"
        "del_rel (tget t) rest (text_lookup (owned_bits suf) u)" "ow_length suf + tdepth u \<le> tdepth t"
        using ok by (auto simp: act_ok_def)
      note cs = concat_slices_spec[OF k'i(1) as_slice_inv[OF u(2)]]
      have "sl_length k' + sl_length (as_slice suf) < 2 ^ 16" using dep u(8) k'(4) by simp
      moreover have "unat (sl_offset (as_slice suf)) = (unat (sl_offset k') + sl_length k') mod 8"
        using u(3) k'(2,4) ki(2) by simp
      ultimately obtain ok where okk: "concat_slices k' (as_slice suf) = Ok ok" using cs(1) by auto
      note o = cs(2)[OF okk]
      have ob: "owned_bits ok = slice_bits k @ owned_bits suf" using o k'(3) by (simp add: owned_bits_def)
      have len: "ow_length ok = sl_length k + ow_length suf" using arg_cong[OF ob, of length] by simp
      have "del_rel (tget ?T) (slice_bits k @ rest) (text_lookup (owned_bits ok) u)"
        by (rule del_rel_ext[OF u(7)]) (simp add: ob text_lookup_append)
      then have "act_ok d off ?T (slice_bits k @ rest) (view w) (view w2) (ActExt ok (tref d u))"
        by (intro act_ok_ActExtI[OF conjunct1[OF o] _ _ _ fr[OF u(6)]])
          (use o k' ki u in \<open>simp_all add: len wrapping_add_add\<close>)
      moreover have "act_need (ActExt ok (tref d u)) \<le> Suc (act_need (ActExt suf r))"
        by (rule act_need_append[OF conjunct1[OF o] u(2) len])
          (use o k' ki u(3) in \<open>simp_all add: ext_key_inv_def slice_bytes_len_def MAX_EXTENSION_KEY_SIZE_def\<close>)
      ultimately show ?thesis using m Ok ActExt u(1) okk fw by (simp add: act_post_OkI[OF P tn])
    qed
  qed
qed

lemma del_branch_case:
  assumes d: "digest_ok d" and w: "wl_inv base w" and rp: "rep d base (sl_offset key) (TBranch p l r)"
    and same: "\<forall>q \<in> set (tptrs (TBranch p l r)). view w q = base q"
    and pf: "pop_front key = Some (b, key')"
    and child: "act_post d base w (wrapping_add (sl_offset key) 1) (if b then r else l) bits
      (hr key' (tref d (if b then r else l)) w)"
  shows "act_post d base w (sl_offset key) (TBranch p l r) (b # bits)
    (del_handle_branch d ops hr key p (tref d l) (tref d r) w)"
proof -
  let ?c = "if b then r else l"
  obtain w1 r1 where hr: "hr key' (tref d ?c) w = (w1, r1)" by fastforce
  have w1: "wl_inv base w1" using child by (simp add: act_post_def hr)
  have hr': "hr key' (if b then tref d r else tref d l) w = (w1, r1)" using hr by (cases b) simp_all
  show ?thesis
  proof (cases r1)
    case (Err e)
    then show ?thesis using child hr hr' by (simp add: act_post_def del_handle_branch_def pf Let_def)
  next
    case Panic
    then show ?thesis using child hr by (simp add: act_post_def)
  next
    case (Ok a)
    then have te: "tdel_err ?c bits = None"
      and ok: "act_ok d (wrapping_add (sl_offset key) 1) ?c bits (view w) (view w1) a"
      using child hr by (simp_all add: act_post_def)
    have fa: "length (wl_freed w) + act_need a \<le> length (wl_freed w1)"
      using child hr Ok by (simp add: act_post_def)
    from ref_from_action_spec[OF d w1 ok] fa obtain w2 cr where ra: "ref_from_action d ops a w1 = (w2, Ok cr)"
      and w2: "wl_inv base w2" and r2: "ref_ok d (wrapping_add (sl_offset key) 1) ?c bits (view w) (view w2) cr"
      and f2: "length (wl_freed w1) = length (wl_freed w2) + act_need a" by auto
    have fw: "length (wl_freed w) \<le> length (wl_freed w2)" using fa f2 by simp
    show ?thesis
    proof (cases cr)
      case (Some c)
      have "del_handle_branch d ops hr key p (tref d l) (tref d r) w =
          st_bind (del_set_node d p (if b then raw_branch (tref d l) c else raw_branch c (tref d r)))
            (\<lambda>r. st_return (ActRef r)) w2"
        using hr' Ok ra Some by (cases b) (simp_all add: del_handle_branch_def pf Let_def)
      then show ?thesis using del_branch_keep[OF d w rp same w2 te _ fw] r2 Some by simp
    next
      case None
      have "del_handle_branch d ops hr key p (tref d l) (tref d r) w =
          st_bind (maybe_pop_extension ops (tref d (if b then l else r))
            (\<lambda>key. case concat_bool (\<not> b) key of Ok k \<Rightarrow> Some k | _ \<Rightarrow> None)) (\<lambda>a.
          st_return (case a of Some a \<Rightarrow> a
            | None \<Rightarrow> ActExt (owned_bit (\<not> b) (sl_offset key)) (tref d (if b then l else r)))) (wlog_free p w2)"
        using hr' Ok ra None by (simp add: del_handle_branch_def pf Let_def if_distrib[of "tref d"])
      then show ?thesis using del_branch_collapse[OF d w rp same w2 te _ fw] r2 None by simp
    qed
  qed
qed

lemma del_reference_spec:
  assumes d: "digest_ok d"
  shows "wl_inv base w \<Longrightarrow> rep d base (sl_offset key) t \<Longrightarrow> \<forall>q \<in> set (tptrs t). view w q = base q \<Longrightarrow>
    slice_inv key \<Longrightarrow> tdepth t < 2 ^ 16 \<Longrightarrow>
    act_post d base w (sl_offset key) t (slice_bits key)
      (del_handle_reference (\<lambda>p. del_handle d ops key p) key (tref d t) w)"
proof (induction t arbitrary: key w)
  case (TValue s h)
  then show ?case
    by (auto simp: del_handle_reference_def act_post_def act_ok_def slice_is_empty_def del_rel_def)
next
  case (TSealed h)
  then show ?case by (simp add: del_handle_reference_def del_handle.simps act_post_err)
next
  case (TBranch p l r)
  let ?hr = "\<lambda>key child. del_handle_reference (\<lambda>p. del_handle d ops key p) key child"
  have inv: "ref_inv (tref d l)" "ref_inv (tref d r)" using TBranch.prems tref_inv[OF d] by (auto simp: rep_def)
  have get: "wlog_get ops w p = Some (raw_branch (tref d l) (tref d r))"
    using TBranch.prems(2) by (intro wl_get[OF TBranch.prems(1)]) (simp add: rep_def)
  have eq: "?hr key (tref d (TBranch p l r)) w = del_handle_branch d ops ?hr key p (tref d l) (tref d r) w"
    by (simp add: del_handle_reference_def[of _ _ "RefNode _ _"] del_handle.simps[of d ops key "Some p"] get decode_branch[OF inv])
  show ?case unfolding eq
  proof (cases "pop_front key")
    case None
    then show "act_post d base w (sl_offset key) (TBranch p l r) (slice_bits key)
        (del_handle_branch d ops ?hr key p (tref d l) (tref d r) w)"
      using TBranch.prems pop_front_bits[OF TBranch.prems(4)]
      by (auto simp: del_handle_branch_def Let_def intro!: act_post_err)
  next
    case (Some x)
    then obtain b key' where pf: "pop_front key = Some (b, key')" "slice_inv key'"
      "slice_bits key = b # slice_bits key'" "sl_offset key' = wrapping_add (sl_offset key) 1"
      using pop_front_bits[OF TBranch.prems(4)] by auto
    have "act_post d base w (sl_offset key') (if b then r else l) (slice_bits key') (?hr key' (tref d (if b then r else l)) w)"
      using TBranch.IH(1)[of w key'] TBranch.IH(2)[of w key'] TBranch.prems pf by (cases b) (auto simp: rep_def)
    then show "act_post d base w (sl_offset key) (TBranch p l r) (slice_bits key)
        (del_handle_branch d ops ?hr key p (tref d l) (tref d r) w)"
      unfolding pf(3,4) by (rule del_branch_case[OF d TBranch.prems(1-3) pf(1)])
  qed
next
  case (TExt p k t)
  let ?hr = "\<lambda>key child. del_handle_reference (\<lambda>p. del_handle d ops key p) key child"
  have ki: "ext_key_inv k" "sl_offset k = sl_offset key" and ci: "ref_inv (tref d t)" and np: "p \<notin> set (tptrs t)"
    using TExt.prems tref_inv[OF d] by (auto simp: rep_def)
  obtain k' where k': "raw_decode (raw_extension k (tref d t)) = Ok (Extension k' (tref d t))"
    "ext_key_inv k'" "sl_offset k' = sl_offset k" "slice_bits k' = slice_bits k" "sl_length k' = sl_length k"
    by (rule decode_extension[OF ki(1) ci])
  have get: "wlog_get ops w p = Some (raw_extension k (tref d t))"
    using TExt.prems(2) by (intro wl_get[OF TExt.prems(1)]) (simp add: rep_def)
  have eq: "?hr key (tref d (TExt p k t)) w = del_handle_extension ?hr key p k' (tref d t) w"
    by (simp add: del_handle_reference_def[of _ _ "RefNode _ _"] del_handle.simps[of d ops key "Some p"] get k'(1))
  show ?case unfolding eq
  proof (cases "take (sl_length k) (slice_bits key) = slice_bits k")
    case False
    then have "strip_prefix key k' = (False, key)"
      using strip_prefix_bits[OF TExt.prems(4) k'(2)] k' ki by auto
    then show "act_post d base w (sl_offset key) (TExt p k t) (slice_bits key) (del_handle_extension ?hr key p k' (tref d t) w)"
      using False TExt.prems(1) by (simp add: del_handle_extension_def act_post_err)
  next
    case True
    then obtain key' where sp: "strip_prefix key k' = (True, key')" "slice_inv key'"
      "slice_bits key' = drop (sl_length k) (slice_bits key)"
      "sl_offset key' = wrapping_add (sl_offset key) (sl_length k)"
      using strip_prefix_bits[OF TExt.prems(4) k'(2)] k' ki by auto
    have pw: "p \<in> dom (view w)" using TExt.prems(2,3) by (auto simp: rep_def domIff)
    note w1 = wl_free[OF TExt.prems(1) pw]
    have "act_post d base (wlog_free p w) (sl_offset key') t (slice_bits key') (?hr key' (tref d t) (wlog_free p w))"
      by (rule TExt.IH[OF w1(1)]) (use TExt.prems sp np in \<open>auto simp: rep_def w1(2)\<close>)
    from del_ext_case[where m = "?hr key' (tref d t)", OF d TExt.prems(1-3) k'(2-5) TExt.prems(5) this[unfolded sp(4)]]
    have "act_post d base w (sl_offset key) (TExt p k t) (slice_bits k @ slice_bits key')
        (del_handle_extension ?hr key p k' (tref d t) w)"
      by (simp add: del_handle_extension_def sp(1) st_bind_def[of "st_modify _"])
    moreover have "slice_bits key = slice_bits k @ slice_bits key'" using True sp(3) by (metis append_take_drop_id)
    ultimately show "act_post d base w (sl_offset key) (TExt p k t) (slice_bits key)
        (del_handle_extension ?hr key p k' (tref d t) w)" by simp
  qed
qed

end

section \<open>Path lengths\<close>

text \<open>
  The depth of a tree can be read off its lookups: it is the length of the longest
  key that hits a leaf. So an operation that is specified by lookups bounds the
  depth too, and no path gets longer than the longest key that was inserted.
\<close>

definition first_hit :: "(bool list \<Rightarrow> (trie_error, hash option) outcome) \<Rightarrow> bool list \<Rightarrow> bool" where
  "first_hit f k \<longleftrightarrow> f k \<noteq> Ok None \<and> (\<forall>j < length k. f (take j k) = Ok None)"

lemma first_hit_branch:
  "first_hit (tget (TBranch p l r)) (b # k) \<longleftrightarrow> first_hit (tget (if b then r else l)) k"
proof -
  have "(\<forall>j < Suc (length k). tget (TBranch p l r) (take j (b # k)) = Ok None) \<longleftrightarrow>
      (\<forall>j < length k. tget (if b then r else l) (take j k) = Ok None)"
    by (auto simp: All_less_Suc2)
  then show ?thesis by (simp add: first_hit_def)
qed

lemma first_hit_ext:
  "first_hit (tget (TExt p k t)) (slice_bits k @ x) \<longleftrightarrow> first_hit (tget t) x"
proof -
  have short: "tget (TExt p k t) (take j (slice_bits k @ x)) = Ok None" if "j < sl_length k" for j
  proof -
    have "length (take (sl_length k) (take j (slice_bits k @ x))) < length (slice_bits k)" using that by simp
    then have "take (sl_length k) (take j (slice_bits k @ x)) \<noteq> slice_bits k" by (metis less_irrefl)
    then show ?thesis by simp
  qed
  have long: "tget (TExt p k t) (take (sl_length k + i) (slice_bits k @ x)) = tget t (take i x)" for i by simp
  have "(\<forall>j < sl_length k + length x. tget (TExt p k t) (take j (slice_bits k @ x)) = Ok None) \<longleftrightarrow>
      (\<forall>i < length x. tget t (take i x) = Ok None)"
  proof (intro iffI allI impI)
    fix i assume "\<forall>j < sl_length k + length x. tget (TExt p k t) (take j (slice_bits k @ x)) = Ok None" "i < length x"
    then show "tget t (take i x) = Ok None" using long[of i] by (metis nat_add_left_cancel_less)
  next
    fix j assume a: "\<forall>i < length x. tget t (take i x) = Ok None" "j < sl_length k + length x"
    show "tget (TExt p k t) (take j (slice_bits k @ x)) = Ok None"
    proof (cases "j < sl_length k")
      case False
      then obtain i where "j = sl_length k + i" by (metis le_Suc_ex not_less)
      then show ?thesis using a long[of i] by simp
    qed (rule short)
  qed
  then show ?thesis by (simp add: first_hit_def)
qed

lemma first_hit_le: "first_hit (tget t) k \<Longrightarrow> length k \<le> tdepth t"
proof (induction t arbitrary: k)
  case (TValue s h)
  then show ?case by (cases k) (auto simp: first_hit_def split: if_splits)
next
  case (TSealed h)
  then show ?case by (cases k) (auto simp: first_hit_def)
next
  case (TBranch p l r)
  then show ?case
  proof (cases k)
    case (Cons b x)
    have "first_hit (tget (if b then r else l)) x"
      using TBranch.prems unfolding Cons by (rule first_hit_branch[THEN iffD1])
    then have "length x \<le> tdepth (if b then r else l)" using TBranch.IH by (cases b) simp_all
    then show ?thesis using Cons by (cases b) auto
  qed simp
next
  case (TExt p k' t)
  then have m: "take (sl_length k') k = slice_bits k'" by (auto simp: first_hit_def split: if_splits)
  then have k: "k = slice_bits k' @ drop (sl_length k') k" by (metis append_take_drop_id)
  have "first_hit (tget (TExt p k' t)) (slice_bits k' @ drop (sl_length k') k)"
    unfolding k[symmetric] by (rule TExt.prems)
  then have "length (drop (sl_length k') k) \<le> tdepth t" by (rule TExt.IH[OF first_hit_ext[THEN iffD1]])
  moreover have "length k = sl_length k' + length (drop (sl_length k') k)" using arg_cong[OF m, of length] by simp
  ultimately show ?case unfolding tdepth.simps by linarith
qed

lemma first_hit_ex: "\<exists>k. first_hit (tget t) k \<and> length k = tdepth t"
proof (induction t)
  case (TBranch p l r)
  then obtain kl kr where "first_hit (tget l) kl" "length kl = tdepth l" "first_hit (tget r) kr" "length kr = tdepth r"
    by blast
  then have "first_hit (tget (TBranch p l r)) (if tdepth l \<le> tdepth r then True # kr else False # kl)"
    "length (if tdepth l \<le> tdepth r then True # kr else False # kl) = tdepth (TBranch p l r)"
    by (auto simp: first_hit_branch)
  then show ?case by blast
next
  case (TExt p k t)
  then obtain x where "first_hit (tget t) x" "length x = tdepth t" by blast
  then have "first_hit (tget (TExt p k t)) (slice_bits k @ x)" "length (slice_bits k @ x) = tdepth (TExt p k t)"
    by (simp_all add: first_hit_ext)
  then show ?case by blast
qed (auto simp: first_hit_def)

definition content_depth :: "tree option \<Rightarrow> nat" where
  "content_depth c = (case c of None \<Rightarrow> 0 | Some t \<Rightarrow> tdepth t)"

lemma content_set_depth:
  assumes "content_set_rel c key v c'" shows "content_depth c' \<le> max (content_depth c) (length key)"
proof (cases c')
  case (Some t')
  obtain k where k: "first_hit (tget t') k" "length k = tdepth t'" using first_hit_ex by blast
  show ?thesis
  proof (cases "k = key")
    case False
    have same: "tget t' x = content_get c x" if "x \<noteq> key" for x
      using assms that Some by (simp add: content_set_rel_def content_get_def)
    have hit: "tget t' key = Ok (Some v)" using assms Some by (simp add: content_set_rel_def content_get_def)
    have "first_hit (content_get c) k" unfolding first_hit_def
    proof (intro conjI allI impI)
      show "content_get c k \<noteq> Ok None" using k(1) same[OF False] by (simp add: first_hit_def)
      fix j assume "j < length k"
      then have n: "tget t' (take j k) = Ok None" using k(1) by (simp add: first_hit_def)
      then have "take j k \<noteq> key" using hit by auto
      then show "content_get c (take j k) = Ok None" using same n by simp
    qed
    then have "length k \<le> content_depth c"
    proof (cases c)
      case (Some t)
      then have "content_get c = tget t" by (simp add: content_get_def fun_eq_iff)
      then show ?thesis using \<open>first_hit (content_get c) k\<close> first_hit_le[of t k] Some by (simp add: content_depth_def)
    qed (simp add: content_get_def first_hit_def)
    then show ?thesis using k(2) Some by (simp add: content_depth_def)
  qed (use k Some in \<open>simp add: content_depth_def\<close>)
qed (simp add: content_depth_def)

lemma seal_node_depth: "tdepth (seal_node d p l r) \<le> Suc (max (tdepth l) (tdepth r))"
  by (simp add: seal_node_def)

lemma tseal_depth: "tseal d t key = Ok t' \<Longrightarrow> tdepth t' \<le> tdepth t"
proof (induction t arbitrary: key t')
  case (TBranch p l r)
  then obtain b k0 c where k: "tseal d (if b then r else l) k0 = Ok c"
    "t' = (if b then seal_node d p l c else seal_node d p c r)"
    by (auto simp: bind_outcome_Ok split: list.splits)
  have "tdepth c \<le> tdepth (if b then r else l)" using TBranch.IH k(1) by (cases b) simp_all
  then show ?case using seal_node_depth[of d p l c] seal_node_depth[of d p c r] unfolding k(2) by (cases b) auto
qed (auto simp: bind_outcome_Ok split: if_splits)

section \<open>Deletion from a trie\<close>

definition content_del_err :: "tree option \<Rightarrow> bool list \<Rightarrow> trie_error option" where
  "content_del_err c key = (case c of None \<Rightarrow> Some NotFound | Some t \<Rightarrow> tdel_err t key)"

definition trie_same ::
  "('s \<Rightarrow> ptr \<rightharpoonup> raw_node) \<Rightarrow> 's trie \<Rightarrow> 's trie \<Rightarrow> bool" where
  "trie_same live t t' \<longleftrightarrow>
     live (tr_alloc t') = live (tr_alloc t) \<and> tr_root_ptr t' = tr_root_ptr t \<and> tr_root_hash t' = tr_root_hash t"

definition trie_del_post ::
  "(byte list \<Rightarrow> hash) \<Rightarrow> ('s \<Rightarrow> bool) \<Rightarrow> ('s \<Rightarrow> ptr \<rightharpoonup> raw_node) \<Rightarrow> 's trie \<Rightarrow> tree option \<Rightarrow> bool list \<Rightarrow>
   's trie \<Rightarrow> (trie_error, bool) outcome \<Rightarrow> bool" where
  "trie_del_post d ainv live t c key t' res \<longleftrightarrow>
     (case res of
        Panic \<Rightarrow> False
      | Err e \<Rightarrow> e \<noteq> NotFound \<and> content_del_err c key = Some e \<and>
          trie_rep d ainv live t' c \<and> trie_same live t t'
      | Ok False \<Rightarrow> content_del_err c key = Some NotFound \<and> trie_rep d ainv live t' c \<and> trie_same live t t'
      | Ok True \<Rightarrow> content_del_err c key = None \<and>
          (\<exists>c'. trie_rep d ainv live t' c' \<and> del_rel (content_get c) key (content_get c') \<and>
             content_depth c' \<le> content_depth c \<and>
             frame (live (tr_alloc t)) (content_ptrs c) (live (tr_alloc t')) (content_ptrs c')))"

context raw_allocator
begin

lemma del_context_spec:
  assumes d: "digest_ok d" and s: "ainv s" and key: "slice_inv key" "sl_offset key = 0"
    and c: "trie_content d (live s) p h c" and dep: "content_depth c < 2 ^ 16"
    and r: "del_context d ops key p h s = (s', res)"
  shows "ainv s' \<and>
    (case res of
       Panic \<Rightarrow> False
     | Err e \<Rightarrow> live s' = live s \<and>
         content_del_err c (slice_bits key) = Some e
     | Ok r \<Rightarrow> content_del_err c (slice_bits key) = None \<and>
         (\<exists>c'. (case r of None \<Rightarrow> c' = None | Some (p', h') \<Rightarrow> c' \<noteq> None \<and> trie_content d (live s') p' h' c') \<and>
            del_rel (content_get c) (slice_bits key) (content_get c') \<and> content_depth c' \<le> content_depth c \<and>
            frame (live s) (content_ptrs c) (live s') (content_ptrs c')))"
proof (cases c)
  case None
  then have "h = EMPTY_TRIE_ROOT" using c by (simp add: trie_content_def)
  then have "del_context d ops key p h s = (case wlog_drop ops (wlog_new s) of
      None \<Rightarrow> (wl_alloc (wlog_new s :: ('s, raw_node) wlog), Panic) | Some s \<Rightarrow> (s, Err NotFound))"
    by (simp add: del_context_def)
  then show ?thesis using r wl_drop[OF conjunct1[OF wl_new[OF s]]] None
    by (auto simp: content_del_err_def)
next
  case (Some t)
  note new = wl_new[OF s]
  have ne: "h \<noteq> EMPTY_TRIE_ROOT" using trie_content_hash[OF d c] Some by simp
  have rp: "rep d (live s) (sl_offset key) t" and tr: "tref d t = RefNode p h"
    using c key(2) Some by (auto simp: trie_content_def rep_def)
  have dt: "tdepth t < 2 ^ 16" using dep Some by (simp add: content_depth_def)
  obtain w1 r1 where dh: "del_handle d ops key p (wlog_new s) = (w1, r1)" by fastforce
  have "act_post d (live s) (wlog_new s) (sl_offset key) t (slice_bits key)
      (del_handle_reference (\<lambda>p. del_handle d ops key p) key (tref d t) (wlog_new s))"
    by (rule del_reference_spec[OF d conjunct1[OF new] rp _ key(1) dt]) (simp add: new)
  then have P: "act_post d (live s) (wlog_new s) 0 t (slice_bits key) (w1, r1)"
    using dh key(2) by (simp add: tr del_handle_reference_def)
  then have w1: "wl_inv (live s) w1" by (simp add: act_post_def)
  have dc: "del_context d ops key p h s = (case r of (w, Ok r) \<Rightarrow>
        (case wlog_commit ops w of None \<Rightarrow> (wl_alloc w, Panic) | Some s \<Rightarrow> (s, Ok r))
      | (w, Err e) \<Rightarrow> (case wlog_drop ops w of None \<Rightarrow> (wl_alloc w, Panic) | Some s \<Rightarrow> (s, Err e))
      | (w, Panic) \<Rightarrow> (wl_alloc w, Panic))"
    if "st_bind (del_handle d ops key p) (\<lambda>action.
           st_bind (ref_from_action d ops action) (\<lambda>child.
             case child of None \<Rightarrow> st_return None
             | Some (RefNode p h) \<Rightarrow> st_return (Some (p, h))
             | Some (RefValue _ _) \<Rightarrow> st_lift Panic)) (wlog_new s) = r" for r
    using ne that by (simp add: del_context_def Let_def case_prod_unfold split: outcome.splits)
  have err: "ainv s' \<and> live s' = live s \<and> res = Err e" if "wl_inv (live s) w"
    "del_context d ops key p h s = (case wlog_drop ops w of None \<Rightarrow> (wl_alloc w, Panic) | Some s \<Rightarrow> (s, Err e))" for w e
    using wl_drop[OF that(1)] that(2) r by auto
  show ?thesis
  proof (cases r1)
    case (Err e)
    then have "del_context d ops key p h s = (case wlog_drop ops w1 of None \<Rightarrow> (wl_alloc w1, Panic) | Some s \<Rightarrow> (s, Err e))"
      using dh by (subst dc[OF refl]) simp
    from err[OF w1 this] show ?thesis using P Err Some by (auto simp: act_post_def content_del_err_def)
  next
    case Panic
    then show ?thesis using P by (simp add: act_post_def)
  next
    case (Ok a)
    then have te: "content_del_err c (slice_bits key) = None"
      and ok: "act_ok d 0 t (slice_bits key) (live s) (view w1) a"
      using P new Some by (auto simp: act_post_def content_del_err_def)
    have fa: "act_need a \<le> length (wl_freed w1)" using P Ok by (simp add: act_post_def)
    from ref_from_action_spec[OF d w1 ok fa] obtain w2 cr where ra: "ref_from_action d ops a w1 = (w2, Ok cr)"
      and w2: "wl_inv (live s) w2" and r2: "ref_ok d 0 t (slice_bits key) (live s) (view w2) cr" by blast
    obtain s2 where s2: "wlog_commit ops w2 = Some s2" "ainv s2" "live s2 = view w2" using wl_commit[OF w2] by blast
    have cg: "content_get c = tget t" using Some by (simp add: content_get_def fun_eq_iff)
    show ?thesis
    proof (cases cr)
      case None
      then have "del_context d ops key p h s = (s2, Ok None)"
        using dh Ok ra s2(1) by (subst dc[OF refl]) simp
      then have res: "s' = s2" "res = Ok None" using r by simp_all
      have "frame (live s) (set (tptrs t)) (live s2) {}" "del_rel (tget t) (slice_bits key) (\<lambda>_. Ok None)"
        using r2 None s2(3) by (auto simp: ref_ok_def act_ok_def)
      moreover have "content_get None = (\<lambda>_. Ok None)" by (simp add: content_get_def fun_eq_iff)
      ultimately show ?thesis using s2(2) te res cg Some
        by (auto simp: content_ptrs_def content_depth_def)
    next
      case cs: (Some r0)
      with r2 obtain t' p' h' where t': "r0 = RefNode (Some p') h'" "tref d t' = RefNode (Some p') h'" "rep d (view w2) 0 t'"
        "frame (live s) (set (tptrs t)) (view w2) (set (tptrs t'))" "del_rel (tget t) (slice_bits key) (tget t')"
        "tdepth t' \<le> tdepth t" by (auto simp: ref_ok_def act_ok_def)
      have "del_context d ops key p h s = (s2, Ok (Some (Some p', h')))"
        using dh Ok ra s2(1) cs t'(1) by (subst dc[OF refl]) simp
      then have res: "s' = s2" "res = Ok (Some (Some p', h'))" using r by simp_all
      have "trie_content d (live s2) (Some p') h' (Some t')" using t'(2,3) s2(3) by (simp add: trie_content_def rep_def)
      moreover have "content_get (Some t') = tget t'" by (simp add: content_get_def fun_eq_iff)
      ultimately show ?thesis using s2(2,3) te res cg Some t'(4-6)
        by (auto simp: content_ptrs_def content_depth_def intro!: exI[of _ "Some t'"])
    qed
  qed
qed

lemma trie_del_spec:
  assumes d: "digest_ok d" and t: "trie_rep d ainv live t c" and dep: "content_depth c < 2 ^ 16"
    and k: "slice_from_bytes key = Some K" and r: "trie_del d ops key t = (t', res)"
  shows "trie_del_post d ainv live t c (key_bits key) t' res"
proof -
  note ki = slice_from_bytes_key[OF k]
  obtain s' r1 where dc: "del_context d ops K (tr_root_ptr t) (tr_root_hash t) (tr_alloc t) = (s', r1)" by fastforce
  have a: "ainv (tr_alloc t)" and c: "trie_content d (live (tr_alloc t)) (tr_root_ptr t) (tr_root_hash t) c"
    using t by (auto simp: trie_rep_def)
  note S = del_context_spec[OF d a ki(1,2) c dep dc, unfolded ki(3)]
  show ?thesis
  proof (cases r1)
    case (Ok x)
    from S Ok obtain c' where c': "content_del_err c (key_bits key) = None" "ainv s'"
      "case x of None \<Rightarrow> c' = None | Some (p', h') \<Rightarrow> c' \<noteq> None \<and> trie_content d (live s') p' h' c'"
      "del_rel (content_get c) (key_bits key) (content_get c')" "content_depth c' \<le> content_depth c"
      "frame (live (tr_alloc t)) (content_ptrs c) (live s') (content_ptrs c')" by auto
    have res: "res = Ok True" "tr_alloc t' = s'" using r k dc Ok by (auto simp: trie_del_def split: prod.splits)
    have "trie_content d (live s') (tr_root_ptr t') (tr_root_hash t') c'"
      using r k dc Ok c'(3) by (auto simp: trie_del_def trie_content_def[of _ _ None] split: option.splits)
    then show ?thesis using c' res by (auto simp: trie_del_post_def trie_rep_def)
  next
    case (Err e)
    have t': "t' = t\<lparr>tr_alloc := s'\<rparr>" "res = (if e = NotFound then Ok False else Err e)"
      using r k dc Err by (auto simp: trie_del_def split: trie_error.splits)
    then show ?thesis using S Err c by (auto simp: trie_del_post_def trie_rep_def trie_same_def)
  next
    case Panic
    then show ?thesis using S by simp
  qed
qed

end

end
