(* ===== verification/Trie_Room.thy ===== *)
theory Trie_Room
  imports Trie_Del
begin

text \<open>
  Insertion succeeds when there is room. The locale \<open>roomy_allocator\<close> bounds from
  below how many allocations an allocator can still serve; an insertion makes at
  most one allocation per chunk of its key and two more when it splits an
  extension. The bound is established on the code alone, by composing the cost of
  the parts, so it holds in every state of the trie.
\<close>

locale roomy_allocator =
  fixes ops :: "('s, raw_node) alloc_ops" and winv :: "'s \<Rightarrow> bool" and room :: "'s \<Rightarrow> nat"
  assumes room_keep: "winv s \<Longrightarrow> al_alloc ops v s = (s', r) \<Longrightarrow> winv s' \<and> room s \<le> Suc (room s')"
    and room_alloc: "winv s \<Longrightarrow> 0 < room s \<Longrightarrow> al_alloc ops v s \<noteq> (s', Err e)"
begin

definition uses :: "nat \<Rightarrow> (('s, raw_node) wlog, trie_error, 'a) stateful \<Rightarrow> bool" where
  "uses n m \<longleftrightarrow> (\<forall>w w' r. winv (wl_alloc w) \<longrightarrow> m w = (w', r) \<longrightarrow>
     winv (wl_alloc w') \<and> room (wl_alloc w) \<le> room (wl_alloc w') + n \<and>
     (n \<le> room (wl_alloc w) \<longrightarrow> r \<noteq> Err OutOfMemory))"

lemma usesD:
  assumes "uses n m" "winv (wl_alloc w)" "m w = (w', r)"
  shows "winv (wl_alloc w')" "room (wl_alloc w) \<le> room (wl_alloc w') + n" "n \<le> room (wl_alloc w) \<Longrightarrow> r \<noteq> Err OutOfMemory"
  using assms unfolding uses_def by blast+

lemma uses_mono:
  assumes "uses n m" "n \<le> n'" shows "uses n' m"
  unfolding uses_def
proof (intro allI impI)
  fix w w' r assume w: "winv (wl_alloc w)" "m w = (w', r)"
  show "winv (wl_alloc w') \<and> room (wl_alloc w) \<le> room (wl_alloc w') + n' \<and>
      (n' \<le> room (wl_alloc w) \<longrightarrow> r \<noteq> Err OutOfMemory)"
    using usesD[OF assms(1) w] assms(2) by auto
qed

lemma uses_return [intro]: "uses n (st_return a)"
  by (simp add: uses_def)

lemma uses_lift [intro]: "r \<noteq> Err OutOfMemory \<Longrightarrow> uses n (st_lift r)"
  by (simp add: uses_def)

lemma uses_bind:
  assumes m: "uses a m" and f: "\<And>x. uses b (f x)"
  shows "uses (a + b) (st_bind m f)"
  unfolding uses_def
proof (intro allI impI)
  fix w w' r assume w: "winv (wl_alloc w)" and b: "st_bind m f w = (w', r)"
  obtain w1 r1 where mw: "m w = (w1, r1)" by fastforce
  note M = usesD[OF m w mw]
  show "winv (wl_alloc w') \<and> room (wl_alloc w) \<le> room (wl_alloc w') + (a + b) \<and>
      (a + b \<le> room (wl_alloc w) \<longrightarrow> r \<noteq> Err OutOfMemory)"
  proof (cases r1)
    case (Ok x)
    then have "f x w1 = (w', r)" using b mw by simp
    note F = usesD[OF f M(1) this]
    show ?thesis using F M(2) by auto
  qed (use M b mw in auto)
qed

lemma uses_bind_return:
  assumes "uses n m" shows "uses n (st_bind m (\<lambda>x. st_return (g x)))"
proof -
  have "uses (n + 0) (st_bind m (\<lambda>x. st_return (g x)))" by (rule uses_bind[OF assms uses_return])
  then show ?thesis by simp
qed

lemma uses_set_node: "uses 0 (set_node d p node)"
  by (auto simp: uses_def set_node_def wlog_set_def split: outcome.splits)

lemma uses_alloc_node: "uses 1 (alloc_node d ops node)"
  unfolding uses_def
proof (intro allI impI)
  fix w w' r assume w: "winv (wl_alloc w)" and a: "alloc_node d ops node w = (w', r)"
  obtain w1 r1 where wa: "wlog_alloc ops node w = (w1, r1)" by fastforce
  have W: "winv (wl_alloc w1) \<and> room (wl_alloc w) \<le> Suc (room (wl_alloc w1)) \<and> (0 < room (wl_alloc w) \<longrightarrow> (\<forall>e. r1 \<noteq> Err e))"
  proof (cases "wl_freed w = []")
    case True
    obtain s2 r2 where al: "al_alloc ops node (wl_alloc w) = (s2, r2)" by fastforce
    have "wl_alloc w1 = s2" "r1 = r2"
      using wa True al by (auto simp: wlog_alloc_def split: outcome.splits)
    then show ?thesis using room_keep[OF w al] room_alloc[OF w, of node] al by auto
  next
    case False
    then show ?thesis using wa w by (auto simp: wlog_alloc_freed wlog_set_def)
  qed
  show "winv (wl_alloc w') \<and> room (wl_alloc w) \<le> room (wl_alloc w') + 1 \<and>
      (1 \<le> room (wl_alloc w) \<longrightarrow> r \<noteq> Err OutOfMemory)"
    using a wa W w by (auto simp: alloc_node_def split: outcome.splits)
qed

lemma uses_insert_chunks: "uses (length cs) (insert_chunks d ops cs p h)"
proof (induction cs arbitrary: p h)
  case Nil
  then show ?case by (simp add: uses_def)
next
  case (Cons c cs)
  have "uses (1 + length cs) (st_bind (alloc_node d ops (raw_extension c child))
      (\<lambda>(p, h). insert_chunks d ops cs (Some p) h))" for child
    by (rule uses_bind[OF uses_alloc_node]) (use Cons in \<open>auto split: prod.splits\<close>)
  moreover have "insert_chunks d ops (c # cs) p h = st_bind (alloc_node d ops (raw_extension c
      (case p of None \<Rightarrow> RefValue False h | Some _ \<Rightarrow> RefNode p h))) (\<lambda>(p, h). insert_chunks d ops cs (Some p) h)"
    by (simp add: fun_eq_iff Let_def)
  ultimately show ?case by simp
qed

lemma uses_insert_value:
  assumes "slice_inv key" shows "uses (chunks_len key) (insert_value d ops v key)"
  unfolding insert_value_def case_prod_unfold length_chunks_rev[OF assms, symmetric]
  by (rule uses_bind_return[OF uses_insert_chunks])

lemma uses_set_split:
  assumes "slice_inv key" shows "uses (chunks_len key + 2) (set_split d ops v our key suffix prefix p child)"
proof -
  have suf: "uses 1 (case ext_key_try_from suffix of
      Ok suffix \<Rightarrow> st_bind (alloc_extension_node d ops suffix child) (\<lambda>(p, h). st_return (RefNode (Some p) h))
    | Err ExtKeyEmpty \<Rightarrow> st_return child | _ \<Rightarrow> st_lift Panic)"
    by (auto simp: alloc_extension_node_def case_prod_unfold split: outcome.splits ext_key_error.splits
        intro: uses_bind_return[OF uses_alloc_node, unfolded One_nat_def])
  have pre: "uses 1 (case prefix of Some k \<Rightarrow> alloc_extension_node d ops k (RefNode (Some q) h) | None \<Rightarrow> st_return (q, h))" for q h
    by (auto simp: alloc_extension_node_def split: option.splits intro: uses_alloc_node[unfolded One_nat_def])
  have br: "uses (0 + 1) (st_bind (set_node d p (raw_branch c0 c1)) (\<lambda>(q, h).
      case prefix of Some k \<Rightarrow> alloc_extension_node d ops k (RefNode (Some q) h) | None \<Rightarrow> st_return (q, h)))" for c0 c1
    by (rule uses_bind[OF uses_set_node]) (use pre in \<open>auto split: prod.splits\<close>)
  have "uses (chunks_len key + (1 + (0 + 1))) (set_split d ops v our key suffix prefix p child)"
    unfolding set_split_def
    by (intro uses_bind[OF uses_insert_value[OF assms]] uses_bind[OF suf]) (use br in \<open>auto simp: Let_def split: prod.splits\<close>)
  then show ?thesis by (simp add: numeral_2_eq_2)
qed

text \<open>The rest of a key never has more chunks than the key.\<close>

lemma pop_front_chunks:
  assumes "slice_inv key" "pop_front key = Some (b, key')"
  shows "slice_inv key'" "chunks_len key' \<le> chunks_len key"
proof -
  show k: "slice_inv key'" by (rule pop_front_Some(1)[OF assms])
  show "chunks_len key' \<le> chunks_len key"
    using pop_front_bytes_len[OF assms] by (simp add: chunks_len_eq k assms(1) div_le_mono)
qed

lemma forward_chunks:
  assumes "slice_inv key" "forward_common_prefix key e = Some (p, q, key')"
  shows "slice_inv key'" "chunks_len key' \<le> chunks_len key"
proof -
  have "key' = key \<or> (\<exists>n h. split_at key n = Some (h, key'))"
    using assms(2) by (auto simp: forward_common_prefix_def pop_front_slice_eq split: option.splits prod.splits if_splits)
  then show k: "slice_inv key'" using assms(1) split_at_Some(2)[OF assms(1)] by blast
  show "chunks_len key' \<le> chunks_len key"
    using \<open>key' = key \<or> (\<exists>n h. split_at key n = Some (h, key'))\<close> split_at_bytes_len(2)[of key]
    by (auto simp: chunks_len_eq k assms(1) intro: div_le_mono)
qed

lemma uses_reference:
  assumes "\<And>p. uses n (handle p)" shows "uses n (set_handle_reference handle v key child)"
  by (auto simp: set_handle_reference_def case_prod_unfold split: reference.splits
      intro: uses_bind_return[OF assms])

lemma uses_set_handle: "slice_inv key \<Longrightarrow> chunks_len key + 2 \<le> n \<Longrightarrow> uses n (set_handle d ops v key nref)"
proof (induction "sl_length key" arbitrary: key nref rule: less_induct)
  case less
  let ?hr = "\<lambda>key child. set_handle_reference (\<lambda>p. set_handle d ops v key p) v key child"
  have rec: "uses n (?hr key' child)" if "sl_length key' < sl_length key" "slice_inv key'" "chunks_len key' \<le> chunks_len key" for key' child
    by (rule uses_reference, rule less.hyps[OF that(1,2)]) (use that(3) less.prems in simp)
  have node: "uses n (st_bind (?hr key' child) (\<lambda>x. set_node d p (g x)))"
    if "sl_length key' < sl_length key" "slice_inv key'" "chunks_len key' \<le> chunks_len key" for key' child p g
    using uses_bind[OF rec[OF that], where f = "\<lambda>x. set_node d p (g x)", OF uses_set_node] by simp
  have branch: "uses n (set_handle_branch d ?hr key p l r)" for p l r
  proof (cases "pop_front key")
    case None
    then show ?thesis by (auto simp: set_handle_branch_def)
  next
    case (Some x)
    obtain b key' where x: "x = (b, key')" by fastforce
    note c = pop_front_chunks[OF less.prems(1) Some[unfolded x]] pop_front_less[OF Some[unfolded x]]
    have eq: "set_handle_branch d ?hr key p l r = st_bind (?hr key' (if b then r else l))
        (\<lambda>owned. set_node d p (if b then raw_branch l (set_to_ref owned) else raw_branch (set_to_ref owned) r))"
      by (cases b) (simp_all add: set_handle_branch_def Some x)
    show ?thesis unfolding eq by (rule node[OF c(3,1,2)])
  qed
  have ext: "uses n (set_handle_extension d ops v ?hr key p e child)" for p e child
  proof (cases "slice_is_empty key \<or> forward_common_prefix key e = None")
    case True
    then show ?thesis by (auto simp: set_handle_extension_def)
  next
    case False
    then obtain pre suf key1 where fc: "forward_common_prefix key e = Some (pre, suf, key1)"
      and ne: "\<not> slice_is_empty key" by (metis not_None_eq surj_pair)
    note c = forward_chunks[OF less.prems(1) fc]
    show ?thesis
    proof (cases suf)
      case None
      then have "sl_length key1 < sl_length key" using forward_common_prefix_less fc by blast
      then show ?thesis using node[OF _ c] None fc ne by (simp add: set_handle_extension_def)
    next
      case (Some q)
      have split: "uses n (set_split d ops v our key2 s2 pre p child)" if "pop_front key1 = Some (our, key2)" for our key2 s2
        by (rule uses_mono[OF uses_set_split])
          (use pop_front_chunks[OF c(1) that] c(2) less.prems(2) in auto)
      show ?thesis using split Some fc ne
        by (auto simp: set_handle_extension_def split: option.splits)
    qed
  qed
  show ?case unfolding uses_def
  proof (intro allI impI)
    fix w w' r assume w: "winv (wl_alloc w)" and h: "set_handle d ops v key nref w = (w', r)"
    show "winv (wl_alloc w') \<and> room (wl_alloc w) \<le> room (wl_alloc w') + n \<and>
        (n \<le> room (wl_alloc w) \<longrightarrow> r \<noteq> Err OutOfMemory)"
      using h w usesD[OF branch w] usesD[OF ext w]
      by (auto simp: set_handle.simps[of d ops v key nref] split: option.splits outcome.splits node.splits)
  qed
qed

lemma set_context_room:
  assumes "slice_inv key" "winv s" "chunks_len key + 2 \<le> room s"
  shows "snd (set_context d ops v key p h s) \<noteq> Err OutOfMemory"
proof -
  have new: "wl_alloc (wlog_new s :: ('s, raw_node) wlog) = s" by (simp add: wlog_new_def)
  have iv: "uses (chunks_len key) (st_bind (insert_value d ops v key)
      (\<lambda>r. case r of SetNode p h \<Rightarrow> st_return (p, h) | SetValue _ \<Rightarrow> st_lift (Err EmptyKey)))"
  proof -
    have "uses (chunks_len key + 0) (st_bind (insert_value d ops v key)
      (\<lambda>r. case r of SetNode p h \<Rightarrow> st_return (p, h) | SetValue _ \<Rightarrow> st_lift (Err EmptyKey)))"
      by (rule uses_bind[OF uses_insert_value[OF assms(1)]])
        (auto intro: uses_return uses_lift split: set_ref.splits)
    then show ?thesis by simp
  qed
  define wr where "wr = (case p of
      Some p \<Rightarrow> set_handle d ops v key (Some p) (wlog_new s)
    | None \<Rightarrow> if h \<noteq> EMPTY_TRIE_ROOT then (wlog_new s, Err Sealed)
        else st_bind (insert_value d ops v key)
          (\<lambda>r. case r of SetNode p h \<Rightarrow> st_return (p, h) | SetValue _ \<Rightarrow> st_lift (Err EmptyKey)) (wlog_new s))"
  obtain w r where wr: "wr = (w, r)" by fastforce
  have "r \<noteq> Err OutOfMemory"
  proof (cases p)
    case None
    then show ?thesis using wr usesD(3)[OF iv, of "wlog_new s" w r] assms new
      by (auto simp: wr_def split: if_splits)
  next
    case (Some q)
    then show ?thesis
      using wr usesD(3)[OF uses_set_handle[OF assms(1) order.refl], of "wlog_new s" d v "Some q" w r] assms new
      by (auto simp: wr_def)
  qed
  then show ?thesis
    unfolding set_context_def Let_def wr_def[symmetric] wr
    by (auto split: outcome.splits option.splits)
qed

lemma trie_set_room:
  assumes "slice_from_bytes key = Some K" "winv (tr_alloc t)" "chunks_len K + 2 \<le> room (tr_alloc t)"
  shows "snd (trie_set d ops key v t) \<noteq> Err OutOfMemory"
  using set_context_room[OF slice_from_bytes_key(1)[OF assms(1)] assms(2,3), of d v "tr_root_ptr t" "tr_root_hash t"] assms(1)
  by (auto simp: trie_set_def trie_set_impl_def split: prod.splits outcome.splits)

end

end
