(* ===== verification/Solana_Data.thy ===== *)
theory Solana_Data
  imports Trie_Room
begin

unbundle bit_operations_syntax

text \<open>
  The bytes that back a trie on Solana, \<^verbatim>\<open>solana/trie/src/data_ref.rs\<close> and
  \<^verbatim>\<open>account.rs\<close>, and the header in front of them, \<^verbatim>\<open>header.rs\<close>. A
  \<open>DataRef\<close> is a record of operations on its own state; the locale
  \<open>data_ref\<close> states what the allocator relies on, and it is interpreted for each
  implementation: fixed buffers, vectors and accounts that a payer can enlarge.
\<close>

section \<open>Data references\<close>

text \<open>
  \<open>dr_bytes\<close> is what \<open>get(..)\<close> returns, \<open>dr_put\<close> the effect of a
  write through \<open>get_mut(..)\<close>; indexed access is defined from them.
\<close>

record 'd data_ops =
  dr_bytes :: "'d \<Rightarrow> byte list"
  dr_put :: "byte list \<Rightarrow> 'd \<Rightarrow> 'd"
  dr_enlarge :: "nat \<Rightarrow> 'd \<Rightarrow> 'd \<times> bool"

definition data_len :: "'d data_ops \<Rightarrow> 'd \<Rightarrow> nat" where
  "data_len D d = length (dr_bytes D d)"

definition data_get :: "'d data_ops \<Rightarrow> 'd \<Rightarrow> nat \<Rightarrow> nat \<Rightarrow> byte list option" where
  "data_get D d from to =
     (if from \<le> to \<and> to \<le> data_len D d then Some (take (to - from) (drop from (dr_bytes D d))) else None)"

definition data_write :: "'d data_ops \<Rightarrow> 'd \<Rightarrow> nat \<Rightarrow> byte list \<Rightarrow> 'd option" where
  "data_write D d from v =
     (if from + length v \<le> data_len D d
      then Some (dr_put D (take from (dr_bytes D d) @ v @ drop (from + length v) (dr_bytes D d)) d)
      else None)"

locale data_ref =
  fixes D :: "'d data_ops" and dinv :: "'d \<Rightarrow> bool"
  assumes put: "dinv d \<Longrightarrow> length bs = length (dr_bytes D d) \<Longrightarrow>
        dinv (dr_put D bs d) \<and> dr_bytes D (dr_put D bs d) = bs"
    and enlarge_True: "dinv d \<Longrightarrow> dr_enlarge D n d = (d', True) \<Longrightarrow>
        dinv d' \<and> n \<le> length (dr_bytes D d') \<and> (\<exists>pad. dr_bytes D d' = dr_bytes D d @ pad)"
    and enlarge_False: "dinv d \<Longrightarrow> dr_enlarge D n d = (d', False) \<Longrightarrow>
        dinv d' \<and> dr_bytes D d' = dr_bytes D d"
begin

lemma write_Some:
  assumes "dinv d" "from + length v \<le> length (dr_bytes D d)"
  obtains d' where "data_write D d from v = Some d'" "dinv d'"
    "dr_bytes D d' = take from (dr_bytes D d) @ v @ drop (from + length v) (dr_bytes D d)"
proof -
  let ?bs = "take from (dr_bytes D d) @ v @ drop (from + length v) (dr_bytes D d)"
  have len: "length ?bs = length (dr_bytes D d)" using assms(2) by simp
  show thesis
  proof (rule that)
    show "data_write D d from v = Some (dr_put D ?bs d)"
      using assms(2) by (simp add: data_write_def data_len_def)
    show "dinv (dr_put D ?bs d)" using put[OF assms(1) len] by blast
    show "dr_bytes D (dr_put D ?bs d) = ?bs" using put[OF assms(1) len] by blast
  qed
qed

end

subsection \<open>Implementations\<close>

text \<open>\<open>[u8]\<close>, \<open>[u8; N]\<close> and \<open>RefMut\<close>: the size is fixed.\<close>

definition slice_data :: "byte list data_ops" where
  "slice_data = \<lparr>dr_bytes = (\<lambda>d. d), dr_put = (\<lambda>bs d. bs), dr_enlarge = (\<lambda>n d. (d, False))\<rparr>"

text \<open>\<open>Vec\<close>: \<open>reserve\<close> says whether \<open>try_reserve\<close> succeeds.\<close>

definition vec_enlarge :: "(nat \<Rightarrow> bool) \<Rightarrow> nat \<Rightarrow> byte list \<Rightarrow> byte list \<times> bool" where
  "vec_enlarge reserve min_size d =
     (let additional = min_size - length d
      in if additional = 0 then (d, True)
         else if reserve additional then (d @ replicate (min_size - length d) 0, True)
         else (d, False))"

definition vec_data :: "(nat \<Rightarrow> bool) \<Rightarrow> byte list data_ops" where
  "vec_data reserve =
     \<lparr>dr_bytes = (\<lambda>d. d), dr_put = (\<lambda>bs d. bs), dr_enlarge = vec_enlarge reserve\<rparr>"

interpretation fixed: data_ref slice_data "\<lambda>_. True"
  by unfold_locales (simp_all add: slice_data_def)

interpretation vec: data_ref "vec_data reserve" "\<lambda>_. True" for reserve
  by unfold_locales (auto simp: vec_data_def vec_enlarge_def Let_def split: if_splits)

text \<open>
  \<open>ResizableAccount\<close>. The runtime places \<open>MAX_PERMITTED_DATA_INCREASE\<close> bytes
  behind the data the account had when the instruction started; \<open>ra_mem\<close> is the
  whole region and \<open>ra_len\<close> the current length. \<open>rent\<close> is the rent sysvar
  (\<open>None\<close> when it is not available) and \<open>invoke\<close> the transfer instruction of
  the system program on the balances of payer and account.
\<close>

record resizable =
  ra_mem :: "byte list"
  ra_len :: nat
  ra_original_len :: nat
  ra_lamports :: nat
  ra_payer :: nat
  ra_borrowed :: bool

definition ensure_minimum_balance ::
  "(nat \<Rightarrow> nat option) \<Rightarrow> (nat \<Rightarrow> nat \<times> nat \<Rightarrow> (nat \<times> nat) option) \<Rightarrow> nat \<Rightarrow> resizable \<Rightarrow> resizable \<times> bool" where
  "ensure_minimum_balance rent invoke new_len a =
     (case rent new_len of
        None \<Rightarrow> (a, False)
      | Some minimum \<Rightarrow>
          (let lamports = minimum - ra_lamports a
           in if lamports = 0 then (a, True)
              else case invoke lamports (ra_payer a, ra_lamports a) of
                None \<Rightarrow> (a, False)
              | Some (payer, account) \<Rightarrow> (a\<lparr>ra_payer := payer, ra_lamports := account\<rparr>, True)))"

definition account_enlarge ::
  "(nat \<Rightarrow> nat option) \<Rightarrow> (nat \<Rightarrow> nat \<times> nat \<Rightarrow> (nat \<times> nat) option) \<Rightarrow> nat \<Rightarrow> resizable \<Rightarrow> resizable \<times> bool" where
  "account_enlarge rent invoke min_size a =
     (if min_size \<le> ra_len a then (a, True)
      else
        let new_len = min (ra_original_len a + MAX_PERMITTED_DATA_INCREASE) MAX_PERMITTED_DATA_LENGTH
        in if min_size > new_len then (a, False)
           else case ensure_minimum_balance rent invoke new_len a of
             (a, False) \<Rightarrow> (a, False)
           | (a, True) \<Rightarrow>
               if ra_borrowed a then (a, False) else (a\<lparr>ra_len := new_len\<rparr>, True))"

definition resizable_data ::
  "(nat \<Rightarrow> nat option) \<Rightarrow> (nat \<Rightarrow> nat \<times> nat \<Rightarrow> (nat \<times> nat) option) \<Rightarrow> resizable data_ops" where
  "resizable_data rent invoke =
     \<lparr>dr_bytes = (\<lambda>a. take (ra_len a) (ra_mem a)),
      dr_put = (\<lambda>bs a. a\<lparr>ra_mem := bs @ drop (ra_len a) (ra_mem a)\<rparr>),
      dr_enlarge = account_enlarge rent invoke\<rparr>"

definition resizable_inv :: "resizable \<Rightarrow> bool" where
  "resizable_inv a \<longleftrightarrow>
     length (ra_mem a) = ra_original_len a + MAX_PERMITTED_DATA_INCREASE \<and> ra_len a \<le> length (ra_mem a)"

lemma ensure_minimum_balance_keeps:
  "ensure_minimum_balance rent invoke n a = (a', b) \<Longrightarrow>
     ra_mem a' = ra_mem a \<and> ra_len a' = ra_len a \<and> ra_original_len a' = ra_original_len a"
  by (auto simp: ensure_minimum_balance_def Let_def split: option.splits if_splits)

lemma account_enlarge_cases:
  assumes "account_enlarge rent invoke n a = (a', b)"
  shows "ra_mem a' = ra_mem a \<and> ra_original_len a' = ra_original_len a \<and>
    (ra_len a' = ra_len a \<and> (b \<longrightarrow> n \<le> ra_len a) \<or>
     b \<and> ra_len a < n \<and> n \<le> ra_len a' \<and>
     ra_len a' = min (ra_original_len a + MAX_PERMITTED_DATA_INCREASE) MAX_PERMITTED_DATA_LENGTH)"
proof -
  let ?n = "min (ra_original_len a + MAX_PERMITTED_DATA_INCREASE) MAX_PERMITTED_DATA_LENGTH"
  obtain a1 b1 where e: "ensure_minimum_balance rent invoke ?n a = (a1, b1)" by fastforce
  show ?thesis using assms ensure_minimum_balance_keeps[OF e] e
    by (auto simp: account_enlarge_def Let_def split: if_splits bool.splits)
qed

interpretation resizable: data_ref "resizable_data rent invoke" resizable_inv for rent invoke
proof
  fix d :: resizable and bs :: "byte list"
  assume "resizable_inv d" "length bs = length (dr_bytes (resizable_data rent invoke) d)"
  then show "resizable_inv (dr_put (resizable_data rent invoke) bs d) \<and>
      dr_bytes (resizable_data rent invoke) (dr_put (resizable_data rent invoke) bs d) = bs"
    by (auto simp: resizable_data_def resizable_inv_def)
next
  fix d d' :: resizable and n
  assume i: "resizable_inv d" and e: "dr_enlarge (resizable_data rent invoke) n d = (d', True)"
  have "account_enlarge rent invoke n d = (d', True)" using e by (simp add: resizable_data_def)
  note c = account_enlarge_cases[OF this]
  have le: "ra_len d \<le> ra_len d'" "ra_len d' \<le> length (ra_mem d)" "n \<le> ra_len d'" 
    using c i by (auto simp: resizable_inv_def)
  have "take (ra_len d') (ra_mem d) = take (ra_len d) (ra_mem d) @ take (ra_len d' - ra_len d) (drop (ra_len d) (ra_mem d))"
    using take_add[of "ra_len d" "ra_len d' - ra_len d" "ra_mem d"] le by simp
  then show "resizable_inv d' \<and> n \<le> length (dr_bytes (resizable_data rent invoke) d') \<and>
      (\<exists>pad. dr_bytes (resizable_data rent invoke) d' = dr_bytes (resizable_data rent invoke) d @ pad)"
    using c i le by (auto simp: resizable_data_def resizable_inv_def)
next
  fix d d' :: resizable and n
  assume i: "resizable_inv d" and e: "dr_enlarge (resizable_data rent invoke) n d = (d', False)"
  have "account_enlarge rent invoke n d = (d', False)" using e by (simp add: resizable_data_def)
  then show "resizable_inv d' \<and> dr_bytes (resizable_data rent invoke) d' = dr_bytes (resizable_data rent invoke) d"
    using account_enlarge_cases[of rent invoke n d d' False] i by (auto simp: resizable_data_def resizable_inv_def)
qed

section \<open>The header\<close>

text \<open>Native integers are little-endian on the targets of the program.\<close>

definition u32_to_ne_bytes :: "32 word \<Rightarrow> byte list" where
  "u32_to_ne_bytes w = to_le 4 (unat w)"

definition u32_from_ne_bytes :: "byte list \<Rightarrow> 32 word" where
  "u32_from_ne_bytes bs = word_of_nat (from_le bs)"

record header =
  hd_root_ptr :: "ptr option"
  hd_root_hash :: hash
  hd_next_block :: "32 word"
  hd_first_free :: "32 word"

definition HEADER_ENCODED_SIZE :: nat where
  "HEADER_ENCODED_SIZE = RAW_NODE_SIZE"

definition MAGIC_UNINITIALISED :: "byte list" where
  "MAGIC_UNINITIALISED = replicate 8 0"

definition MAGIC_V1 :: "byte list" where
  "MAGIC_V1 = [0xd2, 0x97, 0x1f, 0x41, 0x20, 0x4a, 0xd6, 0xed]"

definition header_decode :: "'d data_ops \<Rightarrow> 'd \<Rightarrow> header option" where
  "header_decode D data =
     (case data_get D data 0 HEADER_ENCODED_SIZE of
        None \<Rightarrow> None
      | Some raw \<Rightarrow>
          (let magic = take 8 raw;
               root_ptr = take 4 (drop 8 raw);
               root_hash = take 32 (drop 12 raw);
               next_block = take 4 (drop 44 raw);
               first_free = take 4 (drop 48 raw)
           in if magic = MAGIC_UNINITIALISED
              then Some \<lparr>hd_root_ptr = None, hd_root_hash = EMPTY_TRIE_ROOT,
                         hd_next_block = word_of_nat HEADER_ENCODED_SIZE, hd_first_free = 0\<rparr>
              else if magic = MAGIC_V1
              then (case ptr_new (u32_from_ne_bytes root_ptr) of
                      Ok root_ptr \<Rightarrow>
                        Some \<lparr>hd_root_ptr = root_ptr, hd_root_hash = root_hash,
                              hd_next_block = u32_from_ne_bytes next_block,
                              hd_first_free = u32_from_ne_bytes first_free\<rparr>
                    | _ \<Rightarrow> None)
              else None))"

definition header_encode :: "header \<Rightarrow> byte list" where
  "header_encode hdr =
     (let root_ptr = (case hd_root_ptr hdr of None \<Rightarrow> 0 | Some p \<Rightarrow> p)
      in MAGIC_V1 @ u32_to_ne_bytes root_ptr @ hd_root_hash hdr @ u32_to_ne_bytes (hd_next_block hdr) @
         u32_to_ne_bytes (hd_first_free hdr) @ replicate 20 0)"

lemma u32_ne_round [simp]: "u32_from_ne_bytes (u32_to_ne_bytes w) = w"
  using unsigned_less[of w, where 'a = nat] by (simp add: u32_from_ne_bytes_def u32_to_ne_bytes_def)

lemma length_u32_ne [simp]: "length (u32_to_ne_bytes w) = 4"
  by (simp add: u32_to_ne_bytes_def)

lemma unat_u32_from_ne:
  assumes "length bs = 4" shows "unat (u32_from_ne_bytes bs) = from_le bs"
proof -
  have "from_le bs < 2 ^ 32" using from_le_bound[of bs] assms by simp
  then show ?thesis by (simp add: u32_from_ne_bytes_def unat_of_nat)
qed

definition header_inv :: "header \<Rightarrow> bool" where
  "header_inv hdr \<longleftrightarrow> length (hd_root_hash hdr) = 32 \<and> (case hd_root_ptr hdr of None \<Rightarrow> True | Some p \<Rightarrow> valid_ptr p)"

lemma length_header_encode: "header_inv hdr \<Longrightarrow> length (header_encode hdr) = HEADER_ENCODED_SIZE"
  by (simp add: header_inv_def header_encode_def MAGIC_V1_def HEADER_ENCODED_SIZE_def RAW_NODE_SIZE_def Let_def)

lemma header_decode_encode:
  assumes "header_inv hdr" "dr_bytes D d = header_encode hdr @ rest"
  shows "header_decode D d = Some hdr"
proof -
  define rp where "rp = (case hd_root_ptr hdr of None \<Rightarrow> 0 | Some p \<Rightarrow> p)"
  have h32: "length (hd_root_hash hdr) = 32" using assms(1) by (simp add: header_inv_def)
  have get: "data_get D d 0 HEADER_ENCODED_SIZE = Some (header_encode hdr)"
    using length_header_encode[OF assms(1)] assms(2) by (simp add: data_get_def data_len_def)
  have "hd MAGIC_V1 \<noteq> hd MAGIC_UNINITIALISED" by (simp add: MAGIC_V1_def MAGIC_UNINITIALISED_def)
  then have "MAGIC_V1 \<noteq> MAGIC_UNINITIALISED" by metis
  then have m: "length MAGIC_V1 = 8" "MAGIC_V1 \<noteq> MAGIC_UNINITIALISED" by (auto simp: MAGIC_V1_def)
  have p: "ptr_new rp = Ok (hd_root_ptr hdr)"
    using assms(1) by (auto simp: rp_def ptr_new_def header_inv_def valid_ptr_def split: option.splits)
  show ?thesis
    using m h32 p
    by (simp add: header_decode_def get header_encode_def rp_def[symmetric] Let_def)
qed

end
