(* ===== verification/Solana_Alloc.thy ===== *)
theory Solana_Alloc
  imports Solana_Data
begin

unbundle bit_operations_syntax

text \<open>
  The allocator of the trie account, \<^verbatim>\<open>solana/trie/src/alloc.rs\<close>: blocks of
  72 bytes in the account data after the header, a free list threaded through the
  freed blocks, and a marker of 32 zero bytes that detects double frees. It
  satisfies the contract \<open>raw_allocator\<close> of the trie over every data reference,
  so the theorems about the trie hold for tries stored in accounts.
\<close>

section \<open>Addresses\<close>

type_synonym addr = "32 word"

definition addr_new :: "32 word \<Rightarrow> addr option" where
  "addr_new a = (if a = 0 then None else Some a)"

definition addr_succ :: "addr \<Rightarrow> addr option" where
  "addr_succ a =
     (case checked_add 32 (unat a) RAW_NODE_SIZE of None \<Rightarrow> None | Some n \<Rightarrow> addr_new (word_of_nat n))"

definition addr_range :: "addr \<Rightarrow> nat \<times> nat" where
  "addr_range a = (unat a, unat a + RAW_NODE_SIZE)"

text \<open>\<open>None\<close> is a panic in both conversions.\<close>

definition addr_from_ptr :: "ptr \<Rightarrow> addr option" where
  "addr_from_ptr p =
     (if unat p * RAW_NODE_SIZE < 2 ^ 32 then addr_new (word_of_nat (unat p * RAW_NODE_SIZE)) else None)"

definition ptr_from_addr :: "addr \<Rightarrow> ptr option" where
  "ptr_from_addr a =
     (case ptr_new (a div word_of_nat RAW_NODE_SIZE) of Ok p \<Rightarrow> p | _ \<Rightarrow> None)"

section \<open>The allocator\<close>

record 'd sol_state =
  sa_data :: 'd
  sa_next_block :: addr
  sa_first_free :: "addr option"

definition sol_new :: "'d data_ops \<Rightarrow> 'd \<Rightarrow> ('d sol_state \<times> ptr option \<times> hash) option" where
  "sol_new D data =
     (case header_decode D data of
        None \<Rightarrow> None
      | Some hdr \<Rightarrow>
          (case addr_new (hd_next_block hdr) of
             None \<Rightarrow> None
           | Some next_block \<Rightarrow>
               Some (\<lparr>sa_data = data, sa_next_block = next_block, sa_first_free = addr_new (hd_first_free hdr)\<rparr>,
                     hd_root_ptr hdr, hd_root_hash hdr)))"

text \<open>The outer \<open>None\<close> is a panic.\<close>

definition alloc_from_freelist :: "'d data_ops \<Rightarrow> 'd sol_state \<Rightarrow> ('d sol_state \<times> addr option) option" where
  "alloc_from_freelist D s =
     (case sa_first_free s of
        None \<Rightarrow> Some (s, None)
      | Some addr \<Rightarrow>
          (case data_get D (sa_data s) (unat addr) (unat addr + 4) of
             None \<Rightarrow> None
           | Some next \<Rightarrow> Some (s\<lparr>sa_first_free := addr_new (u32_from_ne_bytes next)\<rparr>, Some addr)))"

definition alloc_next_block :: "'d data_ops \<Rightarrow> 'd sol_state \<Rightarrow> 'd sol_state \<times> addr option" where
  "alloc_next_block D s =
     (let addr = sa_next_block s in
      case addr_succ addr of
        None \<Rightarrow> (s, None)
      | Some next \<Rightarrow>
          (let end = unat next;
               (data, ok) = (if end > data_len D (sa_data s) then dr_enlarge D end (sa_data s) else (sa_data s, True));
               s = s\<lparr>sa_data := data\<rparr>
           in if \<not> ok then (s, None) else (s\<lparr>sa_next_block := next\<rparr>, Some addr)))"

definition sol_get :: "'d data_ops \<Rightarrow> 'd sol_state \<Rightarrow> ptr \<Rightarrow> raw_node option" where
  "sol_get D s p =
     (case addr_from_ptr p of
        None \<Rightarrow> None
      | Some a \<Rightarrow> (case addr_range a of (from, to) \<Rightarrow> data_get D (sa_data s) from to))"

text \<open>\<open>set\<close> is the default method of the trait: a write through \<open>get_mut\<close>.\<close>

definition sol_set :: "'d data_ops \<Rightarrow> 'd sol_state \<Rightarrow> ptr \<Rightarrow> raw_node \<Rightarrow> 'd sol_state option" where
  "sol_set D s p v =
     (case addr_from_ptr p of
        None \<Rightarrow> None
      | Some a \<Rightarrow>
          (case data_write D (sa_data s) (fst (addr_range a)) v of
             None \<Rightarrow> None
           | Some data \<Rightarrow> Some (s\<lparr>sa_data := data\<rparr>)))"

definition sol_alloc :: "'d data_ops \<Rightarrow> raw_node \<Rightarrow> ('d sol_state, unit, ptr) stateful" where
  "sol_alloc D value s =
     (case (case alloc_from_freelist D s of
              None \<Rightarrow> None
            | Some (s, Some a) \<Rightarrow> Some (s, Some a)
            | Some (s, None) \<Rightarrow> Some (alloc_next_block D s)) of
        None \<Rightarrow> (s, Panic)
      | Some (s, None) \<Rightarrow> (s, Err ())
      | Some (s, Some a) \<Rightarrow>
          (case ptr_from_addr a of
             None \<Rightarrow> (s, Panic)
           | Some p \<Rightarrow> (case sol_set D s p value of None \<Rightarrow> (s, Panic) | Some s \<Rightarrow> (s, Ok p))))"

definition free_marker :: "raw_node \<Rightarrow> byte list" where
  "free_marker v = drop 40 v"

definition sol_free :: "'d data_ops \<Rightarrow> 'd sol_state \<Rightarrow> ptr \<Rightarrow> 'd sol_state option" where
  "sol_free D s p =
     (let next_free = u32_to_ne_bytes (case sa_first_free s of None \<Rightarrow> 0 | Some a \<Rightarrow> a) in
      case sol_get D s p of
        None \<Rightarrow> None
      | Some bytes \<Rightarrow>
          if free_marker bytes = replicate 32 0 then None
          else
            (case sol_set D s p (next_free @ take 36 (drop 4 bytes) @ replicate 32 0) of
               None \<Rightarrow> None
             | Some s \<Rightarrow> Some (s\<lparr>sa_first_free := addr_from_ptr p\<rparr>)))"

definition sol_ops :: "'d data_ops \<Rightarrow> ('d sol_state, raw_node) alloc_ops" where
  "sol_ops D = \<lparr>al_alloc = sol_alloc D, al_get = sol_get D, al_set = sol_set D, al_free = sol_free D\<rparr>"

section \<open>Blocks and the free list\<close>

definition block :: "byte list \<Rightarrow> nat \<Rightarrow> raw_node" where
  "block bs k = take 72 (drop (72 * k) bs)"

definition zero_marker :: "raw_node \<Rightarrow> bool" where
  "zero_marker v \<longleftrightarrow> drop 40 v = replicate 32 0"

definition put_block :: "byte list \<Rightarrow> nat \<Rightarrow> raw_node \<Rightarrow> byte list" where
  "put_block bs k v = take (72 * k) bs @ v @ drop (72 * k + length v) bs"

text \<open>The blocks of the free list, from the address of the first.\<close>

fun free_chain :: "byte list \<Rightarrow> nat \<Rightarrow> nat list \<Rightarrow> bool" where
  "free_chain bs a [] \<longleftrightarrow> a = 0"
| "free_chain bs a (k # ks) \<longleftrightarrow> a = 72 * k \<and> k \<noteq> 0 \<and> free_chain bs (from_le (take 4 (block bs k))) ks"

definition first_free_nat :: "addr option \<Rightarrow> nat" where
  "first_free_nat a = (case a of None \<Rightarrow> 0 | Some a \<Rightarrow> unat a)"

text \<open>
  \<open>heap_inv bs next free\<close>: the blocks up to \<open>next\<close> fit into the data, and
  those with a zero marker are exactly the ones on the free list. So each block is
  in use or free, never both and never lost.
\<close>

definition heap_inv :: "byte list \<Rightarrow> nat \<Rightarrow> nat \<Rightarrow> bool" where
  "heap_inv bs next free \<longleftrightarrow>
     (\<exists>n fl. next = 72 * n \<and> 1 \<le> n \<and> next \<le> length bs \<and> next < 2 ^ 32 \<and> distinct fl \<and>
        set fl = {k. 1 \<le> k \<and> k < n \<and> zero_marker (block bs k)} \<and> free_chain bs free fl)"

definition sol_inv :: "'d data_ops \<Rightarrow> ('d \<Rightarrow> bool) \<Rightarrow> 'd sol_state \<Rightarrow> bool" where
  "sol_inv D dinv s \<longleftrightarrow>
     dinv (sa_data s) \<and> sa_first_free s \<noteq> Some 0 \<and>
     heap_inv (dr_bytes D (sa_data s)) (unat (sa_next_block s)) (first_free_nat (sa_first_free s))"

definition sol_live :: "'d data_ops \<Rightarrow> 'd sol_state \<Rightarrow> ptr \<rightharpoonup> raw_node" where
  "sol_live D s p =
     (let b = block (dr_bytes D (sa_data s)) (unat p)
      in if p \<noteq> 0 \<and> 72 * (unat p + 1) \<le> unat (sa_next_block s) \<and> \<not> zero_marker b then Some b else None)"

lemma length_block: "72 * (k + 1) \<le> length bs \<Longrightarrow> length (block bs k) = 72"
  by (simp add: block_def)

lemma length_put_block: "72 * k + length v \<le> length bs \<Longrightarrow> length (put_block bs k v) = length bs"
  by (simp add: put_block_def)

lemma block_put:
  assumes "length v = 72" "72 * (k + 1) \<le> length bs" "72 * (j + 1) \<le> length bs"
  shows "block (put_block bs k v) j = (if j = k then v else block bs j)"
proof (rule nth_equalityI)
  have l: "length (put_block bs k v) = length bs" using assms by (simp add: length_put_block)
  then show len: "length (block (put_block bs k v) j) = length (if j = k then v else block bs j)"
    using assms length_block[of j] by simp
  fix i assume "i < length (block (put_block bs k v) j)"
  then have i: "i < 72" using assms(3) l length_block[of j] by simp
  have "block (put_block bs k v) j ! i = put_block bs k v ! (72 * j + i)"
    using i assms(3) l by (simp add: block_def)
  also have "\<dots> = (if j = k then v else block bs j) ! i"
  proof (cases "j = k")
    case True
    then show ?thesis using i assms by (simp add: put_block_def nth_append)
  next
    case False
    have rhs: "(if j = k then v else block bs j) ! i = bs ! (72 * j + i)"
      using False i assms(3) by (simp add: block_def)
    show ?thesis
    proof (cases "j < k")
      case True
      then have "72 * j + i < 72 * k" using i by linarith
      then show ?thesis unfolding rhs using assms by (simp add: put_block_def nth_append)
    next
      case ge: False
      then obtain e where e: "j = k + 1 + e" using False by (metis add.commute le_Suc_ex linorder_neqE_nat Suc_eq_plus1 Suc_leI)
      have "put_block bs k v ! (72 * j + i) = drop (72 * k + length v) bs ! (72 * e + i)"
        using assms by (simp add: put_block_def nth_append e)
      also have "\<dots> = bs ! (72 * j + i)" using assms i by (simp add: e algebra_simps)
      finally show ?thesis unfolding rhs .
    qed
  qed
  finally show "block (put_block bs k v) j ! i = (if j = k then v else block bs j) ! i" .
qed

lemma block_append: "72 * (j + 1) \<le> length bs \<Longrightarrow> block (bs @ pad) j = block bs j"
  by (simp add: block_def)

lemma free_chain_cong:
  "(\<And>k. k \<in> set ks \<Longrightarrow> block bs k = block bs' k) \<Longrightarrow> free_chain bs a ks = free_chain bs' a ks"
  by (induction ks arbitrary: a) auto

lemma free_chain_addr: "free_chain bs a ks \<Longrightarrow> ks \<noteq> [] \<longleftrightarrow> a \<noteq> 0"
  by (cases ks) auto

lemma heap_invE:
  assumes "heap_inv bs next free"
  obtains n fl where "next = 72 * n" "1 \<le> n" "72 * n \<le> length bs" "72 * n < 2 ^ 32" "distinct fl"
    "set fl = {k. 1 \<le> k \<and> k < n \<and> zero_marker (block bs k)}" "free_chain bs free fl"
  using assms by (auto simp: heap_inv_def)

lemma heap_invI:
  assumes "1 \<le> n" "72 * n \<le> length bs" "72 * n < 2 ^ 32" "distinct fl"
    "set fl = {k. 1 \<le> k \<and> k < n \<and> zero_marker (block bs k)}" "free_chain bs free fl"
  shows "heap_inv bs (72 * n) free"
  using assms unfolding heap_inv_def by blast

text \<open>Overwriting a live block, taking a block off the list, growing and freeing.\<close>

lemma heap_set:
  assumes h: "heap_inv bs next free" and k: "1 \<le> k" "72 * (k + 1) \<le> next" "\<not> zero_marker (block bs k)"
    and v: "length v = 72" "\<not> zero_marker v"
  shows "heap_inv (put_block bs k v) next free"
proof -
  obtain n fl where n: "next = 72 * n" "1 \<le> n" "72 * n \<le> length bs" "72 * n < 2 ^ 32" "distinct fl"
    "set fl = {k. 1 \<le> k \<and> k < n \<and> zero_marker (block bs k)}" "free_chain bs free fl"
    using h by (rule heap_invE)
  have b: "block (put_block bs k v) j = (if j = k then v else block bs j)" if "j < n" for j
    by (rule block_put[OF v(1)]) (use n k that in auto)
  have "free_chain (put_block bs k v) free fl"
    using n(6,7) k b by (subst free_chain_cong[of fl _ bs]) auto
  moreover have "set fl = {j. 1 \<le> j \<and> j < n \<and> zero_marker (block (put_block bs k v) j)}"
    using n(6) b k v by (auto split: if_splits)
  ultimately show ?thesis unfolding n(1) using n k v
    by (intro heap_invI[of n _ fl]) (simp_all add: length_put_block)
qed

lemma heap_pop:
  assumes h: "heap_inv bs next free" and free: "free \<noteq> 0" and v: "length v = 72" "\<not> zero_marker v"
  obtains k where "free = 72 * k" "1 \<le> k" "72 * (k + 1) \<le> next" "zero_marker (block bs k)" "next \<le> length bs"
    "heap_inv (put_block bs k v) next (from_le (take 4 (block bs k)))"
proof -
  obtain n fl where n: "next = 72 * n" "1 \<le> n" "72 * n \<le> length bs" "72 * n < 2 ^ 32" "distinct fl"
    "set fl = {k. 1 \<le> k \<and> k < n \<and> zero_marker (block bs k)}" "free_chain bs free fl"
    using h by (rule heap_invE)
  then obtain k ks where fl: "fl = k # ks" using free_chain_addr[OF n(7)] free by (cases fl) auto
  have k: "1 \<le> k" "k < n" "zero_marker (block bs k)" using n(6) fl by auto
  have b: "block (put_block bs k v) j = (if j = k then v else block bs j)" if "j < n" for j
    by (rule block_put[OF v(1)]) (use n k that in auto)
  have ks: "set ks = {j. 1 \<le> j \<and> j < n \<and> zero_marker (block bs j)} - {k}" using n(5,6) fl by auto
  have "free_chain (put_block bs k v) (from_le (take 4 (block bs k))) ks"
    using n(7) ks b by (subst free_chain_cong[of ks _ bs]) (auto simp: fl)
  moreover have "set ks = {j. 1 \<le> j \<and> j < n \<and> zero_marker (block (put_block bs k v) j)}"
    unfolding ks using b v k by (auto split: if_splits)
  ultimately have "heap_inv (put_block bs k v) next (from_le (take 4 (block bs k)))"
    unfolding n(1) using n k v fl by (intro heap_invI[of n _ ks]) (simp_all add: length_put_block)
  then show thesis using that[of k] k n fl by simp
qed

lemma heap_grow:
  assumes h: "heap_inv bs next free" and bs': "bs' = bs @ pad" "next + 72 \<le> length bs'" "next + 72 < 2 ^ 32"
    and v: "length v = 72" "\<not> zero_marker v" and k: "next = 72 * k"
  shows "heap_inv (put_block bs' k v) (next + 72) free"
proof -
  obtain n fl where n: "next = 72 * n" "1 \<le> n" "72 * n \<le> length bs" "72 * n < 2 ^ 32" "distinct fl"
    "set fl = {k. 1 \<le> k \<and> k < n \<and> zero_marker (block bs k)}" "free_chain bs free fl"
    using h by (rule heap_invE)
  have kn: "k = n" using k n(1) by simp
  have b: "block (put_block bs' k v) j = (if j = k then v else block bs j)" if "j < Suc n" for j
  proof -
    have "block (put_block bs' k v) j = (if j = k then v else block bs' j)"
      by (rule block_put[OF v(1)]) (use n bs' kn that in auto)
    moreover have "block bs' j = block bs j" if "j < n"
      unfolding bs'(1) by (rule block_append) (use n that in auto)
    ultimately show ?thesis using that kn by (cases "j = n") auto
  qed
  have "free_chain (put_block bs' k v) free fl"
    using n(6,7) kn b by (subst free_chain_cong[of fl _ bs]) auto
  moreover have "set fl = {j. 1 \<le> j \<and> j < Suc n \<and> zero_marker (block (put_block bs' k v) j)}"
    unfolding n(6) using b kn v by (auto simp: less_Suc_eq split: if_splits)
  ultimately have "heap_inv (put_block bs' k v) (72 * Suc n) free"
    using n bs' v kn by (intro heap_invI[of "Suc n" _ fl]) (simp_all add: length_put_block)
  then show ?thesis by (simp add: n(1) add.commute)
qed

lemma heap_free:
  assumes h: "heap_inv bs next free" and k: "1 \<le> k" "72 * (k + 1) \<le> next" "\<not> zero_marker (block bs k)"
    and v: "length v = 72" "zero_marker v" "from_le (take 4 v) = free"
  shows "heap_inv (put_block bs k v) next (72 * k)"
proof -
  obtain n fl where n: "next = 72 * n" "1 \<le> n" "72 * n \<le> length bs" "72 * n < 2 ^ 32" "distinct fl"
    "set fl = {k. 1 \<le> k \<and> k < n \<and> zero_marker (block bs k)}" "free_chain bs free fl"
    using h by (rule heap_invE)
  have b: "block (put_block bs k v) j = (if j = k then v else block bs j)" if "j < n" for j
    by (rule block_put[OF v(1)]) (use n k that in auto)
  have nk: "k \<notin> set fl" using n(6) k by auto
  have "free_chain (put_block bs k v) free fl"
    using n(6,7) nk b by (subst free_chain_cong[of fl _ bs]) auto
  then have "free_chain (put_block bs k v) (72 * k) (k # fl)" using b[of k] k n v(3) by simp
  moreover have "set (k # fl) = {j. 1 \<le> j \<and> j < n \<and> zero_marker (block (put_block bs k v) j)}"
    using n(6) b v k n(1) by (auto split: if_splits)
  ultimately show ?thesis unfolding n(1) using n k v nk
    by (intro heap_invI[of n _ "k # fl"]) (simp_all add: length_put_block)
qed

section \<open>The contract\<close>

lemma addr_ptr:
  assumes "p \<noteq> 0" "72 * unat p < 2 ^ 32"
  obtains a where "addr_from_ptr p = Some a" "unat a = 72 * unat p" "a \<noteq> 0"
proof -
  let ?a = "word_of_nat (unat p * 72) :: 32 word"
  have of: "unat (word_of_nat n :: 32 word) = n" if "n < 2 ^ 32" for n using that by (simp add: unat_of_nat)
  have u: "unat ?a = 72 * unat p" using of[of "unat p * 72"] assms(2) by (simp only: mult.commute)
  moreover have "0 < unat p" using assms(1) by (simp add: unat_gt_0)
  ultimately have "?a \<noteq> 0" by (metis mult_eq_0_iff less_irrefl unat_0 zero_neq_numeral)
  then show thesis using u assms(2)
    by (intro that[of ?a]) (simp_all add: addr_from_ptr_def addr_new_def RAW_NODE_SIZE_def mult.commute)
qed

lemma valid_ptr_small: "unat p * 72 < 2 ^ 32 \<Longrightarrow> p \<noteq> 0 \<Longrightarrow> valid_ptr p"
  by (simp add: valid_ptr_def PTR_MAX_def word_le_nat_alt)

lemma ptr_addr:
  assumes "unat a = 72 * k" "1 \<le> k"
  obtains p where "ptr_from_addr a = Some p" "unat p = k" "p \<noteq> 0" "valid_ptr p"
proof -
  let ?p = "a div 72"
  have u: "unat ?p = k" using assms(1) by (simp add: unat_div_distrib)
  then have nz: "?p \<noteq> 0" using assms(2) by (metis not_one_le_zero unat_0)
  have "unat ?p * 72 < 2 ^ 32" using u assms(1) unsigned_less[of a, where 'a = nat] by simp
  then have v: "valid_ptr ?p" using nz by (rule valid_ptr_small)
  then have "ptr_new ?p = Ok (Some ?p)" by (simp add: ptr_new_valid)
  then show thesis using u nz v by (intro that[of ?p]) (simp_all add: ptr_from_addr_def RAW_NODE_SIZE_def)
qed

lemma raw_ok_marker: "raw_ok v \<longleftrightarrow> length v = 72 \<and> \<not> zero_marker v"
  by (simp add: raw_ok_def zero_marker_def RAW_NODE_SIZE_def)

lemma sol_live_Some:
  "sol_live D s p = Some v \<longleftrightarrow>
     p \<noteq> 0 \<and> 72 * (unat p + 1) \<le> unat (sa_next_block s) \<and> v = block (dr_bytes D (sa_data s)) (unat p) \<and>
     \<not> zero_marker v"
  by (auto simp: sol_live_def Let_def)

text \<open>Writing block \<open>p\<close> changes the live map there and nowhere else.\<close>

lemma sol_live_put:
  assumes "dr_bytes D d' = put_block bs (unat p) v" "length v = 72" "p \<noteq> 0"
    "72 * (unat p + 1) \<le> unat nb" "unat nb \<le> length bs"
    and old: "\<And>q. q \<noteq> p \<Longrightarrow> 72 * (unat q + 1) \<le> unat nb \<Longrightarrow> q \<noteq> 0 \<Longrightarrow>
        sol_live D s q = (if zero_marker (block bs (unat q)) then None else Some (block bs (unat q)))"
      "\<And>q. q \<noteq> p \<Longrightarrow> \<not> 72 * (unat q + 1) \<le> unat nb \<or> q = 0 \<Longrightarrow> sol_live D s q = None"
  shows "sol_live D \<lparr>sa_data = d', sa_next_block = nb, sa_first_free = ff\<rparr> =
    (sol_live D s)(p := if zero_marker v then None else Some v)"
proof
  fix q
  show "sol_live D \<lparr>sa_data = d', sa_next_block = nb, sa_first_free = ff\<rparr> q =
    ((sol_live D s)(p := if zero_marker v then None else Some v)) q"
  proof (cases "q \<noteq> 0 \<and> 72 * (unat q + 1) \<le> unat nb")
    case True
    have "block (put_block bs (unat p) v) (unat q) = (if q = p then v else block bs (unat q))"
      using block_put[of v "unat p" bs "unat q"] assms True by (simp add: word_unat_eq_iff)
    then show ?thesis using True old(1)[of q] by (auto simp: sol_live_def Let_def assms(1))
  next
    case False
    then have "q \<noteq> p" using assms(3,4) by auto
    moreover have "sol_live D \<lparr>sa_data = d', sa_next_block = nb, sa_first_free = ff\<rparr> q = None"
      using False by (auto simp: sol_live_def Let_def)
    ultimately show ?thesis using old(2)[of q] False by auto
  qed
qed

context data_ref
begin

abbreviation "bytes s \<equiv> dr_bytes D (sa_data s)"

lemma sol_get_block:
  assumes "p \<noteq> 0" "72 * (unat p + 1) \<le> length (bytes s)" "72 * unat p < 2 ^ 32"
  shows "sol_get D s p = Some (block (bytes s) (unat p))"
proof -
  obtain a where "addr_from_ptr p = Some a" "unat a = 72 * unat p" by (rule addr_ptr[OF assms(1,3)])
  then show ?thesis using assms(2)
    by (simp add: sol_get_def addr_range_def data_get_def data_len_def block_def RAW_NODE_SIZE_def)
qed

lemma sol_set_block:
  assumes "dinv (sa_data s)" "p \<noteq> 0" "72 * (unat p + 1) \<le> length (bytes s)" "72 * unat p < 2 ^ 32" "length v = 72"
  obtains d' where "sol_set D s p v = Some (s\<lparr>sa_data := d'\<rparr>)" "dinv d'"
    "dr_bytes D d' = put_block (bytes s) (unat p) v"
proof -
  obtain a where a: "addr_from_ptr p = Some a" "unat a = 72 * unat p" by (rule addr_ptr[OF assms(2,4)])
  obtain d' where "data_write D (sa_data s) (72 * unat p) v = Some d'" "dinv d'"
    "dr_bytes D d' = take (72 * unat p) (bytes s) @ v @ drop (72 * unat p + length v) (bytes s)"
    by (rule write_Some[OF assms(1), of "72 * unat p" v]) (use assms in simp_all)
  then show thesis using a assms
    by (intro that[of d']) (simp_all add: sol_set_def addr_range_def put_block_def)
qed

lemma sol_invD:
  assumes "sol_inv D dinv s"
  shows "dinv (sa_data s)" "heap_inv (bytes s) (unat (sa_next_block s)) (first_free_nat (sa_first_free s))"
    "unat (sa_next_block s) \<le> length (bytes s)"
  using assms by (auto simp: sol_inv_def heap_inv_def)

lemma live_bounds:
  assumes "sol_inv D dinv s" "p \<in> dom (sol_live D s)"
  shows "p \<noteq> 0" "1 \<le> unat p" "72 * (unat p + 1) \<le> unat (sa_next_block s)" "72 * (unat p + 1) \<le> length (bytes s)"
    "72 * unat p < 2 ^ 32" "\<not> zero_marker (block (bytes s) (unat p))"
proof -
  from assms(2) show p: "p \<noteq> 0" and l: "72 * (unat p + 1) \<le> unat (sa_next_block s)"
    and "\<not> zero_marker (block (bytes s) (unat p))"
    by (auto simp: sol_live_Some)
  show "72 * (unat p + 1) \<le> length (bytes s)" using l sol_invD(3)[OF assms(1)] by linarith
  show "72 * unat p < 2 ^ 32" using l unsigned_less[of "sa_next_block s", where 'a = nat] by simp
  show "1 \<le> unat p" using p by (simp add: Suc_le_eq unat_gt_0)
qed

lemma sol_set_live:
  assumes i: "sol_inv D dinv s" and v: "raw_ok v" and p: "p \<in> dom (sol_live D s)"
  shows "\<exists>s'. sol_set D s p v = Some s' \<and> sol_inv D dinv s' \<and> sol_live D s' = (sol_live D s)(p \<mapsto> v)"
proof -
  note b = live_bounds[OF i p] and I = sol_invD[OF i]
  have v72: "length v = 72" "\<not> zero_marker v" using v by (auto simp: raw_ok_marker)
  obtain d' where d': "sol_set D s p v = Some (s\<lparr>sa_data := d'\<rparr>)" "dinv d'"
    "dr_bytes D d' = put_block (bytes s) (unat p) v" by (rule sol_set_block[OF I(1) b(1,4,5) v72(1)])
  have "heap_inv (dr_bytes D d') (unat (sa_next_block s)) (first_free_nat (sa_first_free s))"
    unfolding d'(3) by (rule heap_set[OF I(2) b(2,3,6) v72])
  then have "sol_inv D dinv (s\<lparr>sa_data := d'\<rparr>)" using i d'(2) by (simp add: sol_inv_def)
  moreover have "sol_live D \<lparr>sa_data = d', sa_next_block = sa_next_block s, sa_first_free = sa_first_free s\<rparr> =
      (sol_live D s)(p := if zero_marker v then None else Some v)"
    by (rule sol_live_put[OF d'(3) v72(1) b(1,3) I(3)]) (auto simp: sol_live_def Let_def)
  moreover have "\<lparr>sa_data = d', sa_next_block = sa_next_block s, sa_first_free = sa_first_free s\<rparr> = s\<lparr>sa_data := d'\<rparr>"
    by simp
  ultimately show ?thesis using d'(1) v72(2) by auto
qed

lemma sol_free_live:
  assumes i: "sol_inv D dinv s" and p: "p \<in> dom (sol_live D s)"
  shows "\<exists>s'. sol_free D s p = Some s' \<and> sol_inv D dinv s' \<and> sol_live D s' = (sol_live D s)(p := None)"
proof -
  note b = live_bounds[OF i p] and I = sol_invD[OF i]
  let ?b = "block (bytes s) (unat p)" and ?ff = "case sa_first_free s of None \<Rightarrow> 0 | Some a \<Rightarrow> a"
  define v where "v = u32_to_ne_bytes ?ff @ take 36 (drop 4 ?b) @ replicate 32 0"
  have l: "length ?b = 72" by (rule length_block[OF b(4)])
  have f: "unat ?ff = first_free_nat (sa_first_free s)" by (simp add: first_free_nat_def split: option.splits)
  have v72: "length v = 72" "zero_marker v" "from_le (take 4 v) = first_free_nat (sa_first_free s)"
    using l unsigned_less[of ?ff, where 'a = nat] by (simp_all add: v_def zero_marker_def u32_to_ne_bytes_def f)
  obtain d' where d': "sol_set D s p v = Some (s\<lparr>sa_data := d'\<rparr>)" "dinv d'"
    "dr_bytes D d' = put_block (bytes s) (unat p) v" by (rule sol_set_block[OF I(1) b(1,4,5) v72(1)])
  obtain a where a: "addr_from_ptr p = Some a" "unat a = 72 * unat p" "a \<noteq> 0" by (rule addr_ptr[OF b(1,5)])
  let ?s = "\<lparr>sa_data = d', sa_next_block = sa_next_block s, sa_first_free = Some a\<rparr>"
  have "sol_free D s p = Some ((s\<lparr>sa_data := d'\<rparr>)\<lparr>sa_first_free := Some a\<rparr>)"
    using d'(1) a(1) b(6)
    by (simp add: sol_free_def Let_def sol_get_block[OF b(1,4,5)] free_marker_def zero_marker_def v_def)
  then have fr: "sol_free D s p = Some ?s" by simp
  have "heap_inv (dr_bytes D d') (unat (sa_next_block s)) (72 * unat p)"
    unfolding d'(3) by (rule heap_free[OF I(2) b(2,3,6) v72])
  then have "sol_inv D dinv ?s" using d'(2) a by (simp add: sol_inv_def first_free_nat_def)
  moreover have "sol_live D ?s = (sol_live D s)(p := if zero_marker v then None else Some v)"
    by (rule sol_live_put[OF d'(3) v72(1) b(1,3) I(3)]) (auto simp: sol_live_def Let_def)
  ultimately show ?thesis using fr v72(2) by simp
qed

lemma alloc_freelist_case:
  assumes i: "sol_inv D dinv s" and v: "raw_ok v" and a: "sa_first_free s = Some a"
  obtains s' p where "sol_alloc D v s = (s', Ok p)" "sol_inv D dinv s'" "sol_live D s p = None"
    "sol_live D s' = (sol_live D s)(p \<mapsto> v)"
proof -
  note I = sol_invD[OF i]
  have v72: "length v = 72" "\<not> zero_marker v" using v by (auto simp: raw_ok_marker)
  have "a \<noteq> 0" using i a by (auto simp: sol_inv_def)
  then have ff: "first_free_nat (sa_first_free s) = unat a" "unat a \<noteq> 0" by (simp_all add: a first_free_nat_def unat_eq_zero)
  obtain k where k: "unat a = 72 * k" "1 \<le> k" "72 * (k + 1) \<le> unat (sa_next_block s)"
    "zero_marker (block (bytes s) k)" "unat (sa_next_block s) \<le> length (bytes s)"
    "heap_inv (put_block (bytes s) k v) (unat (sa_next_block s)) (from_le (take 4 (block (bytes s) k)))"
    by (rule heap_pop[OF I(2)[unfolded ff(1)] ff(2) v72])
  let ?next = "take 4 (block (bytes s) k)"
  have l4: "length ?next = 4" using k length_block[of k "bytes s"] by simp
  have "data_get D (sa_data s) (unat a) (unat a + 4) = Some ?next"
    using k by (simp add: data_get_def data_len_def block_def)
  then have fl: "alloc_from_freelist D s =
      Some (s\<lparr>sa_first_free := addr_new (u32_from_ne_bytes ?next)\<rparr>, Some a)"
    by (simp add: alloc_from_freelist_def a)
  obtain p where p: "ptr_from_addr a = Some p" "unat p = k" "p \<noteq> 0" by (rule ptr_addr[OF k(1,2)])
  let ?s1 = "s\<lparr>sa_first_free := addr_new (u32_from_ne_bytes ?next)\<rparr>"
  obtain d' where d': "sol_set D ?s1 p v = Some (?s1\<lparr>sa_data := d'\<rparr>)" "dinv d'"
    "dr_bytes D d' = put_block (bytes ?s1) (unat p) v"
    by (rule sol_set_block[of ?s1 p v])
      (use I(1) p k v72 unsigned_less[of a, where 'a = nat] in simp_all)
  let ?s2 = "\<lparr>sa_data = d', sa_next_block = sa_next_block s, sa_first_free = addr_new (u32_from_ne_bytes ?next)\<rparr>"
  have "sol_alloc D v s = (?s1\<lparr>sa_data := d'\<rparr>, Ok p)" by (simp add: sol_alloc_def fl p(1) d'(1))
  then have al: "sol_alloc D v s = (?s2, Ok p)" by simp
  have "first_free_nat (addr_new (u32_from_ne_bytes ?next)) = from_le ?next"
    using unat_u32_from_ne[OF l4] by (auto simp: first_free_nat_def addr_new_def)
  then have "sol_inv D dinv ?s2" using k(6) d'(2,3) p(2) by (simp add: sol_inv_def addr_new_def)
  moreover have "sol_live D s p = None" using k(4) p(2) by (simp add: sol_live_def)
  moreover have "sol_live D ?s2 = (sol_live D s)(p := if zero_marker v then None else Some v)"
    by (rule sol_live_put[where bs = "bytes s"]) (use d'(3) v72 p k in \<open>auto simp: sol_live_def Let_def\<close>)
  ultimately show thesis using al v72(2) by (intro that[of ?s2 p]) simp_all
qed

lemma alloc_next_case:
  assumes i: "sol_inv D dinv s" and v: "raw_ok v" and ff: "sa_first_free s = None"
    and a: "sol_alloc D v s = (s', res)"
  shows "sol_inv D dinv s' \<and> (res = Err () \<and> sol_live D s' = sol_live D s \<or>
    (\<exists>p. res = Ok p \<and> sol_live D s p = None \<and> sol_live D s' = (sol_live D s)(p \<mapsto> v)))"
proof -
  note I = sol_invD[OF i]
  have v72: "length v = 72" "\<not> zero_marker v" using v by (auto simp: raw_ok_marker)
  have al: "sol_alloc D v s = (case alloc_next_block D s of (s, None) \<Rightarrow> (s, Err ())
      | (s, Some a) \<Rightarrow> (case ptr_from_addr a of None \<Rightarrow> (s, Panic)
          | Some p \<Rightarrow> (case sol_set D s p v of None \<Rightarrow> (s, Panic) | Some s \<Rightarrow> (s, Ok p))))"
    by (simp add: sol_alloc_def alloc_from_freelist_def ff split: prod.splits)
  obtain n where n: "unat (sa_next_block s) = 72 * n" "1 \<le> n" using I(2) by (auto simp: heap_inv_def)
  show ?thesis
  proof (cases "unat (sa_next_block s) + 72 < 2 ^ 32")
    case False
    then have "alloc_next_block D s = (s, None)"
      by (simp add: alloc_next_block_def addr_succ_def checked_add_def RAW_NODE_SIZE_def Let_def)
    then show ?thesis using a al i by simp
  next
    case fits: True
    define nx where "nx = (word_of_nat (unat (sa_next_block s) + 72) :: 32 word)"
    have nxu: "unat nx = unat (sa_next_block s) + 72" unfolding nx_def unat_of_nat using fits by simp
    then have "nx \<noteq> 0" by auto
    then have succ: "addr_succ (sa_next_block s) = Some nx"
      using fits by (simp add: addr_succ_def checked_add_def RAW_NODE_SIZE_def addr_new_def nx_def)
    obtain d1 ok where en: "(if unat nx > data_len D (sa_data s) then dr_enlarge D (unat nx) (sa_data s)
        else (sa_data s, True)) = (d1, ok)" by fastforce
    have nb: "alloc_next_block D s = (let s = s\<lparr>sa_data := d1\<rparr>
        in if \<not> ok then (s, None) else (s\<lparr>sa_next_block := nx\<rparr>, Some (sa_next_block s)))"
      unfolding alloc_next_block_def Let_def succ option.case en by simp
    show ?thesis
    proof (cases ok)
      case False
      then have d1: "dinv d1" "dr_bytes D d1 = bytes s"
        using en enlarge_False[OF I(1)] by (auto split: if_splits)
      have "s' = s\<lparr>sa_data := d1\<rparr>" "res = Err ()" using a al nb False by simp_all
      moreover have "sol_live D (s\<lparr>sa_data := d1\<rparr>) = sol_live D s"
        by (simp add: sol_live_def fun_eq_iff d1(2))
      ultimately show ?thesis using i d1 by (simp add: sol_inv_def)
    next
      case True
      obtain pad where d1: "dinv d1" "dr_bytes D d1 = bytes s @ pad" "unat nx \<le> length (dr_bytes D d1)"
      proof (cases "unat nx > data_len D (sa_data s)")
        case True
        then show thesis using enlarge_True[OF I(1), of "unat nx" d1] en \<open>ok\<close> that by auto
      next
        case False
        then show thesis using en I(1) that[of "[]"] by (simp add: data_len_def)
      qed
      let ?s1 = "\<lparr>sa_data = d1, sa_next_block = nx, sa_first_free = None\<rparr>"
      have nb1: "alloc_next_block D s = (?s1, Some (sa_next_block s))" using nb True ff by simp
      obtain p where p: "ptr_from_addr (sa_next_block s) = Some p" "unat p = n" "p \<noteq> 0" by (rule ptr_addr[OF n])
      have np: "72 * (unat p + 1) \<le> length (bytes ?s1)" using d1(3) nxu n p(2) by simp
      obtain d' where d': "sol_set D ?s1 p v = Some (?s1\<lparr>sa_data := d'\<rparr>)" "dinv d'"
        "dr_bytes D d' = put_block (bytes ?s1) (unat p) v"
        by (rule sol_set_block[of ?s1 p v]) (use d1(1) p np v72 fits n in simp_all)
      let ?s2 = "\<lparr>sa_data = d', sa_next_block = nx, sa_first_free = None\<rparr>"
      have r: "s' = ?s2" "res = Ok p" using a al nb1 p(1) d'(1) by simp_all
      have "heap_inv (put_block (dr_bytes D d1) n v) (unat (sa_next_block s) + 72) (first_free_nat None)"
        by (rule heap_grow[OF I(2)[unfolded ff] d1(2) _ _ v72 n(1)]) (use d1(3) nxu fits in simp_all)
      then have "sol_inv D dinv ?s2" using d'(2,3) p(2) nxu by (simp add: sol_inv_def)
      moreover have "sol_live D s p = None" using n p(2) by (simp add: sol_live_def)
      moreover have "sol_live D ?s2 = (sol_live D s)(p := if zero_marker v then None else Some v)"
      proof (rule sol_live_put[where bs = "dr_bytes D d1"])
        fix q :: ptr assume q: "q \<noteq> p" "72 * (unat q + 1) \<le> unat nx" "q \<noteq> 0"
        have "unat q \<noteq> n" using q(1) p(2) by (auto simp: word_unat_eq_iff)
        moreover have "unat q \<le> n" using q(2) unfolding nxu n(1) by simp
        ultimately have "unat q + 1 \<le> n" by simp
        then have "72 * (unat q + 1) \<le> unat (sa_next_block s)" unfolding n(1) by simp
        moreover from this have "block (dr_bytes D d1) (unat q) = block (bytes s) (unat q)"
          unfolding d1(2) using I(3) by (intro block_append) linarith
        ultimately show "sol_live D s q =
            (if zero_marker (block (dr_bytes D d1) (unat q)) then None else Some (block (dr_bytes D d1) (unat q)))"
          using q(3) by (simp add: sol_live_def)
      next
        fix q :: ptr assume "\<not> 72 * (unat q + 1) \<le> unat nx \<or> q = 0"
        then show "sol_live D s q = None" using nxu by (auto simp: sol_live_def Let_def)
      qed (use d'(3) v72 p np n nxu d1(3) in auto)
      ultimately show ?thesis using r v72(2) by simp
    qed
  qed
qed

lemma sol_alloc_spec:
  assumes i: "sol_inv D dinv s" and v: "raw_ok v" and a: "sol_alloc D v s = (s', res)"
  shows "sol_inv D dinv s' \<and> (res = Err () \<and> sol_live D s' = sol_live D s \<or>
    (\<exists>p. res = Ok p \<and> sol_live D s p = None \<and> sol_live D s' = (sol_live D s)(p \<mapsto> v)))"
proof (cases "sa_first_free s")
  case None
  then show ?thesis using alloc_next_case[OF i v _ a] by simp
next
  case (Some x)
  obtain s1 p where "sol_alloc D v s = (s1, Ok p)" "sol_inv D dinv s1" "sol_live D s p = None"
    "sol_live D s1 = (sol_live D s)(p \<mapsto> v)" by (rule alloc_freelist_case[OF i v Some])
  then show ?thesis using a by simp
qed

end

sublocale data_ref \<subseteq> sol: raw_allocator "sol_ops D" "sol_inv D dinv" "sol_live D" raw_ok
proof
  fix s s' :: "'d sol_state" and v p
  assume i: "sol_inv D dinv s" and v: "raw_ok v"
  show "sol_inv D dinv s' \<and> sol_live D s p = None \<and> sol_live D s' = (sol_live D s)(p \<mapsto> v)"
    if "al_alloc (sol_ops D) v s = (s', Ok p)"
    using sol_alloc_spec[OF i v, of s' "Ok p"] that by (simp add: sol_ops_def)
  show "al_alloc (sol_ops D) v s \<noteq> (s', Panic)"
    using sol_alloc_spec[OF i v, of s' Panic] by (auto simp: sol_ops_def)
  show "\<exists>s'. al_set (sol_ops D) s p v = Some s' \<and> sol_inv D dinv s' \<and> sol_live D s' = (sol_live D s)(p \<mapsto> v)"
    if "p \<in> dom (sol_live D s)" using sol_set_live[OF i v that] by (simp add: sol_ops_def)
next
  fix s s' :: "'d sol_state" and v e
  assume i: "sol_inv D dinv s" and v: "raw_ok v" and "al_alloc (sol_ops D) v s = (s', Err e)"
  then show "sol_inv D dinv s' \<and> sol_live D s' = sol_live D s"
    using sol_alloc_spec[OF i v, of s' "Err e"] by (simp add: sol_ops_def)
next
  fix s :: "'d sol_state" and p
  assume i: "sol_inv D dinv s"
  show "\<exists>s'. al_free (sol_ops D) s p = Some s' \<and> sol_inv D dinv s' \<and> sol_live D s' = (sol_live D s)(p := None)"
    if "p \<in> dom (sol_live D s)" using sol_free_live[OF i that] by (simp add: sol_ops_def)
  fix v assume l: "sol_live D s p = Some v"
  have p: "p \<in> dom (sol_live D s)" using l by blast
  note b = live_bounds[OF i p]
  show "al_get (sol_ops D) s p = Some v"
    using sol_get_block[OF b(1,4,5)] l by (simp add: sol_ops_def sol_live_Some)
  show "valid_ptr p \<and> raw_ok v"
    using b(1,5) valid_ptr_small[of p] l length_block[OF b(4)]
    by (auto simp: sol_live_Some raw_ok_marker mult.commute)
qed

section \<open>Room\<close>

text \<open>The blocks that can be had without enlarging the data.\<close>

definition sol_room :: "'d data_ops \<Rightarrow> 'd sol_state \<Rightarrow> nat" where
  "sol_room D s = (min (data_len D (sa_data s)) (2 ^ 32 - 1) - unat (sa_next_block s)) div 72"

lemma addr_succ_fits:
  assumes "unat a + 72 < 2 ^ 32" obtains nx where "addr_succ a = Some nx" "unat nx = unat a + 72"
proof -
  define nx where "nx = (word_of_nat (unat a + 72) :: 32 word)"
  have u: "unat nx = unat a + 72" unfolding nx_def unat_of_nat using assms by simp
  then have "nx \<noteq> 0" by auto
  then have "addr_succ a = Some nx"
    using assms by (simp add: addr_succ_def checked_add_def RAW_NODE_SIZE_def addr_new_def nx_def)
  then show thesis using u by (rule that)
qed

lemma room_mono:
  assumes "m \<le> m'" "n' \<le> n + 72" shows "(m - n) div 72 \<le> Suc ((m' - n') div (72 :: nat))"
proof -
  have "m - n \<le> 72 + (m' - n')" using assms by linarith
  then have "(m - n) div 72 \<le> (72 + (m' - n')) div 72" by (rule div_le_mono)
  then show ?thesis by simp
qed

context data_ref
begin

lemma sol_set_keep:
  assumes "dinv (sa_data s)" "sol_set D s p v = Some s'"
  shows "dinv (sa_data s')" "data_len D (sa_data s') = data_len D (sa_data s)" "sa_next_block s' = sa_next_block s"
proof -
  obtain a d where a: "addr_from_ptr p = Some a" "data_write D (sa_data s) (unat a) v = Some d" "s' = s\<lparr>sa_data := d\<rparr>"
    using assms(2) by (auto simp: sol_set_def addr_range_def split: option.splits)
  have le: "unat a + length v \<le> length (dr_bytes D (sa_data s))"
    using a(2) by (auto simp: data_write_def data_len_def split: if_splits)
  obtain d' where d': "data_write D (sa_data s) (unat a) v = Some d'" "dinv d'"
    "dr_bytes D d' = take (unat a) (dr_bytes D (sa_data s)) @ v @ drop (unat a + length v) (dr_bytes D (sa_data s))"
    by (rule write_Some[OF assms(1) le])
  then show "dinv (sa_data s')" "data_len D (sa_data s') = data_len D (sa_data s)" "sa_next_block s' = sa_next_block s"
    using a le by (simp_all add: data_len_def)
qed

lemma next_block_keep:
  assumes "dinv (sa_data s)" "alloc_next_block D s = (s', r)"
  shows "dinv (sa_data s')" "sol_room D s \<le> Suc (sol_room D s')" "0 < sol_room D s \<Longrightarrow> r \<noteq> None"
proof -
  let ?n = "unat (sa_next_block s)"
  have "dinv (sa_data s') \<and> data_len D (sa_data s) \<le> data_len D (sa_data s') \<and> unat (sa_next_block s') \<le> ?n + 72 \<and>
      (?n + 72 \<le> min (data_len D (sa_data s)) (2 ^ 32 - 1) \<longrightarrow> r \<noteq> None)"
  proof (cases "addr_succ (sa_next_block s)")
    case None
    then have "\<not> ?n + 72 < 2 ^ 32"
      by (metis addr_succ_fits option.distinct(1))
    then show ?thesis using None assms by (auto simp: alloc_next_block_def)
  next
    case (Some nx)
    have lt: "?n + 72 < 2 ^ 32"
      using Some by (auto simp: addr_succ_def checked_add_def RAW_NODE_SIZE_def split: if_splits)
    have nx: "unat nx = ?n + 72"
      by (rule addr_succ_fits[OF lt]) (use Some in simp)
    obtain d1 ok where en: "(if unat nx > data_len D (sa_data s) then dr_enlarge D (unat nx) (sa_data s)
        else (sa_data s, True)) = (d1, ok)" by fastforce
    have an: "alloc_next_block D s = (if \<not> ok then (s\<lparr>sa_data := d1\<rparr>, None)
        else (s\<lparr>sa_data := d1, sa_next_block := nx\<rparr>, Some (sa_next_block s)))"
      unfolding alloc_next_block_def Let_def Some option.case en by simp
    have d1: "dinv d1 \<and> data_len D (sa_data s) \<le> data_len D d1"
      using en assms(1) enlarge_True[OF assms(1), of "unat nx" d1] enlarge_False[OF assms(1), of "unat nx" d1]
      by (cases ok) (auto simp: data_len_def split: if_splits)
    have "ok" if "?n + 72 \<le> data_len D (sa_data s)" using en that nx by (auto split: if_splits)
    then show ?thesis using an assms(2) d1 nx by (cases ok) auto
  qed
  then have k: "dinv (sa_data s')" "data_len D (sa_data s) \<le> data_len D (sa_data s')" "unat (sa_next_block s') \<le> ?n + 72"
    "?n + 72 \<le> min (data_len D (sa_data s)) (2 ^ 32 - 1) \<Longrightarrow> r \<noteq> None" by auto
  show "dinv (sa_data s')" by (rule k(1))
  show "sol_room D s \<le> Suc (sol_room D s')"
    unfolding sol_room_def by (rule room_mono) (use k in auto)
  show "r \<noteq> None" if "0 < sol_room D s"
  proof (rule k(4))
    have "72 \<le> min (data_len D (sa_data s)) (2 ^ 32 - 1) - ?n"
      using that unfolding sol_room_def by (metis div_less less_irrefl not_le)
    then show "?n + 72 \<le> min (data_len D (sa_data s)) (2 ^ 32 - 1)" by linarith
  qed
qed

end

sublocale data_ref \<subseteq> room: roomy_allocator "sol_ops D" "\<lambda>s. dinv (sa_data s)" "sol_room D"
proof
  fix s s' :: "'d sol_state" and v r
  assume d: "dinv (sa_data s)"
  obtain s1 oa where s1: "(case alloc_from_freelist D s of None \<Rightarrow> (s, None)
      | Some (s, Some a) \<Rightarrow> (s, Some a) | Some (s, None) \<Rightarrow> alloc_next_block D s) = (s1, oa)" by fastforce
  have "dinv (sa_data s1) \<and> sol_room D s \<le> Suc (sol_room D s1) \<and>
      (0 < sol_room D s \<longrightarrow> alloc_from_freelist D s \<noteq> None \<longrightarrow> oa \<noteq> None)"
  proof (cases "alloc_from_freelist D s")
    case None
    then show ?thesis using s1 d by simp
  next
    case (Some r1)
    then obtain s2 ob where r1: "alloc_from_freelist D s = Some (s2, ob)" by (cases r1) simp
    have s2: "sa_data s2 = sa_data s" "sa_next_block s2 = sa_next_block s" "ob = None \<Longrightarrow> s2 = s"
      using r1 by (auto simp: alloc_from_freelist_def split: option.splits)
    show ?thesis
    proof (cases ob)
      case None
      then have "alloc_next_block D s = (s1, oa)" using s1 r1 s2 by simp
      then show ?thesis using next_block_keep[OF d] by blast
    next
      case (Some a)
      then have "s1 = s2" "oa = Some a" using s1 r1 by auto
      then show ?thesis using s2 d by (simp add: sol_room_def)
    qed
  qed
  then have k: "dinv (sa_data s1)" "sol_room D s \<le> Suc (sol_room D s1)"
    and ne: "0 < sol_room D s \<Longrightarrow> alloc_from_freelist D s \<noteq> None \<Longrightarrow> oa \<noteq> None" by blast+
  have al: "al_alloc (sol_ops D) v s = (case alloc_from_freelist D s of None \<Rightarrow> (s, Panic) | Some _ \<Rightarrow>
      (case oa of None \<Rightarrow> (s1, Err ()) | Some a \<Rightarrow>
        (case ptr_from_addr a of None \<Rightarrow> (s1, Panic)
         | Some p \<Rightarrow> (case sol_set D s1 p v of None \<Rightarrow> (s1, Panic) | Some s \<Rightarrow> (s, Ok p)))))"
    using s1 by (auto simp: sol_ops_def sol_alloc_def split: option.splits prod.splits)
  show "dinv (sa_data s') \<and> sol_room D s \<le> Suc (sol_room D s')" if "al_alloc (sol_ops D) v s = (s', r)"
    using that al k d sol_set_keep[OF k(1)]
    by (auto simp: sol_room_def split: option.splits)
  fix e
  show "al_alloc (sol_ops D) v s \<noteq> (s', Err e)" if "0 < sol_room D s"
    using al ne[OF that] by (auto split: option.splits)
qed

section \<open>Trie accounts\<close>

text \<open>
  \<open>TrieAccount::new\<close> and its destructor, \<^verbatim>\<open>solana/trie/src/lib.rs\<close>: the trie
  is read from the header and written back when the object is dropped. The witness
  is the root hash with the time stamp; \<open>clock\<close> is the clock sysvar as pair of
  time stamp and slot.
\<close>

record witness =
  wi_trie_root :: hash
  wi_rest :: "byte list"

definition witness_new :: "hash \<Rightarrow> 64 word \<times> 64 word \<Rightarrow> witness" where
  "witness_new trie_root clock =
     (let rest = to_le 8 (unat (fst clock));
          rest = rest[6 := ucast (snd clock)];
          rest = rest[7 := 0]
      in \<lparr>wi_trie_root = trie_root, wi_rest = rest\<rparr>)"

definition witness_decode :: "witness \<Rightarrow> (byte list, hash \<times> nat) outcome" where
  "witness_decode w =
     (if wi_rest w ! 7 \<noteq> 0 then Err (wi_trie_root w @ wi_rest w)
      else Ok (wi_trie_root w, from_le (wi_rest w) mod 2 ^ 48))"

definition account_new :: "'d data_ops \<Rightarrow> 'd \<Rightarrow> 'd sol_state trie option" where
  "account_new D data =
     (case sol_new D data of None \<Rightarrow> None | Some (alloc, p, h) \<Rightarrow> Some (trie_from_parts alloc p h))"

definition account_drop ::
  "'d data_ops \<Rightarrow> 64 word \<times> 64 word \<Rightarrow> 'd sol_state trie \<Rightarrow> witness option \<Rightarrow> ('d \<times> witness option) option" where
  "account_drop D clock t witness =
     (let (alloc, root_ptr, root_hash) = trie_into_parts t;
          witness = map_option (\<lambda>_. witness_new root_hash clock) witness;
          hdr = header_encode \<lparr>hd_root_ptr = root_ptr, hd_root_hash = root_hash,
                  hd_next_block = sa_next_block alloc,
                  hd_first_free = (case sa_first_free alloc of None \<Rightarrow> 0 | Some a \<Rightarrow> a)\<rparr>
      in case data_write D (sa_data alloc) 0 hdr of None \<Rightarrow> None | Some d \<Rightarrow> Some (d, witness))"

lemma heap_header:
  assumes h: "heap_inv bs next free" and v: "length v = 72"
  shows "heap_inv (put_block bs 0 v) next free" "length (put_block bs 0 v) = length bs"
    "1 \<le> k \<Longrightarrow> 72 * (k + 1) \<le> next \<Longrightarrow> block (put_block bs 0 v) k = block bs k"
proof -
  obtain n fl where n: "next = 72 * n" "1 \<le> n" "72 * n \<le> length bs" "72 * n < 2 ^ 32" "distinct fl"
    "set fl = {k. 1 \<le> k \<and> k < n \<and> zero_marker (block bs k)}" "free_chain bs free fl"
    using h by (rule heap_invE)
  have b: "block (put_block bs 0 v) j = block bs j" if "1 \<le> j" "j < n" for j
    using block_put[OF v, of 0 bs j] n that by simp
  then show "1 \<le> k \<Longrightarrow> 72 * (k + 1) \<le> next \<Longrightarrow> block (put_block bs 0 v) k = block bs k" using n by auto
  show l: "length (put_block bs 0 v) = length bs" using length_put_block[of 0 v bs] n v by simp
  have "free_chain (put_block bs 0 v) free fl"
    using n(6,7) b by (subst free_chain_cong[of fl _ bs]) auto
  moreover have "set fl = {j. 1 \<le> j \<and> j < n \<and> zero_marker (block (put_block bs 0 v) j)}"
    using n(6) b by auto
  ultimately show "heap_inv (put_block bs 0 v) next free" unfolding n(1) using n l
    by (intro heap_invI[of n _ fl]) simp_all
qed

lemma trie_content_root:
  assumes "digest_ok d" "trie_content d m p h c"
  shows "length h = 32" "case p of None \<Rightarrow> True | Some p \<Rightarrow> valid_ptr p"
proof -
  show "length h = 32"
    using assms tref_hash_inv[of d 0] by (force simp: trie_content_def hash_inv_def EMPTY_TRIE_ROOT_def split: option.splits)
  show "case p of None \<Rightarrow> True | Some p \<Rightarrow> valid_ptr p"
  proof (cases c)
    case (Some t)
    then show ?thesis using assms(2) by (cases t) (auto simp: trie_content_def)
  qed (use assms(2) in \<open>simp add: trie_content_def\<close>)
qed

context data_ref
begin

text \<open>
  Closing an account and opening it again, in a later transaction that finds the same
  bytes, gives the same trie.
\<close>

lemma account_reopen:
  assumes d: "digest_ok d" and t: "trie_rep d (sol_inv D dinv) (sol_live D) t c"
  obtains data where
    "account_drop D clock t w = Some (data, map_option (\<lambda>_. witness_new (tr_root_hash t) clock) w)" "dinv data"
    "\<And>data'. dinv data' \<Longrightarrow> dr_bytes D data' = dr_bytes D data \<Longrightarrow>
       \<exists>t'. account_new D data' = Some t' \<and> trie_rep d (sol_inv D dinv) (sol_live D) t' c \<and>
         sol_live D (tr_alloc t') = sol_live D (tr_alloc t) \<and>
         tr_root_ptr t' = tr_root_ptr t \<and> tr_root_hash t' = tr_root_hash t"
proof -
  define s where "s = tr_alloc t"
  have i: "sol_inv D dinv s" and c: "trie_content d (sol_live D s) (tr_root_ptr t) (tr_root_hash t) c"
    using t by (auto simp: trie_rep_def s_def)
  note I = sol_invD[OF i]
  let ?ff = "case sa_first_free s of None \<Rightarrow> 0 | Some a \<Rightarrow> a"
  define hdr where "hdr = \<lparr>hd_root_ptr = tr_root_ptr t, hd_root_hash = tr_root_hash t,
    hd_next_block = sa_next_block s, hd_first_free = ?ff\<rparr>"
  have hi: "header_inv hdr" using trie_content_root[OF d c] by (simp add: header_inv_def hdr_def)
  then have h72: "length (header_encode hdr) = 72"
    by (simp add: length_header_encode HEADER_ENCODED_SIZE_def RAW_NODE_SIZE_def)
  have n72: "72 \<le> unat (sa_next_block s)" by (rule heap_invE[OF I(2)]) simp
  obtain data where w: "data_write D (sa_data s) 0 (header_encode hdr) = Some data" "dinv data"
    "dr_bytes D data = take 0 (bytes s) @ header_encode hdr @ drop (0 + length (header_encode hdr)) (bytes s)"
    by (rule write_Some[OF I(1), of 0 "header_encode hdr"]) (use h72 n72 I(3) in auto)
  have bd: "dr_bytes D data = put_block (bytes s) 0 (header_encode hdr)" using w(3) by (simp add: put_block_def)
  note H = heap_header[OF I(2) h72]
  have dr: "account_drop D clock t w = Some (data, map_option (\<lambda>_. witness_new (tr_root_hash t) clock) w)"
    using w(1) by (simp add: account_drop_def trie_into_parts_def Let_def hdr_def s_def)
  have "sa_next_block s \<noteq> 0" using n72 by auto
  moreover have "addr_new ?ff = sa_first_free s"
    using i by (auto simp: addr_new_def sol_inv_def split: option.splits)
  moreover have "header_decode D data' = Some hdr" if "dr_bytes D data' = dr_bytes D data" for data'
    by (rule header_decode_encode[OF hi w(3)[simplified, folded that]])
  ultimately have nw: "account_new D data' = Some \<lparr>tr_root_ptr = tr_root_ptr t, tr_root_hash = tr_root_hash t,
      tr_alloc = s\<lparr>sa_data := data'\<rparr>\<rparr>" if "dr_bytes D data' = dr_bytes D data" for data'
    using that by (simp add: account_new_def sol_new_def hdr_def addr_new_def trie_from_parts_def)
  have lv: "sol_live D (s\<lparr>sa_data := data'\<rparr>) = sol_live D s" if b': "dr_bytes D data' = dr_bytes D data" for data'
  proof
    fix q
    show "sol_live D (s\<lparr>sa_data := data'\<rparr>) q = sol_live D s q"
    proof (cases "q \<noteq> 0 \<and> 72 * (unat q + 1) \<le> unat (sa_next_block s)")
      case True
      then have "1 \<le> unat q" by (simp add: Suc_le_eq unat_gt_0)
      then show ?thesis using H(3)[of "unat q"] True by (simp add: sol_live_def bd b')
    qed (auto simp: sol_live_def Let_def)
  qed
  show thesis
  proof (rule that[OF dr w(2)])
    fix data' assume d': "dinv data'" "dr_bytes D data' = dr_bytes D data"
    have "sol_inv D dinv (s\<lparr>sa_data := data'\<rparr>)" using i d' H(1) by (simp add: sol_inv_def bd)
    then show "\<exists>t'. account_new D data' = Some t' \<and> trie_rep d (sol_inv D dinv) (sol_live D) t' c \<and>
         sol_live D (tr_alloc t') = sol_live D (tr_alloc t) \<and>
         tr_root_ptr t' = tr_root_ptr t \<and> tr_root_hash t' = tr_root_hash t"
      using nw[OF d'(2)] lv[OF d'(2)] c by (simp add: trie_rep_def s_def)
  qed
qed

text \<open>Zeroed data of at least one block is an empty trie.\<close>

lemma account_fresh:
  assumes "dinv data" "dr_bytes D data = replicate n 0" "72 \<le> n"
  obtains t where "account_new D data = Some t" "trie_rep d (sol_inv D dinv) (sol_live D) t None"
    "sol_live D (tr_alloc t) = Map.empty"
proof -
  let ?s = "\<lparr>sa_data = data, sa_next_block = 72, sa_first_free = None\<rparr>"
  have "data_get D data 0 HEADER_ENCODED_SIZE = Some (replicate 72 0)"
    using assms by (simp add: data_get_def data_len_def HEADER_ENCODED_SIZE_def RAW_NODE_SIZE_def)
  then have "account_new D data = Some \<lparr>tr_root_ptr = None, tr_root_hash = EMPTY_TRIE_ROOT, tr_alloc = ?s\<rparr>"
    by (simp add: account_new_def sol_new_def header_decode_def MAGIC_UNINITIALISED_def addr_new_def
        trie_from_parts_def HEADER_ENCODED_SIZE_def RAW_NODE_SIZE_def)
  moreover have "heap_inv (replicate n 0) (72 * 1) 0" by (rule heap_invI[of 1 _ "[]"]) (use assms in auto)
  then have "sol_inv D dinv ?s" using assms by (simp add: sol_inv_def first_free_nat_def)
  moreover have "sol_live D ?s = Map.empty"
  proof
    fix q :: ptr
    show "sol_live D ?s q = None" by (cases "unat q") (simp_all add: sol_live_def unat_eq_zero)
  qed
  ultimately show thesis
    by (intro that[of "\<lparr>tr_root_ptr = None, tr_root_hash = EMPTY_TRIE_ROOT, tr_alloc = ?s\<rparr>"])
      (simp_all add: trie_rep_def trie_content_def)
qed

text \<open>Freeing a block twice in a row is detected.\<close>

lemma double_free:
  assumes "sol_inv D dinv s" "p \<in> dom (sol_live D s)"
  obtains s' where "sol_free D s p = Some s'" "sol_inv D dinv s'" "sol_live D s' = (sol_live D s)(p := None)"
    "sol_free D s' p = None"
proof -
  obtain s' where s': "sol_free D s p = Some s'" "sol_inv D dinv s'" "sol_live D s' = (sol_live D s)(p := None)"
    using sol_free_live[OF assms] by blast
  note b = live_bounds[OF assms]
  have n: "sa_next_block s' = sa_next_block s"
    using s'(1) by (auto simp: sol_free_def sol_set_def Let_def split: option.splits if_splits prod.splits)
  have z: "zero_marker (block (bytes s') (unat p))"
    using fun_cong[OF s'(3), of p] b(1,3) n by (auto simp: sol_live_def Let_def split: if_splits)
  have "72 * (unat p + 1) \<le> length (bytes s')" using b(3) n sol_invD(3)[OF s'(2)] by (metis order.trans)
  then have "sol_get D s' p = Some (block (bytes s') (unat p))" by (rule sol_get_block[OF b(1) _ b(5)])
  then have "sol_free D s' p = None" using z by (simp add: sol_free_def Let_def free_marker_def zero_marker_def)
  then show thesis using s' by (intro that[of s'])
qed

end

section \<open>Properties\<close>

text \<open>
  the time stamp in a witness account survives, up to the 48 bits kept of it, and
  data formatted by \<open>Data::new\<close> is never malformed.
\<close>

lemma witness_roundtrip:
  "witness_decode (witness_new h clock) = Ok (h, unat (fst clock) mod 2 ^ 48)"
proof -
  have "length (to_le 8 (unat (fst clock))) = 8" by simp
  then have "(to_le 8 (unat (fst clock)))[6 := a, 7 := 0] = take 6 (to_le 8 (unat (fst clock))) @ [a, 0]" for a
    by (simp add: list_update_append upd_conv_take_nth_drop)
  then have "from_le ((to_le 8 (unat (fst clock)))[6 := a, 7 := 0]) mod 2 ^ 48 = unat (fst clock) mod 2 ^ 48" for a
    by (simp add: take_to_le from_le_append from_le_to_le_mod)
  then show ?thesis by (simp add: witness_decode_def witness_new_def Let_def)
qed

end
