(* ===== verification/Trie_Steps.thy ===== *)
theory Trie_Steps
  imports Solana_Alloc
begin

text \<open>
  Sequences of operations on a trie. A step runs one of the public mutating
  methods of \<open>Trie\<close>; the states that can be reached from an empty trie keep the
  representation invariant, own exactly the live blocks of the allocator and never
  make an operation panic.
\<close>

datatype trie_op =
  OpSet "byte list" hash | OpSeal "byte list" | OpSetAndSeal "byte list" hash | OpDel "byte list"

definition op_result :: "'t \<times> ('e, 'a) outcome \<Rightarrow> 't \<times> ('e, bool) outcome" where
  "op_result r = (fst r, case snd r of Ok _ \<Rightarrow> Ok True | Err e \<Rightarrow> Err e | Panic \<Rightarrow> Panic)"

fun run_op ::
  "(byte list \<Rightarrow> hash) \<Rightarrow> ('s, raw_node) alloc_ops \<Rightarrow> trie_op \<Rightarrow> ('s trie, trie_error, bool) stateful" where
  "run_op d ops (OpSet key v) t = op_result (trie_set d ops key v t)"
| "run_op d ops (OpSeal key) t = op_result (trie_seal ops key t)"
| "run_op d ops (OpSetAndSeal key v) t = op_result (trie_set_and_seal d ops key v t)"
| "run_op d ops (OpDel key) t = trie_del d ops key t"

fun op_ok :: "trie_op \<Rightarrow> bool" where
  "op_ok (OpSet key v) \<longleftrightarrow> hash_inv v"
| "op_ok (OpSetAndSeal key v) \<longleftrightarrow> hash_inv v"
| "op_ok _ \<longleftrightarrow> True"

inductive trie_reach :: "(byte list \<Rightarrow> hash) \<Rightarrow> ('s, raw_node) alloc_ops \<Rightarrow> 's trie \<Rightarrow> 's trie \<Rightarrow> bool"
  for d ops t0 where
  start: "trie_reach d ops t0 t0"
| step: "trie_reach d ops t0 t \<Longrightarrow> op_ok op \<Longrightarrow> run_op d ops op t = (t', res) \<Longrightarrow> trie_reach d ops t0 t'"

inductive_cases trie_reachE: "trie_reach d ops t0 t"

text \<open>The invariant: a represented content of bounded depth that owns all live blocks.\<close>

definition trie_good ::
  "(byte list \<Rightarrow> hash) \<Rightarrow> ('s \<Rightarrow> bool) \<Rightarrow> ('s \<Rightarrow> ptr \<rightharpoonup> raw_node) \<Rightarrow> 's trie \<Rightarrow> tree option \<Rightarrow> bool" where
  "trie_good d ainv live t c \<longleftrightarrow>
     trie_rep d ainv live t c \<and> content_depth c < 2 ^ 16 \<and> dom (live (tr_alloc t)) = content_ptrs c"

lemma frame_owned:
  assumes "frame m A m' B" "dom m = A" "B \<subseteq> dom m'" shows "dom m' = B"
proof -
  have "m' q = None" if "q \<notin> B" for q
    using spec[OF assms(1)[unfolded frame_def], of q] that assms(2) by (cases "q \<in> A") auto
  then have "dom m' \<subseteq> B" by (metis domIff subsetI)
  then show ?thesis using assms(3) by blast
qed

lemma op_resultD: "op_result x = (t', res) \<Longrightarrow> \<exists>r. x = (t', r) \<and> (res = Panic \<longleftrightarrow> r = Panic)"
  by (cases x) (auto simp: op_result_def split: outcome.splits)

lemma content_set_depth_less:
  "content_set_rel c key v c' \<Longrightarrow> content_depth c < n \<Longrightarrow> length key < n \<Longrightarrow> content_depth c' < n"
  by (rule le_less_trans[OF content_set_depth]) simp_all

lemma content_ptrs_dom: "trie_rep d ainv live t c \<Longrightarrow> content_ptrs c \<subseteq> dom (live (tr_alloc t))"
  by (auto simp: trie_rep_def trie_content_def content_ptrs_def dest!: holds_dom split: option.splits)

lemma key_bits_length: "slice_from_bytes key = Some K \<Longrightarrow> length (key_bits key) < 2 ^ 16"
  using slice_from_bytes_key[of key K] by (metis length_slice_bits slice_inv_def)

lemma run_op_too_long:
  "slice_from_bytes key = None \<Longrightarrow> trie_set d ops key v t = (t, Err KeyTooLong)"
  "slice_from_bytes key = None \<Longrightarrow> trie_set_and_seal d ops key v t = (t, Err KeyTooLong)"
  "slice_from_bytes key = None \<Longrightarrow> trie_del d ops key t = (t, Err KeyTooLong)"
  "slice_from_bytes key = None \<Longrightarrow> \<exists>e. trie_seal ops key t = (t, Err e)"
  by (simp_all add: trie_set_def trie_set_and_seal_def trie_del_def trie_seal_def)

lemma key_bits_inj:
  assumes "key_bits a = key_bits b" shows "a = b"
proof (rule byte_list_eqI)
  have len: "8 * length a = 8 * length b" using arg_cong[OF assms, of length] by (simp add: key_bits_def)
  then show "length a = length b" by simp
  fix i assume "i < 8 * length a"
  then show "bit_at a i = bit_at b i" using arg_cong[OF assms, of "\<lambda>x. x ! i"] len by (simp add: key_bits_def)
qed

context raw_allocator
begin

lemma good_frame:
  assumes "trie_good d ainv live t c" "trie_rep d ainv live t' c'"
    "frame (live (tr_alloc t)) (content_ptrs c) (live (tr_alloc t')) (content_ptrs c')" "content_depth c' < 2 ^ 16"
  shows "trie_good d ainv live t' c'"
  using assms frame_owned[OF assms(3) _ content_ptrs_dom[OF assms(2)]] by (simp add: trie_good_def)

lemma set_good:
  assumes d: "digest_ok d" and v: "hash_inv v" and g: "trie_good d ainv live t c"
    and r: "trie_set d ops key v t = (t', res)"
  shows "res \<noteq> Panic \<and> (\<exists>c'. trie_good d ainv live t' c')"
proof (cases "slice_from_bytes key")
  case None
  then show ?thesis using r g run_op_too_long(1)[OF None, of d ops v t] by auto
next
  case (Some K)
  have t: "trie_rep d ainv live t c" using g by (simp add: trie_good_def)
  note P = trie_set_spec[OF d v t Some r]
  show ?thesis
  proof (cases res)
    case (Ok x)
    with P obtain c' where c': "trie_rep d ainv live t' c'" "content_set_rel c (key_bits key) v c'"
      "frame (live (tr_alloc t)) (content_ptrs c) (live (tr_alloc t')) (content_ptrs c')"
      by (auto simp: trie_set_post_def)
    have "content_depth c' < 2 ^ 16"
      using content_set_depth_less[OF c'(2) _ key_bits_length[OF Some]] g by (simp add: trie_good_def)
    then show ?thesis using good_frame[OF g c'(1,3)] Ok by blast
  qed (use P g in \<open>auto simp: trie_set_post_def trie_good_def\<close>)
qed

lemma seal_good:
  assumes d: "digest_ok d" and g: "trie_good d ainv live t c" and r: "trie_seal ops key t = (t', res)"
  shows "res \<noteq> Panic \<and> (\<exists>c'. trie_good d ainv live t' c')"
proof (cases "slice_from_bytes key")
  case None
  then show ?thesis using r g run_op_too_long(4)[OF None, of ops t] by auto
next
  case (Some K)
  have t: "trie_rep d ainv live t c" using g by (simp add: trie_good_def)
  note P = trie_seal_spec[OF d t Some r]
  show ?thesis
  proof (cases "content_seal d c (key_bits key)")
    case (Ok c')
    then have c': "res = Ok ()" "trie_rep d ainv live t' c'"
      "frame (live (tr_alloc t)) (content_ptrs c) (live (tr_alloc t')) (content_ptrs c')"
      using P by (auto simp: trie_seal_post_def)
    obtain u u' where u: "c = Some u" "tseal d u (key_bits key) = Ok u'" "c' = Some u'"
      using Ok by (auto simp: content_seal_def bind_outcome_Ok split: option.splits)
    have "content_depth c' < 2 ^ 16" using tseal_depth[OF u(2)] g u by (simp add: trie_good_def content_depth_def)
    then show ?thesis using good_frame[OF g c'(2,3)] c'(1) by blast
  qed (use P g in \<open>auto simp: trie_seal_post_def\<close>)
qed

lemma del_good:
  assumes d: "digest_ok d" and g: "trie_good d ainv live t c" and r: "trie_del d ops key t = (t', res)"
  shows "res \<noteq> Panic \<and> (\<exists>c'. trie_good d ainv live t' c')"
proof (cases "slice_from_bytes key")
  case None
  then show ?thesis using r g run_op_too_long(3)[OF None, of d ops t] by auto
next
  case (Some K)
  have t: "trie_rep d ainv live t c" and dep: "content_depth c < 2 ^ 16" using g by (simp_all add: trie_good_def)
  note P = trie_del_spec[OF d t dep Some r]
  consider "res = Panic" | e where "res = Err e" | "res = Ok False" | "res = Ok True"
    by (metis outcome.exhaust)
  then show ?thesis
  proof cases
    case 4
    with P obtain c' where c': "trie_rep d ainv live t' c'" "content_depth c' \<le> content_depth c"
      "frame (live (tr_alloc t)) (content_ptrs c) (live (tr_alloc t')) (content_ptrs c')"
      by (auto simp: trie_del_post_def)
    then show ?thesis using good_frame[OF g c'(1,3)] dep 4 by (meson le_less_trans outcome.distinct(3))
  qed (use P g in \<open>auto simp: trie_del_post_def trie_good_def trie_same_def\<close>)
qed

lemma set_and_seal_good:
  assumes d: "digest_ok d" and v: "hash_inv v" and g: "trie_good d ainv live t c"
    and r: "trie_set_and_seal d ops key v t = (t', res)"
  shows "res \<noteq> Panic \<and> (\<exists>c'. trie_good d ainv live t' c')"
proof (cases "slice_from_bytes key")
  case None
  then show ?thesis using r g run_op_too_long(2)[OF None, of d ops v t] by auto
next
  case (Some K)
  have t: "trie_rep d ainv live t c" using g by (simp add: trie_good_def)
  from trie_set_and_seal_spec[OF d v t Some r] show ?thesis
  proof (elim disjE exE conjE)
    fix e assume "res = Err e" "trie_set_post d ainv live t c (key_bits key) v t' (Err e)"
    then show ?thesis using g by (auto simp: trie_set_post_def trie_good_def)
  next
    fix u1 u2 assume u: "res = Ok ()" "content_set_rel c (key_bits key) v (Some u1)" "tseal d u1 (key_bits key) = Ok u2"
      "trie_rep d ainv live t' (Some u2)"
      "frame (live (tr_alloc t)) (content_ptrs c) (live (tr_alloc t')) (set (tptrs u2))"
    have "tdepth u2 < 2 ^ 16"
      using content_set_depth_less[OF u(2) _ key_bits_length[OF Some]] tseal_depth[OF u(3)] g
      by (simp add: trie_good_def content_depth_def)
    then have "trie_good d ainv live t' (Some u2)"
      using good_frame[OF g u(4)] u(5) by (simp add: content_ptrs_def content_depth_def)
    then show ?thesis using u(1) by blast
  qed
qed

lemma run_op_good:
  assumes d: "digest_ok d" and g: "trie_good d ainv live t c" and "op_ok op" "run_op d ops op t = (t', res)"
  shows "res \<noteq> Panic \<and> (\<exists>c'. trie_good d ainv live t' c')"
proof (cases op)
  case (OpSet key v)
  then show ?thesis using assms(3,4) set_good[OF d _ g, of v key] by (auto dest!: op_resultD)
next
  case (OpSeal key)
  then show ?thesis using assms(3,4) seal_good[OF d g, of key] by (auto dest!: op_resultD)
next
  case (OpSetAndSeal key v)
  then show ?thesis using assms(3,4) set_and_seal_good[OF d _ g, of v key] by (auto dest!: op_resultD)
next
  case (OpDel key)
  then show ?thesis using assms(4) del_good[OF d g, of key] by simp
qed

lemma reach_good:
  assumes d: "digest_ok d" and r: "trie_reach d ops t0 t" and g0: "trie_good d ainv live t0 c0"
  shows "\<exists>c. trie_good d ainv live t c"
  using r
proof induction
  case start
  then show ?case using g0 by blast
next
  case (step t op t' res)
  then show ?case using run_op_good[OF d] by blast
qed

section \<open>What a client observes\<close>

lemma reads_live: "ainv s \<Longrightarrow> reads (al_get ops s) (live s)"
  by (simp add: reads_def get_live)

lemma trie_get_spec:
  assumes "digest_ok d" "trie_rep d ainv live t c" "slice_from_bytes key = Some K"
  shows "trie_get ops t key = content_get c (key_bits key)"
  using get_impl_no_proof[OF assms(1) reads_live _ assms(3)] assms(2) by (simp add: trie_get_def trie_rep_def)

lemma trie_get_too_long: "slice_from_bytes key = None \<Longrightarrow> trie_get ops t key = Err KeyTooLong"
  by (simp add: trie_get_def key_too_long)

lemma trie_get_eqI:
  assumes "digest_ok d" "trie_rep d ainv live t c" "trie_rep d ainv live t' c'"
    and "content_get c' (key_bits k) = content_get c (key_bits k)"
  shows "trie_get ops t' k = trie_get ops t k"
  by (cases "slice_from_bytes k")
    (use assms in \<open>auto simp: trie_get_spec[OF assms(1,2)] trie_get_spec[OF assms(1,3)] trie_get_too_long\<close>)

lemma get_after_set:
  assumes d: "digest_ok d" and v: "hash_inv v" and t: "trie_rep d ainv live t c"
    and r: "trie_set d ops key v t = (t', Ok ())"
  shows "trie_get ops t' key = Ok (Some v)" "k \<noteq> key \<Longrightarrow> trie_get ops t' k = trie_get ops t k"
proof -
  obtain K where k: "slice_from_bytes key = Some K" using r by (cases "slice_from_bytes key") (auto simp: trie_set_def)
  from trie_set_spec[OF d v t k r] obtain c' where c': "trie_rep d ainv live t' c'" "content_set_rel c (key_bits key) v c'"
    by (auto simp: trie_set_post_def)
  show "trie_get ops t' key = Ok (Some v)"
    using trie_get_spec[OF d c'(1) k] c'(2) by (simp add: content_set_rel_def)
  show "trie_get ops t' k = trie_get ops t k" if "k \<noteq> key"
  proof (rule trie_get_eqI[OF d t c'(1)])
    have "key_bits k \<noteq> key_bits key" using that by (metis key_bits_inj)
    then show "content_get c' (key_bits k) = content_get c (key_bits k)" using c'(2) by (simp add: content_set_rel_def)
  qed
qed

lemma get_after_failed_set:
  assumes d: "digest_ok d" and v: "hash_inv v" and t: "trie_rep d ainv live t c"
    and r: "trie_set d ops key v t = (t', Err e)"
  shows "trie_get ops t' k = trie_get ops t k" "tr_root_hash t' = tr_root_hash t"
    "live (tr_alloc t') = live (tr_alloc t)"
proof -
  have "trie_rep d ainv live t' c \<and> trie_same live t t'"
  proof (cases "slice_from_bytes key")
    case None
    then show ?thesis using r t run_op_too_long(1)[OF None, of d ops v t] by (simp add: trie_same_def)
  next
    case (Some K)
    from trie_set_spec[OF d v t Some r] show ?thesis by (simp add: trie_set_post_def trie_same_def)
  qed
  then show "trie_get ops t' k = trie_get ops t k" "tr_root_hash t' = tr_root_hash t"
    "live (tr_alloc t') = live (tr_alloc t)"
    using trie_get_eqI[OF d t] by (auto simp: trie_same_def)
qed

lemma get_after_seal:
  assumes d: "digest_ok d" and t: "trie_rep d ainv live t c" and r: "trie_seal ops key t = (t', Ok ())"
  shows "trie_get ops t' key = Err Sealed" "tr_root_hash t' = tr_root_hash t"
    "k \<noteq> key \<Longrightarrow> trie_get ops t k = Ok (Some v) \<Longrightarrow> trie_get ops t' k = Ok (Some v)"
    "trie_get ops t k = Err Sealed \<Longrightarrow> trie_get ops t' k = Err Sealed"
proof -
  obtain K where k: "slice_from_bytes key = Some K"
    using r by (cases "slice_from_bytes key") (auto simp: trie_seal_def split: if_splits)
  from trie_seal_spec[OF d t k r] obtain u u' where u: "c = Some u" "tseal d u (key_bits key) = Ok u'"
    "trie_rep d ainv live t' (Some u')" "tr_root_hash t' = tr_root_hash t"
    by (auto simp: trie_seal_post_def content_seal_def bind_outcome_Ok split: outcome.splits option.splits)
  note o = tseal_get[OF u(2)]
  show "trie_get ops t' key = Err Sealed"
    using trie_get_spec[OF d u(3) k] spec[OF conjunct1[OF o[unfolded only_sealed_def]], of "[]"] by (simp add: content_get_def)
  show "tr_root_hash t' = tr_root_hash t" by (rule u(4))
  have g: "trie_get ops t k = tget u (key_bits k)" "trie_get ops t' k = tget u' (key_bits k)"
    if "slice_from_bytes k = Some K'" for k K'
    using trie_get_spec[OF d t that] trie_get_spec[OF d u(3) that] u(1) by (simp_all add: content_get_def)
  have other: "tget u' (key_bits k) = tget u (key_bits k) \<or> tget u (key_bits k) = Ok None \<and> tget u' (key_bits k) = Err Sealed"
    if "k \<noteq> key" for k
  proof -
    have "key_bits k \<noteq> key_bits key" using that by (metis key_bits_inj)
    then show ?thesis using o unfolding only_sealed_def by blast
  qed
  show "trie_get ops t' k = Ok (Some v)" if "k \<noteq> key" "trie_get ops t k = Ok (Some v)"
  proof (cases "slice_from_bytes k")
    case (Some K')
    then show ?thesis using g[OF Some] other[OF that(1)] that(2) by auto
  qed (use that(2) in \<open>simp add: trie_get_too_long\<close>)
  show "trie_get ops t' k = Err Sealed" if "trie_get ops t k = Err Sealed"
  proof (cases "slice_from_bytes k")
    case (Some K')
    show ?thesis
    proof (cases "k = key")
      case True
      then show ?thesis using \<open>trie_get ops t' key = Err Sealed\<close> by simp
    next
      case False
      then show ?thesis using g[OF Some] other[OF False] that by auto
    qed
  qed (use that in \<open>simp add: trie_get_too_long\<close>)
qed

lemma tdel_err_NotFound: "tdel_err t key = Some NotFound \<Longrightarrow> tget t key = Ok None"
proof (induction t arbitrary: key)
  case (TBranch p l r)
  then show ?case by (cases key) (auto split: if_splits)
qed (auto split: if_splits)

lemma get_after_del:
  assumes d: "digest_ok d" and t: "trie_rep d ainv live t c" and dep: "content_depth c < 2 ^ 16"
    and r: "trie_del d ops key t = (t', Ok found)"
  shows "trie_get ops t' key = Ok None" "k \<noteq> key \<Longrightarrow> trie_get ops t' k = trie_get ops t k"
    "found \<longleftrightarrow> trie_get ops t key \<noteq> Ok None"
proof -
  obtain K where k: "slice_from_bytes key = Some K"
    using r by (cases "slice_from_bytes key") (auto simp: trie_del_def)
  note P = trie_del_spec[OF d t dep k r]
  have gt: "trie_get ops t key = content_get c (key_bits key)" by (rule trie_get_spec[OF d t k])
  have "\<exists>c'. trie_rep d ainv live t' c' \<and> content_get c' (key_bits key) = Ok None \<and>
      (\<forall>x. x \<noteq> key_bits key \<longrightarrow> content_get c' x = content_get c x) \<and> (found \<longleftrightarrow> content_get c (key_bits key) \<noteq> Ok None)"
  proof (cases found)
    case True
    with P obtain c' where "trie_rep d ainv live t' c'" "del_rel (content_get c) (key_bits key) (content_get c')"
      "content_del_err c (key_bits key) = None" by (auto simp: trie_del_post_def)
    moreover have "content_get c (key_bits key) \<noteq> Ok None"
      using calculation(3) tdel_err_found by (cases c) (auto simp: content_del_err_def content_get_def dest!: tdel_err_found)
    ultimately show ?thesis using True by (auto simp: del_rel_def)
  next
    case False
    with P have "content_del_err c (key_bits key) = Some NotFound" "trie_rep d ainv live t' c"
      by (auto simp: trie_del_post_def)
    moreover have "content_get c (key_bits key) = Ok None"
      using calculation(1) tdel_err_NotFound by (auto simp: content_del_err_def content_get_def split: option.splits)
    ultimately show ?thesis using False by auto
  qed
  then obtain c' where c': "trie_rep d ainv live t' c'" "content_get c' (key_bits key) = Ok None"
    "\<And>x. x \<noteq> key_bits key \<Longrightarrow> content_get c' x = content_get c x" "found \<longleftrightarrow> content_get c (key_bits key) \<noteq> Ok None" by blast
  show "trie_get ops t' key = Ok None" using trie_get_spec[OF d c'(1) k] c'(2) by simp
  show "found \<longleftrightarrow> trie_get ops t key \<noteq> Ok None" using gt c'(4) by simp
  show "trie_get ops t' k = trie_get ops t k" if "k \<noteq> key"
  proof (rule trie_get_eqI[OF d t c'(1)])
    have "key_bits k \<noteq> key_bits key" using that by (metis key_bits_inj)
    then show "content_get c' (key_bits k) = content_get c (key_bits k)" by (rule c'(3))
  qed
qed

lemma prove_verifies:
  assumes d: "digest_ok d" and t: "trie_rep d ainv live t c"
    and p: "trie_prove ops t key = Ok (v, prf)"
  shows "proof_verify d prf (tr_root_hash t) key v" "trie_get ops t key = Ok v"
proof -
  obtain K where k: "slice_from_bytes key = Some K"
    using p by (cases "slice_from_bytes key") (auto simp: trie_prove_def get_impl_def)
  have c: "trie_content d (live (tr_alloc t)) (tr_root_ptr t) (tr_root_hash t) c" and a: "ainv (tr_alloc t)"
    using t by (auto simp: trie_rep_def)
  obtain m where e: "content_expands d c m" using content_expands_ex[OF c] by blast
  obtain pr where g: "get_impl (al_get ops (tr_alloc t)) (tr_root_ptr t) (tr_root_hash t) key True = Ok (v, pr)" "pr = Some prf"
    using p by (auto simp: trie_prove_def bind_outcome_Ok unwrap_option_def split: option.splits)
  show "proof_verify d prf (tr_root_hash t) key v"
    using get_impl_proof[OF d reads_live[OF a] c k e g(1)] g(2) by auto
  show "trie_get ops t key = Ok v"
  proof (cases c)
    case None
    then show ?thesis using g(1) c get_impl_empty[OF k] trie_get_spec[OF d t k]
      by (simp add: content_get_def trie_content_def)
  next
    case (Some u)
    then have "get_result d u (key_bits key) (Some []) (Ok (v, pr))"
      using get_impl_spec[OF d reads_live[OF a] c[unfolded Some] k, where prove = True] g(1) by simp
    then have "tget u (key_bits key) = Ok v" by (auto simp: get_result_def split: outcome.splits)
    then show ?thesis using trie_get_spec[OF d t k] Some by (simp add: content_get_def)
  qed
qed

end

section \<open>Further consequences\<close>

lemma content_del_found: "content_get c key = Ok (Some v) \<Longrightarrow> content_del_err c key = None"
proof -
  have "tget t key = Ok (Some v) \<Longrightarrow> tdel_err t key = None" for t
  proof (induction t arbitrary: key)
    case (TBranch p l r)
    then show ?case by (cases key) (auto split: if_splits)
  qed (auto split: if_splits)
  then show "content_get c key = Ok (Some v) \<Longrightarrow> content_del_err c key = None"
    by (auto simp: content_get_def content_del_err_def split: option.splits)
qed

lemma tdel_err_cases: "tdel_err t key = Some e \<Longrightarrow> e = Sealed \<or> e = NotFound"
proof (induction t arbitrary: key)
  case (TBranch p l r)
  then show ?case by (cases key) (auto split: if_splits)
qed (auto split: if_splits)

context raw_allocator
begin

lemma seal_found:
  assumes d: "digest_ok d" and t: "trie_rep d ainv live t c" and g: "trie_get ops t key = Ok (Some v)"
  obtains t' where "trie_seal ops key t = (t', Ok ())"
proof -
  obtain K where k: "slice_from_bytes key = Some K"
    using g by (cases "slice_from_bytes key") (auto simp: trie_get_too_long)
  obtain t' res where r: "trie_seal ops key t = (t', res)" by fastforce
  obtain u where u: "c = Some u" "tget u (key_bits key) = Ok (Some v)"
    using trie_get_spec[OF d t k] g by (auto simp: content_get_def split: option.splits)
  obtain u' where "tseal d u (key_bits key) = Ok u'" using tseal_found[OF u(2)] by blast
  then have "res = Ok ()" using trie_seal_spec[OF d t k r] u by (simp add: trie_seal_post_def content_seal_def)
  then show thesis using r by (intro that[of t']) simp
qed

lemma prove_found:
  assumes d: "digest_ok d" and t: "trie_rep d ainv live t c" and g: "trie_get ops t key = Ok (Some v)"
  obtains pr where "trie_prove ops t key = Ok (Some v, pr)"
proof -
  obtain K where k: "slice_from_bytes key = Some K"
    using g by (cases "slice_from_bytes key") (auto simp: trie_get_too_long)
  obtain u where u: "c = Some u" "tget u (key_bits key) = Ok (Some v)"
    using trie_get_spec[OF d t k] g by (auto simp: content_get_def split: option.splits)
  have a: "ainv (tr_alloc t)"
    and c: "trie_content d (live (tr_alloc t)) (tr_root_ptr t) (tr_root_hash t) (Some u)"
    using t u by (auto simp: trie_rep_def)
  from get_impl_spec[OF d reads_live[OF a] c k, where prove = True] u(2)
  obtain pr where "get_impl (al_get ops (tr_alloc t)) (tr_root_ptr t) (tr_root_hash t) key True = Ok (Some v, Some pr)"
    by (auto simp: get_result_def)
  then show thesis by (intro that[of pr]) (simp add: trie_prove_def unwrap_option_def)
qed

lemma del_error:
  assumes d: "digest_ok d" and t: "trie_rep d ainv live t c" and dep: "content_depth c < 2 ^ 16"
    and r: "trie_del d ops key t = (t', res)"
  shows "res \<noteq> Panic \<and> (\<forall>e. res = Err e \<longrightarrow> (e = KeyTooLong \<or> e = Sealed) \<and>
    tr_root_hash t' = tr_root_hash t \<and> live (tr_alloc t') = live (tr_alloc t))"
proof (cases "slice_from_bytes key")
  case None
  then show ?thesis using r run_op_too_long(3)[OF None, of d ops t] by auto
next
  case (Some K)
  have "e = Sealed \<or> e = NotFound" if "content_del_err c (key_bits key) = Some e" for e
    using that tdel_err_cases by (auto simp: content_del_err_def split: option.splits)
  then show ?thesis using trie_del_spec[OF d t dep Some r]
    by (auto simp: trie_del_post_def trie_same_def split: outcome.splits bool.splits)
qed

lemma set_and_seal_get:
  assumes d: "digest_ok d" and v: "hash_inv v" and t: "trie_rep d ainv live t c"
    and r: "trie_set_and_seal d ops key v t = (t', res)"
  shows "case res of
      Ok _ \<Rightarrow> trie_get ops t' key = Err Sealed \<and>
        (\<forall>k w. k \<noteq> key \<longrightarrow> trie_get ops t k = Ok (Some w) \<longrightarrow> trie_get ops t' k = Ok (Some w))
    | Err e \<Rightarrow> tr_root_hash t' = tr_root_hash t \<and> live (tr_alloc t') = live (tr_alloc t)
    | Panic \<Rightarrow> False"
proof (cases "slice_from_bytes key")
  case None
  then show ?thesis using r run_op_too_long(2)[OF None, of d ops v t] by auto
next
  case (Some K)
  from trie_set_and_seal_spec[OF d v t Some r] show ?thesis
  proof (elim disjE exE conjE)
    fix e assume "res = Err e" "trie_set_post d ainv live t c (key_bits key) v t' (Err e)"
    then show ?thesis by (auto simp: trie_set_post_def)
  next
    fix u1 u2 assume u: "res = Ok ()" "content_set_rel c (key_bits key) v (Some u1)" "tseal d u1 (key_bits key) = Ok u2"
      "trie_rep d ainv live t' (Some u2)"
    note o = tseal_get[OF u(3), unfolded only_sealed_def]
    have "trie_get ops t' key = Err Sealed"
      using trie_get_spec[OF d u(4) Some] spec[OF conjunct1[OF o], of "[]"] by (simp add: content_get_def)
    moreover have "trie_get ops t' k = Ok (Some w)" if k: "k \<noteq> key" "trie_get ops t k = Ok (Some w)" for k w
    proof -
      obtain K' where K': "slice_from_bytes k = Some K'"
        using k(2) by (cases "slice_from_bytes k") (auto simp: trie_get_too_long)
      have ne: "key_bits k \<noteq> key_bits key" using k(1) by (metis key_bits_inj)
      then have "tget u1 (key_bits k) = Ok (Some w)"
        using u(2) trie_get_spec[OF d t K'] k(2) by (simp add: content_set_rel_def content_get_def)
      then have "tget u2 (key_bits k) = Ok (Some w)" using o ne by force
      then show ?thesis using trie_get_spec[OF d u(4) K'] by (simp add: content_get_def)
    qed
    ultimately show ?thesis using u(1) by simp
  qed
qed

end

section \<open>Insertion with room\<close>

context data_ref
begin

text \<open>
  With free blocks behind the header of the heap for the nodes of the key, an insertion
  that the content allows succeeds.
\<close>

lemma set_succeeds:
  assumes d: "digest_ok d" and v: "hash_inv v" and t: "trie_rep d (sol_inv D dinv) (sol_live D) t c"
    and k: "slice_from_bytes key = Some K" and c: "content_set_err c (key_bits key) = None"
    and room: "chunks_len K + 2 \<le> sol_room D (tr_alloc t)"
  obtains t' where "trie_set d (sol_ops D) key v t = (t', Ok ())"
proof -
  obtain t' res where r: "trie_set d (sol_ops D) key v t = (t', res)" by fastforce
  have "dinv (sa_data (tr_alloc t))" using t by (simp add: trie_rep_def sol_inv_def)
  then have "res \<noteq> Err OutOfMemory" using room.trie_set_room[OF k _ room, of d v] r by simp
  then have "res = Ok ()" using sol.trie_set_spec[OF d v t k r] c
    by (cases res) (auto simp: trie_set_post_def)
  then show thesis using r by (intro that[of t']) simp
qed

end

section \<open>Accounts over their life\<close>

text \<open>
  A trie account on Solana: its zeroed data is opened as an empty trie, operations
  change it, and between transactions the object is dropped and the account opened
  again with the same bytes, by when the balances and the room for growth may differ.
\<close>

inductive account_reach ::
  "(byte list \<Rightarrow> hash) \<Rightarrow> (nat \<Rightarrow> nat option) \<Rightarrow> (nat \<Rightarrow> nat \<times> nat \<Rightarrow> (nat \<times> nat) option) \<Rightarrow>
   resizable sol_state trie \<Rightarrow> bool"
  for d rent invoke where
  fresh: "resizable_inv data \<Longrightarrow> dr_bytes (resizable_data rent invoke) data = replicate n 0 \<Longrightarrow> 72 \<le> n \<Longrightarrow>
    account_new (resizable_data rent invoke) data = Some t \<Longrightarrow> account_reach d rent invoke t"
| op: "account_reach d rent invoke t \<Longrightarrow> op_ok op \<Longrightarrow>
    run_op d (sol_ops (resizable_data rent invoke)) op t = (t', res) \<Longrightarrow> account_reach d rent invoke t'"
| reopen: "account_reach d rent invoke t \<Longrightarrow>
    account_drop (resizable_data rent invoke) clock t w = Some (data, w') \<Longrightarrow>
    resizable_inv data' \<Longrightarrow>
    dr_bytes (resizable_data rent invoke) data' = dr_bytes (resizable_data rent invoke) data \<Longrightarrow>
    account_new (resizable_data rent invoke) data' = Some t' \<Longrightarrow> account_reach d rent invoke t'"

definition account_good ::
  "(byte list \<Rightarrow> hash) \<Rightarrow> (nat \<Rightarrow> nat option) \<Rightarrow> (nat \<Rightarrow> nat \<times> nat \<Rightarrow> (nat \<times> nat) option) \<Rightarrow>
   resizable sol_state trie \<Rightarrow> tree option \<Rightarrow> bool" where
  "account_good d rent invoke =
     trie_good d (sol_inv (resizable_data rent invoke) resizable_inv) (sol_live (resizable_data rent invoke))"

lemma account_goodD:
  assumes "account_good d rent invoke t c"
  shows "trie_rep d (sol_inv (resizable_data rent invoke) resizable_inv) (sol_live (resizable_data rent invoke)) t c"
    "content_depth c < 2 ^ 16" "dom (sol_live (resizable_data rent invoke) (tr_alloc t)) = content_ptrs c"
  using assms by (simp_all add: account_good_def trie_good_def)

lemma account_reach_good:
  assumes "account_reach d rent invoke t" "digest_ok d"
  shows "\<exists>c. account_good d rent invoke t c"
  using assms
proof induction
  case (fresh data n t)
  obtain t1 where "account_new (resizable_data rent invoke) data = Some t1"
    "trie_rep d (sol_inv (resizable_data rent invoke) resizable_inv) (sol_live (resizable_data rent invoke)) t1 None"
    "sol_live (resizable_data rent invoke) (tr_alloc t1) = Map.empty"
    by (rule resizable.account_fresh[OF fresh(1-3)])
  then have "account_good d rent invoke t None"
    using fresh(4) by (simp add: account_good_def trie_good_def content_depth_def content_ptrs_def)
  then show ?case by blast
next
  case (op t op t' res)
  then obtain c where "account_good d rent invoke t c" by blast
  then show ?case using resizable.sol.run_op_good[OF op(5) _ op(2,3)] by (auto simp: account_good_def)
next
  case (reopen t clock w data w' data' t')
  then obtain c where c: "account_good d rent invoke t c" by blast
  obtain data1 where d1: "account_drop (resizable_data rent invoke) clock t w =
      Some (data1, map_option (\<lambda>_. witness_new (tr_root_hash t) clock) w)"
    "\<And>data'. resizable_inv data' \<Longrightarrow>
       dr_bytes (resizable_data rent invoke) data' = dr_bytes (resizable_data rent invoke) data1 \<Longrightarrow>
       \<exists>t'. account_new (resizable_data rent invoke) data' = Some t' \<and>
         trie_rep d (sol_inv (resizable_data rent invoke) resizable_inv) (sol_live (resizable_data rent invoke)) t' c \<and>
         sol_live (resizable_data rent invoke) (tr_alloc t') = sol_live (resizable_data rent invoke) (tr_alloc t) \<and>
         tr_root_ptr t' = tr_root_ptr t \<and> tr_root_hash t' = tr_root_hash t"
    by (rule resizable.account_reopen[OF reopen.prems account_goodD(1)[OF c], of clock w]) blast
  have "data1 = data" using d1(1) reopen(2) by simp
  then show ?case using d1(2)[OF reopen(3)] reopen(4,5) account_goodD[OF c]
    by (auto simp: account_good_def trie_good_def)
qed

lemmas account_rep = account_goodD(1)

end
