(* ===== verification/Borsh.thy ===== *)
theory Borsh
  imports Prelude
begin

text \<open>
  The part of the \<^verbatim>\<open>borsh\<close> crate that the program uses by name. Borsh is not part of the
  repository: its encoders and decoders are a record of functions, an argument of
  the definitions that call it, and what the program relies on is the locale
  \<open>borsh\<close>: a value that was written is read back and the reader stands right
  after it; bytes and arrays of bytes are written as they are. A reader is the list of bytes that are left to read. The
  interpretation at the end shows that the format borsh documents has these laws.
\<close>

section \<open>The interface\<close>

text \<open>\<open>u8\<close>, \<open>u16\<close>, \<open>NonZeroU16\<close> and arrays of bytes.\<close>

record borsh_codec =
  put_u8 :: "byte \<Rightarrow> byte list"
  take_u8 :: "byte list \<Rightarrow> (byte \<times> byte list) option"
  put_u16 :: "16 word \<Rightarrow> byte list"
  take_u16 :: "byte list \<Rightarrow> (16 word \<times> byte list) option"
  put_nonzero_u16 :: "16 word \<Rightarrow> byte list"
  take_nonzero_u16 :: "byte list \<Rightarrow> (16 word \<times> byte list) option"
  put_array :: "byte list \<Rightarrow> byte list"
  take_array :: "nat \<Rightarrow> byte list \<Rightarrow> (byte list \<times> byte list) option"

locale borsh =
  fixes codec :: borsh_codec
  assumes put_u8_raw: "put_u8 codec b = [b]"
    and put_array_raw: "put_array codec bs = bs"
    and take_put_u8: "take_u8 codec (put_u8 codec b @ rest) = Some (b, rest)"
    and take_put_u16: "take_u16 codec (put_u16 codec w @ rest) = Some (w, rest)"
    and take_put_nonzero_u16:
      "w \<noteq> 0 \<Longrightarrow> take_nonzero_u16 codec (put_nonzero_u16 codec w @ rest) = Some (w, rest)"
    and take_put_array: "length bs = n \<Longrightarrow> take_array codec n (put_array codec bs @ rest) = Some (bs, rest)"
    and take_array_length: "take_array codec n inp = Some (bs, rest) \<Longrightarrow> length bs = n"

text \<open>\<open>wr.write_all\<close> appends the bytes; \<open>rd.read_exact\<close> fails at the end of the input.\<close>

definition read_exact :: "nat \<Rightarrow> byte list \<Rightarrow> (byte list \<times> byte list) option" where
  "read_exact n inp = (if n \<le> length inp then Some (take n inp, drop n inp) else None)"

lemma read_exact_append: "length bs = n \<Longrightarrow> read_exact n (bs @ rest) = Some (bs, rest)"
  by (simp add: read_exact_def)

lemma read_exact_Some:
  "read_exact n inp = Some (bs, rest) \<longleftrightarrow> inp = bs @ rest \<and> length bs = n"
  by (auto simp: read_exact_def)

section \<open>The documented format\<close>

definition borsh_format :: borsh_codec where
  "borsh_format =
     \<lparr>put_u8 = (\<lambda>b. [b]),
      take_u8 = (\<lambda>inp. case inp of [] \<Rightarrow> None | b # rest \<Rightarrow> Some (b, rest)),
      put_u16 = (\<lambda>w. to_le 2 (unat w)),
      take_u16 = (\<lambda>inp. map_option (\<lambda>(bs, rest). (word_of_nat (from_le bs), rest)) (read_exact 2 inp)),
      put_nonzero_u16 = (\<lambda>w. to_le 2 (unat w)),
      take_nonzero_u16 = (\<lambda>inp. Option.bind (read_exact 2 inp) (\<lambda>(bs, rest).
        if from_le bs = 0 then None else Some (word_of_nat (from_le bs), rest))),
      put_array = (\<lambda>bs. bs),
      take_array = read_exact\<rparr>"

lemma from_le_u16: "from_le (to_le 2 (unat (w :: 16 word))) = unat w"
  using unsigned_less[of w] by (intro from_le_to_le) simp

interpretation borsh_format: borsh borsh_format
  by unfold_locales
    (auto simp: borsh_format_def read_exact_append read_exact_Some from_le_u16 unat_eq_zero)

end
