(* ===== verification/Proof_Codec.thy ===== *)
theory Proof_Codec
  imports Trie_Get Borsh
begin

unbundle bit_operations_syntax

text \<open>
  The borsh encoding of proofs, \<^verbatim>\<open>common/sealable-trie/src/proof/serialisation.rs\<close>:
  writing and reading of items, of what was found at the end of the path, and of
  whole proofs. Every proof that fits the format is read back as it was written, and
  the proofs that \<open>Trie::prove\<close> makes for keys of up to a kilobyte fit it.
\<close>

section \<open>Writing\<close>

datatype io_error = ReadFailed | InvalidData

definition NON_MEMBERSHIP_SHIFT :: nat where "NON_MEMBERSHIP_SHIFT = 15"

definition item_serialize :: "borsh_codec \<Rightarrow> proof_item \<Rightarrow> byte list" where
  "item_serialize codec item =
     (case item of
        ItemBranch child \<Rightarrow>
          put_u8 codec (push_bit 4 (of_bool (or_is_value child))) @ put_array codec (or_hash child)
      | ItemExtension key_len \<Rightarrow>
          put_array codec (u16_to_be_bytes (word_of_nat key_len OR 0x2000)))"

definition actual_serialize :: "borsh_codec \<Rightarrow> actual \<Rightarrow> byte list" where
  "actual_serialize codec act =
     (case act of
        ActualBranch lft rht \<Rightarrow>
          (let vv = of_bool (or_is_value lft) * 2 + of_bool (or_is_value rht)
           in put_u8 codec (0x80 OR vv) @ put_array codec (or_hash lft) @ put_array codec (or_hash rht))
      | ActualExtension left key child \<Rightarrow>
          put_u8 codec (0x84 OR of_bool (or_is_value child)) @ put_u16 codec (word_of_nat left) @ key @
          put_array codec (or_hash child)
      | LookupKeyLeft left h \<Rightarrow>
          put_u8 codec 0x86 @ put_nonzero_u16 codec (word_of_nat left) @ put_array codec h)"

text \<open>The first two bytes: the number of entries and the kind of the proof.\<close>

definition proof_tag :: "bool \<Rightarrow> bool \<Rightarrow> nat \<Rightarrow> 16 word option" where
  "proof_tag membership has_actual len =
     (if len < 2 ^ 16 then
        Option.bind (checked_add 16 len (of_bool has_actual)) (\<lambda>tag.
          if tag < 8192
          then Some (word_of_nat tag OR push_bit NON_MEMBERSHIP_SHIFT (of_bool (\<not> membership)))
          else None)
      else None)"

definition proof_serialize :: "borsh_codec \<Rightarrow> trie_proof \<Rightarrow> (io_error, byte list) outcome" where
  "proof_serialize codec prf =
     (let (membership, act, items) =
            (case prf of Positive items \<Rightarrow> (True, None, items) | Negative act items \<Rightarrow> (False, act, items))
      in bind_outcome (ok_or InvalidData (proof_tag membership (act \<noteq> None) (length items))) (\<lambda>tag.
           Ok (put_u16 codec tag @ (case act of None \<Rightarrow> [] | Some a \<Rightarrow> actual_serialize codec a) @
               concat (map (item_serialize codec) items))))"

section \<open>Reading\<close>

definition rd_u8 :: "borsh_codec \<Rightarrow> byte list \<Rightarrow> (io_error, byte \<times> byte list) outcome" where
  "rd_u8 codec rd = ok_or ReadFailed (take_u8 codec rd)"

definition rd_u16 :: "borsh_codec \<Rightarrow> byte list \<Rightarrow> (io_error, 16 word \<times> byte list) outcome" where
  "rd_u16 codec rd = ok_or ReadFailed (take_u16 codec rd)"

definition rd_nonzero_u16 :: "borsh_codec \<Rightarrow> byte list \<Rightarrow> (io_error, 16 word \<times> byte list) outcome" where
  "rd_nonzero_u16 codec rd = ok_or ReadFailed (take_nonzero_u16 codec rd)"

definition rd_array :: "borsh_codec \<Rightarrow> nat \<Rightarrow> byte list \<Rightarrow> (io_error, byte list \<times> byte list) outcome" where
  "rd_array codec n rd = ok_or ReadFailed (take_array codec n rd)"

definition deserialize_owned_ref ::
  "borsh_codec \<Rightarrow> byte list \<Rightarrow> bool \<Rightarrow> (io_error, owned_ref \<times> byte list) outcome" where
  "deserialize_owned_ref codec rd is_value =
     bind_outcome (rd_array codec 32 rd) (\<lambda>(h, rd). Ok (\<lparr>or_is_value = is_value, or_hash = h\<rparr>, rd))"

definition deserialize_item_cont ::
  "borsh_codec \<Rightarrow> byte \<Rightarrow> byte list \<Rightarrow> (io_error, proof_item \<times> byte list) outcome" where
  "deserialize_item_cont codec first rd =
     (if first = 0x00 \<or> first = 0x10 then
        bind_outcome (deserialize_owned_ref codec rd (first \<noteq> 0)) (\<lambda>(r, rd). Ok (ItemBranch r, rd))
      else if first = 0x20 \<or> first = 0x21 then
        bind_outcome (rd_u8 codec rd) (\<lambda>(second, rd).
          let len = unat (u16_from_be_bytes (first AND 1) second)
          in if len = 0 then Err InvalidData else Ok (ItemExtension len, rd))
      else Err InvalidData)"

definition item_deserialize :: "borsh_codec \<Rightarrow> byte list \<Rightarrow> (io_error, proof_item \<times> byte list) outcome" where
  "item_deserialize codec rd =
     bind_outcome (rd_u8 codec rd) (\<lambda>(tag, rd). deserialize_item_cont codec tag rd)"

text \<open>The number of bytes of an extension key, from the two bytes in front of it.\<close>

definition key_buf_len :: "16 word \<Rightarrow> nat" where
  "key_buf_len tag = (unat tag mod 8 + unat tag div 8 + 7) div 8"

definition deserialize_actual_cont ::
  "borsh_codec \<Rightarrow> byte \<Rightarrow> byte list \<Rightarrow> (io_error, actual \<times> byte list) outcome" where
  "deserialize_actual_cont codec first rd =
     (if 0x80 \<le> first \<and> first \<le> 0x83 then
        bind_outcome (deserialize_owned_ref codec rd (first AND 2 \<noteq> 0)) (\<lambda>(lft, rd).
        bind_outcome (deserialize_owned_ref codec rd (first AND 1 \<noteq> 0)) (\<lambda>(rht, rd).
          Ok (ActualBranch lft rht, rd)))
      else if first = 0x84 \<or> first = 0x85 then
        bind_outcome (rd_u16 codec rd) (\<lambda>(left, rd).
        bind_outcome (rd_array codec 2 rd) (\<lambda>(head, rd).
          let len = key_buf_len (u16_from_be_bytes (head ! 0) (head ! 1)) in
          if len > MAX_EXTENSION_KEY_SIZE then Err InvalidData
          else bind_outcome (ok_or ReadFailed (read_exact len rd)) (\<lambda>(tail, rd).
               bind_outcome (deserialize_owned_ref codec rd (first = 0x85)) (\<lambda>(child, rd).
                 Ok (ActualExtension (unat left) (head @ tail) child, rd)))))
      else if first = 0x86 then
        bind_outcome (rd_nonzero_u16 codec rd) (\<lambda>(left, rd).
        bind_outcome (rd_array codec 32 rd) (\<lambda>(h, rd). Ok (LookupKeyLeft (unat left) h, rd)))
      else Err InvalidData)"

definition actual_deserialize :: "borsh_codec \<Rightarrow> byte list \<Rightarrow> (io_error, actual \<times> byte list) outcome" where
  "actual_deserialize codec rd =
     bind_outcome (rd_u8 codec rd) (\<lambda>(tag, rd). deserialize_actual_cont codec tag rd)"

datatype item_or_actual = IsItem proof_item | IsActual actual

definition item_or_actual_deserialize ::
  "borsh_codec \<Rightarrow> byte list \<Rightarrow> (io_error, item_or_actual \<times> byte list) outcome" where
  "item_or_actual_deserialize codec rd =
     bind_outcome (rd_u8 codec rd) (\<lambda>(tag, rd).
       if tag AND 0x80 = 0
       then bind_outcome (deserialize_item_cont codec tag rd) (\<lambda>(i, rd). Ok (IsItem i, rd))
       else bind_outcome (deserialize_actual_cont codec tag rd) (\<lambda>(a, rd). Ok (IsActual a, rd)))"

text \<open>The loop \<open>for _ in 1..len\<close>.\<close>

fun read_items :: "borsh_codec \<Rightarrow> nat \<Rightarrow> byte list \<Rightarrow> (io_error, proof_item list \<times> byte list) outcome" where
  "read_items codec 0 rd = Ok ([], rd)"
| "read_items codec (Suc n) rd =
     bind_outcome (item_deserialize codec rd) (\<lambda>(i, rd).
     bind_outcome (read_items codec n rd) (\<lambda>(is, rd). Ok (i # is, rd)))"

definition proof_deserialize :: "borsh_codec \<Rightarrow> byte list \<Rightarrow> (io_error, trie_proof \<times> byte list) outcome" where
  "proof_deserialize codec rd =
     bind_outcome (rd_u16 codec rd) (\<lambda>(tag, rd).
       let is_membership = (tag AND push_bit NON_MEMBERSHIP_SHIFT 1 = 0);
           len = unat (tag AND NOT (push_bit NON_MEMBERSHIP_SHIFT 1))
       in if len = 0 then Ok (if is_membership then Positive [] else Negative None [], rd)
          else
            bind_outcome
              (if is_membership
               then bind_outcome (item_deserialize codec rd) (\<lambda>(i, rd). Ok (IsItem i, rd))
               else item_or_actual_deserialize codec rd) (\<lambda>(first, rd).
            let (items, act) = (case first of IsItem i \<Rightarrow> ([i], None) | IsActual a \<Rightarrow> ([], Some a))
            in bind_outcome (read_items codec (len - 1) rd) (\<lambda>(more_items, rd).
                 Ok (if is_membership then Positive (items @ more_items)
                     else Negative act (items @ more_items), rd))))"

section \<open>Proofs that fit the format\<close>

fun item_wire :: "proof_item \<Rightarrow> bool" where
  "item_wire (ItemBranch r) \<longleftrightarrow> length (or_hash r) = 32"
| "item_wire (ItemExtension n) \<longleftrightarrow> 0 < n \<and> n < 512"

fun actual_wire :: "actual \<Rightarrow> bool" where
  "actual_wire (ActualBranch l r) \<longleftrightarrow> length (or_hash l) = 32 \<and> length (or_hash r) = 32"
| "actual_wire (ActualExtension left key child) \<longleftrightarrow>
     left < 2 ^ 16 \<and> 2 \<le> length key \<and> length key - 2 = key_buf_len (u16_from_be_bytes (key ! 0) (key ! 1)) \<and>
     length key \<le> 2 + MAX_EXTENSION_KEY_SIZE \<and> length (or_hash child) = 32"
| "actual_wire (LookupKeyLeft left h) \<longleftrightarrow> 0 < left \<and> left < 2 ^ 16 \<and> length h = 32"

definition proof_entries :: "trie_proof \<Rightarrow> nat" where
  "proof_entries prf = (case prf of Positive items \<Rightarrow> length items
     | Negative act items \<Rightarrow> length items + (case act of None \<Rightarrow> 0 | Some _ \<Rightarrow> 1))"

fun proof_wire :: "trie_proof \<Rightarrow> bool" where
  "proof_wire (Positive items) \<longleftrightarrow> list_all item_wire items"
| "proof_wire (Negative act items) \<longleftrightarrow>
     list_all item_wire items \<and> (case act of None \<Rightarrow> True | Some a \<Rightarrow> actual_wire a)"

lemma u16_be_round: "u16_from_be_bytes (ucast (drop_bit 8 w)) (ucast w) = w"
  by (rule bit_word_eqI) (auto simp: u16_from_be_bytes_def bit_simps)

text \<open>The two bytes of an extension item: the flag is in the first, with the ninth bit of the length.\<close>

lemma ext_item_bytes:
  assumes "n < 512"
  obtains h l where "u16_to_be_bytes (word_of_nat n OR 0x2000) = [h, l]" "h = 0x20 \<or> h = 0x21"
    "unat (u16_from_be_bytes (h AND 1) l) = n"
proof -
  define w :: "16 word" where "w = word_of_nat n"
  define h :: byte where "h = ucast (drop_bit 8 w)"
  have w: "unat w = n" using assms by (simp add: w_def unat_of_nat)
  have "unat h = n div 256 mod 256"
    by (simp add: h_def drop_bit_eq_div unsigned_ucast_eq take_bit_eq_mod unat_div w)
  then have "unat h < 2" using assms by simp
  then have h: "h = 0 \<or> h = 1" by (auto simp: word_unat_eq_iff less_Suc_eq numeral_2_eq_2)
  have low: "\<not> bit (0x2000 :: 16 word) i" if "i < 8" for i
  proof -
    have "i = 0 \<or> i = 1 \<or> i = 2 \<or> i = 3 \<or> i = 4 \<or> i = 5 \<or> i = 6 \<or> i = 7" using that by linarith
    then show ?thesis by auto
  qed
  have "ucast (drop_bit 8 (w OR 0x2000)) = h OR 0x20"
    by (rule byte_eqI) (auto simp: h_def bit_simps)
  moreover have "ucast (w OR 0x2000) = (ucast w :: byte)"
    by (rule byte_eqI) (simp only: bit_ucast_iff bit_or_iff low simp_thms)
  ultimately have "u16_to_be_bytes (w OR 0x2000) = [h OR 0x20, ucast w]" by (simp add: u16_to_be_bytes_def)
  moreover have "h OR 0x20 = 0x20 \<or> h OR 0x20 = 0x21" "(h OR 0x20) AND 1 = h" using h by auto
  moreover have "unat (u16_from_be_bytes h (ucast w)) = n" using u16_be_round[of w] w by (simp add: h_def)
  ultimately show ?thesis using that unfolding w_def by simp
qed

context borsh
begin

lemma reads_back [simp]:
  "rd_u8 codec (put_u8 codec b @ rest) = Ok (b, rest)"
  "rd_u8 codec (b # rest) = Ok (b, rest)"
  "rd_u16 codec (put_u16 codec w @ rest) = Ok (w, rest)"
  "w \<noteq> 0 \<Longrightarrow> rd_nonzero_u16 codec (put_nonzero_u16 codec w @ rest) = Ok (w, rest)"
  "length bs = n \<Longrightarrow> rd_array codec n (put_array codec bs @ rest) = Ok (bs, rest)"
  "length bs = n \<Longrightarrow> rd_array codec n (bs @ rest) = Ok (bs, rest)"
  using take_put_u8[of b rest] take_put_array[of bs n rest]
  by (simp_all add: rd_u8_def rd_u16_def rd_nonzero_u16_def rd_array_def take_put_u8 take_put_u16 take_put_nonzero_u16
      put_u8_raw put_array_raw)

lemma owned_ref_reads_back [simp]:
  "length h = 32 \<Longrightarrow> deserialize_owned_ref codec (put_array codec h @ rest) v = Ok (\<lparr>or_is_value = v, or_hash = h\<rparr>, rest)"
  by (simp add: deserialize_owned_ref_def)

lemma item_reads_back: "item_wire i \<Longrightarrow> item_deserialize codec (item_serialize codec i @ rest) = Ok (i, rest)"
proof (cases i)
  case (ItemBranch r)
  assume "item_wire i"
  then show ?thesis
    by (cases "or_is_value r") (simp_all add: ItemBranch item_deserialize_def item_serialize_def deserialize_item_cont_def)
next
  case (ItemExtension n)
  assume "item_wire i"
  then have n: "0 < n" "n < 512" by (simp_all add: ItemExtension)
  obtain h l where "u16_to_be_bytes (word_of_nat n OR 0x2000) = [h, l]" "h = 0x20 \<or> h = 0x21"
      "unat (u16_from_be_bytes (h AND 1) l) = n" using ext_item_bytes[OF n(2)] .
  with n(1) show ?thesis
    by (auto simp: ItemExtension item_deserialize_def item_serialize_def deserialize_item_cont_def put_array_raw Let_def)
qed

lemma actual_reads_back: "actual_wire a \<Longrightarrow> actual_deserialize codec (actual_serialize codec a @ rest) = Ok (a, rest)"
proof (cases a)
  case (ActualBranch l r)
  assume "actual_wire a"
  then show ?thesis
    by (cases "or_is_value l"; cases "or_is_value r")
      (simp_all add: ActualBranch actual_deserialize_def actual_serialize_def deserialize_actual_cont_def)
next
  case (ActualExtension left key child)
  assume "actual_wire a"
  then have w: "left < 65536" "2 \<le> length key" "length key - 2 = key_buf_len (u16_from_be_bytes (key ! 0) (key ! 1))"
      "length key \<le> 2 + MAX_EXTENSION_KEY_SIZE" "length (or_hash child) = 32"
    by (simp_all add: ActualExtension)
  obtain h0 h1 t where key: "key = [h0, h1] @ t"
    using w(2) by (metis One_nat_def Suc_1 Suc_le_length_iff append_Cons append_Nil)
  have t: "length t = key_buf_len (u16_from_be_bytes h0 h1)" "length t \<le> MAX_EXTENSION_KEY_SIZE"
    using w(3,4) by (simp_all add: key)
  have head: "rd_array codec 2 ([h0, h1] @ inp) = Ok ([h0, h1], inp)" for inp by (rule reads_back) simp
  have tail: "read_exact (key_buf_len (u16_from_be_bytes h0 h1)) (t @ inp) = Some (t, inp)" for inp
    using t(1) by (simp add: read_exact_append)
  have left: "unat (word_of_nat left :: 16 word) = left" using w(1) by (simp add: unat_of_nat)
  show ?thesis
    using t(2) w(5) head tail left unfolding t(1)
    by (cases "or_is_value child")
      (simp_all add: ActualExtension actual_deserialize_def actual_serialize_def deserialize_actual_cont_def key Let_def)
next
  case (LookupKeyLeft left h)
  assume "actual_wire a"
  then have "0 < left" "left < 65536" "length h = 32" by (simp_all add: LookupKeyLeft)
  moreover from this have "word_of_nat left \<noteq> (0 :: 16 word)" by (simp add: word_unat_eq_iff unat_of_nat)
  ultimately show ?thesis
    by (simp add: LookupKeyLeft actual_deserialize_def actual_serialize_def deserialize_actual_cont_def unat_of_nat)
qed

lemma items_read_back:
  "list_all item_wire is \<Longrightarrow>
   read_items codec (length is) (concat (map (item_serialize codec) is) @ rest) = Ok (is, rest)"
  by (induction "is") (simp_all add: item_reads_back)

end

lemma proof_tag_bits:
  fixes w m :: "16 word"
  assumes "n < 8192" and m: "m = push_bit NON_MEMBERSHIP_SHIFT 1"
    and w: "w = word_of_nat n OR push_bit NON_MEMBERSHIP_SHIFT (of_bool b)"
  shows "(w AND m = 0) = (\<not> b)" "unat (w AND NOT m) = n"
proof -
  have mb: "bit m i \<longleftrightarrow> i = 15" for i by (simp only: m NON_MEMBERSHIP_SHIFT_def bit_push_bit_iff bit_1_iff) auto
  have "unat (word_of_nat n :: 16 word) = n" "\<not> bit n 15"
    using assms(1) by (simp_all add: unat_of_nat bit_iff_odd)
  then have nb: "\<not> bit (word_of_nat n :: 16 word) 15" using bit_unsigned_iff[where ?'a = nat, of "word_of_nat n :: 16 word" 15] by simp
  have bb: "push_bit NON_MEMBERSHIP_SHIFT (of_bool b) = (if b then m else 0)" by (simp add: m)
  have wb: "bit w i \<longleftrightarrow> bit (word_of_nat n :: 16 word) i \<or> b \<and> i = 15" for i
    unfolding w bb by (simp add: bit_or_iff mb)
  have "w AND m = (if b then m else 0)"
    by (rule bit_word_eqI) (auto simp: bit_and_iff wb mb nb)
  moreover have "m \<noteq> 0" using mb[of 15] by auto
  ultimately show "(w AND m = 0) = (\<not> b)" by simp
  have "w AND NOT m = word_of_nat n"
    by (rule bit_word_eqI) (use nb in \<open>auto simp: bit_and_iff bit_not_iff wb mb\<close>)
  then show "unat (w AND NOT m) = n" using assms(1) by (simp add: unat_of_nat)
qed

lemma proof_tag_Some:
  "proof_tag membership has_actual len =
     (if len + of_bool has_actual < 8192
      then Some (word_of_nat (len + of_bool has_actual) OR push_bit NON_MEMBERSHIP_SHIFT (of_bool (\<not> membership)))
      else None)"
  by (auto simp: proof_tag_def checked_add_def)

context borsh
begin

lemma item_first:
  assumes "item_wire i"
  obtains b tl where "item_serialize codec i = b # tl" "b AND 0x80 = 0"
proof (cases i)
  case (ItemBranch r)
  then show ?thesis by (intro that) (auto simp: item_serialize_def put_u8_raw)
next
  case (ItemExtension n)
  with assms have "n < 512" by simp
  then obtain h l where "u16_to_be_bytes (word_of_nat n OR 0x2000) = [h, l]" "h = 0x20 \<or> h = 0x21"
    using ext_item_bytes by metis
  then show ?thesis by (intro that) (auto simp: ItemExtension item_serialize_def put_array_raw)
qed

lemma actual_first:
  obtains b tl where "actual_serialize codec a = b # tl" "b AND 0x80 \<noteq> 0"
proof (cases a)
  case (ActualBranch l r)
  then show ?thesis
    by (intro that[of "0x80 OR (of_bool (or_is_value l) * 2 + of_bool (or_is_value r))"])
      (auto simp: actual_serialize_def put_u8_raw Let_def)
next
  case (ActualExtension left key child)
  then show ?thesis
    by (intro that[of "0x84 OR of_bool (or_is_value child)"]) (auto simp: actual_serialize_def put_u8_raw)
next
  case (LookupKeyLeft left h)
  then show ?thesis by (intro that[of "0x86"]) (auto simp: actual_serialize_def put_u8_raw)
qed

lemma first_reads_back:
  "item_wire i \<Longrightarrow> item_or_actual_deserialize codec (item_serialize codec i @ rest) = Ok (IsItem i, rest)"
  "actual_wire a \<Longrightarrow> item_or_actual_deserialize codec (actual_serialize codec a @ rest) = Ok (IsActual a, rest)"
proof -
  assume i: "item_wire i"
  then obtain b tl where "item_serialize codec i = b # tl" "b AND 0x80 = 0" using item_first by metis
  then show "item_or_actual_deserialize codec (item_serialize codec i @ rest) = Ok (IsItem i, rest)"
    using item_reads_back[OF i, of rest] by (simp add: item_or_actual_deserialize_def item_deserialize_def)
next
  assume a: "actual_wire a"
  obtain b tl where "actual_serialize codec a = b # tl" "b AND 0x80 \<noteq> 0" using actual_first by metis
  then show "item_or_actual_deserialize codec (actual_serialize codec a @ rest) = Ok (IsActual a, rest)"
    using actual_reads_back[OF a, of rest] by (simp add: item_or_actual_deserialize_def actual_deserialize_def)
qed

lemma proof_reads_back:
  assumes "proof_wire prf" and "proof_entries prf < 8192"
  obtains bs where "proof_serialize codec prf = Ok bs"
    "\<And>rest. proof_deserialize codec (bs @ rest) = Ok (prf, rest)"
proof -
  define mem and act and items where "mem = (case prf of Positive _ \<Rightarrow> True | _ \<Rightarrow> False)"
    and "act = (case prf of Positive _ \<Rightarrow> None | Negative a _ \<Rightarrow> a)"
    and "items = (case prf of Positive is \<Rightarrow> is | Negative _ is \<Rightarrow> is)"
  note defs = mem_def act_def items_def
  have pe: "prf = (if mem then Positive items else Negative act items)" "mem \<Longrightarrow> act = None"
    by (cases "prf"; simp add: defs)+
  define n where "n = length items + of_bool (act \<noteq> None)"
  define tag :: "16 word" where "tag = word_of_nat n OR push_bit NON_MEMBERSHIP_SHIFT (of_bool (\<not> mem))"
  have n: "n < 8192" using assms(2) by (cases "prf") (auto simp: n_def defs proof_entries_def split: option.splits)
  have wire: "list_all item_wire items" "\<And>a. act = Some a \<Longrightarrow> actual_wire a"
    using assms(1) by (cases "prf"; auto simp: defs)+
  note tb = proof_tag_bits[OF n refl tag_def]
  let ?items = "\<lambda>is. concat (map (item_serialize codec) is)"
  let ?act = "case act of None \<Rightarrow> [] | Some a \<Rightarrow> actual_serialize codec a"
  have ser: "proof_serialize codec prf = Ok (put_u16 codec tag @ ?act @ ?items items)"
    using n by (cases "prf") (auto simp: proof_serialize_def proof_tag_Some tag_def n_def defs split: option.splits)
  have "proof_deserialize codec ((put_u16 codec tag @ ?act @ ?items items) @ rest) = Ok (prf, rest)" for rest
  proof (cases "n = 0")
    case True
    then have "act = None" "items = []" by (auto simp: n_def split: if_splits)
    then show ?thesis using True tb by (simp add: proof_deserialize_def pe(1) Let_def)
  next
    case False
    show ?thesis
    proof (cases act)
      case None
      with False obtain i is' where it: "items = i # is'" by (cases items) (auto simp: n_def)
      have "read_items codec (n - 1) (?items is' @ rest) = Ok (is', rest)"
        using items_read_back[of is' rest] wire(1) by (simp add: n_def None it)
      then show ?thesis
        using False tb wire(1) item_reads_back[of i] first_reads_back(1)[of i]
        by (simp add: proof_deserialize_def pe(1) None it Let_def)
    next
      case (Some a)
      have "read_items codec (n - 1) (?items items @ rest) = Ok (items, rest)"
        using items_read_back[OF wire(1), of rest] by (simp add: n_def Some)
      moreover have "\<not> mem" using pe(2) Some by auto
      ultimately show ?thesis
        using False tb first_reads_back(2)[OF wire(2)[OF Some]]
        by (simp add: proof_deserialize_def pe(1) Some Let_def)
    qed
  qed
  with ser that show ?thesis by blast
qed

end

section \<open>The proofs of the trie fit the format\<close>

lemma owned_ref_hash [simp]: "or_hash (owned_ref_from r) = ref_hash r"
  by (cases r) (simp_all add: owned_ref_from_def)

lemma mpath_wire:
  assumes "mpath d t key items s" "digest_inv d" "mtree_inv off t"
  shows "list_all item_wire items \<and> length items \<le> length key"
  using assms
proof (induction arbitrary: off rule: mpath.induct)
  case (branch b r l key items s)
  then have "length (ref_hash (mref d (if b then l else r))) = 32" by (auto intro: mref_hash_length)
  then have "item_wire (item_branch b (mref d l) (mref d r))" by (simp add: item_branch_def split: if_splits)
  then show ?case using branch by (auto split: if_splits)
next
  case (ext c key items s k)
  then have "ext_key_inv k" by simp
  from ext_key_len_bound[OF this] this have "item_wire (ItemExtension (sl_length k))" "0 < sl_length k"
    by (auto simp: ext_key_inv_def)
  then show ?case using ext by fastforce
qed simp

lemma encoded_key_wire:
  assumes "ext_key_inv k" and that: "key = take (snd (encode_into k 0)) (fst (encode_into k 0))"
  shows "length key = 2 + length (slice_bytes k) \<and>
     length key - 2 = key_buf_len (u16_from_be_bytes (key ! 0) (key ! 1))"
proof -
  define num where "num = (push_bit 3 (word_of_nat (sl_length k)) OR word_of_nat (unat (sl_offset k)) :: 16 word)"
  obtain h l where hl: "encode_num k 0 = [h, l]"
    by (simp add: encode_num_def Let_def u16_to_be_bytes_def)
  have "u16_from_be_bytes (h XOR 0) l = num"
    using hl by (intro u16_num_tag) (simp add: encode_num_def num_def Let_def)
  then have n: "unat (u16_from_be_bytes h l) = 8 * sl_length k + unat (sl_offset k)"
    using unat_encode_num[OF assms(1)] unfolding num_def[symmetric] by simp
  have off: "unat (sl_offset k) < 8" by (rule u3_less)
  have key: "key = [h, l] @ masked_bytes k" by (simp add: that encode_into_eq hl)
  have "length (slice_bytes k) = (unat (sl_offset k) + sl_length k + 7) div 8"
    using assms(1) by (simp add: ext_key_inv_def length_slice_bytes slice_bytes_len_def bytes_len_def)
  then show ?thesis using off by (simp add: key key_buf_len_def n)
qed

lemma refutes_wire:
  assumes "refutes d s rest act" "digest_inv d" "mtree_inv off s" "length rest < 2 ^ 16"
  shows "actual_wire act"
proof (cases s)
  case (MExt k c)
  then have k: "ext_key_inv k" and c: "mtree_inv (wrapping_add off (sl_length k)) c" using assms(3) by auto
  obtain key where key: "key = take (snd (encode_into k 0)) (fst (encode_into k 0))" by simp
  have "act = ActualExtension (length rest) key (owned_ref_from (mref d c))" using assms(1) by (simp add: MExt key)
  then show ?thesis
    using encoded_key_wire[OF k key] ext_key_bytes_length[OF k] mref_hash_length[OF assms(2) c] assms(4)
    by (auto simp: MAX_EXTENSION_KEY_SIZE_def)
qed (use assms mref_hash_length[OF assms(2)] in auto)

lemma proof_for_wire:
  assumes "proof_for d m key v [] pr" "digest_inv d" "mtree_inv 0 m" "length key < 2 ^ 16"
  shows "proof_wire pr \<and> proof_entries pr \<le> length key + 1"
proof (cases v)
  case None
  with assms(1) obtain pre items s rest act where p: "key = pre @ rest" "mpath d m pre items s"
    "refutes d s rest act" "pr = Negative (Some act) (rev items)" by (auto simp: proof_for_def)
  have "actual_wire act"
    using refutes_wire[OF p(3) assms(2) mpath_inv[OF p(2) assms(3)]] p(1) assms(4) by simp
  with mpath_wire[OF p(2) assms(2,3)] show ?thesis
    by (auto simp: p(1,4) proof_entries_def list_all_iff)
next
  case (Some h)
  with assms(1) obtain items where p: "mpath d m key items (MValue h)" "pr = Positive (rev items)"
    by (auto simp: proof_for_def)
  from mpath_wire[OF p(1) assms(2,3)] show ?thesis by (auto simp: p(2) proof_entries_def list_all_iff)
qed

lemma get_impl_wire:
  assumes d: "digest_ok d" and getf: "reads getf mem"
    and c: "trie_content d mem p h c" and k: "slice_from_bytes key = Some K"
    and g: "get_impl getf p h key True = Ok (v, Some pr)"
  shows "proof_wire pr \<and> proof_entries pr \<le> 8 * length key + 1"
proof (cases c)
  case None
  then show ?thesis using c g get_impl_empty[OF k]
    by (auto simp: trie_content_def empty_trie_proof_def proof_entries_def)
next
  case (Some t)
  obtain m where m: "expands d t m" "mtree_inv 0 m"
    using content_expands_ex[OF c] Some by (auto simp: content_expands_def split: option.splits)
  have "get_result d t (key_bits key) (Some []) (Ok (v, Some pr))"
    using get_impl_spec[OF d getf c[unfolded Some] k, where prove = True] g by simp
  then have "proof_for d m (key_bits key) v [] pr"
    using m by (auto simp: get_result_def split: outcome.splits)
  note w = proof_for_wire[OF this digest_ok_inv[OF d] m(2)]
  have "length (key_bits key) = 8 * length key" "length (key_bits key) < 2 ^ 16"
    using k by (auto simp: key_bits_def slice_from_bytes_def split: if_splits)
  with w show ?thesis by simp
qed

section \<open>Properties\<close>

text \<open>
  C33: a proof that fits the format (hashes of 32 bytes, extension lengths below 512, well-formed
  key buffers, fewer than 8192 entries) is serialised, and reading the bytes gives the same proof
  and leaves what follows; a proof with more entries is refused.
\<close>

theorem proof_codec_roundtrip:
  assumes "borsh codec" and "proof_wire prf"
  shows "if proof_entries prf < 8192
    then \<exists>bs. proof_serialize codec prf = Ok bs \<and> proof_deserialize codec (bs @ rest) = Ok (prf, rest)
    else proof_serialize codec prf = Err InvalidData"
proof (cases "proof_entries prf < 8192")
  case True
  from borsh.proof_reads_back[OF assms this] show ?thesis using True by metis
next
  case False
  then show ?thesis
    by (cases "prf") (auto simp: proof_serialize_def proof_tag_Some proof_entries_def Let_def split: option.splits)
qed

theorem proof_codec_roundtrip_witness:
  "\<exists>bs. proof_serialize borsh_format (Negative (Some (LookupKeyLeft 3 (replicate 32 7))) [ItemExtension 300]) = Ok bs \<and>
     proof_deserialize borsh_format (bs @ [1, 2]) =
       Ok (Negative (Some (LookupKeyLeft 3 (replicate 32 7))) [ItemExtension 300], [1, 2])"
  using proof_codec_roundtrip[OF borsh_format.borsh_axioms,
      of "Negative (Some (LookupKeyLeft 3 (replicate 32 7))) [ItemExtension 300]" "[1, 2]"]
  by (simp add: proof_entries_def)

end
