(* ===== verification/Trie_Ids.thy ===== *)
theory Trie_Ids
  imports Borsh "HOL-Library.Sublist"
begin

unbundle bit_operations_syntax

text \<open>
  Compact identifiers and the keys of the trie, \<^verbatim>\<open>common/trie-ids\<close>: counters parsed
  from client, connection and channel identifiers, ports as nine bytes of base64,
  the byte string under which each IBC path is stored and the conversion of a path.
  The specification is the type \<open>location\<close>, what the documentation of
  \<open>TrieKey\<close> draws as an enum, with its encoding; that encoding is injective
  and no key is a prefix of another. Identifiers are strings of one-byte
  characters; the paths of the ibc crate carry the fields that the code reads.
\<close>

section \<open>Strings\<close>

definition as_bytes :: "string \<Rightarrow> byte list" where
  "as_bytes s = map (\<lambda>c. word_of_nat (of_char c)) s"

definition strip_str :: "string \<Rightarrow> string \<Rightarrow> string option" where
  "strip_str p s = (if take (length p) s = p then Some (drop (length p) s) else None)"

text \<open>\<open>str::rsplit_once\<close>.\<close>

fun rsplit_once :: "char \<Rightarrow> string \<Rightarrow> (string \<times> string) option" where
  "rsplit_once d [] = None"
| "rsplit_once d (c # s) =
     (case rsplit_once d s of
        Some (h, t) \<Rightarrow> Some (c # h, t)
      | None \<Rightarrow> if c = d then Some ([], s) else None)"

text \<open>\<open>u32::from_str\<close>: an optional plus sign, then digits, without overflow.\<close>

definition digit_val :: "char \<Rightarrow> nat option" where
  "digit_val c = (let n = of_char c in if 48 \<le> n \<and> n \<le> 57 then Some (n - 48) else None)"

fun parse_digits :: "nat \<Rightarrow> string \<Rightarrow> nat option" where
  "parse_digits acc [] = Some acc"
| "parse_digits acc (c # cs) =
     (case digit_val c of
        None \<Rightarrow> None
      | Some d \<Rightarrow> if 10 * acc + d < 2 ^ 32 then parse_digits (10 * acc + d) cs else None)"

definition u32_from_str :: "string \<Rightarrow> nat option" where
  "u32_from_str s =
     (case s of
        [] \<Rightarrow> None
      | c # cs \<Rightarrow>
          if c = CHR ''+'' then (if cs = [] then None else parse_digits 0 cs)
          else parse_digits 0 s)"

text \<open>The decimal digits that \<open>Display\<close> prints for an unsigned integer.\<close>

fun show_nat :: "nat \<Rightarrow> string" where
  "show_nat n = (if n < 10 then [char_of (48 + n)] else show_nat (n div 10) @ [char_of (48 + n mod 10)])"

declare show_nat.simps [simp del]

section \<open>Counters\<close>

type_synonym counter = "32 word"

datatype client_idx = ClientIdx (client_counter: counter)
datatype connection_idx = ConnectionIdx (connection_counter: counter)
datatype channel_idx = ChannelIdx (channel_counter: counter)

text \<open>\<open>usize\<close> has at least four bytes on the platforms of the program.\<close>

definition from_counter :: "string \<Rightarrow> counter option" where
  "from_counter s = map_option word_of_nat (u32_from_str s)"

definition from_prefixed :: "string \<Rightarrow> string \<Rightarrow> counter option" where
  "from_prefixed p s = Option.bind (strip_str p s) from_counter"

definition counter_parse :: "string \<Rightarrow> (string \<times> counter) option" where
  "counter_parse s =
     Option.bind (rsplit_once (CHR ''-'') s) (\<lambda>(hd, tl). map_option (\<lambda>c. (hd, c)) (from_counter tl))"

definition CONNECTION_PREFIX :: string where "CONNECTION_PREFIX = ''connection-''"

definition CHANNEL_PREFIX :: string where "CHANNEL_PREFIX = ''channel-''"

datatype id_error =
  BadClientId
| BadChannelId
| BadPortId
| ConnectionNotFound string
| ChannelNotFound string string

definition client_idx_parse :: "string \<Rightarrow> (id_error, string \<times> client_idx) outcome" where
  "client_idx_parse s =
     ok_or BadClientId (map_option (\<lambda>(ty, c). (ty, ClientIdx c)) (counter_parse s))"

definition client_idx_try_from :: "string \<Rightarrow> (id_error, client_idx) outcome" where
  "client_idx_try_from s = bind_outcome (client_idx_parse s) (\<lambda>(_, this). Ok this)"

definition connection_idx_try_from :: "string \<Rightarrow> (id_error, connection_idx) outcome" where
  "connection_idx_try_from s =
     ok_or (ConnectionNotFound s) (map_option ConnectionIdx (from_prefixed CONNECTION_PREFIX s))"

definition channel_idx_try_from :: "string \<Rightarrow> (id_error, channel_idx) outcome" where
  "channel_idx_try_from s =
     ok_or BadChannelId (map_option ChannelIdx (from_prefixed CHANNEL_PREFIX s))"

text \<open>The derived \<open>Display\<close>.\<close>

definition connection_display :: "connection_idx \<Rightarrow> string" where
  "connection_display i = ''connection-'' @ show_nat (unat (connection_counter i))"

definition channel_display :: "channel_idx \<Rightarrow> string" where
  "channel_display i = ''channel-'' @ show_nat (unat (channel_counter i))"

section \<open>Ports\<close>

text \<open>
  Base64 comes from the crate \<^verbatim>\<open>base64\<close>: \<open>enc\<close> is \<open>STANDARD.encode_slice\<close> and
  \<open>dec\<close> is \<open>STANDARD.decode_slice_unchecked\<close>, the bytes written. What is
  relied on: twelve characters of the alphabet and nine bytes are in bijection, and
  a character that is neither in the alphabet nor the padding is refused.
\<close>

definition b64_alphabet :: "byte \<Rightarrow> bool" where
  "b64_alphabet b \<longleftrightarrow>
     (let n = unat b in
      65 \<le> n \<and> n \<le> 90 \<or> 97 \<le> n \<and> n \<le> 122 \<or> 48 \<le> n \<and> n \<le> 57 \<or> n = 43 \<or> n = 47)"

record base64 =
  b64_enc :: "byte list \<Rightarrow> byte list"
  b64_dec :: "byte list \<Rightarrow> byte list option"

locale base64_engine =
  fixes b64 :: base64
  assumes dec_enc: "length bs = 9 \<Longrightarrow> b64_dec b64 (b64_enc b64 bs) = Some bs"
    and enc_length: "length bs = 9 \<Longrightarrow> length (b64_enc b64 bs) = 12"
    and enc_alphabet: "length bs = 9 \<Longrightarrow> list_all b64_alphabet (b64_enc b64 bs)"
    and dec_alphabet: "length s = 12 \<Longrightarrow> list_all b64_alphabet s \<Longrightarrow>
          \<exists>bs. b64_dec b64 s = Some bs \<and> length bs = 9 \<and> b64_enc b64 bs = s"
    and dec_length: "length s = 12 \<Longrightarrow> b64_dec b64 s = Some bs \<Longrightarrow> length bs \<le> 9"
    and dec_refuses: "length s = 12 \<Longrightarrow> c \<in> set s \<Longrightarrow> \<not> b64_alphabet c \<Longrightarrow> c \<noteq> 0x3D \<Longrightarrow> b64_dec b64 s = None"

datatype port_key = PortKey (port_bytes: "byte list")

text \<open>The loop that strips the slashes at the end of the buffer.\<close>

fun strip_slashes :: "byte list \<Rightarrow> nat \<Rightarrow> nat" where
  "strip_slashes buf 0 = 0"
| "strip_slashes buf (Suc n) = (if buf ! n = 0x2F then strip_slashes buf n else Suc n)"

definition write_into :: "base64 \<Rightarrow> port_key \<Rightarrow> byte list" where
  "write_into b64 k = (let buf = b64_enc b64 (port_bytes k) in take (strip_slashes buf (length buf)) buf)"

definition port_key_try_from :: "base64 \<Rightarrow> byte list \<Rightarrow> (id_error, port_key) outcome" where
  "port_key_try_from b64 port_id =
     (if \<exists>b\<in>set port_id. b = 0x2B \<or> b = 0x2F then Err BadPortId
      else if length port_id > 12 then Err BadPortId
      else (let buf = port_id @ drop (length port_id) (replicate 12 0x2F) in
            case b64_dec b64 buf of
              None \<Rightarrow> Err BadPortId
            | Some bs \<Rightarrow> Ok (PortKey (bs @ drop (length bs) (replicate 9 0)))))"

text \<open>\<open>BorshDeserialize for PortKey\<close>; \<open>None\<close> is an error of the reader or \<open>InvalidData\<close>.\<close>

fun position_from :: "(byte \<Rightarrow> bool) \<Rightarrow> byte list \<Rightarrow> nat option" where
  "position_from P [] = None"
| "position_from P (b # bs) = (if P b then Some 0 else map_option Suc (position_from P bs))"

definition port_key_deserialize ::
  "borsh_codec \<Rightarrow> base64 \<Rightarrow> byte list \<Rightarrow> (port_key \<times> byte list) option" where
  "port_key_deserialize codec b64 rd =
     Option.bind (take_array codec 9 rd) (\<lambda>(bytes, rd).
       let buf = b64_enc b64 bytes in
       if (case position_from (\<lambda>b. b = 0x2B \<or> b = 0x2F) buf of
             Some pos \<Rightarrow> pos > 2 \<and> list_all (\<lambda>b. b = 0x2F) (drop pos buf)
           | None \<Rightarrow> True)
       then Some (PortKey bytes, rd) else None)"

record port_channel =
  pc_port_key :: port_key
  pc_channel_idx :: channel_idx

definition port_channel_try_from ::
  "base64 \<Rightarrow> string \<Rightarrow> string \<Rightarrow> (id_error, port_channel) outcome" where
  "port_channel_try_from b64 port_id channel_id =
     (case port_key_try_from b64 (as_bytes port_id) of
        Ok k \<Rightarrow>
          (case channel_idx_try_from channel_id of
             Ok i \<Rightarrow> Ok \<lparr>pc_port_key = k, pc_channel_idx = i\<rparr>
           | _ \<Rightarrow> Err (ChannelNotFound port_id channel_id))
      | _ \<Rightarrow> Err (ChannelNotFound port_id channel_id))"

section \<open>Keys\<close>

datatype tag =
  TagClientState | TagConsensusState | TagConnection | TagChannelEnd | TagNextSequence
| TagCommitment | TagReceipt | TagAck | TagUpgradeClient

fun tag_byte :: "tag \<Rightarrow> byte" where
  "tag_byte TagClientState = 0"
| "tag_byte TagConsensusState = 1"
| "tag_byte TagConnection = 2"
| "tag_byte TagChannelEnd = 3"
| "tag_byte TagNextSequence = 4"
| "tag_byte TagCommitment = 5"
| "tag_byte TagReceipt = 6"
| "tag_byte TagAck = 7"
| "tag_byte TagUpgradeClient = 8"

datatype upgrade_type = UpgradeClientState | UpgradeConsensusState

fun upgrade_byte :: "upgrade_type \<Rightarrow> byte" where
  "upgrade_byte UpgradeClientState = 0"
| "upgrade_byte UpgradeConsensusState = 1"

record trie_key =
  tk_bytes :: "byte list"
  tk_len :: nat

text \<open>
  \<open>TrieKey::extend\<close>; slicing past the 22 bytes of the buffer panics. What a type
  has to append is its \<open>AsComponent::append_into\<close>, a function of the key.
\<close>

definition key_extend :: "byte list \<Rightarrow> trie_key \<Rightarrow> ('e, trie_key) outcome" where
  "key_extend bytes key =
     (let start = tk_len key; end = start + length bytes in
      if end \<le> length (tk_bytes key)
      then Ok \<lparr>tk_bytes = take start (tk_bytes key) @ bytes @ drop end (tk_bytes key), tk_len = end\<rparr>
      else Panic)"

type_synonym 'e component = "trie_key \<Rightarrow> ('e, trie_key) outcome"

definition append_u32 :: "32 word \<Rightarrow> 'e component" where
  "append_u32 v = key_extend (to_be 4 (unat v))"

definition append_u64 :: "64 word \<Rightarrow> 'e component" where
  "append_u64 v = key_extend (to_be 8 (unat v))"

definition append_pair :: "'e component \<Rightarrow> 'e component \<Rightarrow> 'e component" where
  "append_pair f g key = bind_outcome (f key) g"

definition append_client :: "client_idx \<Rightarrow> 'e component" where
  "append_client i = append_u32 (client_counter i)"

definition append_connection :: "connection_idx \<Rightarrow> 'e component" where
  "append_connection i = append_u32 (connection_counter i)"

definition append_channel :: "channel_idx \<Rightarrow> 'e component" where
  "append_channel i = append_u32 (channel_counter i)"

definition append_port :: "port_key \<Rightarrow> 'e component" where
  "append_port k = key_extend (port_bytes k)"

definition append_port_channel :: "port_channel \<Rightarrow> 'e component" where
  "append_port_channel pc = append_pair (append_port (pc_port_key pc)) (append_channel (pc_channel_idx pc))"

definition append_height :: "64 word \<times> 64 word \<Rightarrow> 'e component" where
  "append_height h = append_pair (append_u64 (fst h)) (append_u64 (snd h))"

definition append_upgrade :: "upgrade_type \<Rightarrow> 'e component" where
  "append_upgrade ty = key_extend [upgrade_byte ty]"

definition trie_key_new :: "tag \<Rightarrow> 'e component \<Rightarrow> ('e, trie_key) outcome" where
  "trie_key_new tag part = part \<lparr>tk_bytes = (replicate 22 0)[0 := tag_byte tag], tk_len = 1\<rparr>"

definition key_deref :: "trie_key \<Rightarrow> byte list" where
  "key_deref key = take (tk_len key) (tk_bytes key)"

definition for_client_state :: "client_idx \<Rightarrow> ('e, trie_key) outcome" where
  "for_client_state i = trie_key_new TagClientState (append_client i)"

definition for_consensus_state :: "client_idx \<Rightarrow> 64 word \<times> 64 word \<Rightarrow> ('e, trie_key) outcome" where
  "for_consensus_state i h = trie_key_new TagConsensusState (append_pair (append_client i) (append_height h))"

definition for_connection :: "connection_idx \<Rightarrow> ('e, trie_key) outcome" where
  "for_connection i = trie_key_new TagConnection (append_connection i)"

definition for_channel_path :: "tag \<Rightarrow> port_channel \<Rightarrow> ('e, trie_key) outcome" where
  "for_channel_path tag pc = trie_key_new tag (append_port_channel pc)"

definition for_channel_end :: "port_channel \<Rightarrow> ('e, trie_key) outcome" where
  "for_channel_end pc = for_channel_path TagChannelEnd pc"

definition for_next_sequence :: "port_channel \<Rightarrow> ('e, trie_key) outcome" where
  "for_next_sequence pc = for_channel_path TagNextSequence pc"

definition for_client_state_upgrade :: "64 word \<Rightarrow> ('e, trie_key) outcome" where
  "for_client_state_upgrade h =
     trie_key_new TagUpgradeClient (append_pair (append_u64 h) (append_upgrade UpgradeClientState))"

definition for_consensus_state_upgrade :: "64 word \<Rightarrow> ('e, trie_key) outcome" where
  "for_consensus_state_upgrade h =
     trie_key_new TagUpgradeClient (append_pair (append_u64 h) (append_upgrade UpgradeConsensusState))"

definition try_for_sequence_path ::
  "base64 \<Rightarrow> tag \<Rightarrow> string \<Rightarrow> string \<Rightarrow> 64 word \<Rightarrow> (id_error, trie_key) outcome" where
  "try_for_sequence_path b64 tag port_id channel_id seq =
     bind_outcome (port_channel_try_from b64 port_id channel_id) (\<lambda>pc.
       trie_key_new tag (append_pair (append_port_channel pc) (append_u64 seq)))"

text \<open>\<open>Display\<close>: two hexadecimal digits for each byte, written to a buffer of 44 characters.\<close>

definition hex_digit :: "nat \<Rightarrow> char" where
  "hex_digit n = ''0123456789abcdef'' ! n"

definition trie_key_display :: "trie_key \<Rightarrow> string" where
  "trie_key_display key =
     (let out = concat (map (\<lambda>b. [hex_digit (unat (drop_bit 4 b)), hex_digit (unat (b AND 15))]) (key_deref key))
      in take (tk_len key * 2) (out @ replicate (44 - length out) (CHR 0x00)))"

section \<open>Paths\<close>

text \<open>
  \<open>ibc::path::Path\<close> with the fields that are read; \<open>'u\<close> is the data of the
  paths that the trie does not support.
\<close>

datatype 'u ibc_path =
  NextClientSequence 'u
| NextConnectionSequence 'u
| NextChannelSequence 'u
| ClientState string
| ClientConsensusState string "64 word" "64 word"
| ClientUpdateTime 'u
| ClientUpdateHeight 'u
| ClientConnection 'u
| Connection string
| Ports 'u
| ChannelEnd string string
| SeqSend string string
| SeqRecv string string
| SeqAck string string
| Commitment string string "64 word"
| Ack string string "64 word"
| Receipt string string "64 word"
| UpgradeClient upgrade_type "64 word"

datatype seq_kind = SeqKindSend | SeqKindRecv | SeqKindAck

fun seq_kind_nat :: "seq_kind \<Rightarrow> nat" where
  "seq_kind_nat SeqKindSend = 0"
| "seq_kind_nat SeqKindRecv = 1"
| "seq_kind_nat SeqKindAck = 2"

record path_info =
  pi_key :: trie_key
  pi_client_id :: "string option"
  pi_seq_kind :: "seq_kind option"

datatype 'u path_error =
  BadChannel string
| BadClient string
| BadConnection string
| BadPort string
| UnsupportedPath "'u ibc_path"

text \<open>\<open>TrieKey\<close> from the paths that have a conversion of their own.\<close>

definition key_from_sequence_path :: "base64 \<Rightarrow> string \<Rightarrow> string \<Rightarrow> (id_error, trie_key) outcome" where
  "key_from_sequence_path b64 port_id channel_id =
     bind_outcome (port_channel_try_from b64 port_id channel_id) (for_channel_path TagNextSequence)"

definition key_from_commitment :: "base64 \<Rightarrow> string \<Rightarrow> string \<Rightarrow> 64 word \<Rightarrow> (id_error, trie_key) outcome" where
  "key_from_commitment b64 port_id channel_id seq = try_for_sequence_path b64 TagCommitment port_id channel_id seq"

definition key_from_receipt :: "base64 \<Rightarrow> string \<Rightarrow> string \<Rightarrow> 64 word \<Rightarrow> (id_error, trie_key) outcome" where
  "key_from_receipt b64 port_id channel_id seq = try_for_sequence_path b64 TagReceipt port_id channel_id seq"

definition key_from_ack :: "base64 \<Rightarrow> string \<Rightarrow> string \<Rightarrow> 64 word \<Rightarrow> (id_error, trie_key) outcome" where
  "key_from_ack b64 port_id channel_id seq = try_for_sequence_path b64 TagAck port_id channel_id seq"

definition key_from_upgrade :: "upgrade_type \<Rightarrow> 64 word \<Rightarrow> ('e, trie_key) outcome" where
  "key_from_upgrade ty h = trie_key_new TagUpgradeClient (append_pair (append_u64 h) (append_upgrade ty))"

definition with_client ::
  "string \<Rightarrow> (client_idx \<Rightarrow> ('u path_error, trie_key) outcome) \<Rightarrow> ('u path_error, path_info) outcome" where
  "with_client client_id make_key =
     (case client_idx_try_from client_id of
        Ok i \<Rightarrow> bind_outcome (make_key i) (\<lambda>key.
                 Ok \<lparr>pi_key = key, pi_client_id = Some client_id, pi_seq_kind = None\<rparr>)
      | _ \<Rightarrow> Err (BadClient client_id))"

definition with_channel ::
  "base64 \<Rightarrow> tag \<Rightarrow> string \<Rightarrow> string \<Rightarrow> ('u path_error, path_info) outcome" where
  "with_channel b64 tag port_id channel_id =
     (case port_key_try_from b64 (as_bytes port_id) of
        Ok k \<Rightarrow>
          (case channel_idx_try_from channel_id of
             Ok i \<Rightarrow> bind_outcome (trie_key_new tag (append_pair (append_port k) (append_channel i))) (\<lambda>key.
                      Ok \<lparr>pi_key = key, pi_client_id = None, pi_seq_kind = None\<rparr>)
           | _ \<Rightarrow> Err (BadChannel channel_id))
      | _ \<Rightarrow> Err (BadPort port_id))"

definition for_sequence ::
  "base64 \<Rightarrow> seq_kind \<Rightarrow> string \<Rightarrow> string \<Rightarrow> ('u path_error, path_info) outcome" where
  "for_sequence b64 kind port_id channel_id =
     bind_outcome (with_channel b64 TagNextSequence port_id channel_id) (\<lambda>info.
       Ok (info\<lparr>pi_seq_kind := Some kind\<rparr>))"

definition with_seq ::
  "base64 \<Rightarrow> tag \<Rightarrow> string \<Rightarrow> string \<Rightarrow> 64 word \<Rightarrow> ('u path_error, path_info) outcome" where
  "with_seq b64 tag port_id channel_id seq =
     (case port_key_try_from b64 (as_bytes port_id) of
        Ok k \<Rightarrow>
          (case channel_idx_try_from channel_id of
             Ok i \<Rightarrow>
               bind_outcome
                 (trie_key_new tag (append_pair (append_pair (append_port k) (append_channel i)) (append_u64 seq)))
                 (\<lambda>key. Ok \<lparr>pi_key = key, pi_client_id = None, pi_seq_kind = None\<rparr>)
           | _ \<Rightarrow> Err (BadChannel channel_id))
      | _ \<Rightarrow> Err (BadPort port_id))"

fun path_info_try_from :: "base64 \<Rightarrow> 'u ibc_path \<Rightarrow> ('u path_error, path_info) outcome" where
  "path_info_try_from b64 (NextClientSequence u) = Err (UnsupportedPath (NextClientSequence u))"
| "path_info_try_from b64 (NextConnectionSequence u) = Err (UnsupportedPath (NextConnectionSequence u))"
| "path_info_try_from b64 (NextChannelSequence u) = Err (UnsupportedPath (NextChannelSequence u))"
| "path_info_try_from b64 (ClientState client_id) = with_client client_id for_client_state"
| "path_info_try_from b64 (ClientConsensusState client_id number height) =
     with_client client_id (\<lambda>i. trie_key_new TagConsensusState
       (append_pair (append_client i) (append_pair (append_u64 number) (append_u64 height))))"
| "path_info_try_from b64 (ClientUpdateTime u) = Err (UnsupportedPath (ClientUpdateTime u))"
| "path_info_try_from b64 (ClientUpdateHeight u) = Err (UnsupportedPath (ClientUpdateHeight u))"
| "path_info_try_from b64 (ClientConnection u) = Err (UnsupportedPath (ClientConnection u))"
| "path_info_try_from b64 (Connection connection_id) =
     (case connection_idx_try_from connection_id of
        Ok i \<Rightarrow> bind_outcome (for_connection i) (\<lambda>key.
                 Ok \<lparr>pi_key = key, pi_client_id = None, pi_seq_kind = None\<rparr>)
      | _ \<Rightarrow> Err (BadConnection connection_id))"
| "path_info_try_from b64 (Ports u) = Err (UnsupportedPath (Ports u))"
| "path_info_try_from b64 (ChannelEnd port_id channel_id) = with_channel b64 TagChannelEnd port_id channel_id"
| "path_info_try_from b64 (SeqSend port_id channel_id) = for_sequence b64 SeqKindSend port_id channel_id"
| "path_info_try_from b64 (SeqRecv port_id channel_id) = for_sequence b64 SeqKindRecv port_id channel_id"
| "path_info_try_from b64 (SeqAck port_id channel_id) = for_sequence b64 SeqKindAck port_id channel_id"
| "path_info_try_from b64 (Commitment port_id channel_id seq) = with_seq b64 TagCommitment port_id channel_id seq"
| "path_info_try_from b64 (Ack port_id channel_id seq) = with_seq b64 TagAck port_id channel_id seq"
| "path_info_try_from b64 (Receipt port_id channel_id seq) = with_seq b64 TagReceipt port_id channel_id seq"
| "path_info_try_from b64 (UpgradeClient ty height) =
     bind_outcome (key_from_upgrade ty height) (\<lambda>key.
       Ok \<lparr>pi_key = key, pi_client_id = None, pi_seq_kind = None\<rparr>)"

section \<open>Locations\<close>

text \<open>
  What the keys stand for. Two paths that store the same object have the same
  location: the three sequence numbers of a channel are kept together, and a
  client is identified by its counter alone.
\<close>

datatype location =
  LocClientState counter
| LocConsensusState counter "64 word" "64 word"
| LocConnection counter
| LocChannelEnd port_key counter
| LocNextSequence port_key counter
| LocCommitment port_key counter "64 word"
| LocReceipt port_key counter "64 word"
| LocAck port_key counter "64 word"
| LocUpgradeClient "64 word" upgrade_type

definition be32 :: "32 word \<Rightarrow> byte list" where "be32 v = to_be 4 (unat v)"

definition be64 :: "64 word \<Rightarrow> byte list" where "be64 v = to_be 8 (unat v)"

fun loc_bytes :: "location \<Rightarrow> byte list" where
  "loc_bytes (LocClientState c) = 0 # be32 c"
| "loc_bytes (LocConsensusState c r h) = 1 # be32 c @ be64 r @ be64 h"
| "loc_bytes (LocConnection c) = 2 # be32 c"
| "loc_bytes (LocChannelEnd p c) = 3 # port_bytes p @ be32 c"
| "loc_bytes (LocNextSequence p c) = 4 # port_bytes p @ be32 c"
| "loc_bytes (LocCommitment p c s) = 5 # port_bytes p @ be32 c @ be64 s"
| "loc_bytes (LocReceipt p c s) = 6 # port_bytes p @ be32 c @ be64 s"
| "loc_bytes (LocAck p c s) = 7 # port_bytes p @ be32 c @ be64 s"
| "loc_bytes (LocUpgradeClient h ty) = 8 # be64 h @ [upgrade_byte ty]"

fun loc_port :: "location \<Rightarrow> port_key option" where
  "loc_port (LocChannelEnd p c) = Some p"
| "loc_port (LocNextSequence p c) = Some p"
| "loc_port (LocCommitment p c s) = Some p"
| "loc_port (LocReceipt p c s) = Some p"
| "loc_port (LocAck p c s) = Some p"
| "loc_port _ = None"

definition loc_inv :: "location \<Rightarrow> bool" where
  "loc_inv l \<longleftrightarrow> (case loc_port l of None \<Rightarrow> True | Some p \<Rightarrow> length (port_bytes p) = 9)"

definition ok_option :: "('e, 'a) outcome \<Rightarrow> 'a option" where
  "ok_option r = (case r of Ok a \<Rightarrow> Some a | _ \<Rightarrow> None)"

definition loc_channel ::
  "base64 \<Rightarrow> string \<Rightarrow> string \<Rightarrow> (port_key \<Rightarrow> counter \<Rightarrow> location) \<Rightarrow> location option" where
  "loc_channel b64 port_id channel_id f =
     Option.bind (ok_option (port_key_try_from b64 (as_bytes port_id))) (\<lambda>p.
       map_option (\<lambda>i. f p (channel_counter i)) (ok_option (channel_idx_try_from channel_id)))"

fun path_location :: "base64 \<Rightarrow> 'u ibc_path \<Rightarrow> location option" where
  "path_location b64 (ClientState c) =
     map_option (\<lambda>i. LocClientState (client_counter i)) (ok_option (client_idx_try_from c))"
| "path_location b64 (ClientConsensusState c r h) =
     map_option (\<lambda>i. LocConsensusState (client_counter i) r h) (ok_option (client_idx_try_from c))"
| "path_location b64 (Connection c) =
     map_option (\<lambda>i. LocConnection (connection_counter i)) (ok_option (connection_idx_try_from c))"
| "path_location b64 (ChannelEnd p c) = loc_channel b64 p c LocChannelEnd"
| "path_location b64 (SeqSend p c) = loc_channel b64 p c LocNextSequence"
| "path_location b64 (SeqRecv p c) = loc_channel b64 p c LocNextSequence"
| "path_location b64 (SeqAck p c) = loc_channel b64 p c LocNextSequence"
| "path_location b64 (Commitment p c s) = loc_channel b64 p c (\<lambda>p c. LocCommitment p c s)"
| "path_location b64 (Receipt p c s) = loc_channel b64 p c (\<lambda>p c. LocReceipt p c s)"
| "path_location b64 (Ack p c s) = loc_channel b64 p c (\<lambda>p c. LocAck p c s)"
| "path_location b64 (UpgradeClient ty h) = Some (LocUpgradeClient h ty)"
| "path_location b64 _ = None"

subsection \<open>The encoding is injective and prefix-free\<close>

lemma length_be [simp]: "length (be32 v) = 4" "length (be64 w) = 8"
  by (simp_all add: be32_def be64_def)

lemma be32_inject [simp]: "be32 v = be32 w \<longleftrightarrow> v = w"
proof -
  have "unat v < 256 ^ 4" "unat w < 256 ^ 4" using unsigned_less[of v] unsigned_less[of w] by simp_all
  then show ?thesis by (simp add: be32_def to_be_inject word_unat_eq_iff)
qed

lemma be64_inject [simp]: "be64 v = be64 w \<longleftrightarrow> v = w"
proof -
  have "unat v < 256 ^ 8" "unat w < 256 ^ 8" using unsigned_less[of v] unsigned_less[of w] by simp_all
  then show ?thesis by (simp add: be64_def to_be_inject word_unat_eq_iff)
qed

lemma upgrade_byte_inject [simp]: "upgrade_byte a = upgrade_byte b \<longleftrightarrow> a = b"
  by (cases a; cases b) auto

lemma port_bytes_inject [simp]: "port_bytes a = port_bytes b \<longleftrightarrow> a = b"
  by (cases a; cases b) auto

lemma loc_bytes_inject:
  assumes "loc_inv l" "loc_inv m" "loc_bytes l = loc_bytes m"
  shows "l = m"
  using assms by (cases l; cases m) (auto simp: loc_inv_def)

lemma prefix_same_length: "prefix xs ys \<Longrightarrow> length xs = length ys \<Longrightarrow> xs = ys"
  by (auto simp: prefix_def)

lemma loc_bytes_length:
  assumes "loc_inv l" "loc_inv m" "hd (loc_bytes l) = hd (loc_bytes m)"
  shows "length (loc_bytes l) = length (loc_bytes m)"
  using assms by (cases l; cases m) (auto simp: loc_inv_def)

lemma loc_bytes_bounds: "loc_inv l \<Longrightarrow> loc_bytes l \<noteq> [] \<and> length (loc_bytes l) \<le> 22"
  by (cases l) (auto simp: loc_inv_def)

lemma loc_bytes_prefix_free:
  assumes l: "loc_inv l" "loc_inv m" and p: "prefix (loc_bytes l) (loc_bytes m)"
  shows "l = m"
proof -
  have "hd (loc_bytes l) = hd (loc_bytes m)"
    using p loc_bytes_bounds[OF l(1)] by (auto simp: prefix_def)
  then have "loc_bytes l = loc_bytes m" using p loc_bytes_length[OF l] prefix_same_length by blast
  then show ?thesis by (rule loc_bytes_inject[OF l])
qed

subsection \<open>The keys are the encodings\<close>

definition key_inv :: "trie_key \<Rightarrow> bool" where
  "key_inv key \<longleftrightarrow> length (tk_bytes key) = 22 \<and> tk_len key \<le> 22"

text \<open>A component writes a byte string when there is room for it.\<close>

definition writes :: "'e component \<Rightarrow> byte list \<Rightarrow> bool" where
  "writes f bs \<longleftrightarrow>
     (\<forall>key. key_inv key \<and> tk_len key + length bs \<le> 22 \<longrightarrow>
        (\<exists>key'. f key = Ok key' \<and> key_inv key' \<and> tk_len key' = tk_len key + length bs \<and>
           key_deref key' = key_deref key @ bs))"

lemma writes_extend: "writes (key_extend bs) bs"
  unfolding writes_def
proof (intro allI impI, elim conjE)
  fix key :: trie_key assume inv: "key_inv key" and room: "tk_len key + length bs \<le> 22"
  let ?key = "\<lparr>tk_bytes = take (tk_len key) (tk_bytes key) @ bs @ drop (tk_len key + length bs) (tk_bytes key),
    tk_len = tk_len key + length bs\<rparr>"
  have "key_extend bs key = Ok ?key" using inv room by (simp add: key_extend_def key_inv_def Let_def)
  moreover have "key_inv ?key" "key_deref ?key = key_deref key @ bs"
    using inv room by (simp_all add: key_inv_def key_deref_def)
  ultimately show "\<exists>key'. key_extend bs key = Ok key' \<and> key_inv key' \<and>
      tk_len key' = tk_len key + length bs \<and> key_deref key' = key_deref key @ bs"
    by (intro exI[of _ ?key]) simp
qed

lemma writes_pair:
  assumes f: "writes f xs" and g: "writes g ys"
  shows "writes (append_pair f g) (xs @ ys)"
  unfolding writes_def
proof (intro allI impI, elim conjE)
  fix key :: trie_key assume inv: "key_inv key" and room: "tk_len key + length (xs @ ys) \<le> 22"
  obtain k where k: "f key = Ok k" "key_inv k" "tk_len k = tk_len key + length xs"
      "key_deref k = key_deref key @ xs"
    using f inv room unfolding writes_def by (metis add_leD1 add.assoc length_append)
  obtain k' where "g k = Ok k'" "key_inv k'" "tk_len k' = tk_len k + length ys"
      "key_deref k' = key_deref k @ ys"
    using g k(2,3) room unfolding writes_def by (metis add.assoc length_append)
  with k show "\<exists>key'. append_pair f g key = Ok key' \<and> key_inv key' \<and>
      tk_len key' = tk_len key + length (xs @ ys) \<and> key_deref key' = key_deref key @ xs @ ys"
    by (simp add: append_pair_def)
qed

lemma writes_basic:
  "writes (append_u32 v) (be32 v)" "writes (append_u64 w) (be64 w)"
  "writes (append_port p) (port_bytes p)" "writes (append_upgrade ty) [upgrade_byte ty]"
  "writes (append_client i) (be32 (client_counter i))"
  "writes (append_connection j) (be32 (connection_counter j))"
  "writes (append_channel k) (be32 (channel_counter k))"
  by (simp_all add: append_u32_def append_u64_def append_port_def append_upgrade_def append_client_def
      append_connection_def append_channel_def be32_def be64_def writes_extend)

lemma trie_key_new_writes:
  assumes "writes f bs" "length bs \<le> 21"
  shows "\<exists>key. trie_key_new tag f = Ok key \<and> key_inv key \<and> key_deref key = tag_byte tag # bs"
proof -
  let ?k = "\<lparr>tk_bytes = (replicate 22 0)[0 := tag_byte tag], tk_len = 1\<rparr>"
  have "key_inv ?k" "tk_len ?k + length bs \<le> 22" using assms(2) by (simp_all add: key_inv_def)
  then obtain key where "f ?k = Ok key" "key_inv key" "key_deref key = key_deref ?k @ bs"
    using assms(1) unfolding writes_def by blast
  moreover have "key_deref ?k = [tag_byte tag]"
    by (simp add: key_deref_def numeral_eq_Suc)
  ultimately show ?thesis by (simp add: trie_key_new_def)
qed

lemmas key_writes = trie_key_new_writes[OF writes_basic(5)] trie_key_new_writes[OF writes_basic(6)]
  trie_key_new_writes[OF writes_pair[OF writes_basic(5) writes_pair[OF writes_basic(2) writes_basic(2)]]]
  trie_key_new_writes[OF writes_pair[OF writes_basic(3) writes_basic(7)]]
  trie_key_new_writes[OF writes_pair[OF writes_pair[OF writes_basic(3) writes_basic(7)] writes_basic(2)]]
  trie_key_new_writes[OF writes_pair[OF writes_basic(2) writes_basic(4)]]

lemma ok_option_simps [simp]: "ok_option (Ok a) = Some a" "ok_option (Err e) = None" "ok_option Panic = None"
  by (simp_all add: ok_option_def)

definition encodes :: "('e, path_info) outcome \<Rightarrow> location option \<Rightarrow> bool" where
  "encodes r l = (case l of
     Some l \<Rightarrow> \<exists>info. r = Ok info \<and> key_deref (pi_key info) = loc_bytes l
   | None \<Rightarrow> \<exists>e. r = Err e)"

context base64_engine
begin

lemma port_key_length:
  assumes "port_key_try_from b64 s = Ok p"
  shows "length (port_bytes p) = 9"
proof -
  have short: "length s \<le> 12" using assms by (auto simp: port_key_try_from_def split: if_splits)
  let ?buf = "s @ drop (length s) (replicate 12 0x2F)"
  obtain bs where bs: "b64_dec b64 ?buf = Some bs" and p: "p = PortKey (bs @ drop (length bs) (replicate 9 0))"
    using assms by (auto simp: port_key_try_from_def Let_def split: if_splits option.splits)
  have "length bs \<le> 9" using dec_length[OF _ bs] short by simp
  then show ?thesis by (simp add: p)
qed

lemma loc_channel_inv:
  assumes "loc_channel b64 p c f = Some l" and "\<And>p c. length (port_bytes p) = 9 \<Longrightarrow> loc_inv (f p c)"
  shows "loc_inv l"
  using assms port_key_length
  by (auto simp: loc_channel_def ok_option_def bind_eq_Some_conv split: outcome.splits)

lemma path_location_inv:
  assumes "path_location b64 path = Some l"
  shows "loc_inv l"
proof -
  have simple: "loc_inv (LocClientState c)" "loc_inv (LocConsensusState c r h)" "loc_inv (LocConnection c)"
      "loc_inv (LocUpgradeClient h ty)" for c r h ty
    by (simp_all add: loc_inv_def)
  have port: "loc_inv (LocChannelEnd p c)" "loc_inv (LocNextSequence p c)" "loc_inv (LocCommitment p c s)"
      "loc_inv (LocReceipt p c s)" "loc_inv (LocAck p c s)" if "length (port_bytes p) = 9" for p c s
    using that by (simp_all add: loc_inv_def)
  show ?thesis using assms by (cases path) (auto simp: simple intro: loc_channel_inv port)
qed

text \<open>Converting a path gives the bytes of its location, or an error when it has none.\<close>

lemma with_client_spec:
  assumes "\<And>i. \<exists>key. make_key i = Ok key \<and> key_inv key \<and> key_deref key = loc_bytes (f i)"
  shows "encodes (with_client c make_key) (map_option f (ok_option (client_idx_try_from c)))"
proof (cases "client_idx_try_from c")
  case (Ok i)
  with assms[of i] show ?thesis by (auto simp: with_client_def encodes_def)
qed (auto simp: with_client_def encodes_def)

lemma with_channel_spec:
  assumes "\<And>p i. loc_bytes (f p i) = tag_byte tag # port_bytes p @ be32 i"
  shows "encodes (with_channel b64 tag p c :: ('u path_error, path_info) outcome) (loc_channel b64 p c f)"
proof (cases "port_key_try_from b64 (as_bytes p)")
  case (Ok k)
  note k = Ok
  show ?thesis
  proof (cases "channel_idx_try_from c")
    case (Ok i)
    obtain key where "(trie_key_new tag (append_pair (append_port k) (append_channel i)) :: ('u path_error, trie_key) outcome) = Ok key"
        "key_deref key = tag_byte tag # port_bytes k @ be32 (channel_counter i)"
      using key_writes(4)[of k i tag] port_key_length[OF k] by auto
    with k Ok show ?thesis by (simp add: with_channel_def encodes_def loc_channel_def assms)
  qed (use k in \<open>auto simp: with_channel_def encodes_def loc_channel_def\<close>)
qed (auto simp: with_channel_def encodes_def loc_channel_def)

lemma for_sequence_spec: "encodes (for_sequence b64 kind p c :: ('u path_error, path_info) outcome) (loc_channel b64 p c LocNextSequence)"
  using with_channel_spec[where ?'u = 'u, of LocNextSequence TagNextSequence p c]
  by (auto simp: encodes_def for_sequence_def split: option.splits)

lemma with_seq_spec:
  assumes "\<And>p i. loc_bytes (f p i) = tag_byte tag # port_bytes p @ be32 i @ be64 s"
  shows "encodes (with_seq b64 tag p c s :: ('u path_error, path_info) outcome) (loc_channel b64 p c f)"
proof (cases "port_key_try_from b64 (as_bytes p)")
  case (Ok k)
  note k = Ok
  show ?thesis
  proof (cases "channel_idx_try_from c")
    case (Ok i)
    obtain key where
        "(trie_key_new tag (append_pair (append_pair (append_port k) (append_channel i)) (append_u64 s)) :: ('u path_error, trie_key) outcome) = Ok key"
        "key_deref key = tag_byte tag # port_bytes k @ be32 (channel_counter i) @ be64 s"
      using key_writes(5)[of k i s tag] port_key_length[OF k] by auto
    with k Ok show ?thesis by (simp add: with_seq_def encodes_def loc_channel_def assms)
  qed (use k in \<open>auto simp: with_seq_def encodes_def loc_channel_def\<close>)
qed (auto simp: with_seq_def encodes_def loc_channel_def)

lemma path_info_spec: "encodes (path_info_try_from b64 (path :: 'u ibc_path)) (path_location b64 path)"
proof (cases path)
  case (ClientState c)
  have "\<exists>key. for_client_state i = Ok key \<and> key_inv key \<and> key_deref key = loc_bytes (LocClientState (client_counter i))" for i
    using key_writes(1)[of i TagClientState] by (simp add: for_client_state_def)
  from with_client_spec[OF this] show ?thesis unfolding ClientState path_info_try_from.simps path_location.simps .
next
  case (ClientConsensusState c r h)
  have "\<exists>key. trie_key_new TagConsensusState (append_pair (append_client i) (append_pair (append_u64 r) (append_u64 h))) = Ok key \<and>
      key_inv key \<and> key_deref key = loc_bytes (LocConsensusState (client_counter i) r h)" for i
    using key_writes(3)[of i r h TagConsensusState] by simp
  from with_client_spec[OF this] show ?thesis unfolding ClientConsensusState path_info_try_from.simps path_location.simps .
next
  case (Connection c)
  show ?thesis
  proof (cases "connection_idx_try_from c")
    case (Ok i)
    then show ?thesis using key_writes(2)[where ?'a = "'u path_error", of i TagConnection] by (auto simp: Connection encodes_def for_connection_def)
  qed (auto simp: Connection encodes_def)
next
  case (UpgradeClient ty h)
  then show ?thesis using key_writes(6)[where ?'a = "'u path_error", of h ty TagUpgradeClient] by (auto simp: encodes_def key_from_upgrade_def)
qed (simp_all add: with_channel_spec with_seq_spec for_sequence_spec, simp_all add: encodes_def)

end

section \<open>Round trips of identifiers\<close>

lemma digit_val_char: "n < 10 \<Longrightarrow> digit_val (char_of (48 + n)) = Some n"
  by (simp add: digit_val_def)

lemma parse_digits_snoc:
  "parse_digits acc (s @ [c]) = Option.bind (parse_digits acc s) (\<lambda>m. parse_digits m [c])"
  by (induction acc s rule: parse_digits.induct) (auto split: option.splits)

lemma parse_show: "n < 2 ^ 32 \<Longrightarrow> parse_digits 0 (show_nat n) = Some n"
proof (induction n rule: show_nat.induct)
  case (1 n)
  show ?case
  proof (cases "n < 10")
    case True
    then show ?thesis using digit_val_char[of n] by (simp add: show_nat.simps[of n])
  next
    case False
    with 1 have "parse_digits 0 (show_nat (n div 10)) = Some (n div 10)" by simp
    moreover have "10 * (n div 10) + n mod 10 = n" by simp
    moreover have "digit_val (char_of (48 + n mod 10)) = Some (n mod 10)" by (rule digit_val_char) simp
    ultimately show ?thesis using False 1(2) unfolding show_nat.simps[of n] by (simp add: parse_digits_snoc)
  qed
qed

lemma show_nat_head: "show_nat n \<noteq> [] \<and> hd (show_nat n) \<noteq> CHR ''+''"
proof (induction n rule: show_nat.induct)
  case (1 n)
  have ne: "char_of (48 + m) \<noteq> CHR ''+''" if "m < 10" for m :: nat
  proof
    assume "char_of (48 + m) = CHR ''+''"
    then have "digit_val (CHR ''+'') = Some m" using digit_val_char[OF that] by simp
    then show False by (simp add: digit_val_def)
  qed
  show ?case
  proof (cases "n < 10")
    case True
    then show ?thesis using ne[of n] by (simp add: show_nat.simps[of n])
  next
    case False
    with 1 show ?thesis by (simp add: show_nat.simps[of n])
  qed
qed

lemma from_counter_show: "from_counter (show_nat (unat (c :: counter))) = Some c"
proof -
  have "unat c < 2 ^ 32" using unsigned_less[of c] by simp
  then have "u32_from_str (show_nat (unat c)) = Some (unat c)"
    using show_nat_head[of "unat c"] parse_show[of "unat c"]
    by (auto simp: u32_from_str_def simp del: parse_digits.simps split: list.splits)
  then show ?thesis by (simp add: from_counter_def)
qed

lemma from_prefixed_show: "from_prefixed p (p @ show_nat (unat c)) = Some c"
  by (simp add: from_prefixed_def strip_str_def from_counter_show)

subsection \<open>Ports\<close>

definition alnum_byte :: "byte \<Rightarrow> bool" where
  "alnum_byte b \<longleftrightarrow> b64_alphabet b \<and> b \<noteq> 0x2B \<and> b \<noteq> 0x2F"

lemma strip_slashes_append:
  assumes "s = [] \<or> last s \<noteq> 0x2F"
  shows "strip_slashes (s @ replicate n 0x2F) (length s + n) = length s"
proof (induction n)
  case 0
  show ?case
  proof (cases s rule: rev_cases)
    case (snoc xs x)
    with assms show ?thesis by (simp add: nth_append)
  qed simp
next
  case (Suc n)
  have nth: "(s @ replicate (Suc n) 0x2F) ! m = (s @ replicate n 0x2F) ! m" if "m < length s + n" for m
    using that by (simp add: nth_append nth_replicate del: replicate_Suc)
  have "strip_slashes (s @ replicate (Suc n) 0x2F) m = strip_slashes (s @ replicate n 0x2F) m"
    if "m \<le> length s + n" for m
    using that by (induction m) (simp_all add: nth del: replicate_Suc)
  moreover have "(s @ replicate (Suc n) 0x2F) ! (length s + n) = 0x2F"
    by (simp add: nth_append nth_replicate del: replicate_Suc)
  ultimately show ?case using Suc by simp
qed

lemma position_from_append:
  "list_all (\<lambda>b. \<not> P b) s \<Longrightarrow> position_from P (s @ t) = map_option ((+) (length s)) (position_from P t)"
  by (induction s) (auto simp: option.map_comp comp_def map_option_case split: option.splits)

context base64_engine
begin

lemma port_key_alnum:
  assumes len: "length s \<le> 12" and al: "list_all alnum_byte s"
  obtains bs where "port_key_try_from b64 s = Ok (PortKey bs)" "length bs = 9"
    "b64_enc b64 bs = s @ replicate (12 - length s) 0x2F"
proof -
  have buf: "list_all b64_alphabet (s @ replicate (12 - length s) 0x2F)"
    using al by (auto simp: list_all_iff alnum_byte_def) (simp add: b64_alphabet_def)
  obtain bs where bs: "b64_dec b64 (s @ replicate (12 - length s) 0x2F) = Some bs" "length bs = 9"
      "b64_enc b64 bs = s @ replicate (12 - length s) 0x2F"
    using dec_alphabet[OF _ buf] len by auto
  have "\<not> (\<exists>b\<in>set s. b = 0x2B \<or> b = 0x2F)" using al by (auto simp: list_all_iff alnum_byte_def)
  with len bs have "port_key_try_from b64 s = Ok (PortKey bs)" by (simp add: port_key_try_from_def Let_def)
  with bs that show ?thesis by blast
qed

lemma write_into_alnum:
  assumes "list_all alnum_byte s" "b64_enc b64 bs = s @ replicate n 0x2F"
  shows "write_into b64 (PortKey bs) = s"
proof -
  have "s = [] \<or> last s \<noteq> 0x2F" using assms(1) by (cases s rule: rev_cases) (auto simp: alnum_byte_def)
  from strip_slashes_append[OF this, of n] show ?thesis
    by (simp add: write_into_def assms(2) Let_def)
qed

lemma position_alnum:
  assumes "list_all alnum_byte s" "length s \<le> 12"
  shows "position_from (\<lambda>b. b = 0x2B \<or> b = 0x2F) (s @ replicate (12 - length s) 0x2F) =
    (if length s < 12 then Some (length s) else None)"
proof -
  have "list_all (\<lambda>b. \<not> (b = 0x2B \<or> b = 0x2F)) s" using assms(1) by (auto simp: list_all_iff alnum_byte_def)
  then show ?thesis
    using position_from_append[where P = "\<lambda>b. b = 0x2B \<or> b = 0x2F" and s = s and t = "replicate (12 - length s) 0x2F"] assms(2)
    by (cases "12 - length s") auto
qed

text \<open>A port identifier of two characters is written by borsh and not read back.\<close>

lemma port_key_deserialize_alnum:
  assumes codec: "borsh codec" and s: "list_all alnum_byte s" "length s \<le> 12"
    and bs: "length bs = 9" "b64_enc b64 bs = s @ replicate (12 - length s) 0x2F"
  shows "port_key_deserialize codec b64 (put_array codec bs @ rest) =
    (if 2 < length s then Some (PortKey bs, rest) else None)"
  using borsh.take_put_array[OF codec bs(1)] position_alnum[OF s] s(2)
  by (simp add: port_key_deserialize_def bs(2) list_all_iff)

end

subsection \<open>The documented base64\<close>

text \<open>RFC 4648 for input whose length is a multiple of three.\<close>

definition b64_sym :: "nat \<Rightarrow> byte" where
  "b64_sym n = word_of_nat
     (if n < 26 then n + 65 else if n < 52 then n + 71 else if n < 62 then n - 4 else if n = 62 then 43 else 47)"

definition b64_val :: "byte \<Rightarrow> nat option" where
  "b64_val b =
     (let n = unat b in
      if 65 \<le> n \<and> n \<le> 90 then Some (n - 65) else if 97 \<le> n \<and> n \<le> 122 then Some (n - 71)
      else if 48 \<le> n \<and> n \<le> 57 then Some (n + 4) else if n = 43 then Some 62
      else if n = 47 then Some 63 else None)"

fun to_64 :: "nat \<Rightarrow> nat \<Rightarrow> nat list" where
  "to_64 0 v = []"
| "to_64 (Suc n) v = v mod 64 # to_64 n (v div 64)"

fun from_64 :: "nat list \<Rightarrow> nat" where
  "from_64 [] = 0"
| "from_64 (d # ds) = d + 64 * from_64 ds"

definition b64_encode :: "byte list \<Rightarrow> byte list" where
  "b64_encode bs = rev (map b64_sym (to_64 (4 * (length bs div 3)) (from_be bs)))"

definition b64_decode :: "byte list \<Rightarrow> byte list option" where
  "b64_decode s =
     (if list_all b64_alphabet s \<and> length s mod 4 = 0
      then Some (to_be (3 * (length s div 4)) (from_64 (map (\<lambda>c. the (b64_val c)) (rev s))))
      else None)"

definition b64_rfc :: base64 where
  "b64_rfc = \<lparr>b64_enc = b64_encode, b64_dec = b64_decode\<rparr>"

lemma b64_val_sym: "n < 64 \<Longrightarrow> b64_val (b64_sym n) = Some n"
  by (auto simp: b64_val_def b64_sym_def Let_def unat_byte_of_nat)

lemma b64_sym_val: "b64_val b = Some n \<Longrightarrow> n < 64 \<and> b64_sym n = b"
  by (auto simp: b64_val_def b64_sym_def Let_def word_unat_eq_iff unat_byte_of_nat split: if_splits)

lemma b64_val_None: "b64_val b = None \<longleftrightarrow> \<not> b64_alphabet b"
  by (auto simp: b64_val_def b64_alphabet_def Let_def)

lemma b64_alphabet_sym: "n < 64 \<Longrightarrow> b64_alphabet (b64_sym n)"
  using b64_val_sym[of n] b64_val_None[of "b64_sym n"] by auto

lemma length_to_64 [simp]: "length (to_64 n v) = n"
  by (induction n arbitrary: v) auto

lemma to_64_less: "d \<in> set (to_64 n v) \<Longrightarrow> d < 64"
  by (induction n arbitrary: v) auto

lemma from_64_to_64: "v < 64 ^ n \<Longrightarrow> from_64 (to_64 n v) = v"
proof (induction n arbitrary: v)
  case (Suc n)
  then have "v div 64 < 64 ^ n" by (simp add: less_mult_imp_div_less mult.commute)
  with Suc show ?case by simp
qed simp

lemma to_64_from_64: "\<forall>d\<in>set ds. d < 64 \<Longrightarrow> to_64 (length ds) (from_64 ds) = ds"
  by (induction ds) auto

lemma from_64_bound: "\<forall>d\<in>set ds. d < 64 \<Longrightarrow> from_64 ds < 64 ^ length ds"
  by (induction ds) auto

lemma b64_encode_alphabet: "list_all b64_alphabet (b64_encode bs)"
  by (auto simp: b64_encode_def list_all_iff dest!: to_64_less intro: b64_alphabet_sym)

lemma b64_decode_encode:
  assumes "length bs = 9"
  shows "b64_decode (b64_encode bs) = Some bs"
proof -
  have "map (\<lambda>c. the (b64_val c)) (map b64_sym (to_64 12 (from_be bs))) = to_64 12 (from_be bs)"
    using to_64_less[of _ 12 "from_be bs"] by (auto simp: b64_val_sym intro!: map_idI)
  moreover have "from_64 (to_64 12 (from_be bs)) = from_be bs"
    using from_be_bound[of bs] assms by (intro from_64_to_64) simp
  ultimately show ?thesis
    using assms b64_encode_alphabet[of bs] by (simp add: b64_decode_def b64_encode_def rev_map[symmetric] del: map_map)
qed

lemma b64_encode_decode:
  assumes "length s = 12" "list_all b64_alphabet s"
  shows "\<exists>bs. b64_decode s = Some bs \<and> length bs = 9 \<and> b64_encode bs = s"
proof -
  define ds where "ds = map (\<lambda>c. the (b64_val c)) (rev s)"
  have val: "the (b64_val c) < 64 \<and> b64_sym (the (b64_val c)) = c" if "c \<in> set s" for c
    using assms(2) that b64_val_None[of c] b64_sym_val[of c] by (force simp: list_all_iff)
  have ds: "length ds = 12" "\<forall>d\<in>set ds. d < 64" "map b64_sym ds = rev s"
    using assms(1) val by (auto simp: ds_def intro!: map_idI)
  have "from_64 ds < 256 ^ 9" using from_64_bound[OF ds(2)] ds(1) by simp
  then have "b64_encode (to_be 9 (from_64 ds)) = s"
    using to_64_from_64[OF ds(2)] ds(1,3) by (simp add: b64_encode_def)
  then show ?thesis using assms by (simp add: b64_decode_def ds_def)
qed

interpretation rfc: base64_engine b64_rfc
proof unfold_locales
  show "\<And>bs. length bs = 9 \<Longrightarrow> length (b64_enc b64_rfc bs) = 12"
    by (simp add: b64_rfc_def b64_encode_def)
  show "\<And>s bs. length s = 12 \<Longrightarrow> b64_dec b64_rfc s = Some bs \<Longrightarrow> length bs \<le> 9"
    by (auto simp: b64_rfc_def b64_decode_def split: if_splits)
  show "\<And>s c. length s = 12 \<Longrightarrow> c \<in> set s \<Longrightarrow> \<not> b64_alphabet c \<Longrightarrow> c \<noteq> 0x3D \<Longrightarrow> b64_dec b64_rfc s = None"
    by (auto simp: b64_rfc_def b64_decode_def list_all_iff)
qed (simp_all add: b64_rfc_def b64_decode_encode b64_encode_alphabet b64_encode_decode)

section \<open>Properties\<close>

lemma ex_ids:
  "from_prefixed CONNECTION_PREFIX ''connection-4'' = Some 4"
  "from_prefixed CHANNEL_PREFIX ''channel-5'' = Some 5"
  "from_prefixed CHANNEL_PREFIX ''channel-+5'' = Some 5"
  "from_prefixed CHANNEL_PREFIX ''channel-005'' = Some 5"
  "from_prefixed CHANNEL_PREFIX ''channel-4294967296'' = None"
  by (simp_all add: from_prefixed_def strip_str_def CONNECTION_PREFIX_def CHANNEL_PREFIX_def from_counter_def
      u32_from_str_def digit_val_def)

lemma ex_alnum: "length (as_bytes ''transfer'') \<le> 12" "list_all alnum_byte (as_bytes ''transfer'')"
  by (simp_all add: as_bytes_def alnum_byte_def b64_alphabet_def)

lemma ex_locations:
  "path_location b64_rfc (Connection ''connection-4'' :: unit ibc_path) = Some (LocConnection 4)"
  "\<exists>p. path_location b64_rfc (ChannelEnd ''transfer'' ''channel-5'' :: unit ibc_path) = Some (LocChannelEnd p 5)"
  by (auto simp: connection_idx_try_from_def channel_idx_try_from_def ex_ids loc_channel_def
      intro: rfc.port_key_alnum[OF ex_alnum])

text \<open>
  C29: the key of a path is a prefix of the key of another path only if both paths store
  the same object, and then the keys are equal; keys have one to 22 bytes and no path
  makes the conversion panic.
\<close>

theorem path_keys_prefix_free:
  assumes "base64_engine b64"
    and "path_info_try_from b64 p = Ok i" and "path_info_try_from b64 q = Ok j"
  shows "(prefix (key_deref (pi_key i)) (key_deref (pi_key j)) \<longleftrightarrow> path_location b64 p = path_location b64 q) \<and>
    (path_location b64 p = path_location b64 q \<longleftrightarrow> key_deref (pi_key i) = key_deref (pi_key j)) \<and>
    key_deref (pi_key i) \<noteq> [] \<and> length (key_deref (pi_key i)) \<le> 22 \<and> path_info_try_from b64 r \<noteq> Panic"
proof -
  note spec = base64_engine.path_info_spec[OF assms(1)] and inv = base64_engine.path_location_inv[OF assms(1)]
  obtain l m where l: "path_location b64 p = Some l" "key_deref (pi_key i) = loc_bytes l"
    and m: "path_location b64 q = Some m" "key_deref (pi_key j) = loc_bytes m"
    using spec[of p] spec[of q] assms(2,3) by (auto simp: encodes_def split: option.splits)
  have "path_info_try_from b64 r \<noteq> Panic" using spec[of r] by (auto simp: encodes_def split: option.splits)
  moreover have "prefix (loc_bytes l) (loc_bytes m) \<longleftrightarrow> l = m"
    using loc_bytes_prefix_free[OF inv[OF l(1)] inv[OF m(1)]] by auto
  moreover have "loc_bytes l = loc_bytes m \<longleftrightarrow> l = m"
    using loc_bytes_inject[OF inv[OF l(1)] inv[OF m(1)]] by auto
  ultimately show ?thesis using l m loc_bytes_bounds[OF inv[OF l(1)]] by simp
qed

theorem path_keys_prefix_free_witness:
  "\<exists>i j. path_info_try_from b64_rfc (Connection ''connection-4'' :: unit ibc_path) = Ok i \<and>
     path_info_try_from b64_rfc (ChannelEnd ''transfer'' ''channel-5'' :: unit ibc_path) = Ok j \<and>
     \<not> prefix (key_deref (pi_key i)) (key_deref (pi_key j))"
proof -
  obtain i j where "path_info_try_from b64_rfc (Connection ''connection-4'' :: unit ibc_path) = Ok i"
      "path_info_try_from b64_rfc (ChannelEnd ''transfer'' ''channel-5'' :: unit ibc_path) = Ok j"
    using rfc.path_info_spec[of "Connection ''connection-4'' :: unit ibc_path"]
      rfc.path_info_spec[of "ChannelEnd ''transfer'' ''channel-5'' :: unit ibc_path"] ex_locations
    by (auto simp: encodes_def simp del: path_info_try_from.simps path_location.simps)
  with path_keys_prefix_free[OF rfc.base64_engine_axioms this, of "Ports ()"] ex_locations
  show ?thesis by (auto simp del: path_info_try_from.simps path_location.simps)
qed

text \<open>
  A port identifier of at most twelve letters and digits becomes a port key that prints
  as the same identifier; borsh reads the written key back if the identifier has three
  or more characters and refuses it otherwise, also for the two characters that are allowed.
\<close>

lemma port_key_roundtrip:
  assumes "base64_engine b64" and "borsh codec" and "length s \<le> 12" and "list_all alnum_byte s"
  shows "\<exists>k. port_key_try_from b64 s = Ok k \<and> write_into b64 k = s \<and>
    port_key_deserialize codec b64 (put_array codec (port_bytes k) @ rest) =
      (if 3 \<le> length s then Some (k, rest) else None)"
proof -
  obtain bs where bs: "port_key_try_from b64 s = Ok (PortKey bs)" "length bs = 9"
      "b64_enc b64 bs = s @ replicate (12 - length s) 0x2F"
    using base64_engine.port_key_alnum[OF assms(1,3,4)] .
  moreover have "write_into b64 (PortKey bs) = s"
    by (rule base64_engine.write_into_alnum[OF assms(1,4) bs(3)])
  moreover have "port_key_deserialize codec b64 (put_array codec bs @ rest) =
      (if 3 \<le> length s then Some (PortKey bs, rest) else None)"
    using base64_engine.port_key_deserialize_alnum[OF assms(1,2,4,3) bs(2,3)] by simp
  ultimately show ?thesis by simp
qed

text \<open>
  the identifiers printed for connections and channels are parsed back to the same
  counters; the parser takes other spellings too, so that distinct channel identifiers
  share one counter and with it their keys, and it refuses a counter that does not fit 32 bits.
\<close>

lemma channel_ids_roundtrip:
  "channel_idx_try_from (channel_display i) = Ok i \<and>
   connection_idx_try_from (connection_display j) = Ok j \<and>
   channel_idx_try_from ''channel-+5'' = channel_idx_try_from ''channel-5'' \<and>
   channel_idx_try_from ''channel-005'' = channel_idx_try_from ''channel-5'' \<and>
   channel_idx_try_from ''channel-4294967296'' = Err BadChannelId"
proof -
  have "channel_idx_try_from (channel_display i) = Ok i"
    using from_prefixed_show[of CHANNEL_PREFIX "channel_counter i"]
    by (simp add: channel_idx_try_from_def channel_display_def CHANNEL_PREFIX_def)
  moreover have "connection_idx_try_from (connection_display j) = Ok j"
    using from_prefixed_show[of CONNECTION_PREFIX "connection_counter j"]
    by (simp add: connection_idx_try_from_def connection_display_def CONNECTION_PREFIX_def)
  ultimately show ?thesis by (simp add: channel_idx_try_from_def ex_ids)
qed

end
