(* ===== verification/Candidates.thy ===== *)
theory Candidates
  imports Prelude "HOL-Library.Multiset"
begin

text \<open>
  Heights, chain policies and the set of validator candidates of the guest chain,
  \<^verbatim>\<open>common/guestchain/src/{height,config,validators,candidates}.rs\<close>. Integers of the
  source are natural numbers here; checked or panicking arithmetic on \<open>u64\<close> and
  \<open>u128\<close> is written out (the workspace sets \<open>overflow-checks\<close>). Public keys are
  any linearly ordered type.
\<close>

section \<open>Heights\<close>

type_synonym height = nat

type_synonym delta = nat

definition height_next :: "height \<Rightarrow> height option" where
  "height_next h = checked_add 64 h 1"

definition height_checked_sub :: "height \<Rightarrow> height \<Rightarrow> delta option" where
  "height_checked_sub h rhs = checked_sub h rhs"

definition check_delta_from :: "height \<Rightarrow> height \<Rightarrow> delta \<Rightarrow> bool" where
  "check_delta_from h past_height mn =
     (case height_checked_sub h past_height of None \<Rightarrow> False | Some age \<Rightarrow> mn \<le> age)"

section \<open>Configuration\<close>

record config =
  cf_min_validators :: nat
  cf_max_validators :: nat
  cf_min_validator_stake :: nat
  cf_min_total_stake :: nat
  cf_min_quorum_stake :: nat
  cf_min_block_length :: delta
  cf_max_block_age_ns :: nat
  cf_min_epoch_length :: delta

record update_config =
  uc_min_validators :: "nat option"
  uc_max_validators :: "nat option"
  uc_min_validator_stake :: "nat option"
  uc_min_total_stake :: "nat option"
  uc_min_quorum_stake :: "nat option"
  uc_min_block_length :: "delta option"
  uc_max_block_age_ns :: "nat option"
  uc_min_epoch_length :: "delta option"

datatype update_config_error =
  MinValidatorsHigherThanExisting
| MaxValidatorsCannotBeLowerThanMin
| MinTotalStakeHigherThanExisting
| MinTotalStakeHigherThanMinQuorumStake
| MinQuorumStakeHigherThanTotalStake

definition unwrap_or :: "'a option \<Rightarrow> 'a \<Rightarrow> 'a" where
  "unwrap_or x d = (case x of None \<Rightarrow> d | Some v \<Rightarrow> v)"

definition config_update ::
  "config \<Rightarrow> nat \<Rightarrow> nat \<Rightarrow> update_config \<Rightarrow> (update_config_error, config) outcome" where
  "config_update c head_stake total_validators u =
     (let min_validators = unwrap_or (uc_min_validators u) (cf_min_validators c);
          max_validators = unwrap_or (uc_max_validators u) (cf_max_validators c);
          min_total_stake = unwrap_or (uc_min_total_stake u) (cf_min_total_stake c);
          min_quorum_stake = unwrap_or (uc_min_quorum_stake u) (cf_min_quorum_stake c)
      in if min_validators > total_validators then Err MinValidatorsHigherThanExisting
         else if max_validators < min_validators then Err MaxValidatorsCannotBeLowerThanMin
         else if min_total_stake > head_stake then Err MinTotalStakeHigherThanExisting
         else if min_quorum_stake > head_stake then Err MinQuorumStakeHigherThanTotalStake
         else if min_total_stake < min_quorum_stake then Err MinTotalStakeHigherThanMinQuorumStake
         else Ok \<lparr>cf_min_validators = min_validators, cf_max_validators = max_validators,
           cf_min_validator_stake = unwrap_or (uc_min_validator_stake u) (cf_min_validator_stake c),
           cf_min_total_stake = min_total_stake, cf_min_quorum_stake = min_quorum_stake,
           cf_min_block_length = unwrap_or (uc_min_block_length u) (cf_min_block_length c),
           cf_max_block_age_ns = unwrap_or (uc_max_block_age_ns u) (cf_max_block_age_ns c),
           cf_min_epoch_length = unwrap_or (uc_min_epoch_length u) (cf_min_epoch_length c)\<rparr>)"

section \<open>Validators and candidates\<close>

datatype 'pk validator = Validator (va_pubkey: 'pk) (va_stake: nat)

datatype 'pk candidate = Candidate (cd_pubkey: 'pk) (cd_stake: nat)

definition candidate_from :: "'pk validator \<Rightarrow> 'pk candidate" where
  "candidate_from v = Candidate (va_pubkey v) (va_stake v)"

definition validator_from :: "'pk candidate \<Rightarrow> 'pk validator" where
  "validator_from c = Validator (cd_pubkey c) (cd_stake c)"

text \<open>Candidates are ordered by stake, largest first, and then by public key.\<close>

definition candidate_less :: "('pk :: ord) candidate \<Rightarrow> 'pk candidate \<Rightarrow> bool" where
  "candidate_less a b \<longleftrightarrow> cd_stake b < cd_stake a \<or> cd_stake b = cd_stake a \<and> cd_pubkey a < cd_pubkey b"

definition candidate_le :: "('pk :: ord) candidate \<Rightarrow> 'pk candidate \<Rightarrow> bool" where
  "candidate_le a b \<longleftrightarrow> cd_stake b < cd_stake a \<or> cd_stake b = cd_stake a \<and> cd_pubkey a \<le> cd_pubkey b"

instantiation candidate :: (linorder) linorder
begin

definition less_eq_candidate :: "'a candidate \<Rightarrow> 'a candidate \<Rightarrow> bool" where
  "less_eq_candidate = candidate_le"

definition less_candidate :: "'a candidate \<Rightarrow> 'a candidate \<Rightarrow> bool" where
  "less_candidate = candidate_less"

instance
  by standard (auto simp: less_eq_candidate_def less_candidate_def candidate_le_def candidate_less_def candidate.expand)

end

lemmas candidate_order_defs = less_eq_candidate_def less_candidate_def candidate_le_def candidate_less_def

record 'pk candidates =
  cs_max_validators :: nat
  cs_candidates :: "'pk candidate list"
  cs_changed :: bool
  cs_head_stake :: nat

datatype update_candidate_error = NotEnoughValidatorStake | NotEnoughTotalStake | NotEnoughValidators

text \<open>Sums with overflow, as the folds of the source compute them.\<close>

fun sum_stakes :: "nat \<Rightarrow> nat list \<Rightarrow> nat option" where
  "sum_stakes acc [] = Some acc"
| "sum_stakes acc (x # xs) = (case checked_add 128 acc x of None \<Rightarrow> None | Some acc \<Rightarrow> sum_stakes acc xs)"

definition sum_head_stake :: "nat \<Rightarrow> 'pk candidate list \<Rightarrow> nat option" where
  "sum_head_stake cnt cands =
     (let cnt = min cnt (length cands) in sum_stakes 0 (map cd_stake (take cnt cands)))"

definition from_candidates :: "nat \<Rightarrow> ('pk :: linorder) candidate list \<Rightarrow> 'pk candidates option" where
  "from_candidates max_validators cands =
     (let cands = sort cands; changed = (length cands > max_validators) in
      case sum_head_stake max_validators cands of
        None \<Rightarrow> None
      | Some head_stake \<Rightarrow> Some \<lparr>cs_max_validators = max_validators, cs_candidates = cands,
          cs_changed = changed, cs_head_stake = head_stake\<rparr>)"

definition candidates_new :: "nat \<Rightarrow> ('pk :: linorder) validator list \<Rightarrow> 'pk candidates option" where
  "candidates_new max_validators validators = from_candidates max_validators (map candidate_from validators)"

definition update_max_validators :: "nat \<Rightarrow> 'pk candidates \<Rightarrow> 'pk candidates option" where
  "update_max_validators max_validators c =
     (let total = length (cs_candidates c);
          old_count = min total (cs_max_validators c);
          new_count = min total max_validators;
          c' = c\<lparr>cs_max_validators := max_validators\<rparr>
      in if old_count \<noteq> new_count
         then map_option (\<lambda>s. c'\<lparr>cs_changed := True, cs_head_stake := s\<rparr>)
                (sum_head_stake max_validators (cs_candidates c))
         else Some c')"

definition maybe_get_head :: "'pk candidates \<Rightarrow> 'pk validator list option" where
  "maybe_get_head c =
     (if cs_changed c then Some (map validator_from (take (cs_max_validators c) (cs_candidates c))) else None)"

definition clear_changed_flag :: "'pk candidates \<Rightarrow> 'pk candidates" where
  "clear_changed_flag c = c\<lparr>cs_changed := False\<rparr>"

definition add_head_stake :: "nat \<Rightarrow> 'pk candidates \<Rightarrow> (update_candidate_error, 'pk candidates) outcome" where
  "add_head_stake stake c =
     (case checked_add 128 (cs_head_stake c) stake of
        None \<Rightarrow> Panic | Some s \<Rightarrow> Ok (c\<lparr>cs_head_stake := s, cs_changed := True\<rparr>))"

definition sub_head_stake ::
  "config \<Rightarrow> nat \<Rightarrow> 'pk candidates \<Rightarrow> (update_candidate_error, 'pk candidates) outcome" where
  "sub_head_stake cfg stake c =
     (case checked_sub (cs_head_stake c) stake of
        None \<Rightarrow> Panic
      | Some head_stake \<Rightarrow>
          if head_stake < cf_min_total_stake cfg then Err NotEnoughTotalStake
          else Ok (c\<lparr>cs_head_stake := head_stake, cs_changed := True\<rparr>))"

text \<open>\<open>candidates.get(i).map_or(0, |c| c.stake.get())\<close>\<close>

definition stake_or_0 :: "'pk candidate list \<Rightarrow> nat \<Rightarrow> nat" where
  "stake_or_0 cands i = (if i < length cands then cd_stake (cands ! i) else 0)"

definition update_stake_for_remove ::
  "config \<Rightarrow> nat \<Rightarrow> 'pk candidates \<Rightarrow> (update_candidate_error, 'pk candidates) outcome" where
  "update_stake_for_remove cfg pos c =
     (let mx = cs_max_validators c in
      if pos \<ge> mx then Ok c
      else if pos \<ge> length (cs_candidates c) then Panic
      else
        (let old = cd_stake (cs_candidates c ! pos); new = stake_or_0 (cs_candidates c) mx in
         case checked_sub old new of None \<Rightarrow> Panic | Some diff \<Rightarrow> sub_head_stake cfg diff c))"

text \<open>\<open>slice[a..=b].rotate_left(1)\<close> and \<open>rotate_right(1)\<close>, for positions in the slice.\<close>

definition list_rotate :: "'a list \<Rightarrow> nat \<Rightarrow> nat \<Rightarrow> 'a list" where
  "list_rotate xs old_pos new_pos =
     (if old_pos < new_pos
      then take old_pos xs @ drop (old_pos + 1) (take (new_pos + 1) xs) @ [xs ! old_pos] @ drop (new_pos + 1) xs
      else if new_pos < old_pos
      then take new_pos xs @ [xs ! old_pos] @ drop new_pos (take old_pos xs) @ drop (old_pos + 1) xs
      else xs)"

definition set_stake :: "nat \<Rightarrow> 'pk candidate \<Rightarrow> 'pk candidate" where
  "set_stake s c = Candidate (cd_pubkey c) s"

definition add_impl ::
  "nat \<Rightarrow> 'pk candidate \<Rightarrow> 'pk candidates \<Rightarrow> (update_candidate_error, 'pk candidates) outcome" where
  "add_impl new_pos candidate c =
     (let new = cd_stake candidate; mx = cs_max_validators c;
          cands = take new_pos (cs_candidates c) @ candidate # drop new_pos (cs_candidates c);
          c = c\<lparr>cs_candidates := cands\<rparr>
      in if new_pos < mx
         then (case checked_sub new (stake_or_0 cands mx) of
                 None \<Rightarrow> Panic | Some diff \<Rightarrow> add_head_stake diff c)
         else Ok c)"

definition update_impl ::
  "config \<Rightarrow> nat \<Rightarrow> nat \<Rightarrow> 'pk candidate \<Rightarrow> 'pk candidates \<Rightarrow> (update_candidate_error, 'pk candidates) outcome" where
  "update_impl cfg old_pos new_pos candidate c =
     (let mx = cs_max_validators c; cands = cs_candidates c;
          move = (\<lambda>c. if old_pos \<ge> length cands \<or> new_pos \<ge> length cands then Panic
                     else Ok (c\<lparr>cs_candidates := (list_rotate (cs_candidates c) old_pos new_pos)
                            [new_pos := set_stake (cd_stake candidate) (cs_candidates c ! old_pos)]\<rparr>))
      in if new_pos \<ge> mx then bind_outcome (update_stake_for_remove cfg old_pos c) move
         else if old_pos \<ge> mx
         then (case checked_sub (cd_stake candidate) (stake_or_0 cands (mx - 1)) of
                 None \<Rightarrow> Panic | Some diff \<Rightarrow> bind_outcome (add_head_stake diff c) move)
         else if old_pos \<ge> length cands then Panic
         else
           (let old_stake = cd_stake (cands ! old_pos); new_stake = cd_stake candidate in
            if old_stake < new_stake then bind_outcome (add_head_stake (new_stake - old_stake) c) move
            else if old_stake > new_stake then bind_outcome (sub_head_stake cfg (old_stake - new_stake) c) move
            else Ok c))"

text \<open>Binary search; \<open>Ok(p)\<close> and \<open>Err(p)\<close> are both read as \<open>p\<close> by \<open>do_update\<close>.\<close>

function binary_search_pos :: "('a :: linorder) list \<Rightarrow> 'a \<Rightarrow> nat \<Rightarrow> nat \<Rightarrow> nat" where
  "binary_search_pos xs x left right =
     (if right \<le> left then left
      else
        (let mid = left + (right - left) div 2 in
         if xs ! mid < x then binary_search_pos xs x (mid + 1) right
         else if x < xs ! mid then binary_search_pos xs x left mid
         else mid))"
  by pat_completeness auto
termination by (relation "measure (\<lambda>(xs, x, l, r). r - l)") auto

declare binary_search_pos.simps [simp del]

definition do_update ::
  "config \<Rightarrow> nat option \<Rightarrow> ('pk :: linorder) candidate \<Rightarrow> 'pk candidates \<Rightarrow> (update_candidate_error, 'pk candidates) outcome" where
  "do_update cfg old_pos candidate c =
     (let new_pos = binary_search_pos (cs_candidates c) candidate 0 (length (cs_candidates c)) in
      case old_pos of
        Some old_pos \<Rightarrow>
          update_impl cfg old_pos (if new_pos > old_pos then new_pos - 1 else new_pos) candidate c
      | None \<Rightarrow> add_impl new_pos candidate c)"

definition do_remove ::
  "config \<Rightarrow> nat \<Rightarrow> 'pk candidates \<Rightarrow> (update_candidate_error, 'pk candidates) outcome" where
  "do_remove cfg pos c =
     (if length (cs_candidates c) \<le> cf_min_validators cfg then Err NotEnoughValidators
      else bind_outcome (update_stake_for_remove cfg pos c) (\<lambda>c.
        Ok (c\<lparr>cs_candidates := take pos (cs_candidates c) @ drop (pos + 1) (cs_candidates c)\<rparr>)))"

definition find_pos :: "('a \<Rightarrow> bool) \<Rightarrow> 'a list \<Rightarrow> nat option" where
  "find_pos P xs = (let n = length (takeWhile (\<lambda>x. \<not> P x) xs) in if n < length xs then Some n else None)"

text \<open>
  \<open>new_stake_fn\<close> is the callback; its errors and those of the candidate set are
  put in one type by \<open>map_err\<close>.
\<close>

definition candidates_update ::
  "config \<Rightarrow> 'pk \<Rightarrow> ('pk candidate option \<Rightarrow> ('e, nat) outcome) \<Rightarrow> (update_candidate_error \<Rightarrow> 'e) \<Rightarrow>
   ('pk :: linorder) candidates \<Rightarrow> ('e, 'pk candidates) outcome" where
  "candidates_update cfg pubkey new_stake_fn map_err c =
     (let pos = find_pos (\<lambda>el. cd_pubkey el = pubkey) (cs_candidates c) in
      bind_outcome (new_stake_fn (map_option (\<lambda>p. cs_candidates c ! p) pos)) (\<lambda>stake.
        let res =
          (if stake \<noteq> 0
           then if stake < cf_min_validator_stake cfg then Err NotEnoughValidatorStake
                else do_update cfg pos (Candidate pubkey stake) c
           else case pos of Some pos \<Rightarrow> do_remove cfg pos c | None \<Rightarrow> Ok c)
        in case res of Ok c \<Rightarrow> Ok c | Err e \<Rightarrow> Err (map_err e) | Panic \<Rightarrow> Panic))"

section \<open>Positions in a sorted list\<close>

definition split_pos :: "('a :: linorder) \<Rightarrow> 'a list \<Rightarrow> nat \<Rightarrow> bool" where
  "split_pos x xs r \<longleftrightarrow>
     r \<le> length xs \<and> (\<forall>i < r. xs ! i < x) \<and> (\<forall>i. r \<le> i \<and> i < length xs \<longrightarrow> x \<le> xs ! i)"

lemma binary_search_range:
  assumes "sorted_wrt (<) xs" "l \<le> r" "r \<le> length xs" "\<forall>i < l. xs ! i < x"
    "\<forall>i. r \<le> i \<and> i < length xs \<longrightarrow> x < xs ! i"
  shows "split_pos x xs (binary_search_pos xs x l r)"
  using assms
proof (induction xs x l r rule: binary_search_pos.induct)
  case (1 xs x l r)
  let ?m = "l + (r - l) div 2"
  note lt = sorted_wrt_nth_less[OF "1.prems"(1)]
  show ?case
  proof (cases "r \<le> l")
    case True
    then have "binary_search_pos xs x l r = l" by (simp add: binary_search_pos.simps[of xs x l r])
    moreover have "r = l" using True "1.prems"(2) by simp
    ultimately show ?thesis using "1.prems" by (auto simp: split_pos_def intro: less_imp_le)
  next
    case False
    then have m: "l \<le> ?m" "?m < r" "?m < length xs" using "1.prems" by auto
    consider "xs ! ?m < x" | "x < xs ! ?m" | "x = xs ! ?m" by (metis neqE)
    then show ?thesis
    proof cases
      case 1
      have "xs ! i < x" if "i < ?m + 1" for i
        using that 1 lt[of i ?m] m by (cases "i = ?m") auto
      then show ?thesis
        using "1.IH"(1)[OF False refl 1] "1.prems" m 1 False by (simp add: binary_search_pos.simps[of xs x l r] Let_def)
    next
      case 2
      have "x < xs ! i" if "?m \<le> i" "i < length xs" for i
        using that 2 lt[of ?m i] m by (cases "i = ?m") auto
      moreover have "\<not> xs ! ?m < x" using 2 by simp
      moreover from this have "binary_search_pos xs x l r = binary_search_pos xs x l ?m"
        using False 2 by (simp add: binary_search_pos.simps[of xs x l r] Let_def)
      ultimately show ?thesis using "1.IH"(2)[OF False refl _ 2] "1.prems" m by simp
    next
      case 3
      have "xs ! i < x" if "i < ?m" for i using that 3 lt[of i ?m] m by auto
      moreover have "x \<le> xs ! i" if "?m \<le> i" "i < length xs" for i
        using that 3 lt[of ?m i] m by (cases "i = ?m") auto
      moreover have "binary_search_pos xs x l r = ?m"
        by (subst binary_search_pos.simps) (use False 3 in \<open>simp add: Let_def\<close>)
      ultimately show ?thesis using m by (simp add: split_pos_def)
    qed
  qed
qed

lemma binary_search_split:
  "sorted_wrt (<) xs \<Longrightarrow> split_pos x xs (binary_search_pos xs x 0 (length xs))"
  by (rule binary_search_range) auto

abbreviation list_insert :: "nat \<Rightarrow> 'a \<Rightarrow> 'a list \<Rightarrow> 'a list" where
  "list_insert r x ys \<equiv> take r ys @ x # drop r ys"

abbreviation list_remove :: "nat \<Rightarrow> 'a list \<Rightarrow> 'a list" where
  "list_remove o' xs \<equiv> take o' xs @ drop (Suc o') xs"

lemma split_pos_insort:
  assumes "sorted_wrt (<) ys" "split_pos x ys r" "x \<notin> set ys"
  shows "list_insert r x ys = insort x ys" "sorted_wrt (<) (list_insert r x ys)"
proof -
  have lo: "\<forall>y \<in> set (take r ys). y < x" using assms(2) by (auto simp: split_pos_def in_set_conv_nth)
  have hi: "\<forall>y \<in> set (drop r ys). x < y"
  proof
    fix y assume y: "y \<in> set (drop r ys)"
    then obtain i where "i < length ys - r" "y = ys ! (r + i)" by (auto simp: in_set_conv_nth)
    then have "x \<le> y" using assms(2) by (auto simp: split_pos_def)
    moreover have "y \<noteq> x" using y assms(3) by (auto dest: in_set_dropD)
    ultimately show "x < y" by simp
  qed
  have st: "sorted_wrt (<) (take r ys)" "sorted_wrt (<) (drop r ys)"
    using assms(1) by (auto simp: sorted_wrt_take sorted_wrt_drop)
  have cross: "\<forall>y \<in> set (take r ys). \<forall>z \<in> set (drop r ys). y < z" using lo hi by (meson less_trans)
  show so: "sorted_wrt (<) (list_insert r x ys)" using st lo hi cross by (auto simp: sorted_wrt_append)
  have "sorted (list_insert r x ys)" "distinct (list_insert r x ys)"
    using so by (simp_all add: strict_sorted_iff)
  moreover have "sorted (insort x ys)" "distinct (insort x ys)"
    using assms(1,3) by (simp_all add: strict_sorted_iff sorted_insort distinct_insort)
  moreover have "set (take r ys) \<union> set (drop r ys) = set ys" by (metis append_take_drop_id set_append)
  then have "set (list_insert r x ys) = set (insort x ys)" by (simp add: set_insort_key)
  ultimately show "list_insert r x ys = insort x ys" by (metis sorted_distinct_set_unique)
qed

lemma list_insert_remove:
  assumes "o' < length xs" shows "list_insert o' (xs ! o') (list_remove o' xs) = xs"
proof -
  have "take o' (list_remove o' xs) = take o' xs" "drop o' (list_remove o' xs) = drop (Suc o') xs"
    using assms by simp_all
  then show ?thesis by (simp only: id_take_nth_drop[OF assms, symmetric])
qed

lemma list_rotate_remove:
  assumes "o' < length xs" "r < length xs"
  shows "(list_rotate xs o' r)[r := v] = list_insert r v (list_remove o' xs)"
proof -
  consider "o' < r" | "r < o'" | "o' = r" by linarith
  then show ?thesis
  proof cases
    case 1
    have "list_rotate xs o' r = (take o' xs @ drop (o' + 1) (take (r + 1) xs)) @ xs ! o' # drop (r + 1) xs"
      using 1 by (simp add: list_rotate_def)
    moreover have "length (take o' xs @ drop (o' + 1) (take (r + 1) xs)) = r" using 1 assms by simp
    ultimately have "(list_rotate xs o' r)[r := v] = (take o' xs @ drop (o' + 1) (take (r + 1) xs)) @ v # drop (r + 1) xs"
      by (metis list_update_length)
    moreover have "take r (list_remove o' xs) = take o' xs @ drop (o' + 1) (take (r + 1) xs)"
      using 1 assms by (simp add: drop_take)
    moreover have "drop r (list_remove o' xs) = drop (r + 1) xs" using 1 assms by simp
    ultimately show ?thesis by simp
  next
    case 2
    have "list_rotate xs o' r = take r xs @ xs ! o' # drop r (take o' xs) @ drop (o' + 1) xs"
      using 2 by (simp add: list_rotate_def)
    moreover have "length (take r xs) = r" using assms by simp
    ultimately have "(list_rotate xs o' r)[r := v] = take r xs @ v # drop r (take o' xs) @ drop (o' + 1) xs"
      by (metis list_update_length)
    moreover have "take r (list_remove o' xs) = take r xs" "drop r (list_remove o' xs) = drop r (take o' xs) @ drop (o' + 1) xs"
      using 2 assms by (simp_all add: min_def)
    ultimately show ?thesis by simp
  next
    case 3
    then show ?thesis using assms by (simp add: list_rotate_def upd_conv_take_nth_drop min_def)
  qed
qed

section \<open>The stake of the head\<close>

definition head_sum :: "nat \<Rightarrow> 'pk candidate list \<Rightarrow> nat" where
  "head_sum n xs = sum_list (map cd_stake (take n xs))"

lemma sum_stakes_eq:
  "sum_stakes acc xs = (if acc + sum_list xs < 2 ^ 128 \<or> xs = [] then Some (acc + sum_list xs) else None)"
proof (induction xs arbitrary: acc)
  case (Cons x xs)
  then show ?case by (auto simp: checked_add_def)
qed simp

lemma sum_head_stake_eq:
  "head_sum n xs < 2 ^ 128 \<Longrightarrow> sum_head_stake n xs = Some (head_sum n xs)"
  by (cases "n \<le> length xs") (auto simp: sum_head_stake_def head_sum_def sum_stakes_eq min_def Let_def)

lemma head_sum_insert:
  assumes "0 < n" "r \<le> length ys"
  shows "head_sum n (list_insert r x ys) = (if r < n then head_sum (n - 1) ys + cd_stake x else head_sum n ys)"
proof (cases "r < n")
  case True
  then obtain k where n: "n = Suc (r + k)" by (metis add_Suc_right less_iff_Suc_add)
  have "take (r + k) ys = take r ys @ take k (drop r ys)" by (rule take_add)
  then show ?thesis using assms(2) n by (simp add: head_sum_def min_def take_Cons')
next
  case False
  then show ?thesis using assms(2) by (simp add: head_sum_def min_def)
qed

lemma head_sum_step: "0 < n \<Longrightarrow> head_sum n ys = head_sum (n - 1) ys + stake_or_0 ys (n - 1)"
  by (cases n) (auto simp: head_sum_def stake_or_0_def take_Suc_conv_app_nth)

lemma head_sum_le: "head_sum n xs \<le> sum_list (map cd_stake xs)"
proof -
  have "sum_list (map cd_stake xs) = sum_list (map cd_stake (take n xs)) + sum_list (map cd_stake (drop n xs))"
    by (metis append_take_drop_id map_append sum_list_append)
  then show ?thesis by (simp add: head_sum_def)
qed

lemma stake_insert:
  "r \<le> length ys \<Longrightarrow> r < n \<Longrightarrow> stake_or_0 (list_insert r x ys) n = stake_or_0 ys (n - 1)"
  by (auto simp: stake_or_0_def nth_append nth_Cons' min_def)

lemma stake_insert_before:
  "r \<le> length ys \<Longrightarrow> n < r \<Longrightarrow> stake_or_0 (list_insert r x ys) n = stake_or_0 ys n"
  by (auto simp: stake_or_0_def nth_append min_def)

text \<open>The set is sorted without duplicates and knows the stake of its head.\<close>

definition cand_inv :: "('pk :: linorder) candidates \<Rightarrow> bool" where
  "cand_inv c \<longleftrightarrow>
     sorted_wrt (<) (cs_candidates c) \<and> distinct (map cd_pubkey (cs_candidates c)) \<and>
     cs_head_stake c = head_sum (cs_max_validators c) (cs_candidates c) \<and>
     list_all (\<lambda>x. 0 < cd_stake x) (cs_candidates c) \<and> 0 < cs_max_validators c"

text \<open>The reference: drop the key and insert it with its new stake.\<close>

definition cand_ref :: "'pk \<Rightarrow> nat \<Rightarrow> ('pk :: linorder) candidate list \<Rightarrow> 'pk candidate list" where
  "cand_ref pk stake xs =
     (let ys = filter (\<lambda>x. cd_pubkey x \<noteq> pk) xs in if stake = 0 then ys else insort (Candidate pk stake) ys)"

lemma remove_filter:
  assumes "distinct (map cd_pubkey xs)" "p < length xs" "cd_pubkey (xs ! p) = pk"
  shows "list_remove p xs = filter (\<lambda>x. cd_pubkey x \<noteq> pk) xs"
proof -
  have xs: "xs = take p xs @ xs ! p # drop (Suc p) xs" by (rule id_take_nth_drop[OF assms(2)])
  then have "distinct (map cd_pubkey (take p xs) @ pk # map cd_pubkey (drop (Suc p) xs))"
    using assms(1,3) by (metis list.simps(9) map_append)
  then have "filter (\<lambda>x. cd_pubkey x \<noteq> pk) (take p xs) = take p xs"
    "filter (\<lambda>x. cd_pubkey x \<noteq> pk) (drop (Suc p) xs) = drop (Suc p) xs"
    by (force simp: filter_id_conv)+
  then have "filter (\<lambda>x. cd_pubkey x \<noteq> pk) (take p xs @ xs ! p # drop (Suc p) xs) = list_remove p xs"
    using assms(3) by simp
  then show ?thesis using xs by simp
qed

lemma nth_remove: "p < length xs \<Longrightarrow> i < length xs - 1 \<Longrightarrow> list_remove p xs ! i = (if i < p then xs ! i else xs ! Suc i)"
  by (auto simp: nth_append min_def)

lemma length_remove: "p < length xs \<Longrightarrow> length (list_remove p xs) = length xs - 1"
  by simp

lemma split_pos_remove:
  assumes "split_pos x xs r" "p < length xs"
  shows "split_pos x (list_remove p xs) (if p < r then r - 1 else r)"
proof -
  have s: "r \<le> length xs" "\<And>i. i < r \<Longrightarrow> xs ! i < x" "\<And>i. r \<le> i \<Longrightarrow> i < length xs \<Longrightarrow> x \<le> xs ! i"
    using assms(1) by (auto simp: split_pos_def)
  show ?thesis unfolding split_pos_def length_remove[OF assms(2)]
  proof (intro conjI allI impI)
    show "(if p < r then r - 1 else r) \<le> length xs - 1" using s(1) assms(2) by auto
    fix i assume i: "i < (if p < r then r - 1 else r)"
    then have "i < length xs - 1" "(if i < p then i else Suc i) < r" using s(1) assms(2) by (auto split: if_splits)
    then show "list_remove p xs ! i < x" using nth_remove[OF assms(2), of i] s(2)[of "if i < p then i else Suc i"]
      by (auto split: if_splits)
  next
    fix i assume i: "(if p < r then r - 1 else r) \<le> i \<and> i < length xs - 1"
    then have "r \<le> (if i < p then i else Suc i)" "(if i < p then i else Suc i) < length xs"
      using assms(2) by (auto split: if_splits)
    then show "x \<le> list_remove p xs ! i"
      using nth_remove[OF assms(2), of i] s(3)[of "if i < p then i else Suc i"] i
      by (auto split: if_splits)
  qed
qed

lemma sorted_remove: "sorted_wrt (<) xs \<Longrightarrow> sorted_wrt (<) (list_remove p xs)"
proof -
  assume s: "sorted_wrt (<) xs"
  have "set (drop (Suc p) xs) \<subseteq> set (drop p xs)" using set_drop_subset_set_drop[of p "Suc p" xs] by simp
  moreover have "\<forall>y \<in> set (take p xs). \<forall>z \<in> set (drop p xs). y < z"
    using s by (metis append_take_drop_id sorted_wrt_append)
  ultimately show ?thesis using s by (auto simp: sorted_wrt_append sorted_wrt_take sorted_wrt_drop)
qed

lemma stake_mono:
  assumes "sorted_wrt (<) xs" "i < j" "i < length xs" shows "stake_or_0 xs j \<le> cd_stake (xs ! i)"
proof (cases "j < length xs")
  case True
  then have "xs ! i < xs ! j" using sorted_wrt_nth_less[OF assms(1,2)] by simp
  then show ?thesis using True by (auto simp: stake_or_0_def candidate_order_defs)
qed (simp add: stake_or_0_def)

text \<open>What removal does to the stake of the head.\<close>

lemma update_stake_for_remove_eq:
  assumes c: "cand_inv c" and p: "p < length (cs_candidates c)"
  shows "update_stake_for_remove cfg p c =
    (let h = head_sum (cs_max_validators c) (list_remove p (cs_candidates c)) in
     if cs_max_validators c \<le> p then Ok c
     else if h < cf_min_total_stake cfg then Err NotEnoughTotalStake
     else Ok (c\<lparr>cs_head_stake := h, cs_changed := True\<rparr>)) \<and>
    (cs_max_validators c \<le> p \<longrightarrow>
       head_sum (cs_max_validators c) (list_remove p (cs_candidates c)) = cs_head_stake c)"
proof -
  define xs where "xs = cs_candidates c"
  define ys where "ys = list_remove p xs"
  define n where "n = cs_max_validators c"
  have i: "sorted_wrt (<) xs" "cs_head_stake c = head_sum n xs" "0 < n" "p < length xs"
    using c p by (auto simp: cand_inv_def xs_def n_def)
  have xs: "list_insert p (xs ! p) ys = xs" unfolding ys_def by (rule list_insert_remove[OF i(4)])
  have pl: "p \<le> length ys" using i(4) by (simp add: ys_def)
  note H = head_sum_insert[OF i(3) pl, of "xs ! p", unfolded xs]
  show ?thesis
  proof (cases "n \<le> p")
    case True
    then show ?thesis using H i(2) by (simp add: update_stake_for_remove_def Let_def n_def[symmetric] ys_def xs_def[symmetric])
  next
    case False
    have st: "stake_or_0 xs n = stake_or_0 ys (n - 1)" using stake_insert[OF pl, of n "xs ! p"] False xs by simp
    have le: "stake_or_0 xs n \<le> cd_stake (xs ! p)" by (rule stake_mono[OF i(1)]) (use False i in auto)
    have "head_sum n xs = head_sum (n - 1) ys + cd_stake (xs ! p)" using H False by simp
    then have "checked_sub (cs_head_stake c) (cd_stake (xs ! p) - stake_or_0 xs n) = Some (head_sum n ys)"
      using head_sum_step[OF i(3), of ys] st le i(2) by (simp add: checked_sub_def)
    then show ?thesis
      using False le i(4) by (simp add: update_stake_for_remove_def sub_head_stake_def checked_sub_def[of "cd_stake _"] Let_def
          n_def[symmetric] xs_def[symmetric] ys_def[symmetric])
  qed
qed

section \<open>Updates\<close>

lemma split_stake: "split_pos x ys r \<Longrightarrow> r \<le> j \<Longrightarrow> stake_or_0 ys j \<le> cd_stake x"
  by (auto simp: split_pos_def stake_or_0_def candidate_order_defs)

lemma insort_remove:
  assumes "sorted_wrt (<) xs" "p < length xs" shows "insort (xs ! p) (list_remove p xs) = xs"
proof -
  have xs: "xs = take p xs @ xs ! p # drop (Suc p) xs" by (rule id_take_nth_drop[OF assms(2)])
  have "distinct (take p xs @ xs ! p # drop (Suc p) xs)" using assms(1) xs by (metis strict_sorted_iff)
  then have nin: "xs ! p \<notin> set (list_remove p xs)" by auto
  have "set (take p xs @ xs ! p # drop (Suc p) xs) = insert (xs ! p) (set (list_remove p xs))" by auto
  then have "set xs = set (insort (xs ! p) (list_remove p xs))" using xs by (simp add: set_insort_key)
  moreover have "sorted (insort (xs ! p) (list_remove p xs))" "distinct (insort (xs ! p) (list_remove p xs))"
    using sorted_remove[OF assms(1), of p] nin by (simp_all add: strict_sorted_iff sorted_insort distinct_insort)
  ultimately show ?thesis using assms(1) by (metis sorted_distinct_set_unique strict_sorted_iff)
qed

text \<open>The conclusions the two ways to place a candidate share.\<close>

definition placed :: "config \<Rightarrow> ('pk :: linorder) candidate list \<Rightarrow> 'pk candidates \<Rightarrow>
    (update_candidate_error, 'pk candidates) outcome \<Rightarrow> bool" where
  "placed cfg new c res \<longleftrightarrow>
     (case res of
        Ok c' \<Rightarrow> cs_candidates c' = new \<and> cs_max_validators c' = cs_max_validators c \<and>
          cs_head_stake c' = head_sum (cs_max_validators c) new \<and> (cs_changed c \<longrightarrow> cs_changed c') \<and>
          (\<not> cs_changed c' \<longrightarrow>
             take (cs_max_validators c) new = take (cs_max_validators c) (cs_candidates c)) \<and>
          (cs_head_stake c \<le> cs_head_stake c' \<or> cf_min_total_stake cfg \<le> cs_head_stake c')
      | Err e \<Rightarrow> e = NotEnoughTotalStake \<and> head_sum (cs_max_validators c) new < cf_min_total_stake cfg
      | Panic \<Rightarrow> False)"

lemma add_impl_placed:
  assumes c: "cand_inv c" and r: "split_pos x (cs_candidates c) r"
    and tot: "cd_stake x + sum_list (map cd_stake (cs_candidates c)) < 2 ^ 128"
  shows "placed cfg (list_insert r x (cs_candidates c)) c (add_impl r x c)"
proof -
  define xs where "xs = cs_candidates c"
  define n where "n = cs_max_validators c"
  have i: "cs_head_stake c = head_sum n xs" "0 < n" using c by (auto simp: cand_inv_def xs_def n_def)
  have rl: "r \<le> length xs" using r by (simp add: split_pos_def xs_def)
  note H = head_sum_insert[OF i(2) rl, of x]
  have "sum_list (map cd_stake (take r xs)) + sum_list (map cd_stake (drop r xs)) = sum_list (map cd_stake xs)"
    by (metis append_take_drop_id map_append sum_list_append)
  then have "head_sum n (list_insert r x xs) \<le> cd_stake x + sum_list (map cd_stake xs)"
    using head_sum_le[of n "list_insert r x xs"] by simp
  then have fit: "head_sum n (list_insert r x xs) < 2 ^ 128" using tot by (simp add: xs_def)
  show ?thesis
  proof (cases "r < n")
    case False
    then show ?thesis using H i rl
      by (simp add: add_impl_def placed_def Let_def n_def[symmetric] xs_def[symmetric])
  next
    case True
    have st: "stake_or_0 (list_insert r x xs) n = stake_or_0 xs (n - 1)" by (rule stake_insert[OF rl True])
    have le: "stake_or_0 xs (n - 1) \<le> cd_stake x" by (rule split_stake[OF r[folded xs_def]]) (use True in simp)
    have "checked_add 128 (cs_head_stake c) (cd_stake x - stake_or_0 xs (n - 1)) = Some (head_sum n (list_insert r x xs))"
      using H True le i fit head_sum_step[OF i(2), of xs] by (simp add: checked_add_def)
    then show ?thesis using True le st H i(1) head_sum_step[OF i(2), of xs]
      by (simp add: add_impl_def placed_def add_head_stake_def checked_sub_def Let_def n_def[symmetric] xs_def[symmetric])
  qed
qed

lemma update_impl_placed:
  assumes c: "cand_inv c" and p: "p < length (cs_candidates c)" and k: "cd_pubkey x = cd_pubkey (cs_candidates c ! p)"
    and r: "split_pos x (list_remove p (cs_candidates c)) r" and x: "x \<notin> set (list_remove p (cs_candidates c))"
    and tot: "cd_stake x + sum_list (map cd_stake (cs_candidates c)) < 2 ^ 128"
  shows "placed cfg (list_insert r x (list_remove p (cs_candidates c))) c (update_impl cfg p r x c)"
proof -
  define xs where "xs = cs_candidates c"
  define ys where "ys = list_remove p xs"
  define n where "n = cs_max_validators c"
  define new where "new = list_insert r x ys"
  have i: "sorted_wrt (<) xs" "cs_head_stake c = head_sum n xs" "0 < n" "p < length xs"
    using c p by (auto simp: cand_inv_def xs_def n_def)
  have xs: "list_insert p (xs ! p) ys = xs" unfolding ys_def by (rule list_insert_remove[OF i(4)])
  have pl: "p \<le> length ys" and rl: "r \<le> length ys" "r < length xs"
    using i(4) r by (auto simp: ys_def split_pos_def xs_def)
  note H = head_sum_insert[OF i(3) pl, of "xs ! p", unfolded xs] and N = head_sum_insert[OF i(3) rl(1), of x, folded new_def]
  have setx: "set_stake (cd_stake x) (xs ! p) = x" using k[symmetric] by (simp add: set_stake_def xs_def)
  have mv: "(list_rotate xs p r)[r := set_stake (cd_stake x) (xs ! p)] = new"
    unfolding setx new_def ys_def by (rule list_rotate_remove[OF i(4) rl(2)])
  have "sum_list (map cd_stake (take r ys)) + sum_list (map cd_stake (drop r ys)) = sum_list (map cd_stake ys)"
    by (metis append_take_drop_id map_append sum_list_append)
  moreover have "sum_list (map cd_stake ys) \<le> sum_list (map cd_stake xs)"
    using arg_cong[OF id_take_nth_drop[OF i(4)], of "\<lambda>l. sum_list (map cd_stake l)"] by (simp add: ys_def)
  ultimately have fit: "head_sum n new < 2 ^ 128"
    using head_sum_le[of n new] tot by (simp add: new_def xs_def[symmetric])
  note defs = update_impl_def placed_def Let_def n_def[symmetric] xs_def[symmetric] ys_def[symmetric] new_def[symmetric] mv
  consider (out) "n \<le> r" | (up) "r < n" "n \<le> p" | (same) "r < n" "p < n" by linarith
  then show ?thesis
  proof cases
    case out
    then have hn: "head_sum n new = head_sum n ys" using N by simp
    have "take n new = take n ys" using out rl by (simp add: new_def min_def)
    moreover have "take n ys = take n xs" if "n \<le> p" using that i(4) by (simp add: ys_def min_def)
    ultimately show ?thesis
      using update_stake_for_remove_eq[OF c p, of cfg] out i rl(2) hn
      by (auto simp: defs split: if_splits)
  next
    case up
    have st: "stake_or_0 xs (n - 1) = stake_or_0 ys (n - 1)"
      using stake_insert_before[OF pl, of "n - 1" "xs ! p"] up i(3) xs by simp
    have le: "stake_or_0 ys (n - 1) \<le> cd_stake x"
      by (rule split_stake[OF r[folded xs_def, folded ys_def]]) (use up in simp)
    have "checked_add 128 (cs_head_stake c) (cd_stake x - stake_or_0 ys (n - 1)) = Some (head_sum n new)"
      using N H up le i fit head_sum_step[OF i(3), of ys] by (simp add: checked_add_def)
    then show ?thesis using up le st i rl(2) H N head_sum_step[OF i(3), of ys]
      by (simp add: defs add_head_stake_def checked_sub_def)
  next
    case same
    have hx: "head_sum n xs = head_sum (n - 1) ys + cd_stake (xs ! p)" "head_sum n new = head_sum (n - 1) ys + cd_stake x"
      using H N same by simp_all
    consider "cd_stake (xs ! p) < cd_stake x" | "cd_stake x < cd_stake (xs ! p)" | "cd_stake x = cd_stake (xs ! p)" by linarith
    then show ?thesis
    proof cases
      case 1
      then have "checked_add 128 (cs_head_stake c) (cd_stake x - cd_stake (xs ! p)) = Some (head_sum n new)"
        using hx fit i(2) by (simp add: checked_add_def)
      then show ?thesis using same 1 i rl(2) hx by (simp add: defs add_head_stake_def)
    next
      case 2
      then have "checked_sub (cs_head_stake c) (cd_stake (xs ! p) - cd_stake x) = Some (head_sum n new)"
        using hx i(2) by (simp add: checked_sub_def)
      then show ?thesis using same 2 i rl(2) by (simp add: defs sub_head_stake_def)
    next
      case 3
      then have "x = xs ! p" using k by (simp add: candidate.expand xs_def)
      then have "new = xs"
        using split_pos_insort(1)[OF sorted_remove[OF i(1)] r[folded xs_def]] x insort_remove[OF i(1,4)]
        by (simp add: new_def ys_def xs_def)
      then show ?thesis using same 3 i rl(2) by (simp add: defs)
    qed
  qed
qed

lemma find_pos_Some: "find_pos P xs = Some p \<Longrightarrow> p < length xs \<and> P (xs ! p)"
  using nth_length_takeWhile[of "\<lambda>x. \<not> P x" xs] by (auto simp: find_pos_def Let_def split: if_splits)

lemma find_pos_None: "find_pos P xs = None \<Longrightarrow> \<forall>x \<in> set xs. \<not> P x"
proof -
  assume "find_pos P xs = None"
  then have "length (takeWhile (\<lambda>x. \<not> P x) xs) = length xs"
    using length_takeWhile_le[of "\<lambda>x. \<not> P x" xs] by (simp add: find_pos_def Let_def split: if_splits)
  then have "takeWhile (\<lambda>x. \<not> P x) xs = xs" using takeWhile_eq_take[of "\<lambda>x. \<not> P x" xs] by simp
  then show "\<forall>x \<in> set xs. \<not> P x" by (simp add: takeWhile_eq_all_conv)
qed

lemma do_update_placed:
  assumes c: "cand_inv c" and x: "x = Candidate pk stake"
    and pos: "pos = find_pos (\<lambda>el. cd_pubkey el = pk) (cs_candidates c)"
    and tot: "stake + sum_list (map cd_stake (cs_candidates c)) < 2 ^ 128"
  shows "placed cfg (insort x (filter (\<lambda>y. cd_pubkey y \<noteq> pk) (cs_candidates c))) c (do_update cfg pos x c)"
proof -
  let ?xs = "cs_candidates c" and ?ys = "filter (\<lambda>y. cd_pubkey y \<noteq> pk) (cs_candidates c)"
  define r where "r = binary_search_pos ?xs x 0 (length ?xs)"
  have so: "sorted_wrt (<) ?xs" and di: "distinct (map cd_pubkey ?xs)" using c by (auto simp: cand_inv_def)
  have r: "split_pos x ?xs r" unfolding r_def by (rule binary_search_split[OF so])
  have nin: "x \<notin> set ?ys" by (auto simp: x)
  show ?thesis
  proof (cases pos)
    case None
    then have "?ys = ?xs" using find_pos_None[of "\<lambda>el. cd_pubkey el = pk" ?xs] pos by (auto simp: filter_id_conv)
    moreover from this have "list_insert r x ?xs = insort x ?xs" using split_pos_insort(1)[OF so r] nin by simp
    moreover have "placed cfg (list_insert r x ?xs) c (add_impl r x c)"
      by (rule add_impl_placed[OF c r]) (use tot x in simp)
    ultimately show ?thesis using None by (simp add: do_update_def Let_def r_def)
  next
    case (Some p)
    then have p: "p < length ?xs" "cd_pubkey (?xs ! p) = pk"
      using find_pos_Some[of "\<lambda>el. cd_pubkey el = pk" ?xs p] pos by auto
    have ys: "list_remove p ?xs = ?ys" by (rule remove_filter[OF di p])
    let ?r = "if p < r then r - 1 else r"
    have sp: "split_pos x (list_remove p ?xs) ?r" by (rule split_pos_remove[OF r p(1)])
    have nin': "x \<notin> set (list_remove p ?xs)" unfolding ys by (rule nin)
    have "placed cfg (list_insert ?r x (list_remove p ?xs)) c (update_impl cfg p ?r x c)"
      by (rule update_impl_placed[OF c p(1) _ sp nin']) (use tot x p in simp_all)
    moreover have "list_insert ?r x (list_remove p ?xs) = insort x (list_remove p ?xs)"
      by (rule split_pos_insort(1)[OF sorted_remove[OF so] sp nin'])
    ultimately show ?thesis using Some unfolding ys do_update_def Let_def r_def by simp
  qed
qed

lemma cand_ref_inv:
  assumes "cand_inv c"
  shows "sorted_wrt (<) (cand_ref pk stake (cs_candidates c))"
    "distinct (map cd_pubkey (cand_ref pk stake (cs_candidates c)))"
    "list_all (\<lambda>x. 0 < cd_stake x) (cand_ref pk stake (cs_candidates c))"
proof -
  let ?xs = "cs_candidates c" and ?ys = "filter (\<lambda>y. cd_pubkey y \<noteq> pk) (cs_candidates c)"
  have i: "sorted_wrt (<) ?xs" "distinct (map cd_pubkey ?xs)" "list_all (\<lambda>x. 0 < cd_stake x) ?xs"
    using assms by (auto simp: cand_inv_def)
  have ys: "sorted_wrt (<) ?ys" using i(1) by (rule sorted_wrt_filter)
  have nin: "Candidate pk stake \<notin> set ?ys" by auto
  show "sorted_wrt (<) (cand_ref pk stake ?xs)"
    using ys nin by (simp add: cand_ref_def Let_def strict_sorted_iff sorted_insort distinct_insort)
  have dy: "distinct (map cd_pubkey ?ys)" using i(2) by (rule distinct_map_filter)
  have "mset (map cd_pubkey (insort (Candidate pk stake) ?ys)) = mset (pk # map cd_pubkey ?ys)"
    by (simp add: mset_insort)
  then have "distinct (map cd_pubkey (insort (Candidate pk stake) ?ys)) \<longleftrightarrow> distinct (pk # map cd_pubkey ?ys)"
    by (rule mset_eq_imp_distinct_iff)
  then show "distinct (map cd_pubkey (cand_ref pk stake ?xs))" using dy by (auto simp: cand_ref_def Let_def)
  show "list_all (\<lambda>x. 0 < cd_stake x) (cand_ref pk stake ?xs)"
    using i(3) by (auto simp: cand_ref_def Let_def list_all_iff set_insort_key)
qed

lemma cand_ref_stake:
  "sum_list (map cd_stake (cand_ref pk stake xs)) \<le> stake + sum_list (map cd_stake xs)"
proof -
  have f: "sum_list (map cd_stake (filter P xs)) \<le> sum_list (map cd_stake xs)" for P :: "'a candidate \<Rightarrow> bool"
    by (induction xs) auto
  have "sum_list (map cd_stake (insort x ys)) = cd_stake x + sum_list (map cd_stake ys)" for x :: "'a candidate" and ys
    by (induction ys) auto
  then show ?thesis using f[of "\<lambda>x. cd_pubkey x \<noteq> pk"] by (simp add: cand_ref_def Let_def)
qed

definition update_post ::
  "config \<Rightarrow> 'pk \<Rightarrow> nat \<Rightarrow> (update_candidate_error \<Rightarrow> 'e) \<Rightarrow> ('pk :: linorder) candidates \<Rightarrow>
   ('e, 'pk candidates) outcome \<Rightarrow> bool" where
  "update_post cfg pk stake g c res \<longleftrightarrow>
     (let new = cand_ref pk stake (cs_candidates c); n = cs_max_validators c in
      case res of
        Ok c' \<Rightarrow> cand_inv c' \<and> cs_candidates c' = new \<and> cs_max_validators c' = n \<and>
          (cs_changed c \<longrightarrow> cs_changed c') \<and> (\<not> cs_changed c' \<longrightarrow> take n new = take n (cs_candidates c)) \<and>
          (cf_min_total_stake cfg \<le> cs_head_stake c \<longrightarrow> cf_min_total_stake cfg \<le> cs_head_stake c') \<and>
          (cf_min_validators cfg \<le> length (cs_candidates c) \<longrightarrow> cf_min_validators cfg \<le> length new)
      | Err e \<Rightarrow>
          e = g NotEnoughValidatorStake \<and> 0 < stake \<and> stake < cf_min_validator_stake cfg \<or>
          e = g NotEnoughValidators \<and> stake = 0 \<and> length (cs_candidates c) \<le> cf_min_validators cfg \<or>
          e = g NotEnoughTotalStake \<and> head_sum n new < cf_min_total_stake cfg
      | Panic \<Rightarrow> False)"

lemma placed_post:
  assumes c: "cand_inv c" and p: "placed cfg (cand_ref pk stake (cs_candidates c)) c res"
    and l: "cf_min_validators cfg \<le> length (cs_candidates c) \<longrightarrow>
      cf_min_validators cfg \<le> length (cand_ref pk stake (cs_candidates c))"
  shows "update_post cfg pk stake g c (case res of Ok c \<Rightarrow> Ok c | Err e \<Rightarrow> Err (g e) | Panic \<Rightarrow> Panic)"
  using p l cand_ref_inv[OF c, of pk stake] c
  by (auto simp: placed_def update_post_def Let_def cand_inv_def split: outcome.splits)

lemma length_ref_insert:
  assumes "distinct (map cd_pubkey xs)" "stake \<noteq> 0" shows "length xs \<le> length (cand_ref pk stake xs)"
proof (cases "pk \<in> cd_pubkey ` set xs")
  case True
  then obtain p where p: "p < length xs" "cd_pubkey (xs ! p) = pk" by (metis imageE in_set_conv_nth)
  have "length (filter (\<lambda>x. cd_pubkey x \<noteq> pk) xs) = length xs - 1"
    using remove_filter[OF assms(1) p] length_remove[OF p(1)] by metis
  then show ?thesis using assms(2) by (simp add: cand_ref_def Let_def)
next
  case False
  then have "filter (\<lambda>x. cd_pubkey x \<noteq> pk) xs = xs" by (auto simp: filter_id_conv)
  then show ?thesis using assms(2) by (simp add: cand_ref_def Let_def)
qed

lemma do_remove_placed:
  assumes c: "cand_inv c" and p: "find_pos (\<lambda>el. cd_pubkey el = pk) (cs_candidates c) = Some p"
    and l: "cf_min_validators cfg < length (cs_candidates c)"
  shows "placed cfg (cand_ref pk 0 (cs_candidates c)) c (do_remove cfg p c)"
    "cf_min_validators cfg \<le> length (cand_ref pk 0 (cs_candidates c))"
proof -
  let ?xs = "cs_candidates c"
  have di: "distinct (map cd_pubkey ?xs)" using c by (simp add: cand_inv_def)
  have p': "p < length ?xs" "cd_pubkey (?xs ! p) = pk" using find_pos_Some[OF p] by auto
  have ys: "list_remove p ?xs = cand_ref pk 0 ?xs" using remove_filter[OF di p'] by (simp add: cand_ref_def Let_def)
  show "cf_min_validators cfg \<le> length (cand_ref pk 0 ?xs)" using l length_remove[OF p'(1)] ys by simp
  have "take (cs_max_validators c) (cand_ref pk 0 ?xs) = take (cs_max_validators c) ?xs" if "cs_max_validators c \<le> p"
    using that p'(1) unfolding ys[symmetric] by (simp add: min_def)
  then show "placed cfg (cand_ref pk 0 ?xs) c (do_remove cfg p c)"
    using update_stake_for_remove_eq[OF c p'(1), of cfg, unfolded ys] l ys
    by (auto simp: do_remove_def placed_def Let_def split: if_splits)
qed

lemma candidates_update_spec:
  assumes c: "cand_inv c" and tot: "stake + sum_list (map cd_stake (cs_candidates c)) < 2 ^ 128"
    and f: "f (map_option (\<lambda>p. cs_candidates c ! p) (find_pos (\<lambda>el. cd_pubkey el = pk) (cs_candidates c))) = Ok stake"
  shows "update_post cfg pk stake g c (candidates_update cfg pk f g c)"
proof -
  let ?xs = "cs_candidates c"
  define pos where "pos = find_pos (\<lambda>el. cd_pubkey el = pk) ?xs"
  have di: "distinct (map cd_pubkey ?xs)" using c by (simp add: cand_inv_def)
  consider (low) "stake \<noteq> 0" "stake < cf_min_validator_stake cfg" | (set) "stake \<noteq> 0" "cf_min_validator_stake cfg \<le> stake"
    | (absent) "stake = 0" "pos = None" | (del) p where "stake = 0" "pos = Some p" by (cases pos) force+
  then show ?thesis
  proof cases
    case low
    then show ?thesis using f[folded pos_def] by (simp add: candidates_update_def Let_def pos_def[symmetric] update_post_def)
  next
    case set
    have "placed cfg (cand_ref pk stake ?xs) c (do_update cfg pos (Candidate pk stake) c)"
      using do_update_placed[OF c refl pos_def tot, of cfg] set by (simp add: cand_ref_def Let_def)
    from placed_post[OF c this] show ?thesis
      using f[folded pos_def] set length_ref_insert[OF di set(1), of pk]
      by (simp add: candidates_update_def Let_def pos_def[symmetric])
  next
    case absent
    then have "cand_ref pk stake ?xs = ?xs"
      using find_pos_None[of "\<lambda>el. cd_pubkey el = pk" ?xs] by (auto simp: cand_ref_def pos_def filter_id_conv)
    then show ?thesis using f[folded pos_def] absent c
      by (simp add: candidates_update_def Let_def pos_def[symmetric] update_post_def)
  next
    case del
    show ?thesis
    proof (cases "cf_min_validators cfg < length ?xs")
      case True
      note R = do_remove_placed[OF c del(2)[unfolded pos_def] True]
      show ?thesis using placed_post[OF c R(1)] R(2) f[folded pos_def] del
        by (simp add: candidates_update_def Let_def pos_def[symmetric])
    next
      case False
      then show ?thesis using f[folded pos_def] del
        by (simp add: candidates_update_def Let_def pos_def[symmetric] do_remove_def update_post_def)
    qed
  qed
qed

section \<open>Creation and resizing\<close>

lemma sum_list_sort: "sum_list (map f (sort xs)) = sum_list (map f (xs :: ('a :: linorder) list) :: nat list)"
  by (metis mset_map mset_sort sum_mset_sum_list)

lemma candidates_new_spec:
  assumes d: "distinct (map va_pubkey vs)" and s: "list_all (\<lambda>v. 0 < va_stake v) vs" and n: "0 < n"
    and tot: "sum_list (map va_stake vs) < 2 ^ 128"
  obtains c where "candidates_new n vs = Some c" "cand_inv c" "cs_max_validators c = n"
    "mset (cs_candidates c) = mset (map candidate_from vs)" "cs_changed c \<longleftrightarrow> n < length vs"
proof -
  let ?xs = "sort (map candidate_from vs)"
  have st: "sum_list (map cd_stake ?xs) = sum_list (map va_stake vs)"
    by (simp add: sum_list_sort candidate_from_def o_def)
  have "head_sum n ?xs < 2 ^ 128" using head_sum_le[of n ?xs] tot st by simp
  then have sh: "sum_head_stake n ?xs = Some (head_sum n ?xs)" by (rule sum_head_stake_eq)
  have dp: "distinct (map cd_pubkey (map candidate_from vs))" using d by (simp add: candidate_from_def o_def)
  have "mset (map cd_pubkey ?xs) = mset (map cd_pubkey (map candidate_from vs))" by (metis mset_map mset_sort)
  then have dk: "distinct (map cd_pubkey ?xs)" using dp mset_eq_imp_distinct_iff by blast
  then have "sorted_wrt (<) ?xs" by (simp add: strict_sorted_iff distinct_map del: distinct_sort)
  moreover have "list_all (\<lambda>x. 0 < cd_stake x) ?xs" using s by (auto simp: list_all_iff candidate_from_def)
  ultimately have "cand_inv \<lparr>cs_max_validators = n, cs_candidates = ?xs, cs_changed = length ?xs > n,
      cs_head_stake = head_sum n ?xs\<rparr>" using dk n by (simp add: cand_inv_def)
  then show thesis using sh by (intro that) (auto simp: candidates_new_def from_candidates_def Let_def)
qed

lemma update_max_validators_spec:
  assumes c: "cand_inv c" and n: "0 < n" and tot: "sum_list (map cd_stake (cs_candidates c)) < 2 ^ 128"
  obtains c' where "update_max_validators n c = Some c'" "cand_inv c'" "cs_max_validators c' = n"
    "cs_candidates c' = cs_candidates c" "cs_changed c \<longrightarrow> cs_changed c'"
    "\<not> cs_changed c' \<longrightarrow> take n (cs_candidates c) = take (cs_max_validators c) (cs_candidates c)"
proof (cases "min (length (cs_candidates c)) (cs_max_validators c) = min (length (cs_candidates c)) n")
  case True
  then have t: "take n (cs_candidates c) = take (cs_max_validators c) (cs_candidates c)"
    by (auto simp: min_def split: if_splits)
  then show thesis using True c n
    by (intro that[of "c\<lparr>cs_max_validators := n\<rparr>"]) (auto simp: update_max_validators_def Let_def cand_inv_def head_sum_def)
next
  case False
  have "head_sum n (cs_candidates c) < 2 ^ 128" using head_sum_le[of n "cs_candidates c"] tot by simp
  from sum_head_stake_eq[OF this] show thesis using False c n
    by (intro that[of "c\<lparr>cs_max_validators := n, cs_changed := True, cs_head_stake := head_sum n (cs_candidates c)\<rparr>"])
      (auto simp: update_max_validators_def Let_def cand_inv_def)
qed

section \<open>Properties\<close>

text \<open>
  C37: updating a candidate's stake. On a set that is sorted, free of duplicates and
  knows the stake of its head, \<open>Candidates::update\<close> does what re-inserting the
  candidate in a sorted list would do and keeps all three properties; it flags every
  change of the head; it never lets the number of candidates or the stake of the head
  fall below the configured minimum; it fails only for the reason it reports; and it
  does not panic unless the total stake overflows 128 bits.
\<close>

theorem candidates_update_correct:
  assumes "cand_inv c" "stake + sum_list (map cd_stake (cs_candidates c)) < 2 ^ 128"
    and "new_stake_fn (map_option (\<lambda>p. cs_candidates c ! p) (find_pos (\<lambda>el. cd_pubkey el = pk) (cs_candidates c))) = Ok stake"
  shows "update_post cfg pk stake g c (candidates_update cfg pk new_stake_fn g c)"
  by (rule candidates_update_spec[where f = new_stake_fn, OF assms])

theorem candidates_update_correct_witness:
  "\<exists>c'. candidates_update \<lparr>cf_min_validators = 1, cf_max_validators = 2, cf_min_validator_stake = 1,
       cf_min_total_stake = 3, cf_min_quorum_stake = 2, cf_min_block_length = 1, cf_max_block_age_ns = 1,
       cf_min_epoch_length = 1\<rparr> (2 :: nat) (\<lambda>_. Ok 12) id
       \<lparr>cs_max_validators = 2, cs_candidates = [Candidate 1 10, Candidate 2 5], cs_changed = False, cs_head_stake = 15\<rparr> = Ok c' \<and>
     cs_candidates c' = [Candidate 2 12, Candidate 1 10]"
proof -
  let ?cfg = "\<lparr>cf_min_validators = 1, cf_max_validators = 2, cf_min_validator_stake = 1,
       cf_min_total_stake = 3, cf_min_quorum_stake = 2, cf_min_block_length = 1, cf_max_block_age_ns = 1,
       cf_min_epoch_length = 1\<rparr> :: config"
  let ?c = "\<lparr>cs_max_validators = 2, cs_candidates = [Candidate 1 10, Candidate 2 5], cs_changed = False, cs_head_stake = 15\<rparr>
     :: nat candidates"
  have i: "cand_inv ?c" by (simp add: cand_inv_def candidate_order_defs head_sum_def)
  have r: "cand_ref 2 12 (cs_candidates ?c) = [Candidate 2 12, Candidate 1 10]"
    by (simp add: cand_ref_def candidate_order_defs)
  have "update_post ?cfg 2 12 id ?c (candidates_update ?cfg 2 (\<lambda>_. Ok 12) id ?c)"
    by (rule candidates_update_correct[OF i]) simp_all
  then show ?thesis using r by (auto simp: update_post_def head_sum_def Let_def split: outcome.splits)
qed

end
