(* ===== verification/Guest_Block.thy ===== *)
theory Guest_Block
  imports Candidates U3
begin

text \<open>
  Epochs, block headers, blocks and fingerprints of the guest chain,
  \<^verbatim>\<open>common/guestchain/src/{epoch,block}.rs\<close>. The hash function and the borsh
  encodings that are hashed are code of other crates; they are the fields of
  \<open>crypto\<close>, an argument of the operations that use them. The \<open>version\<close> fields of
  the source hold the only value of a unit type and are left out.
\<close>

section \<open>Epochs\<close>

record 'pk epoch =
  ep_validators :: "'pk validator list"
  ep_quorum_stake :: nat
  ep_total_stake :: nat

definition epoch_new_with :: "'pk validator list \<Rightarrow> (nat \<Rightarrow> nat) \<Rightarrow> 'pk epoch option" where
  "epoch_new_with validators quorum_stake =
     (case sum_stakes 0 (map va_stake validators) of
        None \<Rightarrow> None
      | Some tot \<Rightarrow>
          if tot = 0 then None
          else
            (let quorum = quorum_stake tot in
             if quorum \<le> tot
             then Some \<lparr>ep_validators = validators, ep_quorum_stake = quorum, ep_total_stake = tot\<rparr>
             else None))"

definition epoch_new :: "'pk validator list \<Rightarrow> nat \<Rightarrow> 'pk epoch option" where
  "epoch_new validators quorum_stake = epoch_new_with validators (\<lambda>_. quorum_stake)"

definition epoch_validator :: "'pk epoch \<Rightarrow> 'pk \<Rightarrow> 'pk validator option" where
  "epoch_validator e pk = find (\<lambda>v. va_pubkey v = pk) (ep_validators e)"

section \<open>Blocks\<close>

record block_header =
  bh_prev_block_hash :: hash
  bh_block_height :: height
  bh_host_height :: height
  bh_timestamp_ns :: nat
  bh_state_root :: hash
  bh_epoch_id :: hash
  bh_next_epoch_commitment :: "hash option"

record 'pk block =
  bl_header :: block_header
  bl_next_epoch :: "'pk epoch option"

record 'pk crypto =
  cr_digest :: "byte list \<Rightarrow> hash"
  cr_header :: "block_header \<Rightarrow> byte list"
  cr_epoch :: "'pk epoch \<Rightarrow> byte list"

definition HASH_DEFAULT :: hash where
  "HASH_DEFAULT = replicate 32 0"

definition calc_hash :: "'pk crypto \<Rightarrow> block_header \<Rightarrow> hash" where
  "calc_hash X h = cr_digest X (cr_header X h)"

definition calc_commitment :: "'pk crypto \<Rightarrow> 'pk epoch \<Rightarrow> hash" where
  "calc_commitment X e = cr_digest X (cr_epoch X e)"

datatype block_generate_error = BadHostHeight | BadHostTimestamp

definition header_generate_genesis :: "height \<Rightarrow> height \<Rightarrow> nat \<Rightarrow> hash \<Rightarrow> hash \<Rightarrow> block_header" where
  "header_generate_genesis block_height host_height timestamp_ns state_root next_epoch_commitment =
     \<lparr>bh_prev_block_hash = HASH_DEFAULT, bh_block_height = block_height, bh_host_height = host_height,
      bh_timestamp_ns = timestamp_ns, bh_state_root = state_root, bh_epoch_id = HASH_DEFAULT,
      bh_next_epoch_commitment = Some next_epoch_commitment\<rparr>"

definition is_genesis :: "block_header \<Rightarrow> bool" where
  "is_genesis h \<longleftrightarrow> bh_prev_block_hash h = HASH_DEFAULT \<and> bh_epoch_id h = HASH_DEFAULT"

definition header_generate_next ::
  "'pk crypto \<Rightarrow> block_header \<Rightarrow> height \<Rightarrow> nat \<Rightarrow> hash \<Rightarrow> 'pk epoch option \<Rightarrow> (block_generate_error, 'pk block) outcome" where
  "header_generate_next X self host_height timestamp_ns state_root next_epoch =
     (if host_height \<le> bh_host_height self then Err BadHostHeight
      else if timestamp_ns \<le> bh_timestamp_ns self then Err BadHostTimestamp
      else
        (let prev_block_hash = calc_hash X self;
             epoch_id = (if bh_next_epoch_commitment self = None then bh_epoch_id self else prev_block_hash)
         in case height_next (bh_block_height self) of
              None \<Rightarrow> Panic
            | Some block_height \<Rightarrow>
                Ok \<lparr>bl_header = \<lparr>bh_prev_block_hash = prev_block_hash, bh_block_height = block_height,
                      bh_host_height = host_height, bh_timestamp_ns = timestamp_ns, bh_state_root = state_root,
                      bh_epoch_id = epoch_id,
                      bh_next_epoch_commitment = map_option (calc_commitment X) next_epoch\<rparr>,
                    bl_next_epoch = next_epoch\<rparr>))"

definition block_generate_genesis ::
  "'pk crypto \<Rightarrow> height \<Rightarrow> height \<Rightarrow> nat \<Rightarrow> hash \<Rightarrow> 'pk epoch \<Rightarrow> 'pk block" where
  "block_generate_genesis X block_height host_height timestamp_ns state_root next_epoch =
     \<lparr>bl_header = header_generate_genesis block_height host_height timestamp_ns state_root (calc_commitment X next_epoch),
      bl_next_epoch = Some next_epoch\<rparr>"

section \<open>Fingerprints\<close>

type_synonym fingerprint = "byte list"

definition fingerprint_from_hash :: "hash \<Rightarrow> height \<Rightarrow> hash \<Rightarrow> fingerprint" where
  "fingerprint_from_hash genesis_hash block_height block_hash = genesis_hash @ to_le 8 block_height @ block_hash"

definition fingerprint_new :: "'pk crypto \<Rightarrow> hash \<Rightarrow> block_header \<Rightarrow> fingerprint" where
  "fingerprint_new X genesis_hash header =
     fingerprint_from_hash genesis_hash (bh_block_height header) (calc_hash X header)"

definition fingerprint_parse :: "fingerprint \<Rightarrow> hash \<times> height \<times> hash" where
  "fingerprint_parse fp =
     (let (genesis, rest) = split_array 32 fp; (hgt, hash) = split_array 8 rest
      in (genesis, from_le hgt, hash))"

definition fingerprint_sign :: "(byte list \<Rightarrow> 'sig) \<Rightarrow> fingerprint \<Rightarrow> 'sig" where
  "fingerprint_sign sign fp = sign fp"

definition fingerprint_verify :: "(byte list \<Rightarrow> 'pk \<Rightarrow> 'sig \<Rightarrow> bool) \<Rightarrow> fingerprint \<Rightarrow> 'pk \<Rightarrow> 'sig \<Rightarrow> bool" where
  "fingerprint_verify verify fp pubkey signature = verify fp pubkey signature"

section \<open>Well-formed epochs\<close>

text \<open>The stake of the validators with one of the given keys.\<close>

definition keys_stake :: "'pk validator list \<Rightarrow> 'pk set \<Rightarrow> nat" where
  "keys_stake vs S = sum_list (map va_stake (filter (\<lambda>v. va_pubkey v \<in> S) vs))"

definition epoch_inv :: "'pk epoch \<Rightarrow> bool" where
  "epoch_inv e \<longleftrightarrow>
     distinct (map va_pubkey (ep_validators e)) \<and> list_all (\<lambda>v. 0 < va_stake v) (ep_validators e) \<and>
     ep_total_stake e = sum_list (map va_stake (ep_validators e)) \<and> ep_total_stake e < 2 ^ 128 \<and>
     0 < ep_quorum_stake e \<and> ep_quorum_stake e \<le> ep_total_stake e"

lemma epoch_new_with_Some:
  "epoch_new_with vs q = Some e \<longleftrightarrow>
     0 < sum_list (map va_stake vs) \<and> sum_list (map va_stake vs) < 2 ^ 128 \<and>
     q (sum_list (map va_stake vs)) \<le> sum_list (map va_stake vs) \<and>
     e = \<lparr>ep_validators = vs, ep_quorum_stake = q (sum_list (map va_stake vs)),
          ep_total_stake = sum_list (map va_stake vs)\<rparr>"
proof -
  have "sum_stakes 0 (map va_stake vs) =
      (if sum_list (map va_stake vs) < 2 ^ 128 then Some (sum_list (map va_stake vs)) else None)"
    by (cases "vs = []") (simp_all add: sum_stakes_eq)
  then show ?thesis by (auto simp: epoch_new_with_def Let_def simp del: sum_list_eq_0_iff)
qed

lemma keys_stake_le: "keys_stake vs S \<le> sum_list (map va_stake vs)"
  by (induction vs) (auto simp: keys_stake_def)

lemma keys_stake_mono: "S \<subseteq> T \<Longrightarrow> keys_stake vs S \<le> keys_stake vs T"
  by (induction vs) (auto simp: keys_stake_def)

lemma keys_stake_insert:
  assumes "distinct (map va_pubkey vs)" "v \<in> set vs" "va_pubkey v \<notin> S"
  shows "keys_stake vs (insert (va_pubkey v) S) = keys_stake vs S + va_stake v"
  using assms
proof (induction vs)
  case (Cons u vs)
  show ?case
  proof (cases "u = v")
    case True
    then have "va_pubkey v \<notin> va_pubkey ` set vs" using Cons.prems(1) by simp
    then have "filter (\<lambda>x. va_pubkey x \<in> insert (va_pubkey v) S) vs = filter (\<lambda>x. va_pubkey x \<in> S) vs"
      by (intro filter_cong) (auto intro: rev_image_eqI)
    then show ?thesis using True Cons.prems(3) by (simp add: keys_stake_def)
  next
    case False
    then have "v \<in> set vs" "va_pubkey u \<noteq> va_pubkey v" using Cons.prems by auto
    then show ?thesis using Cons.IH Cons.prems by (simp add: keys_stake_def)
  qed
qed simp

lemma keys_stake_all: "va_pubkey ` set vs \<subseteq> S \<Longrightarrow> keys_stake vs S = sum_list (map va_stake vs)"
  unfolding keys_stake_def by (metis (mono_tags, lifting) filter_True image_subset_iff)

lemma keys_stake_Un:
  "keys_stake vs S + keys_stake vs T = keys_stake vs (S \<union> T) + keys_stake vs (S \<inter> T)"
  by (induction vs) (auto simp: keys_stake_def)

lemma epoch_validator_Some:
  "epoch_validator e pk = Some v \<Longrightarrow> v \<in> set (ep_validators e) \<and> va_pubkey v = pk"
  by (auto simp: epoch_validator_def find_Some_iff in_set_conv_nth)

lemma epoch_validator_in: "v \<in> set (ep_validators e) \<Longrightarrow> \<exists>u. epoch_validator e (va_pubkey v) = Some u"
  by (cases "epoch_validator e (va_pubkey v)") (auto simp: epoch_validator_def find_None_iff)

lemma keys_stake_index:
  assumes "distinct (map va_pubkey vs)" "I \<subseteq> {..<length vs}"
  shows "(\<Sum>i\<in>I. va_stake (vs ! i)) = keys_stake vs ((\<lambda>i. va_pubkey (vs ! i)) ` I)"
proof -
  have "finite I" using assms(2) by (rule finite_subset) simp
  then show ?thesis using assms(2)
  proof (induction I)
    case empty
    then show ?case by (simp add: keys_stake_def)
  next
    case (insert i I)
    have "va_pubkey (vs ! i) \<notin> (\<lambda>i. va_pubkey (vs ! i)) ` I"
    proof
      assume "va_pubkey (vs ! i) \<in> (\<lambda>i. va_pubkey (vs ! i)) ` I"
      then obtain j where j: "j \<in> I" "va_pubkey (vs ! i) = va_pubkey (vs ! j)" by blast
      then have "map va_pubkey vs ! i = map va_pubkey vs ! j" "i < length vs" "j < length vs" using insert.prems by auto
      then have "i = j" using nth_eq_iff_index_eq[OF assms(1), of i j] by simp
      then show False using j insert.hyps by simp
    qed
    then show ?case
      using keys_stake_insert[OF assms(1), of "vs ! i" "(\<lambda>i. va_pubkey (vs ! i)) ` I"] insert by simp
  qed
qed

text \<open>Two sets that hold a quorum of more than half of the stake overlap.\<close>

lemma quorum_overlap:
  assumes "epoch_inv e" "ep_total_stake e < 2 * ep_quorum_stake e"
    and "ep_quorum_stake e \<le> keys_stake (ep_validators e) S" "ep_quorum_stake e \<le> keys_stake (ep_validators e) T"
  shows "\<exists>v \<in> set (ep_validators e). va_pubkey v \<in> S \<inter> T"
proof (rule ccontr)
  assume "\<not> ?thesis"
  then have "filter (\<lambda>v. va_pubkey v \<in> S \<inter> T) (ep_validators e) = []" by (auto simp: filter_empty_conv)
  then have "keys_stake (ep_validators e) (S \<inter> T) = 0" by (simp only: keys_stake_def) simp
  then have "2 * ep_quorum_stake e \<le> keys_stake (ep_validators e) (S \<union> T)"
    using keys_stake_Un[of "ep_validators e" S T] assms(3,4) by linarith
  also have "\<dots> \<le> ep_total_stake e" using keys_stake_le[of "ep_validators e"] assms(1) by (simp add: epoch_inv_def)
  finally show False using assms(2) by simp
qed

section \<open>Properties\<close>

text \<open>
  a fingerprint determines the chain, the height and the block: parsing it gives
  back what it was made of, so that fingerprints of different blocks differ.
\<close>

lemma fingerprint_roundtrip:
  assumes "length genesis = 32" "length block_hash = 32" "block_height < 2 ^ 64"
  shows "fingerprint_parse (fingerprint_from_hash genesis block_height block_hash) = (genesis, block_height, block_hash) \<and>
    length (fingerprint_from_hash genesis block_height block_hash) = 72"
  using assms by (simp add: fingerprint_parse_def fingerprint_from_hash_def split_array_def)

end
