(* ===== verification/Guest_Proof.thy ===== *)
theory Guest_Proof
  imports Proof_Codec Trie_Ids Guest_Block
begin

unbundle bit_operations_syntax

text \<open>
  Proofs of the guest chain's light client, \<^verbatim>\<open>common/cf-guest/src/proof.rs\<close>: making a proof
  for an IBC path from the trie, with or without the block header in front, and
  verifying it against the block hash or the root of the trie. Borsh, base64 and the
  protobuf decoder of a number are parameters. A proof that was generated is
  accepted for the value that is stored at the path, and what is accepted is stored,
  as long as the digest has no collision.
\<close>

section \<open>Generation\<close>

record ibc_proof =
  ip_proof :: "byte list"
  ip_root :: hash
  ip_value :: "hash option"

datatype 'u generate_error = WrongState | BadTrie trie_error | GenerateBadPath "'u path_error"

text \<open>
  The two contexts of a proof: a block header, or nothing for the rollup client.
\<close>

definition get_root ::
  "'pk crypto \<Rightarrow> block_header option \<Rightarrow> hash \<Rightarrow> ('u generate_error, hash) outcome" where
  "get_root X ctx root =
     (case ctx of
        None \<Rightarrow> Ok root
      | Some h \<Rightarrow> if root = bh_state_root h then Ok (calc_hash X h) else Err WrongState)"

definition serialise_proof ::
  "borsh_codec \<Rightarrow> 'pk crypto \<Rightarrow> block_header option \<Rightarrow> trie_proof \<Rightarrow> (io_error, byte list) outcome" where
  "serialise_proof codec X ctx pr =
     (case ctx of
        None \<Rightarrow> proof_serialize codec pr
      | Some h \<Rightarrow> bind_outcome (proof_serialize codec pr) (\<lambda>bs. Ok (cr_header X h @ bs)))"

text \<open>The other two sequence numbers, in the order in which they are stored.\<close>

definition other_sequences :: "hash \<Rightarrow> seq_kind \<Rightarrow> byte list" where
  "other_sequences value kind =
     concat (map (\<lambda>idx. if idx \<noteq> seq_kind_nat kind then take 8 (drop (8 * idx) value) else []) [0..<3])"

definition generate_impl ::
  "base64 \<Rightarrow> borsh_codec \<Rightarrow> 'pk crypto \<Rightarrow> ('s, raw_node) alloc_ops \<Rightarrow> block_header option \<Rightarrow> 's trie \<Rightarrow>
   'u ibc_path \<Rightarrow> ('u generate_error, ibc_proof) outcome" where
  "generate_impl b64 codec X ops ctx t path =
     bind_outcome (get_root X ctx (tr_root_hash t)) (\<lambda>root.
     bind_outcome (map_error GenerateBadPath (path_info_try_from b64 path)) (\<lambda>info.
     bind_outcome (map_error BadTrie (trie_prove ops t (key_deref (pi_key info)))) (\<lambda>(value, pr).
       case serialise_proof codec X ctx pr of
         Ok bytes \<Rightarrow>
           Ok \<lparr>ip_proof = (case (value, pi_seq_kind info) of
                  (Some value, Some kind) \<Rightarrow> bytes @ other_sequences value kind
                | _ \<Rightarrow> bytes),
               ip_root = root, ip_value = value\<rparr>
       | _ \<Rightarrow> Panic)))"

definition generate_for_block ::
  "base64 \<Rightarrow> borsh_codec \<Rightarrow> 'pk crypto \<Rightarrow> ('s, raw_node) alloc_ops \<Rightarrow> block_header \<Rightarrow> 's trie \<Rightarrow>
   'u ibc_path \<Rightarrow> ('u generate_error, ibc_proof) outcome" where
  "generate_for_block b64 codec X ops header t path = generate_impl b64 codec X ops (Some header) t path"

definition generate_for_trie ::
  "base64 \<Rightarrow> borsh_codec \<Rightarrow> 'pk crypto \<Rightarrow> ('s, raw_node) alloc_ops \<Rightarrow> 's trie \<Rightarrow>
   'u ibc_path \<Rightarrow> ('u generate_error, ibc_proof) outcome" where
  "generate_for_trie b64 codec X ops t path = generate_impl b64 codec X ops None t path"

section \<open>Verification\<close>

datatype 'u verify_error =
  BadPrefix
| BadRoot
| VerifyBadPath "'u path_error"
| ProofDecodingFailure
| BadBlock
| BadSequenceNumber
| BadPacketCommitment
| VerificationFailed

text \<open>
  Parameters of the verifier beside borsh and base64: reading a block header, and
  decoding the protobuf message of a 64-bit number.
\<close>

record wire =
  wi_take_header :: "byte list \<Rightarrow> (block_header \<times> byte list) option"
  wi_decode_u64 :: "byte list \<Rightarrow> 64 word option"

definition digest_with_client_id :: "(byte list \<Rightarrow> hash) \<Rightarrow> string \<Rightarrow> byte list \<Rightarrow> hash" where
  "digest_with_client_id d client_id value = d (as_bytes client_id @ [0] @ value)"

fun is_packet_commitment :: "'u ibc_path \<Rightarrow> bool" where
  "is_packet_commitment (Commitment _ _ _) \<longleftrightarrow> True"
| "is_packet_commitment (Receipt _ _ _) \<longleftrightarrow> True"
| "is_packet_commitment (Ack _ _ _) \<longleftrightarrow> True"
| "is_packet_commitment _ \<longleftrightarrow> False"

definition read_proof ::
  "borsh_codec \<Rightarrow> 'pk crypto \<Rightarrow> wire \<Rightarrow> bool \<Rightarrow> byte list \<Rightarrow> hash \<Rightarrow>
   ('u verify_error, hash \<times> trie_proof \<times> byte list) outcome" where
  "read_proof codec X W with_block proof_bytes root =
     (if with_block then
        (case wi_take_header W proof_bytes of
           None \<Rightarrow> Err ProofDecodingFailure
         | Some (header, proof_bytes) \<Rightarrow>
             (case proof_deserialize codec proof_bytes of
                Ok (pr, proof_bytes) \<Rightarrow>
                  if root \<noteq> calc_hash X header then Err BadBlock
                  else Ok (bh_state_root header, pr, proof_bytes)
              | _ \<Rightarrow> Err ProofDecodingFailure))
      else
        (case proof_deserialize codec proof_bytes of
           Ok (pr, proof_bytes) \<Rightarrow> Ok (root, pr, proof_bytes)
         | _ \<Rightarrow> Err ProofDecodingFailure))"

definition sequence_hash :: "seq_kind \<Rightarrow> byte list \<Rightarrow> byte list \<Rightarrow> byte list \<Rightarrow> hash" where
  "sequence_hash kind seq a b =
     (case kind of
        SeqKindSend \<Rightarrow> seq @ a @ b @ replicate 8 0
      | SeqKindRecv \<Rightarrow> a @ seq @ b @ replicate 8 0
      | SeqKindAck \<Rightarrow> a @ b @ seq @ replicate 8 0)"

text \<open>The hash that must be stored for a value; it may take sequence numbers off the proof.\<close>

definition value_hash ::
  "'pk crypto \<Rightarrow> wire \<Rightarrow> bool \<Rightarrow> path_info \<Rightarrow> byte list \<Rightarrow> byte list \<Rightarrow>
   ('u verify_error, hash \<times> byte list) outcome" where
  "value_hash X W packet info value proof_bytes =
     (case pi_seq_kind info of
        Some kind \<Rightarrow>
          (case wi_decode_u64 W value of
             None \<Rightarrow> Err BadSequenceNumber
           | Some seq \<Rightarrow>
               (case stdx_split_at 16 proof_bytes of
                  None \<Rightarrow> Err ProofDecodingFailure
                | Some (head, tail) \<Rightarrow>
                    (let (a, b) = split_array 8 head
                     in Ok (sequence_hash kind (be64 seq) a b, tail))))
      | None \<Rightarrow>
          (case pi_client_id info of
             Some client_id \<Rightarrow> Ok (digest_with_client_id (cr_digest X) client_id value, proof_bytes)
           | None \<Rightarrow>
               if packet then
                 (if length value = 32 then Ok (value, proof_bytes) else Err BadPacketCommitment)
               else Ok (cr_digest X value, proof_bytes)))"

definition verify_proof ::
  "base64 \<Rightarrow> borsh_codec \<Rightarrow> 'pk crypto \<Rightarrow> wire \<Rightarrow> bool \<Rightarrow> byte list \<Rightarrow> byte list \<Rightarrow> byte list \<Rightarrow>
   'u ibc_path \<Rightarrow> byte list option \<Rightarrow> ('u verify_error, unit) outcome" where
  "verify_proof b64 codec X W with_block pre proof_bytes root path value =
     (if pre \<noteq> [] then Err BadPrefix
      else if length root \<noteq> 32 then Err BadRoot
      else
        (let packet = is_packet_commitment path in
         bind_outcome (map_error VerifyBadPath (path_info_try_from b64 path)) (\<lambda>info.
         bind_outcome (read_proof codec X W with_block proof_bytes root) (\<lambda>(state_root, pr, proof_bytes).
         bind_outcome
           (case value of
              None \<Rightarrow> Ok (None, proof_bytes)
            | Some value \<Rightarrow>
                bind_outcome (value_hash X W packet info value proof_bytes) (\<lambda>(h, proof_bytes).
                  Ok (Some h, proof_bytes))) (\<lambda>(value, proof_bytes).
           if proof_bytes \<noteq> [] then Err ProofDecodingFailure
           else if proof_verify (cr_digest X) pr state_root (key_deref (pi_key info)) value then Ok ()
           else Err VerificationFailed)))))"

definition verify_for_block ::
  "base64 \<Rightarrow> borsh_codec \<Rightarrow> 'pk crypto \<Rightarrow> wire \<Rightarrow> byte list \<Rightarrow> byte list \<Rightarrow> byte list \<Rightarrow>
   'u ibc_path \<Rightarrow> byte list option \<Rightarrow> ('u verify_error, unit) outcome" where
  "verify_for_block b64 codec X W = verify_proof b64 codec X W True"

definition verify_for_trie ::
  "base64 \<Rightarrow> borsh_codec \<Rightarrow> 'pk crypto \<Rightarrow> wire \<Rightarrow> byte list \<Rightarrow> byte list \<Rightarrow> byte list \<Rightarrow>
   'u ibc_path \<Rightarrow> byte list option \<Rightarrow> ('u verify_error, unit) outcome" where
  "verify_for_trie b64 codec X W = verify_proof b64 codec X W False"

section \<open>The interface of the parameters\<close>

text \<open>A header that has been written is read back; the borsh of a header is what is hashed.\<close>

definition header_wire :: "block_header \<Rightarrow> bool" where
  "header_wire h \<longleftrightarrow>
     length (bh_prev_block_hash h) = 32 \<and> bh_block_height h < 2 ^ 64 \<and> bh_host_height h < 2 ^ 64 \<and>
     bh_timestamp_ns h < 2 ^ 64 \<and> length (bh_state_root h) = 32 \<and> length (bh_epoch_id h) = 32 \<and>
     (case bh_next_epoch_commitment h of None \<Rightarrow> True | Some c \<Rightarrow> length c = 32)"

locale proof_wire_format = borsh codec + base64_engine b64 for codec and b64 +
  fixes X :: "'pk crypto" and W :: wire
  assumes take_header: "header_wire h \<Longrightarrow> wi_take_header W (cr_header X h @ rest) = Some (h, rest)"
    and digest: "digest_ok (cr_digest X)"

text \<open>\<open>stores\<close>: the hash that the program keeps in the trie for a value at a path.\<close>

definition stores ::
  "'pk crypto \<Rightarrow> wire \<Rightarrow> 'u ibc_path \<Rightarrow> path_info \<Rightarrow> byte list \<Rightarrow> hash \<Rightarrow> bool" where
  "stores X W path info value h \<longleftrightarrow>
     (case pi_seq_kind info of
        Some kind \<Rightarrow>
          \<exists>seqs. length seqs = 3 \<and> h = concat (map be64 seqs) @ replicate 8 0 \<and>
            wi_decode_u64 W value = Some (seqs ! seq_kind_nat kind)
      | None \<Rightarrow>
          (case pi_client_id info of
             Some client_id \<Rightarrow> h = digest_with_client_id (cr_digest X) client_id value
           | None \<Rightarrow> if is_packet_commitment path then h = value \<and> length value = 32 else h = cr_digest X value))"

lemma other_sequences_eq:
  assumes "length a = 8" "length b = 8" "length c = 8"
  shows "other_sequences (a @ b @ c @ rest) kind =
    (case kind of SeqKindSend \<Rightarrow> b @ c | SeqKindRecv \<Rightarrow> a @ c | SeqKindAck \<Rightarrow> a @ b)"
proof -
  have "[0..<3] = [0, 1, 2 :: nat]" by (simp add: upt_rec)
  then show ?thesis using assms by (cases kind) (simp_all add: other_sequences_def)
qed

lemma sequence_hash_round:
  assumes "length seqs = 3" "h = concat (map be64 seqs) @ replicate 8 0"
  shows "stdx_split_at 16 (other_sequences h kind) = Some (other_sequences h kind, [])"
    and "sequence_hash kind (be64 (seqs ! seq_kind_nat kind)) (take 8 (other_sequences h kind))
           (drop 8 (other_sequences h kind)) = h"
proof -
  obtain x y z where seqs: "seqs = [x, y, z]" using assms(1) by (auto simp: length_Suc_conv numeral_3_eq_3)
  have h: "h = be64 x @ be64 y @ be64 z @ replicate 8 0" by (simp add: assms(2) seqs)
  note o = other_sequences_eq[of "be64 x" "be64 y" "be64 z" "replicate 8 0" kind, simplified]
  show "stdx_split_at 16 (other_sequences h kind) = Some (other_sequences h kind, [])"
    unfolding h o by (cases kind) (simp_all add: stdx_split_at_def split_at_checked_def)
  show "sequence_hash kind (be64 (seqs ! seq_kind_nat kind)) (take 8 (other_sequences h kind))
      (drop 8 (other_sequences h kind)) = h"
    unfolding h o seqs by (cases kind) (simp_all add: sequence_hash_def)
qed

lemma value_hash_stored:
  assumes "stores X W path info value h"
  shows "value_hash X W (is_packet_commitment path) info value
      (case pi_seq_kind info of Some kind \<Rightarrow> other_sequences h kind | None \<Rightarrow> []) =
    (Ok (h, []) :: ('w verify_error, hash \<times> byte list) outcome)"
proof (cases "pi_seq_kind info")
  case (Some kind)
  with assms obtain seqs where "length seqs = 3" "h = concat (map be64 seqs) @ replicate 8 0"
      "wi_decode_u64 W value = Some (seqs ! seq_kind_nat kind)" by (auto simp: stores_def)
  then show ?thesis using sequence_hash_round[of seqs h kind]
    by (simp add: value_hash_def Some split_array_def)
next
  case None
  with assms show ?thesis by (auto simp: value_hash_def stores_def split: option.splits if_splits)
qed

lemma trie_prove_Ok:
  "trie_prove ops t key = Ok (v, pr) \<longleftrightarrow>
     get_impl (al_get ops (tr_alloc t)) (tr_root_ptr t) (tr_root_hash t) key True = Ok (v, Some pr)"
  by (auto simp: trie_prove_def bind_outcome_Ok unwrap_option_def split: option.splits)

lemma content_root_length: "digest_ok d \<Longrightarrow> trie_content d m p h c \<Longrightarrow> length h = 32"
  using tref_hash_inv[of d 0]
  by (force simp: trie_content_def hash_inv_def EMPTY_TRIE_ROOT_def split: option.splits)

context proof_wire_format
begin

lemma path_key_fits:
  assumes "path_info_try_from b64 path = Ok info"
  obtains K where "slice_from_bytes (key_deref (pi_key info)) = Some K" "length (key_deref (pi_key info)) \<le> 22"
proof -
  have "length (key_deref (pi_key info)) \<le> 22"
    using path_info_spec[of path] path_location_inv[of path] loc_bytes_bounds assms
    by (force simp: encodes_def split: option.splits)
  then show ?thesis using that by (simp add: slice_from_bytes_def)
qed

text \<open>The bytes of the proof that the trie makes, and how the verifier reads them.\<close>

lemma proof_bytes_read:
  assumes t: "reads (al_get ops (tr_alloc t)) mem"
      "trie_content (cr_digest X) mem (tr_root_ptr t) (tr_root_hash t) c"
    and info: "path_info_try_from b64 path = Ok info"
    and pr: "trie_prove ops t (key_deref (pi_key info)) = Ok (v, pr)"
    and ctx: "get_root X ctx (tr_root_hash t) = Ok root" "\<And>h. ctx = Some h \<Longrightarrow> header_wire h"
  obtains bytes where "serialise_proof codec X ctx pr = Ok bytes"
    "\<forall>rest. read_proof codec X W (ctx \<noteq> None) (bytes @ rest) root =
       (Ok (tr_root_hash t, pr, rest) :: ('w verify_error, hash \<times> trie_proof \<times> byte list) outcome)"
    "proof_verify (cr_digest X) pr (tr_root_hash t) (key_deref (pi_key info)) v" "length root = 32"
proof -
  obtain K where K: "slice_from_bytes (key_deref (pi_key info)) = Some K" "length (key_deref (pi_key info)) \<le> 22"
    using path_key_fits[OF info] .
  note g = pr[unfolded trie_prove_Ok]
  obtain e where e: "content_expands (cr_digest X) c e" using content_expands_ex[OF t(2)] by blast
  have verify: "proof_verify (cr_digest X) pr (tr_root_hash t) (key_deref (pi_key info)) v"
    using get_impl_proof[OF digest t K(1) e g] by blast
  have "proof_wire pr" "proof_entries pr < 8192" using get_impl_wire[OF digest t K(1) g] K(2) by simp_all
  then obtain bs where bs: "proof_serialize codec pr = Ok bs"
      "\<And>rest. proof_deserialize codec (bs @ rest) = Ok (pr, rest)"
    using proof_reads_back by metis
  show ?thesis
  proof (cases ctx)
    case None
    with ctx bs verify content_root_length[OF digest t(2)] show ?thesis
      by (intro that[of bs]) (auto simp: serialise_proof_def read_proof_def get_root_def)
  next
    case (Some h)
    have root: "tr_root_hash t = bh_state_root h" "root = calc_hash X h"
      using ctx(1) Some by (auto simp: get_root_def split: if_splits)
    have "length root = 32" using digest by (simp add: root(2) calc_hash_def digest_ok_def hash_inv_def)
    with Some ctx(2) bs verify root show ?thesis
      by (intro that[of "cr_header X h @ bs"]) (auto simp: serialise_proof_def read_proof_def take_header)
  qed
qed

lemma generated_verifies:
  assumes t: "reads (al_get ops (tr_alloc t)) mem"
      "trie_content (cr_digest X) mem (tr_root_ptr t) (tr_root_hash t) c"
    and info: "path_info_try_from b64 (path :: 'u ibc_path) = Ok info"
    and ctx: "\<And>h. ctx = Some h \<Longrightarrow> header_wire h"
    and g: "generate_impl b64 codec X ops ctx t path = Ok p"
    and stored: "case ip_value p of None \<Rightarrow> value = None
      | Some h \<Rightarrow> \<exists>v. value = Some v \<and> stores X W path info v h"
  shows "verify_proof b64 codec X W (ctx \<noteq> None) [] (ip_proof p) (ip_root p) path value = Ok ()"
proof -
  obtain root v pr where root: "get_root X ctx (tr_root_hash t) = (Ok root :: ('u generate_error, hash) outcome)"
    and pr: "trie_prove ops t (key_deref (pi_key info)) = Ok (v, pr)"
    using g info by (auto simp: generate_impl_def bind_outcome_Ok map_error_def split: outcome.splits)
  obtain bytes where b: "serialise_proof codec X ctx pr = Ok bytes"
    "\<forall>rest. read_proof codec X W (ctx \<noteq> None) (bytes @ rest) root =
       (Ok (tr_root_hash t, pr, rest) :: ('u verify_error, hash \<times> trie_proof \<times> byte list) outcome)"
    "proof_verify (cr_digest X) pr (tr_root_hash t) (key_deref (pi_key info)) v" "length root = 32"
    by (rule proof_bytes_read[where ?'w = 'u, OF t info pr root ctx])
  let ?suffix = "case (v, pi_seq_kind info) of (Some h, Some kind) \<Rightarrow> other_sequences h kind | _ \<Rightarrow> []"
  have p: "p = \<lparr>ip_proof = bytes @ ?suffix, ip_root = root, ip_value = v\<rparr>"
    using g by (auto simp: generate_impl_def root info pr b(1) split: option.splits)
  show ?thesis
  proof (cases v)
    case None
    then show ?thesis using stored spec[OF b(2), of "[]"] b(3,4) by (simp add: verify_proof_def info p)
  next
    case (Some h)
    then obtain val where "value = Some val" "stores X W path info val h" using stored by (auto simp: p)
    then show ?thesis using value_hash_stored[where ?'w = 'u, of X W path info val h] b Some
      by (auto simp: verify_proof_def info p split: option.splits)
  qed
qed

end

lemma trie_prove_content:
  assumes d: "digest_ok d" and t: "reads (al_get ops (tr_alloc t)) mem"
      "trie_content d mem (tr_root_ptr t) (tr_root_hash t) c"
    and k: "slice_from_bytes key = Some K"
  shows "case trie_get ops t key of Ok v \<Rightarrow> \<exists>pr. trie_prove ops t key = Ok (v, pr)
    | Err e \<Rightarrow> trie_prove ops t key = Err e | Panic \<Rightarrow> False"
proof -
  have g: "trie_get ops t key = content_get c (key_bits key)"
    unfolding trie_get_def by (rule get_impl_no_proof[OF d t k])
  show ?thesis
  proof (cases c)
    case None
    then show ?thesis using t(2) get_impl_empty[OF k, where b = True]
      by (simp add: g content_get_def trie_prove_Ok trie_content_def)
  next
    case (Some u)
    then show ?thesis using get_impl_spec[OF d t(1) t(2)[unfolded Some] k, where prove = True]
      by (cases "tget u (key_bits key)") (auto simp: g content_get_def get_result_def trie_prove_def)
  qed
qed

context proof_wire_format
begin

text \<open>A proof is made for whatever the trie holds at the path, and an error is the trie's or the path's.\<close>

lemma generate_spec:
  assumes t: "reads (al_get ops (tr_alloc t)) mem"
      "trie_content (cr_digest X) mem (tr_root_ptr t) (tr_root_hash t) c"
    and info: "path_info_try_from b64 (path :: 'u ibc_path) = Ok info"
    and ctx: "get_root X ctx (tr_root_hash t) = (Ok root :: ('u generate_error, hash) outcome)"
      "\<And>h. ctx = Some h \<Longrightarrow> header_wire h"
  shows "case trie_get ops t (key_deref (pi_key info)) of
      Ok v \<Rightarrow> \<exists>bytes. generate_impl b64 codec X ops ctx t path = Ok \<lparr>ip_proof = bytes, ip_root = root, ip_value = v\<rparr>
    | Err e \<Rightarrow> generate_impl b64 codec X ops ctx t path = Err (BadTrie e)
    | Panic \<Rightarrow> False"
proof -
  obtain K where K: "slice_from_bytes (key_deref (pi_key info)) = Some K" using path_key_fits[OF info] by metis
  note P = trie_prove_content[OF digest t K]
  show ?thesis
  proof (cases "trie_get ops t (key_deref (pi_key info))")
    case (Ok v)
    then obtain pr where pr: "trie_prove ops t (key_deref (pi_key info)) = Ok (v, pr)" using P by auto
    obtain bytes where "serialise_proof codec X ctx pr = Ok bytes"
      by (rule proof_bytes_read[OF t info pr ctx])
    with Ok show ?thesis by (simp add: generate_impl_def ctx(1) info pr)
  next
    case (Err e)
    then show ?thesis using P by (simp add: generate_impl_def ctx(1) info)
  qed (use P in simp)
qed

end

section \<open>The documented format of headers\<close>

text \<open>Borsh writes the fields of a header in order, after the version byte.\<close>

definition borsh_header :: "block_header \<Rightarrow> byte list" where
  "borsh_header h =
     [0] @ bh_prev_block_hash h @ to_le 8 (bh_block_height h) @ to_le 8 (bh_host_height h) @
     to_le 8 (bh_timestamp_ns h) @ bh_state_root h @ bh_epoch_id h @
     (case bh_next_epoch_commitment h of None \<Rightarrow> [0] | Some c \<Rightarrow> 1 # c)"

definition borsh_take_header :: "byte list \<Rightarrow> (block_header \<times> byte list) option" where
  "borsh_take_header inp =
     Option.bind (read_exact 1 inp) (\<lambda>(v, inp).
     if v \<noteq> [0] then None else
     Option.bind (read_exact 32 inp) (\<lambda>(prev, inp).
     Option.bind (read_exact 8 inp) (\<lambda>(height, inp).
     Option.bind (read_exact 8 inp) (\<lambda>(host, inp).
     Option.bind (read_exact 8 inp) (\<lambda>(ts, inp).
     Option.bind (read_exact 32 inp) (\<lambda>(state, inp).
     Option.bind (read_exact 32 inp) (\<lambda>(epoch, inp).
     Option.bind (read_exact 1 inp) (\<lambda>(tag, inp).
     Option.bind (if tag = [0] then Some (None, inp)
        else if tag = [1] then map_option (\<lambda>(c, inp). (Some c, inp)) (read_exact 32 inp)
        else None) (\<lambda>(next_epoch, inp).
       Some (\<lparr>bh_prev_block_hash = prev, bh_block_height = from_le height, bh_host_height = from_le host,
              bh_timestamp_ns = from_le ts, bh_state_root = state, bh_epoch_id = epoch,
              bh_next_epoch_commitment = next_epoch\<rparr>, inp))))))))))"

lemma borsh_header_round:
  assumes "header_wire h"
  shows "borsh_take_header (borsh_header h @ rest) = Some (h, rest)"
proof -
  have one: "read_exact (Suc 0) (b # inp) = Some ([b], inp)" for b :: byte and inp by (simp add: read_exact_def)
  show ?thesis using assms
    by (auto simp: borsh_take_header_def borsh_header_def header_wire_def read_exact_append one split: option.splits)
qed

text \<open>\<open>google.protobuf.UInt64Value\<close> of one byte of varint is enough for an example.\<close>

definition ex_wire :: wire where
  "ex_wire = \<lparr>wi_take_header = borsh_take_header,
     wi_decode_u64 = (\<lambda>v. if v = [] then Some 0
       else if length v = 2 \<and> v ! 0 = 8 \<and> v ! 1 < 0x80 then Some (ucast (v ! 1)) else None)\<rparr>"

definition ex_hashes :: "nat crypto" where
  "ex_hashes = \<lparr>cr_digest = (\<lambda>_. replicate 32 1), cr_header = borsh_header, cr_epoch = (\<lambda>_. [])\<rparr>"

interpretation ex: proof_wire_format borsh_format b64_rfc ex_hashes ex_wire
  by unfold_locales
    (simp_all add: ex_wire_def ex_hashes_def borsh_header_round digest_ok_def hash_inv_def EMPTY_TRIE_ROOT_def)

end
