(* ===== verification/Guest_Manager.thy ===== *)
theory Guest_Manager
  imports Guest_Block
begin

text \<open>
  The chain manager of the guest chain, \<^verbatim>\<open>common/guestchain/src/manager.rs\<close>: it
  generates blocks, collects signatures until a quorum is reached and keeps the set of
  candidates for the next epoch.
\<close>

section \<open>State\<close>

definition MAX_CONSENSUS_STATES :: nat where
  "MAX_CONSENSUS_STATES = 20"

record local_consensus_state =
  lc_height :: height
  lc_timestamp :: nat
  lc_blockhash :: "byte list"

record 'pk pending_block =
  pb_next_block :: "'pk block"
  pb_fingerprint :: fingerprint
  pb_signers :: "'pk set"
  pb_signing_stake :: nat

record 'pk chain_manager =
  mg_config :: config
  mg_genesis :: hash
  mg_header :: block_header
  mg_next_epoch :: "'pk epoch"
  mg_pending_block :: "'pk pending_block option"
  mg_epoch_height :: height
  mg_candidates :: "'pk candidates"
  mg_consensus_states :: "local_consensus_state list"

datatype generate_error = HasPendingBlock | BlockTooYoung | UnchangedState | Inner block_generate_error

datatype add_signature_error = NoPendingBlock | BadSignature | BadValidator

datatype add_signature_effect = NoQuorumYet | GotQuorum | Duplicate

definition got_new_signature :: "add_signature_effect \<Rightarrow> bool" where
  "got_new_signature e \<longleftrightarrow> e \<noteq> Duplicate"

definition got_quorum :: "add_signature_effect \<Rightarrow> bool" where
  "got_quorum e \<longleftrightarrow> e = GotQuorum"

section \<open>Operations\<close>

datatype bad_genesis = BadGenesis

definition manager_new :: "('pk :: linorder) crypto \<Rightarrow> config \<Rightarrow> 'pk block \<Rightarrow> (bad_genesis, 'pk chain_manager) outcome" where
  "manager_new X cfg genesis =
     (if \<not> is_genesis (bl_header genesis) then Err BadGenesis
      else case bl_next_epoch genesis of
        None \<Rightarrow> Err BadGenesis
      | Some next_epoch \<Rightarrow>
          (case candidates_new (cf_max_validators cfg) (ep_validators next_epoch) of
             None \<Rightarrow> Panic
           | Some cands \<Rightarrow>
               Ok \<lparr>mg_config = cfg, mg_genesis = calc_hash X (bl_header genesis), mg_header = bl_header genesis,
                   mg_next_epoch = next_epoch, mg_pending_block = None,
                   mg_epoch_height = bh_host_height (bl_header genesis), mg_candidates = cands,
                   mg_consensus_states = []\<rparr>))"

definition manager_head :: "'pk chain_manager \<Rightarrow> bool \<times> block_header" where
  "manager_head m =
     (case mg_pending_block m of
        None \<Rightarrow> (True, mg_header m) | Some p \<Rightarrow> (False, bl_header (pb_next_block p)))"

definition pending_epoch :: "'pk chain_manager \<Rightarrow> 'pk epoch option" where
  "pending_epoch m = map_option (\<lambda>_. mg_next_epoch m) (mg_pending_block m)"

definition manager_update_config ::
  "update_config \<Rightarrow> 'pk chain_manager \<Rightarrow> 'pk chain_manager \<times> (update_config_error, unit) outcome" where
  "manager_update_config u m =
     (case config_update (mg_config m) (cs_head_stake (mg_candidates m)) (length (ep_validators (mg_next_epoch m))) u of
        Err e \<Rightarrow> (m, Err e)
      | Panic \<Rightarrow> (m, Panic)
      | Ok cfg \<Rightarrow>
          (let m = m\<lparr>mg_config := cfg\<rparr> in
           case uc_max_validators u of
             None \<Rightarrow> (m, Ok ())
           | Some mx \<Rightarrow>
               (case update_max_validators mx (mg_candidates m) of
                  None \<Rightarrow> (m, Panic) | Some c \<Rightarrow> (m\<lparr>mg_candidates := c\<rparr>, Ok ()))))"

definition maybe_generate_next_epoch :: "'pk chain_manager \<Rightarrow> height \<Rightarrow> 'pk epoch option" where
  "maybe_generate_next_epoch m host_height =
     (if \<not> check_delta_from host_height (mg_epoch_height m) (cf_min_epoch_length (mg_config m)) then None
      else case maybe_get_head (mg_candidates m) of
        None \<Rightarrow> None
      | Some validators \<Rightarrow>
          epoch_new_with validators (\<lambda>tot.
            min (max (tot div 2 + 1) (cf_min_quorum_stake (mg_config m))) tot))"

definition validate_generate_next ::
  "'pk chain_manager \<Rightarrow> height \<Rightarrow> nat \<Rightarrow> hash \<Rightarrow> (generate_error, 'pk epoch option) outcome" where
  "validate_generate_next m host_height host_timestamp state_root =
     (if mg_pending_block m \<noteq> None then Err HasPendingBlock
      else if \<not> check_delta_from host_height (bh_host_height (mg_header m)) (cf_min_block_length (mg_config m))
      then Err BlockTooYoung
      else
        (let next_epoch = maybe_generate_next_epoch m host_height;
             age = host_timestamp - bh_timestamp_ns (mg_header m)
         in if next_epoch = None \<and> state_root = bh_state_root (mg_header m) \<and> age < cf_max_block_age_ns (mg_config m)
            then Err UnchangedState else Ok next_epoch))"

definition manager_generate_next ::
  "'pk crypto \<Rightarrow> height \<Rightarrow> nat \<Rightarrow> hash \<Rightarrow> 'pk chain_manager \<Rightarrow> 'pk chain_manager \<times> (generate_error, unit) outcome" where
  "manager_generate_next X host_height host_timestamp state_root m =
     (case validate_generate_next m host_height host_timestamp state_root of
        Err e \<Rightarrow> (m, Err e)
      | Panic \<Rightarrow> (m, Panic)
      | Ok next_epoch \<Rightarrow>
          (case header_generate_next X (mg_header m) host_height host_timestamp state_root next_epoch of
             Err e \<Rightarrow> (m, Err (Inner e))
           | Panic \<Rightarrow> (m, Panic)
           | Ok next_block \<Rightarrow>
               (let fp = fingerprint_new X (mg_genesis m) (bl_header next_block);
                    states = (if length (mg_consensus_states m) = MAX_CONSENSUS_STATES
                              then tl (mg_consensus_states m) else mg_consensus_states m);
                    states = states @ [\<lparr>lc_height = bh_block_height (bl_header next_block),
                               lc_timestamp = bh_timestamp_ns (bl_header next_block),
                               lc_blockhash = calc_hash X (bl_header next_block)\<rparr>];
                    m = m\<lparr>mg_consensus_states := states,
                          mg_pending_block := Some \<lparr>pb_next_block = next_block, pb_fingerprint = fp,
                            pb_signers = {}, pb_signing_stake = 0\<rparr>\<rparr>
                in (if next_epoch \<noteq> None then m\<lparr>mg_candidates := clear_changed_flag (mg_candidates m)\<rparr> else m, Ok ()))))"

definition add_signature ::
  "(byte list \<Rightarrow> 'pk \<Rightarrow> 'sig \<Rightarrow> bool) \<Rightarrow> 'pk \<Rightarrow> 'sig \<Rightarrow> 'pk chain_manager \<Rightarrow>
   'pk chain_manager \<times> (add_signature_error, add_signature_effect) outcome" where
  "add_signature verifier pubkey signature m =
     (case mg_pending_block m of
        None \<Rightarrow> (m, Err NoPendingBlock)
      | Some pending \<Rightarrow>
          (case epoch_validator (mg_next_epoch m) pubkey of
             None \<Rightarrow> (m, Err BadValidator)
           | Some validator \<Rightarrow>
               if \<not> fingerprint_verify verifier (pb_fingerprint pending) pubkey signature then (m, Err BadSignature)
               else if pubkey \<in> pb_signers pending then (m, Ok Duplicate)
               else
                 (case checked_add 128 (pb_signing_stake pending) (va_stake validator) of
                    None \<Rightarrow>
                      (m\<lparr>mg_pending_block := Some (pending\<lparr>pb_signers := insert pubkey (pb_signers pending)\<rparr>)\<rparr>, Panic)
                  | Some stake \<Rightarrow>
                      if stake < ep_quorum_stake (mg_next_epoch m)
                      then (m\<lparr>mg_pending_block := Some (pending\<lparr>pb_signers := insert pubkey (pb_signers pending),
                                pb_signing_stake := stake\<rparr>)\<rparr>, Ok NoQuorumYet)
                      else
                        (let block = pb_next_block pending;
                             m = m\<lparr>mg_pending_block := None, mg_header := bl_header block\<rparr>
                         in (case bl_next_epoch block of
                               None \<Rightarrow> m
                             | Some epoch \<Rightarrow> m\<lparr>mg_next_epoch := epoch,
                                 mg_epoch_height := bh_host_height (bl_header block)\<rparr>, Ok GotQuorum)))))"

definition update_candidate ::
  "'pk \<Rightarrow> ('pk candidate option \<Rightarrow> ('e, nat) outcome) \<Rightarrow> (update_candidate_error \<Rightarrow> 'e) \<Rightarrow>
   ('pk :: linorder) chain_manager \<Rightarrow> 'pk chain_manager \<times> ('e, unit) outcome" where
  "update_candidate pubkey new_stake_fn map_err m =
     (case candidates_update (mg_config m) pubkey new_stake_fn map_err (mg_candidates m) of
        Ok c \<Rightarrow> (m\<lparr>mg_candidates := c\<rparr>, Ok ())
      | Err e \<Rightarrow> (m, Err e)
      | Panic \<Rightarrow> (m, Panic))"

section \<open>The invariant\<close>

text \<open>The pending block continues the chain and has been signed by validators without a quorum yet.\<close>

definition pending_inv ::
  "'pk crypto \<Rightarrow> (byte list \<Rightarrow> 'pk \<Rightarrow> 'sig \<Rightarrow> bool) \<Rightarrow> 'pk chain_manager \<Rightarrow> 'pk pending_block \<Rightarrow> bool" where
  "pending_inv X verifier m p \<longleftrightarrow>
     (let b = pb_next_block p; h = bl_header b; vs = ep_validators (mg_next_epoch m) in
      header_generate_next X (mg_header m) (bh_host_height h) (bh_timestamp_ns h) (bh_state_root h) (bl_next_epoch b) = Ok b \<and>
      pb_fingerprint p = fingerprint_new X (mg_genesis m) h \<and>
      pb_signers p \<subseteq> va_pubkey ` set vs \<and> (\<forall>pk \<in> pb_signers p. \<exists>s. verifier (pb_fingerprint p) pk s) \<and>
      pb_signing_stake p = keys_stake vs (pb_signers p) \<and> pb_signing_stake p < ep_quorum_stake (mg_next_epoch m) \<and>
      (\<forall>e. bl_next_epoch b = Some e \<longrightarrow> epoch_inv e \<and> ep_total_stake e < 2 * ep_quorum_stake e))"

text \<open>The last epoch that has been defined, by the pending block or before.\<close>

definition coming_epoch :: "'pk chain_manager \<Rightarrow> 'pk epoch" where
  "coming_epoch m =
     (case mg_pending_block m of
        None \<Rightarrow> mg_next_epoch m
      | Some p \<Rightarrow> (case bl_next_epoch (pb_next_block p) of None \<Rightarrow> mg_next_epoch m | Some e \<Rightarrow> e))"

definition manager_inv ::
  "('pk :: linorder) crypto \<Rightarrow> (byte list \<Rightarrow> 'pk \<Rightarrow> 'sig \<Rightarrow> bool) \<Rightarrow> 'pk chain_manager \<Rightarrow> bool" where
  "manager_inv X verifier m \<longleftrightarrow>
     epoch_inv (mg_next_epoch m) \<and> cand_inv (mg_candidates m) \<and>
     sum_list (map cd_stake (cs_candidates (mg_candidates m))) < 2 ^ 128 \<and>
     cs_max_validators (mg_candidates m) = cf_max_validators (mg_config m) \<and>
     length (mg_consensus_states m) \<le> MAX_CONSENSUS_STATES \<and>
     (\<forall>p. mg_pending_block m = Some p \<longrightarrow> pending_inv X verifier m p) \<and>
     (\<not> cs_changed (mg_candidates m) \<longrightarrow>
        mset (map candidate_from (ep_validators (coming_epoch m))) =
        mset (take (cs_max_validators (mg_candidates m)) (cs_candidates (mg_candidates m))))"

lemma coming_epoch_upd [simp]:
  "coming_epoch (m\<lparr>mg_candidates := c\<rparr>) = coming_epoch m" "coming_epoch (m\<lparr>mg_config := cfg\<rparr>) = coming_epoch m"
  by (simp_all add: coming_epoch_def split: option.splits)

lemma pending_inv_upd [simp]:
  "pending_inv X verifier (m\<lparr>mg_candidates := c\<rparr>) p = pending_inv X verifier m p"
  "pending_inv X verifier (m\<lparr>mg_config := cfg\<rparr>) p = pending_inv X verifier m p"
  by (simp_all add: pending_inv_def)

lemma manager_invD:
  assumes "manager_inv X verifier m"
  shows "epoch_inv (mg_next_epoch m)" "cand_inv (mg_candidates m)"
    "sum_list (map cd_stake (cs_candidates (mg_candidates m))) < 2 ^ 128"
    "cs_max_validators (mg_candidates m) = cf_max_validators (mg_config m)"
    "length (mg_consensus_states m) \<le> MAX_CONSENSUS_STATES"
    "mg_pending_block m = Some p \<Longrightarrow> pending_inv X verifier m p"
    "\<not> cs_changed (mg_candidates m) \<Longrightarrow>
        mset (map candidate_from (ep_validators (coming_epoch m))) =
        mset (take (cs_max_validators (mg_candidates m)) (cs_candidates (mg_candidates m)))"
  using assms by (simp_all add: manager_inv_def)

text \<open>An epoch made from the head of the candidates: more than half of the stake is needed for a quorum.\<close>

lemma generated_epoch:
  assumes c: "cand_inv (mg_candidates m)" and e: "maybe_generate_next_epoch m hh = Some e"
  shows "epoch_inv e" "ep_total_stake e < 2 * ep_quorum_stake e" "cs_changed (mg_candidates m)"
    "map candidate_from (ep_validators e) = take (cs_max_validators (mg_candidates m)) (cs_candidates (mg_candidates m))"
proof -
  define xs where "xs = take (cs_max_validators (mg_candidates m)) (cs_candidates (mg_candidates m))"
  show ch: "cs_changed (mg_candidates m)"
    using e by (auto simp: maybe_generate_next_epoch_def maybe_get_head_def split: if_splits)
  let ?t = "sum_list (map va_stake (map validator_from xs))"
  let ?q = "min (max (?t div 2 + 1) (cf_min_quorum_stake (mg_config m))) ?t"
  have e': "0 < ?t" "?t < 2 ^ 128" "e = \<lparr>ep_validators = map validator_from xs, ep_quorum_stake = ?q, ep_total_stake = ?t\<rparr>"
    using e ch by (auto simp: maybe_generate_next_epoch_def maybe_get_head_def epoch_new_with_Some xs_def
        simp del: sum_list_eq_0_iff split: if_splits)
  have q: "0 < ?q" "?q \<le> ?t" "?t < 2 * ?q" using e'(1) by (auto simp: min_def max_def)
  have "distinct (map cd_pubkey xs)" "list_all (\<lambda>x. 0 < cd_stake x) xs"
    using c by (auto simp: cand_inv_def xs_def list_all_iff simp flip: take_map dest: in_set_takeD)
  then show "epoch_inv e" using e' q by (simp add: epoch_inv_def validator_from_def list_all_iff o_def)
  show "ep_total_stake e < 2 * ep_quorum_stake e" using e'(3) q by simp
  show "map candidate_from (ep_validators e) = take (cs_max_validators (mg_candidates m)) (cs_candidates (mg_candidates m))"
    using e'(3) by (simp add: candidate_from_def validator_from_def xs_def o_def)
qed

lemma manager_new_inv:
  assumes n: "manager_new X cfg g = Ok m" and e: "bl_next_epoch g = Some e" "epoch_inv e" and mx: "0 < cf_max_validators cfg"
  shows "manager_inv X verifier m \<and> mg_header m = bl_header g \<and> mg_genesis m = calc_hash X (bl_header g)"
proof -
  have E: "distinct (map va_pubkey (ep_validators e))" "list_all (\<lambda>v. 0 < va_stake v) (ep_validators e)"
    "sum_list (map va_stake (ep_validators e)) < 2 ^ 128" using e(2) by (auto simp: epoch_inv_def)
  obtain c where c: "candidates_new (cf_max_validators cfg) (ep_validators e) = Some c" "cand_inv c"
    "cs_max_validators c = cf_max_validators cfg" "mset (cs_candidates c) = mset (map candidate_from (ep_validators e))"
    "cs_changed c \<longleftrightarrow> cf_max_validators cfg < length (ep_validators e)"
    by (rule candidates_new_spec[OF E(1,2) mx E(3)])
  have "sum_list (map cd_stake (cs_candidates c)) = sum_mset (image_mset cd_stake (mset (cs_candidates c)))"
    by (simp add: sum_mset_sum_list flip: mset_map)
  also have "\<dots> = sum_list (map va_stake (ep_validators e))"
    by (simp add: c(4) sum_mset_sum_list candidate_from_def o_def flip: mset_map)
  finally have st: "sum_list (map cd_stake (cs_candidates c)) < 2 ^ 128" using E(3) by simp
  have "length (cs_candidates c) = length (ep_validators e)" using c(4) by (metis length_map mset_eq_length)
  then show ?thesis using n e c st
    by (auto simp: manager_new_def manager_inv_def coming_epoch_def split: if_splits)
qed

lemma generate_next_inv:
  assumes i: "manager_inv X verifier m" and g: "manager_generate_next X hh ts root m = (m', r)"
  shows "manager_inv X verifier m' \<and> mg_header m' = mg_header m \<and> mg_genesis m' = mg_genesis m"
proof (cases "m' = m")
  case True
  then show ?thesis using i by simp
next
  case False
  then obtain ne b where v: "validate_generate_next m hh ts root = Ok ne"
    "header_generate_next X (mg_header m) hh ts root ne = Ok b"
    using g by (auto simp: manager_generate_next_def split: outcome.splits)
  let ?h = "bl_header b"
  have pn: "mg_pending_block m = None" and ne: "ne = maybe_generate_next_epoch m hh"
    using v(1) by (auto simp: validate_generate_next_def Let_def split: if_splits)
  have b: "bh_host_height ?h = hh" "bh_timestamp_ns ?h = ts" "bh_state_root ?h = root" "bl_next_epoch b = ne"
    using v(2) by (auto simp: header_generate_next_def Let_def split: if_splits option.splits)
  define states where "states = (if length (mg_consensus_states m) = MAX_CONSENSUS_STATES
      then tl (mg_consensus_states m) else mg_consensus_states m) @ [\<lparr>lc_height = bh_block_height ?h,
        lc_timestamp = bh_timestamp_ns ?h, lc_blockhash = calc_hash X ?h\<rparr>]"
  define p where "p = \<lparr>pb_next_block = b, pb_fingerprint = fingerprint_new X (mg_genesis m) ?h,
      pb_signers = {}, pb_signing_stake = 0\<rparr>"
  have m': "m' = m\<lparr>mg_consensus_states := states, mg_pending_block := Some p,
      mg_candidates := (if ne \<noteq> None then clear_changed_flag (mg_candidates m) else mg_candidates m)\<rparr>"
    using g v by (auto simp: manager_generate_next_def Let_def states_def p_def)
  note I = manager_invD[OF i]
  note G = generated_epoch[OF I(2), of hh]
  have "pending_inv X verifier m' p"
    using v(2) b I(1) G(1,2) ne by (auto simp: pending_inv_def p_def m' Let_def keys_stake_def epoch_inv_def)
  moreover have "length states \<le> MAX_CONSENSUS_STATES" using I(5) by (auto simp: states_def MAX_CONSENSUS_STATES_def)
  moreover have "cand_inv (mg_candidates m')" using I(2) by (simp add: m' clear_changed_flag_def cand_inv_def)
  moreover have "mset (map candidate_from (ep_validators (coming_epoch m'))) =
      mset (take (cs_max_validators (mg_candidates m')) (cs_candidates (mg_candidates m')))"
    if "\<not> cs_changed (mg_candidates m')"
  proof (cases ne)
    case None
    then show ?thesis using that I(7) pn b(4) by (simp add: m' coming_epoch_def p_def)
  next
    case (Some e)
    then show ?thesis using G(4)[of e] ne b(4) by (simp add: m' coming_epoch_def p_def clear_changed_flag_def)
  qed
  ultimately show ?thesis using I by (auto simp: manager_inv_def m' clear_changed_flag_def)
qed

text \<open>What a signature does to a pending block.\<close>

lemma add_signature_cases:
  assumes i: "manager_inv X verifier m" and p: "mg_pending_block m = Some p"
    and v: "epoch_validator (mg_next_epoch m) pk = Some v" and s: "verifier (pb_fingerprint p) pk sig"
    and n: "pk \<notin> pb_signers p"
  defines "stake \<equiv> keys_stake (ep_validators (mg_next_epoch m)) (insert pk (pb_signers p))"
    and "p' \<equiv> p\<lparr>pb_signers := insert pk (pb_signers p), pb_signing_stake := pb_signing_stake p + va_stake v\<rparr>"
  shows "pb_signing_stake p' = stake"
    "add_signature verifier pk sig m =
      (if stake < ep_quorum_stake (mg_next_epoch m) then (m\<lparr>mg_pending_block := Some p'\<rparr>, Ok NoQuorumYet)
       else (case bl_next_epoch (pb_next_block p) of
           None \<Rightarrow> m\<lparr>mg_pending_block := None, mg_header := bl_header (pb_next_block p)\<rparr>
         | Some e \<Rightarrow> m\<lparr>mg_pending_block := None, mg_header := bl_header (pb_next_block p), mg_next_epoch := e,
             mg_epoch_height := bh_host_height (bl_header (pb_next_block p))\<rparr>, Ok GotQuorum))"
proof -
  let ?vs = "ep_validators (mg_next_epoch m)"
  note I = manager_invD(1)[OF i] and P = manager_invD(6)[OF i p]
  have V: "v \<in> set ?vs" "va_pubkey v = pk" using epoch_validator_Some[OF v] by auto
  have st: "stake = pb_signing_stake p + va_stake v"
    unfolding stake_def using keys_stake_insert[of ?vs v "pb_signers p"] I V n P
    by (simp add: epoch_inv_def pending_inv_def Let_def)
  then show "pb_signing_stake p' = stake" by (simp add: p'_def)
  have "stake \<le> ep_total_stake (mg_next_epoch m)" unfolding stake_def using keys_stake_le[of ?vs] I by (simp add: epoch_inv_def)
  then have "checked_add 128 (pb_signing_stake p) (va_stake v) = Some stake"
    using st I by (simp add: checked_add_def epoch_inv_def)
  then show "add_signature verifier pk sig m =
      (if stake < ep_quorum_stake (mg_next_epoch m) then (m\<lparr>mg_pending_block := Some p'\<rparr>, Ok NoQuorumYet)
       else (case bl_next_epoch (pb_next_block p) of
           None \<Rightarrow> m\<lparr>mg_pending_block := None, mg_header := bl_header (pb_next_block p)\<rparr>
         | Some e \<Rightarrow> m\<lparr>mg_pending_block := None, mg_header := bl_header (pb_next_block p), mg_next_epoch := e,
             mg_epoch_height := bh_host_height (bl_header (pb_next_block p))\<rparr>, Ok GotQuorum))"
    using p v s n st by (auto simp: add_signature_def fingerprint_verify_def p'_def Let_def split: option.splits)
qed

lemma add_signature_same:
  assumes "add_signature verifier pk sig m = (m', r)"
    and "\<not> (\<exists>p v. mg_pending_block m = Some p \<and> epoch_validator (mg_next_epoch m) pk = Some v \<and>
      verifier (pb_fingerprint p) pk sig \<and> pk \<notin> pb_signers p)"
  shows "m' = m \<and> r \<noteq> Ok GotQuorum \<and> r \<noteq> Panic"
  using assms by (auto simp: add_signature_def fingerprint_verify_def split: option.splits if_splits)

lemma add_signature_inv:
  assumes i: "manager_inv X verifier m" and a: "add_signature verifier pk sig m = (m', r)"
  shows "manager_inv X verifier m' \<and> r \<noteq> Panic \<and> mg_genesis m' = mg_genesis m \<and>
    (if r = Ok GotQuorum then \<exists>p. mg_pending_block m = Some p \<and> mg_header m' = bl_header (pb_next_block p) \<and>
         pk \<in> va_pubkey ` set (ep_validators (mg_next_epoch m)) \<and> verifier (pb_fingerprint p) pk sig \<and>
         ep_quorum_stake (mg_next_epoch m) \<le> keys_stake (ep_validators (mg_next_epoch m)) (insert pk (pb_signers p))
     else mg_header m' = mg_header m)"
proof (cases "\<exists>p v. mg_pending_block m = Some p \<and> epoch_validator (mg_next_epoch m) pk = Some v \<and>
      verifier (pb_fingerprint p) pk sig \<and> pk \<notin> pb_signers p")
  case False
  then show ?thesis using add_signature_same[OF a] i by auto
next
  case True
  then obtain p v where h: "mg_pending_block m = Some p" "epoch_validator (mg_next_epoch m) pk = Some v"
    "verifier (pb_fingerprint p) pk sig" "pk \<notin> pb_signers p" by blast
  let ?vs = "ep_validators (mg_next_epoch m)"
  let ?stake = "keys_stake ?vs (insert pk (pb_signers p))"
  note A = add_signature_cases[OF i h] and I = manager_invD[OF i] and P = manager_invD(6)[OF i h(1)]
  have V: "pk \<in> va_pubkey ` set ?vs" using epoch_validator_Some[OF h(2)] by auto
  show ?thesis
  proof (cases "?stake < ep_quorum_stake (mg_next_epoch m)")
    case True
    define p' where "p' = p\<lparr>pb_signers := insert pk (pb_signers p), pb_signing_stake := pb_signing_stake p + va_stake v\<rparr>"
    have m': "m' = m\<lparr>mg_pending_block := Some p'\<rparr>" "r = Ok NoQuorumYet" using A(2) True a by (simp_all add: p'_def)
    have "pending_inv X verifier m' p'"
      using P V h(3) True A(1) by (auto simp: pending_inv_def m' p'_def Let_def)
    moreover have "coming_epoch m' = coming_epoch m" using h(1) by (simp add: coming_epoch_def m' p'_def split: option.splits)
    ultimately show ?thesis using I m'(2) by (simp add: manager_inv_def m'(1))
  next
    case False
    let ?b = "pb_next_block p"
    define ne where "ne = (case bl_next_epoch ?b of None \<Rightarrow> mg_next_epoch m | Some e \<Rightarrow> e)"
    have m': "r = Ok GotQuorum" "mg_header m' = bl_header ?b" "mg_pending_block m' = None" "mg_next_epoch m' = ne"
      "mg_candidates m' = mg_candidates m" "mg_config m' = mg_config m" "mg_genesis m' = mg_genesis m"
      "mg_consensus_states m' = mg_consensus_states m"
      using A(2) False a by (auto simp: ne_def split: option.splits)
    have "epoch_inv ne" using P I(1) by (auto simp: ne_def pending_inv_def Let_def split: option.splits)
    moreover have "coming_epoch m' = coming_epoch m" using h(1) m' by (simp add: coming_epoch_def ne_def)
    ultimately have "manager_inv X verifier m'" using I m' by (simp add: manager_inv_def)
    then show ?thesis using m' h V False by auto
  qed
qed

lemma update_candidate_inv:
  assumes i: "manager_inv X verifier m" and u: "update_candidate pk f id m = (m', r)"
    and b: "\<And>x s. f x = Ok s \<Longrightarrow> s + sum_list (map cd_stake (cs_candidates (mg_candidates m))) < 2 ^ 128"
  shows "manager_inv X verifier m' \<and> mg_header m' = mg_header m \<and> mg_genesis m' = mg_genesis m"
proof (cases "candidates_update (mg_config m) pk f id (mg_candidates m)")
  case (Ok c')
  let ?c = "mg_candidates m"
  have m': "m' = m\<lparr>mg_candidates := c'\<rparr>" using u Ok by (simp add: update_candidate_def)
  obtain stake where f: "f (map_option (\<lambda>p. cs_candidates ?c ! p) (find_pos (\<lambda>el. cd_pubkey el = pk) (cs_candidates ?c))) = Ok stake"
    using Ok by (auto simp: candidates_update_def Let_def bind_outcome_Ok)
  note I = manager_invD[OF i]
  have U: "update_post (mg_config m) pk stake id ?c (Ok c')"
    unfolding Ok[symmetric] by (rule candidates_update_spec[where f = f, OF I(2) b[OF f] f])
  have "sum_list (map cd_stake (cand_ref pk stake (cs_candidates ?c))) \<le> stake + sum_list (map cd_stake (cs_candidates ?c))"
    by (rule cand_ref_stake)
  then have "sum_list (map cd_stake (cs_candidates c')) < 2 ^ 128" using U b[OF f] by (simp add: update_post_def Let_def)
  then have "manager_inv X verifier m'"
    using I U by (auto simp: manager_inv_def m' update_post_def Let_def)
  then show ?thesis by (simp add: m')
qed (use u i in \<open>auto simp: update_candidate_def\<close>)

lemma update_config_inv:
  assumes i: "manager_inv X verifier m" and u: "manager_update_config uc m = (m', r)" and n: "uc_max_validators uc \<noteq> Some 0"
  shows "manager_inv X verifier m' \<and> r \<noteq> Panic \<and> mg_header m' = mg_header m \<and> mg_genesis m' = mg_genesis m"
proof (cases "config_update (mg_config m) (cs_head_stake (mg_candidates m)) (length (ep_validators (mg_next_epoch m))) uc")
  case (Ok cfg)
  note I = manager_invD[OF i]
  have mx: "cf_max_validators cfg = unwrap_or (uc_max_validators uc) (cf_max_validators (mg_config m))"
    using Ok by (auto simp: config_update_def Let_def split: if_splits)
  show ?thesis
  proof (cases "uc_max_validators uc")
    case None
    then have m': "m' = m\<lparr>mg_config := cfg\<rparr>" "r = Ok ()" using u Ok by (simp_all add: manager_update_config_def)
    have "manager_inv X verifier m'"
      using I None mx by (auto simp: manager_inv_def m' unwrap_or_def)
    then show ?thesis by (simp add: m')
  next
    case (Some k)
    then have "0 < k" using n by simp
    obtain c' where c': "update_max_validators k (mg_candidates m) = Some c'" "cand_inv c'" "cs_max_validators c' = k"
      "cs_candidates c' = cs_candidates (mg_candidates m)" "cs_changed (mg_candidates m) \<longrightarrow> cs_changed c'"
      "\<not> cs_changed c' \<longrightarrow> take k (cs_candidates (mg_candidates m)) =
         take (cs_max_validators (mg_candidates m)) (cs_candidates (mg_candidates m))"
      by (rule update_max_validators_spec[OF I(2) \<open>0 < k\<close> I(3)])
    have m': "m' = m\<lparr>mg_config := cfg, mg_candidates := c'\<rparr>" "r = Ok ()"
      using u Ok Some c'(1) by (simp_all add: manager_update_config_def)
    have "manager_inv X verifier m'"
      using I Some mx c' by (auto simp: manager_inv_def m' unwrap_or_def)
    then show ?thesis by (simp add: m')
  qed
qed (use u i in \<open>auto simp: manager_update_config_def config_update_def Let_def split: if_splits\<close>)

section \<open>Runs\<close>

text \<open>
  \<open>manager_run X verifier m hs\<close>: the manager \<open>m\<close> is reached from a genesis block by
  calls of its methods, with any arguments and whether they succeed or not, and
  \<open>hs\<close> are the headers that were finalised, the last first. What is asked of the
  environment is that the total stake stays below \<open>2 ^ 128\<close> and that the numbers
  of non-zero type are not zero.
\<close>

inductive manager_run ::
  "('pk :: linorder) crypto \<Rightarrow> (byte list \<Rightarrow> 'pk \<Rightarrow> 'sig \<Rightarrow> bool) \<Rightarrow> 'pk chain_manager \<Rightarrow> block_header list \<Rightarrow> bool"
  for X verifier where
  init: "manager_new X cfg g = Ok m \<Longrightarrow> bl_next_epoch g = Some e \<Longrightarrow> epoch_inv e \<Longrightarrow> 0 < cf_max_validators cfg \<Longrightarrow>
    manager_run X verifier m [bl_header g]"
| generate: "manager_run X verifier m hs \<Longrightarrow> manager_generate_next X hh ts root m = (m', r) \<Longrightarrow>
    manager_run X verifier m' hs"
| sign: "manager_run X verifier m hs \<Longrightarrow> add_signature verifier pk sig m = (m', r) \<Longrightarrow>
    manager_run X verifier m' (if r = Ok GotQuorum then mg_header m' # hs else hs)"
| candidate: "manager_run X verifier m hs \<Longrightarrow> update_candidate pk f id m = (m', r) \<Longrightarrow>
    (\<And>x s. f x = Ok s \<Longrightarrow> s + sum_list (map cd_stake (cs_candidates (mg_candidates m))) < 2 ^ 128) \<Longrightarrow>
    manager_run X verifier m' hs"
| config: "manager_run X verifier m hs \<Longrightarrow> manager_update_config uc m = (m', r) \<Longrightarrow> uc_max_validators uc \<noteq> Some 0 \<Longrightarrow>
    manager_run X verifier m' hs"

text \<open>Header \<open>h'\<close> is a successor of \<open>h\<close>.\<close>

definition follows :: "'pk crypto \<Rightarrow> block_header \<Rightarrow> block_header \<Rightarrow> bool" where
  "follows X h' h \<longleftrightarrow>
     bh_prev_block_hash h' = calc_hash X h \<and> bh_block_height h' = bh_block_height h + 1 \<and>
     bh_host_height h < bh_host_height h' \<and> bh_timestamp_ns h < bh_timestamp_ns h' \<and>
     bh_epoch_id h' = (if bh_next_epoch_commitment h = None then bh_epoch_id h else calc_hash X h)"

fun linked :: "'pk crypto \<Rightarrow> block_header list \<Rightarrow> bool" where
  "linked X [] \<longleftrightarrow> False"
| "linked X [h] \<longleftrightarrow> is_genesis h"
| "linked X (h' # h # hs) \<longleftrightarrow> follows X h' h \<and> linked X (h # hs)"

lemma header_next_follows: "header_generate_next X h hh ts root ne = Ok b \<Longrightarrow> follows X (bl_header b) h"
  by (auto simp: header_generate_next_def follows_def Let_def height_next_def checked_add_Some split: if_splits option.splits)

lemma pending_follows: "pending_inv X verifier m p \<Longrightarrow> follows X (bl_header (pb_next_block p)) (mg_header m)"
  by (auto simp: pending_inv_def Let_def intro: header_next_follows)

lemma linked_Cons: "linked X hs \<Longrightarrow> follows X h (hd hs) \<Longrightarrow> linked X (h # hs)"
  by (cases hs) auto

lemma manager_run_inv:
  assumes "manager_run X verifier m hs"
  shows "manager_inv X verifier m \<and> linked X hs \<and> mg_header m = hd hs \<and> mg_genesis m = calc_hash X (last hs)"
  using assms
proof induction
  case (init cfg g m e)
  then show ?case
    using manager_new_inv[OF init] by (auto simp: manager_new_def split: if_splits)
next
  case (generate m hs hh ts root m' r)
  then show ?case using generate_next_inv by fastforce
next
  case (sign m hs pk sig m' r)
  from sign.IH have I: "manager_inv X verifier m" "linked X hs" "mg_header m = hd hs" "mg_genesis m = calc_hash X (last hs)"
    by auto
  note A = add_signature_inv[OF I(1) sign.hyps(2)]
  show ?case
  proof (cases "r = Ok GotQuorum")
    case True
    then obtain p where "mg_pending_block m = Some p" "mg_header m' = bl_header (pb_next_block p)" using A by auto
    then have "follows X (mg_header m') (hd hs)" using pending_follows[OF manager_invD(6)[OF I(1)]] I(3) by metis
    moreover have "hs \<noteq> []" using I(2) by auto
    ultimately show ?thesis using True A I linked_Cons[of X hs] by simp
  qed (use A I in auto)
next
  case (candidate m hs pk f m' r)
  then show ?case using update_candidate_inv[of X verifier m pk f m' r] by auto
next
  case (config m hs uc m' r)
  then show ?case using update_config_inv[of X verifier m uc m' r] by auto
qed

section \<open>Finalisation\<close>

fun sign_all ::
  "(byte list \<Rightarrow> 'pk \<Rightarrow> 'sig \<Rightarrow> bool) \<Rightarrow> ('pk \<times> 'sig) list \<Rightarrow> 'pk chain_manager \<Rightarrow> 'pk chain_manager" where
  "sign_all verifier [] m = m"
| "sign_all verifier ((pk, sig) # sigs) m = sign_all verifier sigs (fst (add_signature verifier pk sig m))"

lemma sign_all_done: "mg_pending_block m = None \<Longrightarrow> sign_all verifier sigs m = m"
  by (induction sigs) (auto simp: add_signature_def)

lemma sign_all_finalises:
  assumes "manager_inv X verifier m" "mg_pending_block m = Some p"
    and "va_pubkey ` set (ep_validators (mg_next_epoch m)) \<subseteq> pb_signers p \<union> fst ` set sigs"
    and "\<forall>(pk, sig) \<in> set sigs. verifier (pb_fingerprint p) pk sig"
  shows "mg_pending_block (sign_all verifier sigs m) = None \<and>
    mg_header (sign_all verifier sigs m) = bl_header (pb_next_block p)"
  using assms
proof (induction sigs arbitrary: m p)
  case Nil
  let ?vs = "ep_validators (mg_next_epoch m)"
  have "keys_stake ?vs (pb_signers p) = sum_list (map va_stake ?vs)" by (rule keys_stake_all) (use Nil in auto)
  moreover have "keys_stake ?vs (pb_signers p) < ep_quorum_stake (mg_next_epoch m)"
    using manager_invD(6)[OF Nil(1,2)] by (auto simp: pending_inv_def Let_def)
  moreover have "ep_quorum_stake (mg_next_epoch m) \<le> sum_list (map va_stake ?vs)"
    using manager_invD(1)[OF Nil(1)] by (auto simp: epoch_inv_def)
  ultimately show ?case by simp
next
  case (Cons s sigs)
  obtain pk sig where s: "s = (pk, sig)" by fastforce
  obtain m' r where a: "add_signature verifier pk sig m = (m', r)" by fastforce
  have ver: "verifier (pb_fingerprint p) pk sig" using Cons.prems(4) s by auto
  note A = add_signature_inv[OF Cons.prems(1) a]
  show ?case
  proof (cases "\<exists>v. epoch_validator (mg_next_epoch m) pk = Some v \<and> pk \<notin> pb_signers p")
    case False
    then have m': "m' = m" using add_signature_same[OF a] Cons.prems(2) by auto
    have "pk \<notin> va_pubkey ` set (ep_validators (mg_next_epoch m)) \<or> pk \<in> pb_signers p"
      using False epoch_validator_in by (metis image_iff)
    then have "va_pubkey ` set (ep_validators (mg_next_epoch m)) \<subseteq> pb_signers p \<union> fst ` set sigs"
      using Cons.prems(3) s by auto
    then show ?thesis using Cons.IH[OF Cons.prems(1,2)] Cons.prems(4) s a m' by auto
  next
    case True
    then obtain v where v: "epoch_validator (mg_next_epoch m) pk = Some v" "pk \<notin> pb_signers p" by blast
    note C = add_signature_cases[OF Cons.prems(1,2) v(1) ver v(2)]
    show ?thesis
    proof (cases "keys_stake (ep_validators (mg_next_epoch m)) (insert pk (pb_signers p)) < ep_quorum_stake (mg_next_epoch m)")
      case True
      define p' where "p' = p\<lparr>pb_signers := insert pk (pb_signers p), pb_signing_stake := pb_signing_stake p + va_stake v\<rparr>"
      have m': "m' = m\<lparr>mg_pending_block := Some p'\<rparr>" using C(2) True a by (simp add: p'_def)
      have "mg_pending_block (sign_all verifier sigs m') = None \<and>
          mg_header (sign_all verifier sigs m') = bl_header (pb_next_block p')"
        by (rule Cons.IH) (use A Cons.prems s in \<open>auto simp: m' p'_def\<close>)
      then show ?thesis using s a by (simp add: p'_def)
    next
      case False
      then have "mg_pending_block m' = None" "mg_header m' = bl_header (pb_next_block p)"
        using C(2) a by (auto split: option.splits)
      then show ?thesis using s a by (simp add: sign_all_done)
    qed
  qed
qed

section \<open>An example\<close>

text \<open>Three validators of equal stake, as in the tests of the source.\<close>

definition ex_crypto :: "nat crypto" where
  "ex_crypto = \<lparr>cr_digest = (\<lambda>_. replicate 32 1), cr_header = (\<lambda>_. []), cr_epoch = (\<lambda>_. [])\<rparr>"

definition ex_verifier :: "byte list \<Rightarrow> nat \<Rightarrow> bool \<Rightarrow> bool" where
  "ex_verifier fp pk sig = sig"

definition ex_epoch :: "nat epoch" where
  "ex_epoch = \<lparr>ep_validators = [Validator 1 2, Validator 2 2, Validator 3 2], ep_quorum_stake = 4, ep_total_stake = 6\<rparr>"

definition ex_config :: config where
  "ex_config = \<lparr>cf_min_validators = 1, cf_max_validators = 3, cf_min_validator_stake = 1, cf_min_total_stake = 1,
     cf_min_quorum_stake = 1, cf_min_block_length = 4, cf_max_block_age_ns = 1000, cf_min_epoch_length = 8\<rparr>"

definition ex_genesis :: "nat block" where
  "ex_genesis = block_generate_genesis ex_crypto 1 1 1 (replicate 32 0) ex_epoch"

definition ex_manager :: "nat chain_manager" where
  "ex_manager = \<lparr>mg_config = ex_config, mg_genesis = replicate 32 1, mg_header = bl_header ex_genesis,
     mg_next_epoch = ex_epoch, mg_pending_block = None, mg_epoch_height = 1,
     mg_candidates = \<lparr>cs_max_validators = 3, cs_candidates = [Candidate 1 2, Candidate 2 2, Candidate 3 2],
       cs_changed = False, cs_head_stake = 6\<rparr>,
     mg_consensus_states = []\<rparr>"

lemma ex_epoch_inv: "epoch_inv ex_epoch"
  by (simp add: epoch_inv_def ex_epoch_def)

lemma ex_manager_new: "manager_new ex_crypto ex_config ex_genesis = Ok ex_manager"
  by (simp add: manager_new_def ex_genesis_def block_generate_genesis_def header_generate_genesis_def is_genesis_def
      ex_epoch_def candidates_new_def from_candidates_def candidate_from_def ex_config_def sum_head_stake_def
      checked_add_def ex_manager_def calc_hash_def ex_crypto_def candidate_order_defs)

lemma ex_run: "manager_run ex_crypto ex_verifier ex_manager [bl_header ex_genesis]"
  by (rule manager_run.init[OF ex_manager_new _ ex_epoch_inv])
    (simp_all add: ex_genesis_def block_generate_genesis_def ex_config_def)

text \<open>A block after the genesis block.\<close>

lemma generate_pending:
  "manager_generate_next X hh ts root m = (m', Ok ()) \<Longrightarrow>
     \<exists>p. mg_pending_block m' = Some p \<and> pb_signers p = {} \<and> pb_signing_stake p = 0"
  by (auto simp: manager_generate_next_def Let_def split: outcome.splits)

lemma ex_generate:
  obtains m p where "mg_pending_block m = Some p" "pb_signers p = {}" "pb_signing_stake p = 0"
    "manager_run ex_crypto ex_verifier m [bl_header ex_genesis]" "mg_next_epoch m = ex_epoch"
proof -
  obtain m r where g: "manager_generate_next ex_crypto 10 10 (replicate 32 5) ex_manager = (m, r)" by fastforce
  have r: "r = Ok () \<and> mg_next_epoch m = ex_epoch"
    using g by (auto simp: manager_generate_next_def validate_generate_next_def ex_manager_def check_delta_from_def
        height_checked_sub_def checked_sub_def ex_config_def ex_genesis_def block_generate_genesis_def
        header_generate_genesis_def maybe_generate_next_epoch_def maybe_get_head_def header_generate_next_def
        height_next_def checked_add_def Let_def)
  then obtain p where "mg_pending_block m = Some p" "pb_signers p = {}" "pb_signing_stake p = 0"
    using generate_pending g by blast
  then show thesis using r manager_run.generate[OF ex_run g] by (intro that[of m p]) auto
qed

section \<open>Properties\<close>

text \<open>
  C38: the invariant of the chain manager. Whatever calls are made from a genesis
  block on, the manager's state is consistent (the epoch's quorum can be reached; the
  pending block extends the chain and its signatures, which are all valid, weigh what
  is recorded and less than a quorum; the candidates are sorted and agree with the
  epoch unless flagged as changed; at most 20 consensus states are kept), and the
  finalised headers form a chain: each refers to the hash of its predecessor, is one
  higher, and has a later host height and time stamp and the right epoch.
\<close>

theorem manager_invariant:
  assumes "manager_run X verifier m hs"
  shows "manager_inv X verifier m \<and> linked X hs \<and> mg_header m = hd hs \<and> mg_genesis m = calc_hash X (last hs)"
  by (rule manager_run_inv[OF assms])

theorem manager_invariant_witness:
  "manager_inv ex_crypto ex_verifier ex_manager \<and> linked ex_crypto [bl_header ex_genesis]"
  using manager_invariant[OF ex_run] by blast

text \<open>
  C39: a block is finalised only by a quorum. When \<open>add_signature\<close> reports a quorum,
  the new head follows the old one and there is a set of validators of the epoch that
  have all produced a signature that verifies for the fingerprint of that block and
  hold at least the quorum stake together.
\<close>

theorem finalised_by_quorum:
  assumes "manager_run X verifier m hs" "add_signature verifier pk sig m = (m', Ok GotQuorum)"
  shows "\<exists>S. S \<subseteq> va_pubkey ` set (ep_validators (mg_next_epoch m)) \<and>
    (\<forall>k \<in> S. \<exists>s. verifier (fingerprint_new X (mg_genesis m) (mg_header m')) k s) \<and>
    ep_quorum_stake (mg_next_epoch m) \<le> keys_stake (ep_validators (mg_next_epoch m)) S \<and>
    follows X (mg_header m') (mg_header m) \<and> mg_pending_block m' = None"
proof -
  have i: "manager_inv X verifier m" using manager_run_inv[OF assms(1)] by blast
  from add_signature_inv[OF i assms(2)] obtain p where p: "mg_pending_block m = Some p"
    "mg_header m' = bl_header (pb_next_block p)" "pk \<in> va_pubkey ` set (ep_validators (mg_next_epoch m))"
    "verifier (pb_fingerprint p) pk sig"
    "ep_quorum_stake (mg_next_epoch m) \<le> keys_stake (ep_validators (mg_next_epoch m)) (insert pk (pb_signers p))" by auto
  note P = manager_invD(6)[OF i p(1)]
  have f: "pb_fingerprint p = fingerprint_new X (mg_genesis m) (mg_header m')" "pb_signers p \<subseteq> va_pubkey ` set (ep_validators (mg_next_epoch m))"
    "\<forall>k \<in> pb_signers p. \<exists>s. verifier (pb_fingerprint p) k s" using P p(2) by (auto simp: pending_inv_def Let_def)
  have "mg_pending_block m' = None"
    using assms(2) by (auto simp: add_signature_def Let_def split: option.splits if_splits)
  then show ?thesis using p f pending_follows[OF P] by (intro exI[of _ "insert pk (pb_signers p)"]) auto
qed

lemma ex_sign:
  obtains m m' where "manager_run ex_crypto ex_verifier m [bl_header ex_genesis]"
    "add_signature ex_verifier 2 True m = (m', Ok GotQuorum)"
proof -
  obtain m p where m: "mg_pending_block m = Some p" "manager_run ex_crypto ex_verifier m [bl_header ex_genesis]" "mg_next_epoch m = ex_epoch"
    and p: "pb_signers p = {}" "pb_signing_stake p = 0" by (rule ex_generate)
  define m1 where "m1 = m\<lparr>mg_pending_block := Some (p\<lparr>pb_signers := {1}, pb_signing_stake := 2\<rparr>)\<rparr>"
  have a: "add_signature ex_verifier 1 True m = (m1, Ok NoQuorumYet)"
    using m(1,3) p by (simp add: add_signature_def epoch_validator_def ex_epoch_def fingerprint_verify_def ex_verifier_def
        checked_add_def m1_def)
  have "manager_run ex_crypto ex_verifier m1 [bl_header ex_genesis]" using manager_run.sign[OF m(2) a] by simp
  moreover have "\<exists>m'. add_signature ex_verifier 2 True m1 = (m', Ok GotQuorum)"
    using m(3) by (simp add: m1_def add_signature_def epoch_validator_def ex_epoch_def fingerprint_verify_def
        ex_verifier_def checked_add_def Let_def)
  ultimately show thesis using that by blast
qed

theorem finalised_by_quorum_witness:
  "\<exists>m m'. add_signature ex_verifier 2 True m = (m', Ok GotQuorum) \<and> follows ex_crypto (mg_header m') (mg_header m)"
proof -
  obtain m m' where m: "manager_run ex_crypto ex_verifier m [bl_header ex_genesis]"
    "add_signature ex_verifier 2 True m = (m', Ok GotQuorum)" by (rule ex_sign)
  from finalised_by_quorum[OF m] have "follows ex_crypto (mg_header m') (mg_header m)" by (elim exE conjE)
  then show ?thesis using m(2) by (intro exI conjI)
qed

text \<open>
  C40: a pending block can be finalised. If every validator of the epoch submits a
  signature that verifies, in any order, also among repeated or foreign ones that
  verify, the pending block becomes the head of the chain.
\<close>

theorem pending_block_finalises:
  assumes "manager_run X verifier m hs" "mg_pending_block m = Some p"
    and "va_pubkey ` set (ep_validators (mg_next_epoch m)) \<subseteq> fst ` set sigs"
    and "\<forall>(pk, sig) \<in> set sigs. verifier (pb_fingerprint p) pk sig"
  shows "mg_pending_block (sign_all verifier sigs m) = None \<and>
    mg_header (sign_all verifier sigs m) = bl_header (pb_next_block p)"
  by (rule sign_all_finalises[OF conjunct1[OF manager_run_inv[OF assms(1)]] assms(2) _ assms(4)]) (use assms(3) in blast)

theorem pending_block_finalises_witness:
  "\<exists>m p. mg_pending_block m = Some p \<and>
     mg_header (sign_all ex_verifier [(3, True), (1, True), (2, True)] m) = bl_header (pb_next_block p)"
proof -
  obtain m p where m: "mg_pending_block m = Some p" "manager_run ex_crypto ex_verifier m [bl_header ex_genesis]" "mg_next_epoch m = ex_epoch"
    by (rule ex_generate)
  have "mg_header (sign_all ex_verifier [(3, True), (1, True), (2, True)] m) = bl_header (pb_next_block p)"
    by (rule conjunct2[OF pending_block_finalises[OF m(2,1)]])
      (use m(3) in \<open>auto simp: ex_epoch_def ex_verifier_def\<close>)
  then show ?thesis using m(1) by blast
qed

text \<open>
  \<open>update_config\<close> checks the new minimum of the total stake against the stake of
  the head before it applies the new maximum of validators. Changing both in one call
  can thus leave a head that holds less than the minimum the call has just accepted.
\<close>

lemma update_config_head_stake:
  "\<exists>(m :: nat chain_manager) u m'. manager_run ex_crypto ex_verifier m [bl_header ex_genesis] \<and>
     manager_update_config u m = (m', Ok ()) \<and>
     cf_min_total_stake (mg_config m) \<le> cs_head_stake (mg_candidates m) \<and>
     cs_head_stake (mg_candidates m') < cf_min_total_stake (mg_config m')"
proof -
  let ?u = "\<lparr>uc_min_validators = None, uc_max_validators = Some 1, uc_min_validator_stake = None,
      uc_min_total_stake = Some 5, uc_min_quorum_stake = None, uc_min_block_length = None,
      uc_max_block_age_ns = None, uc_min_epoch_length = None\<rparr>"
  let ?m = "ex_manager\<lparr>mg_config := ex_config\<lparr>cf_max_validators := 1, cf_min_total_stake := 5\<rparr>,
      mg_candidates := \<lparr>cs_max_validators = 1, cs_candidates = [Candidate 1 2, Candidate 2 2, Candidate 3 2],
        cs_changed = True, cs_head_stake = 2\<rparr>\<rparr>"
  have "manager_update_config ?u ex_manager = (?m, Ok ())"
    by (simp add: manager_update_config_def config_update_def unwrap_or_def ex_manager_def ex_config_def
        update_max_validators_def sum_head_stake_def checked_add_def ex_epoch_def Let_def)
  moreover have "cf_min_total_stake (mg_config ex_manager) \<le> cs_head_stake (mg_candidates ex_manager)"
    by (simp add: ex_manager_def ex_config_def)
  ultimately show ?thesis using ex_run by (intro exI[of _ ex_manager] exI[of _ ?u] exI[of _ ?m]) simp
qed

end
