(* ===== verification/Ed25519.thy ===== *)
theory Ed25519
  imports U3 "HOL-Library.Sublist"
begin

text \<open>
  Instruction data of the Ed25519 native program,
  \<^verbatim>\<open>solana/signature-verifier/src/ed25519_program.rs\<close>: writing an instruction that
  checks given signatures, which stores a message once when it is a prefix of an
  earlier one, and reading the signatures back from instruction data.
\<close>

section \<open>Writing\<close>

record sig_entry =
  se_signature :: "byte list"
  se_pubkey :: "byte list"
  se_message :: "byte list"

record signature_offsets =
  so_signature_offset :: nat
  so_signature_instruction_index :: nat
  so_public_key_offset :: nat
  so_public_key_instruction_index :: nat
  so_message_data_offset :: nat
  so_message_data_size :: nat
  so_message_instruction_index :: nat

definition ENTRY_SIZE :: nat where "ENTRY_SIZE = 14"

definition U16_MAX :: nat where "U16_MAX = 65535"

text \<open>\<open>bytemuck::bytes_of\<close> on a little-endian machine.\<close>

definition offsets_bytes :: "signature_offsets \<Rightarrow> byte list" where
  "offsets_bytes o1 =
     to_le 2 (so_signature_offset o1) @ to_le 2 (so_signature_instruction_index o1) @
     to_le 2 (so_public_key_offset o1) @ to_le 2 (so_public_key_instruction_index o1) @
     to_le 2 (so_message_data_offset o1) @ to_le 2 (so_message_data_size o1) @
     to_le 2 (so_message_instruction_index o1)"

text \<open>
  The writer: the bytes written behind the offsets, the room left in the buffer, the
  length so far and the offsets written. \<open>memcpy\<close> panics when the buffer is too small.
\<close>

record writer =
  wr_data :: "byte list"
  wr_room :: nat
  wr_len :: nat
  wr_offsets :: "signature_offsets list"

definition memcpy :: "byte list \<Rightarrow> writer \<Rightarrow> (unit, writer) outcome" where
  "memcpy src w =
     (if length src \<le> wr_room w
      then Ok (w\<lparr>wr_data := wr_data w @ src, wr_room := wr_room w - length src\<rparr>)
      else Panic)"

definition u16_add :: "nat \<Rightarrow> nat \<Rightarrow> (unit, nat) outcome" where
  "u16_add a b = unwrap_option (checked_add 16 a b)"

fun first_pos :: "('a \<Rightarrow> bool) \<Rightarrow> 'a list \<Rightarrow> nat option" where
  "first_pos P [] = None"
| "first_pos P (x # xs) = (if P x then Some 0 else map_option Suc (first_pos P xs))"

text \<open>Where the message of an entry is: at the place of an earlier message or appended.\<close>

definition write_message :: "sig_entry list \<Rightarrow> sig_entry \<Rightarrow> writer \<Rightarrow> (unit, nat \<times> writer) outcome" where
  "write_message before entry w =
     (case first_pos (\<lambda>e. prefix (se_message entry) (se_message e)) before of
        Some pos \<Rightarrow> Ok (so_message_data_offset (wr_offsets w ! pos), w)
      | None \<Rightarrow>
          bind_outcome (memcpy (se_message entry) w) (\<lambda>w.
          bind_outcome (u16_add (wr_len w) (length (se_message entry) mod 2 ^ 16)) (\<lambda>len.
            Ok (wr_len w, w\<lparr>wr_len := len\<rparr>))))"

definition write_entry :: "sig_entry list \<Rightarrow> sig_entry \<Rightarrow> writer \<Rightarrow> (unit, writer) outcome" where
  "write_entry before entry w =
     bind_outcome (write_message before entry w) (\<lambda>(message_data_offset, w).
     bind_outcome (memcpy (se_signature entry) w) (\<lambda>w.
     bind_outcome (memcpy (se_pubkey entry) w) (\<lambda>w.
     bind_outcome (u16_add (wr_len w) 64) (\<lambda>key_offset.
     bind_outcome (u16_add (wr_len w) (64 + 32)) (\<lambda>len.
       let offsets = \<lparr>so_signature_offset = wr_len w, so_signature_instruction_index = U16_MAX,
             so_public_key_offset = key_offset, so_public_key_instruction_index = U16_MAX,
             so_message_data_offset = message_data_offset,
             so_message_data_size = length (se_message entry) mod 2 ^ 16,
             so_message_instruction_index = U16_MAX\<rparr>
       in Ok (w\<lparr>wr_len := len, wr_offsets := wr_offsets w @ [offsets]\<rparr>))))))"

fun write_entries :: "sig_entry list \<Rightarrow> sig_entry list \<Rightarrow> writer \<Rightarrow> (unit, writer) outcome" where
  "write_entries before [] w = Ok w"
| "write_entries before (e # es) w =
     bind_outcome (write_entry before e w) (\<lambda>w. write_entries (before @ [e]) es w)"

text \<open>\<open>cap\<close> is the length of the destination; the result is its initialised part.\<close>

definition write_instruction_data :: "nat \<Rightarrow> sig_entry list \<Rightarrow> (unit, byte list) outcome" where
  "write_instruction_data cap entries =
     (let len = 2 + length entries * ENTRY_SIZE in
      if len > cap then Panic
      else
        bind_outcome (write_entries [] entries
            \<lparr>wr_data = [], wr_room = cap - len, wr_len = len mod 2 ^ 16, wr_offsets = []\<rparr>) (\<lambda>w.
          let buf = [word_of_nat (length entries), 0] @ concat (map offsets_bytes (wr_offsets w)) @ wr_data w
          in if wr_len w \<le> length buf then Ok (take (wr_len w) buf) else Panic))"

fun message_capacity :: "nat \<Rightarrow> sig_entry list \<Rightarrow> nat option" where
  "message_capacity cap [] = Some cap"
| "message_capacity cap (e # es) =
     (if length (se_message e) < 2 ^ 16
      then Option.bind (checked_add 16 cap (length (se_message e))) (\<lambda>cap. message_capacity cap es)
      else None)"

text \<open>\<open>Err ()\<close> stands for \<open>None\<close>; the result is the data of the instruction.\<close>

definition new_instruction :: "sig_entry list \<Rightarrow> (unit, byte list) outcome" where
  "new_instruction entries =
     (if length entries < 256 then
        bind_outcome (ok_or () (message_capacity ((2 + (ENTRY_SIZE + 64 + 32) * length entries) mod 2 ^ 16) entries))
          (\<lambda>capacity. write_instruction_data capacity entries)
      else Err ())"

section \<open>Reading\<close>

datatype ed_error = UnsupportedFeature | BadData

definition get_array :: "nat \<Rightarrow> byte list \<Rightarrow> nat \<Rightarrow> byte list option" where
  "get_array n data offset =
     (if offset \<le> length data then map_option fst (stdx_split_at n (drop offset data)) else None)"

definition get_message :: "byte list \<Rightarrow> nat \<Rightarrow> nat \<Rightarrow> byte list option" where
  "get_message data offset len =
     (if offset \<le> length data \<and> len \<le> length (drop offset data) then Some (take len (drop offset data)) else None)"

definition decode_entry :: "byte list \<Rightarrow> byte list \<Rightarrow> (ed_error, sig_entry) outcome" where
  "decode_entry data entry =
     (let field = (\<lambda>i. from_le (take 2 (drop (2 * i) entry)));
          sig_offset = field 0; sig_ix_idx = field 1; key_offset = field 2; key_ix_idx = field 3;
          msg_offset = field 4; msg_size = field 5; msg_ix_idx = field 6
      in if sig_ix_idx \<noteq> U16_MAX \<or> key_ix_idx \<noteq> U16_MAX \<or> msg_ix_idx \<noteq> U16_MAX then Err UnsupportedFeature
         else
           ok_or BadData
             (Option.bind (get_array 64 data sig_offset) (\<lambda>sig.
              Option.bind (get_array 32 data key_offset) (\<lambda>key.
              map_option (\<lambda>msg. \<lparr>se_signature = sig, se_pubkey = key, se_message = msg\<rparr>)
                (get_message data msg_offset msg_size)))))"

text \<open>The iterator: the offsets left to read and the data.\<close>

record ed_iter =
  it_entries :: "byte list list"
  it_data :: "byte list"

definition parse_data :: "byte list \<Rightarrow> (ed_error, ed_iter) outcome" where
  "parse_data data =
     ok_or BadData
       (case stdx_split_at 2 data of
          Some ([cnt, zero], rest) \<Rightarrow>
            if zero = 0 then
              (let chunks = fst (as_chunks 14 rest)
               in if unat cnt \<le> length chunks
                  then Some \<lparr>it_entries = take (unat cnt) chunks, it_data = data\<rparr> else None)
            else None
        | _ \<Rightarrow> None)"

definition iter_next :: "ed_iter \<Rightarrow> ((ed_error, sig_entry) outcome \<times> ed_iter) option" where
  "iter_next it =
     (case it_entries it of
        [] \<Rightarrow> None
      | e # es \<Rightarrow> Some (decode_entry (it_data it) e, it\<lparr>it_entries := es\<rparr>))"

definition iter_next_back :: "ed_iter \<Rightarrow> ((ed_error, sig_entry) outcome \<times> ed_iter) option" where
  "iter_next_back it =
     (if it_entries it = [] then None
      else Some (decode_entry (it_data it) (last (it_entries it)), it\<lparr>it_entries := butlast (it_entries it)\<rparr>))"

definition iter_last :: "ed_iter \<Rightarrow> (ed_error, sig_entry) outcome option" where
  "iter_last it = (if it_entries it = [] then None else Some (decode_entry (it_data it) (last (it_entries it))))"

definition iter_nth :: "nat \<Rightarrow> ed_iter \<Rightarrow> (ed_error, sig_entry) outcome option \<times> ed_iter" where
  "iter_nth n it =
     (let rest = it\<lparr>it_entries := drop (Suc n) (it_entries it)\<rparr>
      in if n < length (it_entries it) then (Some (decode_entry (it_data it) (it_entries it ! n)), rest)
         else (None, rest))"

definition iter_nth_back :: "nat \<Rightarrow> ed_iter \<Rightarrow> (ed_error, sig_entry) outcome option \<times> ed_iter" where
  "iter_nth_back n it =
     (let es = it_entries it; rest = it\<lparr>it_entries := take (length es - Suc n) es\<rparr>
      in if n < length es then (Some (decode_entry (it_data it) (es ! (length es - Suc n))), rest) else (None, rest))"

definition iter_len :: "ed_iter \<Rightarrow> nat" where
  "iter_len it = length (it_entries it)"

text \<open>All items, as a \<open>for\<close> loop over the iterator gets them.\<close>

definition iter_items :: "ed_iter \<Rightarrow> (ed_error, sig_entry) outcome list" where
  "iter_items it = map (decode_entry (it_data it)) (it_entries it)"

section \<open>Correctness of the writer\<close>

text \<open>\<open>located base data off bs\<close>: the bytes \<open>bs\<close> stand at offset \<open>off\<close> of a buffer whose tail from \<open>base\<close> on is \<open>data\<close>.\<close>

definition located :: "nat \<Rightarrow> byte list \<Rightarrow> nat \<Rightarrow> byte list \<Rightarrow> bool" where
  "located base data off bs \<longleftrightarrow> (\<exists>pre post. data = pre @ bs @ post \<and> off = base + length pre)"

lemma located_append: "located base data off bs \<Longrightarrow> located base (data @ more_data) off bs"
  unfolding located_def by (metis append.assoc)

lemma located_end: "located base (data @ bs) (base + length data) bs"
  unfolding located_def by (metis append_Nil2)

lemma located_prefix: "located base data off bs \<Longrightarrow> prefix cs bs \<Longrightarrow> located base data off cs"
  unfolding located_def prefix_def by (metis append.assoc)

lemma located_take:
  assumes "located (length front) data off bs"
  shows "off \<le> length (front @ data)" "length bs \<le> length (drop off (front @ data))"
    "take (length bs) (drop off (front @ data)) = bs"
proof -
  obtain pre post where "data = pre @ bs @ post" "off = length front + length pre"
    using assms by (auto simp: located_def)
  then show "off \<le> length (front @ data)" "length bs \<le> length (drop off (front @ data))"
    "take (length bs) (drop off (front @ data)) = bs" by simp_all
qed

definition entry_inv :: "sig_entry \<Rightarrow> bool" where
  "entry_inv e \<longleftrightarrow> length (se_signature e) = 64 \<and> length (se_pubkey e) = 32 \<and> length (se_message e) < 2 ^ 16"

definition describes :: "nat \<Rightarrow> byte list \<Rightarrow> signature_offsets \<Rightarrow> sig_entry \<Rightarrow> bool" where
  "describes base data o1 e \<longleftrightarrow>
     so_signature_instruction_index o1 = U16_MAX \<and> so_public_key_instruction_index o1 = U16_MAX \<and>
     so_message_instruction_index o1 = U16_MAX \<and> so_message_data_size o1 = length (se_message e) \<and>
     so_signature_offset o1 < 2 ^ 16 \<and> so_public_key_offset o1 < 2 ^ 16 \<and> so_message_data_offset o1 < 2 ^ 16 \<and>
     located base data (so_signature_offset o1) (se_signature e) \<and>
     located base data (so_public_key_offset o1) (se_pubkey e) \<and>
     located base data (so_message_data_offset o1) (se_message e)"

lemma describes_append: "describes base data o1 e \<Longrightarrow> describes base (data @ more_data) o1 e"
  by (auto simp: describes_def located_append)

text \<open>The writer after the entries \<open>before\<close>; \<open>todo\<close> bytes may still be needed.\<close>

definition writer_inv :: "nat \<Rightarrow> nat \<Rightarrow> sig_entry list \<Rightarrow> nat \<Rightarrow> writer \<Rightarrow> bool" where
  "writer_inv base cap before todo w \<longleftrightarrow>
     cap < 2 ^ 16 \<and> wr_len w = base + length (wr_data w) \<and> wr_len w + wr_room w = cap \<and> todo \<le> wr_room w \<and>
     list_all2 (describes base (wr_data w)) (wr_offsets w) before"

definition entry_need :: "sig_entry \<Rightarrow> nat" where
  "entry_need e = length (se_message e) + 96"

lemma first_pos_Some: "first_pos P xs = Some i \<Longrightarrow> i < length xs \<and> P (xs ! i)"
  by (induction xs arbitrary: i) (auto split: if_splits)

lemma write_message_spec:
  assumes w: "writer_inv base cap before (entry_need e + todo) w" and e: "entry_inv e"
  obtains off w' where "write_message before e w = Ok (off, w')" "writer_inv base cap before (96 + todo) w'"
    "off < 2 ^ 16" "located base (wr_data w') off (se_message e)"
proof (cases "first_pos (\<lambda>x. prefix (se_message e) (se_message x)) before")
  case (Some pos)
  note p = first_pos_Some[OF Some]
  have "describes base (wr_data w) (wr_offsets w ! pos) (before ! pos)"
    using w p by (auto simp: writer_inv_def list_all2_conv_all_nth)
  then have "so_message_data_offset (wr_offsets w ! pos) < 2 ^ 16"
      "located base (wr_data w) (so_message_data_offset (wr_offsets w ! pos)) (se_message e)"
    using p by (auto simp: describes_def intro: located_prefix)
  moreover have "writer_inv base cap before (96 + todo) w" using w by (auto simp: writer_inv_def entry_need_def)
  ultimately show ?thesis using that by (simp add: write_message_def Some)
next
  case None
  let ?m = "se_message e"
  let ?w = "w\<lparr>wr_data := wr_data w @ ?m, wr_room := wr_room w - length ?m, wr_len := wr_len w + length ?m\<rparr>"
  have room: "length ?m \<le> wr_room w" "wr_len w + length ?m < 2 ^ 16"
    using w by (auto simp: writer_inv_def entry_need_def)
  have "length ?m mod 2 ^ 16 = length ?m" using e by (simp add: entry_inv_def)
  then have "write_message before e w = Ok (wr_len w, ?w)"
    using room by (simp add: write_message_def None memcpy_def u16_add_def checked_add_def)
  moreover have "writer_inv base cap before (96 + todo) ?w"
    using w room by (auto simp: writer_inv_def entry_need_def elim: list_all2_mono intro: describes_append)
  moreover have "wr_len w < 2 ^ 16" using room by simp
  moreover have "located base (wr_data ?w) (wr_len w) ?m"
    using w located_end[of base "wr_data w" ?m] by (simp add: writer_inv_def)
  ultimately show ?thesis using that by blast
qed

lemma write_entry_spec:
  assumes w: "writer_inv base cap before (entry_need e + todo) w" and e: "entry_inv e"
  obtains w' where "write_entry before e w = Ok w'" "writer_inv base cap (before @ [e]) todo w'"
proof -
  obtain off v where m: "write_message before e w = Ok (off, v)" and v: "writer_inv base cap before (96 + todo) v"
    and off: "off < 2 ^ 16" "located base (wr_data v) off (se_message e)"
    using write_message_spec[OF w e] by metis
  let ?s = "se_signature e" and ?k = "se_pubkey e"
  have len: "length ?s = 64" "length ?k = 32" "length (se_message e) mod 2 ^ 16 = length (se_message e)"
    using e by (simp_all add: entry_inv_def)
  have room: "96 \<le> wr_room v" "wr_len v + 96 < 2 ^ 16" using v by (auto simp: writer_inv_def)
  let ?o = "\<lparr>so_signature_offset = wr_len v, so_signature_instruction_index = U16_MAX,
      so_public_key_offset = wr_len v + 64, so_public_key_instruction_index = U16_MAX,
      so_message_data_offset = off, so_message_data_size = length (se_message e),
      so_message_instruction_index = U16_MAX\<rparr>"
  let ?w = "v\<lparr>wr_data := wr_data v @ ?s @ ?k, wr_room := wr_room v - 96, wr_len := wr_len v + 96,
      wr_offsets := wr_offsets v @ [?o]\<rparr>"
  have "write_entry before e w = Ok ?w"
    using room len by (simp add: write_entry_def m memcpy_def u16_add_def checked_add_def Let_def)
  moreover have "describes base (wr_data ?w) ?o e"
  proof -
    have l: "wr_len v = base + length (wr_data v)" using v by (simp add: writer_inv_def)
    have "located base (wr_data v @ ?s @ ?k) (wr_len v) ?s"
      using located_append[OF located_end[of base "wr_data v" ?s], of ?k] l by simp
    moreover have "located base (wr_data v @ ?s @ ?k) (wr_len v + 64) ?k"
      using located_end[of base "wr_data v @ ?s" ?k] l len by (simp add: add.assoc)
    ultimately show ?thesis using off room located_append[OF off(2), of "?s @ ?k"] by (simp add: describes_def)
  qed
  then have "writer_inv base cap (before @ [e]) todo ?w"
    using v room len by (auto simp: writer_inv_def intro!: list_all2_appendI elim!: list_all2_mono intro: describes_append)
  ultimately show ?thesis using that by blast
qed

lemma write_entries_spec:
  "writer_inv base cap before (sum_list (map entry_need es)) w \<Longrightarrow> list_all entry_inv es \<Longrightarrow>
   \<exists>w'. write_entries before es w = Ok w' \<and> writer_inv base cap (before @ es) 0 w'"
proof (induction es arbitrary: before w)
  case (Cons e es)
  obtain v where "write_entry before e w = Ok v" "writer_inv base cap (before @ [e]) (sum_list (map entry_need es)) v"
    using write_entry_spec[of base cap before e "sum_list (map entry_need es)" w] Cons.prems by auto
  with Cons.IH[of "before @ [e]" v] Cons.prems(2) show ?case by simp
qed simp

lemma message_capacity_eq:
  "cap < 2 ^ 16 \<Longrightarrow> message_capacity cap es =
     (let c = cap + sum_list (map (\<lambda>e. length (se_message e)) es) in if c < 2 ^ 16 then Some c else None)"
  by (induction es arbitrary: cap) (auto simp: checked_add_def Let_def add.assoc)

lemma sum_need: "sum_list (map entry_need es) = 96 * length es + sum_list (map (\<lambda>e. length (se_message e)) es)"
  by (induction es) (auto simp: entry_need_def)

lemma length_offsets_bytes [simp]: "length (offsets_bytes o1) = 14"
  by (simp add: offsets_bytes_def)

lemma offsets_fields:
  "map (\<lambda>i. take 2 (drop (2 * i) (offsets_bytes o1))) [0, 1, 2, 3, 4, 5, 6] =
     map (to_le 2) [so_signature_offset o1, so_signature_instruction_index o1, so_public_key_offset o1,
       so_public_key_instruction_index o1, so_message_data_offset o1, so_message_data_size o1,
       so_message_instruction_index o1]"
  by (simp add: offsets_bytes_def)

lemma get_located:
  assumes "located (length front) data off bs"
  shows "length bs = n \<Longrightarrow> get_array n (front @ data) off = Some bs"
    and "get_message (front @ data) off (length bs) = Some bs"
proof -
  show "get_message (front @ data) off (length bs) = Some bs"
    using located_take[OF assms] by (simp only: get_message_def if_True simp_thms)
  show "get_array n (front @ data) off = Some bs" if "length bs = n"
    using located_take[OF assms]
    by (simp only: get_array_def stdx_split_at_def split_at_checked_def that if_True simp_thms option.map fst_conv)
qed

lemma decode_described:
  assumes "describes (length front) data o1 e" "entry_inv e"
  shows "decode_entry (front @ data) (offsets_bytes o1) = Ok e"
proof -
  have "get_array 64 (front @ data) (so_signature_offset o1) = Some (se_signature e)"
    "get_array 32 (front @ data) (so_public_key_offset o1) = Some (se_pubkey e)"
    "get_message (front @ data) (so_message_data_offset o1) (length (se_message e)) = Some (se_message e)"
    using assms by (simp_all add: describes_def entry_inv_def get_located)
  then show ?thesis using assms offsets_fields[of o1]
    by (simp add: decode_entry_def describes_def entry_inv_def U16_MAX_def Let_def)
qed

lemma take_chunk_list:
  "\<forall>c\<in>set cs. length c = n \<Longrightarrow> length cs \<le> k \<Longrightarrow> take (length cs) (chunk_list n k (concat cs @ r)) = cs"
proof (induction cs arbitrary: k)
  case (Cons c cs)
  then show ?case by (cases k) auto
qed simp

lemma as_chunks_concat_take:
  assumes cs: "\<forall>c\<in>set cs. length c = n" and "0 < n"
  shows "take (length cs) (fst (as_chunks n (concat cs @ r))) = cs \<and>
    length cs \<le> length (fst (as_chunks n (concat cs @ r)))"
proof -
  have len: "length (concat cs) = length cs * n" using cs by (induction cs) auto
  define k where "k = length (concat cs @ r) div n"
  have k: "length cs \<le> k" using assms(2) by (simp add: k_def len)
  then have "length (concat cs) \<le> k * n" by (simp add: len)
  then have "take (k * n) (concat cs @ r) = concat cs @ take (k * n - length (concat cs)) r" by simp
  then show ?thesis unfolding as_chunks_def Let_def fst_conv k_def[symmetric] using take_chunk_list[OF cs k] k by simp
qed

lemma parse_written:
  assumes "list_all2 (describes (length front) data) os es" "list_all entry_inv es"
    and front: "front = [word_of_nat (length es), 0] @ concat (map offsets_bytes os)" and "length es < 256"
  shows "\<exists>it. parse_data (front @ data) = Ok it \<and> iter_items it = map Ok es"
proof -
  have n: "length os = length es" using assms(1) by (rule list_all2_lengthD)
  have cs: "\<forall>c\<in>set (map offsets_bytes os). length c = 14" by simp
  have u: "unat (word_of_nat (length es) :: byte) = length es" using assms(4) by (simp add: unat_of_nat)
  have sp: "stdx_split_at 2 (front @ data) = Some ([word_of_nat (length es), 0], concat (map offsets_bytes os) @ data)"
    by (simp add: front stdx_split_at_def split_at_checked_def)
  have ch: "take (length es) (fst (as_chunks 14 (concat (map offsets_bytes os) @ data))) = map offsets_bytes os"
    "length es \<le> length (fst (as_chunks 14 (concat (map offsets_bytes os) @ data)))"
    using as_chunks_concat_take[OF cs, of data] n by simp_all
  have "parse_data (front @ data) = Ok \<lparr>it_entries = map offsets_bytes os, it_data = front @ data\<rparr>"
    unfolding parse_data_def sp using ch u by (simp add: Let_def)
  moreover have "map (decode_entry (front @ data)) (map offsets_bytes os) = map Ok es"
    using assms(1,2) decode_described[of front data]
    by (auto simp: list_all2_conv_all_nth list_all_length intro!: nth_equalityI)
  ultimately show ?thesis by (simp add: iter_items_def)
qed

lemma new_instruction_parsed:
  assumes e: "list_all (\<lambda>e. length (se_signature e) = 64 \<and> length (se_pubkey e) = 32) entries"
    and n: "length entries < 256"
      "2 + 110 * length entries + sum_list (map (\<lambda>e. length (se_message e)) entries) < 2 ^ 16"
  shows "\<exists>data it. new_instruction entries = Ok data \<and> parse_data data = Ok it \<and> iter_items it = map Ok entries"
proof -
  define cap where "cap = 2 + 110 * length entries + sum_list (map (\<lambda>e. length (se_message e)) entries)"
  define base where "base = 2 + length entries * ENTRY_SIZE"
  have inv: "list_all entry_inv entries"
    using e n(2) member_le_sum_list[of _ "map (\<lambda>e. length (se_message e)) entries"]
    by (force simp: list_all_iff entry_inv_def)
  have base: "base \<le> cap" "cap < 2 ^ 16" "base < 2 ^ 16" using n by (auto simp: base_def cap_def ENTRY_SIZE_def)
  let ?w = "\<lparr>wr_data = [], wr_room = cap - base, wr_len = base, wr_offsets = []\<rparr>"
  have "writer_inv base cap [] (sum_list (map entry_need entries)) ?w"
    using base by (simp add: writer_inv_def sum_need cap_def base_def ENTRY_SIZE_def)
  from write_entries_spec[OF this inv] obtain w where
    w: "write_entries [] entries ?w = Ok w" "writer_inv base cap entries 0 w" by auto
  define front where "front = [word_of_nat (length entries), 0] @ concat (map offsets_bytes (wr_offsets w))"
  have len: "length (wr_offsets w) = length entries" using w(2) by (auto simp: writer_inv_def dest: list_all2_lengthD)
  have "length (concat (map offsets_bytes os)) = 14 * length os" for os by (induction os) auto
  then have front: "length front = base" by (simp add: front_def len base_def ENTRY_SIZE_def)
  have wl: "wr_len w = length (front @ wr_data w)" using w(2) front by (simp add: writer_inv_def)
  have "write_instruction_data cap entries = Ok (front @ wr_data w)"
    using w(1) base wl unfolding write_instruction_data_def base_def[symmetric]
    by (simp add: Let_def front_def)
  moreover have "message_capacity ((2 + (ENTRY_SIZE + 64 + 32) * length entries) mod 2 ^ 16) entries = Some cap"
    using n by (simp add: message_capacity_eq ENTRY_SIZE_def Let_def cap_def)
  ultimately have "new_instruction entries = Ok (front @ wr_data w)" using n(1) by (simp add: new_instruction_def)
  moreover have "\<exists>it. parse_data (front @ wr_data w) = Ok it \<and> iter_items it = map Ok entries"
    by (rule parse_written[OF _ inv front_def n(1)]) (use w(2) front in \<open>simp add: writer_inv_def\<close>)
  ultimately show ?thesis by blast
qed

section \<open>Properties\<close>

text \<open>
  C32: instruction data written for a list of signatures is parsed back to the same list, in
  spite of messages that share their bytes; writing never panics, and it fails exactly for more
  than 255 entries or when the data may not fit 65535 bytes.
\<close>

theorem ed25519_instruction_roundtrip:
  assumes "list_all (\<lambda>e. length (se_signature e) = 64 \<and> length (se_pubkey e) = 32) entries"
  shows "if length entries < 256 \<and> 2 + 110 * length entries + sum_list (map (\<lambda>e. length (se_message e)) entries) < 2 ^ 16
    then \<exists>data it. new_instruction entries = Ok data \<and> parse_data data = Ok it \<and> iter_items it = map Ok entries
    else new_instruction entries = Err ()"
proof (cases "length entries < 256 \<and> 2 + 110 * length entries + sum_list (map (\<lambda>e. length (se_message e)) entries) < 2 ^ 16")
  case True
  then show ?thesis using new_instruction_parsed[OF assms] by simp
next
  case False
  then show ?thesis
    by (auto simp: new_instruction_def message_capacity_eq ENTRY_SIZE_def Let_def)
qed

theorem ed25519_instruction_roundtrip_witness:
  "\<exists>data it. new_instruction [\<lparr>se_signature = replicate 64 1, se_pubkey = replicate 32 2, se_message = [7, 8]\<rparr>,
       \<lparr>se_signature = replicate 64 3, se_pubkey = replicate 32 4, se_message = [7]\<rparr>] = Ok data \<and>
     parse_data data = Ok it \<and>
     iter_items it = [Ok \<lparr>se_signature = replicate 64 1, se_pubkey = replicate 32 2, se_message = [7, 8]\<rparr>,
       Ok \<lparr>se_signature = replicate 64 3, se_pubkey = replicate 32 4, se_message = [7]\<rparr>]"
  using ed25519_instruction_roundtrip[of
      "[\<lparr>se_signature = replicate 64 1, se_pubkey = replicate 32 2, se_message = [7, 8]\<rparr>,
        \<lparr>se_signature = replicate 64 3, se_pubkey = replicate 32 4, se_message = [7]\<rparr>]"]
  by simp

end
