(* ===== verification/Sig_Account.thy ===== *)
theory Sig_Account
  imports Ed25519 "HOL-Library.List_Lexorder" "HOL-Library.Multiset"
begin

text \<open>
  The account in which the signature verifier collects the hashes of signatures,
  \<^verbatim>\<open>solana/signature-verifier/src/api.rs\<close>, and the verifier that looks signatures up in
  it or in the instruction before, \<^verbatim>\<open>verifier.rs\<close>. The data of the account is a counter
  followed by the hashes in order; SHA-256 is the parameter \<open>d\<close>.
\<close>

section \<open>Errors and hashes\<close>

datatype program_error =
  InvalidInstructionData
| NotEnoughAccountKeys
| MissingRequiredSignature
| InvalidAccountData
| InvalidSeeds
| InvalidAccountOwner
| IncorrectProgramId
| AccountDataTooSmall
| AccountBorrowFailed
| ArithmeticOverflow
| RuntimeFailed

definition ED25519_HASH_MAGIC :: "byte list" where
  "ED25519_HASH_MAGIC = [0x65, 0x64, 0x32, 0x35, 0x35, 0x31, 0x39, 0x00]"

definition SIGNATURE_HASH_SIZE :: nat where "SIGNATURE_HASH_SIZE = 32"

definition signature_hash_new ::
  "(byte list \<Rightarrow> hash) \<Rightarrow> byte list \<Rightarrow> byte list \<Rightarrow> byte list \<Rightarrow> byte list \<Rightarrow> hash" where
  "signature_hash_new d magic key sig message =
     (let prelude = magic @ to_le 8 (length message) in d (concat [prelude, key, sig, message]))"

definition new_ed25519 :: "(byte list \<Rightarrow> hash) \<Rightarrow> byte list \<Rightarrow> byte list \<Rightarrow> byte list \<Rightarrow> hash" where
  "new_ed25519 d key sig message = signature_hash_new d ED25519_HASH_MAGIC key sig message"

definition entry_hash :: "(byte list \<Rightarrow> hash) \<Rightarrow> sig_entry \<Rightarrow> hash" where
  "entry_hash d e = new_ed25519 d (se_pubkey e) (se_signature e) (se_message e)"

section \<open>The account data\<close>

text \<open>\<open>slice::binary_search\<close>; the position of a match, if one is found.\<close>

function bsearch :: "('a :: linorder) list \<Rightarrow> 'a \<Rightarrow> nat \<Rightarrow> nat \<Rightarrow> nat option" where
  "bsearch xs x left right =
     (if left < right then
        (let mid = left + (right - left) div 2 in
         if xs ! mid < x then bsearch xs x (mid + 1) right
         else if x < xs ! mid then bsearch xs x left mid
         else Some mid)
      else None)"
  by pat_completeness auto
termination by (relation "measure (\<lambda>(xs, x, left, right). right - left)") auto

declare bsearch.simps [simp del]

definition binary_search :: "('a :: linorder) list \<Rightarrow> 'a \<Rightarrow> nat option" where
  "binary_search xs x = bsearch xs x 0 (length xs)"

definition find_sighash :: "byte list \<Rightarrow> hash \<Rightarrow> (program_error, bool) outcome" where
  "find_sighash data sig =
     bind_outcome (ok_or AccountDataTooSmall (stdx_split_at 4 data)) (\<lambda>(head, tail).
       let cnt = from_le head; chunks = fst (as_chunks SIGNATURE_HASH_SIZE tail) in
       if cnt \<le> length chunks then Ok (binary_search (take cnt chunks) sig \<noteq> None)
       else Err InvalidAccountData)"

text \<open>
  The data of an account and whether it is borrowed elsewhere, in which case
  \<open>try_borrow_data\<close> fails.
\<close>

record sig_data =
  sd_bytes :: "byte list"
  sd_borrowed :: bool

definition new_checked_owner :: "'k \<Rightarrow> sig_data \<Rightarrow> 'k \<Rightarrow> (program_error, sig_data) outcome" where
  "new_checked_owner owner account sig_verify_program_id =
     (if owner = sig_verify_program_id then Ok account else Err InvalidAccountOwner)"

definition find_ed25519 ::
  "(byte list \<Rightarrow> hash) \<Rightarrow> sig_data \<Rightarrow> byte list \<Rightarrow> byte list \<Rightarrow> byte list \<Rightarrow> (program_error, bool) outcome" where
  "find_ed25519 d a key sig message =
     (if sd_borrowed a then Err AccountBorrowFailed
      else find_sighash (sd_bytes a) (new_ed25519 d key sig message))"

definition read_count :: "byte list \<Rightarrow> (program_error, nat) outcome" where
  "read_count data =
     bind_outcome (ok_or AccountDataTooSmall (stdx_split_at 4 data)) (\<lambda>(head, _). Ok (from_le head))"

definition write_count_and_sort :: "nat \<Rightarrow> byte list \<Rightarrow> (program_error, byte list) outcome" where
  "write_count_and_sort cnt data =
     bind_outcome (ok_or AccountDataTooSmall (stdx_split_at 4 data)) (\<lambda>(head, tail).
       let (chunks, rest) = as_chunks SIGNATURE_HASH_SIZE tail in
       if cnt \<le> length chunks
       then Ok (to_le 4 cnt @ concat (sort (take cnt chunks)) @ concat (drop cnt chunks) @ rest)
       else Err AccountDataTooSmall)"

text \<open>
  \<open>write_signature\<close> on a state with account data; \<open>enlarge\<close> is the callback.
\<close>

definition sig_range :: "nat \<Rightarrow> (nat \<times> nat) option" where
  "sig_range index =
     (let start = index * SIGNATURE_HASH_SIZE + 4; end = start + SIGNATURE_HASH_SIZE
      in if end < 2 ^ 64 then Some (start, end) else None)"

definition write_signature ::
  "('s \<Rightarrow> byte list) \<Rightarrow> (byte list \<Rightarrow> 's \<Rightarrow> 's) \<Rightarrow> nat \<Rightarrow> hash \<Rightarrow> ('s \<Rightarrow> (program_error, 's) outcome) \<Rightarrow> 's \<Rightarrow>
   (program_error, 's) outcome" where
  "write_signature getd putd index sig enlarge st =
     bind_outcome (ok_or ArithmeticOverflow (sig_range index)) (\<lambda>(start, end).
     bind_outcome (if length (getd st) < end then enlarge st else Ok st) (\<lambda>st.
       if end \<le> length (getd st)
       then Ok (putd (take start (getd st) @ sig @ drop end (getd st)) st)
       else Err AccountDataTooSmall))"

section \<open>The verifier\<close>

datatype verifier_error = VerifierBadData | BorrowFailed

record verifier =
  ve_ed25519_data :: "byte list option"
  ve_sigverify_data :: "sig_data option"

definition verifier_default :: verifier where
  "verifier_default = \<lparr>ve_ed25519_data = None, ve_sigverify_data = None\<rparr>"

text \<open>
  \<open>prev\<close> is \<open>get_instruction_relative(-1, account)\<close>, the program id and the data of the
  instruction before; \<open>is_ed25519\<close> is \<open>ed25519_program::check_id\<close>.
\<close>

definition set_ix_sysvar ::
  "('k \<Rightarrow> bool) \<Rightarrow> ('k \<times> byte list) option \<Rightarrow> verifier \<Rightarrow> (program_error, verifier) outcome" where
  "set_ix_sysvar is_ed25519 prev v =
     bind_outcome (ok_or RuntimeFailed prev) (\<lambda>(program_id, data).
       if is_ed25519 program_id then Ok (v\<lparr>ve_ed25519_data := Some data\<rparr>) else Err IncorrectProgramId)"

definition set_sigverify_account ::
  "'k \<Rightarrow> sig_data \<Rightarrow> 'k \<Rightarrow> verifier \<Rightarrow> (program_error, verifier) outcome" where
  "set_sigverify_account owner account_data expected_owner v =
     (if owner = expected_owner then Ok (v\<lparr>ve_sigverify_data := Some account_data\<rparr>)
      else Err InvalidAccountOwner)"

fun check_items :: "(ed_error, sig_entry) outcome list \<Rightarrow> sig_entry \<Rightarrow> (verifier_error, bool) outcome" where
  "check_items [] entry = Ok False"
| "check_items (Ok e # items) entry = (if e = entry then Ok True else check_items items entry)"
| "check_items (Err UnsupportedFeature # items) entry = check_items items entry"
| "check_items (_ # items) entry = Err VerifierBadData"

definition check_ed25519_data :: "byte list \<Rightarrow> sig_entry \<Rightarrow> (verifier_error, bool) outcome" where
  "check_ed25519_data data entry =
     (case parse_data data of
        Ok it \<Rightarrow> check_items (iter_items it) entry
      | _ \<Rightarrow> Err VerifierBadData)"

definition check_sigverify_data ::
  "(byte list \<Rightarrow> hash) \<Rightarrow> byte list \<Rightarrow> sig_entry \<Rightarrow> (verifier_error, bool) outcome" where
  "check_sigverify_data d data entry =
     (case find_sighash data (entry_hash d entry) of Ok b \<Rightarrow> Ok b | _ \<Rightarrow> Err VerifierBadData)"

definition verifier_verify ::
  "(byte list \<Rightarrow> hash) \<Rightarrow> verifier \<Rightarrow> byte list \<Rightarrow> byte list \<Rightarrow> byte list \<Rightarrow> (verifier_error, bool) outcome" where
  "verifier_verify d v message pubkey sig =
     (let entry = \<lparr>se_signature = sig, se_pubkey = pubkey, se_message = message\<rparr> in
      bind_outcome (case ve_ed25519_data v of None \<Rightarrow> Ok False | Some data \<Rightarrow> check_ed25519_data data entry) (\<lambda>found.
        if found then Ok True
        else
          (case ve_sigverify_data v of
             None \<Rightarrow> Ok False
           | Some a \<Rightarrow> if sd_borrowed a then Err BorrowFailed else check_sigverify_data d (sd_bytes a) entry)))"

text \<open>\<open>guestchain::Verifier::verify\<close>: malformed data is a panic.\<close>

definition guest_verify ::
  "(byte list \<Rightarrow> hash) \<Rightarrow> verifier \<Rightarrow> byte list \<Rightarrow> byte list \<Rightarrow> byte list \<Rightarrow> (unit, bool) outcome" where
  "guest_verify d v message pubkey sig =
     (case verifier_verify d v message pubkey sig of Ok b \<Rightarrow> Ok b | _ \<Rightarrow> Panic)"

fun verifier_error_into :: "verifier_error \<Rightarrow> program_error" where
  "verifier_error_into VerifierBadData = InvalidAccountData"
| "verifier_error_into BorrowFailed = AccountBorrowFailed"

section \<open>What the account holds\<close>

text \<open>The hashes recorded in the data of an account, if it is well formed.\<close>

definition account_entries :: "byte list \<Rightarrow> hash list" where
  "account_entries data =
     take (from_le (take 4 data)) (fst (as_chunks SIGNATURE_HASH_SIZE (drop 4 data)))"

definition account_inv :: "byte list \<Rightarrow> bool" where
  "account_inv data \<longleftrightarrow>
     4 \<le> length data \<and> from_le (take 4 data) \<le> length (fst (as_chunks SIGNATURE_HASH_SIZE (drop 4 data))) \<and>
     sorted (account_entries data)"

lemma bsearch_range:
  assumes "sorted xs" "r \<le> length xs" "\<And>i. i < l \<Longrightarrow> xs ! i < x" "\<And>i. r \<le> i \<Longrightarrow> i < length xs \<Longrightarrow> x < xs ! i"
    "l \<le> length xs"
  shows "bsearch xs x l r \<noteq> None \<longleftrightarrow> x \<in> set xs"
  using assms
proof (induction xs x l r rule: bsearch.induct)
  case (1 xs x l r)
  show ?case
  proof (cases "l < r")
    case False
    have "xs ! i \<noteq> x" if "i < length xs" for i
      using "1.prems"(3)[of i] "1.prems"(4)[of i] False that by (cases "i < l") auto
    then show ?thesis using False by (auto simp: bsearch.simps[of xs x l r] in_set_conv_nth)
  next
    case True
    define mid where "mid = l + (r - l) div 2"
    have m: "l \<le> mid" "mid < r" using True by (auto simp: mid_def)
    consider "xs ! mid < x" | "x < xs ! mid" | "xs ! mid = x" by fastforce
    then show ?thesis
    proof cases
      case 1
      have "xs ! i < x" if "i < mid + 1" for i
        using sorted_nth_mono[OF "1.prems"(1), of i mid] that m "1.prems"(2) 1 by fastforce
      then show ?thesis using "1.IH"(1)[OF True mid_def 1] "1.prems" m 1 True
        by (simp add: bsearch.simps[of xs x l r] mid_def[symmetric] Let_def)
    next
      case 2
      have "x < xs ! i" if "mid \<le> i" "i < length xs" for i
        using sorted_nth_mono[OF "1.prems"(1), of mid i] that 2 by fastforce
      moreover have n: "\<not> xs ! mid < x" using 2 by (rule less_not_sym)
      ultimately show ?thesis using "1.IH"(2)[OF True mid_def n 2] "1.prems" m 2 True
        by (simp add: bsearch.simps[of xs x l r] mid_def[symmetric] Let_def)
    next
      case 3
      then show ?thesis using m "1.prems"(2) True
        by (auto simp: bsearch.simps[of xs x l r] mid_def[symmetric] Let_def)
    qed
  qed
qed

lemma binary_search_iff: "sorted xs \<Longrightarrow> binary_search xs x \<noteq> None \<longleftrightarrow> x \<in> set xs"
  unfolding binary_search_def by (rule bsearch_range) auto

lemma find_sighash_iff: "account_inv data \<Longrightarrow> find_sighash data sig = Ok (sig \<in> set (account_entries data))"
  using binary_search_iff[of "account_entries data" sig]
  by (simp add: find_sighash_def account_inv_def account_entries_def stdx_split_at_def split_at_checked_def Let_def)

section \<open>Reading and writing entries\<close>

definition data_chunks :: "byte list \<Rightarrow> hash list" where
  "data_chunks data = fst (as_chunks SIGNATURE_HASH_SIZE (drop 4 data))"

lemma account_entries_chunks: "account_entries data = take (from_le (take 4 data)) (data_chunks data)"
  by (simp add: account_entries_def data_chunks_def)

lemma chunk_list_nth: "i < k \<Longrightarrow> chunk_list n k xs ! i = take n (drop (n * i) xs)"
proof (induction n k xs arbitrary: i rule: chunk_list.induct)
  case (2 n k xs)
  then show ?case by (cases i) (auto simp: add.commute)
qed simp

lemma length_data_chunks: "length (data_chunks data) = (length data - 4) div 32"
  by (simp add: data_chunks_def as_chunks_def Let_def SIGNATURE_HASH_SIZE_def)

lemma chunk_fits: "i < (length data - 4) div 32 \<Longrightarrow> 4 + 32 * i + 32 \<le> length data"
  by (auto simp: less_eq_div_iff_mult_less_eq Suc_le_eq[symmetric])

lemma data_chunks_nth:
  assumes "i < length (data_chunks data)"
  shows "data_chunks data ! i = take 32 (drop (4 + 32 * i) data)"
proof -
  define k where "k = (length data - 4) div 32"
  have i: "i < k" using assms by (simp add: length_data_chunks k_def)
  have "data_chunks data ! i = take 32 (drop (32 * i) (take (k * 32) (drop 4 data)))"
    using chunk_list_nth[OF i, of 32 "take (k * 32) (drop 4 data)"]
    by (simp add: data_chunks_def as_chunks_def Let_def SIGNATURE_HASH_SIZE_def k_def)
  also have "\<dots> = take 32 (take (k * 32 - 32 * i) (drop (4 + 32 * i) data))"
    by (simp add: drop_take add.commute)
  also have "\<dots> = take 32 (drop (4 + 32 * i) data)" using i by (simp add: min_def)
  finally show ?thesis .
qed

lemma data_chunks_lengths: "c \<in> set (data_chunks data) \<Longrightarrow> length c = 32"
  using data_chunks_nth[of _ data] chunk_fits[of _ data]
  by (auto simp: in_set_conv_nth length_data_chunks)

lemma write_count_and_sort_spec:
  assumes "cnt < 2 ^ 32" "4 \<le> length data" "cnt \<le> length (data_chunks data)"
  obtains data' where "write_count_and_sort cnt data = Ok data'" "account_inv data'"
    "account_entries data' = sort (take cnt (data_chunks data))"
proof -
  obtain chunks rest where c: "as_chunks SIGNATURE_HASH_SIZE (drop 4 data) = (chunks, rest)" by fastforce
  have ch: "chunks = data_chunks data" using c by (simp add: data_chunks_def)
  let ?s = "sort (take cnt chunks)" and ?r = "concat (drop cnt chunks) @ rest"
  let ?data = "to_le 4 cnt @ concat ?s @ ?r"
  have "write_count_and_sort cnt data = Ok ?data"
    using assms(2,3) by (simp add: write_count_and_sort_def stdx_split_at_def split_at_checked_def c ch)
  moreover have s: "\<forall>x\<in>set ?s. length x = SIGNATURE_HASH_SIZE" "length ?s = cnt"
    using assms(3) data_chunks_lengths by (auto simp: ch SIGNATURE_HASH_SIZE_def dest: in_set_takeD)
  note k = as_chunks_concat_take[OF s(1), of ?r, unfolded s(2)]
  have n: "from_le (to_le 4 cnt) = cnt" using assms(1) by (intro from_le_to_le) simp
  have e: "account_entries ?data = ?s" using k n by (simp add: account_entries_def SIGNATURE_HASH_SIZE_def)
  moreover have "account_inv ?data" using k n e by (simp add: account_inv_def SIGNATURE_HASH_SIZE_def)
  ultimately show ?thesis using that ch by blast
qed

text \<open>Writing the entry behind the first \<open>i\<close> ones, also in data that has grown.\<close>

lemma chunks_after_write:
  assumes "length sig = 32" "4 + 32 * i + 32 \<le> length data"
    and data': "data' = take (4 + 32 * i) data @ sig @ drop (4 + 32 * i + 32) data"
  shows "take (Suc i) (data_chunks data') = take i (data_chunks data) @ [sig]"
    "length (data_chunks data') = length (data_chunks data)" "take 4 data' = take 4 data" "length data' = length data"
proof -
  have len: "length data' = length data" using assms by simp
  then show lc: "length (data_chunks data') = length (data_chunks data)" "length data' = length data"
    by (simp_all add: length_data_chunks)
  show "take 4 data' = take 4 data" using assms by (simp add: min_def)
  have i: "i < length (data_chunks data)" using assms(2) by (simp add: length_data_chunks less_eq_div_iff_mult_less_eq Suc_le_eq[symmetric])
  have "data_chunks data' ! i = sig"
    using data_chunks_nth[of i data'] i lc(1) assms by simp
  moreover have "data_chunks data' ! j = data_chunks data ! j" if "j < i" for j
  proof -
    have "4 + 32 * j + 32 \<le> 4 + 32 * i" using that by simp
    then have "take 32 (drop (4 + 32 * j) data') = take 32 (drop (4 + 32 * j) data)"
      using assms(1,2) by (simp add: data' drop_take min_def)
    then show ?thesis using data_chunks_nth[of j data'] data_chunks_nth[of j data] that i lc(1) by simp
  qed
  ultimately show "take (Suc i) (data_chunks data') = take i (data_chunks data) @ [sig]"
    using i lc(1) by (intro nth_equalityI) (auto simp: nth_append less_Suc_eq)
qed

lemma chunks_after_growth:
  assumes "n \<le> length (data_chunks data)"
  shows "take n (data_chunks (data @ pad)) = take n (data_chunks data)"
proof (rule nth_equalityI)
  have le: "length (data_chunks data) \<le> length (data_chunks (data @ pad))"
    by (simp add: length_data_chunks div_le_mono)
  then show "length (take n (data_chunks (data @ pad))) = length (take n (data_chunks data))" using assms by simp
  fix i assume "i < length (take n (data_chunks (data @ pad)))"
  then have i: "i < n" "i < length (data_chunks data)" using assms by auto
  have "take 32 (drop (4 + 32 * i) (data @ pad)) = take 32 (drop (4 + 32 * i) data)"
    using chunk_fits[of i data] i(2) by (simp add: length_data_chunks)
  then show "take n (data_chunks (data @ pad)) ! i = take n (data_chunks data) ! i"
    using data_chunks_nth[of i data] data_chunks_nth[of i "data @ pad"] i le by simp
qed

lemma check_items_iff: "check_items items entry = Ok b \<Longrightarrow> b \<longleftrightarrow> Ok entry \<in> set items"
  by (induction items entry rule: check_items.induct) (auto split: if_splits)

section \<open>Properties\<close>

text \<open>
  C31: the verifier accepts a signature exactly when the Ed25519 instruction before has checked it
  or the signatures account holds its hash, and without either it accepts none.
\<close>

theorem verifier_accepts:
  assumes "\<And>a. ve_sigverify_data v = Some a \<Longrightarrow> account_inv (sd_bytes a)"
    and "verifier_verify d v message pubkey sig = Ok b"
  shows "b \<longleftrightarrow>
    (\<exists>data it. ve_ed25519_data v = Some data \<and> parse_data data = Ok it \<and>
       Ok \<lparr>se_signature = sig, se_pubkey = pubkey, se_message = message\<rparr> \<in> set (iter_items it)) \<or>
    (\<exists>a. ve_sigverify_data v = Some a \<and> new_ed25519 d pubkey sig message \<in> set (account_entries (sd_bytes a)))"
proof -
  let ?e = "\<lparr>se_signature = sig, se_pubkey = pubkey, se_message = message\<rparr>"
  obtain found where f: "(case ve_ed25519_data v of None \<Rightarrow> Ok False | Some data \<Rightarrow> check_ed25519_data data ?e) = Ok found"
    and b: "(if found then Ok True else case ve_sigverify_data v of None \<Rightarrow> Ok False
      | Some a \<Rightarrow> if sd_borrowed a then Err BorrowFailed else check_sigverify_data d (sd_bytes a) ?e) = Ok b"
    using assms(2) by (auto simp: verifier_verify_def bind_outcome_Ok Let_def)
  have 1: "found \<longleftrightarrow> (\<exists>data it. ve_ed25519_data v = Some data \<and> parse_data data = Ok it \<and> Ok ?e \<in> set (iter_items it))"
    using f check_items_iff by (auto simp: check_ed25519_data_def split: option.splits outcome.splits)
  have 2: "check_sigverify_data d (sd_bytes a) ?e =
      Ok (new_ed25519 d pubkey sig message \<in> set (account_entries (sd_bytes a)))" if "ve_sigverify_data v = Some a" for a
    using find_sighash_iff[OF assms(1)[OF that]] by (simp add: check_sigverify_data_def entry_hash_def)
  show ?thesis using 1 2 b by (auto split: if_splits option.splits)
qed

text \<open>An account with one recorded signature.\<close>

definition ex_sig_data :: sig_data where
  "ex_sig_data = \<lparr>sd_bytes = [1, 0, 0, 0] @ replicate 32 9, sd_borrowed = False\<rparr>"

lemma ex_sig_entries: "account_entries (sd_bytes ex_sig_data) = [replicate 32 9]" "account_inv (sd_bytes ex_sig_data)"
  by (simp_all add: account_inv_def account_entries_def ex_sig_data_def as_chunks_def SIGNATURE_HASH_SIZE_def)

theorem verifier_accepts_witness:
  "verifier_verify (\<lambda>_. replicate 32 9) \<lparr>ve_ed25519_data = None, ve_sigverify_data = Some ex_sig_data\<rparr> [1] [2] [3] = Ok True"
proof -
  let ?v = "\<lparr>ve_ed25519_data = None, ve_sigverify_data = Some ex_sig_data\<rparr>"
  obtain b where b: "verifier_verify (\<lambda>_. replicate 32 9) ?v [1] [2] [3] = Ok b"
    using find_sighash_iff[OF ex_sig_entries(2)]
    by (auto simp: verifier_verify_def check_sigverify_data_def ex_sig_data_def Let_def)
  have "new_ed25519 (\<lambda>_. replicate 32 9) [2] [3] [1] \<in> set (account_entries (sd_bytes ex_sig_data))"
    by (simp add: ex_sig_entries new_ed25519_def signature_hash_new_def)
  with verifier_accepts[OF _ b] ex_sig_entries(2) b show ?thesis by auto
qed

end
