(* ===== verification/Sig_Program.thy ===== *)
theory Sig_Program
  imports Sig_Account
begin

text \<open>
  The signature verifier program, \<^verbatim>\<open>solana/signature-verifier/src/program.rs\<close>: it creates
  the signatures account of a payer, adds the signatures that the instruction before
  has checked, and frees the account. What the Solana runtime does (rent, derived
  addresses, calls of the system program, resizing, the instructions sysvar) is the
  record \<open>runtime\<close>; the locale \<open>sig_runtime\<close> states what the program relies on.
\<close>

section \<open>Accounts and the runtime\<close>

record 'k account =
  ac_key :: 'k
  ac_owner :: 'k
  ac_lamports :: nat
  ac_data :: "byte list"
  ac_is_signer :: bool
  ac_is_writable :: bool

record 'k runtime =
  rt_rent :: "nat \<Rightarrow> nat option"
  rt_program_address :: "'k \<Rightarrow> byte list \<Rightarrow> 'k \<Rightarrow> 'k option"
  rt_create_account :: "nat \<Rightarrow> nat \<Rightarrow> 'k \<Rightarrow> 'k account \<times> 'k account \<Rightarrow> ('k account \<times> 'k account) option"
  rt_transfer :: "nat \<Rightarrow> 'k account \<times> 'k account \<Rightarrow> ('k account \<times> 'k account) option"
  rt_realloc :: "nat \<Rightarrow> 'k account \<Rightarrow> 'k account option"
  rt_prev_instruction :: "'k account \<Rightarrow> ('k \<times> byte list) option"
  rt_ed25519_id :: 'k
  rt_system_id :: 'k

record 'k prog_context =
  cx_program_id :: 'k
  cx_payer :: "'k account"
  cx_signatures :: "'k account"
  cx_seed_and_bump :: "byte list"

section \<open>Reading the instruction\<close>

definition read_bytes :: "nat \<Rightarrow> byte list \<Rightarrow> (program_error, byte list \<times> byte list) outcome" where
  "read_bytes n bytes = ok_or InvalidInstructionData (stdx_split_at n bytes)"

definition read_slice :: "byte list \<Rightarrow> nat \<Rightarrow> (program_error, byte list \<times> byte list) outcome" where
  "read_slice bytes len =
     (if length bytes < len then Err InvalidInstructionData else Ok (take len bytes, drop len bytes))"

definition context_get ::
  "'k runtime \<Rightarrow> 'k \<Rightarrow> 'k account list \<Rightarrow> byte list \<Rightarrow>
   (program_error, 'k prog_context \<times> 'k account list \<times> byte list) outcome" where
  "context_get rt program_id accounts instruction =
     (case accounts of
        payer # signatures # remaining \<Rightarrow>
          if \<not> ac_is_signer payer then Err MissingRequiredSignature
          else if \<not> ac_is_writable payer then Err InvalidAccountData
          else if \<not> ac_is_writable signatures then Err InvalidAccountData
          else
            bind_outcome (read_bytes 1 instruction) (\<lambda>(seed_len, instruction).
            bind_outcome (read_slice instruction (from_le seed_len + 1)) (\<lambda>(seed_and_bump, instruction).
              if rt_program_address rt (ac_key payer) seed_and_bump program_id = Some (ac_key signatures)
              then Ok (\<lparr>cx_program_id = program_id, cx_payer = payer, cx_signatures = signatures,
                        cx_seed_and_bump = seed_and_bump\<rparr>, remaining, instruction)
              else Err InvalidSeeds))
      | _ \<Rightarrow> Err NotEnoughAccountKeys)"

section \<open>The signatures account\<close>

definition initialise_signatures_account ::
  "'k runtime \<Rightarrow> 'k prog_context \<Rightarrow> (program_error, 'k prog_context) outcome" where
  "initialise_signatures_account rt cx =
     (if ac_lamports (cx_signatures cx) \<noteq> 0 then Ok cx
      else
        let siz = MAX_PERMITTED_DATA_INCREASE in
        bind_outcome (ok_or RuntimeFailed (rt_rent rt siz)) (\<lambda>required_lamports.
        bind_outcome (ok_or RuntimeFailed
            (rt_create_account rt required_lamports siz (cx_program_id cx) (cx_payer cx, cx_signatures cx)))
          (\<lambda>(payer, signatures). Ok (cx\<lparr>cx_payer := payer, cx_signatures := signatures\<rparr>))))"

definition free_signatures_account ::
  "'k runtime \<Rightarrow> 'k prog_context \<Rightarrow> (program_error, 'k prog_context) outcome" where
  "free_signatures_account rt cx =
     bind_outcome (ok_or ArithmeticOverflow
         (checked_add 64 (ac_lamports (cx_payer cx)) (ac_lamports (cx_signatures cx)))) (\<lambda>lamports.
       let payer = (cx_payer cx)\<lparr>ac_lamports := lamports\<rparr>;
           signatures = (cx_signatures cx)\<lparr>ac_lamports := 0, ac_owner := rt_system_id rt\<rparr>
       in bind_outcome (ok_or RuntimeFailed (rt_realloc rt 0 signatures)) (\<lambda>signatures.
            Ok (cx\<lparr>cx_payer := payer, cx_signatures := signatures\<rparr>)))"

definition enlarge_signatures_account ::
  "'k runtime \<Rightarrow> 'k prog_context \<Rightarrow> (program_error, 'k prog_context) outcome" where
  "enlarge_signatures_account rt cx =
     (let current_size = length (ac_data (cx_signatures cx));
          siz = min (current_size + MAX_PERMITTED_DATA_INCREASE) MAX_PERMITTED_DATA_LENGTH
      in if siz \<le> current_size then Ok cx
         else
           bind_outcome (ok_or RuntimeFailed (rt_rent rt siz)) (\<lambda>required_lamports.
             let lamports = required_lamports - ac_lamports (cx_signatures cx) in
             bind_outcome
               (if lamports > 0
                then ok_or RuntimeFailed (rt_transfer rt lamports (cx_payer cx, cx_signatures cx))
                else Ok (cx_payer cx, cx_signatures cx)) (\<lambda>(payer, signatures).
             bind_outcome (ok_or RuntimeFailed (rt_realloc rt siz signatures)) (\<lambda>signatures.
               Ok (cx\<lparr>cx_payer := payer, cx_signatures := signatures\<rparr>)))))"

section \<open>The instructions\<close>

text \<open>The loop over the signatures of the previous instruction; the state is context and counter.\<close>

definition store_signature ::
  "'k runtime \<Rightarrow> hash \<Rightarrow> 'k prog_context \<times> nat \<Rightarrow> (program_error, 'k prog_context \<times> nat) outcome" where
  "store_signature rt sig = (\<lambda>(cx, cnt).
     bind_outcome
       (write_signature (\<lambda>cx. ac_data (cx_signatures cx))
          (\<lambda>data cx. cx\<lparr>cx_signatures := (cx_signatures cx)\<lparr>ac_data := data\<rparr>\<rparr>)
          cnt sig (enlarge_signatures_account rt) cx) (\<lambda>cx.
     bind_outcome (ok_or ArithmeticOverflow (checked_add 32 cnt 1)) (\<lambda>cnt. Ok (cx, cnt))))"

fun process_items ::
  "('s \<Rightarrow> sig_entry \<Rightarrow> (program_error, 's) outcome) \<Rightarrow> (ed_error, sig_entry) outcome list \<Rightarrow> 's \<Rightarrow>
   (program_error, 's) outcome" where
  "process_items callback [] st = Ok st"
| "process_items callback (Ok e # items) st = bind_outcome (callback st e) (process_items callback items)"
| "process_items callback (Err UnsupportedFeature # items) st = process_items callback items st"
| "process_items callback (_ # items) st = Err InvalidInstructionData"

definition process_ed25519_instruction ::
  "'k runtime \<Rightarrow> ('s \<Rightarrow> sig_entry \<Rightarrow> (program_error, 's) outcome) \<Rightarrow> 'k \<times> byte list \<Rightarrow> 's \<Rightarrow>
   (program_error, 's) outcome" where
  "process_ed25519_instruction rt callback instruction st =
     (if fst instruction \<noteq> rt_ed25519_id rt then Ok st
      else
        (case parse_data (snd instruction) of
           Ok it \<Rightarrow> process_items callback (iter_items it) st
         | _ \<Rightarrow> Err InvalidInstructionData))"

definition handle_update ::
  "(byte list \<Rightarrow> hash) \<Rightarrow> 'k runtime \<Rightarrow> 'k prog_context \<Rightarrow> 'k account list \<Rightarrow> byte list \<Rightarrow>
   (program_error, 'k prog_context) outcome" where
  "handle_update d rt cx accounts instruction =
     bind_outcome
       (if instruction = [] then Ok (2 ^ 32 - 1)
        else if length instruction = 4 then Ok (from_le instruction)
        else Err InvalidInstructionData) (\<lambda>truncat.
     bind_outcome (initialise_signatures_account rt cx) (\<lambda>cx.
     bind_outcome (read_count (ac_data (cx_signatures cx))) (\<lambda>cnt.
       let cnt = min cnt truncat in
     bind_outcome (case accounts of [] \<Rightarrow> Err NotEnoughAccountKeys | a # _ \<Rightarrow> Ok a) (\<lambda>ix_sysvar.
     bind_outcome (ok_or RuntimeFailed (rt_prev_instruction rt ix_sysvar)) (\<lambda>prev_ix.
     bind_outcome (process_ed25519_instruction rt (\<lambda>st e. store_signature rt (entry_hash d e) st) prev_ix (cx, cnt))
       (\<lambda>(cx, cnt).
     bind_outcome (write_count_and_sort cnt (ac_data (cx_signatures cx))) (\<lambda>data.
       Ok (cx\<lparr>cx_signatures := (cx_signatures cx)\<lparr>ac_data := data\<rparr>\<rparr>))))))))"

definition process_instruction ::
  "(byte list \<Rightarrow> hash) \<Rightarrow> 'k runtime \<Rightarrow> 'k \<Rightarrow> 'k account list \<Rightarrow> byte list \<Rightarrow>
   (program_error, 'k prog_context) outcome" where
  "process_instruction d rt program_id accounts instruction =
     (case instruction of
        [] \<Rightarrow> Err InvalidInstructionData
      | tag # instruction \<Rightarrow>
          bind_outcome (context_get rt program_id accounts instruction) (\<lambda>(cx, accounts, instruction).
            if tag = 0 then handle_update d rt cx accounts instruction
            else if tag = 1 \<and> instruction = [] then free_signatures_account rt cx
            else Err InvalidInstructionData))"

section \<open>What the program relies on\<close>

locale sig_runtime =
  fixes rt :: "'k runtime"
  assumes create: "rt_create_account rt l n owner (p, s) = Some (p', s') \<Longrightarrow>
        ac_data s' = replicate n 0 \<and> ac_owner s' = owner \<and> ac_key s' = ac_key s"
    and transfer: "rt_transfer rt l (p, s) = Some (p', s') \<Longrightarrow>
        ac_data s' = ac_data s \<and> ac_owner s' = ac_owner s \<and> ac_key s' = ac_key s"
    and realloc: "rt_realloc rt n a = Some a' \<Longrightarrow>
        length (ac_data a') = n \<and> (length (ac_data a) \<le> n \<longrightarrow> (\<exists>pad. ac_data a' = ac_data a @ pad)) \<and>
        ac_owner a' = ac_owner a \<and> ac_key a' = ac_key a \<and> ac_lamports a' = ac_lamports a"

text \<open>The first \<open>cnt\<close> entries of the data of the signatures account.\<close>

abbreviation cx_data :: "'k prog_context \<Rightarrow> byte list" where
  "cx_data cx \<equiv> ac_data (cx_signatures cx)"

definition collected :: "'k prog_context \<times> nat \<Rightarrow> hash list \<Rightarrow> bool" where
  "collected st hs \<longleftrightarrow>
     4 \<le> length (cx_data (fst st)) \<and> snd st \<le> length (data_chunks (cx_data (fst st))) \<and> snd st < 2 ^ 32 \<and>
     take (snd st) (data_chunks (cx_data (fst st))) = hs"

text \<open>The signatures that an item list or an instruction asserts.\<close>

definition good_items :: "(ed_error, sig_entry) outcome list \<Rightarrow> sig_entry list" where
  "good_items items = List.map_filter (\<lambda>i. case i of Ok e \<Rightarrow> Some e | _ \<Rightarrow> None) items"

lemma good_items_simps [simp]:
  "good_items [] = []" "good_items (Ok e # items) = e # good_items items"
  "good_items (Err x # items) = good_items items" "good_items (Panic # items) = good_items items"
  by (simp_all add: good_items_def map_filter_simps)

definition checked_entries :: "'k runtime \<Rightarrow> 'k \<times> byte list \<Rightarrow> sig_entry list" where
  "checked_entries rt ix =
     (if fst ix \<noteq> rt_ed25519_id rt then []
      else case parse_data (snd ix) of Ok it \<Rightarrow> good_items (iter_items it) | _ \<Rightarrow> [])"

context sig_runtime
begin

lemma enlarge_grows:
  assumes "enlarge_signatures_account rt cx = Ok cx'"
  obtains pad where "cx_data cx' = cx_data cx @ pad"
proof (cases "min (length (cx_data cx) + MAX_PERMITTED_DATA_INCREASE) MAX_PERMITTED_DATA_LENGTH \<le> length (cx_data cx)")
  case True
  then show ?thesis using assms that[of "[]"] by (simp add: enlarge_signatures_account_def Let_def)
next
  case False
  let ?n = "min (length (cx_data cx) + MAX_PERMITTED_DATA_INCREASE) MAX_PERMITTED_DATA_LENGTH"
  obtain r p s s' where r: "(if r - ac_lamports (cx_signatures cx) > 0
        then ok_or RuntimeFailed (rt_transfer rt (r - ac_lamports (cx_signatures cx)) (cx_payer cx, cx_signatures cx))
        else Ok (cx_payer cx, cx_signatures cx)) = Ok (p, s)"
    and s': "rt_realloc rt ?n s = Some s'" "cx' = cx\<lparr>cx_payer := p, cx_signatures := s'\<rparr>"
    using assms False by (auto simp: enlarge_signatures_account_def Let_def bind_outcome_Ok ok_or_Ok)
  have "ac_data s = cx_data cx" using r transfer by (auto simp: ok_or_Ok split: if_splits)
  then show ?thesis using realloc[OF s'(1)] False that s'(2) by auto
qed

lemma store_signature_spec:
  assumes st: "collected st hs" and sig: "length sig = 32" and r: "store_signature rt sig st = Ok st'"
  shows "collected st' (hs @ [sig])"
proof -
  obtain cx cnt where s: "st = (cx, cnt)" by fastforce
  let ?a = "4 + 32 * cnt"
  have range: "sig_range cnt = Some (?a, ?a + 32)"
    using st by (simp add: s sig_range_def SIGNATURE_HASH_SIZE_def collected_def Let_def)
  obtain cx1 where e: "(if length (cx_data cx) < ?a + 32 then enlarge_signatures_account rt cx else Ok cx) = Ok cx1"
    and len: "?a + 32 \<le> length (cx_data cx1)" and cnt: "cnt + 1 < 2 ^ 32"
    and st': "st' = (cx1\<lparr>cx_signatures := (cx_signatures cx1)\<lparr>ac_data :=
        take ?a (cx_data cx1) @ sig @ drop (?a + 32) (cx_data cx1)\<rparr>\<rparr>, cnt + 1)"
    using r by (auto simp: s store_signature_def write_signature_def range bind_outcome_Ok ok_or_Ok checked_add_Some
        split: if_splits)
  obtain pad where pad: "cx_data cx1 = cx_data cx @ pad"
    using e enlarge_grows[of cx cx1] by (metis append_Nil2 outcome.inject(1))
  have old: "take cnt (data_chunks (cx_data cx1)) = hs"
    using chunks_after_growth[of cnt "cx_data cx" pad] st by (simp add: s collected_def pad)
  note w = chunks_after_write[OF sig len refl]
  have "cnt < length (data_chunks (cx_data cx1))" using len by (simp add: length_data_chunks less_eq_div_iff_mult_less_eq Suc_le_eq[symmetric])
  then show ?thesis using w old cnt len by (simp add: st' collected_def)
qed

lemma process_items_spec:
  assumes d: "\<And>x. length (d x) = 32"
  shows "process_items (\<lambda>st e. store_signature rt (entry_hash d e) st) items st = Ok st' \<Longrightarrow> collected st hs \<Longrightarrow>
    collected st' (hs @ map (entry_hash d) (good_items items))"
proof (induction items arbitrary: st hs)
  case (Cons i items)
  show ?case
  proof (cases i)
    case (Ok e)
    have len: "length (entry_hash d e) = 32" using d by (simp add: entry_hash_def new_ed25519_def signature_hash_new_def Let_def)
    obtain st1 where "store_signature rt (entry_hash d e) st = Ok st1"
        "process_items (\<lambda>st e. store_signature rt (entry_hash d e) st) items st1 = Ok st'"
      using Cons.prems(1) by (auto simp: Ok bind_outcome_Ok)
    with Cons.IH[of st1 "hs @ [entry_hash d e]"] store_signature_spec[OF Cons.prems(2) len] show ?thesis by (simp add: Ok)
  next
    case (Err x)
    then show ?thesis using Cons by (cases x) auto
  qed (use Cons in auto)
qed simp

lemma process_instruction_spec:
  assumes d: "\<And>x. length (d x) = 32"
    and r: "process_ed25519_instruction rt (\<lambda>st e. store_signature rt (entry_hash d e) st) ix st = Ok st'"
    and st: "collected st hs"
  shows "collected st' (hs @ map (entry_hash d) (checked_entries rt ix))"
  using r st process_items_spec[OF d]
  by (auto simp: process_ed25519_instruction_def checked_entries_def split: if_splits outcome.splits)

text \<open>Creating the account when it does not exist.\<close>

lemma initialise_spec:
  assumes r: "initialise_signatures_account rt cx = Ok cx'"
    and inv: "ac_lamports (cx_signatures cx) \<noteq> 0 \<Longrightarrow> account_inv (cx_data cx)"
  shows "account_inv (cx_data cx') \<and>
    account_entries (cx_data cx') = (if ac_lamports (cx_signatures cx) = 0 then [] else account_entries (cx_data cx))"
proof (cases "ac_lamports (cx_signatures cx) = 0")
  case True
  then obtain l p s where "rt_create_account rt l MAX_PERMITTED_DATA_INCREASE (cx_program_id cx) (cx_payer cx, cx_signatures cx) = Some (p, s)"
    "cx' = cx\<lparr>cx_payer := p, cx_signatures := s\<rparr>"
    using r by (auto simp: initialise_signatures_account_def bind_outcome_Ok ok_or_Ok Let_def)
  then have data: "cx_data cx' = replicate 10240 0" using create by (simp add: MAX_PERMITTED_DATA_INCREASE_def)
  have "from_le (take 4 (cx_data cx')) = 0" by (simp add: data numeral_eq_Suc)
  then show ?thesis using True by (simp add: account_inv_def account_entries_def) (simp add: data)
next
  case False
  then show ?thesis using r inv by (simp add: initialise_signatures_account_def)
qed

end

lemma sorted_entries_min:
  "take (min (from_le (take 4 data)) n) (data_chunks data) = take n (account_entries data)"
  by (simp add: account_entries_chunks min.commute)

context sig_runtime
begin

lemma handle_update_spec:
  assumes d: "\<And>x. length (d x) = 32"
    and r: "handle_update d rt cx (ix # others) instruction = Ok cx'"
    and inv: "ac_lamports (cx_signatures cx) \<noteq> 0 \<Longrightarrow> account_inv (cx_data cx)"
  obtains prev where "rt_prev_instruction rt ix = Some prev" "account_inv (cx_data cx')"
    "account_entries (cx_data cx') = sort (take (if instruction = [] then 2 ^ 32 - 1 else from_le instruction)
        (if ac_lamports (cx_signatures cx) = 0 then [] else account_entries (cx_data cx)) @
      map (entry_hash d) (checked_entries rt prev))"
proof -
  define tr where "tr = (if instruction = [] then 2 ^ 32 - 1 else from_le instruction)"
  have instr: "instruction = [] \<or> length instruction = 4"
    using r by (auto simp: handle_update_def split: if_splits)
  obtain cx1 cnt prev cx2 n data where
    i: "initialise_signatures_account rt cx = Ok cx1" and cnt: "read_count (cx_data cx1) = Ok cnt"
    and prev: "rt_prev_instruction rt ix = Some prev"
    and p: "process_ed25519_instruction rt (\<lambda>st e. store_signature rt (entry_hash d e) st) prev (cx1, min cnt tr) = Ok (cx2, n)"
    and w: "write_count_and_sort n (cx_data cx2) = Ok data"
    and cx': "cx' = cx2\<lparr>cx_signatures := (cx_signatures cx2)\<lparr>ac_data := data\<rparr>\<rparr>"
    using r instr by (auto simp: handle_update_def bind_outcome_Ok ok_or_Ok tr_def Let_def split: if_splits)
  note init = initialise_spec[OF i inv]
  have c: "cnt = from_le (take 4 (cx_data cx1))" "4 \<le> length (cx_data cx1)"
    using cnt by (auto simp: read_count_def stdx_split_at_def split_at_checked_def bind_outcome_Ok ok_or_Ok split: if_splits)
  have "cnt < 256 ^ length (take 4 (cx_data cx1))" unfolding c(1) by (rule from_le_bound)
  then have "cnt < 2 ^ 32" using c(2) by simp
  then have "collected (cx1, min cnt tr) (take tr (account_entries (cx_data cx1)))"
    using init c sorted_entries_min[of "cx_data cx1" tr]
    by (auto simp: collected_def account_inv_def data_chunks_def[symmetric])
  from process_instruction_spec[OF d p this]
  have st: "4 \<le> length (cx_data cx2)" "n \<le> length (data_chunks (cx_data cx2))" "n < 2 ^ 32"
    "take n (data_chunks (cx_data cx2)) = take tr (account_entries (cx_data cx1)) @ map (entry_hash d) (checked_entries rt prev)"
    by (simp_all add: collected_def)
  from write_count_and_sort_spec[OF st(3,1,2)] w have "account_inv data"
    "account_entries data = sort (take n (data_chunks (cx_data cx2)))" by (metis outcome.inject(1))+
  then show ?thesis using that[OF prev] st(4) init by (simp add: cx' tr_def)
qed

end

subsection \<open>A runtime\<close>

text \<open>A runtime on which rent is free, with numbers for addresses.\<close>

definition ex_runtime :: "nat runtime" where
  "ex_runtime =
     \<lparr>rt_rent = (\<lambda>_. Some 0),
      rt_program_address = (\<lambda>payer seeds program_id. Some (payer + 1)),
      rt_create_account = (\<lambda>lamports n owner (p, s). Some (p, s\<lparr>ac_data := replicate n 0, ac_owner := owner\<rparr>)),
      rt_transfer = (\<lambda>lamports (p, s). if lamports \<le> ac_lamports p
         then Some (p\<lparr>ac_lamports := ac_lamports p - lamports\<rparr>, s\<lparr>ac_lamports := ac_lamports s + lamports\<rparr>) else None),
      rt_realloc = (\<lambda>n a. Some (a\<lparr>ac_data := take n (ac_data a) @ replicate (n - length (ac_data a)) 0\<rparr>)),
      rt_prev_instruction = (\<lambda>a. Some (ac_owner a, ac_data a)),
      rt_ed25519_id = 7,
      rt_system_id = 0\<rparr>"

interpretation ex: sig_runtime ex_runtime
  by unfold_locales (auto simp: ex_runtime_def split: if_splits)

section \<open>Properties\<close>

text \<open>
  C30: a successful update leaves a well-formed signatures account that holds, in order, the
  signatures it had (up to the number the instruction keeps; none when the account is created)
  together with those that the Ed25519 instruction before has checked, and nothing else.
\<close>

theorem update_records_signatures:
  assumes "sig_runtime rt" and "\<forall>x. length (d x) = 32"
    and "context_get rt program_id accounts instruction = Ok (cx, ix # others, args)"
    and "ac_lamports (cx_signatures cx) = 0 \<or> account_inv (cx_data cx)"
    and "process_instruction d rt program_id accounts (0 # instruction) = Ok cx'"
  shows "\<exists>prev. rt_prev_instruction rt ix = Some prev \<and> account_inv (cx_data cx') \<and>
    mset (account_entries (cx_data cx')) =
      mset (take (if args = [] then 2 ^ 32 - 1 else from_le args)
        (if ac_lamports (cx_signatures cx) = 0 then [] else account_entries (cx_data cx))) +
      mset (map (entry_hash d) (checked_entries rt prev))"
proof -
  have "handle_update d rt cx (ix # others) args = Ok cx'" using assms(3,5) by (simp add: process_instruction_def)
  then obtain prev where "rt_prev_instruction rt ix = Some prev" "account_inv (cx_data cx')"
    "account_entries (cx_data cx') = sort (take (if args = [] then 2 ^ 32 - 1 else from_le args)
        (if ac_lamports (cx_signatures cx) = 0 then [] else account_entries (cx_data cx)) @
      map (entry_hash d) (checked_entries rt prev))"
    by (rule sig_runtime.handle_update_spec[OF assms(1), rotated]) (use assms(2,4) in auto)
  then show ?thesis by (simp only: mset_sort mset_append) blast
qed

text \<open>A payer creates the account and records one signature.\<close>

definition ex_entry :: sig_entry where
  "ex_entry = \<lparr>se_signature = replicate 64 1, se_pubkey = replicate 32 2, se_message = [7, 8]\<rparr>"

definition ex_account :: "nat \<Rightarrow> nat \<Rightarrow> byte list \<Rightarrow> nat account" where
  "ex_account key owner data = \<lparr>ac_key = key, ac_owner = owner, ac_lamports = 0, ac_data = data,
     ac_is_signer = True, ac_is_writable = True\<rparr>"

lemma from_le_zeros: "from_le (replicate n 0) = 0"
  by (induction n) auto

lemma ex_update:
  assumes "parse_data data = Ok it" "iter_items it = [Ok ex_entry]"
  shows "\<exists>cx'. process_instruction (\<lambda>_. replicate 32 9) ex_runtime 5
       [ex_account 1 0 [], ex_account 2 0 [], ex_account 3 7 data] [0, 0, 255] = Ok cx'"
proof -
  let ?d = "\<lambda>_ :: byte list. replicate 32 (9 :: byte)"
  let ?data = "replicate 4 0 @ replicate 32 9 @ replicate 10204 (0 :: byte)"
  have h: "entry_hash ?d ex_entry = replicate 32 9" by (simp add: entry_hash_def new_ed25519_def signature_hash_new_def)
  have cr: "initialise_signatures_account ex_runtime cx =
      Ok (cx\<lparr>cx_signatures := (cx_signatures cx)\<lparr>ac_data := replicate 10240 0, ac_owner := cx_program_id cx\<rparr>\<rparr>)"
    if "ac_lamports (cx_signatures cx) = 0" for cx
    using that by (simp add: initialise_signatures_account_def ex_runtime_def MAX_PERMITTED_DATA_INCREASE_def Let_def)
  have st: "store_signature ex_runtime (replicate 32 9) (cx, 0) =
      Ok (cx\<lparr>cx_signatures := (cx_signatures cx)\<lparr>ac_data := ?data\<rparr>\<rparr>, 1)" if "cx_data cx = replicate 10240 0" for cx
    using that by (simp add: store_signature_def write_signature_def sig_range_def SIGNATURE_HASH_SIZE_def checked_add_def Let_def)
  have rd: "read_count (replicate 10240 0) = Ok 0"
    by (simp add: read_count_def stdx_split_at_def split_at_checked_def from_le_zeros)
  obtain data' where "write_count_and_sort 1 ?data = Ok data'"
    by (rule write_count_and_sort_spec[of 1 ?data]) (simp_all add: length_data_chunks)
  then show ?thesis
    using assms h cr st rd
    by (simp add: process_instruction_def context_get_def read_bytes_def read_slice_def stdx_split_at_def split_at_checked_def
        handle_update_def ex_account_def process_ed25519_instruction_def) (simp add: ex_runtime_def)
qed

theorem update_records_signatures_witness:
  "\<exists>data cx'. process_instruction (\<lambda>_. replicate 32 9) ex_runtime 5
       [ex_account 1 0 [], ex_account 2 0 [], ex_account 3 7 data] [0, 0, 255] = Ok cx' \<and>
     account_inv (cx_data cx') \<and> account_entries (cx_data cx') = [replicate 32 9]"
proof -
  let ?d = "\<lambda>_ :: byte list. replicate 32 (9 :: byte)"
  obtain data it where d: "parse_data data = Ok it" "iter_items it = [Ok ex_entry]"
    using new_instruction_parsed[of "[ex_entry]"] by (auto simp: ex_entry_def)
  obtain cx' where cx': "process_instruction ?d ex_runtime 5
       [ex_account 1 0 [], ex_account 2 0 [], ex_account 3 7 data] [0, 0, 255] = Ok cx'"
    using ex_update[OF d] by blast
  have cx: "context_get ex_runtime 5 [ex_account 1 0 [], ex_account 2 0 [], ex_account 3 7 data] [0, 255] =
      Ok (\<lparr>cx_program_id = 5, cx_payer = ex_account 1 0 [], cx_signatures = ex_account 2 0 [], cx_seed_and_bump = [255]\<rparr>,
        [ex_account 3 7 data], [])"
    by (simp add: context_get_def read_bytes_def read_slice_def stdx_split_at_def split_at_checked_def ex_account_def ex_runtime_def)
  have "checked_entries ex_runtime (7, data) = [ex_entry]" "rt_prev_instruction ex_runtime (ex_account 3 7 data) = Some (7, data)"
    by (simp_all add: checked_entries_def d) (simp_all add: ex_runtime_def ex_account_def)
  with update_records_signatures[OF ex.sig_runtime_axioms _ cx _ cx']
  have "account_inv (cx_data cx')" "mset (account_entries (cx_data cx')) = {#replicate 32 9#}"
    by (auto simp: ex_account_def entry_hash_def new_ed25519_def signature_hash_new_def)
  with cx' show ?thesis by auto
qed

end
