(* ===== verification/Client_Context.thy ===== *)
theory Client_Context
  imports Memory Trie_Ids "HOL-Library.Product_Lexorder"
begin

text \<open>
  What the light clients of \<^verbatim>\<open>common/cf-guest\<close> and \<^verbatim>\<open>common/cf-solana\<close> ask of the chain they
  run on, the trait \<open>CommonContext\<close>. Its methods are the fields of the record
  \<open>client_ctx\<close>, an argument of the operations of a client; the contract a
  client relies on is the locale \<open>client_context\<close>, which the storage of the IBC
  program satisfies. Heights of the ibc crate are pairs of a revision number and a
  revision height in lexicographic order, time stamps are numbers of nanoseconds, and errors
  carry the identifiers but not the messages.
\<close>

section \<open>Types of the ibc crate\<close>

type_synonym ibc_height = "64 word \<times> 64 word"
type_synonym client_id = string

datatype client_error =
  ClientStateNotFound client_id
| ConsensusStateNotFound client_id ibc_height
| InvalidHeight
| InvalidProofHeight ibc_height ibc_height
| InvalidCommitmentProof
| MissingLocalConsensusState ibc_height
| UnknownClientStateType string
| UnknownConsensusStateType string
| UpgradeNotSupported
| ClientSpecific
| ClientOther

datatype client_status = Active | Frozen | Expired

text \<open>\<open>ibc::Height::new\<close> refuses the height zero.\<close>

definition height_new :: "64 word \<Rightarrow> 64 word \<Rightarrow> (client_error, ibc_height) outcome" where
  "height_new number hgt = (if hgt = 0 then Err InvalidHeight else Ok (number, hgt))"

section \<open>The context\<close>

datatype 'a neighbourhood = This 'a | Neighbours "'a option" "'a option"

definition neighbourhood_default :: "'a neighbourhood" where
  "neighbourhood_default = Neighbours None None"

definition nb_map :: "('a \<Rightarrow> 'b) \<Rightarrow> 'a neighbourhood \<Rightarrow> 'b neighbourhood" where
  "nb_map f nb =
     (case nb of This x \<Rightarrow> This (f x) | Neighbours p n \<Rightarrow> Neighbours (map_option f p) (map_option f n))"

text \<open>\<open>opt.map(f).transpose()\<close>\<close>

definition transpose_map :: "('a \<Rightarrow> ('e, 'b) outcome) \<Rightarrow> 'a option \<Rightarrow> ('e, 'b option) outcome" where
  "transpose_map f x =
     (case x of None \<Rightarrow> Ok None | Some a \<Rightarrow> bind_outcome (f a) (\<lambda>b. Ok (Some b)))"

definition nb_try_map :: "('a \<Rightarrow> ('e, 'b) outcome) \<Rightarrow> 'a neighbourhood \<Rightarrow> ('e, 'b neighbourhood) outcome" where
  "nb_try_map f nb =
     (case nb of
        This x \<Rightarrow> bind_outcome (f x) (\<lambda>y. Ok (This y))
      | Neighbours p n \<Rightarrow>
          bind_outcome (transpose_map f p) (\<lambda>p. bind_outcome (transpose_map f n) (\<lambda>n. Ok (Neighbours p n))))"

record ('s, 'cs, 'co) client_ctx =
  cc_host_metadata :: "'s \<Rightarrow> (client_error, nat \<times> ibc_height) outcome"
  cc_set_client_state :: "client_id \<Rightarrow> 'cs \<Rightarrow> ('s, client_error, unit) stateful"
  cc_consensus_state :: "'s \<Rightarrow> client_id \<Rightarrow> ibc_height \<Rightarrow> (client_error, 'co) outcome"
  cc_neighbourhood :: "'s \<Rightarrow> client_id \<Rightarrow> ibc_height \<Rightarrow> (client_error, 'co neighbourhood) outcome"
  cc_store_consensus_state ::
    "client_id \<Rightarrow> ibc_height \<Rightarrow> 'co \<Rightarrow> nat \<Rightarrow> ibc_height \<Rightarrow> ('s, client_error, unit) stateful"
  cc_delete_consensus_state :: "client_id \<Rightarrow> ibc_height \<Rightarrow> ('s, client_error, unit) stateful"
  cc_earliest :: "'s \<Rightarrow> client_id \<Rightarrow> (client_error, (ibc_height \<times> 'co) option) outcome"

section \<open>Its contract\<close>

text \<open>The entries next to a height that has none.\<close>

definition entry_below :: "(('k :: linorder) \<rightharpoonup> 'v) \<Rightarrow> 'k \<Rightarrow> 'v option \<Rightarrow> bool" where
  "entry_below m h e \<longleftrightarrow>
     (case e of
        None \<Rightarrow> \<forall>k < h. m k = None
      | Some v \<Rightarrow> \<exists>k < h. m k = Some v \<and> (\<forall>j. k < j \<and> j < h \<longrightarrow> m j = None))"

definition entry_above :: "(('k :: linorder) \<rightharpoonup> 'v) \<Rightarrow> 'k \<Rightarrow> 'v option \<Rightarrow> bool" where
  "entry_above m h e \<longleftrightarrow>
     (case e of
        None \<Rightarrow> \<forall>k > h. m k = None
      | Some v \<Rightarrow> \<exists>k > h. m k = Some v \<and> (\<forall>j. h < j \<and> j < k \<longrightarrow> m j = None))"

text \<open>
  \<open>states s c\<close> are the consensus states kept for the client \<open>c\<close> and \<open>clients s\<close> the
  client states. A store may drop states of other heights, to bound their number.
\<close>

locale client_context =
  fixes ctx :: "('s, 'cs, 'co) client_ctx"
    and cinv :: "'s \<Rightarrow> bool"
    and clients :: "'s \<Rightarrow> client_id \<rightharpoonup> 'cs"
    and states :: "'s \<Rightarrow> client_id \<Rightarrow> ibc_height \<rightharpoonup> 'co"
  assumes known: "cinv s \<Longrightarrow> states s cid h = Some c \<Longrightarrow> clients s cid \<noteq> None"
    and consensus_Some: "cinv s \<Longrightarrow> states s cid h = Some c \<Longrightarrow> cc_consensus_state ctx s cid h = Ok c"
    and consensus_None: "cinv s \<Longrightarrow> states s cid h = None \<Longrightarrow>
      cc_consensus_state ctx s cid h =
        Err (if clients s cid = None then ClientStateNotFound cid else ConsensusStateNotFound cid h)"
    and nb_this: "cinv s \<Longrightarrow> states s cid h = Some c \<Longrightarrow> cc_neighbourhood ctx s cid h = Ok (This c)"
    and nb_neighbours: "cinv s \<Longrightarrow> clients s cid \<noteq> None \<Longrightarrow> states s cid h = None \<Longrightarrow>
      \<exists>p n. cc_neighbourhood ctx s cid h = Ok (Neighbours p n) \<and>
        entry_below (states s cid) h p \<and> entry_above (states s cid) h n"
    and set_client: "cinv s \<Longrightarrow> cc_set_client_state ctx cid cs s = (s', Ok ()) \<Longrightarrow>
      cinv s' \<and> clients s' = (clients s)(cid \<mapsto> cs) \<and> states s' = states s"
    and store_consensus: "cinv s \<Longrightarrow> cc_store_consensus_state ctx cid h c t hh s = (s', Ok ()) \<Longrightarrow>
      cinv s' \<and> clients s' = clients s \<and> states s' cid h = Some c \<and>
      states s' cid \<subseteq>\<^sub>m (states s cid)(h \<mapsto> c) \<and> (\<forall>i. i \<noteq> cid \<longrightarrow> states s' i = states s i)"
    and delete_consensus: "cinv s \<Longrightarrow> cc_delete_consensus_state ctx cid h s = (s', Ok ()) \<Longrightarrow>
      cinv s' \<and> clients s' = clients s \<and> states s' = (states s)(cid := (states s cid)(h := None))"
    and earliest: "cinv s \<Longrightarrow> cc_earliest ctx s cid = Ok (Some (h, c)) \<Longrightarrow> states s cid h = Some c"
begin

lemma consensus_Ok: "cinv s \<Longrightarrow> cc_consensus_state ctx s cid h = Ok c \<longleftrightarrow> states s cid h = Some c"
  by (cases "states s cid h") (simp_all add: consensus_Some consensus_None)

lemma consensus_total: "cinv s \<Longrightarrow> cc_consensus_state ctx s cid h \<noteq> Panic"
  by (cases "states s cid h") (simp_all add: consensus_Some consensus_None)

text \<open>The neighbourhood of a height tells which height is there, or which are next to it.\<close>

lemma neighbourhood_cases:
  assumes "cinv s" "cc_neighbourhood ctx s cid h = Ok nb" "clients s cid \<noteq> None"
  obtains c where "nb = This c" "states s cid h = Some c"
  | p n where "nb = Neighbours p n" "states s cid h = None" "entry_below (states s cid) h p" "entry_above (states s cid) h n"
  using nb_this[OF assms(1), of cid h] nb_neighbours[OF assms(1,3), of h] assms(2) by (cases "states s cid h") auto

end

lemma entry_belowD:
  assumes "entry_below m h e" "m k = Some v" "k < h"
  obtains j w where "e = Some w" "m j = Some w" "k \<le> j" "j < h"
  using assms by (cases e) (auto simp: entry_below_def, metis linorder_not_less option.distinct(1))

lemma entry_aboveD:
  assumes "entry_above m h e" "m k = Some v" "h < k"
  obtains j w where "e = Some w" "m j = Some w" "j \<le> k" "h < j"
  using assms by (cases e) (auto simp: entry_above_def, metis linorder_not_less option.distinct(1))

end
