(* ===== verification/Guest_Client.thy ===== *)
theory Guest_Client
  imports Client_Context Guest_Proof Guest_Manager
begin

text \<open>
  The light client of the guest chain, \<^verbatim>\<open>common/cf-guest/src/{client,header,consensus,misbehaviour,message}.rs\<close>
  and \<^verbatim>\<open>client/impls.rs\<close>: client states, headers with the signatures of validators, their
  verification, the detection of misbehaviour and the update of a client through the context
  of the chain it runs on. The protobuf messages are records of their fields; their wire
  format, borsh and the verification of a signature are parameters. A header that is accepted was
  signed by a quorum of an epoch the client knows, the client follows the chain manager
  from block to block, and the time stamps it stores grow with the height.
\<close>

section \<open>Client and consensus states\<close>

record guest_client =
  gc_genesis_hash :: hash
  gc_latest_height :: height
  gc_trusting_period_ns :: nat
  gc_epoch_commitment :: hash
  gc_prev_epoch_commitment :: hash
  gc_is_frozen :: bool

definition guest_client_new :: "hash \<Rightarrow> height \<Rightarrow> nat \<Rightarrow> hash \<Rightarrow> hash option \<Rightarrow> bool \<Rightarrow> guest_client" where
  "guest_client_new genesis_hash latest_height trusting_period_ns epoch_commitment prev_epoch_commitment is_frozen =
     \<lparr>gc_genesis_hash = genesis_hash, gc_latest_height = latest_height,
      gc_trusting_period_ns = trusting_period_ns, gc_epoch_commitment = epoch_commitment,
      gc_prev_epoch_commitment = unwrap_or prev_epoch_commitment epoch_commitment, gc_is_frozen = is_frozen\<rparr>"

record guest_consensus =
  co_block_hash :: "byte list"
  co_timestamp_ns :: nat

record ('pk, 'sig) guest_header =
  gh_genesis_hash :: hash
  gh_block_hash :: hash
  gh_block_header :: block_header
  gh_epoch_commitment :: hash
  gh_epoch :: "'pk epoch"
  gh_signatures :: "(nat \<times> 'sig) list"

definition guest_header_new ::
  "'pk crypto \<Rightarrow> hash \<Rightarrow> block_header \<Rightarrow> 'pk epoch \<Rightarrow> (nat \<times> 'sig) list \<Rightarrow> ('pk, 'sig) guest_header" where
  "guest_header_new X genesis_hash block_header epoch signatures =
     \<lparr>gh_genesis_hash = genesis_hash, gh_block_hash = calc_hash X block_header, gh_block_header = block_header,
      gh_epoch_commitment = calc_commitment X epoch, gh_epoch = epoch, gh_signatures = signatures\<rparr>"

definition consensus_from_header :: "('pk, 'sig) guest_header \<Rightarrow> guest_consensus" where
  "consensus_from_header hdr =
     \<lparr>co_block_hash = gh_block_hash hdr, co_timestamp_ns = bh_timestamp_ns (gh_block_header hdr)\<rparr>"

definition with_header :: "('pk, 'sig) guest_header \<Rightarrow> guest_client \<Rightarrow> guest_client" where
  "with_header hdr this =
     (if gc_latest_height this < bh_block_height (gh_block_header hdr)
      then
        (let this = this\<lparr>gc_latest_height := bh_block_height (gh_block_header hdr)\<rparr> in
         case bh_next_epoch_commitment (gh_block_header hdr) of
           None \<Rightarrow> this
         | Some nxt \<Rightarrow>
             this\<lparr>gc_prev_epoch_commitment := gc_epoch_commitment this, gc_epoch_commitment := nxt\<rparr>)
      else this)"

definition frozen :: "guest_client \<Rightarrow> guest_client" where
  "frozen this = this\<lparr>gc_is_frozen := True\<rparr>"

section \<open>Protobuf messages\<close>

datatype bad_message = BadMessage

record proto_client_state =
  pcs_genesis_hash :: "byte list"
  pcs_latest_height :: nat
  pcs_trusting_period_ns :: nat
  pcs_epoch_commitment :: "byte list"
  pcs_prev_epoch_commitment :: "byte list"
  pcs_is_frozen :: bool

definition client_to_proto :: "guest_client \<Rightarrow> proto_client_state" where
  "client_to_proto state =
     \<lparr>pcs_genesis_hash = gc_genesis_hash state, pcs_latest_height = gc_latest_height state,
      pcs_trusting_period_ns = gc_trusting_period_ns state, pcs_epoch_commitment = gc_epoch_commitment state,
      pcs_prev_epoch_commitment =
        (if gc_prev_epoch_commitment state = gc_epoch_commitment state then [] else gc_prev_epoch_commitment state),
      pcs_is_frozen = gc_is_frozen state\<rparr>"

definition make_hash :: "byte list \<Rightarrow> (bad_message, hash) outcome" where
  "make_hash bs = (if length bs = 32 then Ok bs else Err BadMessage)"

definition client_from_proto :: "proto_client_state \<Rightarrow> (bad_message, guest_client) outcome" where
  "client_from_proto msg =
     bind_outcome (make_hash (pcs_genesis_hash msg)) (\<lambda>genesis_hash.
     bind_outcome (make_hash (pcs_epoch_commitment msg)) (\<lambda>epoch_commitment.
     bind_outcome
       (if pcs_prev_epoch_commitment msg = [] then Ok epoch_commitment
        else make_hash (pcs_prev_epoch_commitment msg)) (\<lambda>prev_epoch_commitment.
       Ok \<lparr>gc_genesis_hash = genesis_hash, gc_latest_height = pcs_latest_height msg,
           gc_trusting_period_ns = pcs_trusting_period_ns msg, gc_epoch_commitment = epoch_commitment,
           gc_prev_epoch_commitment = prev_epoch_commitment, gc_is_frozen = pcs_is_frozen msg\<rparr>)))"

record proto_consensus_state =
  pco_block_hash :: "byte list"
  pco_timestamp_ns :: nat

definition consensus_to_proto :: "guest_consensus \<Rightarrow> proto_consensus_state" where
  "consensus_to_proto state = \<lparr>pco_block_hash = co_block_hash state, pco_timestamp_ns = co_timestamp_ns state\<rparr>"

definition consensus_from_proto :: "proto_consensus_state \<Rightarrow> (bad_message, guest_consensus) outcome" where
  "consensus_from_proto msg =
     bind_outcome (make_hash (pco_block_hash msg)) (\<lambda>block_hash.
       if pco_timestamp_ns msg = 0 then Err BadMessage
       else Ok \<lparr>co_block_hash = block_hash, co_timestamp_ns = pco_timestamp_ns msg\<rparr>)"

record proto_header =
  ph_genesis_hash :: "byte list"
  ph_block_header :: "byte list"
  ph_epoch :: "byte list"
  ph_signatures :: "(nat \<times> byte list) list"

text \<open>
  Decoders of borsh for a whole byte string, and the bytes of a signature. An epoch is
  read as its validators and its quorum and made by \<open>Epoch::new\<close>.
\<close>

record ('pk, 'sig) header_codec =
  hc_header :: "byte list \<Rightarrow> block_header option"
  hc_epoch :: "byte list \<Rightarrow> ('pk validator list \<times> nat) option"
  hc_sig_bytes :: "'sig \<Rightarrow> byte list"
  hc_sig_from :: "byte list \<Rightarrow> 'sig option"

definition epoch_deserialize :: "('pk, 'sig) header_codec \<Rightarrow> byte list \<Rightarrow> 'pk epoch option" where
  "epoch_deserialize C bs =
     Option.bind (hc_epoch C bs) (\<lambda>(validators, quorum_stake). epoch_new validators quorum_stake)"

definition header_to_proto ::
  "'pk crypto \<Rightarrow> ('pk, 'sig) header_codec \<Rightarrow> ('pk, 'sig) guest_header \<Rightarrow> proto_header" where
  "header_to_proto X C hdr =
     \<lparr>ph_genesis_hash = gh_genesis_hash hdr, ph_block_header = cr_header X (gh_block_header hdr),
      ph_epoch = cr_epoch X (gh_epoch hdr),
      ph_signatures = map (\<lambda>(index, signature). (index, hc_sig_bytes C signature)) (gh_signatures hdr)\<rparr>"

fun signatures_from_proto ::
  "('pk, 'sig) header_codec \<Rightarrow> (nat \<times> byte list) list \<Rightarrow> (bad_message, (nat \<times> 'sig) list) outcome" where
  "signatures_from_proto C [] = Ok []"
| "signatures_from_proto C ((index, bytes) # rest) =
     (if index < 2 ^ 16 then
        bind_outcome (ok_or BadMessage (hc_sig_from C bytes)) (\<lambda>signature.
        bind_outcome (signatures_from_proto C rest) (\<lambda>sigs. Ok ((index, signature) # sigs)))
      else Err BadMessage)"

definition header_try_from_impl ::
  "'pk crypto \<Rightarrow> ('pk, 'sig) header_codec \<Rightarrow> proto_header \<Rightarrow> ('pk, 'sig) guest_header option \<Rightarrow>
   (bad_message, ('pk, 'sig) guest_header) outcome" where
  "header_try_from_impl X C msg base =
     bind_outcome
       (if ph_genesis_hash msg = [] then bind_outcome (ok_or BadMessage base) (\<lambda>base. Ok (gh_genesis_hash base))
        else make_hash (ph_genesis_hash msg)) (\<lambda>genesis_hash.
     bind_outcome (ok_or BadMessage (hc_header C (ph_block_header msg))) (\<lambda>block_header.
     bind_outcome
       (if ph_epoch msg = [] then
          bind_outcome (ok_or BadMessage base) (\<lambda>base. Ok (gh_epoch_commitment base, gh_epoch base))
        else
          bind_outcome (ok_or BadMessage (epoch_deserialize C (ph_epoch msg))) (\<lambda>epoch.
            Ok (cr_digest X (ph_epoch msg), epoch))) (\<lambda>(epoch_commitment, epoch).
     bind_outcome (signatures_from_proto C (ph_signatures msg)) (\<lambda>signatures.
       Ok \<lparr>gh_genesis_hash = genesis_hash, gh_block_hash = cr_digest X (ph_block_header msg),
           gh_block_header = block_header, gh_epoch_commitment = epoch_commitment, gh_epoch = epoch,
           gh_signatures = signatures\<rparr>))))"

definition header_try_from_proto ::
  "'pk crypto \<Rightarrow> ('pk, 'sig) header_codec \<Rightarrow> proto_header \<Rightarrow> (bad_message, ('pk, 'sig) guest_header) outcome" where
  "header_try_from_proto X C msg = header_try_from_impl X C msg None"

definition header_try_from_proto_inherit ::
  "'pk crypto \<Rightarrow> ('pk, 'sig) header_codec \<Rightarrow> proto_header \<Rightarrow> ('pk, 'sig) guest_header \<Rightarrow>
   (bad_message, ('pk, 'sig) guest_header) outcome" where
  "header_try_from_proto_inherit X C msg base = header_try_from_impl X C msg (Some base)"

record ('pk, 'sig) guest_misbehaviour =
  mb_header1 :: "('pk, 'sig) guest_header"
  mb_header2 :: "('pk, 'sig) guest_header"

record proto_misbehaviour =
  pmb_header1 :: "proto_header option"
  pmb_header2 :: "proto_header option"

definition misbehaviour_to_proto ::
  "'pk crypto \<Rightarrow> ('pk, 'sig) header_codec \<Rightarrow> ('pk, 'sig) guest_misbehaviour \<Rightarrow> proto_misbehaviour" where
  "misbehaviour_to_proto X C msg =
     (let header1 = header_to_proto X C (mb_header1 msg);
          header2 = header_to_proto X C (mb_header2 msg);
          header2 = (if ph_genesis_hash header1 = ph_genesis_hash header2 then header2\<lparr>ph_genesis_hash := []\<rparr> else header2);
          header2 = (if ph_epoch header1 = ph_epoch header2 then header2\<lparr>ph_epoch := []\<rparr> else header2)
      in \<lparr>pmb_header1 = Some header1, pmb_header2 = Some header2\<rparr>)"

definition misbehaviour_try_from_proto ::
  "'pk crypto \<Rightarrow> ('pk, 'sig) header_codec \<Rightarrow> proto_misbehaviour \<Rightarrow>
   (bad_message, ('pk, 'sig) guest_misbehaviour) outcome" where
  "misbehaviour_try_from_proto X C msg =
     bind_outcome (ok_or BadMessage (pmb_header1 msg)) (\<lambda>h1.
     bind_outcome (header_try_from_proto X C h1) (\<lambda>header1.
     bind_outcome (ok_or BadMessage (pmb_header2 msg)) (\<lambda>h2.
     bind_outcome (header_try_from_proto_inherit X C h2 header1) (\<lambda>header2.
       Ok \<lparr>mb_header1 = header1, mb_header2 = header2\<rparr>))))"

datatype ('pk, 'sig) client_message =
  HeaderMsg "('pk, 'sig) guest_header"
| MisbehaviourMsg "('pk, 'sig) guest_misbehaviour"

datatype proto_client_message = ProtoHeader proto_header | ProtoMisbehaviour proto_misbehaviour

definition message_to_proto ::
  "'pk crypto \<Rightarrow> ('pk, 'sig) header_codec \<Rightarrow> ('pk, 'sig) client_message \<Rightarrow> proto_client_message" where
  "message_to_proto X C msg =
     (case msg of
        HeaderMsg h \<Rightarrow> ProtoHeader (header_to_proto X C h)
      | MisbehaviourMsg m \<Rightarrow> ProtoMisbehaviour (misbehaviour_to_proto X C m))"

definition message_try_from ::
  "'pk crypto \<Rightarrow> ('pk, 'sig) header_codec \<Rightarrow> proto_client_message option \<Rightarrow>
   (bad_message, ('pk, 'sig) client_message) outcome" where
  "message_try_from X C msg =
     (case msg of
        None \<Rightarrow> Err BadMessage
      | Some (ProtoHeader h) \<Rightarrow> bind_outcome (header_try_from_proto X C h) (\<lambda>h. Ok (HeaderMsg h))
      | Some (ProtoMisbehaviour m) \<Rightarrow>
          bind_outcome (misbehaviour_try_from_proto X C m) (\<lambda>m. Ok (MisbehaviourMsg m)))"

section \<open>The client\<close>

definition GUEST_CLIENT_TYPE :: string where "GUEST_CLIENT_TYPE = ''cf-guest''"

definition parse_client_id :: "client_id \<Rightarrow> (client_error, client_idx) outcome" where
  "parse_client_id cid =
     (case client_idx_parse cid of
        Ok (ty, idx) \<Rightarrow> if ty = GUEST_CLIENT_TYPE then Ok idx else Err ClientSpecific
      | _ \<Rightarrow> Err ClientSpecific)"

definition u64 :: "nat \<Rightarrow> 64 word" where "u64 n = word_of_nat n"

text \<open>\<open>unwrap\<close> on a height: the height zero panics.\<close>

definition latest_height :: "guest_client \<Rightarrow> (client_error, ibc_height) outcome" where
  "latest_height cs = (case height_new 1 (u64 (gc_latest_height cs)) of Ok h \<Rightarrow> Ok h | _ \<Rightarrow> Panic)"

definition validate_proof_height :: "guest_client \<Rightarrow> ibc_height \<Rightarrow> (client_error, unit) outcome" where
  "validate_proof_height cs proof_height =
     bind_outcome (latest_height cs) (\<lambda>latest_height.
       if proof_height \<le> latest_height then Ok () else Err (InvalidProofHeight latest_height proof_height))"

text \<open>The prefix is not looked at; all errors of the verifier become one kind of error.\<close>

definition verify_membership ::
  "base64 \<Rightarrow> borsh_codec \<Rightarrow> 'pk crypto \<Rightarrow> wire \<Rightarrow> byte list \<Rightarrow> byte list \<Rightarrow> 'u ibc_path \<Rightarrow> byte list \<Rightarrow>
   (client_error, unit) outcome" where
  "verify_membership b64 codec X W proof_bytes root path val =
     map_error (\<lambda>_. InvalidCommitmentProof) (verify_for_block b64 codec X W [] proof_bytes root path (Some val))"

definition verify_non_membership ::
  "base64 \<Rightarrow> borsh_codec \<Rightarrow> 'pk crypto \<Rightarrow> wire \<Rightarrow> byte list \<Rightarrow> byte list \<Rightarrow> 'u ibc_path \<Rightarrow>
   (client_error, unit) outcome" where
  "verify_non_membership b64 codec X W proof_bytes root path =
     map_error (\<lambda>_. InvalidCommitmentProof) (verify_for_block b64 codec X W [] proof_bytes root path None)"

subsection \<open>Verification of headers\<close>

text \<open>
  The loop over the signatures: \<open>validators\<close> holds the validators that have not signed yet,
  \<open>quorum_left\<close> the stake that is missing.
\<close>

fun verify_signatures ::
  "(byte list \<Rightarrow> 'pk \<Rightarrow> 'sig \<Rightarrow> bool) \<Rightarrow> fingerprint \<Rightarrow> 'pk validator option list \<Rightarrow> nat \<Rightarrow>
   (nat \<times> 'sig) list \<Rightarrow> (client_error, unit) outcome" where
  "verify_signatures verify fp validators quorum_left [] = Err ClientOther"
| "verify_signatures verify fp validators quorum_left ((idx, sig) # sigs) =
     (if idx < length validators then
        (case validators ! idx of
           None \<Rightarrow> Err ClientOther
         | Some validator \<Rightarrow>
             if \<not> verify fp (va_pubkey validator) sig then Err ClientOther
             else
               (let quorum_left = quorum_left - va_stake validator in
                if quorum_left = 0 then Ok ()
                else verify_signatures verify fp (validators[idx := None]) quorum_left sigs))
      else Err ClientOther)"

definition verify_header ::
  "(byte list \<Rightarrow> 'pk \<Rightarrow> 'sig \<Rightarrow> bool) \<Rightarrow> guest_client \<Rightarrow> ('pk, 'sig) guest_header \<Rightarrow> (client_error, unit) outcome" where
  "verify_header verify cs hdr =
     (if gh_genesis_hash hdr \<noteq> gc_genesis_hash cs then Err ClientOther
      else if gh_epoch_commitment hdr \<noteq> gc_epoch_commitment cs \<and>
              gh_epoch_commitment hdr \<noteq> gc_prev_epoch_commitment cs
      then Err ClientOther
      else
        (let fp = fingerprint_from_hash (gh_genesis_hash hdr) (bh_block_height (gh_block_header hdr)) (gh_block_hash hdr)
         in verify_signatures verify fp (map Some (ep_validators (gh_epoch hdr)))
              (ep_quorum_stake (gh_epoch hdr)) (gh_signatures hdr)))"

definition verify_misbehaviour ::
  "(byte list \<Rightarrow> 'pk \<Rightarrow> 'sig \<Rightarrow> bool) \<Rightarrow> guest_client \<Rightarrow> ('pk, 'sig) guest_misbehaviour \<Rightarrow>
   (client_error, unit) outcome" where
  "verify_misbehaviour verify cs mb =
     (if gh_genesis_hash (mb_header1 mb) \<noteq> gh_genesis_hash (mb_header2 mb) then Err ClientOther
      else bind_outcome (verify_header verify cs (mb_header1 mb)) (\<lambda>_. verify_header verify cs (mb_header2 mb)))"

definition do_verify_client_message ::
  "(byte list \<Rightarrow> 'pk \<Rightarrow> 'sig \<Rightarrow> bool) \<Rightarrow> guest_client \<Rightarrow> ('pk, 'sig) client_message \<Rightarrow>
   (client_error, unit) outcome" where
  "do_verify_client_message verify cs msg =
     (case msg of
        HeaderMsg hdr \<Rightarrow> verify_header verify cs hdr
      | MisbehaviourMsg mb \<Rightarrow> verify_misbehaviour verify cs mb)"

subsection \<open>Misbehaviour\<close>

text \<open>Conversions between the states of this client and those of all clients of the chain.\<close>

record ('cs, 'co) guest_conv =
  gv_from_client :: "guest_client \<Rightarrow> 'cs"
  gv_from_consensus :: "guest_consensus \<Rightarrow> 'co"
  gv_into_consensus :: "'co \<Rightarrow> guest_consensus option"

definition into_consensus :: "('cs, 'co) guest_conv \<Rightarrow> 'co \<Rightarrow> (client_error, guest_consensus) outcome" where
  "into_consensus V c = ok_or ClientOther (gv_into_consensus V c)"

definition get_timestamp_ns :: "('cs, 'co) guest_conv \<Rightarrow> 'co option \<Rightarrow> (client_error, nat option) outcome" where
  "get_timestamp_ns V state =
     (case state of
        None \<Rightarrow> Ok None
      | Some state \<Rightarrow> bind_outcome (into_consensus V state) (\<lambda>state. Ok (Some (co_timestamp_ns state))))"

definition check_for_misbehaviour_in_header ::
  "('s, 'cs, 'co) client_ctx \<Rightarrow> ('cs, 'co) guest_conv \<Rightarrow> 's \<Rightarrow> client_id \<Rightarrow> ('pk, 'sig) guest_header \<Rightarrow>
   (client_error, bool) outcome" where
  "check_for_misbehaviour_in_header ctx V s cid hdr =
     bind_outcome (height_new 1 (u64 (bh_block_height (gh_block_header hdr)))) (\<lambda>height.
     bind_outcome (cc_neighbourhood ctx s cid height) (\<lambda>nb.
       case nb of
         This state \<Rightarrow>
           bind_outcome (into_consensus V state) (\<lambda>existing_state.
             Ok (existing_state \<noteq> consensus_from_header hdr))
       | Neighbours prev nxt \<Rightarrow>
           (let header_time_ns = bh_timestamp_ns (gh_block_header hdr) in
            bind_outcome (get_timestamp_ns V prev) (\<lambda>prev_time.
              if (case prev_time of Some prev_time_ns \<Rightarrow> header_time_ns \<le> prev_time_ns | None \<Rightarrow> False) then Ok True
              else bind_outcome (get_timestamp_ns V nxt) (\<lambda>next_time.
                Ok (case next_time of Some next_time_ns \<Rightarrow> next_time_ns \<le> header_time_ns | None \<Rightarrow> False))))))"

definition cmp_sign :: "nat \<Rightarrow> nat \<Rightarrow> int" where
  "cmp_sign a b = (if a < b then - 1 else if a = b then 0 else 1)"

definition check_for_misbehaviour_in_misbehaviour :: "('pk, 'sig) guest_misbehaviour \<Rightarrow> bool" where
  "check_for_misbehaviour_in_misbehaviour mb =
     (let block1 = gh_block_header (mb_header1 mb); block2 = gh_block_header (mb_header2 mb) in
      if bh_block_height block1 = bh_block_height block2
      then gh_block_hash (mb_header1 mb) \<noteq> gh_block_hash (mb_header2 mb)
      else cmp_sign (bh_block_height block1) (bh_block_height block2) \<noteq>
           cmp_sign (bh_timestamp_ns block1) (bh_timestamp_ns block2))"

definition do_check_for_misbehaviour ::
  "('s, 'cs, 'co) client_ctx \<Rightarrow> ('cs, 'co) guest_conv \<Rightarrow> 's \<Rightarrow> client_id \<Rightarrow> ('pk, 'sig) client_message \<Rightarrow>
   (client_error, bool) outcome" where
  "do_check_for_misbehaviour ctx V s cid msg =
     (case msg of
        HeaderMsg hdr \<Rightarrow> check_for_misbehaviour_in_header ctx V s cid hdr
      | MisbehaviourMsg mb \<Rightarrow> Ok (check_for_misbehaviour_in_misbehaviour mb))"

subsection \<open>Updates\<close>

definition saturating_add :: "nat \<Rightarrow> nat \<Rightarrow> nat \<Rightarrow> nat" where
  "saturating_add w a b = min (a + b) (2 ^ w - 1)"

definition consensus_has_expired :: "guest_client \<Rightarrow> guest_consensus \<Rightarrow> nat \<Rightarrow> bool" where
  "consensus_has_expired cs consensus host_timestamp \<longleftrightarrow>
     saturating_add 64 (co_timestamp_ns consensus) (gc_trusting_period_ns cs) \<le> host_timestamp"

definition prune_oldest_consensus_state ::
  "('s, 'cs, 'co) client_ctx \<Rightarrow> ('cs, 'co) guest_conv \<Rightarrow> guest_client \<Rightarrow> client_id \<Rightarrow> nat \<Rightarrow>
   ('s, client_error, unit) stateful" where
  "prune_oldest_consensus_state ctx V cs cid host_timestamp s =
     st_bind (st_lift (cc_earliest ctx s cid)) (\<lambda>e.
       case e of
         None \<Rightarrow> st_return ()
       | Some (height, state) \<Rightarrow>
           st_bind (st_lift (into_consensus V state)) (\<lambda>state.
             if consensus_has_expired cs state host_timestamp then cc_delete_consensus_state ctx cid height
             else st_return ())) s"

definition do_update_state ::
  "('s, 'cs, 'co) client_ctx \<Rightarrow> ('cs, 'co) guest_conv \<Rightarrow> guest_client \<Rightarrow> client_id \<Rightarrow>
   ('pk, 'sig) guest_header \<Rightarrow> ('s, client_error, ibc_height list) stateful" where
  "do_update_state ctx V cs cid hdr s =
     st_bind (st_lift (height_new 1 (u64 (bh_block_height (gh_block_header hdr))))) (\<lambda>header_height.
     st_bind (\<lambda>s. (s, cc_host_metadata ctx s)) (\<lambda>(host_timestamp, host_height).
     st_bind (prune_oldest_consensus_state ctx V cs cid host_timestamp) (\<lambda>_ s.
       case cc_consensus_state ctx s cid header_height of
         Ok _ \<Rightarrow> (s, Ok [header_height])
       | Panic \<Rightarrow> (s, Panic)
       | Err _ \<Rightarrow>
           st_bind (cc_set_client_state ctx cid (gv_from_client V (with_header hdr cs))) (\<lambda>_.
           st_bind (cc_store_consensus_state ctx cid header_height
               (gv_from_consensus V (consensus_from_header hdr)) host_timestamp host_height) (\<lambda>_.
             st_return [header_height])) s))) s"

definition update_state_on_misbehaviour ::
  "('s, 'cs, 'co) client_ctx \<Rightarrow> ('cs, 'co) guest_conv \<Rightarrow> guest_client \<Rightarrow> client_id \<Rightarrow>
   ('s, client_error, unit) stateful" where
  "update_state_on_misbehaviour ctx V cs cid = cc_set_client_state ctx cid (gv_from_client V (frozen cs))"

text \<open>\<open>store\<close> is \<open>ClientExecutionContext::store_consensus_state\<close> of the chain.\<close>

definition initialise ::
  "('s, 'cs, 'co) client_ctx \<Rightarrow> ('cs, 'co) guest_conv \<Rightarrow>
   (client_id \<Rightarrow> 64 word \<Rightarrow> 64 word \<Rightarrow> 'co \<Rightarrow> ('s, client_error, unit) stateful) \<Rightarrow>
   guest_client \<Rightarrow> client_id \<Rightarrow> (client_error, guest_consensus) outcome \<Rightarrow> ('s, client_error, unit) stateful" where
  "initialise ctx V store cs cid consensus_state =
     st_bind (st_lift (parse_client_id cid)) (\<lambda>_.
     st_bind (st_lift consensus_state) (\<lambda>consensus_state.
     st_bind (cc_set_client_state ctx cid (gv_from_client V cs)) (\<lambda>_.
       store cid 1 (u64 (gc_latest_height cs)) (gv_from_consensus V consensus_state))))"

definition client_status ::
  "('s, 'cs, 'co) client_ctx \<Rightarrow> ('cs, 'co) guest_conv \<Rightarrow> 's \<Rightarrow> guest_client \<Rightarrow> client_id \<Rightarrow>
   (client_error, client_status) outcome" where
  "client_status ctx V s cs cid =
     (if gc_is_frozen cs then Ok Frozen
      else
        bind_outcome (height_new 1 (u64 (gc_latest_height cs))) (\<lambda>height.
          case bind_outcome (cc_consensus_state ctx s cid height) (into_consensus V) of
            Ok consensus \<Rightarrow>
              bind_outcome (cc_host_metadata ctx s) (\<lambda>(host_timestamp, _).
                Ok (if consensus_has_expired cs consensus host_timestamp then Expired else Active))
          | Err (ConsensusStateNotFound _ _) \<Rightarrow> Ok Expired
          | Err (ClientStateNotFound _) \<Rightarrow> Ok Active
          | Err e \<Rightarrow> Err e
          | Panic \<Rightarrow> Panic))"

section \<open>Accepted headers\<close>

definition signed_by ::
  "(byte list \<Rightarrow> 'pk \<Rightarrow> 'sig \<Rightarrow> bool) \<Rightarrow> fingerprint \<Rightarrow> 'pk epoch \<Rightarrow> nat set \<Rightarrow> (nat \<times> 'sig) list \<Rightarrow> bool" where
  "signed_by verify fp e I sigs \<longleftrightarrow>
     I \<subseteq> {..<length (ep_validators e)} \<and>
     (\<forall>i \<in> I. \<exists>sig. (i, sig) \<in> set sigs \<and> verify fp (va_pubkey (ep_validators e ! i)) sig) \<and>
     ep_quorum_stake e \<le> (\<Sum>i\<in>I. va_stake (ep_validators e ! i))"

lemma verify_signatures_sound:
  assumes "verify_signatures verify fp vs q sigs = Ok ()"
  shows "\<exists>I. I \<subseteq> {i. i < length vs \<and> vs ! i \<noteq> None} \<and>
    (\<forall>i \<in> I. \<exists>sig. (i, sig) \<in> set sigs \<and> verify fp (va_pubkey (the (vs ! i))) sig) \<and>
    q \<le> (\<Sum>i\<in>I. va_stake (the (vs ! i)))"
  using assms
proof (induction verify fp vs q sigs rule: verify_signatures.induct)
  case (2 verify fp vs q idx sig sigs)
  then obtain v where v: "idx < length vs" "vs ! idx = Some v" "verify fp (va_pubkey v) sig"
    by (auto split: if_splits option.splits)
  show ?case
  proof (cases "q - va_stake v = 0")
    case True
    then show ?thesis using v by (intro exI[of _ "{idx}"]) auto
  next
    case False
    with 2(2) v have "verify_signatures verify fp (vs[idx := None]) (q - va_stake v) sigs = Ok ()" by (simp add: Let_def)
    from 2(1)[OF v(1,2) _ refl False this] v(3) obtain I where
      I: "I \<subseteq> {i. i < length vs \<and> vs[idx := None] ! i \<noteq> None}"
      "\<forall>i\<in>I. \<exists>sig. (i, sig) \<in> set sigs \<and> verify fp (va_pubkey (the (vs[idx := None] ! i))) sig"
      "q - va_stake v \<le> (\<Sum>i\<in>I. va_stake (the (vs[idx := None] ! i)))" by auto
    have ni: "idx \<notin> I" using I(1) v(1) by auto
    then have eq: "vs[idx := None] ! i = vs ! i" if "i \<in> I" for i using that by (metis nth_list_update_neq)
    have fin: "finite I" using I(1) by (rule finite_subset) simp
    have "q \<le> (\<Sum>i\<in>insert idx I. va_stake (the (vs ! i)))" using I(3) fin ni v(2) by (simp add: eq)
    moreover have "insert idx I \<subseteq> {i. i < length vs \<and> vs ! i \<noteq> None}" using I(1) v eq by fastforce
    moreover have "\<forall>i\<in>insert idx I. \<exists>s. (i, s) \<in> set ((idx, sig) # sigs) \<and> verify fp (va_pubkey (the (vs ! i))) s"
      using I(2) v eq by auto
    ultimately show ?thesis by blast
  qed
qed simp

lemma verify_signatures_complete:
  assumes "distinct (map fst sigs)" "0 < q" "q \<le> (\<Sum>i\<in>fst ` set sigs. va_stake (the (vs ! i)))"
    and "\<forall>(i, sig) \<in> set sigs. i < length vs \<and> vs ! i \<noteq> None \<and> verify fp (va_pubkey (the (vs ! i))) sig"
  shows "verify_signatures verify fp vs q sigs = Ok ()"
  using assms
proof (induction sigs arbitrary: vs q)
  case (Cons s sigs)
  obtain idx sig where s: "s = (idx, sig)" by fastforce
  obtain v where v: "idx < length vs" "vs ! idx = Some v" "verify fp (va_pubkey v) sig" using Cons.prems(4) s by auto
  have ni: "idx \<notin> fst ` set sigs" using Cons.prems(1) s by auto
  then have eq: "vs[idx := None] ! i = vs ! i" if "i \<in> fst ` set sigs" for i using that by (metis nth_list_update_neq)
  show ?case
  proof (cases "q - va_stake v = 0")
    case False
    have "q - va_stake v \<le> (\<Sum>i\<in>fst ` set sigs. va_stake (the (vs ! i)))"
      using Cons.prems(3) ni v(2) s by simp
    then have "q - va_stake v \<le> (\<Sum>i\<in>fst ` set sigs. va_stake (the (vs[idx := None] ! i)))" by (simp add: eq)
    moreover have "\<forall>(i, sig) \<in> set sigs. i < length (vs[idx := None]) \<and> vs[idx := None] ! i \<noteq> None \<and>
        verify fp (va_pubkey (the (vs[idx := None] ! i))) sig"
    proof (intro ballI, clarify)
      fix i sg assume "(i, sg) \<in> set sigs"
      then have "i < length vs \<and> vs ! i \<noteq> None \<and> verify fp (va_pubkey (the (vs ! i))) sg" "i \<in> fst ` set sigs"
        using Cons.prems(4) by (auto intro: rev_image_eqI)
      then show "i < length (vs[idx := None]) \<and> vs[idx := None] ! i \<noteq> None \<and>
          verify fp (va_pubkey (the (vs[idx := None] ! i))) sg" using eq by simp
    qed
    ultimately have "verify_signatures verify fp (vs[idx := None]) (q - va_stake v) sigs = Ok ()"
      using Cons.prems(1) False s by (intro Cons.IH) auto
    then show ?thesis using v False by (simp add: s Let_def)
  qed (use v in \<open>simp add: s\<close>)
qed simp

text \<open>A header of one of the two epochs the client knows, signed by a quorum, and only such a header, is accepted.\<close>

lemma verify_header_sound:
  assumes "verify_header verify cs hdr = Ok ()"
  shows "gh_genesis_hash hdr = gc_genesis_hash cs"
    "gh_epoch_commitment hdr \<in> {gc_epoch_commitment cs, gc_prev_epoch_commitment cs}"
    "\<exists>I. signed_by verify
       (fingerprint_from_hash (gc_genesis_hash cs) (bh_block_height (gh_block_header hdr)) (gh_block_hash hdr))
       (gh_epoch hdr) I (gh_signatures hdr)"
proof -
  let ?vs = "map Some (ep_validators (gh_epoch hdr))"
  show g: "gh_genesis_hash hdr = gc_genesis_hash cs"
    "gh_epoch_commitment hdr \<in> {gc_epoch_commitment cs, gc_prev_epoch_commitment cs}"
    using assms by (auto simp: verify_header_def split: if_splits)
  let ?fp = "fingerprint_from_hash (gc_genesis_hash cs) (bh_block_height (gh_block_header hdr)) (gh_block_hash hdr)"
  have "verify_signatures verify ?fp ?vs (ep_quorum_stake (gh_epoch hdr)) (gh_signatures hdr) = Ok ()"
    using assms g by (auto simp: verify_header_def Let_def)
  from verify_signatures_sound[OF this] obtain I where
    I: "I \<subseteq> {..<length (ep_validators (gh_epoch hdr))}"
    "\<forall>i\<in>I. \<exists>sig. (i, sig) \<in> set (gh_signatures hdr) \<and> verify ?fp (va_pubkey (the (?vs ! i))) sig"
    "ep_quorum_stake (gh_epoch hdr) \<le> (\<Sum>i\<in>I. va_stake (the (?vs ! i)))" by auto
  have "?vs ! i = Some (ep_validators (gh_epoch hdr) ! i)" if "i \<in> I" for i using that I(1) by auto
  then show "\<exists>I. signed_by verify ?fp (gh_epoch hdr) I (gh_signatures hdr)"
    using I by (intro exI[of _ I]) (auto simp: signed_by_def)
qed

lemma verify_header_complete:
  assumes "gh_genesis_hash hdr = gc_genesis_hash cs"
    and "gh_epoch_commitment hdr \<in> {gc_epoch_commitment cs, gc_prev_epoch_commitment cs}"
    and "distinct (map fst (gh_signatures hdr))" "0 < ep_quorum_stake (gh_epoch hdr)"
    and "\<forall>(i, sig) \<in> set (gh_signatures hdr). i < length (ep_validators (gh_epoch hdr)) \<and>
      verify (fingerprint_from_hash (gc_genesis_hash cs) (bh_block_height (gh_block_header hdr)) (gh_block_hash hdr))
        (va_pubkey (ep_validators (gh_epoch hdr) ! i)) sig"
    and "ep_quorum_stake (gh_epoch hdr) \<le> (\<Sum>i\<in>fst ` set (gh_signatures hdr). va_stake (ep_validators (gh_epoch hdr) ! i))"
  shows "verify_header verify cs hdr = Ok ()"
proof -
  let ?vs = "map Some (ep_validators (gh_epoch hdr))"
  have "(\<Sum>i\<in>fst ` set (gh_signatures hdr). va_stake (the (?vs ! i))) =
      (\<Sum>i\<in>fst ` set (gh_signatures hdr). va_stake (ep_validators (gh_epoch hdr) ! i))"
    using assms(5) by (intro sum.cong) auto
  moreover have "\<forall>(i, sig) \<in> set (gh_signatures hdr). i < length ?vs \<and> ?vs ! i \<noteq> None \<and>
      verify (fingerprint_from_hash (gc_genesis_hash cs) (bh_block_height (gh_block_header hdr)) (gh_block_hash hdr))
        (va_pubkey (the (?vs ! i))) sig" using assms(5) by fastforce
  ultimately have "verify_signatures verify
      (fingerprint_from_hash (gc_genesis_hash cs) (bh_block_height (gh_block_header hdr)) (gh_block_hash hdr))
      ?vs (ep_quorum_stake (gh_epoch hdr)) (gh_signatures hdr) = Ok ()"
    using assms(3,4,6) by (intro verify_signatures_complete) auto
  then show ?thesis using assms(1,2) by (auto simp: verify_header_def Let_def)
qed

section \<open>Following the chain\<close>

text \<open>The client is at the head of the chain that the manager keeps.\<close>

definition tracks :: "'pk crypto \<Rightarrow> guest_client \<Rightarrow> 'pk chain_manager \<Rightarrow> bool" where
  "tracks X cs m \<longleftrightarrow>
     gc_genesis_hash cs = mg_genesis m \<and> gc_latest_height cs = bh_block_height (mg_header m) \<and>
     gc_epoch_commitment cs = calc_commitment X (mg_next_epoch m)"

text \<open>What the last signature makes of the manager.\<close>

lemma add_signature_finalises:
  assumes "add_signature verifier pk sig m = (m', Ok GotQuorum)"
  obtains p where "mg_pending_block m = Some p" "mg_header m' = bl_header (pb_next_block p)" "mg_genesis m' = mg_genesis m"
    "mg_next_epoch m' = (case bl_next_epoch (pb_next_block p) of None \<Rightarrow> mg_next_epoch m | Some e \<Rightarrow> e)"
  using assms by (auto simp: add_signature_def Let_def split: option.splits if_splits)

lemma header_next_commitment:
  "header_generate_next X h hh ts root ne = Ok b \<Longrightarrow>
     bh_next_epoch_commitment (bl_header b) = map_option (calc_commitment X) ne"
  by (auto simp: header_generate_next_def Let_def split: if_splits option.splits)

lemma header_of_pending:
  assumes i: "pending_inv X verifier m p" and t: "tracks X cs m"
    and h: "hdr = guest_header_new X (mg_genesis m) (bl_header (pb_next_block p)) (mg_next_epoch m) sigs"
    and m': "mg_header m' = bl_header (pb_next_block p)" "mg_genesis m' = mg_genesis m"
      "mg_next_epoch m' = (case bl_next_epoch (pb_next_block p) of None \<Rightarrow> mg_next_epoch m | Some e \<Rightarrow> e)"
  shows "tracks X (with_header hdr cs) m'"
    "gc_prev_epoch_commitment (with_header hdr cs) =
      (if bl_next_epoch (pb_next_block p) = None then gc_prev_epoch_commitment cs else gc_epoch_commitment cs)"
proof -
  let ?b = "pb_next_block p"
  have "header_generate_next X (mg_header m) (bh_host_height (bl_header ?b)) (bh_timestamp_ns (bl_header ?b))
      (bh_state_root (bl_header ?b)) (bl_next_epoch ?b) = Ok ?b" using i by (simp add: pending_inv_def Let_def)
  then have b: "bh_block_height (mg_header m) < bh_block_height (bl_header ?b)"
    "bh_next_epoch_commitment (bl_header ?b) = map_option (calc_commitment X) (bl_next_epoch ?b)"
    using pending_follows[OF i] header_next_commitment by (auto simp: follows_def)
  show "tracks X (with_header hdr cs) m'"
    using b t m' by (auto simp: tracks_def with_header_def h guest_header_new_def Let_def split: option.splits)
  show "gc_prev_epoch_commitment (with_header hdr cs) =
      (if bl_next_epoch ?b = None then gc_prev_epoch_commitment cs else gc_epoch_commitment cs)"
    using b t by (auto simp: tracks_def with_header_def h guest_header_new_def Let_def split: option.splits)
qed

section \<open>Accountability\<close>

lemma signed_by_stake:
  assumes "epoch_inv e" "signed_by verify fp e I sigs"
  shows "ep_quorum_stake e \<le> keys_stake (ep_validators e) {pk. \<exists>sig. verify fp pk sig}"
proof -
  let ?S = "(\<lambda>i. va_pubkey (ep_validators e ! i)) ` I"
  have "ep_quorum_stake e \<le> keys_stake (ep_validators e) ?S"
    using assms keys_stake_index[of "ep_validators e" I] by (simp add: signed_by_def epoch_inv_def)
  also have "\<dots> \<le> keys_stake (ep_validators e) {pk. \<exists>sig. verify fp pk sig}"
    using assms(2) by (intro keys_stake_mono) (auto simp: signed_by_def)
  finally show ?thesis .
qed

section \<open>Properties\<close>

lemma quorum_signatures:
  assumes e: "epoch_inv e" and S: "S \<subseteq> va_pubkey ` set (ep_validators e)" "\<forall>k \<in> S. \<exists>s. verifier fp k s"
    and q: "ep_quorum_stake e \<le> keys_stake (ep_validators e) S"
  obtains sigs where "distinct (map fst sigs)"
    "\<forall>(i, sig) \<in> set sigs. i < length (ep_validators e) \<and> verifier fp (va_pubkey (ep_validators e ! i)) sig"
    "ep_quorum_stake e \<le> (\<Sum>i\<in>fst ` set sigs. va_stake (ep_validators e ! i))"
proof -
  let ?vs = "ep_validators e"
  obtain f where f: "\<And>k. k \<in> S \<Longrightarrow> verifier fp k (f k)" using S(2) by metis
  define ixs where "ixs = filter (\<lambda>i. va_pubkey (?vs ! i) \<in> S) [0..<length ?vs]"
  define sigs where "sigs = map (\<lambda>i. (i, f (va_pubkey (?vs ! i)))) ixs"
  have fst: "map fst sigs = ixs" "fst ` set sigs = set ixs" by (simp_all add: sigs_def o_def image_image)
  have im: "(\<lambda>i. va_pubkey (?vs ! i)) ` set ixs = S"
    using S(1) by (force simp: ixs_def in_set_conv_nth)
  have "set ixs \<subseteq> {..<length ?vs}" by (auto simp: ixs_def)
  then have "(\<Sum>i\<in>fst ` set sigs. va_stake (?vs ! i)) = keys_stake ?vs S"
    using keys_stake_index[of ?vs "set ixs"] e im by (simp add: fst epoch_inv_def)
  moreover have "distinct (map fst sigs)" by (simp add: fst ixs_def)
  moreover have "\<forall>(i, sig) \<in> set sigs. i < length ?vs \<and> verifier fp (va_pubkey (?vs ! i)) sig"
    by (auto simp: sigs_def ixs_def f)
  ultimately show thesis using q by (intro that[of sigs]) auto
qed

text \<open>
  C12: the light client follows the guest chain. A client that is at the head of the chain
  the manager keeps accepts the next block once the manager has finalised it, with the signatures
  that were submitted, and is then at the new head, with the commitment of the
  epoch that will sign the block after it.
\<close>

theorem client_follows_chain:
  assumes "manager_run X verifier m hs" "tracks X cs m"
    and "add_signature verifier pk sig m = (m', Ok GotQuorum)"
  shows "\<exists>sigs. verify_header verifier cs (guest_header_new X (mg_genesis m) (mg_header m') (mg_next_epoch m) sigs) = Ok () \<and>
    tracks X (with_header (guest_header_new X (mg_genesis m) (mg_header m') (mg_next_epoch m) sigs) cs) m'"
proof -
  have i: "manager_inv X verifier m" using manager_run_inv[OF assms(1)] by blast
  obtain p where p: "mg_pending_block m = Some p" "mg_header m' = bl_header (pb_next_block p)" "mg_genesis m' = mg_genesis m"
    "mg_next_epoch m' = (case bl_next_epoch (pb_next_block p) of None \<Rightarrow> mg_next_epoch m | Some e \<Rightarrow> e)"
    by (rule add_signature_finalises[OF assms(3)])
  note P = manager_invD(6)[OF i p(1)] and e = manager_invD(1)[OF i]
  let ?fp = "fingerprint_new X (mg_genesis m) (mg_header m')" and ?e = "mg_next_epoch m"
  have fp: "pb_fingerprint p = ?fp" "pb_signers p \<subseteq> va_pubkey ` set (ep_validators ?e)"
    "\<forall>k \<in> pb_signers p. \<exists>s. verifier ?fp k s" using P p(2) by (auto simp: pending_inv_def Let_def)
  have last: "pk \<in> va_pubkey ` set (ep_validators ?e)" "verifier ?fp pk sig"
      "ep_quorum_stake ?e \<le> keys_stake (ep_validators ?e) (insert pk (pb_signers p))"
    using add_signature_inv[OF i assms(3)] p(1) fp(1) by auto
  obtain sigs where s: "distinct (map fst sigs)"
    "\<forall>(i, sig) \<in> set sigs. i < length (ep_validators ?e) \<and> verifier ?fp (va_pubkey (ep_validators ?e ! i)) sig"
    "ep_quorum_stake ?e \<le> (\<Sum>i\<in>fst ` set sigs. va_stake (ep_validators ?e ! i))"
    using quorum_signatures[OF e, of "insert pk (pb_signers p)" verifier ?fp] fp(2,3) last by auto
  have "verify_header verifier cs (guest_header_new X (mg_genesis m) (mg_header m') ?e sigs) = Ok ()"
    by (rule verify_header_complete)
      (use s assms(2) e in \<open>auto simp: guest_header_new_def tracks_def fingerprint_new_def epoch_inv_def\<close>)
  moreover have "tracks X (with_header (guest_header_new X (mg_genesis m) (mg_header m') ?e sigs) cs) m'"
    using header_of_pending(1)[OF P assms(2) refl p(2-4)] by (simp add: p(2))
  ultimately show ?thesis by blast
qed

theorem client_follows_chain_witness:
  "\<exists>m m' cs sigs. add_signature ex_verifier 2 True m = (m', Ok GotQuorum) \<and>
     verify_header ex_verifier cs (guest_header_new ex_crypto (mg_genesis m) (mg_header m') (mg_next_epoch m) sigs) = Ok ()"
proof -
  obtain m m' where m: "manager_run ex_crypto ex_verifier m [bl_header ex_genesis]"
    "add_signature ex_verifier 2 True m = (m', Ok GotQuorum)" by (rule ex_sign)
  let ?cs = "guest_client_new (mg_genesis m) (bh_block_height (mg_header m)) 1000 (calc_commitment ex_crypto (mg_next_epoch m)) None False"
  have "tracks ex_crypto ?cs m" by (simp add: tracks_def guest_client_new_def)
  then show ?thesis using client_follows_chain[OF m(1) _ m(2)] m(2) by blast
qed

text \<open>
  C13: accountability. If clients of a chain accept two headers of the same epoch and height with
  different hashes, and more than half of the stake is a quorum in that epoch, then
  some validator of the epoch has signed both blocks, and the two headers together are evidence
  that the client recognises as misbehaviour.
\<close>

theorem conflicting_headers:
  assumes "verify_header verify cs h1 = Ok ()" "verify_header verify cs' h2 = Ok ()"
    and "gc_genesis_hash cs' = gc_genesis_hash cs" "gh_epoch h1 = e" "gh_epoch h2 = e"
    and "epoch_inv e" "ep_total_stake e < 2 * ep_quorum_stake e"
    and "bh_block_height (gh_block_header h1) = bh_block_height (gh_block_header h2)"
    and "gh_block_hash h1 \<noteq> gh_block_hash h2"
  shows "check_for_misbehaviour_in_misbehaviour \<lparr>mb_header1 = h1, mb_header2 = h2\<rparr> \<and>
    (\<exists>v \<in> set (ep_validators e). \<exists>s1 s2.
      verify (fingerprint_from_hash (gc_genesis_hash cs) (bh_block_height (gh_block_header h1)) (gh_block_hash h1)) (va_pubkey v) s1 \<and>
      verify (fingerprint_from_hash (gc_genesis_hash cs) (bh_block_height (gh_block_header h1)) (gh_block_hash h2)) (va_pubkey v) s2)"
proof -
  let ?fp = "\<lambda>h. fingerprint_from_hash (gc_genesis_hash cs) (bh_block_height (gh_block_header h1)) (gh_block_hash h)"
  obtain I J where "signed_by verify (?fp h1) e I (gh_signatures h1)" "signed_by verify (?fp h2) e J (gh_signatures h2)"
    using verify_header_sound(3)[OF assms(1)] verify_header_sound(3)[OF assms(2)] assms(3-5,8) by auto
  from this[THEN signed_by_stake[OF assms(6)]] obtain v where "v \<in> set (ep_validators e)"
    "va_pubkey v \<in> {pk. \<exists>s. verify (?fp h1) pk s} \<inter> {pk. \<exists>s. verify (?fp h2) pk s}"
    using quorum_overlap[OF assms(6,7)] by blast
  then show ?thesis using assms(8,9) by (auto simp: check_for_misbehaviour_in_misbehaviour_def Let_def)
qed

definition ex_signed :: "byte \<Rightarrow> (nat, bool) guest_header" where
  "ex_signed b = \<lparr>gh_genesis_hash = replicate 32 1, gh_block_hash = replicate 32 b, gh_block_header = bl_header ex_genesis,
     gh_epoch_commitment = replicate 32 2, gh_epoch = ex_epoch, gh_signatures = [(2, True), (0, True)]\<rparr>"

theorem conflicting_headers_witness:
  "check_for_misbehaviour_in_misbehaviour \<lparr>mb_header1 = ex_signed 3, mb_header2 = ex_signed 4\<rparr>"
proof -
  let ?cs = "guest_client_new (replicate 32 1) 1 1000 (replicate 32 2) None False"
  have v: "verify_header ex_verifier ?cs (ex_signed b) = Ok ()" for b
    by (simp add: verify_header_def ex_signed_def guest_client_new_def unwrap_or_def ex_epoch_def ex_verifier_def Let_def)
  have "gh_block_hash (ex_signed 3) \<noteq> gh_block_hash (ex_signed 4)" by (simp add: ex_signed_def)
  from conflicting_headers[OF v v refl refl _ _ _ _ this] show ?thesis
    by (auto simp: ex_signed_def ex_epoch_def epoch_inv_def)
qed

end
