(* ===== verification/Ibc_Chain.thy ===== *)
theory Ibc_Chain
  imports Guest_Manager
begin

text \<open>
  The guest chain inside the IBC program, \<^verbatim>\<open>solana/solana-ibc/programs/solana-ibc/src/{chain,error}.rs\<close>:
  \<open>ChainData\<close> holds a chain manager once it has been initialised and generates at most one block in a Solana
  block. The clock of the runtime is an argument, \<open>None\<close> when it cannot be read; the
  root of the trie is the argument the methods read from the trie account. The events that are emitted are
  kept in a list, the newest last. Every call refines steps of the chain manager.
\<close>

section \<open>Errors\<close>

text \<open>\<open>ProgramErr\<close> stands for errors of the runtime, \<open>ContextErr\<close> for those of the IBC handlers.\<close>

datatype 'c ibc_error =
  Internal
| ContextErr 'c
| TokenTransferErr
| ChainNotInitialised
| ChainAlreadyInitialised
| GenerationAlreadyAttempted
| HasPending
| HeadBlockTooYoung
| UnchangedGuestState
| UnknownBlock
| BadBlockSignature
| BadBlockValidator
| ValidatorStakeTooLow
| TotalStakeTooLow
| TooFewValidators
| InvalidCPICall
| InvalidFeeCollector
| FeeCollectorChangeProposalNotSet
| AssetAlreadyExists
| InvalidDecimals
| InvalidSendTransferParams
| InsufficientFeesToCollect
| InvalidTimeout
| InvalidSigner
| CandidateNotFound
| InsufficientStake
| ConfigErr update_config_error
| ProgramErr

definition from_generate_error :: "generate_error \<Rightarrow> 'c ibc_error" where
  "from_generate_error e =
     (case e of
        HasPendingBlock \<Rightarrow> HasPending
      | BlockTooYoung \<Rightarrow> HeadBlockTooYoung
      | UnchangedState \<Rightarrow> UnchangedGuestState
      | Inner _ \<Rightarrow> Internal)"

definition from_add_signature_error :: "add_signature_error \<Rightarrow> 'c ibc_error" where
  "from_add_signature_error e =
     (case e of NoPendingBlock \<Rightarrow> UnknownBlock | BadSignature \<Rightarrow> BadBlockSignature | BadValidator \<Rightarrow> BadBlockValidator)"

definition from_update_candidate_error :: "update_candidate_error \<Rightarrow> 'c ibc_error" where
  "from_update_candidate_error e =
     (case e of
        NotEnoughValidatorStake \<Rightarrow> ValidatorStakeTooLow
      | NotEnoughTotalStake \<Rightarrow> TotalStakeTooLow
      | NotEnoughValidators \<Rightarrow> TooFewValidators)"

section \<open>State\<close>

record 'pk chain_inner =
  ci_last_check_height :: height
  ci_manager :: "'pk chain_manager"
  ci_sig_verify_program_id :: "byte list"

datatype ('pk, 'sig) chain_event =
  InitialisedEvent block_header
| NewBlockEvent block_header "'pk epoch option"
| BlockSignedEvent hash height 'pk 'sig
| BlockFinalisedEvent hash height

record ('pk, 'sig) chain_data =
  cd_inner :: "'pk chain_inner option"
  cd_events :: "('pk, 'sig) chain_event list"

text \<open>The slot and the Unix time stamp in seconds.\<close>

type_synonym clock = "(nat \<times> int) option"

definition get_host_head :: "clock \<Rightarrow> ('c ibc_error, height \<times> nat) outcome" where
  "get_host_head clock =
     (case clock of
        None \<Rightarrow> Err ProgramErr
      | Some (slot, unix_timestamp) \<Rightarrow>
          if 0 < unix_timestamp \<and> unix_timestamp < 2 ^ 64 \<and> nat unix_timestamp * 1000000000 < 2 ^ 64
          then Ok (slot, nat unix_timestamp * 1000000000) else Panic)"

definition chain_get :: "('pk, 'sig) chain_data \<Rightarrow> ('c ibc_error, 'pk chain_inner) outcome" where
  "chain_get w = ok_or ChainNotInitialised (cd_inner w)"

definition emit :: "('pk, 'sig) chain_event \<Rightarrow> ('pk, 'sig) chain_data \<Rightarrow> ('pk, 'sig) chain_data" where
  "emit e w = w\<lparr>cd_events := cd_events w @ [e]\<rparr>"

section \<open>Operations\<close>

definition chain_head :: "('pk, 'sig) chain_data \<Rightarrow> ('c ibc_error, block_header) outcome" where
  "chain_head w = bind_outcome (chain_get w) (\<lambda>inner. Ok (snd (manager_head (ci_manager inner))))"

text \<open>The block hash of a local consensus state must have 32 bytes.\<close>

definition chain_consensus_state ::
  "('pk, 'sig) chain_data \<Rightarrow> height \<Rightarrow> ('c ibc_error, (hash \<times> nat) option) outcome" where
  "chain_consensus_state w hgt =
     bind_outcome (chain_get w) (\<lambda>inner.
       case find (\<lambda>cs. lc_height cs = hgt) (mg_consensus_states (ci_manager inner)) of
         None \<Rightarrow> Ok None
       | Some cs \<Rightarrow> if length (lc_blockhash cs) = 32 then Ok (Some (lc_blockhash cs, lc_timestamp cs)) else Panic)"

definition chain_initialise ::
  "('pk :: linorder) crypto \<Rightarrow> clock \<Rightarrow> hash \<Rightarrow> config \<Rightarrow> 'pk epoch \<Rightarrow> byte list \<Rightarrow>
   ('pk, 'sig) chain_data \<Rightarrow> ('pk, 'sig) chain_data \<times> ('c ibc_error, unit) outcome" where
  "chain_initialise X clock root cfg genesis_epoch program_id w =
     (case get_host_head clock of
        Err e \<Rightarrow> (w, Err e)
      | Panic \<Rightarrow> (w, Panic)
      | Ok (host_height, host_timestamp) \<Rightarrow>
          (case manager_new X cfg (block_generate_genesis X 1 host_height host_timestamp root genesis_epoch) of
             Err _ \<Rightarrow> (w, Err Internal)
           | Panic \<Rightarrow> (w, Panic)
           | Ok manager \<Rightarrow>
               if cd_inner w \<noteq> None then (w, Err ChainAlreadyInitialised)
               else
                 (let w = w\<lparr>cd_inner := Some \<lparr>ci_last_check_height = host_height, ci_manager = manager,
                              ci_sig_verify_program_id = program_id\<rparr>\<rparr>;
                      (finalised, hd) = manager_head manager
                  in if finalised then (emit (InitialisedEvent hd) w, Ok ()) else (w, Panic))))"

definition inner_generate_block ::
  "'pk crypto \<Rightarrow> clock \<Rightarrow> hash \<Rightarrow> bool \<Rightarrow> 'pk chain_inner \<Rightarrow> ('pk, 'sig) chain_data \<Rightarrow>
   ('pk, 'sig) chain_data \<times> ('c ibc_error, unit) outcome" where
  "inner_generate_block X clock root force inner w =
     (case get_host_head clock of
        Err e \<Rightarrow> (w, Err e)
      | Panic \<Rightarrow> (w, Panic)
      | Ok (host_height, host_timestamp) \<Rightarrow>
          if ci_last_check_height inner = host_height
          then (w, if force then Err GenerationAlreadyAttempted else Ok ())
          else
            (let (manager, res) = manager_generate_next X host_height host_timestamp root (ci_manager inner);
                 w = w\<lparr>cd_inner := Some (inner\<lparr>ci_last_check_height := host_height, ci_manager := manager\<rparr>)\<rparr>
             in case res of
                  Ok _ \<Rightarrow>
                    (let (finalised, hd) = manager_head manager
                     in if finalised then (w, Panic)
                        else (emit (NewBlockEvent hd (pending_epoch manager)) w, Ok ()))
                | Err e \<Rightarrow> (w, if force then Err (from_generate_error e) else Ok ())
                | Panic \<Rightarrow> (w, Panic)))"

definition on_inner ::
  "('pk chain_inner \<Rightarrow> ('pk, 'sig) chain_data \<Rightarrow> ('pk, 'sig) chain_data \<times> ('c ibc_error, 'a) outcome) \<Rightarrow>
   ('pk, 'sig) chain_data \<Rightarrow> ('pk, 'sig) chain_data \<times> ('c ibc_error, 'a) outcome" where
  "on_inner f w = (case cd_inner w of None \<Rightarrow> (w, Err ChainNotInitialised) | Some inner \<Rightarrow> f inner w)"

definition chain_generate_block ::
  "'pk crypto \<Rightarrow> clock \<Rightarrow> hash \<Rightarrow> ('pk, 'sig) chain_data \<Rightarrow> ('pk, 'sig) chain_data \<times> ('c ibc_error, unit) outcome" where
  "chain_generate_block X clock root = on_inner (inner_generate_block X clock root True)"

definition chain_maybe_generate_block ::
  "'pk crypto \<Rightarrow> clock \<Rightarrow> hash \<Rightarrow> ('pk, 'sig) chain_data \<Rightarrow> ('pk, 'sig) chain_data \<times> ('c ibc_error, unit) outcome" where
  "chain_maybe_generate_block X clock root = on_inner (inner_generate_block X clock root False)"

definition set_manager :: "'pk chain_inner \<Rightarrow> 'pk chain_manager \<Rightarrow> ('pk, 'sig) chain_data \<Rightarrow> ('pk, 'sig) chain_data" where
  "set_manager inner m w = w\<lparr>cd_inner := Some (inner\<lparr>ci_manager := m\<rparr>)\<rparr>"

definition chain_sign_block ::
  "'pk crypto \<Rightarrow> (byte list \<Rightarrow> 'pk \<Rightarrow> 'sig \<Rightarrow> bool) \<Rightarrow> 'pk \<Rightarrow> 'sig \<Rightarrow> ('pk, 'sig) chain_data \<Rightarrow>
   ('pk, 'sig) chain_data \<times> ('c ibc_error, bool) outcome" where
  "chain_sign_block X verifier pubkey signature =
     on_inner (\<lambda>inner w.
       let (manager, res) = add_signature verifier pubkey signature (ci_manager inner);
           w = set_manager inner manager w
       in case res of
            Err e \<Rightarrow> (w, Err (from_add_signature_error e))
          | Panic \<Rightarrow> (w, Panic)
          | Ok res \<Rightarrow>
              (let header = snd (manager_head manager);
                   block_hash = calc_hash X header;
                   w = (if got_new_signature res
                        then emit (BlockSignedEvent block_hash (bh_block_height header) pubkey signature) w else w);
                   w = (if got_quorum res then emit (BlockFinalisedEvent block_hash (bh_block_height header)) w else w)
               in (w, Ok (got_quorum res))))"

definition chain_set_stake ::
  "('pk :: linorder) \<Rightarrow> nat \<Rightarrow> ('pk, 'sig) chain_data \<Rightarrow> ('pk, 'sig) chain_data \<times> ('c ibc_error, unit) outcome" where
  "chain_set_stake pubkey amount =
     on_inner (\<lambda>inner w.
       let (manager, res) = update_candidate pubkey (\<lambda>_. Ok amount) from_update_candidate_error (ci_manager inner)
       in (set_manager inner manager w, res))"

text \<open>\<open>u128::checked_add_signed\<close> and the error that is chosen when it fails.\<close>

definition changed_stake :: "int \<Rightarrow> 'pk candidate option \<Rightarrow> ('c ibc_error, nat) outcome" where
  "changed_stake amount candidate =
     (let stake = int (case candidate of None \<Rightarrow> 0 | Some c \<Rightarrow> cd_stake c) + amount in
      if 0 \<le> stake \<and> stake < 2 ^ 128 then Ok (nat stake)
      else if 0 < amount then Err ProgramErr
      else if candidate = None then Err CandidateNotFound
      else Err InsufficientStake)"

fun update_stakes ::
  "(('pk :: linorder) \<times> int) list \<Rightarrow> 'pk chain_manager \<Rightarrow> 'pk chain_manager \<times> ('c ibc_error, unit) outcome" where
  "update_stakes [] m = (m, Ok ())"
| "update_stakes ((pubkey, amount) # changes) m =
     (let (m, res) = update_candidate pubkey (changed_stake amount) from_update_candidate_error m in
      case res of Ok _ \<Rightarrow> update_stakes changes m | Err e \<Rightarrow> (m, Err e) | Panic \<Rightarrow> (m, Panic))"

definition chain_update_stake ::
  "(('pk :: linorder) \<times> int) list \<Rightarrow> ('pk, 'sig) chain_data \<Rightarrow> ('pk, 'sig) chain_data \<times> ('c ibc_error, unit) outcome" where
  "chain_update_stake changes =
     on_inner (\<lambda>inner w.
       let (manager, res) = update_stakes changes (ci_manager inner) in (set_manager inner manager w, res))"

definition chain_update_config ::
  "update_config \<Rightarrow> ('pk, 'sig) chain_data \<Rightarrow> ('pk, 'sig) chain_data \<times> ('c ibc_error, unit) outcome" where
  "chain_update_config u =
     on_inner (\<lambda>inner w.
       let (manager, res) = manager_update_config u (ci_manager inner)
       in (set_manager inner manager w, map_error ConfigErr res))"

text \<open>Queries.\<close>

definition chain_validator :: "'pk \<Rightarrow> ('pk, 'sig) chain_data \<Rightarrow> ('c ibc_error, 'pk validator option) outcome" where
  "chain_validator pk w =
     bind_outcome (chain_get w) (\<lambda>inner. Ok (epoch_validator (mg_next_epoch (ci_manager inner)) pk))"

definition chain_candidate :: "'pk \<Rightarrow> ('pk, 'sig) chain_data \<Rightarrow> ('c ibc_error, 'pk candidate option) outcome" where
  "chain_candidate pk w =
     bind_outcome (chain_get w) (\<lambda>inner.
       Ok (find (\<lambda>c. cd_pubkey c = pk) (cs_candidates (mg_candidates (ci_manager inner)))))"

definition calculate_rewards :: "('pk, 'sig) chain_data \<Rightarrow> ('c ibc_error, nat \<times> nat) outcome" where
  "calculate_rewards w =
     bind_outcome (chain_get w) (\<lambda>inner. Ok (0, mg_epoch_height (ci_manager inner)))"

definition check_generate_block ::
  "height \<Rightarrow> nat \<Rightarrow> hash \<Rightarrow> ('pk, 'sig) chain_data \<Rightarrow> ('c ibc_error, unit) outcome" where
  "check_generate_block host_height host_timestamp root w =
     bind_outcome (chain_get w) (\<lambda>inner.
     bind_outcome (map_error from_generate_error
       (validate_generate_next (ci_manager inner) host_height host_timestamp root)) (\<lambda>_. Ok ()))"

definition chain_genesis :: "('pk, 'sig) chain_data \<Rightarrow> ('c ibc_error, hash) outcome" where
  "chain_genesis w = bind_outcome (chain_get w) (\<lambda>inner. Ok (mg_genesis (ci_manager inner)))"

definition chain_sig_verify_program_id :: "('pk, 'sig) chain_data \<Rightarrow> ('c ibc_error, byte list) outcome" where
  "chain_sig_verify_program_id w = bind_outcome (chain_get w) (\<lambda>inner. Ok (ci_sig_verify_program_id inner))"

section \<open>Refinement of the chain manager\<close>

text \<open>
  \<open>chain_run X verifier w hs\<close>: the chain data \<open>w\<close> is reached by calls of its methods,
  successful or not, and \<open>hs\<close> are the finalised headers. The environment keeps the total stake below
  \<open>2 ^ 128\<close> and the epoch that starts the chain is well formed.
\<close>

definition total_stake :: "'pk chain_manager \<Rightarrow> nat" where
  "total_stake m = sum_list (map cd_stake (cs_candidates (mg_candidates m)))"

text \<open>No intermediate stake overflows while a list of changes is applied.\<close>

fun changes_fit :: "(('pk :: linorder) \<times> int) list \<Rightarrow> 'pk chain_manager \<Rightarrow> bool" where
  "changes_fit [] m \<longleftrightarrow> True"
| "changes_fit ((pubkey, amount) # changes) m \<longleftrightarrow>
     (\<forall>(x :: 'pk candidate option) s. (changed_stake amount x :: (unit ibc_error, nat) outcome) = Ok s \<longrightarrow> s + total_stake m < 2 ^ 128) \<and>
     changes_fit changes (fst (update_candidate pubkey (changed_stake amount :: _ \<Rightarrow> (unit ibc_error, nat) outcome)
       from_update_candidate_error m))"

inductive chain_run ::
  "('pk :: linorder) crypto \<Rightarrow> (byte list \<Rightarrow> 'pk \<Rightarrow> 'sig \<Rightarrow> bool) \<Rightarrow> ('pk, 'sig) chain_data \<Rightarrow> block_header list \<Rightarrow> bool"
  for X verifier where
  fresh: "chain_run X verifier \<lparr>cd_inner = None, cd_events = []\<rparr> []"
| initialise: "chain_run X verifier w hs \<Longrightarrow>
    chain_initialise X clock root cfg e pid w = (w', r :: (unit ibc_error, unit) outcome) \<Longrightarrow> epoch_inv e \<Longrightarrow>
    0 < cf_max_validators cfg \<Longrightarrow>
    chain_run X verifier w' (if r = Ok () then map (mg_header \<circ> ci_manager) (case cd_inner w' of None \<Rightarrow> [] | Some i \<Rightarrow> [i]) else hs)"
| generate: "chain_run X verifier w hs \<Longrightarrow> chain_generate_block X clock root w = (w', r :: (unit ibc_error, unit) outcome) \<Longrightarrow>
    chain_run X verifier w' hs"
| maybe_generate: "chain_run X verifier w hs \<Longrightarrow>
    chain_maybe_generate_block X clock root w = (w', r :: (unit ibc_error, unit) outcome) \<Longrightarrow> chain_run X verifier w' hs"
| sign: "chain_run X verifier w hs \<Longrightarrow> chain_sign_block X verifier pk sig w = (w', r :: (unit ibc_error, bool) outcome) \<Longrightarrow>
    chain_run X verifier w' ((if r = Ok True then map (mg_header \<circ> ci_manager) (case cd_inner w' of None \<Rightarrow> [] | Some i \<Rightarrow> [i]) else []) @ hs)"
| set_stake: "chain_run X verifier w hs \<Longrightarrow> chain_set_stake pk amount w = (w', r :: (unit ibc_error, unit) outcome) \<Longrightarrow>
    (\<And>i. cd_inner w = Some i \<Longrightarrow> amount + total_stake (ci_manager i) < 2 ^ 128) \<Longrightarrow> chain_run X verifier w' hs"
| update_stake: "chain_run X verifier w hs \<Longrightarrow> chain_update_stake changes w = (w', r :: (unit ibc_error, unit) outcome) \<Longrightarrow>
    (\<And>i. cd_inner w = Some i \<Longrightarrow> changes_fit changes (ci_manager i)) \<Longrightarrow> chain_run X verifier w' hs"
| config: "chain_run X verifier w hs \<Longrightarrow> chain_update_config u w = (w', r :: (unit ibc_error, unit) outcome) \<Longrightarrow>
    uc_max_validators u \<noteq> Some 0 \<Longrightarrow> chain_run X verifier w' hs"

definition managed ::
  "('pk :: linorder) crypto \<Rightarrow> (byte list \<Rightarrow> 'pk \<Rightarrow> 'sig \<Rightarrow> bool) \<Rightarrow> ('pk, 'sig) chain_data \<Rightarrow> block_header list \<Rightarrow> bool" where
  "managed X verifier w hs \<longleftrightarrow>
     (case cd_inner w of None \<Rightarrow> hs = [] | Some i \<Rightarrow> manager_run X verifier (ci_manager i) hs)"

text \<open>Only the stake that is computed matters for the state, not the type of errors.\<close>

lemma update_candidate_run:
  assumes r: "manager_run X verifier m hs" and u: "update_candidate pk f g m = (m', res)"
    and fit: "\<And>x s. f x = Ok s \<Longrightarrow> s + total_stake m < 2 ^ 128"
  shows "manager_run X verifier m' hs"
proof -
  let ?x = "map_option (\<lambda>p. cs_candidates (mg_candidates m) ! p)
    (find_pos (\<lambda>el. cd_pubkey el = pk) (cs_candidates (mg_candidates m)))"
  show ?thesis
  proof (cases "f ?x")
    case (Ok s)
    obtain m2 r2 where u2: "update_candidate pk (\<lambda>_. Ok s) id m = (m2, r2)" by fastforce
    have "m' = m2" using u u2 Ok
      by (auto simp: update_candidate_def candidates_update_def Let_def split: outcome.splits if_splits option.splits)
    then show ?thesis using manager_run.candidate[OF r u2] fit[OF Ok] by (simp add: total_stake_def)
  next
    case (Err e)
    then have "m' = m" using u by (auto simp: update_candidate_def candidates_update_def Let_def)
    then show ?thesis using r by simp
  next
    case Panic
    then have "m' = m" using u by (auto simp: update_candidate_def candidates_update_def Let_def)
    then show ?thesis using r by simp
  qed
qed

lemma update_stakes_run:
  assumes "manager_run X verifier m hs" "update_stakes changes m = (m', res :: (unit ibc_error, unit) outcome)" "changes_fit changes m"
  shows "manager_run X verifier m' hs"
  using assms
proof (induction changes arbitrary: m)
  case (Cons c changes)
  obtain pubkey amount where c: "c = (pubkey, amount)" by fastforce
  obtain m1 r1 where u: "update_candidate pubkey (changed_stake amount :: _ \<Rightarrow> (unit ibc_error, nat) outcome)
      from_update_candidate_error m = (m1, r1)" by fastforce
  have run: "manager_run X verifier m1 hs"
    by (rule update_candidate_run[OF Cons.prems(1) u]) (use Cons.prems(3) c in simp)
  show ?case
  proof (cases r1)
    case (Ok a)
    then show ?thesis using Cons.IH[OF run] Cons.prems(2,3) u c by simp
  qed (use Cons.prems(2) u run c in auto)
qed simp

lemma inner_generate_run:
  assumes "manager_run X verifier (ci_manager i) hs"
    and "inner_generate_block X clock root force i w = (w', r :: (unit ibc_error, unit) outcome)" "cd_inner w = Some i"
  shows "managed X verifier w' hs"
proof (cases "get_host_head clock :: (unit ibc_error, _) outcome")
  case (Ok p)
  obtain hh ts where p: "p = (hh, ts)" by fastforce
  obtain m res where g: "manager_generate_next X hh ts root (ci_manager i) = (m, res)" by fastforce
  have "manager_run X verifier m hs" by (rule manager_run.generate[OF assms(1) g])
  then show ?thesis using assms Ok p g
    by (auto simp: inner_generate_block_def managed_def emit_def Let_def split: if_splits outcome.splits prod.splits)
qed (use assms in \<open>auto simp: inner_generate_block_def managed_def\<close>)

lemma on_inner_managed:
  assumes "managed X verifier w hs" "on_inner f w = (w', r)"
    and "\<And>i. cd_inner w = Some i \<Longrightarrow> manager_run X verifier (ci_manager i) hs \<Longrightarrow> f i w = (w', r) \<Longrightarrow> managed X verifier w' hs'"
    and "cd_inner w = None \<Longrightarrow> r = Err ChainNotInitialised \<Longrightarrow> hs' = hs"
  shows "managed X verifier w' hs'"
  using assms by (auto simp: on_inner_def managed_def split: option.splits)

lemma initialise_managed:
  assumes m: "managed X verifier w hs" and e: "epoch_inv e" "0 < cf_max_validators cfg"
    and i: "chain_initialise X clock root cfg e pid w = (w', r :: (unit ibc_error, unit) outcome)"
  shows "managed X verifier w' (if r = Ok () then map (mg_header \<circ> ci_manager) (case cd_inner w' of None \<Rightarrow> [] | Some i \<Rightarrow> [i]) else hs)"
proof (cases "r = Ok ()")
  case True
  then obtain hh ts m where m: "manager_new X cfg (block_generate_genesis X 1 hh ts root e) = Ok m"
    "cd_inner w' = Some \<lparr>ci_last_check_height = hh, ci_manager = m, ci_sig_verify_program_id = pid\<rparr>"
    using i by (auto simp: chain_initialise_def emit_def Let_def split: outcome.splits if_splits prod.splits)
  have "manager_run X verifier m [bl_header (block_generate_genesis X 1 hh ts root e)]"
    by (rule manager_run.init[OF m(1) _ e]) (simp add: block_generate_genesis_def)
  moreover have "mg_header m = bl_header (block_generate_genesis X 1 hh ts root e)"
    using m(1) by (auto simp: manager_new_def split: if_splits option.splits)
  ultimately show ?thesis using True m(2) by (simp add: managed_def)
next
  case False
  then have "cd_inner w' = cd_inner w"
    using i by (auto simp: chain_initialise_def manager_head_def manager_new_def emit_def Let_def
        split: outcome.splits if_splits prod.splits option.splits)
  then show ?thesis using m False by (simp add: managed_def)
qed

lemma sign_managed:
  assumes m: "managed X verifier w hs"
    and s: "chain_sign_block X verifier pk sig w = (w', r :: (unit ibc_error, bool) outcome)"
  shows "managed X verifier w' ((if r = Ok True then map (mg_header \<circ> ci_manager) (case cd_inner w' of None \<Rightarrow> [] | Some i \<Rightarrow> [i]) else []) @ hs)"
proof (cases "cd_inner w")
  case None
  then show ?thesis using m s by (auto simp: chain_sign_block_def on_inner_def managed_def)
next
  case (Some i)
  obtain m res where a: "add_signature verifier pk sig (ci_manager i) = (m, res)" by fastforce
  have w': "cd_inner w' = Some (i\<lparr>ci_manager := m\<rparr>)" "r = Ok True \<longleftrightarrow> res = Ok GotQuorum"
    using s a Some by (auto simp: chain_sign_block_def on_inner_def set_manager_def emit_def got_quorum_def Let_def
        split: outcome.splits if_splits)
  have "manager_run X verifier (ci_manager i) hs" using m Some by (simp add: managed_def)
  from manager_run.sign[OF this a] show ?thesis using w' by (auto simp: managed_def)
qed

lemma chain_run_managed:
  assumes "chain_run X verifier w hs"
  shows "managed X verifier w hs"
  using assms
proof induction
  case fresh
  then show ?case by (simp add: managed_def)
next
  case (initialise w hs clock root cfg e pid w' r)
  show ?case by (rule initialise_managed[OF initialise.IH initialise.hyps(3,4,2)])
next
  case (generate w hs clock root w' r)
  show ?case
    by (rule on_inner_managed[OF generate.IH generate.hyps(2)[unfolded chain_generate_block_def]])
      (auto intro: inner_generate_run)
next
  case (maybe_generate w hs clock root w' r)
  show ?case
    by (rule on_inner_managed[OF maybe_generate.IH maybe_generate.hyps(2)[unfolded chain_maybe_generate_block_def]])
      (auto intro: inner_generate_run)
next
  case (sign w hs pk sig w' r)
  show ?case by (rule sign_managed[OF sign.IH sign.hyps(2)])
next
  case (set_stake w hs pk amount w' r)
  show ?case
  proof (rule on_inner_managed[OF set_stake.IH set_stake.hyps(2)[unfolded chain_set_stake_def]])
    fix i assume i: "cd_inner w = Some i" "manager_run X verifier (ci_manager i) hs"
      and f: "(let (manager, res) = update_candidate pk (\<lambda>_. Ok amount) from_update_candidate_error (ci_manager i)
          in (set_manager i manager w, res)) = (w', r)"
    obtain m res where u: "update_candidate pk (\<lambda>_. Ok amount) (from_update_candidate_error :: _ \<Rightarrow> unit ibc_error)
        (ci_manager i) = (m, res)" by fastforce
    have "manager_run X verifier m hs" by (rule update_candidate_run[OF i(2) u]) (use set_stake.hyps(3)[OF i(1)] in auto)
    then show "managed X verifier w' hs" using f u by (auto simp: managed_def set_manager_def)
  qed simp
next
  case (update_stake w hs changes w' r)
  show ?case
  proof (rule on_inner_managed[OF update_stake.IH update_stake.hyps(2)[unfolded chain_update_stake_def]])
    fix i assume i: "cd_inner w = Some i" "manager_run X verifier (ci_manager i) hs"
      and f: "(let (manager, res) = update_stakes changes (ci_manager i) in (set_manager i manager w, res)) = (w', r)"
    obtain m res where u: "update_stakes changes (ci_manager i) = (m, res :: (unit ibc_error, unit) outcome)" by fastforce
    have "manager_run X verifier m hs" by (rule update_stakes_run[OF i(2) u update_stake.hyps(3)[OF i(1)]])
    then show "managed X verifier w' hs" using f u by (auto simp: managed_def set_manager_def)
  qed simp
next
  case (config w hs u w' r)
  show ?case
  proof (rule on_inner_managed[OF config.IH config.hyps(2)[unfolded chain_update_config_def]])
    fix i assume i: "cd_inner w = Some i" "manager_run X verifier (ci_manager i) hs"
      and f: "(let (manager, res) = manager_update_config u (ci_manager i)
          in (set_manager i manager w, map_error ConfigErr res)) = (w', r)"
    obtain m res where u: "manager_update_config u (ci_manager i) = (m, res)" by fastforce
    have "manager_run X verifier m hs" by (rule manager_run.config[OF i(2) u config.hyps(3)])
    then show "managed X verifier w' hs" using f u by (auto simp: managed_def set_manager_def)
  qed simp
qed

section \<open>Properties\<close>

text \<open>
  C23: the guest chain in the IBC program. However its methods are called, the chain data holds a chain
  manager in a state the manager's own methods lead to, and the finalised headers are
  linked. Generating a block is attempted once in a Solana block: a second attempt
  changes nothing. The attempt that every instruction starts with never makes the instruction fail.
\<close>

theorem chain_generates_once:
  assumes "chain_run X verifier w hs" "cd_inner w = Some i"
    and "(get_host_head clock :: (unit ibc_error, _) outcome) = Ok (hh, ts)"
    and "bh_block_height (mg_header (ci_manager i)) + 1 < 2 ^ 64"
  shows "manager_run X verifier (ci_manager i) hs \<and> linked X hs \<and> mg_header (ci_manager i) = hd hs \<and>
    (\<exists>w' j. chain_maybe_generate_block X clock root w = (w', Ok () :: (unit ibc_error, unit) outcome) \<and>
       cd_inner w' = Some j \<and> ci_last_check_height j = hh \<and>
       chain_maybe_generate_block X clock root' w' = (w', Ok () :: (unit ibc_error, unit) outcome) \<and>
       chain_generate_block X clock root' w' = (w', Err GenerationAlreadyAttempted :: (unit ibc_error, unit) outcome))"
proof -
  have r: "manager_run X verifier (ci_manager i) hs" using chain_run_managed[OF assms(1)] assms(2) by (simp add: managed_def)
  obtain m res where g: "manager_generate_next X hh ts root (ci_manager i) = (m, res)" by fastforce
  have res: "res \<noteq> Panic" "res = Ok () \<Longrightarrow> \<not> fst (manager_head m)"
    using g assms(4)
    by (auto simp: manager_generate_next_def validate_generate_next_def header_generate_next_def height_next_def
        checked_add_def manager_head_def Let_def split: outcome.splits if_splits)
  obtain fin hdr where hd: "manager_head m = (fin, hdr)" by fastforce
  obtain w' where w': "chain_maybe_generate_block X clock root w = (w', Ok () :: (unit ibc_error, unit) outcome)"
    "\<exists>j. cd_inner w' = Some j \<and> ci_last_check_height j = hh"
    using g res assms(2,3) hd
    by (cases "ci_last_check_height i = hh"; cases res)
      (auto simp: chain_maybe_generate_block_def on_inner_def inner_generate_block_def emit_def Let_def split: prod.splits)
  then show ?thesis using r manager_run_inv[OF r] assms(3)
    by (auto simp: chain_maybe_generate_block_def chain_generate_block_def on_inner_def inner_generate_block_def)
qed

definition ex_chain :: "(nat, bool) chain_data" where
  "ex_chain = fst (chain_initialise ex_crypto (Some (1, 1)) (replicate 32 0) ex_config ex_epoch []
     \<lparr>cd_inner = None, cd_events = []\<rparr> :: _ \<times> (unit ibc_error, unit) outcome)"

lemma ex_chain_inner: "\<exists>i. cd_inner ex_chain = Some i \<and> bh_block_height (mg_header (ci_manager i)) = 1"
  by (simp add: ex_chain_def chain_initialise_def get_host_head_def manager_new_def block_generate_genesis_def
      header_generate_genesis_def is_genesis_def ex_epoch_def candidates_new_def from_candidates_def candidate_from_def
      ex_config_def sum_head_stake_def checked_add_def candidate_order_defs manager_head_def emit_def Let_def)

lemma ex_chain_run: "\<exists>hs. chain_run ex_crypto ex_verifier ex_chain hs"
proof -
  obtain w r where i: "chain_initialise ex_crypto (Some (1, 1)) (replicate 32 0) ex_config ex_epoch []
     (\<lparr>cd_inner = None, cd_events = []\<rparr> :: (nat, bool) chain_data) = (w, r :: (unit ibc_error, unit) outcome)" by fastforce
  then have "w = ex_chain" by (simp add: ex_chain_def)
  then show ?thesis using chain_run.initialise[OF chain_run.fresh i ex_epoch_inv] by (auto simp: ex_config_def)
qed

theorem chain_generates_once_witness:
  "\<exists>w'. chain_maybe_generate_block ex_crypto (Some (10, 10)) (replicate 32 5) ex_chain = (w', Ok () :: (unit ibc_error, unit) outcome) \<and>
     chain_generate_block ex_crypto (Some (10, 10)) (replicate 32 6) w' = (w', Err GenerationAlreadyAttempted :: (unit ibc_error, unit) outcome)"
proof -
  obtain hs where r: "chain_run ex_crypto ex_verifier ex_chain hs" using ex_chain_run by blast
  obtain i where i: "cd_inner ex_chain = Some i" "bh_block_height (mg_header (ci_manager i)) = 1" using ex_chain_inner by blast
  have c: "(get_host_head (Some (10, 10)) :: (unit ibc_error, _) outcome) = Ok (10, 10000000000)" by (simp add: get_host_head_def)
  from chain_generates_once[OF r i(1) c] show ?thesis using i(2) by auto
qed

end
