(* ===== verification/Ibc_Storage.thy ===== *)
theory Ibc_Storage
  imports Trie_Steps Guest_Client Ibc_Chain "HOL-Library.AList"
begin

text \<open>
  The storage of the IBC program, \<^verbatim>\<open>solana/solana-ibc/programs/solana-ibc/src/{storage,storage/map,execution_context,validation_context}.rs\<close>:
  private data about clients, connections and channels next to the trie whose root the
  guest chain commits to, and the methods of \<open>ExecutionContext\<close> and \<open>ValidationContext\<close> that the handlers of the
  ibc crate call. What the ibc crate defines is a parameter: the types of client states, consensus
  states, connection ends and channel ends with their borsh and protobuf encodings. The storage is
  modelled as built without the feature \<open>witness\<close>.
\<close>

section \<open>Parameters\<close>

text \<open>\<open>ie_*_any\<close> and \<open>ie_*_proto\<close> are \<open>encode_vec\<close>, the other pairs \<open>borsh::to_vec\<close> and \<open>try_from_slice\<close>.\<close>

record ('s, 'cs, 'co, 'ce, 'ch) ibc_env =
  ie_digest :: "byte list \<Rightarrow> hash"
  ie_ops :: "('s, raw_node) alloc_ops"
  ie_b64 :: base64
  ie_client_enc :: "'cs \<Rightarrow> byte list option"
  ie_client_dec :: "byte list \<Rightarrow> 'cs option"
  ie_client_any :: "'cs \<Rightarrow> byte list"
  ie_consensus_enc :: "'co \<Rightarrow> byte list option"
  ie_consensus_dec :: "byte list \<Rightarrow> 'co option"
  ie_consensus_any :: "'co \<Rightarrow> byte list"
  ie_conn_enc :: "'ce \<Rightarrow> byte list option"
  ie_conn_dec :: "byte list \<Rightarrow> 'ce option"
  ie_conn_proto :: "'ce \<Rightarrow> byte list"
  ie_chan_enc :: "'ch \<Rightarrow> byte list option"
  ie_chan_dec :: "byte list \<Rightarrow> 'ch option"
  ie_chan_proto :: "'ch \<Rightarrow> byte list"

datatype packet_error =
  MissingNextSeq seq_kind string string
| PacketCommitmentNotFound "64 word"
| PacketReceiptNotFound "64 word"
| PacketAcknowledgementNotFound "64 word"

datatype context_error =
  CtxClient client_error
| CtxId id_error
| CtxPacket packet_error

section \<open>Maps\<close>

text \<open>
  \<open>map::Map\<close> wraps \<open>linear_map::LinearMap\<close>, which searches a vector of pairs: a lookup
  returns the first match, an insertion replaces it or appends, a removal moves the last
  pair into the place of the removed one.
\<close>

type_synonym ('k, 'v) linear_map = "('k \<times> 'v) list"

definition last_first :: "'a list \<Rightarrow> 'a list" where
  "last_first xs = (if xs = [] then [] else last xs # butlast xs)"

fun swap_remove :: "'k \<Rightarrow> ('k, 'v) linear_map \<Rightarrow> ('k, 'v) linear_map" where
  "swap_remove k [] = []"
| "swap_remove k ((j, v) # m) =
     (if j = k then last_first m else (j, v) # swap_remove k m)"

section \<open>Private storage\<close>

definition IBC_MAX_CONSENSUS_STATES :: nat where "IBC_MAX_CONSENSUS_STATES = 64"

text \<open>\<open>SequenceTriple\<close>: three optional numbers that are not zero.\<close>

type_synonym sequence_triple = "64 word option list"

definition triple_default :: sequence_triple where "triple_default = [None, None, None]"

definition triple_get :: "seq_kind \<Rightarrow> sequence_triple \<Rightarrow> 64 word option" where
  "triple_get idx t = t ! seq_kind_nat idx"

definition triple_set :: "seq_kind \<Rightarrow> 64 word \<Rightarrow> sequence_triple \<Rightarrow> sequence_triple" where
  "triple_set idx seq t = t[seq_kind_nat idx := (if seq = 0 then None else Some seq)]"

definition triple_to_hash :: "sequence_triple \<Rightarrow> hash" where
  "triple_to_hash t =
     (let get = (\<lambda>idx. be64 (case t ! idx of None \<Rightarrow> 0 | Some s \<Rightarrow> s)) in get 0 @ get 1 @ get 2 @ replicate 8 0)"

record client_store =
  cl_client_id :: client_id
  cl_client_state :: "byte list"
  cl_consensus_states :: "(ibc_height, byte list) linear_map"

definition client_store_new :: "client_id \<Rightarrow> client_store" where
  "client_store_new cid = \<lparr>cl_client_id = cid, cl_client_state = [], cl_consensus_states = []\<rparr>"

text \<open>
  The loop of \<open>insert_consensus_state_impl\<close>: \<open>Inl\<close> the position of the height, or
  \<open>Inr\<close> the position of the least height, if any is below the greatest one there can be.
\<close>

fun scan_states ::
  "ibc_height \<Rightarrow> nat \<Rightarrow> nat option \<Rightarrow> ibc_height \<Rightarrow> (ibc_height, 'v) linear_map \<Rightarrow> nat + nat option" where
  "scan_states height idx min_idx min_height [] = Inr min_idx"
| "scan_states height idx min_idx min_height ((h, s) # states) =
     (if h = height then Inl idx
      else if h < min_height then scan_states height (Suc idx) (Some idx) h states
      else scan_states height (Suc idx) min_idx min_height states)"

definition insert_consensus_state_impl ::
  "ibc_height \<Rightarrow> 'v \<Rightarrow> (ibc_height, 'v) linear_map \<Rightarrow> (ibc_height, 'v) linear_map option" where
  "insert_consensus_state_impl height state states =
     (case scan_states height 0 None (- 1, - 1) states of
        Inl idx \<Rightarrow> Some (states[idx := (height, state)])
      | Inr min_idx \<Rightarrow>
          if length states < IBC_MAX_CONSENSUS_STATES then Some (states @ [(height, state)])
          else map_option (\<lambda>idx. states[idx := (height, state)]) min_idx)"

definition insert_consensus_state :: "ibc_height \<Rightarrow> byte list \<Rightarrow> client_store \<Rightarrow> client_store option" where
  "insert_consensus_state height state store =
     map_option (\<lambda>states. store\<lparr>cl_consensus_states := states\<rparr>)
       (insert_consensus_state_impl height state (cl_consensus_states store))"

text \<open>\<open>Serialised::new\<close>\<close>

definition serialised_new :: "('a \<Rightarrow> byte list option) \<Rightarrow> 'a \<Rightarrow> (client_error, byte list) outcome" where
  "serialised_new enc x = ok_or ClientSpecific (enc x)"

definition serialised_get :: "(byte list \<Rightarrow> 'a option) \<Rightarrow> byte list \<Rightarrow> (client_error, 'a) outcome" where
  "serialised_get dec bytes = ok_or ClientSpecific (dec bytes)"

text \<open>\<open>BorshSerialize\<close> of \<open>Serialised\<close>: a length of two bytes, then the bytes.\<close>

definition serialised_serialize :: "borsh_codec \<Rightarrow> byte list \<Rightarrow> byte list option" where
  "serialised_serialize codec bytes =
     (if length bytes < 2 ^ 16 then Some (put_u16 codec (word_of_nat (length bytes)) @ bytes) else None)"

definition serialised_deserialize :: "borsh_codec \<Rightarrow> byte list \<Rightarrow> (byte list \<times> byte list) option" where
  "serialised_deserialize codec rd = Option.bind (take_u16 codec rd) (\<lambda>(n, rd). read_exact (unat n) rd)"

text \<open>\<open>ClientConsensusState\<close>: processed time and height in front of the consensus state.\<close>

definition ccs_new ::
  "('s, 'cs, 'co, 'ce, 'ch) ibc_env \<Rightarrow> nat \<Rightarrow> height \<Rightarrow> 'co \<Rightarrow> (client_error, byte list) outcome" where
  "ccs_new E processed_time processed_height state =
     serialised_new (\<lambda>state. map_option (\<lambda>bs. to_le 8 processed_time @ to_le 8 processed_height @ bs) (ie_consensus_enc E state)) state"

definition ccs_processed_time :: "byte list \<Rightarrow> nat option" where
  "ccs_processed_time bytes =
     (if length bytes < 8 then None
      else let t = from_le (take 8 bytes) in if t = 0 then None else Some t)"

definition ccs_processed_height :: "byte list \<Rightarrow> height option" where
  "ccs_processed_height bytes =
     (if length bytes < 16 then None else Some (from_le (take 8 (drop 8 bytes))))"

definition ccs_state :: "('s, 'cs, 'co, 'ce, 'ch) ibc_env \<Rightarrow> byte list \<Rightarrow> (client_error, 'co) outcome" where
  "ccs_state E bytes = serialised_get (ie_consensus_dec E) (drop 16 bytes)"

definition ccs_digest ::
  "('s, 'cs, 'co, 'ce, 'ch) ibc_env \<Rightarrow> client_id \<Rightarrow> byte list \<Rightarrow> (client_error, hash) outcome" where
  "ccs_digest E cid bytes =
     (if length bytes < 16 then Err ClientSpecific
      else Ok (digest_with_client_id (ie_digest E) cid (drop 16 bytes)))"

record port_channel_store =
  po_channel_end :: "byte list"
  po_next_sequence :: sequence_triple

definition port_channel_default :: port_channel_store where
  "port_channel_default = \<lparr>po_channel_end = [], po_next_sequence = triple_default\<rparr>"

record asset =
  as_original_decimals :: nat
  as_effective_decimals_on_sol :: nat

record private_storage =
  ps_clients :: "client_store list"
  ps_connections :: "byte list list"
  ps_port_channel :: "(port_channel, port_channel_store) linear_map"
  ps_channel_counter :: "32 word"
  ps_fee_collector :: "byte list"
  ps_new_fee_collector_proposal :: "byte list option"
  ps_assets :: "(hash, asset) linear_map"
  ps_fee_in_lamports :: "64 word"

definition private_client_counter :: "private_storage \<Rightarrow> nat" where
  "private_client_counter ps = length (ps_clients ps)"

definition private_client :: "private_storage \<Rightarrow> client_id \<Rightarrow> (client_error, client_idx \<times> client_store) outcome" where
  "private_client ps cid =
     ok_or (ClientStateNotFound cid)
       (Option.bind (ok_option (client_idx_try_from cid)) (\<lambda>index.
          let pos = unat (client_counter index) in
          if pos < length (ps_clients ps) \<and> cl_client_id (ps_clients ps ! pos) = cid
          then Some (index, ps_clients ps ! pos) else None))"

text \<open>\<open>client_mut\<close> returns the position of the store; with \<open>create\<close> it may append a new one.\<close>

definition private_client_mut ::
  "client_id \<Rightarrow> bool \<Rightarrow> private_storage \<Rightarrow> private_storage \<times> (client_error, client_idx) outcome" where
  "private_client_mut cid create ps =
     (case ok_option (client_idx_try_from cid) of
        None \<Rightarrow> (ps, Err (ClientStateNotFound cid))
      | Some index \<Rightarrow>
          (let pos = unat (client_counter index) in
           if pos < length (ps_clients ps)
           then (ps, if cl_client_id (ps_clients ps ! pos) = cid then Ok index else Err (ClientStateNotFound cid))
           else if pos = length (ps_clients ps) \<and> create
           then (ps\<lparr>ps_clients := ps_clients ps @ [client_store_new cid]\<rparr>, Ok index)
           else (ps, Err (ClientStateNotFound cid))))"

section \<open>The storage\<close>

record ('s, 'pk, 'sig) ibc_storage =
  st_private :: private_storage
  st_provable :: "'s trie"
  st_chain :: "('pk, 'sig) chain_data"

text \<open>Changing the store of a client and the values in the trie.\<close>

definition set_client_store :: "client_idx \<Rightarrow> client_store \<Rightarrow> private_storage \<Rightarrow> private_storage" where
  "set_client_store index store ps =
     ps\<lparr>ps_clients := (ps_clients ps)[unat (client_counter index) := store]\<rparr>"

definition provable_set ::
  "('s, 'cs, 'co, 'ce, 'ch) ibc_env \<Rightarrow> (trie_error \<Rightarrow> 'e) \<Rightarrow> trie_key \<Rightarrow> hash \<Rightarrow>
   (('s, 'pk, 'sig) ibc_storage, 'e, unit) stateful" where
  "provable_set E err key hash st =
     (let (t, r) = trie_set (ie_digest E) (ie_ops E) (key_deref key) hash (st_provable st)
      in (st\<lparr>st_provable := t\<rparr>, map_error err r))"

definition provable_del ::
  "('s, 'cs, 'co, 'ce, 'ch) ibc_env \<Rightarrow> (trie_error \<Rightarrow> 'e) \<Rightarrow> trie_key \<Rightarrow> (('s, 'pk, 'sig) ibc_storage, 'e, unit) stateful" where
  "provable_del E err key st =
     (let (t, r) = trie_del (ie_digest E) (ie_ops E) (key_deref key) (st_provable st)
      in (st\<lparr>st_provable := t\<rparr>, map_error err (bind_outcome r (\<lambda>_. Ok ()))))"

definition client_err :: "trie_error \<Rightarrow> client_error" where "client_err _ = ClientOther"

definition ctx_err :: "trie_error \<Rightarrow> context_error" where "ctx_err _ = CtxClient ClientOther"

definition on_private ::
  "(private_storage \<Rightarrow> private_storage \<times> ('e, 'a) outcome) \<Rightarrow> (('s, 'pk, 'sig) ibc_storage, 'e, 'a) stateful" where
  "on_private f st = (let (ps, r) = f (st_private st) in (st\<lparr>st_private := ps\<rparr>, r))"

text \<open>An error of the chain, turned into an error of a client.\<close>

definition storage_head :: "('s, 'pk, 'sig) ibc_storage \<Rightarrow> (client_error, block_header) outcome" where
  "storage_head st = map_error (\<lambda>_ :: unit ibc_error. ClientOther) (chain_head (st_chain st))"

section \<open>Execution context\<close>

definition store_client_state_impl ::
  "('s, 'cs, 'co, 'ce, 'ch) ibc_env \<Rightarrow> client_id \<Rightarrow> 'cs \<Rightarrow> (('s, 'pk, 'sig) ibc_storage, client_error, unit) stateful" where
  "store_client_state_impl E cid state =
     st_bind (on_private (private_client_mut cid True)) (\<lambda>index.
     st_bind (st_lift (serialised_new (ie_client_enc E) state)) (\<lambda>bytes.
     st_bind (on_private (\<lambda>ps. (set_client_store index
         ((ps_clients ps ! unat (client_counter index))\<lparr>cl_client_state := bytes\<rparr>) ps, Ok ()))) (\<lambda>_.
     st_bind (st_lift (for_client_state index)) (\<lambda>key.
       provable_set E client_err key (digest_with_client_id (ie_digest E) cid (ie_client_any E state))))))"

definition store_consensus_state_impl ::
  "('s, 'cs, 'co, 'ce, 'ch) ibc_env \<Rightarrow> client_id \<Rightarrow> ibc_height \<Rightarrow> 'co \<Rightarrow>
   (('s, 'pk, 'sig) ibc_storage, client_error, unit) stateful" where
  "store_consensus_state_impl E cid height state =
     st_bind (\<lambda>st. (st, storage_head st)) (\<lambda>hd.
     st_bind (on_private (private_client_mut cid False)) (\<lambda>index.
     st_bind (st_lift (ccs_new E (bh_timestamp_ns hd) (bh_block_height hd) state)) (\<lambda>bytes.
     st_bind (on_private (\<lambda>ps.
         case insert_consensus_state height bytes (ps_clients ps ! unat (client_counter index)) of
           None \<Rightarrow> (ps, Panic) | Some store \<Rightarrow> (set_client_store index store ps, Ok ()))) (\<lambda>_.
     st_bind (st_lift (for_consensus_state index height)) (\<lambda>key.
       provable_set E client_err key (digest_with_client_id (ie_digest E) cid (ie_consensus_any E state)))))))"

definition delete_consensus_state_impl ::
  "('s, 'cs, 'co, 'ce, 'ch) ibc_env \<Rightarrow> client_id \<Rightarrow> ibc_height \<Rightarrow>
   (('s, 'pk, 'sig) ibc_storage, client_error, unit) stateful" where
  "delete_consensus_state_impl E cid height =
     st_bind (on_private (private_client_mut cid False)) (\<lambda>index.
     st_bind (on_private (\<lambda>ps.
         let store = ps_clients ps ! unat (client_counter index) in
         (set_client_store index (store\<lparr>cl_consensus_states := swap_remove height (cl_consensus_states store)\<rparr>) ps, Ok ()))) (\<lambda>_.
     st_bind (st_lift (for_consensus_state index height)) (\<lambda>key. provable_del E client_err key)))"

text \<open>The methods of \<open>ClientExecutionContext\<close>.\<close>

definition lift_client :: "('w, client_error, 'a) stateful \<Rightarrow> ('w, context_error, 'a) stateful" where
  "lift_client f w = (let (w, r) = f w in (w, map_error CtxClient r))"

definition store_client_state ::
  "('s, 'cs, 'co, 'ce, 'ch) ibc_env \<Rightarrow> client_id \<Rightarrow> 'cs \<Rightarrow> (('s, 'pk, 'sig) ibc_storage, context_error, unit) stateful" where
  "store_client_state E cid state = lift_client (store_client_state_impl E cid state)"

definition store_consensus_state ::
  "('s, 'cs, 'co, 'ce, 'ch) ibc_env \<Rightarrow> client_id \<Rightarrow> 64 word \<Rightarrow> 64 word \<Rightarrow> 'co \<Rightarrow>
   (('s, 'pk, 'sig) ibc_storage, context_error, unit) stateful" where
  "store_consensus_state E cid revision_number revision_height state =
     lift_client (st_bind (st_lift (height_new revision_number revision_height)) (\<lambda>height.
       store_consensus_state_impl E cid height state))"

definition delete_consensus_state ::
  "('s, 'cs, 'co, 'ce, 'ch) ibc_env \<Rightarrow> client_id \<Rightarrow> 64 word \<Rightarrow> 64 word \<Rightarrow>
   (('s, 'pk, 'sig) ibc_storage, context_error, unit) stateful" where
  "delete_consensus_state E cid revision_number revision_height =
     lift_client (st_bind (st_lift (height_new revision_number revision_height)) (\<lambda>height.
       delete_consensus_state_impl E cid height))"

text \<open>Connections are numbered; the next one is appended.\<close>

definition store_connection ::
  "('s, 'cs, 'co, 'ce, 'ch) ibc_env \<Rightarrow> string \<Rightarrow> 'ce \<Rightarrow> (('s, 'pk, 'sig) ibc_storage, context_error, unit) stateful" where
  "store_connection E connection_id connection_end =
     st_bind (st_lift (map_error CtxId (connection_idx_try_from connection_id))) (\<lambda>connection.
     st_bind (st_lift (map_error CtxClient (serialised_new (ie_conn_enc E) connection_end))) (\<lambda>serialised.
     st_bind (on_private (\<lambda>ps.
         let index = unat (connection_counter connection); connections = ps_connections ps in
         if index < length connections then (ps\<lparr>ps_connections := connections[index := serialised]\<rparr>, Ok ())
         else if index = length connections then (ps\<lparr>ps_connections := connections @ [serialised]\<rparr>, Ok ())
         else (ps, Err (CtxId (ConnectionNotFound connection_id))))) (\<lambda>_.
     st_bind (st_lift (for_connection connection)) (\<lambda>key.
       provable_set E ctx_err key (ie_digest E (ie_conn_proto E connection_end))))))"

text \<open>The caller promises that a commitment has 32 bytes.\<close>

definition store_commitment ::
  "('s, 'cs, 'co, 'ce, 'ch) ibc_env \<Rightarrow> trie_key \<Rightarrow> byte list \<Rightarrow> (('s, 'pk, 'sig) ibc_storage, context_error, unit) stateful" where
  "store_commitment E key commitment =
     (if length commitment = 32 then provable_set E ctx_err key commitment else st_lift Panic)"

definition delete_commitment ::
  "('s, 'cs, 'co, 'ce, 'ch) ibc_env \<Rightarrow> trie_key \<Rightarrow> (('s, 'pk, 'sig) ibc_storage, context_error, unit) stateful" where
  "delete_commitment E key = provable_del E ctx_err key"

definition store_packet_commitment ::
  "('s, 'cs, 'co, 'ce, 'ch) ibc_env \<Rightarrow> string \<Rightarrow> string \<Rightarrow> 64 word \<Rightarrow> byte list \<Rightarrow>
   (('s, 'pk, 'sig) ibc_storage, context_error, unit) stateful" where
  "store_packet_commitment E port_id channel_id seq commitment =
     st_bind (st_lift (map_error CtxId (key_from_commitment (ie_b64 E) port_id channel_id seq))) (\<lambda>key.
       store_commitment E key commitment)"

definition delete_packet_commitment ::
  "('s, 'cs, 'co, 'ce, 'ch) ibc_env \<Rightarrow> string \<Rightarrow> string \<Rightarrow> 64 word \<Rightarrow>
   (('s, 'pk, 'sig) ibc_storage, context_error, unit) stateful" where
  "delete_packet_commitment E port_id channel_id seq =
     st_bind (st_lift (map_error CtxId (key_from_commitment (ie_b64 E) port_id channel_id seq))) (\<lambda>key.
       delete_commitment E key)"

definition store_packet_receipt ::
  "('s, 'cs, 'co, 'ce, 'ch) ibc_env \<Rightarrow> string \<Rightarrow> string \<Rightarrow> 64 word \<Rightarrow>
   (('s, 'pk, 'sig) ibc_storage, context_error, unit) stateful" where
  "store_packet_receipt E port_id channel_id seq =
     st_bind (st_lift (map_error CtxId (key_from_receipt (ie_b64 E) port_id channel_id seq))) (\<lambda>key.
       store_commitment E key (replicate 32 0))"

definition store_packet_acknowledgement ::
  "('s, 'cs, 'co, 'ce, 'ch) ibc_env \<Rightarrow> string \<Rightarrow> string \<Rightarrow> 64 word \<Rightarrow> byte list \<Rightarrow>
   (('s, 'pk, 'sig) ibc_storage, context_error, unit) stateful" where
  "store_packet_acknowledgement E port_id channel_id seq commitment =
     st_bind (st_lift (map_error CtxId (key_from_ack (ie_b64 E) port_id channel_id seq))) (\<lambda>key.
       store_commitment E key commitment)"

definition delete_packet_acknowledgement ::
  "('s, 'cs, 'co, 'ce, 'ch) ibc_env \<Rightarrow> string \<Rightarrow> string \<Rightarrow> 64 word \<Rightarrow>
   (('s, 'pk, 'sig) ibc_storage, context_error, unit) stateful" where
  "delete_packet_acknowledgement E port_id channel_id seq =
     st_bind (st_lift (map_error CtxId (key_from_ack (ie_b64 E) port_id channel_id seq))) (\<lambda>key.
       delete_commitment E key)"

text \<open>\<open>entry(key).or_insert_with(Default::default)\<close> followed by a change of the entry.\<close>

definition update_entry ::
  "port_channel \<Rightarrow> (port_channel_store \<Rightarrow> port_channel_store) \<Rightarrow> private_storage \<Rightarrow> private_storage" where
  "update_entry key f ps =
     ps\<lparr>ps_port_channel := AList.update key
          (f (case map_of (ps_port_channel ps) key of None \<Rightarrow> port_channel_default | Some store \<Rightarrow> store)) (ps_port_channel ps)\<rparr>"

definition store_channel ::
  "('s, 'cs, 'co, 'ce, 'ch) ibc_env \<Rightarrow> string \<Rightarrow> string \<Rightarrow> 'ch \<Rightarrow> (('s, 'pk, 'sig) ibc_storage, context_error, unit) stateful" where
  "store_channel E port_id channel_id channel_end =
     st_bind (st_lift (map_error CtxId (port_channel_try_from (ie_b64 E) port_id channel_id))) (\<lambda>port_channel.
     st_bind (st_lift (for_channel_end port_channel)) (\<lambda>trie_key.
     st_bind (on_private (\<lambda>ps.
         case serialised_new (ie_chan_enc E) channel_end of
           Ok bytes \<Rightarrow> (update_entry port_channel (\<lambda>store. store\<lparr>po_channel_end := bytes\<rparr>) ps, Ok ())
         | Err e \<Rightarrow> (update_entry port_channel (\<lambda>store. store) ps, Err (CtxClient ClientOther))
         | Panic \<Rightarrow> (ps, Panic))) (\<lambda>_.
       provable_set E ctx_err trie_key (ie_digest E (ie_chan_proto E channel_end)))))"

definition store_next_sequence ::
  "('s, 'cs, 'co, 'ce, 'ch) ibc_env \<Rightarrow> seq_kind \<Rightarrow> string \<Rightarrow> string \<Rightarrow> 64 word \<Rightarrow>
   (('s, 'pk, 'sig) ibc_storage, context_error, unit) stateful" where
  "store_next_sequence E kind port_id channel_id seq =
     st_bind (st_lift (map_error CtxId (port_channel_try_from (ie_b64 E) port_id channel_id))) (\<lambda>key.
     st_bind (st_lift (for_next_sequence key)) (\<lambda>trie_key.
     st_bind (on_private (\<lambda>ps.
         let ps = update_entry key (\<lambda>store. store\<lparr>po_next_sequence := triple_set kind seq (po_next_sequence store)\<rparr>) ps
         in (ps, Ok (triple_to_hash (po_next_sequence (the (map_of (ps_port_channel ps) key))))))) (\<lambda>hash.
       provable_set E ctx_err trie_key hash)))"

definition store_next_sequence_send where "store_next_sequence_send E = store_next_sequence E SeqKindSend"

definition store_next_sequence_recv where "store_next_sequence_recv E = store_next_sequence E SeqKindRecv"

definition store_next_sequence_ack where "store_next_sequence_ack E = store_next_sequence E SeqKindAck"

text \<open>An overflow of the counter panics; the program is built with overflow checks.\<close>

definition increase_channel_counter :: "(('s, 'pk, 'sig) ibc_storage, context_error, unit) stateful" where
  "increase_channel_counter =
     on_private (\<lambda>ps. if ps_channel_counter ps = - 1 then (ps, Panic)
       else (ps\<lparr>ps_channel_counter := ps_channel_counter ps + 1\<rparr>, Ok ()))"

section \<open>Validation context\<close>

definition get_client_state ::
  "('s, 'cs, 'co, 'ce, 'ch) ibc_env \<Rightarrow> ('s, 'pk, 'sig) ibc_storage \<Rightarrow> client_id \<Rightarrow> (context_error, 'cs) outcome" where
  "get_client_state E st cid =
     map_error CtxClient (bind_outcome (private_client (st_private st) cid) (\<lambda>(_, store).
       serialised_get (ie_client_dec E) (cl_client_state store)))"

definition consensus_state_impl ::
  "('s, 'cs, 'co, 'ce, 'ch) ibc_env \<Rightarrow> ('s, 'pk, 'sig) ibc_storage \<Rightarrow> client_id \<Rightarrow> ibc_height \<Rightarrow> (client_error, 'co) outcome" where
  "consensus_state_impl E st cid height =
     bind_outcome (private_client (st_private st) cid) (\<lambda>(_, store).
     bind_outcome (ok_or (ConsensusStateNotFound cid height) (map_of (cl_consensus_states store) height)) (\<lambda>bytes.
       ccs_state E bytes))"

definition get_consensus_state_at ::
  "('s, 'cs, 'co, 'ce, 'ch) ibc_env \<Rightarrow> ('s, 'pk, 'sig) ibc_storage \<Rightarrow> client_id \<Rightarrow> 64 word \<Rightarrow> 64 word \<Rightarrow>
   (context_error, 'co) outcome" where
  "get_consensus_state_at E st cid revision_number revision_height =
     map_error CtxClient (bind_outcome (height_new revision_number revision_height) (consensus_state_impl E st cid))"

definition host_height :: "('s, 'pk, 'sig) ibc_storage \<Rightarrow> (client_error, ibc_height) outcome" where
  "host_height st = bind_outcome (storage_head st) (\<lambda>hd. height_new 1 (u64 (bh_block_height hd)))"

definition host_timestamp :: "('s, 'pk, 'sig) ibc_storage \<Rightarrow> (client_error, nat) outcome" where
  "host_timestamp st = bind_outcome (storage_head st) (\<lambda>hd. Ok (bh_timestamp_ns hd))"

definition host_consensus_state ::
  "('s, 'pk, 'sig) ibc_storage \<Rightarrow> ibc_height \<Rightarrow> (client_error, guest_consensus) outcome" where
  "host_consensus_state st height =
     (if fst height = 1 then
        bind_outcome (map_error (\<lambda>_ :: unit ibc_error. ClientOther) (chain_consensus_state (st_chain st) (unat (snd height)))) (\<lambda>state.
          case state of
            None \<Rightarrow> Err (MissingLocalConsensusState height)
          | Some (hash, timestamp) \<Rightarrow> Ok \<lparr>co_block_hash = hash, co_timestamp_ns = timestamp\<rparr>)
      else Err (MissingLocalConsensusState height))"

definition connection_end ::
  "('s, 'cs, 'co, 'ce, 'ch) ibc_env \<Rightarrow> ('s, 'pk, 'sig) ibc_storage \<Rightarrow> string \<Rightarrow> (context_error, 'ce) outcome" where
  "connection_end E st conn_id =
     bind_outcome (map_error CtxId (connection_idx_try_from conn_id)) (\<lambda>idx.
       let index = unat (connection_counter idx) in
       if index < length (ps_connections (st_private st))
       then map_error CtxClient (serialised_get (ie_conn_dec E) (ps_connections (st_private st) ! index))
       else Err (CtxId (ConnectionNotFound conn_id)))"

definition channel_end ::
  "('s, 'cs, 'co, 'ce, 'ch) ibc_env \<Rightarrow> ('s, 'pk, 'sig) ibc_storage \<Rightarrow> string \<Rightarrow> string \<Rightarrow> (context_error, 'ch) outcome" where
  "channel_end E st port_id channel_id =
     bind_outcome (map_error CtxId (port_channel_try_from (ie_b64 E) port_id channel_id)) (\<lambda>key.
       case map_of (ps_port_channel (st_private st)) key of
         None \<Rightarrow> Err (CtxId (ChannelNotFound port_id channel_id))
       | Some store \<Rightarrow>
           if po_channel_end store = [] then Err (CtxId (ChannelNotFound port_id channel_id))
           else map_error CtxClient (serialised_get (ie_chan_dec E) (po_channel_end store)))"

definition get_next_sequence ::
  "('s, 'cs, 'co, 'ce, 'ch) ibc_env \<Rightarrow> ('s, 'pk, 'sig) ibc_storage \<Rightarrow> seq_kind \<Rightarrow> string \<Rightarrow> string \<Rightarrow>
   (context_error, 64 word) outcome" where
  "get_next_sequence E st kind port_id channel_id =
     bind_outcome (map_error CtxId (port_channel_try_from (ie_b64 E) port_id channel_id)) (\<lambda>key.
       ok_or (CtxPacket (MissingNextSeq kind port_id channel_id))
         (Option.bind (map_of (ps_port_channel (st_private st)) key) (\<lambda>store. triple_get kind (po_next_sequence store))))"

definition provable_get ::
  "('s, 'cs, 'co, 'ce, 'ch) ibc_env \<Rightarrow> ('s, 'pk, 'sig) ibc_storage \<Rightarrow> trie_key \<Rightarrow> hash option" where
  "provable_get E st key =
     (case trie_get (ie_ops E) (st_provable st) (key_deref key) of Ok v \<Rightarrow> v | _ \<Rightarrow> None)"

definition get_packet_commitment ::
  "('s, 'cs, 'co, 'ce, 'ch) ibc_env \<Rightarrow> ('s, 'pk, 'sig) ibc_storage \<Rightarrow> string \<Rightarrow> string \<Rightarrow> 64 word \<Rightarrow>
   (context_error, byte list) outcome" where
  "get_packet_commitment E st port_id channel_id seq =
     bind_outcome (map_error CtxId (key_from_commitment (ie_b64 E) port_id channel_id seq)) (\<lambda>key.
       ok_or (CtxPacket (PacketCommitmentNotFound seq)) (provable_get E st key))"

definition get_packet_receipt ::
  "('s, 'cs, 'co, 'ce, 'ch) ibc_env \<Rightarrow> ('s, 'pk, 'sig) ibc_storage \<Rightarrow> string \<Rightarrow> string \<Rightarrow> 64 word \<Rightarrow>
   (context_error, unit) outcome" where
  "get_packet_receipt E st port_id channel_id seq =
     bind_outcome (map_error CtxId (key_from_receipt (ie_b64 E) port_id channel_id seq)) (\<lambda>key.
       if provable_get E st key = Some HASH_DEFAULT then Ok () else Err (CtxPacket (PacketReceiptNotFound seq)))"

definition get_packet_acknowledgement ::
  "('s, 'cs, 'co, 'ce, 'ch) ibc_env \<Rightarrow> ('s, 'pk, 'sig) ibc_storage \<Rightarrow> string \<Rightarrow> string \<Rightarrow> 64 word \<Rightarrow>
   (context_error, byte list) outcome" where
  "get_packet_acknowledgement E st port_id channel_id seq =
     bind_outcome (map_error CtxId (key_from_ack (ie_b64 E) port_id channel_id seq)) (\<lambda>key.
       ok_or (CtxPacket (PacketAcknowledgementNotFound seq)) (provable_get E st key))"

definition get_channel_counter :: "('s, 'pk, 'sig) ibc_storage \<Rightarrow> nat" where
  "get_channel_counter st = unat (ps_channel_counter (st_private st))"

definition connection_counter_of :: "('s, 'pk, 'sig) ibc_storage \<Rightarrow> nat" where
  "connection_counter_of st = length (ps_connections (st_private st))"

text \<open>The time of processing that is kept with a consensus state.\<close>

definition update_meta ::
  "('s, 'pk, 'sig) ibc_storage \<Rightarrow> client_id \<Rightarrow> ibc_height \<Rightarrow> (client_error, nat \<times> ibc_height) outcome" where
  "update_meta st cid height =
     bind_outcome (private_client (st_private st) cid) (\<lambda>(_, store).
       ok_or ClientOther
         (Option.bind (map_of (cl_consensus_states store) height) (\<lambda>bytes.
          Option.bind (ccs_processed_time bytes) (\<lambda>ts.
          Option.bind (ccs_processed_height bytes) (\<lambda>h.
            map_option (\<lambda>h. (ts, h)) (ok_option (height_new 1 (u64 h))))))))"

section \<open>Maps in vectors\<close>

lemma map_of_replace:
  assumes "distinct (map fst (ys @ (k, w) # zs))" "h \<notin> fst ` set ys" "h \<notin> fst ` set zs"
  shows "map_of (ys @ (h, v) # zs) = ((map_of (ys @ (k, w) # zs))(k := None))(h \<mapsto> v)"
proof -
  have n: "map_of ys h = None" "map_of zs h = None" "map_of ys k = None" "map_of zs k = None"
    using assms by (auto simp: map_of_eq_None_iff)
  then show ?thesis by (auto simp: fun_eq_iff map_add_def split: option.splits)
qed

lemma map_of_list_update:
  assumes d: "distinct (map fst xs)" and i: "i < length xs" and h: "h = fst (xs ! i) \<or> h \<notin> fst ` set xs"
  shows "map_of (xs[i := (h, v)]) = ((map_of xs)(fst (xs ! i) := None))(h \<mapsto> v)" "distinct (map fst (xs[i := (h, v)]))"
proof -
  obtain k w where kw: "xs ! i = (k, w)" by fastforce
  have xs: "xs = take i xs @ (k, w) # drop (Suc i) xs" using id_take_nth_drop[OF i] kw by simp
  have up: "xs[i := (h, v)] = take i xs @ (h, v) # drop (Suc i) xs" using i by (rule upd_conv_take_nth_drop)
  have d': "distinct (map fst (take i xs @ (k, w) # drop (Suc i) xs))" using d xs by metis
  have "h \<notin> fst ` set (take i xs)" "h \<notin> fst ` set (drop (Suc i) xs)"
    using h d' kw by (auto dest: in_set_takeD in_set_dropD)
  from map_of_replace[OF d' this] show "map_of (xs[i := (h, v)]) = ((map_of xs)(fst (xs ! i) := None))(h \<mapsto> v)"
    unfolding up kw using xs by simp
  show "distinct (map fst (xs[i := (h, v)]))"
    unfolding up using d' \<open>h \<notin> fst ` set (take i xs)\<close> \<open>h \<notin> fst ` set (drop (Suc i) xs)\<close> by auto
qed

lemma mset_last_first: "mset (last_first xs) = mset xs"
  by (cases xs rule: rev_cases) (simp_all add: last_first_def)

lemma last_first_map:
  assumes "distinct (map fst m)"
  shows "map_of (last_first m) = map_of m" "distinct (map fst (last_first m))" "set (last_first m) = set m"
proof -
  show s: "set (last_first m) = set m" by (metis mset_last_first set_mset_mset)
  show d: "distinct (map fst (last_first m))" using assms by (metis mset_last_first mset_eq_imp_distinct_iff mset_map)
  show "map_of (last_first m) = map_of m" using map_of_inject_set[OF d assms] s by simp
qed

lemma swap_remove_spec:
  assumes "distinct (map fst m)"
  shows "map_of (swap_remove k m) = (map_of m)(k := None)" "distinct (map fst (swap_remove k m))"
    "fst ` set (swap_remove k m) = fst ` set m - {k}"
  using assms
  by (induction k m rule: swap_remove.induct)
    (auto simp: last_first_map fun_upd_twist map_of_eq_None_iff fun_upd_idem_iff image_iff)

text \<open>The position of a height, or of the lowest one.\<close>

lemma scan_states_Inl:
  "scan_states height idx mi mh states = Inl i \<Longrightarrow> idx \<le> i \<and> i - idx < length states \<and> fst (states ! (i - idx)) = height"
  by (induction height idx mi mh states rule: scan_states.induct) (force split: if_splits simp: nth_Cons' Suc_diff_le)+

lemma scan_states_Inr:
  assumes "scan_states height idx mi mh states = Inr r"
  shows "height \<notin> fst ` set states \<and>
    (r = mi \<and> (\<forall>e \<in> set states. \<not> fst e < mh) \<or>
     (\<exists>i. r = Some i \<and> idx \<le> i \<and> i < idx + length states \<and> (\<forall>e \<in> set states. fst (states ! (i - idx)) \<le> fst e) \<and> fst (states ! (i - idx)) < mh))"
  using assms
proof (induction height idx mi mh states rule: scan_states.induct)
  case (2 height idx mi mh h s states)
  show ?case
  proof (cases "h < mh")
    case True
    with 2(1) 2(3) have I: "h \<noteq> height" "height \<notin> fst ` set states"
      "r = Some idx \<and> (\<forall>e \<in> set states. \<not> fst e < h) \<or>
       (\<exists>i. r = Some i \<and> Suc idx \<le> i \<and> i < Suc idx + length states \<and>
          (\<forall>e \<in> set states. fst (states ! (i - Suc idx)) \<le> fst e) \<and> fst (states ! (i - Suc idx)) < h)"
      by (auto split: if_splits)
    from I(3) show ?thesis
    proof (elim disjE exE conjE)
      assume "r = Some idx" "\<forall>e \<in> set states. \<not> fst e < h"
      then show ?thesis using I(1,2) True by (auto simp: not_less)
    next
      fix i assume i: "r = Some i" "Suc idx \<le> i" "i < Suc idx + length states"
        "\<forall>e \<in> set states. fst (states ! (i - Suc idx)) \<le> fst e" "fst (states ! (i - Suc idx)) < h"
      have "((h, s) # states) ! (i - idx) = states ! (i - Suc idx)" using i(2) by (simp add: nth_Cons')
      then show ?thesis using I(1,2) True i by (auto intro: order.strict_trans)
    qed
  next
    case False
    with 2(2) 2(3) have I: "h \<noteq> height" "height \<notin> fst ` set states"
      "r = mi \<and> (\<forall>e \<in> set states. \<not> fst e < mh) \<or>
       (\<exists>i. r = Some i \<and> Suc idx \<le> i \<and> i < Suc idx + length states \<and>
          (\<forall>e \<in> set states. fst (states ! (i - Suc idx)) \<le> fst e) \<and> fst (states ! (i - Suc idx)) < mh)"
      by (auto split: if_splits)
    from I(3) show ?thesis
    proof (elim disjE exE conjE)
      fix i assume i: "r = Some i" "Suc idx \<le> i" "i < Suc idx + length states"
        "\<forall>e \<in> set states. fst (states ! (i - Suc idx)) \<le> fst e" "fst (states ! (i - Suc idx)) < mh"
      have "((h, s) # states) ! (i - idx) = states ! (i - Suc idx)" using i(2) by (simp add: nth_Cons')
      then show ?thesis using I(1,2) False i by (auto simp: not_less intro: order.strict_implies_order order.trans[OF order.strict_implies_order])
    qed (use I False in auto)
  qed
qed simp

text \<open>
  A new consensus state is kept; the number of states stays bounded, and if one has to go it is the
  lowest. With 64 different heights one is below the greatest possible height, so that there always is one to
  drop.
\<close>

definition states_inv :: "(ibc_height, 'v) linear_map \<Rightarrow> bool" where
  "states_inv states \<longleftrightarrow> distinct (map fst states) \<and> length states \<le> IBC_MAX_CONSENSUS_STATES"

lemma insert_consensus_state_spec:
  assumes "states_inv states"
  obtains states' where "insert_consensus_state_impl height state states = Some states'" "states_inv states'"
    "map_of states' = (map_of states)(height \<mapsto> state) \<or>
      (\<exists>low. low \<in> dom (map_of states) \<and> (\<forall>h \<in> dom (map_of states). low \<le> h) \<and> height \<notin> dom (map_of states) \<and>
         length states = IBC_MAX_CONSENSUS_STATES \<and> map_of states' = ((map_of states)(low := None))(height \<mapsto> state))"
proof -
  have d: "distinct (map fst states)" "length states \<le> IBC_MAX_CONSENSUS_STATES" using assms by (auto simp: states_inv_def)
  consider i where "scan_states height 0 None (- 1, - 1) states = Inl i"
    | r where "scan_states height 0 None (- 1, - 1) states = Inr r" by (metis sum.exhaust)
  then show thesis
  proof cases
    case 1
    then have i: "i < length states" "fst (states ! i) = height" using scan_states_Inl[OF 1] by auto
    note u = map_of_list_update[OF d(1) i(1), of height state]
    show thesis
      by (rule that[of "states[i := (height, state)]"]) (use 1 i u d in \<open>auto simp: insert_consensus_state_impl_def states_inv_def\<close>)
  next
    case 2
    note S = scan_states_Inr[OF 2]
    show thesis
    proof (cases "length states < IBC_MAX_CONSENSUS_STATES")
      case True
      have "map_of states height = None" using S by (simp add: map_of_eq_None_iff)
      then have "map_of (states @ [(height, state)]) = (map_of states)(height \<mapsto> state)"
        by (auto simp: fun_eq_iff map_add_def split: option.splits)
      then show thesis
        using that[of "states @ [(height, state)]"] 2 True d S by (auto simp: insert_consensus_state_impl_def states_inv_def)
    next
      case False
      then have len: "length states = 64" using d(2) by (simp add: IBC_MAX_CONSENSUS_STATES_def)
      have "\<exists>e \<in> set states. fst e < (- 1, - 1)"
      proof (rule ccontr)
        assume "\<not> ?thesis"
        then have "\<forall>e \<in> set states. fst e = (- 1, - 1)" by (auto simp: less_prod_def' not_less word_order.extremum_unique)
        then have "set (map fst states) \<subseteq> {(- 1, - 1)}" by auto
        from card_mono[OF _ this] have "card (set (map fst states)) \<le> 1" by simp
        then show False using distinct_card[OF d(1)] len by simp
      qed
      then obtain i where i: "r = Some i" "i < length states" "\<forall>e \<in> set states. fst (states ! i) \<le> fst e" "height \<notin> fst ` set states"
        using S by auto
      note u = map_of_list_update[OF d(1) i(2), of height state]
      have low: "fst (states ! i) \<in> dom (map_of states) \<and> (\<forall>h \<in> dom (map_of states). fst (states ! i) \<le> h) \<and>
        height \<notin> dom (map_of states)"
        using i(2,3,4) by (auto simp: dom_map_of_conv_image_fst)
      have "insert_consensus_state_impl height state states = Some (states[i := (height, state)])"
        using 2 i(1) False by (simp add: insert_consensus_state_impl_def)
      moreover have "states_inv (states[i := (height, state)])" using u(2) d i(4) by (simp add: states_inv_def)
      moreover have "length states = IBC_MAX_CONSENSUS_STATES" using len by (simp add: IBC_MAX_CONSENSUS_STATES_def)
      ultimately show thesis using that[of "states[i := (height, state)]"] u(1)[OF disjI2[OF i(4)]] low by blast
    qed
  qed
qed

section \<open>The clients that are stored\<close>

lemma private_client_Ok:
  "private_client ps cid = Ok (index, store) \<longleftrightarrow>
     client_idx_try_from cid = Ok index \<and> unat (client_counter index) < length (ps_clients ps) \<and>
     store = ps_clients ps ! unat (client_counter index) \<and> cl_client_id store = cid"
  by (auto simp: private_client_def ok_or_def bind_eq_Some_conv Let_def ok_option_def split: option.splits outcome.splits if_splits)

lemma private_client_Err: "(\<nexists>x. private_client ps cid = Ok x) \<Longrightarrow> private_client ps cid = Err (ClientStateNotFound cid)"
  by (auto simp: private_client_def ok_or_def split: option.splits)

text \<open>What a client of the storage can read of a light client.\<close>

definition stored_client :: "('s, 'cs, 'co, 'ce, 'ch) ibc_env \<Rightarrow> private_storage \<Rightarrow> client_id \<rightharpoonup> 'cs" where
  "stored_client E ps cid =
     (case private_client ps cid of Ok (_, store) \<Rightarrow> ie_client_dec E (cl_client_state store) | _ \<Rightarrow> None)"

definition stored_consensus :: "('s, 'cs, 'co, 'ce, 'ch) ibc_env \<Rightarrow> private_storage \<Rightarrow> client_id \<Rightarrow> ibc_height \<rightharpoonup> 'co" where
  "stored_consensus E ps cid h =
     (case private_client ps cid of
        Ok (_, store) \<Rightarrow> Option.bind (map_of (cl_consensus_states store) h) (\<lambda>bytes. ie_consensus_dec E (drop 16 bytes))
      | _ \<Rightarrow> None)"

definition client_store_inv :: "('s, 'cs, 'co, 'ce, 'ch) ibc_env \<Rightarrow> client_store \<Rightarrow> bool" where
  "client_store_inv E store \<longleftrightarrow>
     ie_client_dec E (cl_client_state store) \<noteq> None \<and> states_inv (cl_consensus_states store) \<and>
     (\<forall>(h, bytes) \<in> set (cl_consensus_states store). ie_consensus_dec E (drop 16 bytes) \<noteq> None)"

definition private_inv :: "('s, 'cs, 'co, 'ce, 'ch) ibc_env \<Rightarrow> private_storage \<Rightarrow> bool" where
  "private_inv E ps \<longleftrightarrow> (\<forall>store \<in> set (ps_clients ps). client_store_inv E store)"

text \<open>The encodings of client and consensus states can be read back.\<close>

definition env_ok :: "('s, 'cs, 'co, 'ce, 'ch) ibc_env \<Rightarrow> bool" where
  "env_ok E \<longleftrightarrow>
     (\<forall>x bs. ie_client_enc E x = Some bs \<longrightarrow> ie_client_dec E bs = Some x) \<and>
     (\<forall>x bs. ie_consensus_enc E x = Some bs \<longrightarrow> ie_consensus_dec E bs = Some x) \<and>
     (\<forall>x bs. ie_conn_enc E x = Some bs \<longrightarrow> ie_conn_dec E bs = Some x) \<and>
     (\<forall>x bs. ie_chan_enc E x = Some bs \<longrightarrow> bs \<noteq> [] \<and> ie_chan_dec E bs = Some x)"

section \<open>Properties\<close>

text \<open>
  C24: a client keeps at most 64 consensus states. Storing a state never panics and keeps the number bounded and the heights
  distinct; the state is there afterwards, and the only other state that may go is the lowest one, when
  there are 64 and none of them is at that height.
\<close>

theorem consensus_states_bounded:
  assumes "distinct (map fst states)" "length states \<le> IBC_MAX_CONSENSUS_STATES"
  shows "\<exists>states'. insert_consensus_state_impl height state states = Some states' \<and>
    distinct (map fst states') \<and> length states' \<le> 64 \<and> map_of states' height = Some state \<and>
    (\<forall>k. k \<noteq> height \<longrightarrow> map_of states' k = map_of states k \<or>
       map_of states' k = None \<and> length states = 64 \<and> map_of states height = None \<and> (\<forall>j \<in> dom (map_of states). k \<le> j))"
proof -
  obtain states' where s: "insert_consensus_state_impl height state states = Some states'" "states_inv states'"
    "map_of states' = (map_of states)(height \<mapsto> state) \<or>
      (\<exists>low. low \<in> dom (map_of states) \<and> (\<forall>h \<in> dom (map_of states). low \<le> h) \<and> height \<notin> dom (map_of states) \<and>
         length states = IBC_MAX_CONSENSUS_STATES \<and> map_of states' = ((map_of states)(low := None))(height \<mapsto> state))"
    by (rule insert_consensus_state_spec[of states height state]) (use assms in \<open>simp_all add: states_inv_def\<close>)
  have inv: "distinct (map fst states')" "length states' \<le> 64" using s(2) by (simp_all add: states_inv_def IBC_MAX_CONSENSUS_STATES_def)
  from s(3) show ?thesis
  proof (elim disjE exE conjE)
    assume "map_of states' = (map_of states)(height \<mapsto> state)"
    then show ?thesis using s(1) inv by simp
  next
    fix low assume low: "low \<in> dom (map_of states)" "\<forall>h \<in> dom (map_of states). low \<le> h" "height \<notin> dom (map_of states)"
      "length states = IBC_MAX_CONSENSUS_STATES" "map_of states' = ((map_of states)(low := None))(height \<mapsto> state)"
    have "map_of states' k = map_of states k \<or>
       map_of states' k = None \<and> length states = 64 \<and> map_of states height = None \<and> (\<forall>j \<in> dom (map_of states). k \<le> j)" if "k \<noteq> height" for k
      using low that by (cases "k = low") (simp_all add: IBC_MAX_CONSENSUS_STATES_def domIff)
    moreover have "map_of states' height = Some state" using low(5) by simp
    ultimately show ?thesis using s(1) inv by blast
  qed
qed

theorem consensus_states_bounded_witness:
  "\<exists>states'. insert_consensus_state_impl (1, 7) CHR ''b'' [((1, 3), CHR ''a'')] = Some states' \<and>
     map_of states' (1, 7) = Some CHR ''b'' \<and> map_of states' (1, 3) = Some CHR ''a''"
proof -
  have "distinct (map fst [((1 :: 64 word, 3 :: 64 word), CHR ''a'')])"
    "length [((1 :: 64 word, 3 :: 64 word), CHR ''a'')] \<le> IBC_MAX_CONSENSUS_STATES"
    by (simp_all add: IBC_MAX_CONSENSUS_STATES_def)
  from consensus_states_bounded[OF this, of "(1, 7)" "CHR ''b''"] obtain states' where
    "insert_consensus_state_impl (1, 7) CHR ''b'' [((1, 3), CHR ''a'')] = Some states'" "map_of states' (1, 7) = Some CHR ''b''"
    "\<And>k. k \<noteq> (1, 7) \<Longrightarrow> map_of states' k = map_of [((1, 3), CHR ''a'')] k" by auto
  from this(1,2) this(3)[of "(1, 3)"] show ?thesis by auto
qed

end
