(* ===== verification/Guest_Steps.thy ===== *)
theory Guest_Steps
  imports Guest_Client
begin

text \<open>
  Sequences of updates of a light client of the guest chain, on any chain whose storage meets the
  contract \<open>client_context\<close>. The handler of the ibc crate lets an active client verify a message, asks it
  whether the message is evidence of misbehaviour, and then updates or freezes it.
\<close>

inductive guest_run ::
  "('s, 'cs, 'co) client_ctx \<Rightarrow> ('cs, 'co) guest_conv \<Rightarrow> (byte list \<Rightarrow> 'pk \<Rightarrow> 'sig \<Rightarrow> bool) \<Rightarrow> ('s \<Rightarrow> client_id \<rightharpoonup> 'cs) \<Rightarrow>
   client_id \<Rightarrow> 's \<Rightarrow> 's \<Rightarrow> ('pk, 'sig) guest_header list \<Rightarrow> bool"
  for ctx V verify clients cid s0 where
  start: "guest_run ctx V verify clients cid s0 s0 []"
| update: "guest_run ctx V verify clients cid s0 s hs \<Longrightarrow> clients s cid = Some (gv_from_client V cs) \<Longrightarrow>
    client_status ctx V s cs cid = Ok Active \<Longrightarrow> do_verify_client_message verify cs (HeaderMsg hdr) = Ok () \<Longrightarrow>
    do_check_for_misbehaviour ctx V s cid (HeaderMsg hdr) = Ok False \<Longrightarrow>
    do_update_state ctx V cs cid hdr s = (s', Ok heights) \<Longrightarrow> guest_run ctx V verify clients cid s0 s' (hdr # hs)"
| freeze: "guest_run ctx V verify clients cid s0 s hs \<Longrightarrow> clients s cid = Some (gv_from_client V cs) \<Longrightarrow>
    client_status ctx V s cs cid = Ok Active \<Longrightarrow> do_verify_client_message verify cs msg = Ok () \<Longrightarrow>
    do_check_for_misbehaviour ctx V s cid msg = Ok True \<Longrightarrow>
    update_state_on_misbehaviour ctx V cs cid s = (s', Ok ()) \<Longrightarrow> guest_run ctx V verify clients cid s0 s' hs"

text \<open>The consensus states of this kind of client, and that time stamps grow with the height.\<close>

definition guest_view :: "('co \<Rightarrow> guest_consensus option) \<Rightarrow> (ibc_height \<rightharpoonup> 'co) \<Rightarrow> ibc_height \<rightharpoonup> guest_consensus" where
  "guest_view into m h = Option.bind (m h) into"

definition time_ordered :: "('h :: linorder \<rightharpoonup> guest_consensus) \<Rightarrow> bool" where
  "time_ordered m \<longleftrightarrow>
     (\<forall>h h' c c'. h < h' \<longrightarrow> m h = Some c \<longrightarrow> m h' = Some c' \<longrightarrow> co_timestamp_ns c < co_timestamp_ns c')"

definition header_height :: "('pk, 'sig) guest_header \<Rightarrow> ibc_height" where
  "header_height hdr = (1, u64 (bh_block_height (gh_block_header hdr)))"

lemma time_orderedD: "time_ordered m \<Longrightarrow> h < h' \<Longrightarrow> m h = Some c \<Longrightarrow> m h' = Some c' \<Longrightarrow> co_timestamp_ns c < co_timestamp_ns c'"
  by (simp add: time_ordered_def)

lemma map_le_Some: "m \<subseteq>\<^sub>m m' \<Longrightarrow> m k = Some v \<Longrightarrow> m' k = Some v"
  by (metis domI map_le_def)

lemma time_ordered_mono:
  assumes "time_ordered m" "m' \<subseteq>\<^sub>m m" shows "time_ordered m'"
  using assms(1) map_le_Some[OF assms(2)] unfolding time_ordered_def by blast

lemma time_ordered_upd:
  fixes m :: "'h :: linorder \<rightharpoonup> guest_consensus"
  assumes "time_ordered m" "\<And>k g. k < h \<Longrightarrow> m k = Some g \<Longrightarrow> co_timestamp_ns g < co_timestamp_ns c"
    "\<And>k g. h < k \<Longrightarrow> m k = Some g \<Longrightarrow> co_timestamp_ns c < co_timestamp_ns g"
  shows "time_ordered (m(h \<mapsto> c))"
  using assms unfolding time_ordered_def by (auto split: if_splits)

lemma time_ordered_single: "time_ordered [h \<mapsto> c]"
  by (auto simp: time_ordered_def split: if_splits)

text \<open>What a header that is not misbehaviour has to do with its neighbours.\<close>

lemma no_misbehaviour_fits:
  fixes m :: "ibc_height \<rightharpoonup> 'co"
  assumes o: "time_ordered (guest_view (gv_into_consensus V) m)"
    and b: "entry_below m h p" "entry_above m h n" and none: "m h = None"
    and t: "get_timestamp_ns V p = Ok tp" "\<forall>x. tp = Some x \<longrightarrow> x < co_timestamp_ns c"
      "get_timestamp_ns V n = Ok tn" "\<forall>x. tn = Some x \<longrightarrow> co_timestamp_ns c < x"
  shows "time_ordered ((guest_view (gv_into_consensus V) m)(h \<mapsto> c))"
proof (rule time_ordered_upd[OF o])
  fix k g assume k: "k < h" "guest_view (gv_into_consensus V) m k = Some g"
  obtain w where w: "m k = Some w" using k(2) by (cases "m k") (auto simp: guest_view_def)
  obtain j v where j: "p = Some v" "m j = Some v" "k \<le> j" by (rule entry_belowD[OF b(1) w k(1)])
  obtain gv where gv: "gv_into_consensus V v = Some gv" "co_timestamp_ns gv < co_timestamp_ns c"
    using t(1,2) j(1) by (auto simp: get_timestamp_ns_def into_consensus_def ok_or_def split: option.splits)
  then have "guest_view (gv_into_consensus V) m j = Some gv" using j(2) by (simp add: guest_view_def)
  then show "co_timestamp_ns g < co_timestamp_ns c"
    using time_orderedD[OF o, of k j g gv] k(2) j(3) gv(2) by (cases "k = j") (auto simp: less_le)
next
  fix k g assume k: "h < k" "guest_view (gv_into_consensus V) m k = Some g"
  obtain w where w: "m k = Some w" using k(2) by (cases "m k") (auto simp: guest_view_def)
  obtain j v where j: "n = Some v" "m j = Some v" "j \<le> k" by (rule entry_aboveD[OF b(2) w k(1)])
  obtain gv where gv: "gv_into_consensus V v = Some gv" "co_timestamp_ns c < co_timestamp_ns gv"
    using t(3,4) j(1) by (auto simp: get_timestamp_ns_def into_consensus_def ok_or_def split: option.splits)
  then have "guest_view (gv_into_consensus V) m j = Some gv" using j(2) by (simp add: guest_view_def)
  then show "co_timestamp_ns c < co_timestamp_ns g"
    using time_orderedD[OF o, of j k gv g] k(2) j(3) gv(2) by (cases "k = j") (auto simp: less_le)
qed

lemma st_bind_Ok: "st_bind m f s = (s', Ok b) \<longleftrightarrow> (\<exists>s1 a. m s = (s1, Ok a) \<and> f a s1 = (s', Ok b))"
  by (auto simp: st_bind_def split: prod.splits outcome.splits)

lemma do_update_stateD:
  assumes "do_update_state ctx V cs cid hdr s = (s', Ok heights)"
  shows "\<exists>t hh s1. prune_oldest_consensus_state ctx V cs cid t s = (s1, Ok ()) \<and>
    ((\<exists>y. cc_consensus_state ctx s1 cid (header_height hdr) = Ok y) \<and> s' = s1 \<or>
     (\<exists>e s2. cc_consensus_state ctx s1 cid (header_height hdr) = Err e \<and>
        cc_set_client_state ctx cid (gv_from_client V (with_header hdr cs)) s1 = (s2, Ok ()) \<and>
        cc_store_consensus_state ctx cid (header_height hdr) (gv_from_consensus V (consensus_from_header hdr)) t hh s2 = (s', Ok ())))"
proof -
  have h: "height_new 1 (u64 (bh_block_height (gh_block_header hdr))) = Ok (header_height hdr)"
    using assms by (auto simp: do_update_state_def st_bind_Ok height_new_def header_height_def split: if_splits)
  obtain t hh s1 where "prune_oldest_consensus_state ctx V cs cid t s = (s1, Ok ())"
    and R: "(case cc_consensus_state ctx s1 cid (header_height hdr) of
         Ok _ \<Rightarrow> (s1, Ok [header_height hdr])
       | Panic \<Rightarrow> (s1, Panic)
       | Err _ \<Rightarrow>
           st_bind (cc_set_client_state ctx cid (gv_from_client V (with_header hdr cs))) (\<lambda>_.
           st_bind (cc_store_consensus_state ctx cid (header_height hdr) (gv_from_consensus V (consensus_from_header hdr)) t hh) (\<lambda>_.
             st_return [header_height hdr])) s1) = (s', Ok heights)"
    using assms by (auto simp: do_update_state_def st_bind_Ok h)
  moreover from R have "(\<exists>y. cc_consensus_state ctx s1 cid (header_height hdr) = Ok y) \<and> s' = s1 \<or>
     (\<exists>e s2. cc_consensus_state ctx s1 cid (header_height hdr) = Err e \<and>
        cc_set_client_state ctx cid (gv_from_client V (with_header hdr cs)) s1 = (s2, Ok ()) \<and>
        cc_store_consensus_state ctx cid (header_height hdr) (gv_from_consensus V (consensus_from_header hdr)) t hh s2 = (s', Ok ()))"
    by (auto simp: st_bind_Ok split: outcome.splits)
  ultimately show ?thesis by blast
qed

section \<open>Clients on a chain that meets the contract\<close>

locale guest_context = client_context ctx cinv clients states
  for ctx :: "('s, 'cs, 'co) client_ctx" and cinv and clients and states +
  fixes V :: "('cs, 'co) guest_conv"
  assumes into_from: "gv_into_consensus V (gv_from_consensus V c) = Some c"
begin

lemma view_upd: "guest_view (gv_into_consensus V) (m(h \<mapsto> gv_from_consensus V c)) = (guest_view (gv_into_consensus V) m)(h \<mapsto> c)"
  by (simp add: guest_view_def fun_eq_iff into_from)

lemma view_mono: "m \<subseteq>\<^sub>m m' \<Longrightarrow> guest_view (gv_into_consensus V) m \<subseteq>\<^sub>m guest_view (gv_into_consensus V) m'"
  by (auto simp: guest_view_def map_le_def bind_eq_Some_conv dom_def)

lemma fits_view:
  assumes "cinv s" "clients s cid \<noteq> None" "time_ordered (guest_view (gv_into_consensus V) (states s cid))"
    and "check_for_misbehaviour_in_header ctx V s cid hdr = Ok False"
  shows "time_ordered ((guest_view (gv_into_consensus V) (states s cid))(header_height hdr \<mapsto> consensus_from_header hdr))"
    "states s cid (header_height hdr) = Some x \<Longrightarrow> gv_into_consensus V x = Some (consensus_from_header hdr)"
proof -
  let ?h = "header_height hdr" and ?c = "consensus_from_header hdr"
  obtain nb where nb: "cc_neighbourhood ctx s cid ?h = Ok nb"
    using assms(4) by (auto simp: check_for_misbehaviour_in_header_def bind_outcome_Ok height_new_def header_height_def split: if_splits)
  have C: "(case nb of
         This state \<Rightarrow> bind_outcome (into_consensus V state) (\<lambda>existing_state. Ok (existing_state \<noteq> ?c))
       | Neighbours prev nxt \<Rightarrow>
           (let header_time_ns = bh_timestamp_ns (gh_block_header hdr) in
            bind_outcome (get_timestamp_ns V prev) (\<lambda>prev_time.
              if (case prev_time of Some prev_time_ns \<Rightarrow> header_time_ns \<le> prev_time_ns | None \<Rightarrow> False) then Ok True
              else bind_outcome (get_timestamp_ns V nxt) (\<lambda>next_time.
                Ok (case next_time of Some next_time_ns \<Rightarrow> next_time_ns \<le> header_time_ns | None \<Rightarrow> False))))) = Ok False"
    using assms(4) nb by (auto simp: check_for_misbehaviour_in_header_def bind_outcome_Ok height_new_def header_height_def split: if_splits)
  have this_case: "gv_into_consensus V x = Some ?c" if "nb = This x" for x
    using C that by (auto simp: bind_outcome_Ok into_consensus_def ok_or_def split: option.splits)
  show "gv_into_consensus V x = Some ?c" if "states s cid ?h = Some x" for x
    using nb_this[OF assms(1) that] nb this_case by simp
  show "time_ordered ((guest_view (gv_into_consensus V) (states s cid))(?h \<mapsto> ?c))"
  proof (cases rule: neighbourhood_cases[OF assms(1) nb assms(2)])
    case (1 x)
    then have "(guest_view (gv_into_consensus V) (states s cid))(?h \<mapsto> ?c) = guest_view (gv_into_consensus V) (states s cid)"
      using this_case by (auto simp: fun_eq_iff guest_view_def)
    then show ?thesis using assms(3) by simp
  next
    case (2 p n)
    obtain tp tn where "get_timestamp_ns V p = Ok tp" "\<forall>x. tp = Some x \<longrightarrow> x < co_timestamp_ns ?c"
        "get_timestamp_ns V n = Ok tn" "\<forall>x. tn = Some x \<longrightarrow> co_timestamp_ns ?c < x"
      using C 2(1) by (auto simp: bind_outcome_Ok consensus_from_header_def Let_def not_le split: if_splits option.splits)
    then show ?thesis using no_misbehaviour_fits[OF assms(3) 2(3,4,2)] by blast
  qed
qed

text \<open>An update adds the state of the header, and may drop others.\<close>

lemma prune_spec:
  assumes "cinv s" "prune_oldest_consensus_state ctx V cs cid t s = (s', Ok ())"
  shows "cinv s' \<and> clients s' = clients s \<and> states s' cid \<subseteq>\<^sub>m states s cid"
  using assms delete_consensus[OF assms(1)] unfolding prune_oldest_consensus_state_def st_bind_def
  by (auto simp: map_le_def split: outcome.splits option.splits if_splits prod.splits)

lemma update_spec:
  assumes i: "cinv s" and u: "do_update_state ctx V cs cid hdr s = (s', Ok heights)"
    and x: "\<And>x. states s cid (header_height hdr) = Some x \<Longrightarrow> gv_into_consensus V x = Some (consensus_from_header hdr)"
  shows "cinv s'" "guest_view (gv_into_consensus V) (states s' cid) (header_height hdr) = Some (consensus_from_header hdr)"
    "guest_view (gv_into_consensus V) (states s' cid) \<subseteq>\<^sub>m (guest_view (gv_into_consensus V) (states s cid))(header_height hdr \<mapsto> consensus_from_header hdr)"
    "clients s' = clients s \<or> clients s' = (clients s)(cid \<mapsto> gv_from_client V (with_header hdr cs))"
proof -
  let ?h = "header_height hdr" and ?c = "consensus_from_header hdr"
  obtain t hh s1 where s1: "prune_oldest_consensus_state ctx V cs cid t s = (s1, Ok ())"
    and R: "(\<exists>y. cc_consensus_state ctx s1 cid ?h = Ok y) \<and> s' = s1 \<or>
     (\<exists>e s2. cc_consensus_state ctx s1 cid ?h = Err e \<and>
        cc_set_client_state ctx cid (gv_from_client V (with_header hdr cs)) s1 = (s2, Ok ()) \<and>
        cc_store_consensus_state ctx cid ?h (gv_from_consensus V ?c) t hh s2 = (s', Ok ()))"
    using do_update_stateD[OF u] by blast
  have P: "cinv s1" "clients s1 = clients s" "states s1 cid \<subseteq>\<^sub>m states s cid" using prune_spec[OF i s1] by auto
  have v: "guest_view (gv_into_consensus V) (states s1 cid) \<subseteq>\<^sub>m guest_view (gv_into_consensus V) (states s cid)" using P(3) by (rule view_mono)
  have "cinv s' \<and> guest_view (gv_into_consensus V) (states s' cid) ?h = Some ?c \<and>
    guest_view (gv_into_consensus V) (states s' cid) \<subseteq>\<^sub>m (guest_view (gv_into_consensus V) (states s cid))(?h \<mapsto> ?c) \<and>
    (clients s' = clients s \<or> clients s' = (clients s)(cid \<mapsto> gv_from_client V (with_header hdr cs)))"
    using R
  proof (elim disjE conjE exE)
    fix y assume y: "cc_consensus_state ctx s1 cid ?h = Ok y" and s': "s' = s1"
    have "states s1 cid ?h = Some y" using y consensus_Ok[OF P(1)] by simp
    moreover from this have "states s cid ?h = Some y" by (rule map_le_Some[OF P(3)])
    ultimately have f: "guest_view (gv_into_consensus V) (states s1 cid) ?h = Some ?c" "guest_view (gv_into_consensus V) (states s cid) ?h = Some ?c"
      using x by (simp_all add: guest_view_def)
    then have "(guest_view (gv_into_consensus V) (states s cid))(?h \<mapsto> ?c) = guest_view (gv_into_consensus V) (states s cid)" by auto
    then show ?thesis using P f v by (simp add: s')
  next
    fix e s2 assume A: "cc_set_client_state ctx cid (gv_from_client V (with_header hdr cs)) s1 = (s2, Ok ())"
      "cc_store_consensus_state ctx cid ?h (gv_from_consensus V ?c) t hh s2 = (s', Ok ())"
    note B = set_client[OF P(1) A(1)]
    have C: "cinv s'" "clients s' = clients s2" "states s' cid ?h = Some (gv_from_consensus V ?c)"
      "states s' cid \<subseteq>\<^sub>m (states s2 cid)(?h \<mapsto> gv_from_consensus V ?c)" using store_consensus[OF _ A(2)] B by auto
    from view_mono[OF C(4)] have "guest_view (gv_into_consensus V) (states s' cid) \<subseteq>\<^sub>m (guest_view (gv_into_consensus V) (states s1 cid))(?h \<mapsto> ?c)"
      using B by (simp add: view_upd)
    also have "\<dots> \<subseteq>\<^sub>m (guest_view (gv_into_consensus V) (states s cid))(?h \<mapsto> ?c)" using v by (auto simp: map_le_def)
    finally show ?thesis using B C P by (simp add: guest_view_def into_from)
  qed
  then show "cinv s'" "guest_view (gv_into_consensus V) (states s' cid) ?h = Some ?c"
    "guest_view (gv_into_consensus V) (states s' cid) \<subseteq>\<^sub>m (guest_view (gv_into_consensus V) (states s cid))(?h \<mapsto> ?c)"
    "clients s' = clients s \<or> clients s' = (clients s)(cid \<mapsto> gv_from_client V (with_header hdr cs))" by blast+
qed

text \<open>Every consensus state comes from a header that was accepted, and the time stamps grow with the height.\<close>

lemma run_inv:
  assumes "guest_run ctx V verify clients cid s0 s hs" "cinv s0" "time_ordered (guest_view (gv_into_consensus V) (states s0 cid))"
  shows "cinv s" "time_ordered (guest_view (gv_into_consensus V) (states s cid))"
    "guest_view (gv_into_consensus V) (states s cid) h = Some c \<Longrightarrow>
       guest_view (gv_into_consensus V) (states s0 cid) h = Some c \<or> (\<exists>hdr \<in> set hs. h = header_height hdr \<and> c = consensus_from_header hdr)"
proof -
  have "cinv s \<and> time_ordered (guest_view (gv_into_consensus V) (states s cid)) \<and> (\<forall>h c. guest_view (gv_into_consensus V) (states s cid) h = Some c \<longrightarrow>
       guest_view (gv_into_consensus V) (states s0 cid) h = Some c \<or> (\<exists>hdr \<in> set hs. h = header_height hdr \<and> c = consensus_from_header hdr))"
    using assms(1)
  proof induction
    case (update s hs cs hdr s' heights)
    have m: "check_for_misbehaviour_in_header ctx V s cid hdr = Ok False"
      using update by (simp add: do_check_for_misbehaviour_def)
    have "cinv s" "time_ordered (guest_view (gv_into_consensus V) (states s cid))" "clients s cid \<noteq> None" using update by simp_all
    note F = fits_view[OF this(1) this(3) this(2) m]
    note U = update_spec[OF \<open>cinv s\<close> update.hyps(6) F(2)]
    have "time_ordered (guest_view (gv_into_consensus V) (states s' cid))" by (rule time_ordered_mono[OF F(1) U(3)])
    moreover have "guest_view (gv_into_consensus V) (states s cid) h = Some c \<or> h = header_height hdr \<and> c = consensus_from_header hdr"
      if "guest_view (gv_into_consensus V) (states s' cid) h = Some c" for h c
      using map_le_Some[OF U(3) that] by (auto split: if_splits)
    ultimately show ?case using U(1) update.IH unfolding list.set(2) by blast
  next
    case (freeze s hs cs msg s')
    then show ?case using set_client[of s cid "gv_from_client V (frozen cs)" s'] by (simp add: update_state_on_misbehaviour_def)
  qed (use assms in auto)
  then show "cinv s" "time_ordered (guest_view (gv_into_consensus V) (states s cid))"
    "guest_view (gv_into_consensus V) (states s cid) h = Some c \<Longrightarrow>
       guest_view (gv_into_consensus V) (states s0 cid) h = Some c \<or> (\<exists>hdr \<in> set hs. h = header_height hdr \<and> c = consensus_from_header hdr)" by blast+
qed

end

text \<open>Every header of a run was signed by a quorum of its epoch.\<close>

lemma run_signed:
  assumes "guest_run ctx V verify clients cid s0 s hs" "hdr \<in> set hs"
  shows "\<exists>I. signed_by verify (fingerprint_from_hash (gh_genesis_hash hdr) (bh_block_height (gh_block_header hdr)) (gh_block_hash hdr))
    (gh_epoch hdr) I (gh_signatures hdr)"
  using assms
proof induction
  case (update s hs cs h s' heights)
  then have "verify_header verify cs h = Ok ()" by (simp add: do_verify_client_message_def)
  from verify_header_sound(1,3)[OF this] show ?case using update by auto
qed auto

end
