(* ===== verification/Any_State.thy ===== *)
theory Any_State
  imports Guest_Client Borsh
begin

text \<open>
  The states of any of the light clients that the IBC program knows,
  \<^verbatim>\<open>solana/solana-ibc/programs/solana-ibc/src/{client_state,consensus_state}.rs\<close>: the
  two enumerations and their encodings with a tag, for borsh, and with a type URL, for
  protobuf. The states of other clients than that of the guest chain are type parameters; the protobuf
  encodings of the states are a record of functions. The variant for tests is left out.
\<close>

section \<open>Parameters\<close>

text \<open>\<open>encode_vec\<close> and \<open>decode_vec\<close> of the variants, and their type URLs.\<close>

record ('t, 'w, 'r, 'g) any_codec =
  ac_tendermint_type :: string
  ac_wasm_type :: string
  ac_rollup_type :: string
  ac_guest_type :: string
  ac_tendermint_enc :: "'t \<Rightarrow> byte list"
  ac_wasm_enc :: "'w \<Rightarrow> byte list"
  ac_rollup_enc :: "'r \<Rightarrow> byte list"
  ac_guest_enc :: "'g \<Rightarrow> byte list"
  ac_tendermint_dec :: "byte list \<Rightarrow> 't option"
  ac_wasm_dec :: "byte list \<Rightarrow> 'w option"
  ac_rollup_dec :: "byte list \<Rightarrow> 'r option"
  ac_guest_dec :: "byte list \<Rightarrow> 'g option"

definition any_types_ok :: "('t, 'w, 'r, 'g) any_codec \<Rightarrow> bool" where
  "any_types_ok C \<longleftrightarrow> distinct [ac_tendermint_type C, ac_wasm_type C, ac_rollup_type C, ac_guest_type C]"

text \<open>Vectors of bytes in borsh; writing fails if the vector is too long.\<close>

record borsh_vec =
  put_vec :: "byte list \<Rightarrow> byte list option"
  take_vec :: "byte list \<Rightarrow> (byte list \<times> byte list) option"

definition borsh_vec_ok :: "borsh_vec \<Rightarrow> bool" where
  "borsh_vec_ok B \<longleftrightarrow> (\<forall>bytes bs rest. put_vec B bytes = Some bs \<longrightarrow> take_vec B (bs @ rest) = Some (bytes, rest))"

record any_msg =
  any_type_url :: string
  any_bytes :: "byte list"

section \<open>Client states\<close>

datatype ('t, 'w, 'r) any_client_state =
  CsTendermint 't | CsWasm 'w | CsRollup 'r | CsGuest guest_client

datatype any_client_tag = CsTagTendermint | CsTagWasm | CsTagRollup | CsTagGuest

definition any_client_tag_repr :: "any_client_tag \<Rightarrow> byte" where
  "any_client_tag_repr tag =
     (case tag of CsTagTendermint \<Rightarrow> 0 | CsTagWasm \<Rightarrow> 1 | CsTagRollup \<Rightarrow> 2 | CsTagGuest \<Rightarrow> 3)"

definition any_client_tag_from_repr :: "byte \<Rightarrow> any_client_tag option" where
  "any_client_tag_from_repr tag =
     (if tag = 0 then Some CsTagTendermint else if tag = 1 then Some CsTagWasm
      else if tag = 2 then Some CsTagRollup else if tag = 3 then Some CsTagGuest else None)"

definition any_client_tag_from_type_url :: "('t, 'w, 'r, guest_client) any_codec \<Rightarrow> string \<Rightarrow> any_client_tag option" where
  "any_client_tag_from_type_url C url =
     (if url = ac_tendermint_type C then Some CsTagTendermint
      else if url = ac_wasm_type C then Some CsTagWasm
      else if url = ac_rollup_type C then Some CsTagRollup
      else if url = ac_guest_type C then Some CsTagGuest
      else None)"

definition any_client_into_any ::
  "('t, 'w, 'r, guest_client) any_codec \<Rightarrow> ('t, 'w, 'r) any_client_state \<Rightarrow> any_client_tag \<times> string \<times> byte list" where
  "any_client_into_any C this =
     (case this of
        CsTendermint state \<Rightarrow> (CsTagTendermint, ac_tendermint_type C, ac_tendermint_enc C state)
      | CsWasm state \<Rightarrow> (CsTagWasm, ac_wasm_type C, ac_wasm_enc C state)
      | CsRollup state \<Rightarrow> (CsTagRollup, ac_rollup_type C, ac_rollup_enc C state)
      | CsGuest state \<Rightarrow> (CsTagGuest, ac_guest_type C, ac_guest_enc C state))"

definition any_client_from_tagged ::
  "('t, 'w, 'r, guest_client) any_codec \<Rightarrow> any_client_tag \<Rightarrow> byte list \<Rightarrow> ('t, 'w, 'r) any_client_state option" where
  "any_client_from_tagged C tag bytes =
     (case tag of
        CsTagTendermint \<Rightarrow> map_option CsTendermint (ac_tendermint_dec C bytes)
      | CsTagWasm \<Rightarrow> map_option CsWasm (ac_wasm_dec C bytes)
      | CsTagRollup \<Rightarrow> map_option CsRollup (ac_rollup_dec C bytes)
      | CsTagGuest \<Rightarrow> map_option CsGuest (ac_guest_dec C bytes))"

definition any_client_to_any ::
  "('t, 'w, 'r, guest_client) any_codec \<Rightarrow> ('t, 'w, 'r) any_client_state \<Rightarrow> any_msg" where
  "any_client_to_any C state =
     (let (_, type_url, bytes) = any_client_into_any C state in \<lparr>any_type_url = type_url, any_bytes = bytes\<rparr>)"

definition any_client_try_from ::
  "('t, 'w, 'r, guest_client) any_codec \<Rightarrow> any_msg \<Rightarrow> (client_error, ('t, 'w, 'r) any_client_state) outcome" where
  "any_client_try_from C raw =
     bind_outcome (ok_or (UnknownClientStateType (any_type_url raw)) (any_client_tag_from_type_url C (any_type_url raw))) (\<lambda>tag.
       ok_or ClientSpecific (any_client_from_tagged C tag (any_bytes raw)))"

definition any_client_serialize ::
  "borsh_vec \<Rightarrow> borsh_codec \<Rightarrow> ('t, 'w, 'r, guest_client) any_codec \<Rightarrow> ('t, 'w, 'r) any_client_state \<Rightarrow> byte list option" where
  "any_client_serialize B codec C this =
     (let (tag, _, bytes) = any_client_into_any C this in
      map_option (\<lambda>bs. put_u8 codec (any_client_tag_repr tag) @ bs) (put_vec B bytes))"

definition any_client_deserialize_reader ::
  "borsh_vec \<Rightarrow> borsh_codec \<Rightarrow> ('t, 'w, 'r, guest_client) any_codec \<Rightarrow> byte list \<Rightarrow>
   (('t, 'w, 'r) any_client_state \<times> byte list) option" where
  "any_client_deserialize_reader B codec C rd =
     Option.bind (take_u8 codec rd) (\<lambda>(tag, rd).
     Option.bind (take_vec B rd) (\<lambda>(bytes, rd).
     Option.bind (any_client_tag_from_repr tag) (\<lambda>tag.
       map_option (\<lambda>x. (x, rd)) (any_client_from_tagged C tag bytes))))"

text \<open>The protobuf encoding of the state can be read back.\<close>

definition any_client_decodes :: "('t, 'w, 'r, guest_client) any_codec \<Rightarrow> ('t, 'w, 'r) any_client_state \<Rightarrow> bool" where
  "any_client_decodes C this \<longleftrightarrow>
     (case this of
        CsTendermint state \<Rightarrow> ac_tendermint_dec C (ac_tendermint_enc C state) = Some state
      | CsWasm state \<Rightarrow> ac_wasm_dec C (ac_wasm_enc C state) = Some state
      | CsRollup state \<Rightarrow> ac_rollup_dec C (ac_rollup_enc C state) = Some state
      | CsGuest state \<Rightarrow> ac_guest_dec C (ac_guest_enc C state) = Some state)"

lemma any_client_tagged:
  assumes "any_client_into_any C x = (tag, url, bytes)"
  shows "any_client_decodes C x \<Longrightarrow> any_client_from_tagged C tag bytes = Some x"
    "any_types_ok C \<Longrightarrow> any_client_tag_from_type_url C url = Some tag"
  using assms
  by (auto simp: any_client_into_any_def any_client_from_tagged_def any_client_tag_from_type_url_def any_types_ok_def any_client_decodes_def
      split: any_client_state.splits)

lemma any_client_tag_roundtrip: "any_client_tag_from_repr (any_client_tag_repr tag) = Some tag"
  by (cases tag) (simp_all add: any_client_tag_repr_def any_client_tag_from_repr_def)

lemma any_client_borsh:
  assumes "borsh codec" "borsh_vec_ok B" "any_client_decodes C x" "any_client_serialize B codec C x = Some bs"
  shows "any_client_deserialize_reader B codec C (bs @ rest) = Some (x, rest)"
proof -
  obtain tag url bytes where i: "any_client_into_any C x = (tag, url, bytes)" using prod_cases3 by blast
  then obtain bv where bv: "bs = put_u8 codec (any_client_tag_repr tag) @ bv" "put_vec B bytes = Some bv"
    using assms(4) by (auto simp: any_client_serialize_def)
  have "take_u8 codec (bs @ rest) = Some (any_client_tag_repr tag, bv @ rest)"
    using borsh.take_put_u8[OF assms(1)] by (simp add: bv(1))
  moreover have "take_vec B (bv @ rest) = Some (bytes, rest)" using assms(2) bv(2) by (simp add: borsh_vec_ok_def)
  ultimately show ?thesis
    using any_client_tagged(1)[OF i assms(3)] by (simp add: any_client_deserialize_reader_def any_client_tag_roundtrip)
qed

lemma any_client_proto:
  assumes "any_types_ok C" "any_client_decodes C x"
  shows "any_client_try_from C (any_client_to_any C x) = Ok x"
  using any_client_tagged[of C x] assms
  by (cases "any_client_into_any C x") (auto simp: any_client_try_from_def any_client_to_any_def ok_or_def)

section \<open>Consensus states\<close>

datatype ('t, 'w, 'r) any_consensus_state =
  CoTendermint 't | CoWasm 'w | CoRollup 'r | CoGuest guest_consensus

datatype any_consensus_tag = CoTagTendermint | CoTagWasm | CoTagRollup | CoTagGuest

definition any_consensus_tag_repr :: "any_consensus_tag \<Rightarrow> byte" where
  "any_consensus_tag_repr tag =
     (case tag of CoTagTendermint \<Rightarrow> 0 | CoTagWasm \<Rightarrow> 1 | CoTagRollup \<Rightarrow> 2 | CoTagGuest \<Rightarrow> 3)"

definition any_consensus_tag_from_repr :: "byte \<Rightarrow> any_consensus_tag option" where
  "any_consensus_tag_from_repr tag =
     (if tag = 0 then Some CoTagTendermint else if tag = 1 then Some CoTagWasm
      else if tag = 2 then Some CoTagRollup else if tag = 3 then Some CoTagGuest else None)"

definition any_consensus_tag_from_type_url :: "('t, 'w, 'r, guest_consensus) any_codec \<Rightarrow> string \<Rightarrow> any_consensus_tag option" where
  "any_consensus_tag_from_type_url C url =
     (if url = ac_tendermint_type C then Some CoTagTendermint
      else if url = ac_wasm_type C then Some CoTagWasm
      else if url = ac_rollup_type C then Some CoTagRollup
      else if url = ac_guest_type C then Some CoTagGuest
      else None)"

definition any_consensus_into_any ::
  "('t, 'w, 'r, guest_consensus) any_codec \<Rightarrow> ('t, 'w, 'r) any_consensus_state \<Rightarrow> any_consensus_tag \<times> string \<times> byte list" where
  "any_consensus_into_any C this =
     (case this of
        CoTendermint state \<Rightarrow> (CoTagTendermint, ac_tendermint_type C, ac_tendermint_enc C state)
      | CoWasm state \<Rightarrow> (CoTagWasm, ac_wasm_type C, ac_wasm_enc C state)
      | CoRollup state \<Rightarrow> (CoTagRollup, ac_rollup_type C, ac_rollup_enc C state)
      | CoGuest state \<Rightarrow> (CoTagGuest, ac_guest_type C, ac_guest_enc C state))"

definition any_consensus_from_tagged ::
  "('t, 'w, 'r, guest_consensus) any_codec \<Rightarrow> any_consensus_tag \<Rightarrow> byte list \<Rightarrow> ('t, 'w, 'r) any_consensus_state option" where
  "any_consensus_from_tagged C tag bytes =
     (case tag of
        CoTagTendermint \<Rightarrow> map_option CoTendermint (ac_tendermint_dec C bytes)
      | CoTagWasm \<Rightarrow> map_option CoWasm (ac_wasm_dec C bytes)
      | CoTagRollup \<Rightarrow> map_option CoRollup (ac_rollup_dec C bytes)
      | CoTagGuest \<Rightarrow> map_option CoGuest (ac_guest_dec C bytes))"

definition any_consensus_to_any ::
  "('t, 'w, 'r, guest_consensus) any_codec \<Rightarrow> ('t, 'w, 'r) any_consensus_state \<Rightarrow> any_msg" where
  "any_consensus_to_any C state =
     (let (_, type_url, bytes) = any_consensus_into_any C state in \<lparr>any_type_url = type_url, any_bytes = bytes\<rparr>)"

definition any_consensus_try_from ::
  "('t, 'w, 'r, guest_consensus) any_codec \<Rightarrow> any_msg \<Rightarrow> (client_error, ('t, 'w, 'r) any_consensus_state) outcome" where
  "any_consensus_try_from C raw =
     bind_outcome (ok_or (UnknownConsensusStateType (any_type_url raw)) (any_consensus_tag_from_type_url C (any_type_url raw))) (\<lambda>tag.
       ok_or ClientSpecific (any_consensus_from_tagged C tag (any_bytes raw)))"

definition any_consensus_serialize ::
  "borsh_vec \<Rightarrow> borsh_codec \<Rightarrow> ('t, 'w, 'r, guest_consensus) any_codec \<Rightarrow> ('t, 'w, 'r) any_consensus_state \<Rightarrow> byte list option" where
  "any_consensus_serialize B codec C this =
     (let (tag, _, bytes) = any_consensus_into_any C this in
      map_option (\<lambda>bs. put_u8 codec (any_consensus_tag_repr tag) @ bs) (put_vec B bytes))"

definition any_consensus_deserialize_reader ::
  "borsh_vec \<Rightarrow> borsh_codec \<Rightarrow> ('t, 'w, 'r, guest_consensus) any_codec \<Rightarrow> byte list \<Rightarrow>
   (('t, 'w, 'r) any_consensus_state \<times> byte list) option" where
  "any_consensus_deserialize_reader B codec C rd =
     Option.bind (take_u8 codec rd) (\<lambda>(tag, rd).
     Option.bind (take_vec B rd) (\<lambda>(bytes, rd).
     Option.bind (any_consensus_tag_from_repr tag) (\<lambda>tag.
       map_option (\<lambda>x. (x, rd)) (any_consensus_from_tagged C tag bytes))))"

text \<open>The protobuf encoding of the state can be read back.\<close>

definition any_consensus_decodes :: "('t, 'w, 'r, guest_consensus) any_codec \<Rightarrow> ('t, 'w, 'r) any_consensus_state \<Rightarrow> bool" where
  "any_consensus_decodes C this \<longleftrightarrow>
     (case this of
        CoTendermint state \<Rightarrow> ac_tendermint_dec C (ac_tendermint_enc C state) = Some state
      | CoWasm state \<Rightarrow> ac_wasm_dec C (ac_wasm_enc C state) = Some state
      | CoRollup state \<Rightarrow> ac_rollup_dec C (ac_rollup_enc C state) = Some state
      | CoGuest state \<Rightarrow> ac_guest_dec C (ac_guest_enc C state) = Some state)"

lemma any_consensus_tagged:
  assumes "any_consensus_into_any C x = (tag, url, bytes)"
  shows "any_consensus_decodes C x \<Longrightarrow> any_consensus_from_tagged C tag bytes = Some x"
    "any_types_ok C \<Longrightarrow> any_consensus_tag_from_type_url C url = Some tag"
  using assms
  by (auto simp: any_consensus_into_any_def any_consensus_from_tagged_def any_consensus_tag_from_type_url_def any_types_ok_def any_consensus_decodes_def
      split: any_consensus_state.splits)

lemma any_consensus_tag_roundtrip: "any_consensus_tag_from_repr (any_consensus_tag_repr tag) = Some tag"
  by (cases tag) (simp_all add: any_consensus_tag_repr_def any_consensus_tag_from_repr_def)

lemma any_consensus_borsh:
  assumes "borsh codec" "borsh_vec_ok B" "any_consensus_decodes C x" "any_consensus_serialize B codec C x = Some bs"
  shows "any_consensus_deserialize_reader B codec C (bs @ rest) = Some (x, rest)"
proof -
  obtain tag url bytes where i: "any_consensus_into_any C x = (tag, url, bytes)" using prod_cases3 by blast
  then obtain bv where bv: "bs = put_u8 codec (any_consensus_tag_repr tag) @ bv" "put_vec B bytes = Some bv"
    using assms(4) by (auto simp: any_consensus_serialize_def)
  have "take_u8 codec (bs @ rest) = Some (any_consensus_tag_repr tag, bv @ rest)"
    using borsh.take_put_u8[OF assms(1)] by (simp add: bv(1))
  moreover have "take_vec B (bv @ rest) = Some (bytes, rest)" using assms(2) bv(2) by (simp add: borsh_vec_ok_def)
  ultimately show ?thesis
    using any_consensus_tagged(1)[OF i assms(3)] by (simp add: any_consensus_deserialize_reader_def any_consensus_tag_roundtrip)
qed

lemma any_consensus_proto:
  assumes "any_types_ok C" "any_consensus_decodes C x"
  shows "any_consensus_try_from C (any_consensus_to_any C x) = Ok x"
  using any_consensus_tagged[of C x] assms
  by (cases "any_consensus_into_any C x") (auto simp: any_consensus_try_from_def any_consensus_to_any_def ok_or_def)

end
