(* ===== verification/Ibc_Clients.thy ===== *)
theory Ibc_Clients
  imports Ibc_Storage Guest_Steps Any_State
begin

text \<open>
  The storage of the IBC program as the host of light clients,
  \<^verbatim>\<open>solana/solana-ibc/programs/solana-ibc/src/client_state.rs\<close>: the
  implementation of \<open>CommonContext\<close> for \<open>IbcStorage\<close>, which meets the contract
  \<open>client_context\<close> that the light clients rely on.
\<close>

section \<open>CommonContext\<close>

definition ibc_host_metadata :: "('s, 'pk, 'sig) ibc_storage \<Rightarrow> (client_error, nat \<times> ibc_height) outcome" where
  "ibc_host_metadata st =
     bind_outcome (storage_head st) (\<lambda>hd.
     bind_outcome (height_new 1 (u64 (bh_block_height hd))) (\<lambda>height. Ok (bh_timestamp_ns hd, height)))"

text \<open>The loop of \<open>consensus_state_neighbourhood\<close>.\<close>

fun nb_scan ::
  "ibc_height \<Rightarrow> ibc_height \<times> 'v option \<Rightarrow> ibc_height \<times> 'v option \<Rightarrow> (ibc_height, 'v) linear_map \<Rightarrow> 'v neighbourhood" where
  "nb_scan height prv nxt [] = Neighbours (snd prv) (snd nxt)"
| "nb_scan height prv nxt ((key, v) # states) =
     (if key < height \<and> fst prv \<le> key then nb_scan height (key, Some v) nxt states
      else if height < key \<and> key \<le> fst nxt then nb_scan height prv (key, Some v) states
      else if key = height then This v
      else nb_scan height prv nxt states)"

definition ibc_neighbourhood ::
  "('s, 'cs, 'co, 'ce, 'ch) ibc_env \<Rightarrow> ('s, 'pk, 'sig) ibc_storage \<Rightarrow> client_id \<Rightarrow> ibc_height \<Rightarrow>
   (client_error, 'co neighbourhood) outcome" where
  "ibc_neighbourhood E st cid height =
     bind_outcome (private_client (st_private st) cid) (\<lambda>(_, store).
       nb_try_map (ccs_state E)
         (nb_scan height ((0, 0), None) ((- 1, - 1), None) (cl_consensus_states store)))"

definition ibc_ctx ::
  "('s, 'cs, 'co, 'ce, 'ch) ibc_env \<Rightarrow> (('s, 'pk, 'sig) ibc_storage, 'cs, 'co) client_ctx" where
  "ibc_ctx E =
     \<lparr>cc_host_metadata = ibc_host_metadata,
      cc_set_client_state = store_client_state_impl E,
      cc_consensus_state = consensus_state_impl E,
      cc_neighbourhood = ibc_neighbourhood E,
      cc_store_consensus_state = (\<lambda>cid height state _ _. store_consensus_state_impl E cid height state),
      cc_delete_consensus_state = delete_consensus_state_impl E,
      cc_earliest = (\<lambda>_ _. Ok None)\<rparr>"

text \<open>\<open>next_consensus_state\<close> and \<open>prev_consensus_state\<close>, by \<open>min_by_key\<close> and \<open>max_by_key\<close>.\<close>

datatype direction = DirNext | DirPrev

fun min_by_key :: "('k :: linorder \<times> 'v) list \<Rightarrow> ('k \<times> 'v) option" where
  "min_by_key [] = None"
| "min_by_key (x # xs) =
     (case min_by_key xs of None \<Rightarrow> Some x | Some y \<Rightarrow> Some (if fst x \<le> fst y then x else y))"

fun max_by_key :: "('k :: linorder \<times> 'v) list \<Rightarrow> ('k \<times> 'v) option" where
  "max_by_key [] = None"
| "max_by_key (x # xs) =
     (case max_by_key xs of None \<Rightarrow> Some x | Some y \<Rightarrow> Some (if fst x \<le> fst y then y else x))"

definition get_consensus_state ::
  "('s, 'cs, 'co, 'ce, 'ch) ibc_env \<Rightarrow> ('s, 'pk, 'sig) ibc_storage \<Rightarrow> client_id \<Rightarrow> ibc_height \<Rightarrow> direction \<Rightarrow>
   (client_error, 'co option) outcome" where
  "get_consensus_state E st cid height dir =
     bind_outcome (private_client (st_private st) cid) (\<lambda>(_, store).
       let states = cl_consensus_states store in
       transpose_map (\<lambda>(_, v). ccs_state E v)
         (if dir = DirNext then min_by_key (filter (\<lambda>(k, _). height < k) states)
          else max_by_key (filter (\<lambda>(k, _). k < height) states)))"

definition next_consensus_state where "next_consensus_state E st cid height = get_consensus_state E st cid height DirNext"

definition prev_consensus_state where "prev_consensus_state E st cid height = get_consensus_state E st cid height DirPrev"

section \<open>The stores of the clients\<close>

lemma private_client_set:
  assumes "private_client ps cid = Ok (index, store0)" "cl_client_id store = cid"
  shows "private_client (set_client_store index store ps) =
    (\<lambda>i. if i = cid then Ok (index, store) else private_client ps i)"
proof
  fix i
  have c: "client_idx_try_from cid = Ok index" "unat (client_counter index) < length (ps_clients ps)"
    "cl_client_id (ps_clients ps ! unat (client_counter index)) = cid"
    using assms(1) by (auto simp: private_client_Ok)
  show "private_client (set_client_store index store ps) i = (if i = cid then Ok (index, store) else private_client ps i)"
  proof (cases "i = cid")
    case True
    then show ?thesis using c assms(2) by (simp add: private_client_Ok set_client_store_def)
  next
    case False
    have "cl_client_id ((ps_clients ps)[unat (client_counter index) := store] ! n) = i \<longleftrightarrow> cl_client_id (ps_clients ps ! n) = i" for n
      using c(2,3) assms(2) False by (cases "n = unat (client_counter index)") simp_all
    moreover have "(ps_clients ps)[unat (client_counter index) := store] ! n = ps_clients ps ! n" if "cl_client_id (ps_clients ps ! n) = i" for n
      using that c(3) False by (metis nth_list_update_neq)
    ultimately show ?thesis using False by (simp add: private_client_def set_client_store_def Let_def cong: if_cong)
  qed
qed

lemma private_client_mutD:
  assumes "private_client_mut cid create ps = (ps', Ok index)"
  shows "\<exists>store. private_client ps' cid = Ok (index, store) \<and> (\<forall>i. i \<noteq> cid \<longrightarrow> private_client ps' i = private_client ps i) \<and>
    (ps' = ps \<or> create \<and> (\<forall>x. private_client ps cid \<noteq> Ok x) \<and> store = client_store_new cid \<and>
       ps_clients ps' = ps_clients ps @ [client_store_new cid] \<and> unat (client_counter index) = length (ps_clients ps))"
proof -
  let ?pos = "unat (client_counter index)"
  from assms have i: "client_idx_try_from cid = Ok index"
    by (auto simp: private_client_mut_def ok_option_def Let_def split: outcome.splits if_splits option.splits)
  show ?thesis
  proof (cases "?pos < length (ps_clients ps)")
    case True
    then show ?thesis using assms i by (auto simp: private_client_mut_def ok_option_def Let_def private_client_Ok split: if_splits)
  next
    case False
    then have n: "?pos = length (ps_clients ps)" "create" "ps' = ps\<lparr>ps_clients := ps_clients ps @ [client_store_new cid]\<rparr>"
      using assms i by (auto simp: private_client_mut_def ok_option_def Let_def split: if_splits)
    have "private_client ps' i = private_client ps i" if "i \<noteq> cid" for i
      using that by (auto simp: n(3) private_client_def ok_option_def Let_def nth_append client_store_new_def split: outcome.splits)
    then show ?thesis using n i by (auto simp: private_client_Ok client_store_new_def)
  qed
qed

text \<open>What is stored depends only on the stores that are found.\<close>

lemma stored_cong:
  assumes "private_client ps' i = private_client ps i"
  shows "stored_client E ps' i = stored_client E ps i" "stored_consensus E ps' i = stored_consensus E ps i"
  using assms by (simp_all add: stored_client_def stored_consensus_def fun_eq_iff)

lemma stored_found:
  assumes "private_client ps i = Ok (index, store)"
  shows "stored_client E ps i = ie_client_dec E (cl_client_state store)"
    "stored_consensus E ps i =
       (\<lambda>h. Option.bind (map_of (cl_consensus_states store) h) (\<lambda>bytes. ie_consensus_dec E (drop 16 bytes)))"
  using assms by (simp_all add: stored_client_def stored_consensus_def fun_eq_iff)

lemma stored_absent:
  assumes "\<forall>x. private_client ps i \<noteq> Ok x"
  shows "stored_client E ps i = None" "stored_consensus E ps i = Map.empty"
  using private_client_Err[of ps i] assms by (simp_all add: stored_client_def stored_consensus_def fun_eq_iff)

lemma private_inv_found:
  "private_inv E ps \<Longrightarrow> private_client ps i = Ok (index, store) \<Longrightarrow> client_store_inv E store"
  by (auto simp: private_inv_def private_client_Ok)

lemma private_inv_set:
  assumes "private_inv E ps" "private_client_mut cid create ps = (ps', Ok index)" "client_store_inv E store"
  shows "private_inv E (set_client_store index store ps')"
proof -
  let ?i = "unat (client_counter index)"
  have "ps' = ps \<or> ps_clients ps' = ps_clients ps @ [client_store_new cid] \<and> ?i = length (ps_clients ps)"
    using private_client_mutD[OF assms(2)] by blast
  then have "set ((ps_clients ps')[?i := store]) \<subseteq> insert store (set (ps_clients ps))"
    using set_update_subset_insert[of "ps_clients ps" ?i store] by auto
  then show ?thesis using assms(1,3) by (auto simp: private_inv_def set_client_store_def)
qed

text \<open>Changing the store of one client.\<close>

lemma client_mut:
  assumes "private_inv E ps" "private_client_mut cid create ps = (ps', Ok index)"
  obtains store where "ps_clients ps' ! unat (client_counter index) = store" "cl_client_id store = cid"
    "stored_consensus E ps cid = (\<lambda>h. Option.bind (map_of (cl_consensus_states store) h) (\<lambda>bytes. ie_consensus_dec E (drop 16 bytes)))"
    "create \<or> client_store_inv E store \<and> stored_client E ps cid = ie_client_dec E (cl_client_state store)"
    "states_inv (cl_consensus_states store)"
    "\<forall>(h, bytes) \<in> set (cl_consensus_states store). ie_consensus_dec E (drop 16 bytes) \<noteq> None"
    "\<And>store'. cl_client_id store' = cid \<Longrightarrow> private_client (set_client_store index store' ps') =
       (\<lambda>i. if i = cid then Ok (index, store') else private_client ps i)"
proof -
  obtain store where S: "private_client ps' cid = Ok (index, store)" "\<forall>i. i \<noteq> cid \<longrightarrow> private_client ps' i = private_client ps i"
    "ps' = ps \<or> create \<and> (\<forall>x. private_client ps cid \<noteq> Ok x) \<and> store = client_store_new cid"
    using private_client_mutD[OF assms(2)] by blast
  have eq: "private_client (set_client_store index store' ps') = (\<lambda>i. if i = cid then Ok (index, store') else private_client ps i)"
    if "cl_client_id store' = cid" for store'
    using private_client_set[OF S(1) that] S(2) by (auto simp: fun_eq_iff)
  show thesis
  proof (cases "ps' = ps")
    case True
    then have "client_store_inv E store" using private_inv_found[OF assms(1)] S(1) by simp
    then show ?thesis using S(1) True eq stored_found[of ps cid index store E]
      by (intro that[of store]) (auto simp: private_client_Ok client_store_inv_def)
  next
    case False
    then show ?thesis using S eq stored_absent[of ps cid E]
      by (intro that[of store]) (auto simp: private_client_Ok client_store_new_def states_inv_def)
  qed
qed

section \<open>The contract\<close>

lemma on_private_pair: "on_private f st = (st', r) \<longleftrightarrow> f (st_private st) = (st_private st', r) \<and> st' = st\<lparr>st_private := st_private st'\<rparr>"
  by (cases "f (st_private st)") (auto simp: on_private_def)

lemma provable_set_private: "provable_set E err key hash st = (st', r) \<Longrightarrow> st_private st' = st_private st \<and> st_chain st' = st_chain st"
  by (auto simp: provable_set_def Let_def split: prod.splits)

lemma provable_del_private: "provable_del E err key st = (st', r) \<Longrightarrow> st_private st' = st_private st \<and> st_chain st' = st_chain st"
  by (auto simp: provable_del_def Let_def split: prod.splits)

lemma store_client_state_private:
  assumes "store_client_state_impl E cid state st = (st', Ok ())"
  obtains ps index bytes where "private_client_mut cid True (st_private st) = (ps, Ok index)"
    "ie_client_enc E state = Some bytes"
    "st_private st' = set_client_store index ((ps_clients ps ! unat (client_counter index))\<lparr>cl_client_state := bytes\<rparr>) ps"
  using assms provable_set_private
  by (fastforce simp: store_client_state_impl_def st_bind_def on_private_def serialised_new_def ok_or_def st_lift_def Let_def
      split: prod.splits outcome.splits option.splits)

lemma store_consensus_state_private:
  assumes "store_consensus_state_impl E cid height state st = (st', Ok ())"
  obtains ps index bytes t h store where "private_client_mut cid False (st_private st) = (ps, Ok index)"
    "ie_consensus_enc E state = Some bytes"
    "insert_consensus_state height (to_le 8 t @ to_le 8 h @ bytes) (ps_clients ps ! unat (client_counter index)) = Some store"
    "st_private st' = set_client_store index store ps"
  using assms provable_set_private
  by (fastforce simp: store_consensus_state_impl_def ccs_new_def st_bind_def on_private_def serialised_new_def ok_or_def st_lift_def Let_def
      split: prod.splits outcome.splits option.splits)

lemma delete_consensus_state_private:
  assumes "delete_consensus_state_impl E cid height st = (st', Ok ())"
  obtains ps index store where "private_client_mut cid False (st_private st) = (ps, Ok index)"
    "store = ps_clients ps ! unat (client_counter index)"
    "st_private st' = set_client_store index (store\<lparr>cl_consensus_states := swap_remove height (cl_consensus_states store)\<rparr>) ps"
  using assms provable_del_private
  by (fastforce simp: delete_consensus_state_impl_def st_bind_def on_private_def st_lift_def Let_def
      split: prod.splits outcome.splits option.splits)

lemma consensus_bytes:
  "env_ok E \<Longrightarrow> ie_consensus_enc E state = Some bytes \<Longrightarrow>
     ie_consensus_dec E (drop 16 (to_le 8 t @ to_le 8 h @ bytes)) = Some state"
  by (simp add: env_ok_def)

lemma law_set_client:
  assumes E: "env_ok E" and i: "private_inv E (st_private st)" and r: "store_client_state_impl E cid cs st = (st', Ok ())"
  shows "private_inv E (st_private st')" "stored_client E (st_private st') = (stored_client E (st_private st))(cid \<mapsto> cs)"
    "stored_consensus E (st_private st') = stored_consensus E (st_private st)"
proof -
  obtain ps index bytes where A: "private_client_mut cid True (st_private st) = (ps, Ok index)" "ie_client_enc E cs = Some bytes"
    "st_private st' = set_client_store index ((ps_clients ps ! unat (client_counter index))\<lparr>cl_client_state := bytes\<rparr>) ps"
    by (rule store_client_state_private[OF r])
  obtain store where S: "ps_clients ps ! unat (client_counter index) = store" "cl_client_id store = cid"
    "stored_consensus E (st_private st) cid =
       (\<lambda>h. Option.bind (map_of (cl_consensus_states store) h) (\<lambda>bytes. ie_consensus_dec E (drop 16 bytes)))"
    "states_inv (cl_consensus_states store)"
    "\<forall>(h, bytes) \<in> set (cl_consensus_states store). ie_consensus_dec E (drop 16 bytes) \<noteq> None"
    "\<And>store'. cl_client_id store' = cid \<Longrightarrow> private_client (set_client_store index store' ps) =
       (\<lambda>i. if i = cid then Ok (index, store') else private_client (st_private st) i)"
    by (rule client_mut[OF i A(1)]) blast
  let ?store = "store\<lparr>cl_client_state := bytes\<rparr>"
  have dec: "ie_client_dec E bytes = Some cs" using E A(2) by (simp add: env_ok_def)
  then have "client_store_inv E ?store" using S(4,5) by (simp add: client_store_inv_def)
  then show "private_inv E (st_private st')" using private_inv_set[OF i A(1)] A(3) S(1) by simp
  have P: "private_client (st_private st') = (\<lambda>i. if i = cid then Ok (index, ?store) else private_client (st_private st) i)"
    using S(6)[of ?store] A(3) S(1,2) by simp
  show "stored_client E (st_private st') = (stored_client E (st_private st))(cid \<mapsto> cs)"
    using dec by (simp add: fun_eq_iff stored_client_def P)
  show "stored_consensus E (st_private st') = stored_consensus E (st_private st)"
  proof
    fix i show "stored_consensus E (st_private st') i = stored_consensus E (st_private st) i"
      using S(3) by (cases "i = cid") (auto simp: stored_found[of _ _ index ?store] P intro: stored_cong)
  qed
qed

text \<open>The two operations that change the consensus states of a client.\<close>

lemma consensus_change:
  assumes i: "private_inv E (st_private st)" and m: "private_client_mut cid False (st_private st) = (ps, Ok index)"
    and p: "st_private st' = set_client_store index ((ps_clients ps ! unat (client_counter index))\<lparr>cl_consensus_states := states'\<rparr>) ps"
    and s: "states_inv states'" "\<forall>(h, bytes) \<in> set states'. ie_consensus_dec E (drop 16 bytes) \<noteq> None"
  shows "private_inv E (st_private st')" "stored_client E (st_private st') = stored_client E (st_private st)"
    "stored_consensus E (st_private st') = (stored_consensus E (st_private st))
       (cid := (\<lambda>h. Option.bind (map_of states' h) (\<lambda>bytes. ie_consensus_dec E (drop 16 bytes))))"
proof -
  obtain store where S: "ps_clients ps ! unat (client_counter index) = store" "cl_client_id store = cid"
    "client_store_inv E store" "stored_client E (st_private st) cid = ie_client_dec E (cl_client_state store)"
    "\<And>store'. cl_client_id store' = cid \<Longrightarrow> private_client (set_client_store index store' ps) =
       (\<lambda>i. if i = cid then Ok (index, store') else private_client (st_private st) i)"
    by (rule client_mut[OF i m]) blast
  let ?store = "store\<lparr>cl_consensus_states := states'\<rparr>"
  have "client_store_inv E ?store" using S(3) s by (simp add: client_store_inv_def)
  then show "private_inv E (st_private st')" using private_inv_set[OF i m] p S(1) by simp
  have P: "private_client (st_private st') = (\<lambda>i. if i = cid then Ok (index, ?store) else private_client (st_private st) i)"
    using S(5)[of ?store] p S(1,2) by simp
  show "stored_client E (st_private st') = stored_client E (st_private st)"
  proof
    fix i show "stored_client E (st_private st') i = stored_client E (st_private st) i"
      using S(4) by (cases "i = cid") (auto simp: stored_found[of _ _ index ?store] P intro: stored_cong)
  qed
  show "stored_consensus E (st_private st') = (stored_consensus E (st_private st))
       (cid := (\<lambda>h. Option.bind (map_of states' h) (\<lambda>bytes. ie_consensus_dec E (drop 16 bytes))))"
    by (simp add: fun_eq_iff stored_consensus_def P)
qed

lemma set_of_map:
  assumes "distinct (map fst m)" "\<And>h v. map_of m h = Some v \<Longrightarrow> Q v"
  shows "\<forall>(h, v) \<in> set m. Q v"
  using assms by auto

lemma map_of_all: "\<forall>(h, v) \<in> set m. Q v \<Longrightarrow> map_of m k = Some v \<Longrightarrow> Q v"
  by (auto dest!: map_of_SomeD)

lemma law_store_consensus:
  assumes E: "env_ok E" and i: "private_inv E (st_private st)" and r: "store_consensus_state_impl E cid h c st = (st', Ok ())"
  defines "old \<equiv> stored_consensus E (st_private st)" and "new \<equiv> stored_consensus E (st_private st')"
  shows "private_inv E (st_private st')" "stored_client E (st_private st') = stored_client E (st_private st)"
    "new cid h = Some c" "new cid \<subseteq>\<^sub>m (old cid)(h \<mapsto> c)" "\<forall>i. i \<noteq> cid \<longrightarrow> new i = old i"
proof -
  let ?dec = "\<lambda>bytes. ie_consensus_dec E (drop 16 bytes)"
  obtain ps index bytes t hh store' where A: "private_client_mut cid False (st_private st) = (ps, Ok index)"
    "ie_consensus_enc E c = Some bytes"
    "insert_consensus_state h (to_le 8 t @ to_le 8 hh @ bytes) (ps_clients ps ! unat (client_counter index)) = Some store'"
    "st_private st' = set_client_store index store' ps"
    by (rule store_consensus_state_private[OF r])
  obtain store where S: "ps_clients ps ! unat (client_counter index) = store" "states_inv (cl_consensus_states store)"
    "old cid = (\<lambda>h. Option.bind (map_of (cl_consensus_states store) h) ?dec)"
    "\<forall>(h, bytes) \<in> set (cl_consensus_states store). ?dec bytes \<noteq> None"
    unfolding old_def by (rule client_mut[OF i A(1)]) blast
  let ?b = "to_le 8 t @ to_le 8 hh @ bytes" and ?m = "map_of (cl_consensus_states store)"
  note dec = consensus_bytes[OF E A(2), of t hh]
  obtain states' where s': "insert_consensus_state_impl h ?b (cl_consensus_states store) = Some states'" "states_inv states'"
    "map_of states' = ?m(h \<mapsto> ?b) \<or> (\<exists>low. map_of states' = (?m(low := None))(h \<mapsto> ?b))"
    using insert_consensus_state_spec[OF S(2), of h ?b] by metis
  have store': "store' = store\<lparr>cl_consensus_states := states'\<rparr>" using A(3) S(1) s'(1) by (simp add: insert_consensus_state_def)
  have some: "?dec b \<noteq> None" if "map_of states' k = Some b" for k b
    using that s'(3) dec map_of_all[OF S(4), of k b] by (auto simp del: not_None_eq split: if_splits)
  have "\<forall>(h, bytes) \<in> set states'. ?dec bytes \<noteq> None"
    using set_of_map[of states' "\<lambda>b. ?dec b \<noteq> None"] s'(2) some by (auto simp: states_inv_def)
  note ch = consensus_change[OF i A(1) _ s'(2) this]
  have st': "st_private st' = set_client_store index ((ps_clients ps ! unat (client_counter index))\<lparr>cl_consensus_states := states'\<rparr>) ps"
    using A(4) store' S(1) by simp
  show "private_inv E (st_private st')" "stored_client E (st_private st') = stored_client E (st_private st)"
    using ch(1,2)[OF st'] by auto
  have new: "new = old(cid := (\<lambda>h. Option.bind (map_of states' h) ?dec))" using ch(3)[OF st'] by (simp add: new_def old_def)
  then show "new cid h = Some c" using s'(3) dec by auto
  show "new cid \<subseteq>\<^sub>m (old cid)(h \<mapsto> c)" using s'(3) dec new S(3) by (auto simp: map_le_def split: if_splits)
  show "\<forall>i. i \<noteq> cid \<longrightarrow> new i = old i" using new by simp
qed

lemma law_delete_consensus:
  assumes i: "private_inv E (st_private st)" and r: "delete_consensus_state_impl E cid h st = (st', Ok ())"
  defines "old \<equiv> stored_consensus E (st_private st)"
  shows "private_inv E (st_private st')" "stored_client E (st_private st') = stored_client E (st_private st)"
    "stored_consensus E (st_private st') = old(cid := (old cid)(h := None))"
proof -
  obtain ps index store where A: "private_client_mut cid False (st_private st) = (ps, Ok index)"
    "store = ps_clients ps ! unat (client_counter index)"
    "st_private st' = set_client_store index (store\<lparr>cl_consensus_states := swap_remove h (cl_consensus_states store)\<rparr>) ps"
    by (rule delete_consensus_state_private[OF r])
  have S: "states_inv (cl_consensus_states store)"
    "old cid = (\<lambda>h. Option.bind (map_of (cl_consensus_states store) h) (\<lambda>bytes. ie_consensus_dec E (drop 16 bytes)))"
    "\<forall>(h, bytes) \<in> set (cl_consensus_states store). ie_consensus_dec E (drop 16 bytes) \<noteq> None"
    unfolding old_def using A(2) by (auto intro: client_mut[OF i A(1)])
  let ?s = "cl_consensus_states store"
  have d: "distinct (map fst ?s)" using S(1) by (simp add: states_inv_def)
  note sw = swap_remove_spec[OF d, of h]
  have "length (swap_remove h ?s) \<le> length ?s"
    using card_mono[of "fst ` set ?s" "fst ` set (swap_remove h ?s)"] sw(3) distinct_card[OF d] distinct_card[OF sw(2)] by auto
  then have si: "states_inv (swap_remove h ?s)" using S(1) sw(2) by (simp add: states_inv_def)
  have "\<forall>(h, bytes) \<in> set (swap_remove h ?s). ie_consensus_dec E (drop 16 bytes) \<noteq> None"
    by (rule set_of_map[OF sw(2)]) (use sw(1) map_of_all[OF S(3)] in \<open>simp del: not_None_eq split: if_splits\<close>)
  note ch = consensus_change[OF i A(1) A(3)[unfolded A(2)] si[unfolded A(2)] this[unfolded A(2)]]
  show "private_inv E (st_private st')" "stored_client E (st_private st') = stored_client E (st_private st)" by (fact ch)+
  show "stored_consensus E (st_private st') = old(cid := (old cid)(h := None))"
    using ch(3) sw(1) S(2) unfolding old_def A(2) by (auto simp: fun_eq_iff)
qed

text \<open>The neighbourhood of a height.\<close>

lemma nb_scan_this:
  assumes "map_of states height = Some v" "distinct (map fst states)"
  shows "nb_scan height prv nxt states = This v"
  using assms by (induction height prv nxt states rule: nb_scan.induct) (auto split: if_splits)

definition closest_below :: "ibc_height \<Rightarrow> ibc_height \<times> 'v option \<Rightarrow> (ibc_height, 'v) linear_map \<Rightarrow> 'v option \<Rightarrow> bool" where
  "closest_below height prv states p \<longleftrightarrow>
     p = snd prv \<and> (\<forall>k \<in> fst ` set states. k < height \<longrightarrow> k < fst prv) \<or>
     (\<exists>(k, v) \<in> set states. p = Some v \<and> k < height \<and> fst prv \<le> k \<and> (\<forall>j \<in> fst ` set states. j < height \<longrightarrow> j \<le> k))"

definition closest_above :: "ibc_height \<Rightarrow> ibc_height \<times> 'v option \<Rightarrow> (ibc_height, 'v) linear_map \<Rightarrow> 'v option \<Rightarrow> bool" where
  "closest_above height nxt states n \<longleftrightarrow>
     n = snd nxt \<and> (\<forall>k \<in> fst ` set states. height < k \<longrightarrow> fst nxt < k) \<or>
     (\<exists>(k, v) \<in> set states. n = Some v \<and> height < k \<and> k \<le> fst nxt \<and> (\<forall>j \<in> fst ` set states. height < j \<longrightarrow> k \<le> j))"

lemma closest_below_Cons:
  assumes "closest_below height (if key < height \<and> fst prv \<le> key then (key, Some v) else prv) states p"
  shows "closest_below height prv ((key, v) # states) p"
  using assms unfolding closest_below_def by (force split: if_splits simp: not_le)

lemma closest_above_Cons:
  assumes "closest_above height (if height < key \<and> key \<le> fst nxt then (key, Some v) else nxt) states n"
  shows "closest_above height nxt ((key, v) # states) n"
  using assms unfolding closest_above_def by (force split: if_splits simp: not_le)

lemma nb_scan_neighbours:
  assumes "height \<notin> fst ` set states"
  shows "\<exists>p n. nb_scan height prv nxt states = Neighbours p n \<and> closest_below height prv states p \<and> closest_above height nxt states n"
  using assms
proof (induction states arbitrary: prv nxt)
  case Nil
  then show ?case by (auto simp: closest_below_def closest_above_def)
next
  case (Cons e states)
  obtain key v where e: "e = (key, v)" by fastforce
  let ?p = "if key < height \<and> fst prv \<le> key then (key, Some v) else prv"
  let ?n = "if height < key \<and> key \<le> fst nxt then (key, Some v) else nxt"
  have "nb_scan height prv nxt (e # states) = nb_scan height ?p ?n states" using Cons.prems by (auto simp: e)
  moreover obtain p n where "nb_scan height ?p ?n states = Neighbours p n"
    "closest_below height ?p states p" "closest_above height ?n states n" using Cons.IH[of ?p ?n] Cons.prems by auto
  ultimately show ?case using closest_below_Cons closest_above_Cons unfolding e by metis
qed

lemma least_height: "\<not> (h :: ibc_height) < (0, 0)" "\<not> (- 1, - 1) < (h :: ibc_height)"
  by (cases h; simp add: less_prod_def')+

lemma map_of_entry:
  fixes states :: "('k :: linorder \<times> 'v) list"
  assumes "distinct (map fst states)" "(k, v) \<in> set states"
  shows "k < height \<Longrightarrow> \<forall>j \<in> fst ` set states. j < height \<longrightarrow> j \<le> k \<Longrightarrow> entry_below (map_of states) height (Some v)"
    "height < k \<Longrightarrow> \<forall>j \<in> fst ` set states. height < j \<longrightarrow> k \<le> j \<Longrightarrow> entry_above (map_of states) height (Some v)"
  using assms by (force simp: entry_below_def entry_above_def map_of_eq_None_iff)+

lemma entry_range:
  fixes m :: "'k :: linorder \<rightharpoonup> 'v"
  shows "entry_below m h (Some v) \<Longrightarrow> \<exists>k. m k = Some v" "entry_above m h (Some v) \<Longrightarrow> \<exists>k. m k = Some v"
  by (auto simp: entry_below_def entry_above_def)

lemma entry_bind:
  fixes m :: "'k :: linorder \<rightharpoonup> 'v"
  assumes "\<And>k v. m k = Some v \<Longrightarrow> f v \<noteq> None"
  shows "entry_below m h e \<Longrightarrow> entry_below (\<lambda>k. Option.bind (m k) f) h (Option.bind e f)"
    "entry_above m h e \<Longrightarrow> entry_above (\<lambda>k. Option.bind (m k) f) h (Option.bind e f)"
  using assms by (cases e; force simp: entry_below_def entry_above_def split: option.splits)+

lemma closest_entry:
  assumes "distinct (map fst states)" "height \<notin> fst ` set states"
  shows "closest_below height ((0, 0), None) states p \<Longrightarrow> entry_below (map_of states) height p"
    "closest_above height ((- 1, - 1), None) states n \<Longrightarrow> entry_above (map_of states) height n"
proof -
  show "entry_below (map_of states) height p" if "closest_below height ((0, 0), None) states p"
    using that unfolding closest_below_def
  proof (elim disjE bexE conjE)
    assume "p = snd ((0, 0), None)" "\<forall>k \<in> fst ` set states. k < height \<longrightarrow> k < fst ((0, 0), None)"
    then have "p = None" "\<forall>k. k < height \<longrightarrow> map_of states k = None" using least_height(1) by (auto simp: map_of_eq_None_iff)
    then show ?thesis by (simp add: entry_below_def)
  next
    fix x assume x: "x \<in> set states" "case x of (k, v) \<Rightarrow> p = Some v \<and> k < height \<and> fst ((0, 0), None) \<le> k \<and>
      (\<forall>j \<in> fst ` set states. j < height \<longrightarrow> j \<le> k)"
    obtain k v where kv: "x = (k, v)" by fastforce
    show ?thesis using x map_of_entry[OF assms(1), of k v] unfolding kv by auto
  qed
  show "entry_above (map_of states) height n" if "closest_above height ((- 1, - 1), None) states n"
    using that unfolding closest_above_def
  proof (elim disjE bexE conjE)
    assume "n = snd ((- 1, - 1), None)" "\<forall>k \<in> fst ` set states. height < k \<longrightarrow> fst ((- 1, - 1), None) < k"
    then have "n = None" "\<forall>k. height < k \<longrightarrow> map_of states k = None" using least_height(2) by (auto simp: map_of_eq_None_iff)
    then show ?thesis by (simp add: entry_above_def)
  next
    fix x assume x: "x \<in> set states" "case x of (k, v) \<Rightarrow> n = Some v \<and> height < k \<and> k \<le> fst ((- 1, - 1), None) \<and>
      (\<forall>j \<in> fst ` set states. height < j \<longrightarrow> k \<le> j)"
    obtain k v where kv: "x = (k, v)" by fastforce
    show ?thesis using x map_of_entry[OF assms(1), of k v] unfolding kv by auto
  qed
qed

lemma found_consensus:
  assumes "private_inv E ps" "private_client ps cid = Ok (index, store)"
  shows "map_of (cl_consensus_states store) h = Some b \<Longrightarrow> \<exists>c. ie_consensus_dec E (drop 16 b) = Some c \<and> stored_consensus E ps cid h = Some c"
    "map_of (cl_consensus_states store) h = None \<Longrightarrow> stored_consensus E ps cid h = None"
    "distinct (map fst (cl_consensus_states store))" "stored_client E ps cid \<noteq> None"
  using private_inv_found[OF assms] stored_found[OF assms(2), of E]
    map_of_all[of "cl_consensus_states store" "\<lambda>b. ie_consensus_dec E (drop 16 b) \<noteq> None" h b]
  by (auto simp: client_store_inv_def states_inv_def)

lemma found_cases:
  assumes "private_inv E ps"
  obtains index store where "private_client ps cid = Ok (index, store)" "stored_client E ps cid \<noteq> None"
  | "private_client ps cid = Err (ClientStateNotFound cid)" "stored_client E ps cid = None" "stored_consensus E ps cid = Map.empty"
  using private_client_Err[of ps cid] stored_absent[of ps cid E] found_consensus(4)[OF assms] by (metis prod.exhaust)

lemma law_neighbourhood:
  assumes i: "private_inv E (st_private st)" and f: "private_client (st_private st) cid = Ok (index, store)"
    and n: "stored_consensus E (st_private st) cid h = None"
  shows "\<exists>p n. ibc_neighbourhood E st cid h = Ok (Neighbours p n) \<and>
    entry_below (stored_consensus E (st_private st) cid) h p \<and> entry_above (stored_consensus E (st_private st) cid) h n"
proof -
  let ?s = "cl_consensus_states store" and ?dec = "\<lambda>b. ie_consensus_dec E (drop 16 b)"
  note F = found_consensus[OF i f]
  have none: "map_of ?s h = None" using F(1)[of h] n by (cases "map_of ?s h") auto
  then have "h \<notin> fst ` set ?s" by (simp add: map_of_eq_None_iff)
  then obtain p n where pn: "nb_scan h ((0, 0), None) ((- 1, - 1), None) ?s = Neighbours p n"
    "entry_below (map_of ?s) h p" "entry_above (map_of ?s) h n"
    using nb_scan_neighbours[of h ?s] closest_entry[OF F(3)] by blast
  have S: "stored_consensus E (st_private st) cid = (\<lambda>h. Option.bind (map_of ?s h) ?dec)" by (rule stored_found(2)[OF f])
  have ok: "transpose_map (ccs_state E) e = Ok (Option.bind e ?dec) \<and> (\<forall>b. e = Some b \<longrightarrow> (\<exists>c. ?dec b = Some c))"
    if "\<forall>b. e = Some b \<longrightarrow> (\<exists>k. map_of ?s k = Some b)" for e
    using that F(1) by (cases e) (fastforce simp: transpose_map_def ccs_state_def serialised_get_def ok_or_def)+
  have "\<forall>b. p = Some b \<longrightarrow> (\<exists>k. map_of ?s k = Some b)" "\<forall>b. n = Some b \<longrightarrow> (\<exists>k. map_of ?s k = Some b)"
    using entry_range[of "map_of ?s"] pn(2,3) by blast+
  note P = ok[OF this(1)] and N = ok[OF this(2)]
  have "entry_below (stored_consensus E (st_private st) cid) h (Option.bind p ?dec)"
    "entry_above (stored_consensus E (st_private st) cid) h (Option.bind n ?dec)"
    unfolding S using entry_bind[of "map_of ?s" ?dec h] F(1) pn(2,3) by fastforce+
  then show ?thesis using pn(1) P N by (auto simp: ibc_neighbourhood_def f nb_try_map_def)
qed

text \<open>The storage of the IBC program is a context for light clients.\<close>

definition ibc_cinv :: "('s, 'cs, 'co, 'ce, 'ch) ibc_env \<Rightarrow> ('s, 'pk, 'sig) ibc_storage \<Rightarrow> bool" where
  "ibc_cinv E st \<longleftrightarrow> env_ok E \<and> private_inv E (st_private st)"

interpretation ibc: client_context "ibc_ctx E" "ibc_cinv E" "\<lambda>st. stored_client E (st_private st)"
  "\<lambda>st. stored_consensus E (st_private st)" for E :: "('s, 'cs, 'co, 'ce, 'ch) ibc_env"
proof
  fix st :: "('s, 'a, 'b) ibc_storage" and st' :: "('s, 'a, 'b) ibc_storage" and cid h c cs t hh
  assume ci: "ibc_cinv E st"
  then have i: "private_inv E (st_private st)" and E: "env_ok E" by (auto simp: ibc_cinv_def)
  show "stored_client E (st_private st) cid \<noteq> None" if "stored_consensus E (st_private st) cid h = Some c"
    using that by (cases rule: found_cases[OF i, of cid]) auto
  show "cc_consensus_state (ibc_ctx E) st cid h = Ok c" if "stored_consensus E (st_private st) cid h = Some c"
    using that found_consensus[OF i, of cid]
    by (cases rule: found_cases[OF i, of cid])
      (auto simp: ibc_ctx_def consensus_state_impl_def stored_found(2) ccs_state_def serialised_get_def ok_or_def bind_eq_Some_conv)
  show "cc_consensus_state (ibc_ctx E) st cid h =
      Err (if stored_client E (st_private st) cid = None then ClientStateNotFound cid else ConsensusStateNotFound cid h)"
    if "stored_consensus E (st_private st) cid h = None"
    using that found_consensus(1)[OF i, of cid]
    by (cases rule: found_cases[OF i, of cid])
      (fastforce simp: ibc_ctx_def consensus_state_impl_def ok_or_def split: option.splits)+
  show "cc_neighbourhood (ibc_ctx E) st cid h = Ok (This c)" if "stored_consensus E (st_private st) cid h = Some c"
    using that found_consensus(3)[OF i, of cid]
    by (cases rule: found_cases[OF i, of cid])
      (auto simp: ibc_ctx_def ibc_neighbourhood_def stored_found(2) nb_scan_this nb_try_map_def ccs_state_def
        serialised_get_def ok_or_def bind_eq_Some_conv)
  show "\<exists>p n. cc_neighbourhood (ibc_ctx E) st cid h = Ok (Neighbours p n) \<and>
      entry_below (stored_consensus E (st_private st) cid) h p \<and> entry_above (stored_consensus E (st_private st) cid) h n"
    if "stored_client E (st_private st) cid \<noteq> None" "stored_consensus E (st_private st) cid h = None"
    using that law_neighbourhood[OF i _ that(2)] by (cases rule: found_cases[OF i, of cid]) (auto simp: ibc_ctx_def)
  show "ibc_cinv E st' \<and> stored_client E (st_private st') = (stored_client E (st_private st))(cid \<mapsto> cs) \<and>
      stored_consensus E (st_private st') = stored_consensus E (st_private st)"
    if "cc_set_client_state (ibc_ctx E) cid cs st = (st', Ok ())"
    using law_set_client[OF E i, of cid cs st'] that E by (simp add: ibc_ctx_def ibc_cinv_def)
  show "ibc_cinv E st' \<and> stored_client E (st_private st') = stored_client E (st_private st) \<and>
      stored_consensus E (st_private st') cid h = Some c \<and>
      stored_consensus E (st_private st') cid \<subseteq>\<^sub>m (stored_consensus E (st_private st) cid)(h \<mapsto> c) \<and>
      (\<forall>i. i \<noteq> cid \<longrightarrow> stored_consensus E (st_private st') i = stored_consensus E (st_private st) i)"
    if "cc_store_consensus_state (ibc_ctx E) cid h c t hh st = (st', Ok ())"
    using law_store_consensus[OF E i, of cid h c st'] that E by (simp add: ibc_ctx_def ibc_cinv_def)
  show "ibc_cinv E st' \<and> stored_client E (st_private st') = stored_client E (st_private st) \<and>
      stored_consensus E (st_private st') = (stored_consensus E (st_private st))
        (cid := (stored_consensus E (st_private st) cid)(h := None))"
    if "cc_delete_consensus_state (ibc_ctx E) cid h st = (st', Ok ())"
    using law_delete_consensus[OF i, of cid h st'] that E by (simp add: ibc_ctx_def ibc_cinv_def)
  show "stored_consensus E (st_private st) cid h = Some c" if "cc_earliest (ibc_ctx E) st cid = Ok (Some (h, c))"
    using that by (simp add: ibc_ctx_def)
qed

section \<open>Clients of the guest chain\<close>

text \<open>The conversions between the states of this client and of any client, derived from the variants.\<close>

definition any_consensus_into_guest :: "('u, 'x, 'y) any_consensus_state \<Rightarrow> guest_consensus option" where
  "any_consensus_into_guest state = (case state of CoGuest c \<Rightarrow> Some c | _ \<Rightarrow> None)"

definition any_conv :: "(('t, 'w, 'r) any_client_state, ('u, 'x, 'y) any_consensus_state) guest_conv" where
  "any_conv =
     \<lparr>gv_from_client = CsGuest, gv_from_consensus = CoGuest,
      gv_into_consensus = any_consensus_into_guest\<rparr>"

interpretation ibc_guest: guest_context "ibc_ctx E" "ibc_cinv E" "\<lambda>st. stored_client E (st_private st)"
  "\<lambda>st. stored_consensus E (st_private st)" any_conv
  for E :: "('s, ('t, 'w, 'r) any_client_state, ('u, 'x, 'y) any_consensus_state, 'ce, 'ch) ibc_env"
  by unfold_locales (simp add: any_conv_def any_consensus_into_guest_def)

lemma any_conv_into: "gv_into_consensus any_conv = any_consensus_into_guest" by (simp add: any_conv_def)


text \<open>An example: the client of the first block accepts the header of that block once more.\<close>

definition ex_cs :: guest_client where
  "ex_cs = guest_client_new (replicate 32 1) 1 1000 (replicate 32 2) None False"

definition ex_hdr :: "(nat, bool) guest_header" where "ex_hdr = ex_signed 3"

definition ex_env :: "(unit, (unit, unit, unit) any_client_state, (unit, unit, unit) any_consensus_state, unit, unit) ibc_env" where
  "ex_env =
     \<lparr>ie_digest = (\<lambda>_. replicate 32 1), ie_ops = \<lparr>al_alloc = (\<lambda>_ s. (s, Panic)), al_get = (\<lambda>_ _. None), al_set = (\<lambda>_ _ _. None), al_free = (\<lambda>_ _. None)\<rparr>,
      ie_b64 = \<lparr>b64_enc = (\<lambda>bs. bs), b64_dec = Some\<rparr>, ie_client_enc = (\<lambda>_. None), ie_client_dec = (\<lambda>_. Some (CsGuest ex_cs)),
      ie_client_any = (\<lambda>_. []), ie_consensus_enc = (\<lambda>_. None),
      ie_consensus_dec = (\<lambda>_. Some (CoGuest (consensus_from_header ex_hdr))), ie_consensus_any = (\<lambda>_. []),
      ie_conn_enc = (\<lambda>_. None), ie_conn_dec = (\<lambda>_. None), ie_conn_proto = (\<lambda>_. []), ie_chan_enc = (\<lambda>_. None),
      ie_chan_dec = (\<lambda>_. None), ie_chan_proto = (\<lambda>_. [])\<rparr>"

definition ex_storage :: "(unit, nat, bool) ibc_storage" where
  "ex_storage =
     \<lparr>st_private =
        \<lparr>ps_clients = [\<lparr>cl_client_id = ''cf-guest-0'', cl_client_state = [1],
           cl_consensus_states = [(header_height ex_hdr, replicate 16 0 @ [2])]\<rparr>],
         ps_connections = [], ps_port_channel = [], ps_channel_counter = 0, ps_fee_collector = [],
         ps_new_fee_collector_proposal = None, ps_assets = [], ps_fee_in_lamports = 0\<rparr>,
      st_provable = \<lparr>tr_root_ptr = None, tr_root_hash = EMPTY_TRIE_ROOT, tr_alloc = ()\<rparr>,
      st_chain = \<lparr>cd_inner = Some \<lparr>ci_last_check_height = 1, ci_manager = ex_manager, ci_sig_verify_program_id = []\<rparr>, cd_events = []\<rparr>\<rparr>"

lemma ex_client_found:
  "private_client (st_private ex_storage) ''cf-guest-0'' = Ok (ClientIdx 0, ps_clients (st_private ex_storage) ! 0)"
proof -
  have "client_idx_try_from ''cf-guest-0'' = Ok (ClientIdx 0)"
    by (simp add: client_idx_try_from_def client_idx_parse_def counter_parse_def from_counter_def u32_from_str_def digit_val_def)
  then show ?thesis by (simp add: private_client_Ok ex_storage_def)
qed

lemma ex_storage_inv: "ibc_cinv ex_env ex_storage"
  by (simp add: ibc_cinv_def env_ok_def ex_env_def private_inv_def ex_storage_def client_store_inv_def states_inv_def
      IBC_MAX_CONSENSUS_STATES_def)

lemma ex_height: "bh_block_height (gh_block_header ex_hdr) = 1" "header_height ex_hdr = (1, 1)"
  by (simp_all add: header_height_def ex_hdr_def ex_signed_def ex_genesis_def block_generate_genesis_def header_generate_genesis_def u64_def)

lemma ex_stored:
  "stored_client ex_env (st_private ex_storage) ''cf-guest-0'' = Some (CsGuest ex_cs)"
  "stored_consensus ex_env (st_private ex_storage) ''cf-guest-0'' = [(1, 1) \<mapsto> CoGuest (consensus_from_header ex_hdr)]"
  unfolding stored_found(1)[OF ex_client_found] stored_found(2)[OF ex_client_found]
  by (simp_all add: ex_env_def ex_storage_def ex_height fun_eq_iff)

lemma ex_client_run:
  "guest_run (ibc_ctx ex_env) any_conv ex_verifier (\<lambda>st. stored_client ex_env (st_private st)) ''cf-guest-0'' ex_storage ex_storage [ex_hdr]"
proof (rule guest_run.update[OF guest_run.start])
  have c: "cc_consensus_state (ibc_ctx ex_env) ex_storage ''cf-guest-0'' (1, 1) = Ok (CoGuest (consensus_from_header ex_hdr))"
    using ibc.consensus_Some[OF ex_storage_inv, of "''cf-guest-0''"] ex_stored(2) by simp
  have n: "cc_neighbourhood (ibc_ctx ex_env) ex_storage ''cf-guest-0'' (1, 1) = Ok (This (CoGuest (consensus_from_header ex_hdr)))"
    using ibc.nb_this[OF ex_storage_inv, of "''cf-guest-0''"] ex_stored(2) by simp
  have m: "cc_host_metadata (ibc_ctx ex_env) ex_storage = Ok (1, (1, 1))"
    by (simp add: ibc_ctx_def ibc_host_metadata_def storage_head_def chain_head_def chain_get_def ok_or_def ex_storage_def
        manager_head_def ex_manager_def ex_genesis_def block_generate_genesis_def header_generate_genesis_def height_new_def u64_def)
  show "stored_client ex_env (st_private ex_storage) ''cf-guest-0'' = Some (gv_from_client any_conv ex_cs)"
    by (simp add: ex_stored any_conv_def)
  show "client_status (ibc_ctx ex_env) any_conv ex_storage ex_cs ''cf-guest-0'' = Ok Active"
    using c m by (simp add: client_status_def ex_cs_def guest_client_new_def height_new_def u64_def any_conv_into any_consensus_into_guest_def into_consensus_def
        ok_or_def consensus_has_expired_def saturating_add_def consensus_from_header_def ex_hdr_def ex_signed_def ex_genesis_def
        block_generate_genesis_def header_generate_genesis_def)
  show "do_verify_client_message ex_verifier ex_cs (HeaderMsg ex_hdr) = Ok ()"
    by (simp add: do_verify_client_message_def verify_header_def ex_hdr_def ex_signed_def ex_cs_def guest_client_new_def unwrap_or_def
        ex_epoch_def ex_verifier_def Let_def)
  show "do_check_for_misbehaviour (ibc_ctx ex_env) any_conv ex_storage ''cf-guest-0'' (HeaderMsg ex_hdr) = Ok False"
    using n by (simp add: do_check_for_misbehaviour_def check_for_misbehaviour_in_header_def ex_height height_new_def u64_def
        into_consensus_def any_conv_into any_consensus_into_guest_def ok_or_def)
  show "do_update_state (ibc_ctx ex_env) any_conv ex_cs ''cf-guest-0'' ex_hdr ex_storage = (ex_storage, Ok [(1, 1)])"
    using c m by (simp add: do_update_state_def ex_height height_new_def u64_def prune_oldest_consensus_state_def ibc_ctx_def st_bind_def)
qed


end
