(* ===== verification/Ibc_Mirror.thy ===== *)
theory Ibc_Mirror
  imports Ibc_Clients
begin

text \<open>
  The two halves of the storage of the IBC program agree: whatever the private half holds about clients,
  consensus states, connections, channels and sequence numbers, the trie commits to. The trie is used through
  the locale \<open>provable_trie\<close>, which the account of \<^verbatim>\<open>solana/trie\<close> satisfies. Receipts are not
  part of the operations below: their value is the hash of zero bytes, for which the
  guarantees of the trie do not hold.
\<close>

section \<open>The trie as a map from locations\<close>

locale provable_trie =
  fixes d :: "byte list \<Rightarrow> hash" and ops :: "('s, raw_node) alloc_ops" and tinv :: "'s trie \<Rightarrow> bool"
  assumes digest_hash: "tinv t \<Longrightarrow> hash_inv (d bytes)"
    and set_law: "tinv t \<Longrightarrow> hash_inv v \<Longrightarrow> trie_set d ops key v t = (t', Ok ()) \<Longrightarrow>
      tinv t' \<and> trie_get ops t' key = Ok (Some v) \<and> (\<forall>k. k \<noteq> key \<longrightarrow> trie_get ops t' k = trie_get ops t k)"
    and del_law: "tinv t \<Longrightarrow> trie_del d ops key t = (t', Ok found) \<Longrightarrow>
      tinv t' \<and> trie_get ops t' key = Ok None \<and> (\<forall>k. k \<noteq> key \<longrightarrow> trie_get ops t' k = trie_get ops t k)"

interpretation account: provable_trie d "sol_ops (resizable_data rent invoke)"
  "\<lambda>t. digest_ok d \<and> (\<exists>c. account_good d rent invoke t c)" for d rent invoke
proof
  let ?ops = "sol_ops (resizable_data rent invoke)"
  fix t :: "resizable sol_state trie" and t' :: "resizable sol_state trie" and v key found
  assume g: "digest_ok d \<and> (\<exists>c. account_good d rent invoke t c)"
  then obtain c where d: "digest_ok d" and c: "account_good d rent invoke t c" by blast
  show "hash_inv (d bytes)" for bytes using d by (simp add: digest_ok_def)
  show "(digest_ok d \<and> (\<exists>c. account_good d rent invoke t' c)) \<and> trie_get ?ops t' key = Ok (Some v) \<and>
      (\<forall>k. k \<noteq> key \<longrightarrow> trie_get ?ops t' k = trie_get ?ops t k)"
    if "hash_inv v" "trie_set d ?ops key v t = (t', Ok ())"
    using resizable.sol.set_good[OF d that(1) c[unfolded account_good_def] that(2)]
      resizable.sol.get_after_set[OF d that(1) account_rep[OF c] that(2)] d by (auto simp: account_good_def)
  show "(digest_ok d \<and> (\<exists>c. account_good d rent invoke t' c)) \<and> trie_get ?ops t' key = Ok None \<and>
      (\<forall>k. k \<noteq> key \<longrightarrow> trie_get ?ops t' k = trie_get ?ops t k)"
    if "trie_del d ?ops key t = (t', Ok found)"
    using resizable.sol.del_good[OF d c[unfolded account_good_def] that]
      resizable.sol.get_after_del[OF d account_rep[OF c] account_goodD(2)[OF c] that] d by (auto simp: account_good_def)
qed

text \<open>The value at a location.\<close>

definition at_loc :: "('s, 'cs, 'co, 'ce, 'ch) ibc_env \<Rightarrow> ('s, 'pk, 'sig) ibc_storage \<Rightarrow> location \<Rightarrow> hash option" where
  "at_loc E st l = (case trie_get (ie_ops E) (st_provable st) (loc_bytes l) of Ok v \<Rightarrow> v | _ \<Rightarrow> None)"

lemma provable_get_loc: "key_deref key = loc_bytes l \<Longrightarrow> provable_get E st key = at_loc E st l"
  by (simp add: provable_get_def at_loc_def)

text \<open>The keys of the operations are the bytes of their locations.\<close>

lemma for_key_loc:
  "\<exists>key. for_client_state i = (Ok key :: ('e, trie_key) outcome) \<and> key_deref key = loc_bytes (LocClientState (client_counter i))"
  "\<exists>key. for_consensus_state i h = (Ok key :: ('e, trie_key) outcome) \<and>
     key_deref key = loc_bytes (LocConsensusState (client_counter i) (fst h) (snd h))"
  "\<exists>key. for_connection j = (Ok key :: ('e, trie_key) outcome) \<and> key_deref key = loc_bytes (LocConnection (connection_counter j))"
  using key_writes(1)[where ?'a = 'e, of i TagClientState] key_writes(2)[where ?'a = 'e, of j TagConnection]
    key_writes(3)[where ?'a = 'e, of i "fst h" "snd h" TagConsensusState]
  by (auto simp: for_client_state_def for_consensus_state_def for_connection_def append_height_def)

lemma key_loc:
  "for_client_state i = (Ok key :: ('e, trie_key) outcome) \<Longrightarrow> key_deref key = loc_bytes (LocClientState (client_counter i))"
  "for_consensus_state i h = (Ok key :: ('e, trie_key) outcome) \<Longrightarrow>
     key_deref key = loc_bytes (LocConsensusState (client_counter i) (fst h) (snd h))"
  "for_connection j = (Ok key :: ('e, trie_key) outcome) \<Longrightarrow> key_deref key = loc_bytes (LocConnection (connection_counter j))"
  using for_key_loc(1)[where ?'e = 'e, of i] for_key_loc(2)[where ?'e = 'e, of i h] for_key_loc(3)[where ?'e = 'e, of j] by auto

lemma port_key_loc:
  assumes "base64_engine b64" "port_channel_try_from b64 p c = Ok pc"
  shows "length (port_bytes (pc_port_key pc)) = 9"
    "\<exists>key. for_channel_end pc = (Ok key :: ('e, trie_key) outcome) \<and>
       key_deref key = loc_bytes (LocChannelEnd (pc_port_key pc) (channel_counter (pc_channel_idx pc)))"
    "\<exists>key. for_next_sequence pc = (Ok key :: ('e, trie_key) outcome) \<and>
       key_deref key = loc_bytes (LocNextSequence (pc_port_key pc) (channel_counter (pc_channel_idx pc)))"
    "\<exists>key. trie_key_new tag (append_pair (append_port_channel pc) (append_u64 seq)) = (Ok key :: ('e, trie_key) outcome) \<and>
       key_deref key = tag_byte tag # port_bytes (pc_port_key pc) @ be32 (channel_counter (pc_channel_idx pc)) @ be64 seq"
proof -
  have "port_key_try_from b64 (as_bytes p) = Ok (pc_port_key pc)"
    using assms(2) by (auto simp: port_channel_try_from_def split: outcome.splits)
  then show l: "length (port_bytes (pc_port_key pc)) = 9" by (rule base64_engine.port_key_length[OF assms(1)])
  let ?k = "pc_port_key pc" and ?i = "pc_channel_idx pc"
  show "\<exists>key. for_channel_end pc = (Ok key :: ('e, trie_key) outcome) \<and> key_deref key = loc_bytes (LocChannelEnd ?k (channel_counter ?i))"
    "\<exists>key. for_next_sequence pc = (Ok key :: ('e, trie_key) outcome) \<and> key_deref key = loc_bytes (LocNextSequence ?k (channel_counter ?i))"
    using key_writes(4)[where ?'a = 'e, of ?k ?i TagChannelEnd] key_writes(4)[where ?'a = 'e, of ?k ?i TagNextSequence] l
    by (auto simp: for_channel_end_def for_next_sequence_def for_channel_path_def append_port_channel_def)
  show "\<exists>key. trie_key_new tag (append_pair (append_port_channel pc) (append_u64 seq)) = (Ok key :: ('e, trie_key) outcome) \<and>
       key_deref key = tag_byte tag # port_bytes ?k @ be32 (channel_counter ?i) @ be64 seq"
    using key_writes(5)[where ?'a = 'e, of ?k ?i seq tag] l by (auto simp: append_port_channel_def)
qed

section \<open>What the trie has to hold\<close>

fun want :: "('s, 'cs, 'co, 'ce, 'ch) ibc_env \<Rightarrow> private_storage \<Rightarrow> location \<Rightarrow> hash option" where
  "want E ps (LocClientState i) =
     (if unat i < length (ps_clients ps) then
        (let store = ps_clients ps ! unat i in
         map_option (\<lambda>cs. digest_with_client_id (ie_digest E) (cl_client_id store) (ie_client_any E cs))
           (ie_client_dec E (cl_client_state store)))
      else None)"
| "want E ps (LocConsensusState i number hgt) =
     (if unat i < length (ps_clients ps) then
        (let store = ps_clients ps ! unat i in
         Option.bind (map_of (cl_consensus_states store) (number, hgt)) (\<lambda>bytes.
           map_option (\<lambda>c. digest_with_client_id (ie_digest E) (cl_client_id store) (ie_consensus_any E c))
             (ie_consensus_dec E (drop 16 bytes))))
      else None)"
| "want E ps (LocConnection i) =
     (if unat i < length (ps_connections ps) then
        map_option (\<lambda>ce. ie_digest E (ie_conn_proto E ce)) (ie_conn_dec E (ps_connections ps ! unat i))
      else None)"
| "want E ps (LocChannelEnd p i) =
     Option.bind (map_of (ps_port_channel ps) \<lparr>pc_port_key = p, pc_channel_idx = ChannelIdx i\<rparr>) (\<lambda>store.
       if po_channel_end store = [] then None
       else map_option (\<lambda>ch. ie_digest E (ie_chan_proto E ch)) (ie_chan_dec E (po_channel_end store)))"
| "want E ps (LocNextSequence p i) =
     Option.bind (map_of (ps_port_channel ps) \<lparr>pc_port_key = p, pc_channel_idx = ChannelIdx i\<rparr>) (\<lambda>store.
       if po_next_sequence store = triple_default then None else Some (triple_to_hash (po_next_sequence store)))"
| "want E ps _ = None"

definition mirror :: "('s, 'cs, 'co, 'ce, 'ch) ibc_env \<Rightarrow> ('s, 'pk, 'sig) ibc_storage \<Rightarrow> bool" where
  "mirror E st \<longleftrightarrow> (\<forall>l v. loc_inv l \<longrightarrow> want E (st_private st) l = Some v \<longrightarrow> at_loc E st l = Some v)"

text \<open>A change of the trie at one location, with the change of what it has to hold.\<close>

lemma mirror_upd:
  assumes "mirror E st" "\<And>l. loc_inv l \<Longrightarrow> at_loc E st' l = (if l = L then v else at_loc E st l)"
    and "\<And>l. l \<noteq> L \<Longrightarrow> want E (st_private st') l = want E (st_private st) l \<or> want E (st_private st') l = None"
    and "want E (st_private st') L = v \<or> want E (st_private st') L = None"
  shows "mirror E st'"
  unfolding mirror_def
proof (intro allI impI)
  fix l w assume l: "loc_inv l" "want E (st_private st') l = Some w"
  show "at_loc E st' l = Some w"
  proof (cases "l = L")
    case False
    then have "want E (st_private st) l = Some w" using assms(3)[OF False] l(2) by simp
    then show ?thesis using assms(1,2) l(1) False by (simp add: mirror_def)
  qed (use assms(2,4) l in auto)
qed

section \<open>Operations\<close>

datatype ('cs, 'co, 'ce, 'ch) ibc_op =
  StoreClientState client_id 'cs
| StoreConsensusState client_id "64 word" "64 word" 'co
| DeleteConsensusState client_id "64 word" "64 word"
| StoreConnection string 'ce
| StoreChannel string string 'ch
| StoreNextSequence seq_kind string string "64 word"
| StoreCommitment string string "64 word" "byte list"
| DeleteCommitment string string "64 word"
| StoreAck string string "64 word" "byte list"
| DeleteAck string string "64 word"
| IncreaseChannelCounter

fun run_ibc_op ::
  "('s, 'cs, 'co, 'ce, 'ch) ibc_env \<Rightarrow> ('cs, 'co, 'ce, 'ch) ibc_op \<Rightarrow>
   (('s, 'pk, 'sig) ibc_storage, context_error, unit) stateful" where
  "run_ibc_op E (StoreClientState cid cs) = store_client_state E cid cs"
| "run_ibc_op E (StoreConsensusState cid n h c) = store_consensus_state E cid n h c"
| "run_ibc_op E (DeleteConsensusState cid n h) = delete_consensus_state E cid n h"
| "run_ibc_op E (StoreConnection i ce) = store_connection E i ce"
| "run_ibc_op E (StoreChannel p c ch) = store_channel E p c ch"
| "run_ibc_op E (StoreNextSequence k p c s) = store_next_sequence E k p c s"
| "run_ibc_op E (StoreCommitment p c s v) = store_packet_commitment E p c s v"
| "run_ibc_op E (DeleteCommitment p c s) = delete_packet_commitment E p c s"
| "run_ibc_op E (StoreAck p c s v) = store_packet_acknowledgement E p c s v"
| "run_ibc_op E (DeleteAck p c s) = delete_packet_acknowledgement E p c s"
| "run_ibc_op E IncreaseChannelCounter = increase_channel_counter"

text \<open>Sequence numbers start at one, and a commitment is a hash.\<close>

fun ibc_op_ok :: "('cs, 'co, 'ce, 'ch) ibc_op \<Rightarrow> bool" where
  "ibc_op_ok (StoreNextSequence k p c s) \<longleftrightarrow> s \<noteq> 0"
| "ibc_op_ok (StoreCommitment p c s v) \<longleftrightarrow> hash_inv v"
| "ibc_op_ok (StoreAck p c s v) \<longleftrightarrow> hash_inv v"
| "ibc_op_ok _ \<longleftrightarrow> True"

definition env_for :: "(byte list \<Rightarrow> hash) \<Rightarrow> ('s, raw_node) alloc_ops \<Rightarrow> ('s, 'cs, 'co, 'ce, 'ch) ibc_env \<Rightarrow> bool" where
  "env_for d ops E \<longleftrightarrow> ie_digest E = d \<and> ie_ops E = ops \<and> base64_engine (ie_b64 E) \<and> env_ok E"

text \<open>The maps of channels and clients keep one entry for each key.\<close>

definition triples_ok :: "private_storage \<Rightarrow> bool" where
  "triples_ok ps \<longleftrightarrow> (\<forall>store \<in> ran (map_of (ps_port_channel ps)). length (po_next_sequence store) = 3)"

context provable_trie
begin

lemma set_at:
  assumes "env_for d ops E" "tinv (st_provable st)" "hash_inv v" "key_deref key = loc_bytes L" "loc_inv L"
    and "provable_set E err key v st = (st', Ok ())"
  shows "tinv (st_provable st')" "st_private st' = st_private st"
    "loc_inv l \<Longrightarrow> at_loc E st' l = (if l = L then Some v else at_loc E st l)"
proof -
  obtain t where t: "trie_set d ops (loc_bytes L) v (st_provable st) = (t, Ok ())" "st' = st\<lparr>st_provable := t\<rparr>"
    using assms(1,4,6) by (auto simp: provable_set_def env_for_def Let_def map_error_def split: prod.splits outcome.splits)
  note S = set_law[OF assms(2,3) t(1)]
  show "tinv (st_provable st')" "st_private st' = st_private st" using S t(2) by simp_all
  show "at_loc E st' l = (if l = L then Some v else at_loc E st l)" if "loc_inv l"
  proof (cases "l = L")
    case False
    then have "loc_bytes l \<noteq> loc_bytes L" using loc_bytes_inject[OF that assms(5)] by blast
    then show ?thesis using S t(2) assms(1) False by (simp add: at_loc_def env_for_def)
  qed (use S t(2) assms(1) in \<open>simp add: at_loc_def env_for_def\<close>)
qed

lemma del_at:
  assumes "env_for d ops E" "tinv (st_provable st)" "key_deref key = loc_bytes L" "loc_inv L"
    and "provable_del E err key st = (st', Ok ())"
  shows "tinv (st_provable st')" "st_private st' = st_private st"
    "loc_inv l \<Longrightarrow> at_loc E st' l = (if l = L then None else at_loc E st l)"
proof -
  obtain t found where t: "trie_del d ops (loc_bytes L) (st_provable st) = (t, Ok found)" "st' = st\<lparr>st_provable := t\<rparr>"
    using assms(1,3,5) by (auto simp: provable_del_def env_for_def Let_def map_error_def bind_outcome_Ok split: prod.splits outcome.splits)
  note S = del_law[OF assms(2) t(1)]
  show "tinv (st_provable st')" "st_private st' = st_private st" using S t(2) by simp_all
  show "at_loc E st' l = (if l = L then None else at_loc E st l)" if "loc_inv l"
  proof (cases "l = L")
    case False
    then have "loc_bytes l \<noteq> loc_bytes L" using loc_bytes_inject[OF that assms(4)] by blast
    then show ?thesis using S t(2) assms(1) False by (simp add: at_loc_def env_for_def)
  qed (use S t(2) assms(1) in \<open>simp add: at_loc_def env_for_def\<close>)
qed

end

section \<open>Clients\<close>

fun loc_client :: "location \<Rightarrow> counter option" where
  "loc_client (LocClientState i) = Some i"
| "loc_client (LocConsensusState i n h) = Some i"
| "loc_client _ = None"

lemma want_set_client:
  assumes "private_client_mut cid create ps = (ps1, Ok index)"
  shows "loc_client l \<noteq> Some (client_counter index) \<Longrightarrow>
      want E (set_client_store index store ps1) l = want E ps l"
    "unat (client_counter index) < length (ps_clients (set_client_store index store ps1))"
    "ps_clients (set_client_store index store ps1) ! unat (client_counter index) = store"
proof -
  let ?i = "unat (client_counter index)"
  from assms have i: "ps1 = ps \<and> ?i < length (ps_clients ps) \<or>
      ps1 = ps\<lparr>ps_clients := ps_clients ps @ [client_store_new cid]\<rparr> \<and> ?i = length (ps_clients ps)"
    by (auto simp: private_client_mut_def ok_option_def Let_def split: outcome.splits if_splits option.splits)
  then show "?i < length (ps_clients (set_client_store index store ps1))"
    "ps_clients (set_client_store index store ps1) ! ?i = store" by (auto simp: set_client_store_def)
  have same: "unat j < length ((ps_clients ps1)[?i := store]) \<longleftrightarrow> unat j < length (ps_clients ps)"
    "unat j < length (ps_clients ps) \<Longrightarrow> (ps_clients ps1)[?i := store] ! unat j = ps_clients ps ! unat j"
    if "j \<noteq> client_counter index" for j
    using i that word_unat_eq_iff[of j "client_counter index"] by (auto simp: nth_append)
  show "want E (set_client_store index store ps1) l = want E ps l"
    if "loc_client l \<noteq> Some (client_counter index)"
    using that i same by (cases l) (auto simp: set_client_store_def)
qed

lemma st_lift_Ok: "st_lift r st = (st', Ok a) \<longleftrightarrow> r = Ok a \<and> st' = st"
  by (auto simp: st_lift_def)

lemma map_error_Ok: "map_error f r = Ok a \<longleftrightarrow> r = Ok a"
  by (cases r) simp_all

lemma lift_client_Ok: "lift_client f st = (st', Ok a) \<longleftrightarrow> f st = (st', Ok a)"
  by (auto simp: lift_client_def Let_def map_error_Ok split: prod.splits)

lemma on_private_Ok: "on_private f st = (st', Ok a) \<longleftrightarrow> (\<exists>ps. f (st_private st) = (ps, Ok a) \<and> st' = st\<lparr>st_private := ps\<rparr>)"
  by (auto simp: on_private_def Let_def split: prod.splits)

lemma serialised_new_Ok: "serialised_new enc x = Ok bs \<longleftrightarrow> enc x = Some bs"
  by (auto simp: serialised_new_def ok_or_def split: option.splits)

lemmas storage_Ok = st_bind_Ok st_lift_Ok map_error_Ok lift_client_Ok on_private_Ok serialised_new_Ok

lemma store_client_state_Ok:
  assumes "store_client_state_impl E cid cs st = (st', Ok ())"
  obtains ps index bytes key where "private_client_mut cid True (st_private st) = (ps, Ok index)" "ie_client_enc E cs = Some bytes"
    "for_client_state index = (Ok key :: (client_error, trie_key) outcome)"
    "provable_set E client_err key (digest_with_client_id (ie_digest E) cid (ie_client_any E cs))
       (st\<lparr>st_private := set_client_store index ((ps_clients ps ! unat (client_counter index))\<lparr>cl_client_state := bytes\<rparr>) ps\<rparr>) = (st', Ok ())"
  using assms by (auto simp: store_client_state_impl_def storage_Ok)

lemma store_consensus_state_Ok:
  assumes "store_consensus_state_impl E cid h c st = (st', Ok ())"
  obtains ps index bytes key t hh store where "private_client_mut cid False (st_private st) = (ps, Ok index)"
    "ie_consensus_enc E c = Some bytes"
    "insert_consensus_state h (to_le 8 t @ to_le 8 hh @ bytes) (ps_clients ps ! unat (client_counter index)) = Some store"
    "for_consensus_state index h = (Ok key :: (client_error, trie_key) outcome)"
    "provable_set E client_err key (digest_with_client_id (ie_digest E) cid (ie_consensus_any E c))
       (st\<lparr>st_private := set_client_store index store ps\<rparr>) = (st', Ok ())"
  using assms by (auto simp: store_consensus_state_impl_def storage_Ok ccs_new_def split: option.splits)

lemma delete_consensus_state_Ok:
  assumes "delete_consensus_state_impl E cid h st = (st', Ok ())"
  obtains ps index key store where "private_client_mut cid False (st_private st) = (ps, Ok index)"
    "store = ps_clients ps ! unat (client_counter index)" "for_consensus_state index h = (Ok key :: (client_error, trie_key) outcome)"
    "provable_del E client_err key (st\<lparr>st_private :=
       set_client_store index (store\<lparr>cl_consensus_states := swap_remove h (cl_consensus_states store)\<rparr>) ps\<rparr>) = (st', Ok ())"
  using assms by (auto simp: delete_consensus_state_impl_def storage_Ok Let_def)

lemma want_client:
  assumes "unat (client_counter index) < length (ps_clients ps)" "ps_clients ps ! unat (client_counter index) = store"
  shows "want E ps (LocClientState (client_counter index)) =
      map_option (\<lambda>cs. digest_with_client_id (ie_digest E) (cl_client_id store) (ie_client_any E cs)) (ie_client_dec E (cl_client_state store))"
    "want E ps (LocConsensusState (client_counter index) n h) =
      Option.bind (map_of (cl_consensus_states store) (n, h)) (\<lambda>bytes.
        map_option (\<lambda>c. digest_with_client_id (ie_digest E) (cl_client_id store) (ie_consensus_any E c)) (ie_consensus_dec E (drop 16 bytes)))"
  using assms by simp_all

declare want.simps [simp del]

text \<open>
  Changing the store of a client, when only the client state or the consensus state at one height becomes
  another one.
\<close>

lemma want_store_change:
  assumes m: "private_client_mut cid create ps = (ps1, Ok index)" and s: "cl_client_id store = cid"
    and old: "store0 = ps_clients ps1 ! unat (client_counter index)"
    and L: "L = LocClientState (client_counter index) \<or> L = LocConsensusState (client_counter index) n h"
    and cs: "L \<noteq> LocClientState (client_counter index) \<Longrightarrow> \<not> create \<and> cl_client_state store = cl_client_state store0"
    and co: "\<And>k. L \<noteq> LocConsensusState (client_counter index) (fst k) (snd k) \<Longrightarrow>
      map_of (cl_consensus_states store) k = None \<or> map_of (cl_consensus_states store) k = map_of (cl_consensus_states store0) k"
    and l: "l \<noteq> L"
  shows "want E (set_client_store index store ps1) l = want E ps l \<or> want E (set_client_store index store ps1) l = None"
proof (cases "loc_client l = Some (client_counter index)")
  case True
  note new = want_client[OF want_set_client(2,3)[OF m, of store], of E]
  obtain st where f: "private_client ps1 cid = Ok (index, st)" "ps1 = ps \<or> create \<and> store0 = client_store_new cid"
    using private_client_mutD[OF m] old by (fastforce simp: private_client_Ok)
  then have i: "unat (client_counter index) < length (ps_clients ps1)" "cl_client_id store0 = cid"
    using old by (auto simp: private_client_Ok)
  note cur = want_client[OF i(1) old[symmetric], of E]
  consider "l = LocClientState (client_counter index)" | a b where "l = LocConsensusState (client_counter index) a b"
    using True by (cases l) auto
  then show ?thesis
  proof cases
    case 1
    then have "\<not> create" "cl_client_state store = cl_client_state store0" using cs l by auto
    then show ?thesis using new(1) cur(1) 1 f(2) s i(2) by simp
  next
    case (2 a b)
    then have "map_of (cl_consensus_states store) (a, b) = None \<or>
        map_of (cl_consensus_states store) (a, b) = map_of (cl_consensus_states store0) (a, b)" using co[of "(a, b)"] l by auto
    then show ?thesis using new(2)[of a b] cur(2)[of a b] 2 f(2) s i(2) by (auto simp: client_store_new_def)
  qed
next
  case False
  then show ?thesis using want_set_client(1)[OF m] by blast
qed

definition storage_inv ::
  "('s trie \<Rightarrow> bool) \<Rightarrow> ('s, 'cs, 'co, 'ce, 'ch) ibc_env \<Rightarrow> ('s, 'pk, 'sig) ibc_storage \<Rightarrow> bool" where
  "storage_inv tinv E st \<longleftrightarrow>
     tinv (st_provable st) \<and> private_inv E (st_private st) \<and> triples_ok (st_private st) \<and> mirror E st"

lemma storage_invD:
  assumes "storage_inv tinv E st"
  shows "tinv (st_provable st)" "private_inv E (st_private st)" "triples_ok (st_private st)" "mirror E st"
  using assms by (simp_all add: storage_inv_def)

lemma simple_loc: "loc_inv (LocClientState i)" "loc_inv (LocConsensusState i n h)" "loc_inv (LocConnection i)"
  by (simp_all add: loc_inv_def)

lemma set_client_channels: "ps_port_channel (set_client_store index store ps) = ps_port_channel ps"
  by (simp add: set_client_store_def)

lemma client_mut_channels:
  "private_client_mut cid create ps = (ps', r) \<Longrightarrow> ps_port_channel ps' = ps_port_channel ps"
  by (auto simp: private_client_mut_def Let_def split: option.splits if_splits)

context provable_trie
begin

lemma set_mirror:
  assumes E: "env_for d ops E" and i: "storage_inv tinv E st" and v: "hash_inv v" and L: "key_deref key = loc_bytes L" "loc_inv L"
    and r: "provable_set E err key v (st\<lparr>st_private := ps\<rparr>) = (st', Ok ())"
    and ps: "private_inv E ps" "triples_ok ps"
    and w: "\<And>l. l \<noteq> L \<Longrightarrow> want E ps l = want E (st_private st) l \<or> want E ps l = None" "want E ps L = Some v \<or> want E ps L = None"
  shows "storage_inv tinv E st'"
proof -
  have "tinv (st_provable (st\<lparr>st_private := ps\<rparr>))" using storage_invD(1)[OF i] by simp
  note S = set_at[OF E this v L r]
  have at: "at_loc E st' l = (if l = L then Some v else at_loc E st l)" if "loc_inv l" for l
    using S(3)[OF that] by (simp add: at_loc_def)
  have "mirror E st'" by (rule mirror_upd[OF storage_invD(4)[OF i] at]) (use w S(2) in auto)
  then show ?thesis using S ps by (simp add: storage_inv_def)
qed

lemma del_mirror:
  assumes E: "env_for d ops E" and i: "storage_inv tinv E st" and L: "key_deref key = loc_bytes L" "loc_inv L"
    and r: "provable_del E err key (st\<lparr>st_private := ps\<rparr>) = (st', Ok ())"
    and ps: "private_inv E ps" "triples_ok ps"
    and w: "\<And>l. l \<noteq> L \<Longrightarrow> want E ps l = want E (st_private st) l \<or> want E ps l = None" "want E ps L = None"
  shows "storage_inv tinv E st'"
proof -
  have "tinv (st_provable (st\<lparr>st_private := ps\<rparr>))" using storage_invD(1)[OF i] by simp
  note S = del_at[OF E this L r]
  have at: "at_loc E st' l = (if l = L then None else at_loc E st l)" if "loc_inv l" for l
    using S(3)[OF that] by (simp add: at_loc_def)
  have "mirror E st'" by (rule mirror_upd[OF storage_invD(4)[OF i] at]) (use w S(2) in auto)
  then show ?thesis using S ps by (simp add: storage_inv_def)
qed

lemma env_digest: "env_for d ops E \<Longrightarrow> storage_inv tinv E st \<Longrightarrow> hash_inv (ie_digest E bytes)"
  using digest_hash[of "st_provable st"] unfolding env_for_def storage_inv_def by blast

lemma client_digest: "env_for d ops E \<Longrightarrow> storage_inv tinv E st \<Longrightarrow> hash_inv (digest_with_client_id (ie_digest E) cid bytes)"
  using env_digest unfolding digest_with_client_id_def by blast

lemma store_client_mirror:
  assumes E: "env_for d ops E" and i: "storage_inv tinv E st" and r: "store_client_state_impl E cid cs st = (st', Ok ())"
  shows "storage_inv tinv E st'"
proof -
  have ok: "env_ok E" using E by (simp add: env_for_def)
  obtain ps index bytes key where A: "private_client_mut cid True (st_private st) = (ps, Ok index)" "ie_client_enc E cs = Some bytes"
    "for_client_state index = (Ok key :: (client_error, trie_key) outcome)"
    "provable_set E client_err key (digest_with_client_id (ie_digest E) cid (ie_client_any E cs))
       (st\<lparr>st_private := set_client_store index ((ps_clients ps ! unat (client_counter index))\<lparr>cl_client_state := bytes\<rparr>) ps\<rparr>) = (st', Ok ())"
    by (rule store_client_state_Ok[OF r])
  let ?store = "(ps_clients ps ! unat (client_counter index))\<lparr>cl_client_state := bytes\<rparr>" and ?L = "LocClientState (client_counter index)"
  note key = key_loc(1)[OF A(3)]
  obtain store where S: "ps_clients ps ! unat (client_counter index) = store" "cl_client_id store = cid"
    by (rule client_mut[OF storage_invD(2)[OF i] A(1)]) blast
  show ?thesis
  proof (rule set_mirror[OF E i client_digest[OF E i] key simple_loc(1) A(4)])
    have "st_private st' = set_client_store index ?store ps" using provable_set_private[OF A(4)] by simp
    then show "private_inv E (set_client_store index ?store ps)" using law_set_client(1)[OF ok storage_invD(2)[OF i] r] by simp
    show "triples_ok (set_client_store index ?store ps)"
      using storage_invD(3)[OF i] by (simp add: triples_ok_def set_client_channels client_mut_channels[OF A(1)])
    show "want E (set_client_store index ?store ps) l = want E (st_private st) l \<or> want E (set_client_store index ?store ps) l = None"
      if "l \<noteq> ?L" for l by (rule want_store_change[OF A(1) _ refl _ _ _ that, of _ 0 0]) (use S in auto)
    have "ie_client_dec E bytes = Some cs" using ok A(2) by (simp add: env_ok_def)
    then show "want E (set_client_store index ?store ps) ?L = Some (digest_with_client_id (ie_digest E) cid (ie_client_any E cs)) \<or>
        want E (set_client_store index ?store ps) ?L = None"
      using want_client(1)[OF want_set_client(2,3)[OF A(1), of ?store], of E] S by simp
  qed
qed

end

context provable_trie
begin

lemma store_consensus_mirror:
  assumes E: "env_for d ops E" and i: "storage_inv tinv E st" and r: "store_consensus_state_impl E cid h c st = (st', Ok ())"
  shows "storage_inv tinv E st'"
proof -
  have ok: "env_ok E" using E by (simp add: env_for_def)
  obtain ps index bytes key t hh store where A: "private_client_mut cid False (st_private st) = (ps, Ok index)"
    "ie_consensus_enc E c = Some bytes"
    "insert_consensus_state h (to_le 8 t @ to_le 8 hh @ bytes) (ps_clients ps ! unat (client_counter index)) = Some store"
    "for_consensus_state index h = (Ok key :: (client_error, trie_key) outcome)"
    "provable_set E client_err key (digest_with_client_id (ie_digest E) cid (ie_consensus_any E c))
       (st\<lparr>st_private := set_client_store index store ps\<rparr>) = (st', Ok ())"
    by (rule store_consensus_state_Ok[OF r])
  let ?L = "LocConsensusState (client_counter index) (fst h) (snd h)" and ?b = "to_le 8 t @ to_le 8 hh @ bytes"
  obtain store0 where S: "ps_clients ps ! unat (client_counter index) = store0" "cl_client_id store0 = cid"
    "states_inv (cl_consensus_states store0)" by (rule client_mut[OF storage_invD(2)[OF i] A(1)]) blast
  let ?m = "map_of (cl_consensus_states store0)"
  obtain states' where s': "insert_consensus_state_impl h ?b (cl_consensus_states store0) = Some states'"
    "map_of states' = ?m(h \<mapsto> ?b) \<or> (\<exists>low. map_of states' = (?m(low := None))(h \<mapsto> ?b))"
    using insert_consensus_state_spec[OF S(3), of h ?b] by metis
  have store: "store = store0\<lparr>cl_consensus_states := states'\<rparr>" using A(3) S(1) s'(1) by (simp add: insert_consensus_state_def)
  have new: "map_of (cl_consensus_states store) h = Some ?b"
    using s'(2) by (auto simp: store)
  have other: "map_of (cl_consensus_states store) k = None \<or>
      map_of (cl_consensus_states store) k = map_of (cl_consensus_states (ps_clients ps ! unat (client_counter index))) k"
    if "?L \<noteq> LocConsensusState (client_counter index) (fst k) (snd k)" for k
  proof -
    have "k \<noteq> h" using that by auto
    then show ?thesis using s'(2) by (auto simp: store S(1))
  qed
  show ?thesis
  proof (rule set_mirror[OF E i client_digest[OF E i] key_loc(2)[OF A(4)] simple_loc(2) A(5)])
    have "st_private st' = set_client_store index store ps" using provable_set_private[OF A(5)] by simp
    then show "private_inv E (set_client_store index store ps)" using law_store_consensus(1)[OF ok storage_invD(2)[OF i] r] by simp
    show "triples_ok (set_client_store index store ps)"
      using storage_invD(3)[OF i] by (simp add: triples_ok_def set_client_channels client_mut_channels[OF A(1)])
    show "want E (set_client_store index store ps) l = want E (st_private st) l \<or> want E (set_client_store index store ps) l = None"
      if "l \<noteq> ?L" for l
      by (rule want_store_change[OF A(1) _ refl disjI2[OF refl] _ other that]) (use S in \<open>auto simp: store\<close>)
    show "want E (set_client_store index store ps) ?L = Some (digest_with_client_id (ie_digest E) cid (ie_consensus_any E c)) \<or>
        want E (set_client_store index store ps) ?L = None"
      using want_client(2)[OF want_set_client(2,3)[OF A(1), of store], of E] new(1) consensus_bytes[OF ok A(2)] S by (simp add: store)
  qed
qed

lemma delete_consensus_mirror:
  assumes E: "env_for d ops E" and i: "storage_inv tinv E st" and r: "delete_consensus_state_impl E cid h st = (st', Ok ())"
  shows "storage_inv tinv E st'"
proof -
  obtain ps index key store0 where A: "private_client_mut cid False (st_private st) = (ps, Ok index)"
    "store0 = ps_clients ps ! unat (client_counter index)" "for_consensus_state index h = (Ok key :: (client_error, trie_key) outcome)"
    "provable_del E client_err key (st\<lparr>st_private :=
       set_client_store index (store0\<lparr>cl_consensus_states := swap_remove h (cl_consensus_states store0)\<rparr>) ps\<rparr>) = (st', Ok ())"
    by (rule delete_consensus_state_Ok[OF r])
  let ?L = "LocConsensusState (client_counter index) (fst h) (snd h)"
  let ?store = "store0\<lparr>cl_consensus_states := swap_remove h (cl_consensus_states store0)\<rparr>"
  obtain "cl_client_id store0 = cid" "distinct (map fst (cl_consensus_states store0))"
    using A(2) by (auto simp: states_inv_def intro: client_mut[OF storage_invD(2)[OF i] A(1)])
  note S = this(1) and sw = swap_remove_spec(1)[OF this(2), of h]
  have other: "map_of (cl_consensus_states ?store) k = None \<or> map_of (cl_consensus_states ?store) k = map_of (cl_consensus_states store0) k" for k
    by (simp add: sw)
  show ?thesis
  proof (rule del_mirror[OF E i key_loc(2)[OF A(3)] simple_loc(2) A(4)])
    have "st_private st' = set_client_store index ?store ps" using provable_del_private[OF A(4)] by simp
    then show "private_inv E (set_client_store index ?store ps)" using law_delete_consensus(1)[OF storage_invD(2)[OF i] r] by simp
    show "triples_ok (set_client_store index ?store ps)"
      using storage_invD(3)[OF i] by (simp add: triples_ok_def set_client_channels client_mut_channels[OF A(1)])
    show "want E (set_client_store index ?store ps) l = want E (st_private st) l \<or> want E (set_client_store index ?store ps) l = None"
      if "l \<noteq> ?L" for l
      by (rule want_store_change[OF A(1) _ A(2) disjI2[OF refl] _ other that]) (use S in auto)
    show "want E (set_client_store index ?store ps) ?L = None"
      using want_client(2)[OF want_set_client(2,3)[OF A(1), of ?store], of E] sw by simp
  qed
qed

end

section \<open>Connections, channels and packets\<close>

lemma store_connection_Ok:
  assumes "store_connection E i ce st = (st', Ok ())"
  obtains conn bytes ps key where "ie_conn_enc E ce = Some bytes" "for_connection conn = (Ok key :: (context_error, trie_key) outcome)"
    "ps_connections ps = (ps_connections (st_private st))[unat (connection_counter conn) := bytes] \<and>
       unat (connection_counter conn) < length (ps_connections (st_private st)) \<or>
     ps_connections ps = ps_connections (st_private st) @ [bytes] \<and> unat (connection_counter conn) = length (ps_connections (st_private st))"
    "ps = (st_private st)\<lparr>ps_connections := ps_connections ps\<rparr>"
    "provable_set E ctx_err key (ie_digest E (ie_conn_proto E ce)) (st\<lparr>st_private := ps\<rparr>) = (st', Ok ())"
proof -
  from assms obtain conn bytes ps key where A: "ie_conn_enc E ce = Some bytes" "for_connection conn = (Ok key :: (context_error, trie_key) outcome)"
    "(let index = unat (connection_counter conn); connections = ps_connections (st_private st) in
         if index < length connections then ((st_private st)\<lparr>ps_connections := connections[index := bytes]\<rparr>, Ok ())
         else if index = length connections then ((st_private st)\<lparr>ps_connections := connections @ [bytes]\<rparr>, Ok ())
         else (st_private st, Err (CtxId (ConnectionNotFound i)))) = (ps, Ok ())"
    "provable_set E ctx_err key (ie_digest E (ie_conn_proto E ce)) (st\<lparr>st_private := ps\<rparr>) = (st', Ok ())"
    by (auto simp: store_connection_def storage_Ok)
  show thesis by (rule that[OF A(1,2) _ _ A(4)]) (use A(3) in \<open>auto simp: Let_def split: if_splits\<close>)
qed

lemma want_connection:
  assumes "ps' = ps\<lparr>ps_connections := cs\<rparr>" "\<And>l. l \<noteq> j \<Longrightarrow> (unat l < length cs \<longleftrightarrow> unat l < length (ps_connections ps)) \<and>
      (unat l < length cs \<longrightarrow> cs ! unat l = ps_connections ps ! unat l)" "l \<noteq> LocConnection j"
  shows "want E ps' l = want E ps l"
  using assms by (cases l) (auto simp: want.simps)

context provable_trie
begin

lemma store_connection_mirror:
  assumes E: "env_for d ops E" and i: "storage_inv tinv E st" and r: "store_connection E cid ce st = (st', Ok ())"
  shows "storage_inv tinv E st'"
proof -
  obtain conn bytes ps key where A: "ie_conn_enc E ce = Some bytes" "for_connection conn = (Ok key :: (context_error, trie_key) outcome)"
    "ps_connections ps = (ps_connections (st_private st))[unat (connection_counter conn) := bytes] \<and>
       unat (connection_counter conn) < length (ps_connections (st_private st)) \<or>
     ps_connections ps = ps_connections (st_private st) @ [bytes] \<and> unat (connection_counter conn) = length (ps_connections (st_private st))"
    "ps = (st_private st)\<lparr>ps_connections := ps_connections ps\<rparr>"
    "provable_set E ctx_err key (ie_digest E (ie_conn_proto E ce)) (st\<lparr>st_private := ps\<rparr>) = (st', Ok ())"
    by (rule store_connection_Ok[OF r])
  let ?j = "connection_counter conn"
  have same: "ps_clients ps = ps_clients (st_private st)" "ps_port_channel ps = ps_port_channel (st_private st)"
    by (subst A(4), simp)+
  have keep: "(unat l < length (ps_connections ps) \<longleftrightarrow> unat l < length (ps_connections (st_private st))) \<and>
      (unat l < length (ps_connections ps) \<longrightarrow> ps_connections ps ! unat l = ps_connections (st_private st) ! unat l)" if "l \<noteq> ?j" for l
  proof -
    have ne: "unat l \<noteq> unat ?j" using that by (simp add: word_unat_eq_iff)
    from A(3) show ?thesis
    proof (elim disjE conjE)
      assume "ps_connections ps = (ps_connections (st_private st))[unat ?j := bytes]"
      then show ?thesis using ne by (metis length_list_update nth_list_update_neq)
    next
      assume "ps_connections ps = ps_connections (st_private st) @ [bytes]" "unat ?j = length (ps_connections (st_private st))"
      then show ?thesis using ne by (simp only:) (simp add: nth_append less_Suc_eq)
    qed
  qed
  show ?thesis
  proof (rule set_mirror[OF E i env_digest[OF E i] key_loc(3)[OF A(2)] simple_loc(3) A(5)])
    show "private_inv E ps" "triples_ok ps" using storage_invD(2,3)[OF i] by (simp_all add: private_inv_def triples_ok_def same)
    show "want E ps l = want E (st_private st) l \<or> want E ps l = None" if "l \<noteq> LocConnection ?j" for l
      using want_connection[OF A(4) keep that] by blast
    have "ie_conn_dec E bytes = Some ce" using E A(1) by (simp add: env_for_def env_ok_def)
    then show "want E ps (LocConnection ?j) = Some (ie_digest E (ie_conn_proto E ce)) \<or> want E ps (LocConnection ?j) = None"
      using A(3) by (auto simp: want.simps)
  qed
qed

lemma commitment_mirror:
  assumes E: "env_for d ops E" and i: "storage_inv tinv E st" and L: "key_deref key = loc_bytes L" "loc_inv L" "\<And>ps. want E ps L = None"
  shows "hash_inv v \<Longrightarrow> provable_set E err key v st = (st', Ok ()) \<Longrightarrow> storage_inv tinv E st'"
    "provable_del E err key st = (st', Ok ()) \<Longrightarrow> storage_inv tinv E st'"
proof -
  show "storage_inv tinv E st'" if v: "hash_inv v" and r: "provable_set E err key v st = (st', Ok ())"
  proof -
    have "provable_set E err key v (st\<lparr>st_private := st_private st\<rparr>) = (st', Ok ())" using r by simp
    from set_mirror[OF E i v L(1,2) this] show ?thesis using storage_invD[OF i] L(3) by simp
  qed
  show "storage_inv tinv E st'" if r: "provable_del E err key st = (st', Ok ())"
  proof -
    have "provable_del E err key (st\<lparr>st_private := st_private st\<rparr>) = (st', Ok ())" using r by simp
    from del_mirror[OF E i L(1,2) this] show ?thesis using storage_invD[OF i] L(3) by simp
  qed
qed

end

lemma update_entry_map:
  "map_of (ps_port_channel (update_entry pc f ps)) = (map_of (ps_port_channel ps))
     (pc \<mapsto> f (case map_of (ps_port_channel ps) pc of None \<Rightarrow> port_channel_default | Some store \<Rightarrow> store))"
  by (simp add: update_entry_def update_conv')

lemma pc_eta: "\<lparr>pc_port_key = pc_port_key pc, pc_channel_idx = pc_channel_idx pc\<rparr> = pc"
  by simp

lemma want_entry:
  assumes "l \<noteq> LocChannelEnd (pc_port_key pc) (channel_counter (pc_channel_idx pc)) \<or> (\<forall>s. po_channel_end (f s) = po_channel_end s)"
    and "l \<noteq> LocNextSequence (pc_port_key pc) (channel_counter (pc_channel_idx pc)) \<or> (\<forall>s. po_next_sequence (f s) = po_next_sequence s)"
  shows "want E (update_entry pc f ps) l = want E ps l"
proof -
  have pc: "\<lparr>pc_port_key = p, pc_channel_idx = ChannelIdx i\<rparr> = pc \<longleftrightarrow> p = pc_port_key pc \<and> i = channel_counter (pc_channel_idx pc)" for p i
    by (cases pc; cases "pc_channel_idx pc") auto
  have other: "ps_clients (update_entry pc f ps) = ps_clients ps" "ps_connections (update_entry pc f ps) = ps_connections ps"
    by (simp_all add: update_entry_def)
  show ?thesis
    using assms by (cases l)
      (auto simp: want.simps other update_entry_map pc pc_eta port_channel_default_def split: option.splits)
qed

lemma triples_entry:
  assumes "triples_ok ps" "\<And>s. length (po_next_sequence s) = 3 \<Longrightarrow> length (po_next_sequence (f s)) = 3"
  shows "triples_ok (update_entry pc f ps)"
  unfolding triples_ok_def
proof
  fix s assume "s \<in> ran (map_of (ps_port_channel (update_entry pc f ps)))"
  then obtain k where k: "map_of (ps_port_channel (update_entry pc f ps)) k = Some s" by (auto simp: ran_def)
  have old: "length (po_next_sequence x) = 3" if "map_of (ps_port_channel ps) j = Some x" for j x
    using assms(1) that by (auto simp: triples_ok_def ran_def)
  have "length (po_next_sequence (case map_of (ps_port_channel ps) pc of None \<Rightarrow> port_channel_default | Some store \<Rightarrow> store)) = 3"
    using old by (auto simp: port_channel_default_def triple_default_def split: option.splits)
  then show "length (po_next_sequence s) = 3" using k old assms(2) by (cases "k = pc") (auto simp: update_entry_map)
qed

lemma to_le_zero: "to_le n 0 = replicate n 0"
  by (induction n) simp_all

lemma triple_hash:
  assumes "length t = 3" "seq \<noteq> 0"
  shows "hash_inv (triple_to_hash (triple_set kind seq t))" "triple_set kind seq t \<noteq> triple_default" "length (triple_set kind seq t) = 3"
proof -
  obtain a b c where t: "t = [a, b, c]" using assms(1) by (auto simp: length_Suc_conv numeral_3_eq_3)
  have "be64 0 = replicate 8 0" by (simp add: be64_def to_be_def to_le_zero)
  then have z: "be64 seq \<noteq> replicate 8 0" using be64_inject[of seq 0] assms(2) by metis
  have e: "EMPTY_TRIE_ROOT = replicate 8 0 @ replicate 8 0 @ replicate 8 0 @ replicate 8 0"
    by (simp add: EMPTY_TRIE_ROOT_def flip: replicate_add)
  show "hash_inv (triple_to_hash (triple_set kind seq t))"
    using z assms(2) by (cases kind) (simp_all add: hash_inv_def e t triple_set_def triple_to_hash_def Let_def)
  show "triple_set kind seq t \<noteq> triple_default" "length (triple_set kind seq t) = 3"
    using assms(2) by (cases kind; simp add: t triple_set_def triple_default_def)+
qed

lemma port_loc_inv:
  assumes "length (port_bytes p) = 9"
  shows "loc_inv (LocChannelEnd p i)" "loc_inv (LocNextSequence p i)" "loc_inv (LocCommitment p i s)" "loc_inv (LocAck p i s)"
  using assms by (simp_all add: loc_inv_def)

lemma entry_private_inv: "private_inv E (update_entry pc f ps) = private_inv E ps"
  by (simp add: private_inv_def update_entry_def)

context provable_trie
begin

lemma store_channel_mirror:
  assumes E: "env_for d ops E" and i: "storage_inv tinv E st" and r: "store_channel E p c ch st = (st', Ok ())"
  shows "storage_inv tinv E st'"
proof -
  let ?f = "\<lambda>bytes store. store\<lparr>po_channel_end := bytes\<rparr>"
  from r obtain pc key bytes where A: "port_channel_try_from (ie_b64 E) p c = Ok pc"
    "for_channel_end pc = (Ok key :: (context_error, trie_key) outcome)" "ie_chan_enc E ch = Some bytes"
    "provable_set E ctx_err key (ie_digest E (ie_chan_proto E ch)) (st\<lparr>st_private := update_entry pc (?f bytes) (st_private st)\<rparr>) = (st', Ok ())"
    by (auto simp: store_channel_def st_bind_Ok st_lift_Ok map_error_Ok on_private_Ok serialised_new_def ok_or_def split: option.splits)
  have b: "base64_engine (ie_b64 E)" using E by (simp add: env_for_def)
  let ?L = "LocChannelEnd (pc_port_key pc) (channel_counter (pc_channel_idx pc))"
  have key: "key_deref key = loc_bytes ?L" using port_key_loc(2)[where ?'e = context_error, OF b A(1)] A(2) by auto
  show ?thesis
  proof (rule set_mirror[OF E i env_digest[OF E i] key port_loc_inv(1)[OF port_key_loc(1)[OF b A(1)]] A(4)])
    show "private_inv E (update_entry pc (?f bytes) (st_private st))" using storage_invD(2)[OF i] by (simp add: entry_private_inv)
    show "triples_ok (update_entry pc (?f bytes) (st_private st))" by (rule triples_entry[OF storage_invD(3)[OF i]]) simp
    show "want E (update_entry pc (?f bytes) (st_private st)) l = want E (st_private st) l \<or>
        want E (update_entry pc (?f bytes) (st_private st)) l = None" if "l \<noteq> ?L" for l
      using want_entry[of l pc "?f bytes" E "st_private st"] that by simp
    have "bytes \<noteq> []" "ie_chan_dec E bytes = Some ch" using E A(3) by (auto simp: env_for_def env_ok_def)
    then show "want E (update_entry pc (?f bytes) (st_private st)) ?L = Some (ie_digest E (ie_chan_proto E ch)) \<or>
        want E (update_entry pc (?f bytes) (st_private st)) ?L = None" by (simp add: want.simps update_entry_map)
  qed
qed

lemma store_next_sequence_mirror:
  assumes E: "env_for d ops E" and i: "storage_inv tinv E st" and seq: "seq \<noteq> 0"
    and r: "store_next_sequence E kind p c seq st = (st', Ok ())"
  shows "storage_inv tinv E st'"
proof -
  let ?f = "\<lambda>store. store\<lparr>po_next_sequence := triple_set kind seq (po_next_sequence store)\<rparr>"
  from r obtain pc key where A: "port_channel_try_from (ie_b64 E) p c = Ok pc"
    "for_next_sequence pc = (Ok key :: (context_error, trie_key) outcome)"
    "provable_set E ctx_err key (triple_to_hash (po_next_sequence (the (map_of (ps_port_channel (update_entry pc ?f (st_private st))) pc))))
       (st\<lparr>st_private := update_entry pc ?f (st_private st)\<rparr>) = (st', Ok ())"
    by (auto simp: store_next_sequence_def storage_Ok Let_def)
  have b: "base64_engine (ie_b64 E)" using E by (simp add: env_for_def)
  let ?L = "LocNextSequence (pc_port_key pc) (channel_counter (pc_channel_idx pc))"
  have key: "key_deref key = loc_bytes ?L" using port_key_loc(3)[where ?'e = context_error, OF b A(1)] A(2) by auto
  define old where "old = (case map_of (ps_port_channel (st_private st)) pc of None \<Rightarrow> port_channel_default | Some store \<Rightarrow> store)"
  have len: "length (po_next_sequence old) = 3"
    using storage_invD(3)[OF i] by (auto simp: old_def triples_ok_def ran_def port_channel_default_def triple_default_def split: option.splits)
  note T = triple_hash[OF len seq, of kind]
  have m: "map_of (ps_port_channel (update_entry pc ?f (st_private st))) pc = Some (?f old)" by (simp add: update_entry_map old_def)
  show ?thesis
  proof (rule set_mirror[OF E i _ key port_loc_inv(2)[OF port_key_loc(1)[OF b A(1)]] A(3)])
    show "hash_inv (triple_to_hash (po_next_sequence (the (map_of (ps_port_channel (update_entry pc ?f (st_private st))) pc))))"
      using T(1) by (simp add: m)
    show "private_inv E (update_entry pc ?f (st_private st))" using storage_invD(2)[OF i] by (simp add: entry_private_inv)
    show "triples_ok (update_entry pc ?f (st_private st))"
      by (rule triples_entry[OF storage_invD(3)[OF i]]) (simp add: triple_hash(3)[OF _ seq])
    show "want E (update_entry pc ?f (st_private st)) l = want E (st_private st) l \<or>
        want E (update_entry pc ?f (st_private st)) l = None" if "l \<noteq> ?L" for l
      using want_entry[of l pc ?f E "st_private st"] that by simp
    show "want E (update_entry pc ?f (st_private st)) ?L =
        Some (triple_to_hash (po_next_sequence (the (map_of (ps_port_channel (update_entry pc ?f (st_private st))) pc)))) \<or>
        want E (update_entry pc ?f (st_private st)) ?L = None" using T(2) by (simp add: want.simps m pc_eta)
  qed
qed

end

section \<open>Runs\<close>

text \<open>The location of a packet.\<close>

lemma sequence_key_loc:
  assumes "base64_engine b64" "try_for_sequence_path b64 tag p c seq = Ok key"
  obtains k i where "loc_channel b64 p c (\<lambda>p i. f p i seq) = Some (f k i seq)" "length (port_bytes k) = 9"
    "key_deref key = tag_byte tag # port_bytes k @ be32 i @ be64 seq"
proof -
  obtain pc where pc: "port_channel_try_from b64 p c = Ok pc" "trie_key_new tag (append_pair (append_port_channel pc) (append_u64 seq)) = (Ok key :: (id_error, trie_key) outcome)"
    using assms(2) by (auto simp: try_for_sequence_path_def bind_outcome_Ok)
  note P = port_key_loc(1)[OF assms(1) pc(1)] port_key_loc(4)[where ?'e = id_error, OF assms(1) pc(1), of tag seq]
  have "port_key_try_from b64 (as_bytes p) = Ok (pc_port_key pc)" "channel_idx_try_from c = Ok (pc_channel_idx pc)"
    using pc(1) by (auto simp: port_channel_try_from_def split: outcome.splits)
  then have "loc_channel b64 p c (\<lambda>p i. f p i seq) = Some (f (pc_port_key pc) (channel_counter (pc_channel_idx pc)) seq)"
    by (simp add: loc_channel_def)
  moreover have "key_deref key = tag_byte tag # port_bytes (pc_port_key pc) @ be32 (channel_counter (pc_channel_idx pc)) @ be64 seq"
    using P(2) pc(2) by auto
  ultimately show thesis using that P(1) by blast
qed

inductive storage_run ::
  "('s, 'cs, 'co, 'ce, 'ch) ibc_env \<Rightarrow> ('s, 'pk, 'sig) ibc_storage \<Rightarrow> ('s, 'pk, 'sig) ibc_storage \<Rightarrow> bool"
  for E st0 where
  start: "storage_run E st0 st0"
| op: "storage_run E st0 st \<Longrightarrow> ibc_op_ok op \<Longrightarrow> run_ibc_op E op st = (st', Ok ()) \<Longrightarrow> storage_run E st0 st'"
| chain: "storage_run E st0 st \<Longrightarrow> storage_run E st0 (st\<lparr>st_chain := chain\<rparr>)"

context provable_trie
begin

lemma packet_mirror:
  assumes E: "env_for d ops E" and i: "storage_inv tinv E st"
    and k: "try_for_sequence_path (ie_b64 E) tag p c seq = Ok key" and tag: "tag = TagCommitment \<or> tag = TagAck"
  shows "hash_inv v \<Longrightarrow> provable_set E err key v st = (st', Ok ()) \<Longrightarrow> storage_inv tinv E st'"
    "provable_del E err key st = (st', Ok ()) \<Longrightarrow> storage_inv tinv E st'"
proof -
  have b: "base64_engine (ie_b64 E)" using E by (simp add: env_for_def)
  obtain pk ci where P: "length (port_bytes pk) = 9" "key_deref key = tag_byte tag # port_bytes pk @ be32 ci @ be64 seq"
    by (rule sequence_key_loc[OF b k])
  let ?L = "if tag = TagAck then LocAck pk ci seq else LocCommitment pk ci seq"
  have L: "key_deref key = loc_bytes ?L" "loc_inv ?L" "\<And>ps. want E ps ?L = None"
    using P tag port_loc_inv[OF P(1)] by (auto simp: want.simps)
  show "hash_inv v \<Longrightarrow> provable_set E err key v st = (st', Ok ()) \<Longrightarrow> storage_inv tinv E st'"
    "provable_del E err key st = (st', Ok ()) \<Longrightarrow> storage_inv tinv E st'" by (fact commitment_mirror[OF E i L])+
qed

lemma op_mirror:
  assumes E: "env_for d ops E" and i: "storage_inv tinv E st" and ok: "ibc_op_ok op" and r: "run_ibc_op E op st = (st', Ok ())"
  shows "storage_inv tinv E st'"
proof (cases op)
  case (StoreClientState cid cs)
  then show ?thesis using r store_client_mirror[OF E i] by (auto simp: store_client_state_def storage_Ok)
next
  case (StoreConsensusState cid n h c)
  then show ?thesis using r store_consensus_mirror[OF E i] by (auto simp: store_consensus_state_def storage_Ok)
next
  case (DeleteConsensusState cid n h)
  then show ?thesis using r delete_consensus_mirror[OF E i] by (auto simp: delete_consensus_state_def storage_Ok)
next
  case (StoreConnection cid ce)
  then show ?thesis using r store_connection_mirror[OF E i] by simp
next
  case (StoreChannel p c ch)
  then show ?thesis using r store_channel_mirror[OF E i] by simp
next
  case (StoreNextSequence k p c s)
  then show ?thesis using r ok store_next_sequence_mirror[OF E i] by simp
next
  case (StoreCommitment p c s v)
  then show ?thesis using r ok packet_mirror(1)[OF E i _ disjI1[OF refl]]
    by (auto simp: store_packet_commitment_def store_commitment_def key_from_commitment_def storage_Ok split: if_splits)
next
  case (DeleteCommitment p c s)
  then show ?thesis using r packet_mirror(2)[OF E i _ disjI1[OF refl]]
    by (auto simp: delete_packet_commitment_def delete_commitment_def key_from_commitment_def storage_Ok)
next
  case (StoreAck p c s v)
  then show ?thesis using r ok packet_mirror(1)[OF E i _ disjI2[OF refl]]
    by (auto simp: store_packet_acknowledgement_def store_commitment_def key_from_ack_def storage_Ok split: if_splits)
next
  case (DeleteAck p c s)
  then show ?thesis using r packet_mirror(2)[OF E i _ disjI2[OF refl]]
    by (auto simp: delete_packet_acknowledgement_def delete_commitment_def key_from_ack_def storage_Ok)
next
  case IncreaseChannelCounter
  then obtain n where st': "st' = st\<lparr>st_private := (st_private st)\<lparr>ps_channel_counter := n\<rparr>\<rparr>"
    using r by (auto simp: increase_channel_counter_def storage_Ok split: if_splits)
  have "want E ((st_private st)\<lparr>ps_channel_counter := n\<rparr>) l = want E (st_private st) l" for l by (cases l) (simp_all add: want.simps)
  then show ?thesis using i by (simp add: st' storage_inv_def private_inv_def triples_ok_def mirror_def at_loc_def)
qed

lemma run_mirror:
  assumes "storage_run E st0 st" "env_for d ops E" "storage_inv tinv E st0"
  shows "storage_inv tinv E st"
  using assms
proof induction
  case (chain st chain)
  then show ?case by (simp add: storage_inv_def mirror_def at_loc_def)
qed (use op_mirror in blast)+

end

section \<open>What can be read\<close>

text \<open>The trie holds a value at the key that the light client on another chain computes for a path.\<close>

definition commits :: "('s, 'cs, 'co, 'ce, 'ch) ibc_env \<Rightarrow> ('s, 'pk, 'sig) ibc_storage \<Rightarrow> unit ibc_path \<Rightarrow> hash \<Rightarrow> bool" where
  "commits E st path v \<longleftrightarrow> (\<exists>info. path_info_try_from (ie_b64 E) path = Ok info \<and> provable_get E st (pi_key info) = Some v)"

lemma commitsI:
  assumes "base64_engine (ie_b64 E)" "mirror E st" "path_location (ie_b64 E) path = Some l" "want E (st_private st) l = Some v"
  shows "commits E st path v"
proof -
  have "at_loc E st l = Some v" using assms(2,4) base64_engine.path_location_inv[OF assms(1,3)] by (simp add: mirror_def)
  moreover obtain info where "path_info_try_from (ie_b64 E) path = Ok info" "key_deref (pi_key info) = loc_bytes l"
    using base64_engine.path_info_spec[OF assms(1), of path] assms(3) by (auto simp: encodes_def simp del: path_info_try_from.simps)
  ultimately show ?thesis by (auto simp: commits_def provable_get_loc simp del: path_info_try_from.simps)
qed

lemma serialised_get_Ok: "serialised_get dec bytes = Ok x \<longleftrightarrow> dec bytes = Some x"
  by (auto simp: serialised_get_def ok_or_def split: option.splits)

lemma stored_client_commits:
  assumes "base64_engine (ie_b64 E)" "mirror E st"
  shows "get_client_state E st cid = Ok cs \<Longrightarrow>
      commits E st (ClientState cid) (digest_with_client_id (ie_digest E) cid (ie_client_any E cs))"
    "consensus_state_impl E st cid (n, h) = Ok c \<Longrightarrow>
      commits E st (ClientConsensusState cid n h) (digest_with_client_id (ie_digest E) cid (ie_consensus_any E c))"
proof -
  have loc: "path_location (ie_b64 E) (ClientState cid :: unit ibc_path) = Some (LocClientState (client_counter index))"
    "path_location (ie_b64 E) (ClientConsensusState cid n h :: unit ibc_path) = Some (LocConsensusState (client_counter index) n h)"
    "unat (client_counter index) < length (ps_clients (st_private st))" "ps_clients (st_private st) ! unat (client_counter index) = store"
    "cl_client_id store = cid"
    if "private_client (st_private st) cid = Ok (index, store)" for index store using that by (auto simp: private_client_Ok)
  show "commits E st (ClientState cid) (digest_with_client_id (ie_digest E) cid (ie_client_any E cs))" if "get_client_state E st cid = Ok cs"
    using that by (auto simp: get_client_state_def map_error_Ok bind_outcome_Ok serialised_get_Ok want_client(1)[OF loc(3,4)] loc(5)
      simp del: path_location.simps intro!: commitsI[OF assms loc(1)])
  show "commits E st (ClientConsensusState cid n h) (digest_with_client_id (ie_digest E) cid (ie_consensus_any E c))"
    if "consensus_state_impl E st cid (n, h) = Ok c"
    using that by (auto simp: consensus_state_impl_def ccs_state_def bind_outcome_Ok serialised_get_Ok ok_or_def want_client(2)[OF loc(3,4)] loc(5)
      simp del: path_location.simps split: option.splits intro!: commitsI[OF assms loc(2)])
qed

lemma stored_channel_commits:
  assumes "base64_engine (ie_b64 E)" "mirror E st"
  shows "connection_end E st i = Ok ce \<Longrightarrow> commits E st (Connection i) (ie_digest E (ie_conn_proto E ce))"
    "channel_end E st p c = Ok ch \<Longrightarrow> commits E st (ChannelEnd p c) (ie_digest E (ie_chan_proto E ch))"
    "get_next_sequence E st kind p c = Ok seq \<Longrightarrow>
      \<exists>t. commits E st (SeqSend p c) (triple_to_hash t) \<and> triple_get kind t = Some seq"
proof -
  show "commits E st (Connection i) (ie_digest E (ie_conn_proto E ce))" if "connection_end E st i = Ok ce"
    using that by (auto simp: connection_end_def map_error_Ok bind_outcome_Ok serialised_get_Ok Let_def want.simps
      split: if_splits intro!: commitsI[OF assms])
  have loc: "path_location (ie_b64 E) (ChannelEnd p c :: unit ibc_path) = Some (LocChannelEnd (pc_port_key pc) (channel_counter (pc_channel_idx pc)))"
    "path_location (ie_b64 E) (SeqSend p c :: unit ibc_path) = Some (LocNextSequence (pc_port_key pc) (channel_counter (pc_channel_idx pc)))"
    if "port_channel_try_from (ie_b64 E) p c = Ok pc" for pc
    using that by (auto simp: port_channel_try_from_def loc_channel_def split: outcome.splits)
  show "commits E st (ChannelEnd p c) (ie_digest E (ie_chan_proto E ch))" if "channel_end E st p c = Ok ch"
    using that by (auto simp: channel_end_def map_error_Ok bind_outcome_Ok serialised_get_Ok want.simps pc_eta
      simp del: path_location.simps split: option.splits if_splits intro!: commitsI[OF assms loc(1)])
  show "\<exists>t. commits E st (SeqSend p c) (triple_to_hash t) \<and> triple_get kind t = Some seq" if g: "get_next_sequence E st kind p c = Ok seq"
  proof -
    obtain pc store where s: "port_channel_try_from (ie_b64 E) p c = Ok pc" "map_of (ps_port_channel (st_private st)) pc = Some store"
      "triple_get kind (po_next_sequence store) = Some seq"
      using g by (auto simp: get_next_sequence_def map_error_Ok bind_outcome_Ok ok_or_def bind_eq_Some_conv split: option.splits)
    have "po_next_sequence store \<noteq> triple_default" using s(3) by (cases kind) (auto simp: triple_get_def triple_default_def)
    then have "commits E st (SeqSend p c) (triple_to_hash (po_next_sequence store))"
      using s(2) by (intro commitsI[OF assms loc(2)[OF s(1)]]) (simp add: want.simps pc_eta)
    then show ?thesis using s(3) by blast
  qed
qed

definition empty_private :: private_storage where
  "empty_private = \<lparr>ps_clients = [], ps_connections = [], ps_port_channel = [], ps_channel_counter = 0, ps_fee_collector = [],
     ps_new_fee_collector_proposal = None, ps_assets = [], ps_fee_in_lamports = 0\<rparr>"

lemma empty_storage_inv: "tinv (st_provable st) \<Longrightarrow> st_private st = empty_private \<Longrightarrow> storage_inv tinv E st"
proof -
  have "want E empty_private l = None" for l by (cases l) (simp_all add: want.simps empty_private_def)
  then show "tinv (st_provable st) \<Longrightarrow> st_private st = empty_private \<Longrightarrow> storage_inv tinv E st"
    by (simp add: storage_inv_def private_inv_def triples_ok_def mirror_def empty_private_def)
qed

lemma packet_key_loc:
  assumes "base64_engine b64"
  shows "key_from_commitment b64 p c s = Ok key \<Longrightarrow> \<exists>k i. path_location b64 (Commitment p c s :: unit ibc_path) = Some (LocCommitment k i s) \<and>
      key_deref key = loc_bytes (LocCommitment k i s) \<and> loc_inv (LocCommitment k i s)"
    "key_from_ack b64 p c s = Ok key \<Longrightarrow> \<exists>k i. path_location b64 (Ack p c s :: unit ibc_path) = Some (LocAck k i s) \<and>
      key_deref key = loc_bytes (LocAck k i s) \<and> loc_inv (LocAck k i s)"
proof -
  show "\<exists>k i. path_location b64 (Commitment p c s :: unit ibc_path) = Some (LocCommitment k i s) \<and>
      key_deref key = loc_bytes (LocCommitment k i s) \<and> loc_inv (LocCommitment k i s)" if "key_from_commitment b64 p c s = Ok key"
    using that port_loc_inv(3) unfolding key_from_commitment_def by (auto elim!: sequence_key_loc[OF assms, where ?f = LocCommitment])
  show "\<exists>k i. path_location b64 (Ack p c s :: unit ibc_path) = Some (LocAck k i s) \<and>
      key_deref key = loc_bytes (LocAck k i s) \<and> loc_inv (LocAck k i s)" if "key_from_ack b64 p c s = Ok key"
    using that port_loc_inv(4) unfolding key_from_ack_def by (auto elim!: sequence_key_loc[OF assms, where ?f = LocAck])
qed

text \<open>Looking up a packet after a change at one location.\<close>

lemma packet_lookup:
  assumes b: "base64_engine (ie_b64 E)" and at: "\<And>l. loc_inv l \<Longrightarrow> at_loc E st' l = (if l = L then v else at_loc E st l)"
  shows "path_location (ie_b64 E) (Commitment p c s :: unit ibc_path) \<noteq> Some L \<Longrightarrow> get_packet_commitment E st' p c s = get_packet_commitment E st p c s"
    "path_location (ie_b64 E) (Ack p c s :: unit ibc_path) \<noteq> Some L \<Longrightarrow> get_packet_acknowledgement E st' p c s = get_packet_acknowledgement E st p c s"
proof -
  have same: "provable_get E st' key = provable_get E st key" if "key_deref key = loc_bytes l" "loc_inv l" "l \<noteq> L" for key l
    using at[OF that(2)] that(3) by (simp add: provable_get_loc[OF that(1)])
  show "get_packet_commitment E st' p c s = get_packet_commitment E st p c s" if "path_location (ie_b64 E) (Commitment p c s :: unit ibc_path) \<noteq> Some L"
  proof (cases "key_from_commitment (ie_b64 E) p c s")
    case (Ok key)
    then have "provable_get E st' key = provable_get E st key"
      using packet_key_loc(1)[OF b Ok] that same by fastforce
    then show ?thesis by (simp add: get_packet_commitment_def Ok)
  qed (simp_all add: get_packet_commitment_def)
  show "get_packet_acknowledgement E st' p c s = get_packet_acknowledgement E st p c s" if "path_location (ie_b64 E) (Ack p c s :: unit ibc_path) \<noteq> Some L"
  proof (cases "key_from_ack (ie_b64 E) p c s")
    case (Ok key)
    then have "provable_get E st' key = provable_get E st key"
      using packet_key_loc(2)[OF b Ok] that same by fastforce
    then show ?thesis by (simp add: get_packet_acknowledgement_def Ok)
  qed (simp_all add: get_packet_acknowledgement_def)
qed

end
