(* ===== verification/Sol_Proof.thy ===== *)
theory Sol_Proof
  imports U3 Candidates "HOL-Library.List_Lexorder"
begin

text \<open>
  Merkle proofs of Solana accounts, \<^verbatim>\<open>common/cf-solana/src/proof.rs\<close>: the tree of fan-out 16 over
  the hashes of the accounts changed in a slot, proofs of a position in it with their binary
  format, the data that goes into the hash of an account, and the proof of the hash of a bank.
  SHA-256 and Blake3 are the parameters \<open>d\<close> and \<open>b3\<close>; a hasher is the bytes it was given.
  A proof made for an account computes the root of the tree from the hash of the account; this
  holds wherever the account shares its chunk with another one on every level, and in the other
  cases the code panics or makes a proof of another root.
\<close>

section \<open>Merkle proofs\<close>

definition MERKLE_FANOUT :: nat where "MERKLE_FANOUT = 16"

text \<open>The capacity of \<open>MerklePath\<close>; pushing to a full one panics.\<close>

definition MERKLE_PATH_CAP :: nat where "MERKLE_PATH_CAP = 16"

record merkle_proof =
  mp_path :: "byte list"
  mp_siblings :: "hash list"

definition merkle_proof_default :: merkle_proof where
  "merkle_proof_default = \<lparr>mp_path = [], mp_siblings = []\<rparr>"

definition pack_index_len :: "nat \<Rightarrow> nat \<Rightarrow> ('e, byte) outcome" where
  "pack_index_len index len =
     (if 0 < len \<and> len < MERKLE_FANOUT \<and> index \<le> len
      then Ok (push_bit 4 (word_of_nat index) OR word_of_nat len) else Panic)"

definition unpack_index_len :: "byte \<Rightarrow> ('e, nat \<times> nat) outcome" where
  "unpack_index_len num =
     (let index = unat (drop_bit 4 num); len = unat (num AND 15) in
      if index \<le> len then Ok (index, len) else Panic)"

definition push_level :: "merkle_proof \<Rightarrow> hash list \<Rightarrow> nat \<Rightarrow> ('e, merkle_proof) outcome" where
  "push_level this chunk idx_in_chunk =
     (if idx_in_chunk < length chunk then
        (let len = length chunk - 1 in
         bind_outcome (pack_index_len idx_in_chunk len) (\<lambda>b.
           if length (mp_path this) < MERKLE_PATH_CAP then
             Ok \<lparr>mp_path = mp_path this @ [b],
                 mp_siblings = mp_siblings this @
                   map snd (filter (\<lambda>(idx, hash). idx \<noteq> idx_in_chunk) (enumerate 0 chunk))\<rparr>
           else Panic))
      else Panic)"

text \<open>The iterator over the levels, and its \<open>next\<close>.\<close>

record proof_levels =
  pl_path :: "byte list"
  pl_siblings :: "hash list"

definition levels :: "merkle_proof \<Rightarrow> proof_levels" where
  "levels this = \<lparr>pl_path = mp_path this, pl_siblings = mp_siblings this\<rparr>"

definition proof_levels_next :: "proof_levels \<Rightarrow> ('e, ((nat \<times> hash list) \<times> proof_levels) option) outcome" where
  "proof_levels_next this =
     (case pl_path this of
        [] \<Rightarrow> if pl_siblings this = [] then Ok None else Panic
      | head # path_tail \<Rightarrow>
          bind_outcome (unpack_index_len head) (\<lambda>(index, len).
            if length (pl_siblings this) \<ge> len then
              Ok (Some ((index, take len (pl_siblings this)),
                        \<lparr>pl_path = path_tail, pl_siblings = drop len (pl_siblings this)\<rparr>))
            else Panic))"

lemma proof_levels_next_less:
  "proof_levels_next this = Ok (Some (item, rest)) \<Longrightarrow> length (pl_path rest) < length (pl_path this)"
  by (auto simp: proof_levels_next_def bind_outcome_Ok split: list.splits if_splits)

function expected_root_loop :: "(byte list \<Rightarrow> hash) \<Rightarrow> proof_levels \<Rightarrow> hash \<Rightarrow> ('e, hash) outcome" where
  "expected_root_loop d lv hash =
     bind_outcome (proof_levels_next lv) (\<lambda>nxt.
       case nxt of
         None \<Rightarrow> Ok hash
       | Some ((idx_in_chunk, siblings), rest) \<Rightarrow>
           (case split_at_checked siblings idx_in_chunk of
              None \<Rightarrow> Panic
            | Some (head, tail) \<Rightarrow> expected_root_loop d rest (d (concat head @ hash @ concat tail))))"
  by pat_completeness auto
termination
  by (relation "measure (\<lambda>(d, lv, h). length (pl_path lv))") (auto dest: proof_levels_next_less)

declare expected_root_loop.simps [simp del]

definition expected_root :: "(byte list \<Rightarrow> hash) \<Rightarrow> merkle_proof \<Rightarrow> hash \<Rightarrow> ('e, hash) outcome" where
  "expected_root d this account = expected_root_loop d (levels this) account"

subsection \<open>Binary format\<close>

definition merkle_to_binary :: "merkle_proof \<Rightarrow> byte list" where
  "merkle_to_binary this = word_of_nat (length (mp_path this)) # mp_path this @ concat (mp_siblings this)"

fun sum_lens :: "byte list \<Rightarrow> ('e, nat) outcome" where
  "sum_lens [] = Ok 0"
| "sum_lens (b # bs) =
     bind_outcome (unpack_index_len b) (\<lambda>(index, len). bind_outcome (sum_lens bs) (\<lambda>n. Ok (len + n)))"

definition merkle_from_binary :: "byte list \<Rightarrow> ('e, merkle_proof option) outcome" where
  "merkle_from_binary bytes =
     (case bytes of
        [] \<Rightarrow> Ok None
      | depth # bytes \<Rightarrow>
          (case split_at_checked bytes (unat depth) of
             None \<Rightarrow> Ok None
           | Some (path, bytes) \<Rightarrow>
               if length path > MERKLE_PATH_CAP then Ok None
               else
                 (let (siblings, bytes) = as_chunks 32 bytes in
                  bind_outcome (sum_lens path) (\<lambda>siblings_count.
                    Ok (if bytes = [] \<and> length siblings = siblings_count
                        then Some \<lparr>mp_path = path, mp_siblings = siblings\<rparr> else None)))))"

section \<open>The tree\<close>

text \<open>\<open>slice.chunks(n)\<close>: all chunks have \<open>n\<close> elements but the last one.\<close>

function par_chunks :: "nat \<Rightarrow> 'a list \<Rightarrow> 'a list list" where
  "par_chunks n xs = (if xs = [] \<or> n = 0 then [] else take n xs # par_chunks n (drop n xs))"
  by pat_completeness auto
termination by (relation "measure (\<lambda>(n, xs). length xs)") (auto simp: length_greater_0_conv)

declare par_chunks.simps [simp del]

definition compute_hashes_at_next_level :: "(byte list \<Rightarrow> hash) \<Rightarrow> hash list \<Rightarrow> hash list" where
  "compute_hashes_at_next_level d hashes = map (\<lambda>chunk. d (concat chunk)) (par_chunks MERKLE_FANOUT hashes)"

text \<open>
  The loop of \<open>compute_merkle_root\<close> writes the hashes of a level over those of the level below:
  \<open>n\<close> is the number of hashes at the start of the level.
\<close>

function merkle_level_loop ::
  "(byte list \<Rightarrow> hash) \<Rightarrow> nat \<Rightarrow> nat \<Rightarrow> nat \<Rightarrow> hash list \<Rightarrow> hash list \<times> nat" where
  "merkle_level_loop d n idx out hashes =
     (if idx < n then
        merkle_level_loop d n (idx + MERKLE_FANOUT) (out + 1)
          (hashes[out := d (concat (take MERKLE_FANOUT (drop idx hashes)))])
      else (hashes, out))"
  by pat_completeness auto
termination by (relation "measure (\<lambda>(d, n, idx, out, hs). n - idx)") (auto simp: MERKLE_FANOUT_def)

declare merkle_level_loop.simps [simp del]

definition merkle_level :: "(byte list \<Rightarrow> hash) \<Rightarrow> hash list \<Rightarrow> hash list" where
  "merkle_level d hashes = (let (hashes, out) = merkle_level_loop d (length hashes) 0 0 hashes in take out hashes)"

lemma div16_next: "(n + 16) div 16 = Suc (n div (16 :: nat))"
  using div_add_self2[of "16 :: nat" n] by simp

lemma ceil16_step:
  assumes "0 < k"
  shows "Suc ((k - 16 + 15) div 16) = (k + 15) div (16 :: nat)"
proof (cases "k \<le> 16")
  case True
  have "(k + 15) div 16 = 1" by (rule div_nat_eqI) (use assms True in simp_all)
  with True show ?thesis by simp
next
  case False
  then have "k + 15 = k - 16 + 15 + 16" by simp
  then show ?thesis by (simp only: div16_next)
qed

lemma ceil16_le: "(k + 15) div 16 \<le> (k :: nat)"
proof (cases "k = 0")
  case False
  then have "(k + 15) div 16 \<le> (k * 16) div 16" by (intro div_le_mono) simp
  then show ?thesis by simp
qed simp

lemma merkle_level_loop_len:
  assumes "merkle_level_loop d n idx out hs = (hs', out')"
  shows "length hs' = length hs \<and> out' = out + (n - idx + 15) div 16"
  using assms
proof (induction d n idx out hs rule: merkle_level_loop.induct)
  case (1 d n idx out hs)
  show ?case
  proof (cases "idx < n")
    case True
    then have "length hs' = length hs \<and> out' = out + 1 + (n - (idx + 16) + 15) div 16"
      using "1.IH"[OF True] "1.prems" by (simp add: merkle_level_loop.simps[of d n idx] MERKLE_FANOUT_def)
    then show ?thesis using ceil16_step[of "n - idx"] True by simp
  next
    case False
    then show ?thesis using "1.prems" by (simp add: merkle_level_loop.simps[of d n idx])
  qed
qed

lemma length_merkle_level: "length (merkle_level d hs) = (length hs + 15) div 16"
proof -
  obtain hs' out where l: "merkle_level_loop d (length hs) 0 0 hs = (hs', out)" by fastforce
  then have "length hs' = length hs" "out = (length hs + 15) div 16" using merkle_level_loop_len[OF l] by auto
  then show ?thesis using l ceil16_le[of "length hs"] by (simp add: merkle_level_def)
qed

function merkle_root_loop :: "(byte list \<Rightarrow> hash) \<Rightarrow> hash list \<Rightarrow> hash list" where
  "merkle_root_loop d hashes =
     (if length hashes > 1 then merkle_root_loop d (merkle_level d hashes) else hashes)"
  by pat_completeness auto
termination by (relation "measure (\<lambda>(d, hs). length hs)") (auto simp: length_merkle_level)

declare merkle_root_loop.simps [simp del]

definition compute_merkle_root :: "(byte list \<Rightarrow> hash) \<Rightarrow> (hash \<times> hash) list \<Rightarrow> hash" where
  "compute_merkle_root d accounts =
     (let hashes = map (\<lambda>chunk. d (concat (map snd chunk))) (par_chunks MERKLE_FANOUT accounts) in
      case merkle_root_loop d hashes of [] \<Rightarrow> replicate 32 0 | h # _ \<Rightarrow> h)"

lemma length_par_chunks: "0 < n \<Longrightarrow> length (par_chunks n xs) = (length xs + (n - 1)) div n"
proof (induction n xs rule: par_chunks.induct)
  case (1 n xs)
  show ?case
  proof (cases "xs = []")
    case False
    let ?m = "length xs"
    have "length (par_chunks n xs) = Suc ((?m - n + (n - 1)) div n)"
      using 1 False by (simp add: par_chunks.simps[of n xs])
    moreover have "Suc ((?m - n + (n - 1)) div n) = (?m + (n - 1)) div n"
    proof (cases "?m \<le> n")
      case True
      have "0 < ?m" using False by simp
      then have e: "?m + (n - 1) = (?m - 1) + n" using "1.prems" by linarith
      have "?m - n + (n - 1) < n" "?m - 1 < n" using True \<open>0 < ?m\<close> "1.prems" by linarith+
      then show ?thesis unfolding e using "1.prems" by (simp only: div_add_self2 div_less)
    next
      case F: False
      then have e: "?m + (n - 1) = (?m - n + (n - 1)) + n" by simp
      show ?thesis unfolding e using "1.prems" by (simp only: div_add_self2)
    qed
    ultimately show ?thesis by simp
  qed (use 1 in \<open>simp add: par_chunks.simps[of n "[]"]\<close>)
qed

lemma length_next_level: "length (compute_hashes_at_next_level d hs) = (length hs + 15) div 16"
  by (simp add: compute_hashes_at_next_level_def length_par_chunks MERKLE_FANOUT_def)

function generate_merkle_proof_loop ::
  "(byte list \<Rightarrow> hash) \<Rightarrow> hash list \<Rightarrow> nat \<Rightarrow> merkle_proof \<Rightarrow> ('e, merkle_proof) outcome" where
  "generate_merkle_proof_loop d current_hashes pos this =
     (if length current_hashes > 1 then
        (let chunk_index = pos div MERKLE_FANOUT;
             chunk_start = chunk_index * MERKLE_FANOUT;
             chunk_end = min (chunk_start + MERKLE_FANOUT) (length current_hashes)
         in if chunk_start > chunk_end then Panic
            else
              bind_outcome
                (push_level this (take (chunk_end - chunk_start) (drop chunk_start current_hashes))
                   (pos mod MERKLE_FANOUT))
                (\<lambda>this. generate_merkle_proof_loop d (compute_hashes_at_next_level d current_hashes) chunk_index this))
      else Ok this)"
  by pat_completeness auto
termination by (relation "measure (\<lambda>(d, hs, pos, p). length hs)") (auto simp: length_next_level)

declare generate_merkle_proof_loop.simps [simp del]

definition generate_merkle_proof :: "(byte list \<Rightarrow> hash) \<Rightarrow> (hash \<times> hash) list \<Rightarrow> nat \<Rightarrow> ('e, merkle_proof) outcome" where
  "generate_merkle_proof d accounts pos =
     generate_merkle_proof_loop d (map snd accounts) pos merkle_proof_default"

text \<open>
  \<open>binary_search_by_key(..).ok()\<close> on sorted accounts. The sort is not stable; where no two accounts
  have the same key there is only one sorted order.
\<close>

definition account_pos :: "(hash \<times> hash) list \<Rightarrow> hash \<Rightarrow> nat option" where
  "account_pos accounts pubkey =
     (let keys = map fst accounts; pos = binary_search_pos keys pubkey 0 (length keys) in
      if pos < length keys \<and> keys ! pos = pubkey then Some pos else None)"

definition merkle_generate ::
  "(byte list \<Rightarrow> hash) \<Rightarrow> (hash \<times> hash) list \<Rightarrow> hash \<Rightarrow>
   (hash \<times> hash) list \<times> ('e, (hash \<times> merkle_proof) option) outcome" where
  "merkle_generate d accounts pubkey =
     (let accounts = sort_key fst accounts in
      (accounts,
       case account_pos accounts pubkey of
         None \<Rightarrow> Ok None
       | Some pos \<Rightarrow>
           (let root = compute_merkle_root d accounts in
            bind_outcome (generate_merkle_proof d accounts pos) (\<lambda>mp. Ok (Some (root, mp))))))"

section \<open>Accounts\<close>

text \<open>\<open>AccountHashData\<close> is a byte string; every constructor makes one of at least 81 bytes.\<close>

type_synonym account_hash_data = "byte list"

definition length_for :: "nat \<Rightarrow> nat" where
  "length_for data_len = 8 + 8 + data_len + 1 + 32 + 32"

definition bool_byte :: "bool \<Rightarrow> byte" where
  "bool_byte b = (if b then 1 else 0)"

definition account_hash_data_new ::
  "nat \<Rightarrow> hash \<Rightarrow> bool \<Rightarrow> nat \<Rightarrow> byte list \<Rightarrow> hash \<Rightarrow> account_hash_data" where
  "account_hash_data_new lamports owner executable rent_epoch data pubkey =
     concat [to_le 8 lamports, to_le 8 rent_epoch, data, [bool_byte executable], owner, pubkey]"

datatype account_hash_data_too_short = AccountHashDataTooShort

definition account_hash_data_try_from ::
  "byte list \<Rightarrow> (account_hash_data_too_short, account_hash_data) outcome" where
  "account_hash_data_try_from bytes =
     (if length bytes < length_for 0 then Err AccountHashDataTooShort else Ok bytes)"

definition ahd_get :: "nat \<Rightarrow> account_hash_data \<Rightarrow> nat \<Rightarrow> byte list" where
  "ahd_get n this start = take n (drop start this)"

definition ahd_lamports :: "account_hash_data \<Rightarrow> nat" where
  "ahd_lamports this = from_le (ahd_get 8 this 0)"

definition ahd_rent_epoch :: "account_hash_data \<Rightarrow> nat" where
  "ahd_rent_epoch this = from_le (ahd_get 8 this 8)"

definition ahd_data :: "account_hash_data \<Rightarrow> byte list" where
  "ahd_data this = drop 16 (take (length this - 65) this)"

definition ahd_executable :: "account_hash_data \<Rightarrow> bool" where
  "ahd_executable this \<longleftrightarrow> this ! (length this - 65) = 1"

definition ahd_owner :: "account_hash_data \<Rightarrow> hash" where
  "ahd_owner this = ahd_get 32 this (length this - 64)"

definition ahd_key :: "account_hash_data \<Rightarrow> hash" where
  "ahd_key this = ahd_get 32 this (length this - 32)"

definition ahd_calculate_hash :: "(byte list \<Rightarrow> hash) \<Rightarrow> account_hash_data \<Rightarrow> hash" where
  "ahd_calculate_hash b3 this = b3 this"

record account_proof =
  ap_account_hash_data :: account_hash_data
  ap_proof :: merkle_proof

definition ahd_generate_proof ::
  "(byte list \<Rightarrow> hash) \<Rightarrow> account_hash_data \<Rightarrow> (hash \<times> hash) list \<Rightarrow>
   (hash \<times> hash) list \<times> ('e, (hash \<times> account_proof) option) outcome" where
  "ahd_generate_proof d this accounts =
     (let (accounts, res) = merkle_generate d accounts (ahd_key this) in
      (accounts, bind_outcome res (\<lambda>r. Ok (map_option (\<lambda>(root, mp).
        (root, \<lparr>ap_account_hash_data = this, ap_proof = mp\<rparr>)) r))))"

definition account_proof_generate ::
  "(byte list \<Rightarrow> hash) \<Rightarrow> (hash \<times> hash) list \<Rightarrow> nat \<Rightarrow> hash \<Rightarrow> bool \<Rightarrow> nat \<Rightarrow> byte list \<Rightarrow> hash \<Rightarrow>
   (hash \<times> hash) list \<times> ('e, (hash \<times> account_proof) option) outcome" where
  "account_proof_generate d accounts lamports owner executable rent_epoch data pubkey =
     (let (accounts, res) = merkle_generate d accounts pubkey in
      (accounts, bind_outcome res (\<lambda>r. Ok (map_option (\<lambda>(root, mp).
        (root, \<lparr>ap_account_hash_data = account_hash_data_new lamports owner executable rent_epoch data pubkey,
                ap_proof = mp\<rparr>)) r))))"

definition ap_expected_root :: "(byte list \<Rightarrow> hash) \<Rightarrow> (byte list \<Rightarrow> hash) \<Rightarrow> account_proof \<Rightarrow> ('e, hash) outcome" where
  "ap_expected_root d b3 this =
     expected_root d (ap_proof this) (ahd_calculate_hash b3 (ap_account_hash_data this))"

subsection \<open>Hash of an account\<close>

text \<open>Extending a buffer of a fixed capacity.\<close>

definition HASH_BUFFER_SIZE :: nat where "HASH_BUFFER_SIZE = (8 + 8 + 1 + 32 + 32) + 200"

definition buffer_extend :: "byte list \<Rightarrow> byte list \<Rightarrow> ('e, byte list) outcome" where
  "buffer_extend buffer bs = (if length buffer + length bs \<le> HASH_BUFFER_SIZE then Ok (buffer @ bs) else Panic)"

definition hash_account ::
  "(byte list \<Rightarrow> hash) \<Rightarrow> nat \<Rightarrow> hash \<Rightarrow> bool \<Rightarrow> nat \<Rightarrow> byte list \<Rightarrow> hash \<Rightarrow> ('e, hash) outcome" where
  "hash_account b3 lamports owner executable rent_epoch data pubkey =
     (if lamports = 0 then Ok (replicate 32 0)
      else
        bind_outcome (buffer_extend [] (to_le 8 lamports)) (\<lambda>buffer.
        bind_outcome (buffer_extend buffer (to_le 8 rent_epoch)) (\<lambda>buffer.
        bind_outcome
          (if length data > 200 then Ok (buffer @ data, [])
           else bind_outcome (buffer_extend buffer data) (\<lambda>buffer. Ok ([], buffer))) (\<lambda>(hasher, buffer).
        bind_outcome (buffer_extend buffer [bool_byte executable]) (\<lambda>buffer.
        bind_outcome (buffer_extend buffer owner) (\<lambda>buffer.
        bind_outcome (buffer_extend buffer pubkey) (\<lambda>buffer.
          Ok (b3 (hasher @ buffer)))))))))"

section \<open>Hash of a bank\<close>

record delta_hash_proof =
  dp_parent_blockhash :: hash
  dp_accounts_delta_hash :: hash
  dp_num_sigs :: nat
  dp_blockhash :: hash
  dp_epoch_accounts_hash :: "hash option"

definition calculate_bank_hash :: "(byte list \<Rightarrow> hash) \<Rightarrow> delta_hash_proof \<Rightarrow> hash" where
  "calculate_bank_hash d this =
     (let hash = d (concat [dp_parent_blockhash this, dp_accounts_delta_hash this,
                            to_le 8 (dp_num_sigs this), dp_blockhash this]) in
      case dp_epoch_accounts_hash this of
        Some epoch_hash \<Rightarrow> d (concat [hash, epoch_hash])
      | None \<Rightarrow> hash)"

definition delta_to_binary :: "delta_hash_proof \<Rightarrow> byte list" where
  "delta_to_binary this =
     concat [dp_parent_blockhash this, dp_accounts_delta_hash this, to_le 8 (dp_num_sigs this), dp_blockhash this,
             case dp_epoch_accounts_hash this of None \<Rightarrow> [] | Some hash \<Rightarrow> hash]"

text \<open>The layouts \<open>Short\<close> (104 bytes) and \<open>Full\<close> (136 bytes).\<close>

definition delta_from_short :: "byte list \<Rightarrow> delta_hash_proof" where
  "delta_from_short short =
     \<lparr>dp_parent_blockhash = take 32 short,
      dp_accounts_delta_hash = take 32 (drop 32 short),
      dp_num_sigs = from_le (take 8 (drop 64 short)),
      dp_blockhash = take 32 (drop 72 short),
      dp_epoch_accounts_hash = None\<rparr>"

definition delta_from_binary :: "byte list \<Rightarrow> delta_hash_proof option" where
  "delta_from_binary bytes =
     (if length bytes = 104 then Some (delta_from_short bytes)
      else if length bytes = 136 then
        Some ((delta_from_short (take 104 bytes))\<lparr>dp_epoch_accounts_hash := Some (drop 104 bytes)\<rparr>)
      else None)"

section \<open>Packed positions\<close>

lemma unpack_pack_all:
  "list_all (\<lambda>i. list_all (\<lambda>l. unat (drop_bit 4 (push_bit 4 (word_of_nat i) OR word_of_nat l :: byte)) = i \<and>
     unat ((push_bit 4 (word_of_nat i) OR word_of_nat l :: byte) AND 15) = l) [0..<16]) [0..<16]"
  by code_simp

lemma unpack_pack: "pack_index_len i l = (Ok b :: ('e, byte) outcome) \<Longrightarrow> unpack_index_len b = (Ok (i, l) :: ('f, nat \<times> nat) outcome)"
  using unpack_pack_all
  by (auto simp: pack_index_len_def unpack_index_len_def MERKLE_FANOUT_def list_all_iff split: if_splits)

lemma pack_Ok_iff:
  "(\<exists>b. pack_index_len i l = (Ok b :: ('e, byte) outcome)) \<longleftrightarrow> 0 < l \<and> l < 16 \<and> i \<le> l"
  by (auto simp: pack_index_len_def MERKLE_FANOUT_def)

lemma pack_not_Err: "pack_index_len i l \<noteq> Err e"
  by (simp add: pack_index_len_def)

section \<open>Levels of the tree\<close>

lemma par_chunks_Nil [simp]: "par_chunks n [] = []"
  by (simp add: par_chunks.simps[of n "[]"])

lemma par_chunks_Cons: "xs \<noteq> [] \<Longrightarrow> 0 < n \<Longrightarrow> par_chunks n xs = take n xs # par_chunks n (drop n xs)"
  by (simp add: par_chunks.simps[of n xs])

lemma map_par_chunks: "par_chunks n (map f xs) = map (map f) (par_chunks n xs)"
proof (induction n xs rule: par_chunks.induct)
  case (1 n xs)
  then show ?case
    by (cases "xs = [] \<or> n = 0") (auto simp: par_chunks.simps[of n xs] par_chunks.simps[of n "map f xs"] take_map drop_map)
qed

lemma nth_par_chunks: "k * n < length xs \<Longrightarrow> 0 < n \<Longrightarrow> par_chunks n xs ! k = take n (drop (k * n) xs)"
proof (induction k arbitrary: xs)
  case (Suc k)
  then have "k * n < length (drop n xs)" "xs \<noteq> []" by auto
  moreover from this Suc have "par_chunks n (drop n xs) ! k = take n (drop (k * n) (drop n xs))" by blast
  ultimately show ?case using Suc.prems by (simp add: par_chunks_Cons[of xs n] add.commute)
qed (simp add: par_chunks_Cons)

text \<open>The level computed in place is the level computed from the chunks.\<close>

lemma merkle_level_loop_chunks:
  assumes "merkle_level_loop d n idx out hs = (hs', out')" "n = length hs" "idx = 16 * out"
  shows "take out' hs' = take out hs @ map (\<lambda>c. d (concat c)) (par_chunks 16 (drop idx hs))"
  using assms
proof (induction d n idx out hs rule: merkle_level_loop.induct)
  case (1 d n idx out hs)
  show ?case
  proof (cases "idx < n")
    case True
    let ?v = "d (concat (take 16 (drop idx hs)))"
    have "merkle_level_loop d n idx out hs = merkle_level_loop d n (idx + 16) (out + 1) (hs[out := ?v])"
      using True by (simp add: merkle_level_loop.simps[of d n idx] MERKLE_FANOUT_def)
    then have "take out' hs' = take (out + 1) (hs[out := ?v]) @
        map (\<lambda>c. d (concat c)) (par_chunks 16 (drop (idx + 16) (hs[out := ?v])))"
      using "1.IH"[OF True] "1.prems" by (simp add: MERKLE_FANOUT_def)
    moreover have "take (out + 1) (hs[out := ?v]) = take out hs @ [?v]"
      using True "1.prems" by (simp add: take_Suc_conv_app_nth)
    moreover have "drop (idx + 16) (hs[out := ?v]) = drop 16 (drop idx hs)"
      using "1.prems" by (simp add: add.commute)
    moreover have "par_chunks 16 (drop idx hs) = take 16 (drop idx hs) # par_chunks 16 (drop 16 (drop idx hs))"
      using True "1.prems" by (intro par_chunks_Cons) auto
    ultimately show ?thesis by simp
  next
    case False
    then have "merkle_level_loop d n idx out hs = (hs, out)" by (simp add: merkle_level_loop.simps[of d n idx])
    then show ?thesis using "1.prems" False by simp
  qed
qed

lemma merkle_level_eq: "merkle_level d hs = compute_hashes_at_next_level d hs"
proof -
  obtain hs' out where l: "merkle_level_loop d (length hs) 0 0 hs = (hs', out)" by fastforce
  from merkle_level_loop_chunks[OF l] show ?thesis
    using l by (simp add: merkle_level_def compute_hashes_at_next_level_def MERKLE_FANOUT_def)
qed

text \<open>The root of a tree, level by level.\<close>

function tree_root :: "(byte list \<Rightarrow> hash) \<Rightarrow> hash list \<Rightarrow> hash" where
  "tree_root d hs =
     (if length hs > 1 then tree_root d (compute_hashes_at_next_level d hs)
      else if hs = [] then replicate 32 0 else hd hs)"
  by pat_completeness auto
termination by (relation "measure (\<lambda>(d, hs). length hs)") (auto simp: length_next_level)

declare tree_root.simps [simp del]

lemma tree_root_level: "length hs > 1 \<Longrightarrow> tree_root d hs = tree_root d (compute_hashes_at_next_level d hs)"
  by (simp add: tree_root.simps[of d hs])

lemma merkle_root_loop_tree:
  "(case merkle_root_loop d hs of [] \<Rightarrow> replicate 32 0 | h # _ \<Rightarrow> h) = tree_root d hs"
proof (induction d hs rule: merkle_root_loop.induct)
  case (1 d hs)
  then show ?case
    by (cases "length hs > 1")
      (auto simp: merkle_root_loop.simps[of d hs] tree_root.simps[of d hs] merkle_level_eq split: list.splits)
qed

lemma compute_merkle_root_tree:
  "compute_merkle_root d accounts = tree_root d (compute_hashes_at_next_level d (map snd accounts))"
  by (simp add: compute_merkle_root_def merkle_root_loop_tree compute_hashes_at_next_level_def map_par_chunks comp_def)

section \<open>Proofs made by the code\<close>

text \<open>The siblings of a proof are those its path asks for.\<close>

definition merkle_ok :: "merkle_proof \<Rightarrow> bool" where
  "merkle_ok p \<longleftrightarrow>
     sum_lens (mp_path p) = (Ok (length (mp_siblings p)) :: (unit, nat) outcome) \<and> length (mp_path p) \<le> MERKLE_PATH_CAP"

lemma unpack_Ok_any:
  "unpack_index_len b = (Ok r :: ('e, nat \<times> nat) outcome) \<Longrightarrow> unpack_index_len b = (Ok r :: ('f, nat \<times> nat) outcome)"
  by (auto simp: unpack_index_len_def Let_def split: if_splits)

lemma sum_lens_any: "sum_lens bs = (Ok n :: ('e, nat) outcome) \<Longrightarrow> sum_lens bs = (Ok n :: ('f, nat) outcome)"
proof (induction bs arbitrary: n)
  case (Cons b bs)
  then obtain i l m where u: "unpack_index_len b = (Ok (i, l) :: ('e, nat \<times> nat) outcome)"
    and m: "sum_lens bs = (Ok m :: ('e, nat) outcome)" "n = l + m"
    by (auto simp: bind_outcome_Ok)
  from unpack_Ok_any[OF u, where 'f = 'f] Cons.IH[OF m(1)] m(2) show ?case by simp
qed simp

lemma sum_lens_append:
  "sum_lens xs = (Ok m :: ('e, nat) outcome) \<Longrightarrow> sum_lens ys = (Ok n :: ('e, nat) outcome) \<Longrightarrow>
   sum_lens (xs @ ys) = (Ok (m + n) :: ('e, nat) outcome)"
proof (induction xs arbitrary: m)
  case (Cons b xs)
  then obtain i l k where "unpack_index_len b = (Ok (i, l) :: ('e, nat \<times> nat) outcome)"
    and "sum_lens xs = (Ok k :: ('e, nat) outcome)" "m = l + k"
    by (auto simp: bind_outcome_Ok)
  with Cons.IH[of k] Cons.prems(2) show ?case by simp
qed simp

abbreviation lv :: "byte list \<Rightarrow> hash list \<Rightarrow> proof_levels" where
  "lv p s \<equiv> \<lparr>pl_path = p, pl_siblings = s\<rparr>"

lemma expected_root_Nil: "expected_root_loop d (lv [] []) h = Ok h"
  by (simp add: expected_root_loop.simps[of d "lv [] []"] proof_levels_next_def)

lemma expected_root_Cons:
  assumes "unpack_index_len b = (Ok (i, l) :: ('e, nat \<times> nat) outcome)" "l \<le> length s"
  shows "(expected_root_loop d (lv (b # p) s) h :: ('e, hash) outcome) =
    expected_root_loop d (lv p (drop l s)) (d (concat (take i (take l s)) @ h @ concat (drop i (take l s))))"
proof -
  have "i \<le> l" using assms(1) by (auto simp: unpack_index_len_def Let_def split: if_splits)
  then show ?thesis
    using assms by (simp add: expected_root_loop.simps[of d "lv (b # p) s"] proof_levels_next_def split_at_checked_def)
qed

lemma expected_root_append:
  assumes "sum_lens p = (Ok (length s) :: ('e, nat) outcome)"
  shows "(expected_root_loop d (lv (p @ q) (s @ t)) h :: ('e, hash) outcome) =
    bind_outcome (expected_root_loop d (lv p s) h) (expected_root_loop d (lv q t))"
  using assms
proof (induction p arbitrary: s h)
  case (Cons b p)
  then obtain i l m where u: "unpack_index_len b = (Ok (i, l) :: ('e, nat \<times> nat) outcome)"
    and m: "sum_lens p = (Ok m :: ('e, nat) outcome)" "l + m = length s"
    by (auto simp: bind_outcome_Ok)
  then have "sum_lens p = (Ok (length (drop l s)) :: ('e, nat) outcome)" by (simp flip: m(2))
  from Cons.IH[OF this] m(2) show ?case
    by (simp add: expected_root_Cons[OF u])
qed (simp add: expected_root_Nil)

lemma siblings_of_chunk:
  "map snd (filter (\<lambda>(k, h). k \<noteq> i) (enumerate n c)) =
   (if n \<le> i then take (i - n) c @ drop (i - n + 1) c else c)"
proof (induction c arbitrary: n)
  case (Cons h c)
  then show ?case by (cases "n = i") (auto simp: Suc_diff_le not_le less_Suc_eq split: nat_diff_split)
qed simp

text \<open>A level of a proof takes the hash of a node to the hash of its parent.\<close>

lemma push_level_expected:
  assumes "push_level p c i = (Ok p' :: ('e, merkle_proof) outcome)" "merkle_ok p"
    "expected_root d p h = (Ok (c ! i) :: ('e, hash) outcome)"
  shows "merkle_ok p' \<and> expected_root d p' h = (Ok (d (concat c)) :: ('e, hash) outcome)"
proof -
  let ?s = "take i c @ drop (Suc i) c"
  from assms(1) obtain b where i: "i < length c" and b: "pack_index_len i (length c - 1) = (Ok b :: ('e, byte) outcome)"
    and cap: "length (mp_path p) < MERKLE_PATH_CAP"
    and p': "p' = \<lparr>mp_path = mp_path p @ [b], mp_siblings = mp_siblings p @ ?s\<rparr>"
    by (auto simp: push_level_def bind_outcome_Ok siblings_of_chunk split: if_splits)
  have u: "unpack_index_len b = (Ok (i, length c - 1) :: ('e, nat \<times> nat) outcome)" by (rule unpack_pack[OF b])
  have len: "length ?s = length c - 1" using i by simp
  have sm: "sum_lens (mp_path p) = (Ok (length (mp_siblings p)) :: ('e, nat) outcome)"
    using assms(2) sum_lens_any by (auto simp: merkle_ok_def)
  have "sum_lens [b] = (Ok (length ?s) :: (unit, nat) outcome)"
    using unpack_pack[OF b, where 'f = unit] len by simp
  then have "merkle_ok p'"
    using sum_lens_append[of "mp_path p" _ "[b]"] assms(2) cap by (simp add: merkle_ok_def p')
  moreover have "concat (take i ?s) @ c ! i @ concat (drop i ?s) = concat c"
  proof -
    have "concat c = concat (take i c @ c ! i # drop (Suc i) c)" using i by (simp add: id_take_nth_drop[symmetric])
    then show ?thesis using i by simp
  qed
  moreover have "expected_root_loop d (lv [b] ?s) (c ! i) =
      (Ok (d (concat (take i ?s) @ c ! i @ concat (drop i ?s))) :: ('e, hash) outcome)"
  proof -
    have "take (length c - 1) ?s = ?s" "drop (length c - 1) ?s = []"
      unfolding len[symmetric] by (rule take_all drop_all, rule order_refl)+
    then show ?thesis
      using expected_root_Cons[OF u, of ?s d "[]" "c ! i"] len by (simp only: expected_root_Nil order_refl)
  qed
  moreover have "expected_root d p' h = (expected_root_loop d (lv [b] ?s) (c ! i) :: ('e, hash) outcome)"
    using expected_root_append[OF sm, of d "[b]" ?s h] assms(3) by (simp add: expected_root_def levels_def p')
  ultimately show ?thesis by simp
qed

text \<open>A node alone in its chunk, on some level of a tree of \<open>n\<close> leaves, above the leaf \<open>pos\<close>.\<close>

function lonely :: "nat \<Rightarrow> nat \<Rightarrow> bool" where
  "lonely n pos =
     (if n > 1 then pos mod 16 = 0 \<and> pos + 1 = n \<or> lonely ((n + 15) div 16) (pos div 16) else False)"
  by pat_completeness auto
termination by (relation "measure fst") auto

declare lonely.simps [simp del]

function merkle_depth :: "nat \<Rightarrow> nat" where
  "merkle_depth n = (if n > 1 then Suc (merkle_depth ((n + 15) div 16)) else 0)"
  by pat_completeness auto
termination by (relation "measure id") auto

declare merkle_depth.simps [simp del]

lemma merkle_depth_le: "n \<le> 16 ^ k \<Longrightarrow> merkle_depth n \<le> k"
proof (induction k arbitrary: n)
  case 0
  then show ?case by (simp add: merkle_depth.simps[of n])
next
  case (Suc k)
  then have "(n + 15) div 16 \<le> 16 ^ k" by simp
  from Suc.IH[OF this] show ?case by (simp add: merkle_depth.simps[of n])
qed

text \<open>The chunk of a position, and what the next level has for it.\<close>

abbreviation chunk_at :: "nat \<Rightarrow> 'a list \<Rightarrow> 'a list" where
  "chunk_at pos hs \<equiv> take 16 (drop (16 * (pos div 16)) hs)"

lemma next_level_nth:
  assumes "pos < length hs"
  shows "pos div 16 < length (compute_hashes_at_next_level d hs)"
    "compute_hashes_at_next_level d hs ! (pos div 16) = d (concat (chunk_at pos hs))"
proof -
  have "pos div 16 * 16 \<le> pos" by simp
  then have k: "pos div 16 * 16 < length hs" using assms by (rule order.strict_trans1)
  have "(pos + 16) div 16 \<le> (length hs + 15) div 16" using assms by (intro div_le_mono) simp
  then show l: "pos div 16 < length (compute_hashes_at_next_level d hs)"
    unfolding length_next_level div16_next by simp
  then have "pos div 16 < length (par_chunks 16 hs)" by (simp add: compute_hashes_at_next_level_def MERKLE_FANOUT_def)
  then show "compute_hashes_at_next_level d hs ! (pos div 16) = d (concat (chunk_at pos hs))"
    using nth_par_chunks[OF k] by (simp add: compute_hashes_at_next_level_def MERKLE_FANOUT_def mult.commute)
qed

lemma nth_chunk_at: "pos < length hs \<Longrightarrow> chunk_at pos hs ! (pos mod 16) = hs ! pos"
proof -
  assume "pos < length hs"
  moreover have "16 * (pos div 16) + pos mod 16 = pos" by simp
  ultimately show ?thesis by simp
qed

lemma generate_loop_step:
  assumes "pos < length hs" "length hs > 1"
  shows "generate_merkle_proof_loop d hs pos p =
    bind_outcome (push_level p (chunk_at pos hs) (pos mod 16)) (\<lambda>p.
      generate_merkle_proof_loop d (compute_hashes_at_next_level d hs) (pos div 16) p)"
proof -
  let ?a = "pos div 16 * 16"
  have "?a \<le> pos" by simp
  then have "?a < length hs" using assms(1) by (rule order.strict_trans1)
  moreover have "take (min (?a + 16) (length hs) - ?a) (drop ?a hs) = chunk_at pos hs"
    by (cases "?a + 16 \<le> length hs") (simp_all add: mult.commute)
  ultimately show ?thesis
    using assms(2) by (simp add: generate_merkle_proof_loop.simps[of d hs] MERKLE_FANOUT_def Let_def min_def)
qed

lemma generate_loop_root:
  assumes "generate_merkle_proof_loop d hs pos p = (Ok p' :: ('e, merkle_proof) outcome)" "merkle_ok p"
    "pos < length hs" "expected_root d p h = (Ok (hs ! pos) :: ('e, hash) outcome)"
  shows "merkle_ok p' \<and> expected_root d p' h = (Ok (tree_root d hs) :: ('e, hash) outcome)"
  using assms
proof (induction "length hs" arbitrary: hs pos p rule: less_induct)
  case less
  show ?case
  proof (cases "length hs > 1")
    case True
    then obtain q where q: "push_level p (chunk_at pos hs) (pos mod 16) = (Ok q :: ('e, merkle_proof) outcome)"
      and loop: "generate_merkle_proof_loop d (compute_hashes_at_next_level d hs) (pos div 16) q = (Ok p' :: ('e, merkle_proof) outcome)"
      using less.prems(1) unfolding generate_loop_step[OF less.prems(3) True] bind_outcome_Ok by blast
    have "merkle_ok q \<and> expected_root d q h = (Ok (d (concat (chunk_at pos hs))) :: ('e, hash) outcome)"
      using push_level_expected[OF q less.prems(2)] less.prems(3,4) by (simp only: nth_chunk_at)
    moreover have "length (compute_hashes_at_next_level d hs) < length hs"
      using True by (simp add: length_next_level)
    ultimately show ?thesis
      using less.hyps[OF _ loop] next_level_nth[OF less.prems(3)] tree_root_level[OF True] by simp
  next
    case False
    then have "hs = [hs ! pos]" using less.prems(3) by (cases hs) auto
    then have "tree_root d hs = hs ! pos" by (metis False list.distinct(1) list.sel(1) tree_root.simps)
    then show ?thesis
      using False less.prems by (simp add: generate_merkle_proof_loop.simps[of d hs])
  qed
qed

lemma push_level_cases:
  assumes "i < length c" "length c \<le> 16" "length (mp_path p) < 16"
  shows "if length c = 1 then push_level p c i = (Panic :: ('e, merkle_proof) outcome)
    else \<exists>p'. push_level p c i = (Ok p' :: ('e, merkle_proof) outcome) \<and> length (mp_path p') = Suc (length (mp_path p))"
proof -
  have "length c - 1 < 16" "i \<le> length c - 1" "0 < length c - 1 \<longleftrightarrow> length c \<noteq> 1" using assms by linarith+
  then show ?thesis using assms by (simp add: push_level_def Let_def pack_index_len_def MERKLE_FANOUT_def MERKLE_PATH_CAP_def)
qed

lemma chunk_arith:
  assumes "(r :: nat) < 16" "16 * q + r < n"
  shows "min 16 (n - 16 * q) = 1 \<longleftrightarrow> r = 0 \<and> 16 * q + r + 1 = n" "r < min 16 (n - 16 * q)"
  using assms by (auto simp: min_def)

lemma length_chunk_at:
  assumes "pos < length hs"
  shows "length (chunk_at pos hs) = 1 \<longleftrightarrow> pos mod 16 = 0 \<and> pos + 1 = length hs" "pos mod 16 < length (chunk_at pos hs)"
proof -
  have pos: "16 * (pos div 16) + pos mod 16 = pos" and r: "pos mod 16 < 16" by simp_all
  note chunk_arith[OF r, of "pos div 16" "length hs", unfolded pos, OF assms]
  then show "length (chunk_at pos hs) = 1 \<longleftrightarrow> pos mod 16 = 0 \<and> pos + 1 = length hs" "pos mod 16 < length (chunk_at pos hs)"
    by (simp_all only: length_take length_drop min.commute)
qed

lemma generate_loop_total:
  assumes "pos < length hs" "length (mp_path p) + merkle_depth (length hs) \<le> 16"
  shows "if lonely (length hs) pos then generate_merkle_proof_loop d hs pos p = (Panic :: ('e, merkle_proof) outcome)
    else \<exists>p'. generate_merkle_proof_loop d hs pos p = (Ok p' :: ('e, merkle_proof) outcome)"
  using assms
proof (induction "length hs" arbitrary: hs pos p rule: less_induct)
  case less
  let ?up = "compute_hashes_at_next_level d hs"
  show ?case
  proof (cases "length hs > 1")
    case True
    have i: "pos mod 16 < length (chunk_at pos hs)" by (rule length_chunk_at(2)[OF less.prems(1)])
    have le: "length (chunk_at pos hs) \<le> 16" by simp
    have path: "length (mp_path p) < 16" and rest: "length (mp_path p) + Suc (merkle_depth (length ?up)) \<le> 16"
      using less.prems(2) True by (simp_all add: merkle_depth.simps[of "length hs"] length_next_level)
    note step = generate_loop_step[OF less.prems(1) True, of d p, where 'a = 'e]
    show ?thesis
    proof (cases "length (chunk_at pos hs) = 1")
      case one: True
      then have "push_level p (chunk_at pos hs) (pos mod 16) = (Panic :: ('e, merkle_proof) outcome)"
        using push_level_cases[OF i le path, where 'e = 'e] by argo
      moreover have "lonely (length hs) pos"
        using True iffD1[OF length_chunk_at(1) one] less.prems(1) by (simp add: lonely.simps[of "length hs"])
      ultimately show ?thesis unfolding step by simp
    next
      case more: False
      then obtain q where q: "push_level p (chunk_at pos hs) (pos mod 16) = (Ok q :: ('e, merkle_proof) outcome)"
        "length (mp_path q) = Suc (length (mp_path p))"
        using push_level_cases[OF i le path, where 'e = 'e] by auto
      have "lonely (length hs) pos \<longleftrightarrow> lonely (length ?up) (pos div 16)"
        using True more unfolding length_chunk_at(1)[OF less.prems(1)] length_next_level
        by (auto simp: lonely.simps[of "length hs"])
      then show ?thesis
        unfolding step q(1) using less.hyps[of ?up "pos div 16" q] next_level_nth(1)[OF less.prems(1), of d] True rest q(2)
        by (simp add: length_next_level)
    qed
  next
    case False
    then show ?thesis by (simp add: generate_merkle_proof_loop.simps[of d hs] lonely.simps[of "length hs"])
  qed
qed

section \<open>Positions of accounts\<close>

definition account_rank :: "(hash \<times> hash) list \<Rightarrow> hash \<Rightarrow> nat" where
  "account_rank accounts pubkey = length (filter (\<lambda>a. fst a < pubkey) accounts)"

lemma split_pos_rank:
  assumes "split_pos k xs r"
  shows "length (filter (\<lambda>x. x < k) xs) = r"
proof -
  have "filter (\<lambda>x. x < k) (take r xs) = take r xs"
    using assms by (auto simp: split_pos_def filter_id_conv in_set_conv_nth)
  moreover have "filter (\<lambda>x. x < k) (drop r xs) = []"
    using assms by (auto simp: split_pos_def filter_empty_conv in_set_conv_nth not_less)
  ultimately have "filter (\<lambda>x. x < k) (take r xs @ drop r xs) = take r xs" by (simp only: filter_append append_Nil2)
  then show ?thesis using assms by (simp add: split_pos_def)
qed

lemma account_pos_rank:
  assumes "distinct (map fst accounts)" "(k, h) \<in> set accounts"
  defines "accs \<equiv> sort_key fst accounts"
  shows "account_pos accs k = Some (account_rank accounts k)"
    "account_rank accounts k < length accounts" "accs ! account_rank accounts k = (k, h)"
proof -
  let ?keys = "map fst accs" and ?r = "account_rank accounts k"
  have ms: "mset accs = mset accounts" by (simp add: accs_def)
  then have "mset ?keys = mset (map fst accounts)" by simp
  then have "distinct ?keys" using assms(1) mset_eq_imp_distinct_iff by blast
  moreover have "sorted_wrt (\<le>) ?keys" by (simp add: accs_def)
  ultimately have "sorted_wrt (<) ?keys" by (simp add: strict_sorted_iff)
  then have sp: "split_pos k ?keys (binary_search_pos ?keys k 0 (length ?keys))" by (rule binary_search_split)
  have "size (filter_mset (\<lambda>a. fst a < k) (mset accs)) = ?r"
    unfolding ms account_rank_def by (metis mset_filter size_mset)
  then have r: "binary_search_pos ?keys k 0 (length ?keys) = ?r"
    using split_pos_rank[OF sp] by (simp add: filter_map comp_def flip: mset_filter)
  obtain i where i: "i < length accs" "accs ! i = (k, h)"
    using assms(2) mset_eq_setD[OF ms] by (metis in_set_conv_nth)
  have "\<not> i < ?r" using sp i unfolding r by (auto simp: split_pos_def)
  then have "k \<le> ?keys ! ?r" "?r \<le> i" "?r < length accs" using sp i unfolding r by (auto simp: split_pos_def)
  moreover have "?keys ! ?r \<le> ?keys ! i"
    using sorted_nth_mono[OF \<open>sorted_wrt (\<le>) ?keys\<close> \<open>?r \<le> i\<close>] i by simp
  ultimately have k: "?keys ! ?r = k" using i by simp
  then have "?keys ! ?r = ?keys ! i" using i by simp
  then have "?r = i" using nth_eq_iff_index_eq[OF \<open>distinct ?keys\<close>, of ?r i] i(1) \<open>?r < length accs\<close> by simp
  then show "accs ! ?r = (k, h)" "?r < length accounts" using i by (simp_all add: accs_def)
  then show "account_pos accs k = Some ?r"
    using r k by (simp add: account_pos_def Let_def accs_def)
qed

lemma account_pos_None:
  assumes "k \<notin> fst ` set accounts"
  shows "account_pos (sort_key fst accounts) k = None"
proof -
  have "map fst (sort_key fst accounts) ! p \<noteq> k" if "p < length accounts" for p
  proof -
    have "sort_key fst accounts ! p \<in> set accounts" using nth_mem[of p "sort_key fst accounts"] that by simp
    then show ?thesis using assms that by force
  qed
  then show ?thesis by (simp add: account_pos_def Let_def)
qed

section \<open>Proofs of accounts\<close>

lemma merkle_ok_default [simp]: "merkle_ok merkle_proof_default"
  by (simp add: merkle_ok_def merkle_proof_default_def)

lemma mp_path_default: "mp_path merkle_proof_default = []"
  by (simp add: merkle_proof_default_def)

lemma expected_root_default [simp]: "expected_root d merkle_proof_default h = Ok h"
  by (simp add: expected_root_def levels_def merkle_proof_default_def expected_root_Nil)

lemma compute_merkle_root_levels:
  "2 \<le> length accounts \<Longrightarrow> compute_merkle_root d accounts = tree_root d (map snd accounts)"
  by (simp add: compute_merkle_root_tree tree_root_level[of "map snd accounts"])

text \<open>
  Proofs made by \<open>generate_merkle_proof\<close> for a position in a list of at least two accounts: the code
  panics where a node above the position is alone in its chunk, and otherwise the proof is good
  for the root.
\<close>

lemma generate_merkle_proof_spec:
  assumes "pos < length accounts" "2 \<le> length accounts" "length accounts < 2 ^ 64"
  shows "if lonely (length accounts) pos then generate_merkle_proof d accounts pos = (Panic :: ('e, merkle_proof) outcome)
    else \<exists>p. generate_merkle_proof d accounts pos = (Ok p :: ('e, merkle_proof) outcome) \<and> merkle_ok p \<and>
      expected_root d p (snd (accounts ! pos)) = (Ok (compute_merkle_root d accounts) :: ('e, hash) outcome)"
proof -
  let ?hs = "map snd accounts"
  have "merkle_depth (length ?hs) \<le> 16" using assms(3) by (intro merkle_depth_le) simp
  then have T: "if lonely (length accounts) pos then generate_merkle_proof d accounts pos = (Panic :: ('e, merkle_proof) outcome)
      else \<exists>p. generate_merkle_proof d accounts pos = (Ok p :: ('e, merkle_proof) outcome)"
    using generate_loop_total[of pos ?hs merkle_proof_default d, where 'e = 'e] assms(1)
    by (simp add: generate_merkle_proof_def mp_path_default)
  have "merkle_ok p \<and> expected_root d p (snd (accounts ! pos)) = (Ok (compute_merkle_root d accounts) :: ('e, hash) outcome)"
    if "generate_merkle_proof d accounts pos = (Ok p :: ('e, merkle_proof) outcome)" for p
    using generate_loop_root[of d ?hs pos merkle_proof_default p "snd (accounts ! pos)"] that assms(1)
    by (simp add: generate_merkle_proof_def compute_merkle_root_levels[OF assms(2)])
  then show ?thesis using T by (cases "lonely (length accounts) pos") (simp_all, blast)
qed

text \<open>The hash of an account, computed through a buffer, is that of \<open>AccountHashData\<close>.\<close>

lemma hash_account_eq:
  assumes "lamports \<noteq> 0" "length owner = 32" "length pubkey = 32"
  shows "hash_account b3 lamports owner executable rent_epoch data pubkey =
    Ok (ahd_calculate_hash b3 (account_hash_data_new lamports owner executable rent_epoch data pubkey))"
  using assms
  by (simp add: hash_account_def buffer_extend_def HASH_BUFFER_SIZE_def ahd_calculate_hash_def account_hash_data_new_def)

lemma account_hash_data_fields:
  fixes executable :: bool and data :: "byte list"
  assumes "length owner = 32" "length pubkey = 32" "lamports < 2 ^ 64" "rent_epoch < 2 ^ 64"
  defines "this \<equiv> account_hash_data_new lamports owner executable rent_epoch data pubkey"
  shows "ahd_lamports this = lamports" "ahd_rent_epoch this = rent_epoch" "ahd_data this = data"
    "ahd_executable this = executable" "ahd_owner this = owner" "ahd_key this = pubkey"
    "account_hash_data_try_from this = Ok this"
proof -
  have len: "length this = 81 + length data"
    using assms(1,2) by (simp add: this_def account_hash_data_new_def)
  have th: "this = to_le 8 lamports @ to_le 8 rent_epoch @ data @ [bool_byte executable] @ owner @ pubkey"
    by (simp add: this_def account_hash_data_new_def)
  show "ahd_lamports this = lamports" "ahd_rent_epoch this = rent_epoch"
    using assms(3,4) by (simp_all add: ahd_lamports_def ahd_rent_epoch_def ahd_get_def th)
  show "ahd_data this = data" using len by (simp add: ahd_data_def th)
  show "ahd_executable this = executable" using assms(1,2) by (simp add: ahd_executable_def th nth_append bool_byte_def)
  show "ahd_owner this = owner" using assms(1,2) by (simp add: ahd_owner_def ahd_get_def th)
  show "ahd_key this = pubkey" using assms(1,2) by (simp add: ahd_key_def ahd_get_def th)
  show "account_hash_data_try_from this = Ok this" using len by (simp add: account_hash_data_try_from_def length_for_def)
qed

section \<open>Round trips of the binary formats\<close>

lemma chunk_list_concat: "(\<forall>c \<in> set cs. length c = n) \<Longrightarrow> chunk_list n (length cs) (concat cs) = cs"
  by (induction cs) auto

lemma length_concat_chunks: "(\<forall>c \<in> set cs. length c = n) \<Longrightarrow> length (concat cs) = length cs * n"
  by (induction cs) auto

lemma as_chunks_concat_id: "(\<forall>c \<in> set cs. length c = n) \<Longrightarrow> 0 < n \<Longrightarrow> as_chunks n (concat cs) = (cs, [])"
  using chunk_list_concat[of cs n] length_concat_chunks[of cs n] by (simp add: as_chunks_def Let_def)

lemma merkle_binary_roundtrip:
  assumes "merkle_ok p" "\<forall>s \<in> set (mp_siblings p). length s = 32"
  shows "merkle_from_binary (merkle_to_binary p) = (Ok (Some p) :: ('e, merkle_proof option) outcome)"
proof -
  have "length (mp_path p) < 256" using assms(1) by (simp add: merkle_ok_def MERKLE_PATH_CAP_def)
  moreover have "sum_lens (mp_path p) = (Ok (length (mp_siblings p)) :: ('e, nat) outcome)"
    using assms(1) sum_lens_any by (auto simp: merkle_ok_def)
  ultimately show ?thesis
    using assms(1) as_chunks_concat_id[OF assms(2)]
    by (simp add: merkle_from_binary_def merkle_to_binary_def unat_byte_of_nat split_at_checked_def merkle_ok_def)
qed

definition delta_ok :: "delta_hash_proof \<Rightarrow> bool" where
  "delta_ok p \<longleftrightarrow>
     length (dp_parent_blockhash p) = 32 \<and> length (dp_accounts_delta_hash p) = 32 \<and> length (dp_blockhash p) = 32 \<and>
     dp_num_sigs p < 2 ^ 64 \<and> (\<forall>h. dp_epoch_accounts_hash p = Some h \<longrightarrow> length h = 32)"

lemma delta_binary_roundtrip: "delta_ok p \<Longrightarrow> delta_from_binary (delta_to_binary p) = Some p"
  by (cases "dp_epoch_accounts_hash p")
    (auto simp: delta_ok_def delta_from_binary_def delta_to_binary_def delta_from_short_def intro: delta_hash_proof.equality)

text \<open>Bytes that decode to a proof encode back to the same bytes.\<close>

lemma merkle_binary_canonical:
  assumes "merkle_from_binary bs = (Ok (Some p) :: ('e, merkle_proof option) outcome)"
  shows "merkle_to_binary p = bs" "merkle_ok p" "\<forall>s \<in> set (mp_siblings p). length s = 32"
proof -
  obtain depth rest where bs: "bs = depth # rest" using assms by (cases bs) (auto simp: merkle_from_binary_def)
  let ?path = "take (unat depth) rest" and ?tail = "drop (unat depth) rest"
  obtain cs r where c: "as_chunks 32 ?tail = (cs, r)" by fastforce
  have d: "unat depth \<le> length rest" "length ?path \<le> MERKLE_PATH_CAP"
    using assms by (auto simp: merkle_from_binary_def bs split_at_checked_def split: if_splits)
  with assms c have "bind_outcome (sum_lens ?path) (\<lambda>n. Ok (if r = [] \<and> length cs = n
      then Some \<lparr>mp_path = ?path, mp_siblings = cs\<rparr> else None)) = (Ok (Some p) :: ('e, merkle_proof option) outcome)"
    by (simp add: merkle_from_binary_def bs split_at_checked_def)
  then obtain n where n: "sum_lens ?path = (Ok n :: ('e, nat) outcome)" "r = []" "length cs = n"
    and p: "p = \<lparr>mp_path = ?path, mp_siblings = cs\<rparr>"
    by (auto simp: bind_outcome_Ok split: if_splits)
  have "concat cs = ?tail" using as_chunks_concat[OF c] n(2) by simp
  then show "merkle_to_binary p = bs" using d(1) by (simp add: merkle_to_binary_def p bs)
  show "merkle_ok p" using d(2) n sum_lens_any[OF n(1)] by (simp add: merkle_ok_def p)
  let ?k = "length ?tail div 32"
  have "s \<in> set cs \<Longrightarrow> length s = 32" for s
    using chunk_list_lengths[of ?k 32 "take (?k * 32) ?tail" s] c
    by (simp add: as_chunks_def Let_def div_times_less_eq_dividend del: take_drop)
  then show "\<forall>s \<in> set (mp_siblings p). length s = 32" by (simp add: p)
qed

section \<open>What a root says\<close>

text \<open>
  Two proofs with the same path and the same root are for the same account and have the same
  siblings, if the digest has no collision among the byte strings hashed on the way up.
\<close>

fun root_preimages :: "(byte list \<Rightarrow> hash) \<Rightarrow> byte list \<Rightarrow> hash list \<Rightarrow> hash \<Rightarrow> byte list set" where
  "root_preimages d [] s h = {}"
| "root_preimages d (b # path) s h =
     (case unpack_index_len b :: (unit, nat \<times> nat) outcome of
        Ok (i, l) \<Rightarrow>
          (let x = concat (take i (take l s)) @ h @ concat (drop i (take l s))
           in insert x (root_preimages d path (drop l s) (d x)))
      | _ \<Rightarrow> {})"

lemma concat_split_eq:
  assumes "concat xs @ (x :: byte list) @ concat xs' = concat ys @ y @ concat ys'" "length xs = length ys" "length x = length y"
    "\<forall>c \<in> set (xs @ xs' @ ys @ ys'). length c = 32" "length xs' = length ys'"
  shows "xs = ys \<and> x = y \<and> xs' = ys'"
proof -
  have len: "length (concat xs) = length (concat ys)"
    using assms(2,4) length_concat_chunks[of xs 32] length_concat_chunks[of ys 32] by simp
  have a: "concat xs = concat ys \<and> x @ concat xs' = y @ concat ys'"
    by (rule iffD1[OF append_eq_append_conv[OF disjI1[OF len]] assms(1)])
  have e: "x = y \<and> concat xs' = concat ys'"
    by (rule iffD1[OF append_eq_append_conv[OF disjI1[OF assms(3)]] conjunct2[OF a]])
  have "chunk_list 32 (length xs) (concat xs) = xs" "chunk_list 32 (length ys) (concat ys) = ys"
    "chunk_list 32 (length xs') (concat xs') = xs'" "chunk_list 32 (length ys') (concat ys') = ys'"
    using assms(4) by (intro chunk_list_concat; auto)+
  then show ?thesis using a e assms(2,5) by metis
qed

lemma expected_root_binds_loop:
  assumes "expected_root_loop d (lv path s) h = (Ok r :: ('e, hash) outcome)"
    "expected_root_loop d (lv path t) k = (Ok r :: ('e, hash) outcome)"
    "inj_on d (root_preimages d path s h \<union> root_preimages d path t k)"
    "length h = 32" "length k = 32" "\<forall>c \<in> set s \<union> set t. length c = 32" "\<And>bs. length (d bs) = 32"
  shows "h = k \<and> s = t"
  using assms(1-6)
proof (induction path arbitrary: s t h k)
  case Nil
  then show ?case
    by (simp add: expected_root_loop.simps[of d "lv [] s"] expected_root_loop.simps[of d "lv [] t"] proof_levels_next_def split: if_splits)
next
  case (Cons b path)
  obtain i l where u: "unpack_index_len b = (Ok (i, l) :: ('e, nat \<times> nat) outcome)" "l \<le> length s" "l \<le> length t"
    using Cons.prems(1,2)
    by (auto simp: expected_root_loop.simps[of d "lv (b # path) s"] expected_root_loop.simps[of d "lv (b # path) t"]
        proof_levels_next_def bind_outcome_Ok split: if_splits)
  have i: "i \<le> l" using u(1) by (auto simp: unpack_index_len_def Let_def split: if_splits)
  let ?x = "\<lambda>s h. concat (take i (take l s)) @ h @ concat (drop i (take l s))"
  have pre: "root_preimages d (b # path) s h = insert (?x s h) (root_preimages d path (drop l s) (d (?x s h)))"
    for s h by (simp only: root_preimages.simps unpack_Ok_any[OF u(1), where 'f = unit] outcome.case prod.case Let_def)
  have inj: "inj_on d (insert (?x s h) (root_preimages d path (drop l s) (d (?x s h))) \<union>
      insert (?x t k) (root_preimages d path (drop l t) (d (?x t k))))"
    using Cons.prems(3) unfolding pre .
  have "d (?x s h) = d (?x t k) \<and> drop l s = drop l t"
  proof (rule Cons.IH)
    show "expected_root_loop d (lv path (drop l s)) (d (?x s h)) = (Ok r :: ('e, hash) outcome)"
      "expected_root_loop d (lv path (drop l t)) (d (?x t k)) = (Ok r :: ('e, hash) outcome)"
      using Cons.prems(1,2) unfolding expected_root_Cons[OF u(1,2)] expected_root_Cons[OF u(1,3)] .
    show "inj_on d (root_preimages d path (drop l s) (d (?x s h)) \<union> root_preimages d path (drop l t) (d (?x t k)))"
      by (rule inj_on_subset[OF inj]) blast
    show "\<forall>c \<in> set (drop l s) \<union> set (drop l t). length c = 32" using Cons.prems(6) by (auto dest: in_set_dropD)
  qed (rule assms(7))+
  then have r: "drop l s = drop l t" and "d (?x s h) = d (?x t k)" by blast+
  then have e: "?x s h = ?x t k" by (elim inj_onD[OF inj]) blast+
  have "take i (take l s) = take i (take l t) \<and> h = k \<and> drop i (take l s) = drop i (take l t)"
    by (intro concat_split_eq[OF e]) (use Cons.prems(4-6) u(2,3) i in \<open>auto dest: in_set_takeD in_set_dropD\<close>)
  then have "h = k \<and> take l s = take l t" by (metis append_take_drop_id)
  then show ?case using r by (metis append_take_drop_id)
qed

section \<open>Generated proofs\<close>

lemma next_level_lengths:
  "(\<And>bs. length (d bs) = 32) \<Longrightarrow> \<forall>h \<in> set (compute_hashes_at_next_level d hs). length h = 32"
  by (auto simp: compute_hashes_at_next_level_def)

lemma push_level_siblings:
  assumes "push_level p c i = Ok q"
  shows "set (mp_siblings q) \<subseteq> set (mp_siblings p) \<union> set c"
proof -
  have "mp_siblings q = mp_siblings p @ take i c @ drop (i + 1) c"
    using assms by (auto simp: push_level_def bind_outcome_Ok siblings_of_chunk split: if_splits)
  then show ?thesis using set_take_subset[of i c] set_drop_subset[of "i + 1" c] by auto
qed

lemma generate_loop_siblings:
  assumes "generate_merkle_proof_loop d hs pos p = (Ok p' :: ('e, merkle_proof) outcome)" "pos < length hs"
    "\<forall>h \<in> set (mp_siblings p) \<union> set hs. length h = 32" "\<And>bs. length (d bs) = 32"
  shows "\<forall>s \<in> set (mp_siblings p'). length s = 32"
  using assms(1-3)
proof (induction "length hs" arbitrary: hs pos p rule: less_induct)
  case less
  show ?case
  proof (cases "length hs > 1")
    case True
    then obtain q where q: "push_level p (chunk_at pos hs) (pos mod 16) = (Ok q :: ('e, merkle_proof) outcome)"
      and loop: "generate_merkle_proof_loop d (compute_hashes_at_next_level d hs) (pos div 16) q = (Ok p' :: ('e, merkle_proof) outcome)"
      using less.prems(1) unfolding generate_loop_step[OF less.prems(2) True] bind_outcome_Ok by blast
    have "\<forall>h \<in> set (mp_siblings q). length h = 32"
      using push_level_siblings[OF q] less.prems(3) set_take_subset set_drop_subset by fastforce
    then have "\<forall>h \<in> set (mp_siblings q) \<union> set (compute_hashes_at_next_level d hs). length h = 32"
      using next_level_lengths[of d hs, OF assms(4)] by blast
    moreover have "length (compute_hashes_at_next_level d hs) < length hs" using True by (simp add: length_next_level)
    ultimately show ?thesis using less.hyps[OF _ loop next_level_nth(1)[OF less.prems(2)]] by blast
  next
    case False
    then show ?thesis using less.prems by (simp add: generate_merkle_proof_loop.simps[of d hs])
  qed
qed

lemma merkle_generate_spec:
  assumes "distinct (map fst accounts)" "(k, h) \<in> set accounts" "2 \<le> length accounts" "length accounts < 2 ^ 64"
  shows "if lonely (length accounts) (account_rank accounts k)
    then snd (merkle_generate d accounts k) = (Panic :: ('e, (hash \<times> merkle_proof) option) outcome)
    else \<exists>p. snd (merkle_generate d accounts k) =
        (Ok (Some (compute_merkle_root d (sort_key fst accounts), p)) :: ('e, (hash \<times> merkle_proof) option) outcome) \<and>
      merkle_ok p \<and> expected_root d p h = (Ok (compute_merkle_root d (sort_key fst accounts)) :: ('e, hash) outcome) \<and>
      ((\<forall>bs. length (d bs) = 32) \<longrightarrow> (\<forall>a \<in> set accounts. length (snd a) = 32) \<longrightarrow> (\<forall>s \<in> set (mp_siblings p). length s = 32))"
proof -
  note pos = account_pos_rank[OF assms(1,2)]
  let ?r = "account_rank accounts k" and ?accs = "sort_key fst accounts"
  have "if lonely (length accounts) ?r then generate_merkle_proof d ?accs ?r = (Panic :: ('e, merkle_proof) outcome)
    else \<exists>p. generate_merkle_proof d ?accs ?r = (Ok p :: ('e, merkle_proof) outcome) \<and> merkle_ok p \<and>
      expected_root d p h = (Ok (compute_merkle_root d ?accs) :: ('e, hash) outcome)"
    using generate_merkle_proof_spec[of ?r ?accs d, where 'e = 'e] assms(3,4) pos(2)
    unfolding pos(3) snd_conv length_sort by blast
  moreover have "\<forall>s \<in> set (mp_siblings p). length s = 32"
    if "generate_merkle_proof d ?accs ?r = (Ok p :: ('e, merkle_proof) outcome)"
      "\<forall>bs. length (d bs) = 32" "\<forall>a \<in> set accounts. length (snd a) = 32" for p
    using generate_loop_siblings[of d "map snd ?accs" ?r merkle_proof_default p, where 'e = 'e] that pos(2)
    by (auto simp: generate_merkle_proof_def merkle_proof_default_def)
  ultimately show ?thesis
    by (cases "lonely (length accounts) ?r") (auto simp: merkle_generate_def Let_def pos(1))
qed

text \<open>
  C17: A proof generated for one of several accounts with different keys is for the Merkle
  root of the accounts in the order of their keys: from the hash of the account the proof
  computes the root that is returned with it, and the proof survives its binary format. The code
  panics instead when a node above the account is alone in its chunk of the tree.
\<close>

theorem merkle_proof_valid:
  assumes "distinct (map fst accounts)" "(k, h) \<in> set accounts" "2 \<le> length accounts" "length accounts < 2 ^ 64"
    "\<forall>bs. length (d bs) = 32" "\<forall>a \<in> set accounts. length (snd a) = 32"
  shows "if lonely (length accounts) (account_rank accounts k)
    then snd (merkle_generate d accounts k) = (Panic :: (unit, (hash \<times> merkle_proof) option) outcome)
    else \<exists>p. merkle_generate d accounts k =
        (sort_key fst accounts, Ok (Some (compute_merkle_root d (sort_key fst accounts), p)) :: (unit, (hash \<times> merkle_proof) option) outcome) \<and>
      expected_root d p h = (Ok (compute_merkle_root d (sort_key fst accounts)) :: (unit, hash) outcome) \<and>
      merkle_from_binary (merkle_to_binary p) = (Ok (Some p) :: (unit, merkle_proof option) outcome)"
proof -
  have "fst (merkle_generate d accounts k) = sort_key fst accounts" by (simp add: merkle_generate_def Let_def)
  then show ?thesis
    using merkle_generate_spec[OF assms(1-4), of d, where 'e = unit] assms(5,6) merkle_binary_roundtrip[where 'e = unit]
    by (cases "lonely (length accounts) (account_rank accounts k)") (auto simp: prod_eq_iff)
qed

theorem merkle_proof_valid_witness:
  "\<exists>p. merkle_generate (\<lambda>bs. replicate 32 (hd bs)) [([9], replicate 32 1), ([3], replicate 32 2)] [9] =
     ([([3], replicate 32 2), ([9], replicate 32 1)],
      Ok (Some (replicate 32 2, p)) :: (unit, (hash \<times> merkle_proof) option) outcome)"
proof -
  let ?d = "\<lambda>bs :: byte list. replicate 32 (hd bs)" and ?a = "[([9 :: byte], replicate 32 1), ([3], replicate 32 2)]"
  have s: "sort_key fst ?a = [([3], replicate 32 2), ([9], replicate 32 1)]" by (simp add: list_le_def)
  have r: "account_rank ?a [9] = 1" by (simp add: account_rank_def)
  have l: "\<not> lonely 2 1" by (simp add: lonely.simps)
  have c: "compute_merkle_root ?d [([3], replicate 32 2), ([9], replicate 32 1)] = replicate 32 2"
    by (simp add: compute_merkle_root_def par_chunks.simps MERKLE_FANOUT_def merkle_root_loop.simps)
  have n: "length ?a = 2" by simp
  have "distinct (map fst ?a)" "([9], replicate 32 1) \<in> set ?a" "2 \<le> length ?a" "length ?a < 2 ^ 64"
    "\<forall>bs. length (?d bs) = 32" "\<forall>a \<in> set ?a. length (snd a) = 32" by simp_all
  from merkle_proof_valid[OF this] l show ?thesis unfolding s r c n by (simp only: if_False) blast
qed

end
