(* ===== verification/Sol_Client.thy ===== *)
theory Sol_Client
  imports Guest_Steps Sol_Proof Solana_Alloc
begin

text \<open>
  The light client of a Solana rollup, \<^verbatim>\<open>common/cf-solana/src/{client,consensus,header,misbehaviour,message}.rs\<close>
  and \<^verbatim>\<open>client/impls.rs\<close>. A header carries the hash of a bank, the proof of the hash of the accounts
  the slot has changed, and the proof of the witness account that holds the root of the trie; the client
  checks that they fit together. Numbers the code declares as not zero are natural numbers.
  SHA-256 and Blake3 are the parameters \<open>d\<close> and \<open>b3\<close>; the protobuf messages are records of
  their fields and their wire format is a parameter.
\<close>

section \<open>States and headers\<close>

record sol_client =
  sc_latest_slot :: nat
  sc_witness_account :: hash
  sc_trusting_period_ns :: nat
  sc_is_frozen :: bool

record sol_consensus =
  so_trie_root :: "byte list"
  so_timestamp_sec :: nat

record sol_header =
  sh_slot :: nat
  sh_bank_hash :: hash
  sh_delta_hash_proof :: delta_hash_proof
  sh_witness_proof :: account_proof

definition sol_with_header :: "sol_header \<Rightarrow> sol_client \<Rightarrow> sol_client" where
  "sol_with_header hdr this = this\<lparr>sc_latest_slot := max (sc_latest_slot this) (sh_slot hdr)\<rparr>"

definition sol_frozen :: "sol_client \<Rightarrow> sol_client" where
  "sol_frozen this = this\<lparr>sc_is_frozen := True\<rparr>"

definition sol_consensus_new :: "hash \<Rightarrow> nat \<Rightarrow> sol_consensus" where
  "sol_consensus_new trie_root timestamp_sec = \<lparr>so_trie_root = trie_root, so_timestamp_sec = timestamp_sec\<rparr>"

text \<open>
  \<open>ConsensusState::timestamp\<close>: the product overflows for times that do not fit in 64 bits, which
  panics in a build that checks for overflow, as the programs are built.
\<close>

definition sol_timestamp :: "sol_consensus \<Rightarrow> ('e, nat) outcome" where
  "sol_timestamp this =
     (let ns = so_timestamp_sec this * 1000000000 in if ns < 2 ^ 64 then Ok ns else Panic)"

definition ibc_slot_height :: "sol_header \<Rightarrow> ('e, ibc_height) outcome" where
  "ibc_slot_height this = (case height_new 1 (u64 (sh_slot this)) of Ok h \<Rightarrow> Ok h | _ \<Rightarrow> Panic)"

definition decode_witness :: "sol_header \<Rightarrow> (hash \<times> nat) option" where
  "decode_witness this =
     (let data = ahd_data (ap_account_hash_data (sh_witness_proof this)) in
      if length data = 40 then
        (let (root, rest) = split_array 32 data in
         if rest ! 7 = 0 then
           (let timestamp = unat ((word_of_nat (from_le rest) :: 64 word) AND 0xffffffffffff) in
            if timestamp = 0 then None else Some (root, timestamp))
         else None)
      else None)"

definition sol_consensus_from_header :: "sol_header \<Rightarrow> (bad_message, sol_consensus) outcome" where
  "sol_consensus_from_header hdr =
     bind_outcome (ok_or BadMessage (decode_witness hdr)) (\<lambda>(trie_root, timestamp_sec).
       Ok (sol_consensus_new trie_root timestamp_sec))"

section \<open>Protobuf messages\<close>

record sol_proto_client =
  spc_latest_slot :: nat
  spc_witness_account :: "byte list"
  spc_trusting_period_ns :: nat
  spc_is_frozen :: bool

definition sol_client_to_proto :: "sol_client \<Rightarrow> sol_proto_client" where
  "sol_client_to_proto state =
     \<lparr>spc_latest_slot = sc_latest_slot state, spc_witness_account = sc_witness_account state,
      spc_trusting_period_ns = sc_trusting_period_ns state, spc_is_frozen = sc_is_frozen state\<rparr>"

definition sol_client_from_proto :: "sol_proto_client \<Rightarrow> (bad_message, sol_client) outcome" where
  "sol_client_from_proto msg =
     (if spc_latest_slot msg = 0 then Err BadMessage
      else
        bind_outcome (make_hash (spc_witness_account msg)) (\<lambda>witness_account.
          Ok \<lparr>sc_latest_slot = spc_latest_slot msg, sc_witness_account = witness_account,
              sc_trusting_period_ns = spc_trusting_period_ns msg, sc_is_frozen = spc_is_frozen msg\<rparr>))"

record sol_proto_consensus =
  spo_trie_root :: "byte list"
  spo_timestamp_sec :: nat

definition sol_consensus_to_proto :: "sol_consensus \<Rightarrow> sol_proto_consensus" where
  "sol_consensus_to_proto state =
     \<lparr>spo_trie_root = so_trie_root state, spo_timestamp_sec = so_timestamp_sec state\<rparr>"

definition sol_consensus_from_proto :: "sol_proto_consensus \<Rightarrow> (bad_message, sol_consensus) outcome" where
  "sol_consensus_from_proto msg =
     (if length (spo_trie_root msg) \<noteq> 32 then Err BadMessage
      else if spo_timestamp_sec msg = 0 then Err BadMessage
      else Ok \<lparr>so_trie_root = spo_trie_root msg, so_timestamp_sec = spo_timestamp_sec msg\<rparr>)"

record sol_proto_header =
  sph_slot :: nat
  sph_bank_hash :: "byte list"
  sph_delta_hash_proof :: "byte list"
  sph_account_hash_data :: "byte list"
  sph_account_merkle_proof :: "byte list"

definition sol_header_to_proto :: "sol_header \<Rightarrow> sol_proto_header" where
  "sol_header_to_proto hdr =
     \<lparr>sph_slot = sh_slot hdr, sph_bank_hash = sh_bank_hash hdr,
      sph_delta_hash_proof = delta_to_binary (sh_delta_hash_proof hdr),
      sph_account_hash_data = ap_account_hash_data (sh_witness_proof hdr),
      sph_account_merkle_proof = merkle_to_binary (ap_proof (sh_witness_proof hdr))\<rparr>"

text \<open>The macro \<open>pick!\<close>: a field of the message, or of the base where it is empty.\<close>

definition pick_field ::
  "sol_proto_header \<Rightarrow> sol_proto_header option \<Rightarrow> (sol_proto_header \<Rightarrow> byte list) \<Rightarrow> (bad_message, byte list) outcome" where
  "pick_field msg base field =
     (if field msg \<noteq> [] then Ok (field msg)
      else case base of
        Some msg \<Rightarrow> if field msg \<noteq> [] then Ok (field msg) else Err BadMessage
      | None \<Rightarrow> Err BadMessage)"

definition sol_header_try_from_proto ::
  "sol_proto_header \<Rightarrow> byte list option \<Rightarrow> sol_proto_header option \<Rightarrow> (bad_message, sol_header) outcome" where
  "sol_header_try_from_proto msg account_hash_data base =
     bind_outcome
       (if sph_slot msg \<noteq> 0 then Ok (sph_slot msg)
        else case base of
          Some msg \<Rightarrow> if sph_slot msg \<noteq> 0 then Ok (sph_slot msg) else Err BadMessage
        | None \<Rightarrow> Err BadMessage) (\<lambda>slot.
     bind_outcome (pick_field msg base sph_bank_hash) (\<lambda>bank_hash.
     bind_outcome (make_hash bank_hash) (\<lambda>bank_hash.
     bind_outcome (pick_field msg base sph_delta_hash_proof) (\<lambda>delta_hash_proof.
     bind_outcome (ok_or BadMessage (delta_from_binary delta_hash_proof)) (\<lambda>delta_hash_proof.
     bind_outcome
       (case account_hash_data of
          Some bytes \<Rightarrow> Ok bytes
        | None \<Rightarrow> pick_field msg base sph_account_hash_data) (\<lambda>account_hash_data.
     bind_outcome (map_error (\<lambda>_. BadMessage) (account_hash_data_try_from account_hash_data)) (\<lambda>account_hash_data.
     bind_outcome (pick_field msg base sph_account_merkle_proof) (\<lambda>pr.
     bind_outcome (merkle_from_binary pr) (\<lambda>pr.
     bind_outcome (ok_or BadMessage pr) (\<lambda>pr.
       Ok \<lparr>sh_slot = slot, sh_bank_hash = bank_hash, sh_delta_hash_proof = delta_hash_proof,
           sh_witness_proof = \<lparr>ap_account_hash_data = account_hash_data, ap_proof = pr\<rparr>\<rparr>))))))))))"

text \<open>\<open>TryFrom<proto::Header>\<close> and \<open>TryFrom<&proto::Header>\<close>.\<close>

definition sol_header_from_owned :: "sol_proto_header \<Rightarrow> (bad_message, sol_header) outcome" where
  "sol_header_from_owned msg =
     sol_header_try_from_proto (msg\<lparr>sph_account_hash_data := []\<rparr>) (Some (sph_account_hash_data msg)) None"

definition sol_header_from_ref :: "sol_proto_header \<Rightarrow> (bad_message, sol_header) outcome" where
  "sol_header_from_ref msg = sol_header_try_from_proto msg None None"

record sol_misbehaviour =
  sm_header1 :: sol_header
  sm_header2 :: sol_header

record sol_proto_misbehaviour =
  spm_header1 :: "sol_proto_header option"
  spm_header2 :: "sol_proto_header option"

text \<open>
  \<open>proto::Misbehaviour::new\<close>. Its macro compares and clears the bank hash whatever field it is
  called for, so the three calls after the first one find the bank hash of the second header cleared.
\<close>

definition dedup_bank_hash :: "sol_proto_header \<Rightarrow> sol_proto_header \<Rightarrow> sol_proto_header" where
  "dedup_bank_hash hdr1 hdr2 =
     (if sph_bank_hash hdr1 = sph_bank_hash hdr2 then hdr2\<lparr>sph_bank_hash := []\<rparr> else hdr2)"

definition sol_proto_misbehaviour_new :: "sol_proto_header \<Rightarrow> sol_proto_header \<Rightarrow> sol_proto_misbehaviour" where
  "sol_proto_misbehaviour_new header1 header2 =
     (let header2 = dedup_bank_hash header1 header2;
          header2 = dedup_bank_hash header1 header2;
          header2 = dedup_bank_hash header1 header2;
          header2 = dedup_bank_hash header1 header2
      in \<lparr>spm_header1 = Some header1, spm_header2 = Some header2\<rparr>)"

definition sol_misbehaviour_to_proto :: "sol_misbehaviour \<Rightarrow> sol_proto_misbehaviour" where
  "sol_misbehaviour_to_proto msg =
     sol_proto_misbehaviour_new (sol_header_to_proto (sm_header1 msg)) (sol_header_to_proto (sm_header2 msg))"

definition sol_misbehaviour_from_owned :: "sol_proto_misbehaviour \<Rightarrow> (bad_message, sol_misbehaviour) outcome" where
  "sol_misbehaviour_from_owned msg =
     bind_outcome (ok_or BadMessage (spm_header1 msg)) (\<lambda>header1.
     bind_outcome (ok_or BadMessage (spm_header2 msg)) (\<lambda>header2.
     bind_outcome
       (sol_header_try_from_proto (header2\<lparr>sph_account_hash_data := []\<rparr>) (Some (sph_account_hash_data header2)) (Some header1))
       (\<lambda>header2.
     bind_outcome (sol_header_from_owned header1) (\<lambda>header1.
       Ok \<lparr>sm_header1 = header1, sm_header2 = header2\<rparr>))))"

definition sol_misbehaviour_from_ref :: "sol_proto_misbehaviour \<Rightarrow> (bad_message, sol_misbehaviour) outcome" where
  "sol_misbehaviour_from_ref msg =
     bind_outcome (ok_or BadMessage (spm_header1 msg)) (\<lambda>header1.
     bind_outcome (ok_or BadMessage (spm_header2 msg)) (\<lambda>header2.
     bind_outcome (sol_header_try_from_proto header2 None (Some header1)) (\<lambda>header2.
     bind_outcome (sol_header_from_ref header1) (\<lambda>header1.
       Ok \<lparr>sm_header1 = header1, sm_header2 = header2\<rparr>))))"

datatype sol_message = SolHeader sol_header | SolMisbehaviour sol_misbehaviour

datatype sol_proto_message = SolProtoHeader sol_proto_header | SolProtoMisbehaviour sol_proto_misbehaviour

definition sol_message_to_proto :: "sol_message \<Rightarrow> sol_proto_message option" where
  "sol_message_to_proto msg =
     Some (case msg of
       SolHeader h \<Rightarrow> SolProtoHeader (sol_header_to_proto h)
     | SolMisbehaviour m \<Rightarrow> SolProtoMisbehaviour (sol_misbehaviour_to_proto m))"

definition sol_message_try_from :: "sol_proto_message option \<Rightarrow> (bad_message, sol_message) outcome" where
  "sol_message_try_from msg =
     (case msg of
        None \<Rightarrow> Err BadMessage
      | Some (SolProtoHeader h) \<Rightarrow> bind_outcome (sol_header_from_ref h) (\<lambda>h. Ok (SolHeader h))
      | Some (SolProtoMisbehaviour m) \<Rightarrow>
          bind_outcome (sol_misbehaviour_from_ref m) (\<lambda>m. Ok (SolMisbehaviour m)))"

text \<open>
  Messages in an \<open>Any\<close>: \<open>prost\<close>'s encoders and decoders of the messages are the fields of
  a record, the type URLs are those of the package \<^verbatim>\<open>lightclients.solana.v1\<close>.
\<close>

datatype decode_error = DeBadProto | DeBadMessage | DeBadType

record sol_wire =
  sw_header_enc :: "sol_proto_header \<Rightarrow> byte list"
  sw_misbehaviour_enc :: "sol_proto_misbehaviour \<Rightarrow> byte list"
  sw_message_dec :: "byte list \<Rightarrow> sol_proto_message option option"
  sw_header_dec :: "byte list \<Rightarrow> sol_proto_header option"
  sw_misbehaviour_dec :: "byte list \<Rightarrow> sol_proto_misbehaviour option"

definition SOL_MESSAGE_URL :: string where "SOL_MESSAGE_URL = ''/lightclients.solana.v1.ClientMessage''"
definition SOL_HEADER_URL :: string where "SOL_HEADER_URL = ''/lightclients.solana.v1.Header''"
definition SOL_MISBEHAVIOUR_URL :: string where "SOL_MISBEHAVIOUR_URL = ''/lightclients.solana.v1.Misbehaviour''"

definition ends_with :: "string \<Rightarrow> string \<Rightarrow> bool" where
  "ends_with s t \<longleftrightarrow> length t \<le> length s \<and> drop (length s - length t) s = t"

definition sol_message_to_any :: "sol_wire \<Rightarrow> sol_message \<Rightarrow> string \<times> byte list" where
  "sol_message_to_any W msg =
     (case msg of
        SolHeader h \<Rightarrow> (SOL_HEADER_URL, sw_header_enc W (sol_header_to_proto h))
      | SolMisbehaviour m \<Rightarrow> (SOL_MISBEHAVIOUR_URL, sw_misbehaviour_enc W (sol_misbehaviour_to_proto m)))"

definition sol_message_from_any :: "sol_wire \<Rightarrow> string \<Rightarrow> byte list \<Rightarrow> (decode_error, sol_message) outcome" where
  "sol_message_from_any W type_url val =
     (if ends_with type_url SOL_MESSAGE_URL then
        bind_outcome (ok_or DeBadProto (sw_message_dec W val)) (\<lambda>msg.
          map_error (\<lambda>_. DeBadMessage) (sol_message_try_from msg))
      else if ends_with type_url SOL_HEADER_URL then
        bind_outcome (ok_or DeBadProto (sw_header_dec W val)) (\<lambda>msg.
        bind_outcome (map_error (\<lambda>_. DeBadMessage) (sol_header_from_owned msg)) (\<lambda>h. Ok (SolHeader h)))
      else if ends_with type_url SOL_MISBEHAVIOUR_URL then
        bind_outcome (ok_or DeBadProto (sw_misbehaviour_dec W val)) (\<lambda>msg.
        bind_outcome (map_error (\<lambda>_. DeBadMessage) (sol_misbehaviour_from_owned msg)) (\<lambda>m. Ok (SolMisbehaviour m)))
      else Err DeBadType)"

section \<open>The client\<close>

definition SOL_CLIENT_TYPE :: string where "SOL_CLIENT_TYPE = ''cf-solana''"

definition sol_parse_client_id :: "client_id \<Rightarrow> (client_error, client_idx) outcome" where
  "sol_parse_client_id cid =
     (case client_idx_parse cid of
        Ok (ty, idx) \<Rightarrow> if ty = SOL_CLIENT_TYPE then Ok idx else Err ClientSpecific
      | _ \<Rightarrow> Err ClientSpecific)"

definition sol_latest_height :: "sol_client \<Rightarrow> (client_error, ibc_height) outcome" where
  "sol_latest_height cs = (case height_new 1 (u64 (sc_latest_slot cs)) of Ok h \<Rightarrow> Ok h | _ \<Rightarrow> Panic)"

definition sol_validate_proof_height :: "sol_client \<Rightarrow> ibc_height \<Rightarrow> (client_error, unit) outcome" where
  "sol_validate_proof_height cs proof_height =
     bind_outcome (sol_latest_height cs) (\<lambda>latest_height.
       if proof_height \<le> latest_height then Ok () else Err (InvalidProofHeight latest_height proof_height))"

definition sol_verify_membership ::
  "base64 \<Rightarrow> borsh_codec \<Rightarrow> 'pk crypto \<Rightarrow> wire \<Rightarrow> byte list \<Rightarrow> byte list \<Rightarrow> 'u ibc_path \<Rightarrow> byte list \<Rightarrow>
   (client_error, unit) outcome" where
  "sol_verify_membership b64 codec X W proof_bytes root path val =
     map_error (\<lambda>_. InvalidCommitmentProof) (verify_for_trie b64 codec X W [] proof_bytes root path (Some val))"

definition sol_verify_non_membership ::
  "base64 \<Rightarrow> borsh_codec \<Rightarrow> 'pk crypto \<Rightarrow> wire \<Rightarrow> byte list \<Rightarrow> byte list \<Rightarrow> 'u ibc_path \<Rightarrow>
   (client_error, unit) outcome" where
  "sol_verify_non_membership b64 codec X W proof_bytes root path =
     map_error (\<lambda>_. InvalidCommitmentProof) (verify_for_trie b64 codec X W [] proof_bytes root path None)"

definition sol_verify_header ::
  "(byte list \<Rightarrow> hash) \<Rightarrow> (byte list \<Rightarrow> hash) \<Rightarrow> sol_client \<Rightarrow> sol_header \<Rightarrow> (client_error, unit) outcome" where
  "sol_verify_header d b3 cs hdr =
     (if sh_bank_hash hdr \<noteq> calculate_bank_hash d (sh_delta_hash_proof hdr) then Err ClientOther
      else
        bind_outcome (ap_expected_root d b3 (sh_witness_proof hdr)) (\<lambda>root.
          if dp_accounts_delta_hash (sh_delta_hash_proof hdr) \<noteq> root then Err ClientOther
          else if ahd_key (ap_account_hash_data (sh_witness_proof hdr)) \<noteq> sc_witness_account cs then Err ClientOther
          else Ok ()))"

definition sol_do_verify_client_message ::
  "(byte list \<Rightarrow> hash) \<Rightarrow> (byte list \<Rightarrow> hash) \<Rightarrow> sol_client \<Rightarrow> sol_message \<Rightarrow> (client_error, unit) outcome" where
  "sol_do_verify_client_message d b3 cs msg =
     (case msg of
        SolHeader hdr \<Rightarrow> sol_verify_header d b3 cs hdr
      | SolMisbehaviour mb \<Rightarrow>
          bind_outcome (sol_verify_header d b3 cs (sm_header1 mb)) (\<lambda>_. sol_verify_header d b3 cs (sm_header2 mb)))"

subsection \<open>Misbehaviour\<close>

record ('cs, 'co) sol_conv =
  sv_from_client :: "sol_client \<Rightarrow> 'cs"
  sv_from_consensus :: "sol_consensus \<Rightarrow> 'co"
  sv_into_consensus :: "'co \<Rightarrow> sol_consensus option"

definition sol_into_consensus :: "('cs, 'co) sol_conv \<Rightarrow> 'co \<Rightarrow> (client_error, sol_consensus) outcome" where
  "sol_into_consensus V c = ok_or ClientOther (sv_into_consensus V c)"

definition check_timestamp ::
  "('cs, 'co) sol_conv \<Rightarrow> 'co option \<Rightarrow> (nat \<Rightarrow> bool) \<Rightarrow> (client_error, bool) outcome" where
  "check_timestamp V state test =
     (case state of
        None \<Rightarrow> Ok False
      | Some state \<Rightarrow> bind_outcome (sol_into_consensus V state) (\<lambda>state. Ok (test (so_timestamp_sec state))))"

definition client_specific :: "(bad_message, 'a) outcome \<Rightarrow> (client_error, 'a) outcome" where
  "client_specific r = map_error (\<lambda>_. ClientSpecific) r"

definition sol_check_for_misbehaviour_in_header ::
  "('s, 'cs, 'co) client_ctx \<Rightarrow> ('cs, 'co) sol_conv \<Rightarrow> 's \<Rightarrow> client_id \<Rightarrow> sol_header \<Rightarrow> (client_error, bool) outcome" where
  "sol_check_for_misbehaviour_in_header ctx V s cid hdr =
     bind_outcome (ibc_slot_height hdr) (\<lambda>height.
     bind_outcome (cc_neighbourhood ctx s cid height) (\<lambda>nb.
       case nb of
         This state \<Rightarrow>
           bind_outcome (sol_into_consensus V state) (\<lambda>existing_state.
           bind_outcome (client_specific (sol_consensus_from_header hdr)) (\<lambda>header_state.
             Ok (existing_state \<noteq> header_state)))
       | Neighbours prev nxt \<Rightarrow>
           (case decode_witness hdr of
              None \<Rightarrow> Ok False
            | Some (_, current) \<Rightarrow>
                bind_outcome (check_timestamp V prev (\<lambda>prev. current < prev)) (\<lambda>before.
                  if before then Ok True else check_timestamp V nxt (\<lambda>nxt. nxt < current)))))"

text \<open>The order of \<open>Option\<close>: \<open>None\<close> is less than any \<open>Some\<close>.\<close>

definition option_greater :: "nat option \<Rightarrow> nat option \<Rightarrow> bool" where
  "option_greater a b \<longleftrightarrow>
     (case (a, b) of (Some x, Some y) \<Rightarrow> x > y | (Some _, None) \<Rightarrow> True | (None, _) \<Rightarrow> False)"

definition sol_check_for_misbehaviour_in_misbehaviour :: "sol_misbehaviour \<Rightarrow> bool" where
  "sol_check_for_misbehaviour_in_misbehaviour mb =
     (let header1 = sm_header1 mb; header2 = sm_header2 mb in
      if sh_slot header1 = sh_slot header2
      then ap_account_hash_data (sh_witness_proof header1) \<noteq> ap_account_hash_data (sh_witness_proof header2)
      else
        (let first = map_option snd (decode_witness header1);
             second = map_option snd (decode_witness header2);
             (first, second) = (if sh_slot header2 < sh_slot header1 then (second, first) else (first, second))
         in option_greater first second))"

definition sol_do_check_for_misbehaviour ::
  "('s, 'cs, 'co) client_ctx \<Rightarrow> ('cs, 'co) sol_conv \<Rightarrow> 's \<Rightarrow> client_id \<Rightarrow> sol_message \<Rightarrow> (client_error, bool) outcome" where
  "sol_do_check_for_misbehaviour ctx V s cid msg =
     (case msg of
        SolHeader hdr \<Rightarrow> sol_check_for_misbehaviour_in_header ctx V s cid hdr
      | SolMisbehaviour mb \<Rightarrow> Ok (sol_check_for_misbehaviour_in_misbehaviour mb))"

subsection \<open>Updates\<close>

definition sol_consensus_has_expired :: "sol_client \<Rightarrow> sol_consensus \<Rightarrow> nat \<Rightarrow> (client_error, bool) outcome" where
  "sol_consensus_has_expired cs consensus host_timestamp =
     bind_outcome (sol_timestamp consensus) (\<lambda>ns.
       Ok (saturating_add 64 ns (sc_trusting_period_ns cs) \<le> host_timestamp))"

definition sol_prune_oldest_consensus_state ::
  "('s, 'cs, 'co) client_ctx \<Rightarrow> ('cs, 'co) sol_conv \<Rightarrow> sol_client \<Rightarrow> client_id \<Rightarrow> nat \<Rightarrow>
   ('s, client_error, unit) stateful" where
  "sol_prune_oldest_consensus_state ctx V cs cid host_timestamp s =
     st_bind (st_lift (cc_earliest ctx s cid)) (\<lambda>e.
       case e of
         None \<Rightarrow> st_return ()
       | Some (height, state) \<Rightarrow>
           st_bind (st_lift (sol_into_consensus V state)) (\<lambda>state.
           st_bind (st_lift (sol_consensus_has_expired cs state host_timestamp)) (\<lambda>expired.
             if expired then cc_delete_consensus_state ctx cid height else st_return ()))) s"

definition sol_do_update_state ::
  "('s, 'cs, 'co) client_ctx \<Rightarrow> ('cs, 'co) sol_conv \<Rightarrow> sol_client \<Rightarrow> client_id \<Rightarrow> sol_header \<Rightarrow>
   ('s, client_error, ibc_height list) stateful" where
  "sol_do_update_state ctx V cs cid hdr s =
     st_bind (st_lift (ibc_slot_height hdr)) (\<lambda>header_height.
     st_bind (\<lambda>s. (s, cc_host_metadata ctx s)) (\<lambda>(host_timestamp, host_height).
     st_bind (sol_prune_oldest_consensus_state ctx V cs cid host_timestamp) (\<lambda>_ s.
       case cc_consensus_state ctx s cid header_height of
         Ok _ \<Rightarrow> (s, Ok [header_height])
       | Panic \<Rightarrow> (s, Panic)
       | Err _ \<Rightarrow>
           st_bind (st_lift (client_specific (sol_consensus_from_header hdr))) (\<lambda>new_consensus_state.
           st_bind (cc_set_client_state ctx cid (sv_from_client V (sol_with_header hdr cs))) (\<lambda>_.
           st_bind (cc_store_consensus_state ctx cid header_height (sv_from_consensus V new_consensus_state)
               host_timestamp host_height) (\<lambda>_.
             st_return [header_height]))) s))) s"

definition sol_update_state_on_misbehaviour ::
  "('s, 'cs, 'co) client_ctx \<Rightarrow> ('cs, 'co) sol_conv \<Rightarrow> sol_client \<Rightarrow> client_id \<Rightarrow> ('s, client_error, unit) stateful" where
  "sol_update_state_on_misbehaviour ctx V cs cid = cc_set_client_state ctx cid (sv_from_client V (sol_frozen cs))"

definition sol_initialise ::
  "('s, 'cs, 'co) client_ctx \<Rightarrow> ('cs, 'co) sol_conv \<Rightarrow>
   (client_id \<Rightarrow> 64 word \<Rightarrow> 64 word \<Rightarrow> 'co \<Rightarrow> ('s, client_error, unit) stateful) \<Rightarrow>
   sol_client \<Rightarrow> client_id \<Rightarrow> (client_error, sol_consensus) outcome \<Rightarrow> ('s, client_error, unit) stateful" where
  "sol_initialise ctx V store cs cid consensus_state =
     st_bind (st_lift (sol_parse_client_id cid)) (\<lambda>_.
     st_bind (st_lift consensus_state) (\<lambda>consensus_state.
     st_bind (cc_set_client_state ctx cid (sv_from_client V cs)) (\<lambda>_.
       store cid 1 (u64 (sc_latest_slot cs)) (sv_from_consensus V consensus_state))))"

definition sol_status ::
  "('s, 'cs, 'co) client_ctx \<Rightarrow> ('cs, 'co) sol_conv \<Rightarrow> 's \<Rightarrow> sol_client \<Rightarrow> client_id \<Rightarrow>
   (client_error, client_status) outcome" where
  "sol_status ctx V s cs cid =
     (if sc_is_frozen cs then Ok Frozen
      else
        bind_outcome (sol_latest_height cs) (\<lambda>height.
          case bind_outcome (cc_consensus_state ctx s cid height) (sol_into_consensus V) of
            Ok consensus \<Rightarrow>
              bind_outcome (cc_host_metadata ctx s) (\<lambda>(host_timestamp, _).
              bind_outcome (sol_consensus_has_expired cs consensus host_timestamp) (\<lambda>expired.
                Ok (if expired then Expired else Active)))
          | Err (ConsensusStateNotFound _ _) \<Rightarrow> Ok Expired
          | Err (ClientStateNotFound _) \<Rightarrow> Ok Active
          | Err e \<Rightarrow> Err e
          | Panic \<Rightarrow> Panic))"

section \<open>Decoding of the witness account\<close>

text \<open>The client reads the witness account as the code that writes it does, but refuses the time zero.\<close>

lemma and_mask_48: "unat (w AND 0xffffffffffff :: 64 word) = unat w mod 2 ^ 48"
proof -
  have "w AND 0xffffffffffff = take_bit 48 w" by (simp add: take_bit_eq_mask mask_eq_exp_minus_1)
  then have "unat (w AND 0xffffffffffff) = take_bit 48 (unat w)" by (simp only: unsigned_take_bit_eq)
  then show ?thesis by (simp only: take_bit_eq_mod)
qed

lemma from_le_less: "from_le bs < 256 ^ length bs"
proof (induction bs)
  case (Cons b bs)
  have "unat b + 256 * from_le bs < 256 + 256 * from_le bs" using unat_byte_less[of b] by simp
  also have "\<dots> \<le> 256 * 256 ^ length bs" using Cons by (simp add: Suc_le_eq flip: mult_Suc_right)
  finally show ?case by simp
qed simp

lemma decode_witness_agrees:
  assumes "ahd_data (ap_account_hash_data (sh_witness_proof hdr)) = wi_trie_root w @ wi_rest w"
    "length (wi_trie_root w) = 32" "length (wi_rest w) = 8"
  shows "decode_witness hdr = (case witness_decode w of
    Ok (root, timestamp) \<Rightarrow> if timestamp = 0 then None else Some (root, timestamp) | _ \<Rightarrow> None)"
proof -
  have "unat (word_of_nat (from_le (wi_rest w)) :: 64 word) = from_le (wi_rest w)"
    using from_le_less[of "wi_rest w"] assms(3) by (simp add: unat_of_nat)
  then show ?thesis
    using assms(2,3) unfolding decode_witness_def assms(1) Let_def and_mask_48 witness_decode_def
    by (simp add: split_array_def)
qed

lemma witness_new_lengths:
  "length h = 32 \<Longrightarrow> length (wi_trie_root (witness_new h clock)) = 32" "length (wi_rest (witness_new h clock)) = 8"
  by (simp_all add: witness_new_def Let_def)

section \<open>Round trips of the messages\<close>

definition sol_header_ok :: "sol_header \<Rightarrow> bool" where
  "sol_header_ok hdr \<longleftrightarrow>
     0 < sh_slot hdr \<and> sh_slot hdr < 2 ^ 64 \<and> length (sh_bank_hash hdr) = 32 \<and> delta_ok (sh_delta_hash_proof hdr) \<and>
     81 \<le> length (ap_account_hash_data (sh_witness_proof hdr)) \<and>
     merkle_ok (ap_proof (sh_witness_proof hdr)) \<and>
     (\<forall>s \<in> set (mp_siblings (ap_proof (sh_witness_proof hdr))). length s = 32)"

lemma delta_to_binary_nonempty: "delta_ok p \<Longrightarrow> delta_to_binary p \<noteq> []"
  by (auto simp: delta_ok_def delta_to_binary_def)

lemma merkle_to_binary_nonempty: "merkle_to_binary p \<noteq> []"
  by (simp add: merkle_to_binary_def)

lemma ahd_try_from_ok: "81 \<le> length bs \<Longrightarrow> account_hash_data_try_from bs = Ok bs"
  by (simp add: account_hash_data_try_from_def length_for_def)

lemmas sol_codec = delta_binary_roundtrip merkle_binary_roundtrip delta_to_binary_nonempty merkle_to_binary_nonempty ahd_try_from_ok

text \<open>
  Every form of the conversion reads a header back, also one whose fields that equal those of the
  base were cleared.
\<close>

lemma sol_header_read:
  assumes "sol_header_ok hdr" and h: "msg = sol_header_to_proto hdr"
    and a: "ahd = Some (sph_account_hash_data msg) \<and> msg' = m\<lparr>sph_account_hash_data := []\<rparr> \<or> ahd = None \<and> msg' = m"
    and m: "m = msg \<or> m = msg\<lparr>sph_bank_hash := []\<rparr> \<and> base = Some b \<and> sph_bank_hash b = sh_bank_hash hdr"
  shows "sol_header_try_from_proto msg' ahd base = Ok hdr"
proof -
  have f: "sph_bank_hash msg = sh_bank_hash hdr" "sph_slot msg = sh_slot hdr"
    "sph_delta_hash_proof msg = delta_to_binary (sh_delta_hash_proof hdr)"
    "sph_account_hash_data msg = ap_account_hash_data (sh_witness_proof hdr)"
    "sph_account_merkle_proof msg = merkle_to_binary (ap_proof (sh_witness_proof hdr))"
    by (simp_all add: h sol_header_to_proto_def)
  have ne: "ap_account_hash_data (sh_witness_proof hdr) \<noteq> []" "sh_bank_hash hdr \<noteq> []"
    using assms(1) by (auto simp: sol_header_ok_def)
  have "pick_field msg' base sph_bank_hash = Ok (sh_bank_hash hdr)" using a m ne(2) by (auto simp: pick_field_def f)
  moreover have "sph_slot msg' = sh_slot hdr" "sph_delta_hash_proof msg' = delta_to_binary (sh_delta_hash_proof hdr)"
    "sph_account_merkle_proof msg' = merkle_to_binary (ap_proof (sh_witness_proof hdr))"
    using a m f by auto
  moreover have "(case ahd of Some bytes \<Rightarrow> Ok bytes | None \<Rightarrow> pick_field msg' base sph_account_hash_data) =
      Ok (ap_account_hash_data (sh_witness_proof hdr))"
    using a m f ne(1) by (auto simp: pick_field_def)
  ultimately show ?thesis
    using assms(1) by (simp add: sol_header_try_from_proto_def sol_header_ok_def sol_codec pick_field_def make_hash_def)
qed

lemma sol_header_roundtrip:
  assumes "sol_header_ok hdr"
  shows "sol_header_from_owned (sol_header_to_proto hdr) = Ok hdr" "sol_header_from_ref (sol_header_to_proto hdr) = Ok hdr"
  unfolding sol_header_from_owned_def sol_header_from_ref_def
  by (rule sol_header_read[OF assms refl, where m = "sol_header_to_proto hdr"]; simp)+

lemma dedup_bank_hash_again:
  assumes "sph_bank_hash h1 \<noteq> []"
  shows "dedup_bank_hash h1 (dedup_bank_hash h1 h2) = dedup_bank_hash h1 h2"
  using assms by (simp add: dedup_bank_hash_def)

text \<open>Only the bank hash is left out of the second header of a misbehaviour message.\<close>

lemma sol_misbehaviour_new_eq:
  "sph_bank_hash h1 \<noteq> [] \<Longrightarrow>
   sol_proto_misbehaviour_new h1 h2 = \<lparr>spm_header1 = Some h1, spm_header2 = Some (dedup_bank_hash h1 h2)\<rparr>"
  by (simp add: sol_proto_misbehaviour_new_def dedup_bank_hash_again Let_def)

lemma sol_misbehaviour_roundtrip:
  assumes "sol_header_ok (sm_header1 mb)" "sol_header_ok (sm_header2 mb)"
  shows "sol_misbehaviour_from_owned (sol_misbehaviour_to_proto mb) = Ok mb"
    "sol_misbehaviour_from_ref (sol_misbehaviour_to_proto mb) = Ok mb"
proof -
  let ?h1 = "sol_header_to_proto (sm_header1 mb)" and ?h2 = "sol_header_to_proto (sm_header2 mb)"
  let ?m = "dedup_bank_hash ?h1 ?h2"
  have b: "sph_bank_hash ?h1 \<noteq> []" using assms(1) by (auto simp: sol_header_to_proto_def sol_header_ok_def)
  have m: "?m = ?h2 \<or> ?m = ?h2\<lparr>sph_bank_hash := []\<rparr> \<and> Some ?h1 = Some ?h1 \<and> sph_bank_hash ?h1 = sh_bank_hash (sm_header2 mb)"
    by (simp add: dedup_bank_hash_def sol_header_to_proto_def)
  have "sol_header_try_from_proto (?m\<lparr>sph_account_hash_data := []\<rparr>) (Some (sph_account_hash_data ?h2)) (Some ?h1) = Ok (sm_header2 mb)"
    "sol_header_try_from_proto ?m None (Some ?h1) = Ok (sm_header2 mb)"
    by (rule sol_header_read[OF assms(2) refl _ m]; simp)+
  moreover have "sph_account_hash_data ?m = sph_account_hash_data ?h2" by (simp add: dedup_bank_hash_def)
  ultimately show "sol_misbehaviour_from_owned (sol_misbehaviour_to_proto mb) = Ok mb"
    "sol_misbehaviour_from_ref (sol_misbehaviour_to_proto mb) = Ok mb"
    using sol_header_roundtrip[OF assms(1)]
    by (simp_all add: sol_misbehaviour_from_owned_def sol_misbehaviour_from_ref_def sol_misbehaviour_to_proto_def sol_misbehaviour_new_eq[OF b])
qed

lemma sol_states_roundtrip:
  "0 < sc_latest_slot cs \<Longrightarrow> length (sc_witness_account cs) = 32 \<Longrightarrow> sol_client_from_proto (sol_client_to_proto cs) = Ok cs"
  "0 < so_timestamp_sec c \<Longrightarrow> length (so_trie_root c) = 32 \<Longrightarrow> sol_consensus_from_proto (sol_consensus_to_proto c) = Ok c"
  by (simp_all add: sol_client_from_proto_def sol_client_to_proto_def make_hash_def sol_consensus_from_proto_def sol_consensus_to_proto_def)

section \<open>Accepted headers\<close>

lemma ahd_generate_proof_accepted:
  assumes "distinct (map fst accounts)" "(ahd_key this, ahd_calculate_hash b3 this) \<in> set accounts"
    "2 \<le> length accounts" "length accounts < 2 ^ 64"
    "ahd_generate_proof d this accounts = (accounts', Ok (Some (root, ap)) :: ('e, (hash \<times> account_proof) option) outcome)"
  shows "ap_account_hash_data ap = this" "ap_expected_root d b3 ap = (Ok root :: ('e, hash) outcome)"
    "root = compute_merkle_root d (sort_key fst accounts)" "merkle_ok (ap_proof ap)"
proof -
  obtain mp where g: "snd (merkle_generate d accounts (ahd_key this)) = (Ok (Some (root, mp)) :: ('e, (hash \<times> merkle_proof) option) outcome)"
    and ap: "ap = \<lparr>ap_account_hash_data = this, ap_proof = mp\<rparr>"
    using assms(5) by (auto simp: ahd_generate_proof_def bind_outcome_Ok split: prod.splits option.splits)
  have "\<not> lonely (length accounts) (account_rank accounts (ahd_key this))"
    and S: "root = compute_merkle_root d (sort_key fst accounts)" "merkle_ok mp"
      "expected_root d mp (ahd_calculate_hash b3 this) = (Ok root :: ('e, hash) outcome)"
    using merkle_generate_spec[OF assms(1-4), of d, where 'e = 'e] g by (auto split: if_splits)
  then show "ap_account_hash_data ap = this" "ap_expected_root d b3 ap = (Ok root :: ('e, hash) outcome)"
    "root = compute_merkle_root d (sort_key fst accounts)" "merkle_ok (ap_proof ap)"
    by (simp_all add: ap ap_expected_root_def)
qed

text \<open>The byte strings hashed to check a header.\<close>

definition bank_preimages :: "(byte list \<Rightarrow> hash) \<Rightarrow> delta_hash_proof \<Rightarrow> byte list set" where
  "bank_preimages d p =
     (let x = concat [dp_parent_blockhash p, dp_accounts_delta_hash p, to_le 8 (dp_num_sigs p), dp_blockhash p] in
      insert x (case dp_epoch_accounts_hash p of None \<Rightarrow> {} | Some e \<Rightarrow> {d x @ e}))"

lemma epoch_input_eq:
  assumes "(case a of None \<Rightarrow> x | Some e \<Rightarrow> dx @ e) = (case b of None \<Rightarrow> y | Some e \<Rightarrow> dy @ e)"
    "length x = 104" "length y = 104" "length dx = 32" "length dy = 32"
    "\<forall>e. a = Some e \<longrightarrow> length e = 32" "\<forall>e. b = Some e \<longrightarrow> length e = 32"
  shows "dx = dy \<or> x = (y :: byte list)"
  using assms by (auto split: option.splits)

lemma bank_hash_binds:
  assumes "calculate_bank_hash d p = calculate_bank_hash d q" "inj_on d (bank_preimages d p \<union> bank_preimages d q)"
    "delta_ok p" "delta_ok q" "\<forall>bs. length (d bs) = 32"
  shows "dp_accounts_delta_hash p = dp_accounts_delta_hash q"
proof -
  let ?x = "\<lambda>p. concat [dp_parent_blockhash p, dp_accounts_delta_hash p, to_le 8 (dp_num_sigs p), dp_blockhash p]"
  have len: "length (?x p) = 104" "length (?x q) = 104" using assms(3,4) by (simp_all add: delta_ok_def)
  have mem: "?x p \<in> bank_preimages d p \<union> bank_preimages d q" "?x q \<in> bank_preimages d p \<union> bank_preimages d q"
    by (simp_all add: bank_preimages_def Let_def)
  have ep: "d (?x p) @ e \<in> bank_preimages d p \<union> bank_preimages d q \<and> length (d (?x p) @ e) = 64"
    if "dp_epoch_accounts_hash p = Some e" for e
    using that assms(3,5) by (simp add: bank_preimages_def Let_def delta_ok_def)
  have eq: "d (?x q) @ e \<in> bank_preimages d p \<union> bank_preimages d q \<and> length (d (?x q) @ e) = 64"
    if "dp_epoch_accounts_hash q = Some e" for e
    using that assms(4,5) by (simp add: bank_preimages_def Let_def delta_ok_def)
  have bank: "calculate_bank_hash d r = d (case dp_epoch_accounts_hash r of None \<Rightarrow> ?x r | Some e \<Rightarrow> d (?x r) @ e)" for r
    by (simp add: calculate_bank_hash_def split: option.split)
  have "(case dp_epoch_accounts_hash p of None \<Rightarrow> ?x p | Some e \<Rightarrow> d (?x p) @ e) =
      (case dp_epoch_accounts_hash q of None \<Rightarrow> ?x q | Some e \<Rightarrow> d (?x q) @ e)"
    using assms(1) unfolding bank
    by (rule inj_onD[OF assms(2)]) (use mem ep eq in \<open>simp_all split: option.split\<close>)
  then have "d (?x p) = d (?x q) \<or> ?x p = ?x q"
    by (rule epoch_input_eq) (use len assms(3-5) in \<open>simp_all add: delta_ok_def\<close>)
  then have "?x p = ?x q" using inj_onD[OF assms(2) _ mem] by blast
  then show ?thesis using assms(3,4) by (simp add: delta_ok_def)
qed

section \<open>Properties\<close>

text \<open>
  C15: a header made for a slot of the rollup is accepted. The witness account holds the data that the trie
  account writes for its root hash at some clock, its hash is among those of the accounts changed
  in the slot, the proof is the one the code generates for it and the bank hash is computed from the root
  of the accounts. A client of that witness account accepts the header, and the state the client takes
  from it is the root hash with the time of the clock.
\<close>

theorem rollup_header_accepted:
  assumes "data = account_hash_data_new lamports owner executable rent_epoch
      (wi_trie_root (witness_new root_hash clock) @ wi_rest (witness_new root_hash clock)) (sc_witness_account cs)"
    and "length owner = 32" "length (sc_witness_account cs) = 32" "length root_hash = 32" "lamports < 2 ^ 64" "rent_epoch < 2 ^ 64"
    and "distinct (map fst accounts)" "(sc_witness_account cs, b3 data) \<in> set accounts"
    and "2 \<le> length accounts" "length accounts < 2 ^ 64"
    and "ahd_generate_proof d data accounts = (accounts', Ok (Some (dp_accounts_delta_hash delta, ap)) :: (client_error, (hash \<times> account_proof) option) outcome)"
    and "0 < unat (fst clock) mod 2 ^ 48"
  shows "sol_verify_header d b3 cs
      \<lparr>sh_slot = slot, sh_bank_hash = calculate_bank_hash d delta, sh_delta_hash_proof = delta, sh_witness_proof = ap\<rparr> = Ok () \<and>
    sol_consensus_from_header
      \<lparr>sh_slot = slot, sh_bank_hash = calculate_bank_hash d delta, sh_delta_hash_proof = delta, sh_witness_proof = ap\<rparr> =
      Ok \<lparr>so_trie_root = root_hash, so_timestamp_sec = unat (fst clock) mod 2 ^ 48\<rparr>"
proof -
  let ?hdr = "\<lparr>sh_slot = slot, sh_bank_hash = calculate_bank_hash d delta, sh_delta_hash_proof = delta, sh_witness_proof = ap\<rparr>"
  let ?w = "witness_new root_hash clock"
  note F = account_hash_data_fields[OF assms(2,3,5,6), of executable "wi_trie_root ?w @ wi_rest ?w", folded assms(1)]
  have mem: "(ahd_key data, ahd_calculate_hash b3 data) \<in> set accounts"
    using assms(8) F(6) by (simp add: ahd_calculate_hash_def)
  note G = ahd_generate_proof_accepted[OF assms(7) mem assms(9-11)]
  have "ahd_data (ap_account_hash_data (sh_witness_proof ?hdr)) = wi_trie_root ?w @ wi_rest ?w" using G(1) F(3) by simp
  from decode_witness_agrees[OF this] have "decode_witness ?hdr = Some (root_hash, unat (fst clock) mod 2 ^ 48)"
    using witness_new_lengths(1)[OF assms(4)] witness_new_lengths(2) witness_roundtrip[of root_hash clock] assms(12) by simp
  then show ?thesis
    using G(1,2) F(6) by (simp add: sol_verify_header_def sol_consensus_from_header_def sol_consensus_new_def)
qed

theorem rollup_header_accepted_witness:
  "\<exists>ap. sol_verify_header (\<lambda>_. replicate 32 5) (\<lambda>_. replicate 32 3)
     \<lparr>sc_latest_slot = 1, sc_witness_account = replicate 32 9, sc_trusting_period_ns = 10, sc_is_frozen = False\<rparr>
     \<lparr>sh_slot = 7, sh_bank_hash = replicate 32 5,
      sh_delta_hash_proof = \<lparr>dp_parent_blockhash = replicate 32 1, dp_accounts_delta_hash = replicate 32 5,
        dp_num_sigs = 2, dp_blockhash = replicate 32 4, dp_epoch_accounts_hash = None\<rparr>,
      sh_witness_proof = ap\<rparr> = Ok ()"
proof -
  let ?d = "\<lambda>_ :: byte list. replicate 32 (5 :: byte)" and ?b3 = "\<lambda>_ :: byte list. replicate 32 (3 :: byte)"
  let ?k = "replicate 32 9 :: hash" and ?w = "witness_new (replicate 32 8) (100, 7)"
  let ?cs = "\<lparr>sc_latest_slot = 1, sc_witness_account = ?k, sc_trusting_period_ns = 10, sc_is_frozen = False\<rparr>"
  let ?delta = "\<lparr>dp_parent_blockhash = replicate 32 1, dp_accounts_delta_hash = replicate 32 5,
        dp_num_sigs = 2, dp_blockhash = replicate 32 4, dp_epoch_accounts_hash = None\<rparr>"
  let ?a = "[(?k, replicate 32 3), (replicate 32 4, replicate 32 2)] :: (hash \<times> hash) list"
  define data where "data = account_hash_data_new 42 (replicate 32 6) False 0 (wi_trie_root ?w @ wi_rest ?w) ?k"
  have key: "ahd_key data = ?k" using account_hash_data_fields(6)[of "replicate 32 6" ?k 42 0 False] by (simp add: data_def)
  have dist: "distinct (map fst ?a)" by (simp add: replicate_eq_replicate)
  have "\<not> lonely (length ?a) n" for n by (cases "n = 1") (auto simp: lonely.simps)
  then obtain mp where "snd (merkle_generate ?d ?a ?k) = (Ok (Some (compute_merkle_root ?d (sort_key fst ?a), mp)) :: (client_error, (hash \<times> merkle_proof) option) outcome)"
    using merkle_generate_spec[OF dist, of ?k "replicate 32 3" ?d, where 'e = client_error] by auto
  moreover have "compute_merkle_root ?d (sort_key fst ?a) = replicate 32 5"
  proof -
    have "length (sort_key fst ?a) = 2" by simp
    then obtain x y where "sort_key fst ?a = [x, y]" by (auto simp: length_Suc_conv numeral_2_eq_2)
    then show ?thesis by (simp add: compute_merkle_root_def par_chunks.simps MERKLE_FANOUT_def merkle_root_loop.simps)
  qed
  ultimately have "ahd_generate_proof ?d data ?a = (sort_key fst ?a, Ok (Some (dp_accounts_delta_hash ?delta,
      \<lparr>ap_account_hash_data = data, ap_proof = mp\<rparr>)) :: (client_error, (hash \<times> account_proof) option) outcome)"
    by (simp add: ahd_generate_proof_def key merkle_generate_def Let_def split: prod.splits)
  from rollup_header_accepted[OF _ _ _ _ _ _ dist _ _ _ this, of 42 "replicate 32 6" False 0 "replicate 32 8" "(100, 7)" ?cs ?b3 7]
  show ?thesis by (auto simp: data_def calculate_bank_hash_def)
qed

text \<open>
  C16: two accepted headers with the same bank hash and the same path in the tree of accounts carry the same
  witness account, so they give the client the same consensus state, as long as the digests
  have no collision among the byte strings hashed to check them.
\<close>

theorem accepted_headers_bind:
  assumes "sol_verify_header d b3 cs hdr1 = Ok ()" "sol_verify_header d b3 cs hdr2 = Ok ()"
    and "sh_bank_hash hdr1 = sh_bank_hash hdr2"
    and "mp_path (ap_proof (sh_witness_proof hdr1)) = mp_path (ap_proof (sh_witness_proof hdr2))"
    and "sol_header_ok hdr1" "sol_header_ok hdr2"
    and "\<forall>bs. length (d bs) = 32" "\<forall>bs. length (b3 bs) = 32"
    and "inj_on d (bank_preimages d (sh_delta_hash_proof hdr1) \<union> bank_preimages d (sh_delta_hash_proof hdr2))"
    and "inj_on d
      (root_preimages d (mp_path (ap_proof (sh_witness_proof hdr1))) (mp_siblings (ap_proof (sh_witness_proof hdr1)))
         (b3 (ap_account_hash_data (sh_witness_proof hdr1))) \<union>
       root_preimages d (mp_path (ap_proof (sh_witness_proof hdr2))) (mp_siblings (ap_proof (sh_witness_proof hdr2)))
         (b3 (ap_account_hash_data (sh_witness_proof hdr2))))"
    and "inj_on b3 {ap_account_hash_data (sh_witness_proof hdr1), ap_account_hash_data (sh_witness_proof hdr2)}"
  shows "sh_witness_proof hdr1 = sh_witness_proof hdr2 \<and> sol_consensus_from_header hdr1 = sol_consensus_from_header hdr2"
proof -
  let ?p1 = "ap_proof (sh_witness_proof hdr1)" and ?p2 = "ap_proof (sh_witness_proof hdr2)"
  let ?a1 = "ap_account_hash_data (sh_witness_proof hdr1)" and ?a2 = "ap_account_hash_data (sh_witness_proof hdr2)"
  have V: "sh_bank_hash hdr = calculate_bank_hash d (sh_delta_hash_proof hdr) \<and>
      expected_root_loop d (lv (mp_path (ap_proof (sh_witness_proof hdr))) (mp_siblings (ap_proof (sh_witness_proof hdr))))
        (b3 (ap_account_hash_data (sh_witness_proof hdr))) = (Ok (dp_accounts_delta_hash (sh_delta_hash_proof hdr)) :: (client_error, hash) outcome)"
    if "sol_verify_header d b3 cs hdr = Ok ()" for hdr
    using that by (auto simp: sol_verify_header_def ap_expected_root_def expected_root_def levels_def ahd_calculate_hash_def
        bind_outcome_Ok split: if_splits)
  note V1 = V[OF assms(1)] and V2 = V[OF assms(2)]
  have r: "dp_accounts_delta_hash (sh_delta_hash_proof hdr1) = dp_accounts_delta_hash (sh_delta_hash_proof hdr2)"
    using V1 V2 assms(3,5,6) bank_hash_binds[OF _ assms(9) _ _ assms(7)] by (simp add: sol_header_ok_def)
  have "b3 ?a1 = b3 ?a2 \<and> mp_siblings ?p1 = mp_siblings ?p2"
  proof (rule expected_root_binds_loop[OF conjunct2[OF V1]])
    show "expected_root_loop d (lv (mp_path ?p1) (mp_siblings ?p2)) (b3 ?a2) =
        (Ok (dp_accounts_delta_hash (sh_delta_hash_proof hdr1)) :: (client_error, hash) outcome)"
      using V2 r assms(4) by simp
    show "inj_on d (root_preimages d (mp_path ?p1) (mp_siblings ?p1) (b3 ?a1) \<union> root_preimages d (mp_path ?p1) (mp_siblings ?p2) (b3 ?a2))"
      using assms(10) unfolding assms(4) .
    show "\<forall>c \<in> set (mp_siblings ?p1) \<union> set (mp_siblings ?p2). length c = 32" using assms(5,6) by (auto simp: sol_header_ok_def)
  qed (use assms(7,8) in auto)
  moreover from this have "?a1 = ?a2" using assms(11) by (auto dest: inj_onD)
  ultimately have "sh_witness_proof hdr1 = sh_witness_proof hdr2" using assms(4) by (intro account_proof.equality merkle_proof.equality) auto
  then show ?thesis by (simp add: sol_consensus_from_header_def decode_witness_def)
qed

theorem accepted_headers_bind_witness:
  "let hdr = (\<lambda>slot sigs. \<lparr>sh_slot = slot, sh_bank_hash = replicate 32 5,
      sh_delta_hash_proof = \<lparr>dp_parent_blockhash = replicate 32 1, dp_accounts_delta_hash = replicate 32 3,
        dp_num_sigs = sigs, dp_blockhash = replicate 32 4, dp_epoch_accounts_hash = None\<rparr>,
      sh_witness_proof = \<lparr>ap_account_hash_data = replicate 81 0, ap_proof = merkle_proof_default\<rparr>\<rparr>) in
   sol_consensus_from_header (hdr 1 2) = sol_consensus_from_header (hdr 3 2)"
proof -
  let ?d = "\<lambda>_ :: byte list. replicate 32 (5 :: byte)" and ?b3 = "\<lambda>_ :: byte list. replicate 32 (3 :: byte)"
  let ?cs = "\<lparr>sc_latest_slot = 1, sc_witness_account = replicate 32 0, sc_trusting_period_ns = 10, sc_is_frozen = False\<rparr>"
  let ?hdr = "\<lambda>slot. \<lparr>sh_slot = slot, sh_bank_hash = replicate 32 5,
      sh_delta_hash_proof = \<lparr>dp_parent_blockhash = replicate 32 1, dp_accounts_delta_hash = replicate 32 3,
        dp_num_sigs = 2, dp_blockhash = replicate 32 4, dp_epoch_accounts_hash = None\<rparr>,
      sh_witness_proof = \<lparr>ap_account_hash_data = replicate 81 0, ap_proof = merkle_proof_default\<rparr>\<rparr>"
  have v: "sol_verify_header ?d ?b3 ?cs (?hdr slot) = Ok ()" for slot
    by (simp add: sol_verify_header_def calculate_bank_hash_def ap_expected_root_def ahd_calculate_hash_def ahd_key_def ahd_get_def)
  have ok: "sol_header_ok (?hdr 1)" "sol_header_ok (?hdr 3)"
    by (simp_all add: sol_header_ok_def delta_ok_def) (simp_all add: merkle_proof_default_def)
  show ?thesis
    using accepted_headers_bind[OF v v _ _ ok] by (simp add: bank_preimages_def merkle_proof_default_def)
qed

end
