(* ===== verification/Sol_Steps.thy ===== *)
theory Sol_Steps
  imports Sol_Client Ibc_Clients
begin

text \<open>
  Sequences of updates of a light client of a Solana rollup, on any chain whose storage meets the
  contract \<open>client_context\<close>, and on the storage of the IBC program. Every consensus state comes from a
  header the client has accepted, and time stamps do not decrease with the slot.
\<close>

inductive sol_run ::
  "('s, 'cs, 'co) client_ctx \<Rightarrow> ('cs, 'co) sol_conv \<Rightarrow> (byte list \<Rightarrow> hash) \<Rightarrow> (byte list \<Rightarrow> hash) \<Rightarrow> ('s \<Rightarrow> client_id \<rightharpoonup> 'cs) \<Rightarrow>
   client_id \<Rightarrow> 's \<Rightarrow> 's \<Rightarrow> sol_header list \<Rightarrow> bool"
  for ctx V d b3 clients cid s0 where
  start: "sol_run ctx V d b3 clients cid s0 s0 []"
| update: "sol_run ctx V d b3 clients cid s0 s hs \<Longrightarrow> clients s cid = Some (sv_from_client V cs) \<Longrightarrow>
    sol_status ctx V s cs cid = Ok Active \<Longrightarrow> sol_do_verify_client_message d b3 cs (SolHeader hdr) = Ok () \<Longrightarrow>
    sol_do_check_for_misbehaviour ctx V s cid (SolHeader hdr) = Ok False \<Longrightarrow>
    sol_do_update_state ctx V cs cid hdr s = (s', Ok heights) \<Longrightarrow> sol_run ctx V d b3 clients cid s0 s' (hdr # hs)"
| freeze: "sol_run ctx V d b3 clients cid s0 s hs \<Longrightarrow> clients s cid = Some (sv_from_client V cs) \<Longrightarrow>
    sol_status ctx V s cs cid = Ok Active \<Longrightarrow> sol_do_verify_client_message d b3 cs msg = Ok () \<Longrightarrow>
    sol_do_check_for_misbehaviour ctx V s cid msg = Ok True \<Longrightarrow>
    sol_update_state_on_misbehaviour ctx V cs cid s = (s', Ok ()) \<Longrightarrow> sol_run ctx V d b3 clients cid s0 s' hs"

text \<open>The consensus states of this kind of client, and the order of their time stamps.\<close>

definition sol_view :: "('co \<Rightarrow> sol_consensus option) \<Rightarrow> (ibc_height \<rightharpoonup> 'co) \<Rightarrow> ibc_height \<rightharpoonup> sol_consensus" where
  "sol_view into m h = Option.bind (m h) into"

definition sol_ordered :: "('h :: linorder \<rightharpoonup> sol_consensus) \<Rightarrow> bool" where
  "sol_ordered m \<longleftrightarrow>
     (\<forall>h h' c c'. h < h' \<longrightarrow> m h = Some c \<longrightarrow> m h' = Some c' \<longrightarrow> so_timestamp_sec c \<le> so_timestamp_sec c')"

definition slot_height :: "sol_header \<Rightarrow> ibc_height" where
  "slot_height hdr = (1, u64 (sh_slot hdr))"

lemma ibc_slot_height_Ok: "ibc_slot_height hdr = Ok h \<Longrightarrow> h = slot_height hdr"
  by (auto simp: ibc_slot_height_def height_new_def slot_height_def split: if_splits)

lemma sol_ordered_le:
  assumes "sol_ordered m" "h \<le> h'" "m h = Some c" "m h' = Some c'"
  shows "so_timestamp_sec c \<le> so_timestamp_sec c'"
  using assms unfolding sol_ordered_def by (cases "h = h'") (auto simp: less_le)

lemma sol_ordered_mono:
  assumes "sol_ordered m" "m' \<subseteq>\<^sub>m m" shows "sol_ordered m'"
  using assms(1) map_le_Some[OF assms(2)] unfolding sol_ordered_def by blast

lemma sol_ordered_upd:
  fixes m :: "'h :: linorder \<rightharpoonup> sol_consensus"
  assumes "sol_ordered m" "\<And>k g. k < h \<Longrightarrow> m k = Some g \<Longrightarrow> so_timestamp_sec g \<le> so_timestamp_sec c"
    "\<And>k g. h < k \<Longrightarrow> m k = Some g \<Longrightarrow> so_timestamp_sec c \<le> so_timestamp_sec g"
  shows "sol_ordered (m(h \<mapsto> c))"
  using assms unfolding sol_ordered_def by (auto split: if_splits)

lemma sol_ordered_single: "sol_ordered [h \<mapsto> c]"
  by (auto simp: sol_ordered_def split: if_splits)

text \<open>A header that fits between its neighbours fits between all states.\<close>

lemma sol_fits:
  fixes m :: "ibc_height \<rightharpoonup> 'co"
  assumes o: "sol_ordered (sol_view (sv_into_consensus V) m)"
    and b: "entry_below m h p" "entry_above m h n"
    and t: "check_timestamp V p (\<lambda>prev. so_timestamp_sec c < prev) = Ok False"
      "check_timestamp V n (\<lambda>nxt. nxt < so_timestamp_sec c) = Ok False"
  shows "sol_ordered ((sol_view (sv_into_consensus V) m)(h \<mapsto> c))"
proof (rule sol_ordered_upd[OF o])
  fix k g assume k: "k < h" "sol_view (sv_into_consensus V) m k = Some g"
  obtain w where w: "m k = Some w" using k(2) by (cases "m k") (auto simp: sol_view_def)
  obtain j v where j: "p = Some v" "m j = Some v" "k \<le> j" by (rule entry_belowD[OF b(1) w k(1)])
  obtain gv where gv: "sv_into_consensus V v = Some gv" "so_timestamp_sec gv \<le> so_timestamp_sec c"
    using t(1) j(1) by (auto simp: check_timestamp_def sol_into_consensus_def ok_or_def split: option.splits)
  then show "so_timestamp_sec g \<le> so_timestamp_sec c"
    using sol_ordered_le[OF o j(3) k(2), of gv] j(2) by (simp add: sol_view_def)
next
  fix k g assume k: "h < k" "sol_view (sv_into_consensus V) m k = Some g"
  obtain w where w: "m k = Some w" using k(2) by (cases "m k") (auto simp: sol_view_def)
  obtain j v where j: "n = Some v" "m j = Some v" "j \<le> k" by (rule entry_aboveD[OF b(2) w k(1)])
  obtain gv where gv: "sv_into_consensus V v = Some gv" "so_timestamp_sec c \<le> so_timestamp_sec gv"
    using t(2) j(1) by (auto simp: check_timestamp_def sol_into_consensus_def ok_or_def split: option.splits)
  then show "so_timestamp_sec c \<le> so_timestamp_sec g"
    using sol_ordered_le[OF o j(3), of gv g] k(2) j(2) by (simp add: sol_view_def)
qed

lemma sol_do_update_stateD:
  assumes "sol_do_update_state ctx V cs cid hdr s = (s', Ok heights)"
  shows "\<exists>t hh s1. sol_prune_oldest_consensus_state ctx V cs cid t s = (s1, Ok ()) \<and>
    ((\<exists>y. cc_consensus_state ctx s1 cid (slot_height hdr) = Ok y) \<and> s' = s1 \<or>
     (\<exists>e c s2. cc_consensus_state ctx s1 cid (slot_height hdr) = Err e \<and> sol_consensus_from_header hdr = Ok c \<and>
        cc_set_client_state ctx cid (sv_from_client V (sol_with_header hdr cs)) s1 = (s2, Ok ()) \<and>
        cc_store_consensus_state ctx cid (slot_height hdr) (sv_from_consensus V c) t hh s2 = (s', Ok ())))"
proof -
  have "(ibc_slot_height hdr :: (client_error, ibc_height) outcome) = Ok (slot_height hdr)"
    using assms by (auto simp: sol_do_update_state_def st_bind_Ok dest: ibc_slot_height_Ok)
  with assms obtain t hh s1 where "sol_prune_oldest_consensus_state ctx V cs cid t s = (s1, Ok ())"
    and R: "(case cc_consensus_state ctx s1 cid (slot_height hdr) of
         Ok _ \<Rightarrow> (s1, Ok [slot_height hdr])
       | Panic \<Rightarrow> (s1, Panic)
       | Err _ \<Rightarrow>
           st_bind (st_lift (client_specific (sol_consensus_from_header hdr))) (\<lambda>c.
           st_bind (cc_set_client_state ctx cid (sv_from_client V (sol_with_header hdr cs))) (\<lambda>_.
           st_bind (cc_store_consensus_state ctx cid (slot_height hdr) (sv_from_consensus V c) t hh) (\<lambda>_.
             st_return [slot_height hdr]))) s1) = (s', Ok heights)"
    by (auto simp: sol_do_update_state_def st_bind_Ok)
  moreover have "client_specific (sol_consensus_from_header hdr) = Ok c \<Longrightarrow> sol_consensus_from_header hdr = Ok c" for c
    by (cases "sol_consensus_from_header hdr") (auto simp: client_specific_def)
  with R have "(\<exists>y. cc_consensus_state ctx s1 cid (slot_height hdr) = Ok y) \<and> s' = s1 \<or>
     (\<exists>e c s2. cc_consensus_state ctx s1 cid (slot_height hdr) = Err e \<and> sol_consensus_from_header hdr = Ok c \<and>
        cc_set_client_state ctx cid (sv_from_client V (sol_with_header hdr cs)) s1 = (s2, Ok ()) \<and>
        cc_store_consensus_state ctx cid (slot_height hdr) (sv_from_consensus V c) t hh s2 = (s', Ok ()))"
    by (cases "cc_consensus_state ctx s1 cid (slot_height hdr)") (auto simp: st_bind_Ok)
  ultimately show ?thesis by blast
qed

section \<open>Clients on a chain that meets the contract\<close>

locale sol_context = client_context ctx cinv clients states
  for ctx :: "('s, 'cs, 'co) client_ctx" and cinv and clients and states +
  fixes V :: "('cs, 'co) sol_conv"
  assumes into_from: "sv_into_consensus V (sv_from_consensus V c) = Some c"
begin

abbreviation view :: "'s \<Rightarrow> client_id \<Rightarrow> ibc_height \<rightharpoonup> sol_consensus" where
  "view s cid \<equiv> sol_view (sv_into_consensus V) (states s cid)"

lemma view_upd: "sol_view (sv_into_consensus V) (m(h \<mapsto> sv_from_consensus V c)) = (sol_view (sv_into_consensus V) m)(h \<mapsto> c)"
  by (simp add: sol_view_def fun_eq_iff into_from)

lemma view_mono: "m \<subseteq>\<^sub>m m' \<Longrightarrow> sol_view (sv_into_consensus V) m \<subseteq>\<^sub>m sol_view (sv_into_consensus V) m'"
  by (auto simp: sol_view_def map_le_def bind_eq_Some_conv dom_def)

lemma prune_spec:
  assumes "cinv s" "sol_prune_oldest_consensus_state ctx V cs cid t s = (s', Ok ())"
  shows "cinv s' \<and> clients s' = clients s \<and> states s' cid \<subseteq>\<^sub>m states s cid"
  using assms delete_consensus[OF assms(1)] unfolding sol_prune_oldest_consensus_state_def st_bind_def
  by (auto simp: map_le_def split: outcome.splits option.splits if_splits prod.splits)

text \<open>What the check for misbehaviour says of the states next to the header.\<close>

lemma no_misbehaviour:
  assumes "cinv s" "clients s cid \<noteq> None" "sol_ordered (view s cid)"
    and m: "sol_check_for_misbehaviour_in_header ctx V s cid hdr = Ok False" and c: "sol_consensus_from_header hdr = Ok c"
  shows "sol_ordered ((view s cid)(slot_height hdr \<mapsto> c))"
    "states s cid (slot_height hdr) = Some x \<Longrightarrow> sv_into_consensus V x = Some c"
proof -
  let ?h = "slot_height hdr"
  have ht: "(ibc_slot_height hdr :: (client_error, ibc_height) outcome) = Ok ?h"
    using m by (auto simp: sol_check_for_misbehaviour_in_header_def bind_outcome_Ok dest: ibc_slot_height_Ok)
  then obtain nb where nb: "cc_neighbourhood ctx s cid ?h = Ok nb"
    using m by (auto simp: sol_check_for_misbehaviour_in_header_def bind_outcome_Ok)
  have this_case: "sv_into_consensus V x = Some c" if "nb = This x" for x
    using m that ht nb c
    by (auto simp: sol_check_for_misbehaviour_in_header_def sol_into_consensus_def client_specific_def ok_or_def split: option.splits)
  show "sv_into_consensus V x = Some c" if "states s cid ?h = Some x" for x
    using nb_this[OF assms(1) that] nb this_case by simp
  show "sol_ordered ((view s cid)(?h \<mapsto> c))"
  proof (cases rule: neighbourhood_cases[OF assms(1) nb assms(2)])
    case (1 x)
    then have "(view s cid)(?h \<mapsto> c) = view s cid" using this_case by (auto simp: fun_eq_iff sol_view_def)
    then show ?thesis using assms(3) by simp
  next
    case (2 p n)
    obtain r where "decode_witness hdr = Some (r, so_timestamp_sec c)"
      using c by (auto simp: sol_consensus_from_header_def sol_consensus_new_def bind_outcome_Ok ok_or_Ok)
    then have "check_timestamp V p (\<lambda>prev. so_timestamp_sec c < prev) = Ok False"
      "check_timestamp V n (\<lambda>nxt. nxt < so_timestamp_sec c) = Ok False"
      using m ht nb 2(1) by (auto simp: sol_check_for_misbehaviour_in_header_def bind_outcome_Ok split: if_splits)
    then show ?thesis using sol_fits[OF assms(3) 2(3,4)] by blast
  qed
qed

lemma no_misbehaviour_known:
  assumes "cinv s" "sol_check_for_misbehaviour_in_header ctx V s cid hdr = Ok False" "states s cid (slot_height hdr) = Some x"
  shows "\<exists>c. sol_consensus_from_header hdr = Ok c"
proof -
  have ht: "(ibc_slot_height hdr :: (client_error, ibc_height) outcome) = Ok (slot_height hdr)"
    using assms(2) by (auto simp: sol_check_for_misbehaviour_in_header_def bind_outcome_Ok dest: ibc_slot_height_Ok)
  then show ?thesis
    using assms(2) nb_this[OF assms(1,3)]
    by (cases "sol_consensus_from_header hdr")
      (auto simp: sol_check_for_misbehaviour_in_header_def bind_outcome_Ok client_specific_def)
qed

end

context sol_context
begin

text \<open>An update adds the state of the header, and may drop others.\<close>

lemma update_spec:
  assumes i: "cinv s" and u: "sol_do_update_state ctx V cs cid hdr s = (s', Ok heights)"
    and x: "\<And>x. states s cid (slot_height hdr) = Some x \<Longrightarrow> \<exists>c. sol_consensus_from_header hdr = Ok c \<and> sv_into_consensus V x = Some c"
  shows "\<exists>c. sol_consensus_from_header hdr = Ok c \<and> cinv s' \<and> view s' cid (slot_height hdr) = Some c \<and>
    view s' cid \<subseteq>\<^sub>m (view s cid)(slot_height hdr \<mapsto> c)"
proof -
  let ?h = "slot_height hdr"
  obtain t hh s1 where s1: "sol_prune_oldest_consensus_state ctx V cs cid t s = (s1, Ok ())"
    and R: "(\<exists>y. cc_consensus_state ctx s1 cid ?h = Ok y) \<and> s' = s1 \<or>
     (\<exists>e c s2. cc_consensus_state ctx s1 cid ?h = Err e \<and> sol_consensus_from_header hdr = Ok c \<and>
        cc_set_client_state ctx cid (sv_from_client V (sol_with_header hdr cs)) s1 = (s2, Ok ()) \<and>
        cc_store_consensus_state ctx cid ?h (sv_from_consensus V c) t hh s2 = (s', Ok ()))"
    using sol_do_update_stateD[OF u] by blast
  have P: "cinv s1" "clients s1 = clients s" "states s1 cid \<subseteq>\<^sub>m states s cid" using prune_spec[OF i s1] by auto
  have v: "view s1 cid \<subseteq>\<^sub>m view s cid" using P(3) by (rule view_mono)
  show ?thesis using R
  proof (elim disjE conjE exE)
    fix y assume y: "cc_consensus_state ctx s1 cid ?h = Ok y" and s': "s' = s1"
    have y1: "states s1 cid ?h = Some y" using y consensus_Ok[OF P(1)] by simp
    then have "states s cid ?h = Some y" by (rule map_le_Some[OF P(3)])
    with x obtain c where c: "sol_consensus_from_header hdr = Ok c" "sv_into_consensus V y = Some c" by blast
    then have f: "view s1 cid ?h = Some c" using y1 by (simp add: sol_view_def)
    then have "view s cid ?h = Some c" by (rule map_le_Some[OF v])
    then have "(view s cid)(?h \<mapsto> c) = view s cid" by auto
    then show ?thesis using P f v c(1) by (auto simp: s')
  next
    fix e c s2 assume A: "cc_set_client_state ctx cid (sv_from_client V (sol_with_header hdr cs)) s1 = (s2, Ok ())"
      "cc_store_consensus_state ctx cid ?h (sv_from_consensus V c) t hh s2 = (s', Ok ())" and c: "sol_consensus_from_header hdr = Ok c"
    note B = set_client[OF P(1) A(1)]
    have C: "cinv s'" "states s' cid ?h = Some (sv_from_consensus V c)"
      "states s' cid \<subseteq>\<^sub>m (states s2 cid)(?h \<mapsto> sv_from_consensus V c)" using store_consensus[OF _ A(2)] B by auto
    from view_mono[OF C(3)] have "view s' cid \<subseteq>\<^sub>m (view s1 cid)(?h \<mapsto> c)" using B by (simp add: view_upd)
    also have "\<dots> \<subseteq>\<^sub>m (view s cid)(?h \<mapsto> c)" using v by (auto simp: map_le_def)
    finally show ?thesis using C(1,2) c by (auto simp: sol_view_def into_from)
  qed
qed

lemma run_inv:
  assumes "sol_run ctx V d b3 clients cid s0 s hs" "cinv s0" "sol_ordered (view s0 cid)"
  shows "cinv s \<and> sol_ordered (view s cid) \<and> (\<forall>h c. view s cid h = Some c \<longrightarrow>
       view s0 cid h = Some c \<or> (\<exists>hdr \<in> set hs. h = slot_height hdr \<and> sol_consensus_from_header hdr = Ok c))"
  using assms(1)
proof induction
  case (update s hs cs hdr s' heights)
  have m: "sol_check_for_misbehaviour_in_header ctx V s cid hdr = Ok False"
    using update by (simp add: sol_do_check_for_misbehaviour_def)
  have i: "cinv s" "clients s cid \<noteq> None" "sol_ordered (view s cid)" using update by simp_all
  have "\<exists>c. sol_consensus_from_header hdr = Ok c \<and> sv_into_consensus V x = Some c" if "states s cid (slot_height hdr) = Some x" for x
    using no_misbehaviour_known[OF i(1) m that] no_misbehaviour(2)[OF i m _ that] by blast
  from update_spec[OF i(1) update.hyps(6) this] obtain c where c: "sol_consensus_from_header hdr = Ok c" "cinv s'"
    "view s' cid \<subseteq>\<^sub>m (view s cid)(slot_height hdr \<mapsto> c)" by blast
  have "sol_ordered (view s' cid)" by (rule sol_ordered_mono[OF no_misbehaviour(1)[OF i m c(1)] c(3)])
  moreover have "view s cid h = Some c' \<or> h = slot_height hdr \<and> c' = c" if "view s' cid h = Some c'" for h c'
    using map_le_Some[OF c(3) that] by (auto split: if_splits)
  ultimately show ?case using c(1,2) update.IH unfolding list.set(2) by blast
next
  case (freeze s hs cs msg s')
  then show ?case using set_client[of s cid "sv_from_client V (sol_frozen cs)" s'] by (simp add: sol_update_state_on_misbehaviour_def)
qed (use assms in auto)

end

text \<open>Every header of a run is consistent in itself and about the witness account of the client.\<close>

lemma sol_run_accepted:
  assumes "sol_run ctx V d b3 clients cid s0 s hs" "hdr \<in> set hs"
  shows "\<exists>cs. sol_verify_header d b3 cs hdr = Ok ()"
  using assms by induction (auto simp: sol_do_verify_client_message_def)

section \<open>Clients of the IBC program\<close>

definition any_consensus_into_rollup :: "('t, 'w, sol_consensus) any_consensus_state \<Rightarrow> sol_consensus option" where
  "any_consensus_into_rollup c = (case c of CoRollup s \<Rightarrow> Some s | _ \<Rightarrow> None)"

definition any_sol_conv :: "(('t, 'w, sol_client) any_client_state, ('u, 'x, sol_consensus) any_consensus_state) sol_conv" where
  "any_sol_conv =
     \<lparr>sv_from_client = CsRollup, sv_from_consensus = CoRollup, sv_into_consensus = any_consensus_into_rollup\<rparr>"

interpretation ibc_sol: sol_context "ibc_ctx E" "ibc_cinv E" "\<lambda>st. stored_client E (st_private st)"
  "\<lambda>st. stored_consensus E (st_private st)" any_sol_conv
  for E :: "('s, ('t, 'w, sol_client) any_client_state, ('u, 'x, sol_consensus) any_consensus_state, 'ce, 'ch) ibc_env"
  by unfold_locales (simp add: any_sol_conv_def any_consensus_into_rollup_def)

lemma any_sol_into [simp]: "sol_into_consensus any_sol_conv (CoRollup c) = Ok c"
  by (simp add: sol_into_consensus_def any_sol_conv_def any_consensus_into_rollup_def)

lemma any_sol_conv_into: "sv_into_consensus any_sol_conv = any_consensus_into_rollup" by (simp add: any_sol_conv_def)


text \<open>An example: a client accepts a header of the slot it knows once more.\<close>

definition ex_sol_cs :: sol_client where
  "ex_sol_cs = \<lparr>sc_latest_slot = 1, sc_witness_account = replicate 32 9, sc_trusting_period_ns = 10, sc_is_frozen = False\<rparr>"

definition ex_sol_hdr :: sol_header where
  "ex_sol_hdr =
     \<lparr>sh_slot = 1, sh_bank_hash = replicate 32 5,
      sh_delta_hash_proof = \<lparr>dp_parent_blockhash = replicate 32 1, dp_accounts_delta_hash = replicate 32 3,
        dp_num_sigs = 2, dp_blockhash = replicate 32 4, dp_epoch_accounts_hash = None\<rparr>,
      sh_witness_proof = \<lparr>ap_account_hash_data =
        account_hash_data_new 42 (replicate 32 6) False 0 (replicate 32 8 @ wi_rest (witness_new (replicate 32 8) (1, 0))) (replicate 32 9), ap_proof = merkle_proof_default\<rparr>\<rparr>"

definition ex_sol_co :: sol_consensus where "ex_sol_co = \<lparr>so_trie_root = replicate 32 8, so_timestamp_sec = 1\<rparr>"

definition ex_sol_env :: "(unit, (unit, unit, sol_client) any_client_state, (unit, unit, sol_consensus) any_consensus_state, unit, unit) ibc_env" where
  "ex_sol_env =
     \<lparr>ie_digest = (\<lambda>_. replicate 32 1), ie_ops = \<lparr>al_alloc = (\<lambda>_ s. (s, Panic)), al_get = (\<lambda>_ _. None), al_set = (\<lambda>_ _ _. None), al_free = (\<lambda>_ _. None)\<rparr>,
      ie_b64 = \<lparr>b64_enc = (\<lambda>bs. bs), b64_dec = Some\<rparr>, ie_client_enc = (\<lambda>_. None), ie_client_dec = (\<lambda>_. Some (CsRollup ex_sol_cs)),
      ie_client_any = (\<lambda>_. []), ie_consensus_enc = (\<lambda>_. None), ie_consensus_dec = (\<lambda>_. Some (CoRollup ex_sol_co)),
      ie_consensus_any = (\<lambda>_. []), ie_conn_enc = (\<lambda>_. None), ie_conn_dec = (\<lambda>_. None), ie_conn_proto = (\<lambda>_. []),
      ie_chan_enc = (\<lambda>_. None), ie_chan_dec = (\<lambda>_. None), ie_chan_proto = (\<lambda>_. [])\<rparr>"

lemma ex_sol_consensus: "sol_consensus_from_header ex_sol_hdr = Ok ex_sol_co"
proof -
  let ?w = "witness_new (replicate 32 8) (1, 0)"
  have w: "wi_trie_root ?w = replicate 32 8" by (simp add: witness_new_def Let_def)
  have a: "ahd_data (ap_account_hash_data (sh_witness_proof ex_sol_hdr)) = wi_trie_root ?w @ wi_rest ?w"
    using account_hash_data_fields(3)[of "replicate 32 6" "replicate 32 9" 42 0] by (simp add: ex_sol_hdr_def w)
  have "decode_witness ex_sol_hdr = Some (replicate 32 8, 1)"
    using decode_witness_agrees[OF a] witness_new_lengths[of "replicate 32 8" "(1, 0)"] witness_roundtrip[of "replicate 32 8" "(1, 0)"] by simp
  then show ?thesis by (simp add: sol_consensus_from_header_def sol_consensus_new_def ex_sol_co_def)
qed

definition ex_sol_storage :: "(unit, nat, bool) ibc_storage" where
  "ex_sol_storage = ex_storage\<lparr>st_private := (st_private ex_storage)\<lparr>ps_clients :=
     [\<lparr>cl_client_id = ''cf-solana-0'', cl_client_state = [1], cl_consensus_states = [((1, 1), replicate 16 0 @ [2])]\<rparr>]\<rparr>\<rparr>"

lemma ex_sol_found:
  "private_client (st_private ex_sol_storage) ''cf-solana-0'' = Ok (ClientIdx 0, ps_clients (st_private ex_sol_storage) ! 0)"
proof -
  have "client_idx_try_from ''cf-solana-0'' = Ok (ClientIdx 0)"
    by (simp add: client_idx_try_from_def client_idx_parse_def counter_parse_def from_counter_def u32_from_str_def digit_val_def)
  then show ?thesis by (simp add: private_client_Ok ex_sol_storage_def)
qed

lemma ex_sol_inv: "ibc_cinv ex_sol_env ex_sol_storage"
  by (simp add: ibc_cinv_def env_ok_def ex_sol_env_def private_inv_def ex_sol_storage_def client_store_inv_def states_inv_def
      IBC_MAX_CONSENSUS_STATES_def)

lemma ex_sol_stored:
  "stored_client ex_sol_env (st_private ex_sol_storage) ''cf-solana-0'' = Some (CsRollup ex_sol_cs)"
  "stored_consensus ex_sol_env (st_private ex_sol_storage) ''cf-solana-0'' = [(1, 1) \<mapsto> CoRollup ex_sol_co]"
  unfolding stored_found(1)[OF ex_sol_found] stored_found(2)[OF ex_sol_found]
  by (simp_all add: ex_sol_env_def ex_sol_storage_def fun_eq_iff)

lemma ex_sol_run:
  "sol_run (ibc_ctx ex_sol_env) any_sol_conv (\<lambda>_. replicate 32 5) (\<lambda>_. replicate 32 3)
     (\<lambda>st. stored_client ex_sol_env (st_private st)) ''cf-solana-0'' ex_sol_storage ex_sol_storage [ex_sol_hdr]"
proof (rule sol_run.update[OF sol_run.start])
  let ?ctx = "ibc_ctx ex_sol_env" and ?cid = "''cf-solana-0''"
  have c: "cc_consensus_state ?ctx ex_sol_storage ?cid (1, 1) = Ok (CoRollup ex_sol_co)"
    using ibc.consensus_Some[OF ex_sol_inv, of ?cid] ex_sol_stored(2) by simp
  have n: "cc_neighbourhood ?ctx ex_sol_storage ?cid (1, 1) = Ok (This (CoRollup ex_sol_co))"
    using ibc.nb_this[OF ex_sol_inv, of ?cid] ex_sol_stored(2) by simp
  have m: "cc_host_metadata ?ctx ex_sol_storage = Ok (1, (1, 1))"
    by (simp add: ibc_ctx_def ibc_host_metadata_def storage_head_def chain_head_def chain_get_def ok_or_def ex_sol_storage_def ex_storage_def
        manager_head_def ex_manager_def ex_genesis_def block_generate_genesis_def header_generate_genesis_def height_new_def u64_def)
  have h: "ibc_slot_height ex_sol_hdr = Ok (1, 1)" by (simp add: ibc_slot_height_def ex_sol_hdr_def height_new_def u64_def)
  show "stored_client ex_sol_env (st_private ex_sol_storage) ?cid = Some (sv_from_client any_sol_conv ex_sol_cs)"
    by (simp add: ex_sol_stored any_sol_conv_def)
  show "sol_status ?ctx any_sol_conv ex_sol_storage ex_sol_cs ?cid = Ok Active"
    using c m by (simp add: sol_status_def ex_sol_cs_def sol_latest_height_def height_new_def u64_def sol_consensus_has_expired_def
        sol_timestamp_def ex_sol_co_def saturating_add_def)
  have "ahd_key (ap_account_hash_data (sh_witness_proof ex_sol_hdr)) = replicate 32 9"
    using account_hash_data_fields(6)[of "replicate 32 6" "replicate 32 9" 42 0] by (simp add: ex_sol_hdr_def)
  then show "sol_do_verify_client_message (\<lambda>_. replicate 32 5) (\<lambda>_. replicate 32 3) ex_sol_cs (SolHeader ex_sol_hdr) = Ok ()"
    by (simp add: sol_do_verify_client_message_def sol_verify_header_def ex_sol_hdr_def calculate_bank_hash_def ap_expected_root_def
        ahd_calculate_hash_def ex_sol_cs_def)
  show "sol_do_check_for_misbehaviour ?ctx any_sol_conv ex_sol_storage ?cid (SolHeader ex_sol_hdr) = Ok False"
    using n by (simp add: sol_do_check_for_misbehaviour_def sol_check_for_misbehaviour_in_header_def h ex_sol_consensus client_specific_def)
  show "sol_do_update_state ?ctx any_sol_conv ex_sol_cs ?cid ex_sol_hdr ex_sol_storage = (ex_sol_storage, Ok [(1, 1)])"
    using c m by (simp add: sol_do_update_state_def h sol_prune_oldest_consensus_state_def ibc_ctx_def st_bind_def)
qed


end
