(* ===== verification/Ibc_Program.thy ===== *)
theory Ibc_Program
  imports Ibc_Mirror "HOL-Library.List_Lexorder"
begin

text \<open>
  The instructions of the IBC program, \<^verbatim>\<open>solana/solana-ibc/programs/solana-ibc/src/lib.rs\<close>: starting the guest
  chain, its blocks and signatures, the stakes that staking programs set, and what the fee collector
  administers. The accounts that the instructions name by their seeds are fields of the state, an
  instruction that fails leaves no trace, and the constraints on the accounts are guards. The clock, rent, the
  system program, the token program and the metadata program belong to the runtime; the
  verifier and the root of a fresh trie account are arguments. The instructions that hand messages
  to the ibc crate are not part of this theory.
\<close>

section \<open>The runtime\<close>

type_synonym pubkey = "byte list"

definition default_pubkey :: pubkey where "default_pubkey = replicate 32 0"

text \<open>The program, as \<open>declare_id!\<close> names it.\<close>

definition solana_ibc_ID :: pubkey where
  "solana_ibc_ID = to_be 32 0x130ad7dfffd21b0119e57114a32bb4419408df98f22e0a4c75de10d8e62a88d6"

text \<open>
  A transaction: who has signed it, which accounts it may write, the clock, and the program of the
  instruction that is being executed, \<open>None\<close> when the instructions sysvar cannot be read.
\<close>

record tx =
  tx_signers :: "pubkey list"
  tx_writable :: "pubkey list"
  tx_clock :: clock
  tx_program :: "pubkey option"

record account_info =
  ai_owner :: pubkey
  ai_lamports :: nat
  ai_data_len :: nat

type_synonym accounts = "pubkey \<Rightarrow> account_info"

text \<open>
  \<open>rt_minimum_balance\<close> is rent, \<open>rt_system_transfer\<close> the transfer of the system program, \<open>rt_init_mint\<close> the
  creation of a mint at an address with given decimals and authority and \<open>rt_create_metadata\<close> the metadata
  program for the mint at an address.
\<close>

record 't program_runtime =
  rt_pda :: "byte list list \<Rightarrow> pubkey \<Rightarrow> pubkey option"
  rt_minimum_balance :: "nat \<Rightarrow> nat option"
  rt_system_transfer :: "pubkey \<Rightarrow> pubkey \<Rightarrow> nat \<Rightarrow> accounts \<Rightarrow> accounts option"
  rt_init_mint :: "pubkey \<Rightarrow> nat \<Rightarrow> pubkey \<Rightarrow> 't \<Rightarrow> 't option"
  rt_create_metadata :: "pubkey \<Rightarrow> pubkey \<Rightarrow> string \<times> string \<times> string \<Rightarrow> 't \<Rightarrow> 't option"

definition CHAIN_SEED :: "byte list" where "CHAIN_SEED = map (of_char :: char \<Rightarrow> byte) ''chain''"
definition TRIE_SEED :: "byte list" where "TRIE_SEED = map (of_char :: char \<Rightarrow> byte) ''trie''"
definition FEE_SEED :: "byte list" where "FEE_SEED = map (of_char :: char \<Rightarrow> byte) ''fee''"
definition MINT :: "byte list" where "MINT = map (of_char :: char \<Rightarrow> byte) ''mint''"
definition MINT_ESCROW_SEED :: "byte list" where "MINT_ESCROW_SEED = map (of_char :: char \<Rightarrow> byte) ''mint_escrow''"

definition MINIMUM_FEE_ACCOUNT_BALANCE :: nat where "MINIMUM_FEE_ACCOUNT_BALANCE = 1000000000"

section \<open>State\<close>

text \<open>\<open>pr_storage\<close> is \<open>None\<close> until the accounts for the storage, the chain and the trie have been created.\<close>

record ('s, 'sig, 't) ibc_program =
  pr_storage :: "('s, pubkey, 'sig) ibc_storage option"
  pr_accounts :: accounts
  pr_tokens :: 't

type_synonym ('s, 'sig, 't) instruction_result = "(context_error ibc_error, ('s, 'sig, 't) ibc_program) outcome"

text \<open>What a zeroed account decodes to.\<close>

definition private_storage_zero :: private_storage where
  "private_storage_zero =
     \<lparr>ps_clients = [], ps_connections = [], ps_port_channel = [], ps_channel_counter = 0,
      ps_fee_collector = default_pubkey, ps_new_fee_collector_proposal = None, ps_assets = [], ps_fee_in_lamports = 0\<rparr>"

definition chain_data_zero :: "('pk, 'sig) chain_data" where
  "chain_data_zero = \<lparr>cd_inner = None, cd_events = []\<rparr>"

definition ensure :: "bool \<Rightarrow> 'e \<Rightarrow> ('e, unit) outcome" where
  "ensure b e = (if b then Ok () else Err e)"

lemma ensure_simps [simp]: "ensure b e = Ok u \<longleftrightarrow> b" "ensure True e = Ok ()" "ensure False e = Err e"
  by (simp_all add: ensure_def)

text \<open>What a call leaves when it succeeds; a failed instruction is rolled back.\<close>

definition committed :: "'w \<times> ('e, 'a) outcome \<Rightarrow> ('e, 'w) outcome" where
  "committed p = bind_outcome (snd p) (\<lambda>_. Ok (fst p))"

lemma committed_Ok: "committed p = Ok w \<longleftrightarrow> fst p = w \<and> (\<exists>a. snd p = Ok a)"
  by (auto simp: committed_def bind_outcome_Ok)

definition on_storage ::
  "(('s, pubkey, 'sig) ibc_storage \<Rightarrow> (context_error ibc_error, ('s, pubkey, 'sig) ibc_storage) outcome) \<Rightarrow>
   ('s, 'sig, 't) ibc_program \<Rightarrow> ('s, 'sig, 't) instruction_result" where
  "on_storage f p =
     bind_outcome (ok_or ProgramErr (pr_storage p)) (\<lambda>st.
     bind_outcome (f st) (\<lambda>st. Ok (p\<lparr>pr_storage := Some st\<rparr>)))"

definition on_chain ::
  "(('s, pubkey, 'sig) ibc_storage \<Rightarrow> (pubkey, 'sig) chain_data \<Rightarrow> (pubkey, 'sig) chain_data \<times> (context_error ibc_error, 'a) outcome) \<Rightarrow>
   ('s, pubkey, 'sig) ibc_storage \<Rightarrow> (context_error ibc_error, ('s, pubkey, 'sig) ibc_storage) outcome" where
  "on_chain f st = bind_outcome (committed (f st (st_chain st))) (\<lambda>w. Ok (st\<lparr>st_chain := w\<rparr>))"

section \<open>The guest chain\<close>

text \<open>\<open>trie0\<close> is what \<open>TrieAccount::new\<close> makes of the account that has just been created.\<close>

definition ix_initialise ::
  "pubkey crypto \<Rightarrow> 's trie \<Rightarrow> tx \<Rightarrow> pubkey \<Rightarrow> config \<Rightarrow> pubkey epoch \<Rightarrow> byte list \<Rightarrow>
   ('s, 'sig, 't) ibc_program \<Rightarrow> ('s, 'sig, 't) instruction_result" where
  "ix_initialise X trie0 tx sender cfg genesis_epoch sig_verify_program_id p =
     bind_outcome (ensure (sender \<in> set (tx_signers tx)) ProgramErr) (\<lambda>_.
     bind_outcome (ensure (pr_storage p = None) ProgramErr) (\<lambda>_.
     bind_outcome (on_chain (\<lambda>st. chain_initialise X (tx_clock tx) (tr_root_hash (st_provable st)) cfg genesis_epoch
         sig_verify_program_id)
       \<lparr>st_private = private_storage_zero, st_provable = trie0, st_chain = chain_data_zero\<rparr>) (\<lambda>st.
     Ok (p\<lparr>pr_storage := Some st\<rparr>))))"

definition ix_generate_block ::
  "pubkey crypto \<Rightarrow> tx \<Rightarrow> pubkey \<Rightarrow> ('s, 'sig, 't) ibc_program \<Rightarrow> ('s, 'sig, 't) instruction_result" where
  "ix_generate_block X tx sender p =
     bind_outcome (ensure (sender \<in> set (tx_signers tx)) ProgramErr) (\<lambda>_.
       on_storage (on_chain (\<lambda>st. chain_generate_block X (tx_clock tx) (tr_root_hash (st_provable st)))) p)"

text \<open>\<open>verifier\<close> is \<open>None\<close> when the instructions sysvar is refused.\<close>

definition ix_sign_block ::
  "pubkey crypto \<Rightarrow> (byte list \<Rightarrow> pubkey \<Rightarrow> 'sig \<Rightarrow> bool) option \<Rightarrow> tx \<Rightarrow> pubkey \<Rightarrow> 'sig \<Rightarrow>
   ('s, 'sig, 't) ibc_program \<Rightarrow> ('s, 'sig, 't) instruction_result" where
  "ix_sign_block X verifier tx sender signature p =
     bind_outcome (ensure (sender \<in> set (tx_signers tx)) ProgramErr) (\<lambda>_.
     bind_outcome (ok_or ProgramErr verifier) (\<lambda>verifier.
       on_storage (on_chain (\<lambda>st.
         st_bind (chain_sign_block X verifier sender signature) (\<lambda>quorum.
           if quorum then chain_maybe_generate_block X (tx_clock tx) (tr_root_hash (st_provable st))
           else st_return ()))) p))"

section \<open>Stakes\<close>

definition expected_program_ids :: "pubkey list" where
  "expected_program_ids =
     [to_be 32 0x738b7c23e23543d25ac128b2ed4c676194c0bb20fad0154e1a5b1e639c9c4de0,
      to_be 32 0x79890dbcf24e48972b57e5094e5889be2742ed560c8e8d4842a6fea84b5e9c37]"

definition check_staking_program :: "pubkey \<Rightarrow> (context_error ibc_error, unit) outcome" where
  "check_staking_program program_id = ensure (program_id \<in> set expected_program_ids) InvalidCPICall"

definition check_staking_caller :: "tx \<Rightarrow> (context_error ibc_error, unit) outcome" where
  "check_staking_caller tx = bind_outcome (ok_or ProgramErr (tx_program tx)) check_staking_program"

definition ix_set_stake ::
  "pubkey crypto \<Rightarrow> tx \<Rightarrow> pubkey \<Rightarrow> pubkey \<Rightarrow> nat \<Rightarrow> ('s, 'sig, 't) ibc_program \<Rightarrow> ('s, 'sig, 't) instruction_result" where
  "ix_set_stake X tx sender validator amount p =
     bind_outcome (ensure (sender \<in> set (tx_signers tx)) ProgramErr) (\<lambda>_.
     bind_outcome (check_staking_caller tx) (\<lambda>_.
       on_storage (on_chain (\<lambda>st.
         st_bind (chain_maybe_generate_block X (tx_clock tx) (tr_root_hash (st_provable st))) (\<lambda>_.
           chain_set_stake validator amount))) p))"

definition ix_update_stake ::
  "pubkey crypto \<Rightarrow> tx \<Rightarrow> pubkey \<Rightarrow> (pubkey \<times> int) list \<Rightarrow> ('s, 'sig, 't) ibc_program \<Rightarrow> ('s, 'sig, 't) instruction_result" where
  "ix_update_stake X tx sender stake_changes p =
     bind_outcome (ensure (sender \<in> set (tx_signers tx)) ProgramErr) (\<lambda>_.
     bind_outcome (check_staking_caller tx) (\<lambda>_.
       on_storage (on_chain (\<lambda>st.
         st_bind (chain_maybe_generate_block X (tx_clock tx) (tr_root_hash (st_provable st))) (\<lambda>_.
           chain_update_stake stake_changes))) p))"

section \<open>The fee collector\<close>

definition on_private_storage ::
  "(private_storage \<Rightarrow> (context_error ibc_error, private_storage) outcome) \<Rightarrow> ('s, 'sig, 't) ibc_program \<Rightarrow>
   ('s, 'sig, 't) instruction_result" where
  "on_private_storage f =
     on_storage (\<lambda>st. bind_outcome (f (st_private st)) (\<lambda>ps. Ok (st\<lparr>st_private := ps\<rparr>)))"

text \<open>\<open>has_one = fee_collector\<close> for an account that has signed.\<close>

definition is_fee_collector :: "tx \<Rightarrow> pubkey \<Rightarrow> private_storage \<Rightarrow> (context_error ibc_error, unit) outcome" where
  "is_fee_collector tx k ps = ensure (k \<in> set (tx_signers tx) \<and> ps_fee_collector ps = k) ProgramErr"

definition ix_set_fee_amount ::
  "tx \<Rightarrow> pubkey \<Rightarrow> 64 word \<Rightarrow> ('s, 'sig, 't) ibc_program \<Rightarrow> ('s, 'sig, 't) instruction_result" where
  "ix_set_fee_amount tx fee_collector new_amount =
     on_private_storage (\<lambda>ps.
       bind_outcome (is_fee_collector tx fee_collector ps) (\<lambda>_. Ok (ps\<lparr>ps_fee_in_lamports := new_amount\<rparr>)))"

definition ix_setup_fee_collector ::
  "tx \<Rightarrow> pubkey \<Rightarrow> pubkey \<Rightarrow> ('s, 'sig, 't) ibc_program \<Rightarrow> ('s, 'sig, 't) instruction_result" where
  "ix_setup_fee_collector tx signer new_fee_collector =
     on_private_storage (\<lambda>ps.
       bind_outcome (ensure (signer \<in> set (tx_signers tx)) ProgramErr) (\<lambda>_.
         if ps_fee_collector ps = default_pubkey then Ok (ps\<lparr>ps_fee_collector := new_fee_collector\<rparr>)
         else if signer = ps_fee_collector ps
         then Ok (ps\<lparr>ps_new_fee_collector_proposal := Some new_fee_collector\<rparr>)
         else Err InvalidFeeCollector))"

definition ix_accept_fee_collector_change ::
  "tx \<Rightarrow> pubkey \<Rightarrow> ('s, 'sig, 't) ibc_program \<Rightarrow> ('s, 'sig, 't) instruction_result" where
  "ix_accept_fee_collector_change tx signer =
     on_private_storage (\<lambda>ps.
       bind_outcome (ensure (signer \<in> set (tx_signers tx)) ProgramErr) (\<lambda>_.
         case ps_new_fee_collector_proposal ps of
           None \<Rightarrow> Err FeeCollectorChangeProposalNotSet
         | Some new_admin \<Rightarrow>
             if signer \<noteq> new_admin then Err InvalidFeeCollector
             else Ok (ps\<lparr>ps_fee_collector := new_admin, ps_new_fee_collector_proposal := None\<rparr>)))"

text \<open>
  The balance of an account can be borrowed once, only the owner of an account may take lamports
  from it and only accounts the transaction may write can receive them.
\<close>

definition ix_collect_fees ::
  "'t program_runtime \<Rightarrow> tx \<Rightarrow> pubkey \<Rightarrow> ('s, 'sig, 't) ibc_program \<Rightarrow> ('s, 'sig, 't) instruction_result" where
  "ix_collect_fees R tx fee_collector p =
     bind_outcome (ok_or ProgramErr (pr_storage p)) (\<lambda>st.
     bind_outcome (is_fee_collector tx fee_collector (st_private st)) (\<lambda>_.
     bind_outcome (ok_or ProgramErr (rt_pda R [FEE_SEED] solana_ibc_ID)) (\<lambda>fee_account.
     bind_outcome (ok_or ProgramErr (rt_minimum_balance R (ai_data_len (pr_accounts p fee_account)))) (\<lambda>rent.
       let minimum_balance = rent + MINIMUM_FEE_ACCOUNT_BALANCE;
           available_balance = ai_lamports (pr_accounts p fee_account);
           collected = ai_lamports (pr_accounts p fee_collector) + (available_balance - minimum_balance) in
       if 2 ^ 64 \<le> minimum_balance then Panic
       else if available_balance \<le> minimum_balance then Err InsufficientFeesToCollect
       else if fee_collector = fee_account \<or> ai_owner (pr_accounts p fee_account) \<noteq> solana_ibc_ID \<or>
               fee_account \<notin> set (tx_writable tx) \<or> fee_collector \<notin> set (tx_writable tx) then Err ProgramErr
       else if 2 ^ 64 \<le> collected then Panic
       else Ok (p\<lparr>pr_accounts := (pr_accounts p)
              (fee_collector := (pr_accounts p fee_collector)\<lparr>ai_lamports := collected\<rparr>,
               fee_account := (pr_accounts p fee_account)\<lparr>ai_lamports := minimum_balance\<rparr>)\<rparr>)))))"

text \<open>The mint is created first, with the authority that signs for the program.\<close>

definition ix_init_mint ::
  "'t program_runtime \<Rightarrow> tx \<Rightarrow> pubkey \<Rightarrow> nat \<Rightarrow> hash \<Rightarrow> nat \<Rightarrow> string \<Rightarrow> string \<Rightarrow> string \<Rightarrow>
   ('s, 'sig, 't) ibc_program \<Rightarrow> ('s, 'sig, 't) instruction_result" where
  "ix_init_mint R tx sender effective_decimals hashed_full_denom original_decimals name symbol uri p =
     bind_outcome (ok_or ProgramErr (pr_storage p)) (\<lambda>st.
     bind_outcome (is_fee_collector tx sender (st_private st)) (\<lambda>_.
     bind_outcome (ok_or ProgramErr (rt_pda R [MINT_ESCROW_SEED] solana_ibc_ID)) (\<lambda>mint_authority.
     bind_outcome (ok_or ProgramErr (rt_pda R [MINT, hashed_full_denom] solana_ibc_ID)) (\<lambda>token_mint.
     bind_outcome (ok_or ProgramErr (rt_init_mint R token_mint effective_decimals mint_authority (pr_tokens p))) (\<lambda>tokens.
     if original_decimals < effective_decimals then Err InvalidDecimals
     else if hashed_full_denom \<in> fst ` set (ps_assets (st_private st)) then Err AssetAlreadyExists
     else
       bind_outcome (ok_or ProgramErr (rt_create_metadata R token_mint mint_authority (name, symbol, uri) tokens)) (\<lambda>tokens.
       Ok (p\<lparr>pr_storage := Some (st\<lparr>st_private := (st_private st)\<lparr>ps_assets :=
                  AList.update hashed_full_denom
                    \<lparr>as_original_decimals = original_decimals, as_effective_decimals_on_sol = effective_decimals\<rparr>
                    (ps_assets (st_private st))\<rparr>\<rparr>),
              pr_tokens := tokens\<rparr>)))))))"

text \<open>
  An account grows by at most \<open>MAX_PERMITTED_DATA_INCREASE\<close> bytes in an instruction and only when the program
  owns it.
\<close>

definition ix_realloc_accounts ::
  "'t program_runtime \<Rightarrow> tx \<Rightarrow> pubkey \<Rightarrow> pubkey \<Rightarrow> nat \<Rightarrow> ('s, 'sig, 't) ibc_program \<Rightarrow> ('s, 'sig, 't) instruction_result" where
  "ix_realloc_accounts R tx payer account new_length p =
     bind_outcome (ensure (payer \<in> set (tx_signers tx) \<and> account \<in> set (tx_writable tx)) ProgramErr) (\<lambda>_.
       let old_length = ai_data_len (pr_accounts p account);
           new_length = max new_length old_length in
       bind_outcome (ok_or ProgramErr (rt_minimum_balance R old_length)) (\<lambda>old_rent.
       bind_outcome (ok_or ProgramErr (rt_minimum_balance R new_length)) (\<lambda>new_rent.
         if new_rent < old_rent then Panic
         else
           bind_outcome (ok_or ProgramErr (rt_system_transfer R payer account (new_rent - old_rent) (pr_accounts p))) (\<lambda>accounts.
           if old_length + MAX_PERMITTED_DATA_INCREASE < new_length then Err ProgramErr
           else if new_length \<noteq> old_length \<and> (ai_owner (accounts account) \<noteq> solana_ibc_ID \<or> MAX_PERMITTED_DATA_LENGTH < new_length)
           then Err ProgramErr
           else Ok (p\<lparr>pr_accounts := accounts(account := (accounts account)\<lparr>ai_data_len := new_length\<rparr>)\<rparr>)))))"

definition ix_update_chain_config ::
  "tx \<Rightarrow> pubkey \<Rightarrow> update_config \<Rightarrow> ('s, 'sig, 't) ibc_program \<Rightarrow> ('s, 'sig, 't) instruction_result" where
  "ix_update_chain_config tx fee_collector config_payload =
     on_storage (\<lambda>st.
       bind_outcome (is_fee_collector tx fee_collector (st_private st)) (\<lambda>_.
         on_chain (\<lambda>_. chain_update_config config_payload) st))"

text \<open>\<open>with_delay\<close> is \<open>ConnectionEnd::new\<close> on the fields of a connection end and a delay in nanoseconds.\<close>

definition ix_update_connection_delay_period ::
  "('s, 'cs, 'co, 'ce, 'ch) ibc_env \<Rightarrow> pubkey crypto \<Rightarrow> ('ce \<Rightarrow> 64 word \<Rightarrow> (context_error, 'ce) outcome) \<Rightarrow>
   tx \<Rightarrow> pubkey \<Rightarrow> 16 word \<Rightarrow> 64 word \<Rightarrow> ('s, 'sig, 't) ibc_program \<Rightarrow> ('s, 'sig, 't) instruction_result" where
  "ix_update_connection_delay_period E X with_delay tx sender connection_id_idx delay_period_in_ns =
     on_storage (\<lambda>st.
       bind_outcome (is_fee_collector tx sender (st_private st)) (\<lambda>_.
         let connection_id = ''connection-'' @ show_nat (unat connection_id_idx) in
         if length (ps_connections (st_private st)) \<le> unat connection_id_idx
         then Err (ContextErr (CtxId (ConnectionNotFound connection_id)))
         else
           bind_outcome (on_chain (\<lambda>st. chain_maybe_generate_block X (tx_clock tx) (tr_root_hash (st_provable st))) st) (\<lambda>st.
           bind_outcome (map_error ContextErr (connection_end E st connection_id)) (\<lambda>connection_end.
           bind_outcome (map_error ContextErr (with_delay connection_end delay_period_in_ns)) (\<lambda>updated_connection.
           map_error ContextErr (committed (store_connection E connection_id updated_connection st)))))))"

section \<open>Routing\<close>

definition get_route :: "string \<Rightarrow> bool" where "get_route module_id \<longleftrightarrow> module_id = ''transfer''"

definition lookup_module :: "string \<Rightarrow> string option" where
  "lookup_module port_id = (if port_id = ''transfer'' then Some ''transfer'' else None)"

section \<open>The program\<close>

text \<open>Anchor's dispatcher, and what is outside of the program. A verifier is made for each transaction.\<close>

datatype 'sig instruction =
  Initialise pubkey config "pubkey epoch" "byte list"
| GenerateBlock pubkey
| SignBlock pubkey 'sig
| SetStake pubkey pubkey nat
| UpdateStake pubkey "(pubkey \<times> int) list"
| SetFeeAmount pubkey "64 word"
| SetupFeeCollector pubkey pubkey
| AcceptFeeCollectorChange pubkey
| CollectFees pubkey
| InitMint pubkey nat hash nat string string string
| ReallocAccounts pubkey pubkey nat
| UpdateChainConfig pubkey update_config
| UpdateConnectionDelayPeriod pubkey "16 word" "64 word"

record ('s, 'cs, 'co, 'ce, 'ch, 'sig, 't) program_env =
  pe_ibc :: "('s, 'cs, 'co, 'ce, 'ch) ibc_env"
  pe_crypto :: "pubkey crypto"
  pe_runtime :: "'t program_runtime"
  pe_trie0 :: "'s trie"
  pe_verifier :: "tx \<Rightarrow> (byte list \<Rightarrow> pubkey \<Rightarrow> 'sig \<Rightarrow> bool) option"
  pe_with_delay :: "'ce \<Rightarrow> 64 word \<Rightarrow> (context_error, 'ce) outcome"

definition process ::
  "('s, 'cs, 'co, 'ce, 'ch, 'sig, 't) program_env \<Rightarrow> tx \<Rightarrow> 'sig instruction \<Rightarrow> ('s, 'sig, 't) ibc_program \<Rightarrow>
   ('s, 'sig, 't) instruction_result" where
  "process Q tx ix =
     (case ix of
        Initialise k cfg e pid \<Rightarrow> ix_initialise (pe_crypto Q) (pe_trie0 Q) tx k cfg e pid
      | GenerateBlock k \<Rightarrow> ix_generate_block (pe_crypto Q) tx k
      | SignBlock k sig \<Rightarrow> ix_sign_block (pe_crypto Q) (pe_verifier Q tx) tx k sig
      | SetStake k v amount \<Rightarrow> ix_set_stake (pe_crypto Q) tx k v amount
      | UpdateStake k changes \<Rightarrow> ix_update_stake (pe_crypto Q) tx k changes
      | SetFeeAmount k amount \<Rightarrow> ix_set_fee_amount tx k amount
      | SetupFeeCollector k new \<Rightarrow> ix_setup_fee_collector tx k new
      | AcceptFeeCollectorChange k \<Rightarrow> ix_accept_fee_collector_change tx k
      | CollectFees k \<Rightarrow> ix_collect_fees (pe_runtime Q) tx k
      | InitMint k eff denom orig name symbol uri \<Rightarrow> ix_init_mint (pe_runtime Q) tx k eff denom orig name symbol uri
      | ReallocAccounts k account len \<Rightarrow> ix_realloc_accounts (pe_runtime Q) tx k account len
      | UpdateChainConfig k u \<Rightarrow> ix_update_chain_config tx k u
      | UpdateConnectionDelayPeriod k i d \<Rightarrow>
          ix_update_connection_delay_period (pe_ibc Q) (pe_crypto Q) (pe_with_delay Q) tx k i d)"

text \<open>A sequence of transactions; one that fails changes nothing.\<close>

fun run_txs ::
  "('s, 'cs, 'co, 'ce, 'ch, 'sig, 't) program_env \<Rightarrow> (tx \<times> 'sig instruction) list \<Rightarrow> ('s, 'sig, 't) ibc_program \<Rightarrow>
   ('s, 'sig, 't) ibc_program" where
  "run_txs Q [] p = p"
| "run_txs Q ((tx, ix) # txs) p = run_txs Q txs (case process Q tx ix p of Ok p' \<Rightarrow> p' | _ \<Rightarrow> p)"

section \<open>What an instruction can change\<close>

definition chain_stakes :: "('pk, 'sig) chain_data \<Rightarrow> 'pk candidate list" where
  "chain_stakes w = (case cd_inner w of None \<Rightarrow> [] | Some i \<Rightarrow> cs_candidates (mg_candidates (ci_manager i)))"

definition chain_config :: "('pk, 'sig) chain_data \<Rightarrow> config option" where
  "chain_config w = map_option (\<lambda>i. mg_config (ci_manager i)) (cd_inner w)"

definition fee_role :: "private_storage \<Rightarrow> pubkey \<times> pubkey option \<times> 64 word \<times> (hash, asset) linear_map" where
  "fee_role ps = (ps_fee_collector ps, ps_new_fee_collector_proposal ps, ps_fee_in_lamports ps, ps_assets ps)"

lemma on_storage_Ok:
  "on_storage f p = Ok p' \<longleftrightarrow> (\<exists>st st'. pr_storage p = Some st \<and> f st = Ok st' \<and> p' = p\<lparr>pr_storage := Some st'\<rparr>)"
  by (auto simp: on_storage_def bind_outcome_Ok ok_or_Ok)

lemma on_chain_Ok:
  "on_chain f st = Ok st' \<longleftrightarrow> (\<exists>w a. f st (st_chain st) = (w, Ok a) \<and> st' = st\<lparr>st_chain := w\<rparr>)"
  by (cases "f st (st_chain st)") (auto simp: on_chain_def bind_outcome_Ok committed_Ok)

lemma on_private_storage_Ok:
  "on_private_storage f p = Ok p' \<longleftrightarrow>
     (\<exists>st ps. pr_storage p = Some st \<and> f (st_private st) = Ok ps \<and> p' = p\<lparr>pr_storage := Some (st\<lparr>st_private := ps\<rparr>)\<rparr>)"
  by (auto simp: on_private_storage_def on_storage_Ok bind_outcome_Ok)

lemma bind_steps_Ok: "st_bind m f w = (w'', Ok b) \<longleftrightarrow> (\<exists>w' a. m w = (w', Ok a) \<and> f a w' = (w'', Ok b))"
  by (auto simp: st_bind_def split: prod.splits outcome.splits)

lemmas instruction_Ok = on_storage_Ok on_chain_Ok on_private_storage_Ok bind_steps_Ok bind_outcome_Ok ok_or_Ok

text \<open>Blocks and signatures leave the stakes and the configuration alone.\<close>

lemma manager_generate_keeps:
  "manager_generate_next X hh ts root m = (m', r) \<Longrightarrow>
     cs_candidates (mg_candidates m') = cs_candidates (mg_candidates m) \<and> mg_config m' = mg_config m"
  by (auto simp: manager_generate_next_def clear_changed_flag_def Let_def split: outcome.splits)

lemma generate_keeps:
  assumes "inner_generate_block X clock root force i w = (w', r)" "cd_inner w = Some i"
  shows "chain_stakes w' = chain_stakes w" "chain_config w' = chain_config w"
  using assms
  by (auto simp: inner_generate_block_def chain_stakes_def chain_config_def emit_def Let_def
      dest!: manager_generate_keeps split: outcome.splits if_splits prod.splits)

lemma chain_generate_keeps:
  assumes "chain_generate_block X clock root w = (w', r) \<or> chain_maybe_generate_block X clock root w = (w', r)"
  shows "chain_stakes w' = chain_stakes w" "chain_config w' = chain_config w"
  using assms generate_keeps
  by (auto simp: chain_generate_block_def chain_maybe_generate_block_def on_inner_def split: option.splits)

lemma add_signature_keeps:
  "add_signature verifier k sig m = (m', r) \<Longrightarrow> mg_candidates m' = mg_candidates m \<and> mg_config m' = mg_config m"
  by (auto simp: add_signature_def Let_def split: option.splits if_splits)

lemma chain_sign_keeps:
  assumes "chain_sign_block X verifier k sig w = (w', r)"
  shows "chain_stakes w' = chain_stakes w" "chain_config w' = chain_config w"
  using assms
  by (auto simp: chain_sign_block_def on_inner_def chain_stakes_def chain_config_def set_manager_def emit_def Let_def
      dest!: add_signature_keeps split: option.splits outcome.splits prod.splits if_splits)

lemma manager_config_keeps:
  "manager_update_config u m = (m', r) \<Longrightarrow> cs_candidates (mg_candidates m') = cs_candidates (mg_candidates m)"
  by (auto simp: manager_update_config_def update_max_validators_def Let_def split: outcome.splits option.splits if_splits)

lemma chain_config_keeps:
  "chain_update_config u w = (w', r) \<Longrightarrow> chain_stakes w' = chain_stakes w"
  by (auto simp: chain_update_config_def on_inner_def chain_stakes_def set_manager_def Let_def
      dest!: manager_config_keeps split: option.splits prod.splits)

lemma update_candidate_keeps: "update_candidate k f g m = (m', r) \<Longrightarrow> mg_config m' = mg_config m"
  by (auto simp: update_candidate_def split: outcome.splits)

lemma update_stakes_keeps: "update_stakes changes m = (m', r) \<Longrightarrow> mg_config m' = mg_config m"
proof (induction changes arbitrary: m)
  case (Cons c changes)
  then show ?case
    by (cases c) (auto simp: Let_def dest!: update_candidate_keeps Cons.IH split: prod.splits outcome.splits)
qed simp

lemma chain_stake_keeps:
  assumes "chain_set_stake k n w = (w', r) \<or> chain_update_stake changes w = (w', r)"
  shows "chain_config w' = chain_config w"
  using assms
  by (auto simp: chain_set_stake_def chain_update_stake_def on_inner_def chain_config_def set_manager_def Let_def
      dest!: update_candidate_keeps update_stakes_keeps split: option.splits prod.splits)

lemma store_connection_keeps:
  assumes "store_connection E cid ce st = (st', r)"
  shows "fee_role (st_private st') = fee_role (st_private st)" "st_chain st' = st_chain st"
  using assms
  by (auto simp: store_connection_def st_bind_def on_private_def provable_set_def fee_role_def Let_def
      split: prod.splits outcome.splits if_splits)

text \<open>The steps of the program once it is initialised.\<close>

lemma store_connection_committed:
  "committed (store_connection E cid ce st) = Ok st' \<Longrightarrow>
     fee_role (st_private st') = fee_role (st_private st) \<and> st_chain st' = st_chain st"
  using store_connection_keeps by (metis committed_Ok prod.collapse)

lemma delay_keeps:
  assumes "ix_update_connection_delay_period E X with_delay tx k i d p = Ok p'" "pr_storage p = Some st"
  shows "\<exists>st'. pr_storage p' = Some st' \<and> chain_stakes (st_chain st') = chain_stakes (st_chain st) \<and>
    chain_config (st_chain st') = chain_config (st_chain st) \<and> fee_role (st_private st') = fee_role (st_private st)"
  using assms chain_generate_keeps
  by (auto simp: ix_update_connection_delay_period_def instruction_Ok map_error_Ok Let_def
      dest!: store_connection_committed split: if_splits) blast+

lemma process_stakes:
  assumes "process Q tx ix p = Ok p'" "pr_storage p = Some st" "tx_program tx \<notin> Some ` set expected_program_ids"
  shows "\<exists>st'. pr_storage p' = Some st' \<and> chain_stakes (st_chain st') = chain_stakes (st_chain st)"
proof (cases ix)
  case (SetStake k v n)
  then show ?thesis using assms
    by (auto simp: process_def ix_set_stake_def check_staking_caller_def check_staking_program_def instruction_Ok)
next
  case (UpdateStake k cs)
  then show ?thesis using assms
    by (auto simp: process_def ix_update_stake_def check_staking_caller_def check_staking_program_def instruction_Ok)
next
  case (GenerateBlock k)
  then show ?thesis using assms chain_generate_keeps(1)
    by (fastforce simp: process_def ix_generate_block_def instruction_Ok)
next
  case (SignBlock k sig)
  then show ?thesis using assms
    by (auto simp: process_def ix_sign_block_def instruction_Ok
        dest!: chain_sign_keeps(1) chain_generate_keeps(1)[OF disjI2] split: if_splits)
next
  case (UpdateChainConfig k u)
  then show ?thesis using assms by (auto simp: process_def ix_update_chain_config_def instruction_Ok chain_config_keeps)
next
  case (UpdateConnectionDelayPeriod k i d)
  then show ?thesis using assms delay_keeps by (fastforce simp: process_def)
qed (use assms in \<open>auto simp: process_def ix_initialise_def ix_set_fee_amount_def ix_setup_fee_collector_def
  ix_accept_fee_collector_change_def ix_collect_fees_def ix_init_mint_def ix_realloc_accounts_def instruction_Ok Let_def
  split: if_splits\<close>)

lemma process_role:
  assumes "process Q tx ix p = Ok p'" "pr_storage p = Some st" "ps_fee_collector (st_private st) \<noteq> default_pubkey"
    "ps_fee_collector (st_private st) \<notin> set (tx_signers tx)"
    "\<And>k. ps_new_fee_collector_proposal (st_private st) = Some k \<Longrightarrow> k \<notin> set (tx_signers tx)"
  shows "\<exists>st'. pr_storage p' = Some st' \<and> fee_role (st_private st') = fee_role (st_private st) \<and>
    chain_config (st_chain st') = chain_config (st_chain st)"
proof (cases ix)
  case (SetStake k v n)
  then show ?thesis using assms(1,2)
    by (auto simp: process_def ix_set_stake_def instruction_Ok
        dest!: chain_generate_keeps(2)[OF disjI2] chain_stake_keeps[OF disjI1])
next
  case (UpdateStake k cs)
  then show ?thesis using assms(1,2)
    by (auto simp: process_def ix_update_stake_def instruction_Ok
        dest!: chain_generate_keeps(2)[OF disjI2] chain_stake_keeps[OF disjI2])
next
  case (GenerateBlock k)
  then show ?thesis using assms(1,2)
    by (auto simp: process_def ix_generate_block_def instruction_Ok dest!: chain_generate_keeps(2)[OF disjI1])
next
  case (SignBlock k sig)
  then show ?thesis using assms(1,2)
    by (auto simp: process_def ix_sign_block_def instruction_Ok
        dest!: chain_sign_keeps(2) chain_generate_keeps(2)[OF disjI2] split: if_splits)
next
  case (UpdateConnectionDelayPeriod k i d)
  then show ?thesis using assms(1,2) delay_keeps by (fastforce simp: process_def)
qed (use assms in \<open>auto simp: process_def ix_initialise_def ix_set_fee_amount_def ix_setup_fee_collector_def
  ix_accept_fee_collector_change_def ix_collect_fees_def ix_init_mint_def ix_realloc_accounts_def ix_update_chain_config_def
  is_fee_collector_def instruction_Ok Let_def split: if_splits option.splits\<close>)

section \<open>Theorems\<close>

text \<open>A chain with one candidate, a program that holds it and a transaction of somebody else.\<close>

definition ex_ibc_manager :: "pubkey chain_manager" where
  "ex_ibc_manager = \<lparr>mg_config = ex_config, mg_genesis = replicate 32 1,
     mg_header = bl_header ex_genesis,
     mg_next_epoch = \<lparr>ep_validators = [Validator [1] 5], ep_quorum_stake = 5, ep_total_stake = 5\<rparr>,
     mg_pending_block = None, mg_epoch_height = 1,
     mg_candidates = \<lparr>cs_max_validators = 3, cs_candidates = [Candidate [1] 5], cs_changed = False, cs_head_stake = 5\<rparr>,
     mg_consensus_states = []\<rparr>"

definition ex_ibc_storage :: "(unit, pubkey, bool) ibc_storage" where
  "ex_ibc_storage = \<lparr>st_private = private_storage_zero\<lparr>ps_fee_collector := [7], ps_fee_in_lamports := 30\<rparr>, st_provable = trie_new (),
     st_chain = \<lparr>cd_inner = Some \<lparr>ci_last_check_height = 1, ci_manager = ex_ibc_manager, ci_sig_verify_program_id = []\<rparr>, cd_events = []\<rparr>\<rparr>"

definition ex_program :: "(unit, bool, unit) ibc_program" where
  "ex_program = \<lparr>pr_storage = Some ex_ibc_storage,
     pr_accounts = (\<lambda>k. \<lparr>ai_owner = solana_ibc_ID, ai_lamports = 3000000000, ai_data_len = 0\<rparr>), pr_tokens = ()\<rparr>"

definition ex_tx :: tx where
  "ex_tx = \<lparr>tx_signers = [[3]], tx_writable = [], tx_clock = Some (9, 9), tx_program = Some [4]\<rparr>"





text \<open>
  Collecting fees moves lamports without creating or losing any, leaves the fee account exactly what rent
  and the reserve of one SOL require, and touches no other account.
\<close>

lemma collect_fees_conserves:
  assumes "ix_collect_fees R tx k p = Ok p'"
  shows "\<exists>a rent. rt_pda R [FEE_SEED] solana_ibc_ID = Some a \<and> a \<noteq> k \<and>
    rt_minimum_balance R (ai_data_len (pr_accounts p a)) = Some rent \<and>
    ai_lamports (pr_accounts p' a) = rent + 1000000000 \<and>
    ai_lamports (pr_accounts p' a) + ai_lamports (pr_accounts p' k) = ai_lamports (pr_accounts p a) + ai_lamports (pr_accounts p k) \<and>
    ai_lamports (pr_accounts p k) < ai_lamports (pr_accounts p' k) \<and> k \<in> set (tx_signers tx) \<and>
    pr_storage p' = pr_storage p \<and> (\<forall>b. b \<noteq> a \<longrightarrow> b \<noteq> k \<longrightarrow> pr_accounts p' b = pr_accounts p b)"
  using assms
  by (auto simp: ix_collect_fees_def is_fee_collector_def instruction_Ok MINIMUM_FEE_ACCOUNT_BALANCE_def Let_def split: if_splits)

end
