(* ===== verification/Restaking.thy ===== *)
theory Restaking
  imports Ibc_Program
begin

text \<open>
  The restaking program, \<^verbatim>\<open>solana/restaking/programs/restaking/src/{lib,token,validation,constants}.rs\<close>: users deposit
  whitelisted tokens into vaults, receive an NFT as receipt for each deposit and delegate the stake to a
  validator of the guest chain; after an unbonding period they get the tokens back. The program calls
  the token program, the metadata program and the IBC program. The former two are a parameter, \<open>spl\<close>, the
  latter is the one of \<open>Ibc_Program\<close>. The constraints on the accounts of an instruction are guards, an
  instruction that fails leaves no trace, and lamports are not modelled. As in the rest of the development the
  feature \<open>witness\<close> is off, and so is \<open>mocks\<close>.
\<close>

section \<open>The programs that are called\<close>

record token_account =
  ta_mint :: pubkey
  ta_owner :: pubkey
  ta_amount :: nat

record mint_account =
  mi_decimals :: nat
  mi_authority :: "pubkey option"

text \<open>
  The token program, the associated token program and the metadata program on a state \<open>'t\<close>. An instruction gets
  the keys that have signed and returns \<open>None\<close> when it is refused.
\<close>

record 't spl =
  spl_account :: "'t \<Rightarrow> pubkey \<Rightarrow> token_account option"
  spl_mint :: "'t \<Rightarrow> pubkey \<Rightarrow> mint_account option"
  spl_init_account :: "pubkey \<Rightarrow> pubkey \<Rightarrow> pubkey \<Rightarrow> 't \<Rightarrow> 't option"
  spl_init_mint :: "pubkey \<Rightarrow> nat \<Rightarrow> pubkey \<Rightarrow> pubkey \<Rightarrow> 't \<Rightarrow> 't option"
  spl_transfer :: "pubkey list \<Rightarrow> pubkey \<Rightarrow> pubkey \<Rightarrow> pubkey \<Rightarrow> nat \<Rightarrow> 't \<Rightarrow> 't option"
  spl_mint_to :: "pubkey list \<Rightarrow> pubkey \<Rightarrow> pubkey \<Rightarrow> pubkey \<Rightarrow> nat \<Rightarrow> 't \<Rightarrow> 't option"
  spl_close_account :: "pubkey list \<Rightarrow> pubkey \<Rightarrow> pubkey \<Rightarrow> pubkey \<Rightarrow> 't \<Rightarrow> 't option"
  spl_ata :: "pubkey \<Rightarrow> pubkey \<Rightarrow> pubkey"
  mpl_ID :: pubkey
  mpl_create_metadata :: "pubkey list \<Rightarrow> pubkey \<Rightarrow> pubkey \<Rightarrow> pubkey \<Rightarrow> string \<times> string \<times> string \<Rightarrow> 't \<Rightarrow> 't option"
  mpl_create_master_edition :: "pubkey list \<Rightarrow> pubkey \<Rightarrow> pubkey \<Rightarrow> pubkey \<Rightarrow> pubkey \<Rightarrow> nat option \<Rightarrow> 't \<Rightarrow> 't option"
  mpl_burn_nft :: "pubkey list \<Rightarrow> pubkey \<Rightarrow> pubkey \<Rightarrow> pubkey \<Rightarrow> pubkey \<Rightarrow> pubkey \<Rightarrow> 't \<Rightarrow> 't option"

text \<open>
  \<open>re_pda\<close> is \<open>try_find_program_address\<close>, without the bump that is found. Seeds that sign for the program
  carry that bump, so that they sign for the same address.
\<close>

record 't restaking_env =
  re_pda :: "byte list list \<Rightarrow> pubkey \<Rightarrow> pubkey option"
  re_spl :: "'t spl"
  re_crypto :: "pubkey crypto"
  re_instructions_ID :: pubkey

section \<open>State\<close>

definition restaking_ID :: pubkey where
  "restaking_ID = to_be 32 0x738b7c23e23543d25ac128b2ed4c676194c0bb20fad0154e1a5b1e639c9c4de0"

abbreviation bytes_of :: "string \<Rightarrow> byte list" where "bytes_of \<equiv> map of_char"

definition STAKING_PARAMS_SEED :: "byte list" where "STAKING_PARAMS_SEED = bytes_of ''staking_params''"
definition VAULT_PARAMS_SEED :: "byte list" where "VAULT_PARAMS_SEED = bytes_of ''vault_params''"
definition VAULT_SEED :: "byte list" where "VAULT_SEED = bytes_of ''vault''"
definition TEST_SEED :: "byte list" where "TEST_SEED = bytes_of ''abcdefg2''"
definition ESCROW_RECEIPT_SEED :: "byte list" where "ESCROW_RECEIPT_SEED = bytes_of ''escrow_receipt''"
definition REWARDS_SEED :: "byte list" where "REWARDS_SEED = bytes_of ''rewards''"

definition TOKEN_NAME :: string where "TOKEN_NAME = ''Composable Restaking Position''"
definition TOKEN_SYMBOL :: string where "TOKEN_SYMBOL = ''CRP''"
definition TOKEN_URI :: string where "TOKEN_URI = ''https://arweave.net/QbxPlvN1nHFG0AVXfGNdlXUk-LEkrQxFffI3fOUDciA''"

definition UNBONDING_PERIOD_IN_SEC :: nat where "UNBONDING_PERIOD_IN_SEC = 7 * 24 * 60 * 60"

record staking_params =
  sp_admin :: pubkey
  sp_whitelisted_tokens :: "pubkey list"
  sp_guest_chain_program_id :: "pubkey option"
  sp_rewards_token_mint :: pubkey
  sp_staking_cap :: nat
  sp_total_deposited_amount :: nat
  sp_new_admin_proposal :: "pubkey option"

datatype service = GuestChain (service_validator: pubkey)

record withdrawal_request_params =
  wr_timestamp_in_sec :: nat
  wr_owner :: pubkey
  wr_token_account :: pubkey

record vault =
  va_stake_timestamp_sec :: int
  va_service :: "service option"
  va_stake_amount :: nat
  va_stake_mint :: pubkey
  va_last_received_rewards_height :: nat
  va_withdrawal_request :: "withdrawal_request_params option"

text \<open>The last three are an error of the framework, one of a called program and one of the IBC program.\<close>

datatype restaking_error =
  TokenAlreadyWhitelisted
| TokenNotWhitelisted
| OperationNotAllowed
| SubtractionOverflow
| InvalidTokenMint
| InsufficientReceiptTokenBalance
| MissingService
| StakingCapExceeded
| NewStakingCapShouldBeMoreThanExistingOne
| GuestChainAlreadyInitialized
| AccountValidationFailedForCPI
| ServiceAlreadySet
| NoProposedAdmin
| CannotWithdrawDuringUnbondingPeriod
| NoWithdrawalRequest
| InvalidTokenAccount
| InvalidWithdrawer
| ConstraintSigner
| FrameworkErr
| CallErr
| GuestErr "context_error ibc_error"

text \<open>
  The accounts of the program, the vaults by their addresses, and the state of the programs it calls: the
  token state is the one the IBC program sees.
\<close>

record ('s, 'sig, 't) restaking =
  rs_params :: "staking_params option"
  rs_vaults :: "pubkey \<rightharpoonup> vault"
  rs_guest :: "('s, 'sig, 't) ibc_program"

abbreviation rs_tokens :: "('s, 'sig, 't) restaking \<Rightarrow> 't" where
  "rs_tokens w \<equiv> pr_tokens (rs_guest w)"

definition set_tokens :: "'t \<Rightarrow> ('s, 'sig, 't) restaking \<Rightarrow> ('s, 'sig, 't) restaking" where
  "set_tokens t w = w\<lparr>rs_guest := (rs_guest w)\<lparr>pr_tokens := t\<rparr>\<rparr>"

type_synonym ('s, 'sig, 't) restaking_result = "(restaking_error, ('s, 'sig, 't) restaking) outcome"

section \<open>Loading and saving accounts\<close>

definition find_key :: "'t restaking_env \<Rightarrow> byte list list \<Rightarrow> (restaking_error, pubkey) outcome" where
  "find_key E seeds = ok_or FrameworkErr (re_pda E seeds restaking_ID)"

definition signed :: "tx \<Rightarrow> pubkey \<Rightarrow> (restaking_error, unit) outcome" where
  "signed tx k = ensure (k \<in> set (tx_signers tx)) FrameworkErr"

text \<open>\<open>Account<StakingParams>\<close> with its seeds: the address and the contents.\<close>

definition load_params ::
  "'t restaking_env \<Rightarrow> ('s, 'sig, 't) restaking \<Rightarrow> (restaking_error, pubkey \<times> staking_params) outcome" where
  "load_params E w =
     bind_outcome (find_key E [STAKING_PARAMS_SEED, TEST_SEED]) (\<lambda>k.
     bind_outcome (ok_or FrameworkErr (rs_params w)) (\<lambda>p. Ok (k, p)))"

text \<open>The account has 1024 bytes; saving fails when the contents do not fit.\<close>

definition staking_params_size :: "staking_params \<Rightarrow> nat" where
  "staking_params_size p =
     8 + 32 + (4 + 32 * length (sp_whitelisted_tokens p)) + (if sp_guest_chain_program_id p = None then 1 else 33) +
     32 + 16 + 16 + (if sp_new_admin_proposal p = None then 1 else 33)"

definition save_params :: "staking_params \<Rightarrow> ('s, 'sig, 't) restaking \<Rightarrow> ('s, 'sig, 't) restaking_result" where
  "save_params p w =
     bind_outcome (ensure (staking_params_size p \<le> 1024) FrameworkErr) (\<lambda>_. Ok (w\<lparr>rs_params := Some p\<rparr>))"

definition load_vault ::
  "'t restaking_env \<Rightarrow> pubkey \<Rightarrow> ('s, 'sig, 't) restaking \<Rightarrow> (restaking_error, pubkey \<times> vault) outcome" where
  "load_vault E receipt_token_mint w =
     bind_outcome (find_key E [VAULT_PARAMS_SEED, receipt_token_mint]) (\<lambda>k.
     bind_outcome (ok_or FrameworkErr (rs_vaults w k)) (\<lambda>v. Ok (k, v)))"

text \<open>\<open>token::mint\<close> and \<open>token::authority\<close>, and constraints on a mint.\<close>

definition token_is :: "'t restaking_env \<Rightarrow> 't \<Rightarrow> pubkey \<Rightarrow> (token_account \<Rightarrow> bool) \<Rightarrow> (restaking_error, token_account) outcome" where
  "token_is E t k P =
     bind_outcome (ok_or FrameworkErr (spl_account (re_spl E) t k)) (\<lambda>a.
     bind_outcome (ensure (P a) FrameworkErr) (\<lambda>_. Ok a))"

definition mint_is :: "'t restaking_env \<Rightarrow> 't \<Rightarrow> pubkey \<Rightarrow> (mint_account \<Rightarrow> bool) \<Rightarrow> (restaking_error, unit) outcome" where
  "mint_is E t k P =
     bind_outcome (ok_or FrameworkErr (spl_mint (re_spl E) t k)) (\<lambda>m. ensure (P m) FrameworkErr)"

abbreviation held_by :: "pubkey \<Rightarrow> pubkey \<Rightarrow> token_account \<Rightarrow> bool" where
  "held_by mint owner a \<equiv> ta_mint a = mint \<and> ta_owner a = owner"

definition init_if_needed :: "'t restaking_env \<Rightarrow> pubkey \<Rightarrow> pubkey \<Rightarrow> pubkey \<Rightarrow> 't \<Rightarrow> (restaking_error, 't) outcome" where
  "init_if_needed E k mint owner t =
     (case spl_account (re_spl E) t k of
        None \<Rightarrow> ok_or CallErr (spl_init_account (re_spl E) k mint owner t)
      | Some a \<Rightarrow> bind_outcome (ensure (held_by mint owner a) FrameworkErr) (\<lambda>_. Ok t))"

text \<open>The accounts of the metadata program for a mint.\<close>

definition nft_metadata :: "'t restaking_env \<Rightarrow> pubkey \<Rightarrow> (restaking_error, pubkey) outcome" where
  "nft_metadata E mint =
     ok_or FrameworkErr (re_pda E [bytes_of ''metadata'', mpl_ID (re_spl E), mint] (mpl_ID (re_spl E)))"

definition master_edition_account :: "'t restaking_env \<Rightarrow> pubkey \<Rightarrow> (restaking_error, pubkey) outcome" where
  "master_edition_account E mint =
     ok_or FrameworkErr (re_pda E [bytes_of ''metadata'', mpl_ID (re_spl E), mint, bytes_of ''edition''] (mpl_ID (re_spl E)))"

text \<open>A receipt is a mint without decimals whose authority is the master edition.\<close>

definition receipt_mint_ok :: "'t restaking_env \<Rightarrow> 't \<Rightarrow> pubkey \<Rightarrow> (restaking_error, pubkey) outcome" where
  "receipt_mint_ok E t mint =
     bind_outcome (master_edition_account E mint) (\<lambda>edition.
     bind_outcome (mint_is E t mint (\<lambda>m. mi_decimals m = 0 \<and> mi_authority m = Some edition)) (\<lambda>_. Ok edition))"

section \<open>Calls\<close>

record transfer_accounts =
  tf_from :: pubkey
  tf_to :: pubkey
  tf_authority :: pubkey

definition signers_with :: "'t restaking_env \<Rightarrow> tx \<Rightarrow> byte list list list \<Rightarrow> pubkey list" where
  "signers_with E tx seeds = tx_signers tx @ List.map_filter (\<lambda>s. re_pda E s restaking_ID) seeds"

definition token_transfer ::
  "'t restaking_env \<Rightarrow> tx \<Rightarrow> transfer_accounts \<Rightarrow> byte list list list \<Rightarrow> nat \<Rightarrow> 't \<Rightarrow> (restaking_error, 't) outcome" where
  "token_transfer E tx a seeds amount t =
     ok_or CallErr (spl_transfer (re_spl E) (if seeds = [] then tx_signers tx else signers_with E tx seeds)
       (tf_from a) (tf_to a) (tf_authority a) amount t)"

definition params_seeds :: "byte list list list" where
  "params_seeds = [[STAKING_PARAMS_SEED, TEST_SEED]]"

record mint_nft_accounts =
  mn_token_mint :: pubkey
  mn_mint_authority :: pubkey
  mn_to :: pubkey
  mn_metadata :: pubkey
  mn_edition :: pubkey

definition mint_nft :: "'t restaking_env \<Rightarrow> tx \<Rightarrow> mint_nft_accounts \<Rightarrow> 't \<Rightarrow> (restaking_error, 't) outcome" where
  "mint_nft E tx a t =
     bind_outcome (ok_or CallErr (spl_mint_to (re_spl E) (tx_signers tx) (mn_token_mint a) (mn_to a) (mn_mint_authority a) 1 t)) (\<lambda>t.
     bind_outcome (ok_or CallErr (mpl_create_metadata (re_spl E) (tx_signers tx) (mn_metadata a) (mn_token_mint a)
       (mn_mint_authority a) (TOKEN_NAME, TOKEN_SYMBOL, TOKEN_URI) t)) (\<lambda>t.
     ok_or CallErr (mpl_create_master_edition (re_spl E) (tx_signers tx) (mn_edition a) (mn_token_mint a)
       (mn_mint_authority a) (mn_metadata a) (Some 1) t)))"

definition close_token_account ::
  "'t restaking_env \<Rightarrow> tx \<Rightarrow> byte list list list \<Rightarrow> pubkey \<Rightarrow> pubkey \<Rightarrow> pubkey \<Rightarrow> 't \<Rightarrow> (restaking_error, 't) outcome" where
  "close_token_account E tx seeds account destination authority t =
     ok_or CallErr (spl_close_account (re_spl E) (signers_with E tx seeds) account destination authority t)"

subsection \<open>Accounts for the guest chain\<close>

text \<open>The remaining accounts are keys with the information whether they are writable.\<close>

type_synonym remaining = "(pubkey \<times> bool) list"

definition next_pda_account ::
  "'t restaking_env \<Rightarrow> remaining \<Rightarrow> byte list list \<Rightarrow> pubkey \<Rightarrow> bool \<Rightarrow> (restaking_error, pubkey \<times> remaining) outcome" where
  "next_pda_account E accounts seeds program_id must_be_mut =
     ok_or AccountValidationFailedForCPI
       (case accounts of
          [] \<Rightarrow> None
        | (key, is_writable) # rest \<Rightarrow>
            (case re_pda E seeds program_id of
               None \<Rightarrow> None
             | Some addr \<Rightarrow> if addr = key \<and> (\<not> must_be_mut \<or> is_writable) then Some (key, rest) else None))"

definition validate_remaining_accounts ::
  "'t restaking_env \<Rightarrow> remaining \<Rightarrow> pubkey \<Rightarrow> (restaking_error, pubkey \<times> pubkey \<times> pubkey) outcome" where
  "validate_remaining_accounts E accounts expected_guest_chain_program_id =
     bind_outcome (next_pda_account E accounts [CHAIN_SEED] expected_guest_chain_program_id True) (\<lambda>(chain, accounts).
     bind_outcome (next_pda_account E accounts [TRIE_SEED] expected_guest_chain_program_id True) (\<lambda>(trie, accounts).
       case accounts of
         [] \<Rightarrow> Err AccountValidationFailedForCPI
       | (program, _) # _ \<Rightarrow>
           if program = expected_guest_chain_program_id then Ok (chain, trie, program)
           else Err AccountValidationFailedForCPI))"

definition check_instructions_sysvar :: "'t restaking_env \<Rightarrow> pubkey \<Rightarrow> (restaking_error, unit) outcome" where
  "check_instructions_sysvar E account = ensure (account = re_instructions_ID E) AccountValidationFailedForCPI"

text \<open>
  The chain data at an address. Nothing but the account of the IBC program is such data, elsewhere
  the \<open>unwrap\<close> of the decoder or the check of the call fails.
\<close>

definition guest_chain_at ::
  "'t restaking_env \<Rightarrow> pubkey \<Rightarrow> ('s, 'sig, 't) restaking \<Rightarrow> (restaking_error, (pubkey, 'sig) chain_data) outcome" where
  "guest_chain_at E key w =
     (case pr_storage (rs_guest w) of
        Some st \<Rightarrow> if re_pda E [CHAIN_SEED] solana_ibc_ID = Some key then Ok (st_chain st) else Panic
      | None \<Rightarrow> Panic)"

text \<open>\<open>Account<ChainData>\<close> with its seeds.\<close>

definition load_guest_chain ::
  "'t restaking_env \<Rightarrow> ('s, 'sig, 't) restaking \<Rightarrow> (restaking_error, (pubkey, 'sig) chain_data) outcome" where
  "load_guest_chain E w =
     bind_outcome (ok_or FrameworkErr (re_pda E [CHAIN_SEED] solana_ibc_ID)) (\<lambda>_.
     bind_outcome (ok_or FrameworkErr (pr_storage (rs_guest w))) (\<lambda>st. Ok (st_chain st)))"

definition cpi_set_stake ::
  "'t restaking_env \<Rightarrow> tx \<Rightarrow> pubkey \<Rightarrow> pubkey \<Rightarrow> nat \<Rightarrow> ('s, 'sig, 't) restaking \<Rightarrow> ('s, 'sig, 't) restaking_result" where
  "cpi_set_stake E tx sender validator amount w =
     bind_outcome (map_error GuestErr (ix_set_stake (re_crypto E) tx sender validator amount (rs_guest w))) (\<lambda>g.
       Ok (w\<lparr>rs_guest := g\<rparr>))"

text \<open>What \<open>deposit\<close> and \<open>set_service\<close> do for the validator of a service.\<close>

definition delegate ::
  "'t restaking_env \<Rightarrow> tx \<Rightarrow> pubkey \<Rightarrow> pubkey \<Rightarrow> service \<Rightarrow> nat \<Rightarrow> ('s, 'sig, 't) restaking \<Rightarrow> ('s, 'sig, 't) restaking_result" where
  "delegate E tx sender chain service amount w =
     bind_outcome (guest_chain_at E chain w) (\<lambda>chain.
     bind_outcome (map_error (\<lambda>_ :: context_error ibc_error. OperationNotAllowed)
       (chain_candidate (service_validator service) chain)) (\<lambda>validator.
       let stake = (case validator of None \<Rightarrow> amount | Some val \<Rightarrow> cd_stake val + amount) in
       if 2 ^ 128 \<le> stake then Panic
       else cpi_set_stake E tx sender (service_validator service) stake w))"

section \<open>Instructions\<close>

subsection \<open>Initialisation\<close>

record initialize_accounts =
  in_admin :: pubkey
  in_rewards_token_mint :: pubkey

definition initialize ::
  "'t restaking_env \<Rightarrow> tx \<Rightarrow> initialize_accounts \<Rightarrow> pubkey list \<Rightarrow> nat \<Rightarrow> ('s, 'sig, 't) restaking \<Rightarrow>
   ('s, 'sig, 't) restaking_result" where
  "initialize E tx a whitelisted_tokens staking_cap w =
     bind_outcome (signed tx (in_admin a)) (\<lambda>_.
     bind_outcome (find_key E [STAKING_PARAMS_SEED, TEST_SEED]) (\<lambda>params_key.
     bind_outcome (ensure (rs_params w = None) FrameworkErr) (\<lambda>_.
     bind_outcome (mint_is E (rs_tokens w) (in_rewards_token_mint a) (\<lambda>_. True)) (\<lambda>_.
     bind_outcome (find_key E [REWARDS_SEED, TEST_SEED]) (\<lambda>rewards_key.
     bind_outcome (ok_or CallErr (spl_init_account (re_spl E) rewards_key (in_rewards_token_mint a) params_key (rs_tokens w))) (\<lambda>t.
       save_params \<lparr>sp_admin = in_admin a, sp_whitelisted_tokens = whitelisted_tokens, sp_guest_chain_program_id = None,
           sp_rewards_token_mint = in_rewards_token_mint a, sp_staking_cap = staking_cap,
           sp_total_deposited_amount = 0, sp_new_admin_proposal = None\<rparr> (set_tokens t w)))))))"

subsection \<open>Deposits\<close>

record deposit_accounts =
  de_depositor :: pubkey
  de_token_mint :: pubkey
  de_depositor_token_account :: pubkey
  de_receipt_token_mint :: pubkey
  de_instruction :: pubkey
  de_remaining_accounts :: remaining

text \<open>
  What the framework does before the instruction: the keys of the accounts for the vault and its
  tokens, for the receipt and for its metadata, and the token state in which the new accounts exist.
\<close>

definition deposit_setup ::
  "'t restaking_env \<Rightarrow> tx \<Rightarrow> deposit_accounts \<Rightarrow> pubkey \<Rightarrow> ('s, 'sig, 't) restaking \<Rightarrow>
   (restaking_error, (pubkey \<times> pubkey \<times> mint_nft_accounts) \<times> 't) outcome" where
  "deposit_setup E tx a params_key w =
     (let t = rs_tokens w; mint = de_token_mint a; depositor = de_depositor a; receipt = de_receipt_token_mint a in
     bind_outcome (signed tx depositor) (\<lambda>_.
     bind_outcome (find_key E [VAULT_PARAMS_SEED, receipt]) (\<lambda>vault_params.
     bind_outcome (ensure (rs_vaults w vault_params = None) FrameworkErr) (\<lambda>_.
     bind_outcome (mint_is E t mint (\<lambda>m. mi_decimals m = 9)) (\<lambda>_.
     bind_outcome (token_is E t (de_depositor_token_account a) (held_by mint depositor)) (\<lambda>_.
     bind_outcome (find_key E [VAULT_SEED, mint]) (\<lambda>vault_token_account.
     bind_outcome (init_if_needed E vault_token_account mint params_key t) (\<lambda>t.
     bind_outcome (signed tx receipt) (\<lambda>_.
     bind_outcome (ok_or CallErr (spl_init_mint (re_spl E) receipt 0 depositor depositor t)) (\<lambda>t.
     bind_outcome (ok_or CallErr (spl_init_account (re_spl E) (spl_ata (re_spl E) depositor receipt) receipt depositor t)) (\<lambda>t.
     bind_outcome (ensure (de_instruction a = re_instructions_ID E) FrameworkErr) (\<lambda>_.
     bind_outcome (nft_metadata E receipt) (\<lambda>metadata.
     bind_outcome (master_edition_account E receipt) (\<lambda>edition.
       Ok ((vault_params, vault_token_account,
            \<lparr>mn_token_mint = receipt, mn_mint_authority = depositor, mn_to = spl_ata (re_spl E) depositor receipt,
             mn_metadata = metadata, mn_edition = edition\<rparr>), t)))))))))))))))"

definition deposit ::
  "'t restaking_env \<Rightarrow> tx \<Rightarrow> deposit_accounts \<Rightarrow> service \<Rightarrow> nat \<Rightarrow> ('s, 'sig, 't) restaking \<Rightarrow> ('s, 'sig, 't) restaking_result" where
  "deposit E tx a service amount w =
     bind_outcome (load_params E w) (\<lambda>(params_key, p).
     bind_outcome (deposit_setup E tx a params_key w) (\<lambda>((vault_params, vault_token_account, nft), t).
       if de_token_mint a \<notin> set (sp_whitelisted_tokens p) then Err TokenNotWhitelisted
       else if 2 ^ 128 \<le> sp_total_deposited_amount p + amount then Panic
       else if sp_staking_cap p < sp_total_deposited_amount p + amount then Err StakingCapExceeded
       else
         bind_outcome (ok_or FrameworkErr (tx_clock tx)) (\<lambda>(_, current_time).
         bind_outcome (token_transfer E tx \<lparr>tf_from = de_depositor_token_account a, tf_to = vault_token_account,
             tf_authority = de_depositor a\<rparr> [] amount t) (\<lambda>t.
         bind_outcome (mint_nft E tx nft t) (\<lambda>t.
         bind_outcome (save_params (p\<lparr>sp_total_deposited_amount := sp_total_deposited_amount p + amount\<rparr>)
           ((set_tokens t w)\<lparr>rs_vaults := (rs_vaults w)(vault_params \<mapsto>
              \<lparr>va_stake_timestamp_sec = current_time,
               va_service = (if sp_guest_chain_program_id p \<noteq> None then Some service else None),
               va_stake_amount = amount, va_stake_mint = de_token_mint a, va_last_received_rewards_height = 0,
               va_withdrawal_request = None\<rparr>)\<rparr>)) (\<lambda>w.
           case sp_guest_chain_program_id p of
             None \<Rightarrow> Ok w
           | Some guest_chain_program_id \<Rightarrow>
               bind_outcome (validate_remaining_accounts E (de_remaining_accounts a) guest_chain_program_id) (\<lambda>(chain, _).
                 delegate E tx (de_depositor a) chain service amount w)))))))"

subsection \<open>Withdrawals\<close>

text \<open>
  The accounts of the structs that a caller can choose; an instruction uses those its struct has. The constraints of a
  struct are checked by the \<open>_setup\<close> of its instruction, which returns the accounts that are derived from seeds and the
  token state in which new accounts exist.
\<close>

record withdrawal_accounts =
  wa_signer :: pubkey
  wa_withdrawer :: pubkey
  wa_token_mint :: pubkey
  wa_withdrawer_token_account :: pubkey
  wa_rewards_token_mint :: pubkey
  wa_receipt_token_mint :: pubkey
  wa_receipt_token_account :: pubkey
  wa_instruction :: pubkey

text \<open>\<open>unix_timestamp as u64\<close>\<close>

definition timestamp_u64 :: "tx \<Rightarrow> (restaking_error, nat) outcome" where
  "timestamp_u64 tx = bind_outcome (ok_or FrameworkErr (tx_clock tx)) (\<lambda>(_, ts). Ok (nat (ts mod 2 ^ 64)))"

definition rewards_of ::
  "vault \<Rightarrow> (pubkey, 'sig) chain_data \<Rightarrow> (restaking_error, nat \<times> nat) outcome" where
  "rewards_of v chain =
     bind_outcome (ok_or MissingService (va_service v)) (\<lambda>_. map_error GuestErr (calculate_rewards chain))"

definition withdrawal_request_setup ::
  "'t restaking_env \<Rightarrow> tx \<Rightarrow> withdrawal_accounts \<Rightarrow> ('s, 'sig, 't) restaking \<Rightarrow>
   (restaking_error, (pubkey \<times> vault) \<times> (pubkey \<times> staking_params) \<times> (pubkey, 'sig) chain_data \<times> pubkey \<times> pubkey \<times> 't) outcome" where
  "withdrawal_request_setup E tx a w =
     (let withdrawer = wa_withdrawer a; receipt = wa_receipt_token_mint a; mint = wa_token_mint a;
          rewards_mint = wa_rewards_token_mint a; t = rs_tokens w in
     bind_outcome (signed tx withdrawer) (\<lambda>_.
     bind_outcome (load_vault E receipt w) (\<lambda>(vault_params, v).
     bind_outcome (load_params E w) (\<lambda>(params_key, p).
     bind_outcome (ensure (sp_rewards_token_mint p = rewards_mint) FrameworkErr) (\<lambda>_.
     bind_outcome (load_guest_chain E w) (\<lambda>chain.
     bind_outcome (ok_or FrameworkErr (re_pda E [TRIE_SEED] solana_ibc_ID)) (\<lambda>_.
     bind_outcome (token_is E t (wa_withdrawer_token_account a) (held_by mint withdrawer)) (\<lambda>_.
     bind_outcome (find_key E [VAULT_SEED, mint]) (\<lambda>vault_token.
     bind_outcome (token_is E t vault_token (held_by mint params_key)) (\<lambda>_.
     bind_outcome (init_if_needed E (spl_ata (re_spl E) withdrawer rewards_mint) rewards_mint withdrawer t) (\<lambda>t.
     bind_outcome (find_key E [REWARDS_SEED, TEST_SEED]) (\<lambda>platform_rewards.
     bind_outcome (token_is E t platform_rewards (held_by rewards_mint params_key)) (\<lambda>_.
     bind_outcome (receipt_mint_ok E t receipt) (\<lambda>_.
     bind_outcome (token_is E t (wa_receipt_token_account a) (held_by receipt withdrawer)) (\<lambda>_.
     bind_outcome (find_key E [ESCROW_RECEIPT_SEED, receipt]) (\<lambda>escrow.
     bind_outcome (ok_or CallErr (spl_init_account (re_spl E) escrow receipt params_key t)) (\<lambda>t.
       Ok ((vault_params, v), (params_key, p), chain, platform_rewards, escrow, t))))))))))))))))))"

definition withdrawal_request ::
  "'t restaking_env \<Rightarrow> tx \<Rightarrow> withdrawal_accounts \<Rightarrow> ('s, 'sig, 't) restaking \<Rightarrow> ('s, 'sig, 't) restaking_result" where
  "withdrawal_request E tx a w =
     bind_outcome (withdrawal_request_setup E tx a w) (\<lambda>((vault_params, v), (params_key, p), chain, platform_rewards, escrow, t).
       if sp_guest_chain_program_id p = None then Err OperationNotAllowed
       else if wa_token_mint a \<noteq> va_stake_mint v then Err InvalidTokenMint
       else
         bind_outcome (timestamp_u64 tx) (\<lambda>current_timestamp.
         bind_outcome (rewards_of v chain) (\<lambda>(rewards, current_height).
         bind_outcome (token_transfer E tx \<lparr>tf_from = platform_rewards,
             tf_to = spl_ata (re_spl E) (wa_withdrawer a) (wa_rewards_token_mint a),
             tf_authority = params_key\<rparr> params_seeds rewards t) (\<lambda>t.
         bind_outcome (token_transfer E tx \<lparr>tf_from = wa_receipt_token_account a, tf_to = escrow,
             tf_authority = wa_withdrawer a\<rparr> [] 1 t) (\<lambda>t.
         bind_outcome (close_token_account E tx [] (wa_receipt_token_account a) (wa_withdrawer a) (wa_withdrawer a) t) (\<lambda>t.
           Ok ((set_tokens t w)\<lparr>rs_vaults := (rs_vaults w)(vault_params \<mapsto>
             v\<lparr>va_withdrawal_request := Some \<lparr>wr_timestamp_in_sec = current_timestamp, wr_owner = wa_withdrawer a,
                  wr_token_account = wa_withdrawer_token_account a\<rparr>,
               va_last_received_rewards_height := current_height\<rparr>)\<rparr>)))))))"

definition cancel_setup ::
  "'t restaking_env \<Rightarrow> tx \<Rightarrow> withdrawal_accounts \<Rightarrow> ('s, 'sig, 't) restaking \<Rightarrow>
   (restaking_error, (pubkey \<times> vault) \<times> pubkey \<times> pubkey \<times> 't) outcome" where
  "cancel_setup E tx a w =
     (let withdrawer = wa_withdrawer a; receipt = wa_receipt_token_mint a; t = rs_tokens w in
     bind_outcome (signed tx withdrawer) (\<lambda>_.
     bind_outcome (load_vault E receipt w) (\<lambda>(vault_params, v).
     bind_outcome (load_params E w) (\<lambda>(params_key, p).
     bind_outcome (receipt_mint_ok E t receipt) (\<lambda>_.
     bind_outcome (ok_or CallErr (spl_init_account (re_spl E) (spl_ata (re_spl E) withdrawer receipt) receipt withdrawer t)) (\<lambda>t.
     bind_outcome (find_key E [ESCROW_RECEIPT_SEED, receipt]) (\<lambda>escrow.
     bind_outcome (token_is E t escrow (held_by receipt params_key)) (\<lambda>_.
       Ok ((vault_params, v), params_key, escrow, t)))))))))"

definition cancel_withdrawal_request ::
  "'t restaking_env \<Rightarrow> tx \<Rightarrow> withdrawal_accounts \<Rightarrow> ('s, 'sig, 't) restaking \<Rightarrow> ('s, 'sig, 't) restaking_result" where
  "cancel_withdrawal_request E tx a w =
     bind_outcome (cancel_setup E tx a w) (\<lambda>((vault_params, v), params_key, escrow, t).
     bind_outcome (ok_or NoWithdrawalRequest (va_withdrawal_request v)) (\<lambda>_.
     bind_outcome (token_transfer E tx \<lparr>tf_from = escrow,
         tf_to = spl_ata (re_spl E) (wa_withdrawer a) (wa_receipt_token_mint a), tf_authority = params_key\<rparr> params_seeds 1 t) (\<lambda>t.
     bind_outcome (close_token_account E tx params_seeds escrow (wa_withdrawer a) params_key t) (\<lambda>t.
       Ok ((set_tokens t w)\<lparr>rs_vaults := (rs_vaults w)(vault_params \<mapsto> v\<lparr>va_withdrawal_request := None\<rparr>)\<rparr>)))))"

text \<open>
  What \<open>withdraw\<close> checks before anything is moved: the request, its owner, its token account and the
  time.
\<close>

definition withdraw_checks ::
  "tx \<Rightarrow> withdrawal_accounts \<Rightarrow> staking_params \<Rightarrow> vault \<Rightarrow> (restaking_error, unit) outcome" where
  "withdraw_checks tx a p v =
     (if sp_guest_chain_program_id p = None then Err OperationNotAllowed
      else if wa_token_mint a \<noteq> va_stake_mint v then Err InvalidTokenMint
      else
        bind_outcome (ok_or NoWithdrawalRequest (va_withdrawal_request v)) (\<lambda>req.
          if wa_withdrawer a \<noteq> wr_owner req then Err InvalidWithdrawer
          else if wa_withdrawer_token_account a \<noteq> wr_token_account req then Err InvalidTokenAccount
          else if 2 ^ 64 \<le> wr_timestamp_in_sec req + UNBONDING_PERIOD_IN_SEC then Panic
          else
            bind_outcome (timestamp_u64 tx) (\<lambda>current_timestamp.
              ensure (wr_timestamp_in_sec req + UNBONDING_PERIOD_IN_SEC \<le> current_timestamp)
                CannotWithdrawDuringUnbondingPeriod)))"

text \<open>The stake of the validator without the amount of the vault.\<close>

definition undelegate ::
  "'t restaking_env \<Rightarrow> tx \<Rightarrow> pubkey \<Rightarrow> pubkey \<Rightarrow> vault \<Rightarrow> (pubkey, 'sig) chain_data \<Rightarrow> ('s, 'sig, 't) restaking \<Rightarrow>
   ('s, 'sig, 't) restaking_result" where
  "undelegate E tx sender instruction v chain w =
     bind_outcome (ok_or MissingService (va_service v)) (\<lambda>service.
     bind_outcome (map_error (\<lambda>_ :: context_error ibc_error. OperationNotAllowed)
       (chain_candidate (service_validator service) chain)) (\<lambda>candidate.
     bind_outcome (ok_or MissingService candidate) (\<lambda>validator.
     bind_outcome (ok_or SubtractionOverflow (checked_sub (cd_stake validator) (va_stake_amount v))) (\<lambda>validator_stake.
     bind_outcome (check_instructions_sysvar E instruction) (\<lambda>_.
       cpi_set_stake E tx sender (service_validator service) validator_stake w)))))"

text \<open>
  The framework closes the vault at the end, and the escrow account too, which only works because burning the
  receipt has already removed it.
\<close>

definition withdraw_setup ::
  "'t restaking_env \<Rightarrow> tx \<Rightarrow> withdrawal_accounts \<Rightarrow> ('s, 'sig, 't) restaking \<Rightarrow>
   (restaking_error, (pubkey \<times> vault) \<times> (pubkey \<times> staking_params) \<times> (pubkey, 'sig) chain_data \<times> pubkey \<times> pubkey \<times> pubkey \<times> pubkey) outcome" where
  "withdraw_setup E tx a w =
     (let receipt = wa_receipt_token_mint a; mint = wa_token_mint a; t = rs_tokens w in
     bind_outcome (signed tx (wa_signer a)) (\<lambda>_.
     bind_outcome (load_vault E receipt w) (\<lambda>(vault_params, v).
     bind_outcome (load_params E w) (\<lambda>(params_key, p).
     bind_outcome (load_guest_chain E w) (\<lambda>chain.
     bind_outcome (ok_or FrameworkErr (re_pda E [TRIE_SEED] solana_ibc_ID)) (\<lambda>_.
     bind_outcome (token_is E t (wa_withdrawer_token_account a) (\<lambda>acc. ta_mint acc = mint)) (\<lambda>_.
     bind_outcome (find_key E [VAULT_SEED, mint]) (\<lambda>vault_token.
     bind_outcome (token_is E t vault_token (held_by mint params_key)) (\<lambda>_.
     bind_outcome (receipt_mint_ok E t receipt) (\<lambda>edition.
     bind_outcome (find_key E [ESCROW_RECEIPT_SEED, receipt]) (\<lambda>escrow.
     bind_outcome (token_is E t escrow (held_by receipt params_key)) (\<lambda>_.
     bind_outcome (nft_metadata E receipt) (\<lambda>metadata.
     bind_outcome (ensure (wa_instruction a = re_instructions_ID E) FrameworkErr) (\<lambda>_.
       Ok ((vault_params, v), (params_key, p), chain, vault_token, escrow, metadata, edition)))))))))))))))"

definition withdraw ::
  "'t restaking_env \<Rightarrow> tx \<Rightarrow> withdrawal_accounts \<Rightarrow> ('s, 'sig, 't) restaking \<Rightarrow> ('s, 'sig, 't) restaking_result" where
  "withdraw E tx a w =
     bind_outcome (withdraw_setup E tx a w) (\<lambda>((vault_params, v), (params_key, p), chain, vault_token, escrow, metadata, edition).
     bind_outcome (withdraw_checks tx a p v) (\<lambda>_.
     if sp_total_deposited_amount p < va_stake_amount v then Panic
     else
       bind_outcome (undelegate E tx (wa_withdrawer a) (wa_instruction a) v chain w) (\<lambda>w.
       bind_outcome (token_transfer E tx \<lparr>tf_from = vault_token, tf_to = wa_withdrawer_token_account a,
           tf_authority = params_key\<rparr> params_seeds (va_stake_amount v) (rs_tokens w)) (\<lambda>t.
       bind_outcome (ok_or CallErr (mpl_burn_nft (re_spl E) (signers_with E tx params_seeds) metadata params_key
           (wa_receipt_token_mint a) escrow edition t)) (\<lambda>t.
       bind_outcome (ensure (spl_account (re_spl E) t escrow = None) FrameworkErr) (\<lambda>_.
         save_params (p\<lparr>sp_total_deposited_amount := sp_total_deposited_amount p - va_stake_amount v\<rparr>)
           ((set_tokens t w)\<lparr>rs_vaults := (rs_vaults w)(vault_params := None)\<rparr>)))))))"

subsection \<open>Rewards and services\<close>

definition claim_setup ::
  "'t restaking_env \<Rightarrow> tx \<Rightarrow> withdrawal_accounts \<Rightarrow> ('s, 'sig, 't) restaking \<Rightarrow>
   (restaking_error, (pubkey \<times> vault) \<times> (pubkey \<times> staking_params) \<times> (pubkey, 'sig) chain_data \<times> pubkey \<times> token_account \<times> 't) outcome" where
  "claim_setup E tx a w =
     (let claimer = wa_withdrawer a; receipt = wa_receipt_token_mint a; rewards_mint = wa_rewards_token_mint a; t = rs_tokens w in
     bind_outcome (signed tx claimer) (\<lambda>_.
     bind_outcome (load_vault E receipt w) (\<lambda>(vault_params, v).
     bind_outcome (load_params E w) (\<lambda>(params_key, p).
     bind_outcome (ensure (sp_rewards_token_mint p = rewards_mint) FrameworkErr) (\<lambda>_.
     bind_outcome (load_guest_chain E w) (\<lambda>chain.
     bind_outcome (init_if_needed E (spl_ata (re_spl E) claimer rewards_mint) rewards_mint claimer t) (\<lambda>t.
     bind_outcome (find_key E [REWARDS_SEED, TEST_SEED]) (\<lambda>platform_rewards.
     bind_outcome (token_is E t platform_rewards (held_by rewards_mint params_key)) (\<lambda>_.
     bind_outcome (mint_is E t receipt (\<lambda>m. mi_decimals m = 0)) (\<lambda>_.
     bind_outcome (token_is E t (wa_receipt_token_account a) (held_by receipt claimer)) (\<lambda>receipt_account.
       Ok ((vault_params, v), (params_key, p), chain, platform_rewards, receipt_account, t))))))))))))"

definition claim_rewards ::
  "'t restaking_env \<Rightarrow> tx \<Rightarrow> withdrawal_accounts \<Rightarrow> ('s, 'sig, 't) restaking \<Rightarrow> ('s, 'sig, 't) restaking_result" where
  "claim_rewards E tx a w =
     bind_outcome (claim_setup E tx a w) (\<lambda>((vault_params, v), (params_key, p), chain, platform_rewards, receipt_account, t).
       if sp_guest_chain_program_id p = None then Err OperationNotAllowed
       else if ta_amount receipt_account < 1 then Err InsufficientReceiptTokenBalance
       else
         bind_outcome (rewards_of v chain) (\<lambda>(rewards, current_height).
         bind_outcome (token_transfer E tx \<lparr>tf_from = platform_rewards,
             tf_to = spl_ata (re_spl E) (wa_withdrawer a) (wa_rewards_token_mint a),
             tf_authority = params_key\<rparr> params_seeds rewards t) (\<lambda>t.
           Ok ((set_tokens t w)\<lparr>rs_vaults := (rs_vaults w)(vault_params \<mapsto>
             v\<lparr>va_last_received_rewards_height := current_height\<rparr>)\<rparr>))))"

definition service_setup ::
  "'t restaking_env \<Rightarrow> tx \<Rightarrow> withdrawal_accounts \<Rightarrow> ('s, 'sig, 't) restaking \<Rightarrow>
   (restaking_error, (pubkey \<times> vault) \<times> staking_params \<times> token_account) outcome" where
  "service_setup E tx a w =
     (let depositor = wa_withdrawer a; receipt = wa_receipt_token_mint a; t = rs_tokens w in
     bind_outcome (signed tx depositor) (\<lambda>_.
     bind_outcome (load_vault E receipt w) (\<lambda>(vault_params, v).
     bind_outcome (ensure (va_stake_mint v = wa_token_mint a) FrameworkErr) (\<lambda>_.
     bind_outcome (load_params E w) (\<lambda>(params_key, p).
     bind_outcome (mint_is E t receipt (\<lambda>m. mi_decimals m = 0)) (\<lambda>_.
     bind_outcome (token_is E t (wa_receipt_token_account a) (held_by receipt depositor)) (\<lambda>receipt_account.
     bind_outcome (mint_is E t (wa_token_mint a) (\<lambda>_. True)) (\<lambda>_.
     bind_outcome (ensure (wa_instruction a = re_instructions_ID E) FrameworkErr) (\<lambda>_.
       Ok ((vault_params, v), p, receipt_account))))))))))"

definition set_service ::
  "'t restaking_env \<Rightarrow> tx \<Rightarrow> withdrawal_accounts \<Rightarrow> remaining \<Rightarrow> service \<Rightarrow> ('s, 'sig, 't) restaking \<Rightarrow>
   ('s, 'sig, 't) restaking_result" where
  "set_service E tx a remaining_accounts service w =
     bind_outcome (service_setup E tx a w) (\<lambda>((vault_params, v), p, receipt_account).
       if ta_amount receipt_account < 1 then Err InsufficientReceiptTokenBalance
       else
         bind_outcome (ok_or OperationNotAllowed (sp_guest_chain_program_id p)) (\<lambda>guest_chain_program_id.
         bind_outcome (validate_remaining_accounts E remaining_accounts guest_chain_program_id) (\<lambda>(chain, _).
         bind_outcome (ensure (va_service v = None) ServiceAlreadySet) (\<lambda>_.
         bind_outcome (check_instructions_sysvar E (wa_instruction a)) (\<lambda>_.
           delegate E tx (wa_withdrawer a) chain service (va_stake_amount v)
             (w\<lparr>rs_vaults := (rs_vaults w)(vault_params \<mapsto> v\<lparr>va_service := Some service\<rparr>)\<rparr>))))))"

subsection \<open>Administration\<close>

text \<open>\<open>UpdateStakingParams\<close>: \<open>has_one = admin\<close> for an account that has signed.\<close>

definition as_admin ::
  "'t restaking_env \<Rightarrow> tx \<Rightarrow> pubkey \<Rightarrow> (staking_params \<Rightarrow> (restaking_error, staking_params) outcome) \<Rightarrow>
   ('s, 'sig, 't) restaking \<Rightarrow> ('s, 'sig, 't) restaking_result" where
  "as_admin E tx admin f w =
     bind_outcome (signed tx admin) (\<lambda>_.
     bind_outcome (load_params E w) (\<lambda>(_, p).
     bind_outcome (ensure (sp_admin p = admin) FrameworkErr) (\<lambda>_.
     bind_outcome (f p) (\<lambda>p. save_params p w))))"

definition update_token_whitelist ::
  "'t restaking_env \<Rightarrow> tx \<Rightarrow> pubkey \<Rightarrow> pubkey list \<Rightarrow> ('s, 'sig, 't) restaking \<Rightarrow> ('s, 'sig, 't) restaking_result" where
  "update_token_whitelist E tx admin new_token_mints =
     as_admin E tx admin (\<lambda>p.
       if list_ex (\<lambda>m. m \<in> set (sp_whitelisted_tokens p)) new_token_mints then Err TokenAlreadyWhitelisted
       else Ok (p\<lparr>sp_whitelisted_tokens := sp_whitelisted_tokens p @ new_token_mints\<rparr>))"

definition update_guest_chain_initialization ::
  "'t restaking_env \<Rightarrow> tx \<Rightarrow> pubkey \<Rightarrow> pubkey \<Rightarrow> ('s, 'sig, 't) restaking \<Rightarrow> ('s, 'sig, 't) restaking_result" where
  "update_guest_chain_initialization E tx admin guest_chain_program_id =
     as_admin E tx admin (\<lambda>p.
       if sp_guest_chain_program_id p \<noteq> None then Err GuestChainAlreadyInitialized
       else Ok (p\<lparr>sp_guest_chain_program_id := Some guest_chain_program_id\<rparr>))"

definition change_admin_proposal ::
  "'t restaking_env \<Rightarrow> tx \<Rightarrow> pubkey \<Rightarrow> pubkey \<Rightarrow> ('s, 'sig, 't) restaking \<Rightarrow> ('s, 'sig, 't) restaking_result" where
  "change_admin_proposal E tx admin new_admin =
     as_admin E tx admin (\<lambda>p. Ok (p\<lparr>sp_new_admin_proposal := Some new_admin\<rparr>))"

definition accept_admin_change ::
  "'t restaking_env \<Rightarrow> tx \<Rightarrow> pubkey \<Rightarrow> ('s, 'sig, 't) restaking \<Rightarrow> ('s, 'sig, 't) restaking_result" where
  "accept_admin_change E tx new_admin w =
     bind_outcome (signed tx new_admin) (\<lambda>_.
     bind_outcome (load_params E w) (\<lambda>(_, p).
     bind_outcome (ok_or NoProposedAdmin (sp_new_admin_proposal p)) (\<lambda>proposed.
       if proposed \<noteq> new_admin then Err ConstraintSigner
       else save_params (p\<lparr>sp_admin := proposed\<rparr>) w)))"

definition update_staking_cap ::
  "'t restaking_env \<Rightarrow> tx \<Rightarrow> pubkey \<Rightarrow> nat \<Rightarrow> ('s, 'sig, 't) restaking \<Rightarrow> ('s, 'sig, 't) restaking_result" where
  "update_staking_cap E tx admin new_staking_cap =
     as_admin E tx admin (\<lambda>p.
       if new_staking_cap \<le> sp_staking_cap p then Err NewStakingCapShouldBeMoreThanExistingOne
       else Ok (p\<lparr>sp_staking_cap := new_staking_cap\<rparr>))"

text \<open>The account that receives the funds is not declared writable; the transfer needs that it is.\<close>

definition withdraw_reward_funds ::
  "'t restaking_env \<Rightarrow> tx \<Rightarrow> pubkey \<Rightarrow> pubkey \<Rightarrow> pubkey \<Rightarrow> ('s, 'sig, 't) restaking \<Rightarrow> ('s, 'sig, 't) restaking_result" where
  "withdraw_reward_funds E tx admin rewards_token_mint admin_rewards_token_account w =
     bind_outcome (signed tx admin) (\<lambda>_.
     bind_outcome (load_params E w) (\<lambda>(params_key, p).
     bind_outcome (ensure (sp_rewards_token_mint p = rewards_token_mint \<and> sp_admin p = admin) FrameworkErr) (\<lambda>_.
     bind_outcome (find_key E [REWARDS_SEED, TEST_SEED]) (\<lambda>rewards_token_account.
     bind_outcome (token_is E (rs_tokens w) rewards_token_account (held_by rewards_token_mint params_key)) (\<lambda>rewards.
     bind_outcome (token_is E (rs_tokens w) admin_rewards_token_account (\<lambda>_. True)) (\<lambda>_.
     bind_outcome (ensure (admin_rewards_token_account \<in> set (tx_writable tx)) CallErr) (\<lambda>_.
     bind_outcome (token_transfer E tx \<lparr>tf_from = rewards_token_account, tf_to = admin_rewards_token_account,
         tf_authority = params_key\<rparr> params_seeds (ta_amount rewards) (rs_tokens w)) (\<lambda>t.
       Ok (set_tokens t w)))))))))"

section \<open>The program\<close>

datatype restaking_instruction =
  Initialize initialize_accounts "pubkey list" nat
| Deposit deposit_accounts service nat
| WithdrawalRequest withdrawal_accounts
| CancelWithdrawalRequest withdrawal_accounts
| Withdraw withdrawal_accounts
| UpdateTokenWhitelist pubkey "pubkey list"
| UpdateGuestChainInitialization pubkey pubkey
| ChangeAdminProposal pubkey pubkey
| AcceptAdminChange pubkey
| ClaimRewards withdrawal_accounts
| SetService withdrawal_accounts remaining service
| WithdrawRewardFunds pubkey pubkey pubkey
| UpdateStakingCap pubkey nat

definition restaking_process ::
  "'t restaking_env \<Rightarrow> tx \<Rightarrow> restaking_instruction \<Rightarrow> ('s, 'sig, 't) restaking \<Rightarrow> ('s, 'sig, 't) restaking_result" where
  "restaking_process E tx ix =
     (case ix of
        Initialize a tokens cap \<Rightarrow> initialize E tx a tokens cap
      | Deposit a service amount \<Rightarrow> deposit E tx a service amount
      | WithdrawalRequest a \<Rightarrow> withdrawal_request E tx a
      | CancelWithdrawalRequest a \<Rightarrow> cancel_withdrawal_request E tx a
      | Withdraw a \<Rightarrow> withdraw E tx a
      | UpdateTokenWhitelist k mints \<Rightarrow> update_token_whitelist E tx k mints
      | UpdateGuestChainInitialization k g \<Rightarrow> update_guest_chain_initialization E tx k g
      | ChangeAdminProposal k new \<Rightarrow> change_admin_proposal E tx k new
      | AcceptAdminChange k \<Rightarrow> accept_admin_change E tx k
      | ClaimRewards a \<Rightarrow> claim_rewards E tx a
      | SetService a remaining service \<Rightarrow> set_service E tx a remaining service
      | WithdrawRewardFunds k mint account \<Rightarrow> withdraw_reward_funds E tx k mint account
      | UpdateStakingCap k cap \<Rightarrow> update_staking_cap E tx k cap)"

end
