(* ===== verification/Restaking_Steps.thy ===== *)
theory Restaking_Steps
  imports Restaking
begin

text \<open>
  Sequences of instructions of the restaking program. The contract of the token and metadata programs is the
  locale \<open>spl_programs\<close>, its consequences for the program are proved in \<open>restaking_calls\<close>, and both
  are interpreted on a ledger of accounts and mints. The main result is that the vaults hold what has been
  staked; the last section has the theorems.
\<close>

section \<open>Contracts of the called programs\<close>

text \<open>
  The addresses that the program derives. Accounts at addresses of vault tokens are to be kept
  apart from the rewards account and from escrow accounts, and no transaction is signed by the
  address of the parameters.
\<close>

definition params_addr :: "'t restaking_env \<Rightarrow> pubkey option" where
  "params_addr E = re_pda E [STAKING_PARAMS_SEED, TEST_SEED] restaking_ID"

definition vault_addr :: "'t restaking_env \<Rightarrow> pubkey \<Rightarrow> pubkey option" where
  "vault_addr E mint = re_pda E [VAULT_SEED, mint] restaking_ID"

definition vaults_apart :: "'t restaking_env \<Rightarrow> bool" where
  "vaults_apart E \<longleftrightarrow>
     (\<forall>mint k. vault_addr E mint = Some k \<longrightarrow>
        re_pda E [REWARDS_SEED, TEST_SEED] restaking_ID \<noteq> Some k \<and>
        (\<forall>r. re_pda E [ESCROW_RECEIPT_SEED, r] restaking_ID \<noteq> Some k))"

text \<open>
  \<open>kept S K o t t'\<close>: from \<open>t\<close> to \<open>t'\<close> the accounts of \<open>o\<close> at the addresses \<open>K\<close> keep their mints and lose
  no tokens.
\<close>

definition kept :: "'t spl \<Rightarrow> pubkey set \<Rightarrow> pubkey \<Rightarrow> 't \<Rightarrow> 't \<Rightarrow> bool" where
  "kept S K owner t t' \<longleftrightarrow>
     (\<forall>k \<in> K. \<forall>x. spl_account S t k = Some x \<longrightarrow> ta_owner x = owner \<longrightarrow>
        (\<exists>y. spl_account S t' k = Some y \<and> ta_owner y = owner \<and> ta_mint y = ta_mint x \<and> ta_amount x \<le> ta_amount y))"

text \<open>
  What the instructions of the token program and of the metadata program do with token accounts, as they are
  documented. Nothing is said about when they succeed.
\<close>

locale spl_programs =
  fixes S :: "'t spl"
  assumes init_account: "spl_init_account S k mint owner t = Some t' \<Longrightarrow>
        spl_account S t k = None \<and>
        spl_account S t' = (spl_account S t)(k \<mapsto> \<lparr>ta_mint = mint, ta_owner = owner, ta_amount = 0\<rparr>)"
    and init_mint: "spl_init_mint S k d auth freeze t = Some t' \<Longrightarrow> spl_account S t' = spl_account S t"
    and transfer: "spl_transfer S sg a b auth n t = Some t' \<Longrightarrow>
        \<exists>x y. spl_account S t a = Some x \<and> spl_account S t b = Some y \<and> ta_mint x = ta_mint y \<and> n \<le> ta_amount x \<and>
          auth \<in> set sg \<and>
          spl_account S t' = (if a = b then spl_account S t
            else (spl_account S t)(a \<mapsto> x\<lparr>ta_amount := ta_amount x - n\<rparr>, b \<mapsto> y\<lparr>ta_amount := ta_amount y + n\<rparr>))"
    and mint_to: "spl_mint_to S sg mint b auth n t = Some t' \<Longrightarrow>
        \<exists>y. spl_account S t b = Some y \<and> ta_mint y = mint \<and>
          spl_account S t' = (spl_account S t)(b \<mapsto> y\<lparr>ta_amount := ta_amount y + n\<rparr>)"
    and close_account: "spl_close_account S sg k dest auth t = Some t' \<Longrightarrow>
        \<exists>x. spl_account S t k = Some x \<and> ta_amount x = 0 \<and> spl_account S t' = (spl_account S t)(k := None)"
    and create_metadata: "mpl_create_metadata S sg md mint auth meta t = Some t' \<Longrightarrow> spl_account S t' = spl_account S t"
    and create_edition: "mpl_create_master_edition S sg ed mint auth md supply t = Some t' \<Longrightarrow> spl_account S t' = spl_account S t"
    and burn_nft: "mpl_burn_nft S sg md owner mint k ed t = Some t' \<Longrightarrow>
        \<exists>x. spl_account S t k = Some x \<and> ta_mint x = mint \<and> spl_account S t' = (spl_account S t)(k := None)"
begin

lemma kept_refl: "kept S K owner t t"
  by (auto simp: kept_def)

lemma kept_same: "spl_account S t' = spl_account S t \<Longrightarrow> kept S K owner t t'"
  by (auto simp: kept_def)

lemma kept_trans:
  assumes "kept S K owner t t'" "kept S K owner t' t''"
  shows "kept S K owner t t''"
  unfolding kept_def
proof (intro ballI allI impI)
  fix k x assume k: "k \<in> K" "spl_account S t k = Some x" "ta_owner x = owner"
  then obtain y where y: "spl_account S t' k = Some y" "ta_owner y = owner" "ta_mint y = ta_mint x" "ta_amount x \<le> ta_amount y"
    using assms(1) unfolding kept_def by blast
  then obtain z where "spl_account S t'' k = Some z" "ta_owner z = owner" "ta_mint z = ta_mint y" "ta_amount y \<le> ta_amount z"
    using assms(2) k(1) unfolding kept_def by blast
  with y show "\<exists>z. spl_account S t'' k = Some z \<and> ta_owner z = owner \<and> ta_mint z = ta_mint x \<and> ta_amount x \<le> ta_amount z"
    by auto
qed

lemma kept_init: "spl_init_account S k mint owner' t = Some t' \<Longrightarrow> kept S K owner t t'"
  by (drule init_account) (auto simp: kept_def)

lemma kept_transfer:
  assumes "spl_transfer S sg a b auth n t = Some t'" and "a \<notin> K \<or> (\<exists>x. spl_account S t a = Some x \<and> ta_owner x \<noteq> owner)"
  shows "kept S K owner t t'"
  using transfer[OF assms(1)] assms(2) by (auto simp: kept_def split: if_splits)

lemma kept_mint_to: "spl_mint_to S sg mint b auth n t = Some t' \<Longrightarrow> kept S K owner t t'"
  by (drule mint_to) (auto simp: kept_def)

lemma kept_close:
  assumes "spl_close_account S sg k dest auth t = Some t'" and "k \<notin> K \<or> (\<exists>x. spl_account S t k = Some x \<and> ta_owner x \<noteq> owner)"
  shows "kept S K owner t t'"
  using close_account[OF assms(1)] assms(2) by (auto simp: kept_def)

lemma kept_burn: "mpl_burn_nft S sg md o' mint k ed t = Some t' \<Longrightarrow> k \<notin> K \<Longrightarrow> kept S K owner t t'"
  by (drule burn_nft) (auto simp: kept_def)

end

section \<open>Steps\<close>

text \<open>The sum of a weight over the vaults.\<close>

definition weigh :: "('v \<Rightarrow> nat) \<Rightarrow> ('k \<rightharpoonup> 'v) \<Rightarrow> nat" where
  "weigh f m = (\<Sum>k\<in>dom m. f (the (m k)))"

lemma weigh_empty [simp]: "weigh f Map.empty = 0"
  by (simp add: weigh_def)

lemma weigh_insert:
  assumes "finite (dom m)" "m k = None"
  shows "weigh f (m(k \<mapsto> v)) = weigh f m + f v"
proof -
  have "(\<Sum>j\<in>dom m. f (the ((m(k \<mapsto> v)) j))) = (\<Sum>j\<in>dom m. f (the (m j)))"
    using assms(2) by (intro sum.cong) auto
  then show ?thesis using assms by (simp add: weigh_def domIff add.commute)
qed

lemma weigh_remove:
  assumes "finite (dom m)" "m k = Some v"
  shows "weigh f m = weigh f (m(k := None)) + f v"
  using weigh_insert[of "m(k := None)" k f v] assms by (simp add: map_upd_triv)

lemma weigh_update:
  assumes "finite (dom m)" "m k = Some v"
  shows "weigh f (m(k \<mapsto> v')) + f v = weigh f m + f v'"
  using weigh_insert[of "m(k := None)" k f v'] weigh_remove[OF assms, of f] assms(1) by simp

lemma weigh_same:
  assumes "finite (dom m)" "m k = Some v" "f v' = f v"
  shows "weigh f (m(k \<mapsto> v')) = weigh f m"
  using weigh_update[OF assms(1,2), of f v'] assms(3) by simp

definition total_staked :: "('s, 'sig, 't) restaking \<Rightarrow> nat" where
  "total_staked w = weigh va_stake_amount (rs_vaults w)"

definition staked :: "('s, 'sig, 't) restaking \<Rightarrow> pubkey \<Rightarrow> nat" where
  "staked w mint = weigh (\<lambda>v. if va_stake_mint v = mint then va_stake_amount v else 0) (rs_vaults w)"

definition vault_balance :: "'t restaking_env \<Rightarrow> 't \<Rightarrow> pubkey \<Rightarrow> nat" where
  "vault_balance E t mint =
     (case vault_addr E mint of
        None \<Rightarrow> 0
      | Some k \<Rightarrow>
          (case spl_account (re_spl E) t k of
             None \<Rightarrow> 0
           | Some x \<Rightarrow> if ta_mint x = mint \<and> params_addr E = Some (ta_owner x) then ta_amount x else 0))"

text \<open>
  What can be reached from a state without parameters and vaults: instructions of the program in transactions
  that the address of the parameters has not signed, and anything that happens elsewhere, the IBC program
  included, which cannot take tokens from accounts that only this program can sign for.
\<close>

inductive restaking_run :: "'t restaking_env \<Rightarrow> ('s, 'sig, 't) restaking \<Rightarrow> bool" for E where
  start: "rs_params w = None \<Longrightarrow> rs_vaults w = Map.empty \<Longrightarrow> restaking_run E w"
| step: "restaking_run E w \<Longrightarrow> restaking_process E tx ix w = Ok w' \<Longrightarrow>
    \<forall>k. params_addr E = Some k \<longrightarrow> k \<notin> set (tx_signers tx) \<Longrightarrow> restaking_run E w'"
| elsewhere: "restaking_run E w \<Longrightarrow>
    \<forall>k. params_addr E = Some k \<longrightarrow> kept (re_spl E) UNIV k (rs_tokens w) (pr_tokens g) \<Longrightarrow>
    restaking_run E (w\<lparr>rs_guest := g\<rparr>)"

definition restaking_inv :: "'t restaking_env \<Rightarrow> ('s, 'sig, 't) restaking \<Rightarrow> bool" where
  "restaking_inv E w \<longleftrightarrow>
     finite (dom (rs_vaults w)) \<and>
     (case rs_params w of
        None \<Rightarrow> rs_vaults w = Map.empty
      | Some p \<Rightarrow> sp_total_deposited_amount p = total_staked w \<and> total_staked w \<le> sp_staking_cap p) \<and>
     (\<forall>mint. staked w mint \<le> vault_balance E (rs_tokens w) mint)"

text \<open>Inversion of successful instructions.\<close>

lemma find_key_Ok: "find_key E seeds = Ok k \<longleftrightarrow> re_pda E seeds restaking_ID = Some k"
  by (simp add: find_key_def ok_or_Ok)

lemma load_params_Ok: "load_params E w = Ok (k, p) \<longleftrightarrow> params_addr E = Some k \<and> rs_params w = Some p"
  by (auto simp: load_params_def find_key_Ok params_addr_def bind_outcome_Ok ok_or_Ok)

lemma load_vault_Ok:
  "load_vault E r w = Ok (k, v) \<longleftrightarrow> re_pda E [VAULT_PARAMS_SEED, r] restaking_ID = Some k \<and> rs_vaults w k = Some v"
  by (auto simp: load_vault_def find_key_Ok bind_outcome_Ok ok_or_Ok)

lemma save_params_Ok: "save_params p w = Ok w' \<longleftrightarrow> staking_params_size p \<le> 1024 \<and> w' = w\<lparr>rs_params := Some p\<rparr>"
  by (auto simp: save_params_def bind_outcome_Ok)

lemma token_is_Ok: "token_is E t k P = Ok x \<longleftrightarrow> spl_account (re_spl E) t k = Some x \<and> P x"
  by (auto simp: token_is_def bind_outcome_Ok ok_or_Ok)

lemma signed_Ok: "signed tx k = Ok u \<longleftrightarrow> k \<in> set (tx_signers tx)"
  by (simp add: signed_def)

lemma cpi_set_stake_Ok:
  assumes "cpi_set_stake E tx sender v n w = Ok w'"
  shows "rs_params w' = rs_params w" "rs_vaults w' = rs_vaults w" "rs_tokens w' = rs_tokens w" "sender \<in> set (tx_signers tx)"
  using assms by (auto simp: cpi_set_stake_def ix_set_stake_def instruction_Ok map_error_Ok)

lemma delegate_Ok:
  assumes "delegate E tx sender chain service n w = Ok w'"
  shows "rs_params w' = rs_params w \<and> rs_vaults w' = rs_vaults w \<and> rs_tokens w' = rs_tokens w"
  using assms by (auto simp: delegate_def bind_outcome_Ok Let_def dest: cpi_set_stake_Ok split: if_splits)

lemma undelegate_Ok:
  assumes "undelegate E tx sender i v chain w = Ok w'"
  shows "rs_params w' = rs_params w" "rs_vaults w' = rs_vaults w" "rs_tokens w' = rs_tokens w" "sender \<in> set (tx_signers tx)"
  using assms by (auto simp: undelegate_def bind_outcome_Ok dest: cpi_set_stake_Ok)

lemma set_tokens_simps [simp]:
  "rs_params (set_tokens t w) = rs_params w" "rs_vaults (set_tokens t w) = rs_vaults w" "rs_tokens (set_tokens t w) = t"
  by (simp_all add: set_tokens_def)

lemmas restaking_Ok = bind_outcome_Ok ok_or_Ok find_key_Ok load_params_Ok load_vault_Ok save_params_Ok token_is_Ok signed_Ok

section \<open>The vaults stay backed\<close>

definition vault_keys :: "'t restaking_env \<Rightarrow> pubkey set" where
  "vault_keys E = {k. \<exists>mint. vault_addr E mint = Some k}"

locale restaking_calls = spl_programs "re_spl E" for E :: "'t restaking_env" +
  fixes P :: pubkey
  assumes params: "params_addr E = Some P"
    and apart: "vaults_apart E"
begin

lemma rewards_no_vault: "re_pda E [REWARDS_SEED, TEST_SEED] restaking_ID = Some k \<Longrightarrow> k \<notin> vault_keys E"
  using apart by (auto simp: vaults_apart_def vault_keys_def)

lemma escrow_no_vault: "re_pda E [ESCROW_RECEIPT_SEED, r] restaking_ID = Some k \<Longrightarrow> k \<notin> vault_keys E"
  using apart by (auto simp: vaults_apart_def vault_keys_def)

lemma balance_kept: "kept (re_spl E) (vault_keys E) P t t' \<Longrightarrow> vault_balance E t mint \<le> vault_balance E t' mint"
  using params
  by (fastforce simp: vault_balance_def kept_def vault_keys_def split: option.splits)

lemma kept_mono: "spl_account (re_spl E) t \<subseteq>\<^sub>m spl_account (re_spl E) t' \<Longrightarrow> kept (re_spl E) K owner t t'"
  unfolding kept_def by (metis domI map_le_def order_refl)

lemma init_mono: "spl_init_account (re_spl E) k mint owner t = Some t' \<Longrightarrow> spl_account (re_spl E) t \<subseteq>\<^sub>m spl_account (re_spl E) t'"
  by (drule init_account) (auto simp: map_le_def)

lemma init_if_needed_mono:
  assumes "init_if_needed E k mint owner t = Ok t'"
  shows "spl_account (re_spl E) t \<subseteq>\<^sub>m spl_account (re_spl E) t'" "\<exists>x. spl_account (re_spl E) t' k = Some x \<and> held_by mint owner x"
  using assms by (auto simp: init_if_needed_def ok_or_Ok bind_outcome_Ok init_mono dest: init_account split: option.splits)

lemma transfer_kept:
  assumes "token_transfer E tx a seeds n t = Ok t'"
    and "tf_from a \<notin> vault_keys E \<or> (\<exists>x. spl_account (re_spl E) t (tf_from a) = Some x \<and> ta_owner x \<noteq> P)"
  shows "kept (re_spl E) (vault_keys E) P t t'"
  using assms kept_transfer by (auto simp: token_transfer_def ok_or_Ok)

lemma transfer_owner:
  assumes "token_transfer E tx a seeds n t = Ok t'" "spl_account (re_spl E) t k = Some x"
  shows "\<exists>y. spl_account (re_spl E) t' k = Some y \<and> ta_owner y = ta_owner x"
  using assms by (auto simp: token_transfer_def ok_or_Ok dest!: transfer)

lemma mint_nft_kept:
  assumes "mint_nft E tx a t = Ok t'"
  shows "kept (re_spl E) K owner t t'"
proof -
  obtain t1 t2 where t1: "spl_mint_to (re_spl E) (tx_signers tx) (mn_token_mint a) (mn_to a) (mn_mint_authority a) 1 t = Some t1"
    and same: "spl_account (re_spl E) t2 = spl_account (re_spl E) t1" "spl_account (re_spl E) t' = spl_account (re_spl E) t2"
    using assms by (auto simp: mint_nft_def ok_or_Ok bind_outcome_Ok dest!: create_metadata create_edition)
  show ?thesis by (rule kept_trans[OF kept_mint_to[OF t1] kept_same]) (simp add: same)
qed

lemma close_kept:
  assumes "close_token_account E tx seeds k dest auth t = Ok t'"
    and "k \<notin> vault_keys E \<or> (\<exists>x. spl_account (re_spl E) t k = Some x \<and> ta_owner x \<noteq> P)"
  shows "kept (re_spl E) (vault_keys E) P t t'"
  using assms kept_close by (auto simp: close_token_account_def ok_or_Ok)

text \<open>A transfer into and out of a vault.\<close>

lemma balance_in:
  assumes "token_transfer E tx a seeds n t = Ok t'" "vault_addr E mint = Some (tf_to a)" "tf_from a \<noteq> tf_to a"
    and "spl_account (re_spl E) t (tf_to a) = Some x" "held_by mint P x"
  shows "vault_balance E t' mint = vault_balance E t mint + n"
  using assms params by (auto simp: token_transfer_def ok_or_Ok vault_balance_def dest!: transfer)

lemma balance_out:
  assumes "token_transfer E tx a seeds n t = Ok t'" "vault_addr E mint = Some (tf_from a)"
    and "spl_account (re_spl E) t (tf_from a) = Some x" "held_by mint P x"
  shows "vault_balance E t m \<le> vault_balance E t' m + (if m = mint then n else 0)"
proof -
  obtain y where y: "spl_account (re_spl E) t (tf_to a) = Some y" and t': "spl_account (re_spl E) t' =
      (if tf_from a = tf_to a then spl_account (re_spl E) t
       else (spl_account (re_spl E) t)(tf_from a \<mapsto> x\<lparr>ta_amount := ta_amount x - n\<rparr>, tf_to a \<mapsto> y\<lparr>ta_amount := ta_amount y + n\<rparr>))"
    using assms(1,3) by (auto simp: token_transfer_def ok_or_Ok dest!: transfer)
  show ?thesis
  proof (cases "vault_addr E m")
    case (Some k)
    have "tf_from a = k \<Longrightarrow> m \<noteq> mint \<Longrightarrow> vault_balance E t m = 0"
      using Some assms(3,4) by (simp add: vault_balance_def)
    then show ?thesis
      using Some assms(2-4) params y t'
      by (cases "k = tf_from a"; cases "k = tf_to a"; cases "spl_account (re_spl E) t k") (auto simp: vault_balance_def)
  qed (simp add: vault_balance_def)
qed

lemma inv_vaults:
  assumes "restaking_inv E w" "rs_params w' = rs_params w" "rs_params w \<noteq> None"
    and "rs_vaults w k = Some v" "rs_vaults w' = (rs_vaults w)(k \<mapsto> v')"
    and "va_stake_amount v' = va_stake_amount v" "va_stake_mint v' = va_stake_mint v"
    and "kept (re_spl E) (vault_keys E) P (rs_tokens w) (rs_tokens w')"
  shows "restaking_inv E w'"
proof -
  have fin: "finite (dom (rs_vaults w))" using assms(1) by (simp add: restaking_inv_def)
  have "total_staked w' = total_staked w" "staked w' mint = staked w mint" for mint
    using assms(5,6,7) by (simp_all add: total_staked_def staked_def weigh_same[OF fin assms(4)])
  moreover have "vault_balance E (rs_tokens w) mint \<le> vault_balance E (rs_tokens w') mint" for mint
    by (rule balance_kept[OF assms(8)])
  ultimately show ?thesis
    using assms(1,2,3,5) fin by (auto simp: restaking_inv_def intro: order_trans)
qed

end

text \<open>What a deposit does.\<close>

lemma deposit_Ok:
  assumes "deposit E tx a service n w = Ok w'"
  obtains k p vp vt nft v t0 t1 where "params_addr E = Some k" "rs_params w = Some p"
    "deposit_setup E tx a k w = Ok ((vp, vt, nft), t0)"
    "token_transfer E tx \<lparr>tf_from = de_depositor_token_account a, tf_to = vt, tf_authority = de_depositor a\<rparr> [] n t0 = Ok t1"
    "mint_nft E tx nft t1 = Ok (rs_tokens w')" "sp_total_deposited_amount p + n \<le> sp_staking_cap p"
    "rs_params w' = Some (p\<lparr>sp_total_deposited_amount := sp_total_deposited_amount p + n\<rparr>)"
    "rs_vaults w' = (rs_vaults w)(vp \<mapsto> v)" "va_stake_amount v = n" "va_stake_mint v = de_token_mint a"
    "va_withdrawal_request v = None" "de_token_mint a \<in> set (sp_whitelisted_tokens p)"
proof -
  obtain k p vp vt nft t0 where l: "params_addr E = Some k" "rs_params w = Some p"
      "deposit_setup E tx a k w = Ok ((vp, vt, nft), t0)"
    using assms by (auto simp: deposit_def restaking_Ok)
  show thesis
    using assms l
    by (auto simp: deposit_def bind_outcome_Ok load_params_def find_key_def params_addr_def save_params_Ok ok_or_Ok
        split: if_splits option.splits dest!: delegate_Ok intro!: that[of k p vp vt nft t0])
qed

context restaking_calls
begin

lemma setup_effect:
  assumes "deposit_setup E tx a P w = Ok ((vp, vt, nft), t0)"
  shows "rs_vaults w vp = None" "vault_addr E (de_token_mint a) = Some vt" "de_depositor a \<in> set (tx_signers tx)"
    "spl_account (re_spl E) (rs_tokens w) \<subseteq>\<^sub>m spl_account (re_spl E) t0"
    "\<exists>x. spl_account (re_spl E) t0 vt = Some x \<and> held_by (de_token_mint a) P x"
    "\<exists>x. spl_account (re_spl E) t0 (de_depositor_token_account a) = Some x \<and> held_by (de_token_mint a) (de_depositor a) x"
proof -
  obtain t1 t2 x where i: "init_if_needed E vt (de_token_mint a) P (rs_tokens w) = Ok t1"
      "spl_init_mint (re_spl E) (de_receipt_token_mint a) 0 (de_depositor a) (de_depositor a) t1 = Some t2"
      "spl_init_account (re_spl E) (spl_ata (re_spl E) (de_depositor a) (de_receipt_token_mint a)) (de_receipt_token_mint a)
         (de_depositor a) t2 = Some t0"
    and x: "spl_account (re_spl E) (rs_tokens w) (de_depositor_token_account a) = Some x" "held_by (de_token_mint a) (de_depositor a) x"
    and f: "rs_vaults w vp = None" "vault_addr E (de_token_mint a) = Some vt" "de_depositor a \<in> set (tx_signers tx)"
    using assms by (auto simp: deposit_setup_def Let_def restaking_Ok vault_addr_def)
  have up: "spl_account (re_spl E) t1 \<subseteq>\<^sub>m spl_account (re_spl E) t0" using init_mint[OF i(2)] init_mono[OF i(3)] by simp
  from f show "rs_vaults w vp = None" "vault_addr E (de_token_mint a) = Some vt" "de_depositor a \<in> set (tx_signers tx)" by simp_all
  show le: "spl_account (re_spl E) (rs_tokens w) \<subseteq>\<^sub>m spl_account (re_spl E) t0"
    by (rule map_le_trans[OF init_if_needed_mono(1)[OF i(1)] up])
  show "\<exists>x. spl_account (re_spl E) t0 vt = Some x \<and> held_by (de_token_mint a) P x"
    using init_if_needed_mono(2)[OF i(1)] up by (metis domI map_le_def)
  show "\<exists>x. spl_account (re_spl E) t0 (de_depositor_token_account a) = Some x \<and> held_by (de_token_mint a) (de_depositor a) x"
    using x le by (metis domI map_le_def)
qed

lemma deposit_inv:
  assumes inv: "restaking_inv E w" and d: "deposit E tx a service n w = Ok w'" and sg: "P \<notin> set (tx_signers tx)"
  shows "restaking_inv E w'"
proof -
  obtain k p vp vt nft v t0 t1 where k: "params_addr E = Some k" and p: "rs_params w = Some p"
    and ds: "deposit_setup E tx a k w = Ok ((vp, vt, nft), t0)"
    and tr: "token_transfer E tx \<lparr>tf_from = de_depositor_token_account a, tf_to = vt, tf_authority = de_depositor a\<rparr> [] n t0 = Ok t1"
    and nft: "mint_nft E tx nft t1 = Ok (rs_tokens w')" and cap: "sp_total_deposited_amount p + n \<le> sp_staking_cap p"
    and p': "rs_params w' = Some (p\<lparr>sp_total_deposited_amount := sp_total_deposited_amount p + n\<rparr>)"
    and v: "rs_vaults w' = (rs_vaults w)(vp \<mapsto> v)" "va_stake_amount v = n" "va_stake_mint v = de_token_mint a"
    by (rule deposit_Ok[OF d])
  have su: "deposit_setup E tx a P w = Ok ((vp, vt, nft), t0)" using ds k params by simp
  note e = setup_effect[OF su]
  obtain x y where x: "spl_account (re_spl E) t0 vt = Some x" "held_by (de_token_mint a) P x"
    and y: "spl_account (re_spl E) t0 (de_depositor_token_account a) = Some y" "ta_owner y = de_depositor a"
    using e(5,6) by blast
  have owner: "ta_owner y \<noteq> P" using y(2) e(3) sg by auto
  then have ne: "de_depositor_token_account a \<noteq> vt" using x y by auto
  have fin: "finite (dom (rs_vaults w))" using inv by (simp add: restaking_inv_def)
  have total: "total_staked w' = total_staked w + n"
    using weigh_insert[OF fin e(1), of va_stake_amount v] v by (simp add: total_staked_def)
  have stk: "staked w' m = staked w m + (if m = de_token_mint a then n else 0)" for m
    using weigh_insert[OF fin e(1), of "\<lambda>v. if va_stake_mint v = m then va_stake_amount v else 0" v] v by (auto simp: staked_def)
  have "vault_balance E (rs_tokens w) m + (if m = de_token_mint a then n else 0) \<le> vault_balance E t1 m" for m
    using balance_kept[OF kept_mono[OF e(4)], of m] balance_in[OF tr, of "de_token_mint a" x] e(2) ne x
      balance_kept[OF transfer_kept[OF tr], of m] owner y(1) by auto
  moreover have "vault_balance E t1 m \<le> vault_balance E (rs_tokens w') m" for m by (rule balance_kept[OF mint_nft_kept[OF nft]])
  ultimately have "staked w' m \<le> vault_balance E (rs_tokens w') m" for m
    using inv unfolding stk restaking_inv_def by (meson add_le_mono1 order_trans)
  then show ?thesis
    using inv p p' v(1) fin total cap by (simp add: restaking_inv_def)
qed

end

context restaking_calls
begin

lemma request_inv:
  assumes inv: "restaking_inv E w" and r: "withdrawal_request E tx a w = Ok w'" and sg: "P \<notin> set (tx_signers tx)"
  shows "restaking_inv E w'"
proof -
  let ?acc = "wa_receipt_token_account a" and ?dr = "spl_ata (re_spl E) (wa_withdrawer a) (wa_rewards_token_mint a)"
  obtain vp v p t1 t2 t3 t4 pr es x rw req h where w: "rs_vaults w vp = Some v" "rs_params w = Some p"
    and wd: "wa_withdrawer a \<in> set (tx_signers tx)"
    and keys: "re_pda E [REWARDS_SEED, TEST_SEED] restaking_ID = Some pr"
      "re_pda E [ESCROW_RECEIPT_SEED, wa_receipt_token_mint a] restaking_ID = Some es"
    and t1: "init_if_needed E ?dr (wa_rewards_token_mint a) (wa_withdrawer a) (rs_tokens w) = Ok t1"
    and x: "spl_account (re_spl E) t1 ?acc = Some x" "ta_owner x = wa_withdrawer a"
    and t2: "spl_init_account (re_spl E) es (wa_receipt_token_mint a) P t1 = Some t2"
    and t3: "token_transfer E tx \<lparr>tf_from = pr, tf_to = ?dr, tf_authority = P\<rparr> params_seeds rw t2 = Ok t3"
    and t4: "token_transfer E tx \<lparr>tf_from = ?acc, tf_to = es, tf_authority = wa_withdrawer a\<rparr> [] 1 t3 = Ok t4"
    and t5: "close_token_account E tx [] ?acc (wa_withdrawer a) (wa_withdrawer a) t4 = Ok (rs_tokens w')"
    and w': "rs_params w' = rs_params w" "rs_vaults w' = (rs_vaults w)(vp \<mapsto>
        v\<lparr>va_withdrawal_request := Some req, va_last_received_rewards_height := h\<rparr>)"
    using r params by (auto simp: withdrawal_request_def withdrawal_request_setup_def Let_def restaking_Ok split: if_splits)
  have le: "spl_account (re_spl E) t1 \<subseteq>\<^sub>m spl_account (re_spl E) t2" by (rule init_mono[OF t2])
  have x2: "spl_account (re_spl E) t2 ?acc = Some x" using x le by (metis domI map_le_def)
  obtain y where y: "spl_account (re_spl E) t3 ?acc = Some y" "ta_owner y = wa_withdrawer a"
    using transfer_owner[OF t3 x2] x(2) by auto
  obtain z where z: "spl_account (re_spl E) t4 ?acc = Some z" "ta_owner z = wa_withdrawer a"
    using transfer_owner[OF t4 y(1)] y(2) by auto
  have ne: "wa_withdrawer a \<noteq> P" using wd sg by auto
  have "kept (re_spl E) (vault_keys E) P (rs_tokens w) t2"
    by (rule kept_mono[OF map_le_trans[OF init_if_needed_mono(1)[OF t1] le]])
  also have "kept (re_spl E) (vault_keys E) P t2 t3" using transfer_kept[OF t3] rewards_no_vault[OF keys(1)] by simp
  finally (kept_trans) have "kept (re_spl E) (vault_keys E) P (rs_tokens w) t3" .
  moreover have "kept (re_spl E) (vault_keys E) P t3 t4" using transfer_kept[OF t4] y ne by simp
  moreover have "kept (re_spl E) (vault_keys E) P t4 (rs_tokens w')" using close_kept[OF t5] z ne by simp
  ultimately have "kept (re_spl E) (vault_keys E) P (rs_tokens w) (rs_tokens w')" using kept_trans by blast
  then show ?thesis by (intro inv_vaults[OF inv w'(1) _ w(1) w'(2)]) (simp_all add: w(2))
qed

lemma cancel_inv:
  assumes inv: "restaking_inv E w" and c: "cancel_withdrawal_request E tx a w = Ok w'"
  shows "restaking_inv E w'"
proof -
  let ?acc = "spl_ata (re_spl E) (wa_withdrawer a) (wa_receipt_token_mint a)"
  obtain vp v p t1 t2 es where w: "rs_vaults w vp = Some v" "rs_params w = Some p"
    and es: "re_pda E [ESCROW_RECEIPT_SEED, wa_receipt_token_mint a] restaking_ID = Some es"
    and t1: "spl_init_account (re_spl E) ?acc (wa_receipt_token_mint a) (wa_withdrawer a) (rs_tokens w) = Some t1"
    and t2: "token_transfer E tx \<lparr>tf_from = es, tf_to = ?acc, tf_authority = P\<rparr> params_seeds 1 t1 = Ok t2"
    and t3: "close_token_account E tx params_seeds es (wa_withdrawer a) P t2 = Ok (rs_tokens w')"
    and w': "rs_params w' = rs_params w" "rs_vaults w' = (rs_vaults w)(vp \<mapsto> v\<lparr>va_withdrawal_request := None\<rparr>)"
    using c params by (auto simp: cancel_withdrawal_request_def cancel_setup_def withdrawal_request_setup_def Let_def restaking_Ok)
  have no: "es \<notin> vault_keys E" by (rule escrow_no_vault[OF es])
  have "kept (re_spl E) (vault_keys E) P (rs_tokens w) (rs_tokens w')"
    using kept_init[OF t1] transfer_kept[OF t2] close_kept[OF t3] no kept_trans by (metis transfer_accounts.simps(1))
  then show ?thesis by (intro inv_vaults[OF inv w'(1) _ w(1) w'(2)]) (simp_all add: w(2))
qed

lemma claim_inv:
  assumes inv: "restaking_inv E w" and c: "claim_rewards E tx a w = Ok w'"
  shows "restaking_inv E w'"
proof -
  let ?dr = "spl_ata (re_spl E) (wa_withdrawer a) (wa_rewards_token_mint a)"
  obtain vp v p t1 rw pr h where w: "rs_vaults w vp = Some v" "rs_params w = Some p"
    and pr: "re_pda E [REWARDS_SEED, TEST_SEED] restaking_ID = Some pr"
    and t1: "init_if_needed E ?dr (wa_rewards_token_mint a) (wa_withdrawer a) (rs_tokens w) = Ok t1"
    and t2: "token_transfer E tx \<lparr>tf_from = pr, tf_to = ?dr, tf_authority = P\<rparr> params_seeds rw t1 = Ok (rs_tokens w')"
    and w': "rs_params w' = rs_params w" "rs_vaults w' = (rs_vaults w)(vp \<mapsto> v\<lparr>va_last_received_rewards_height := h\<rparr>)"
    using c params by (auto simp: claim_rewards_def claim_setup_def Let_def restaking_Ok split: if_splits)
  have "kept (re_spl E) (vault_keys E) P (rs_tokens w) (rs_tokens w')"
    using kept_trans[OF kept_mono[OF init_if_needed_mono(1)[OF t1]] transfer_kept[OF t2]] rewards_no_vault[OF pr] by simp
  then show ?thesis by (intro inv_vaults[OF inv w'(1) _ w(1) w'(2)]) (simp_all add: w(2))
qed

lemma service_inv:
  assumes inv: "restaking_inv E w" and s: "set_service E tx a remaining service w = Ok w'"
  shows "restaking_inv E w'"
proof -
  obtain vp v p where w: "rs_vaults w vp = Some v" "rs_params w = Some p"
    and w': "rs_params w' = rs_params w" "rs_vaults w' = (rs_vaults w)(vp \<mapsto> v\<lparr>va_service := Some service\<rparr>)"
      "rs_tokens w' = rs_tokens w"
    using s by (auto simp: set_service_def service_setup_def Let_def restaking_Ok dest!: delegate_Ok split: if_splits)
  then show ?thesis by (intro inv_vaults[OF inv w'(1) _ w(1) w'(2)]) (simp_all add: kept_refl)
qed

end

text \<open>What a withdrawal needs and does.\<close>

lemma withdraw_Ok:
  assumes "withdraw E tx a w = Ok w'"
  obtains k p vp v vt es x t1 w1 st md ed where "params_addr E = Some k" "rs_params w = Some p"
    "re_pda E [VAULT_PARAMS_SEED, wa_receipt_token_mint a] restaking_ID = Some vp" "rs_vaults w vp = Some v"
    "vault_addr E (wa_token_mint a) = Some vt" "spl_account (re_spl E) (rs_tokens w) vt = Some x" "held_by (wa_token_mint a) k x"
    "re_pda E [ESCROW_RECEIPT_SEED, wa_receipt_token_mint a] restaking_ID = Some es"
    "withdraw_checks tx a p v = Ok ()" "va_stake_amount v \<le> sp_total_deposited_amount p"
    "pr_storage (rs_guest w) = Some st"
    "undelegate E tx (wa_withdrawer a) (wa_instruction a) v (st_chain st) w = Ok w1"
    "token_transfer E tx \<lparr>tf_from = vt, tf_to = wa_withdrawer_token_account a, tf_authority = k\<rparr> params_seeds
       (va_stake_amount v) (rs_tokens w) = Ok t1"
    "mpl_burn_nft (re_spl E) (signers_with E tx params_seeds) md k (wa_receipt_token_mint a) es ed t1 = Some (rs_tokens w')"
    "rs_params w' = Some (p\<lparr>sp_total_deposited_amount := sp_total_deposited_amount p - va_stake_amount v\<rparr>)"
    "rs_vaults w' = (rs_vaults w)(vp := None)" "pr_storage (rs_guest w') = pr_storage (rs_guest w1)"
proof -
  obtain k p vp v vt es x t1 t2 w1 st md ed where f: "params_addr E = Some k" "rs_params w = Some p"
    "re_pda E [VAULT_PARAMS_SEED, wa_receipt_token_mint a] restaking_ID = Some vp" "rs_vaults w vp = Some v"
    "vault_addr E (wa_token_mint a) = Some vt" "spl_account (re_spl E) (rs_tokens w) vt = Some x" "held_by (wa_token_mint a) k x"
    "re_pda E [ESCROW_RECEIPT_SEED, wa_receipt_token_mint a] restaking_ID = Some es"
    "withdraw_checks tx a p v = Ok ()" "va_stake_amount v \<le> sp_total_deposited_amount p"
    "pr_storage (rs_guest w) = Some st"
    and u: "undelegate E tx (wa_withdrawer a) (wa_instruction a) v (st_chain st) w = Ok w1"
    and t: "token_transfer E tx \<lparr>tf_from = vt, tf_to = wa_withdrawer_token_account a, tf_authority = k\<rparr> params_seeds
       (va_stake_amount v) (rs_tokens w1) = Ok t1"
    "mpl_burn_nft (re_spl E) (signers_with E tx params_seeds) md k (wa_receipt_token_mint a) es ed t1 = Some t2"
    and w': "w' = (set_tokens t2 w1)\<lparr>rs_vaults := (rs_vaults w1)(vp := None),
      rs_params := Some (p\<lparr>sp_total_deposited_amount := sp_total_deposited_amount p - va_stake_amount v\<rparr>)\<rparr>"
    using assms by (auto simp: withdraw_def withdraw_setup_def Let_def restaking_Ok load_guest_chain_def vault_addr_def split: if_splits)
  show thesis
    by (rule that[OF f u, of t1 md ed]) (use t w' undelegate_Ok[OF u] in \<open>simp_all add: set_tokens_def\<close>)
qed

context restaking_calls
begin

lemma withdraw_inv:
  assumes inv: "restaking_inv E w" and d: "withdraw E tx a w = Ok w'"
  shows "restaking_inv E w'"
proof -
  obtain k p vp v vt es x t1 w1 st md ed where k: "params_addr E = Some k" and p: "rs_params w = Some p"
    and "re_pda E [VAULT_PARAMS_SEED, wa_receipt_token_mint a] restaking_ID = Some vp" and v: "rs_vaults w vp = Some v"
    and vt: "vault_addr E (wa_token_mint a) = Some vt" "spl_account (re_spl E) (rs_tokens w) vt = Some x" "held_by (wa_token_mint a) k x"
    and es: "re_pda E [ESCROW_RECEIPT_SEED, wa_receipt_token_mint a] restaking_ID = Some es"
    and chk: "withdraw_checks tx a p v = Ok ()" and le: "va_stake_amount v \<le> sp_total_deposited_amount p"
    and "pr_storage (rs_guest w) = Some st" "undelegate E tx (wa_withdrawer a) (wa_instruction a) v (st_chain st) w = Ok w1"
    and t1: "token_transfer E tx \<lparr>tf_from = vt, tf_to = wa_withdrawer_token_account a, tf_authority = k\<rparr> params_seeds
       (va_stake_amount v) (rs_tokens w) = Ok t1"
    and t2: "mpl_burn_nft (re_spl E) (signers_with E tx params_seeds) md k (wa_receipt_token_mint a) es ed t1 = Some (rs_tokens w')"
    and w': "rs_params w' = Some (p\<lparr>sp_total_deposited_amount := sp_total_deposited_amount p - va_stake_amount v\<rparr>)"
      "rs_vaults w' = (rs_vaults w)(vp := None)"
    by (rule withdraw_Ok[OF d])
  have fin: "finite (dom (rs_vaults w))" using inv by (simp add: restaking_inv_def)
  have mint: "va_stake_mint v = wa_token_mint a" using chk by (auto simp: withdraw_checks_def split: if_splits)
  have total: "total_staked w = total_staked w' + va_stake_amount v"
    using weigh_remove[OF fin v, of va_stake_amount] w'(2) by (simp add: total_staked_def)
  have stk: "staked w m = staked w' m + (if m = wa_token_mint a then va_stake_amount v else 0)" for m
    using weigh_remove[OF fin v, of "\<lambda>v. if va_stake_mint v = m then va_stake_amount v else 0"] w'(2) mint
    by (auto simp: staked_def)
  have b1: "vault_balance E (rs_tokens w) m \<le> vault_balance E t1 m + (if m = wa_token_mint a then va_stake_amount v else 0)" for m
    using balance_out[OF t1, of "wa_token_mint a" x m] vt k params by simp
  have b2: "vault_balance E t1 m \<le> vault_balance E (rs_tokens w') m" for m
    by (rule balance_kept[OF kept_burn[OF t2 escrow_no_vault[OF es]]])
  have b3: "staked w m \<le> vault_balance E (rs_tokens w) m" for m using inv by (simp add: restaking_inv_def)
  have "staked w' m \<le> vault_balance E (rs_tokens w') m" for m
    using stk[of m] b1[of m] b2[of m] b3[of m] by linarith
  then show ?thesis using inv p w' fin total le by (simp add: restaking_inv_def)
qed

lemma inv_tokens:
  assumes "restaking_inv E w" "rs_params w' = rs_params w" "rs_vaults w' = rs_vaults w"
    "\<And>m. vault_balance E (rs_tokens w) m \<le> vault_balance E (rs_tokens w') m"
  shows "restaking_inv E w'"
proof -
  have "staked w' m \<le> vault_balance E (rs_tokens w') m" for m
    using assms(1,3) order_trans[OF _ assms(4)[of m]] by (simp add: restaking_inv_def staked_def)
  then show ?thesis using assms(1-3) by (simp add: restaking_inv_def total_staked_def cong: option.case_cong)
qed

lemma initialize_inv:
  assumes "restaking_inv E w" "initialize E tx a tokens cap w = Ok w'"
  shows "restaking_inv E w'"
  using assms by (auto simp: initialize_def restaking_Ok restaking_inv_def total_staked_def staked_def)

lemma funds_inv:
  assumes inv: "restaking_inv E w" and f: "withdraw_reward_funds E tx k mint acc w = Ok w'"
  shows "restaking_inv E w'"
proof -
  obtain pr n where pr: "re_pda E [REWARDS_SEED, TEST_SEED] restaking_ID = Some pr"
    and t: "token_transfer E tx \<lparr>tf_from = pr, tf_to = acc, tf_authority = P\<rparr> params_seeds n (rs_tokens w) = Ok (rs_tokens w')"
    and w': "rs_params w' = rs_params w" "rs_vaults w' = rs_vaults w"
    using f params by (auto simp: withdraw_reward_funds_def restaking_Ok)
  show ?thesis
    by (rule inv_tokens[OF inv w' balance_kept[OF transfer_kept[OF t]]]) (simp add: rewards_no_vault[OF pr])
qed

lemma admin_inv:
  assumes inv: "restaking_inv E w" and f: "as_admin E tx k f w = Ok w'"
    and "\<And>p p'. f p = Ok p' \<Longrightarrow> sp_total_deposited_amount p' = sp_total_deposited_amount p \<and> sp_staking_cap p \<le> sp_staking_cap p'"
  shows "restaking_inv E w'"
  using inv f
  by (auto simp: as_admin_def restaking_Ok restaking_inv_def total_staked_def staked_def dest!: assms(3) intro: order_trans)

lemmas admin_defs = update_token_whitelist_def update_guest_chain_initialization_def change_admin_proposal_def
  update_staking_cap_def

lemma admin_ops_inv:
  assumes inv: "restaking_inv E w" and "update_token_whitelist E tx k ms w = Ok w' \<or> update_guest_chain_initialization E tx k g w = Ok w' \<or>
    change_admin_proposal E tx k g w = Ok w' \<or> update_staking_cap E tx k n w = Ok w'"
  shows "restaking_inv E w'"
  using assms(2) unfolding admin_defs by (elim disjE) (erule admin_inv[OF inv]; auto split: if_splits)+

lemma process_inv:
  assumes "restaking_inv E w" "restaking_process E tx ix w = Ok w'" "P \<notin> set (tx_signers tx)"
  shows "restaking_inv E w'"
proof (cases ix)
  case (AcceptAdminChange k)
  then show ?thesis using assms
    by (auto simp: restaking_process_def accept_admin_change_def restaking_Ok restaking_inv_def total_staked_def staked_def
        split: if_splits)
qed (use assms in \<open>auto simp: restaking_process_def intro: deposit_inv request_inv cancel_inv claim_inv service_inv
  withdraw_inv initialize_inv funds_inv admin_ops_inv\<close>)

lemma run_inv: "restaking_run E w \<Longrightarrow> restaking_inv E w"
proof (induction rule: restaking_run.induct)
  case (start w)
  then show ?case by (simp add: restaking_inv_def total_staked_def staked_def)
next
  case (step w tx ix w')
  then show ?case using process_inv params by blast
next
  case (elsewhere w g)
  have "kept (re_spl E) (vault_keys E) P (rs_tokens w) (pr_tokens g)"
    using elsewhere(2) params by (simp add: kept_def)
  then show ?case by (intro inv_tokens[OF elsewhere.IH]) (simp_all add: balance_kept)
qed

end

section \<open>A ledger\<close>

text \<open>
  A token state that satisfies the contract: maps of accounts and of mints. The metadata program keeps nothing
  but the authority of a mint.
\<close>

record ledger =
  lg_accounts :: "pubkey \<rightharpoonup> token_account"
  lg_mints :: "pubkey \<rightharpoonup> mint_account"

definition ledger_init_account :: "pubkey \<Rightarrow> pubkey \<Rightarrow> pubkey \<Rightarrow> ledger \<Rightarrow> ledger option" where
  "ledger_init_account k mint owner t =
     (if lg_accounts t k = None
      then Some (t\<lparr>lg_accounts := (lg_accounts t)(k \<mapsto> \<lparr>ta_mint = mint, ta_owner = owner, ta_amount = 0\<rparr>)\<rparr>) else None)"

definition ledger_init_mint :: "pubkey \<Rightarrow> nat \<Rightarrow> pubkey \<Rightarrow> pubkey \<Rightarrow> ledger \<Rightarrow> ledger option" where
  "ledger_init_mint k decimals auth freeze t =
     (if lg_mints t k = None
      then Some (t\<lparr>lg_mints := (lg_mints t)(k \<mapsto> \<lparr>mi_decimals = decimals, mi_authority = Some auth\<rparr>)\<rparr>) else None)"

definition ledger_transfer :: "pubkey list \<Rightarrow> pubkey \<Rightarrow> pubkey \<Rightarrow> pubkey \<Rightarrow> nat \<Rightarrow> ledger \<Rightarrow> ledger option" where
  "ledger_transfer signers a b auth n t =
     (case (lg_accounts t a, lg_accounts t b) of
        (Some x, Some y) \<Rightarrow>
          if ta_mint x = ta_mint y \<and> n \<le> ta_amount x \<and> auth \<in> set signers \<and> ta_owner x = auth
          then Some (if a = b then t
                     else t\<lparr>lg_accounts := (lg_accounts t)(a \<mapsto> x\<lparr>ta_amount := ta_amount x - n\<rparr>,
                                                           b \<mapsto> y\<lparr>ta_amount := ta_amount y + n\<rparr>)\<rparr>)
          else None
      | _ \<Rightarrow> None)"

definition ledger_mint_to :: "pubkey list \<Rightarrow> pubkey \<Rightarrow> pubkey \<Rightarrow> pubkey \<Rightarrow> nat \<Rightarrow> ledger \<Rightarrow> ledger option" where
  "ledger_mint_to signers mint b auth n t =
     (case (lg_mints t mint, lg_accounts t b) of
        (Some m, Some y) \<Rightarrow>
          if ta_mint y = mint \<and> mi_authority m = Some auth \<and> auth \<in> set signers
          then Some (t\<lparr>lg_accounts := (lg_accounts t)(b \<mapsto> y\<lparr>ta_amount := ta_amount y + n\<rparr>)\<rparr>) else None
      | _ \<Rightarrow> None)"

definition ledger_close_account :: "pubkey list \<Rightarrow> pubkey \<Rightarrow> pubkey \<Rightarrow> pubkey \<Rightarrow> ledger \<Rightarrow> ledger option" where
  "ledger_close_account signers k destination auth t =
     (case lg_accounts t k of
        Some x \<Rightarrow>
          if ta_amount x = 0 \<and> ta_owner x = auth \<and> auth \<in> set signers
          then Some (t\<lparr>lg_accounts := (lg_accounts t)(k := None)\<rparr>) else None
      | None \<Rightarrow> None)"

definition ledger_ata :: "pubkey \<Rightarrow> pubkey \<Rightarrow> pubkey" where
  "ledger_ata wallet mint = bytes_of ''ata'' @ wallet @ mint"

definition ledger_master_edition :: "pubkey \<Rightarrow> pubkey \<Rightarrow> ledger \<Rightarrow> ledger option" where
  "ledger_master_edition edition mint t =
     map_option (\<lambda>m. t\<lparr>lg_mints := (lg_mints t)(mint \<mapsto> m\<lparr>mi_authority := Some edition\<rparr>)\<rparr>) (lg_mints t mint)"

definition ledger_burn_nft :: "pubkey list \<Rightarrow> pubkey \<Rightarrow> pubkey \<Rightarrow> pubkey \<Rightarrow> ledger \<Rightarrow> ledger option" where
  "ledger_burn_nft signers owner mint k t =
     (case lg_accounts t k of
        Some x \<Rightarrow>
          if ta_mint x = mint \<and> ta_amount x = 1 \<and> ta_owner x = owner \<and> owner \<in> set signers
          then Some (t\<lparr>lg_accounts := (lg_accounts t)(k := None)\<rparr>) else None
      | None \<Rightarrow> None)"

definition ledger_spl :: "ledger spl" where
  "ledger_spl =
     \<lparr>spl_account = lg_accounts, spl_mint = lg_mints, spl_init_account = ledger_init_account,
      spl_init_mint = ledger_init_mint, spl_transfer = ledger_transfer, spl_mint_to = ledger_mint_to,
      spl_close_account = ledger_close_account, spl_ata = ledger_ata, mpl_ID = [77],
      mpl_create_metadata = (\<lambda>_ _ _ _ _. Some),
      mpl_create_master_edition = (\<lambda>_ edition mint _ _ _. ledger_master_edition edition mint),
      mpl_burn_nft = (\<lambda>signers _ owner mint k _. ledger_burn_nft signers owner mint k)\<rparr>"

lemmas ledger_defs = ledger_init_account_def ledger_init_mint_def ledger_transfer_def ledger_mint_to_def
  ledger_close_account_def ledger_master_edition_def ledger_burn_nft_def

interpretation ledger: spl_programs ledger_spl
  by unfold_locales (auto simp: ledger_spl_def ledger_defs split: if_splits option.splits)

text \<open>Addresses that are the concatenation of their seeds.\<close>

definition ex_restaking_env :: "ledger restaking_env" where
  "ex_restaking_env =
     \<lparr>re_pda = (\<lambda>seeds _. Some (concat seeds)), re_spl = ledger_spl,
      re_crypto = \<lparr>cr_digest = (\<lambda>_. replicate 32 1), cr_header = (\<lambda>_. []), cr_epoch = (\<lambda>_. [])\<rparr>, re_instructions_ID = [9]\<rparr>"

lemma ex_vaults_apart: "vaults_apart ex_restaking_env"
  by (simp add: vaults_apart_def vault_addr_def ex_restaking_env_def VAULT_SEED_def REWARDS_SEED_def ESCROW_RECEIPT_SEED_def)

interpretation ex_calls: restaking_calls ex_restaking_env "STAKING_PARAMS_SEED @ TEST_SEED"
proof -
  have S: "re_spl ex_restaking_env = ledger_spl" by (simp add: ex_restaking_env_def)
  show "restaking_calls ex_restaking_env (STAKING_PARAMS_SEED @ TEST_SEED)"
  proof (intro restaking_calls.intro restaking_calls_axioms.intro)
    show "spl_programs (re_spl ex_restaking_env)" unfolding S by (rule ledger.spl_programs_axioms)
    show "params_addr ex_restaking_env = Some (STAKING_PARAMS_SEED @ TEST_SEED)" by (simp add: params_addr_def ex_restaking_env_def)
    show "vaults_apart ex_restaking_env" by (rule ex_vaults_apart)
  qed
qed

section \<open>An example\<close>

text \<open>Examples: the token \<open>[1]\<close>, the depositor \<open>[3]\<close> with its account \<open>[11]\<close> and the receipt \<open>[4]\<close>.\<close>

definition ex_ledger :: ledger where
  "ex_ledger =
     \<lparr>lg_accounts = [[11] \<mapsto> \<lparr>ta_mint = [1], ta_owner = [3], ta_amount = 10\<rparr>],
      lg_mints = [[1] \<mapsto> \<lparr>mi_decimals = 9, mi_authority = None\<rparr>, [2] \<mapsto> \<lparr>mi_decimals = 6, mi_authority = None\<rparr>]\<rparr>"

definition ex_guest :: "ledger \<Rightarrow> (unit, bool, ledger) ibc_program" where
  "ex_guest t = \<lparr>pr_storage = Some ex_ibc_storage, pr_accounts = pr_accounts ex_program, pr_tokens = t\<rparr>"

definition ex_restaking0 :: "(unit, bool, ledger) restaking" where
  "ex_restaking0 = \<lparr>rs_params = None, rs_vaults = Map.empty, rs_guest = ex_guest ex_ledger\<rparr>"

definition ex_restaking_tx :: tx where
  "ex_restaking_tx = \<lparr>tx_signers = [[3], [4]], tx_writable = [], tx_clock = Some (1, 1000000), tx_program = Some restaking_ID\<rparr>"

definition ex_deposit :: deposit_accounts where
  "ex_deposit = \<lparr>de_depositor = [3], de_token_mint = [1], de_depositor_token_account = [11], de_receipt_token_mint = [4],
     de_instruction = [9], de_remaining_accounts = []\<rparr>"

lemmas seed_defs = STAKING_PARAMS_SEED_def VAULT_PARAMS_SEED_def VAULT_SEED_def TEST_SEED_def ESCROW_RECEIPT_SEED_def REWARDS_SEED_def

lemmas restaking_eval = find_key_def signed_def load_params_def load_vault_def save_params_def staking_params_size_def token_is_def
  mint_is_def init_if_needed_def nft_metadata_def master_edition_account_def receipt_mint_ok_def token_transfer_def mint_nft_def
  close_token_account_def set_tokens_def ledger_spl_def ledger_defs ledger_ata_def

lemma ex_initialize:
  "\<exists>w. restaking_process ex_restaking_env ex_restaking_tx (Initialize \<lparr>in_admin = [3], in_rewards_token_mint = [2]\<rparr> [[1]] 100) ex_restaking0 = Ok w \<and>
     rs_params w = Some \<lparr>sp_admin = [3], sp_whitelisted_tokens = [[1]], sp_guest_chain_program_id = None,
       sp_rewards_token_mint = [2], sp_staking_cap = 100, sp_total_deposited_amount = 0, sp_new_admin_proposal = None\<rparr> \<and>
     rs_vaults w = Map.empty \<and>
     rs_tokens w = ex_ledger\<lparr>lg_accounts := (lg_accounts ex_ledger)(REWARDS_SEED @ TEST_SEED \<mapsto>
        \<lparr>ta_mint = [2], ta_owner = STAKING_PARAMS_SEED @ TEST_SEED, ta_amount = 0\<rparr>)\<rparr>"
  by (simp add: restaking_process_def initialize_def restaking_eval ex_restaking_env_def ex_restaking0_def ex_restaking_tx_def
      ex_guest_def ex_ledger_def seed_defs)

lemma ex_deposited:
  assumes "rs_params w = Some \<lparr>sp_admin = [3], sp_whitelisted_tokens = [[1]], sp_guest_chain_program_id = None,
       sp_rewards_token_mint = [2], sp_staking_cap = 100, sp_total_deposited_amount = 0, sp_new_admin_proposal = None\<rparr>"
    and "rs_vaults w = Map.empty"
    and "rs_tokens w = ex_ledger\<lparr>lg_accounts := (lg_accounts ex_ledger)(REWARDS_SEED @ TEST_SEED \<mapsto>
        \<lparr>ta_mint = [2], ta_owner = STAKING_PARAMS_SEED @ TEST_SEED, ta_amount = 0\<rparr>)\<rparr>"
  shows "\<exists>w'. restaking_process ex_restaking_env ex_restaking_tx (Deposit ex_deposit (GuestChain [1]) 7) w = Ok w' \<and>
    staked w' [1] = 7 \<and> (\<exists>p. rs_params w' = Some p \<and> sp_total_deposited_amount p = 7)"
  using assms
  by (simp add: restaking_process_def deposit_def deposit_setup_def Let_def restaking_eval ex_restaking_env_def ex_restaking_tx_def
      ex_deposit_def ex_ledger_def seed_defs staked_def weigh_def)

text \<open>A vault with a request, and the validator \<open>[1]\<close> of the guest chain.\<close>

definition ex_vault :: vault where
  "ex_vault = \<lparr>va_stake_timestamp_sec = 5, va_service = Some (GuestChain [1]), va_stake_amount = 3, va_stake_mint = [1],
     va_last_received_rewards_height = 1,
     va_withdrawal_request = Some \<lparr>wr_timestamp_in_sec = 100, wr_owner = [3], wr_token_account = [11]\<rparr>\<rparr>"

definition ex_edition :: pubkey where
  "ex_edition = concat [bytes_of ''metadata'', [77], [4], bytes_of ''edition'']"

definition ex_requested :: "(unit, bool, ledger) restaking" where
  "ex_requested =
     \<lparr>rs_params = Some \<lparr>sp_admin = [3], sp_whitelisted_tokens = [[1]], sp_guest_chain_program_id = Some solana_ibc_ID,
       sp_rewards_token_mint = [2], sp_staking_cap = 100, sp_total_deposited_amount = 3, sp_new_admin_proposal = None\<rparr>,
      rs_vaults = [VAULT_PARAMS_SEED @ [4] \<mapsto> ex_vault],
      rs_guest = ex_guest
        \<lparr>lg_accounts = [[11] \<mapsto> \<lparr>ta_mint = [1], ta_owner = [3], ta_amount = 10\<rparr>,
           VAULT_SEED @ [1] \<mapsto> \<lparr>ta_mint = [1], ta_owner = STAKING_PARAMS_SEED @ TEST_SEED, ta_amount = 3\<rparr>,
           ESCROW_RECEIPT_SEED @ [4] \<mapsto> \<lparr>ta_mint = [4], ta_owner = STAKING_PARAMS_SEED @ TEST_SEED, ta_amount = 1\<rparr>],
         lg_mints = [[1] \<mapsto> \<lparr>mi_decimals = 9, mi_authority = None\<rparr>, [4] \<mapsto> \<lparr>mi_decimals = 0, mi_authority = Some ex_edition\<rparr>]\<rparr>\<rparr>"

definition ex_withdrawal :: "pubkey \<Rightarrow> withdrawal_accounts" where
  "ex_withdrawal k = \<lparr>wa_signer = k, wa_withdrawer = k, wa_token_mint = [1], wa_withdrawer_token_account = [11],
     wa_rewards_token_mint = [2], wa_receipt_token_mint = [4], wa_receipt_token_account = [12], wa_instruction = [9]\<rparr>"

lemma ex_lower_stake:
  "\<exists>c. candidates_update ex_config ([1] :: pubkey) (\<lambda>_. Ok 2) g
     \<lparr>cs_max_validators = 3, cs_candidates = [Candidate [1] 5], cs_changed = False, cs_head_stake = 5\<rparr> = Ok c"
proof -
  let ?c = "\<lparr>cs_max_validators = 3, cs_candidates = [Candidate [1] 5], cs_changed = False, cs_head_stake = 5\<rparr> :: pubkey candidates"
  have i: "cand_inv ?c" by (simp add: cand_inv_def candidate_order_defs head_sum_def)
  have "update_post ex_config [1] 2 g ?c (candidates_update ex_config [1] (\<lambda>_. Ok 2) g ?c)"
    by (rule candidates_update_spec[OF i]) simp_all
  then show ?thesis by (auto simp: update_post_def head_sum_def cand_ref_def ex_config_def Let_def split: outcome.splits)
qed

lemma ex_set_stake:
  "\<exists>g. ix_set_stake X ex_restaking_tx [3] [1] 2 (ex_guest t) = Ok g \<and> pr_tokens g = t"
proof -
  obtain c where c: "candidates_update ex_config ([1] :: pubkey) (\<lambda>_. Ok 2) (from_update_candidate_error :: _ \<Rightarrow> context_error ibc_error)
      \<lparr>cs_max_validators = 3, cs_candidates = [Candidate [1] 5], cs_changed = False, cs_head_stake = 5\<rparr> = Ok c"
    using ex_lower_stake by blast
  show ?thesis
    by (simp add: ix_set_stake_def on_storage_def on_chain_def committed_def check_staking_caller_def check_staking_program_def
      ex_restaking_tx_def restaking_ID_def expected_program_ids_def ex_guest_def ex_ibc_storage_def st_bind_def chain_maybe_generate_block_def
      on_inner_def inner_generate_block_def get_host_head_def chain_set_stake_def update_candidate_def ex_ibc_manager_def c)
qed

lemma ex_withdraw:
  "\<exists>w'. withdraw ex_restaking_env ex_restaking_tx (ex_withdrawal [3]) ex_requested = Ok w'"
proof -
  let ?t = "rs_tokens ex_requested"
  obtain g where g: "ix_set_stake (re_crypto ex_restaking_env) ex_restaking_tx [3] [1] 2 (ex_guest ?t) = Ok g" "pr_tokens g = ?t"
    using ex_set_stake by blast
  have "undelegate ex_restaking_env ex_restaking_tx [3] [9] ex_vault (st_chain ex_ibc_storage) ex_requested = Ok (ex_requested\<lparr>rs_guest := g\<rparr>)"
    using g(1) by (simp add: undelegate_def ex_vault_def chain_candidate_def chain_get_def ex_ibc_storage_def ex_ibc_manager_def
        checked_sub_def check_instructions_sysvar_def ex_restaking_env_def cpi_set_stake_def ex_requested_def ex_guest_def)
  with g(2) show ?thesis
    by (simp add: withdraw_def withdraw_setup_def Let_def load_guest_chain_def withdraw_checks_def timestamp_u64_def UNBONDING_PERIOD_IN_SEC_def
        restaking_eval signers_with_def params_seeds_def map_filter_simps ex_restaking_env_def ex_restaking_tx_def
        ex_withdrawal_def ex_requested_def ex_vault_def ex_guest_def ex_edition_def seed_defs)
qed

section \<open>Theorems\<close>

text \<open>
  C18: the restaking program stays solvent. Whatever instructions are executed and whatever happens in other
  programs, the recorded total equals the sum of the stakes of the vaults and does not exceed the cap, and for every
  token the account of the vaults holds at least the stakes in that token.
\<close>

theorem restaking_solvent:
  assumes "spl_programs (re_spl E)" "vaults_apart E" "params_addr E = Some k" "restaking_run E w"
  shows "(\<forall>p. rs_params w = Some p \<longrightarrow>
      sp_total_deposited_amount p = total_staked w \<and> total_staked w \<le> sp_staking_cap p) \<and>
    (\<forall>mint. staked w mint \<le> vault_balance E (rs_tokens w) mint)"
proof -
  have "restaking_calls E k" using assms(1-3) by (intro restaking_calls.intro restaking_calls_axioms.intro)
  from restaking_calls.run_inv[OF this assms(4)] show ?thesis by (auto simp: restaking_inv_def)
qed

theorem restaking_solvent_witness:
  "\<exists>w :: (unit, bool, ledger) restaking. restaking_run ex_restaking_env w \<and> staked w [1] = 7 \<and>
     7 \<le> vault_balance ex_restaking_env (rs_tokens w) [1] \<and> total_staked w = 7"
proof -
  let ?E = ex_restaking_env and ?tx = ex_restaking_tx
  obtain w1 where i: "restaking_process ?E ?tx (Initialize \<lparr>in_admin = [3], in_rewards_token_mint = [2]\<rparr> [[1]] 100) ex_restaking0 = Ok w1"
    and w1: "rs_params w1 = Some \<lparr>sp_admin = [3], sp_whitelisted_tokens = [[1]], sp_guest_chain_program_id = None,
       sp_rewards_token_mint = [2], sp_staking_cap = 100, sp_total_deposited_amount = 0, sp_new_admin_proposal = None\<rparr>"
     "rs_vaults w1 = Map.empty"
     "rs_tokens w1 = ex_ledger\<lparr>lg_accounts := (lg_accounts ex_ledger)(REWARDS_SEED @ TEST_SEED \<mapsto>
        \<lparr>ta_mint = [2], ta_owner = STAKING_PARAMS_SEED @ TEST_SEED, ta_amount = 0\<rparr>)\<rparr>"
    using ex_initialize by blast
  obtain w where d: "restaking_process ?E ?tx (Deposit ex_deposit (GuestChain [1]) 7) w1 = Ok w" "staked w [1] = 7"
      "\<exists>p. rs_params w = Some p \<and> sp_total_deposited_amount p = 7"
    using ex_deposited[OF w1] by blast
  have P: "params_addr ?E = Some (STAKING_PARAMS_SEED @ TEST_SEED)" by (rule ex_calls.params)
  have sg: "\<forall>k. params_addr ?E = Some k \<longrightarrow> k \<notin> set (tx_signers ?tx)" by (simp add: P ex_restaking_tx_def seed_defs)
  have "restaking_run ?E ex_restaking0" by (rule restaking_run.start) (simp_all add: ex_restaking0_def)
  then have run: "restaking_run ?E w" using restaking_run.step[OF restaking_run.step[OF _ i sg] d(1) sg] by blast
  have "spl_programs (re_spl ?E)" by (rule ex_calls.spl_programs_axioms)
  from restaking_solvent[OF this ex_vaults_apart P run] run d(2,3) show ?thesis by (intro exI[of _ w]) (metis order_refl)
qed

text \<open>
  C19: a withdrawal. When it succeeds there was a request whose unbonding period of seven days is over, its
  owner has signed the transaction, the stake of the validator on the guest chain is lowered by the amount of the
  vault with the call the IBC program offers, the whole amount goes to the token account that the
  request names, the vault is gone and the recorded total is lower by the amount.
\<close>

theorem withdraw_after_unbonding:
  assumes "spl_programs (re_spl E)" "withdraw E tx a w = Ok w'"
  shows "\<exists>p vp v req slot ts service val g st.
    rs_params w = Some p \<and> rs_vaults w vp = Some v \<and> va_withdrawal_request v = Some req \<and>
    tx_clock tx = Some (slot, ts) \<and> wr_timestamp_in_sec req + 604800 \<le> nat (ts mod 2 ^ 64) \<and>
    wr_owner req \<in> set (tx_signers tx) \<and>
    va_service v = Some service \<and> pr_storage (rs_guest w) = Some st \<and>
    (chain_candidate (service_validator service) (st_chain st) :: (context_error ibc_error, _) outcome) = Ok (Some val) \<and>
    va_stake_amount v \<le> cd_stake val \<and>
    ix_set_stake (re_crypto E) tx (wr_owner req) (service_validator service) (cd_stake val - va_stake_amount v) (rs_guest w) = Ok g \<and>
    pr_storage (rs_guest w') = pr_storage g \<and>
    rs_vaults w' = (rs_vaults w)(vp := None) \<and>
    rs_params w' = Some (p\<lparr>sp_total_deposited_amount := sp_total_deposited_amount p - va_stake_amount v\<rparr>) \<and>
    (vault_addr E (va_stake_mint v) \<noteq> Some (wr_token_account req) \<longrightarrow>
     re_pda E [ESCROW_RECEIPT_SEED, wa_receipt_token_mint a] restaking_ID \<noteq> Some (wr_token_account req) \<longrightarrow>
     (\<exists>y. spl_account (re_spl E) (rs_tokens w) (wr_token_account req) = Some y \<and>
        spl_account (re_spl E) (rs_tokens w') (wr_token_account req) = Some (y\<lparr>ta_amount := ta_amount y + va_stake_amount v\<rparr>)))"
proof -
  obtain k p vp v vt es x t1 w1 st md ed where f: "params_addr E = Some k" "rs_params w = Some p"
    "re_pda E [VAULT_PARAMS_SEED, wa_receipt_token_mint a] restaking_ID = Some vp" "rs_vaults w vp = Some v"
    "vault_addr E (wa_token_mint a) = Some vt" "spl_account (re_spl E) (rs_tokens w) vt = Some x" "held_by (wa_token_mint a) k x"
    "re_pda E [ESCROW_RECEIPT_SEED, wa_receipt_token_mint a] restaking_ID = Some es"
    and c: "withdraw_checks tx a p v = Ok ()" "va_stake_amount v \<le> sp_total_deposited_amount p"
    "pr_storage (rs_guest w) = Some st"
    and u: "undelegate E tx (wa_withdrawer a) (wa_instruction a) v (st_chain st) w = Ok w1"
    and t1: "token_transfer E tx \<lparr>tf_from = vt, tf_to = wa_withdrawer_token_account a, tf_authority = k\<rparr> params_seeds
       (va_stake_amount v) (rs_tokens w) = Ok t1"
    and t2: "mpl_burn_nft (re_spl E) (signers_with E tx params_seeds) md k (wa_receipt_token_mint a) es ed t1 = Some (rs_tokens w')"
    and w': "rs_params w' = Some (p\<lparr>sp_total_deposited_amount := sp_total_deposited_amount p - va_stake_amount v\<rparr>)"
    "rs_vaults w' = (rs_vaults w)(vp := None)" "pr_storage (rs_guest w') = pr_storage (rs_guest w1)"
    by (rule withdraw_Ok[OF assms(2)])
  obtain req slot ts where r: "va_withdrawal_request v = Some req" "tx_clock tx = Some (slot, ts)"
      "wr_timestamp_in_sec req + 604800 \<le> nat (ts mod 2 ^ 64)" "wa_withdrawer a = wr_owner req"
      "wa_withdrawer_token_account a = wr_token_account req" "va_stake_mint v = wa_token_mint a"
    using c(1) by (auto simp: withdraw_checks_def bind_outcome_Ok ok_or_Ok timestamp_u64_def UNBONDING_PERIOD_IN_SEC_def split: if_splits)
  obtain service val g where s: "va_service v = Some service" "va_stake_amount v \<le> cd_stake val"
      "(chain_candidate (service_validator service) (st_chain st) :: (context_error ibc_error, _) outcome) = Ok (Some val)"
      "ix_set_stake (re_crypto E) tx (wr_owner req) (service_validator service) (cd_stake val - va_stake_amount v) (rs_guest w) = Ok g"
      "rs_guest w1 = g"
    using u r(4) by (auto simp: undelegate_def cpi_set_stake_def bind_outcome_Ok ok_or_Ok map_error_Ok checked_sub_Some)
  have "\<exists>y. spl_account (re_spl E) (rs_tokens w) (wr_token_account req) = Some y \<and>
        spl_account (re_spl E) (rs_tokens w') (wr_token_account req) = Some (y\<lparr>ta_amount := ta_amount y + va_stake_amount v\<rparr>)"
    if "vt \<noteq> wr_token_account req" "es \<noteq> wr_token_account req"
    using that t1 r(5) spl_programs.burn_nft[OF assms(1) t2]
    by (auto simp: token_transfer_def ok_or_Ok dest!: spl_programs.transfer[OF assms(1)])
  with f r s c(3) w' undelegate_Ok(4)[OF u] show ?thesis
    by (intro exI[of _ p] exI[of _ vp] exI[of _ v] exI[of _ req] exI[of _ slot] exI[of _ ts] exI[of _ service]
        exI[of _ val] exI[of _ g] exI[of _ st]) auto
qed

theorem withdraw_after_unbonding_witness:
  "\<exists>w'. withdraw ex_restaking_env ex_restaking_tx (ex_withdrawal [3]) ex_requested = Ok w' \<and>
     rs_vaults w' = Map.empty \<and> (\<exists>y. lg_accounts (rs_tokens w') [11] = Some y \<and> ta_amount y = 13)"
proof -
  obtain w' where w': "withdraw ex_restaking_env ex_restaking_tx (ex_withdrawal [3]) ex_requested = Ok w'" using ex_withdraw by blast
  have S: "re_spl ex_restaking_env = ledger_spl" "spl_programs (re_spl ex_restaking_env)"
    by (simp add: ex_restaking_env_def) (rule ex_calls.spl_programs_axioms)
  have t: "lg_accounts (rs_tokens ex_requested) [11] = Some \<lparr>ta_mint = [1], ta_owner = [3], ta_amount = 10\<rparr>"
    "vault_addr ex_restaking_env [1] \<noteq> Some [11]" "re_pda ex_restaking_env [ESCROW_RECEIPT_SEED, [4]] restaking_ID \<noteq> Some [11]"
    by (simp_all add: ex_requested_def ex_guest_def vault_addr_def ex_restaking_env_def seed_defs)
  have a: "wa_receipt_token_mint (ex_withdrawal [3]) = [4]" by (simp add: ex_withdrawal_def)
  obtain vp v req where r: "rs_vaults ex_requested vp = Some v" "va_withdrawal_request v = Some req"
      "rs_vaults w' = (rs_vaults ex_requested)(vp := None)"
    and y: "vault_addr ex_restaking_env (va_stake_mint v) \<noteq> Some (wr_token_account req) \<longrightarrow>
      re_pda ex_restaking_env [ESCROW_RECEIPT_SEED, [4]] restaking_ID \<noteq> Some (wr_token_account req) \<longrightarrow>
      (\<exists>y. lg_accounts (rs_tokens ex_requested) (wr_token_account req) = Some y \<and>
         lg_accounts (rs_tokens w') (wr_token_account req) = Some (y\<lparr>ta_amount := ta_amount y + va_stake_amount v\<rparr>))"
    using withdraw_after_unbonding[OF S(2) w'] unfolding a by (auto simp: S(1) ledger_spl_def)
  have "v = ex_vault" "rs_vaults w' = Map.empty" using r by (auto simp: ex_requested_def split: if_splits)
  then show ?thesis using w' t y r(2) by (auto simp: ex_vault_def)
qed



end
