(* ===== verification/Spec2Isabelle.thy ===== *)
theory Spec2Isabelle
  imports Trie_Steps Guest_Proof Guest_Manager Sig_Program Guest_Client Ibc_Chain Ibc_Clients Ibc_Mirror Sol_Steps Restaking_Steps
begin

text \<open>
  A verification of the emulated light client of Composable Foundation: a blockchain, the guest chain, whose
  state lives in accounts of a Solana program, and which other chains follow with a light client so that
  IBC works over Solana.

  \<^bold>\<open>The program and its model.\<close> All sources are under \<^verbatim>\<open>src/\<close>.

  \<^item> \<^verbatim>\<open>common/sealable-trie\<close>, a Merkle-Patricia trie whose nodes have 72 bytes and whose parts can be sealed:
    \<open>Bits\<close>, \<open>Concat\<close>, \<open>Ext_Key\<close>, \<open>U3\<close> (bit slices, the keys of extension nodes, \<^verbatim>\<open>bits.rs\<close>, \<^verbatim>\<open>bits/*.rs\<close>,
    \<^verbatim>\<open>common/lib/src/u3.rs\<close>), \<open>Nodes\<close> (\<^verbatim>\<open>nodes.rs\<close>), \<open>Proofs\<close> and \<open>Proof_Codec\<close> (\<^verbatim>\<open>proof.rs\<close>,
    \<^verbatim>\<open>proof/serialisation.rs\<close>), \<open>Trie_Get\<close>, \<open>Trie_Set\<close>, \<open>Trie_Seal\<close>, \<open>Trie_Del\<close> (\<^verbatim>\<open>trie.rs\<close>, \<^verbatim>\<open>trie/*.rs\<close>).
  \<^item> \<^verbatim>\<open>common/memory\<close>: \<open>Memory\<close>, the allocator interface, as the locale \<open>allocator\<close>, and the write log that makes an
    operation a transaction. \<open>Trie_Room\<close> bounds what an insertion allocates.
  \<^item> \<^verbatim>\<open>solana/trie\<close>: \<open>Solana_Data\<close> (data of an account that can grow), \<open>Solana_Alloc\<close> (allocator, header, opening and
    closing an account, witness data). \<open>Trie_Steps\<close> puts them together: sequences of operations on a trie account.
  \<^item> \<^verbatim>\<open>common/trie-ids\<close>: \<open>Trie_Ids\<close>, counters, port keys and the trie keys of IBC paths.
  \<^item> \<^verbatim>\<open>common/guestchain\<close>: \<open>Candidates\<close>, \<open>Guest_Block\<close>, \<open>Guest_Manager\<close> (validators, epochs, blocks, the chain
    manager), with \<open>Borsh\<close> for the serialisation they use.
  \<^item> \<^verbatim>\<open>common/cf-guest\<close>: \<open>Guest_Proof\<close> (proofs of paths), \<open>Client_Context\<close> (what a client asks of its host, trait
    \<open>CommonContext\<close>), \<open>Guest_Client\<close> (the light client), \<open>Guest_Steps\<close> (sequences of updates).
  \<^item> \<^verbatim>\<open>common/cf-solana\<close>: \<open>Sol_Proof\<close> (Merkle proofs of Solana accounts, hashes of accounts and banks, \<^verbatim>\<open>proof.rs\<close>),
    \<open>Sol_Client\<close> (the light client of a Solana rollup), \<open>Sol_Steps\<close> (sequences of its updates, also on the IBC storage).
  \<^item> \<^verbatim>\<open>solana/signature-verifier\<close>: \<open>Ed25519\<close>, \<open>Sig_Account\<close>, \<open>Sig_Program\<close>.
  \<^item> \<^verbatim>\<open>solana/solana-ibc\<close>: \<open>Ibc_Chain\<close> (\<^verbatim>\<open>chain.rs\<close>), \<open>Ibc_Storage\<close> (\<^verbatim>\<open>storage.rs\<close>, \<^verbatim>\<open>execution_context.rs\<close>,
    \<^verbatim>\<open>validation_context.rs\<close>), \<open>Any_State\<close> and \<open>Ibc_Clients\<close> (\<^verbatim>\<open>client_state.rs\<close>, \<^verbatim>\<open>consensus_state.rs\<close>), \<open>Ibc_Mirror\<close>
    (the agreement of the two halves of the storage), \<open>Ibc_Program\<close> (the instructions of \<^verbatim>\<open>lib.rs\<close> for the guest chain, for
    stakes and for the fee collector).
  \<^item> \<^verbatim>\<open>solana/restaking\<close>: \<open>Restaking\<close> (all instructions, \<^verbatim>\<open>lib.rs\<close>, \<^verbatim>\<open>token.rs\<close>, \<^verbatim>\<open>validation.rs\<close>, \<^verbatim>\<open>constants.rs\<close>), which
    calls \<open>set_stake\<close> of \<open>Ibc_Program\<close>; \<open>Restaking_Steps\<close> (sequences of instructions).

  Structures are records, enumerations datatypes, vectors and byte slices lists. A fallible function returns
  \<open>outcome\<close> of \<open>Prelude\<close>: \<open>Ok\<close>, \<open>Err\<close> or \<open>Panic\<close>, so that panics of indexing, of arithmetic and of assertions
  are values. A method that changes its object is a function of type \<open>stateful\<close> that returns the new state with the
  outcome, also when it fails; an instruction of a program, whose effects the runtime rolls back, returns a state only on success. Pointers are 30-bit words, counters and heights of IBC are words; lengths and
  stakes are natural numbers with the bound of their type written where the code can overflow.

  \<^bold>\<open>Parameters.\<close> Code that is not in the repository is an argument: the hash function, of which
  \<open>digest_ok\<close> asks that digests have 32 bytes and are not all zero; borsh (locale \<open>borsh\<close>), base64 (locale
  \<open>base64_engine\<close>), protobuf (records of encoders and decoders); signature verification; rent and transfers of lamports,
  the clock and the invocation of other programs; the token and metadata programs (locale \<open>spl_programs\<close>); the states of the other light
  clients. Each locale is
  interpreted on the definitions of the code's model that provide it: \<open>raw_allocator\<close> and \<open>roomy_allocator\<close> on the allocator in an
  account, \<open>client_context\<close>, \<open>guest_context\<close> and \<open>sol_context\<close> on the IBC storage, \<open>provable_trie\<close> on the trie account, the codecs on the
  documented formats, the token programs on a ledger.

  \<^bold>\<open>What is shown.\<close> For a trie account, over any history of operations and reopenings: no panic, the
  nodes reachable from the root are exactly the allocated blocks and carry the right hashes, \<open>get\<close> after \<open>set\<close>, \<open>seal\<close>,
  \<open>del\<close> is that of a map, failed operations change nothing, an insertion with room succeeds, proofs made by the trie
  verify, and a verified proof tells the truth if the digest has no collision among the strings that were hashed.
  Encodings of nodes, keys, proofs, instruction data and identifiers can be read back. For the guest
  chain: the manager's invariant, linked headers, finalisation only by a quorum and certainly once all have signed. For the light
  client: it accepts what the manager finalises and stays at the head of the chain, conflicting headers reveal
  a validator that signed twice, and on the IBC storage every consensus state comes from a header a quorum signed, with
  time stamps in the order of heights. For the client of a Solana rollup: the Merkle proof generated for an account is for the root of
  all accounts, a header made with it is accepted and gives the client what the trie account wrote, accepted headers
  with the same bank hash and path agree, and the time stamps of the consensus states do not decrease. For the storage: the trie commits to all that the program tells about clients,
  connections and channels; packet commitments can be stored, read and deleted. For the signature verifier: an
  accepted signature was checked by the Ed25519 program. For the instructions of the IBC program: only transactions of the staking programs
  change stakes, and only the fee collector changes what it administers. For the restaking program: vaults hold what is staked, under the
  cap; a withdrawal comes after the unbonding period and goes where the request says; and a request can be cancelled by anybody, a
  flaw of the program.

  \<^bold>\<open>Bounds.\<close> Keys have fewer than 2^16 bits, as in the code; the depth of a content is bounded by 2^16 for
  the recursion of \<open>del\<close>. Proofs on the wire have at most 8192 items, trie keys at most 22 bytes, a client at most 64
  consensus states. All functions are total; loops are recursions over the data or have a measure.

  \<^bold>\<open>Not modelled.\<close> The handlers of the ibc crate, the instructions that call them and the token transfers of the IBC program; lamports
  that the programs pay for accounts; the feature \<open>witness\<close> of the IBC program; the witnessed-trie and write-account programs; formatting for display, tests and mocks; programs
  outside the chain (validator, command-line tools, geyser plugin), which are input and output.
\<close>

section \<open>Trie accounts\<close>

text \<open>
  The properties of this section are about a trie held in a Solana account,
  \<^verbatim>\<open>solana_trie::TrieAccount\<close> over \<^verbatim>\<open>ResizableAccount\<close>: the trie of
  \<^verbatim>\<open>common/sealable-trie\<close> with the allocator and the account data of
  \<^verbatim>\<open>solana/trie\<close>. \<open>rent\<close> is the minimum balance of the rent sysvar, \<open>invoke\<close>
  the transfer of lamports by the system program and \<open>d\<close> the hash function.
\<close>

abbreviation acct_ops ::
  "(nat \<Rightarrow> nat option) \<Rightarrow> (nat \<Rightarrow> nat \<times> nat \<Rightarrow> (nat \<times> nat) option) \<Rightarrow> (resizable sol_state, raw_node) alloc_ops" where
  "acct_ops rent invoke \<equiv> sol_ops (resizable_data rent invoke)"

abbreviation acct_live ::
  "(nat \<Rightarrow> nat option) \<Rightarrow> (nat \<Rightarrow> nat \<times> nat \<Rightarrow> (nat \<times> nat) option) \<Rightarrow> resizable sol_state trie \<Rightarrow> ptr \<rightharpoonup> raw_node" where
  "acct_live rent invoke t \<equiv> sol_live (resizable_data rent invoke) (tr_alloc t)"

subsection \<open>An example\<close>

text \<open>A fresh account with room for four nodes, on a chain where rent is free.\<close>

definition ex_digest :: "byte list \<Rightarrow> hash" where "ex_digest = (\<lambda>_. replicate 32 1)"

definition ex_rent :: "nat \<Rightarrow> nat option" where "ex_rent = (\<lambda>_. Some 0)"

definition ex_invoke :: "nat \<Rightarrow> nat \<times> nat \<Rightarrow> (nat \<times> nat) option" where "ex_invoke = (\<lambda>_ _. None)"

definition ex_data :: resizable where
  "ex_data = \<lparr>ra_mem = replicate (360 + 10240) 0, ra_len = 360, ra_original_len = 360, ra_lamports = 0,
     ra_payer = 0, ra_borrowed = False\<rparr>"

definition ex_trie :: "resizable sol_state trie" where
  "ex_trie = \<lparr>tr_root_ptr = None, tr_root_hash = EMPTY_TRIE_ROOT,
     tr_alloc = \<lparr>sa_data = ex_data, sa_next_block = 72, sa_first_free = None\<rparr>\<rparr>"

abbreviation ex_ops where "ex_ops \<equiv> acct_ops ex_rent ex_invoke"

abbreviation ex_reach where "ex_reach \<equiv> account_reach ex_digest ex_rent ex_invoke"

lemma ex_digest_ok: "digest_ok ex_digest"
  by (simp add: digest_ok_def ex_digest_def hash_inv_def EMPTY_TRIE_ROOT_def)

lemma ex_hash_inv: "hash_inv (replicate 32 7)"
  by (simp add: hash_inv_def EMPTY_TRIE_ROOT_def)

lemma ex_bytes: "dr_bytes (resizable_data ex_rent ex_invoke) ex_data = replicate 360 0"
  by (simp add: resizable_data_def ex_data_def)

lemma ex_new: "account_new (resizable_data ex_rent ex_invoke) ex_data = Some ex_trie"
  by (simp add: account_new_def sol_new_def header_decode_def data_get_def data_len_def ex_bytes HEADER_ENCODED_SIZE_def
      RAW_NODE_SIZE_def MAGIC_UNINITIALISED_def addr_new_def trie_from_parts_def ex_trie_def)

lemma ex_reach: "ex_reach ex_trie"
  by (rule account_reach.fresh[of ex_data _ _ 360])
    (simp_all add: ex_bytes ex_new, simp add: resizable_inv_def ex_data_def MAX_PERMITTED_DATA_INCREASE_def)

lemma ex_rep:
  "trie_rep ex_digest (sol_inv (resizable_data ex_rent ex_invoke) resizable_inv)
     (sol_live (resizable_data ex_rent ex_invoke)) ex_trie None"
proof -
  obtain t where "account_new (resizable_data ex_rent ex_invoke) ex_data = Some t"
    "trie_rep ex_digest (sol_inv (resizable_data ex_rent ex_invoke) resizable_inv)
       (sol_live (resizable_data ex_rent ex_invoke)) t None"
    by (rule resizable.account_fresh[OF _ ex_bytes]) (auto simp: resizable_inv_def ex_data_def MAX_PERMITTED_DATA_INCREASE_def)
  then show ?thesis using ex_new by simp
qed

lemma ex_inv: "sol_inv (resizable_data ex_rent ex_invoke) resizable_inv (tr_alloc ex_trie)"
  using ex_rep by (simp add: trie_rep_def)

lemma ex_key: "slice_from_bytes [0xF0] = Some \<lparr>sl_offset = 0, sl_length = 8, sl_ptr = [0xF0]\<rparr>"
  by (simp add: slice_from_bytes_def)

lemma ex_chunks: "chunks_len \<lparr>sl_offset = 0, sl_length = 8, sl_ptr = [0xF0]\<rparr> = 1"
  by (simp add: chunks_len_def slice_bytes_def slice_bytes_len_def bytes_len_def MAX_EXTENSION_KEY_SIZE_def)

lemma ex_room: "3 \<le> sol_room (resizable_data ex_rent ex_invoke) (tr_alloc ex_trie)"
  by (simp add: sol_room_def data_len_def ex_trie_def ex_bytes)

text \<open>One value inserted.\<close>

lemma ex_set:
  obtains t where "trie_set ex_digest ex_ops [0xF0] (replicate 32 7) ex_trie = (t, Ok ())" "ex_reach t"
    "trie_get ex_ops t [0xF0] = Ok (Some (replicate 32 7))"
proof -
  obtain t where t: "trie_set ex_digest ex_ops [0xF0] (replicate 32 7) ex_trie = (t, Ok ())"
    by (rule resizable.set_succeeds[OF ex_digest_ok ex_hash_inv ex_rep ex_key])
      (use ex_room ex_chunks in \<open>auto simp: content_set_err_def key_bits_def\<close>)
  have "run_op ex_digest ex_ops (OpSet [0xF0] (replicate 32 7)) ex_trie = (t, Ok True)"
    using t by (simp add: op_result_def)
  then have "ex_reach t" by (rule account_reach.op[OF ex_reach, rotated]) (simp add: ex_hash_inv)
  then show thesis using t resizable.sol.get_after_set(1)[OF ex_digest_ok ex_hash_inv ex_rep t] by (intro that)
qed

subsection \<open>Properties\<close>



text \<open>
  C2: after \<open>Trie::set\<close> succeeds, \<open>Trie::get\<close> returns the inserted hash for that
  key, and for every other key what it returned before.
\<close>

theorem account_get_after_set:
  assumes "account_reach d rent invoke t" "digest_ok d" "hash_inv v"
    and "trie_set d (acct_ops rent invoke) key v t = (t', Ok ())"
  shows "trie_get (acct_ops rent invoke) t' key = Ok (Some v) \<and>
    (\<forall>k. k \<noteq> key \<longrightarrow> trie_get (acct_ops rent invoke) t' k = trie_get (acct_ops rent invoke) t k)"
proof -
  obtain c where "account_good d rent invoke t c" using account_reach_good[OF assms(1,2)] by blast
  from resizable.sol.get_after_set[OF assms(2,3) account_rep[OF this] assms(4)] show ?thesis by blast
qed

theorem account_get_after_set_witness:
  "\<exists>t. trie_set ex_digest ex_ops [0xF0] (replicate 32 7) ex_trie = (t, Ok ()) \<and>
     trie_get ex_ops t [0xF0] = Ok (Some (replicate 32 7)) \<and> trie_get ex_ops t [0xF1] = trie_get ex_ops ex_trie [0xF1]"
proof -
  obtain t where "trie_set ex_digest ex_ops [0xF0] (replicate 32 7) ex_trie = (t, Ok ())" by (rule ex_set)
  then show ?thesis using account_get_after_set[OF ex_reach ex_digest_ok ex_hash_inv] by force
qed

text \<open>
  C3: an insertion that fails, because memory runs out after some nodes were already
  allocated or because the key is refused, changes nothing a client can see: every
  lookup, the root hash and the allocated blocks stay as they were.
\<close>

theorem account_failed_set:
  assumes "account_reach d rent invoke t" "digest_ok d" "hash_inv v"
    and "trie_set d (acct_ops rent invoke) key v t = (t', Err e)"
  shows "trie_get (acct_ops rent invoke) t' k = trie_get (acct_ops rent invoke) t k \<and>
    tr_root_hash t' = tr_root_hash t \<and> acct_live rent invoke t' = acct_live rent invoke t"
proof -
  obtain c where "account_good d rent invoke t c" using account_reach_good[OF assms(1,2)] by blast
  from resizable.sol.get_after_failed_set[OF assms(2,3) account_rep[OF this] assms(4)] show ?thesis by blast
qed

lemma ex_empty_key: "\<exists>t. trie_set ex_digest ex_ops [] (replicate 32 7) ex_trie = (t, Err EmptyKey)"
proof -
  obtain t res where r: "trie_set ex_digest ex_ops [] (replicate 32 7) ex_trie = (t, res)" by fastforce
  have "slice_from_bytes [] = Some \<lparr>sl_offset = 0, sl_length = 0, sl_ptr = []\<rparr>" by (simp add: slice_from_bytes_def)
  from resizable.sol.trie_set_spec[OF ex_digest_ok ex_hash_inv ex_rep this r] have "res = Err EmptyKey"
    by (auto simp: trie_set_post_def content_set_err_def key_bits_def split: outcome.splits)
  then show ?thesis using r by blast
qed

theorem account_failed_set_witness:
  "\<exists>t. trie_set ex_digest ex_ops [] (replicate 32 7) ex_trie = (t, Err EmptyKey) \<and>
     trie_get ex_ops t [0xF0] = trie_get ex_ops ex_trie [0xF0]"
  using ex_empty_key account_failed_set[OF ex_reach ex_digest_ok ex_hash_inv, of "[]" _ EmptyKey "[0xF0]"] by blast

text \<open>
  C4: insertion makes progress. If the account data has, behind the last block in use,
  room for two nodes more than the key has chunks, and the key is not already blocked by
  a sealed node or by a key that is a prefix of the other, \<open>Trie::set\<close> succeeds.
\<close>

theorem account_set_succeeds:
  assumes "account_good d rent invoke t c" "digest_ok d" "hash_inv v"
    and "slice_from_bytes key = Some K" "content_set_err c (key_bits key) = None"
    and "chunks_len K + 2 \<le> sol_room (resizable_data rent invoke) (tr_alloc t)"
  shows "\<exists>t'. trie_set d (acct_ops rent invoke) key v t = (t', Ok ())"
  by (rule resizable.set_succeeds[OF assms(2,3) account_rep[OF assms(1)] assms(4-6)]) blast

lemma ex_good: "account_good ex_digest ex_rent ex_invoke ex_trie None"
proof -
  obtain c where c: "account_good ex_digest ex_rent ex_invoke ex_trie c"
    using account_reach_good[OF ex_reach ex_digest_ok] by blast
  have "c = None"
    using account_rep[OF c] trie_content_hash[OF ex_digest_ok] by (auto simp: trie_rep_def ex_trie_def)
  then show ?thesis using c by simp
qed

theorem account_set_succeeds_witness:
  "\<exists>t. trie_set ex_digest ex_ops [0xF0] (replicate 32 7) ex_trie = (t, Ok ())"
  by (rule account_set_succeeds[OF ex_good ex_digest_ok ex_hash_inv ex_key])
    (use ex_room ex_chunks in \<open>auto simp: content_set_err_def key_bits_def\<close>)

text \<open>
  C5: sealing a key that holds a value succeeds; afterwards the key is inaccessible,
  the root hash has not changed, other keys with a value keep it, and sealed keys stay
  sealed.
\<close>

theorem account_seal:
  assumes "account_reach d rent invoke t" "digest_ok d"
    and "trie_get (acct_ops rent invoke) t key = Ok (Some v)"
  shows "\<exists>t'. trie_seal (acct_ops rent invoke) key t = (t', Ok ()) \<and>
    trie_get (acct_ops rent invoke) t' key = Err Sealed \<and> tr_root_hash t' = tr_root_hash t \<and>
    (\<forall>k w. k \<noteq> key \<longrightarrow> trie_get (acct_ops rent invoke) t k = Ok (Some w) \<longrightarrow>
       trie_get (acct_ops rent invoke) t' k = Ok (Some w)) \<and>
    (\<forall>k. trie_get (acct_ops rent invoke) t k = Err Sealed \<longrightarrow> trie_get (acct_ops rent invoke) t' k = Err Sealed)"
proof -
  obtain c where c: "account_good d rent invoke t c" using account_reach_good[OF assms(1,2)] by blast
  obtain t' where t': "trie_seal (acct_ops rent invoke) key t = (t', Ok ())"
    by (rule resizable.sol.seal_found[OF assms(2) account_rep[OF c] assms(3)])
  from resizable.sol.get_after_seal[OF assms(2) account_rep[OF c] t'] show ?thesis using t' by blast
qed

theorem account_seal_witness:
  "\<exists>t t'. ex_reach t \<and> trie_get ex_ops t [0xF0] = Ok (Some (replicate 32 7)) \<and>
     trie_seal ex_ops [0xF0] t = (t', Ok ()) \<and> trie_get ex_ops t' [0xF0] = Err Sealed"
proof -
  obtain t where "ex_reach t" "trie_get ex_ops t [0xF0] = Ok (Some (replicate 32 7))" by (rule ex_set)
  then show ?thesis using account_seal[OF _ ex_digest_ok] by blast
qed

text \<open>
  C6: \<open>Trie::del\<close> removes exactly one key: afterwards the key is absent and every
  other lookup is what it was; it reports whether the key was there. It fails only for a
  key that is too long or lies in a sealed part of the trie, leaving everything as it
  was, and never for lack of memory, although it may allocate nodes.
\<close>

theorem account_del:
  assumes "account_reach d rent invoke t" "digest_ok d"
    and "trie_del d (acct_ops rent invoke) key t = (t', res)"
  shows "case res of
      Ok found \<Rightarrow> trie_get (acct_ops rent invoke) t' key = Ok None \<and>
        (\<forall>k. k \<noteq> key \<longrightarrow> trie_get (acct_ops rent invoke) t' k = trie_get (acct_ops rent invoke) t k) \<and>
        (found \<longleftrightarrow> trie_get (acct_ops rent invoke) t key \<noteq> Ok None)
    | Err e \<Rightarrow> (e = KeyTooLong \<or> e = Sealed) \<and> tr_root_hash t' = tr_root_hash t \<and>
        acct_live rent invoke t' = acct_live rent invoke t
    | Panic \<Rightarrow> False"
proof -
  obtain c where c: "account_good d rent invoke t c" using account_reach_good[OF assms(1,2)] by blast
  note r = account_goodD[OF c]
  show ?thesis
    using resizable.sol.get_after_del[OF assms(2) r(1,2), of key t'] resizable.sol.del_error[OF assms(2) r(1,2) assms(3)]
      assms(3) by (auto split: outcome.splits)
qed

theorem account_del_witness:
  "\<exists>t t'. ex_reach t \<and> trie_get ex_ops t [0xF0] = Ok (Some (replicate 32 7)) \<and>
     trie_del ex_digest ex_ops [0xF0] t = (t', Ok True) \<and> trie_get ex_ops t' [0xF0] = Ok None"
proof -
  obtain t where t: "ex_reach t" "trie_get ex_ops t [0xF0] = Ok (Some (replicate 32 7))" by (rule ex_set)
  obtain t' res where r: "trie_del ex_digest ex_ops [0xF0] t = (t', res)" by fastforce
  have "res \<noteq> Err e" for e
  proof
    assume e: "res = Err e"
    obtain c where c: "account_good ex_digest ex_rent ex_invoke t c"
      using account_reach_good[OF t(1) ex_digest_ok] by blast
    have "content_get c (key_bits [0xF0]) = Ok (Some (replicate 32 7))"
      using resizable.sol.trie_get_spec[OF ex_digest_ok account_rep[OF c] ex_key] t(2) by simp
    then have "content_del_err c (key_bits [0xF0]) = None" by (rule content_del_found)
    then show False
      using resizable.sol.trie_del_spec[OF ex_digest_ok account_goodD(1,2)[OF c] ex_key r] e
      by (simp add: trie_del_post_def)
  qed
  then show ?thesis using account_del[OF t(1) ex_digest_ok r] t r by (cases res) auto
qed

text \<open>
  C7: \<open>Trie::prove\<close> agrees with \<open>Trie::get\<close> and the proof it returns, of membership
  or of non-membership, verifies against the root hash of the trie, also when parts of
  the trie are sealed.
\<close>

theorem account_prove:
  assumes "account_reach d rent invoke t" "digest_ok d"
    and "trie_prove (acct_ops rent invoke) t key = Ok (v, pr)"
  shows "trie_get (acct_ops rent invoke) t key = Ok v \<and> proof_verify d pr (tr_root_hash t) key v"
proof -
  obtain c where c: "account_good d rent invoke t c" using account_reach_good[OF assms(1,2)] by blast
  show ?thesis using resizable.sol.prove_verifies[OF assms(2) account_rep[OF c] assms(3)] by blast
qed

theorem account_prove_witness:
  "\<exists>t pr. ex_reach t \<and> trie_prove ex_ops t [0xF0] = Ok (Some (replicate 32 7), pr) \<and>
     proof_verify ex_digest pr (tr_root_hash t) [0xF0] (Some (replicate 32 7))"
proof -
  obtain t where t: "ex_reach t" "trie_get ex_ops t [0xF0] = Ok (Some (replicate 32 7))" by (rule ex_set)
  obtain c where c: "account_good ex_digest ex_rent ex_invoke t c"
    using account_reach_good[OF t(1) ex_digest_ok] by blast
  obtain pr where "trie_prove ex_ops t [0xF0] = Ok (Some (replicate 32 7), pr)"
    by (rule resizable.sol.prove_found[OF ex_digest_ok account_rep[OF c] t(2)])
  then show ?thesis using account_prove[OF t(1) ex_digest_ok] t by blast
qed

text \<open>
  C27: dropping a trie account writes its header, and the witness if there is one, and
  opening the account again, in a later transaction that finds the same bytes, gives a
  trie with the same root hash and the same result for every lookup.
\<close>

theorem account_reopen_roundtrip:
  assumes "account_reach d rent invoke t" "digest_ok d"
  shows "\<exists>data. account_drop (resizable_data rent invoke) clock t w =
      Some (data, map_option (\<lambda>_. witness_new (tr_root_hash t) clock) w) \<and>
    (\<forall>data'. resizable_inv data' \<and> dr_bytes (resizable_data rent invoke) data' = dr_bytes (resizable_data rent invoke) data \<longrightarrow>
       (\<exists>t'. account_new (resizable_data rent invoke) data' = Some t' \<and> tr_root_hash t' = tr_root_hash t \<and>
          (\<forall>k. trie_get (acct_ops rent invoke) t' k = trie_get (acct_ops rent invoke) t k)))"
proof -
  obtain c where c: "account_good d rent invoke t c" using account_reach_good[OF assms] by blast
  note r = account_rep[OF c]
  obtain data where dr: "account_drop (resizable_data rent invoke) clock t w =
      Some (data, map_option (\<lambda>_. witness_new (tr_root_hash t) clock) w)"
    and nw: "\<And>data'. resizable_inv data' \<Longrightarrow>
       dr_bytes (resizable_data rent invoke) data' = dr_bytes (resizable_data rent invoke) data \<Longrightarrow>
       \<exists>t'. account_new (resizable_data rent invoke) data' = Some t' \<and>
         trie_rep d (sol_inv (resizable_data rent invoke) resizable_inv) (sol_live (resizable_data rent invoke)) t' c \<and>
         sol_live (resizable_data rent invoke) (tr_alloc t') = sol_live (resizable_data rent invoke) (tr_alloc t) \<and>
         tr_root_ptr t' = tr_root_ptr t \<and> tr_root_hash t' = tr_root_hash t"
    by (rule resizable.account_reopen[OF assms(2) r, of clock w]) blast
  show ?thesis using dr nw resizable.sol.trie_get_eqI[OF assms(2) r] by (intro exI[of _ data]) blast
qed

theorem account_reopen_roundtrip_witness:
  "\<exists>t data. ex_reach t \<and> trie_get ex_ops t [0xF0] = Ok (Some (replicate 32 7)) \<and>
     account_drop (resizable_data ex_rent ex_invoke) (0, 0) t None = Some (data, None)"
proof -
  obtain t where t: "ex_reach t" "trie_get ex_ops t [0xF0] = Ok (Some (replicate 32 7))" by (rule ex_set)
  then show ?thesis using account_reopen_roundtrip[OF t(1) ex_digest_ok, of "(0, 0)" None] by auto
qed

text \<open>
  when \<open>Trie::set_and_seal\<close> succeeds the key is sealed, and keys with a value
  other than it keep their value; when it fails nothing has changed.
\<close>

lemma account_set_and_seal:
  assumes "account_reach d rent invoke t" "digest_ok d" "hash_inv v"
    and "trie_set_and_seal d (acct_ops rent invoke) key v t = (t', res)"
  shows "case res of
      Ok _ \<Rightarrow> trie_get (acct_ops rent invoke) t' key = Err Sealed \<and>
        (\<forall>k w. k \<noteq> key \<longrightarrow> trie_get (acct_ops rent invoke) t k = Ok (Some w) \<longrightarrow>
           trie_get (acct_ops rent invoke) t' k = Ok (Some w))
    | Err e \<Rightarrow> tr_root_hash t' = tr_root_hash t \<and> acct_live rent invoke t' = acct_live rent invoke t
    | Panic \<Rightarrow> False"
proof -
  obtain c where c: "account_good d rent invoke t c" using account_reach_good[OF assms(1,2)] by blast
  show ?thesis by (rule resizable.sol.set_and_seal_get[OF assms(2,3) account_rep[OF c] assms(4)])
qed

section \<open>The write log and the allocator\<close>



text \<open>
  allocation in the account. It never panics; when it succeeds the block was not in
  use, it is marked as used and holds the node, and all other blocks are untouched; when
  the data cannot grow, \<open>OutOfMemory\<close> is returned and no block has changed.
\<close>

lemma account_alloc:
  assumes "sol_inv (resizable_data rent invoke) resizable_inv s" "raw_ok v"
    and "sol_alloc (resizable_data rent invoke) v s = (s', res)"
  shows "sol_inv (resizable_data rent invoke) resizable_inv s' \<and>
    (case res of
       Ok p \<Rightarrow> sol_live (resizable_data rent invoke) s p = None \<and>
         sol_live (resizable_data rent invoke) s' = (sol_live (resizable_data rent invoke) s)(p \<mapsto> v)
     | Err _ \<Rightarrow> sol_live (resizable_data rent invoke) s' = sol_live (resizable_data rent invoke) s
     | Panic \<Rightarrow> False)"
  using resizable.sol_alloc_spec[OF assms] by (auto split: outcome.splits)

lemma ex_raw_ok: "raw_ok (replicate 72 1)"
  by (simp add: raw_ok_marker zero_marker_def)

lemma ex_alloc:
  obtains s p where "sol_alloc (resizable_data ex_rent ex_invoke) (replicate 72 1) (tr_alloc ex_trie) = (s, Ok p)"
    "sol_inv (resizable_data ex_rent ex_invoke) resizable_inv s" "p \<in> dom (sol_live (resizable_data ex_rent ex_invoke) s)"
proof -
  obtain s res where r: "sol_alloc (resizable_data ex_rent ex_invoke) (replicate 72 1) (tr_alloc ex_trie) = (s, res)"
    by fastforce
  have "res \<noteq> Err ()"
    using resizable.room.room_alloc[of "tr_alloc ex_trie" ex_rent ex_invoke "replicate 72 1" s "()"] ex_room r ex_inv
    by (auto simp: sol_ops_def sol_inv_def)
  then obtain p where p: "res = Ok p" "sol_inv (resizable_data ex_rent ex_invoke) resizable_inv s"
    "sol_live (resizable_data ex_rent ex_invoke) s = (acct_live ex_rent ex_invoke ex_trie)(p \<mapsto> replicate 72 1)"
    using resizable.sol_alloc_spec[OF ex_inv ex_raw_ok r] by auto
  show thesis by (rule that[of s p]) (use p r in auto)
qed

text \<open>
  Freeing a block in use makes it free and leaves the other blocks as they are, and
  freeing the same block again is detected: it panics.
\<close>

lemma account_double_free:
  assumes "sol_inv (resizable_data rent invoke) resizable_inv s"
    and "p \<in> dom (sol_live (resizable_data rent invoke) s)"
  shows "\<exists>s'. sol_free (resizable_data rent invoke) s p = Some s' \<and>
    sol_inv (resizable_data rent invoke) resizable_inv s' \<and>
    sol_live (resizable_data rent invoke) s' = (sol_live (resizable_data rent invoke) s)(p := None) \<and>
    sol_free (resizable_data rent invoke) s' p = None"
  by (rule resizable.double_free[OF assms]) blast

section \<open>Proofs of paths\<close>

text \<open>
  The light client of a counterparty asks for a proof of what an IBC path holds. The
  property follows a value through path, trie key, trie, proof, bytes and verifier.
\<close>

lemma account_reads:
  assumes "account_good d rent invoke t c"
  shows "reads (al_get (acct_ops rent invoke) (tr_alloc t)) (acct_live rent invoke t)"
    "trie_content d (acct_live rent invoke t) (tr_root_ptr t) (tr_root_hash t) c"
  using account_rep[OF assms] resizable.sol.reads_live by (auto simp: trie_rep_def)

text \<open>
  C8: for a path of which the trie account has an accessible value, or none, a proof is made
  both for a block header with the root of the trie and for the trie alone, and the verifier
  accepts it for the value whose hash is stored there, respectively for its absence, against
  the block hash or the trie root.
\<close>

theorem account_path_provable:
  assumes "proof_wire_format codec b64 X W" and "account_reach (cr_digest X) rent invoke t"
    and "path_info_try_from b64 path = Ok info"
    and "trie_get (acct_ops rent invoke) t (key_deref (pi_key info)) = Ok v"
    and "case v of None \<Rightarrow> val = None | Some h \<Rightarrow> \<exists>bytes. val = Some bytes \<and> stores X W path info bytes h"
    and "header_wire header" and "bh_state_root header = tr_root_hash t"
  shows "\<exists>p q. generate_for_block b64 codec X (acct_ops rent invoke) header t path = Ok p \<and>
    verify_for_block b64 codec X W [] (ip_proof p) (calc_hash X header) path val = Ok () \<and>
    generate_for_trie b64 codec X (acct_ops rent invoke) t path = Ok q \<and>
    verify_for_trie b64 codec X W [] (ip_proof q) (tr_root_hash t) path val = Ok ()"
proof -
  note fmt = assms(1)
  have d: "digest_ok (cr_digest X)" by (rule proof_wire_format.digest[OF fmt])
  obtain c where c: "account_good (cr_digest X) rent invoke t c" using account_reach_good[OF assms(2) d] by blast
  note gen = proof_wire_format.generate_spec[OF fmt account_reads[OF c] assms(3)]
    and ver = proof_wire_format.generated_verifies[OF fmt account_reads[OF c] assms(3)]
  obtain p where p: "generate_impl b64 codec X (acct_ops rent invoke) (Some header) t path = Ok p"
      "ip_root p = calc_hash X header" "ip_value p = v"
    using gen[of "Some header" "calc_hash X header"] assms(4,6,7) by (auto simp: get_root_def)
  obtain q where q: "generate_impl b64 codec X (acct_ops rent invoke) None t path = Ok q"
      "ip_root q = tr_root_hash t" "ip_value q = v"
    using gen[of None "tr_root_hash t"] assms(4) by (auto simp: get_root_def)
  show ?thesis
    using ver[OF _ p(1)] ver[OF _ q(1)] p q assms(5,6)
    by (auto simp: generate_for_block_def generate_for_trie_def verify_for_block_def verify_for_trie_def)
qed

text \<open>A connection end stored in the example account, and a block header for it.\<close>

abbreviation ex_path :: "unit ibc_path" where "ex_path \<equiv> Connection ''connection-4''"

definition ex_header :: "hash \<Rightarrow> block_header" where
  "ex_header root = header_generate_genesis 0 0 1 root (replicate 32 0)"

lemma ex_path_info: "\<exists>info. path_info_try_from b64_rfc ex_path = Ok info \<and> key_deref (pi_key info) = [2, 0, 0, 0, 4] \<and>
    pi_client_id info = None \<and> pi_seq_kind info = None"
proof -
  obtain info where "path_info_try_from b64_rfc ex_path = Ok info" "key_deref (pi_key info) = loc_bytes (LocConnection 4)"
    using rfc.path_info_spec[of ex_path] ex_locations(1) by (auto simp: encodes_def)
  moreover have "loc_bytes (LocConnection 4) = [2, 0, 0, 0, 4]"
    using to_be_from_be[of "[0, 0, 0, 4]" 4] by (simp add: be32_def from_be_def)
  moreover have "pi_client_id info = None \<and> pi_seq_kind info = None"
    using calculation(1) by (auto simp: bind_outcome_Ok split: outcome.splits)
  ultimately show ?thesis by auto
qed

theorem account_path_provable_witness:
  "\<exists>t p. ex_reach t \<and>
     generate_for_block b64_rfc borsh_format ex_hashes ex_ops (ex_header (tr_root_hash t)) t ex_path = Ok p \<and>
     verify_for_block b64_rfc borsh_format ex_hashes ex_wire [] (ip_proof p)
       (calc_hash ex_hashes (ex_header (tr_root_hash t))) ex_path (Some [5]) = Ok ()"
proof -
  let ?key = "[2, 0, 0, 0, 4 :: byte]" and ?v = "replicate 32 (1 :: byte)"
  let ?K = "\<lparr>sl_offset = 0, sl_length = 40, sl_ptr = ?key\<rparr>"
  have dig: "cr_digest ex_hashes = ex_digest" by (simp add: ex_hashes_def ex_digest_def)
  obtain info where info: "path_info_try_from b64_rfc ex_path = Ok info" "key_deref (pi_key info) = ?key"
      "pi_client_id info = None" "pi_seq_kind info = None" using ex_path_info by blast
  have v: "hash_inv ?v" by (simp add: hash_inv_def EMPTY_TRIE_ROOT_def)
  have K: "slice_from_bytes ?key = Some ?K" by (simp add: slice_from_bytes_def)
  obtain t where t: "trie_set ex_digest ex_ops ?key ?v ex_trie = (t, Ok ())"
    by (rule resizable.set_succeeds[OF ex_digest_ok v ex_rep K])
      (use ex_room in \<open>auto simp: content_set_err_def key_bits_def chunks_len_def slice_bytes_def slice_bytes_len_def
         bytes_len_def MAX_EXTENSION_KEY_SIZE_def\<close>)
  have "run_op ex_digest ex_ops (OpSet ?key ?v) ex_trie = (t, Ok True)" using t by (simp add: op_result_def)
  then have r: "ex_reach t" by (rule account_reach.op[OF ex_reach, rotated]) (simp add: v)
  have g: "trie_get ex_ops t ?key = Ok (Some ?v)" by (rule resizable.sol.get_after_set(1)[OF ex_digest_ok v ex_rep t])
  obtain c where c: "account_good ex_digest ex_rent ex_invoke t c" using account_reach_good[OF r ex_digest_ok] by blast
  have "header_wire (ex_header (tr_root_hash t))" "bh_state_root (ex_header (tr_root_hash t)) = tr_root_hash t"
    using content_root_length[OF ex_digest_ok account_reads(2)[OF c]]
    by (simp_all add: header_wire_def ex_header_def header_generate_genesis_def HASH_DEFAULT_def)
  moreover have "stores ex_hashes ex_wire ex_path info [5] ?v" using info by (simp add: stores_def ex_hashes_def)
  ultimately have "\<exists>p q. generate_for_block b64_rfc borsh_format ex_hashes ex_ops (ex_header (tr_root_hash t)) t ex_path = Ok p \<and>
      verify_for_block b64_rfc borsh_format ex_hashes ex_wire [] (ip_proof p)
        (calc_hash ex_hashes (ex_header (tr_root_hash t))) ex_path (Some [5]) = Ok () \<and>
      generate_for_trie b64_rfc borsh_format ex_hashes ex_ops t ex_path = Ok q \<and>
      verify_for_trie b64_rfc borsh_format ex_hashes ex_wire [] (ip_proof q) (tr_root_hash t) ex_path (Some [5]) = Ok ()"
    by (intro account_path_provable[OF ex.proof_wire_format_axioms _ info(1), where v = "Some ?v"])
      (use r g info(2) in \<open>simp_all add: dig\<close>)
  with r show ?thesis by blast
qed

section \<open>The storage of the IBC program\<close>

text \<open>An example over the account above: channel ends are encoded as one byte.\<close>

definition ex_ibc :: "(resizable sol_state, unit, unit, unit, unit) ibc_env" where
  "ex_ibc =
     \<lparr>ie_digest = ex_digest, ie_ops = ex_ops, ie_b64 = b64_rfc, ie_client_enc = (\<lambda>_. None), ie_client_dec = (\<lambda>_. None),
      ie_client_any = (\<lambda>_. []), ie_consensus_enc = (\<lambda>_. None), ie_consensus_dec = (\<lambda>_. None), ie_consensus_any = (\<lambda>_. []),
      ie_conn_enc = (\<lambda>_. None), ie_conn_dec = (\<lambda>_. None), ie_conn_proto = (\<lambda>_. []),
      ie_chan_enc = (\<lambda>_. Some [1]), ie_chan_dec = (\<lambda>_. Some ()), ie_chan_proto = (\<lambda>_. [])\<rparr>"

definition ex_empty :: "(resizable sol_state, nat, bool) ibc_storage" where
  "ex_empty = \<lparr>st_private = empty_private, st_provable = ex_trie, st_chain = \<lparr>cd_inner = None, cd_events = []\<rparr>\<rparr>"

lemma ex_env_for: "env_for ex_digest ex_ops ex_ibc"
  using rfc.base64_engine_axioms by (simp add: env_for_def ex_ibc_def env_ok_def)

lemma ex_set_loc:
  assumes "loc_inv l" "hash_inv v"
  obtains t where "trie_set ex_digest ex_ops (loc_bytes l) v ex_trie = (t, Ok ())" "ex_reach t"
    "trie_get ex_ops t (loc_bytes l) = Ok (Some v)"
proof -
  let ?n = "length (loc_bytes l)"
  have n: "0 < ?n" "?n \<le> 22" using loc_bytes_bounds[OF assms(1)] by auto
  let ?K = "\<lparr>sl_offset = 0, sl_length = 8 * ?n, sl_ptr = loc_bytes l\<rparr>"
  have K: "slice_from_bytes (loc_bytes l) = Some ?K" using n by (auto simp: slice_from_bytes_def)
  have "chunks_len ?K = (slice_bytes_len ?K + 33) div 34" by (rule chunks_len_eq[OF slice_from_bytes_key(1)[OF K]])
  then have "chunks_len ?K \<le> 1" using n by (simp add: slice_bytes_len_def bytes_len_def)
  then obtain t where t: "trie_set ex_digest ex_ops (loc_bytes l) v ex_trie = (t, Ok ())"
    using resizable.set_succeeds[OF ex_digest_ok assms(2) ex_rep K] ex_room n by (auto simp: content_set_err_def key_bits_def)
  have "run_op ex_digest ex_ops (OpSet (loc_bytes l) v) ex_trie = (t, Ok True)" using t by (simp add: op_result_def)
  then have "ex_reach t" by (rule account_reach.op[OF ex_reach, rotated]) (simp add: assms(2))
  then show thesis using t resizable.sol.get_after_set(1)[OF ex_digest_ok assms(2) ex_rep t] by (intro that)
qed


lemma ex_port_channel:
  obtains pc where "port_channel_try_from b64_rfc ''transfer'' ''channel-5'' = Ok pc"
    "path_location b64_rfc (Commitment ''transfer'' ''channel-5'' 1 :: unit ibc_path) =
       Some (LocCommitment (pc_port_key pc) (channel_counter (pc_channel_idx pc)) 1)"
proof -
  have "channel_idx_try_from ''channel-5'' = Ok (ChannelIdx 5)" by (simp add: channel_idx_try_from_def ex_ids)
  moreover obtain k where "port_key_try_from b64_rfc (as_bytes ''transfer'') = Ok k" by (rule rfc.port_key_alnum[OF ex_alnum]) auto
  ultimately show thesis by (intro that[of "\<lparr>pc_port_key = k, pc_channel_idx = ChannelIdx 5\<rparr>"]) (simp_all add: port_channel_try_from_def loc_channel_def)
qed

text \<open>A channel end is stored.\<close>

lemma ex_channel_run:
  obtains st where "storage_run ex_ibc ex_empty st" "channel_end ex_ibc st ''transfer'' ''channel-5'' = Ok ()"
proof -
  obtain pc where pc: "port_channel_try_from b64_rfc ''transfer'' ''channel-5'' = Ok pc" by (rule ex_port_channel)
  let ?L = "LocChannelEnd (pc_port_key pc) (channel_counter (pc_channel_idx pc))"
  note P = port_key_loc[OF rfc.base64_engine_axioms pc]
  obtain key where key: "for_channel_end pc = (Ok key :: (context_error, trie_key) outcome)" "key_deref key = loc_bytes ?L"
    using port_key_loc(2)[where ?'e = context_error, OF rfc.base64_engine_axioms pc] by blast
  have h: "hash_inv (ex_digest [])" using ex_digest_ok by (simp add: digest_ok_def)
  obtain t where t: "trie_set ex_digest ex_ops (loc_bytes ?L) (ex_digest []) ex_trie = (t, Ok ())"
    by (rule ex_set_loc[OF port_loc_inv(1)[OF P(1)] h])
  let ?ps = "update_entry pc (\<lambda>store. store\<lparr>po_channel_end := [1]\<rparr>) empty_private"
  let ?st = "ex_empty\<lparr>st_private := ?ps, st_provable := t\<rparr>"
  have b: "ie_b64 ex_ibc = b64_rfc" "ie_digest ex_ibc = ex_digest" "ie_ops ex_ibc = ex_ops" by (simp_all add: ex_ibc_def)
  have "provable_set ex_ibc ctx_err key (ex_digest []) (ex_empty\<lparr>st_private := ?ps\<rparr>) = (?st, Ok ())"
    using t by (simp add: provable_set_def b key(2) ex_empty_def)
  then have "store_channel ex_ibc ''transfer'' ''channel-5'' () ex_empty = (?st, Ok ())"
    using pc key(1) by (simp add: store_channel_def b st_bind_def on_private_def serialised_new_def ok_or_def)
      (simp add: ex_ibc_def ex_empty_def)
  then have "run_ibc_op ex_ibc (StoreChannel ''transfer'' ''channel-5'' ()) ex_empty = (?st, Ok ())" by simp
  then have "storage_run ex_ibc ex_empty ?st" by (rule storage_run.op[OF storage_run.start _, rotated]) simp
  moreover have "channel_end ex_ibc ?st ''transfer'' ''channel-5'' = Ok ()"
    using pc by (simp add: channel_end_def b update_entry_map) (simp add: ex_ibc_def serialised_get_def ok_or_def)
  ultimately show thesis by (rule that)
qed


text \<open>
  C10: packet commitments. A commitment that was stored is returned, the commitments of other packets and all
  acknowledgements are what they were, and once it is deleted there is none.
\<close>

theorem packet_commitment_roundtrip:
  assumes "env_for d (acct_ops rent invoke) E" "digest_ok d" "hash_inv v"
    and "account_reach d rent invoke (st_provable st)"
    and "store_packet_commitment E p c seq v st = (st1, Ok ())" "delete_packet_commitment E p c seq st1 = (st2, Ok ())"
  shows "get_packet_commitment E st1 p c seq = Ok v \<and>
    get_packet_commitment E st2 p c seq = Err (CtxPacket (PacketCommitmentNotFound seq)) \<and>
    get_packet_acknowledgement E st1 p' c' seq' = get_packet_acknowledgement E st p' c' seq' \<and>
    (path_location (ie_b64 E) (Commitment p' c' seq' :: unit ibc_path) \<noteq> path_location (ie_b64 E) (Commitment p c seq :: unit ibc_path) \<longrightarrow>
       get_packet_commitment E st1 p' c' seq' = get_packet_commitment E st p' c' seq')"
proof -
  have b: "base64_engine (ie_b64 E)" using assms(1) by (simp add: env_for_def)
  have t: "digest_ok d \<and> (\<exists>c. account_good d rent invoke (st_provable st) c)" using account_reach_good[OF assms(4,2)] assms(2) by blast
  obtain key where key: "key_from_commitment (ie_b64 E) p c seq = Ok key" "provable_set E ctx_err key v st = (st1, Ok ())"
    "provable_del E ctx_err key st1 = (st2, Ok ())"
    using assms(5,6) by (auto simp: store_packet_commitment_def delete_packet_commitment_def store_commitment_def delete_commitment_def
        storage_Ok split: if_splits)
  obtain k i where L: "path_location (ie_b64 E) (Commitment p c seq :: unit ibc_path) = Some (LocCommitment k i seq)"
    "key_deref key = loc_bytes (LocCommitment k i seq)" "loc_inv (LocCommitment k i seq)" using packet_key_loc(1)[OF b key(1)] by blast
  note S = account.set_at[OF assms(1) t assms(3) L(2,3) key(2)] and D = account.del_at[OF assms(1) _ L(2,3) key(3)]
  have "get_packet_commitment E st1 p c seq = Ok v"
    using S(3)[OF L(3)] by (simp add: get_packet_commitment_def key(1) provable_get_loc[OF L(2)] ok_or_def)
  moreover have "get_packet_commitment E st2 p c seq = Err (CtxPacket (PacketCommitmentNotFound seq))"
    using D(3)[OF S(1) L(3)] by (simp add: get_packet_commitment_def key(1) provable_get_loc[OF L(2)] ok_or_def)
  moreover have "path_location (ie_b64 E) (Ack p' c' seq' :: unit ibc_path) \<noteq> Some (LocCommitment k i seq)"
    by (auto simp: loc_channel_def bind_eq_Some_conv)
  ultimately show ?thesis using packet_lookup[OF b S(3)] L(1) by metis
qed

lemma ex_del_found:
  assumes "ex_reach t" "trie_get ex_ops t key = Ok (Some v)" "slice_from_bytes key = Some K"
  obtains t' found where "trie_del ex_digest ex_ops key t = (t', Ok found)"
proof -
  obtain t' res where r: "trie_del ex_digest ex_ops key t = (t', res)" by fastforce
  obtain c where c: "account_good ex_digest ex_rent ex_invoke t c" using account_reach_good[OF assms(1) ex_digest_ok] by blast
  have "content_get c (key_bits key) = Ok (Some v)"
    using resizable.sol.trie_get_spec[OF ex_digest_ok account_rep[OF c] assms(3)] assms(2) by simp
  then have "content_del_err c (key_bits key) = None" by (rule content_del_found)
  then have "res \<noteq> Err e" for e
    using resizable.sol.trie_del_spec[OF ex_digest_ok account_goodD(1,2)[OF c] assms(3) r] by (auto simp: trie_del_post_def)
  moreover have "res \<noteq> Panic" using resizable.sol.del_good[OF ex_digest_ok c[unfolded account_good_def] r] by blast
  ultimately show thesis using r by (cases res) (auto intro: that)
qed

theorem packet_commitment_roundtrip_witness:
  "\<exists>st1 st2. store_packet_commitment ex_ibc ''transfer'' ''channel-5'' 1 (replicate 32 7) ex_empty = (st1, Ok ()) \<and>
     get_packet_commitment ex_ibc st1 ''transfer'' ''channel-5'' 1 = Ok (replicate 32 7) \<and>
     delete_packet_commitment ex_ibc ''transfer'' ''channel-5'' 1 st1 = (st2, Ok ()) \<and>
     get_packet_commitment ex_ibc st2 ''transfer'' ''channel-5'' 1 = Err (CtxPacket (PacketCommitmentNotFound 1))"
proof -
  have b: "ie_b64 ex_ibc = b64_rfc" "ie_digest ex_ibc = ex_digest" "ie_ops ex_ibc = ex_ops" by (simp_all add: ex_ibc_def)
  obtain pc where pc: "port_channel_try_from b64_rfc ''transfer'' ''channel-5'' = Ok pc" by (rule ex_port_channel)
  let ?L = "LocCommitment (pc_port_key pc) (channel_counter (pc_channel_idx pc)) 1"
  obtain key where key: "trie_key_new TagCommitment (append_pair (append_port_channel pc) (append_u64 1)) = (Ok key :: (id_error, trie_key) outcome)"
    "key_deref key = loc_bytes ?L" using port_key_loc(4)[where ?'e = id_error, OF rfc.base64_engine_axioms pc, of TagCommitment 1] by auto
  have k: "key_from_commitment b64_rfc ''transfer'' ''channel-5'' 1 = Ok key"
    using pc key(1) by (simp add: key_from_commitment_def try_for_sequence_path_def)
  have inv: "loc_inv ?L" by (rule port_loc_inv(3)[OF port_key_loc(1)[OF rfc.base64_engine_axioms pc]])
  obtain t where t: "trie_set ex_digest ex_ops (loc_bytes ?L) (replicate 32 7) ex_trie = (t, Ok ())" "ex_reach t"
    "trie_get ex_ops t (loc_bytes ?L) = Ok (Some (replicate 32 7))" by (rule ex_set_loc[OF inv ex_hash_inv])
  have "slice_from_bytes (loc_bytes ?L) \<noteq> None" using t(1) run_op_too_long(1)[of "loc_bytes ?L" ex_digest ex_ops] by fastforce
  then obtain t' found where t': "trie_del ex_digest ex_ops (loc_bytes ?L) t = (t', Ok found)" using ex_del_found[OF t(2,3)] by blast
  have s: "store_packet_commitment ex_ibc ''transfer'' ''channel-5'' 1 (replicate 32 7) ex_empty = (ex_empty\<lparr>st_provable := t\<rparr>, Ok ())"
    using t(1) by (simp add: store_packet_commitment_def store_commitment_def provable_set_def b k key(2) st_bind_def ex_empty_def)
  have d: "delete_packet_commitment ex_ibc ''transfer'' ''channel-5'' 1 (ex_empty\<lparr>st_provable := t\<rparr>) = (ex_empty\<lparr>st_provable := t'\<rparr>, Ok ())"
    using t' by (simp add: delete_packet_commitment_def delete_commitment_def provable_del_def b k key(2) st_bind_def ex_empty_def)
  have "ex_reach (st_provable ex_empty)" using ex_reach by (simp add: ex_empty_def)
  from packet_commitment_roundtrip[OF ex_env_for ex_digest_ok ex_hash_inv this s d] s d show ?thesis by blast
qed

end
